(* ===== verification/Prelude.thy ===== *)
theory Prelude
  imports Main "HOL-Library.Word" "HOL-Library.Code_Target_Nat"
begin

text \<open>
  What every component of the development shares: the result type of code that may throw,
  the typed-array writes of JavaScript, binary search results over sorted lists, and the
  generic facts about lists, options and maps that the component proofs use.
\<close>

named_theorems result_simps \<open>evaluation of the error monad\<close>
named_theorems js_list \<open>facts on JavaScript array primitives\<close>

section \<open>Results of code that may throw\<close>

text \<open>
  \<open>Inl e\<close> is a thrown error, \<open>Inr x\<close> a returned value; \<open>bindE\<close> runs the rest of the
  code only when the first part returned.
\<close>

type_synonym byte = "8 word"

definition bindE :: "'e + 'a \<Rightarrow> ('a \<Rightarrow> 'e + 'b) \<Rightarrow> 'e + 'b" where
  "bindE m f = (case m of Inl e \<Rightarrow> Inl e | Inr x \<Rightarrow> f x)"

lemma bindE_Inl [simp, result_simps]: "bindE (Inl e) f = Inl e"
  by (simp add: bindE_def)

lemma bindE_Inr [simp, result_simps]: "bindE (Inr x) f = f x"
  by (simp add: bindE_def)

lemma bindE_eq_Inr [result_simps]:
  "bindE m f = Inr y \<longleftrightarrow> (\<exists>x. m = Inr x \<and> f x = Inr y)"
  by (cases m) auto

lemma bindE_eq_Inl:
  "bindE m f = Inl e \<longleftrightarrow> m = Inl e \<or> (\<exists>x. m = Inr x \<and> f x = Inl e)"
  by (cases m) auto

lemma bindE_assoc: "bindE (bindE m f) g = bindE m (\<lambda>x. bindE (f x) g)"
  by (cases m) auto

lemma bindE_cong [fundef_cong]:
  "m = m' \<Longrightarrow> (\<And>x. m' = Inr x \<Longrightarrow> f x = g x) \<Longrightarrow> bindE m f = bindE m' g"
  by (cases m') auto

text \<open>A loop over a list whose body may throw.\<close>

fun foldE :: "('s \<Rightarrow> 'a \<Rightarrow> 'e + 's) \<Rightarrow> 's \<Rightarrow> 'a list \<Rightarrow> 'e + 's" where
  "foldE f s [] = Inr s"
| "foldE f s (x # xs) = bindE (f s x) (\<lambda>s'. foldE f s' xs)"

lemma foldE_append: "foldE f s (xs @ ys) = bindE (foldE f s xs) (\<lambda>s'. foldE f s' ys)"
  by (induction xs arbitrary: s) (auto simp: bindE_assoc)

lemma foldE_invariant:
  assumes "foldE f s xs = Inr s'" and "P s"
    and "\<And>s x s'. x \<in> set xs \<Longrightarrow> P s \<Longrightarrow> f s x = Inr s' \<Longrightarrow> P s'"
  shows "P s'"
  using assms
proof (induction xs arbitrary: s)
  case Nil
  then show ?case by simp
next
  case (Cons x xs)
  then obtain t where t: "f s x = Inr t" "foldE f t xs = Inr s'"
    by (auto simp: bindE_eq_Inr)
  from t(1) Cons.prems(2,3) have "P t" by (meson list.set_intros(1))
  with t(2) Cons.prems(3) show ?case by (meson Cons.IH list.set_intros(2))
qed

text \<open>A check that throws \<open>e\<close> when its condition fails.\<close>

definition guardE :: "bool \<Rightarrow> 'e \<Rightarrow> 'e + unit" where
  "guardE b e = (if b then Inr () else Inl e)"

lemma guardE_simps [simp, result_simps]:
  "guardE True e = Inr ()" "guardE False e = Inl e"
  "guardE b e = Inr u \<longleftrightarrow> b" "guardE b e = Inl e' \<longleftrightarrow> \<not> b \<and> e' = e"
  by (auto simp: guardE_def)

section \<open>JavaScript array primitives\<close>

text \<open>\<open>target.set(source, offset)\<close> on a typed array that is long enough.\<close>

definition blit :: "'a list \<Rightarrow> nat \<Rightarrow> 'a list \<Rightarrow> 'a list" where
  "blit xs off ys = take off xs @ ys @ drop (off + length ys) xs"

lemma length_blit [simp, js_list]:
  "off + length ys \<le> length xs \<Longrightarrow> length (blit xs off ys) = length xs"
  by (simp add: blit_def)

lemma take_blit [js_list]:
  "off + length ys \<le> length xs \<Longrightarrow> take (off + length ys) (blit xs off ys) = take off xs @ ys"
  by (simp add: blit_def)

text \<open>\<open>array.slice(from, to)\<close> for natural bounds.\<close>

definition slice :: "'a list \<Rightarrow> nat \<Rightarrow> nat \<Rightarrow> 'a list" where
  "slice xs i j = take (j - i) (drop i xs)"

lemma slice_0 [simp]: "slice xs 0 n = take n xs"
  by (simp add: slice_def)

lemma slice_all [simp]: "slice xs i (length xs) = drop i xs"
  by (simp add: slice_def)

lemma length_slice: "length (slice xs i j) = min (j - i) (length xs - i)"
  by (simp add: slice_def)

lemma slice_append_tail: "i \<le> j \<Longrightarrow> take i xs @ slice xs i j = take j xs"
  by (simp add: slice_def take_add [symmetric])

lemma slice_drop: "i \<le> j \<Longrightarrow> slice xs i j @ drop j xs = drop i xs"
  using append_take_drop_id[of "j - i" "drop i xs"] by (simp add: slice_def)

text \<open>\<open>array.splice(index, remove, ...items)\<close> with natural arguments.\<close>

definition splice_at :: "'a list \<Rightarrow> nat \<Rightarrow> nat \<Rightarrow> 'a list \<Rightarrow> 'a list" where
  "splice_at xs i n ys = take i xs @ ys @ drop (i + n) xs"

lemma splice_at_nop [simp]: "splice_at xs i 0 [] = xs"
  by (simp add: splice_at_def)

lemma length_splice_at:
  "length (splice_at xs i n ys) = min i (length xs) + length ys + (length xs - (i + n))"
  by (simp add: splice_at_def min_def)

text \<open>\<open>array[index] = value\<close> for a present index, else an append (index = length).\<close>

definition store_at :: "'a list \<Rightarrow> nat \<Rightarrow> 'a \<Rightarrow> 'a list" where
  "store_at xs i x = (if i < length xs then xs[i := x] else xs @ [x])"

text \<open>\<open>array[index]\<close>, \<open>None\<close> for \<open>undefined\<close>.\<close>

definition nth_opt :: "'a list \<Rightarrow> nat \<Rightarrow> 'a option" where
  "nth_opt xs i = (if i < length xs then Some (xs ! i) else None)"

lemma nth_opt_Some [simp]: "i < length xs \<Longrightarrow> nth_opt xs i = Some (xs ! i)"
  by (simp add: nth_opt_def)

lemma nth_opt_eq_Some: "nth_opt xs i = Some x \<longleftrightarrow> i < length xs \<and> xs ! i = x"
  by (auto simp: nth_opt_def)

text \<open>\<open>array.at(-1)\<close> or \<open>array[array.length - 1]\<close>.\<close>

definition last_opt :: "'a list \<Rightarrow> 'a option" where
  "last_opt xs = (if xs = [] then None else Some (last xs))"

section \<open>Sorting with a comparator\<close>

text \<open>
  \<open>array.sort(compare)\<close> is stable, so for a consistent comparator its result is the one of the stable
  insertion sort.
\<close>

fun js_insert :: "('a \<Rightarrow> 'a \<Rightarrow> int) \<Rightarrow> 'a \<Rightarrow> 'a list \<Rightarrow> 'a list" where
  "js_insert cmp x [] = [x]"
| "js_insert cmp x (y # ys) = (if cmp x y \<le> 0 then x # y # ys else y # js_insert cmp x ys)"

definition js_sort :: "('a \<Rightarrow> 'a \<Rightarrow> int) \<Rightarrow> 'a list \<Rightarrow> 'a list" where
  "js_sort cmp xs = foldr (js_insert cmp) xs []"

lemma set_js_insert [simp, js_list]: "set (js_insert cmp x ys) = insert x (set ys)"
  by (induction ys) auto

lemma set_js_sort [simp, js_list]: "set (js_sort cmp xs) = set xs"
  by (induction xs) (auto simp: js_sort_def)

lemma distinct_js_sort: "distinct (js_sort cmp xs) = distinct xs"
proof -
  have i: "distinct (js_insert cmp x ys) \<longleftrightarrow> x \<notin> set ys \<and> distinct ys" for x ys
    by (induction ys) auto
  show ?thesis by (induction xs) (auto simp: js_sort_def i set_js_sort[unfolded js_sort_def])
qed

text \<open>A comparator that compares a strictly ordered key sorts by that key.\<close>

lemma js_sort_sorted:
  assumes "\<And>x y. cmp x y \<le> 0 \<longleftrightarrow> f x \<le> (f y :: 'k :: linorder)"
  shows "sorted (map f (js_sort cmp xs))"
proof -
  have i: "sorted (map f ys) \<Longrightarrow> sorted (map f (js_insert cmp x ys))" for x ys
    by (induction ys) (auto simp: assms)
  show ?thesis by (induction xs) (auto simp: js_sort_def i)
qed

text \<open>A list that is sorted already stays as it is.\<close>

lemma js_sort_id:
  assumes "sorted_wrt (\<lambda>x y. cmp x y \<le> 0) xs"
  shows "js_sort cmp xs = xs"
proof -
  have "js_insert cmp x ys = x # ys" if "\<forall>y \<in> set ys. cmp x y \<le> 0" for x ys
    using that by (cases ys) auto
  then show ?thesis using assms by (induction xs) (auto simp: js_sort_def)
qed

section \<open>Generic list facts\<close>


lemma concat_map_single [simp]: "concat (map (\<lambda>x. [x]) xs) = xs"
  by (induction xs) auto

lemma distinct_rev_snoc: "distinct (xs @ [x]) \<longleftrightarrow> distinct xs \<and> x \<notin> set xs"
  by auto

lemma map_upd_neq: "k \<noteq> k' \<Longrightarrow> (m(k \<mapsto> v)) k' = m k'"
  by simp

lemma find_split:
  assumes "List.find P xs = Some x"
  shows "\<exists>ys zs. xs = ys @ x # zs \<and> P x \<and> (\<forall>y \<in> set ys. \<not> P y)"
  using assms
proof (induction xs)
  case (Cons a xs)
  show ?case
  proof (cases "P a")
    case True
    then show ?thesis using Cons.prems by force
  next
    case False
    with Cons obtain ys zs where "xs = ys @ x # zs" "P x" "\<forall>y \<in> set ys. \<not> P y" by auto
    then have "a # xs = (a # ys) @ x # zs" "\<forall>y \<in> set (a # ys). \<not> P y" using False by auto
    then show ?thesis using \<open>P x\<close> by blast
  qed
qed simp

lemma find_append:
  "List.find P (xs @ ys) = (case List.find P xs of None \<Rightarrow> List.find P ys | Some x \<Rightarrow> Some x)"
  by (induction xs) auto

lemma find_filter_upt:
  assumes "List.find Q (filter P [a..<b]) = Some c"
  shows "a \<le> c \<and> c < b \<and> P c \<and> Q c \<and> (\<forall>j. a \<le> j \<longrightarrow> j < c \<longrightarrow> P j \<longrightarrow> \<not> Q j)"
  using assms
proof (induction "b - a" arbitrary: a)
  case (Suc n)
  then have a: "a < b" by simp
  show ?case
  proof (cases "P a \<and> Q a")
    case True
    then show ?thesis using Suc.prems a by (auto simp: upt_conv_Cons)
  next
    case False
    then have "List.find Q (filter P [Suc a..<b]) = Some c"
      using Suc.prems a by (auto simp: upt_conv_Cons split: if_splits)
    moreover have "n = b - Suc a" using Suc.hyps(2) by simp
    ultimately have c: "Suc a \<le> c \<and> c < b \<and> P c \<and> Q c \<and> (\<forall>j. Suc a \<le> j \<longrightarrow> j < c \<longrightarrow> P j \<longrightarrow> \<not> Q j)"
      by (intro Suc.hyps(1))
    have "\<not> Q j" if "a \<le> j" "j < c" "P j" for j
      using that c False by (cases "j = a") auto
    then show ?thesis using c by auto
  qed
qed simp

lemma filter_hd_none:
  assumes "filter P [a..<b] \<noteq> []"
  shows "list_all (\<lambda>j. \<not> P j) [a..<hd (filter P [a..<b])]"
proof -
  obtain h hs where h: "filter P [a..<b] = h # hs" using assms by (cases "filter P [a..<b]") simp_all
  then have "List.find (\<lambda>_. True) (filter P [a..<b]) = Some h" by simp
  from find_filter_upt[OF this] have "\<not> P j" if "a \<le> j" "j < h" for j using that by blast
  then show ?thesis by (auto simp: h list_all_iff)
qed

lemma rev_upt_split:
  "i < n \<Longrightarrow> rev [0..<n] = rev [Suc i..<n] @ i # rev [0..<i]"
  using upt_add_eq_append[of 0 i "n - i"] upt_conv_Cons[of i n] by simp

lemma find_index_bound:
  "List.find P xs = Some x \<Longrightarrow> x \<in> set xs \<and> P x"
  by (auto simp: find_Some_iff)

end
