(* ===== verification/Bytes.thy ===== *)
theory Bytes
  imports Prelude
begin

text \<open>
  Big-endian integers on byte arrays, as both the frame header
  (\<open>packages/protocol/src/framing.ts\<close>) and the CBOR argument encoder
  (\<open>packages/protocol/src/cbor/encoder.ts\<close>) write them: \<open>value >>> 8 * k\<close> stored into a
  \<open>Uint8Array\<close> cell, which keeps the value modulo 256.
\<close>

definition byte_at :: "nat \<Rightarrow> nat \<Rightarrow> byte" where
  "byte_at n k = of_nat (n div 256 ^ k)"

definition be16 :: "nat \<Rightarrow> byte list" where
  "be16 n = [byte_at n 1, byte_at n 0]"

definition be32 :: "nat \<Rightarrow> byte list" where
  "be32 n = [byte_at n 3, byte_at n 2, byte_at n 1, byte_at n 0]"

definition be64 :: "nat \<Rightarrow> byte list" where
  "be64 n = be32 (n div 2 ^ 32) @ be32 (n mod 2 ^ 32)"

text \<open>\<open>b[0] * 0x1000000 + b[1] * 0x10000 + b[2] * 0x100 + b[3]\<close> and its 16-bit form.\<close>

definition of_be16 :: "byte list \<Rightarrow> nat" where
  "of_be16 b = unat (b ! 0) * 0x100 + unat (b ! 1)"

definition of_be32 :: "byte list \<Rightarrow> nat" where
  "of_be32 b = unat (b ! 0) * 0x1000000 + unat (b ! 1) * 0x10000 + unat (b ! 2) * 0x100 + unat (b ! 3)"

lemma unat_byte_at: "unat (byte_at n k) = n div 256 ^ k mod 256"
  by (simp add: byte_at_def unat_of_nat)

lemma length_be [simp]: "length (be16 n) = 2" "length (be32 n) = 4" "length (be64 n) = 8"
  by (simp_all add: be16_def be32_def be64_def)

lemma of_be16_be16 [simp]: "n < 2 ^ 16 \<Longrightarrow> of_be16 (be16 n) = n"
  by (simp add: of_be16_def be16_def unat_byte_at)

lemma of_be32_be32 [simp]:
  assumes "n < 2 ^ 32"
  shows "of_be32 (be32 n) = n"
proof -
  define q1 q2 q3 where q: "q1 = n div 256" "q2 = q1 div 256" "q3 = q2 div 256"
  have d: "n div 65536 = q2" "n div 16777216 = q3"
    by (simp_all add: q div_mult2_eq [symmetric])
  have "q3 < 256"
    using assms by (simp add: q div_mult2_eq [symmetric])
  moreover have "n = q1 * 256 + n mod 256" "q1 = q2 * 256 + q1 mod 256" "q2 = q3 * 256 + q2 mod 256"
    by (simp_all add: q)
  ultimately have "q3 mod 256 * 16777216 + q2 mod 256 * 65536 + q1 mod 256 * 256 + n mod 256 = n"
    by simp
  then show ?thesis
    by (simp add: of_be32_def be32_def unat_byte_at d q(1) [symmetric])
qed

lemma byte_bound: "unat (b :: byte) < 256"
  using unsigned_less[of b] by simp

lemma of_be32_bound: "length b = 4 \<Longrightarrow> of_be32 b < 2 ^ 32"
  unfolding of_be32_def
  using byte_bound[of "b ! 0"] byte_bound[of "b ! 1"] byte_bound[of "b ! 2"] byte_bound[of "b ! 3"]
  by simp

lemma of_be16_bound: "of_be16 b < 2 ^ 16"
  unfolding of_be16_def
  using byte_bound[of "b ! 0"] byte_bound[of "b ! 1"] by simp

lemma base256_step: "d < 256 \<Longrightarrow> (q * 256 + d) mod 256 = d \<and> (q * 256 + d) div 256 = (q :: nat)"
  by simp

lemma base256_digits:
  assumes "a < 256" "b < 256" "c < 256" "d < 256"
  defines "n \<equiv> a * 16777216 + b * 65536 + c * 256 + (d :: nat)"
  shows "n div 16777216 mod 256 = a" "n div 65536 mod 256 = b" "n div 256 mod 256 = c" "n mod 256 = d"
proof -
  have n: "n = ((a * 256 + b) * 256 + c) * 256 + d" by (simp add: n_def)
  show "n mod 256 = d" unfolding n using base256_step[OF assms(4)] by blast
  have d1: "n div 256 = (a * 256 + b) * 256 + c" unfolding n using base256_step[OF assms(4)] by blast
  then show "n div 256 mod 256 = c" using base256_step[OF assms(3)] by metis
  have d2: "n div 65536 = a * 256 + b"
  proof -
    have "n div 65536 = n div 256 div 256" by (simp flip: div_mult2_eq)
    then show ?thesis unfolding d1 using base256_step[OF assms(3), of "a * 256 + b"] by metis
  qed
  then show "n div 65536 mod 256 = b" using base256_step[OF assms(2)] by metis
  have "n div 16777216 = a"
  proof -
    have "n div 16777216 = n div 65536 div 256" by (simp flip: div_mult2_eq)
    then show ?thesis unfolding d2 using base256_step[OF assms(2), of a] by metis
  qed
  then show "n div 16777216 mod 256 = a" using assms(1) by simp
qed

lemma be32_of_be32 [simp]:
  assumes "length b = 4"
  shows "be32 (of_be32 b) = b"
proof -
  obtain b0 b1 b2 b3 where b: "b = [b0, b1, b2, b3]"
    using assms by (auto simp: numeral_eq_Suc length_Suc_conv)
  have e: "byte_at n k = x" if "n div 256 ^ k mod 256 = unat x" for n k and x :: byte
    using that by (simp add: word_eq_iff_unsigned [where ?'a = nat] unat_byte_at)
  show ?thesis
    using base256_digits[OF byte_bound[of b0] byte_bound[of b1] byte_bound[of b2] byte_bound[of b3]]
    by (auto simp: be32_def of_be32_def b intro!: e)
qed

end
