(* ===== verification/Framing.thy ===== *)
theory Framing
  imports Bytes
begin

text \<open>
  \<open>packages/protocol/src/framing.ts\<close>: length-prefixed frames over a byte stream. The
  decoder keeps its header array, its payload blocks and its three counters; a push runs the
  two nested loops of the source over one chunk.
\<close>

section \<open>State\<close>

definition FRAME_HEADER_LENGTH :: nat where "FRAME_HEADER_LENGTH = 4"
definition MAX_UINT32 :: nat where "MAX_UINT32 = 0xffffffff"
definition PAYLOAD_BLOCK_SIZE :: nat where "PAYLOAD_BLOCK_SIZE = 64 * 1024"
definition DEFAULT_MAX_FRAME_LENGTH :: int where "DEFAULT_MAX_FRAME_LENGTH = 16 * 1024 * 1024"

datatype decoder_state = Open | Ended | Failed

datatype frame_error =
    DecoderHasEnded
  | DecoderHasFailed
  | FrameTooLong nat nat      \<comment> \<open>frame length, configured limit\<close>
  | TruncatedFrame
  | FrameRangeError

text \<open>
  \<open>currentPayloadBlock\<close> is the block pushed last onto \<open>payloadBlocks\<close> or undefined, so it
  is a flag; a write to it is a write to the last block.
\<close>

record frame_decoder =
  header :: "byte list"
  headerLength :: nat
  maxFrameLength :: nat
  payloadBlocks :: "byte list list"
  hasCurrentBlock :: bool
  currentBlockLength :: nat
  expectedLength :: "nat option"
  payloadLength :: nat
  fstate :: decoder_state

section \<open>Operations\<close>

text \<open>\<open>Number.isSafeInteger\<close> holds of every integer the bounds admit.\<close>

definition resolveMaxFrameLength :: "int option \<Rightarrow> frame_error + nat" where
  "resolveMaxFrameLength opt =
     (let value = (case opt of None \<Rightarrow> DEFAULT_MAX_FRAME_LENGTH | Some v \<Rightarrow> v)
      in if value < 0 \<or> value > int MAX_UINT32 then Inl FrameRangeError else Inr (nat value))"

definition encodeFrame :: "byte list \<Rightarrow> frame_error + byte list" where
  "encodeFrame payload =
     (if length payload > MAX_UINT32 then Inl FrameRangeError
      else
        let frame = replicate (FRAME_HEADER_LENGTH + length payload) 0;
            n = length payload;
            frame = frame[0 := byte_at n 3];
            frame = frame[1 := byte_at n 2];
            frame = frame[2 := byte_at n 1];
            frame = frame[3 := byte_at n 0]
        in Inr (blit frame FRAME_HEADER_LENGTH payload))"

definition new_decoder :: "int option \<Rightarrow> frame_error + frame_decoder" where
  "new_decoder opt = bindE (resolveMaxFrameLength opt) (\<lambda>m. Inr
     \<lparr>header = replicate FRAME_HEADER_LENGTH 0, headerLength = 0, maxFrameLength = m,
      payloadBlocks = [], hasCurrentBlock = False, currentBlockLength = 0,
      expectedLength = None, payloadLength = 0, fstate = Open\<rparr>)"

text \<open>The state \<open>fail\<close> leaves behind before it throws.\<close>

definition fail_state :: "frame_decoder \<Rightarrow> frame_decoder" where
  "fail_state d = d\<lparr>fstate := Failed, headerLength := 0, payloadBlocks := [],
     hasCurrentBlock := False, currentBlockLength := 0, expectedLength := None, payloadLength := 0\<rparr>"

definition reset_payload :: "frame_decoder \<Rightarrow> frame_decoder" where
  "reset_payload d = d\<lparr>payloadBlocks := [], hasCurrentBlock := False,
     currentBlockLength := 0, payloadLength := 0\<rparr>"

text \<open>The head of the loop body while no frame is expected: more header bytes.\<close>

definition take_header :: "frame_decoder \<Rightarrow> byte list \<Rightarrow> nat \<Rightarrow> frame_decoder \<times> nat" where
  "take_header d chunk off =
     (let headerBytes = min (FRAME_HEADER_LENGTH - headerLength d) (length chunk - off)
      in (d\<lparr>header := blit (header d) (headerLength d) (slice chunk off (off + headerBytes)),
            headerLength := headerLength d + headerBytes\<rparr>, off + headerBytes))"

text \<open>A fresh block when there is none or the current one is full.\<close>

definition ensure_block :: "frame_decoder \<Rightarrow> nat \<Rightarrow> frame_decoder" where
  "ensure_block d expected =
     (if \<not> hasCurrentBlock d \<or> currentBlockLength d = length (last (payloadBlocks d))
      then d\<lparr>payloadBlocks := payloadBlocks d @
                 [replicate (min PAYLOAD_BLOCK_SIZE (expected - payloadLength d)) 0],
             hasCurrentBlock := True, currentBlockLength := 0\<rparr>
      else d)"

definition copy_into_block :: "frame_decoder \<Rightarrow> byte list \<Rightarrow> nat \<Rightarrow> frame_decoder \<times> nat" where
  "copy_into_block d chunk off =
     (let block = last (payloadBlocks d);
          payloadBytes = min (length block - currentBlockLength d) (length chunk - off)
      in (d\<lparr>payloadBlocks := butlast (payloadBlocks d) @
               [blit block (currentBlockLength d) (slice chunk off (off + payloadBytes))],
            currentBlockLength := currentBlockLength d + payloadBytes,
            payloadLength := payloadLength d + payloadBytes\<rparr>, off + payloadBytes))"

text \<open>The inner \<open>while\<close>; \<open>None\<close> when the fuel runs out.\<close>

fun fill_payload :: "nat \<Rightarrow> frame_decoder \<Rightarrow> nat \<Rightarrow> byte list \<Rightarrow> nat \<Rightarrow> (frame_decoder \<times> nat) option" where
  "fill_payload 0 d expected chunk off = None"
| "fill_payload (Suc fuel) d expected chunk off =
     (if off < length chunk \<and> payloadLength d < expected
      then let (d', off') = copy_into_block (ensure_block d expected) chunk off
           in fill_payload fuel d' expected chunk off'
      else Some (d, off))"

text \<open>The frame that is complete: the only block, or the blocks copied into one array.\<close>

definition join_blocks :: "byte list list \<Rightarrow> byte list" where
  "join_blocks blocks = (if length blocks = 1 then hd blocks else concat blocks)"

text \<open>One round of the outer loop: go on with a state, or throw.\<close>

datatype loop_step =
    Continue frame_decoder nat "byte list list"
  | Throw frame_decoder frame_error
  | OutOfFuel

definition payload_step ::
    "nat \<Rightarrow> frame_decoder \<Rightarrow> nat \<Rightarrow> byte list \<Rightarrow> nat \<Rightarrow> byte list list \<Rightarrow> loop_step" where
  "payload_step fuel d expected chunk off frames =
     (case fill_payload fuel d expected chunk off of
        None \<Rightarrow> OutOfFuel
      | Some (d, off) \<Rightarrow>
          if payloadLength d = expected
          then Continue ((reset_payload d)\<lparr>expectedLength := None\<rparr>) off
                 (frames @ [join_blocks (payloadBlocks d)])
          else Continue d off frames)"

definition push_body :: "frame_decoder \<Rightarrow> byte list \<Rightarrow> nat \<Rightarrow> byte list list \<Rightarrow> loop_step" where
  "push_body d chunk off frames =
     (case expectedLength d of
        Some expected \<Rightarrow> payload_step (Suc (length chunk)) d expected chunk off frames
      | None \<Rightarrow>
          (let (d, off) = take_header d chunk off in
           if headerLength d < FRAME_HEADER_LENGTH then Continue d off frames
           else
             let frameLength = of_be32 (header d); d = d\<lparr>headerLength := 0\<rparr> in
             if frameLength > maxFrameLength d
             then Throw (fail_state d) (FrameTooLong frameLength (maxFrameLength d))
             else if frameLength = 0 then Continue d off (frames @ [[]])
             else payload_step (Suc (length chunk))
                    (reset_payload (d\<lparr>expectedLength := Some frameLength\<rparr>)) frameLength chunk off frames))"

fun push_loop :: "nat \<Rightarrow> frame_decoder \<Rightarrow> byte list \<Rightarrow> nat \<Rightarrow> byte list list \<Rightarrow>
    (frame_decoder \<times> (frame_error + byte list list)) option" where
  "push_loop 0 d chunk off frames = None"
| "push_loop (Suc fuel) d chunk off frames =
     (if \<not> off < length chunk then Some (d, Inr frames)
      else case push_body d chunk off frames of
        Continue d' off' frames' \<Rightarrow> push_loop fuel d' chunk off' frames'
      | Throw d' e \<Rightarrow> Some (d', Inl e)
      | OutOfFuel \<Rightarrow> None)"

text \<open>Each round of either loop takes a byte of the chunk, so the chunk's length bounds both.\<close>

definition push :: "frame_decoder \<Rightarrow> byte list \<Rightarrow> (frame_decoder \<times> (frame_error + byte list list)) option" where
  "push d chunk =
     (case fstate d of
        Ended \<Rightarrow> Some (d, Inl DecoderHasEnded)
      | Failed \<Rightarrow> Some (d, Inl DecoderHasFailed)
      | Open \<Rightarrow> push_loop (Suc (length chunk)) d chunk 0 [])"

definition end_stream :: "frame_decoder \<Rightarrow> frame_decoder \<times> (frame_error + unit)" where
  "end_stream d =
     (case fstate d of
        Ended \<Rightarrow> (d, Inl DecoderHasEnded)
      | Failed \<Rightarrow> (d, Inl DecoderHasFailed)
      | Open \<Rightarrow> if headerLength d \<noteq> 0 \<or> expectedLength d \<noteq> None
                then (fail_state d, Inl TruncatedFrame)
                else (d\<lparr>fstate := Ended\<rparr>, Inr ()))"

section \<open>Specification: parsing the bytes received so far\<close>

text \<open>
  The frames at the front of a byte string, and the bytes left over (\<open>None\<close> when a header
  announces a frame longer than the limit).
\<close>

function parse_frames :: "nat \<Rightarrow> byte list \<Rightarrow> byte list list \<times> byte list option" where
  "parse_frames m bs =
     (if length bs < 4 then ([], Some bs)
      else let n = of_be32 bs in
        if n > m then ([], None)
        else if length bs < 4 + n then ([], Some bs)
        else let (fs, r) = parse_frames m (drop (4 + n) bs) in (take n (drop 4 bs) # fs, r))"
  by pat_completeness auto
termination
  by (relation "measure (\<lambda>(m, bs). length bs)") auto

declare parse_frames.simps [simp del]

lemma of_be32_append [simp]:
  assumes "4 \<le> length h"
  shows "of_be32 (h @ t) = of_be32 h"
proof -
  have "0 < length h" "1 < length h" "2 < length h" "3 < length h"
    using assms by auto
  then show ?thesis
    by (simp only: of_be32_def nth_append if_True)
qed

lemma parse_short: "length bs < 4 \<Longrightarrow> parse_frames m bs = ([], Some bs)"
  by (simp add: parse_frames.simps)

lemma parse_long: "length h = 4 \<Longrightarrow> of_be32 h > m \<Longrightarrow> parse_frames m (h @ t) = ([], None)"
  by (simp add: parse_frames.simps)

lemma parse_partial:
  "length h = 4 \<Longrightarrow> of_be32 h \<le> m \<Longrightarrow> length t < of_be32 h \<Longrightarrow> parse_frames m (h @ t) = ([], Some (h @ t))"
  by (simp add: parse_frames.simps)

lemma parse_whole:
  "length h = 4 \<Longrightarrow> of_be32 h \<le> m \<Longrightarrow> length p = of_be32 h \<Longrightarrow>
   parse_frames m (h @ p @ t) = (p # fst (parse_frames m t), snd (parse_frames m t))"
  by (subst parse_frames.simps) (auto simp: Let_def split: prod.splits)

lemma parse_append:
  "parse_frames m a = (fs, Some r) \<Longrightarrow>
   parse_frames m (a @ b) = (fs @ fst (parse_frames m (r @ b)), snd (parse_frames m (r @ b)))"
proof (induction m a arbitrary: fs r rule: parse_frames.induct)
  case (1 m bs)
  consider "length bs < 4" | "4 \<le> length bs" "of_be32 bs \<le> m" "length bs < 4 + of_be32 bs"
    | "4 \<le> length bs" "of_be32 bs \<le> m" "4 + of_be32 bs \<le> length bs"
    using "1.prems" by (subst (asm) parse_frames.simps) (auto simp: Let_def split: if_splits)
  then show ?case
  proof cases
    case 3
    define n where "n = of_be32 bs"
    obtain fs' where fs': "parse_frames m (drop (4 + n) bs) = (fs', Some r)" "fs = take n (drop 4 bs) # fs'"
      using "1.prems" 3 by (subst (asm) parse_frames.simps) (auto simp: Let_def n_def split: prod.splits)
    have "parse_frames m (drop (4 + n) bs @ b) = (fs' @ fst (parse_frames m (r @ b)), snd (parse_frames m (r @ b)))"
      using "1.IH"[OF _ refl _ _ fs'(1)[unfolded n_def]] 3 by (simp add: n_def)
    moreover have "of_be32 (bs @ b) = n"
      using 3 by (simp add: n_def)
    ultimately show ?thesis
      using 3 fs'(2) by (subst parse_frames.simps) (simp add: Let_def n_def)
  qed (use "1.prems" in \<open>auto simp: parse_frames.simps\<close>)
qed

section \<open>The decoder refines the specification\<close>

definition written :: "frame_decoder \<Rightarrow> byte list" where
  "written d = take (payloadLength d) (concat (payloadBlocks d))"

definition blocks_ok :: "frame_decoder \<Rightarrow> nat \<Rightarrow> bool" where
  "blocks_ok d n \<longleftrightarrow>
     (if hasCurrentBlock d
      then payloadBlocks d \<noteq> [] \<and>
           payloadLength d = length (concat (butlast (payloadBlocks d))) + currentBlockLength d \<and>
           currentBlockLength d \<le> length (last (payloadBlocks d)) \<and>
           length (concat (payloadBlocks d)) \<le> n
      else payloadBlocks d = [] \<and> payloadLength d = 0)"

definition pending :: "frame_decoder \<Rightarrow> byte list" where
  "pending d =
     (case expectedLength d of
        None \<Rightarrow> take (headerLength d) (header d)
      | Some n \<Rightarrow> be32 n @ written d)"

definition decoder_inv :: "frame_decoder \<Rightarrow> bool" where
  "decoder_inv d \<longleftrightarrow>
     fstate d = Open \<and> length (header d) = 4 \<and> headerLength d < 4 \<and> maxFrameLength d \<le> MAX_UINT32 \<and>
     (case expectedLength d of
        None \<Rightarrow> True
      | Some n \<Rightarrow> headerLength d = 0 \<and> 0 < n \<and> n \<le> maxFrameLength d \<and> payloadLength d < n \<and> blocks_ok d n)"

lemma reset_payload_eqD:
  "reset_payload d' = reset_payload d \<Longrightarrow>
   header d' = header d \<and> headerLength d' = headerLength d \<and> maxFrameLength d' = maxFrameLength d \<and>
   expectedLength d' = expectedLength d \<and> fstate d' = fstate d"
  by (cases d; cases d') (simp add: reset_payload_def)

lemma concat_butlast_last: "xs \<noteq> [] \<Longrightarrow> concat xs = concat (butlast xs) @ last xs"
  by (metis append_butlast_last_id concat.simps concat_append append_Nil2)

lemma ensure_block_spec:
  assumes "blocks_ok d n" "payloadLength d < n"
  defines "d' \<equiv> ensure_block d n"
  shows "blocks_ok d' n" "hasCurrentBlock d'" "currentBlockLength d' < length (last (payloadBlocks d'))"
    "written d' = written d" "payloadLength d' = payloadLength d" "reset_payload d' = reset_payload d"
proof -
  show "blocks_ok d' n" "hasCurrentBlock d'" "currentBlockLength d' < length (last (payloadBlocks d'))"
    "payloadLength d' = payloadLength d" "reset_payload d' = reset_payload d"
    using assms
    by (auto simp: d'_def ensure_block_def blocks_ok_def reset_payload_def PAYLOAD_BLOCK_SIZE_def
        concat_butlast_last split: if_splits)
  have "payloadLength d = length (concat (payloadBlocks d))" if "d' \<noteq> d"
    using assms that
    by (auto simp: d'_def ensure_block_def blocks_ok_def concat_butlast_last split: if_splits)
  then show "written d' = written d"
    by (cases "d' = d") (auto simp: written_def d'_def ensure_block_def)
qed

lemma copy_into_block_spec:
  assumes "blocks_ok d n" "hasCurrentBlock d" "off \<le> length chunk"
  defines "k \<equiv> min (length (last (payloadBlocks d)) - currentBlockLength d) (length chunk - off)"
  obtains d' where "copy_into_block d chunk off = (d', off + k)" "blocks_ok d' n"
    "payloadLength d' = payloadLength d + k" "written d' = written d @ take k (drop off chunk)"
    "reset_payload d' = reset_payload d" "payloadLength d + k \<le> n"
proof
  let ?b = "last (payloadBlocks d)" and ?cur = "currentBlockLength d"
  define s where "s = slice chunk off (off + k)"
  define d' where "d' = d\<lparr>payloadBlocks := butlast (payloadBlocks d) @ [blit ?b ?cur s],
            currentBlockLength := ?cur + k, payloadLength := payloadLength d + k\<rparr>"
  have ok: "payloadBlocks d \<noteq> []" "payloadLength d = length (concat (butlast (payloadBlocks d))) + ?cur"
    "?cur \<le> length ?b" "length (concat (payloadBlocks d)) \<le> n"
    using assms(1,2) by (auto simp: blocks_ok_def)
  have k: "k \<le> length ?b - ?cur" "k \<le> length chunk - off"
    by (simp_all add: k_def)
  have s: "s = take k (drop off chunk)" "length s = k"
    using k(2) by (simp_all add: s_def slice_def)
  have fits: "?cur + length s \<le> length ?b"
    using k(1) ok(3) s(2) by simp
  show "copy_into_block d chunk off = (d', off + k)"
    by (simp add: copy_into_block_def d'_def s_def k_def Let_def)
  have total: "length (concat (butlast (payloadBlocks d))) + length ?b \<le> n"
    using ok(4) concat_butlast_last[OF ok(1)] by simp
  show "blocks_ok d' n"
    using assms(2) ok(2) fits total s(2) by (simp add: blocks_ok_def d'_def)
  show "payloadLength d' = payloadLength d + k" "reset_payload d' = reset_payload d"
    by (simp_all add: d'_def reset_payload_def)
  show "written d' = written d @ take k (drop off chunk)"
    using take_blit[OF fits] ok(2) s
    by (simp add: written_def d'_def concat_butlast_last[OF ok(1)])
  show "payloadLength d + k \<le> n"
    using ok(2) fits total s(2) by simp
qed

lemma fill_payload_spec:
  assumes "blocks_ok d n" "payloadLength d \<le> n" "off \<le> length chunk" "length chunk - off < fuel"
  defines "k \<equiv> min (n - payloadLength d) (length chunk - off)"
  shows "\<exists>d'. fill_payload fuel d n chunk off = Some (d', off + k) \<and> blocks_ok d' n \<and>
    payloadLength d' = payloadLength d + k \<and> written d' = written d @ take k (drop off chunk) \<and>
    reset_payload d' = reset_payload d"
  using assms(1-4) unfolding k_def
proof (induction fuel arbitrary: d off)
  case 0
  then show ?case by simp
next
  case (Suc fuel)
  show ?case
  proof (cases "off < length chunk \<and> payloadLength d < n")
    case False
    then have "min (n - payloadLength d) (length chunk - off) = 0"
      using Suc.prems by auto
    with False Suc.prems show ?thesis by auto
  next
    case True
    define e where "e = ensure_block d n"
    note e = ensure_block_spec[OF Suc.prems(1), folded e_def]
    from True have lt: "payloadLength d < n" by simp
    define j where "j = min (length (last (payloadBlocks e)) - currentBlockLength e) (length chunk - off)"
    obtain c where c: "copy_into_block e chunk off = (c, off + j)" "blocks_ok c n"
      "payloadLength c = payloadLength e + j" "written c = written e @ take j (drop off chunk)"
      "reset_payload c = reset_payload e" "payloadLength e + j \<le> n"
      using copy_into_block_spec[OF e(1)[OF lt] e(2)[OF lt] Suc.prems(3)] unfolding j_def by metis
    have j: "0 < j" "j \<le> length chunk - off"
      using True e(3)[OF lt] by (auto simp: j_def)
    define k' where "k' = min (n - payloadLength c) (length chunk - (off + j))"
    have "payloadLength c \<le> n" "off + j \<le> length chunk" "length chunk - (off + j) < fuel"
      using Suc.prems(3,4) c(3,6) j True by auto
    from Suc.IH[OF c(2) this, folded k'_def]
    obtain d' where d': "fill_payload fuel c n chunk (off + j) = Some (d', off + j + k')" "blocks_ok d' n"
      "payloadLength d' = payloadLength c + k'" "written d' = written c @ take k' (drop (off + j) chunk)"
      "reset_payload d' = reset_payload c"
      by blast
    have k: "min (n - payloadLength d) (length chunk - off) = j + k'"
      using j c(3,6) e(5)[OF lt] by (simp add: k'_def)
    have "take (j + k') (drop off chunk) = take j (drop off chunk) @ take k' (drop (off + j) chunk)"
      by (simp add: take_add add.commute)
    then show ?thesis
      using True c d' e(4,5,6)[OF lt] by (auto simp: k e_def [symmetric] Let_def add.assoc)
  qed
qed

declare fill_payload.simps [simp del]

lemma join_blocks_concat [simp]: "join_blocks bs = concat bs"
  by (cases bs rule: list.exhaust[case_product list.exhaust[of "tl bs"]])
    (auto simp: join_blocks_def length_Suc_conv)

text \<open>One round of the outer loop, as one step of the specification.\<close>

definition step_ok :: "frame_decoder \<Rightarrow> byte list \<Rightarrow> nat \<Rightarrow> byte list list \<Rightarrow> loop_step \<Rightarrow> bool" where
  "step_ok d chunk off frames st =
     (case st of
        Continue d' off' frames' \<Rightarrow>
          off < off' \<and> off' \<le> length chunk \<and> decoder_inv d' \<and> maxFrameLength d' = maxFrameLength d \<and>
          (\<exists>fs. frames' = frames @ fs \<and>
             parse_frames (maxFrameLength d) (pending d @ drop off chunk) =
               (fs @ fst (parse_frames (maxFrameLength d) (pending d' @ drop off' chunk)),
                snd (parse_frames (maxFrameLength d) (pending d' @ drop off' chunk))))
      | Throw d' e \<Rightarrow> fstate d' = Failed \<and>
          (\<exists>n. e = FrameTooLong n (maxFrameLength d) \<and> maxFrameLength d < n) \<and>
          parse_frames (maxFrameLength d) (pending d @ drop off chunk) = ([], None)
      | OutOfFuel \<Rightarrow> False)"

lemma payload_step_ok:
  assumes inv: "blocks_ok d n" "payloadLength d < n" "expectedLength d = Some n" "headerLength d = 0"
    "n \<le> maxFrameLength d" "maxFrameLength d \<le> MAX_UINT32" "length (header d) = 4" "fstate d = Open"
    and off: "off \<le> length chunk" "off0 < off \<or> off < length chunk" "off0 \<le> off"
    and same: "maxFrameLength d0 = maxFrameLength d" "pending d0 @ drop off0 chunk = pending d @ drop off chunk"
  shows "step_ok d0 chunk off0 frames (payload_step (Suc (length chunk)) d n chunk off frames)"
proof -
  define k where "k = min (n - payloadLength d) (length chunk - off)"
  obtain d' where d': "fill_payload (Suc (length chunk)) d n chunk off = Some (d', off + k)" "blocks_ok d' n"
      "payloadLength d' = payloadLength d + k" "written d' = written d @ take k (drop off chunk)"
      "reset_payload d' = reset_payload d"
    using fill_payload_spec[OF inv(1) less_imp_le[OF inv(2)] off(1) less_Suc_eq_le[THEN iffD2, OF diff_le_self], folded k_def]
    by blast
  have keep: "expectedLength d' = Some n" "headerLength d' = 0" "maxFrameLength d' = maxFrameLength d"
    "header d' = header d" "fstate d' = Open"
    using reset_payload_eqD[OF d'(5)] inv by auto
  have n: "n < 2 ^ 32" "of_be32 (be32 n) = n"
    using inv(5,6) by (simp_all add: MAX_UINT32_def)
  have progress: "off0 < off + k" "off + k \<le> length chunk"
    using off inv(2) by (auto simp: k_def)
  have split: "pending d0 @ drop off0 chunk = be32 n @ written d' @ drop (off + k) chunk"
    using d'(4) same(2) inv(3) by (simp add: pending_def add.commute[of off k] flip: drop_drop)
  show ?thesis
  proof (cases "payloadLength d' = n")
    case True
    then have full: "written d' = concat (payloadBlocks d')" "length (written d') = n"
      using d'(2) inv(2) True
      by (auto simp: written_def blocks_ok_def concat_butlast_last split: if_splits)
    have "parse_frames (maxFrameLength d) (be32 n @ written d' @ drop (off + k) chunk) =
      (written d' # fst (parse_frames (maxFrameLength d) (drop (off + k) chunk)),
       snd (parse_frames (maxFrameLength d) (drop (off + k) chunk)))"
      by (rule parse_whole) (use inv(5) n full in simp_all)
    then show ?thesis
      using True d'(1) keep inv progress full split same(1)
      by (simp add: payload_step_def step_ok_def decoder_inv_def reset_payload_def pending_def)
  next
    case False
    moreover have "payloadLength d' < n"
      using False d'(3) inv(2) by (auto simp: k_def)
    ultimately show ?thesis
      using d'(1,2) keep inv(1,2,5,6,7,8) progress split same(1)
      by (simp add: payload_step_def step_ok_def decoder_inv_def pending_def)
  qed
qed

lemma push_body_ok:
  assumes inv: "decoder_inv d" and off: "off < length chunk"
  shows "step_ok d chunk off frames (push_body d chunk off frames)"
proof (cases "expectedLength d")
  case (Some n)
  then show ?thesis
    using inv off by (auto simp: decoder_inv_def push_body_def intro!: payload_step_ok)
next
  case None
  define k where "k = min (4 - headerLength d) (length chunk - off)"
  define h where "h = blit (header d) (headerLength d) (slice chunk off (off + k))"
  have hd: "length (header d) = 4" "headerLength d < 4" "maxFrameLength d \<le> MAX_UINT32" "fstate d = Open"
    using inv by (auto simp: decoder_inv_def)
  have k: "0 < k" "k \<le> length chunk - off" "k \<le> 4 - headerLength d"
    using off hd(2) by (auto simp: k_def)
  have s: "slice chunk off (off + k) = take k (drop off chunk)" "length (take k (drop off chunk)) = k"
    using k(2) by (simp_all add: slice_def)
  have h: "length h = 4" "take (headerLength d + k) h = take (headerLength d) (header d) @ take k (drop off chunk)"
    using k hd(1,2) s take_blit[of "headerLength d" "take k (drop off chunk)" "header d"]
    by (simp_all add: h_def)
  have th: "take_header d chunk off = (d\<lparr>header := h, headerLength := headerLength d + k\<rparr>, off + k)"
    by (simp add: take_header_def FRAME_HEADER_LENGTH_def k_def h_def Let_def)
  have pend: "pending d @ drop off chunk = take (headerLength d + k) h @ drop (off + k) chunk"
    using None h(2) by (simp add: pending_def add.commute[of off k] flip: drop_drop)
  show ?thesis
  proof (cases "headerLength d + k < 4")
    case True
    then show ?thesis
      using None th h(1) hd k pend off
      by (simp add: push_body_def step_ok_def decoder_inv_def pending_def FRAME_HEADER_LENGTH_def)
  next
    case False
    then have k4: "headerLength d + k = 4" using k(3) hd(2) by simp
    with pend h(1) have pend: "pending d @ drop off chunk = h @ drop (off + k) chunk" by simp
    define n where "n = of_be32 h"
    have hn: "be32 n = h" "of_be32 h = n" using h(1) by (simp_all add: n_def)
    define d1 where "d1 = d\<lparr>header := h, headerLength := 0\<rparr>"
    have body: "push_body d chunk off frames =
      (if n > maxFrameLength d then Throw (fail_state d1) (FrameTooLong n (maxFrameLength d))
       else if n = 0 then Continue d1 (off + k) (frames @ [[]])
       else payload_step (Suc (length chunk)) (reset_payload (d1\<lparr>expectedLength := Some n\<rparr>)) n chunk (off + k) frames)"
      using None th k4 by (simp add: push_body_def FRAME_HEADER_LENGTH_def d1_def n_def Let_def)
    show ?thesis
    proof (cases "n > maxFrameLength d")
      case True
      then show ?thesis
        using body pend h(1) hn(2) parse_long by (simp add: step_ok_def fail_state_def)
    next
      case le: False
      show ?thesis
      proof (cases "n = 0")
        case True
        have "parse_frames (maxFrameLength d) (h @ [] @ drop (off + k) chunk) =
           ([] # fst (parse_frames (maxFrameLength d) (drop (off + k) chunk)),
            snd (parse_frames (maxFrameLength d) (drop (off + k) chunk)))"
          by (rule parse_whole) (use h(1) hn(2) True in simp_all)
        then show ?thesis
          using body True pend k hd h(1) None
          by (simp add: step_ok_def decoder_inv_def d1_def pending_def)
      next
        case False
        have "step_ok d chunk off frames
          (payload_step (Suc (length chunk)) (reset_payload (d1\<lparr>expectedLength := Some n\<rparr>)) n chunk (off + k) frames)"
          by (rule payload_step_ok)
            (use False le k hd h(1) hn pend in
              \<open>simp_all add: d1_def reset_payload_def blocks_ok_def pending_def written_def\<close>)
        then show ?thesis
          using body False le by simp
      qed
    qed
  qed
qed

text \<open>The whole push: the frames the specification finds, and its left-over bytes as the new state.\<close>

definition push_ok ::
    "frame_decoder \<Rightarrow> byte list \<Rightarrow> byte list list \<Rightarrow> (frame_decoder \<times> (frame_error + byte list list)) option \<Rightarrow> bool" where
  "push_ok d bytes frames res =
     (case res of
        None \<Rightarrow> False
      | Some (d', r) \<Rightarrow>
          (case parse_frames (maxFrameLength d) bytes of
             (fs, Some rest) \<Rightarrow> r = Inr (frames @ fs) \<and> decoder_inv d' \<and> pending d' = rest \<and>
               maxFrameLength d' = maxFrameLength d
           | (fs, None) \<Rightarrow> fstate d' = Failed \<and>
               (\<exists>n. r = Inl (FrameTooLong n (maxFrameLength d)) \<and> maxFrameLength d < n)))"

lemma parse_pending:
  assumes "decoder_inv d"
  shows "parse_frames (maxFrameLength d) (pending d) = ([], Some (pending d))"
proof (cases "expectedLength d")
  case None
  then show ?thesis
    using assms by (auto simp: pending_def decoder_inv_def intro!: parse_short)
next
  case (Some n)
  then have "n < 2 ^ 32" "n \<le> maxFrameLength d" "payloadLength d < n"
    using assms by (auto simp: decoder_inv_def MAX_UINT32_def)
  then show ?thesis
    using Some by (simp add: pending_def written_def parse_partial)
qed

lemma push_loop_ok:
  assumes "decoder_inv d" "off \<le> length chunk" "length chunk - off < fuel"
  shows "push_ok d (pending d @ drop off chunk) frames (push_loop fuel d chunk off frames)"
  using assms
proof (induction fuel arbitrary: d off frames)
  case 0
  then show ?case by simp
next
  case (Suc fuel)
  show ?case
  proof (cases "off < length chunk")
    case False
    then show ?thesis
      using Suc.prems parse_pending by (simp add: push_ok_def)
  next
    case True
    note ok = push_body_ok[OF Suc.prems(1) True, of frames]
    show ?thesis
    proof (cases "push_body d chunk off frames")
      case (Continue d' off' frames')
      with ok obtain fs where st: "off < off'" "off' \<le> length chunk" "decoder_inv d'"
        "maxFrameLength d' = maxFrameLength d" "frames' = frames @ fs"
        "parse_frames (maxFrameLength d) (pending d @ drop off chunk) =
               (fs @ fst (parse_frames (maxFrameLength d) (pending d' @ drop off' chunk)),
                snd (parse_frames (maxFrameLength d) (pending d' @ drop off' chunk)))"
        by (auto simp: step_ok_def)
      from st(1,2) Suc.prems(3) have "length chunk - off' < fuel" by simp
      from Suc.IH[OF st(3,2) this, of frames'] True Continue st(4,5,6) show ?thesis
        by (auto simp: push_ok_def split: option.splits prod.splits)
    next
      case (Throw d' e)
      with ok True show ?thesis by (auto simp: step_ok_def push_ok_def)
    next
      case OutOfFuel
      with ok show ?thesis by (simp add: step_ok_def)
    qed
  qed
qed

lemma push_refines:
  "decoder_inv d \<Longrightarrow> push_ok d (pending d @ chunk) [] (push d chunk)"
  using push_loop_ok[of d 0 chunk "Suc (length chunk)" "[]"]
  by (simp add: push_def decoder_inv_def del: push_loop.simps)

lemma new_decoder_inv:
  "new_decoder opt = Inr d \<Longrightarrow> decoder_inv d \<and> pending d = []"
  by (auto simp: new_decoder_def decoder_inv_def pending_def FRAME_HEADER_LENGTH_def
      resolveMaxFrameLength_def bindE_eq_Inr Let_def split: if_splits option.splits)

lemma new_decoder_max:
  "new_decoder opt = Inr d \<Longrightarrow> resolveMaxFrameLength opt = Inr (maxFrameLength d)"
  by (auto simp: new_decoder_def bindE_eq_Inr)

section \<open>A stream of chunks\<close>

text \<open>The caller's loop: push each chunk as it arrives, stop at the first error.\<close>

fun push_all :: "frame_decoder \<Rightarrow> byte list list \<Rightarrow> (frame_decoder \<times> (frame_error + byte list list)) option" where
  "push_all d [] = Some (d, Inr [])"
| "push_all d (c # cs) =
     (case push d c of
        None \<Rightarrow> None
      | Some (d, Inl e) \<Rightarrow> Some (d, Inl e)
      | Some (d, Inr fs) \<Rightarrow>
          (case push_all d cs of
             None \<Rightarrow> None
           | Some (d, Inl e) \<Rightarrow> Some (d, Inl e)
           | Some (d, Inr fs') \<Rightarrow> Some (d, Inr (fs @ fs'))))"

lemma parse_frames_fail_append:
  "parse_frames m a = (fs, None) \<Longrightarrow> snd (parse_frames m (a @ b)) = None"
proof (induction m a arbitrary: fs rule: parse_frames.induct)
  case (1 m bs)
  then show ?case
    by (subst parse_frames.simps, subst (asm) (2) parse_frames.simps)
      (auto simp: Let_def split: if_splits prod.splits)
qed

lemma push_all_ok:
  "decoder_inv d \<Longrightarrow> push_ok d (pending d @ concat cs) [] (push_all d cs) \<or>
     (\<exists>d' n fs. push_all d cs = Some (d', Inl (FrameTooLong n (maxFrameLength d))) \<and> fstate d' = Failed \<and>
        maxFrameLength d < n \<and> parse_frames (maxFrameLength d) (pending d @ concat cs) = (fs, None))"
proof (induction cs arbitrary: d)
  case Nil
  then show ?case using parse_pending by (simp add: push_ok_def)
next
  case (Cons c cs)
  from push_refines[OF Cons.prems, of c] obtain d1 r1 where p: "push d c = Some (d1, r1)"
    and ok: "push_ok d (pending d @ c) [] (Some (d1, r1))"
    by (cases "push d c") (auto simp: push_ok_def)
  show ?case
  proof (cases "snd (parse_frames (maxFrameLength d) (pending d @ c))")
    case None
    then obtain fs n where "parse_frames (maxFrameLength d) (pending d @ c) = (fs, None)"
      "r1 = Inl (FrameTooLong n (maxFrameLength d))" "fstate d1 = Failed" "maxFrameLength d < n"
      using ok by (cases "parse_frames (maxFrameLength d) (pending d @ c)") (auto simp: push_ok_def)
    moreover from this(1) have "snd (parse_frames (maxFrameLength d) (pending d @ concat (c # cs))) = None"
      using parse_frames_fail_append by fastforce
    ultimately show ?thesis
      using p by (cases "parse_frames (maxFrameLength d) (pending d @ concat (c # cs))") auto
  next
    case (Some rest)
    then obtain fs where fs: "parse_frames (maxFrameLength d) (pending d @ c) = (fs, Some rest)"
      by (metis prod.collapse)
    with ok have st: "r1 = Inr fs" "decoder_inv d1" "pending d1 = rest" "maxFrameLength d1 = maxFrameLength d"
      by (auto simp: push_ok_def)
    have "parse_frames (maxFrameLength d) (pending d @ concat (c # cs)) =
      (fs @ fst (parse_frames (maxFrameLength d) (rest @ concat cs)), snd (parse_frames (maxFrameLength d) (rest @ concat cs)))"
      using parse_append[OF fs, of "concat cs"] by simp
    with Cons.IH[OF st(2)] p st show ?thesis
      by (auto simp: push_ok_def split: option.splits prod.splits sum.splits)
  qed
qed

lemma encodeFrame_eq:
  "encodeFrame payload =
     (if length payload \<le> MAX_UINT32 then Inr (be32 (length payload) @ payload) else Inl FrameRangeError)"
  by (simp add: encodeFrame_def FRAME_HEADER_LENGTH_def blit_def be32_def Let_def numeral_eq_Suc)

lemma parse_encoded:
  assumes "list_all2 (\<lambda>p f. encodeFrame p = Inr f) ps fs" "\<forall>p \<in> set ps. length p \<le> m" "m \<le> MAX_UINT32"
  shows "parse_frames m (concat fs) = (ps, Some [])"
  using assms
proof (induction rule: list_all2_induct)
  case Nil
  then show ?case by (simp add: parse_short)
next
  case (Cons p ps f fs)
  then have "f = be32 (length p) @ p" "length p < 2 ^ 32"
    by (auto simp: encodeFrame_eq MAX_UINT32_def split: if_splits)
  then show ?case
    using Cons parse_whole[of "be32 (length p)" m p "concat fs"] by simp
qed

lemma pending_empty: "decoder_inv d \<Longrightarrow> pending d = [] \<longleftrightarrow> headerLength d = 0 \<and> expectedLength d = None"
  by (auto simp: pending_def decoder_inv_def be32_def split: option.splits)

lemma frames_through:
  assumes "new_decoder opt = Inr d"
    and "list_all2 (\<lambda>p f. encodeFrame p = Inr f) payloads frames"
    and "\<forall>p \<in> set payloads. length p \<le> maxFrameLength d"
    and "concat chunks = concat frames"
  shows "\<exists>d'. push_all d chunks = Some (d', Inr payloads) \<and> snd (end_stream d') = Inr ()"
proof -
  from new_decoder_inv[OF assms(1)] have inv: "decoder_inv d" "pending d = []" by auto
  then have "maxFrameLength d \<le> MAX_UINT32" by (simp add: decoder_inv_def)
  with parse_encoded[OF assms(2,3)] have "parse_frames (maxFrameLength d) (concat frames) = (payloads, Some [])"
    by simp
  with push_all_ok[OF inv(1), of chunks] inv(2) assms(4)
  obtain d' where "push_all d chunks = Some (d', Inr payloads)" "decoder_inv d'" "pending d' = []"
    by (auto simp: push_ok_def split: option.splits)
  then show ?thesis
    using pending_empty[of d'] by (auto simp: end_stream_def decoder_inv_def)
qed

section \<open>Properties\<close>

text \<open>
  Framing is a round trip however the transport cuts the stream: encode any payloads within the
  decoder's limit, cut the concatenated frames into any chunks (empty ones included), push the
  chunks one by one, and the decoder returns exactly the payloads in order, runs out of no fuel,
  throws nothing, and accepts the end of the stream.
\<close>
theorem frame_stream_roundtrip:
  assumes "new_decoder opt = Inr d"
    and "list_all2 (\<lambda>p f. encodeFrame p = Inr f) payloads frames"
    and "\<forall>p \<in> set payloads. length p \<le> maxFrameLength d"
    and "concat chunks = concat frames"
  shows "\<exists>d'. push_all d chunks = Some (d', Inr payloads) \<and> snd (end_stream d') = Inr ()"
  by (rule frames_through[OF assms])

lemma replicate_header: "replicate FRAME_HEADER_LENGTH x = [x, x, x, x]"
  by (simp add: FRAME_HEADER_LENGTH_def numeral_eq_Suc)

lemma frame_stream_roundtrip_witness:
  "\<exists>d'. push_all \<lparr>header = [0, 0, 0, 0], headerLength = 0, maxFrameLength = 3, payloadBlocks = [],
       hasCurrentBlock = False, currentBlockLength = 0, expectedLength = None, payloadLength = 0, fstate = Open\<rparr>
     [[0, 0], [], [0, 2, 7], [8, 0, 0, 0, 0]] = Some (d', Inr [[7, 8], []]) \<and> snd (end_stream d') = Inr ()"
  by (rule frame_stream_roundtrip[where opt = "Some 3" and frames = "[[0, 0, 0, 2, 7, 8], [0, 0, 0, 0]]"])
    (simp_all add: new_decoder_def resolveMaxFrameLength_def replicate_header
      MAX_UINT32_def encodeFrame_eq be32_def byte_at_def)

text \<open>
  C34. Any byte stream at all, valid or not: the decoder's result over a sequence of chunks depends
  only on the concatenated bytes, and is the frames of the specification parser. It throws exactly
  when some announced length exceeds the limit, and at the end of the stream it reports truncation
  exactly when bytes are left over.
\<close>
theorem frame_decoder_refines_parser:
  assumes "new_decoder opt = Inr d"
  shows "case parse_frames (maxFrameLength d) (concat chunks) of
      (frames, Some rest) \<Rightarrow>
         (\<exists>d'. push_all d chunks = Some (d', Inr frames) \<and>
            snd (end_stream d') = (if rest = [] then Inr () else Inl TruncatedFrame))
    | (frames, None) \<Rightarrow>
         (\<exists>d' n. push_all d chunks = Some (d', Inl (FrameTooLong n (maxFrameLength d))) \<and>
            maxFrameLength d < n \<and> fstate d' = Failed)"
proof -
  from new_decoder_inv[OF assms] have inv: "decoder_inv d" "pending d = []" by auto
  obtain fs r where pr: "parse_frames (maxFrameLength d) (concat chunks) = (fs, r)" by fastforce
  show ?thesis
  proof (cases r)
    case None
    then show ?thesis
      using push_all_ok[OF inv(1), of chunks] inv(2) pr by (auto simp: push_ok_def split: option.splits)
  next
    case (Some rest)
    with push_all_ok[OF inv(1), of chunks] inv(2) pr
    obtain d' where "push_all d chunks = Some (d', Inr fs)" "decoder_inv d'" "pending d' = rest"
      by (auto simp: push_ok_def split: option.splits)
    then show ?thesis
      using pr Some pending_empty[of d'] by (auto simp: end_stream_def decoder_inv_def)
  qed
qed

lemma frame_decoder_refines_parser_witness:
  "\<exists>d. new_decoder (Some 3) = Inr d \<and>
     (\<exists>d' n. push_all d [[0, 0], [0, 9, 1]] = Some (d', Inl (FrameTooLong n 3)) \<and> 3 < n \<and> fstate d' = Failed)"
proof -
  obtain d where d: "new_decoder (Some 3) = Inr d"
    by (simp add: new_decoder_def resolveMaxFrameLength_def MAX_UINT32_def)
  then have "maxFrameLength d = 3"
    by (auto simp: new_decoder_def resolveMaxFrameLength_def MAX_UINT32_def)
  moreover have "parse_frames 3 (concat [[0, 0], [0, 9, 1]]) = ([], None)"
    by (simp add: parse_frames.simps of_be32_def)
  ultimately show ?thesis
    using d frame_decoder_refines_parser[OF d, of "[[0, 0], [0, 9, 1]]"] by simp
qed

end
