(* ===== verification/JsValue.thy ===== *)
theory JsValue
  imports Prelude
begin

text \<open>
  JavaScript values as the packages see them: strings as sequences of UTF-16 code units,
  numbers split into exact integers and the remaining doubles, and the UTF-8 text codec
  (\<open>TextEncoder\<close>, \<open>TextDecoder\<close> with \<open>fatal\<close> and \<open>ignoreBOM\<close>) of the standard library.
\<close>

section \<open>Strings\<close>

type_synonym code_unit = "16 word"
type_synonym jstr = "code_unit list"

text \<open>ASCII literals of the source as code units.\<close>

definition js :: "string \<Rightarrow> jstr" where
  "js s = map (\<lambda>c. of_nat (of_char c)) s"

definition is_high :: "code_unit \<Rightarrow> bool" where
  "is_high u \<longleftrightarrow> 0xD800 \<le> u \<and> u \<le> 0xDBFF"

definition is_low :: "code_unit \<Rightarrow> bool" where
  "is_low u \<longleftrightarrow> 0xDC00 \<le> u \<and> u \<le> 0xDFFF"

lemma high_not_low: "is_high u \<Longrightarrow> \<not> is_low u"
  by (auto simp: is_high_def is_low_def word_le_nat_alt)

text \<open>The white space and line terminators that \<open>trim\<close> removes.\<close>

definition in_range :: "code_unit \<Rightarrow> nat \<Rightarrow> nat \<Rightarrow> bool" where
  "in_range c a b \<longleftrightarrow> a \<le> unat c \<and> unat c \<le> b"

definition js_space :: "code_unit \<Rightarrow> bool" where
  "js_space c \<longleftrightarrow>
     in_range c 9 13 \<or> in_range c 32 32 \<or> in_range c 0xA0 0xA0 \<or> in_range c 0x1680 0x1680 \<or> in_range c 0x2000 0x200A \<or>
     in_range c 0x2028 0x2029 \<or> in_range c 0x202F 0x202F \<or> in_range c 0x205F 0x205F \<or> in_range c 0x3000 0x3000 \<or>
     in_range c 0xFEFF 0xFEFF"

text \<open>
  Well-formed UTF-16: every surrogate is part of a high/low pair. Such a string is a
  sequence of Unicode scalar values.
\<close>

fun wf_utf16 :: "jstr \<Rightarrow> bool" where
  "wf_utf16 [] = True"
| "wf_utf16 [u] = (\<not> is_high u \<and> \<not> is_low u)"
| "wf_utf16 (u # v # s) =
     (if is_high u then is_low v \<and> wf_utf16 s else \<not> is_low u \<and> wf_utf16 (v # s))"

lemma wf_utf16_Cons_plain:
  "\<not> is_high u \<Longrightarrow> wf_utf16 (u # s) \<longleftrightarrow> \<not> is_low u \<and> wf_utf16 s"
  by (cases s) auto

lemma wf_utf16_append: "wf_utf16 a \<Longrightarrow> wf_utf16 (a @ b) \<longleftrightarrow> wf_utf16 b"
  by (induction a rule: wf_utf16.induct) (auto simp: wf_utf16_Cons_plain split: if_splits)

section \<open>The text codec\<close>

text \<open>
  Code units to scalar values, as the conversion to a \<open>USVString\<close> does before encoding: a
  surrogate without its partner becomes U+FFFD.
\<close>

fun to_scalars :: "jstr \<Rightarrow> nat list" where
  "to_scalars [] = []"
| "to_scalars [u] = (if is_high u \<or> is_low u then [0xFFFD] else [unat u])"
| "to_scalars (u # v # s) =
     (if is_high u
      then (if is_low v
            then (0x10000 + (unat u - 0xD800) * 0x400 + (unat v - 0xDC00)) # to_scalars s
            else 0xFFFD # to_scalars (v # s))
      else if is_low u then 0xFFFD # to_scalars (v # s)
      else unat u # to_scalars (v # s))"

definition from_scalar :: "nat \<Rightarrow> jstr" where
  "from_scalar c =
     (if c < 0x10000 then [of_nat c]
      else [of_nat (0xD800 + (c - 0x10000) div 0x400), of_nat (0xDC00 + (c - 0x10000) mod 0x400)])"

definition is_scalar :: "nat \<Rightarrow> bool" where
  "is_scalar c \<longleftrightarrow> c < 0xD800 \<or> (0xE000 \<le> c \<and> c < 0x110000)"

definition utf8_scalar :: "nat \<Rightarrow> byte list" where
  "utf8_scalar c =
     (if c < 0x80 then [of_nat c]
      else if c < 0x800 then [of_nat (0xC0 + c div 64), of_nat (0x80 + c mod 64)]
      else if c < 0x10000
      then [of_nat (0xE0 + c div 4096), of_nat (0x80 + c div 64 mod 64), of_nat (0x80 + c mod 64)]
      else [of_nat (0xF0 + c div 262144), of_nat (0x80 + c div 4096 mod 64),
            of_nat (0x80 + c div 64 mod 64), of_nat (0x80 + c mod 64)])"

definition textEncode :: "jstr \<Rightarrow> byte list" where
  "textEncode s = concat (map utf8_scalar (to_scalars s))"

text \<open>A continuation byte's six bits.\<close>

definition cont :: "byte \<Rightarrow> nat option" where
  "cont b = (if 0x80 \<le> unat b \<and> unat b < 0xC0 then Some (unat b - 0x80) else None)"

text \<open>
  The fatal decoder: overlong forms, surrogates, values past U+10FFFF and truncated or stray
  bytes are errors (\<open>None\<close>). A leading byte order mark is kept, as \<open>ignoreBOM\<close> asks.
\<close>

fun utf8_decode :: "byte list \<Rightarrow> nat list option" where
  "utf8_decode [] = Some []"
| "utf8_decode (b # bs) =
     (if unat b < 0x80 then map_option ((#) (unat b)) (utf8_decode bs)
      else if unat b < 0xC2 then None
      else if unat b < 0xE0
      then (case bs of c1 # bs1 \<Rightarrow>
              (case cont c1 of None \<Rightarrow> None
               | Some x1 \<Rightarrow> map_option ((#) ((unat b - 0xC0) * 64 + x1)) (utf8_decode bs1))
            | [] \<Rightarrow> None)
      else if unat b < 0xF0
      then (case bs of c1 # c2 # bs2 \<Rightarrow>
              (case (cont c1, cont c2) of
                 (Some x1, Some x2) \<Rightarrow>
                   (let c = (unat b - 0xE0) * 4096 + x1 * 64 + x2
                    in if 0x800 \<le> c \<and> is_scalar c then map_option ((#) c) (utf8_decode bs2) else None)
               | _ \<Rightarrow> None)
            | _ \<Rightarrow> None)
      else if unat b < 0xF5
      then (case bs of c1 # c2 # c3 # bs3 \<Rightarrow>
              (case (cont c1, cont c2, cont c3) of
                 (Some x1, Some x2, Some x3) \<Rightarrow>
                   (let c = (unat b - 0xF0) * 262144 + x1 * 4096 + x2 * 64 + x3
                    in if 0x10000 \<le> c \<and> is_scalar c then map_option ((#) c) (utf8_decode bs3) else None)
               | _ \<Rightarrow> None)
            | _ \<Rightarrow> None)
      else None)"

definition textDecode :: "byte list \<Rightarrow> jstr option" where
  "textDecode bs = map_option (\<lambda>cs. concat (map from_scalar cs)) (utf8_decode bs)"

lemma unat_byte: "n < 256 \<Longrightarrow> unat (of_nat n :: byte) = n"
  by (simp add: unat_of_nat)

lemma unat_unit: "n < 65536 \<Longrightarrow> unat (of_nat n :: code_unit) = n"
  by (simp add: unat_of_nat)

lemma cont_byte: "n < 64 \<Longrightarrow> cont (of_nat (0x80 + n)) = Some n"
  by (simp add: cont_def unat_byte del: of_nat_add)

lemma base64_3: "c div 4096 * 4096 + c div 64 mod 64 * 64 + c mod 64 = (c :: nat)"
proof -
  have "c div 4096 = c div 64 div 64" by (simp flip: div_mult2_eq)
  moreover have "c = c div 64 * 64 + c mod 64" "c div 64 = c div 64 div 64 * 64 + c div 64 mod 64"
    by simp_all
  ultimately show ?thesis by linarith
qed

lemma base64_4:
  "c div 262144 * 262144 + c div 4096 mod 64 * 4096 + c div 64 mod 64 * 64 + c mod 64 = (c :: nat)"
proof -
  have "c div 262144 = c div 4096 div 64" by (simp flip: div_mult2_eq)
  moreover have "c div 4096 = c div 4096 div 64 * 64 + c div 4096 mod 64" by simp
  ultimately show ?thesis using base64_3[of c] by linarith
qed

lemma decode_utf8_scalar:
  assumes "is_scalar c"
  shows "utf8_decode (utf8_scalar c @ bs) = map_option ((#) c) (utf8_decode bs)"
proof -
  have c: "c < 0x110000" using assms by (auto simp: is_scalar_def)
  consider "c < 0x80" | "0x80 \<le> c" "c < 0x800" | "0x800 \<le> c" "c < 0x10000" | "0x10000 \<le> c"
    by linarith
  then show ?thesis
  proof cases
    case 1
    then show ?thesis by (simp add: utf8_scalar_def unat_byte)
  next
    case 2
    moreover have "c div 64 < 32" "2 \<le> c div 64" using 2 by auto
    ultimately show ?thesis
      by (simp add: utf8_scalar_def unat_byte cont_byte del: of_nat_add)
  next
    case 3
    moreover have "c div 4096 < 16" using 3 by auto
    moreover note base64_3[of c]
    ultimately show ?thesis
      using assms by (simp add: utf8_scalar_def unat_byte cont_byte del: of_nat_add)
  next
    case 4
    moreover have "c div 262144 < 5" using c by auto
    moreover note base64_4[of c]
    ultimately show ?thesis
      using assms by (simp add: utf8_scalar_def unat_byte cont_byte del: of_nat_add)
  qed
qed

lemma decode_utf8_scalars:
  "list_all is_scalar cs \<Longrightarrow> utf8_decode (concat (map utf8_scalar cs)) = Some cs"
  by (induction cs) (simp_all add: decode_utf8_scalar)

lemma surrogate_unat:
  "is_high u \<longleftrightarrow> 0xD800 \<le> unat u \<and> unat u < 0xDC00"
  "is_low u \<longleftrightarrow> 0xDC00 \<le> unat u \<and> unat u < 0xE000"
  by (auto simp: is_high_def is_low_def word_le_nat_alt)

lemma unit_bound: "unat (u :: code_unit) < 65536"
  using unsigned_less[of u] by simp

lemma of_nat_unat_unit [simp]: "of_nat (unat u) = (u :: code_unit)"
  by simp

lemma wf_to_scalars:
  "wf_utf16 s \<Longrightarrow> list_all is_scalar (to_scalars s) \<and> concat (map from_scalar (to_scalars s)) = s"
proof (induction s rule: wf_utf16.induct)
  case 1
  then show ?case by simp
next
  case (2 u)
  then show ?case
    using unit_bound[of u] by (auto simp: surrogate_unat is_scalar_def from_scalar_def)
next
  case (3 u v s)
  show ?case
  proof (cases "is_high u")
    case True
    define h l where "h = unat u - 0xD800" and "l = unat v - 0xDC00"
    have v: "is_low v" "wf_utf16 s" using 3 True by auto
    have hl: "unat u = 0xD800 + h" "unat v = 0xDC00 + l" "h < 0x400" "l < 0x400"
      using True v(1) by (auto simp: surrogate_unat h_def l_def)
    have "u = of_nat (0xD800 + h)" "v = of_nat (0xDC00 + l)"
      using hl(1,2) by (metis of_nat_unat_unit)+
    then have "from_scalar (0x10000 + h * 0x400 + l) = [u, v]" "is_scalar (0x10000 + h * 0x400 + l)"
      using hl(3,4) by (simp_all add: from_scalar_def is_scalar_def)
    then show ?thesis
      using 3 True v by (simp add: h_def l_def)
  next
    case False
    then show ?thesis
      using 3 unit_bound[of u] by (auto simp: surrogate_unat is_scalar_def from_scalar_def)
  qed
qed

lemma textDecode_textEncode: "wf_utf16 s \<Longrightarrow> textDecode (textEncode s) = Some s"
  using wf_to_scalars[of s] by (simp add: textDecode_def textEncode_def decode_utf8_scalars)

section \<open>Numbers\<close>

text \<open>
  A JavaScript number is an IEEE double. \<open>NInt n\<close> is the double whose value is the integer
  \<open>n\<close> (other than minus zero); every other double is \<open>NDbl\<close> with its bits: fractions, minus
  zero, infinities, NaN.
\<close>

datatype number = NInt int | NDbl "64 word"

definition dbl_sign :: "64 word \<Rightarrow> bool" where
  "dbl_sign w \<longleftrightarrow> 2 ^ 63 \<le> unat w"

definition dbl_exponent :: "64 word \<Rightarrow> nat" where
  "dbl_exponent w = unat w div 2 ^ 52 mod 2048"

definition dbl_mantissa :: "64 word \<Rightarrow> nat" where
  "dbl_mantissa w = unat w mod 2 ^ 52"

text \<open>Reading a double from its bits (\<open>DataView.getFloat64\<close>).\<close>

definition number_of_bits :: "64 word \<Rightarrow> number" where
  "number_of_bits w =
     (let e = dbl_exponent w; m = 2 ^ 52 + dbl_mantissa w; sg = (if dbl_sign w then -1 else 1)
      in if e = 2047 then NDbl w
         else if e = 0 then (if w = 0 then NInt 0 else NDbl w)
         else if 1075 \<le> e then NInt (sg * int (m * 2 ^ (e - 1075)))
         else if 1023 \<le> e \<and> m mod 2 ^ (1075 - e) = 0 then NInt (sg * int (m div 2 ^ (1075 - e)))
         else NDbl w)"

definition minus_zero :: "64 word" where "minus_zero = 0x8000000000000000"

fun isFinite :: "number \<Rightarrow> bool" where
  "isFinite (NInt n) = True"
| "isFinite (NDbl w) = (dbl_exponent w \<noteq> 2047)"

fun isNaN :: "number \<Rightarrow> bool" where
  "isNaN (NInt n) = False"
| "isNaN (NDbl w) = (dbl_exponent w = 2047 \<and> dbl_mantissa w \<noteq> 0)"

definition MAX_SAFE_INTEGER :: int where "MAX_SAFE_INTEGER = 2 ^ 53 - 1"

text \<open>\<open>Number.isInteger\<close> (true of minus zero) and \<open>Number.isSafeInteger\<close>.\<close>

fun isInteger :: "number \<Rightarrow> bool" where
  "isInteger (NInt n) = True"
| "isInteger (NDbl w) = (w = minus_zero)"

fun isSafeInteger :: "number \<Rightarrow> bool" where
  "isSafeInteger (NInt n) = (\<bar>n\<bar> \<le> MAX_SAFE_INTEGER)"
| "isSafeInteger (NDbl w) = (w = minus_zero)"

text \<open>The strict equality \<open>===\<close>: NaN differs from itself, the two zeros are equal.\<close>

fun is_zero :: "number \<Rightarrow> bool" where
  "is_zero (NInt n) = (n = 0)"
| "is_zero (NDbl w) = (w = minus_zero)"

definition num_eq :: "number \<Rightarrow> number \<Rightarrow> bool" where
  "num_eq a b \<longleftrightarrow> (a = b \<and> \<not> isNaN a) \<or> (is_zero a \<and> is_zero b)"

text \<open>The representation is canonical when the bits do not spell an exact integer.\<close>

fun wf_number :: "number \<Rightarrow> bool" where
  "wf_number (NInt n) = True"
| "wf_number (NDbl w) = (number_of_bits w = NDbl w)"

end
