(* ===== verification/Cbor.thy ===== *)
theory Cbor
  imports Bytes JsValue
begin

unbundle bit_operations_syntax

text \<open>
  \<open>packages/protocol/src/cbor\<close>: the strict, definite-length RFC 8949 subset. The encoder walks
  JavaScript values in an object store, so shared and cyclic objects are values like any other;
  the decoder builds fresh trees.
\<close>

section \<open>Options (options.ts)\<close>

definition MAX_CBOR_UINT32 :: nat where "MAX_CBOR_UINT32 = 0xffffffff"
definition UINT32_BASE :: nat where "UINT32_BASE = 0x100000000"
definition MAX_CONFIGURED_DEPTH :: nat where "MAX_CONFIGURED_DEPTH = 512"
definition DEFAULT_MAX_CBOR_BYTE_LENGTH :: int where "DEFAULT_MAX_CBOR_BYTE_LENGTH = 16 * 1024 * 1024"
definition DEFAULT_MAX_CBOR_CONTAINER_LENGTH :: int where "DEFAULT_MAX_CBOR_CONTAINER_LENGTH = 1000000"
definition DEFAULT_MAX_CBOR_DEPTH :: int where "DEFAULT_MAX_CBOR_DEPTH = 64"

datatype cbor_error =
    OptionRange string
  | ByteLimit | TextLimit | BytesLimit | ArrayLimit | MapLimit | DepthLimit
  | BadUnicode | NotFinite | UnsafeInteger | Cycle | HolesOrUndefined | SymbolKeys | UnsupportedType
  | Truncated | TrailingData | IntegerRange | IndefiniteLength | MalformedInfo | BadUtf8
  | LengthLimit | KeyNotString | DuplicateKey | TagsUnsupported | BreakMarker | UnsupportedSimple

record cbor_options =
  opt_maxByteLength :: "int option"
  opt_maxContainerLength :: "int option"
  opt_maxDepth :: "int option"

record limits =
  maxByteLength :: nat
  maxContainerLength :: nat
  maxDepth :: nat

definition resolveLimit :: "string \<Rightarrow> int \<Rightarrow> nat \<Rightarrow> cbor_error + nat" where
  "resolveLimit name v maximum =
     (if v < 0 \<or> v > int maximum then Inl (OptionRange name) else Inr (nat v))"

definition or_default :: "'a option \<Rightarrow> 'a \<Rightarrow> 'a" where
  "or_default opt d = (case opt of None \<Rightarrow> d | Some v \<Rightarrow> v)"

definition resolveOptions :: "cbor_options \<Rightarrow> cbor_error + limits" where
  "resolveOptions opts =
     bindE (resolveLimit ''maxByteLength'' (or_default (opt_maxByteLength opts) DEFAULT_MAX_CBOR_BYTE_LENGTH) MAX_CBOR_UINT32)
       (\<lambda>b. bindE (resolveLimit ''maxContainerLength''
                (or_default (opt_maxContainerLength opts) DEFAULT_MAX_CBOR_CONTAINER_LENGTH) MAX_CBOR_UINT32)
       (\<lambda>c. bindE (resolveLimit ''maxDepth'' (or_default (opt_maxDepth opts) DEFAULT_MAX_CBOR_DEPTH) MAX_CONFIGURED_DEPTH)
       (\<lambda>d. Inr \<lparr>maxByteLength = b, maxContainerLength = c, maxDepth = d\<rparr>)))"

section \<open>The writer (encoder.ts)\<close>

record cbor_writer =
  wbuf :: "byte list"
  woff :: nat
  wmax :: nat

definition new_writer :: "nat \<Rightarrow> cbor_writer" where
  "new_writer m = \<lparr>wbuf = replicate (min 256 m) 0, woff = 0, wmax = m\<rparr>"

text \<open>
  The growth loop. Its caller has thrown unless \<open>required \<le> maximum\<close>; the test is repeated in
  the loop's condition, where it changes nothing.
\<close>

function grow :: "nat \<Rightarrow> nat \<Rightarrow> nat \<Rightarrow> nat" where
  "grow capacity required maximum =
     (if capacity < required \<and> required \<le> maximum
      then grow (min maximum (max required (capacity * 2))) required maximum
      else capacity)"
  by pat_completeness auto
termination
  by (relation "measure (\<lambda>(c, r, m). r - c)") auto

declare grow.simps [simp del]

definition ensureCapacity :: "cbor_writer \<Rightarrow> nat \<Rightarrow> cbor_error + cbor_writer" where
  "ensureCapacity w additional =
     (let required = woff w + additional
      in if required > wmax w then Inl ByteLimit
         else if required \<le> length (wbuf w) then Inr w
         else let capacity = grow (max 1 (length (wbuf w))) required (wmax w)
              in Inr (w\<lparr>wbuf := blit (replicate capacity 0) 0 (wbuf w)\<rparr>))"

text \<open>Room for the bytes, the bytes at the offset, the offset moved past them.\<close>

definition writeBytes :: "cbor_writer \<Rightarrow> byte list \<Rightarrow> cbor_error + cbor_writer" where
  "writeBytes w bytes =
     bindE (ensureCapacity w (length bytes))
       (\<lambda>w. Inr (w\<lparr>wbuf := blit (wbuf w) (woff w) bytes, woff := woff w + length bytes\<rparr>))"

definition writeByte :: "cbor_writer \<Rightarrow> byte \<Rightarrow> cbor_error + cbor_writer" where
  "writeByte w b = writeBytes w [b]"

definition writeUint16 :: "cbor_writer \<Rightarrow> nat \<Rightarrow> cbor_error + cbor_writer" where
  "writeUint16 w v = writeBytes w [byte_at v 1, byte_at v 0]"

definition writeUint32 :: "cbor_writer \<Rightarrow> nat \<Rightarrow> cbor_error + cbor_writer" where
  "writeUint32 w v = writeBytes w [byte_at v 3, byte_at v 2, byte_at v 1, byte_at v 0]"

definition writeUint64 :: "cbor_writer \<Rightarrow> nat \<Rightarrow> cbor_error + cbor_writer" where
  "writeUint64 w v =
     (let high = v div UINT32_BASE; low = v - high * UINT32_BASE
      in bindE (writeUint32 w high) (\<lambda>w. writeUint32 w low))"

definition writeFloat64 :: "cbor_writer \<Rightarrow> 64 word \<Rightarrow> cbor_error + cbor_writer" where
  "writeFloat64 w bits = writeBytes w (0xfb # be64 (unat bits))"

definition finish :: "cbor_writer \<Rightarrow> byte list" where
  "finish w = take (woff w) (wbuf w)"

definition item_head :: "nat \<Rightarrow> nat \<Rightarrow> byte" where
  "item_head major info = push_bit 5 (of_nat major) OR of_nat info"

definition writeArgument :: "cbor_writer \<Rightarrow> nat \<Rightarrow> nat \<Rightarrow> cbor_error + cbor_writer" where
  "writeArgument w major v =
     (if v < 24 then writeByte w (item_head major v)
      else if v \<le> 0xff then bindE (writeByte w (item_head major 24)) (\<lambda>w. writeByte w (byte_at v 0))
      else if v \<le> 0xffff then bindE (writeByte w (item_head major 25)) (\<lambda>w. writeUint16 w v)
      else if v \<le> MAX_CBOR_UINT32 then bindE (writeByte w (item_head major 26)) (\<lambda>w. writeUint32 w v)
      else bindE (writeByte w (item_head major 27)) (\<lambda>w. writeUint64 w v))"

section \<open>Values to encode\<close>

text \<open>
  Primitive values and references into an object store. \<open>OPlain\<close> is an object whose prototype
  is \<open>Object.prototype\<close> or null, with its enumerable string-keyed own properties in enumeration
  order and whether it has an enumerable symbol key; \<open>OExotic\<close> is any other object, \<open>VOther\<close> a
  function, symbol or bigint. An array slot is \<open>None\<close> where the array has a hole.
\<close>

datatype jval =
    VUndefined | VNull | VBool bool | VNum number | VStr jstr | VRef nat | VOther

datatype jobj =
    OBytes "byte list"
  | OArray "jval option list"
  | OPlain bool "(jstr \<times> jval) list"
  | OExotic

type_synonym heap = "nat \<Rightarrow> jobj"

definition encodeText :: "limits \<Rightarrow> cbor_writer \<Rightarrow> jstr \<Rightarrow> cbor_error + cbor_writer" where
  "encodeText lim w s =
     (let bytes = textEncode s
      in if length bytes > maxByteLength lim then Inl TextLimit
         else if textDecode bytes \<noteq> Some s then Inl BadUnicode
         else bindE (writeArgument w 3 (length bytes)) (\<lambda>w. writeBytes w bytes))"

definition encodeNumber :: "cbor_writer \<Rightarrow> number \<Rightarrow> cbor_error + cbor_writer" where
  "encodeNumber w x =
     (if \<not> isFinite x then Inl NotFinite
      else case x of
        NInt n \<Rightarrow>
          (if \<not> isSafeInteger x then Inl UnsafeInteger
           else if n \<ge> 0 then writeArgument w 0 (nat n)
           else writeArgument w 1 (nat (-1 - n)))
      | NDbl bits \<Rightarrow> writeFloat64 w bits)"

definition encode_item ::
    "(jval \<Rightarrow> cbor_writer \<Rightarrow> cbor_error + cbor_writer) \<Rightarrow> cbor_writer \<Rightarrow> jval option \<Rightarrow> cbor_error + cbor_writer" where
  "encode_item enc w x =
     (case x of None \<Rightarrow> Inl HolesOrUndefined
      | Some v \<Rightarrow> if v = VUndefined then Inl HolesOrUndefined else enc v w)"

definition encode_entry ::
    "limits \<Rightarrow> (jval \<Rightarrow> cbor_writer \<Rightarrow> cbor_error + cbor_writer) \<Rightarrow> cbor_writer \<Rightarrow> jstr \<times> jval \<Rightarrow> cbor_error + cbor_writer" where
  "encode_entry lim enc w kv = bindE (encodeText lim w (fst kv)) (enc (snd kv))"

definition defined_entries :: "(jstr \<times> jval) list \<Rightarrow> (jstr \<times> jval) list" where
  "defined_entries props = filter (\<lambda>kv. snd kv \<noteq> VUndefined) props"

text \<open>
  The recursion. The code passes \<open>depth\<close> upwards and throws when it exceeds \<open>maxDepth\<close>; here the
  argument counts the levels left, \<open>maxDepth + 1 - depth\<close>. \<open>ancestors\<close> holds the containers being
  encoded around the value (the \<open>finally\<close> removes each on the way out).
\<close>

fun encodeValue :: "heap \<Rightarrow> limits \<Rightarrow> nat \<Rightarrow> nat list \<Rightarrow> jval \<Rightarrow> cbor_writer \<Rightarrow> cbor_error + cbor_writer" where
  "encodeValue h lim 0 ancestors v w = Inl DepthLimit"
| "encodeValue h lim (Suc levels) ancestors v w =
     (case v of
        VNull \<Rightarrow> writeByte w 0xf6
      | VBool b \<Rightarrow> writeByte w (if b then 0xf5 else 0xf4)
      | VNum x \<Rightarrow> encodeNumber w x
      | VStr s \<Rightarrow> encodeText lim w s
      | VRef a \<Rightarrow>
          (case h a of
             OBytes bytes \<Rightarrow>
               if length bytes > maxByteLength lim then Inl BytesLimit
               else bindE (writeArgument w 2 (length bytes)) (\<lambda>w. writeBytes w bytes)
           | OArray items \<Rightarrow>
               if a \<in> set ancestors then Inl Cycle
               else if length items > maxContainerLength lim then Inl ArrayLimit
               else bindE (writeArgument w 4 (length items))
                 (\<lambda>w. foldE (encode_item (encodeValue h lim levels (a # ancestors))) w items)
           | OPlain symbols props \<Rightarrow>
               if a \<in> set ancestors then Inl Cycle
               else if symbols then Inl SymbolKeys
               else let entries = defined_entries props
                 in if length entries > maxContainerLength lim then Inl MapLimit
                    else bindE (writeArgument w 5 (length entries))
                      (\<lambda>w. foldE (encode_entry lim (encodeValue h lim levels (a # ancestors))) w entries)
           | OExotic \<Rightarrow> Inl UnsupportedType)
      | VUndefined \<Rightarrow> Inl UnsupportedType
      | VOther \<Rightarrow> Inl UnsupportedType)"

definition encodeCbor :: "heap \<Rightarrow> jval \<Rightarrow> cbor_options \<Rightarrow> cbor_error + byte list" where
  "encodeCbor h v opts =
     bindE (resolveOptions opts)
       (\<lambda>lim. bindE (encodeValue h lim (Suc (maxDepth lim)) [] v (new_writer (maxByteLength lim)))
          (\<lambda>w. Inr (finish w)))"

section \<open>The reader (decoder.ts)\<close>

datatype cval =
    CNull | CBool bool | CNum number | CStr jstr | CBytes "byte list"
  | CArr "cval list" | CObj "(jstr \<times> cval) list"

definition readByte :: "byte list \<Rightarrow> nat \<Rightarrow> cbor_error + (byte \<times> nat)" where
  "readByte bytes off =
     (if off \<ge> length bytes then Inl Truncated else Inr (bytes ! off, off + 1))"

definition readBytes :: "byte list \<Rightarrow> nat \<Rightarrow> nat \<Rightarrow> cbor_error + (byte list \<times> nat)" where
  "readBytes bytes n off =
     (if n > length bytes - off then Inl Truncated else Inr (slice bytes off (off + n), off + n))"

definition read32 :: "byte list \<Rightarrow> nat \<Rightarrow> cbor_error + (nat \<times> nat)" where
  "read32 bytes off = bindE (readBytes bytes 4 off) (\<lambda>(b, off). Inr (of_be32 b, off))"

definition readArgument :: "byte list \<Rightarrow> nat \<Rightarrow> nat \<Rightarrow> cbor_error + (nat \<times> nat)" where
  "readArgument bytes info off =
     (if info < 24 then Inr (info, off)
      else if info = 24 then bindE (readByte bytes off) (\<lambda>(b, off). Inr (unat b, off))
      else if info = 25 then bindE (readBytes bytes 2 off) (\<lambda>(b, off). Inr (of_be16 b, off))
      else if info = 26 then read32 bytes off
      else if info = 27 then
        bindE (read32 bytes off) (\<lambda>(high, off).
        bindE (read32 bytes off) (\<lambda>(low, off).
          if high > 0x1fffff then Inl IntegerRange else Inr (high * UINT32_BASE + low, off)))
      else if info = 31 then Inl IndefiniteLength
      else Inl MalformedInfo)"

definition readLength :: "byte list \<Rightarrow> nat \<Rightarrow> nat \<Rightarrow> nat \<Rightarrow> cbor_error + (nat \<times> nat)" where
  "readLength bytes info limit off =
     (if info = 31 then Inl IndefiniteLength
      else bindE (readArgument bytes info off)
        (\<lambda>(n, off). if n > limit then Inl LengthLimit else Inr (n, off)))"

definition readSimple :: "byte list \<Rightarrow> nat \<Rightarrow> nat \<Rightarrow> cbor_error + (cval \<times> nat)" where
  "readSimple bytes info off =
     (if info = 20 then Inr (CBool False, off)
      else if info = 21 then Inr (CBool True, off)
      else if info = 22 then Inr (CNull, off)
      else if info = 27 then
        bindE (readBytes bytes 8 off) (\<lambda>(b, off).
          let x = number_of_bits (of_nat (of_be32 (take 4 b) * 2 ^ 32 + of_be32 (drop 4 b)))
          in if \<not> isFinite x then Inl NotFinite
             else if isInteger x \<and> \<not> isSafeInteger x then Inl IntegerRange
             else Inr (CNum x, off))
      else if info = 31 then Inl BreakMarker
      else Inl UnsupportedSimple)"

text \<open>A counted loop whose body may throw.\<close>

fun repeatE :: "nat \<Rightarrow> ('s \<Rightarrow> 'e + 's) \<Rightarrow> 's \<Rightarrow> 'e + 's" where
  "repeatE 0 f s = Inr s"
| "repeatE (Suc n) f s = bindE (f s) (repeatE n f)"

definition read_element ::
    "(nat \<Rightarrow> cbor_error + (cval \<times> nat)) \<Rightarrow> cval list \<times> nat \<Rightarrow> cbor_error + (cval list \<times> nat)" where
  "read_element item st = bindE (item (snd st)) (\<lambda>(v, off). Inr (fst st @ [v], off))"

definition read_entry ::
    "(nat \<Rightarrow> cbor_error + (cval \<times> nat)) \<Rightarrow> (jstr \<times> cval) list \<times> nat \<Rightarrow> cbor_error + ((jstr \<times> cval) list \<times> nat)" where
  "read_entry item st =
     bindE (item (snd st)) (\<lambda>(key, off).
       case key of
         CStr k \<Rightarrow>
           if k \<in> fst ` set (fst st) then Inl DuplicateKey
           else bindE (item off) (\<lambda>(v, off). Inr (fst st @ [(k, v)], off))
       | _ \<Rightarrow> Inl KeyNotString)"

fun readItem :: "limits \<Rightarrow> byte list \<Rightarrow> nat \<Rightarrow> nat \<Rightarrow> cbor_error + (cval \<times> nat)" where
  "readItem lim bytes 0 off = Inl DepthLimit"
| "readItem lim bytes (Suc levels) off =
     bindE (readByte bytes off) (\<lambda>(initial, off).
       let major = unat (drop_bit 5 initial); info = unat (initial AND 0x1f) in
       if major = 0 then
         bindE (readArgument bytes info off) (\<lambda>(n, off). Inr (CNum (NInt (int n)), off))
       else if major = 1 then
         bindE (readArgument bytes info off) (\<lambda>(n, off).
           let v = -1 - int n
           in if \<not> isSafeInteger (NInt v) then Inl IntegerRange else Inr (CNum (NInt v), off))
       else if major = 2 then
         bindE (readLength bytes info (maxByteLength lim) off) (\<lambda>(n, off).
         bindE (readBytes bytes n off) (\<lambda>(b, off). Inr (CBytes b, off)))
       else if major = 3 then
         bindE (readLength bytes info (maxByteLength lim) off) (\<lambda>(n, off).
         bindE (readBytes bytes n off) (\<lambda>(b, off).
           case textDecode b of None \<Rightarrow> Inl BadUtf8 | Some s \<Rightarrow> Inr (CStr s, off)))
       else if major = 4 then
         bindE (readLength bytes info (maxContainerLength lim) off) (\<lambda>(n, off).
         bindE (repeatE n (read_element (readItem lim bytes levels)) ([], off))
           (\<lambda>(items, off). Inr (CArr items, off)))
       else if major = 5 then
         bindE (readLength bytes info (maxContainerLength lim) off) (\<lambda>(n, off).
         bindE (repeatE n (read_entry (readItem lim bytes levels)) ([], off))
           (\<lambda>(props, off). Inr (CObj props, off)))
       else if major = 6 then Inl TagsUnsupported
       else readSimple bytes info off)"

definition decodeCbor :: "byte list \<Rightarrow> cbor_options \<Rightarrow> cbor_error + cval" where
  "decodeCbor bytes opts =
     bindE (resolveOptions opts) (\<lambda>lim.
       if length bytes > maxByteLength lim then Inl ByteLimit
       else bindE (readItem lim bytes (Suc (maxDepth lim)) 0)
         (\<lambda>(v, off). if off \<noteq> length bytes then Inl TrailingData else Inr v))"

section \<open>Specification: the bytes of a tree\<close>

definition arg_info :: "nat \<Rightarrow> nat" where
  "arg_info n = (if n < 24 then n else if n \<le> 0xff then 24 else if n \<le> 0xffff then 25
     else if n \<le> MAX_CBOR_UINT32 then 26 else 27)"

definition arg_tail :: "nat \<Rightarrow> byte list" where
  "arg_tail n = (if n < 24 then [] else if n \<le> 0xff then [byte_at n 0] else if n \<le> 0xffff then be16 n
     else if n \<le> MAX_CBOR_UINT32 then be32 n else be32 (n div UINT32_BASE) @ be32 (n mod UINT32_BASE))"

definition arg_bytes :: "nat \<Rightarrow> nat \<Rightarrow> byte list" where
  "arg_bytes major n = item_head major (arg_info n) # arg_tail n"

definition text_bytes :: "jstr \<Rightarrow> byte list" where
  "text_bytes s = arg_bytes 3 (length (textEncode s)) @ textEncode s"

fun number_bytes :: "number \<Rightarrow> byte list" where
  "number_bytes (NInt n) = (if n \<ge> 0 then arg_bytes 0 (nat n) else arg_bytes 1 (nat (-1 - n)))"
| "number_bytes (NDbl w) = 0xfb # be64 (unat w)"

fun cbor_bytes :: "cval \<Rightarrow> byte list" where
  "cbor_bytes CNull = [0xf6]"
| "cbor_bytes (CBool b) = [if b then 0xf5 else 0xf4]"
| "cbor_bytes (CNum x) = number_bytes x"
| "cbor_bytes (CStr s) = text_bytes s"
| "cbor_bytes (CBytes b) = arg_bytes 2 (length b) @ b"
| "cbor_bytes (CArr xs) = arg_bytes 4 (length xs) @ concat (map cbor_bytes xs)"
| "cbor_bytes (CObj ps) =
     arg_bytes 5 (length ps) @ concat (map (\<lambda>kv. text_bytes (fst kv) @ cbor_bytes (snd kv)) ps)"

text \<open>The trees within the limits, with the levels of nesting they may use.\<close>

definition text_ok :: "limits \<Rightarrow> jstr \<Rightarrow> bool" where
  "text_ok lim s \<longleftrightarrow> length (textEncode s) \<le> maxByteLength lim \<and> textDecode (textEncode s) = Some s"

fun number_ok :: "number \<Rightarrow> bool" where
  "number_ok (NInt n) = isSafeInteger (NInt n)"
| "number_ok (NDbl w) = (isFinite (NDbl w) \<and> wf_number (NDbl w))"

fun tree_by :: "(jstr \<Rightarrow> bool) \<Rightarrow> limits \<Rightarrow> nat \<Rightarrow> cval \<Rightarrow> bool" where
  "tree_by txt lim 0 t = False"
| "tree_by txt lim (Suc r) t =
     (case t of
        CNull \<Rightarrow> True
      | CBool b \<Rightarrow> True
      | CNum x \<Rightarrow> number_ok x
      | CStr s \<Rightarrow> txt s
      | CBytes b \<Rightarrow> length b \<le> maxByteLength lim
      | CArr xs \<Rightarrow> length xs \<le> maxContainerLength lim \<and> list_all (tree_by txt lim r) xs
      | CObj ps \<Rightarrow> length ps \<le> maxContainerLength lim \<and> distinct (map fst ps) \<and>
          list_all (\<lambda>kv. txt (fst kv) \<and> tree_by txt lim r (snd kv)) ps)"

abbreviation tree_ok :: "limits \<Rightarrow> nat \<Rightarrow> cval \<Rightarrow> bool" where
  "tree_ok lim \<equiv> tree_by (text_ok lim) lim"

definition limits_ok :: "limits \<Rightarrow> bool" where
  "limits_ok lim \<longleftrightarrow> maxByteLength lim \<le> MAX_CBOR_UINT32 \<and> maxContainerLength lim \<le> MAX_CBOR_UINT32"

lemma resolveOptions_ok: "resolveOptions opts = Inr lim \<Longrightarrow> limits_ok lim"
  by (auto simp: resolveOptions_def resolveLimit_def bindE_eq_Inr limits_ok_def split: if_splits)

section \<open>The decoder reads the specification's bytes\<close>

lemma head_table:
  "list_all (\<lambda>m. list_all (\<lambda>i. unat (drop_bit 5 (item_head m i)) = m \<and> unat (item_head m i AND 0x1f) = i) [0..<32]) [0..<8]"
  by code_simp

lemma head_split:
  assumes "m < 8" "i < 32"
  shows "unat (drop_bit 5 (item_head m i)) = m" "unat (item_head m i AND 0x1f) = i"
  using head_table assms by (auto simp: list_all_iff)

text \<open>Reading at an offset, in terms of the bytes still to read.\<close>

lemma drop_ConsD: "drop off xs = y # ys \<Longrightarrow> off < length xs \<and> xs ! off = y \<and> drop (Suc off) xs = ys"
  by (metis Cons_nth_drop_Suc drop_eq_Nil leI list.distinct(1) list.inject)

lemma drop_appendD: "drop off xs = a @ b \<Longrightarrow> drop (off + length a) xs = b"
  by (metis add.commute append_eq_conv_conj drop_drop)

lemma readByte_drop: "drop off bytes = b # rest \<Longrightarrow> readByte bytes off = Inr (b, Suc off)"
  using drop_ConsD by (fastforce simp: readByte_def)

lemma readBytes_drop:
  assumes "drop off bytes = b @ rest" "n = length b"
  shows "readBytes bytes n off = Inr (b, off + n)"
proof -
  have "length bytes - off = length b + length rest"
    using assms(1) by (metis length_append length_drop)
  then show ?thesis
    using assms by (simp add: readBytes_def slice_def)
qed

lemma read32_drop: "drop off bytes = be32 n @ rest \<Longrightarrow> n < 2 ^ 32 \<Longrightarrow> read32 bytes off = Inr (n, off + 4)"
  by (simp add: read32_def readBytes_drop[of off bytes "be32 n"])

lemma arg_info_bound: "arg_info n < 32" "arg_info n \<noteq> 31"
  by (auto simp: arg_info_def)

lemma readArgument_drop:
  assumes "drop off bytes = arg_tail n @ rest" "n < 2 ^ 53"
  shows "readArgument bytes (arg_info n) off = Inr (n, off + length (arg_tail n))"
proof -
  consider "n < 24" | "24 \<le> n" "n \<le> 0xff" | "0xff < n" "n \<le> 0xffff"
    | "0xffff < n" "n \<le> MAX_CBOR_UINT32" | "MAX_CBOR_UINT32 < n" by linarith
  then show ?thesis
  proof cases
    case 2
    then show ?thesis
      using assms readByte_drop[of off bytes "byte_at n 0" rest]
      by (simp add: arg_info_def arg_tail_def readArgument_def unat_byte_at)
  next
    case 3
    then show ?thesis
      using assms readBytes_drop[of off bytes "be16 n" rest 2]
      by (simp add: arg_info_def arg_tail_def readArgument_def)
  next
    case 4
    then show ?thesis
      using assms read32_drop[of off bytes n rest]
      by (simp add: arg_info_def arg_tail_def readArgument_def MAX_CBOR_UINT32_def)
  next
    case 5
    define hi lo where "hi = n div UINT32_BASE" and "lo = n mod UINT32_BASE"
    have n: "hi * UINT32_BASE + lo = n" by (simp add: hi_def lo_def)
    have lo: "lo < 2 ^ 32" by (simp add: lo_def UINT32_BASE_def)
    have hi: "hi \<le> 0x1fffff" using assms(2) by (simp add: hi_def UINT32_BASE_def)
    have tail: "arg_tail n = be32 hi @ be32 lo" "arg_info n = 27"
      using 5 by (simp_all add: arg_tail_def arg_info_def hi_def lo_def MAX_CBOR_UINT32_def)
    have "read32 bytes off = Inr (hi, off + 4)"
      using assms(1) tail hi by (intro read32_drop[where rest = "be32 lo @ rest"]) simp_all
    moreover have "read32 bytes (off + 4) = Inr (lo, off + 8)"
      using assms(1) tail lo drop_appendD[of off bytes "be32 hi" "be32 lo @ rest"]
      by (subst read32_drop) simp_all
    ultimately show ?thesis
      using hi n tail by (simp add: readArgument_def)
  qed (use assms in \<open>simp add: arg_info_def arg_tail_def readArgument_def\<close>)
qed

lemma readLength_drop:
  assumes "drop off bytes = arg_tail n @ rest" "n \<le> limit" "limit \<le> MAX_CBOR_UINT32"
  shows "readLength bytes (arg_info n) limit off = Inr (n, off + length (arg_tail n))"
proof -
  have "n < 2 ^ 53" using assms(2,3) by (simp add: MAX_CBOR_UINT32_def)
  then show ?thesis
    using readArgument_drop[OF assms(1)] assms(2) arg_info_bound(2)[of n] by (simp add: readLength_def)
qed

text \<open>The first byte of an item: its major type and its argument's width.\<close>

lemma readItem_head:
  assumes "drop off bytes = arg_bytes major n @ rest" "major < 8"
  shows "readByte bytes off = Inr (item_head major (arg_info n), Suc off)"
    "unat (drop_bit 5 (item_head major (arg_info n))) = major"
    "unat (item_head major (arg_info n) AND 0x1f) = arg_info n"
    "drop (Suc off) bytes = arg_tail n @ rest"
    "Suc off + length (arg_tail n) = off + length (arg_bytes major n)"
  using assms head_split[OF assms(2) arg_info_bound(1)[of n]] drop_ConsD[of off bytes]
  by (auto simp: arg_bytes_def intro!: readByte_drop)

lemma readItem_text:
  assumes "drop off bytes = text_bytes s @ rest" "text_ok lim s" "limits_ok lim"
  shows "readItem lim bytes (Suc r) off = Inr (CStr s, off + length (text_bytes s))"
proof -
  let ?b = "textEncode s"
  have d: "drop off bytes = arg_bytes 3 (length ?b) @ ?b @ rest"
    using assms(1) by (simp add: text_bytes_def)
  note hd = readItem_head[OF d, simplified]
  have "readLength bytes (arg_info (length ?b)) (maxByteLength lim) (Suc off) =
      Inr (length ?b, off + length (arg_bytes 3 (length ?b)))"
    using readLength_drop[OF hd(4)] assms(2,3) hd(5) by (simp add: text_ok_def limits_ok_def)
  moreover have "readBytes bytes (length ?b) (off + length (arg_bytes 3 (length ?b))) =
      Inr (?b, off + length (arg_bytes 3 (length ?b)) + length ?b)"
    by (rule readBytes_drop[OF drop_appendD[OF d]]) simp
  ultimately show ?thesis
    using hd(1-3) assms(2) by (simp add: text_ok_def text_bytes_def)
qed

lemma repeat_elements:
  assumes "\<And>x off rest. x \<in> set xs \<Longrightarrow> drop off bytes = f x @ rest \<Longrightarrow> item off = Inr (x, off + length (f x))"
    and "drop off bytes = concat (map f xs) @ rest"
  shows "repeatE (length xs) (read_element item) (acc, off) =
    Inr (acc @ xs, off + length (concat (map f xs)))"
  using assms
proof (induction xs arbitrary: acc off)
  case Nil
  then show ?case by simp
next
  case (Cons x xs)
  from Cons.prems(2) have d: "drop off bytes = f x @ (concat (map f xs) @ rest)" by simp
  have "item off = Inr (x, off + length (f x))"
    by (rule Cons.prems(1)[OF _ d]) simp
  then have "read_element item (acc, off) = Inr (acc @ [x], off + length (f x))"
    by (simp add: read_element_def)
  moreover have "repeatE (length xs) (read_element item) (acc @ [x], off + length (f x)) =
    Inr ((acc @ [x]) @ xs, off + length (f x) + length (concat (map f xs)))"
    by (rule Cons.IH) (use Cons.prems(1) drop_appendD[OF d] in auto)
  ultimately show ?case by (simp add: add.assoc)
qed

lemma read_entry_step:
  assumes "item off = Inr (CStr k, off1)" "item off1 = Inr (v, off2)" "k \<notin> fst ` set acc"
  shows "read_entry item (acc, off) = Inr (acc @ [(k, v)], off2)"
  using assms by (simp add: read_entry_def)

lemma repeat_entries:
  assumes "\<And>kv off rest. kv \<in> set ps \<Longrightarrow> drop off bytes = fk (fst kv) @ rest \<Longrightarrow>
      item off = Inr (CStr (fst kv), off + length (fk (fst kv)))"
    and "\<And>kv off rest. kv \<in> set ps \<Longrightarrow> drop off bytes = fv (snd kv) @ rest \<Longrightarrow>
      item off = Inr (snd kv, off + length (fv (snd kv)))"
    and "drop off bytes = concat (map (\<lambda>kv. fk (fst kv) @ fv (snd kv)) ps) @ rest"
    and "distinct (map fst (acc @ ps))"
  shows "repeatE (length ps) (read_entry item) (acc, off) =
    Inr (acc @ ps, off + length (concat (map (\<lambda>kv. fk (fst kv) @ fv (snd kv)) ps)))"
  using assms
proof (induction ps arbitrary: acc off)
  case Nil
  then show ?case by simp
next
  case (Cons kv ps)
  obtain k v where kv: "kv = (k, v)" by force
  let ?tl = "concat (map (\<lambda>kv. fk (fst kv) @ fv (snd kv)) ps)"
  from Cons.prems(3) have d: "drop off bytes = fk k @ (fv v @ ?tl @ rest)" by (simp add: kv)
  note d1 = drop_appendD[OF d]
  note d2 = drop_appendD[OF d1]
  have "item off = Inr (CStr k, off + length (fk k))"
    using Cons.prems(1)[of kv off] d by (simp add: kv)
  moreover have "item (off + length (fk k)) = Inr (v, off + length (fk k) + length (fv v))"
    using Cons.prems(2)[of kv "off + length (fk k)"] d1 by (simp add: kv)
  moreover have "repeatE (length ps) (read_entry item) (acc @ [(k, v)], off + length (fk k) + length (fv v)) =
    Inr ((acc @ [(k, v)]) @ ps, off + length (fk k) + length (fv v) + length ?tl)"
    by (rule Cons.IH) (use Cons.prems(1,2,4) d2 kv in auto)
  moreover have "k \<notin> fst ` set acc"
    using Cons.prems(4) by (auto simp: kv)
  ultimately show ?case by (simp add: read_entry_step kv add.assoc)
qed

lemma be64_split: "be64 n = be32 (n div UINT32_BASE) @ be32 (n mod UINT32_BASE)"
  by (simp add: be64_def UINT32_BASE_def)

lemma float_bits_read:
  fixes w :: "64 word"
  shows "of_nat (of_be32 (take 4 (be64 (unat w))) * 2 ^ 32 + of_be32 (drop 4 (be64 (unat w)))) = w"
proof -
  have "unat w < 2 ^ 64" using unsigned_less[of w] by simp
  then have "unat w div 2 ^ 32 < 2 ^ 32" "unat w mod 2 ^ 32 < 2 ^ 32" by auto
  then have "of_be32 (take 4 (be64 (unat w))) * 2 ^ 32 + of_be32 (drop 4 (be64 (unat w))) = unat w"
    by (simp add: be64_def)
  then show ?thesis
    by (simp only:) simp
qed

lemma readItem_number:
  assumes "drop off bytes = number_bytes x @ rest" "number_ok x"
  shows "readItem lim bytes (Suc r) off = Inr (CNum x, off + length (number_bytes x))"
proof (cases x)
  case (NInt n)
  then have safe: "\<bar>n\<bar> \<le> 9007199254740991"
    using assms(2) by (simp add: MAX_SAFE_INTEGER_def)
  show ?thesis
  proof (cases "n \<ge> 0")
    case True
    then have d: "drop off bytes = arg_bytes 0 (nat n) @ rest" using assms(1) NInt by simp
    note hd = readItem_head[OF d, simplified]
    have "nat n < 9007199254740992" using safe by linarith
    then have "nat n < 2 ^ 53" by simp
    from readArgument_drop[OF hd(4) this] hd(1-3,5) True NInt show ?thesis by simp
  next
    case False
    then have d: "drop off bytes = arg_bytes 1 (nat (-1 - n)) @ rest" using assms(1) NInt by simp
    note hd = readItem_head[OF d, simplified]
    have "nat (-1 - n) < 9007199254740992" using safe False by linarith
    then have "nat (-1 - n) < 2 ^ 53" by simp
    from readArgument_drop[OF hd(4) this] hd(1-3,5) False NInt assms(2) show ?thesis by simp
  qed
next
  case (NDbl w)
  then have d: "drop off bytes = 0xfb # be64 (unat w) @ rest" using assms(1) by simp
  note c = drop_ConsD[OF d]
  have "readBytes bytes 8 (Suc off) = Inr (be64 (unat w), Suc off + 8)"
    by (rule readBytes_drop) (use c in auto)
  moreover have "number_of_bits w = NDbl w" "isFinite (NDbl w)"
    using assms(2) NDbl by auto
  ultimately show ?thesis
    using readByte_drop[OF d] float_bits_read[of w] NDbl
    by (simp add: readSimple_def Let_def)
qed

lemma readItem_tree:
  assumes "tree_ok lim r t" "limits_ok lim" "drop off bytes = cbor_bytes t @ rest"
  shows "readItem lim bytes r off = Inr (t, off + length (cbor_bytes t))"
  using assms(1,3)
proof (induction r arbitrary: t off rest)
  case 0
  then show ?case by simp
next
  case (Suc r)
  show ?case
  proof (cases t)
    case CNull
    then show ?thesis
      using Suc.prems(2) readByte_drop[of off bytes "0xf6" rest] by (simp add: readSimple_def)
  next
    case (CBool b)
    then show ?thesis
      using Suc.prems(2) readByte_drop[of off bytes "if b then 0xf5 else 0xf4" rest]
      by (cases b) (simp_all add: readSimple_def)
  next
    case (CNum x)
    then show ?thesis using Suc.prems readItem_number[of off bytes x rest lim r] by simp
  next
    case (CStr s)
    then show ?thesis
      using Suc.prems readItem_text[of off bytes s rest lim r] assms(2) by simp
  next
    case (CBytes b)
    then have d: "drop off bytes = arg_bytes 2 (length b) @ b @ rest" "length b \<le> maxByteLength lim"
      using Suc.prems by simp_all
    note hd = readItem_head[OF d(1), simplified]
    have "readLength bytes (arg_info (length b)) (maxByteLength lim) (Suc off) =
        Inr (length b, off + length (arg_bytes 2 (length b)))"
      using readLength_drop[OF hd(4) d(2)] assms(2) hd(5) by (simp add: limits_ok_def)
    moreover have "readBytes bytes (length b) (off + length (arg_bytes 2 (length b))) =
        Inr (b, off + length (arg_bytes 2 (length b)) + length b)"
      by (rule readBytes_drop[OF drop_appendD[OF d(1)]]) simp
    ultimately show ?thesis
      using hd(1-3) CBytes by simp
  next
    case (CArr xs)
    let ?tl = "concat (map cbor_bytes xs)"
    from CArr have d: "drop off bytes = arg_bytes 4 (length xs) @ ?tl @ rest"
      and ok: "length xs \<le> maxContainerLength lim" "\<And>x. x \<in> set xs \<Longrightarrow> tree_ok lim r x"
      using Suc.prems by (simp_all add: list_all_iff)
    note hd = readItem_head[OF d(1), simplified]
    have "readLength bytes (arg_info (length xs)) (maxContainerLength lim) (Suc off) =
        Inr (length xs, off + length (arg_bytes 4 (length xs)))"
      using readLength_drop[OF hd(4) ok(1)] assms(2) hd(5) by (simp add: limits_ok_def)
    moreover have "repeatE (length xs) (read_element (readItem lim bytes r)) ([], off + length (arg_bytes 4 (length xs))) =
        Inr ([] @ xs, off + length (arg_bytes 4 (length xs)) + length ?tl)"
      by (rule repeat_elements[OF _ drop_appendD[OF d]]) (rule Suc.IH[OF ok(2)])
    ultimately show ?thesis
      using hd(1-3) CArr by simp
  next
    case (CObj ps)
    let ?tl = "concat (map (\<lambda>kv. text_bytes (fst kv) @ cbor_bytes (snd kv)) ps)"
    from CObj have d: "drop off bytes = arg_bytes 5 (length ps) @ ?tl @ rest"
      and ok: "length ps \<le> maxContainerLength lim" "distinct (map fst ps)"
        "\<And>kv. kv \<in> set ps \<Longrightarrow> text_ok lim (fst kv) \<and> tree_ok lim r (snd kv)"
      using Suc.prems by (simp_all add: list_all_iff)
    note hd = readItem_head[OF d(1), simplified]
    have "readLength bytes (arg_info (length ps)) (maxContainerLength lim) (Suc off) =
        Inr (length ps, off + length (arg_bytes 5 (length ps)))"
      using readLength_drop[OF hd(4) ok(1)] assms(2) hd(5) by (simp add: limits_ok_def)
    moreover have "repeatE (length ps) (read_entry (readItem lim bytes r)) ([], off + length (arg_bytes 5 (length ps))) =
        Inr ([] @ ps, off + length (arg_bytes 5 (length ps)) + length ?tl)"
    proof (rule repeat_entries[OF _ _ drop_appendD[OF d]])
      fix kv off rest
      assume kv: "kv \<in> set ps"
      show "readItem lim bytes r off = Inr (snd kv, off + length (cbor_bytes (snd kv)))"
        if "drop off bytes = cbor_bytes (snd kv) @ rest"
        using Suc.IH[OF _ that] ok(3)[OF kv] by blast
      show "readItem lim bytes r off = Inr (CStr (fst kv), off + length (text_bytes (fst kv)))"
        if "drop off bytes = text_bytes (fst kv) @ rest"
      proof -
        from ok(3)[OF kv] obtain r' where "r = Suc r'" by (cases r) auto
        then show ?thesis
          using readItem_text[OF that _ assms(2)] ok(3)[OF kv] by blast
      qed
    qed (use ok(2) in simp)
    ultimately show ?thesis
      using hd(1-3) CObj by simp
  qed
qed

section \<open>The encoder writes the specification's bytes\<close>

text \<open>The growing buffer refines appending to a byte list of bounded length.\<close>

definition writer_inv :: "cbor_writer \<Rightarrow> bool" where
  "writer_inv w \<longleftrightarrow> woff w \<le> length (wbuf w) \<and> length (wbuf w) \<le> wmax w"

definition appended :: "cbor_writer \<Rightarrow> byte list \<Rightarrow> cbor_writer \<Rightarrow> bool" where
  "appended w bs w' \<longleftrightarrow> writer_inv w' \<and> wmax w' = wmax w \<and> finish w' = finish w @ bs"

definition writes :: "(cbor_writer \<Rightarrow> cbor_error + cbor_writer) \<Rightarrow> byte list \<Rightarrow> bool" where
  "writes f bs \<longleftrightarrow> (\<forall>w. writer_inv w \<longrightarrow>
     (if length (finish w) + length bs \<le> wmax w then \<exists>w'. f w = Inr w' \<and> appended w bs w'
      else f w = Inl ByteLimit))"

lemma grow_bounds:
  assumes "c \<le> r" "r \<le> m"
  shows "r \<le> grow c r m \<and> grow c r m \<le> m"
proof (cases "c < r")
  case True
  define c2 where "c2 = min m (max r (c * 2))"
  have c2: "\<not> c2 < r" using assms by (simp add: c2_def)
  have "grow c r m = grow c2 r m"
    using True assms grow.simps[of c r m, folded c2_def] by simp
  moreover have "grow c2 r m = c2" using c2 grow.simps[of c2 r m] by simp
  ultimately show ?thesis using assms by (simp add: c2_def)
next
  case False
  then show ?thesis using assms grow.simps[of c r m] by simp
qed

lemma length_finish: "writer_inv w \<Longrightarrow> length (finish w) = woff w"
  by (simp add: finish_def writer_inv_def)

lemma writes_bytes: "writes (\<lambda>w. writeBytes w bs) bs"
  unfolding writes_def
proof (intro allI impI)
  fix w assume inv: "writer_inv w"
  show "if length (finish w) + length bs \<le> wmax w then \<exists>w'. writeBytes w bs = Inr w' \<and> appended w bs w'
      else writeBytes w bs = Inl ByteLimit"
  proof (cases "length (finish w) + length bs \<le> wmax w")
    case False
    then show ?thesis
      by (simp add: length_finish[OF inv] writeBytes_def ensureCapacity_def Let_def)
  next
    case fits: True
    then have fits': "woff w + length bs \<le> wmax w" by (simp add: length_finish[OF inv])
    obtain w1 where w1: "ensureCapacity w (length bs) = Inr w1" "woff w1 = woff w" "wmax w1 = wmax w"
      "woff w + length bs \<le> length (wbuf w1)" "length (wbuf w1) \<le> wmax w" "take (woff w) (wbuf w1) = take (woff w) (wbuf w)"
    proof (cases "woff w + length bs \<le> length (wbuf w)")
      case True
      then show ?thesis
        using that[of w] fits' inv by (simp add: ensureCapacity_def writer_inv_def Let_def)
    next
      case False
      define c where "c = grow (max 1 (length (wbuf w))) (woff w + length bs) (wmax w)"
      have "max 1 (length (wbuf w)) \<le> woff w + length bs"
        using False by linarith
      then have "woff w + length bs \<le> c" "c \<le> wmax w"
        using grow_bounds[of "max 1 (length (wbuf w))" "woff w + length bs" "wmax w"] fits'
        by (auto simp: c_def)
      moreover have "length (wbuf w) \<le> woff w + length bs" using False by simp
      ultimately show ?thesis
        using that[of "w\<lparr>wbuf := blit (replicate c 0) 0 (wbuf w)\<rparr>"] fits' False inv
        by (simp add: ensureCapacity_def c_def writer_inv_def Let_def blit_def)
    qed
    then show ?thesis
      using fits inv take_blit[of "woff w" bs "wbuf w1"]
      by (simp add: writeBytes_def appended_def finish_def writer_inv_def)
  qed
qed

lemma writes_bind: "writes f a \<Longrightarrow> writes g b \<Longrightarrow> writes (\<lambda>w. bindE (f w) g) (a @ b)"
  unfolding writes_def
proof (intro allI impI)
  fix w assume f: "\<forall>w. writer_inv w \<longrightarrow> (if length (finish w) + length a \<le> wmax w
      then \<exists>w'. f w = Inr w' \<and> appended w a w' else f w = Inl ByteLimit)"
    and g: "\<forall>w. writer_inv w \<longrightarrow> (if length (finish w) + length b \<le> wmax w
      then \<exists>w'. g w = Inr w' \<and> appended w b w' else g w = Inl ByteLimit)"
    and inv: "writer_inv w"
  show "if length (finish w) + length (a @ b) \<le> wmax w then \<exists>w'. bindE (f w) g = Inr w' \<and> appended w (a @ b) w'
      else bindE (f w) g = Inl ByteLimit"
  proof (cases "length (finish w) + length a \<le> wmax w")
    case False
    with f inv show ?thesis by simp
  next
    case True
    with f[rule_format, OF inv] obtain w1 where w1: "f w = Inr w1" "appended w a w1" by auto
    with g have "if length (finish w1) + length b \<le> wmax w1 then \<exists>w'. g w1 = Inr w' \<and> appended w1 b w'
        else g w1 = Inl ByteLimit"
      by (auto simp: appended_def)
    with w1 show ?thesis by (auto simp: appended_def add.assoc split: if_splits)
  qed
qed

lemma writes_nil: "writes Inr []"
  by (auto simp: writes_def appended_def length_finish writer_inv_def finish_def)

lemma writesD: "writes f bs \<Longrightarrow> writer_inv w \<Longrightarrow> f w = Inr w' \<Longrightarrow> appended w bs w'"
  unfolding writes_def by (metis Inl_Inr_False sum.inject(2))

lemma writes_roomD:
  "writes f bs \<Longrightarrow> writer_inv w \<Longrightarrow> length (finish w) + length bs \<le> wmax w \<Longrightarrow> \<exists>w'. f w = Inr w' \<and> appended w bs w'"
  unfolding writes_def by simp

lemma writes_argument: "n < 2 ^ 53 \<Longrightarrow> writes (\<lambda>w. writeArgument w major n) (arg_bytes major n)"
proof -
  have b1: "writes (\<lambda>w. writeByte w b) [b]" for b
    using writes_bytes[of "[b]"] by (simp add: writeByte_def)
  have u32: "writes (\<lambda>w. writeUint32 w k) (be32 k)" for k
    using writes_bytes[of "be32 k"] by (simp add: writeUint32_def be32_def)
  have u64: "writes (\<lambda>w. writeUint64 w k) (be32 (k div UINT32_BASE) @ be32 (k mod UINT32_BASE))" for k
    using writes_bind[OF u32 u32, of "k div UINT32_BASE" "k mod UINT32_BASE"]
    by (simp add: writeUint64_def Let_def minus_div_mult_eq_mod)
  have u16: "writes (\<lambda>w. writeUint16 w k) (be16 k)" for k
    using writes_bytes[of "be16 k"] by (simp add: writeUint16_def be16_def)
  show ?thesis
    using b1[of "item_head major n"] writes_bind[OF b1 b1, of "item_head major 24" "byte_at n 0"]
      writes_bind[OF b1 u16, of "item_head major 25" n] writes_bind[OF b1 u32, of "item_head major 26" n]
      writes_bind[OF b1 u64, of "item_head major 27" n]
    by (auto simp: arg_bytes_def arg_info_def arg_tail_def writeArgument_def)
qed

lemma writes_text: "text_ok lim s \<Longrightarrow> limits_ok lim \<Longrightarrow> writes (\<lambda>w. encodeText lim w s) (text_bytes s)"
  using writes_bind[OF writes_argument[of "length (textEncode s)" 3] writes_bytes[of "textEncode s"]]
  by (simp add: text_ok_def encodeText_def text_bytes_def limits_ok_def MAX_CBOR_UINT32_def Let_def)

lemma encodeText_text_ok: "encodeText lim w s = Inr w' \<Longrightarrow> text_ok lim s"
  by (auto simp: encodeText_def text_ok_def Let_def split: if_splits)

lemma writes_number: "number_ok x \<Longrightarrow> writes (\<lambda>w. encodeNumber w x) (number_bytes x)"
proof (cases x)
  case (NInt n)
  assume ok: "number_ok x"
  then have "\<bar>n\<bar> \<le> 9007199254740991" using NInt by (simp add: MAX_SAFE_INTEGER_def)
  then have "nat n < 9007199254740992" "nat (-1 - n) < 9007199254740992" by linarith+
  then show ?thesis
    using NInt ok writes_argument[of "nat n" 0] writes_argument[of "nat (-1 - n)" 1]
    by (simp add: encodeNumber_def)
next
  case (NDbl w)
  assume "number_ok x"
  then show ?thesis
    using NDbl writes_bytes[of "0xfb # be64 (unat w)"] by (simp add: encodeNumber_def writeFloat64_def)
qed

lemma encodeNumber_ok: "encodeNumber w x = Inr w' \<Longrightarrow> wf_number x \<Longrightarrow> number_ok x"
  by (cases x) (auto simp: encodeNumber_def split: if_splits)

section \<open>What a value in the store denotes\<close>

text \<open>
  The tree a value unfolds to within a number of levels: properties holding \<open>undefined\<close> are left
  out; holes, \<open>undefined\<close> elements, symbol keys and other objects have no tree, nor has a cycle.
\<close>

fun those_by :: "('a \<Rightarrow> 'b option) \<Rightarrow> 'a list \<Rightarrow> 'b list option" where
  "those_by g [] = Some []"
| "those_by g (x # xs) =
     (case g x of None \<Rightarrow> None | Some y \<Rightarrow> map_option ((#) y) (those_by g xs))"

lemma those_by_Some: "those_by g xs = Some ys \<longleftrightarrow> list_all2 (\<lambda>x y. g x = Some y) xs ys"
  by (induction xs arbitrary: ys) (auto simp: list_all2_Cons1 split: option.splits)

definition view_item :: "(jval \<Rightarrow> cval option) \<Rightarrow> jval option \<Rightarrow> cval option" where
  "view_item f x = (case x of None \<Rightarrow> None | Some v \<Rightarrow> f v)"

definition view_entry :: "(jval \<Rightarrow> cval option) \<Rightarrow> jstr \<times> jval \<Rightarrow> (jstr \<times> cval) option" where
  "view_entry f kv = map_option (Pair (fst kv)) (f (snd kv))"

fun view :: "heap \<Rightarrow> nat \<Rightarrow> jval \<Rightarrow> cval option" where
  "view h 0 v = None"
| "view h (Suc r) v =
     (case v of
        VNull \<Rightarrow> Some CNull
      | VBool b \<Rightarrow> Some (CBool b)
      | VNum x \<Rightarrow> Some (CNum x)
      | VStr s \<Rightarrow> Some (CStr s)
      | VRef a \<Rightarrow>
          (case h a of
             OBytes b \<Rightarrow> Some (CBytes b)
           | OArray items \<Rightarrow> map_option CArr (those_by (view_item (view h r)) items)
           | OPlain symbols props \<Rightarrow>
               if symbols then None
               else map_option CObj (those_by (view_entry (view h r)) (defined_entries props))
           | OExotic \<Rightarrow> None)
      | VUndefined \<Rightarrow> None
      | VOther \<Rightarrow> None)"

text \<open>What JavaScript guarantees of the store: an object's keys are distinct, numbers are doubles.\<close>

definition val_ok :: "jval \<Rightarrow> bool" where
  "val_ok v \<longleftrightarrow> (\<forall>x. v = VNum x \<longrightarrow> wf_number x)"

fun obj_ok :: "jobj \<Rightarrow> bool" where
  "obj_ok (OArray items) = (\<forall>v. Some v \<in> set items \<longrightarrow> val_ok v)"
| "obj_ok (OPlain symbols props) = (distinct (map fst props) \<and> (\<forall>kv \<in> set props. val_ok (snd kv)))"
| "obj_ok _ = True"

definition heap_ok :: "heap \<Rightarrow> bool" where
  "heap_ok h \<longleftrightarrow> (\<forall>a. obj_ok (h a))"

lemma foldE_appended:
  assumes "foldE f w xs = Inr w'" "writer_inv w"
    and "\<And>x w w'. x \<in> set xs \<Longrightarrow> writer_inv w \<Longrightarrow> f w x = Inr w' \<Longrightarrow>
      \<exists>t. g x = Some t \<and> P t \<and> appended w (b t) w'"
  shows "\<exists>ts. those_by g xs = Some ts \<and> list_all P ts \<and> length ts = length xs \<and> appended w (concat (map b ts)) w'"
  using assms
proof (induction xs arbitrary: w)
  case Nil
  then show ?case by (auto simp: appended_def)
next
  case (Cons x xs)
  then obtain w1 where w1: "f w x = Inr w1" "foldE f w1 xs = Inr w'"
    by (auto simp: bindE_eq_Inr)
  with Cons.prems obtain t where t: "g x = Some t" "P t" "appended w (b t) w1"
    by (meson list.set_intros(1))
  from Cons.IH[OF w1(2)] t(3) Cons.prems(3)
  obtain ts where "those_by g xs = Some ts" "list_all P ts" "length ts = length xs"
    "appended w1 (concat (map b ts)) w'"
    by (auto simp: appended_def)
  with t show ?case by (auto simp: appended_def)
qed

lemma writes_foldE:
  assumes "list_all2 (\<lambda>x t. writes (\<lambda>w. f w x) (b t)) xs ts"
  shows "writes (\<lambda>w. foldE f w xs) (concat (map b ts))"
  using assms
  by (induction rule: list_all2_induct) (simp_all add: writes_nil writes_bind)

lemma distinct_defined: "distinct (map fst props) \<Longrightarrow> distinct (map fst (defined_entries props))"
  by (simp add: defined_entries_def distinct_map_filter)

lemma view_entry_keys: "list_all2 (\<lambda>kv t. view_entry f kv = Some t) es ts \<Longrightarrow> map fst ts = map fst es"
  by (induction rule: list_all2_induct) (auto simp: view_entry_def)

lemma encodeValue_sound:
  assumes "heap_ok h" "limits_ok lim"
  shows "encodeValue h lim r anc v w = Inr w' \<Longrightarrow> writer_inv w \<Longrightarrow> val_ok v \<Longrightarrow>
    \<exists>t. view h r v = Some t \<and> tree_ok lim r t \<and> appended w (cbor_bytes t) w'"
proof (induction r arbitrary: anc v w w')
  case 0
  then show ?case by simp
next
  case (Suc r)
  have byte: "appended w [b] w'" if "writeByte w b = Inr w'" for b
    using that writesD[OF writes_bytes] Suc.prems(2) by (simp add: writeByte_def)
  show ?case
  proof (cases v)
    case (VRef a)
    have obj: "obj_ok (h a)" using assms(1) by (simp add: heap_ok_def)
    show ?thesis
    proof (cases "h a")
      case (OBytes b)
      then have le: "length b \<le> maxByteLength lim"
        and e: "bindE (writeArgument w 2 (length b)) (\<lambda>w. writeBytes w b) = Inr w'"
        using Suc.prems(1) VRef by (simp_all split: if_splits)
      have "length b < 2 ^ 53" using le assms(2) by (simp add: limits_ok_def MAX_CBOR_UINT32_def)
      from writesD[OF writes_bind[OF writes_argument[OF this] writes_bytes] Suc.prems(2) e]
      show ?thesis using VRef OBytes le by simp
    next
      case (OArray items)
      then have le: "length items \<le> maxContainerLength lim" and e: "bindE (writeArgument w 4 (length items))
          (\<lambda>w. foldE (encode_item (encodeValue h lim r (a # anc))) w items) = Inr w'"
        using Suc.prems(1) VRef by (simp_all split: if_splits)
      have n: "length items < 2 ^ 53" using le assms(2) by (simp add: limits_ok_def MAX_CBOR_UINT32_def)
      from e obtain w1 where w1: "writeArgument w 4 (length items) = Inr w1"
        "foldE (encode_item (encodeValue h lim r (a # anc))) w1 items = Inr w'"
        by (auto simp: bindE_eq_Inr)
      have a1: "appended w (arg_bytes 4 (length items)) w1"
        using writesD[OF writes_argument[OF n] Suc.prems(2) w1(1)] .
      have "\<exists>ts. those_by (view_item (view h r)) items = Some ts \<and> list_all (tree_ok lim r) ts \<and>
          length ts = length items \<and> appended w1 (concat (map cbor_bytes ts)) w'"
        using w1(2)
      proof (rule foldE_appended)
        show "writer_inv w1" using a1 by (simp add: appended_def)
        fix x w w'
        assume x: "x \<in> set items" "writer_inv w" "encode_item (encodeValue h lim r (a # anc)) w x = Inr w'"
        then obtain v where "x = Some v" "encodeValue h lim r (a # anc) v w = Inr w'"
          by (auto simp: encode_item_def split: option.splits if_splits)
        then show "\<exists>t. view_item (view h r) x = Some t \<and> tree_ok lim r t \<and> appended w (cbor_bytes t) w'"
          using Suc.IH[of "a # anc" v w w'] x obj OArray by (auto simp: view_item_def)
      qed
      then show ?thesis
        using a1 VRef OArray le by (auto simp: appended_def)
    next
      case (OPlain symbols props)
      define es where "es = defined_entries props"
      have le: "length es \<le> maxContainerLength lim" "\<not> symbols" and e: "bindE (writeArgument w 5 (length es))
          (\<lambda>w. foldE (encode_entry lim (encodeValue h lim r (a # anc))) w es) = Inr w'"
        using Suc.prems(1) VRef OPlain by (simp_all add: es_def Let_def split: if_splits)
      have n: "length es < 2 ^ 53" using le assms(2) by (simp add: limits_ok_def MAX_CBOR_UINT32_def)
      from e obtain w1 where w1: "writeArgument w 5 (length es) = Inr w1"
        "foldE (encode_entry lim (encodeValue h lim r (a # anc))) w1 es = Inr w'"
        by (auto simp: bindE_eq_Inr)
      have a1: "appended w (arg_bytes 5 (length es)) w1"
        using writesD[OF writes_argument[OF n] Suc.prems(2) w1(1)] .
      have "\<exists>ts. those_by (view_entry (view h r)) es = Some ts \<and>
          list_all (\<lambda>kv. text_ok lim (fst kv) \<and> tree_ok lim r (snd kv)) ts \<and> length ts = length es \<and>
          appended w1 (concat (map (\<lambda>kv. text_bytes (fst kv) @ cbor_bytes (snd kv)) ts)) w'"
        using w1(2)
      proof (rule foldE_appended)
        show "writer_inv w1" using a1 by (simp add: appended_def)
        fix kv w w'
        assume kv: "kv \<in> set es" "writer_inv w" "encode_entry lim (encodeValue h lim r (a # anc)) w kv = Inr w'"
        then obtain w2 where w2: "encodeText lim w (fst kv) = Inr w2"
          "encodeValue h lim r (a # anc) (snd kv) w2 = Inr w'"
          by (auto simp: encode_entry_def bindE_eq_Inr)
        have ok: "text_ok lim (fst kv)" using encodeText_text_ok[OF w2(1)] .
        have a2: "appended w (text_bytes (fst kv)) w2"
          using writesD[OF writes_text[OF ok assms(2)] kv(2) w2(1)] .
        have "val_ok (snd kv)"
          using kv(1) obj OPlain by (auto simp: es_def defined_entries_def)
        with Suc.IH[OF w2(2)] a2 obtain t where "view h r (snd kv) = Some t" "tree_ok lim r t"
          "appended w2 (cbor_bytes t) w'" by (auto simp: appended_def)
        then show "\<exists>t. view_entry (view h r) kv = Some t \<and> (text_ok lim (fst t) \<and> tree_ok lim r (snd t)) \<and>
            appended w (text_bytes (fst t) @ cbor_bytes (snd t)) w'"
          using a2 ok by (auto simp: view_entry_def appended_def)
      qed
      then obtain ts where ts: "those_by (view_entry (view h r)) es = Some ts"
          "list_all (\<lambda>kv. text_ok lim (fst kv) \<and> tree_ok lim r (snd kv)) ts" "length ts = length es"
          "appended w1 (concat (map (\<lambda>kv. text_bytes (fst kv) @ cbor_bytes (snd kv)) ts)) w'"
        by blast
      have "distinct (map fst ts)"
        using view_entry_keys[of "view h r" es ts] ts(1) obj OPlain distinct_defined[of props]
        by (simp add: those_by_Some es_def)
      then show ?thesis
        using a1 VRef OPlain le ts by (auto simp: appended_def es_def)
    qed (use Suc.prems VRef in simp_all)
  next
    case (VNum x)
    then have e: "encodeNumber w x = Inr w'" and "wf_number x"
      using Suc.prems by (simp_all add: val_ok_def)
    then have ok: "number_ok x" by (rule encodeNumber_ok)
    from writesD[OF writes_number[OF ok] Suc.prems(2) e] show ?thesis
      using VNum ok by simp
  next
    case (VStr s)
    then have e: "encodeText lim w s = Inr w'" using Suc.prems by simp
    note ok = encodeText_text_ok[OF e]
    from writesD[OF writes_text[OF ok assms(2)] Suc.prems(2) e] show ?thesis
      using VStr ok by simp
  qed (use Suc.prems byte in \<open>auto split: if_splits\<close>)
qed

text \<open>A value's tree does not depend on the levels it is given, once they are enough.\<close>

lemma those_by_mono:
  assumes "those_by f xs = Some ys" "\<And>x y. x \<in> set xs \<Longrightarrow> f x = Some y \<Longrightarrow> g x = Some y"
  shows "those_by g xs = Some ys"
  using assms unfolding those_by_Some by (auto intro: list.rel_mono_strong)

lemma view_Suc: "view h r v = Some t \<Longrightarrow> view h (Suc r) v = Some t"
proof (induction r arbitrary: v t)
  case 0
  then show ?case by simp
next
  case (Suc r)
  have item: "view_item (view h (Suc r)) x = Some y" if "view_item (view h r) x = Some y" for x y
    using that Suc.IH by (auto simp: view_item_def simp del: view.simps split: option.splits)
  have entry: "view_entry (view h (Suc r)) x = Some y" if "view_entry (view h r) x = Some y" for x y
    using that Suc.IH by (auto simp: view_entry_def simp del: view.simps)
  note mono = those_by_mono[OF _ item] those_by_mono[OF _ entry]
  show ?case
    using Suc.prems mono
    by (subst view.simps(2), subst (asm) view.simps(2))
      (auto simp del: view.simps split: jval.splits jobj.splits if_splits)
qed

lemma view_mono: "view h r v = Some t \<Longrightarrow> r \<le> r' \<Longrightarrow> view h r' v = Some t"
proof -
  assume t: "view h r v = Some t" and "r \<le> r'"
  from t have "view h (k + r) v = Some t" for k
  proof (induction k)
    case 0
    then show ?case by (simp del: view.simps)
  next
    case (Suc k)
    then show ?case using view_Suc[of h "k + r" v t] by (simp del: view.simps)
  qed
  from this[of "r' - r"] \<open>r \<le> r'\<close> show ?thesis by (simp del: view.simps)
qed

lemma view_det: "view h r v = Some t \<Longrightarrow> view h r' v = Some t' \<Longrightarrow> t = t'"
  using view_mono[of h r v t "max r r'"] view_mono[of h r' v t' "max r r'"] by simp

definition around :: "heap \<Rightarrow> nat list \<Rightarrow> cval \<Rightarrow> bool" where
  "around h anc t \<longleftrightarrow> (\<forall>a \<in> set anc. \<exists>r ta. view h r (VRef a) = Some ta \<and> size t < size ta)"

lemma around_child:
  "around h anc t \<Longrightarrow> view h r (VRef a) = Some t \<Longrightarrow> size u < size t \<Longrightarrow> around h (a # anc) u"
  by (auto simp: around_def) (meson less_trans)

lemma not_around_self: "around h anc t \<Longrightarrow> view h r (VRef a) = Some t \<Longrightarrow> a \<notin> set anc"
  unfolding around_def using view_det by fastforce

lemma size_child:
  "x \<in> set xs \<Longrightarrow> size x < size (CArr xs)"
  "kv \<in> set ps \<Longrightarrow> size (snd kv) < size (CObj ps)"
proof -
  show "x \<in> set xs \<Longrightarrow> size x < size (CArr xs)"
    by (induction xs) auto
  show "kv \<in> set ps \<Longrightarrow> size (snd kv) < size (CObj ps)"
    by (induction ps) auto
qed

lemma encodeValue_complete:
  assumes "limits_ok lim"
  shows "view h r v = Some t \<Longrightarrow> tree_ok lim r t \<Longrightarrow> around h anc t \<Longrightarrow>
    writes (encodeValue h lim r anc v) (cbor_bytes t)"
proof (induction r arbitrary: anc v t)
  case 0
  then show ?case by simp
next
  case (Suc r)
  have byte: "writes (\<lambda>w. writeByte w b) [b]" for b
    using writes_bytes[of "[b]"] by (simp add: writeByte_def)
  show ?case
  proof (cases v)
    case (VRef a)
    have fresh: "a \<notin> set anc"
      using not_around_self[OF Suc.prems(3)] Suc.prems(1) VRef by (simp del: view.simps)
    show ?thesis
    proof (cases "h a")
      case (OBytes b)
      then have t: "t = CBytes b" "length b \<le> maxByteLength lim"
        using Suc.prems VRef by auto
      then have "length b < 2 ^ 53" using assms by (simp add: limits_ok_def MAX_CBOR_UINT32_def)
      from writes_bind[OF writes_argument[OF this] writes_bytes] t OBytes VRef show ?thesis by simp
    next
      case (OArray items)
      then obtain ts where ts: "t = CArr ts" "list_all2 (\<lambda>x y. view_item (view h r) x = Some y) items ts"
        using Suc.prems(1) VRef by (auto simp: those_by_Some)
      then have len: "length ts = length items" by (simp add: list_all2_lengthD)
      have le: "length items \<le> maxContainerLength lim" and oks: "\<And>u. u \<in> set ts \<Longrightarrow> tree_ok lim r u"
        using Suc.prems(2) ts(1) len by (auto simp: list_all_iff)
      have n: "length items < 2 ^ 53" using le assms by (simp add: limits_ok_def MAX_CBOR_UINT32_def)
      have "list_all2 (\<lambda>x u. writes (\<lambda>w. encode_item (encodeValue h lim r (a # anc)) w x) (cbor_bytes u)) items ts"
      proof (rule list.rel_mono_strong[OF ts(2)])
        fix x u
        assume xu: "x \<in> set items" "u \<in> set ts" "view_item (view h r) x = Some u"
        then obtain y where y: "x = Some y" "view h r y = Some u"
          by (auto simp: view_item_def split: option.splits)
        then have "y \<noteq> VUndefined" by (cases r) auto
        moreover have "writes (encodeValue h lim r (a # anc) y) (cbor_bytes u)"
          using Suc.IH[OF y(2) oks[OF xu(2)]] around_child[OF Suc.prems(3), of "Suc r" a u]
            Suc.prems(1) VRef size_child(1)[OF xu(2)] ts(1) by (simp del: view.simps)
        ultimately show "writes (\<lambda>w. encode_item (encodeValue h lim r (a # anc)) w x) (cbor_bytes u)"
          using y by (simp add: encode_item_def)
      qed
      from writes_bind[OF writes_argument[OF n] writes_foldE[OF this], of 4]
      show ?thesis using VRef OArray ts(1) len le fresh by simp
    next
      case (OPlain symbols props)
      define es where "es = defined_entries props"
      obtain ts where ts: "t = CObj ts" "\<not> symbols"
          "list_all2 (\<lambda>kv u. view_entry (view h r) kv = Some u) es ts"
        using Suc.prems(1) VRef OPlain by (auto simp: those_by_Some es_def split: if_splits)
      then have len: "length ts = length es" by (simp add: list_all2_lengthD)
      have le: "length es \<le> maxContainerLength lim"
        and oks: "\<And>u. u \<in> set ts \<Longrightarrow> text_ok lim (fst u) \<and> tree_ok lim r (snd u)"
        using Suc.prems(2) ts(1) len by (auto simp: list_all_iff)
      have n: "length es < 2 ^ 53" using le assms by (simp add: limits_ok_def MAX_CBOR_UINT32_def)
      have "list_all2 (\<lambda>kv u. writes (\<lambda>w. encode_entry lim (encodeValue h lim r (a # anc)) w kv)
          (text_bytes (fst u) @ cbor_bytes (snd u))) es ts"
      proof (rule list.rel_mono_strong[OF ts(3)])
        fix kv u
        assume ku: "kv \<in> set es" "u \<in> set ts" "view_entry (view h r) kv = Some u"
        then have u: "fst u = fst kv" "view h r (snd kv) = Some (snd u)"
          by (auto simp: view_entry_def)
        have "writes (encodeValue h lim r (a # anc) (snd kv)) (cbor_bytes (snd u))"
          using Suc.IH[OF u(2)] oks[OF ku(2)] around_child[OF Suc.prems(3), of "Suc r" a "snd u"]
            Suc.prems(1) VRef size_child(2)[OF ku(2)] ts(1) by (simp del: view.simps)
        with writes_bind[OF writes_text this] oks[OF ku(2)] assms u(1)
        show "writes (\<lambda>w. encode_entry lim (encodeValue h lim r (a # anc)) w kv) (text_bytes (fst u) @ cbor_bytes (snd u))"
          by (simp add: encode_entry_def)
      qed
      from writes_bind[OF writes_argument[OF n] writes_foldE[OF this], of 5]
      show ?thesis using VRef OPlain ts(1,2) len le fresh by (simp add: es_def Let_def)
    qed (use Suc.prems VRef in auto)
  qed (use Suc.prems byte writes_number writes_text[OF _ assms] in auto)
qed

lemma new_writer_inv: "writer_inv (new_writer m) \<and> wmax (new_writer m) = m \<and> finish (new_writer m) = []"
  by (simp add: new_writer_def writer_inv_def finish_def)

section \<open>What the decoder accepts\<close>

lemma repeatE_invariant:
  assumes "repeatE n f s = Inr s'" "I s"
    and "\<And>s s'. I s \<Longrightarrow> f s = Inr s' \<Longrightarrow> I s'"
  shows "I s'"
  using assms(1,2)
proof (induction n arbitrary: s)
  case (Suc n)
  then show ?case using assms(3) by (auto simp: bindE_eq_Inr)
qed simp

lemma repeatE_length:
  assumes "repeatE n f s = Inr s'" "\<And>s s'. f s = Inr s' \<Longrightarrow> m s' = Suc (m s)"
  shows "m s' = m s + n"
  using assms(1)
proof (induction n arbitrary: s)
  case (Suc n)
  then show ?case using assms(2) by (auto simp: bindE_eq_Inr)
qed simp

lemma readLength_bound: "readLength bytes info limit off = Inr (n, off') \<Longrightarrow> n \<le> limit"
  by (auto simp: readLength_def bindE_eq_Inr split: if_splits)

lemma readBytes_length: "readBytes bytes n off = Inr (b, off') \<Longrightarrow> off \<le> length bytes \<Longrightarrow> length b = n"
  by (auto simp: readBytes_def slice_def split: if_splits)

lemma readBytes_length4: "readBytes bytes 4 off = Inr (b, off') \<Longrightarrow> length b = 4"
  by (auto simp: readBytes_def slice_def split: if_splits)

lemma readBytes_le: "readBytes bytes n off = Inr (b, off') \<Longrightarrow> length b \<le> n"
  by (auto simp: readBytes_def slice_def split: if_splits)

lemma readArgument_safe: "readArgument bytes info off = Inr (n, off') \<Longrightarrow> n < 2 ^ 53"
proof -
  assume r: "readArgument bytes info off = Inr (n, off')"
  have lo: "lo < 4294967296" if "read32 bytes o1 = Inr (lo, o2)" for lo o1 o2
    using that of_be32_bound[OF readBytes_length4] by (auto simp: read32_def bindE_eq_Inr)
  have two: "hi * UINT32_BASE + lo < 2 ^ 53"
    if "\<not> 0x1fffff < hi" "read32 bytes o1 = Inr (lo, o2)" for hi lo o1 o2
    using that(1) lo[OF that(2)] by (simp add: UINT32_BASE_def)
  have one: "unat b < 2 ^ 53" for b :: byte
    using byte_bound[of b] by simp
  have half: "of_be16 b < 2 ^ 53" for b
    using of_be16_bound[of b] by simp
  show ?thesis
    using r lo two one half
    by (fastforce simp: readArgument_def bindE_eq_Inr readBytes_def split: if_splits)
qed

lemma number_of_bits_ok:
  "isFinite (number_of_bits w) \<Longrightarrow> isInteger (number_of_bits w) \<longrightarrow> isSafeInteger (number_of_bits w) \<Longrightarrow>
    number_ok (number_of_bits w)"
proof (cases "number_of_bits w")
  case (NDbl v)
  then have "v = w" by (auto simp: number_of_bits_def Let_def split: if_splits)
  moreover assume "isFinite (number_of_bits w)"
  ultimately show ?thesis using NDbl by simp
qed simp

lemma readSimple_ok: "readSimple bytes info off = Inr (t, off') \<Longrightarrow> tree_by txt lim (Suc r) t"
  unfolding readSimple_def Let_def
  by (auto simp: bindE_eq_Inr simp del: of_nat_add of_nat_mult split: if_splits intro!: number_of_bits_ok)

lemma read_element_length: "read_element item s = Inr s' \<Longrightarrow> length (fst s') = Suc (length (fst s))"
  by (auto simp: read_element_def bindE_eq_Inr)

lemma read_entryD:
  assumes "read_entry item s = Inr s'"
  obtains k o1 v o2 where "item (snd s) = Inr (CStr k, o1)" "k \<notin> fst ` set (fst s)"
    "item o1 = Inr (v, o2)" "s' = (fst s @ [(k, v)], o2)"
proof -
  from assms obtain key o1 where key: "item (snd s) = Inr (key, o1)"
    and rest: "(case key of CStr k \<Rightarrow> if k \<in> fst ` set (fst s) then Inl DuplicateKey
        else bindE (item o1) (\<lambda>(v, off). Inr (fst s @ [(k, v)], off)) | _ \<Rightarrow> Inl KeyNotString) = Inr s'"
    by (auto simp: read_entry_def bindE_eq_Inr)
  then show ?thesis
    using that by (cases key) (auto simp: bindE_eq_Inr split: if_splits)
qed

lemma read_entry_length: "read_entry item s = Inr s' \<Longrightarrow> length (fst s') = Suc (length (fst s))"
  by (erule read_entryD) simp

lemma readItem_sound: "readItem lim bytes r off = Inr (t, off') \<Longrightarrow> tree_by (\<lambda>_. True) lim r t"
proof (induction r arbitrary: t off off')
  case 0
  then show ?case by simp
next
  case (Suc r)
  note IH = Suc.IH
  have elems: "list_all (tree_by (\<lambda>_. True) lim r) (fst s) \<and> length (fst s) = n"
    if "repeatE n (read_element (readItem lim bytes r)) ([], o1) = Inr s" for n o1 s
  proof
    show "list_all (tree_by (\<lambda>_. True) lim r) (fst s)"
      using that by (rule repeatE_invariant) (auto simp: read_element_def bindE_eq_Inr dest: IH)
    show "length (fst s) = n"
      using repeatE_length[OF that, of "\<lambda>s. length (fst s)"] read_element_length by auto
  qed
  have entries: "distinct (map fst (fst s)) \<and> list_all (\<lambda>kv. tree_by (\<lambda>_. True) lim r (snd kv)) (fst s) \<and>
      length (fst s) = n"
    if "repeatE n (read_entry (readItem lim bytes r)) ([], o1) = Inr s" for n o1 s
  proof -
    have "distinct (map fst (fst s)) \<and> list_all (\<lambda>kv. tree_by (\<lambda>_. True) lim r (snd kv)) (fst s)"
      using that by (rule repeatE_invariant) (auto elim!: read_entryD dest: IH)
    moreover have "length (fst s) = n"
      using repeatE_length[OF that, of "\<lambda>s. length (fst s)"] read_entry_length by auto
    ultimately show ?thesis by simp
  qed
  obtain b o1 where b: "readByte bytes off = Inr (b, o1)"
    using Suc.prems by (auto simp: bindE_eq_Inr)
  note body = Suc.prems[unfolded readItem.simps Let_def b bindE_def sum.case prod.case, folded bindE_def]
  show ?case
  proof (cases "unat (drop_bit 5 b) \<in> {0, 1, 2, 3}")
    case True
    then show ?thesis
      using body by (auto simp: bindE_eq_Inr MAX_SAFE_INTEGER_def split: if_splits option.splits
          dest: readArgument_safe) (use readLength_bound readBytes_le le_trans in blast)
  next
    case False
    then consider "unat (drop_bit 5 b) = 4" | "unat (drop_bit 5 b) = 5"
      | "readSimple bytes (unat (b AND 0x1f)) o1 = Inr (t, off')"
      using body by (auto split: if_splits)
    then show ?thesis
    proof cases
      case 3
      then show ?thesis by (rule readSimple_ok)
    qed (use body in \<open>auto simp: bindE_eq_Inr dest!: elems entries readLength_bound\<close>)
  qed
qed

lemma encodeCbor_iff:
  assumes "heap_ok h" "val_ok v" "resolveOptions opts = Inr lim"
  shows "encodeCbor h v opts = Inr bs \<longleftrightarrow>
    (\<exists>t. view h (Suc (maxDepth lim)) v = Some t \<and> tree_ok lim (Suc (maxDepth lim)) t \<and>
         bs = cbor_bytes t \<and> length bs \<le> maxByteLength lim)"
proof
  let ?w = "new_writer (maxByteLength lim)"
  note lim = resolveOptions_ok[OF assms(3)]
  assume "encodeCbor h v opts = Inr bs"
  then obtain w' where w': "encodeValue h lim (Suc (maxDepth lim)) [] v ?w = Inr w'" "bs = finish w'"
    using assms(3) by (auto simp: encodeCbor_def bindE_eq_Inr simp del: encodeValue.simps)
  from encodeValue_sound[OF assms(1) lim w'(1) _ assms(2)] new_writer_inv[of "maxByteLength lim"]
  obtain t where "view h (Suc (maxDepth lim)) v = Some t" "tree_ok lim (Suc (maxDepth lim)) t" "appended ?w (cbor_bytes t) w'"
    by blast
  moreover from this(3) have "bs = cbor_bytes t" "length bs \<le> maxByteLength lim"
    using new_writer_inv[of "maxByteLength lim"] length_finish[of w']
    by (auto simp: appended_def w'(2) writer_inv_def)
  ultimately show "\<exists>t. view h (Suc (maxDepth lim)) v = Some t \<and> tree_ok lim (Suc (maxDepth lim)) t \<and>
      bs = cbor_bytes t \<and> length bs \<le> maxByteLength lim"
    by blast
next
  let ?w = "new_writer (maxByteLength lim)"
  note lim = resolveOptions_ok[OF assms(3)]
  assume "\<exists>t. view h (Suc (maxDepth lim)) v = Some t \<and> tree_ok lim (Suc (maxDepth lim)) t \<and>
      bs = cbor_bytes t \<and> length bs \<le> maxByteLength lim"
  then obtain t where t: "view h (Suc (maxDepth lim)) v = Some t" "tree_ok lim (Suc (maxDepth lim)) t"
      "bs = cbor_bytes t" "length bs \<le> maxByteLength lim" by blast
  have ws: "writes (encodeValue h lim (Suc (maxDepth lim)) [] v) bs"
    using encodeValue_complete[OF lim t(1,2), of "[]"] t(3) by (simp add: around_def)
  then obtain w' where "encodeValue h lim (Suc (maxDepth lim)) [] v ?w = Inr w'" "appended ?w bs w'"
    using writes_roomD[OF ws, of ?w] t(4) new_writer_inv[of "maxByteLength lim"]
    by (auto simp del: encodeValue.simps)
  then show "encodeCbor h v opts = Inr bs"
    using assms(3) new_writer_inv[of "maxByteLength lim"]
    by (simp add: encodeCbor_def appended_def del: encodeValue.simps)
qed

lemma encodeCbor_decodes:
  assumes "heap_ok h" "val_ok v" "encodeCbor h v opts = Inr bs"
  shows "\<exists>t lim. resolveOptions opts = Inr lim \<and> view h (Suc (maxDepth lim)) v = Some t \<and> decodeCbor bs opts = Inr t"
proof -
  from assms(3) obtain lim where lim: "resolveOptions opts = Inr lim"
    by (auto simp: encodeCbor_def bindE_eq_Inr simp del: encodeValue.simps)
  from assms(3) obtain t where t: "view h (Suc (maxDepth lim)) v = Some t"
      "tree_ok lim (Suc (maxDepth lim)) t" "bs = cbor_bytes t" "length bs \<le> maxByteLength lim"
    using encodeCbor_iff[OF assms(1,2) lim] by blast
  from readItem_tree[OF t(2) resolveOptions_ok[OF lim], of 0 bs "[]"] t
  have "decodeCbor bs opts = Inr t"
    by (simp add: decodeCbor_def lim del: readItem.simps)
  with t lim show ?thesis by blast
qed

lemma decodeCbor_tree:
  assumes "decodeCbor bytes opts = Inr t"
  shows "\<exists>lim. resolveOptions opts = Inr lim \<and> length bytes \<le> maxByteLength lim \<and>
    tree_by (\<lambda>_. True) lim (Suc (maxDepth lim)) t"
proof -
  from assms obtain lim where lim: "resolveOptions opts = Inr lim"
    by (auto simp: decodeCbor_def bindE_eq_Inr simp del: readItem.simps)
  with assms obtain off where "readItem lim bytes (Suc (maxDepth lim)) 0 = Inr (t, off)"
      "length bytes \<le> maxByteLength lim"
    by (auto simp: decodeCbor_def bindE_eq_Inr simp del: readItem.simps split: if_splits)
  with lim readItem_sound show ?thesis by blast
qed

section \<open>Properties\<close>

text \<open>
  C36. The encoder is exact: whatever the object store (shared and cyclic objects included), a value
  encodes if and only if it unfolds, within \<open>maxDepth\<close>, to a tree whose containers, texts, byte
  strings and numbers respect the limits, and whose bytes fit in \<open>maxByteLength\<close>; the output is
  then the definite-length RFC 8949 encoding of that tree. In particular no cyclic value encodes,
  and the growing buffer never changes what is written.
\<close>

theorem encodeCbor_exact:
  assumes "heap_ok h" "val_ok v" "resolveOptions opts = Inr lim"
  shows "encodeCbor h v opts = Inr bs \<longleftrightarrow>
    (\<exists>t. view h (Suc (maxDepth lim)) v = Some t \<and> tree_ok lim (Suc (maxDepth lim)) t \<and>
         bs = cbor_bytes t \<and> length bs \<le> maxByteLength lim)"
  by (rule encodeCbor_iff[OF assms])

definition sample_heap :: heap where
  "sample_heap a = (if a = 0 then OPlain False [(js ''a'', VNum (NInt 500)), (js ''b'', VUndefined), (js ''c'', VRef 1)]
     else if a = 1 then OArray [Some (VBool True), Some (VNum (NDbl minus_zero)), Some (VRef 2)]
     else OBytes [1, 2])"

definition sample_tree :: cval where
  "sample_tree = CObj [(js ''a'', CNum (NInt 500)), (js ''c'', CArr [CBool True, CNum (NDbl minus_zero), CBytes [1, 2]])]"

definition no_options :: cbor_options where
  "no_options = \<lparr>opt_maxByteLength = None, opt_maxContainerLength = None, opt_maxDepth = None\<rparr>"

definition default_limits :: limits where
  "default_limits = \<lparr>maxByteLength = 16777216, maxContainerLength = 1000000, maxDepth = 64\<rparr>"

lemma default_limits: "resolveOptions no_options = Inr default_limits"
  by code_simp

lemma sample_heap_ok: "heap_ok sample_heap"
  by (auto simp: heap_ok_def sample_heap_def val_ok_def js_def minus_zero_def number_of_bits_def Let_def
      dbl_exponent_def dbl_mantissa_def)

lemma sample_view: "view sample_heap (Suc (maxDepth default_limits)) (VRef 0) = Some sample_tree"
  by code_simp

lemma sample_bytes: "length (cbor_bytes sample_tree) \<le> 16777216"
  by code_simp

lemma sample_tree_ok: "tree_ok default_limits (Suc (maxDepth default_limits)) sample_tree"
  by code_simp

theorem encodeCbor_exact_witness:
  "encodeCbor sample_heap (VRef 0) no_options = Inr (cbor_bytes sample_tree)"
  using encodeCbor_exact[OF sample_heap_ok _ default_limits, of "VRef 0" "cbor_bytes sample_tree"]
    sample_view sample_bytes sample_tree_ok
  by (simp add: val_ok_def default_limits_def del: view.simps cbor_bytes.simps)

text \<open>
  C37. The round trip through the bytes: what a value encodes to, decodes under the same options to
  the tree the value denotes (properties holding \<open>undefined\<close> left out, keys in their order, minus
  zero and every finite double bit for bit).
\<close>

theorem cbor_roundtrip:
  assumes "heap_ok h" "val_ok v" "encodeCbor h v opts = Inr bs"
  shows "\<exists>t lim. resolveOptions opts = Inr lim \<and> view h (Suc (maxDepth lim)) v = Some t \<and> decodeCbor bs opts = Inr t"
  by (rule encodeCbor_decodes[OF assms])

lemma sample_encodes: "encodeCbor sample_heap (VRef 0) no_options =
    Inr [0xa2, 0x61, 0x61, 0x19, 1, 0xf4, 0x61, 0x63, 0x83, 0xf5, 0xfb, 0x80, 0, 0, 0, 0, 0, 0, 0, 0x42, 1, 2]"
  by code_simp

theorem cbor_roundtrip_witness:
  "decodeCbor [0xa2, 0x61, 0x61, 0x19, 1, 0xf4, 0x61, 0x63, 0x83, 0xf5, 0xfb, 0x80, 0, 0, 0, 0, 0, 0, 0, 0x42, 1, 2]
     no_options = Inr sample_tree"
  using cbor_roundtrip[OF sample_heap_ok _ sample_encodes] sample_view
  by (auto simp: val_ok_def default_limits simp del: view.simps)

text \<open>
  C40. The decoder enforces its bounds on arbitrary input bytes: whatever it returns nests no deeper
  than \<open>maxDepth\<close>, has no container or byte string above its limit, no integer outside the safe
  range and no infinity or NaN, and no object with a duplicate key.
\<close>

theorem decodeCbor_bounded:
  assumes "decodeCbor bytes opts = Inr t"
  shows "\<exists>lim. resolveOptions opts = Inr lim \<and> length bytes \<le> maxByteLength lim \<and>
    tree_by (\<lambda>_. True) lim (Suc (maxDepth lim)) t"
  by (rule decodeCbor_tree[OF assms])

theorem decodeCbor_bounded_witness:
  "tree_by (\<lambda>_. True) default_limits 65 (CArr [CNum (NInt 1)])"
proof -
  have "decodeCbor [0x81, 1] no_options = Inr (CArr [CNum (NInt 1)])" by code_simp
  from decodeCbor_bounded[OF this] show ?thesis
    by (auto simp: default_limits simp del: tree_by.simps) (simp add: default_limits_def del: tree_by.simps)
qed

text \<open>
  A message is one item: when a complete item is followed by anything at all, the decoder throws
  instead of returning the item.
\<close>

theorem decodeCbor_rejects_trailing:
  assumes "resolveOptions opts = Inr lim" "tree_ok lim (Suc (maxDepth lim)) t"
    and "rest \<noteq> []" "length (cbor_bytes t) + length rest \<le> maxByteLength lim"
  shows "decodeCbor (cbor_bytes t @ rest) opts = Inl TrailingData"
  using readItem_tree[OF assms(2) resolveOptions_ok[OF assms(1)], of 0 "cbor_bytes t @ rest" rest] assms(1,3,4)
  by (simp add: decodeCbor_def del: readItem.simps)

theorem decodeCbor_rejects_trailing_witness: "decodeCbor (cbor_bytes sample_tree @ [0xf6]) no_options = Inl TrailingData"
  by (rule decodeCbor_rejects_trailing[OF default_limits sample_tree_ok]) (code_simp+)

end
