(* ===== verification/Codec.thy ===== *)
theory Codec
  imports Framing Cbor
begin

text \<open>
  \<open>packages/protocol/src/codec.ts\<close>: protocol messages as CBOR payloads of length-prefixed frames,
  and the incremental decoder behind \<open>ClientMessageDecoder\<close> and \<open>ServerMessageDecoder\<close>.

  The schema check (\<open>Check\<close> of the package typebox, with the schemas of \<open>protocol.ts\<close>) is a
  parameter: \<open>checkIn\<close> on the value to encode, \<open>checkOut\<close> on a decoded tree. An error carries the
  kind of message and the error it was made from; the code prints both into its text.
\<close>

section \<open>Operations\<close>

datatype codec_error =
    InvalidMessage string
  | CannotEncode string "cbor_error + frame_error"
  | DecoderHasFailedBefore string
  | InvalidProtocolFrame string "cbor_error + frame_error"
  | InvalidProtocolFraming string frame_error

definition payload_options :: "int option \<Rightarrow> cbor_options" where
  "payload_options maxFrame = \<lparr>opt_maxByteLength = Some (or_default maxFrame DEFAULT_MAX_FRAME_LENGTH),
     opt_maxContainerLength = None, opt_maxDepth = None\<rparr>"

definition encodeProtocolMessage ::
    "(heap \<Rightarrow> jval \<Rightarrow> bool) \<Rightarrow> string \<Rightarrow> int option \<Rightarrow> heap \<times> jval \<Rightarrow> codec_error + byte list" where
  "encodeProtocolMessage checkIn kind maxFrame m =
     (case m of (h, v) \<Rightarrow>
       if \<not> checkIn h v then Inl (InvalidMessage kind)
       else case encodeCbor h v (payload_options maxFrame) of
         Inl e \<Rightarrow> Inl (CannotEncode kind (Inl e))
       | Inr payload \<Rightarrow>
           (case encodeFrame payload of
              Inl e \<Rightarrow> Inl (CannotEncode kind (Inr e))
            | Inr frame \<Rightarrow> Inr frame))"

record message_decoder =
  md_failed :: bool
  md_frames :: frame_decoder
  md_kind :: string
  md_maxFrameLength :: int

definition new_message_decoder :: "string \<Rightarrow> int option \<Rightarrow> frame_error + message_decoder" where
  "new_message_decoder kind maxFrame =
     bindE (new_decoder maxFrame) (\<lambda>frames. Inr
       \<lparr>md_failed = False, md_frames = frames, md_kind = kind,
        md_maxFrameLength = or_default maxFrame DEFAULT_MAX_FRAME_LENGTH\<rparr>)"

text \<open>One frame of the loop of \<open>push\<close>: decode it, check it, add it to the messages.\<close>

definition decode_message ::
    "(cval \<Rightarrow> bool) \<Rightarrow> message_decoder \<Rightarrow> cval list \<Rightarrow> byte list \<Rightarrow> codec_error + cval list" where
  "decode_message checkOut d messages frame =
     (case decodeCbor frame (payload_options (Some (md_maxFrameLength d))) of
        Inl e \<Rightarrow> Inl (InvalidProtocolFrame (md_kind d) (Inl e))
      | Inr v \<Rightarrow> if checkOut v then Inr (messages @ [v]) else Inl (InvalidMessage (md_kind d)))"

text \<open>A push that throws leaves the decoder failed; \<open>None\<close> would be a loop that does not end.\<close>

definition md_push ::
    "(cval \<Rightarrow> bool) \<Rightarrow> message_decoder \<Rightarrow> byte list \<Rightarrow> (message_decoder \<times> (codec_error + cval list)) option" where
  "md_push checkOut d chunk =
     (if md_failed d then Some (d, Inl (DecoderHasFailedBefore (md_kind d)))
      else case push (md_frames d) chunk of
        None \<Rightarrow> None
      | Some (frames, Inl e) \<Rightarrow>
          Some (d\<lparr>md_frames := frames, md_failed := True\<rparr>, Inl (InvalidProtocolFrame (md_kind d) (Inr e)))
      | Some (frames, Inr fs) \<Rightarrow>
          (let d = d\<lparr>md_frames := frames\<rparr>
           in case foldE (decode_message checkOut d) [] fs of
             Inl e \<Rightarrow> Some (d\<lparr>md_failed := True\<rparr>, Inl e)
           | Inr messages \<Rightarrow> Some (d, Inr messages)))"

definition md_end :: "message_decoder \<Rightarrow> message_decoder \<times> (codec_error + unit)" where
  "md_end d =
     (if md_failed d then (d, Inl (DecoderHasFailedBefore (md_kind d)))
      else case end_stream (md_frames d) of
        (frames, Inl e) \<Rightarrow>
          (d\<lparr>md_frames := frames, md_failed := True\<rparr>, Inl (InvalidProtocolFraming (md_kind d) e))
      | (frames, Inr u) \<Rightarrow> (d\<lparr>md_frames := frames\<rparr>, Inr u))"

text \<open>A transport's loop: push every chunk, keep the messages, stop at the first error.\<close>

fun md_push_all ::
    "(cval \<Rightarrow> bool) \<Rightarrow> message_decoder \<Rightarrow> byte list list \<Rightarrow> (message_decoder \<times> (codec_error option \<times> cval list)) option" where
  "md_push_all checkOut d [] = Some (d, None, [])"
| "md_push_all checkOut d (c # cs) =
     (case md_push checkOut d c of
        None \<Rightarrow> None
      | Some (d, Inl e) \<Rightarrow> Some (d, Some e, [])
      | Some (d, Inr ms) \<Rightarrow>
          (case md_push_all checkOut d cs of
             None \<Rightarrow> None
           | Some (d, e, ms') \<Rightarrow> Some (d, e, ms @ ms')))"

section \<open>The payload codec as an interface\<close>

text \<open>
  What the message decoder needs of the payload encoding: a payload that was encoded decodes to the
  content of the value, and the content is one the reader accepts.
\<close>

locale payload_codec =
  fixes enc :: "'a \<Rightarrow> 'e + byte list"
    and dec :: "byte list \<Rightarrow> 'f + 'b"
    and content :: "'a \<Rightarrow> 'b \<Rightarrow> bool"
    and valid :: "'a \<Rightarrow> bool"
  assumes dec_enc: "valid a \<Longrightarrow> enc a = Inr bs \<Longrightarrow> \<exists>b. content a b \<and> dec bs = Inr b"
begin

lemma dec_all:
  assumes "list_all2 (\<lambda>a bs. enc a = Inr bs) as bss" "\<forall>a \<in> set as. valid a"
  shows "\<exists>xs. list_all2 content as xs \<and> list_all2 (\<lambda>bs x. dec bs = Inr x) bss xs"
  using assms
proof (induction rule: list_all2_induct)
  case Nil
  then show ?case by simp
next
  case (Cons a as bs bss)
  from Cons dec_enc[of a bs] obtain x xs where
    "content a x" "dec bs = Inr x" "list_all2 content as xs" "list_all2 (\<lambda>bs x. dec bs = Inr x) bss xs"
    by auto
  then show ?case by (intro exI[of _ "x # xs"]) simp
qed

end

definition denotes :: "heap \<times> jval \<Rightarrow> cval \<Rightarrow> bool" where
  "denotes m t \<longleftrightarrow> (\<exists>r. view (fst m) r (snd m) = Some t)"

definition message_ok :: "heap \<times> jval \<Rightarrow> bool" where
  "message_ok m \<longleftrightarrow> heap_ok (fst m) \<and> val_ok (snd m)"

interpretation cbor: payload_codec "\<lambda>m. encodeCbor (fst m) (snd m) opts" "\<lambda>bs. decodeCbor bs opts" denotes message_ok
  for opts
proof
  fix a :: "heap \<times> jval" and bs
  assume "message_ok a" "encodeCbor (fst a) (snd a) opts = Inr bs"
  then show "\<exists>b. denotes a b \<and> decodeCbor bs opts = Inr b"
    unfolding message_ok_def denotes_def using encodeCbor_decodes by blast
qed

section \<open>The message decoder over a stream of chunks\<close>

lemma decode_frames:
  assumes "list_all2 (\<lambda>f x. decodeCbor f (payload_options (Some (md_maxFrameLength d))) = Inr x) fs xs"
    and "list_all checkOut xs"
  shows "foldE (decode_message checkOut d) ms fs = Inr (ms @ xs)"
  using assms
  by (induction arbitrary: ms rule: list_all2_induct) (simp_all add: decode_message_def)

lemma decode_message_cong:
  "md_maxFrameLength d' = md_maxFrameLength d \<Longrightarrow> md_kind d' = md_kind d \<Longrightarrow>
    decode_message checkOut d' = decode_message checkOut d"
  by (simp add: decode_message_def fun_eq_iff split: sum.split)

lemma md_push_all_messages:
  assumes "\<not> md_failed d" "push_all (md_frames d) cs = Some (f', Inr fs)"
    and "list_all2 (\<lambda>f x. decodeCbor f (payload_options (Some (md_maxFrameLength d))) = Inr x) fs xs"
    and "list_all checkOut xs"
  shows "md_push_all checkOut d cs = Some (d\<lparr>md_frames := f'\<rparr>, None, xs)"
  using assms
proof (induction cs arbitrary: d fs xs)
  case Nil
  then show ?case by simp
next
  case (Cons c cs)
  from Cons.prems(2) obtain f1 fs1 fs2 where st: "push (md_frames d) c = Some (f1, Inr fs1)"
    "push_all f1 cs = Some (f', Inr fs2)" "fs = fs1 @ fs2"
    by (auto split: option.splits prod.splits sum.splits)
  from Cons.prems(3,4) obtain xs1 xs2 where xs: "xs = xs1 @ xs2"
    "list_all2 (\<lambda>f x. decodeCbor f (payload_options (Some (md_maxFrameLength d))) = Inr x) fs1 xs1"
    "list_all2 (\<lambda>f x. decodeCbor f (payload_options (Some (md_maxFrameLength d))) = Inr x) fs2 xs2"
    "list_all checkOut xs1" "list_all checkOut xs2"
    unfolding st(3) list_all2_append1 by auto
  have "md_push checkOut d c = Some (d\<lparr>md_frames := f1\<rparr>, Inr xs1)"
    using Cons.prems(1) st(1) decode_frames[OF xs(2,4), of "[]"]
    by (simp add: md_push_def Let_def decode_message_cong[of "d\<lparr>md_frames := f1\<rparr>" d])
  moreover have "md_push_all checkOut (d\<lparr>md_frames := f1\<rparr>) cs = Some (d\<lparr>md_frames := f'\<rparr>, None, xs2)"
    using Cons.IH[of "d\<lparr>md_frames := f1\<rparr>" fs2 xs2] Cons.prems(1) st(2) xs(3,5) by simp
  ultimately show ?case using xs(1) by simp
qed

lemma payload_limits:
  assumes "new_message_decoder kind maxFrame = Inr d"
  shows "\<not> md_failed d" "new_decoder maxFrame = Inr (md_frames d)"
    "payload_options (Some (md_maxFrameLength d)) = payload_options maxFrame"
    "\<exists>lim. resolveOptions (payload_options maxFrame) = Inr lim \<and> maxByteLength lim = maxFrameLength (md_frames d)"
proof -
  from assms show d: "\<not> md_failed d" "new_decoder maxFrame = Inr (md_frames d)"
    "payload_options (Some (md_maxFrameLength d)) = payload_options maxFrame"
    by (auto simp: new_message_decoder_def bindE_eq_Inr payload_options_def or_default_def)
  from new_decoder_max[OF d(2)]
  show "\<exists>lim. resolveOptions (payload_options maxFrame) = Inr lim \<and> maxByteLength lim = maxFrameLength (md_frames d)"
    by (auto simp: resolveOptions_def payload_options_def resolveLimit_def resolveMaxFrameLength_def
        bindE_eq_Inr Let_def or_default_def MAX_UINT32_def MAX_CBOR_UINT32_def MAX_CONFIGURED_DEPTH_def
        DEFAULT_MAX_CBOR_CONTAINER_LENGTH_def DEFAULT_MAX_CBOR_DEPTH_def split: if_splits option.splits)
qed

lemma encodeProtocolMessage_parts:
  assumes "encodeProtocolMessage checkIn kind maxFrame m = Inr f"
  obtains payload where "checkIn (fst m) (snd m)" "encodeCbor (fst m) (snd m) (payload_options maxFrame) = Inr payload"
    "encodeFrame payload = Inr f"
  using assms by (auto simp: encodeProtocolMessage_def split: prod.splits if_splits sum.splits)

lemma encodeProtocolMessage_split:
  assumes "list_all2 (\<lambda>m f. encodeProtocolMessage checkIn kind maxFrame m = Inr f) ms frames"
  shows "\<exists>payloads. list_all2 (\<lambda>m bs. checkIn (fst m) (snd m) \<and>
      encodeCbor (fst m) (snd m) (payload_options maxFrame) = Inr bs) ms payloads \<and>
    list_all2 (\<lambda>p f. encodeFrame p = Inr f) payloads frames"
  using assms
proof (induction rule: list_all2_induct)
  case Nil
  then show ?case by simp
next
  case (Cons m ms f fs)
  then obtain bs payloads where "checkIn (fst m) (snd m)"
    "encodeCbor (fst m) (snd m) (payload_options maxFrame) = Inr bs" "encodeFrame bs = Inr f"
    "list_all2 (\<lambda>m bs. checkIn (fst m) (snd m) \<and>
      encodeCbor (fst m) (snd m) (payload_options maxFrame) = Inr bs) ms payloads"
    "list_all2 (\<lambda>p f. encodeFrame p = Inr f) payloads fs"
    by (auto elim: encodeProtocolMessage_parts)
  then show ?case by (intro exI[of _ "bs # payloads"]) simp
qed

lemma push_total:
  assumes "decoder_inv f"
  obtains f' r where "push f c = Some (f', r)" "\<And>fs. r = Inr fs \<Longrightarrow> decoder_inv f'"
  using push_refines[OF assms, of c] by (cases "push f c") (auto simp: push_ok_def split: prod.splits option.splits)

text \<open>What every delivered message satisfies, and what an error leaves.\<close>

definition delivered_ok :: "(cval \<Rightarrow> bool) \<Rightarrow> cbor_options \<Rightarrow> cval \<Rightarrow> bool" where
  "delivered_ok checkOut opts x \<longleftrightarrow> checkOut x \<and> (\<exists>bs. decodeCbor bs opts = Inr x)"

lemma decode_frames_ok:
  assumes "foldE (decode_message checkOut d) ms fs = Inr xs"
    and "list_all (delivered_ok checkOut (payload_options (Some (md_maxFrameLength d)))) ms"
  shows "list_all (delivered_ok checkOut (payload_options (Some (md_maxFrameLength d)))) xs"
  using assms
proof (rule foldE_invariant
    [where P = "list_all (delivered_ok checkOut (payload_options (Some (md_maxFrameLength d))))"])
  fix ms f ms'
  assume "list_all (delivered_ok checkOut (payload_options (Some (md_maxFrameLength d)))) ms"
    "decode_message checkOut d ms f = Inr ms'"
  then show "list_all (delivered_ok checkOut (payload_options (Some (md_maxFrameLength d)))) ms'"
    by (auto simp: decode_message_def delivered_ok_def split: sum.splits if_splits)
qed

lemma md_push_step:
  assumes "\<not> md_failed d" "decoder_inv (md_frames d)"
  obtains d' r where "md_push checkOut d c = Some (d', r)" "md_maxFrameLength d' = md_maxFrameLength d"
    "\<And>e. r = Inl e \<Longrightarrow> md_failed d'"
    "\<And>xs. r = Inr xs \<Longrightarrow> \<not> md_failed d' \<and> decoder_inv (md_frames d') \<and>
       list_all (delivered_ok checkOut (payload_options (Some (md_maxFrameLength d)))) xs"
proof -
  obtain f' r where p: "push (md_frames d) c = Some (f', r)" "\<And>fs. r = Inr fs \<Longrightarrow> decoder_inv f'"
    using push_total[OF assms(2), of c] by blast
  show ?thesis
  proof (cases r)
    case (Inl e)
    then show ?thesis
      using that[of "d\<lparr>md_frames := f', md_failed := True\<rparr>"] p assms by (simp add: md_push_def)
  next
    case (Inr fs)
    let ?d = "d\<lparr>md_frames := f'\<rparr>"
    show ?thesis
    proof (cases "foldE (decode_message checkOut ?d) [] fs")
      case (Inl e)
      then show ?thesis
        using that[of "?d\<lparr>md_failed := True\<rparr>"] p assms Inr by (simp add: md_push_def)
    next
      case ok: (Inr xs)
      then show ?thesis
        using that[of ?d "Inr xs"] p assms Inr decode_frames_ok[OF ok] by (simp add: md_push_def)
    qed
  qed
qed

lemma md_push_all_ok:
  assumes "\<not> md_failed d" "decoder_inv (md_frames d)"
  shows "\<exists>d' e xs. md_push_all checkOut d cs = Some (d', e, xs) \<and>
    list_all (delivered_ok checkOut (payload_options (Some (md_maxFrameLength d)))) xs \<and>
    (e \<noteq> None \<longrightarrow> md_failed d')"
  using assms
proof (induction cs arbitrary: d)
  case Nil
  then show ?case by simp
next
  case (Cons c cs)
  obtain d1 r where st: "md_push checkOut d c = Some (d1, r)" "md_maxFrameLength d1 = md_maxFrameLength d"
    "\<And>e. r = Inl e \<Longrightarrow> md_failed d1"
    "\<And>xs. r = Inr xs \<Longrightarrow> \<not> md_failed d1 \<and> decoder_inv (md_frames d1) \<and>
       list_all (delivered_ok checkOut (payload_options (Some (md_maxFrameLength d)))) xs"
    using md_push_step[OF Cons.prems, of checkOut c] by blast
  show ?case
  proof (cases r)
    case (Inl e)
    with st show ?thesis by simp
  next
    case (Inr xs)
    with Cons.IH[of d1] st show ?thesis by auto
  qed
qed

section \<open>Properties\<close>

text \<open>
  C4. End to end: messages encoded for the wire, concatenated and cut into chunks of any sizes, come
  out of a decoder made with the same options as the trees they denote, in order and without an
  error, and the stream may end there. The schema check is any one that accepts the tree of a value
  it accepted (typebox checks the structure of JSON data, which the round trip preserves).
\<close>

theorem protocol_stream_roundtrip:
  assumes "new_message_decoder kind maxFrame = Inr d"
    and "list_all2 (\<lambda>m f. encodeProtocolMessage checkIn kind maxFrame m = Inr f) ms frames"
    and "\<forall>m \<in> set ms. message_ok m"
    and schema: "\<And>m t. checkIn (fst m) (snd m) \<Longrightarrow> denotes m t \<Longrightarrow> checkOut t"
    and "concat chunks = concat frames"
  shows "\<exists>d' ts. md_push_all checkOut d chunks = Some (d', None, ts) \<and> list_all2 denotes ms ts \<and>
    snd (md_end d') = Inr ()"
proof -
  let ?opts = "payload_options maxFrame"
  note d = payload_limits(1,2,3)[OF assms(1)]
  from payload_limits(4)[OF assms(1)] obtain lim where lim: "resolveOptions ?opts = Inr lim"
    "maxByteLength lim = maxFrameLength (md_frames d)" by blast
  let ?enc = "\<lambda>m bs. checkIn (fst m) (snd m) \<and> encodeCbor (fst m) (snd m) ?opts = Inr bs"
  from assms(2) obtain payloads where p: "list_all2 ?enc ms payloads"
      "list_all2 (\<lambda>p f. encodeFrame p = Inr f) payloads frames"
    using encodeProtocolMessage_split by blast
  from p(1) have enc: "list_all2 (\<lambda>m bs. encodeCbor (fst m) (snd m) ?opts = Inr bs) ms payloads"
    by (rule list_all2_mono) simp
  from cbor.dec_all[OF this assms(3)] obtain ts where
    ts: "list_all2 denotes ms ts" "list_all2 (\<lambda>bs x. decodeCbor bs ?opts = Inr x) payloads ts" by blast
  have "length bs \<le> maxFrameLength (md_frames d)" if "bs \<in> set payloads" for bs
    using enc that assms(3) encodeCbor_iff[OF _ _ lim(1)] lim(2)
    by (fastforce simp: list_all2_conv_all_nth in_set_conv_nth message_ok_def)
  from frames_through[OF d(2) p(2) _ assms(5)] this obtain f' where
    f': "push_all (md_frames d) chunks = Some (f', Inr payloads)" "snd (end_stream f') = Inr ()" by blast
  have "list_all checkOut ts"
    using p(1) ts(1) schema by (fastforce simp: list_all2_conv_all_nth list_all_length)
  from md_push_all_messages[OF d(1) f'(1) _ this] ts(2) d(3)
  have "md_push_all checkOut d chunks = Some (d\<lparr>md_frames := f'\<rparr>, None, ts)" by simp
  moreover have "snd (md_end (d\<lparr>md_frames := f'\<rparr>)) = Inr ()"
    using f'(2) d(1) by (cases "end_stream f'") (simp add: md_end_def)
  ultimately show ?thesis using ts(1) by blast
qed

definition ping :: "heap \<times> jval" where
  "ping = (\<lambda>_. OPlain False [(js ''t'', VStr (js ''ping''))], VRef 0)"

definition ping_bytes :: "byte list" where
  "ping_bytes = [0, 0, 0, 8, 0xa1, 0x61, 0x74, 0x64, 0x70, 0x69, 0x6e, 0x67]"

definition ping_tree :: cval where
  "ping_tree = CObj [(js ''t'', CStr (js ''ping''))]"

definition fresh_decoder :: message_decoder where
  "fresh_decoder = \<lparr>md_failed = False,
     md_frames = \<lparr>header = [0, 0, 0, 0], headerLength = 0, maxFrameLength = 64, payloadBlocks = [],
       hasCurrentBlock = False, currentBlockLength = 0, expectedLength = None, payloadLength = 0, fstate = Open\<rparr>,
     md_kind = ''client'', md_maxFrameLength = 64\<rparr>"

lemma fresh_decoder: "new_message_decoder ''client'' (Some 64) = Inr fresh_decoder"
  by code_simp

lemma ping_encodes: "encodeProtocolMessage (\<lambda>_ _. True) ''client'' (Some 64) ping = Inr ping_bytes"
  by code_simp

lemma ping_ok: "message_ok ping"
  by (simp add: message_ok_def heap_ok_def val_ok_def ping_def)

theorem protocol_stream_roundtrip_witness:
  "\<exists>d' ts. md_push_all (\<lambda>_. True) fresh_decoder [take 3 ping_bytes, drop 3 ping_bytes @ take 9 ping_bytes, drop 9 ping_bytes] =
       Some (d', None, ts) \<and> list_all2 denotes [ping, ping] ts \<and> snd (md_end d') = Inr ()"
  by (rule protocol_stream_roundtrip[OF fresh_decoder, where checkIn = "\<lambda>_ _. True" and frames = "[ping_bytes, ping_bytes]"])
    (use ping_encodes ping_ok in simp_all)

text \<open>
  On any bytes whatever, a decoder returns from every push: what it delivers is exactly some
  payload's decoding that the schema accepted, hence within the nesting, size and number bounds of
  the CBOR reader; and once a push has thrown, every later push throws and delivers nothing.
\<close>

theorem message_decoder_safe:
  assumes "new_message_decoder kind maxFrame = Inr d"
  shows "\<exists>d' e ts lim. md_push_all checkOut d chunks = Some (d', e, ts) \<and>
    resolveOptions (payload_options maxFrame) = Inr lim \<and>
    list_all (\<lambda>t. checkOut t \<and> tree_by (\<lambda>_. True) lim (Suc (maxDepth lim)) t) ts \<and>
    (e \<noteq> None \<longrightarrow> (\<forall>chunk. md_push checkOut d' chunk = Some (d', Inl (DecoderHasFailedBefore (md_kind d')))))"
proof -
  note d = payload_limits(1,2,3)[OF assms(1)]
  from payload_limits(4)[OF assms(1)] obtain lim where lim: "resolveOptions (payload_options maxFrame) = Inr lim"
    by blast
  have "delivered_ok checkOut (payload_options maxFrame) t \<Longrightarrow> tree_by (\<lambda>_. True) lim (Suc (maxDepth lim)) t" for t
    using decodeCbor_tree lim by (fastforce simp: delivered_ok_def simp del: tree_by.simps)
  with md_push_all_ok[OF d(1), of checkOut chunks] new_decoder_inv[OF d(2)] lim d(3) show ?thesis
    by (auto simp: md_push_def delivered_ok_def list_all_iff simp del: tree_by.simps)
qed

theorem message_decoder_safe_witness:
  "\<exists>d' ts. md_push_all (\<lambda>_. True) fresh_decoder [ping_bytes, [0, 0, 0, 1, 0xff]] =
      Some (d', Some (InvalidProtocolFrame ''client'' (Inl BreakMarker)), ts) \<and>
    length ts = 1 \<and>
    (\<forall>chunk. md_push (\<lambda>_. True) d' chunk = Some (d', Inl (DecoderHasFailedBefore (md_kind d'))))"
proof -
  have run: "\<exists>d' ts. md_push_all (\<lambda>_. True) fresh_decoder [ping_bytes, [0, 0, 0, 1, 0xff]] =
      Some (d', Some (InvalidProtocolFrame ''client'' (Inl BreakMarker)), ts) \<and> length ts = 1"
    by (intro exI[where x = "case md_push_all (\<lambda>_. True) fresh_decoder [ping_bytes, [0, 0, 0, 1, 0xff]] of Some (d, e, ts) \<Rightarrow> d"]
        exI[where x = "case md_push_all (\<lambda>_. True) fresh_decoder [ping_bytes, [0, 0, 0, 1, 0xff]] of Some (d, e, ts) \<Rightarrow> ts"])
      code_simp
  then show ?thesis
    using message_decoder_safe[OF fresh_decoder, of "\<lambda>_. True" "[ping_bytes, [0, 0, 0, 1, 0xff]]"] by auto
qed

end
