(* ===== verification/Json.thy ===== *)
theory Json
  imports JsValue "HOL-Library.AList"
begin

text \<open>
  JSON values as the code of \<open>packages/chord\<close> and \<open>packages/agent\<close> handles them: an object is its
  own properties in insertion order, so reading is \<open>map_of\<close>, defining a property is \<open>AList.update\<close>
  (in place when the key exists, at the end otherwise) and \<open>delete\<close> is \<open>AList.delete\<close>.
  \<open>jsonEqual\<close> is the function of that name in \<open>packages/chord/src/delta/index.ts\<close>.
\<close>

datatype json =
    JNull | JBool bool | JNum number | JStr jstr | JArr "json list" | JObj "(jstr \<times> json) list"

lemma json_size [simp]:
  "x \<in> set xs \<Longrightarrow> size x < Suc (size_list size xs)"
  "kv \<in> set ps \<Longrightarrow> size (snd kv) < Suc (size_list (size_prod (\<lambda>_. 0) size) ps)"
proof -
  show "x \<in> set xs \<Longrightarrow> size x < Suc (size_list size xs)"
    by (induction xs) auto
  show "kv \<in> set ps \<Longrightarrow> size (snd kv) < Suc (size_list (size_prod (\<lambda>_. 0) size) ps)"
    by (induction ps) auto
qed

text \<open>What JavaScript and JSON guarantee: distinct keys, finite numbers.\<close>

function json_wf :: "json \<Rightarrow> bool" where
  "json_wf JNull = True"
| "json_wf (JBool b) = True"
| "json_wf (JNum x) = isFinite x"
| "json_wf (JStr s) = True"
| "json_wf (JArr xs) = list_all json_wf xs"
| "json_wf (JObj ps) = (distinct (map fst ps) \<and> list_all (\<lambda>kv. json_wf (snd kv)) ps)"
  by pat_completeness auto
termination by (relation "measure size") (auto intro: json_size)

text \<open>
  The comparison that \<open>===\<close> makes first decides nothing more: identical containers of finite
  numbers are equal by the recursion too.
\<close>

function jsonEqual :: "json \<Rightarrow> json \<Rightarrow> bool" where
  "jsonEqual JNull r = (r = JNull)"
| "jsonEqual (JBool b) r = (r = JBool b)"
| "jsonEqual (JNum x) r = (case r of JNum y \<Rightarrow> num_eq x y | _ \<Rightarrow> False)"
| "jsonEqual (JStr s) r = (r = JStr s)"
| "jsonEqual (JArr xs) r =
     (case r of JArr ys \<Rightarrow> length xs = length ys \<and> list_all (\<lambda>i. jsonEqual (xs ! i) (ys ! i)) [0..<length xs]
      | _ \<Rightarrow> False)"
| "jsonEqual (JObj ps) r =
     (case r of
        JObj qs \<Rightarrow> length ps = length qs \<and>
          list_all (\<lambda>kv. case map_of qs (fst kv) of None \<Rightarrow> False | Some w \<Rightarrow> jsonEqual (snd kv) w) ps
      | _ \<Rightarrow> False)"
  by pat_completeness auto
termination by (relation "measure (size \<circ> fst)") (auto intro: json_size)

lemma jsonEqual_arr:
  "jsonEqual (JArr xs) (JArr ys) \<longleftrightarrow> list_all2 jsonEqual xs ys"
  by (auto simp: list_all2_conv_all_nth list_all_iff)

lemma jsonEqual_obj:
  "jsonEqual (JObj ps) (JObj qs) \<longleftrightarrow> length ps = length qs \<and>
    (\<forall>kv \<in> set ps. \<exists>w. map_of qs (fst kv) = Some w \<and> jsonEqual (snd kv) w)"
  by (auto simp: list_all_iff split: option.splits)

declare jsonEqual.simps(5,6) [simp del]

lemma jsonEqual_refl: "json_wf v \<Longrightarrow> jsonEqual v v"
proof (induction v rule: json_wf.induct)
  case (3 x)
  then show ?case by (cases x) (auto simp: num_eq_def)
next
  case (5 xs)
  then show ?case by (auto simp: jsonEqual_arr list_all_iff intro: list.rel_refl_strong)
next
  case (6 ps)
  then show ?case by (fastforce simp: jsonEqual_obj list_all_iff)
qed simp_all

end
