(* ===== verification/Delta.thy ===== *)
theory Delta
  imports Json
begin

text \<open>
  \<open>packages/chord/src/delta/index.ts\<close>, the operation log over plain JSON: the operations and their
  validators, the applier, and the structural difference of two values. A value is a tree: the
  in-place writes of the applier are the tree with the subtree at the path replaced, which is what a
  consumer that owns its value observes. \<open>undefined\<close> as the initial target is \<open>JNull\<close>, which every
  operation but a replacement rejects in the same way.
\<close>

section \<open>Operations and paths\<close>

datatype seg = SKey jstr | SIdx number

type_synonym path = "seg list"

datatype op =
    OpR json
  | OpS path json
  | OpD path
  | OpA path jstr
  | OpT path number
  | OpP path number number "json list"

datatype delta_error =
    OpShape                       \<comment> \<open>the TypeErrors of the validators\<close>
  | UnsafePathError seg
  | PathError path
  | PathIdError nat
  | RootDelete

text \<open>The tuples that the code passes around, as the JSON arrays they are.\<close>

fun seg_json :: "seg \<Rightarrow> json" where
  "seg_json (SKey s) = JStr s"
| "seg_json (SIdx n) = JNum n"

definition path_json :: "path \<Rightarrow> json" where
  "path_json p = JArr (map seg_json p)"

fun op_json :: "op \<Rightarrow> json" where
  "op_json (OpR v) = JArr [JStr (js ''r''), v]"
| "op_json (OpS p v) = JArr [JStr (js ''s''), path_json p, v]"
| "op_json (OpD p) = JArr [JStr (js ''d''), path_json p]"
| "op_json (OpA p s) = JArr [JStr (js ''a''), path_json p, JStr s]"
| "op_json (OpT p n) = JArr [JStr (js ''t''), path_json p, JNum n]"
| "op_json (OpP p i r xs) = JArr [JStr (js ''p''), path_json p, JNum i, JNum r, JArr xs]"

fun isReplace :: "op \<Rightarrow> bool" where
  "isReplace (OpR v) = True"
| "isReplace _ = False"

definition isBase :: "op list \<Rightarrow> bool" where
  "isBase ops = (case ops of [] \<Rightarrow> False | op # _ \<Rightarrow> isReplace op)"

section \<open>Path safety\<close>

definition RESERVED_SEGMENTS :: "jstr list" where
  "RESERVED_SEGMENTS = [js ''__proto__'', js ''constructor'', js ''prototype'']"

fun int_of :: "number \<Rightarrow> int" where
  "int_of (NInt n) = n"
| "int_of (NDbl w) = 0"

text \<open>\<open>Number.isInteger(n) && n >= 0\<close>; minus zero passes, and is the index 0.\<close>

definition is_index :: "number \<Rightarrow> bool" where
  "is_index n = (isInteger n \<and> int_of n \<ge> 0)"

definition idx :: "number \<Rightarrow> nat" where
  "idx n = nat (int_of n)"

definition segment_of :: "json \<Rightarrow> seg" where
  "segment_of v = (case v of JStr s \<Rightarrow> SKey s | JNum n \<Rightarrow> SIdx n | _ \<Rightarrow> SKey [])"

definition check_segment :: "json \<Rightarrow> delta_error + unit" where
  "check_segment v =
     (case v of
        JStr s \<Rightarrow> if s \<in> set RESERVED_SEGMENTS then Inl (UnsafePathError (SKey s)) else Inr ()
      | JNum n \<Rightarrow> if \<not> is_index n then Inl (UnsafePathError (SIdx n)) else Inr ()
      | _ \<Rightarrow> Inl (UnsafePathError (segment_of v)))"

definition assertSafePath :: "json list \<Rightarrow> delta_error + unit" where
  "assertSafePath p = foldE (\<lambda>_. check_segment) () p"

definition assertPathArg :: "json \<Rightarrow> bool \<Rightarrow> delta_error + unit" where
  "assertPathArg p nonEmpty =
     (case p of
        JArr segs \<Rightarrow> if nonEmpty \<and> segs = [] then Inl OpShape else assertSafePath segs
      | _ \<Rightarrow> Inl OpShape)"

text \<open>The validator of decoded operations, over any JSON value.\<close>

definition assertValidOp :: "json \<Rightarrow> delta_error + unit" where
  "assertValidOp op =
     (case op of
        JArr (JStr verb # args) \<Rightarrow>
          (if verb = js ''r'' then (if length args = 1 then Inr () else Inl OpShape)
           else if verb = js ''s'' then (if length args = 2 then assertPathArg (args ! 0) True else Inl OpShape)
           else if verb = js ''d'' then (if length args = 1 then assertPathArg (args ! 0) True else Inl OpShape)
           else if verb = js ''a'' then
             (case args of [p, JStr s] \<Rightarrow> assertPathArg p True | _ \<Rightarrow> Inl OpShape)
           else if verb = js ''t'' then
             (case args of [p, JNum n] \<Rightarrow> if is_index n then assertPathArg p True else Inl OpShape | _ \<Rightarrow> Inl OpShape)
           else if verb = js ''p'' then
             (case args of
                [p, i, r, items] \<Rightarrow>
                  bindE (assertPathArg p False) (\<lambda>_.
                    case (i, r, items) of
                      (JNum i, JNum r, JArr items) \<Rightarrow> if is_index i \<and> is_index r then Inr () else Inl OpShape
                    | _ \<Rightarrow> Inl OpShape)
              | _ \<Rightarrow> Inl OpShape)
           else Inl OpShape)
      | _ \<Rightarrow> Inl OpShape)"

section \<open>Reading and writing at a path\<close>

text \<open>
  The property key of a segment: decimal digits for an index. (From \<open>10 ^ 21\<close> on, JavaScript prints
  an exponent; such an index is out of range of every array, and the model is faithful below it.)
\<close>

fun decimal :: "nat \<Rightarrow> string" where
  "decimal n = (if n < 10 then [char_of (48 + n)] else decimal (n div 10) @ [char_of (48 + n mod 10)])"

fun seg_key :: "seg \<Rightarrow> jstr" where
  "seg_key (SKey s) = s"
| "seg_key (SIdx n) = js (decimal (idx n))"

definition own_element :: "json list \<Rightarrow> number \<Rightarrow> json option" where
  "own_element xs n = (if is_index n then nth_opt xs (idx n) else None)"

text \<open>One step of the walk of \<open>resolveValue\<close>; an error names the whole path.\<close>

definition step_into :: "path \<Rightarrow> json \<Rightarrow> seg \<Rightarrow> delta_error + json" where
  "step_into whole node seg =
     (case node of
        JArr xs \<Rightarrow>
          (case seg of
             SKey s \<Rightarrow> Inl (UnsafePathError seg)
           | SIdx n \<Rightarrow> (case own_element xs n of None \<Rightarrow> Inl (PathError whole) | Some v \<Rightarrow> Inr v))
      | JObj ps \<Rightarrow> (case map_of ps (seg_key seg) of None \<Rightarrow> Inl (PathError whole) | Some v \<Rightarrow> Inr v)
      | _ \<Rightarrow> Inl (PathError whole))"

definition resolveValue :: "json \<Rightarrow> path \<Rightarrow> delta_error + json" where
  "resolveValue root path = foldE (step_into path) root path"

fun isObj :: "json \<Rightarrow> bool" where
  "isObj (JArr _) = True"
| "isObj (JObj _) = True"
| "isObj _ = False"

definition resolve :: "json \<Rightarrow> path \<Rightarrow> delta_error + json" where
  "resolve root path =
     bindE (resolveValue root path) (\<lambda>node. if isObj node then Inr node else Inl (PathError path))"

text \<open>\<open>Object.defineProperty\<close> on a container: an array index that exists, or appends; an object key.\<close>

definition define_property :: "json \<Rightarrow> seg \<Rightarrow> json \<Rightarrow> json" where
  "define_property node seg v =
     (case node of
        JArr xs \<Rightarrow> (case seg of SIdx n \<Rightarrow> JArr (store_at xs (idx n) v) | SKey s \<Rightarrow> node)
      | JObj ps \<Rightarrow> JObj (AList.update (seg_key seg) v ps)
      | _ \<Rightarrow> node)"

definition own :: "json \<Rightarrow> seg \<Rightarrow> json option" where
  "own node seg = (case step_into [] node seg of Inl _ \<Rightarrow> None | Inr v \<Rightarrow> Some v)"

text \<open>The whole tree after the node at a path has been changed in place.\<close>

fun put :: "json \<Rightarrow> path \<Rightarrow> json \<Rightarrow> json" where
  "put root [] v = v"
| "put root (s # ss) v =
     define_property root s (put (case own root s of None \<Rightarrow> JNull | Some c \<Rightarrow> c) ss v)"

section \<open>The applier\<close>

definition splice_remove :: "json list \<Rightarrow> nat \<Rightarrow> nat \<Rightarrow> json list" where
  "splice_remove xs i n = take (min i (length xs)) xs @ drop (min i (length xs) + n) xs"

definition splice_insert :: "json list \<Rightarrow> nat \<Rightarrow> json list \<Rightarrow> json list" where
  "splice_insert xs i items = take (min i (length xs)) xs @ items @ drop (min i (length xs)) xs"

text \<open>Insertion in chunks of 10,000 (a call takes only so many arguments).\<close>

definition CHUNK_SIZE :: nat where "CHUNK_SIZE = 10000"

function splice_chunks :: "json list \<Rightarrow> nat \<Rightarrow> json list \<Rightarrow> nat \<Rightarrow> json list" where
  "splice_chunks target index items offset =
     (if offset < length items
      then splice_chunks (splice_insert target (index + offset) (slice items offset (offset + CHUNK_SIZE)))
             index items (offset + CHUNK_SIZE)
      else target)"
  by pat_completeness auto
termination
  by (relation "measure (\<lambda>(t, i, items, off). length items - off)") (auto simp: CHUNK_SIZE_def)

declare splice_chunks.simps [simp del]

definition spliceItems :: "json list \<Rightarrow> nat \<Rightarrow> nat \<Rightarrow> json list \<Rightarrow> json list" where
  "spliceItems target index remove items = splice_chunks (splice_remove target index remove) index items 0"

definition assertIndexInRange :: "json list \<Rightarrow> number \<Rightarrow> delta_error + unit" where
  "assertIndexInRange parent n = (if idx n > length parent then Inl (UnsafePathError (SIdx n)) else Inr ())"

text \<open>The guard on an array parent, then the verb on the parent and the key.\<close>

definition check_key :: "json \<Rightarrow> seg \<Rightarrow> delta_error + unit" where
  "check_key parent key =
     (case parent of
        JArr xs \<Rightarrow> (case key of SKey s \<Rightarrow> Inl (UnsafePathError key) | SIdx n \<Rightarrow> assertIndexInRange xs n)
      | _ \<Rightarrow> Inr ())"

definition read_string :: "path \<Rightarrow> json \<Rightarrow> seg \<Rightarrow> delta_error + jstr" where
  "read_string path parent key =
     (case own parent key of Some (JStr s) \<Rightarrow> Inr s | _ \<Rightarrow> Inl (PathError path))"

definition delete_key :: "path \<Rightarrow> json \<Rightarrow> seg \<Rightarrow> delta_error + json" where
  "delete_key path parent key =
     (case parent of
        JArr xs \<Rightarrow>
          (case key of
             SKey s \<Rightarrow> Inl (PathError path)
           | SIdx n \<Rightarrow> if idx n \<ge> length xs then Inl (PathError path) else Inr (JArr (splice_remove xs (idx n) 1)))
      | JObj ps \<Rightarrow> Inr (JObj (AList.delete (seg_key key) ps))
      | _ \<Rightarrow> Inr parent)"

definition apply_verb :: "op \<Rightarrow> path \<Rightarrow> json \<Rightarrow> seg \<Rightarrow> delta_error + json" where
  "apply_verb op path parent key =
     (case op of
        OpS _ v \<Rightarrow> Inr (define_property parent key v)
      | OpD _ \<Rightarrow> delete_key path parent key
      | OpA _ suffix \<Rightarrow> bindE (read_string path parent key) (\<lambda>s. Inr (define_property parent key (JStr (s @ suffix))))
      | OpT _ n \<Rightarrow> bindE (read_string path parent key) (\<lambda>s. Inr (define_property parent key (JStr (drop (idx n) s))))
      | _ \<Rightarrow> Inr parent)"

fun op_path :: "op \<Rightarrow> path" where
  "op_path (OpR v) = []"
| "op_path (OpS p v) = p"
| "op_path (OpD p) = p"
| "op_path (OpA p s) = p"
| "op_path (OpT p n) = p"
| "op_path (OpP p i r xs) = p"

definition apply_op :: "json \<Rightarrow> op \<Rightarrow> delta_error + json" where
  "apply_op root op =
     bindE (assertValidOp (op_json op)) (\<lambda>_.
       case op of
         OpR v \<Rightarrow> Inr v
       | OpP path i r items \<Rightarrow>
           bindE (assertSafePath (map seg_json path)) (\<lambda>_.
           bindE (if path = [] then Inr root else resolve root path) (\<lambda>target.
             case target of
               JArr xs \<Rightarrow> Inr (put root path (JArr (spliceItems xs (idx i) (idx r) items)))
             | _ \<Rightarrow> Inl (PathError path)))
       | _ \<Rightarrow>
           (let path = op_path op in
            bindE (assertSafePath (map seg_json path)) (\<lambda>_.
            bindE (resolve root (butlast path)) (\<lambda>parent.
            bindE (check_key parent (last path)) (\<lambda>_.
            bindE (apply_verb op path parent (last path)) (\<lambda>parent'.
              Inr (put root (butlast path) parent')))))))"

definition applyOps :: "json \<Rightarrow> op list \<Rightarrow> delta_error + json" where
  "applyOps target ops = foldE apply_op target ops"

text \<open>
  \<open>applyImmutable\<close> first copies the containers on the way. In a tree the copy is the same tree, so
  what it contributes is its own checks.
\<close>

definition copy_step :: "path \<Rightarrow> json \<Rightarrow> seg \<Rightarrow> delta_error + json" where
  "copy_step path source seg =
     (case source of
        JArr xs \<Rightarrow>
          (case seg of
             SKey s \<Rightarrow> (if s = js ''length'' then Inl (UnsafePathError seg) else
               if \<exists>i \<in> set [0..<length xs]. s = js (decimal i) then Inl (UnsafePathError seg) else Inl (PathError path))
           | SIdx n \<Rightarrow> (case own_element xs n of None \<Rightarrow> Inl (PathError path)
               | Some c \<Rightarrow> if isObj c then Inr c else Inl (PathError path)))
      | JObj ps \<Rightarrow>
          (case map_of ps (seg_key seg) of None \<Rightarrow> Inl (PathError path)
           | Some c \<Rightarrow> if isObj c then Inr c else Inl (PathError path))
      | _ \<Rightarrow> Inl (PathError path))"

definition copyContainers :: "json \<Rightarrow> path \<Rightarrow> delta_error + json" where
  "copyContainers root path =
     (if \<not> isObj root then Inl (PathError path)
      else bindE (foldE (copy_step path) root path) (\<lambda>_. Inr root))"

fun apply_immutable_op :: "json \<Rightarrow> op \<Rightarrow> delta_error + json" where
  "apply_immutable_op root (OpR v) = bindE (assertValidOp (op_json (OpR v))) (\<lambda>_. Inr v)"
| "apply_immutable_op root op =
     bindE (copyContainers root (case op of OpP p _ _ _ \<Rightarrow> p | _ \<Rightarrow> butlast (op_path op))) (\<lambda>root.
       applyOps root [op])"

definition applyImmutable :: "json \<Rightarrow> op list \<Rightarrow> delta_error + json" where
  "applyImmutable target ops = foldE apply_immutable_op target ops"

section \<open>Reading and writing at a path, as laws\<close>

fun at :: "json \<Rightarrow> path \<Rightarrow> json option" where
  "at root [] = Some root"
| "at root (s # ss) = (case own root s of None \<Rightarrow> None | Some c \<Rightarrow> at c ss)"

lemma step_into_Inr: "step_into whole node s = Inr v \<longleftrightarrow> own node s = Some v"
  by (auto simp: own_def step_into_def split: json.splits seg.splits option.splits)

lemma resolveValue_at: "resolveValue root path = Inr v \<longleftrightarrow> at root path = Some v"
proof -
  have "foldE (step_into whole) root path = Inr v \<longleftrightarrow> at root path = Some v" for whole
    by (induction path arbitrary: root) (auto simp: bindE_eq_Inr step_into_Inr split: option.splits)
  then show ?thesis by (simp add: resolveValue_def)
qed

lemma resolve_at: "resolve root path = Inr v \<longleftrightarrow> at root path = Some v \<and> isObj v"
  by (auto simp: resolve_def bindE_eq_Inr resolveValue_at split: if_splits)

lemma at_append: "at root (p @ q) = (case at root p of None \<Rightarrow> None | Some x \<Rightarrow> at x q)"
  by (induction p arbitrary: root) (auto split: option.splits)

lemma own_isObj: "own node s = Some v \<Longrightarrow> isObj node"
  by (cases node) (auto simp: own_def step_into_def)

lemma AList_update_update [simp]: "AList.update k v (AList.update k w ps) = AList.update k v ps"
  by (induction ps) auto

lemma AList_update_same: "map_of ps k = Some v \<Longrightarrow> AList.update k v ps = ps"
  by (induction ps) (auto split: if_splits)

lemma map_of_update [simp]: "map_of (AList.update k v ps) = (map_of ps)(k \<mapsto> v)"
  by (simp add: update_conv')

lemma own_define:
  assumes "own node s = Some u"
  shows "own (define_property node s v) s = Some v"
    "define_property (define_property node s v) s w = define_property node s w"
    "define_property node s u = node"
  using assms
  by (auto simp: own_def step_into_def define_property_def own_element_def store_at_def nth_opt_eq_Some
      AList_update_same split: json.splits seg.splits option.splits if_splits)

text \<open>The laws of a place in a tree: put and get, put twice, put what is there.\<close>

lemma at_put: "at root p = Some x \<Longrightarrow> at (put root p v) p = Some v"
  by (induction p arbitrary: root) (auto simp: own_define split: option.splits)

lemma put_put: "at root p = Some x \<Longrightarrow> put (put root p v) p w = put root p w"
  by (induction p arbitrary: root) (auto simp: own_define split: option.splits)

lemma put_same: "at root p = Some x \<Longrightarrow> put root p x = root"
  by (induction p arbitrary: root) (auto simp: own_define split: option.splits)

lemma put_append: "at root p = Some x \<Longrightarrow> put root (p @ q) v = put root p (put x q v)"
  by (induction p arbitrary: root) (auto split: option.splits)

lemma at_put_append: "at root p = Some x \<Longrightarrow> at (put root p v) (p @ q) = at v q"
  by (simp add: at_append at_put)

section \<open>Valid operations\<close>

definition safe_seg :: "seg \<Rightarrow> bool" where
  "safe_seg s = (case s of SKey k \<Rightarrow> k \<notin> set RESERVED_SEGMENTS | SIdx n \<Rightarrow> is_index n)"

definition safe_path :: "path \<Rightarrow> bool" where
  "safe_path p = list_all safe_seg p"

lemma safe_path_simps [simp]:
  "safe_path []" "safe_path (s # p) \<longleftrightarrow> safe_seg s \<and> safe_path p" "safe_path (p @ q) \<longleftrightarrow> safe_path p \<and> safe_path q"
  by (auto simp: safe_path_def)

fun valid_op :: "op \<Rightarrow> bool" where
  "valid_op (OpR v) = True"
| "valid_op (OpS p v) = (p \<noteq> [] \<and> safe_path p)"
| "valid_op (OpD p) = (p \<noteq> [] \<and> safe_path p)"
| "valid_op (OpA p s) = (p \<noteq> [] \<and> safe_path p)"
| "valid_op (OpT p n) = (p \<noteq> [] \<and> safe_path p \<and> is_index n)"
| "valid_op (OpP p i r xs) = (safe_path p \<and> is_index i \<and> is_index r)"

lemma assertSafePath_iff: "assertSafePath (map seg_json p) = Inr () \<longleftrightarrow> safe_path p"
  unfolding assertSafePath_def
  by (induction p) (auto simp: bindE_eq_Inr check_segment_def safe_seg_def split: seg.splits)

lemma assertPathArg_iff: "assertPathArg (path_json p) ne = Inr () \<longleftrightarrow> (ne \<longrightarrow> p \<noteq> []) \<and> safe_path p"
  by (auto simp: assertPathArg_def path_json_def assertSafePath_iff)

lemma js_verbs:
  "js ''r'' = [0x72]" "js ''s'' = [0x73]" "js ''d'' = [0x64]" "js ''a'' = [0x61]" "js ''t'' = [0x74]" "js ''p'' = [0x70]" "js ''#'' = [0x23]"
  by (simp_all add: js_def)

lemma assertValidOp_iff: "assertValidOp (op_json op) = Inr () \<longleftrightarrow> valid_op op"
  by (cases op) (auto simp: assertValidOp_def js_verbs assertPathArg_iff bindE_eq_Inr)

section \<open>What one operation does\<close>

lemma apply_leaf:
  assumes "valid_op op" "\<And>v. op \<noteq> OpR v" "\<And>p i r xs. op \<noteq> OpP p i r xs"
    and "op_path op = q @ [s]" "at root q = Some parent" "isObj parent"
    and "check_key parent s = Inr ()" "apply_verb op (q @ [s]) parent s = Inr parent'"
  shows "apply_op root op = Inr (put root q parent')"
proof -
  have safe: "assertSafePath (map seg_json (op_path op)) = Inr ()"
    using assms(1,2,3) by (cases op) (auto simp: assertSafePath_iff)
  have r: "resolve root q = Inr parent" using assms(5,6) by (simp add: resolve_at)
  have v: "assertValidOp (op_json op) = Inr ()" using assms(1) by (simp add: assertValidOp_iff)
  show ?thesis
    using assms(2,3,4,7,8) safe r v
    by (cases op) (auto simp: apply_op_def Let_def)
qed

lemma own_check_key: "own parent s = Some u \<Longrightarrow> check_key parent s = Inr ()"
  by (auto simp: own_def step_into_def check_key_def own_element_def nth_opt_eq_Some assertIndexInRange_def
      split: json.splits seg.splits option.splits if_splits)

lemma apply_set:
  assumes "at root q = Some parent" "own parent s = Some u" "safe_path (q @ [s])"
  shows "apply_op root (OpS (q @ [s]) v) = Inr (put root (q @ [s]) v)"
  using apply_leaf[of "OpS (q @ [s]) v" q s root parent "define_property parent s v"] assms
    own_isObj[OF assms(2)] own_check_key[OF assms(2)] put_append[OF assms(1), of "[s]"]
  by (simp add: apply_verb_def)

lemma apply_set_key:
  assumes "at root q = Some (JObj ps)" "safe_path (q @ [SKey k])"
  shows "apply_op root (OpS (q @ [SKey k]) v) = Inr (put root q (JObj (AList.update k v ps)))"
  using apply_leaf[of "OpS (q @ [SKey k]) v" q "SKey k" root "JObj ps" "JObj (AList.update k v ps)"] assms
  by (simp add: check_key_def apply_verb_def define_property_def)

lemma apply_delete_key:
  assumes "at root q = Some (JObj ps)" "safe_path (q @ [SKey k])"
  shows "apply_op root (OpD (q @ [SKey k])) = Inr (put root q (JObj (AList.delete k ps)))"
  using apply_leaf[of "OpD (q @ [SKey k])" q "SKey k" root "JObj ps" "JObj (AList.delete k ps)"] assms
  by (simp add: check_key_def apply_verb_def delete_key_def)

lemma apply_string:
  assumes "at root q = Some parent" "own parent s = Some (JStr t)" "safe_path (q @ [s])"
  shows "apply_op root (OpA (q @ [s]) u) = Inr (put root (q @ [s]) (JStr (t @ u)))"
    "apply_op root (OpT (q @ [s]) (NInt (int n))) = Inr (put root (q @ [s]) (JStr (drop n t)))"
  using apply_leaf[of "OpA (q @ [s]) u" q s root parent "define_property parent s (JStr (t @ u))"]
    apply_leaf[of "OpT (q @ [s]) (NInt (int n))" q s root parent "define_property parent s (JStr (drop n t))"] assms
    own_isObj[OF assms(2)] own_check_key[OF assms(2)] put_append[OF assms(1), of "[s]"]
  by (simp_all add: apply_verb_def read_string_def is_index_def idx_def)

lemma apply_splice:
  assumes "at root p = Some (JArr xs)" "safe_path p"
  shows "apply_op root (OpP p (NInt (int i)) (NInt (int r)) items) = Inr (put root p (JArr (spliceItems xs i r items)))"
proof -
  have "assertValidOp (op_json (OpP p (NInt (int i)) (NInt (int r)) items)) = Inr ()"
    using assms(2) by (simp add: assertValidOp_iff is_index_def del: op_json.simps)
  moreover have "(if p = [] then Inr root else resolve root p) = Inr (JArr xs)"
    using assms(1) by (cases p) (simp_all add: resolve_at)
  ultimately show ?thesis
    using assms assertSafePath_iff[of p] by (simp add: apply_op_def idx_def del: op_json.simps)
qed

text \<open>The chunked insertion is one insertion.\<close>

lemma splice_insert_twice:
  "splice_insert (splice_insert xs i ys) (i + length ys) zs = splice_insert xs i (ys @ zs)"
  by (cases "i \<le> length xs") (simp_all add: splice_insert_def)

lemma splice_chunks_insert:
  assumes "offset \<le> length items"
  shows "splice_chunks (splice_insert xs i (take offset items)) i items offset = splice_insert xs i items"
  using assms
proof (induction "length items - offset" arbitrary: offset rule: less_induct)
  case less
  show ?case
  proof (cases "offset < length items")
    case True
    let ?j = "min (offset + CHUNK_SIZE) (length items)"
    have c: "0 < CHUNK_SIZE" by (simp add: CHUNK_SIZE_def)
    have "splice_insert (splice_insert xs i (take offset items)) (i + offset) (slice items offset (offset + CHUNK_SIZE)) =
        splice_insert xs i (take ?j items)"
      using True slice_append_tail[of offset "offset + CHUNK_SIZE" items]
        splice_insert_twice[of xs i "take offset items" "slice items offset (offset + CHUNK_SIZE)"]
      by (simp add: min_def)
    moreover have "splice_chunks t i items (offset + CHUNK_SIZE) = splice_chunks t i items ?j" for t
      by (cases "offset + CHUNK_SIZE \<le> length items") (simp_all add: splice_chunks.simps)
    ultimately show ?thesis
      using True less.hyps[of ?j] c by (subst splice_chunks.simps) simp
  qed (use less.prems in \<open>simp add: splice_chunks.simps\<close>)
qed

lemma spliceItems_eq:
  "spliceItems xs i r items = take (min i (length xs)) xs @ items @ drop (min i (length xs) + r) xs"
proof -
  have nil: "splice_insert t i [] = t" for t by (simp add: splice_insert_def)
  have "spliceItems xs i r items = splice_insert (splice_remove xs i r) i items"
    using splice_chunks_insert[of 0 items "splice_remove xs i r" i] by (simp add: spliceItems_def nil)
  also have "\<dots> = take (min i (length xs)) xs @ items @ drop (min i (length xs) + r) xs"
    by (cases "i \<le> length xs") (simp_all add: splice_insert_def splice_remove_def)
  finally show ?thesis .
qed

end
