(* ===== verification/DeltaDiff.thy ===== *)
theory DeltaDiff
  imports Delta
begin

text \<open>
  The structural difference of \<open>packages/chord/src/delta/index.ts\<close> (\<open>overlap\<close>, \<open>diffValue\<close> and what it
  calls) and its correctness against the applier.
\<close>

section \<open>Overlap of two strings\<close>

definition occurs_at :: "jstr \<Rightarrow> jstr \<Rightarrow> nat \<Rightarrow> bool" where
  "occurs_at tail head k = (take (length head) (drop k tail) = head)"

text \<open>\<open>tail.indexOf(head, from)\<close>.\<close>

definition index_of :: "jstr \<Rightarrow> jstr \<Rightarrow> nat \<Rightarrow> nat option" where
  "index_of tail head start = List.find (occurs_at tail head) [start..<Suc (length tail)]"

text \<open>The candidate loop, with the number of candidates still allowed.\<close>

fun candidates :: "nat \<Rightarrow> jstr \<Rightarrow> jstr \<Rightarrow> jstr \<Rightarrow> nat \<Rightarrow> nat option" where
  "candidates 0 tail b head start = None"
| "candidates (Suc tries) tail b head start =
     (case index_of tail head start of
        None \<Rightarrow> None
      | Some k \<Rightarrow>
          (let n = length tail - k
           in if n \<le> length b \<and> drop k tail = take n b then Some n
              else candidates tries tail b head (k + 1)))"

definition overlap :: "jstr \<Rightarrow> jstr \<Rightarrow> nat \<Rightarrow> nat \<Rightarrow> nat \<Rightarrow> nat" where
  "overlap a b scan probe maxCandidates =
     (if a = [] \<or> b = [] \<or> scan = 0 then 0
      else let tail = (if length a > scan then drop (length a - scan) a else a);
               h = min probe (length b)
        in case candidates maxCandidates tail b (take h b) 0 of
             Some n \<Rightarrow> n
           | None \<Rightarrow>
               if h = 1 then 0
               else (case candidates maxCandidates tail b (take 1 b) 0 of Some n \<Rightarrow> n | None \<Rightarrow> 0))"

section \<open>The difference\<close>

definition emitSet :: "path \<Rightarrow> json \<Rightarrow> op" where
  "emitSet path v = (if path = [] then OpR v else OpS path v)"

definition emitDelete :: "path \<Rightarrow> delta_error + op" where
  "emitDelete path = (if path = [] then Inl RootDelete else Inr (OpD path))"

definition diffString :: "jstr \<Rightarrow> jstr \<Rightarrow> path \<Rightarrow> nat \<Rightarrow> op list" where
  "diffString before after path scan =
     (if before = after then []
      else if path = [] then [emitSet path (JStr after)]
      else if length after > length before \<and> take (length before) after = before
        then [OpA path (drop (length before) after)]
      else let shared = overlap before after scan 64 8
        in if shared = 0 then [OpS path (JStr after)]
           else OpT path (NInt (int (length before - shared))) #
             (if length after > shared then [OpA path (drop shared after)] else []))"

fun common_prefix :: "json list \<Rightarrow> json list \<Rightarrow> nat" where
  "common_prefix (x # xs) (y # ys) = (if jsonEqual x y then Suc (common_prefix xs ys) else 0)"
| "common_prefix _ _ = 0"

text \<open>
  The array branch when the lengths differ: \<open>Some\<close> the operations of a pure insertion, removal or
  replacement of a slice, \<open>None\<close> when elements were also edited in place.
\<close>

definition diff_slice :: "path \<Rightarrow> json list \<Rightarrow> json list \<Rightarrow> op list option" where
  "diff_slice path before after =
     (let prefix = common_prefix before after;
          suffix = common_prefix (rev (drop prefix before)) (rev (drop prefix after))
      in if prefix + suffix = min (length before) (length after)
         then let remove = length before - prefix - suffix;
                  items = slice after prefix (length after - suffix)
           in Some (if prefix = 0 \<and> remove = length before then [emitSet path (JArr after)]
                    else [OpP path (NInt (int prefix)) (NInt (int remove)) items])
         else None)"

definition diff_tail :: "path \<Rightarrow> json list \<Rightarrow> json list \<Rightarrow> op list" where
  "diff_tail path before after =
     (if length after > length before
      then [OpP path (NInt (int (length before))) (NInt 0) (drop (length before) after)]
      else if length before > length after
      then (if after = [] then [emitSet path (JArr after)]
            else [OpP path (NInt (int (length after))) (NInt (int (length before - length after))) []])
      else [])"

definition removed_keys :: "(jstr \<times> json) list \<Rightarrow> (jstr \<times> json) list \<Rightarrow> jstr list" where
  "removed_keys before after = filter (\<lambda>k. map_of after k = None) (map fst before)"

definition has_reserved :: "(jstr \<times> json) list \<Rightarrow> (jstr \<times> json) list \<Rightarrow> bool" where
  "has_reserved before after = list_ex (\<lambda>k. k \<in> set RESERVED_SEGMENTS) (map fst before @ map fst after)"

text \<open>
  \<open>diffValue\<close> on two present values. \<open>same\<close> answers \<open>before === after\<close> for the containers that the
  code compares at a path; primitives are compared by value.
\<close>

function (sequential)
  diffPresent :: "(path \<Rightarrow> json \<Rightarrow> json \<Rightarrow> bool) \<Rightarrow> nat \<Rightarrow> path \<Rightarrow> json \<Rightarrow> json \<Rightarrow> op list" and
  diffEntries :: "(path \<Rightarrow> json \<Rightarrow> json \<Rightarrow> bool) \<Rightarrow> nat \<Rightarrow> path \<Rightarrow> (jstr \<times> json) list \<Rightarrow> (jstr \<times> json) list \<Rightarrow> op list" and
  diffItems :: "(path \<Rightarrow> json \<Rightarrow> json \<Rightarrow> bool) \<Rightarrow> nat \<Rightarrow> path \<Rightarrow> nat \<Rightarrow> json list \<Rightarrow> json list \<Rightarrow> op list" where
  "diffPresent same scan path JNull JNull = []"
| "diffPresent same scan path (JBool x) (JBool y) = (if x = y then [] else [emitSet path (JBool y)])"
| "diffPresent same scan path (JNum x) (JNum y) = (if num_eq x y then [] else [emitSet path (JNum y)])"
| "diffPresent same scan path (JStr s) (JStr t) = diffString s t path scan"
| "diffPresent same scan path (JArr xs) (JArr ys) =
     (if same path (JArr xs) (JArr ys) then []
      else if length xs = length ys then diffItems same scan path 0 xs ys
      else case diff_slice path xs ys of
        Some ops \<Rightarrow> ops
      | None \<Rightarrow> diffItems same scan path 0 xs ys @ diff_tail path xs ys)"
| "diffPresent same scan path (JObj ps) (JObj qs) =
     (if same path (JObj ps) (JObj qs) then []
      else if has_reserved ps qs then [emitSet path (JObj qs)]
      else diffEntries same scan path ps qs @ map (\<lambda>k. OpD (path @ [SKey k])) (removed_keys ps qs))"
| "diffPresent same scan path before after = [emitSet path after]"
| "diffEntries same scan path before [] = []"
| "diffEntries same scan path before ((k, v) # es) =
     (case map_of before k of
        None \<Rightarrow> [emitSet (path @ [SKey k]) v]
      | Some b \<Rightarrow> diffPresent same scan (path @ [SKey k]) b v) @ diffEntries same scan path before es"
| "diffItems same scan path i (x # xs) (y # ys) =
     diffPresent same scan (path @ [SIdx (NInt (int i))]) x y @ diffItems same scan path (Suc i) xs ys"
| "diffItems same scan path i _ _ = []"
  by pat_completeness auto
termination
  by (relation "measure (\<lambda>x. case x of
        Inl (_, _, _, _, a) \<Rightarrow> size a
      | Inr (Inl (_, _, _, _, es)) \<Rightarrow> size_list (size_prod (\<lambda>_. 0) size) es
      | Inr (Inr (_, _, _, _, _, ys)) \<Rightarrow> size_list size ys)") auto

definition diffValue ::
    "(path \<Rightarrow> json \<Rightarrow> json \<Rightarrow> bool) \<Rightarrow> nat \<Rightarrow> path \<Rightarrow> json option \<Rightarrow> json option \<Rightarrow> delta_error + op list" where
  "diffValue same scan path before after =
     (case before of
        None \<Rightarrow> Inr (case after of None \<Rightarrow> [] | Some a \<Rightarrow> [emitSet path a])
      | Some b \<Rightarrow>
          (case after of
             None \<Rightarrow> bindE (emitDelete path) (\<lambda>op. Inr [op])
           | Some a \<Rightarrow> Inr (diffPresent same scan path b a)))"

section \<open>Overlap is right\<close>

lemma candidates_sound:
  "candidates tries tail b head start = Some n \<Longrightarrow>
    n \<le> length b \<and> n \<le> length tail \<and> drop (length tail - n) tail = take n b"
proof (induction tries arbitrary: start)
  case (Suc tries)
  show ?case
  proof (cases "index_of tail head start")
    case (Some k)
    then have "k \<le> length tail" by (auto simp: index_of_def dest!: find_index_bound simp del: upt_Suc)
    then show ?thesis
      using Suc Some by (auto simp: Let_def split: if_splits)
  qed (use Suc.prems in simp)
qed simp

lemma overlap_sound:
  assumes "n = overlap a b scan probe maxCandidates"
  shows "n \<le> length a \<and> n \<le> length b \<and> drop (length a - n) a = take n b"
proof -
  define tail where "tail = (if length a > scan then drop (length a - scan) a else a)"
  have c: "n \<le> length a \<and> n \<le> length b \<and> drop (length a - n) a = take n b"
    if "candidates maxCandidates tail b head 0 = Some n" for head
    using candidates_sound[OF that] by (auto simp: tail_def split: if_splits)
  show ?thesis
    using assms c unfolding overlap_def Let_def tail_def[symmetric]
    by (auto split: if_splits option.splits)
qed

section \<open>Applying a difference\<close>

lemma applyOps_simps [simp]:
  "applyOps root [] = Inr root"
  "applyOps root (op # ops) = bindE (apply_op root op) (\<lambda>r. applyOps r ops)"
  "applyOps root (xs @ ys) = bindE (applyOps root xs) (\<lambda>r. applyOps r ys)"
  by (simp_all add: applyOps_def foldE_append)

lemma apply_emitSet:
  assumes "at root p = Some x" "safe_path p"
  shows "apply_op root (emitSet p v) = Inr (put root p v)"
proof (cases p rule: rev_cases)
  case Nil
  then show ?thesis using assertValidOp_iff[of "OpR v"] by (simp add: emitSet_def apply_op_def del: op_json.simps)
next
  case (snoc q s)
  with assms obtain parent where "at root q = Some parent" "own parent s = Some x"
    by (auto simp: at_append split: option.splits)
  from apply_set[OF this, of v] snoc assms(2) show ?thesis by (simp add: emitSet_def)
qed

lemma diffString_correct:
  assumes "at root p = Some (JStr s)" "safe_path p"
  shows "applyOps root (diffString s t p scan) = Inr (put root p (JStr t))"
proof (cases "s = t \<or> p = []")
  case True
  then show ?thesis
    using assms put_same[OF assms(1)] apply_emitSet[OF assms] by (auto simp: diffString_def)
next
  case False
  then obtain q seg where p: "p = q @ [seg]" by (metis rev_exhaust)
  with assms obtain parent where q: "at root q = Some parent" "own parent seg = Some (JStr s)"
    by (auto simp: at_append split: option.splits)
  note ap = apply_string(1)[OF q assms(2)[unfolded p], folded p]
  show ?thesis
  proof (cases "length t > length s \<and> take (length s) t = s")
    case True
    then show ?thesis using False ap[of "drop (length s) t"] append_take_drop_id[of "length s" t]
      by (simp add: diffString_def del: append_take_drop_id)
  next
    case other: False
    define n where "n = overlap s t scan 64 8"
    from overlap_sound[OF n_def] have n: "n \<le> length t" "drop (length s - n) s = take n t" by auto
    note tr = apply_string(2)[OF q assms(2)[unfolded p], folded p, of "length s - n", unfolded n(2)]
    have at2: "at (put root p (JStr (take n t))) p = Some (JStr (take n t))"
      by (rule at_put[OF assms(1)])
    with p obtain parent2 where q2: "at (put root p (JStr (take n t))) q = Some parent2"
      "own parent2 seg = Some (JStr (take n t))"
      by (auto simp: at_append split: option.splits)
    note ap2 = apply_string(1)[OF q2 assms(2)[unfolded p], folded p, of "drop n t", unfolded append_take_drop_id]
    show ?thesis
      using False other tr ap2 n(1) put_put[OF assms(1)] apply_emitSet[OF assms, of "JStr t"]
      by (auto simp: diffString_def Let_def emitSet_def simp flip: n_def)
  qed
qed

lemma common_prefix_props:
  "common_prefix xs ys \<le> length xs \<and> common_prefix xs ys \<le> length ys \<and>
    list_all2 jsonEqual (take (common_prefix xs ys) xs) (take (common_prefix xs ys) ys)"
  by (induction xs ys rule: common_prefix.induct) auto

lemma diff_slice_correct:
  assumes "diff_slice p xs ys = Some ops" "at root p = Some (JArr xs)" "safe_path p" "list_all json_wf ys"
  shows "\<exists>zs. applyOps root ops = Inr (put root p (JArr zs)) \<and> list_all2 jsonEqual zs ys"
proof -
  define n where "n = common_prefix xs ys"
  define m where "m = common_prefix (rev (drop n xs)) (rev (drop n ys))"
  have n: "n \<le> length xs" "n \<le> length ys" "list_all2 jsonEqual (take n xs) (take n ys)"
    using common_prefix_props[of xs ys] by (auto simp: n_def)
  have m: "m \<le> length xs - n" "m \<le> length ys - n"
    "list_all2 jsonEqual (drop (length xs - m) xs) (drop (length ys - m) ys)"
  proof -
    have c: "m \<le> length xs - n \<and> m \<le> length ys - n \<and>
        list_all2 jsonEqual (take m (rev (drop n xs))) (take m (rev (drop n ys)))"
      using common_prefix_props[of "rev (drop n xs)" "rev (drop n ys)"] by (auto simp: m_def)
    then show "m \<le> length xs - n" "m \<le> length ys - n" by auto
    have tail: "take m (rev (drop n us)) = rev (drop (length us - m) us)"
      if "m \<le> length us - n" "n \<le> length us" for us :: "json list"
      using that by (simp add: take_rev)
    from c have "list_all2 jsonEqual (take m (rev (drop n xs))) (take m (rev (drop n ys)))" by simp
    also have "take m (rev (drop n xs)) = rev (drop (length xs - m) xs)" by (rule tail) (use c n in simp_all)
    also have "take m (rev (drop n ys)) = rev (drop (length ys - m) ys)" by (rule tail) (use c n in simp_all)
    finally show "list_all2 jsonEqual (drop (length xs - m) xs) (drop (length ys - m) ys)" by simp
  qed
  have refl: "list_all2 jsonEqual us us" if "set us \<subseteq> set ys" for us
    using that assms(4) jsonEqual_refl by (auto intro!: list.rel_refl_strong simp: list_all_iff)
  define mid where "mid = slice ys n (length ys - m)"
  have ys: "ys = take n ys @ mid @ drop (length ys - m) ys"
    using m(2) n(2) append_take_drop_id[of "length ys - m" ys] slice_append_tail[of n "length ys - m" ys]
    by (simp add: mid_def flip: append_assoc)
  have "list_all2 jsonEqual (take n xs @ mid @ drop (length xs - m) xs) ys"
    by (subst ys) (intro list_all2_appendI n(3) m(3) refl, auto simp: mid_def slice_def dest: in_set_dropD in_set_takeD)
  moreover have "spliceItems xs n (length xs - n - m) mid = take n xs @ mid @ drop (length xs - m) xs"
    using n(1) m(1) by (simp add: spliceItems_eq)
  moreover have "n + m = min (length xs) (length ys) \<and> ops = (if n = 0 \<and> length xs - n - m = length xs
      then [emitSet p (JArr ys)] else [OpP p (NInt (int n)) (NInt (int (length xs - n - m))) mid])"
    using assms(1) by (auto simp: diff_slice_def Let_def mid_def simp flip: n_def m_def split: if_splits)
  ultimately show ?thesis
    using apply_emitSet[OF assms(2,3), of "JArr ys"] apply_splice[OF assms(2,3), of n "length xs - n - m" mid]
      refl[OF order.refl] by (auto split: if_splits)
qed

lemma diff_tail_correct:
  assumes "at root p = Some (JArr zs)" "safe_path p" "list_all json_wf ys" "length zs = length xs"
    and "\<And>j. j < length xs \<Longrightarrow> j < length ys \<Longrightarrow> jsonEqual (zs ! j) (ys ! j)"
  shows "\<exists>us. applyOps root (diff_tail p xs ys) = Inr (put root p (JArr us)) \<and> list_all2 jsonEqual us ys"
proof -
  have wf: "jsonEqual (ys ! j) (ys ! j)" if "j < length ys" for j
    using that assms(3) jsonEqual_refl by (auto simp: list_all_length)
  consider "length xs = length ys" | "length xs < length ys" | "length ys < length xs" "ys = []"
    | "length ys < length xs" "ys \<noteq> []" by linarith
  then show ?thesis
  proof cases
    case 1
    then show ?thesis
      using assms put_same[OF assms(1)]
      by (intro exI[of _ zs]) (simp add: diff_tail_def list_all2_conv_all_nth)
  next
    case 2
    then have "list_all2 jsonEqual (zs @ drop (length xs) ys) ys"
      using assms(4,5) wf by (auto simp: list_all2_conv_all_nth nth_append)
    then show ?thesis
      using 2 apply_splice[OF assms(1,2), of "length xs" 0 "drop (length xs) ys"] assms(4)
      by (auto simp: diff_tail_def spliceItems_eq)
  next
    case 3
    then show ?thesis
      using apply_emitSet[OF assms(1,2), of "JArr ys"] by (auto simp: diff_tail_def)
  next
    case 4
    then have "list_all2 jsonEqual (take (length ys) zs) ys"
      using assms(4,5) by (auto simp: list_all2_conv_all_nth)
    then show ?thesis
      using 4 apply_splice[OF assms(1,2), of "length ys" "length xs - length ys" "[]"] assms(4)
      by (auto simp: diff_tail_def spliceItems_eq)
  qed
qed

lemma deletes_correct:
  assumes "at root p = Some (JObj ps)" "safe_path p" "\<forall>k \<in> set ks. k \<notin> set RESERVED_SEGMENTS" "distinct (map fst ps)"
  shows "\<exists>ps'. applyOps root (map (\<lambda>k. OpD (p @ [SKey k])) ks) = Inr (put root p (JObj ps')) \<and>
    distinct (map fst ps') \<and> map_of ps' = (\<lambda>k. if k \<in> set ks then None else map_of ps k)"
  using assms
proof (induction ks arbitrary: root ps)
  case Nil
  then show ?case using put_same[OF Nil.prems(1)] by (intro exI[of _ ps]) simp
next
  case (Cons k ks)
  let ?r = "put root p (JObj (AList.delete k ps))"
  have step: "apply_op root (OpD (p @ [SKey k])) = Inr ?r"
    using apply_delete_key[OF Cons.prems(1)] Cons.prems(2,3) by (simp add: safe_seg_def)
  have "at ?r p = Some (JObj (AList.delete k ps))" by (rule at_put[OF Cons.prems(1)])
  from Cons.IH[OF this Cons.prems(2)] Cons.prems(3,4) obtain ps' where
    "applyOps ?r (map (\<lambda>k. OpD (p @ [SKey k])) ks) = Inr (put ?r p (JObj ps'))" "distinct (map fst ps')"
    "map_of ps' = (\<lambda>j. if j \<in> set ks then None else map_of (AList.delete k ps) j)"
    by (auto simp: distinct_delete)
  then show ?case
    using step put_put[OF Cons.prems(1)] by (auto simp: delete_conv' fun_eq_iff)
qed

section \<open>The difference is right\<close>

lemma jsonEqual_maps:
  assumes "distinct (map fst ps)" "distinct (map fst qs)" "\<And>k. rel_option jsonEqual (map_of ps k) (map_of qs k)"
  shows "jsonEqual (JObj ps) (JObj qs)"
proof -
  have keys: "k \<in> set (map fst ps) \<longleftrightarrow> k \<in> set (map fst qs)" for k
    using assms(3)[of k] map_of_eq_None_iff[of ps k] map_of_eq_None_iff[of qs k]
    by (cases "map_of ps k"; cases "map_of qs k") auto
  then have "length ps = length qs"
    using distinct_card[OF assms(1)] distinct_card[OF assms(2)] by (metis length_map subsetI subset_antisym)
  moreover have "\<exists>w. map_of qs (fst kv) = Some w \<and> jsonEqual (snd kv) w" if "kv \<in> set ps" for kv
    using assms(3)[of "fst kv"] map_of_is_SomeI[OF assms(1), of "fst kv" "snd kv"] that
    by (cases "map_of qs (fst kv)") auto
  ultimately show ?thesis by (simp add: jsonEqual_obj)
qed

definition sound :: "(path \<Rightarrow> json \<Rightarrow> json \<Rightarrow> bool) \<Rightarrow> bool" where
  "sound same \<longleftrightarrow> (\<forall>p x y. same p x y \<longrightarrow> x = y)"

definition becomes :: "json \<Rightarrow> op list \<Rightarrow> path \<Rightarrow> json \<Rightarrow> bool" where
  "becomes root ops p v \<longleftrightarrow> applyOps root ops = Inr (put root p v)"

definition entries_result :: "(jstr \<times> json) list \<Rightarrow> (jstr \<times> json) list \<Rightarrow> (jstr \<times> json) list \<Rightarrow> bool" where
  "entries_result ps es ps' \<longleftrightarrow> distinct (map fst ps') \<and>
     (\<forall>k. if map_of es k = None then map_of ps' k = map_of ps k else rel_option jsonEqual (map_of ps' k) (map_of es k))"

definition items_result :: "json list \<Rightarrow> nat \<Rightarrow> json list \<Rightarrow> nat \<Rightarrow> json list \<Rightarrow> bool" where
  "items_result zs i ys n zs' \<longleftrightarrow> length zs' = length zs \<and>
     (\<forall>j < n. jsonEqual (zs' ! (i + j)) (ys ! j)) \<and> (\<forall>j. (j < i \<or> i + n \<le> j) \<longrightarrow> zs' ! j = zs ! j)"

text \<open>One step over a list of entries or items: a first change, then the rest.\<close>

lemma entries_step:
  assumes "distinct (map fst ((k, v) # es))" "distinct (map fst ps)"
    and "entries_result (AList.update k w ps) es ps'" "jsonEqual w v"
  shows "entries_result ps ((k, v) # es) ps'"
  using assms unfolding entries_result_def
  by (auto simp: map_of_eq_None_iff split: if_splits)

lemma items_step:
  assumes "items_result (zs[i := w]) (Suc i) ys n zs'" "jsonEqual w y" "i < length zs"
  shows "items_result zs i (y # ys) (Suc n) zs'"
proof -
  have "jsonEqual (zs' ! (i + j)) ((y # ys) ! j)" if "j < Suc n" for j
    using assms that by (cases j) (auto simp: items_result_def)
  then show ?thesis
    using assms(1) by (auto simp: items_result_def)
qed

lemma becomes_Cons:
  assumes "applyOps root ops = Inr (put root p v)" "at root p = Some x" "becomes (put root p v) ops' p w"
  shows "becomes root (ops @ ops') p w"
  using assms by (simp add: becomes_def put_put)

lemma removed_keys_set: "k \<in> set (removed_keys ps qs) \<longleftrightarrow> map_of ps k \<noteq> None \<and> map_of qs k = None"
  using map_of_eq_None_iff[of ps k] by (auto simp: removed_keys_def)

lemma becomes_set:
  "at root p = Some b \<Longrightarrow> json_wf a \<Longrightarrow> safe_path p \<Longrightarrow> \<exists>r. becomes root [emitSet p a] p r \<and> jsonEqual r a"
  using apply_emitSet[of root p b a] jsonEqual_refl[of a] by (auto simp: becomes_def)

lemma becomes_same: "at root p = Some b \<Longrightarrow> becomes root [] p b"
  using put_same[of root p b] by (simp add: becomes_def)

lemma becomes_equal: "at root p = Some b \<Longrightarrow> jsonEqual b a \<Longrightarrow> \<exists>r. becomes root [] p r \<and> jsonEqual r a"
  using becomes_same by blast

lemma becomes_items:
  "at root p = Some (JArr zs) \<Longrightarrow> \<exists>zs'. becomes root [] p (JArr zs') \<and> items_result zs i ys 0 zs'"
  using becomes_same by (auto simp: items_result_def)

lemma diff_induct:
  "sound same \<Longrightarrow> json_wf b \<Longrightarrow> json_wf a \<Longrightarrow> safe_path p \<Longrightarrow> at root p = Some b \<Longrightarrow>
    \<exists>r. becomes root (diffPresent same scan p b a) p r \<and> jsonEqual r a"
  "sound same \<Longrightarrow> list_all (\<lambda>kv. json_wf (snd kv)) before \<Longrightarrow> distinct (map fst es) \<Longrightarrow>
    list_all (\<lambda>kv. json_wf (snd kv)) es \<Longrightarrow> \<forall>k \<in> fst ` set es. k \<notin> set RESERVED_SEGMENTS \<and> map_of ps k = map_of before k \<Longrightarrow>
    safe_path p \<Longrightarrow> at root p = Some (JObj ps) \<Longrightarrow> distinct (map fst ps) \<Longrightarrow>
    \<exists>ps'. becomes root (diffEntries same scan p before es) p (JObj ps') \<and> entries_result ps es ps'"
  "sound same \<Longrightarrow> list_all json_wf xs \<Longrightarrow> list_all json_wf ys \<Longrightarrow> safe_path p \<Longrightarrow> at root p = Some (JArr zs) \<Longrightarrow>
    i + min (length xs) (length ys) \<le> length zs \<Longrightarrow> \<forall>j < min (length xs) (length ys). zs ! (i + j) = xs ! j \<Longrightarrow>
    \<exists>zs'. becomes root (diffItems same scan p i xs ys) p (JArr zs') \<and> items_result zs i ys (min (length xs) (length ys)) zs'"
proof (induction same scan p b a and same scan p before es and same scan p i xs ys
    arbitrary: root and root ps and root zs rule: diffPresent_diffEntries_diffItems.induct)
  case (4 same scan path s t)
  then show ?case using diffString_correct by (auto simp: becomes_def)
next
  case (5 same scan path xs ys)
  show ?case
  proof (cases "same path (JArr xs) (JArr ys)")
    case True
    then have "xs = ys" using 5(3) by (auto simp: sound_def)
    with True 5 show ?thesis
      using put_same[OF 5(7)] jsonEqual_refl[of "JArr ys"] by (auto simp: becomes_def intro!: exI[of _ "JArr ys"])
  next
    case differ: False
    show ?thesis
    proof (cases "length xs = length ys")
      case True
      from 5(1)[OF differ True 5(3) _ _ 5(6,7)] 5(4,5) True obtain zs' where
        "becomes root (diffItems same scan path 0 xs ys) path (JArr zs')" "items_result xs 0 ys (length ys) zs'"
        by auto
      with differ True show ?thesis
        by (auto simp: items_result_def jsonEqual_arr list_all2_conv_all_nth intro!: exI[of _ "JArr zs'"])
    next
      case len: False
      show ?thesis
      proof (cases "diff_slice path xs ys")
        case (Some ops)
        with diff_slice_correct[OF Some 5(7,6)] 5(5) differ len show ?thesis
          by (auto simp: becomes_def jsonEqual_arr)
      next
        case None
        from 5(2)[OF differ len None 5(3) _ _ 5(6,7)] 5(4,5) obtain zs' where
          z: "applyOps root (diffItems same scan path 0 xs ys) = Inr (put root path (JArr zs'))"
            "items_result xs 0 ys (min (length xs) (length ys)) zs'"
          by (auto simp: becomes_def)
        from diff_tail_correct[OF at_put[OF 5(7)] 5(6), of ys zs' xs] z(2) 5(5) obtain us where
          "becomes (put root path (JArr zs')) (diff_tail path xs ys) path (JArr us)" "list_all2 jsonEqual us ys"
          by (auto simp: items_result_def becomes_def)
        with becomes_Cons[OF z(1) 5(7)] differ len None show ?thesis
          by (auto simp: jsonEqual_arr intro!: exI[of _ "JArr us"])
      qed
    qed
  qed
next
  case (6 same scan path ps qs)
  then have wf: "distinct (map fst ps)" "distinct (map fst qs)" "list_all (\<lambda>kv. json_wf (snd kv)) ps"
    "list_all (\<lambda>kv. json_wf (snd kv)) qs" by auto
  consider "same path (JObj ps) (JObj qs)" | "\<not> same path (JObj ps) (JObj qs)" "has_reserved ps qs"
    | "\<not> same path (JObj ps) (JObj qs)" "\<not> has_reserved ps qs" by blast
  then show ?case
  proof cases
    case 1
    then have "ps = qs" using 6(2) by (auto simp: sound_def)
    with 1 6 show ?thesis
      using put_same[OF 6(6)] jsonEqual_refl[of "JObj qs"] by (auto simp: becomes_def intro!: exI[of _ "JObj qs"])
  next
    case 2
    then show ?thesis
      using apply_emitSet[OF 6(6,5), of "JObj qs"] jsonEqual_refl[OF 6(4)]
      by (auto simp: becomes_def intro!: exI[of _ "JObj qs"])
  next
    case 3
    then have free: "k \<notin> set RESERVED_SEGMENTS" if "k \<in> fst ` set ps \<or> k \<in> fst ` set qs" for k
      using that by (auto simp: has_reserved_def list_ex_iff)
    have "\<forall>k \<in> fst ` set qs. k \<notin> set RESERVED_SEGMENTS \<and> map_of ps k = map_of ps k" using free by blast
    from 6(1)[OF 3 6(2) wf(3,2,4) this 6(5,6) wf(1)] obtain us where
      u: "applyOps root (diffEntries same scan path ps qs) = Inr (put root path (JObj us))" "entries_result ps qs us"
      by (auto simp: becomes_def)
    have "\<forall>k \<in> set (removed_keys ps qs). k \<notin> set RESERVED_SEGMENTS" using free by (auto simp: removed_keys_def)
    from deletes_correct[OF at_put[OF 6(6)] 6(5) this] u(2) obtain vs where
      v: "becomes (put root path (JObj us)) (map (\<lambda>k. OpD (path @ [SKey k])) (removed_keys ps qs)) path (JObj vs)"
      "distinct (map fst vs)" "map_of vs = (\<lambda>k. if k \<in> set (removed_keys ps qs) then None else map_of us k)"
      by (auto simp: becomes_def entries_result_def)
    have "rel_option jsonEqual (map_of vs k) (map_of qs k)" for k
      using spec[OF conjunct2[OF u(2)[unfolded entries_result_def]], of k]
      by (cases "map_of qs k"; cases "map_of ps k") (simp_all add: v(3) removed_keys_set)
    then have "jsonEqual (JObj vs) (JObj qs)" by (rule jsonEqual_maps[OF v(2) wf(2)])
    with becomes_Cons[OF u(1) 6(6) v(1)] 3 show ?thesis by auto
  qed
next
  case (8 same scan path before)
  then show ?case using becomes_same[OF 8(7)] by (auto simp: entries_result_def intro!: exI[of _ ps])
next
  case (9 same scan path before k v es)
  have safe: "safe_path (path @ [SKey k])" using 9(7,8) by (simp add: safe_seg_def)
  have wf: "json_wf v" "distinct (map fst es)" "list_all (\<lambda>kv. json_wf (snd kv)) es" using 9(5,6) by auto
  let ?ops = "case map_of before k of None \<Rightarrow> [emitSet (path @ [SKey k]) v]
      | Some b \<Rightarrow> diffPresent same scan (path @ [SKey k]) b v"
  have "\<exists>w. applyOps root ?ops = Inr (put root path (JObj (AList.update k w ps))) \<and> jsonEqual w v"
  proof (cases "map_of before k")
    case None
    then show ?thesis
      using apply_set_key[OF 9(9) safe, of v] jsonEqual_refl[OF wf(1)] by (auto simp: emitSet_def)
  next
    case (Some b)
    then have b: "json_wf b" using map_of_SomeD[OF Some] 9(4) by (force simp: list_all_iff)
    have "at root (path @ [SKey k]) = Some b"
      using 9(7,9) Some by (simp add: at_append own_def step_into_def)
    from 9(1)[OF Some 9(3) b wf(1) safe this] obtain w where
      "becomes root (diffPresent same scan (path @ [SKey k]) b v) (path @ [SKey k]) w" "jsonEqual w v" by blast
    then show ?thesis
      using Some put_append[OF 9(9), of "[SKey k]"] by (auto simp: becomes_def define_property_def)
  qed
  then obtain w where w: "applyOps root ?ops = Inr (put root path (JObj (AList.update k w ps)))" "jsonEqual w v" by blast
  have at2: "at (put root path (JObj (AList.update k w ps))) path = Some (JObj (AList.update k w ps))"
    by (rule at_put[OF 9(9)])
  have "\<forall>k' \<in> fst ` set es. k' \<notin> set RESERVED_SEGMENTS \<and> map_of (AList.update k w ps) k' = map_of before k'"
    using 9(5,7) by force
  from 9(2)[OF 9(3,4) wf(2,3) this 9(8) at2 distinct_update[OF 9(10)]] obtain ps' where
    "becomes (put root path (JObj (AList.update k w ps))) (diffEntries same scan path before es) path (JObj ps')"
    "entries_result (AList.update k w ps) es ps'" by blast
  then show ?case
    using becomes_Cons[OF w(1) 9(9)] entries_step[OF 9(5,10) _ w(2)] by auto
next
  case (10 same scan path i x xs y ys)
  let ?seg = "SIdx (NInt (int i))"
  have i: "i < length zs" "zs ! i = x" using 10(8,9) by auto
  have seg: "own (JArr us) ?seg = nth_opt us i" "safe_seg ?seg" "define_property (JArr zs) ?seg w = JArr (zs[i := w])" for us w
    using i by (simp_all add: own_def step_into_def own_element_def is_index_def idx_def safe_seg_def
        define_property_def store_at_def split: option.splits)
  have wf: "json_wf x" "json_wf y" "list_all json_wf xs" "list_all json_wf ys" using 10(4,5) by auto
  have "at root (path @ [?seg]) = Some x" using 10(7) i by (simp add: at_append seg)
  from 10(1)[OF 10(3) wf(1,2) _ this] 10(6) seg(2) obtain w where
    w: "becomes root (diffPresent same scan (path @ [?seg]) x y) (path @ [?seg]) w" "jsonEqual w y" by auto
  have b: "applyOps root (diffPresent same scan (path @ [?seg]) x y) = Inr (put root path (JArr (zs[i := w])))"
    using w(1) put_append[OF 10(7), of "[?seg]"] seg(3) by (simp add: becomes_def)
  have "\<forall>j < min (length xs) (length ys). zs[i := w] ! (Suc i + j) = xs ! j"
    using 10(9) by fastforce
  from 10(2)[OF 10(3) wf(3,4) 10(6) at_put[OF 10(7)] _ this] 10(8) obtain zs' where z:
    "becomes (put root path (JArr (zs[i := w]))) (diffItems same scan path (Suc i) xs ys) path (JArr zs')"
    "items_result (zs[i := w]) (Suc i) ys (min (length xs) (length ys)) zs'" by auto
  then show ?case
    using becomes_Cons[OF b 10(7) z(1)] items_step[OF z(2) w(2) i(1)] by (intro exI[of _ zs']) simp
qed (use becomes_set becomes_equal becomes_items in \<open>auto split: if_splits\<close>)

section \<open>Properties\<close>

text \<open>
  C5. Replaying a difference reproduces the value: for any two JSON values, applying the operations
  that \<open>diffValue\<close> emits to the first one succeeds (every path is safe and resolves, no operation
  is out of range) and gives a value \<open>jsonEqual\<close> to the second, whatever the scan window is and
  wherever the two share identical containers.
\<close>

theorem diff_apply_correct:
  assumes "sound same" "json_wf before" "json_wf after"
  shows "\<exists>ops r. diffValue same scan [] (Some before) (Some after) = Inr ops \<and>
    applyOps before ops = Inr r \<and> jsonEqual r after"
  using diff_induct(1)[OF assms, of "[]" before scan] by (auto simp: diffValue_def becomes_def)

definition diff_sample_before :: json where
  "diff_sample_before = JObj [(js ''log'', JStr (js ''abcdef'')), (js ''xs'', JArr [JNum (NInt 1), JNull, JNum (NInt 2)]), (js ''old'', JNull)]"

definition diff_sample_after :: json where
  "diff_sample_after = JObj [(js ''xs'', JArr [JNum (NInt 1), JNum (NInt 2)]), (js ''log'', JStr (js ''defghi'')), (js ''new'', JBool True)]"

theorem diff_apply_correct_witness:
  "\<exists>ops r. diffValue (\<lambda>_ _ _. False) 65536 [] (Some diff_sample_before) (Some diff_sample_after) = Inr ops \<and>
    applyOps diff_sample_before ops = Inr r \<and> jsonEqual r diff_sample_after"
  by (rule diff_apply_correct) (simp_all add: sound_def diff_sample_before_def diff_sample_after_def js_def)

lemma diff_sample_ops:
  "diffValue (\<lambda>_ _ _. False) 65536 [] (Some diff_sample_before) (Some diff_sample_after) =
    Inr [OpP [SKey (js ''xs'')] (NInt 1) (NInt 1) [],
         OpT [SKey (js ''log'')] (NInt 3), OpA [SKey (js ''log'')] (js ''ghi''),
         OpS [SKey (js ''new'')] (JBool True), OpD [SKey (js ''old'')]]"
  by code_simp

text \<open>
  \<open>overlap\<close> is always right: the number it returns is within both strings, and that many code
  units at the end of the first string are the start of the second, whatever the probe, the scan
  window and the candidate limit.
\<close>

theorem overlap_correct:
  "overlap a b scan probe maxCandidates \<le> length a \<and> overlap a b scan probe maxCandidates \<le> length b \<and>
   drop (length a - overlap a b scan probe maxCandidates) a = take (overlap a b scan probe maxCandidates) b"
  by (rule overlap_sound[OF refl])

end
