(* ===== verification/DeltaCodec.thy ===== *)
theory DeltaCodec
  imports Delta
begin

text \<open>
  The wire codec of \<open>packages/chord/src/delta/index.ts\<close>: path interning and omitted paths, and the
  validator of wire operations. A wire operation is a JSON array, as it crosses the boundary.
\<close>

section \<open>The validator\<close>

definition ok_ref :: "json \<Rightarrow> delta_error + unit" where
  "ok_ref r =
     (case r of
        JNum n \<Rightarrow> if is_index n then Inr () else Inl OpShape
      | JArr segs \<Rightarrow> assertSafePath segs
      | _ \<Rightarrow> Inl OpShape)"

fun is_str :: "json \<Rightarrow> bool" where
  "is_str (JStr s) = True"
| "is_str _ = False"

fun is_count :: "json \<Rightarrow> bool" where
  "is_count (JNum n) = is_index n"
| "is_count _ = False"

fun is_arr :: "json \<Rightarrow> bool" where
  "is_arr (JArr xs) = True"
| "is_arr _ = False"

definition check_payload :: "bool \<Rightarrow> delta_error + unit" where
  "check_payload ok = (if ok then Inr () else Inl OpShape)"

definition assertValidWireOp :: "json \<Rightarrow> delta_error + unit" where
  "assertValidWireOp op =
     (case op of
        JArr (JStr verb # args) \<Rightarrow>
          (if verb = js ''r'' then check_payload (length args = 1)
           else if verb = js ''s'' then
             (case args of [ref, v] \<Rightarrow> ok_ref ref | [v] \<Rightarrow> Inr () | _ \<Rightarrow> Inl OpShape)
           else if verb = js ''d'' then
             (case args of [ref] \<Rightarrow> ok_ref ref | [] \<Rightarrow> Inr () | _ \<Rightarrow> Inl OpShape)
           else if verb = js ''a'' then
             (case args of
                [ref, v] \<Rightarrow> bindE (ok_ref ref) (\<lambda>_. check_payload (is_str v))
              | [v] \<Rightarrow> check_payload (is_str v)
              | _ \<Rightarrow> Inl OpShape)
           else if verb = js ''t'' then
             (case args of
                [ref, n] \<Rightarrow> bindE (ok_ref ref) (\<lambda>_. check_payload (is_count n))
              | [n] \<Rightarrow> check_payload (is_count n)
              | _ \<Rightarrow> Inl OpShape)
           else if verb = js ''p'' then
             (case args of
                [ref, i, r, items] \<Rightarrow>
                  bindE (ok_ref ref) (\<lambda>_. check_payload (is_count i \<and> is_count r \<and> is_arr items))
              | [i, r, items] \<Rightarrow> check_payload (is_count i \<and> is_count r \<and> is_arr items)
              | _ \<Rightarrow> Inl OpShape)
           else if verb = js ''#'' then
             (case args of
                [JNum n, JArr segs] \<Rightarrow> if is_index n then assertSafePath segs else Inl OpShape
              | _ \<Rightarrow> Inl OpShape)
           else Inl OpShape)
      | _ \<Rightarrow> Inl OpShape)"

section \<open>The encoder\<close>

text \<open>
  A dictionary key is \<open>JSON.stringify(path)\<close>: on the indexes of valid operations it tells all paths
  apart but for the sign of zero.
\<close>

fun key_seg :: "seg \<Rightarrow> seg" where
  "key_seg (SKey s) = SKey s"
| "key_seg (SIdx n) = SIdx (NInt (int_of n))"

definition pathKey :: "path \<Rightarrow> path" where
  "pathKey p = map key_seg p"

record encoder =
  seen :: "path list"
  ids :: "(path \<times> nat) list"
  nextId :: nat

definition new_encoder :: encoder where
  "new_encoder = \<lparr>seen = [], ids = [], nextId = 0\<rparr>"

text \<open>The tuple with its path omitted, and the tuple with a path or an id.\<close>

fun short_form :: "op \<Rightarrow> json" where
  "short_form (OpR v) = op_json (OpR v)"
| "short_form (OpS p v) = JArr [JStr (js ''s''), v]"
| "short_form (OpD p) = JArr [JStr (js ''d'')]"
| "short_form (OpA p s) = JArr [JStr (js ''a''), JStr s]"
| "short_form (OpT p n) = JArr [JStr (js ''t''), JNum n]"
| "short_form (OpP p i r xs) = JArr [JStr (js ''p''), JNum i, JNum r, JArr xs]"

fun ref_form :: "json \<Rightarrow> op \<Rightarrow> json" where
  "ref_form ref (OpR v) = op_json (OpR v)"
| "ref_form ref (OpS p v) = JArr [JStr (js ''s''), ref, v]"
| "ref_form ref (OpD p) = JArr [JStr (js ''d''), ref]"
| "ref_form ref (OpA p s) = JArr [JStr (js ''a''), ref, JStr s]"
| "ref_form ref (OpT p n) = JArr [JStr (js ''t''), ref, JNum n]"
| "ref_form ref (OpP p i r xs) = JArr [JStr (js ''p''), ref, JNum i, JNum r, JArr xs]"

definition id_json :: "nat \<Rightarrow> json" where
  "id_json n = JNum (NInt (int n))"

definition define_json :: "nat \<Rightarrow> path \<Rightarrow> json" where
  "define_json n p = JArr [JStr (js ''#''), id_json n, path_json p]"

text \<open>One operation of \<open>encode\<close>: the state, the last path of the batch, the tuples emitted.\<close>

definition encode_op :: "encoder \<Rightarrow> path option \<Rightarrow> op \<Rightarrow> encoder \<times> path option \<times> json list" where
  "encode_op e previous op =
     (if isReplace op then (new_encoder, None, [op_json op])
      else let path = op_path op; key = pathKey path
        in if previous = Some key then (e, previous, [short_form op])
           else case map_of (ids e) key of
             Some n \<Rightarrow> (e, Some key, [ref_form (id_json n) op])
           | None \<Rightarrow>
               if key \<in> set (seen e)
               then (e\<lparr>ids := AList.update key (nextId e) (ids e), nextId := nextId e + 1\<rparr>, Some key,
                     [define_json (nextId e) path, ref_form (id_json (nextId e)) op])
               else (e\<lparr>seen := seen e @ [key]\<rparr>, Some key, [ref_form (path_json path) op]))"

fun encode_loop :: "encoder \<Rightarrow> path option \<Rightarrow> op list \<Rightarrow> encoder \<times> json list" where
  "encode_loop e previous [] = (e, [])"
| "encode_loop e previous (op # ops) =
     (let (e, previous, ws) = encode_op e previous op;
          (e, rest) = encode_loop e previous ops
      in (e, ws @ rest))"

definition encode :: "encoder \<Rightarrow> op list \<Rightarrow> encoder \<times> json list" where
  "encode e ops = encode_loop e None ops"

fun encode_batches :: "encoder \<Rightarrow> op list list \<Rightarrow> encoder \<times> json list list" where
  "encode_batches e [] = (e, [])"
| "encode_batches e (b # bs) =
     (let (e, w) = encode e b; (e, ws) = encode_batches e bs in (e, w # ws))"

section \<open>The decoder\<close>

type_synonym decoder = "nat \<Rightarrow> path option"

definition new_decoder_paths :: decoder where
  "new_decoder_paths = (\<lambda>_. None)"

definition resolve_ref :: "decoder \<Rightarrow> json \<Rightarrow> delta_error + path" where
  "resolve_ref paths ref =
     (case ref of
        JNum n \<Rightarrow> (case paths (idx n) of None \<Rightarrow> Inl (PathIdError (idx n)) | Some p \<Rightarrow> Inr p)
      | JArr segs \<Rightarrow> Inr (map segment_of segs)
      | _ \<Rightarrow> Inl OpShape)"

text \<open>The decoded operation; the payload has been validated.\<close>

definition build_op :: "jstr \<Rightarrow> path \<Rightarrow> json list \<Rightarrow> delta_error + op" where
  "build_op verb path payload =
     (if verb = js ''s'' then (case payload of [v] \<Rightarrow> Inr (OpS path v) | _ \<Rightarrow> Inl OpShape)
      else if verb = js ''d'' then Inr (OpD path)
      else if verb = js ''a'' then (case payload of [JStr s] \<Rightarrow> Inr (OpA path s) | _ \<Rightarrow> Inl OpShape)
      else if verb = js ''t'' then (case payload of [JNum n] \<Rightarrow> Inr (OpT path n) | _ \<Rightarrow> Inl OpShape)
      else (case payload of [JNum i, JNum r, JArr items] \<Rightarrow> Inr (OpP path i r items) | _ \<Rightarrow> Inl OpShape))"

definition is_short :: "jstr \<Rightarrow> json list \<Rightarrow> bool" where
  "is_short verb args =
     (if verb = js ''d'' then args = [] else if verb = js ''p'' then length args = 3 else length args = 1)"

definition decode_op ::
    "decoder \<times> path option \<times> op list \<Rightarrow> json \<Rightarrow> delta_error + (decoder \<times> path option \<times> op list)" where
  "decode_op st w =
     (case st of (paths, previous, out) \<Rightarrow>
       bindE (assertValidWireOp w) (\<lambda>_.
         case w of
           JArr (JStr verb # args) \<Rightarrow>
             (if verb = js ''#'' then
                (case args of
                   [JNum n, JArr segs] \<Rightarrow>
                     bindE (assertSafePath segs) (\<lambda>_. Inr (paths(idx n \<mapsto> map segment_of segs), previous, out))
                 | _ \<Rightarrow> Inl OpShape)
              else if verb = js ''r'' then Inr (new_decoder_paths, None, out @ [OpR (hd args)])
              else
                (let short = is_short verb args in
                 bindE (if short then (case previous of None \<Rightarrow> Inl (PathError []) | Some p \<Rightarrow> Inr (p, previous))
                        else bindE (resolve_ref paths (hd args)) (\<lambda>p. Inr (p, Some p)))
                   (\<lambda>(path, previous).
                     if verb \<noteq> js ''p'' \<and> path = [] then Inl (PathError path)
                     else bindE (build_op verb path (if short then args else tl args))
                       (\<lambda>op. Inr (paths, previous, out @ [op])))))
         | _ \<Rightarrow> Inl OpShape))"

definition decode :: "decoder \<Rightarrow> json list \<Rightarrow> delta_error + (decoder \<times> op list)" where
  "decode paths ws =
     bindE (foldE decode_op (paths, None, []) ws) (\<lambda>(paths, previous, out). Inr (paths, out))"

fun decode_batches :: "decoder \<Rightarrow> json list list \<Rightarrow> delta_error + op list list" where
  "decode_batches paths [] = Inr []"
| "decode_batches paths (w # ws) =
     bindE (decode paths w) (\<lambda>(paths, ops).
     bindE (decode_batches paths ws) (\<lambda>rest. Inr (ops # rest)))"

section \<open>Decoding what was encoded\<close>

text \<open>Operations as the tracker makes them: valid, with no minus zero in a path.\<close>

definition plain_seg :: "seg \<Rightarrow> bool" where
  "plain_seg s = (case s of SKey k \<Rightarrow> True | SIdx n \<Rightarrow> (case n of NInt i \<Rightarrow> True | NDbl w \<Rightarrow> False))"

definition op_ok :: "op \<Rightarrow> bool" where
  "op_ok op = (valid_op op \<and> list_all plain_seg (op_path op))"

lemma pathKey_plain: "list_all plain_seg p \<Longrightarrow> pathKey p = p"
  unfolding pathKey_def by (induction p) (auto simp: plain_seg_def split: seg.splits number.splits)

lemma segment_of_seg_json [simp]: "segment_of (seg_json s) = s" "segment_of \<circ> seg_json = (\<lambda>s. s)"
proof -
  show "segment_of (seg_json s) = s" for s by (cases s) (simp_all add: segment_of_def)
  then show "segment_of \<circ> seg_json = (\<lambda>s. s)" by (simp add: fun_eq_iff)
qed

definition dictionaries :: "encoder \<Rightarrow> decoder \<Rightarrow> bool" where
  "dictionaries e paths \<longleftrightarrow> (\<forall>p n. map_of (ids e) p = Some n \<longrightarrow> n < nextId e \<and> paths n = Some p)"

lemma dictionaries_new: "dictionaries new_encoder paths"
  by (simp add: dictionaries_def new_encoder_def)

lemma ref_form_valid:
  assumes "op_ok op" "\<not> isReplace op" "ok_ref ref = Inr ()"
  shows "assertValidWireOp (ref_form ref op) = Inr ()"
  using assms
  by (cases op) (auto simp: assertValidWireOp_def js_verbs op_ok_def check_payload_def)

lemma short_form_valid:
  assumes "op_ok op" "\<not> isReplace op"
  shows "assertValidWireOp (short_form op) = Inr ()"
  using assms
  by (cases op) (auto simp: assertValidWireOp_def js_verbs op_ok_def check_payload_def)

lemma op_ok_path: "op_ok op \<Longrightarrow> \<not> isReplace op \<Longrightarrow> safe_path (op_path op) \<and> pathKey (op_path op) = op_path op"
  by (cases op) (auto simp: op_ok_def pathKey_plain)

lemma decode_ref:
  assumes "op_ok op" "\<not> isReplace op" "ok_ref ref = Inr ()" "resolve_ref paths ref = Inr (op_path op)"
  shows "decode_op (paths, previous, out) (ref_form ref op) = Inr (paths, Some (op_path op), out @ [op])"
  using assms ref_form_valid[OF assms(1-3)]
  by (cases op) (auto simp: decode_op_def js_verbs is_short_def build_op_def op_ok_def Let_def)

lemma decode_short:
  assumes "op_ok op" "\<not> isReplace op"
  shows "decode_op (paths, Some (op_path op), out) (short_form op) = Inr (paths, Some (op_path op), out @ [op])"
  using assms short_form_valid[OF assms]
  by (cases op) (auto simp: decode_op_def js_verbs is_short_def build_op_def op_ok_def Let_def)

lemma decode_define:
  assumes "safe_path p"
  shows "decode_op (paths, previous, out) (define_json n p) = Inr (paths(n \<mapsto> p), previous, out)"
  using assertSafePath_iff[of p] assms
  by (simp add: decode_op_def define_json_def assertValidWireOp_def js_verbs id_json_def is_index_def idx_def path_json_def)

lemma ok_ref_simps [simp]:
  "ok_ref (id_json n) = Inr ()" "safe_path p \<Longrightarrow> ok_ref (path_json p) = Inr ()"
  "paths n = Some p \<Longrightarrow> resolve_ref paths (id_json n) = Inr p" "resolve_ref paths (path_json p) = Inr p"
  using assertSafePath_iff[of p]
  by (simp_all add: ok_ref_def id_json_def is_index_def idx_def path_json_def resolve_ref_def)

lemma encode_op_decodes:
  assumes "op_ok op" "dictionaries e paths" "encode_op e previous op = (e', previous', ws)"
  shows "\<exists>paths'. foldE decode_op (paths, previous, out) ws = Inr (paths', previous', out @ [op]) \<and> dictionaries e' paths'"
proof (cases "isReplace op")
  case True
  then obtain v where op: "op = OpR v" by (cases op) auto
  with assms(3) have "e' = new_encoder" "previous' = None" "ws = [op_json (OpR v)]" by (auto simp: encode_op_def)
  then show ?thesis
    using op dictionaries_new by (simp add: decode_op_def assertValidWireOp_def js_verbs check_payload_def)
next
  case False
  note p = op_ok_path[OF assms(1) False]
  show ?thesis
  proof (cases "previous = Some (op_path op)")
    case True
    then show ?thesis
      using assms False p decode_short[OF assms(1) False] by (auto simp: encode_op_def Let_def)
  next
    case differ: False
    show ?thesis
    proof (cases "map_of (ids e) (op_path op)")
      case (Some n)
      with assms(2) have "paths n = Some (op_path op)" by (simp add: dictionaries_def)
      then show ?thesis
        using assms False p differ Some decode_ref[OF assms(1) False]
        by (auto simp: encode_op_def Let_def)
    next
      case None
      have "dictionaries (e\<lparr>ids := AList.update (op_path op) (nextId e) (ids e), nextId := nextId e + 1\<rparr>)
          (paths(nextId e \<mapsto> op_path op))"
        using assms(2) by (fastforce simp: dictionaries_def)
      moreover have "dictionaries (e\<lparr>seen := s\<rparr>) paths" for s
        using assms(2) by (simp add: dictionaries_def)
      ultimately show ?thesis
        using assms False p differ None decode_ref[OF assms(1) False] decode_define[of "op_path op"]
        by (auto simp: encode_op_def Let_def split: if_splits)
    qed
  qed
qed

lemma encode_loop_decodes:
  "list_all op_ok ops \<Longrightarrow> dictionaries e paths \<Longrightarrow> encode_loop e previous ops = (e', ws) \<Longrightarrow>
    \<exists>paths' previous'. foldE decode_op (paths, previous, out) ws = Inr (paths', previous', out @ ops) \<and> dictionaries e' paths'"
proof (induction ops arbitrary: e paths previous out ws e')
  case (Cons op ops)
  obtain e1 p1 w1 where s1: "encode_op e previous op = (e1, p1, w1)" by (metis prod_cases3)
  obtain e2 w2 where s2: "encode_loop e1 p1 ops = (e2, w2)" by fastforce
  from Cons.prems(1) have ok: "op_ok op" "list_all op_ok ops" by auto
  from encode_op_decodes[OF ok(1) Cons.prems(2) s1] obtain paths1 where
    d1: "foldE decode_op (paths, previous, out) w1 = Inr (paths1, p1, out @ [op])" "dictionaries e1 paths1" by blast
  from Cons.IH[OF ok(2) d1(2) s2, of "out @ [op]"] d1(1) s1 s2 Cons.prems(3) show ?case
    by (auto simp: foldE_append)
qed auto

lemma encode_decodes:
  assumes "list_all op_ok ops" "dictionaries e paths \<or> isBase ops" "encode e ops = (e', ws)"
  shows "\<exists>paths'. decode paths ws = Inr (paths', ops) \<and> dictionaries e' paths'"
proof (cases "dictionaries e paths")
  case True
  from encode_loop_decodes[OF assms(1) True assms(3)[unfolded encode_def], of "[]"]
  show ?thesis by (auto simp: decode_def)
next
  case False
  with assms(2) obtain v rest where ops: "ops = OpR v # rest"
    by (auto simp: isBase_def elim: isReplace.elims split: list.splits)
  then have "encode e ops = encode new_encoder ops" by (simp add: encode_def encode_op_def)
  with encode_loop_decodes[OF assms(1) dictionaries_new, of None e' ws paths "[]"] assms(3)
  show ?thesis by (auto simp: decode_def encode_def)
qed

lemma encode_batches_decode:
  "list_all (list_all op_ok) bs \<Longrightarrow> dictionaries e paths \<or> (bs \<noteq> [] \<and> isBase (hd bs)) \<Longrightarrow>
    encode_batches e bs = (e', ws) \<Longrightarrow> decode_batches paths ws = Inr bs"
proof (induction bs arbitrary: e paths ws e')
  case (Cons b bs)
  obtain e1 w1 where s1: "encode e b = (e1, w1)" by fastforce
  obtain e2 w2 where s2: "encode_batches e1 bs = (e2, w2)" by fastforce
  from Cons.prems(1) have ok: "list_all op_ok b" "list_all (list_all op_ok) bs" by auto
  from encode_decodes[OF ok(1) _ s1, of paths] Cons.prems(2) obtain paths1 where
    d1: "decode paths w1 = Inr (paths1, b)" "dictionaries e1 paths1" by auto
  from Cons.IH[OF ok(2) _ s2] d1 s1 s2 Cons.prems(3) show ?case by auto
qed auto

lemma encode_batches_append:
  "encode_batches e (xs @ ys) =
    (let (e1, u) = encode_batches e xs; (e2, v) = encode_batches e1 ys in (e2, u @ v))"
  by (induction xs arbitrary: e) (auto simp: Let_def split: prod.splits)

lemma encode_batches_length: "encode_batches e bs = (e', ws) \<Longrightarrow> length ws = length bs"
  by (induction bs arbitrary: e e' ws) (auto split: prod.splits)

section \<open>Properties\<close>

text \<open>
  C6. The wire codec is lossless over a whole stream: any batches of valid operations, encoded with
  one encoder and decoded in order with one decoder, come back unchanged, through ids defined on a
  path's second use, omitted paths and the dictionary resets of base batches.
\<close>

theorem delta_codec_roundtrip:
  assumes "list_all (list_all op_ok) batches"
  shows "decode_batches new_decoder_paths (snd (encode_batches new_encoder batches)) = Inr batches"
  by (rule encode_batches_decode[OF assms disjI1[OF dictionaries_new] prod.collapse[symmetric]])

definition codec_sample :: "op list list" where
  "codec_sample =
     (let p = [SKey (js ''a''), SIdx (NInt 0)]; q = [SKey (js ''b'')]
      in [[OpR (JObj [])], [OpS p JNull, OpA q (js ''x''), OpA p (js ''y'')], [OpD p, OpT p (NInt 3), OpP [] (NInt 0) (NInt 1) []],
          [OpR JNull, OpS p JNull], [OpS p (JBool True)]])"

theorem delta_codec_roundtrip_witness:
  "decode_batches new_decoder_paths (snd (encode_batches new_encoder codec_sample)) = Inr codec_sample"
  by (rule delta_codec_roundtrip) code_simp

text \<open>
  A base batch is a recovery point: from any batch that begins with a replacement on, the wire
  batches decode with a fresh decoder to the operations that were encoded, however much was encoded
  before with the same encoder.
\<close>

theorem base_batch_recovers:
  assumes "list_all (list_all op_ok) (old @ base # later)" "isBase base"
  shows "decode_batches new_decoder_paths (drop (length old) (snd (encode_batches new_encoder (old @ base # later)))) =
    Inr (base # later)"
proof -
  obtain e1 u where s1: "encode_batches new_encoder old = (e1, u)" by fastforce
  obtain e2 v where s2: "encode_batches e1 (base # later) = (e2, v)" by fastforce
  have "decode_batches new_decoder_paths v = Inr (base # later)"
    by (rule encode_batches_decode[OF _ _ s2]) (use assms in auto)
  then show ?thesis
    using encode_batches_append[of new_encoder old "base # later"] s1 s2 encode_batches_length[OF s1]
    by (simp del: encode_batches.simps)
qed

theorem base_batch_recovers_witness:
  "decode_batches new_decoder_paths (drop 3 (snd (encode_batches new_encoder codec_sample))) = Inr (drop 3 codec_sample)"
proof -
  have c: "codec_sample = take 3 codec_sample @ (codec_sample ! 3) # drop 4 codec_sample" by code_simp
  have "list_all (list_all op_ok) (take 3 codec_sample @ (codec_sample ! 3) # drop 4 codec_sample)" by code_simp
  moreover have "isBase (codec_sample ! 3)" "length (take 3 codec_sample) = 3"
    "codec_sample ! 3 # drop 4 codec_sample = drop 3 codec_sample" by code_simp+
  ultimately show ?thesis using base_batch_recovers c by metis
qed

end
