(* ===== verification/SortedIds.thy ===== *)
theory SortedIds
  imports Prelude
begin

text \<open>
  The sorted id lists of \<open>packages/durable/src/memory-storage.ts\<close> (\<open>lowerBound\<close>, \<open>upperBound\<close>,
  \<open>insertSorted\<close>, \<open>removeSorted\<close>), the index interface they provide to the storage, and keyset paging
  over an ordered listing.
\<close>

section \<open>Binary search\<close>

text \<open>
  The loop of \<open>lowerBound\<close> and \<open>upperBound\<close>; \<open>goes_right\<close> is the comparison with the target. (A list
  has fewer than \<open>2 ^ 31\<close> ids, so the shift is a division.)
\<close>

function search :: "(int \<Rightarrow> bool) \<Rightarrow> int list \<Rightarrow> nat \<Rightarrow> nat \<Rightarrow> nat" where
  "search goes_right ids low high =
     (if low < high
      then let middle = (low + high) div 2
        in if goes_right (ids ! middle) then search goes_right ids (middle + 1) high
           else search goes_right ids low middle
      else low)"
  by pat_completeness auto
termination by (relation "measure (\<lambda>(p, ids, low, high). high - low)") auto

declare search.simps [simp del]

definition lowerBound :: "int list \<Rightarrow> int \<Rightarrow> nat" where
  "lowerBound ids target = search (\<lambda>x. x < target) ids 0 (length ids)"

text \<open>The target \<open>None\<close> is \<open>Number.POSITIVE_INFINITY\<close>.\<close>

definition upperBound :: "int list \<Rightarrow> int option \<Rightarrow> nat" where
  "upperBound ids target =
     search (\<lambda>x. case target of None \<Rightarrow> True | Some t \<Rightarrow> x \<le> t) ids 0 (length ids)"

definition insertSorted :: "int list \<Rightarrow> int \<Rightarrow> int list" where
  "insertSorted ids i =
     (if ids = [] \<or> last ids < i then ids @ [i] else splice_at ids (lowerBound ids i) 0 [i])"

definition removeSorted :: "int list \<Rightarrow> int \<Rightarrow> int list" where
  "removeSorted ids i =
     (let index = lowerBound ids i
      in if nth_opt ids index = Some i then splice_at ids index 1 [] else ids)"

abbreviation strict :: "int list \<Rightarrow> bool" where
  "strict ids \<equiv> sorted_wrt (<) ids"

lemma search_splits:
  assumes "low \<le> high" "high \<le> length ids" "strict ids" "\<And>x y. x < y \<Longrightarrow> p y \<Longrightarrow> p x"
    and "\<forall>i < low. p (ids ! i)" "\<forall>i. high \<le> i \<longrightarrow> i < length ids \<longrightarrow> \<not> p (ids ! i)"
  shows "search p ids low high \<le> length ids \<and>
    (\<forall>i < length ids. p (ids ! i) \<longleftrightarrow> i < search p ids low high)"
  using assms
proof (induction p ids low high rule: search.induct)
  case (1 p ids low high)
  show ?case
  proof (cases "low < high")
    case False
    then have "low = high" using 1(3) by simp
    moreover have "p (ids ! i) \<longleftrightarrow> i < high" if "i < length ids" for i
      using 1(7,8) that \<open>low = high\<close> by (cases "i < high") auto
    ultimately show ?thesis using 1(4) by (simp add: search.simps)
  next
    case True
    define m where "m = (low + high) div 2"
    have m: "low \<le> m" "m < high" using True by (auto simp: m_def)
    show ?thesis
    proof (cases "p (ids ! m)")
      case right: True
      have "\<forall>i < m + 1. p (ids ! i)"
        using 1(4-6) right m by (metis Suc_eq_plus1 less_Suc_eq order_less_le_trans sorted_wrt_nth_less)
      with 1(1)[OF True m_def right] 1(4-8) m True right show ?thesis
        by (subst (1 2) search.simps) (simp add: Let_def flip: m_def)
    next
      case left: False
      have "\<forall>i. m \<le> i \<longrightarrow> i < length ids \<longrightarrow> \<not> p (ids ! i)"
        using 1(5,6) left m by (metis le_neq_implies_less sorted_wrt_nth_less)
      with 1(2)[OF True m_def left] 1(4-8) m True left show ?thesis
        by (subst (1 2) search.simps) (simp add: Let_def flip: m_def)
    qed
  qed
qed

lemma lowerBound_splits:
  assumes "strict ids"
  shows "lowerBound ids t \<le> length ids" "i < length ids \<Longrightarrow> ids ! i < t \<longleftrightarrow> i < lowerBound ids t"
  using search_splits[of 0 "length ids" ids "\<lambda>x. x < t"] assms by (auto simp: lowerBound_def)

lemma upperBound_splits:
  assumes "strict ids"
  shows "upperBound ids t \<le> length ids"
    "i < length ids \<Longrightarrow> (case t of None \<Rightarrow> True | Some u \<Rightarrow> ids ! i \<le> u) \<longleftrightarrow> i < upperBound ids t"
  using search_splits[of 0 "length ids" ids "\<lambda>x. case t of None \<Rightarrow> True | Some u \<Rightarrow> x \<le> u"] assms
  by (auto simp: upperBound_def split: option.splits)

lemma split_filter:
  assumes "n \<le> length xs" "\<And>i. i < length xs \<Longrightarrow> p (xs ! i) \<longleftrightarrow> i < n"
  shows "take n xs = filter p xs" "drop n xs = filter (\<lambda>x. \<not> p x) xs"
proof -
  have a: "\<forall>x \<in> set (take n xs). p x"
    using assms by (auto simp: in_set_conv_nth dest: order_less_le_trans)
  have b: "\<not> p (drop n xs ! i)" if "i < length xs - n" for i
    using that assms(1) assms(2)[of "n + i"] by simp
  then have b: "\<forall>x \<in> set (drop n xs). \<not> p x" by (auto simp: in_set_conv_nth)
  have "filter p (take n xs @ drop n xs) = take n xs" "filter (\<lambda>x. \<not> p x) (take n xs @ drop n xs) = drop n xs"
    unfolding filter_append using a b by (auto simp: filter_empty_conv intro!: filter_True)
  then show "take n xs = filter p xs" "drop n xs = filter (\<lambda>x. \<not> p x) xs" by simp_all
qed

lemma lowerBound_parts:
  assumes "strict ids"
  shows "x \<in> set (take (lowerBound ids t) ids) \<longleftrightarrow> x \<in> set ids \<and> x < t"
    "x \<in> set (drop (lowerBound ids t) ids) \<longleftrightarrow> x \<in> set ids \<and> t \<le> x"
  using split_filter[of "lowerBound ids t" ids "\<lambda>x. x < t"] lowerBound_splits(2)[OF assms, of _ t]
    lowerBound_splits(1)[OF assms, of t] by (auto simp: not_less)

lemma upperBound_filter:
  assumes "strict ids"
  shows "take (upperBound ids (Some t)) ids = filter (\<lambda>x. x \<le> t) ids"
    "drop (upperBound ids (Some t)) ids = filter (\<lambda>x. t < x) ids" "upperBound ids None = length ids"
proof -
  note s = upperBound_splits(1)[OF assms, of "Some t"] upperBound_splits(2)[OF assms, of _ "Some t", simplified]
  show "take (upperBound ids (Some t)) ids = filter (\<lambda>x. x \<le> t) ids"
    "drop (upperBound ids (Some t)) ids = filter (\<lambda>x. t < x) ids"
    using split_filter[of "upperBound ids (Some t)" ids "\<lambda>x. x \<le> t", OF s] by (simp_all add: not_le)
  show "upperBound ids None = length ids"
    using upperBound_splits(1)[OF assms, of None] upperBound_splits(2)[OF assms, of "upperBound ids None" None]
    by (metis le_neq_implies_less nat_less_le option.simps(4))
qed

lemma insertSorted_strict:
  assumes "strict ids" "i \<notin> set ids"
  shows "strict (insertSorted ids i) \<and> set (insertSorted ids i) = insert i (set ids)"
proof (cases "ids = [] \<or> last ids < i")
  case True
  have "\<forall>x \<in> set ids. x < i"
  proof
    fix x assume x: "x \<in> set ids"
    then have "ids \<noteq> []" by auto
    moreover from this have "strict (butlast ids @ [last ids])" using assms(1) by simp
    ultimately have "x \<le> last ids"
      using x append_butlast_last_id[of ids] by (metis Un_iff empty_iff less_imp_le list.set(1) order_refl
          set_ConsD set_append sorted_wrt_append list.set_intros(1))
    with True \<open>ids \<noteq> []\<close> show "x < i" by auto
  qed
  then show ?thesis using True assms by (auto simp: insertSorted_def sorted_wrt_append)
next
  case False
  let ?n = "lowerBound ids i"
  note p = lowerBound_parts[OF assms(1), of _ i]
  have "sorted_wrt (<) (take ?n ids)" "sorted_wrt (<) (drop ?n ids)"
    using assms(1) by (simp_all add: sorted_wrt_take sorted_wrt_drop)
  moreover have "i < x" if "x \<in> set (drop ?n ids)" for x
    using that p(2) assms(2) by (metis order_le_imp_less_or_eq)
  ultimately have "strict (take ?n ids @ [i] @ drop ?n ids)"
    using p by (auto simp: sorted_wrt_append intro: less_trans)
  moreover have "set (take ?n ids @ [i] @ drop ?n ids) = insert i (set ids)"
    using set_append[of "take ?n ids" "drop ?n ids"] by auto
  ultimately show ?thesis using False by (simp add: insertSorted_def splice_at_def)
qed

lemma removeSorted_strict:
  assumes "strict ids" "i \<in> set ids"
  shows "strict (removeSorted ids i) \<and> set (removeSorted ids i) = set ids - {i}"
proof -
  let ?n = "lowerBound ids i"
  note p = lowerBound_parts[OF assms(1), of _ i]
  obtain j where j: "j < length ids" "ids ! j = i" using assms(2) by (auto simp: in_set_conv_nth)
  have "?n \<le> j" using lowerBound_splits(2)[OF assms(1) j(1), of i] j(2) by simp
  moreover have "\<not> ?n < j"
  proof
    assume "?n < j"
    then have "ids ! ?n < i" using sorted_wrt_nth_less[OF assms(1)] j by blast
    then show False using lowerBound_splits(2)[OF assms(1), of ?n i] \<open>?n < j\<close> j(1) by simp
  qed
  ultimately have n: "?n = j" by simp
  then have r: "removeSorted ids i = take j ids @ drop (Suc j) ids"
    using j by (simp add: removeSorted_def splice_at_def)
  have ids: "ids = take j ids @ i # drop (Suc j) ids" using j id_take_nth_drop by blast
  have s: "strict (take j ids @ i # drop (Suc j) ids)" using ids assms(1) by simp
  have "set ids = set (take j ids) \<union> {i} \<union> set (drop (Suc j) ids)"
    by (subst ids) auto
  then show ?thesis
    using s r by (auto simp: sorted_wrt_append)
qed

section \<open>The index interface\<close>

text \<open>
  What the storage needs of an index: it holds exactly the ids of which a property holds, in order,
  while ids are added and removed.
\<close>

locale id_index =
  fixes inv :: "int list \<Rightarrow> bool"
    and add remove :: "int list \<Rightarrow> int \<Rightarrow> int list"
  assumes inv_empty: "inv []"
    and add: "inv ids \<Longrightarrow> i \<notin> set ids \<Longrightarrow> inv (add ids i) \<and> set (add ids i) = insert i (set ids)"
    and remove: "inv ids \<Longrightarrow> i \<in> set ids \<Longrightarrow> inv (remove ids i) \<and> set (remove ids i) = set ids - {i}"
begin

definition tracks :: "int list \<Rightarrow> (int \<Rightarrow> bool) \<Rightarrow> bool" where
  "tracks ids P \<longleftrightarrow> inv ids \<and> (\<forall>i. i \<in> set ids \<longleftrightarrow> P i)"

lemma tracks_empty: "(\<And>i. \<not> P i) \<Longrightarrow> tracks [] P"
  by (simp add: tracks_def inv_empty)

lemma tracks_add: "tracks ids P \<Longrightarrow> \<not> P i \<Longrightarrow> (\<And>j. Q j \<longleftrightarrow> j = i \<or> P j) \<Longrightarrow> tracks (add ids i) Q"
  using add[of ids i] by (auto simp: tracks_def)

lemma tracks_remove: "tracks ids P \<Longrightarrow> P i \<Longrightarrow> (\<And>j. Q j \<longleftrightarrow> j \<noteq> i \<and> P j) \<Longrightarrow> tracks (remove ids i) Q"
  using remove[of ids i] by (auto simp: tracks_def)

lemma tracks_cong: "tracks ids P \<Longrightarrow> (\<And>i. Q i \<longleftrightarrow> P i) \<Longrightarrow> tracks ids Q"
  by (simp add: tracks_def)

end

interpretation ix: id_index strict insertSorted removeSorted
  by unfold_locales (auto simp: insertSorted_strict removeSorted_strict)

end
