(* ===== verification/DurableStorage.thy ===== *)
theory DurableStorage
  imports SortedIds Json
begin

text \<open>
  \<open>packages/durable/src/memory-storage.ts\<close> with the records of \<open>types.ts\<close>: the reference storage of
  durable sessions, its atomic commit, its indexes and its scans. An operation runs from its call to
  its return without interleaving (no method awaits), so it is a function on the state. Values are
  detached by cloning, which values here are by construction. Ids are safe integers.
\<close>

section \<open>Records (types.ts)\<close>

type_synonym id = int

record conversation =
  c_id :: id
  c_parent :: "(id \<times> id) option"      \<comment> \<open>source conversation, inclusive parent entry\<close>
  c_owner :: "(id \<times> id) option"

record entry =
  e_id :: id
  e_conversationId :: id
  e_kind :: jstr
  e_model :: "json list option"
  e_data :: "json option"
  e_head :: "id option"
  e_edits :: "json list option"
  e_byTaskId :: "id option"

datatype input_state =
    Queued
  | Placed id
  | Done id "id option"
  | Unanswered "id option" jstr "json option"

record input =
  i_id :: id
  i_conversationId :: id
  i_requestId :: "jstr option"
  i_state :: input_state

datatype task_outcome =
    Completed json
  | TaskFailed json "json option"
  | Aborted "jstr option" "json option"
  | Orphaned jstr
  | Faulted json

datatype task_status = Pending | Running | Terminal

datatype task_state = TPending json | TRunning json | TTerminal task_outcome

fun status_of :: "task_state \<Rightarrow> task_status" where
  "status_of (TPending c) = Pending"
| "status_of (TRunning c) = Running"
| "status_of (TTerminal r) = Terminal"

record task =
  t_id :: id
  t_conversationId :: id
  t_kind :: jstr
  t_version :: int
  t_input :: json
  t_after :: "id list"
  t_background :: bool
  t_abortRequested :: bool
  t_state :: task_state
  t_memos :: "json option"

datatype storage_write =
    WConversation conversation
  | WEntry entry
  | WTask task
  | WInput input

datatype table = ConversationTable | EntryTable | TaskTable | InputTable

fun write_id :: "storage_write \<Rightarrow> id" where
  "write_id (WConversation c) = c_id c"
| "write_id (WEntry e) = e_id e"
| "write_id (WTask t) = t_id t"
| "write_id (WInput i) = i_id i"

fun write_table :: "storage_write \<Rightarrow> table" where
  "write_table (WConversation c) = ConversationTable"
| "write_table (WEntry e) = EntryTable"
| "write_table (WTask t) = TaskTable"
| "write_table (WInput i) = InputTable"

section \<open>State\<close>

record storage =
  conversations :: "id \<Rightarrow> conversation option"
  conversationIds :: "id list"
  entries :: "id \<Rightarrow> entry option"
  entryIds :: "id \<Rightarrow> id list option"
  headEntryIds :: "id \<Rightarrow> id list option"
  entryCommitSeqs :: "id \<Rightarrow> nat option"
  tasks :: "id \<Rightarrow> task option"
  taskIds :: "id list"
  taskIdsByStatus :: "task_status \<Rightarrow> id list"
  inputs :: "id \<Rightarrow> input option"
  inputIdsByRequest :: "id \<Rightarrow> (jstr \<times> id) list option"
  st_nextId :: int
  st_nextSeq :: nat
  st_closed :: bool

definition new_storage :: storage where
  "new_storage = \<lparr>conversations = Map.empty, conversationIds = [], entries = Map.empty, entryIds = Map.empty,
     headEntryIds = Map.empty, entryCommitSeqs = Map.empty, tasks = Map.empty, taskIds = [],
     taskIdsByStatus = (\<lambda>_. []), inputs = Map.empty, inputIdsByRequest = Map.empty,
     st_nextId = 2, st_nextSeq = 1, st_closed = False\<rparr>"

datatype storage_error =
    StorageClosed
  | BelongsTo id table
  | WrittenMoreThanOnce id
  | WrittenAsTwoTypes id
  | IdsExhausted
  | UnknownConversation id

definition assertOpen :: "storage \<Rightarrow> storage_error + unit" where
  "assertOpen s = (if st_closed s then Inl StorageClosed else Inr ())"

section \<open>Commit\<close>

definition tableContaining :: "storage \<Rightarrow> id \<Rightarrow> table option" where
  "tableContaining s i =
     (if conversations s i \<noteq> None then Some ConversationTable
      else if entries s i \<noteq> None then Some EntryTable
      else if tasks s i \<noteq> None then Some TaskTable
      else if inputs s i \<noteq> None then Some InputTable
      else None)"

text \<open>One write of the loop of \<open>checkImmutableIds\<close>; \<open>claimed\<close> is the map it fills.\<close>

definition check_write ::
    "storage \<Rightarrow> (id \<Rightarrow> table option) \<Rightarrow> storage_write \<Rightarrow> storage_error + (id \<Rightarrow> table option)" where
  "check_write s claimed w =
     (let table = write_table w; i = write_id w; existing = tableContaining s i; earlier = claimed i in
      bindE
        (if table = ConversationTable \<or> table = EntryTable then
           (case existing of
              Some t \<Rightarrow> Inl (BelongsTo i t)
            | None \<Rightarrow> if earlier \<noteq> None then Inl (WrittenMoreThanOnce i) else Inr ())
         else if existing \<noteq> None \<and> existing \<noteq> Some table then Inl (BelongsTo i (the existing))
         else if earlier \<noteq> None \<and> earlier \<noteq> Some table then Inl (WrittenAsTwoTypes i)
         else Inr ())
        (\<lambda>_. Inr (claimed(i \<mapsto> table))))"

definition checkImmutableIds :: "storage \<Rightarrow> storage_write list \<Rightarrow> storage_error + unit" where
  "checkImmutableIds s ws = bindE (foldE (check_write s) Map.empty ws) (\<lambda>_. Inr ())"

definition ids_of :: "(id \<Rightarrow> id list option) \<Rightarrow> id \<Rightarrow> id list" where
  "ids_of m c = (case m c of None \<Rightarrow> [] | Some ids \<Rightarrow> ids)"

definition write_conversation :: "conversation \<Rightarrow> storage \<Rightarrow> storage" where
  "write_conversation c s =
     s\<lparr>conversations := (conversations s)(c_id c \<mapsto> c),
       conversationIds := insertSorted (conversationIds s) (c_id c)\<rparr>"

definition write_entry :: "nat \<Rightarrow> entry \<Rightarrow> storage \<Rightarrow> storage" where
  "write_entry seq e s =
     (let s = s\<lparr>entries := (entries s)(e_id e \<mapsto> e), entryCommitSeqs := (entryCommitSeqs s)(e_id e \<mapsto> seq)\<rparr>;
          ids = ids_of (entryIds s) (e_conversationId e);
          s = s\<lparr>entryIds := (entryIds s)(e_conversationId e \<mapsto> insertSorted ids (e_id e))\<rparr>
      in if e_head e \<noteq> None
         then let headIds = ids_of (headEntryIds s) (e_conversationId e)
           in s\<lparr>headEntryIds := (headEntryIds s)(e_conversationId e \<mapsto> insertSorted headIds (e_id e))\<rparr>
         else s)"

definition by_status_update :: "(id list \<Rightarrow> id list) \<Rightarrow> task_status \<Rightarrow> storage \<Rightarrow> storage" where
  "by_status_update f st s = s\<lparr>taskIdsByStatus := (taskIdsByStatus s)(st := f (taskIdsByStatus s st))\<rparr>"

definition write_task :: "task \<Rightarrow> storage \<Rightarrow> storage" where
  "write_task t s =
     (let new = status_of (t_state t);
          s = (case tasks s (t_id t) of
            None \<Rightarrow> by_status_update (\<lambda>ids. insertSorted ids (t_id t)) new
              (s\<lparr>taskIds := insertSorted (taskIds s) (t_id t)\<rparr>)
          | Some previous \<Rightarrow>
              (let old = status_of (t_state previous)
               in if old \<noteq> new
                  then by_status_update (\<lambda>ids. insertSorted ids (t_id t)) new
                    (by_status_update (\<lambda>ids. removeSorted ids (t_id t)) old s)
                  else s))
      in s\<lparr>tasks := (tasks s)(t_id t \<mapsto> t)\<rparr>)"

definition drop_request :: "input \<Rightarrow> id \<Rightarrow> storage \<Rightarrow> storage" where
  "drop_request previous i s =
     (case i_requestId previous of
        None \<Rightarrow> s
      | Some r \<Rightarrow>
          (case inputIdsByRequest s (i_conversationId previous) of
             None \<Rightarrow> s
           | Some requests \<Rightarrow>
               if map_of requests r = Some i
               then let requests = AList.delete r requests
                 in s\<lparr>inputIdsByRequest := (inputIdsByRequest s)(i_conversationId previous :=
                      (if requests = [] then None else Some requests))\<rparr>
               else s))"

definition write_input :: "input \<Rightarrow> storage \<Rightarrow> storage" where
  "write_input v s =
     (let s = (case inputs s (i_id v) of None \<Rightarrow> s | Some previous \<Rightarrow> drop_request previous (i_id v) s);
          s = s\<lparr>inputs := (inputs s)(i_id v \<mapsto> v)\<rparr>
      in case i_requestId v of
           None \<Rightarrow> s
         | Some r \<Rightarrow>
             (let requests = (case inputIdsByRequest s (i_conversationId v) of None \<Rightarrow> [] | Some m \<Rightarrow> m)
              in s\<lparr>inputIdsByRequest :=
                   (inputIdsByRequest s)(i_conversationId v \<mapsto> AList.update r (i_id v) requests)\<rparr>))"

definition apply_write :: "nat \<Rightarrow> storage_write \<Rightarrow> storage \<Rightarrow> storage" where
  "apply_write seq w s =
     (let s = (case w of
            WConversation c \<Rightarrow> write_conversation c s
          | WEntry e \<Rightarrow> write_entry seq e s
          | WTask t \<Rightarrow> write_task t s
          | WInput i \<Rightarrow> write_input i s)
      in s\<lparr>st_nextId := max (st_nextId s) (write_id w + 1)\<rparr>)"

definition commit :: "storage \<Rightarrow> storage_write list \<Rightarrow> storage_error + (storage \<times> nat)" where
  "commit s writes =
     bindE (assertOpen s) (\<lambda>_.
     bindE (checkImmutableIds s writes) (\<lambda>_.
       let seq = st_nextSeq s;
           s = fold (apply_write seq) writes s
       in Inr (s\<lparr>st_nextSeq := st_nextSeq s + 1\<rparr>, seq)))"

definition MAX_SAFE_ID :: int where "MAX_SAFE_ID = 2 ^ 53 - 1"

definition mintId :: "storage \<Rightarrow> storage_error + (storage \<times> id)" where
  "mintId s =
     bindE (assertOpen s) (\<lambda>_.
       if st_nextId s > MAX_SAFE_ID then Inl IdsExhausted
       else Inr (s\<lparr>st_nextId := st_nextId s + 1\<rparr>, st_nextId s))"

section \<open>Reads\<close>

record 'a page =
  items :: "'a list"
  next_after :: "id option"

definition page_of :: "('a \<Rightarrow> id) \<Rightarrow> 'a list \<Rightarrow> nat \<Rightarrow> 'a page" where
  "page_of key vs limit =
     (let is = take limit vs
      in if length vs \<le> limit then \<lparr>items = is, next_after = None\<rparr>
         else \<lparr>items = is, next_after = Some (key (last is))\<rparr>)"

text \<open>The ids after a cursor, in ascending order.\<close>

definition after_cursor :: "id list \<Rightarrow> id option \<Rightarrow> id list" where
  "after_cursor ids cursor =
     drop (case cursor of None \<Rightarrow> 0 | Some a \<Rightarrow> upperBound ids (Some a)) ids"

definition conversation_of :: "storage \<Rightarrow> id \<Rightarrow> storage_error + conversation option" where
  "conversation_of s i = bindE (assertOpen s) (\<lambda>_. Inr (conversations s i))"

definition scanConversations :: "storage \<Rightarrow> id option \<Rightarrow> nat \<Rightarrow> storage_error + conversation page" where
  "scanConversations s cursor limit =
     bindE (assertOpen s) (\<lambda>_.
       let values = map (\<lambda>i. the (conversations s i)) (take (limit + 1) (after_cursor (conversationIds s) cursor))
       in Inr (page_of c_id values limit))"

definition entry_of :: "storage \<Rightarrow> id \<Rightarrow> storage_error + (entry \<times> nat) option" where
  "entry_of s i = bindE (assertOpen s) (\<lambda>_.
     Inr (case entries s i of None \<Rightarrow> None | Some e \<Rightarrow> Some (e, the (entryCommitSeqs s i))))"

text \<open>\<open>Math.min\<close> of an upper bound that may be infinite with a finite one.\<close>

definition min_bound :: "id option \<Rightarrow> id \<Rightarrow> id option" where
  "min_bound upper at = Some (case upper of None \<Rightarrow> at | Some u \<Rightarrow> min u at)"

text \<open>
  The walks over the ancestry are \<open>while (true)\<close>: the fuel bounds the number of conversations
  visited, and \<open>None\<close> is a walk that has not ended (or a missing ancestor, where the code throws).
\<close>

fun head_walk :: "nat \<Rightarrow> storage \<Rightarrow> id \<Rightarrow> id option \<Rightarrow> entry option option" where
  "head_walk 0 s current upper = None"
| "head_walk (Suc fuel) s current upper =
     (let ids = ids_of (headEntryIds s) current;
          n = upperBound ids upper
      in if n > 0 then Some (entries s (ids ! (n - 1)))
         else case conversations s current of
           None \<Rightarrow> None
         | Some c \<Rightarrow>
             (case c_parent c of
                None \<Rightarrow> Some None
              | Some (parent, at) \<Rightarrow> head_walk fuel s parent (min_bound upper at)))"

definition findLatestHeadMarker ::
    "nat \<Rightarrow> storage \<Rightarrow> id \<Rightarrow> id option \<Rightarrow> (storage_error + entry option) option" where
  "findLatestHeadMarker fuel s c upper =
     (case assertOpen s of
        Inl e \<Rightarrow> Some (Inl e)
      | Inr _ \<Rightarrow>
          if conversations s c = None then Some (Inl (UnknownConversation c))
          else map_option Inr (head_walk fuel s c upper))"

text \<open>
  The generator \<open>visibleEntries\<close>, as the list of everything it yields. \<open>lower\<close> is \<open>minEntryId\<close>, with
  \<open>None\<close> for minus infinity.
\<close>

definition at_least :: "id option \<Rightarrow> id \<Rightarrow> bool" where
  "at_least lower i = (case lower of None \<Rightarrow> True | Some l \<Rightarrow> l \<le> i)"

definition own_segment :: "storage \<Rightarrow> id \<Rightarrow> id option \<Rightarrow> id option \<Rightarrow> entry list" where
  "own_segment s current lower upper =
     (let ids = ids_of (entryIds s) current
      in map (\<lambda>i. the (entries s i)) (takeWhile (at_least lower) (rev (take (upperBound ids upper) ids))))"

fun visible_walk :: "nat \<Rightarrow> storage \<Rightarrow> id \<Rightarrow> id option \<Rightarrow> id option \<Rightarrow> entry list option" where
  "visible_walk 0 s current lower upper = None"
| "visible_walk (Suc fuel) s current lower upper =
     (let own = own_segment s current lower upper
      in case conversations s current of
           None \<Rightarrow> None
         | Some c \<Rightarrow>
             (case c_parent c of
                None \<Rightarrow> Some own
              | Some (parent, at) \<Rightarrow>
                  (let upper = min_bound upper at
                   in if \<not> at_least lower (the upper) then Some own
                      else map_option ((@) own) (visible_walk fuel s parent lower upper))))"

definition scanEntries ::
    "nat \<Rightarrow> storage \<Rightarrow> id \<times> id option \<times> id option \<Rightarrow> id option \<Rightarrow> nat \<Rightarrow> (storage_error + entry page) option" where
  "scanEntries fuel s query cursor limit =
     (case assertOpen s of
        Inl e \<Rightarrow> Some (Inl e)
      | Inr _ \<Rightarrow>
          (case query of (conv, minEntryId, maxEntryId) \<Rightarrow>
            let upper = (case cursor of None \<Rightarrow> maxEntryId | Some a \<Rightarrow> min_bound maxEntryId (a - 1))
            in if conversations s conv = None then Some (Inl (UnknownConversation conv))
               else map_option (\<lambda>es. Inr (page_of e_id (take (limit + 1) es) limit))
                 (visible_walk fuel s conv minEntryId upper)))"

record task_query =
  q_conversationId :: "id option"
  q_kind :: "jstr option"
  q_status :: "task_status option"
  q_abortRequested :: "bool option"
  q_background :: "bool option"

definition differs :: "'a option \<Rightarrow> 'a \<Rightarrow> bool" where
  "differs q v = (case q of None \<Rightarrow> False | Some x \<Rightarrow> v \<noteq> x)"

definition task_matches :: "task_query \<Rightarrow> task \<Rightarrow> bool" where
  "task_matches q t =
     (\<not> differs (q_conversationId q) (t_conversationId t) \<and> \<not> differs (q_kind q) (t_kind t) \<and>
      \<not> differs (q_abortRequested q) (t_abortRequested t) \<and> \<not> differs (q_background q) (t_background t))"

fun collect_tasks :: "storage \<Rightarrow> task_query \<Rightarrow> nat \<Rightarrow> id list \<Rightarrow> task list \<Rightarrow> task list" where
  "collect_tasks s q limit [] vs = vs"
| "collect_tasks s q limit (i # is) vs =
     (if length vs \<le> limit
      then let v = the (tasks s i)
        in collect_tasks s q limit is (if task_matches q v then vs @ [v] else vs)
      else vs)"

definition query_ids :: "storage \<Rightarrow> task_query \<Rightarrow> id list" where
  "query_ids s q = (case q_status q of None \<Rightarrow> taskIds s | Some st \<Rightarrow> taskIdsByStatus s st)"

definition scanTasks :: "storage \<Rightarrow> task_query \<Rightarrow> id option \<Rightarrow> nat \<Rightarrow> storage_error + task page" where
  "scanTasks s q cursor limit =
     bindE (assertOpen s) (\<lambda>_.
       Inr (page_of t_id (collect_tasks s q limit (after_cursor (query_ids s q) cursor) []) limit))"

definition task_of :: "storage \<Rightarrow> id \<Rightarrow> storage_error + task option" where
  "task_of s i = bindE (assertOpen s) (\<lambda>_. Inr (tasks s i))"

definition input_of :: "storage \<Rightarrow> id \<Rightarrow> storage_error + input option" where
  "input_of s i = bindE (assertOpen s) (\<lambda>_. Inr (inputs s i))"

definition inputByRequest :: "storage \<Rightarrow> id \<Rightarrow> jstr \<Rightarrow> storage_error + input option" where
  "inputByRequest s c r =
     bindE (assertOpen s) (\<lambda>_.
       Inr (case inputIdsByRequest s c of
              None \<Rightarrow> None
            | Some requests \<Rightarrow> (case map_of requests r of None \<Rightarrow> None | Some i \<Rightarrow> inputs s i)))"

definition close_storage :: "storage \<Rightarrow> storage" where
  "close_storage s = s\<lparr>st_closed := True\<rparr>"

end
