(* ===== verification/DurableInvariant.thy ===== *)
theory DurableInvariant
  imports DurableStorage
begin

text \<open>
  The invariant of the durable storage: every index lists exactly the ids it is the index of, in
  order; an id belongs to one table for ever; ids are minted fresh. Every commit preserves it.
\<close>

section \<open>The invariant\<close>

fun in_table :: "storage \<Rightarrow> table \<Rightarrow> id \<Rightarrow> bool" where
  "in_table s ConversationTable i = (conversations s i \<noteq> None)"
| "in_table s EntryTable i = (entries s i \<noteq> None)"
| "in_table s TaskTable i = (tasks s i \<noteq> None)"
| "in_table s InputTable i = (inputs s i \<noteq> None)"

definition conversation_index :: "storage \<Rightarrow> bool" where
  "conversation_index s \<longleftrightarrow>
     ix.tracks (conversationIds s) (\<lambda>i. conversations s i \<noteq> None) \<and>
     (\<forall>i c. conversations s i = Some c \<longrightarrow> c_id c = i)"

definition entry_index :: "storage \<Rightarrow> bool" where
  "entry_index s \<longleftrightarrow>
     (\<forall>c. ix.tracks (ids_of (entryIds s) c) (\<lambda>i. \<exists>e. entries s i = Some e \<and> e_conversationId e = c)) \<and>
     (\<forall>c. ix.tracks (ids_of (headEntryIds s) c)
        (\<lambda>i. \<exists>e. entries s i = Some e \<and> e_conversationId e = c \<and> e_head e \<noteq> None)) \<and>
     (\<forall>i e. entries s i = Some e \<longrightarrow> e_id e = i \<and> (\<exists>q. entryCommitSeqs s i = Some q \<and> q \<le> st_nextSeq s))"

definition task_index :: "storage \<Rightarrow> bool" where
  "task_index s \<longleftrightarrow>
     ix.tracks (taskIds s) (\<lambda>i. tasks s i \<noteq> None) \<and>
     (\<forall>st. ix.tracks (taskIdsByStatus s st) (\<lambda>i. \<exists>t. tasks s i = Some t \<and> status_of (t_state t) = st)) \<and>
     (\<forall>i t. tasks s i = Some t \<longrightarrow> t_id t = i)"

definition request_index :: "storage \<Rightarrow> bool" where
  "request_index s \<longleftrightarrow>
     (\<forall>c m. inputIdsByRequest s c = Some m \<longrightarrow> m \<noteq> [] \<and> distinct (map fst m) \<and>
        (\<forall>r i. map_of m r = Some i \<longrightarrow>
           (\<exists>v. inputs s i = Some v \<and> i_conversationId v = c \<and> i_requestId v = Some r))) \<and>
     (\<forall>i v. inputs s i = Some v \<longrightarrow> i_id v = i)"

definition id_ownership :: "storage \<Rightarrow> bool" where
  "id_ownership s \<longleftrightarrow>
     (\<forall>i t t'. in_table s t i \<longrightarrow> in_table s t' i \<longrightarrow> t = t') \<and>
     (\<forall>i t. in_table s t i \<longrightarrow> i < st_nextId s)"

definition storage_inv :: "storage \<Rightarrow> bool" where
  "storage_inv s \<longleftrightarrow> conversation_index s \<and> entry_index s \<and> task_index s \<and> request_index s \<and> id_ownership s"

lemmas storage_inv_defs = storage_inv_def conversation_index_def entry_index_def task_index_def
  request_index_def id_ownership_def

lemma new_storage_inv: "storage_inv new_storage"
proof -
  have "in_table new_storage t i = False" for t i by (cases t) (simp_all add: new_storage_def)
  then show ?thesis
    by (auto simp: storage_inv_defs ids_of_def new_storage_def intro!: ix.tracks_empty)
qed

section \<open>Every write preserves the invariant\<close>

text \<open>What \<open>checkImmutableIds\<close> establishes for a write at the moment it is made.\<close>

definition allowed :: "storage_write \<Rightarrow> storage \<Rightarrow> bool" where
  "allowed w s \<longleftrightarrow> (\<forall>t. in_table s t (write_id w) \<longrightarrow>
     t = write_table w \<and> t \<noteq> ConversationTable \<and> t \<noteq> EntryTable)"

lemma conversation_kept:
  assumes "storage_inv s" "conversations s (c_id c) = None"
  shows "conversation_index (write_conversation c s)"
  using assms by (auto simp: storage_inv_def conversation_index_def write_conversation_def intro: ix.tracks_add)

lemma entry_fields [simp]:
  "entries (write_entry q e s) = (entries s)(e_id e \<mapsto> e)"
  "entryCommitSeqs (write_entry q e s) = (entryCommitSeqs s)(e_id e \<mapsto> q)"
  "st_nextSeq (write_entry q e s) = st_nextSeq s"
  "ids_of (entryIds (write_entry q e s)) c =
     (if c = e_conversationId e then insertSorted (ids_of (entryIds s) c) (e_id e) else ids_of (entryIds s) c)"
  "ids_of (headEntryIds (write_entry q e s)) c =
     (if c = e_conversationId e \<and> e_head e \<noteq> None then insertSorted (ids_of (headEntryIds s) c) (e_id e)
      else ids_of (headEntryIds s) c)"
  by (auto simp: write_entry_def Let_def ids_of_def)

lemma entry_kept:
  assumes "entry_index s" "entries s (e_id e) = None" "q = st_nextSeq s"
  shows "entry_index (write_entry q e s)"
proof -
  note i = assms(1)[unfolded entry_index_def]
  have "ix.tracks (ids_of (entryIds (write_entry q e s)) c)
      (\<lambda>i. \<exists>x. entries (write_entry q e s) i = Some x \<and> e_conversationId x = c)" for c
    using i assms(2) by (cases "c = e_conversationId e") (auto intro: ix.tracks_add ix.tracks_cong)
  moreover have "ix.tracks (ids_of (headEntryIds (write_entry q e s)) c)
      (\<lambda>i. \<exists>x. entries (write_entry q e s) i = Some x \<and> e_conversationId x = c \<and> e_head x \<noteq> None)" for c
    using i assms(2) by (cases "c = e_conversationId e \<and> e_head e \<noteq> None") (auto intro: ix.tracks_add ix.tracks_cong)
  ultimately show ?thesis
    using i assms(3) by (auto simp: entry_index_def)
qed

lemma task_fields [simp]:
  "tasks (write_task t s) = (tasks s)(t_id t \<mapsto> t)"
  "taskIds (write_task t s) = (if tasks s (t_id t) = None then insertSorted (taskIds s) (t_id t) else taskIds s)"
  "taskIdsByStatus (write_task t s) st =
     (case tasks s (t_id t) of
        None \<Rightarrow> if st = status_of (t_state t) then insertSorted (taskIdsByStatus s st) (t_id t) else taskIdsByStatus s st
      | Some p \<Rightarrow>
          if status_of (t_state p) = status_of (t_state t) then taskIdsByStatus s st
          else if st = status_of (t_state t) then insertSorted (taskIdsByStatus s st) (t_id t)
          else if st = status_of (t_state p) then removeSorted (taskIdsByStatus s st) (t_id t)
          else taskIdsByStatus s st)"
  by (auto simp: write_task_def Let_def by_status_update_def split: option.splits)

lemma task_kept:
  assumes "task_index s"
  shows "task_index (write_task t s)"
proof -
  note i = assms[unfolded task_index_def]
  have "ix.tracks (taskIds (write_task t s)) (\<lambda>i. tasks (write_task t s) i \<noteq> None)"
    using i by (auto intro: ix.tracks_add ix.tracks_cong)
  moreover have "ix.tracks (taskIdsByStatus (write_task t s) st)
      (\<lambda>i. \<exists>u. tasks (write_task t s) i = Some u \<and> status_of (t_state u) = st)" for st
  proof (cases "tasks s (t_id t)")
    case None
    then show ?thesis using i by (auto intro: ix.tracks_add ix.tracks_cong)
  next
    case (Some p)
    then show ?thesis using i by (auto intro: ix.tracks_add ix.tracks_remove ix.tracks_cong)
  qed
  ultimately show ?thesis using i by (auto simp: task_index_def)
qed

text \<open>The requests of an input are gone before its new record is stored.\<close>

definition requests_of_others :: "storage \<Rightarrow> id \<Rightarrow> bool" where
  "requests_of_others s k \<longleftrightarrow>
     (\<forall>c m. inputIdsByRequest s c = Some m \<longrightarrow> m \<noteq> [] \<and> distinct (map fst m) \<and>
        (\<forall>r i. map_of m r = Some i \<longrightarrow> i \<noteq> k \<and>
           (\<exists>v. inputs s i = Some v \<and> i_conversationId v = c \<and> i_requestId v = Some r)))"

lemma request_indexD:
  assumes "request_index s" "inputIdsByRequest s c = Some m"
  shows "m \<noteq> []" "distinct (map fst m)"
    "map_of m r = Some i \<Longrightarrow> \<exists>v. inputs s i = Some v \<and> i_conversationId v = c \<and> i_requestId v = Some r"
  using assms unfolding request_index_def by blast+

lemma requests_of_othersI:
  assumes "\<And>c m. inputIdsByRequest s c = Some m \<Longrightarrow> m \<noteq> [] \<and> distinct (map fst m)"
    and "\<And>c m r i. inputIdsByRequest s c = Some m \<Longrightarrow> map_of m r = Some i \<Longrightarrow>
      i \<noteq> k \<and> (\<exists>v. inputs s i = Some v \<and> i_conversationId v = c \<and> i_requestId v = Some r)"
  shows "requests_of_others s k"
  using assms unfolding requests_of_others_def by blast

lemma drop_request_others:
  assumes "request_index s" "inputs s k = Some p"
  shows "requests_of_others (drop_request p k s) k" "inputs (drop_request p k s) = inputs s"
proof -
  note d = request_indexD[OF assms(1)]
  show inp: "inputs (drop_request p k s) = inputs s"
    by (auto simp: drop_request_def Let_def split: option.splits)
  have others: "i \<noteq> k \<and> (\<exists>v. inputs s i = Some v \<and> i_conversationId v = c \<and> i_requestId v = Some r)"
    if "inputIdsByRequest s c = Some m" "map_of m r = Some i" "c \<noteq> i_conversationId p \<or> i_requestId p \<noteq> Some r \<or> i \<noteq> k"
    for c m r i
    using d(3)[OF that(1,2)] that(3) assms(2) by auto
  show "requests_of_others (drop_request p k s) k"
  proof (cases "\<exists>r m. i_requestId p = Some r \<and> inputIdsByRequest s (i_conversationId p) = Some m \<and> map_of m r = Some k")
    case False
    then have same: "drop_request p k s = s"
      by (auto simp: drop_request_def split: option.splits)
    show ?thesis
      unfolding same using False d(1,2) others by (intro requests_of_othersI) blast+
  next
    case True
    then obtain r m where m: "i_requestId p = Some r" "inputIdsByRequest s (i_conversationId p) = Some m" "map_of m r = Some k"
      by blast
    then have new: "inputIdsByRequest (drop_request p k s) c =
        (if c = i_conversationId p then (if AList.delete r m = [] then None else Some (AList.delete r m))
         else inputIdsByRequest s c)" for c
      by (simp add: drop_request_def Let_def)
    show ?thesis
    proof (rule requests_of_othersI)
      fix c m'
      assume "inputIdsByRequest (drop_request p k s) c = Some m'"
      then show "m' \<noteq> [] \<and> distinct (map fst m')"
        using d(1,2) m(2) by (auto simp: new distinct_delete split: if_splits)
    next
      fix c m' r' i
      assume c: "inputIdsByRequest (drop_request p k s) c = Some m'" "map_of m' r' = Some i"
      show "i \<noteq> k \<and> (\<exists>v. inputs (drop_request p k s) i = Some v \<and> i_conversationId v = c \<and> i_requestId v = Some r')"
      proof (cases "c = i_conversationId p")
        case True
        then have "m' = AList.delete r m" using c(1) by (simp add: new split: if_splits)
        then have "map_of m r' = Some i" "r' \<noteq> r" using c(2) by (auto simp: delete_conv' split: if_splits)
        then show ?thesis using others[of c m r' i] True m inp by auto
      next
        case False
        then show ?thesis using c others[of c m' r' i] inp by (simp add: new)
      qed
    qed
  qed
qed

lemma requests_of_othersD:
  assumes "requests_of_others s k" "inputIdsByRequest s c = Some m"
  shows "m \<noteq> []" "distinct (map fst m)"
    "map_of m r = Some i \<Longrightarrow> i \<noteq> k \<and> (\<exists>v. inputs s i = Some v \<and> i_conversationId v = c \<and> i_requestId v = Some r)"
  using assms unfolding requests_of_others_def by blast+

lemma input_kept:
  assumes "request_index s"
  shows "request_index (write_input v s)"
proof -
  let ?k = "i_id v"
  define s1 where "s1 = (case inputs s ?k of None \<Rightarrow> s | Some p \<Rightarrow> drop_request p ?k s)"
  have ids: "\<And>i u. inputs s i = Some u \<Longrightarrow> i_id u = i" using assms by (auto simp: request_index_def)
  have "requests_of_others s1 ?k \<and> inputs s1 = inputs s"
  proof (cases "inputs s ?k")
    case None
    then have same: "s1 = s" by (simp add: s1_def)
    have "requests_of_others s ?k"
    proof (rule requests_of_othersI)
      fix c m r i
      assume "inputIdsByRequest s c = Some m" "map_of m r = Some i"
      from request_indexD(3)[OF assms this] None
      show "i \<noteq> ?k \<and> (\<exists>v. inputs s i = Some v \<and> i_conversationId v = c \<and> i_requestId v = Some r)" by auto
    qed (use request_indexD(1,2)[OF assms] in blast)
    then show ?thesis by (simp add: same)
  next
    case (Some p)
    then show ?thesis
      using drop_request_others[OF assms Some] by (simp add: s1_def)
  qed
  then have s1: "requests_of_others s1 ?k" "inputs s1 = inputs s" by auto
  note d = requests_of_othersD[OF s1(1)]
  let ?w = "write_input v s"
  let ?m = "case inputIdsByRequest s1 (i_conversationId v) of None \<Rightarrow> [] | Some m \<Rightarrow> m"
  have inp: "inputs ?w = (inputs s)(?k \<mapsto> v)"
    using s1(2) by (simp add: write_input_def Let_def s1_def split: option.splits)
  have new: "inputIdsByRequest ?w c = (case i_requestId v of
      None \<Rightarrow> inputIdsByRequest s1 c
    | Some r \<Rightarrow> if c = i_conversationId v then Some (AList.update r ?k ?m) else inputIdsByRequest s1 c)" for c
    by (simp add: write_input_def Let_def s1_def split: option.splits)
  have old: "\<exists>u. inputs ?w i = Some u \<and> i_conversationId u = c \<and> i_requestId u = Some r"
    if "inputIdsByRequest s1 c = Some m" "map_of m r = Some i" for c m r i
    using d(3)[OF that] s1(2) by (auto simp: inp)
  have m: "distinct (map fst ?m)" using d(2) by (auto split: option.splits)
  have "m' \<noteq> [] \<and> distinct (map fst m') \<and> (\<forall>r i. map_of m' r = Some i \<longrightarrow>
       (\<exists>u. inputs ?w i = Some u \<and> i_conversationId u = c \<and> i_requestId u = Some r))"
    if c: "inputIdsByRequest ?w c = Some m'" for c m'
  proof (cases "\<exists>r. i_requestId v = Some r \<and> c = i_conversationId v")
    case True
    then obtain r where r: "i_requestId v = Some r" "c = i_conversationId v" by blast
    then have m': "m' = AList.update r ?k ?m" using c by (simp add: new)
    have "m' \<noteq> []" by (cases ?m) (auto simp: m')
    moreover have "\<exists>u. inputs ?w i = Some u \<and> i_conversationId u = c \<and> i_requestId u = Some r'"
      if "map_of m' r' = Some i" for r' i
    proof (cases "r' = r")
      case True
      then show ?thesis using that r by (simp add: m' inp update_conv')
    next
      case False
      then have "map_of ?m r' = Some i" using that by (simp add: m' update_conv')
      then show ?thesis using old[of c] r(2) by (simp split: option.splits)
    qed
    ultimately show ?thesis using distinct_update[OF m] by (simp add: m')
  next
    case False
    then have "inputIdsByRequest s1 c = Some m'" using c by (auto simp: new split: option.splits if_splits)
    then show ?thesis using d(1,2) old by blast
  qed
  then show ?thesis using ids by (simp add: request_index_def inp)
qed

section \<open>Writes and the tables\<close>

lemma frame_conversation [simp]:
  "entries (write_conversation c s) = entries s" "tasks (write_conversation c s) = tasks s"
  "inputs (write_conversation c s) = inputs s" "entryIds (write_conversation c s) = entryIds s"
  "headEntryIds (write_conversation c s) = headEntryIds s" "entryCommitSeqs (write_conversation c s) = entryCommitSeqs s"
  "taskIds (write_conversation c s) = taskIds s" "taskIdsByStatus (write_conversation c s) = taskIdsByStatus s"
  "inputIdsByRequest (write_conversation c s) = inputIdsByRequest s" "st_nextSeq (write_conversation c s) = st_nextSeq s"
  "st_nextId (write_conversation c s) = st_nextId s"
  "conversations (write_conversation c s) = (conversations s)(c_id c \<mapsto> c)"
  by (simp_all add: write_conversation_def)

lemma frame_entry [simp]:
  "conversations (write_entry q e s) = conversations s" "conversationIds (write_entry q e s) = conversationIds s"
  "tasks (write_entry q e s) = tasks s" "inputs (write_entry q e s) = inputs s"
  "taskIds (write_entry q e s) = taskIds s" "taskIdsByStatus (write_entry q e s) = taskIdsByStatus s"
  "inputIdsByRequest (write_entry q e s) = inputIdsByRequest s" "st_nextId (write_entry q e s) = st_nextId s"
  by (simp_all add: write_entry_def Let_def)

lemma frame_task [simp]:
  "conversations (write_task t s) = conversations s" "conversationIds (write_task t s) = conversationIds s"
  "entries (write_task t s) = entries s" "entryIds (write_task t s) = entryIds s"
  "headEntryIds (write_task t s) = headEntryIds s" "entryCommitSeqs (write_task t s) = entryCommitSeqs s"
  "inputs (write_task t s) = inputs s" "inputIdsByRequest (write_task t s) = inputIdsByRequest s"
  "st_nextSeq (write_task t s) = st_nextSeq s" "st_nextId (write_task t s) = st_nextId s"
  by (simp_all add: write_task_def Let_def by_status_update_def split: option.splits)

lemma frame_input [simp]:
  "conversations (write_input v s) = conversations s" "conversationIds (write_input v s) = conversationIds s"
  "entries (write_input v s) = entries s" "entryIds (write_input v s) = entryIds s"
  "headEntryIds (write_input v s) = headEntryIds s" "entryCommitSeqs (write_input v s) = entryCommitSeqs s"
  "tasks (write_input v s) = tasks s" "taskIds (write_input v s) = taskIds s"
  "taskIdsByStatus (write_input v s) = taskIdsByStatus s" "st_nextSeq (write_input v s) = st_nextSeq s"
  "st_nextId (write_input v s) = st_nextId s" "inputs (write_input v s) = (inputs s)(i_id v \<mapsto> v)"
  by (simp_all add: write_input_def drop_request_def Let_def split: option.splits)

lemma write_in_table:
  "in_table (apply_write q w s) t i \<longleftrightarrow> in_table s t i \<or> (t = write_table w \<and> i = write_id w)"
  by (cases w; cases t) (auto simp: apply_write_def Let_def)

lemma write_next [simp]:
  "st_nextId (apply_write q w s) = max (st_nextId s) (write_id w + 1)" "st_nextSeq (apply_write q w s) = st_nextSeq s"
  by (cases w; simp add: apply_write_def Let_def)+

lemma index_cong:
  "conversation_index (s\<lparr>st_nextId := n\<rparr>) = conversation_index s" "entry_index (s\<lparr>st_nextId := n\<rparr>) = entry_index s"
  "task_index (s\<lparr>st_nextId := n\<rparr>) = task_index s" "request_index (s\<lparr>st_nextId := n\<rparr>) = request_index s"
  by (simp_all add: conversation_index_def entry_index_def task_index_def request_index_def)

lemma write_kept:
  assumes "storage_inv s" "allowed w s" "q = st_nextSeq s"
  shows "storage_inv (apply_write q w s)"
proof -
  have "id_ownership (apply_write q w s)"
    using assms(1,2) unfolding storage_inv_def id_ownership_def allowed_def write_in_table write_next
    by (metis add.commute less_add_one less_max_iff_disj)
  moreover have "conversation_index (apply_write q w s) \<and> entry_index (apply_write q w s) \<and>
      task_index (apply_write q w s) \<and> request_index (apply_write q w s)"
  proof (cases w)
    case (WConversation c)
    then have "conversations s (c_id c) = None"
      using assms(2) by (auto simp: allowed_def dest: spec[of _ ConversationTable])
    then show ?thesis
      using WConversation conversation_kept[OF assms(1)] assms(1)
      by (simp add: apply_write_def index_cong storage_inv_def) (simp add: entry_index_def task_index_def request_index_def)
  next
    case (WEntry e)
    then have "entries s (e_id e) = None"
      using assms(2) by (auto simp: allowed_def dest: spec[of _ EntryTable])
    then show ?thesis
      using WEntry entry_kept[of s e q] assms(1,3)
      by (simp add: apply_write_def index_cong storage_inv_def) (simp add: conversation_index_def task_index_def request_index_def)
  next
    case (WTask t)
    then show ?thesis
      using task_kept[of s t] assms(1)
      by (simp add: apply_write_def index_cong storage_inv_def) (simp add: entry_index_def conversation_index_def request_index_def)
  next
    case (WInput v)
    then show ?thesis
      using input_kept[of s v] assms(1)
      by (simp add: apply_write_def index_cong storage_inv_def) (simp add: entry_index_def task_index_def conversation_index_def)
  qed
  ultimately show ?thesis by (simp add: storage_inv_def)
qed

section \<open>Commits\<close>

lemma tableContaining_iff:
  assumes "id_ownership s"
  shows "tableContaining s i = Some t \<longleftrightarrow> in_table s t i" "tableContaining s i = None \<longleftrightarrow> (\<forall>t. \<not> in_table s t i)"
proof -
  have one: "in_table s t i \<Longrightarrow> in_table s t' i \<Longrightarrow> t = t'" for t t'
    using assms by (auto simp: id_ownership_def)
  show "tableContaining s i = Some t \<longleftrightarrow> in_table s t i"
    using one[of ConversationTable EntryTable] one[of ConversationTable TaskTable] one[of ConversationTable InputTable]
      one[of EntryTable TaskTable] one[of EntryTable InputTable] one[of TaskTable InputTable]
    by (cases t) (auto simp: tableContaining_def)
  have "(\<forall>t. \<not> in_table s t i) \<longleftrightarrow> \<not> in_table s ConversationTable i \<and> \<not> in_table s EntryTable i \<and>
      \<not> in_table s TaskTable i \<and> \<not> in_table s InputTable i"
    by (metis in_table.elims(2))
  then show "tableContaining s i = None \<longleftrightarrow> (\<forall>t. \<not> in_table s t i)"
    by (auto simp: tableContaining_def)
qed

lemma check_write_ok:
  assumes "check_write s claimed w = Inr claimed'" "id_ownership s"
  shows "claimed' = claimed(write_id w \<mapsto> write_table w)"
    "in_table s t (write_id w) \<or> claimed (write_id w) = Some t \<Longrightarrow>
       t = write_table w \<and> t \<noteq> ConversationTable \<and> t \<noteq> EntryTable"
proof -
  show "claimed' = claimed(write_id w \<mapsto> write_table w)"
    using assms(1) by (auto simp: check_write_def Let_def bindE_eq_Inr)
  assume "in_table s t (write_id w) \<or> claimed (write_id w) = Some t"
  then have "tableContaining s (write_id w) = Some t \<or> claimed (write_id w) = Some t"
    using tableContaining_iff(1)[OF assms(2)] by blast
  then show "t = write_table w \<and> t \<noteq> ConversationTable \<and> t \<noteq> EntryTable"
    using assms(1) by (auto simp: check_write_def Let_def bindE_eq_Inr split: if_splits option.splits)
qed

text \<open>The loop of the commit, next to the loop of its check.\<close>

definition written_once :: "storage_write \<Rightarrow> storage_write \<Rightarrow> bool" where
  "written_once w v \<longleftrightarrow> (write_table w = ConversationTable \<or> write_table w = EntryTable \<longrightarrow>
     write_table v = write_table w \<longrightarrow> write_id v \<noteq> write_id w)"

lemma commit_loop:
  assumes "id_ownership s0" "foldE (check_write s0) claimed ws = Inr claimed'"
    and "storage_inv s" "st_nextSeq s = q" "\<And>t i. in_table s t i \<longleftrightarrow> in_table s0 t i \<or> claimed i = Some t"
  shows "storage_inv (fold (apply_write q) ws s) \<and> st_nextSeq (fold (apply_write q) ws s) = q \<and>
    (\<forall>w \<in> set ws. write_table w = ConversationTable \<or> write_table w = EntryTable \<longrightarrow> \<not> in_table s (write_table w) (write_id w)) \<and>
    sorted_wrt written_once ws"
  using assms(2-)
proof (induction ws arbitrary: claimed s)
  case (Cons w ws)
  then obtain c1 where c1: "check_write s0 claimed w = Inr c1" "foldE (check_write s0) c1 ws = Inr claimed'"
    by (auto simp: bindE_eq_Inr)
  note ck = check_write_ok[OF c1(1) assms(1)]
  have ok: "allowed w s" unfolding allowed_def Cons.prems(4) using ck(2) by blast
  have "in_table (apply_write q w s) t i \<longleftrightarrow> in_table s0 t i \<or> c1 i = Some t" for t i
    using ck(2)[of t] unfolding write_in_table Cons.prems(4) ck(1) by auto
  from Cons.IH[OF c1(2) write_kept[OF Cons.prems(2) ok] _ this] Cons.prems(3)
  have "storage_inv (fold (apply_write q) ws (apply_write q w s))" "st_nextSeq (fold (apply_write q) ws (apply_write q w s)) = q"
    "\<forall>v \<in> set ws. write_table v = ConversationTable \<or> write_table v = EntryTable \<longrightarrow> \<not> in_table (apply_write q w s) (write_table v) (write_id v)"
    "sorted_wrt written_once ws"
    by auto
  moreover have "\<not> in_table s (write_table w) (write_id w)"
    if "write_table w = ConversationTable \<or> write_table w = EntryTable"
    using ok that unfolding allowed_def by blast
  ultimately have "\<forall>w \<in> set (w # ws). write_table w = ConversationTable \<or> write_table w = EntryTable \<longrightarrow>
      \<not> in_table s (write_table w) (write_id w)" "\<forall>v \<in> set ws. written_once w v" "sorted_wrt written_once ws"
    by (auto simp: write_in_table written_once_def[of w] simp del: in_table.simps)
  with \<open>storage_inv (fold (apply_write q) ws (apply_write q w s))\<close>
    \<open>st_nextSeq (fold (apply_write q) ws (apply_write q w s)) = q\<close>
  show ?case by simp
qed simp

text \<open>The tables after a commit: the writes in order, the later one winning.\<close>

definition written :: "(storage_write \<Rightarrow> (id \<times> 'a) option) \<Rightarrow> storage_write list \<Rightarrow> (id \<Rightarrow> 'a option) \<Rightarrow> (id \<Rightarrow> 'a option)" where
  "written f ws m = fold (\<lambda>w m. case f w of None \<Rightarrow> m | Some (i, v) \<Rightarrow> m(i \<mapsto> v)) ws m"

definition conversation_write :: "storage_write \<Rightarrow> (id \<times> conversation) option" where
  "conversation_write w = (case w of WConversation c \<Rightarrow> Some (c_id c, c) | _ \<Rightarrow> None)"
definition entry_write :: "storage_write \<Rightarrow> (id \<times> entry) option" where
  "entry_write w = (case w of WEntry e \<Rightarrow> Some (e_id e, e) | _ \<Rightarrow> None)"
definition task_write :: "storage_write \<Rightarrow> (id \<times> task) option" where
  "task_write w = (case w of WTask t \<Rightarrow> Some (t_id t, t) | _ \<Rightarrow> None)"
definition input_write :: "storage_write \<Rightarrow> (id \<times> input) option" where
  "input_write w = (case w of WInput v \<Rightarrow> Some (i_id v, v) | _ \<Rightarrow> None)"

lemmas write_views = conversation_write_def entry_write_def task_write_def input_write_def

lemma commit_tables:
  "conversations (fold (apply_write q) ws s) = written conversation_write ws (conversations s)"
  "entries (fold (apply_write q) ws s) = written entry_write ws (entries s)"
  "tasks (fold (apply_write q) ws s) = written task_write ws (tasks s)"
  "inputs (fold (apply_write q) ws s) = written input_write ws (inputs s)"
  "entryCommitSeqs (fold (apply_write q) ws s) = written (\<lambda>w. map_option (\<lambda>(i, e). (i, q)) (entry_write w)) ws (entryCommitSeqs s)"
  by (induction ws arbitrary: s) (auto simp: written_def apply_write_def Let_def write_views split: storage_write.splits)

lemma commit_open: "st_closed (fold (apply_write q) ws s) = st_closed s"
proof (induction ws arbitrary: s)
  case (Cons w ws)
  have "st_closed (apply_write q w s) = st_closed s"
    by (cases w) (simp_all add: apply_write_def Let_def write_conversation_def write_entry_def write_task_def
        write_input_def by_status_update_def drop_request_def split: option.splits)
  with Cons show ?case by simp
qed simp

lemma written_old: "(\<And>w j v. w \<in> set ws \<Longrightarrow> f w = Some (j, v) \<Longrightarrow> j \<noteq> i) \<Longrightarrow> written f ws m i = m i"
proof (induction ws arbitrary: m)
  case (Cons w ws)
  then have "written f ws m' i = m' i" for m' by (meson list.set_intros(2))
  then show ?case using Cons.prems[of w] by (auto simp: written_def split: option.splits)
qed (simp add: written_def)

lemma written_last:
  assumes "w \<in> set ws" "f w = Some (i, v)" "sorted_wrt (\<lambda>w u. f w \<noteq> None \<longrightarrow> (\<forall>j y. f u = Some (j, y) \<longrightarrow> j \<noteq> fst (the (f w)))) ws"
  shows "written f ws m i = Some v"
proof -
  obtain a b where ws: "ws = a @ w # b" using assms(1) by (metis in_set_conv_decomp)
  have "written f ws m = written f b ((written f a m)(i \<mapsto> v))"
    by (simp add: written_def ws assms(2))
  moreover have "written f b m' i = m' i" for m'
    by (rule written_old) (use assms(2,3) ws in \<open>auto simp: sorted_wrt_append\<close>)
  ultimately show ?thesis by simp
qed

lemma commitD:
  assumes "commit s ws = Inr (s', q)"
  obtains claimed where "\<not> st_closed s" "foldE (check_write s) Map.empty ws = Inr claimed" "q = st_nextSeq s"
    "s' = (fold (apply_write q) ws s)\<lparr>st_nextSeq := st_nextSeq (fold (apply_write q) ws s) + 1\<rparr>"
  using assms by (auto simp: commit_def assertOpen_def checkImmutableIds_def bindE_eq_Inr Let_def split: if_splits)

lemma commit_kept:
  assumes "storage_inv s" "commit s ws = Inr (s', q)"
  shows "storage_inv s'" "q = st_nextSeq s" "st_nextSeq s' = q + 1"
proof -
  from commitD[OF assms(2)] obtain claimed where c: "foldE (check_write s) Map.empty ws = Inr claimed" "q = st_nextSeq s"
    "s' = (fold (apply_write q) ws s)\<lparr>st_nextSeq := st_nextSeq (fold (apply_write q) ws s) + 1\<rparr>" by metis
  let ?f = "fold (apply_write q) ws s"
  have own: "id_ownership s" using assms(1) by (simp add: storage_inv_def)
  have f: "storage_inv ?f" "st_nextSeq ?f = q"
    using commit_loop[OF own c(1) assms(1) c(2)[symmetric]] by auto
  then have "entry_index (?f\<lparr>st_nextSeq := q + 1\<rparr>)"
    unfolding storage_inv_def entry_index_def by (fastforce intro: le_SucI)
  moreover have "in_table (?f\<lparr>st_nextSeq := q + 1\<rparr>) t i = in_table ?f t i" for t i by (cases t) simp_all
  ultimately have "storage_inv (?f\<lparr>st_nextSeq := q + 1\<rparr>)"
    using f(1) by (simp add: storage_inv_def conversation_index_def task_index_def request_index_def id_ownership_def)
  then show "storage_inv s'" "q = st_nextSeq s" "st_nextSeq s' = q + 1"
    using c f by simp_all
qed

section \<open>Properties\<close>

text \<open>The life of a storage: commits that succeed, minted ids, closing.\<close>

inductive storage_step :: "storage \<Rightarrow> storage \<Rightarrow> bool" where
  commits: "commit s ws = Inr (s', q) \<Longrightarrow> storage_step s s'"
| mints: "mintId s = Inr (s', i) \<Longrightarrow> storage_step s s'"
| closes: "storage_step s (close_storage s)"

inductive_cases storage_stepE: "storage_step s s'"

definition reachable :: "storage \<Rightarrow> bool" where
  "reachable s \<longleftrightarrow> storage_step\<^sup>*\<^sup>* new_storage s"

lemma same_tables:
  assumes "conversations s' = conversations s" "entries s' = entries s" "tasks s' = tasks s" "inputs s' = inputs s"
  shows "in_table s' t i = in_table s t i"
  by (cases t) (simp_all add: assms)

lemma mint_kept:
  assumes "storage_inv s" "mintId s = Inr (s', i)"
  shows "storage_inv s'"
proof -
  have s': "s' = s\<lparr>st_nextId := st_nextId s + 1\<rparr>"
    using assms(2) by (auto simp: mintId_def bindE_eq_Inr split: if_splits)
  have t: "in_table s' t j = in_table s t j" for t j by (rule same_tables) (simp_all add: s')
  have "id_ownership s'"
    unfolding id_ownership_def t
  proof (intro conjI allI impI)
    fix j t
    assume "in_table s t j"
    then have "j < st_nextId s" using assms(1) unfolding storage_inv_def id_ownership_def by blast
    then show "j < st_nextId s'" by (simp add: s')
  qed (use assms(1) in \<open>unfold storage_inv_def id_ownership_def, blast\<close>)
  then show ?thesis
    using assms(1) by (simp add: s' storage_inv_def index_cong)
qed

lemma close_kept: "storage_inv s \<Longrightarrow> storage_inv (close_storage s)"
proof -
  assume i: "storage_inv s"
  have "in_table (close_storage s) t j = in_table s t j" for t j by (rule same_tables) (simp_all add: close_storage_def)
  then show ?thesis
    using i by (simp add: close_storage_def storage_inv_defs)
qed

lemma reachable_inv: "reachable s \<Longrightarrow> storage_inv s"
  unfolding reachable_def
proof (induction rule: rtranclp_induct)
  case base
  then show ?case by (rule new_storage_inv)
next
  case (step s s')
  from step.hyps(2) step.IH show ?case by (auto elim!: storage_stepE intro: commit_kept mint_kept close_kept)
qed

text \<open>
  C7. In every reachable state of the durable storage the indexes are exact: the sorted id lists hold
  precisely the conversations, the entries and head markers of each conversation, and the tasks in
  all and by status; every request key maps to an input that carries it; each id belongs to one
  table only and is below the next id to mint. Every commit that is accepted keeps this.
\<close>

theorem storage_invariant:
  assumes "reachable s"
  shows "storage_inv s \<and> (\<forall>ws s' q. commit s ws = Inr (s', q) \<longrightarrow> storage_inv s' \<and> q = st_nextSeq s \<and> st_nextSeq s' = q + 1)"
  using reachable_inv[OF assms] commit_kept by blast

definition root_conversation :: conversation where
  "root_conversation = \<lparr>c_id = 1, c_parent = None, c_owner = None\<rparr>"

definition sample_entry :: "id \<Rightarrow> id \<Rightarrow> id option \<Rightarrow> entry" where
  "sample_entry c i h = \<lparr>e_id = i, e_conversationId = c, e_kind = [], e_model = None, e_data = None, e_head = h,
     e_edits = None, e_byTaskId = None\<rparr>"

definition sample_writes :: "storage_write list" where
  "sample_writes = [WConversation root_conversation, WEntry (sample_entry 1 3 None), WEntry (sample_entry 1 2 (Some 2)),
     WConversation \<lparr>c_id = 5, c_parent = Some (1, 2), c_owner = None\<rparr>, WEntry (sample_entry 5 6 None)]"

definition sample_storage :: storage where
  "sample_storage = (case commit new_storage sample_writes of Inr (s, q) \<Rightarrow> s | Inl e \<Rightarrow> new_storage)"

lemma sample_commits: "\<exists>q. commit new_storage sample_writes = Inr (sample_storage, q)"
proof (cases "commit new_storage sample_writes")
  case (Inl e)
  have "case commit new_storage sample_writes of Inl e \<Rightarrow> False | Inr x \<Rightarrow> True" by code_simp
  with Inl show ?thesis by simp
next
  case (Inr x)
  then show ?thesis by (cases x) (simp add: sample_storage_def)
qed

lemma sample_reachable: "reachable sample_storage"
  using sample_commits unfolding reachable_def by (blast intro: commits r_into_rtranclp)

theorem storage_invariant_witness:
  "storage_inv sample_storage \<and> conversationIds sample_storage = [1, 5] \<and> ids_of (entryIds sample_storage) 1 = [2, 3] \<and>
   ids_of (headEntryIds sample_storage) 1 = [2] \<and> st_nextId sample_storage = 7"
proof -
  have "conversationIds sample_storage = [1, 5] \<and> ids_of (entryIds sample_storage) 1 = [2, 3] \<and>
    ids_of (headEntryIds sample_storage) 1 = [2] \<and> st_nextId sample_storage = 7" by code_simp
  with storage_invariant[OF sample_reachable] show ?thesis by blast
qed

text \<open>
  A commit does what its writes say and nothing else: each table is the old one with the writes
  applied in order, a conversation or entry that exists is never changed (not even by a later write
  of the same batch), and each new entry is stamped with the sequence the commit returns.
\<close>

theorem commit_effect:
  assumes "reachable s" "commit s ws = Inr (s', q)"
  shows "conversations s' = written conversation_write ws (conversations s) \<and> entries s' = written entry_write ws (entries s) \<and>
    tasks s' = written task_write ws (tasks s) \<and> inputs s' = written input_write ws (inputs s) \<and>
    conversations s \<subseteq>\<^sub>m conversations s' \<and> entries s \<subseteq>\<^sub>m entries s' \<and>
    (\<forall>e. WEntry e \<in> set ws \<longrightarrow> entry_of s' (e_id e) = Inr (Some (e, q)))"
proof -
  have inv: "storage_inv s" by (rule reachable_inv[OF assms(1)])
  then have own: "id_ownership s" by (simp add: storage_inv_def)
  from commitD[OF assms(2)] obtain claimed where c: "\<not> st_closed s" "foldE (check_write s) Map.empty ws = Inr claimed" "q = st_nextSeq s"
    "s' = (fold (apply_write q) ws s)\<lparr>st_nextSeq := st_nextSeq (fold (apply_write q) ws s) + 1\<rparr>" by metis
  have free: "\<forall>w \<in> set ws. write_table w = ConversationTable \<or> write_table w = EntryTable \<longrightarrow> \<not> in_table s (write_table w) (write_id w)"
    using commit_loop[OF own c(2) inv c(3)[symmetric]] by simp
  have once: "sorted_wrt written_once ws"
    using commit_loop[OF own c(2) inv c(3)[symmetric]] by simp
  note t = commit_tables[of q ws s]
  have old: "conversations s i = Some x \<Longrightarrow> written conversation_write ws (conversations s) i = Some x"
    "entries s i = Some y \<Longrightarrow> written entry_write ws (entries s) i = Some y" for i x y
    using free by (subst written_old, auto simp: write_views split: storage_write.splits)+
  have keys: "sorted_wrt (\<lambda>w u. g w \<noteq> None \<longrightarrow> (\<forall>j y. g u = Some (j, y) \<longrightarrow> j \<noteq> fst (the (g w)))) ws"
    if "\<And>w. map_option fst (g w) = map_option fst (entry_write w)" for g :: "storage_write \<Rightarrow> (id \<times> 'c) option"
  proof (rule sorted_wrt_mono_rel[OF _ once])
    fix w u
    assume "written_once w u"
    then show "g w \<noteq> None \<longrightarrow> (\<forall>j y. g u = Some (j, y) \<longrightarrow> j \<noteq> fst (the (g w)))"
      using that[of w] that[of u] by (cases w; cases u) (auto simp: written_once_def write_views)
  qed
  have entry: "written entry_write ws m (e_id e) = Some e"
    "written (\<lambda>w. map_option (\<lambda>(i, e). (i, q)) (entry_write w)) ws m' (e_id e) = Some q" if "WEntry e \<in> set ws" for e m m'
    using written_last[OF that, of entry_write "e_id e" e m] keys[of entry_write]
      written_last[OF that, of "\<lambda>w. map_option (\<lambda>(i, e). (i, q)) (entry_write w)" "e_id e" q m']
      keys[of "\<lambda>w. map_option (\<lambda>(i, e). (i, q)) (entry_write w)"]
    by (simp_all add: entry_write_def[of "WEntry e"] option.map_comp case_prod_unfold comp_def)
  show ?thesis
    using t old entry c(1) unfolding c(4)
    by (auto simp: map_le_def dom_def entry_of_def assertOpen_def commit_open)
qed

theorem commit_effect_witness:
  "\<exists>q. commit new_storage sample_writes = Inr (sample_storage, q) \<and>
     entry_of sample_storage 2 = Inr (Some (sample_entry 1 2 (Some 2), q))"
proof -
  obtain q where q: "commit new_storage sample_writes = Inr (sample_storage, q)" using sample_commits by blast
  have "WEntry (sample_entry 1 2 (Some 2)) \<in> set sample_writes" by (simp add: sample_writes_def)
  with commit_effect[OF _ q] q show ?thesis by (auto simp: reachable_def sample_entry_def)
qed

lemma fold_next_id: "st_nextId s \<le> st_nextId (fold (apply_write q) ws s)"
proof (induction ws arbitrary: s)
  case (Cons w ws)
  from Cons[of "apply_write q w s"] show ?case by simp
qed simp

lemma next_id_grows: "storage_step s s' \<Longrightarrow> st_nextId s \<le> st_nextId s'"
proof (erule storage_stepE)
  fix ws q
  assume "commit s ws = Inr (s', q)"
  then show "st_nextId s \<le> st_nextId s'" using fold_next_id[of s q ws] by (elim commitD) simp
qed (auto simp: mintId_def close_storage_def bindE_eq_Inr split: if_splits)

text \<open>
  Minted ids are fresh for ever: an id handed out in a reachable state is not in any table, and
  every later reachable state has moved past it, so it is never handed out again.
\<close>

theorem mintId_fresh:
  assumes "reachable s" "mintId s = Inr (s', i)"
  shows "(\<forall>t. \<not> in_table s t i) \<and> reachable s' \<and>
    (\<forall>u u' j. storage_step\<^sup>*\<^sup>* s' u \<longrightarrow> mintId u = Inr (u', j) \<longrightarrow> i < j)"
proof -
  have i: "i = st_nextId s" "s' = s\<lparr>st_nextId := st_nextId s + 1\<rparr>"
    using assms(2) by (auto simp: mintId_def bindE_eq_Inr split: if_splits)
  have "\<not> in_table s t i" for t
    using reachable_inv[OF assms(1)] i(1) by (auto simp: storage_inv_def id_ownership_def)
  moreover have "reachable s'"
    using assms mints unfolding reachable_def by (blast intro: rtranclp.rtrancl_into_rtrancl)
  moreover have "i < j" if "storage_step\<^sup>*\<^sup>* s' u" "mintId u = Inr (u', j)" for u u' j
  proof -
    have "i < st_nextId u"
      using that(1)
    proof (induction rule: rtranclp_induct)
      case base
      then show ?case by (simp add: i)
    next
      case (step u v)
      from step.hyps(2) step.IH next_id_grows[OF step.hyps(2)] show ?case by simp
    qed
    then show ?thesis using that(2) by (auto simp: mintId_def bindE_eq_Inr split: if_splits)
  qed
  ultimately show ?thesis by blast
qed

theorem mintId_fresh_witness:
  "\<forall>t. \<not> in_table sample_storage t 7"
proof -
  have "st_nextId sample_storage = 7" "st_closed sample_storage = False" by code_simp+
  then have "mintId sample_storage = Inr (sample_storage\<lparr>st_nextId := 8\<rparr>, 7)"
    by (simp add: mintId_def assertOpen_def MAX_SAFE_ID_def)
  from mintId_fresh[OF sample_reachable this] show ?thesis by blast
qed

end
