(* ===== verification/Forest.thy ===== *)
theory Forest
  imports Prelude
begin

text \<open>
  Parent pointers: the interface of every structure in which a record names an earlier record as its
  parent (forked conversations, session branches). A walk to the root ends.
\<close>

fun climb :: "('k \<Rightarrow> 'k option) \<Rightarrow> nat \<Rightarrow> 'k \<Rightarrow> 'k list option" where
  "climb up 0 k = None"
| "climb up (Suc n) k =
     (case up k of None \<Rightarrow> Some [k] | Some q \<Rightarrow> map_option ((#) k) (climb up n q))"

lemma climb_fuel: "climb up m k = Some ks \<Longrightarrow> length ks \<le> n \<Longrightarrow> climb up n k = Some ks"
proof (induction m arbitrary: k ks n)
  case (Suc m)
  show ?case
  proof (cases "up k")
    case None
    then show ?thesis using Suc.prems by (cases n) auto
  next
    case (Some q)
    with Suc.prems(1) obtain qs where qs: "climb up m q = Some qs" "ks = k # qs" by auto
    with Suc.prems(2) obtain n' where "n = Suc n'" "length qs \<le> n'" by (cases n) auto
    with Suc.IH[OF qs(1)] qs(2) Some show ?thesis by simp
  qed
qed simp

lemma climb_length: "climb up n k = Some ks \<Longrightarrow> length ks \<le> n"
proof (induction n arbitrary: k ks)
  case (Suc n)
  then show ?case by (cases "up k") auto
qed simp

lemma climb_closed:
  "climb up n k = Some ks \<Longrightarrow> k \<in> D \<Longrightarrow> (\<And>k q. k \<in> D \<Longrightarrow> up k = Some q \<Longrightarrow> q \<in> D) \<Longrightarrow> set ks \<subseteq> D"
proof (induction n arbitrary: k ks)
  case (Suc n)
  show ?case
  proof (cases "up k")
    case (Some q)
    with Suc.prems(1) obtain qs where "climb up n q = Some qs" "ks = k # qs" by auto
    with Suc.IH[of q qs] Suc.prems(2,3) Some show ?thesis by auto
  qed (use Suc.prems in auto)
qed simp

text \<open>The walk from a node of a walk is its rest, and its parents are in it.\<close>

lemma climb_suffix:
  "climb up n k = Some (us @ r # vs) \<Longrightarrow> climb up n r = Some (r # vs) \<and>
     up r = (case vs of [] \<Rightarrow> None | v # _ \<Rightarrow> Some v)"
proof (induction n arbitrary: k us)
  case (Suc n)
  show ?case
  proof (cases us)
    case Nil
    then have "k = r" using Suc.prems by (auto split: option.splits)
    moreover have "climb up (Suc n) k = Some (k # vs) \<Longrightarrow> up k = (case vs of [] \<Rightarrow> None | v # _ \<Rightarrow> Some v)"
      by (cases n) (auto split: option.splits list.splits)
    ultimately show ?thesis using Suc.prems Nil by simp
  next
    case (Cons u us')
    with Suc.prems obtain q where q: "up k = Some q" "climb up n q = Some (us' @ r # vs)"
      by (auto split: option.splits)
    from Suc.IH[OF q(2)] climb_fuel[of up n r "r # vs" "Suc n"] q(2) show ?thesis
      using climb_length by fastforce
  qed
qed simp

lemma climb_up_closed: "climb up n k = Some ks \<Longrightarrow> x \<in> set ks \<Longrightarrow> up x = Some q \<Longrightarrow> q \<in> set ks"
proof -
  assume ks: "climb up n k = Some ks" and "x \<in> set ks" and q: "up x = Some q"
  then obtain us vs where "ks = us @ x # vs" by (meson split_list)
  with climb_suffix[of up n k us x vs] ks q show ?thesis by (auto split: list.splits)
qed

locale parent_forest =
  fixes ok :: "'s \<Rightarrow> bool"
    and up :: "'s \<Rightarrow> 'k \<Rightarrow> 'k option"
    and rank :: "'s \<Rightarrow> 'k \<Rightarrow> nat"
  assumes up_rank: "ok s \<Longrightarrow> up s k = Some q \<Longrightarrow> rank s q < rank s k"
begin

text \<open>Induction along the parents, and the walk with enough fuel.\<close>

lemma up_induct:
  assumes "ok s" "\<And>k. (\<And>q. up s k = Some q \<Longrightarrow> P q) \<Longrightarrow> P k"
  shows "P k"
proof (induction "rank s k" arbitrary: k rule: less_induct)
  case less
  show ?case by (rule assms(2)) (use less up_rank[OF assms(1)] in blast)
qed

lemma climb_ends: "ok s \<Longrightarrow> rank s k < n \<Longrightarrow> \<exists>ks. climb (up s) n k = Some (k # ks)"
proof (induction n arbitrary: k)
  case (Suc n)
  show ?case
  proof (cases "up s k")
    case (Some q)
    with up_rank[OF Suc.prems(1) Some] Suc.prems have "rank s q < n" by simp
    from Suc.IH[OF Suc.prems(1) this] Some show ?thesis by auto
  qed simp
qed simp

lemma climb_ranks: "ok s \<Longrightarrow> climb (up s) n k = Some ks \<Longrightarrow> sorted_wrt (\<lambda>a b. rank s b < rank s a) ks \<and> hd ks = k \<and> ks \<noteq> []"
proof (induction n arbitrary: k ks)
  case (Suc n)
  show ?case
  proof (cases "up s k")
    case (Some q)
    with Suc.prems(2) obtain qs where qs: "climb (up s) n q = Some qs" "ks = k # qs" by auto
    from Suc.IH[OF Suc.prems(1) qs(1)] obtain rs where "qs = q # rs" "sorted_wrt (\<lambda>a b. rank s b < rank s a) qs"
      by (cases qs) auto
    then show ?thesis using qs(2) up_rank[OF Suc.prems(1) Some] by auto
  qed (use Suc.prems in auto)
qed simp

lemma climb_distinct: "ok s \<Longrightarrow> climb (up s) n k = Some ks \<Longrightarrow> distinct ks"
  using climb_ranks[of s n k ks] by (auto simp: sorted_wrt_iff_nth_less distinct_conv_nth) (metis linorder_neq_iff)

text \<open>As many steps as there are nodes are enough.\<close>

lemma climb_bounded:
  assumes "ok s" "finite D" "k \<in> D" "\<And>k q. k \<in> D \<Longrightarrow> up s k = Some q \<Longrightarrow> q \<in> D"
  shows "\<exists>ks. climb (up s) (card D) k = Some ks"
proof -
  obtain ks where ks: "climb (up s) (Suc (rank s k)) k = Some ks"
    using climb_ends[OF assms(1), of k "Suc (rank s k)"] by auto
  have "length ks = card (set ks)"
    using climb_distinct[OF assms(1) ks] by (simp add: distinct_card)
  also have "\<dots> \<le> card D"
    by (rule card_mono[OF assms(2) climb_closed[OF ks assms(3,4)]])
  finally show ?thesis using climb_fuel[OF ks] by blast
qed

lemma climb_no_cycle: "ok s \<Longrightarrow> up s k \<noteq> Some k"
  using up_rank by fastforce

end

end
