(* ===== verification/DurableScan.thy ===== *)
theory DurableScan
  imports DurableInvariant Forest
begin

text \<open>
  The scans of the durable storage: paging visits every record exactly once, the fork-aware history is
  the visible entries newest first, and the head marker is the newest of them that has a head.
\<close>

section \<open>Keyset paging\<close>

text \<open>A caller that follows the cursor of each page until there is none.\<close>

fun drain :: "(id option \<Rightarrow> 'a page) \<Rightarrow> nat \<Rightarrow> id option \<Rightarrow> 'a list" where
  "drain scan 0 cursor = []"
| "drain scan (Suc n) cursor =
     (let p = scan cursor
      in items p @ (case next_after p of None \<Rightarrow> [] | Some a \<Rightarrow> drain scan n (Some a)))"

locale keyset_paging =
  fixes ok :: "'s \<Rightarrow> bool"
    and key :: "'a \<Rightarrow> id"
    and rest :: "'s \<Rightarrow> id option \<Rightarrow> 'a list"
  assumes rest_after: "ok s \<Longrightarrow> rest s c = xs @ x # ys \<Longrightarrow> rest s (Some (key x)) = ys"
begin

definition scan :: "'s \<Rightarrow> nat \<Rightarrow> id option \<Rightarrow> 'a page" where
  "scan s limit c = page_of key (take (limit + 1) (rest s c)) limit"

lemma drain_complete:
  assumes "ok s" "0 < limit" "length (rest s c) < n"
  shows "drain (scan s limit) n c = rest s c"
  using assms(3)
proof (induction n arbitrary: c)
  case (Suc n)
  show ?case
  proof (cases "length (rest s c) \<le> limit")
    case True
    then show ?thesis by (simp add: scan_def page_of_def Let_def)
  next
    case False
    then have t: "take limit (rest s c) = butlast (take limit (rest s c)) @ [last (take limit (rest s c))]"
      using assms(2) by (intro append_butlast_last_id[symmetric]) auto
    then have "rest s c = butlast (take limit (rest s c)) @ last (take limit (rest s c)) # drop limit (rest s c)"
      by (metis append_Cons append_Nil append_assoc append_take_drop_id)
    from rest_after[OF assms(1) this] have r: "rest s (Some (key (last (take limit (rest s c))))) = drop limit (rest s c)" .
    then have "drain (scan s limit) n (Some (key (last (take limit (rest s c))))) = drop limit (rest s c)"
      using Suc.IH[of "Some (key (last (take limit (rest s c))))"] Suc.prems False assms(2) by simp
    moreover have "scan s limit c = \<lparr>items = take limit (rest s c), next_after = Some (key (last (take limit (rest s c))))\<rparr>"
      using False by (simp add: scan_def page_of_def Let_def min_def)
    ultimately show ?thesis by simp
  qed
qed simp

end

declare drain.simps [simp del]

section \<open>Tasks and conversations\<close>

lemma after_cursor_filter:
  assumes "strict ids"
  shows "after_cursor ids c = filter (\<lambda>x. case c of None \<Rightarrow> True | Some a \<Rightarrow> a < x) ids"
  using upperBound_filter(2)[OF assms] by (cases c) (simp_all add: after_cursor_def)

lemma filter_after:
  assumes "strict ids" "filter (\<lambda>x. case c of None \<Rightarrow> True | Some a \<Rightarrow> a < x) ids = us @ x # vs"
  shows "filter (\<lambda>y. x < y) ids = vs"
proof -
  let ?P = "\<lambda>x. case c of None \<Rightarrow> True | Some a \<Rightarrow> a < x"
  have s: "strict (us @ x # vs)" using assms by (metis sorted_wrt_filter)
  have "x \<in> set (filter ?P ids)" by (simp only: assms(2)) simp
  then have "?P x" by simp
  then have "filter (\<lambda>y. x < y) ids = filter (\<lambda>y. x < y) (filter ?P ids)"
    by (auto intro!: filter_cong split: option.splits)
  also have "\<dots> = vs"
    unfolding assms(2) using s by (auto simp: sorted_wrt_append filter_empty_conv intro!: filter_True)
  finally show ?thesis .
qed

definition conversation_rest :: "storage \<Rightarrow> id option \<Rightarrow> conversation list" where
  "conversation_rest s c = map (\<lambda>i. the (conversations s i)) (after_cursor (conversationIds s) c)"

definition task_rest :: "storage \<times> task_query \<Rightarrow> id option \<Rightarrow> task list" where
  "task_rest sq c = filter (task_matches (snd sq)) (map (\<lambda>i. the (tasks (fst sq) i)) (after_cursor (query_ids (fst sq) (snd sq)) c))"

lemma conversation_ids:
  assumes "storage_inv s"
  shows "strict (conversationIds s)" "i \<in> set (conversationIds s) \<longleftrightarrow> (\<exists>c. conversations s i = Some c)"
    "conversations s i = Some c \<Longrightarrow> c_id c = i"
  using assms by (auto simp: storage_inv_def conversation_index_def ix.tracks_def)

lemma task_ids:
  assumes "storage_inv s"
  shows "strict (query_ids s q)"
    "i \<in> set (query_ids s q) \<longleftrightarrow> (\<exists>t. tasks s i = Some t \<and> \<not> differs (q_status q) (status_of (t_state t)))"
    "tasks s i = Some t \<Longrightarrow> t_id t = i"
  using assms by (auto simp: storage_inv_def task_index_def ix.tracks_def query_ids_def differs_def split: option.splits)

lemma map_split: "map f xs = us @ x # vs \<Longrightarrow> \<exists>us' y vs'. xs = us' @ y # vs' \<and> x = f y \<and> vs = map f vs'"
  by (auto simp: map_eq_append_conv map_eq_Cons_conv)

interpretation conversation_paging: keyset_paging storage_inv c_id conversation_rest
proof
  fix s c xs x ys
  assume inv: "storage_inv s" and r: "conversation_rest s c = xs @ x # ys"
  note ids = conversation_ids[OF inv]
  from map_split[OF r[unfolded conversation_rest_def]] obtain us i vs where
    u: "after_cursor (conversationIds s) c = us @ i # vs" "x = the (conversations s i)" "ys = map (\<lambda>i. the (conversations s i)) vs"
    by blast
  then have "i \<in> set (conversationIds s)"
    by (metis after_cursor_def in_set_conv_decomp in_set_dropD)
  then have "c_id x = i" using ids(2,3) u(2) by auto
  moreover have "after_cursor (conversationIds s) (Some i) = vs"
    using filter_after[OF ids(1), of c us i vs] u(1) by (simp add: after_cursor_filter[OF ids(1)])
  ultimately show "conversation_rest s (Some (c_id x)) = ys" by (simp add: conversation_rest_def u(3))
qed

lemma filter_split:
  "filter P xs = us @ x # vs \<Longrightarrow> \<exists>as bs. xs = as @ x # bs \<and> P x \<and> vs = filter P bs"
proof (induction xs arbitrary: us)
  case (Cons y xs)
  show ?case
  proof (cases "P y \<and> us = []")
    case True
    with Cons.prems show ?thesis by (intro exI[of _ "[]"] exI[of _ xs]) auto
  next
    case False
    then obtain us' where "filter P xs = us' @ x # vs" using Cons.prems by (cases us) (auto split: if_splits)
    from Cons.IH[OF this] obtain as bs where "xs = as @ x # bs" "P x" "vs = filter P bs" by blast
    then show ?thesis by (intro exI[of _ "y # as"] exI[of _ bs]) auto
  qed
qed simp

interpretation task_paging: keyset_paging "\<lambda>sq. storage_inv (fst sq)" t_id task_rest
proof
  fix sq c xs x ys
  assume inv: "storage_inv (fst sq)" and r: "task_rest sq c = xs @ x # ys"
  obtain s q where sq: "sq = (s, q)" by force
  note ids = task_ids[OF inv[unfolded sq fst_conv]]
  from filter_split[OF r[unfolded task_rest_def sq fst_conv snd_conv]] obtain as bs where
    f: "map (\<lambda>i. the (tasks s i)) (after_cursor (query_ids s q) c) = as @ x # bs" "ys = filter (task_matches q) bs" by blast
  from map_split[OF f(1)] obtain us i vs where
    u: "after_cursor (query_ids s q) c = us @ i # vs" "x = the (tasks s i)" "bs = map (\<lambda>i. the (tasks s i)) vs"
    by blast
  then have "i \<in> set (query_ids s q)"
    by (metis after_cursor_def in_set_conv_decomp in_set_dropD)
  then have "t_id x = i" using ids(2,3) u(2) by auto
  moreover have "after_cursor (query_ids s q) (Some i) = vs"
    using filter_after[OF ids(1)[of q], of c us i vs] u(1) by (simp add: after_cursor_filter[OF ids(1)])
  ultimately show "task_rest sq (Some (t_id x)) = ys" by (simp add: task_rest_def sq f(2) u(3))
qed

lemma collect_tasks_eq:
  "collect_tasks s q limit is vs = take (limit + 1) (vs @ filter (task_matches q) (map (\<lambda>i. the (tasks s i)) is))"
  if "length vs \<le> limit + 1"
  using that
proof (induction "is" arbitrary: vs)
  case (Cons i "is")
  show ?case
  proof (cases "length vs \<le> limit")
    case True
    then show ?thesis using Cons.IH by (simp add: Let_def Suc_diff_le)
  next
    case False
    then have "length vs = limit + 1" using Cons.prems by simp
    then show ?thesis by simp
  qed
qed simp

lemma scanTasks_eq: "\<not> st_closed s \<Longrightarrow> scanTasks s q c limit = Inr (task_paging.scan (s, q) limit c)"
  by (simp add: scanTasks_def assertOpen_def collect_tasks_eq task_paging.scan_def task_rest_def)

lemma scanConversations_eq: "\<not> st_closed s \<Longrightarrow> scanConversations s c limit = Inr (conversation_paging.scan s limit c)"
  by (simp add: scanConversations_def assertOpen_def conversation_paging.scan_def conversation_rest_def take_map Let_def)

section \<open>The visible history\<close>

text \<open>
  Which entries a conversation sees: its own, and what its parent sees up to the fork point.
\<close>

definition le_bound :: "id \<Rightarrow> id option \<Rightarrow> bool" where
  "le_bound i u = (case u of None \<Rightarrow> True | Some b \<Rightarrow> i \<le> b)"

inductive visible :: "storage \<Rightarrow> id \<Rightarrow> id option \<Rightarrow> entry \<Rightarrow> bool" for s where
  own: "entries s i = Some e \<Longrightarrow> e_conversationId e = c \<Longrightarrow> le_bound i u \<Longrightarrow> visible s c u e"
| inherited: "conversations s c = Some v \<Longrightarrow> c_parent v = Some (p, a) \<Longrightarrow> visible s p (min_bound u a) e \<Longrightarrow> visible s c u e"

inductive_simps visible_iff: "visible s c u e"

text \<open>
  What the owning session guarantees of ancestry: a parent exists and is older, and a conversation's
  own entries are newer than its fork point (ids are minted in order).
\<close>

definition ancestry_ok :: "storage \<Rightarrow> bool" where
  "ancestry_ok s \<longleftrightarrow> (\<forall>c v p a. conversations s c = Some v \<longrightarrow> c_parent v = Some (p, a) \<longrightarrow>
     0 \<le> p \<and> p < c \<and> conversations s p \<noteq> None \<and>
     (\<forall>i e. entries s i = Some e \<longrightarrow> e_conversationId e = c \<longrightarrow> a < i))"

definition conversation_up :: "storage \<Rightarrow> id \<Rightarrow> id option" where
  "conversation_up s c = (case conversations s c of None \<Rightarrow> None | Some v \<Rightarrow> map_option fst (c_parent v))"

interpretation conversation_forest: parent_forest ancestry_ok conversation_up "\<lambda>s c. nat c"
  by unfold_locales (fastforce simp: ancestry_ok_def conversation_up_def split: option.splits)

lemma entry_ids:
  assumes "storage_inv s"
  shows "strict (ids_of (entryIds s) c)"
    "i \<in> set (ids_of (entryIds s) c) \<longleftrightarrow> (\<exists>e. entries s i = Some e \<and> e_conversationId e = c)"
    "strict (ids_of (headEntryIds s) c)"
    "i \<in> set (ids_of (headEntryIds s) c) \<longleftrightarrow> (\<exists>e. entries s i = Some e \<and> e_conversationId e = c \<and> e_head e \<noteq> None)"
    "entries s i = Some e \<Longrightarrow> e_id e = i"
  using assms by (auto simp: storage_inv_def entry_index_def ix.tracks_def)

lemma le_min_bound: "le_bound i (min_bound u a) \<longleftrightarrow> le_bound i u \<and> i \<le> a"
  by (auto simp: le_bound_def min_bound_def split: option.splits)

lemma visible_bound: "visible s c u e \<Longrightarrow> storage_inv s \<Longrightarrow> le_bound (e_id e) u"
  by (induction rule: visible.induct) (auto simp: entry_ids(5) le_min_bound)

lemma min_min_bound: "min_bound (min_bound u a) b = min_bound (min_bound u b) a"
  by (auto simp: min_bound_def split: option.splits)

lemma visible_min:
  assumes "storage_inv s"
  shows "visible s c (min_bound u b) e \<longleftrightarrow> visible s c u e \<and> e_id e \<le> b"
proof
  assume "visible s c (min_bound u b) e"
  then show "visible s c u e \<and> e_id e \<le> b"
  proof (induction c "min_bound u b" e arbitrary: u rule: visible.induct)
    case (own i e c)
    then show ?case using entry_ids(5)[OF assms] by (auto simp: le_min_bound intro: visible.own)
  next
    case (inherited c v p a e)
    have "visible s p (min_bound u a) e \<and> e_id e \<le> b"
      by (rule inherited.hyps(4)) (rule min_min_bound)
    with inherited.hyps(1,2) show ?case by (blast intro: visible.inherited)
  qed
next
  assume "visible s c u e \<and> e_id e \<le> b"
  then have "visible s c u e" "e_id e \<le> b" by auto
  then show "visible s c (min_bound u b) e"
  proof (induction rule: visible.induct)
    case (own i e c u)
    then show ?case using entry_ids(5)[OF assms] by (auto simp: le_min_bound intro!: visible.own)
  next
    case (inherited c v p a u e)
    then have "visible s p (min_bound (min_bound u b) a) e" by (subst min_min_bound) blast
    with inherited.hyps(1,2) show ?case by (blast intro: visible.inherited)
  qed
qed

abbreviation newest_first :: "entry list \<Rightarrow> bool" where
  "newest_first es \<equiv> sorted_wrt (\<lambda>x y. e_id y < e_id x) es"

lemma take_upper: "strict ids \<Longrightarrow> take (upperBound ids u) ids = filter (\<lambda>i. le_bound i u) ids"
  by (cases u) (simp_all add: upperBound_filter le_bound_def)

lemma takeWhile_at_least: "strict ids \<Longrightarrow> takeWhile (at_least l) (rev ids) = rev (filter (at_least l) ids)"
proof (induction ids)
  case (Cons i ids)
  show ?case
  proof (cases "at_least l i")
    case True
    with Cons.prems have "\<forall>x \<in> set ids. at_least l x" by (auto simp: at_least_def split: option.splits)
    then show ?thesis using True by (simp add: takeWhile_append2)
  next
    case False
    then show ?thesis using Cons by (cases "filter (at_least l) ids = ids")
        (auto simp: takeWhile_append takeWhile_eq_all_conv filter_id_conv)
  qed
qed simp

lemma own_segment_props:
  assumes "storage_inv s"
  shows "newest_first (own_segment s c l u)"
    "e \<in> set (own_segment s c l u) \<longleftrightarrow>
       (\<exists>i. entries s i = Some e \<and> e_conversationId e = c \<and> le_bound i u \<and> at_least l i)"
proof -
  note ids = entry_ids[OF assms]
  have seg: "own_segment s c l u = map (\<lambda>i. the (entries s i))
      (rev (filter (at_least l) (filter (\<lambda>i. le_bound i u) (ids_of (entryIds s) c))))"
    using takeWhile_at_least[OF sorted_wrt_filter[OF ids(1)]]
    by (simp add: own_segment_def take_upper[OF ids(1)] Let_def)
  have eid: "e_id (the (entries s i)) = i" if "i \<in> set (ids_of (entryIds s) c)" for i
    using that ids(2,5) by force
  have "strict (filter (at_least l) (filter (\<lambda>i. le_bound i u) (ids_of (entryIds s) c)))"
    by (intro sorted_wrt_filter ids(1))
  then show "newest_first (own_segment s c l u)"
    unfolding seg sorted_wrt_map sorted_wrt_rev using eid
    by (elim sorted_wrt_mono_rel[rotated]) auto
  show "e \<in> set (own_segment s c l u) \<longleftrightarrow>
       (\<exists>i. entries s i = Some e \<and> e_conversationId e = c \<and> le_bound i u \<and> at_least l i)"
    unfolding seg using ids(2) by (auto simp: image_iff)
qed

lemma visible_walk_correct:
  assumes "storage_inv s" "ancestry_ok s"
  shows "conversations s c \<noteq> None \<Longrightarrow> nat c < fuel \<Longrightarrow>
    \<exists>es. visible_walk fuel s c l u = Some es \<and> newest_first es \<and>
      (\<forall>e. e \<in> set es \<longleftrightarrow> visible s c u e \<and> at_least l (e_id e))"
proof (induction fuel arbitrary: c u)
  case (Suc fuel)
  then obtain v where v: "conversations s c = Some v" by auto
  note seg = own_segment_props[OF assms(1)]
  have own: "e \<in> set (own_segment s c l u) \<longleftrightarrow>
      (\<exists>i. entries s i = Some e \<and> e_conversationId e = c \<and> le_bound i u) \<and> at_least l (e_id e)" for e
    using seg(2) entry_ids(5)[OF assms(1)] by metis
  show ?case
  proof (cases "c_parent v")
    case None
    then show ?thesis
      using v seg(1) own by (auto simp: visible_iff[of s c])
  next
    case (Some pa)
    then obtain p a where p: "c_parent v = Some (p, a)" by (cases pa) auto
    with assms(2) v have anc: "0 \<le> p" "p < c" "conversations s p \<noteq> None"
      "\<And>i e. entries s i = Some e \<Longrightarrow> e_conversationId e = c \<Longrightarrow> a < i"
      unfolding ancestry_ok_def by blast+
    have vis: "visible s c u e \<longleftrightarrow> (\<exists>i. entries s i = Some e \<and> e_conversationId e = c \<and> le_bound i u) \<or>
        visible s p (min_bound u a) e" for e
      using v p by (auto simp: visible_iff[of s c])
    show ?thesis
    proof (cases "at_least l (the (min_bound u a))")
      case False
      have "\<not> at_least l (e_id e)" if "visible s p (min_bound u a) e" for e
        using visible_bound[OF that assms(1)] False
        by (auto simp: at_least_def le_bound_def min_bound_def split: option.splits)
      then show ?thesis using False v p own vis seg(1) by (auto simp: Let_def)
    next
      case True
      have "nat p < fuel" using Suc.prems(2) anc(1,2) by linarith
      from Suc.IH[OF anc(3) this, of "min_bound u a"] obtain es where
        es: "visible_walk fuel s p l (min_bound u a) = Some es" "newest_first es"
          "\<forall>e. e \<in> set es \<longleftrightarrow> visible s p (min_bound u a) e \<and> at_least l (e_id e)" by blast
      have "e_id y < e_id x" if "x \<in> set (own_segment s c l u)" "y \<in> set es" for x y
      proof -
        have "a < e_id x" using that(1) own anc(4) entry_ids(5)[OF assms(1)] by metis
        moreover have "e_id y \<le> a"
          using es(3) that(2) visible_bound[of s p "min_bound u a" y, OF _ assms(1)] by (auto simp: le_min_bound)
        ultimately show ?thesis by simp
      qed
      then have "newest_first (own_segment s c l u @ es)" using seg(1) es(2) by (auto simp: sorted_wrt_append)
      then show ?thesis using True v p own vis es by (auto simp: Let_def)
    qed
  qed
qed simp

section \<open>The head marker\<close>

lemma find_rev: "List.find P (rev xs) = (if filter P xs = [] then None else Some (last (filter P xs)))"
  by (induction xs rule: rev_induct) auto

lemma find_map: "List.find P (map f xs) = map_option f (List.find (P \<circ> f) xs)"
  by (induction xs) auto

lemma strict_filter_eq:
  assumes "strict xs" "strict ys" "\<And>i. i \<in> set ys \<longleftrightarrow> i \<in> set xs \<and> Q i"
  shows "ys = filter Q xs"
  by (rule strict_sorted_equal) (use assms in \<open>auto intro: sorted_wrt_filter\<close>)

lemma own_head:
  fixes c :: id
  assumes "storage_inv s"
  defines "hids \<equiv> ids_of (headEntryIds s) c"
  shows "List.find (\<lambda>e. e_head e \<noteq> None) (own_segment s c None u) =
    (if upperBound hids u > 0 then entries s (hids ! (upperBound hids u - 1)) else None)"
proof -
  note ids = entry_ids[OF assms(1)]
  let ?ids = "ids_of (entryIds s) c" and ?f = "\<lambda>i. the (entries s i)"
  let ?Q = "\<lambda>i. e_head (?f i) \<noteq> None"
  have all: "takeWhile (at_least None) xs = xs" for xs by (simp add: at_least_def takeWhile_eq_all_conv)
  have "own_segment s c None u = map ?f (rev (take (upperBound ?ids u) ?ids))"
    by (simp only: own_segment_def Let_def all)
  then have seg: "own_segment s c None u = map ?f (rev (filter (\<lambda>i. le_bound i u) ?ids))"
    by (simp add: take_upper[OF ids(1)])
  have "hids = filter ?Q ?ids"
    unfolding hids_def by (rule strict_filter_eq[OF ids(1,3)]) (use ids(2,4) in force)
  then have h: "filter (\<lambda>i. le_bound i u) hids = filter ?Q (filter (\<lambda>i. le_bound i u) ?ids)"
    by (simp add: conj_commute)
  have t: "take (upperBound hids u) hids = filter (\<lambda>i. le_bound i u) hids"
    unfolding hids_def by (rule take_upper[OF ids(3)])
  have n: "upperBound hids u \<le> length hids" unfolding hids_def by (rule upperBound_splits(1)[OF ids(3)])
  have find: "List.find (\<lambda>e. e_head e \<noteq> None) (own_segment s c None u) =
      (if take (upperBound hids u) hids = [] then None else Some (?f (last (take (upperBound hids u) hids))))"
    unfolding seg find_map find_rev t h by (simp add: comp_def)
  show ?thesis
  proof (cases "upperBound hids u > 0")
    case True
    then have "last (take (upperBound hids u) hids) = hids ! (upperBound hids u - 1)"
      using n by (subst last_conv_nth) (auto simp: min_def)
    moreover from this have "hids ! (upperBound hids u - 1) \<in> set hids" using True n by auto
    then have "\<exists>e. entries s (hids ! (upperBound hids u - 1)) = Some e" using ids(4) by (auto simp: hids_def)
    ultimately show ?thesis using find True n by auto
  qed (use find in auto)
qed

lemma head_walk_find:
  assumes "storage_inv s" "ancestry_ok s"
  shows "conversations s c \<noteq> None \<Longrightarrow> nat c < fuel \<Longrightarrow>
    head_walk fuel s c u = map_option (List.find (\<lambda>e. e_head e \<noteq> None)) (visible_walk fuel s c None u)"
proof (induction fuel arbitrary: c u)
  case (Suc fuel)
  then obtain v where v: "conversations s c = Some v" by auto
  note own = own_head[OF assms(1), of c u]
  have found: "\<exists>e. entries s (ids_of (headEntryIds s) c ! (upperBound (ids_of (headEntryIds s) c) u - 1)) = Some e"
    if "upperBound (ids_of (headEntryIds s) c) u > 0"
  proof -
    let ?h = "ids_of (headEntryIds s) c"
    have "upperBound ?h u - 1 < length ?h"
      using that upperBound_splits(1)[OF entry_ids(3)[OF assms(1)], of c u] by linarith
    then have "?h ! (upperBound ?h u - 1) \<in> set ?h" by (rule nth_mem)
    then show ?thesis using entry_ids(4)[OF assms(1)] by blast
  qed
  show ?case
  proof (cases "c_parent v")
    case None
    then show ?thesis using v own found by (auto simp: Let_def)
  next
    case (Some pa)
    then obtain p a where p: "c_parent v = Some (p, a)" by (cases pa) auto
    with assms(2) v have anc: "0 \<le> p" "p < c" "conversations s p \<noteq> None"
      unfolding ancestry_ok_def by blast+
    have "nat p < fuel" using Suc.prems(2) anc(1,2) by linarith
    note IH = Suc.IH[OF anc(3) this, of "min_bound u a"]
    obtain es where "visible_walk fuel s p None (min_bound u a) = Some es"
      using visible_walk_correct[OF assms anc(3) \<open>nat p < fuel\<close>] by blast
    then show ?thesis
      using v own found p IH by (auto simp: Let_def at_least_def find_append)
  qed
qed simp

section \<open>Paging through the history\<close>

definition entry_rest :: "storage \<times> id \<times> id option \<times> id option \<Rightarrow> id option \<Rightarrow> entry list" where
  "entry_rest q cursor = (case q of (s, c, l, u) \<Rightarrow>
     the (visible_walk (Suc (nat c)) s c l (case cursor of None \<Rightarrow> u | Some a \<Rightarrow> min_bound u (a - 1))))"

definition entry_scan_ok :: "storage \<times> id \<times> id option \<times> id option \<Rightarrow> bool" where
  "entry_scan_ok q \<longleftrightarrow> (case q of (s, c, l, u) \<Rightarrow> storage_inv s \<and> ancestry_ok s \<and> conversations s c \<noteq> None)"

lemma newest_first_unique:
  "newest_first xs \<Longrightarrow> newest_first ys \<Longrightarrow> set xs = set ys \<Longrightarrow> xs = ys"
proof (induction xs arbitrary: ys)
  case (Cons x xs)
  then obtain y zs where ys: "ys = y # zs" by (cases ys) auto
  have "x = y"
  proof (rule ccontr)
    assume "x \<noteq> y"
    then have "x \<in> set zs" "y \<in> set xs" using Cons.prems(3) ys by auto
    then show False using Cons.prems(1,2) ys by fastforce
  qed
  moreover have "x \<notin> set xs" "y \<notin> set zs" using Cons.prems(1,2) ys by auto
  ultimately have "set xs = set zs" using Cons.prems(3) ys by auto
  with Cons ys \<open>x = y\<close> show ?case by auto
qed simp

lemma entry_rest_props:
  assumes "entry_scan_ok (s, c, l, u)"
  shows "newest_first (entry_rest (s, c, l, u) cur)"
    "e \<in> set (entry_rest (s, c, l, u) cur) \<longleftrightarrow>
       visible s c u e \<and> at_least l (e_id e) \<and> (case cur of None \<Rightarrow> True | Some a \<Rightarrow> e_id e < a)"
proof -
  let ?u = "case cur of None \<Rightarrow> u | Some a \<Rightarrow> min_bound u (a - 1)"
  have ok: "storage_inv s" "ancestry_ok s" "conversations s c \<noteq> None"
    using assms by (auto simp: entry_scan_ok_def)
  from visible_walk_correct[OF ok(1,2,3), of "Suc (nat c)" l ?u] obtain es where
    es: "visible_walk (Suc (nat c)) s c l ?u = Some es" "newest_first es"
      "\<forall>e. e \<in> set es \<longleftrightarrow> visible s c ?u e \<and> at_least l (e_id e)" by blast
  then have r: "entry_rest (s, c, l, u) cur = es" by (simp add: entry_rest_def del: visible_walk.simps)
  show "newest_first (entry_rest (s, c, l, u) cur)" using es r by simp
  show "e \<in> set (entry_rest (s, c, l, u) cur) \<longleftrightarrow>
       visible s c u e \<and> at_least l (e_id e) \<and> (case cur of None \<Rightarrow> True | Some a \<Rightarrow> e_id e < a)"
    using es(3) visible_min[OF ok(1)] by (auto simp: r split: option.splits)
qed

interpretation entry_paging: keyset_paging entry_scan_ok e_id entry_rest
proof
  fix q cur xs x ys
  assume ok: "entry_scan_ok q" and r: "entry_rest q cur = xs @ x # ys"
  obtain s c l u where q: "q = (s, c, l, u)" by (cases q)
  note pr = entry_rest_props[OF ok[unfolded q]]
  have srt: "newest_first (xs @ x # ys)" using pr(1)[of cur] r q by simp
  have mem: "e \<in> set (xs @ x # ys) \<longleftrightarrow>
      visible s c u e \<and> at_least l (e_id e) \<and> (case cur of None \<Rightarrow> True | Some a \<Rightarrow> e_id e < a)" for e
    using pr(2)[of e cur] r q by simp
  have x: "case cur of None \<Rightarrow> True | Some a \<Rightarrow> e_id x < a" using mem[of x] by simp
  have "\<forall>z \<in> set xs. e_id x < e_id z" "\<forall>z \<in> set ys. e_id z < e_id x"
    using srt by (simp_all add: sorted_wrt_append)
  then have below: "e \<in> set ys \<longleftrightarrow> e \<in> set (xs @ x # ys) \<and> e_id e < e_id x" for e by fastforce
  have "e \<in> set ys \<longleftrightarrow> e \<in> set (entry_rest q (Some (e_id x)))" for e
    unfolding below mem q pr(2)[of e "Some (e_id x)"] using x by (auto split: option.splits)
  then have "set (entry_rest q (Some (e_id x))) = set ys" by blast
  moreover have "newest_first ys" using srt by (simp add: sorted_wrt_append)
  ultimately show "entry_rest q (Some (e_id x)) = ys"
    using newest_first_unique pr(1)[of "Some (e_id x)"] q by blast
qed

lemma scanEntries_eq:
  assumes "entry_scan_ok (s, c, l, u)" "\<not> st_closed s"
  shows "scanEntries (Suc (nat c)) s (c, l, u) cur limit = Some (Inr (entry_paging.scan (s, c, l, u) limit cur))"
proof -
  have ok: "storage_inv s" "ancestry_ok s" "conversations s c \<noteq> None"
    using assms by (auto simp: entry_scan_ok_def)
  obtain es where "visible_walk (Suc (nat c)) s c l (case cur of None \<Rightarrow> u | Some a \<Rightarrow> min_bound u (a - 1)) = Some es"
    using visible_walk_correct[OF ok, of "Suc (nat c)"] by blast
  then show ?thesis
    using ok(3) assms(2)
    by (auto simp: scanEntries_def assertOpen_def entry_paging.scan_def entry_rest_def Let_def simp del: visible_walk.simps)
qed

section \<open>Properties\<close>

text \<open>
  C8. The fork-aware history: paging through \<open>scanEntries\<close> by its cursors, with any page size, returns
  every entry that the conversation sees between the bounds exactly once, newest first: its own
  entries and, up to each fork point, those of its ancestors. The walk over the ancestry ends.
\<close>

theorem scanEntries_complete:
  assumes "reachable s" "ancestry_ok s" "\<not> st_closed s" "conversations s c \<noteq> None" "0 < limit"
  shows "\<exists>es pages. (\<forall>cursor. scanEntries (Suc (nat c)) s (c, lower, upper) cursor limit = Some (Inr (pages cursor))) \<and>
    drain pages (Suc (length es)) None = es \<and> newest_first es \<and>
    (\<forall>e. e \<in> set es \<longleftrightarrow> visible s c upper e \<and> at_least lower (e_id e))"
proof -
  let ?q = "(s, c, lower, upper)"
  have ok: "entry_scan_ok ?q" using assms reachable_inv by (simp add: entry_scan_ok_def)
  show ?thesis
    using entry_rest_props(1)[OF ok, of None] entry_rest_props(2)[OF ok, of _ None] scanEntries_eq[OF ok assms(3)] entry_paging.drain_complete[OF ok assms(5), of None]
    by (intro exI[of _ "entry_rest ?q None"] exI[of _ "entry_paging.scan ?q limit"]) auto
qed

lemma sample_ancestry: "ancestry_ok sample_storage"
proof -
  obtain q where q: "commit new_storage sample_writes = Inr (sample_storage, q)" using sample_commits by blast
  obtain n where n: "sample_storage = (fold (apply_write q) sample_writes new_storage)\<lparr>st_nextSeq := n\<rparr>"
    using commitD[OF q] by metis
  have "conversations sample_storage = written conversation_write sample_writes (conversations new_storage)"
    "entries sample_storage = written entry_write sample_writes (entries new_storage)"
    unfolding n by (simp_all add: commit_tables)
  then have c: "conversations sample_storage = [1 \<mapsto> root_conversation, 5 \<mapsto> \<lparr>c_id = 5, c_parent = Some (1, 2), c_owner = None\<rparr>]"
    "entries sample_storage = [3 \<mapsto> sample_entry 1 3 None, 2 \<mapsto> sample_entry 1 2 (Some 2), 6 \<mapsto> sample_entry 5 6 None]"
    by (simp_all add: written_def sample_writes_def write_views new_storage_def root_conversation_def sample_entry_def)
  show ?thesis
    by (auto simp: ancestry_ok_def c root_conversation_def sample_entry_def split: if_splits)
qed

theorem scanEntries_complete_witness:
  "\<exists>es pages. (\<forall>cursor. scanEntries 6 sample_storage (5, None, None) cursor 1 = Some (Inr (pages cursor))) \<and>
    drain pages (Suc (length es)) None = es \<and> newest_first es \<and>
    (\<forall>e. e \<in> set es \<longleftrightarrow> visible sample_storage 5 None e \<and> at_least None (e_id e))"
proof -
  have "\<not> st_closed sample_storage" "conversations sample_storage 5 \<noteq> None" by code_simp+
  from scanEntries_complete[OF sample_reachable sample_ancestry this, of 1 None None] show ?thesis by simp
qed

text \<open>
  \<open>findLatestHeadMarker\<close>, which searches the head indexes of the ancestry, returns the newest
  visible entry at or below the bound that has a head, or nothing when there is none: the first such
  entry of the history that \<open>visibleEntries\<close> yields.
\<close>

theorem findLatestHeadMarker_newest:
  assumes "reachable s" "ancestry_ok s" "\<not> st_closed s" "conversations s c \<noteq> None"
  shows "\<exists>es. visible_walk (Suc (nat c)) s c None upper = Some es \<and> newest_first es \<and>
    findLatestHeadMarker (Suc (nat c)) s c upper = Some (Inr (List.find (\<lambda>e. e_head e \<noteq> None) es))"
proof -
  have inv: "storage_inv s" by (rule reachable_inv[OF assms(1)])
  obtain es where es: "visible_walk (Suc (nat c)) s c None upper = Some es" "newest_first es"
    using visible_walk_correct[OF inv assms(2,4), of "Suc (nat c)"] by blast
  have "head_walk (Suc (nat c)) s c upper = Some (List.find (\<lambda>e. e_head e \<noteq> None) es)"
    using head_walk_find[OF inv assms(2,4), of "Suc (nat c)" upper] es(1) by simp
  with es assms(3,4) show ?thesis
    by (intro exI[of _ es]) (simp add: findLatestHeadMarker_def assertOpen_def del: visible_walk.simps head_walk.simps)
qed

theorem findLatestHeadMarker_newest_witness:
  "\<exists>es. visible_walk 6 sample_storage 5 None None = Some es \<and> newest_first es \<and>
    findLatestHeadMarker 6 sample_storage 5 None = Some (Inr (List.find (\<lambda>e. e_head e \<noteq> None) es))"
proof -
  have "\<not> st_closed sample_storage" "conversations sample_storage 5 \<noteq> None" by code_simp+
  from findLatestHeadMarker_newest[OF sample_reachable sample_ancestry this, of None]
  show ?thesis by (simp del: visible_walk.simps head_walk.simps)
qed

text \<open>
  Paging through \<open>scanTasks\<close> by its cursors returns exactly the stored tasks that match the query,
  by status index or by filter, each once and in ascending order of their ids.
\<close>

theorem scanTasks_complete:
  assumes "reachable s" "\<not> st_closed s" "0 < limit"
  shows "\<exists>ts pages. (\<forall>cursor. scanTasks s q cursor limit = Inr (pages cursor)) \<and>
    drain pages (Suc (length ts)) None = ts \<and> sorted_wrt (\<lambda>a b. t_id a < t_id b) ts \<and>
    (\<forall>t. t \<in> set ts \<longleftrightarrow> tasks s (t_id t) = Some t \<and> \<not> differs (q_status q) (status_of (t_state t)) \<and> task_matches q t)"
proof -
  have inv: "storage_inv s" by (rule reachable_inv[OF assms(1)])
  note ids = task_ids(1)[OF inv, of q] task_ids(2)[OF inv, of _ q] task_ids(3)[OF inv]
  let ?f = "\<lambda>i. the (tasks s i)"
  have rest: "task_rest (s, q) None = filter (task_matches q) (map ?f (query_ids s q))"
    by (simp add: task_rest_def after_cursor_def)
  have key: "t_id (?f i) = i" if "i \<in> set (query_ids s q)" for i
    using that ids(2,3) by force
  have "sorted_wrt (\<lambda>a b. t_id a < t_id b) (map ?f (query_ids s q))"
    unfolding sorted_wrt_map using ids(1) key by (elim sorted_wrt_mono_rel[rotated]) auto
  then have "sorted_wrt (\<lambda>a b. t_id a < t_id b) (task_rest (s, q) None)"
    unfolding rest by (rule sorted_wrt_filter)
  moreover have "t \<in> set (task_rest (s, q) None) \<longleftrightarrow>
      tasks s (t_id t) = Some t \<and> \<not> differs (q_status q) (status_of (t_state t)) \<and> task_matches q t" for t
  proof -
    have "t \<in> set (map ?f (query_ids s q)) \<longleftrightarrow> (\<exists>i \<in> set (query_ids s q). tasks s i = Some t)"
      using ids(2) by force
    also have "\<dots> \<longleftrightarrow> tasks s (t_id t) = Some t \<and> \<not> differs (q_status q) (status_of (t_state t))"
      using ids(2,3) by force
    finally show ?thesis by (auto simp: rest simp del: set_map)
  qed
  ultimately show ?thesis
    using scanTasks_eq[OF assms(2), of q] task_paging.drain_complete[of "(s, q)" limit None] inv assms(3)
    by (intro exI[of _ "task_rest (s, q) None"] exI[of _ "task_paging.scan (s, q) limit"]) auto
qed

theorem scanTasks_complete_witness:
  "\<exists>ts pages. (\<forall>cursor. scanTasks sample_storage \<lparr>q_conversationId = None, q_kind = None, q_status = Some Pending,
       q_abortRequested = None, q_background = None\<rparr> cursor 3 = Inr (pages cursor)) \<and>
    drain pages (Suc (length ts)) None = ts \<and> sorted_wrt (\<lambda>a b. t_id a < t_id b) ts"
proof -
  have "\<not> st_closed sample_storage" by code_simp
  from scanTasks_complete[OF sample_reachable this, of 3 "\<lparr>q_conversationId = None, q_kind = None,
      q_status = Some Pending, q_abortRequested = None, q_background = None\<rparr>"]
  show ?thesis by auto
qed

end
