(* ===== verification/Messages.thy ===== *)
theory Messages
  imports Json
begin

text \<open>
  The messages of a conversation: content blocks, provider usage, the messages a model sees
  (\<open>packages/ai/src/types.ts\<close>) and those the harness adds, with their conversion for the model
  (\<open>packages/agent/src/harness/messages.ts\<close>) and their text (\<open>packages/ai/src/utils/text.ts\<close>,
  \<open>packages/agent/src/harness/utils/usage.ts\<close>). A field that no code of the development reads is in the
  JSON value that ends its message.
\<close>

section \<open>Usage\<close>

record 'c cost =
  cost_input :: 'c
  cost_output :: 'c
  cost_cacheRead :: 'c
  cost_cacheWrite :: 'c
  cost_total :: 'c

record 'c usage =
  usage_input :: int
  usage_output :: int
  usage_cacheRead :: int
  usage_cacheWrite :: int
  usage_cacheWrite1h :: "int option"
  usage_reasoning :: "int option"
  usage_totalTokens :: int
  usage_cost :: "'c cost"

definition emptyUsage :: "('c :: zero) usage" where
  "emptyUsage =
     \<lparr>usage_input = 0, usage_output = 0, usage_cacheRead = 0, usage_cacheWrite = 0,
      usage_cacheWrite1h = None, usage_reasoning = None, usage_totalTokens = 0,
      usage_cost = \<lparr>cost_input = 0, cost_output = 0, cost_cacheRead = 0, cost_cacheWrite = 0, cost_total = 0\<rparr>\<rparr>"

text \<open>An optional counter of the sum is absent only when it is absent on both sides.\<close>

definition add_optional :: "int option \<Rightarrow> int option \<Rightarrow> int option" where
  "add_optional l r =
     (if l = None \<and> r = None then None
      else Some ((case l of None \<Rightarrow> 0 | Some a \<Rightarrow> a) + (case r of None \<Rightarrow> 0 | Some b \<Rightarrow> b)))"

definition addUsage :: "('c :: plus) usage \<Rightarrow> 'c usage \<Rightarrow> 'c usage" where
  "addUsage l r =
     \<lparr>usage_input = usage_input l + usage_input r,
      usage_output = usage_output l + usage_output r,
      usage_cacheRead = usage_cacheRead l + usage_cacheRead r,
      usage_cacheWrite = usage_cacheWrite l + usage_cacheWrite r,
      usage_cacheWrite1h = add_optional (usage_cacheWrite1h l) (usage_cacheWrite1h r),
      usage_reasoning = add_optional (usage_reasoning l) (usage_reasoning r),
      usage_totalTokens = usage_totalTokens l + usage_totalTokens r,
      usage_cost =
        \<lparr>cost_input = cost_input (usage_cost l) + cost_input (usage_cost r),
         cost_output = cost_output (usage_cost l) + cost_output (usage_cost r),
         cost_cacheRead = cost_cacheRead (usage_cost l) + cost_cacheRead (usage_cost r),
         cost_cacheWrite = cost_cacheWrite (usage_cost l) + cost_cacheWrite (usage_cost r),
         cost_total = cost_total (usage_cost l) + cost_total (usage_cost r)\<rparr>\<rparr>"

section \<open>Content\<close>

datatype content_block =
    TextBlock jstr "jstr option"
  | ThinkingBlock jstr "jstr option" bool
  | ImageBlock jstr jstr
  | ToolCallBlock jstr jstr "(jstr \<times> json) list"

text \<open>\<open>content: string | Block[]\<close>.\<close>

datatype content = PlainText jstr | Blocks "content_block list"

fun block_text :: "content_block \<Rightarrow> jstr option" where
  "block_text (TextBlock t s) = Some t"
| "block_text b = None"

text \<open>\<open>array.join(separator)\<close>.\<close>

fun join_text :: "jstr \<Rightarrow> jstr list \<Rightarrow> jstr" where
  "join_text sep [] = []"
| "join_text sep [x] = x"
| "join_text sep (x # y # zs) = x @ sep @ join_text sep (y # zs)"

text \<open>\<open>filter\<close> and \<open>map\<close> in one pass.\<close>

definition some_of :: "('a \<Rightarrow> 'b option) \<Rightarrow> 'a list \<Rightarrow> 'b list" where
  "some_of f xs = List.map_filter f xs"

fun contentText :: "content \<Rightarrow> jstr \<Rightarrow> jstr" where
  "contentText (PlainText t) sep = t"
| "contentText (Blocks bs) sep = join_text sep (some_of block_text bs)"

definition newline :: jstr where "newline = [10]"

section \<open>Messages\<close>

datatype stop_reason = PendingStop | Stop | LengthStop | ToolUse | ErrorStop | AbortedStop | DeferredStop

record assistant_message =
  as_content :: "content_block list"
  as_api :: jstr
  as_provider :: jstr
  as_model :: jstr
  as_usage :: "number usage"
  as_stopReason :: stop_reason
  as_errorMessage :: "jstr option"
  as_timestamp :: int
  as_other :: json

record tool_result =
  tr_toolCallId :: jstr
  tr_toolName :: jstr
  tr_content :: "content_block list"
  tr_details :: "json option"
  tr_usage :: "number usage option"
  tr_isError :: bool
  tr_timestamp :: int

record tool =
  to_name :: jstr
  to_description :: jstr
  to_parameters :: json
  to_constrainedSampling :: "json option"

text \<open>A tool that a message removes is referred to by its name; a field that is absent is an empty list.\<close>

record system_message =
  sy_content :: content
  sy_sections :: "(jstr \<times> jstr option) list"
  sy_toolsAdded :: "tool list"
  sy_toolsRemoved :: "jstr list"
  sy_timestamp :: int

record bash_execution =
  ba_command :: jstr
  ba_output :: jstr
  ba_exitCode :: "int option"
  ba_cancelled :: bool
  ba_truncated :: bool
  ba_fullOutputPath :: "jstr option"
  ba_timestamp :: int
  ba_excludeFromContext :: bool

record custom_message =
  cu_customType :: jstr
  cu_content :: content
  cu_display :: bool
  cu_details :: "json option"
  cu_timestamp :: int

text \<open>\<open>AgentMessage\<close>: the first four roles are the model's \<open>Message\<close>, the others the harness's.\<close>

datatype agent_message =
    SystemMessage system_message
  | UserMessage content int
  | AssistantMessage assistant_message
  | ToolResultMessage tool_result
  | BashExecutionMessage bash_execution
  | CustomMessage custom_message
  | BranchSummaryMessage jstr "jstr option" int
  | CompactionSummaryMessage jstr int int

fun message_timestamp :: "agent_message \<Rightarrow> int" where
  "message_timestamp (SystemMessage m) = sy_timestamp m"
| "message_timestamp (UserMessage c t) = t"
| "message_timestamp (AssistantMessage m) = as_timestamp m"
| "message_timestamp (ToolResultMessage m) = tr_timestamp m"
| "message_timestamp (BashExecutionMessage m) = ba_timestamp m"
| "message_timestamp (CustomMessage m) = cu_timestamp m"
| "message_timestamp (BranchSummaryMessage s f t) = t"
| "message_timestamp (CompactionSummaryMessage s n t) = t"

fun llm_role :: "agent_message \<Rightarrow> bool" where
  "llm_role (SystemMessage m) = True"
| "llm_role (UserMessage c t) = True"
| "llm_role (AssistantMessage m) = True"
| "llm_role (ToolResultMessage m) = True"
| "llm_role m = False"

fun is_tool_result :: "agent_message \<Rightarrow> bool" where
  "is_tool_result (ToolResultMessage m) = True"
| "is_tool_result m = False"

text \<open>The time stamp of a summary message may be a number or a date string; the storage gives numbers.\<close>

definition createBranchSummaryMessage :: "jstr \<Rightarrow> jstr option \<Rightarrow> int \<Rightarrow> agent_message" where
  "createBranchSummaryMessage summary from_id ts = BranchSummaryMessage summary from_id ts"

definition createCompactionSummaryMessage :: "jstr \<Rightarrow> int \<Rightarrow> int \<Rightarrow> agent_message" where
  "createCompactionSummaryMessage summary tokensBefore ts = CompactionSummaryMessage summary tokensBefore ts"

definition createCustomMessage :: "jstr \<Rightarrow> content \<Rightarrow> bool \<Rightarrow> json option \<Rightarrow> int \<Rightarrow> agent_message" where
  "createCustomMessage customType content display details ts =
     CustomMessage \<lparr>cu_customType = customType, cu_content = content, cu_display = display,
                    cu_details = details, cu_timestamp = ts\<rparr>"

section \<open>Text of messages\<close>

fun nat_text :: "nat \<Rightarrow> jstr" where
  "nat_text n = (if n < 10 then [of_nat (48 + n)] else nat_text (n div 10) @ [of_nat (48 + n mod 10)])"

declare nat_text.simps [simp del]

text \<open>An integer in a template string (below \<open>10 ^ 21\<close>, where JavaScript changes to exponents).\<close>

definition int_text :: "int \<Rightarrow> jstr" where
  "int_text i = (if i < 0 then js ''-'' @ nat_text (nat (- i)) else nat_text (nat i))"

definition COMPACTION_SUMMARY_PREFIX :: jstr where
  "COMPACTION_SUMMARY_PREFIX =
     js ''The conversation history before this point was compacted into the following summary:'' @
     newline @ newline @ js ''<summary>'' @ newline"

definition COMPACTION_SUMMARY_SUFFIX :: jstr where
  "COMPACTION_SUMMARY_SUFFIX = newline @ js ''</summary>''"

definition BRANCH_SUMMARY_PREFIX :: jstr where
  "BRANCH_SUMMARY_PREFIX =
     js ''The following is a summary of a branch that this conversation came back from:'' @
     newline @ newline @ js ''<summary>'' @ newline"

definition BRANCH_SUMMARY_SUFFIX :: jstr where
  "BRANCH_SUMMARY_SUFFIX = js ''</summary>''"

definition bashExecutionToText :: "bash_execution \<Rightarrow> jstr" where
  "bashExecutionToText m =
     js ''Ran `'' @ ba_command m @ js ''`'' @ newline @
     (if ba_output m \<noteq> [] then js ''```'' @ newline @ ba_output m @ newline @ js ''```'' else js ''(no output)'') @
     (if ba_cancelled m then newline @ newline @ js ''(command cancelled)''
      else case ba_exitCode m of
        None \<Rightarrow> []
      | Some c \<Rightarrow> if c \<noteq> 0 then newline @ newline @ js ''Command exited with code '' @ int_text c else []) @
     (case ba_fullOutputPath m of
        None \<Rightarrow> []
      | Some p \<Rightarrow>
          if ba_truncated m \<and> p \<noteq> []
          then newline @ newline @ js ''[Output truncated. Full output: '' @ p @ js '']'' else [])"

text \<open>The message a model sees for a message of the harness, \<open>undefined\<close> for one it does not see.\<close>

fun llm_message :: "agent_message \<Rightarrow> agent_message option" where
  "llm_message (BashExecutionMessage m) =
     (if ba_excludeFromContext m then None
      else Some (UserMessage (Blocks [TextBlock (bashExecutionToText m) None]) (ba_timestamp m)))"
| "llm_message (CustomMessage m) =
     Some (UserMessage (case cu_content m of PlainText t \<Rightarrow> Blocks [TextBlock t None] | Blocks bs \<Rightarrow> Blocks bs)
       (cu_timestamp m))"
| "llm_message (BranchSummaryMessage s f t) =
     Some (UserMessage (Blocks [TextBlock (BRANCH_SUMMARY_PREFIX @ s @ BRANCH_SUMMARY_SUFFIX) None]) t)"
| "llm_message (CompactionSummaryMessage s n t) =
     Some (UserMessage (Blocks [TextBlock (COMPACTION_SUMMARY_PREFIX @ s @ COMPACTION_SUMMARY_SUFFIX) None]) t)"
| "llm_message m = Some m"

definition convertToLlm :: "agent_message list \<Rightarrow> agent_message list" where
  "convertToLlm ms = some_of llm_message ms"

section \<open>Facts on the conversion\<close>

lemma some_of_simps [simp, js_list]:
  "some_of f [] = []"
  "some_of f (x # xs) = (case f x of None \<Rightarrow> some_of f xs | Some y \<Rightarrow> y # some_of f xs)"
  "some_of f (xs @ ys) = some_of f xs @ some_of f ys"
  by (auto simp: some_of_def map_filter_def split: option.splits)

lemma set_some_of: "y \<in> set (some_of f xs) \<longleftrightarrow> (\<exists>x \<in> set xs. f x = Some y)"
  by (induction xs) (auto split: option.splits)

lemma length_some_of: "length (some_of f xs) = length (filter (\<lambda>x. f x \<noteq> None) xs)"
  by (induction xs) (auto split: option.splits)

lemma some_of_id: "(\<And>x. x \<in> set xs \<Longrightarrow> f x = Some x) \<Longrightarrow> some_of f xs = xs"
  by (induction xs) simp_all

text \<open>The conversion yields messages of the model only, and leaves those alone.\<close>

lemma llm_message_role: "llm_message m = Some m' \<Longrightarrow> llm_role m'"
  by (cases m) (auto split: if_splits)

lemma llm_message_fixed: "llm_role m \<Longrightarrow> llm_message m = Some m"
  by (cases m) auto

lemma convertToLlm_role: "m \<in> set (convertToLlm ms) \<Longrightarrow> llm_role m"
  by (auto simp: convertToLlm_def set_some_of intro: llm_message_role)

lemma convertToLlm_idem: "convertToLlm (convertToLlm ms) = convertToLlm ms"
  unfolding convertToLlm_def[of "convertToLlm ms"]
  by (rule some_of_id) (simp add: llm_message_fixed convertToLlm_role)

end
