(* ===== verification/SessionTypes.thy ===== *)
theory SessionTypes
  imports Messages
begin

text \<open>
  The data of the session storage: entries, usage rows, addressed values and lists, the writes of a
  commit and their committed form (\<open>packages/agent/src/harness/session/types.ts\<close>, \<open>values.ts\<close>,
  \<open>commit.ts\<close>, \<open>../utils/usage.ts\<close>).

  Sequence numbers, time stamps and token counts are integers. The payloads that the storage never
  reads (details, data) are JSON values. Money amounts are doubles in the code; they are a type
  \<open>'c\<close> with an addition of which no law is assumed, so that rounding is covered.
\<close>

section \<open>Entries\<close>

datatype entry_type = MessageType | CompactionType | BranchSummaryType | CustomType

text \<open>The fields of one kind of entry, without those that every entry has.\<close>

datatype entry_body =
    Message agent_message bool
  | Compaction jstr "agent_message list" int "json option" "json option" bool
  | BranchSummary "jstr option" jstr "json option" "json option" bool
  | Custom "json option"

fun type_of :: "entry_body \<Rightarrow> entry_type" where
  "type_of (Message m t) = MessageType"
| "type_of (Compaction s r n d u h) = CompactionType"
| "type_of (BranchSummary f s d u h) = BranchSummaryType"
| "type_of (Custom d) = CustomType"

text \<open>\<open>NewEntry\<close> is an entry before the storage assigns its sequence and time stamp.\<close>

record new_entry =
  entry_id :: jstr
  entry_parentId :: "jstr option"
  entry_customType :: "jstr option"
  entry_body :: entry_body

record session_entry = new_entry +
  entry_seq :: int
  entry_timestamp :: int

definition entry_type :: "'z new_entry_scheme \<Rightarrow> entry_type" where
  "entry_type e = type_of (entry_body e)"

record entry_structure =
  structure_id :: jstr
  structure_parentId :: "jstr option"
  structure_seq :: int
  structure_timestamp :: int
  structure_type :: entry_type
  structure_customType :: "jstr option"

section \<open>Usage rows\<close>

record 'c new_usage_row =
  row_id :: jstr
  row_usage :: "'c usage"
  row_entryId :: "jstr option"
  row_adjustment :: bool
  row_details :: "json option"

record 'c usage_row = "'c new_usage_row" +
  row_seq :: int

record 'c session_stats =
  messageCount :: nat
  stats_usage :: "'c usage"

section \<open>Addresses\<close>

datatype address_kind = ValueKind | ListKind

record address =
  ad_namespace :: jstr
  ad_key :: jstr
  ad_kind :: address_kind

datatype address_error = EmptyNamespace | NulInNamespace | NulInKey

definition validateAddress :: "jstr \<Rightarrow> jstr \<Rightarrow> address_error + unit" where
  "validateAddress ns k =
     bindE (guardE (ns \<noteq> []) EmptyNamespace) (\<lambda>_.
     bindE (guardE (0 \<notin> set ns) NulInNamespace) (\<lambda>_.
     guardE (0 \<notin> set k) NulInKey))"

definition value_address :: "jstr \<Rightarrow> jstr \<Rightarrow> address_error + address" where
  "value_address ns k =
     bindE (validateAddress ns k) (\<lambda>_. Inr \<lparr>ad_namespace = ns, ad_key = k, ad_kind = ValueKind\<rparr>)"

definition list_address :: "jstr \<Rightarrow> jstr \<Rightarrow> address_error + address" where
  "list_address ns k =
     bindE (validateAddress ns k) (\<lambda>_. Inr \<lparr>ad_namespace = ns, ad_key = k, ad_kind = ListKind\<rparr>)"

definition valid_address :: "jstr \<Rightarrow> jstr \<Rightarrow> bool" where
  "valid_address ns k \<longleftrightarrow> ns \<noteq> [] \<and> 0 \<notin> set ns \<and> 0 \<notin> set k"

lemma validateAddress_iff [result_simps]: "validateAddress ns k = Inr u \<longleftrightarrow> valid_address ns k"
  by (auto simp: validateAddress_def valid_address_def bindE_eq_Inr)

lemma value_address_iff [result_simps]:
  "value_address ns k = Inr a \<longleftrightarrow> valid_address ns k \<and> a = \<lparr>ad_namespace = ns, ad_key = k, ad_kind = ValueKind\<rparr>"
  by (auto simp: value_address_def bindE_eq_Inr validateAddress_iff)

lemma list_address_iff [result_simps]:
  "list_address ns k = Inr a \<longleftrightarrow> valid_address ns k \<and> a = \<lparr>ad_namespace = ns, ad_key = k, ad_kind = ListKind\<rparr>"
  by (auto simp: list_address_def bindE_eq_Inr validateAddress_iff)

section \<open>Writes\<close>

datatype 'c session_write =
    EntryWrite new_entry
  | UsageWrite "'c new_usage_row"
  | ValueSetWrite jstr jstr json
  | ValueDeleteWrite jstr jstr
  | ListAppendWrite jstr jstr json
  | ListDeleteWrite jstr jstr

definition insertEntry :: "new_entry \<Rightarrow> 'c session_write" where
  "insertEntry e = EntryWrite e"

definition insertUsage :: "'c new_usage_row \<Rightarrow> 'c session_write" where
  "insertUsage r = UsageWrite r"

definition setValue :: "address \<Rightarrow> json \<Rightarrow> 'c session_write" where
  "setValue a v = ValueSetWrite (ad_namespace a) (ad_key a) v"

definition deleteValue :: "address \<Rightarrow> 'c session_write" where
  "deleteValue a = ValueDeleteWrite (ad_namespace a) (ad_key a)"

definition appendList :: "address \<Rightarrow> json \<Rightarrow> 'c session_write" where
  "appendList a v = ListAppendWrite (ad_namespace a) (ad_key a) v"

definition deleteList :: "address \<Rightarrow> 'c session_write" where
  "deleteList a = ListDeleteWrite (ad_namespace a) (ad_key a)"

datatype 'c committed_write =
    CommittedEntry session_entry
  | CommittedUsage "'c usage_row"
  | CommittedValueSet int jstr jstr json
  | CommittedValueDelete int jstr jstr
  | CommittedListAppend int jstr jstr json
  | CommittedListDelete int jstr jstr

fun write_seq :: "'c committed_write \<Rightarrow> int" where
  "write_seq (CommittedEntry e) = entry_seq e"
| "write_seq (CommittedUsage r) = row_seq r"
| "write_seq (CommittedValueSet q ns k v) = q"
| "write_seq (CommittedValueDelete q ns k) = q"
| "write_seq (CommittedListAppend q ns k v) = q"
| "write_seq (CommittedListDelete q ns k) = q"

definition materializeCommittedEntry :: "new_entry \<Rightarrow> int \<Rightarrow> int \<Rightarrow> session_entry" where
  "materializeCommittedEntry e q t =
     \<lparr>entry_id = entry_id e, entry_parentId = entry_parentId e, entry_customType = entry_customType e,
      entry_body = entry_body e, entry_seq = q, entry_timestamp = t\<rparr>"

fun commitWrite :: "'c session_write \<Rightarrow> int \<Rightarrow> int \<Rightarrow> 'c committed_write" where
  "commitWrite (EntryWrite e) q t = CommittedEntry (materializeCommittedEntry e q t)"
| "commitWrite (UsageWrite r) q t =
     CommittedUsage \<lparr>row_id = row_id r, row_usage = row_usage r, row_entryId = row_entryId r,
       row_adjustment = row_adjustment r, row_details = row_details r, row_seq = q\<rparr>"
| "commitWrite (ValueSetWrite ns k v) q t = CommittedValueSet q ns k v"
| "commitWrite (ValueDeleteWrite ns k) q t = CommittedValueDelete q ns k"
| "commitWrite (ListAppendWrite ns k v) q t = CommittedListAppend q ns k v"
| "commitWrite (ListDeleteWrite ns k) q t = CommittedListDelete q ns k"

lemma commitWrite_seq [simp]: "write_seq (commitWrite w q t) = q"
  by (cases w) (auto simp: materializeCommittedEntry_def)

record commit_result =
  result_firstSeq :: int
  result_seqs :: "int list"
  result_timestamp :: int

record 'c prepared_commit =
  prepared_writes :: "'c committed_write list"
  prepared_result :: commit_result

definition prepareStorageCommit :: "'c session_write list \<Rightarrow> int \<Rightarrow> int \<Rightarrow> 'c prepared_commit" where
  "prepareStorageCommit ws q t =
     (let cs = map (\<lambda>(w, i). commitWrite w (q + int i) t) (zip ws [0..<length ws])
      in \<lparr>prepared_writes = cs,
          prepared_result = \<lparr>result_firstSeq = q, result_seqs = map write_seq cs, result_timestamp = t\<rparr>\<rparr>)"

section \<open>Stored values and read options\<close>

record stored_value =
  stored_address :: address
  stored_json :: json
  stored_seq :: int

record list_element =
  element_seq :: int
  element_json :: json

datatype read_order = Asc | Desc

record list_read_options =
  read_cursor :: "int option"
  read_order :: "read_order option"
  read_limit :: "number option"

record resolved_list_read =
  resolved_cursor :: "int option"
  resolved_order :: read_order
  resolved_limit :: int

datatype session_error =
    BadLimit
  | BadAddress address_error
  | NonMonotonicSeq int
  | DuplicateId jstr
  | MissingParent jstr
  | UnknownBranchStart jstr
  | CorruptBranch
  | UnknownSourceBranch jstr
  | CorruptSourceBranch
  | ForkEntryNotOnBranch "jstr option" jstr
  | NotAConfiguredLane jstr
  | UnknownReservedNamespace jstr
  | BadHighWaterMark number

fun safe_integer :: "number \<Rightarrow> int option" where
  "safe_integer (NInt i) = (if isSafeInteger (NInt i) then Some i else None)"
| "safe_integer (NDbl d) = None"

definition resolveListReadOptions :: "list_read_options \<Rightarrow> session_error + resolved_list_read" where
  "resolveListReadOptions opts =
     (case safe_integer (case read_limit opts of None \<Rightarrow> NInt 1000 | Some n \<Rightarrow> n) of
        None \<Rightarrow> Inl BadLimit
      | Some l \<Rightarrow>
          if l \<le> 0 then Inl BadLimit
          else Inr \<lparr>resolved_cursor = read_cursor opts,
                    resolved_order = (case read_order opts of None \<Rightarrow> Asc | Some o' \<Rightarrow> o'),
                    resolved_limit = min l 10000\<rparr>)"

section \<open>The addresses of the session layer\<close>

definition sc :: "jstr \<Rightarrow> jstr \<Rightarrow> jstr" where
  "sc a b = a @ js '':'' @ b"

abbreviation val :: "string \<Rightarrow> jstr \<Rightarrow> address_error + address" where
  "val ns k \<equiv> value_address (js ns) k"

definition branchTip :: "jstr \<Rightarrow> address_error + address" where
  "branchTip b = val ''pi.branch.tip'' b"
definition laneConfig :: "jstr \<Rightarrow> address_error + address" where
  "laneConfig l = val ''pi.lane.config'' l"
definition laneState :: "jstr \<Rightarrow> address_error + address" where
  "laneState l = val ''pi.lane.state'' l"
definition operationResult :: "jstr \<Rightarrow> address_error + address" where
  "operationResult x = val ''pi.result'' x"
definition operationMeta :: "jstr \<Rightarrow> address_error + address" where
  "operationMeta x = val ''pi.op.meta'' x"
definition operationState :: "jstr \<Rightarrow> address_error + address" where
  "operationState x = val ''pi.op.state'' x"
definition operationPreparation :: "jstr \<Rightarrow> jstr \<Rightarrow> address_error + address" where
  "operationPreparation x t = val ''pi.op.preparation'' (sc x t)"
definition operationToolMemo :: "jstr \<Rightarrow> jstr \<Rightarrow> jstr \<Rightarrow> address_error + address" where
  "operationToolMemo x i n = val ''pi.op.tool_memo'' (sc x (sc i n))"
definition pendingEntry :: "jstr \<Rightarrow> address_error + address" where
  "pendingEntry x = val ''pi.pending.entry'' x"
definition pendingToolOutput :: "jstr \<Rightarrow> jstr \<Rightarrow> address_error + address" where
  "pendingToolOutput x i = val ''pi.pending.tool_output'' (sc x i)"
definition pendingAssistantFrames :: "jstr \<Rightarrow> jstr \<Rightarrow> address_error + address" where
  "pendingAssistantFrames x r = list_address (js ''pi.pending.assistant_frame'') (sc x r)"
definition sessionName :: "address_error + address" where
  "sessionName = val ''pi.session.name'' []"
definition entryLabel :: "jstr \<Rightarrow> address_error + address" where
  "entryLabel x = val ''pi.entry.label'' x"

end
