(* ===== verification/SessionState.thy ===== *)
theory SessionState
  imports SessionTypes "HOL-Library.List_Lexorder"
begin

text \<open>
  \<open>InMemoryStorageState\<close> (\<open>packages/agent/src/harness/session/in-memory-storage-state.ts\<close>) and
  \<open>MemoryStorage.commit\<close> (\<open>memory.ts\<close>), without forking. A JavaScript \<open>Map\<close> is an association list in
  insertion order: \<open>set\<close> is \<open>AList.update\<close>, \<open>delete\<close> is \<open>AList.delete\<close>.
\<close>

section \<open>State\<close>

record list_snapshot =
  snapshot_address :: address
  snapshot_elements :: "list_element list"

record 'c session_state =
  ss_entries :: "(jstr \<times> session_entry) list"
  ss_entriesBySeq :: "session_entry list"
  ss_scalarValues :: "(jstr \<times> stored_value) list"
  ss_listValues :: "(jstr \<times> list_snapshot) list"
  ss_usage :: "(jstr \<times> 'c usage_row) list"
  ss_stats :: "'c session_stats"
  ss_nextSeq :: int

definition new_session_state :: "('c :: zero) session_state" where
  "new_session_state =
     \<lparr>ss_entries = [], ss_entriesBySeq = [], ss_scalarValues = [], ss_listValues = [], ss_usage = [],
      ss_stats = \<lparr>messageCount = 0, stats_usage = emptyUsage\<rparr>, ss_nextSeq = 1\<rparr>"

definition physicalKey :: "jstr \<Rightarrow> jstr \<Rightarrow> jstr" where
  "physicalKey ns k = ns @ 0 # k"

section \<open>Validation of a commit\<close>

text \<open>The loop state: the previous sequence, the ids and the entry ids of the transaction.\<close>

type_synonym validation = "int \<times> jstr set \<times> jstr set"

definition check_id :: "'c session_state \<Rightarrow> jstr set \<Rightarrow> jstr \<Rightarrow> session_error + unit" where
  "check_id s ids i =
     guardE (\<not> (map_of (ss_entries s) i \<noteq> None \<or> map_of (ss_usage s) i \<noteq> None \<or> i \<in> ids)) (DuplicateId i)"

fun validate_write :: "'c session_state \<Rightarrow> validation \<Rightarrow> 'c committed_write \<Rightarrow> session_error + validation" where
  "validate_write s (prev, ids, eids) w =
     bindE (guardE (prev < write_seq w) (NonMonotonicSeq (write_seq w))) (\<lambda>_.
       case w of
         CommittedEntry e \<Rightarrow>
           bindE (check_id s ids (entry_id e)) (\<lambda>_.
           bindE (case entry_parentId e of
                    None \<Rightarrow> Inr ()
                  | Some p \<Rightarrow> guardE (map_of (ss_entries s) p \<noteq> None \<or> p \<in> eids) (MissingParent p)) (\<lambda>_.
           Inr (write_seq w, insert (entry_id e) ids, insert (entry_id e) eids)))
       | CommittedUsage r \<Rightarrow>
           bindE (check_id s ids (row_id r)) (\<lambda>_. Inr (write_seq w, insert (row_id r) ids, eids))
       | _ \<Rightarrow> Inr (write_seq w, ids, eids))"

definition validateCommittedWrites ::
    "'c committed_write list \<Rightarrow> int \<Rightarrow> 'c session_state \<Rightarrow> session_error + unit" where
  "validateCommittedWrites ws first s =
     bindE (foldE (validate_write s) (first - 1, {}, {}) ws) (\<lambda>_. Inr ())"

definition validateCommitted :: "'c session_state \<Rightarrow> 'c committed_write list \<Rightarrow> session_error + unit" where
  "validateCommitted s ws = validateCommittedWrites ws (ss_nextSeq s) s"

definition prepareCommit ::
    "'c session_state \<Rightarrow> 'c session_write list \<Rightarrow> int \<Rightarrow> session_error + 'c prepared_commit" where
  "prepareCommit s ws t =
     (let p = prepareStorageCommit ws (ss_nextSeq s) t
      in bindE (validateCommitted s (prepared_writes p)) (\<lambda>_. Inr p))"

section \<open>Application of a commit\<close>

definition applyValueSet :: "int \<Rightarrow> jstr \<Rightarrow> jstr \<Rightarrow> json \<Rightarrow> 'c session_state \<Rightarrow> session_error + 'c session_state" where
  "applyValueSet q ns k v s =
     (case value_address ns k of
        Inl e \<Rightarrow> Inl (BadAddress e)
      | Inr a \<Rightarrow> Inr (s\<lparr>ss_scalarValues := AList.update (physicalKey ns k)
                        \<lparr>stored_address = a, stored_json = v, stored_seq = q\<rparr> (ss_scalarValues s)\<rparr>))"

text \<open>Only the first element of a list validates the address.\<close>

definition applyListAppend :: "int \<Rightarrow> jstr \<Rightarrow> jstr \<Rightarrow> json \<Rightarrow> 'c session_state \<Rightarrow> session_error + 'c session_state" where
  "applyListAppend q ns k v s =
     (let el = \<lparr>element_seq = q, element_json = v\<rparr>; pk = physicalKey ns k
      in case map_of (ss_listValues s) pk of
           None \<Rightarrow>
             (case list_address ns k of
                Inl e \<Rightarrow> Inl (BadAddress e)
              | Inr a \<Rightarrow> Inr (s\<lparr>ss_listValues := AList.update pk
                                \<lparr>snapshot_address = a, snapshot_elements = [el]\<rparr> (ss_listValues s)\<rparr>))
         | Some l \<Rightarrow>
             Inr (s\<lparr>ss_listValues := AList.update pk
                    (l\<lparr>snapshot_elements := snapshot_elements l @ [el]\<rparr>) (ss_listValues s)\<rparr>))"

definition put_entry :: "session_entry \<Rightarrow> 'c session_state \<Rightarrow> 'c session_state" where
  "put_entry e s =
     s\<lparr>ss_entries := AList.update (entry_id e) e (ss_entries s),
       ss_entriesBySeq := ss_entriesBySeq s @ [e],
       ss_stats := (if entry_type e = MessageType
                    then (ss_stats s)\<lparr>messageCount := messageCount (ss_stats s) + 1\<rparr> else ss_stats s)\<rparr>"

definition put_usage :: "('c :: plus) usage_row \<Rightarrow> 'c session_state \<Rightarrow> 'c session_state" where
  "put_usage r s =
     s\<lparr>ss_usage := AList.update (row_id r) r (ss_usage s),
       ss_stats := (ss_stats s)\<lparr>stats_usage := addUsage (stats_usage (ss_stats s)) (row_usage r)\<rparr>\<rparr>"

fun apply_body :: "('c :: plus) committed_write \<Rightarrow> 'c session_state \<Rightarrow> session_error + 'c session_state" where
  "apply_body (CommittedEntry e) s = Inr (put_entry e s)"
| "apply_body (CommittedUsage r) s = Inr (put_usage r s)"
| "apply_body (CommittedValueSet q ns k v) s = applyValueSet q ns k v s"
| "apply_body (CommittedValueDelete q ns k) s =
     Inr (s\<lparr>ss_scalarValues := AList.delete (physicalKey ns k) (ss_scalarValues s)\<rparr>)"
| "apply_body (CommittedListAppend q ns k v) s = applyListAppend q ns k v s"
| "apply_body (CommittedListDelete q ns k) s =
     Inr (s\<lparr>ss_listValues := AList.delete (physicalKey ns k) (ss_listValues s)\<rparr>)"

definition apply_committed :: "('c :: plus) committed_write \<Rightarrow> 'c session_state \<Rightarrow> session_error + 'c session_state" where
  "apply_committed w s = bindE (apply_body w s) (\<lambda>s'. Inr (s'\<lparr>ss_nextSeq := write_seq w + 1\<rparr>))"

text \<open>The state is mutated in place: after an exception the writes before it stay applied.\<close>

fun applyValidated :: "('c :: plus) committed_write list \<Rightarrow> 'c session_state \<Rightarrow> session_error option \<times> 'c session_state" where
  "applyValidated [] s = (None, s)"
| "applyValidated (w # ws) s =
     (case apply_committed w s of Inl e \<Rightarrow> (Some e, s) | Inr s' \<Rightarrow> applyValidated ws s')"

text \<open>\<open>MemoryStorage.commit\<close>: the result, or the error, and the state it leaves.\<close>

definition memory_commit ::
    "'c session_state \<Rightarrow> ('c :: plus) session_write list \<Rightarrow> int \<Rightarrow>
       (session_error + (commit_result \<times> 'c session_stats)) \<times> 'c session_state" where
  "memory_commit s ws now =
     (case prepareCommit s ws now of
        Inl e \<Rightarrow> (Inl e, s)
      | Inr p \<Rightarrow>
          (case applyValidated (prepared_writes p) s of
             (Some e, s') \<Rightarrow> (Inl e, s')
           | (None, s') \<Rightarrow> (Inr (prepared_result p, ss_stats s'), s')))"

definition advanceNextSeq :: "number \<Rightarrow> 'c session_state \<Rightarrow> session_error + 'c session_state" where
  "advanceNextSeq n s =
     (case safe_integer n of
        None \<Rightarrow> Inl (BadHighWaterMark n)
      | Some q \<Rightarrow> if q < 1 then Inl (BadHighWaterMark n)
                  else Inr (s\<lparr>ss_nextSeq := max (ss_nextSeq s) q\<rparr>))"

section \<open>Reads\<close>

definition getEntry :: "'c session_state \<Rightarrow> jstr \<Rightarrow> session_entry option" where
  "getEntry s i = map_of (ss_entries s) i"

definition getEntries :: "'c session_state \<Rightarrow> jstr list \<Rightarrow> (jstr \<times> session_entry) list" where
  "getEntries s ids =
     fold (\<lambda>i found. case getEntry s i of None \<Rightarrow> found | Some e \<Rightarrow> AList.update i e found) ids []"

definition getValue :: "'c session_state \<Rightarrow> address \<Rightarrow> stored_value option" where
  "getValue s a = map_of (ss_scalarValues s) (physicalKey (ad_namespace a) (ad_key a))"

text \<open>The code points of a string: a surrogate pair counts once, a lone surrogate stands for itself.\<close>

fun code_points :: "jstr \<Rightarrow> nat list" where
  "code_points [] = []"
| "code_points [u] = [unat u]"
| "code_points (u # v # r) =
     (if is_high u \<and> is_low v
      then ((unat u - 0xD800) * 0x400 + (unat v - 0xDC00) + 0x10000) # code_points r
      else unat u # code_points (v # r))"

fun compare_points :: "nat list \<Rightarrow> nat list \<Rightarrow> int" where
  "compare_points [] ys = - int (length ys)"
| "compare_points xs [] = int (length xs)"
| "compare_points (x # xs) (y # ys) = (if x \<noteq> y then int x - int y else compare_points xs ys)"

lemma compare_points_le: "compare_points xs ys \<le> 0 \<longleftrightarrow> xs \<le> ys"
  by (induction xs ys rule: compare_points.induct) auto

definition compareKeys :: "jstr \<Rightarrow> jstr \<Rightarrow> int" where
  "compareKeys l r = compare_points (code_points l) (code_points r)"

definition startsWith :: "jstr \<Rightarrow> jstr \<Rightarrow> bool" where
  "startsWith s p \<longleftrightarrow> take (length p) s = p"

definition scanValues :: "'c session_state \<Rightarrow> address \<Rightarrow> stored_value list" where
  "scanValues s p =
     js_sort (\<lambda>l r. compareKeys (ad_key (stored_address l)) (ad_key (stored_address r)))
       (filter (\<lambda>v. ad_namespace (stored_address v) = ad_namespace p \<and> startsWith (ad_key (stored_address v)) (ad_key p))
         (map snd (ss_scalarValues s)))"

definition readList :: "'c session_state \<Rightarrow> address \<Rightarrow> list_read_options \<Rightarrow> session_error + list_element list" where
  "readList s a opts =
     bindE (resolveListReadOptions opts) (\<lambda>r.
       let els = (case map_of (ss_listValues s) (physicalKey (ad_namespace a) (ad_key a)) of
                    None \<Rightarrow> [] | Some l \<Rightarrow> snapshot_elements l);
           kept = filter (\<lambda>el. case resolved_cursor r of None \<Rightarrow> True
                                | Some c \<Rightarrow> if resolved_order r = Asc then c < element_seq el else element_seq el < c) els;
           ordered = (if resolved_order r = Asc then kept else rev kept)
       in Inr (take (nat (resolved_limit r)) ordered))"

datatype branch_order = NewestFirst | OldestFirst

record branch_scan =
  scan_start :: jstr
  scan_stopAtType :: "entry_type option"
  scan_stopAtId :: "jstr option"
  scan_type :: "entry_type option"
  scan_customType :: "jstr option"
  scan_order :: branch_order
  scan_limit :: "int option"
  scan_cursor :: "int option"

text \<open>
  The walk to the root: the outer \<open>None\<close> means that the loop has not ended within \<open>n\<close> steps, an error
  that a parent is missing.
\<close>

fun branch_walk :: "nat \<Rightarrow> (jstr \<times> session_entry) list \<Rightarrow> session_entry \<Rightarrow> (session_error + session_entry list) option" where
  "branch_walk 0 es e = None"
| "branch_walk (Suc n) es e =
     (case entry_parentId e of
        None \<Rightarrow> Some (Inr [e])
      | Some p \<Rightarrow>
          (case map_of es p of
             None \<Rightarrow> Some (Inl CorruptBranch)
           | Some q \<Rightarrow> map_option (\<lambda>r. bindE r (\<lambda>path. Inr (e # path))) (branch_walk n es q)))"

fun until_stop :: "(session_entry \<Rightarrow> bool) \<Rightarrow> session_entry list \<Rightarrow> session_entry list" where
  "until_stop stop [] = []"
| "until_stop stop (e # es) = (if stop e then [e] else e # until_stop stop es)"

definition limited :: "int option \<Rightarrow> 'a list \<Rightarrow> 'a list" where
  "limited l xs = (case l of None \<Rightarrow> xs | Some n \<Rightarrow> take (nat n) xs)"

definition wanted :: "entry_type option \<Rightarrow> jstr option \<Rightarrow> session_entry \<Rightarrow> bool" where
  "wanted t c e \<longleftrightarrow> (t = None \<or> t = Some (entry_type e)) \<and> (c = None \<or> c = entry_customType e)"

definition branch_selected :: "branch_scan \<Rightarrow> session_entry \<Rightarrow> bool" where
  "branch_selected q e \<longleftrightarrow>
     wanted (scan_type q) (scan_customType q) e \<and>
     (case scan_cursor q of None \<Rightarrow> True
      | Some c \<Rightarrow> if scan_order q = OldestFirst then c < entry_seq e else entry_seq e < c)"

definition branch_stop :: "branch_scan \<Rightarrow> session_entry \<Rightarrow> bool" where
  "branch_stop q e \<longleftrightarrow> scan_stopAtId q = Some (entry_id e) \<or> scan_stopAtType q = Some (entry_type e)"

definition scan_path :: "branch_scan \<Rightarrow> session_entry list \<Rightarrow> session_entry list" where
  "scan_path q path =
     limited (scan_limit q)
       (filter (branch_selected q)
         (until_stop (branch_stop q) (if scan_order q = OldestFirst then rev path else path)))"

definition scanBranch :: "'c session_state \<Rightarrow> branch_scan \<Rightarrow> (session_error + session_entry list) option" where
  "scanBranch s q =
     (case getEntry s (scan_start q) of
        None \<Rightarrow> Some (Inl (UnknownBranchStart (scan_start q)))
      | Some e \<Rightarrow>
          map_option (\<lambda>r. bindE r (\<lambda>path. Inr (scan_path q path)))
            (branch_walk (Suc (length (ss_entries s))) (ss_entries s) e))"

definition structure_of :: "session_entry \<Rightarrow> entry_structure" where
  "structure_of e =
     \<lparr>structure_id = entry_id e, structure_parentId = entry_parentId e, structure_seq = entry_seq e,
      structure_timestamp = entry_timestamp e, structure_type = entry_type e,
      structure_customType = entry_customType e\<rparr>"

definition scanBranchStructure :: "'c session_state \<Rightarrow> branch_scan \<Rightarrow> (session_error + entry_structure list) option" where
  "scanBranchStructure s q = map_option (\<lambda>r. bindE r (\<lambda>es. Inr (map structure_of es))) (scanBranch s q)"

record entry_scan =
  es_type :: "entry_type option"
  es_customType :: "jstr option"
  es_fromSeq :: "int option"
  es_toSeq :: "int option"
  es_order :: "read_order option"
  es_limit :: "int option"

definition in_seq_range :: "int option \<Rightarrow> int option \<Rightarrow> int \<Rightarrow> bool" where
  "in_seq_range l u q \<longleftrightarrow>
     (case l of None \<Rightarrow> True | Some a \<Rightarrow> a \<le> q) \<and> (case u of None \<Rightarrow> True | Some b \<Rightarrow> q \<le> b)"

text \<open>
  The index loop of \<open>scanEntries\<close>: it runs over the remaining entries in the scan direction and stops
  when \<open>limit\<close> entries are collected.
\<close>

fun scan_loop :: "(session_entry \<Rightarrow> bool) \<Rightarrow> nat option \<Rightarrow> session_entry list \<Rightarrow> session_entry list \<Rightarrow> session_entry list" where
  "scan_loop P limit [] acc = acc"
| "scan_loop P limit (e # es) acc =
     (if (case limit of None \<Rightarrow> True | Some l \<Rightarrow> length acc < l)
      then scan_loop P limit es (if P e then acc @ [e] else acc)
      else acc)"

definition session_scanEntries :: "'c session_state \<Rightarrow> entry_scan \<Rightarrow> session_entry list" where
  "session_scanEntries s q =
     scan_loop (\<lambda>e. wanted (es_type q) (es_customType q) e \<and> in_seq_range (es_fromSeq q) (es_toSeq q) (entry_seq e))
       (map_option nat (es_limit q))
       (if es_order q = Some Desc then rev (ss_entriesBySeq s) else ss_entriesBySeq s) []"

record usage_scan =
  us_fromSeq :: "int option"
  us_toSeq :: "int option"
  us_order :: "read_order option"
  us_limit :: "int option"

definition scanUsage :: "'c session_state \<Rightarrow> usage_scan \<Rightarrow> 'c usage_row list" where
  "scanUsage s q =
     limited (us_limit q)
       (js_sort (\<lambda>l r. if us_order q = Some Desc then row_seq r - row_seq l else row_seq l - row_seq r)
         (filter (\<lambda>r. in_seq_range (us_fromSeq q) (us_toSeq q) (row_seq r)) (map snd (ss_usage s))))"

definition getStats :: "'c session_state \<Rightarrow> 'c session_stats" where
  "getStats s = ss_stats s"

end
