(* ===== verification/SessionInvariant.thy ===== *)
theory SessionInvariant
  imports SessionState Forest
begin

text \<open>
  The representation invariant of the session storage and its preservation by validated commits: ids
  are unique over entries and usage rows, sequences increase, every parent is an earlier entry, the
  cached totals are those of the stored rows, and every stored address is valid.
\<close>

named_theorems session_parts \<open>the parts of the session invariant\<close>

section \<open>Tables keyed by id and ordered by sequence\<close>

definition seq_table :: "('a \<Rightarrow> jstr) \<Rightarrow> ('a \<Rightarrow> int) \<Rightarrow> int \<Rightarrow> (jstr \<times> 'a) list \<Rightarrow> bool" where
  "seq_table key seq hi tab \<longleftrightarrow>
     (\<forall>(k, x) \<in> set tab. k = key x) \<and> distinct (map fst tab) \<and>
     sorted_wrt (<) (map (seq \<circ> snd) tab) \<and> (\<forall>(k, x) \<in> set tab. 1 \<le> seq x \<and> seq x < hi)"

lemma seq_table_empty [simp]: "seq_table key seq hi []"
  by (simp add: seq_table_def)

lemma seq_table_mono: "seq_table key seq hi tab \<Longrightarrow> hi \<le> hi' \<Longrightarrow> seq_table key seq hi' tab"
  by (fastforce simp: seq_table_def)

lemma update_new: "map_of tab k = None \<Longrightarrow> AList.update k v tab = tab @ [(k, v)]"
  by (induction tab) auto

lemma seq_table_add:
  assumes "seq_table key seq hi tab" "map_of tab (key x) = None" "hi \<le> seq x" "1 \<le> hi"
  shows "seq_table key seq (seq x + 1) (AList.update (key x) x tab)"
  using assms by (fastforce simp: seq_table_def update_new sorted_wrt_append map_of_eq_None_iff)

lemma seq_table_lookup: "seq_table key seq hi tab \<Longrightarrow> map_of tab k = Some x \<Longrightarrow> key x = k \<and> 1 \<le> seq x \<and> seq x < hi"
  by (auto simp: seq_table_def dest!: map_of_SomeD)

lemma seq_table_filter: "seq_table key seq hi tab \<Longrightarrow> seq_table key seq hi (filter P tab)"
  by (auto simp: seq_table_def sorted_wrt_map sorted_wrt_filter distinct_map_filter)

lemma seq_table_map_of: "seq_table key seq hi tab \<Longrightarrow> map_of tab k = Some x \<longleftrightarrow> (k, x) \<in> set tab"
  by (simp add: seq_table_def)

section \<open>The invariant\<close>

definition entries_inv :: "'c session_state \<Rightarrow> bool" where
  "entries_inv s \<longleftrightarrow>
     seq_table entry_id entry_seq (ss_nextSeq s) (ss_entries s) \<and>
     ss_entriesBySeq s = map snd (ss_entries s) \<and>
     (\<forall>(k, e) \<in> set (ss_entries s). \<forall>p. entry_parentId e = Some p \<longrightarrow>
        (\<exists>q. map_of (ss_entries s) p = Some q \<and> entry_seq q < entry_seq e))"

definition usage_inv :: "'c session_state \<Rightarrow> bool" where
  "usage_inv s \<longleftrightarrow>
     seq_table row_id row_seq (ss_nextSeq s) (ss_usage s) \<and>
     fst ` set (ss_usage s) \<inter> fst ` set (ss_entries s) = {}"

definition values_inv :: "'c session_state \<Rightarrow> bool" where
  "values_inv s \<longleftrightarrow>
     distinct (map fst (ss_scalarValues s)) \<and>
     (\<forall>(k, v) \<in> set (ss_scalarValues s).
        k = physicalKey (ad_namespace (stored_address v)) (ad_key (stored_address v)) \<and>
        valid_address (ad_namespace (stored_address v)) (ad_key (stored_address v)) \<and>
        ad_kind (stored_address v) = ValueKind \<and> 1 \<le> stored_seq v \<and> stored_seq v < ss_nextSeq s)"

definition snapshot_ok :: "int \<Rightarrow> jstr \<Rightarrow> list_snapshot \<Rightarrow> bool" where
  "snapshot_ok hi k l \<longleftrightarrow>
     k = physicalKey (ad_namespace (snapshot_address l)) (ad_key (snapshot_address l)) \<and>
     valid_address (ad_namespace (snapshot_address l)) (ad_key (snapshot_address l)) \<and>
     ad_kind (snapshot_address l) = ListKind \<and> snapshot_elements l \<noteq> [] \<and>
     sorted_wrt (<) (map element_seq (snapshot_elements l)) \<and>
     (\<forall>el \<in> set (snapshot_elements l). 1 \<le> element_seq el \<and> element_seq el < hi)"

definition lists_inv :: "'c session_state \<Rightarrow> bool" where
  "lists_inv s \<longleftrightarrow>
     distinct (map fst (ss_listValues s)) \<and> (\<forall>(k, l) \<in> set (ss_listValues s). snapshot_ok (ss_nextSeq s) k l)"

definition total_usage :: "('c :: {zero, plus}) usage_row list \<Rightarrow> 'c usage" where
  "total_usage rows = foldl addUsage emptyUsage (map row_usage rows)"

definition stats_inv :: "('c :: {zero, plus}) session_state \<Rightarrow> bool" where
  "stats_inv s \<longleftrightarrow>
     messageCount (ss_stats s) = length (filter (\<lambda>e. entry_type e = MessageType) (ss_entriesBySeq s)) \<and>
     stats_usage (ss_stats s) = total_usage (map snd (ss_usage s))"

definition session_inv :: "('c :: {zero, plus}) session_state \<Rightarrow> bool" where
  "session_inv s \<longleftrightarrow>
     1 \<le> ss_nextSeq s \<and> entries_inv s \<and> usage_inv s \<and> values_inv s \<and> lists_inv s \<and> stats_inv s"

lemmas [session_parts] = entries_inv_def usage_inv_def values_inv_def lists_inv_def stats_inv_def

lemma session_inv_new: "session_inv new_session_state"
  by (simp add: session_inv_def session_parts new_session_state_def total_usage_def)

section \<open>One admissible write\<close>

definition fresh_id :: "'c session_state \<Rightarrow> jstr \<Rightarrow> bool" where
  "fresh_id s i \<longleftrightarrow> map_of (ss_entries s) i = None \<and> map_of (ss_usage s) i = None"

definition admissible :: "'c session_state \<Rightarrow> 'c committed_write \<Rightarrow> bool" where
  "admissible s w \<longleftrightarrow> ss_nextSeq s \<le> write_seq w \<and>
     (case w of
        CommittedEntry e \<Rightarrow> fresh_id s (entry_id e) \<and>
          (\<forall>p. entry_parentId e = Some p \<longrightarrow> map_of (ss_entries s) p \<noteq> None)
      | CommittedUsage r \<Rightarrow> fresh_id s (row_id r)
      | _ \<Rightarrow> True)"

text \<open>The parts of the invariant that a change leaves alone.\<close>

definition raise_seq :: "int \<Rightarrow> 'c session_state \<Rightarrow> 'c session_state" where
  "raise_seq q s = s\<lparr>ss_nextSeq := q\<rparr>"

lemma raise_seq_sel [simp]:
  "ss_entries (raise_seq q s) = ss_entries s" "ss_entriesBySeq (raise_seq q s) = ss_entriesBySeq s"
  "ss_scalarValues (raise_seq q s) = ss_scalarValues s" "ss_listValues (raise_seq q s) = ss_listValues s"
  "ss_usage (raise_seq q s) = ss_usage s" "ss_stats (raise_seq q s) = ss_stats s"
  "ss_nextSeq (raise_seq q s) = q"
  by (simp_all add: raise_seq_def)

lemma snapshot_ok_mono: "snapshot_ok hi k l \<Longrightarrow> hi \<le> hi' \<Longrightarrow> snapshot_ok hi' k l"
  by (fastforce simp: snapshot_ok_def)

lemma values_inv_mono:
  "values_inv s \<Longrightarrow> ss_scalarValues t = ss_scalarValues s \<Longrightarrow> ss_nextSeq s \<le> ss_nextSeq t \<Longrightarrow> values_inv t"
  by (fastforce simp: values_inv_def)

lemma lists_inv_mono:
  "lists_inv s \<Longrightarrow> ss_listValues t = ss_listValues s \<Longrightarrow> ss_nextSeq s \<le> ss_nextSeq t \<Longrightarrow> lists_inv t"
  by (auto simp: lists_inv_def intro: snapshot_ok_mono)

lemma entries_inv_mono:
  "entries_inv s \<Longrightarrow> ss_entries t = ss_entries s \<Longrightarrow> ss_entriesBySeq t = ss_entriesBySeq s \<Longrightarrow>
    ss_nextSeq s \<le> ss_nextSeq t \<Longrightarrow> entries_inv t"
  by (auto simp: entries_inv_def intro: seq_table_mono)

lemma usage_inv_mono:
  "usage_inv s \<Longrightarrow> ss_usage t = ss_usage s \<Longrightarrow> ss_entries t = ss_entries s \<Longrightarrow> ss_nextSeq s \<le> ss_nextSeq t \<Longrightarrow> usage_inv t"
  by (auto simp: usage_inv_def intro: seq_table_mono)

lemma stats_inv_same:
  "stats_inv s \<Longrightarrow> ss_usage t = ss_usage s \<Longrightarrow> ss_entriesBySeq t = ss_entriesBySeq s \<Longrightarrow> ss_stats t = ss_stats s \<Longrightarrow> stats_inv t"
  by (simp add: stats_inv_def)

lemmas inv_mono = values_inv_mono lists_inv_mono entries_inv_mono usage_inv_mono stats_inv_same

lemma inv_raise: "session_inv s \<Longrightarrow> ss_nextSeq s \<le> q \<Longrightarrow> session_inv (raise_seq q s)"
  by (auto simp: session_inv_def intro: inv_mono)

lemma inv_put_entry:
  assumes "session_inv s" "admissible s (CommittedEntry e)"
  shows "session_inv (raise_seq (entry_seq e + 1) (put_entry e s))"
proof -
  let ?t = "raise_seq (entry_seq e + 1) (put_entry e s)"
  have q: "ss_nextSeq s \<le> entry_seq e" and f: "map_of (ss_entries s) (entry_id e) = None"
    "map_of (ss_usage s) (entry_id e) = None"
    and p: "\<And>p. entry_parentId e = Some p \<Longrightarrow> \<exists>q. map_of (ss_entries s) p = Some q"
    using assms(2) by (auto simp: admissible_def fresh_id_def)
  have inv: "1 \<le> ss_nextSeq s" "entries_inv s" "usage_inv s" "values_inv s" "lists_inv s" "stats_inv s"
    using assms(1) by (auto simp: session_inv_def)
  have es: "ss_entries ?t = ss_entries s @ [(entry_id e, e)]" "ss_entriesBySeq ?t = ss_entriesBySeq s @ [e]"
    using f(1) by (simp_all add: put_entry_def update_new)
  have tab: "seq_table entry_id entry_seq (ss_nextSeq s) (ss_entries s)"
    using inv(2) by (simp add: entries_inv_def)
  have "entries_inv ?t"
  proof -
    have "seq_table entry_id entry_seq (entry_seq e + 1) (AList.update (entry_id e) e (ss_entries s))"
      by (rule seq_table_add) (use tab f q inv(1) in auto)
    moreover have "\<exists>q'. map_of (ss_entries s @ [(entry_id e, e)]) pa = Some q' \<and> entry_seq q' < entry_seq x"
      if x: "(k, x) \<in> set (ss_entries s @ [(entry_id e, e)])" "entry_parentId x = Some pa" for k x pa
    proof (cases "(k, x) \<in> set (ss_entries s)")
      case True
      then show ?thesis using inv(2) x(2) by (fastforce simp: entries_inv_def map_add_Some_iff)
    next
      case False
      then obtain q' where q': "map_of (ss_entries s) pa = Some q'" using x p by auto
      with seq_table_lookup[OF tab q'] q x False show ?thesis by (auto simp: map_add_Some_iff)
    qed
    ultimately show ?thesis
      using inv(2) es unfolding entries_inv_def by (auto simp: update_new f)
  qed
  moreover have "usage_inv ?t"
    using inv(3) q f es(1) by (auto simp: usage_inv_def put_entry_def map_of_eq_None_iff elim: seq_table_mono)
  moreover have "values_inv ?t" "lists_inv ?t"
    using inv q by (auto simp: put_entry_def intro: inv_mono)
  moreover have "stats_inv ?t"
    using inv(6) by (auto simp: stats_inv_def put_entry_def)
  ultimately show ?thesis using inv(1) q by (simp add: session_inv_def)
qed

lemma inv_put_usage:
  assumes "session_inv s" "admissible s (CommittedUsage r)"
  shows "session_inv (raise_seq (row_seq r + 1) (put_usage r s))"
proof -
  let ?t = "raise_seq (row_seq r + 1) (put_usage r s)"
  have q: "ss_nextSeq s \<le> row_seq r" and f: "map_of (ss_entries s) (row_id r) = None"
    "map_of (ss_usage s) (row_id r) = None"
    using assms(2) by (auto simp: admissible_def fresh_id_def)
  have inv: "1 \<le> ss_nextSeq s" "entries_inv s" "usage_inv s" "values_inv s" "lists_inv s" "stats_inv s"
    using assms(1) by (auto simp: session_inv_def)
  have tab: "seq_table row_id row_seq (ss_nextSeq s) (ss_usage s)"
    using inv(3) by (simp add: usage_inv_def)
  have "seq_table row_id row_seq (row_seq r + 1) (AList.update (row_id r) r (ss_usage s))"
    by (rule seq_table_add) (use tab f q inv(1) in auto)
  then have "usage_inv ?t"
    using inv(3) f by (auto simp: usage_inv_def put_usage_def update_new map_of_eq_None_iff)
  moreover have "entries_inv ?t" "values_inv ?t" "lists_inv ?t"
    using inv q by (auto simp: put_usage_def intro: inv_mono)
  moreover have "stats_inv ?t"
    using inv(6) f by (auto simp: stats_inv_def put_usage_def update_new total_usage_def)
  ultimately show ?thesis using inv(1) q by (simp add: session_inv_def)
qed


lemma physicalKey_inj:
  assumes "valid_address a k" "valid_address b l"
  shows "physicalKey a k = physicalKey b l \<longleftrightarrow> a = b \<and> k = l"
proof -
  have "a @ 0 # k = b @ 0 # l \<Longrightarrow> 0 \<notin> set a \<Longrightarrow> 0 \<notin> set b \<Longrightarrow> a = b \<and> k = l" for a b k l :: jstr
  proof (induction a arbitrary: b)
    case Nil
    then show ?case by (cases b) auto
  next
    case (Cons x a)
    then show ?case by (cases b) auto
  qed
  from this[of a k b l] show ?thesis using assms unfolding physicalKey_def valid_address_def by blast
qed

lemma in_update: "distinct (map fst al) \<Longrightarrow> (k, v) \<in> set (AList.update k' v' al) \<longleftrightarrow> (if k = k' then v = v' else (k, v) \<in> set al)"
proof -
  assume d: "distinct (map fst al)"
  have "(k, v) \<in> set (AList.update k' v' al) \<longleftrightarrow> map_of (AList.update k' v' al) k = Some v"
    using d by (simp add: distinct_update)
  also have "\<dots> \<longleftrightarrow> (if k = k' then v = v' else (k, v) \<in> set al)"
    using d by (auto simp: update_conv')
  finally show ?thesis .
qed

lemma inv_value_set:
  assumes "session_inv s" "ss_nextSeq s \<le> q" "applyValueSet q ns k v s = Inr t"
  shows "session_inv (raise_seq (q + 1) t)"
proof -
  have inv: "1 \<le> ss_nextSeq s" "entries_inv s" "usage_inv s" "values_inv s" "lists_inv s" "stats_inv s"
    using assms(1) by (auto simp: session_inv_def)
  from assms(3) have a: "valid_address ns k" and t: "t = s\<lparr>ss_scalarValues := AList.update (physicalKey ns k)
      \<lparr>stored_address = \<lparr>ad_namespace = ns, ad_key = k, ad_kind = ValueKind\<rparr>, stored_json = v, stored_seq = q\<rparr> (ss_scalarValues s)\<rparr>"
    by (auto simp: applyValueSet_def value_address_iff split: sum.splits)
  have "values_inv (raise_seq (q + 1) t)"
    using inv(1,4) a assms(2) by (fastforce simp: values_inv_def t in_update distinct_update split: if_splits)
  moreover have "entries_inv (raise_seq (q + 1) t)" "usage_inv (raise_seq (q + 1) t)"
    "lists_inv (raise_seq (q + 1) t)" "stats_inv (raise_seq (q + 1) t)"
    using inv assms(2) by (auto simp: t intro: inv_mono)
  ultimately show ?thesis using inv(1) assms(2) by (simp add: session_inv_def)
qed

lemma snapshot_append:
  "snapshot_ok hi k l \<Longrightarrow> hi \<le> element_seq el \<Longrightarrow> 1 \<le> hi \<Longrightarrow>
    snapshot_ok (element_seq el + 1) k (l\<lparr>snapshot_elements := snapshot_elements l @ [el]\<rparr>)"
  by (fastforce simp: snapshot_ok_def sorted_wrt_append)

lemma inv_list_append:
  assumes "session_inv s" "ss_nextSeq s \<le> q" "applyListAppend q ns k v s = Inr t"
  shows "session_inv (raise_seq (q + 1) t)"
proof -
  have inv: "1 \<le> ss_nextSeq s" "entries_inv s" "usage_inv s" "values_inv s" "lists_inv s" "stats_inv s"
    using assms(1) by (auto simp: session_inv_def)
  from inv(5) have d: "distinct (map fst (ss_listValues s))"
    and ok: "\<And>k l. (k, l) \<in> set (ss_listValues s) \<Longrightarrow> snapshot_ok (ss_nextSeq s) k l"
    by (auto simp: lists_inv_def)
  obtain l where t: "t = s\<lparr>ss_listValues := AList.update (physicalKey ns k) l (ss_listValues s)\<rparr>"
    and l: "snapshot_ok (q + 1) (physicalKey ns k) l"
  proof (cases "map_of (ss_listValues s) (physicalKey ns k)")
    case None
    with assms(3) have a: "valid_address ns k" and t: "t = s\<lparr>ss_listValues := AList.update (physicalKey ns k)
        \<lparr>snapshot_address = \<lparr>ad_namespace = ns, ad_key = k, ad_kind = ListKind\<rparr>,
         snapshot_elements = [\<lparr>element_seq = q, element_json = v\<rparr>]\<rparr> (ss_listValues s)\<rparr>"
      by (auto simp: applyListAppend_def list_address_iff Let_def split: sum.splits)
    show ?thesis
      by (rule that[OF t]) (use a inv(1) assms(2) in \<open>auto simp: snapshot_ok_def\<close>)
  next
    case (Some l0)
    with assms(3) have t: "t = s\<lparr>ss_listValues := AList.update (physicalKey ns k)
        (l0\<lparr>snapshot_elements := snapshot_elements l0 @ [\<lparr>element_seq = q, element_json = v\<rparr>]\<rparr>) (ss_listValues s)\<rparr>"
      by (simp add: applyListAppend_def Let_def)
    have "snapshot_ok (ss_nextSeq s) (physicalKey ns k) l0"
      using ok map_of_SomeD[OF Some] by blast
    from snapshot_append[OF this, of "\<lparr>element_seq = q, element_json = v\<rparr>"] assms(2) inv(1)
    show ?thesis by (intro that[OF t]) simp
  qed
  have "snapshot_ok (q + 1) k' l'" if "(k', l') \<in> set (ss_listValues s)" for k' l'
    by (rule snapshot_ok_mono[OF ok[OF that]]) (use assms(2) in simp)
  then have "lists_inv (raise_seq (q + 1) t)"
    using d l by (auto simp: lists_inv_def t in_update distinct_update split: if_splits)
  moreover have "entries_inv (raise_seq (q + 1) t)" "usage_inv (raise_seq (q + 1) t)"
    "values_inv (raise_seq (q + 1) t)" "stats_inv (raise_seq (q + 1) t)"
    using inv assms(2) by (auto simp: t intro: inv_mono)
  ultimately show ?thesis using inv(1) assms(2) by (simp add: session_inv_def)
qed

lemma in_delete: "(k, v) \<in> set (AList.delete k' al) \<longleftrightarrow> k \<noteq> k' \<and> (k, v) \<in> set al"
  by (induction al) auto

lemma inv_delete:
  assumes "session_inv s" "ss_nextSeq s \<le> q"
  shows "session_inv (raise_seq (q + 1) (s\<lparr>ss_scalarValues := AList.delete pk (ss_scalarValues s)\<rparr>))" (is "session_inv ?v")
    and "session_inv (raise_seq (q + 1) (s\<lparr>ss_listValues := AList.delete pk (ss_listValues s)\<rparr>))" (is "session_inv ?l")
proof -
  have inv: "1 \<le> ss_nextSeq s" "entries_inv s" "usage_inv s" "values_inv s" "lists_inv s" "stats_inv s"
    using assms(1) by (auto simp: session_inv_def)
  have "values_inv ?v"
    using inv(4) assms(2) by (fastforce simp: values_inv_def in_delete distinct_delete)
  moreover have "lists_inv ?v" "entries_inv ?v" "usage_inv ?v" "stats_inv ?v"
    using inv assms(2) by (auto intro: inv_mono)
  ultimately show "session_inv ?v" using inv(1) assms(2) by (simp add: session_inv_def)
  have "lists_inv (raise_seq (q + 1) s)"
    by (rule lists_inv_mono[OF inv(5)]) (use assms(2) in auto)
  then have "lists_inv ?l"
    by (auto simp: lists_inv_def in_delete distinct_delete)
  moreover have "values_inv ?l" "entries_inv ?l" "usage_inv ?l" "stats_inv ?l"
    using inv assms(2) by (auto intro: inv_mono)
  ultimately show "session_inv ?l" using inv(1) assms(2) by (simp add: session_inv_def)
qed

lemma apply_committed_raise:
  "apply_committed w s = Inr t \<longleftrightarrow> (\<exists>t'. apply_body w s = Inr t' \<and> t = raise_seq (write_seq w + 1) t')"
  by (auto simp: apply_committed_def bindE_eq_Inr raise_seq_def)

lemma inv_apply:
  assumes "session_inv s" "admissible s w" "apply_committed w s = Inr t"
  shows "session_inv t"
proof -
  from assms(3) obtain t' where t': "apply_body w s = Inr t'" "t = raise_seq (write_seq w + 1) t'"
    by (auto simp: apply_committed_raise)
  have q: "ss_nextSeq s \<le> write_seq w"
    using assms(2) by (simp add: admissible_def)
  show ?thesis
    using t' assms(1,2) q
    by (cases w) (auto intro: inv_put_entry inv_put_usage inv_value_set inv_list_append inv_delete)
qed

section \<open>Validated commits\<close>

text \<open>
  The sets that the validation collects describe the state in which the next write is applied.
\<close>

definition linked :: "'c session_state \<Rightarrow> 'c session_state \<Rightarrow> validation \<Rightarrow> bool" where
  "linked s t v \<longleftrightarrow> (case v of (prev, ids, eids) \<Rightarrow>
     ss_nextSeq t \<le> prev + 1 \<and>
     (\<forall>i. fresh_id t i \<longleftrightarrow> fresh_id s i \<and> i \<notin> ids) \<and>
     (\<forall>i. map_of (ss_entries t) i \<noteq> None \<longleftrightarrow> map_of (ss_entries s) i \<noteq> None \<or> i \<in> eids))"

lemma linked_start: "linked s s (ss_nextSeq s - 1, {}, {})"
  by (simp add: linked_def)

lemma linked_admissible:
  assumes "linked s t v" "validate_write s v w = Inr v'"
  shows "admissible t w"
proof -
  obtain prev ids eids where v: "v = (prev, ids, eids)" by (cases v)
  show ?thesis
    using assms unfolding v
    by (cases w) (auto simp: linked_def admissible_def fresh_id_def check_id_def bindE_eq_Inr)
qed

lemma apply_entries:
  assumes "apply_body w t = Inr t'"
  shows "ss_entries t' = (case w of CommittedEntry e \<Rightarrow> AList.update (entry_id e) e (ss_entries t) | _ \<Rightarrow> ss_entries t)"
    and "ss_usage t' = (case w of CommittedUsage r \<Rightarrow> AList.update (row_id r) r (ss_usage t) | _ \<Rightarrow> ss_usage t)"
  using assms
  by (cases w; auto simp: put_entry_def put_usage_def applyValueSet_def applyListAppend_def Let_def
        split: sum.splits option.splits)+

lemma linked_step:
  assumes "linked s t v" "validate_write s v w = Inr v'" "apply_committed w t = Inr t'"
  shows "linked s t' v'"
proof -
  obtain prev ids eids where v: "v = (prev, ids, eids)" by (cases v)
  from assms(3) obtain u where u: "apply_body w t = Inr u" "t' = raise_seq (write_seq w + 1) u"
    by (auto simp: apply_committed_raise)
  show ?thesis
  proof (cases w)
    case (CommittedEntry e)
    then have "ss_entries t' = AList.update (entry_id e) e (ss_entries t)" "ss_usage t' = ss_usage t"
      "v' = (write_seq w, insert (entry_id e) ids, insert (entry_id e) eids)" "ss_nextSeq t' = write_seq w + 1"
      using apply_entries[OF u(1)] u(2) assms(2) by (auto simp: v bindE_eq_Inr)
    with assms(1) show ?thesis by (auto simp: v linked_def fresh_id_def update_conv')
  next
    case (CommittedUsage r)
    then have "ss_entries t' = ss_entries t" "ss_usage t' = AList.update (row_id r) r (ss_usage t)"
      "v' = (write_seq w, insert (row_id r) ids, eids)" "ss_nextSeq t' = write_seq w + 1"
      using apply_entries[OF u(1)] u(2) assms(2) by (auto simp: v bindE_eq_Inr)
    with assms(1) show ?thesis by (auto simp: v linked_def fresh_id_def update_conv')
  qed (use assms(1,2) apply_entries[OF u(1)] u(2) in \<open>auto simp: v bindE_eq_Inr linked_def fresh_id_def\<close>)
qed

lemma inv_applyValidated:
  "foldE (validate_write s) v ws = Inr v' \<Longrightarrow> linked s t v \<Longrightarrow> session_inv t \<Longrightarrow>
    session_inv (snd (applyValidated ws t))"
proof (induction ws arbitrary: v t)
  case (Cons w ws)
  from Cons.prems(1) obtain v1 where v1: "validate_write s v w = Inr v1" "foldE (validate_write s) v1 ws = Inr v'"
    by (auto simp: bindE_eq_Inr)
  show ?case
  proof (cases "apply_committed w t")
    case (Inl e)
    then show ?thesis using Cons.prems by simp
  next
    case (Inr t')
    from linked_step[OF Cons.prems(2) v1(1) Inr] inv_apply[OF Cons.prems(3) linked_admissible[OF Cons.prems(2) v1(1)] Inr]
    show ?thesis using Cons.IH[OF v1(2)] Inr by simp
  qed
qed simp

lemma inv_validated:
  "session_inv s \<Longrightarrow> validateCommitted s ws = Inr u \<Longrightarrow> session_inv (snd (applyValidated ws s))"
  by (auto simp: validateCommitted_def validateCommittedWrites_def bindE_eq_Inr intro: inv_applyValidated linked_start)

lemma inv_memory_commit: "session_inv s \<Longrightarrow> session_inv (snd (memory_commit s ws now))"
proof (cases "prepareCommit s ws now")
  case (Inr p)
  assume inv: "session_inv s"
  from Inr obtain u where "validateCommitted s (prepared_writes p) = Inr u"
    by (auto simp: prepareCommit_def Let_def bindE_eq_Inr)
  from inv_validated[OF inv this] Inr show ?thesis
    by (simp add: memory_commit_def split: option.splits prod.splits) fastforce
qed (simp add: memory_commit_def)

lemma inv_advance: "session_inv s \<Longrightarrow> advanceNextSeq n s = Inr t \<Longrightarrow> session_inv t"
  using inv_raise[of s] by (auto simp: advanceNextSeq_def raise_seq_def split: option.splits if_splits)

end
