(* ===== verification/SessionCommit.thy ===== *)
theory SessionCommit
  imports SessionInvariant
begin

text \<open>
  What a commit does: it is accepted exactly when its ids are new and its parents exist, it then appends
  its entries and takes consecutive sequences, and the values and lists it leaves are those of its last
  writes. With valid addresses it is all or nothing; without them it is not.
\<close>

section \<open>Acceptance\<close>

fun new_ids :: "'c session_write list \<Rightarrow> jstr list" where
  "new_ids [] = []"
| "new_ids (EntryWrite e # ws) = entry_id e # new_ids ws"
| "new_ids (UsageWrite r # ws) = row_id r # new_ids ws"
| "new_ids (w # ws) = new_ids ws"

fun new_entries :: "'c session_write list \<Rightarrow> new_entry list" where
  "new_entries [] = []"
| "new_entries (EntryWrite e # ws) = e # new_entries ws"
| "new_entries (w # ws) = new_entries ws"

lemma new_ids_append [simp]: "new_ids (xs @ ys) = new_ids xs @ new_ids ys"
  by (induction xs rule: new_ids.induct) auto

lemma new_entries_append [simp]: "new_entries (xs @ ys) = new_entries xs @ new_entries ys"
  by (induction xs rule: new_entries.induct) auto

text \<open>The declarative condition: new distinct ids, and each parent is stored or earlier in the commit.\<close>

definition commit_ok :: "'c session_state \<Rightarrow> 'c session_write list \<Rightarrow> bool" where
  "commit_ok s ws \<longleftrightarrow>
     distinct (new_ids ws) \<and> (\<forall>i \<in> set (new_ids ws). fresh_id s i) \<and>
     (\<forall>j < length ws. \<forall>e p. ws ! j = EntryWrite e \<and> entry_parentId e = Some p \<longrightarrow>
        map_of (ss_entries s) p \<noteq> None \<or> p \<in> entry_id ` set (new_entries (take j ws)))"

lemma commit_ok_snoc:
  "commit_ok s (ws @ [w]) \<longleftrightarrow>
     commit_ok s ws \<and> set (new_ids [w]) \<inter> set (new_ids ws) = {} \<and> (\<forall>i \<in> set (new_ids [w]). fresh_id s i) \<and>
     (\<forall>e p. w = EntryWrite e \<and> entry_parentId e = Some p \<longrightarrow>
        map_of (ss_entries s) p \<noteq> None \<or> p \<in> entry_id ` set (new_entries ws))"
proof -
  have d: "distinct (new_ids [w])" by (cases w) auto
  have all: "(\<forall>j < length (ws @ [w]). P j) \<longleftrightarrow> (\<forall>j < length ws. P j) \<and> P (length ws)" for P
    by (auto simp: less_Suc_eq)
  show ?thesis
    unfolding commit_ok_def all using d by (auto simp: nth_append)
qed

definition committed_at :: "int \<Rightarrow> int \<Rightarrow> 'c session_write list \<Rightarrow> 'c committed_write list" where
  "committed_at q t ws = prepared_writes (prepareStorageCommit ws q t)"

lemma committed_at_snoc [simp]:
  "committed_at q t [] = []"
  "committed_at q t (ws @ [w]) = committed_at q t ws @ [commitWrite w (q + int (length ws)) t]"
  by (simp_all add: committed_at_def prepareStorageCommit_def Let_def)

lemma validate_prepared:
  "foldE (validate_write s) (q - 1, {}, {}) (committed_at q t ws) = Inr v \<longleftrightarrow>
     commit_ok s ws \<and> v = (q + int (length ws) - 1, set (new_ids ws), entry_id ` set (new_entries ws))"
proof (induction ws arbitrary: v rule: rev_induct)
  case Nil
  then show ?case by (auto simp: commit_ok_def)
next
  case (snoc w ws)
  show ?case
    unfolding committed_at_snoc foldE_append bindE_eq_Inr snoc.IH commit_ok_snoc
    by (cases w) (auto simp: bindE_eq_Inr check_id_def fresh_id_def materializeCommittedEntry_def split: option.splits)
qed

lemma prepareCommit_iff:
  "prepareCommit s ws t = Inr p \<longleftrightarrow> commit_ok s ws \<and> p = prepareStorageCommit ws (ss_nextSeq s) t"
  using validate_prepared[of s "ss_nextSeq s" t ws]
  by (auto simp: prepareCommit_def validateCommitted_def validateCommittedWrites_def Let_def bindE_eq_Inr
      committed_at_def)

section \<open>The effect of an accepted commit\<close>

text \<open>An address write whose address the constructors of \<open>values.ts\<close> accept.\<close>

fun address_ok :: "'c session_write \<Rightarrow> bool" where
  "address_ok (EntryWrite e) = True"
| "address_ok (UsageWrite r) = True"
| "address_ok (ValueSetWrite ns k v) = valid_address ns k"
| "address_ok (ValueDeleteWrite ns k) = valid_address ns k"
| "address_ok (ListAppendWrite ns k v) = valid_address ns k"
| "address_ok (ListDeleteWrite ns k) = valid_address ns k"

lemma apply_ok: "address_ok w \<Longrightarrow> \<exists>s'. apply_committed (commitWrite w q t) s = Inr s'"
  by (cases w) (auto simp: apply_committed_def applyValueSet_def applyListAppend_def value_address_def
      list_address_def validateAddress_def valid_address_def Let_def split: option.splits)

lemma applyValidated_append:
  "applyValidated (xs @ ys) s =
     (case applyValidated xs s of (Some e, s') \<Rightarrow> (Some e, s') | (None, s') \<Rightarrow> applyValidated ys s')"
  by (induction xs arbitrary: s) (auto split: sum.splits)

lemma applyValidated_ok:
  "\<forall>w \<in> set ws. address_ok w \<Longrightarrow> fst (applyValidated (committed_at q t ws) s) = None"
proof (induction ws rule: rev_induct)
  case Nil
  then show ?case by simp
next
  case (snoc w ws)
  then show ?case
    using apply_ok[of w "q + int (length ws)" t "snd (applyValidated (committed_at q t ws) s)"]
    by (cases "applyValidated (committed_at q t ws) s") (auto simp: applyValidated_append)
qed

text \<open>The state after a commit, write by write.\<close>

definition after_commit :: "'c session_write list \<Rightarrow> int \<Rightarrow> ('c :: plus) session_state \<Rightarrow> 'c session_state" where
  "after_commit ws t s = snd (applyValidated (committed_at (ss_nextSeq s) t ws) s)"

lemma after_commit_snoc:
  assumes "\<forall>w \<in> set ws. address_ok w" "address_ok w"
  shows "apply_committed (commitWrite w (ss_nextSeq s + int (length ws)) t) (after_commit ws t s) =
           Inr (after_commit (ws @ [w]) t s)"
proof -
  obtain u where u: "apply_committed (commitWrite w (ss_nextSeq s + int (length ws)) t) (after_commit ws t s) = Inr u"
    using apply_ok[OF assms(2)] by blast
  have "applyValidated (committed_at (ss_nextSeq s) t ws) s = (None, after_commit ws t s)"
    using applyValidated_ok[OF assms(1), of "ss_nextSeq s" t s] by (simp add: after_commit_def prod_eq_iff)
  then have "applyValidated (committed_at (ss_nextSeq s) t (ws @ [w])) s = (None, u)"
    using u by (simp add: applyValidated_append)
  then have "after_commit (ws @ [w]) t s = u"
    by (simp only: after_commit_def[of "ws @ [w]"] snd_conv)
  with u show ?thesis by simp
qed

lemma memory_commit_cases:
  assumes "\<forall>w \<in> set ws. address_ok w"
  shows "memory_commit s ws now =
    (if commit_ok s ws
     then (Inr (prepared_result (prepareStorageCommit ws (ss_nextSeq s) now), ss_stats (after_commit ws now s)), after_commit ws now s)
     else (Inl (projl (prepareCommit s ws now)), s))"
proof (cases "commit_ok s ws")
  case True
  have "applyValidated (committed_at (ss_nextSeq s) now ws) s = (None, after_commit ws now s)"
    using applyValidated_ok[OF assms, of "ss_nextSeq s" now s] by (simp add: after_commit_def prod_eq_iff)
  moreover have "prepareCommit s ws now = Inr (prepareStorageCommit ws (ss_nextSeq s) now)"
    using True by (simp add: prepareCommit_iff)
  ultimately show ?thesis
    using True by (simp add: memory_commit_def committed_at_def)
next
  case False
  then obtain e where "prepareCommit s ws now = Inl e"
    using prepareCommit_iff[of s ws now] by (cases "prepareCommit s ws now") auto
  with False show ?thesis by (simp add: memory_commit_def)
qed

definition stamp_entries :: "int \<Rightarrow> int \<Rightarrow> 'c session_write list \<Rightarrow> session_entry list" where
  "stamp_entries q t ws =
     concat (map (\<lambda>(w, i). case w of EntryWrite e \<Rightarrow> [materializeCommittedEntry e (q + int i) t] | _ \<Rightarrow> [])
       (zip ws [0..<length ws]))"

lemma stamp_entries_snoc [simp]:
  "stamp_entries q t [] = []"
  "stamp_entries q t (ws @ [w]) =
     stamp_entries q t ws @ (case w of EntryWrite e \<Rightarrow> [materializeCommittedEntry e (q + int (length ws)) t] | _ \<Rightarrow> [])"
  by (simp_all add: stamp_entries_def)

lemma apply_bySeq:
  "apply_committed w s = Inr t \<Longrightarrow>
     ss_entriesBySeq t = ss_entriesBySeq s @ (case w of CommittedEntry e \<Rightarrow> [e] | _ \<Rightarrow> []) \<and>
     ss_nextSeq t = write_seq w + 1"
  by (cases w) (auto simp: apply_committed_def put_entry_def put_usage_def applyValueSet_def applyListAppend_def Let_def
      split: sum.splits option.splits)

lemma after_commit_entries:
  "\<forall>w \<in> set ws. address_ok w \<Longrightarrow>
     ss_entriesBySeq (after_commit ws t s) = ss_entriesBySeq s @ stamp_entries (ss_nextSeq s) t ws \<and>
     ss_nextSeq (after_commit ws t s) = ss_nextSeq s + int (length ws)"
proof (induction ws rule: rev_induct)
  case Nil
  then show ?case by (simp add: after_commit_def)
next
  case (snoc w ws)
  then have ok: "\<forall>w \<in> set ws. address_ok w" "address_ok w" by auto
  from apply_bySeq[OF after_commit_snoc[OF ok, of s t]] snoc.IH[OF ok(1)] show ?case
    unfolding commitWrite_seq by (cases w) auto
qed

text \<open>The usage rows of a commit, stamped with their sequences.\<close>

definition stamp_rows :: "int \<Rightarrow> 'c session_write list \<Rightarrow> 'c usage_row list" where
  "stamp_rows q ws =
     concat (map (\<lambda>(w, i). case w of UsageWrite r \<Rightarrow>
         [\<lparr>row_id = row_id r, row_usage = row_usage r, row_entryId = row_entryId r, row_adjustment = row_adjustment r,
           row_details = row_details r, row_seq = q + int i\<rparr>] | _ \<Rightarrow> [])
       (zip ws [0..<length ws]))"

lemma stamp_rows_snoc [simp]:
  "stamp_rows q [] = []"
  "stamp_rows q (ws @ [w]) =
     stamp_rows q ws @ (case w of UsageWrite r \<Rightarrow>
         [\<lparr>row_id = row_id r, row_usage = row_usage r, row_entryId = row_entryId r, row_adjustment = row_adjustment r,
           row_details = row_details r, row_seq = q + int (length ws)\<rparr>] | _ \<Rightarrow> [])"
  by (simp_all add: stamp_rows_def)

lemma stamped_ids:
  "entry_id ` set (stamp_entries q t ws) \<subseteq> set (new_ids ws)" "row_id ` set (stamp_rows q ws) \<subseteq> set (new_ids ws)"
  by (induction ws rule: rev_induct) (auto simp: materializeCommittedEntry_def split: session_write.splits)

definition by_id :: "session_entry list \<Rightarrow> (jstr \<times> session_entry) list" where
  "by_id es = map (\<lambda>e. (entry_id e, e)) es"

definition by_row :: "'c usage_row list \<Rightarrow> (jstr \<times> 'c usage_row) list" where
  "by_row rs = map (\<lambda>r. (row_id r, r)) rs"

lemma by_id_append [simp]: "by_id [] = []" "by_id (xs @ ys) = by_id xs @ by_id ys" "by_id [e] = [(entry_id e, e)]"
  by (simp_all add: by_id_def)

lemma by_row_append [simp]: "by_row [] = []" "by_row (xs @ ys) = by_row xs @ by_row ys" "by_row [r] = [(row_id r, r)]"
  by (simp_all add: by_row_def)

lemma by_keys: "map_of (by_id es) i = None \<longleftrightarrow> i \<notin> entry_id ` set es" "map_of (by_row rs) i = None \<longleftrightarrow> i \<notin> row_id ` set rs"
  by (auto simp: by_id_def by_row_def map_of_eq_None_iff image_image)

lemma apply_indexes:
  assumes "apply_committed w s = Inr t" "\<forall>e. w = CommittedEntry e \<longrightarrow> map_of (ss_entries s) (entry_id e) = None"
    "\<forall>r. w = CommittedUsage r \<longrightarrow> map_of (ss_usage s) (row_id r) = None"
  shows "ss_entries t = ss_entries s @ (case w of CommittedEntry e \<Rightarrow> [(entry_id e, e)] | _ \<Rightarrow> [])"
    and "ss_usage t = ss_usage s @ (case w of CommittedUsage r \<Rightarrow> [(row_id r, r)] | _ \<Rightarrow> [])"
    and "ss_stats t = (case w of
        CommittedEntry e \<Rightarrow> (ss_stats s)\<lparr>messageCount := messageCount (ss_stats s) + (if entry_type e = MessageType then 1 else 0)\<rparr>
      | CommittedUsage r \<Rightarrow> (ss_stats s)\<lparr>stats_usage := addUsage (stats_usage (ss_stats s)) (row_usage r)\<rparr>
      | _ \<Rightarrow> ss_stats s)"
  using assms
  by (cases w; auto simp: apply_committed_def put_entry_def put_usage_def applyValueSet_def applyListAppend_def Let_def
      update_new split: sum.splits option.splits)+

text \<open>The indexes and the totals after an accepted commit.\<close>

lemma after_commit_indexes:
  "\<forall>w \<in> set ws. address_ok w \<Longrightarrow> commit_ok s ws \<Longrightarrow>
     ss_entries (after_commit ws t s) = ss_entries s @ by_id (stamp_entries (ss_nextSeq s) t ws) \<and>
     ss_usage (after_commit ws t s) = ss_usage s @ by_row (stamp_rows (ss_nextSeq s) ws) \<and>
     ss_stats (after_commit ws t s) =
       \<lparr>messageCount = messageCount (ss_stats s) +
           length (filter (\<lambda>e. entry_type e = MessageType) (stamp_entries (ss_nextSeq s) t ws)),
        stats_usage = foldl addUsage (stats_usage (ss_stats s)) (map row_usage (stamp_rows (ss_nextSeq s) ws))\<rparr>"
proof (induction ws rule: rev_induct)
  case Nil
  then show ?case by (simp add: after_commit_def)
next
  case (snoc w ws)
  then have ok: "\<forall>w \<in> set ws. address_ok w" "address_ok w" "commit_ok s ws" by (auto simp: commit_ok_snoc)
  let ?q = "ss_nextSeq s + int (length ws)"
  note step = after_commit_snoc[OF ok(1,2), of s t] and IH = snoc.IH[OF ok(1,3)]
  have new: "map_of (ss_entries (after_commit ws t s)) i = None \<and> map_of (ss_usage (after_commit ws t s)) i = None"
    if "i \<in> set (new_ids [w])" for i
  proof -
    have "fresh_id s i" "i \<notin> set (new_ids ws)" using snoc.prems(2) that by (auto simp: commit_ok_snoc)
    moreover from this have "i \<notin> entry_id ` set (stamp_entries (ss_nextSeq s) t ws)" "i \<notin> row_id ` set (stamp_rows (ss_nextSeq s) ws)"
      using stamped_ids(1)[of "ss_nextSeq s" t ws] stamped_ids(2)[of "ss_nextSeq s" ws] by blast+
    ultimately show ?thesis using IH by (simp add: fresh_id_def by_keys map_add_None)
  qed
  have none: "\<forall>e. commitWrite w ?q t = CommittedEntry e \<longrightarrow> map_of (ss_entries (after_commit ws t s)) (entry_id e) = None"
      "\<forall>r. commitWrite w ?q t = CommittedUsage r \<longrightarrow> map_of (ss_usage (after_commit ws t s)) (row_id r) = None"
    using new by (cases w; auto simp: materializeCommittedEntry_def)+
  from apply_indexes[OF step none] IH show ?case
    by (cases w) (simp_all add: materializeCommittedEntry_def entry_type_def)
qed

text \<open>A commit that inserts a root, a child of it, a value and two list elements.\<close>

definition plain_entry :: "jstr \<Rightarrow> jstr option \<Rightarrow> new_entry" where
  "plain_entry i p = \<lparr>entry_id = i, entry_parentId = p, entry_customType = None, entry_body = Message (UserMessage (PlainText []) 0) False\<rparr>"

abbreviation empty_session :: "int session_state" where
  "empty_session \<equiv> new_session_state"

definition sample_writes :: "int session_write list" where
  "sample_writes =
     [EntryWrite (plain_entry (js ''a'') None), EntryWrite (plain_entry (js ''b'') (Some (js ''a''))),
      ValueSetWrite (js ''n'') (js ''k'') (JBool True), ListAppendWrite (js ''n'') (js ''l'') JNull,
      ListAppendWrite (js ''n'') (js ''l'') (JBool False)]"

lemma sample_address_ok: "\<forall>w \<in> set sample_writes. address_ok w"
  by code_simp

section \<open>Values and lists after a commit\<close>

fun value_after :: "address \<Rightarrow> 'c session_write \<times> int \<Rightarrow> stored_value option \<Rightarrow> stored_value option" where
  "value_after a (ValueSetWrite ns k v, q) old =
     (if ns = ad_namespace a \<and> k = ad_key a
      then Some \<lparr>stored_address = \<lparr>ad_namespace = ns, ad_key = k, ad_kind = ValueKind\<rparr>, stored_json = v, stored_seq = q\<rparr>
      else old)"
| "value_after a (ValueDeleteWrite ns k, q) old = (if ns = ad_namespace a \<and> k = ad_key a then None else old)"
| "value_after a (w, q) old = old"

fun list_after :: "address \<Rightarrow> 'c session_write \<times> int \<Rightarrow> list_element list \<Rightarrow> list_element list" where
  "list_after a (ListAppendWrite ns k v, q) old =
     (if ns = ad_namespace a \<and> k = ad_key a then old @ [\<lparr>element_seq = q, element_json = v\<rparr>] else old)"
| "list_after a (ListDeleteWrite ns k, q) old = (if ns = ad_namespace a \<and> k = ad_key a then [] else old)"
| "list_after a (w, q) old = old"

definition list_elements :: "'c session_state \<Rightarrow> address \<Rightarrow> list_element list" where
  "list_elements s a =
     (case map_of (ss_listValues s) (physicalKey (ad_namespace a) (ad_key a)) of
        None \<Rightarrow> [] | Some l \<Rightarrow> snapshot_elements l)"

definition with_seqs :: "int \<Rightarrow> 'c session_write list \<Rightarrow> ('c session_write \<times> int) list" where
  "with_seqs q ws = zip ws (map (\<lambda>i. q + int i) [0..<length ws])"

lemma with_seqs_snoc [simp]:
  "with_seqs q [] = []" "with_seqs q (ws @ [w]) = with_seqs q ws @ [(w, q + int (length ws))]"
  by (simp_all add: with_seqs_def)

lemma apply_address:
  assumes "apply_committed (commitWrite w q t) s = Inr s'" "address_ok w" "valid_address (ad_namespace a) (ad_key a)"
  shows "getValue s' a = value_after a (w, q) (getValue s a)"
    and "list_elements s' a = list_after a (w, q) (list_elements s a)"
proof -
  note inj = physicalKey_inj[OF _ assms(3)] physicalKey_inj[OF assms(3)]
  show "getValue s' a = value_after a (w, q) (getValue s a)"
    using assms(1,2)
    by (cases w) (auto simp: apply_committed_raise getValue_def put_entry_def put_usage_def applyValueSet_def
        applyListAppend_def Let_def update_conv' delete_conv' inj value_address_iff
        split: sum.splits option.splits)
  show "list_elements s' a = list_after a (w, q) (list_elements s a)"
    using assms(1,2)
    by (cases w) (auto simp: apply_committed_raise list_elements_def put_entry_def put_usage_def applyValueSet_def
        applyListAppend_def Let_def update_conv' delete_conv' inj
        split: sum.splits option.splits)
qed

lemma after_commit_address:
  "\<forall>w \<in> set ws. address_ok w \<Longrightarrow> valid_address (ad_namespace a) (ad_key a) \<Longrightarrow>
     getValue (after_commit ws t s) a = fold (value_after a) (with_seqs (ss_nextSeq s) ws) (getValue s a) \<and>
     list_elements (after_commit ws t s) a = fold (list_after a) (with_seqs (ss_nextSeq s) ws) (list_elements s a)"
proof (induction ws rule: rev_induct)
  case Nil
  then show ?case by (simp add: after_commit_def)
next
  case (snoc w ws)
  then have ok: "\<forall>w \<in> set ws. address_ok w" "address_ok w" by auto
  from apply_address[OF after_commit_snoc[OF ok, of s t] ok(2) snoc.prems(2)] snoc.IH[OF ok(1) snoc.prems(2)]
  show ?case by simp
qed

lemma readList_elements:
  "readList s a \<lparr>read_cursor = c, read_order = None, read_limit = None\<rparr> =
     Inr (take 1000 (filter (\<lambda>el. case c of None \<Rightarrow> True | Some q \<Rightarrow> q < element_seq el) (list_elements s a)))"
  by (cases c) (simp_all add: readList_def resolveListReadOptions_def list_elements_def MAX_SAFE_INTEGER_def)

text \<open>
  Reads after an accepted commit see its writes in their order and nothing else: a value is the one of
  the last write to its address, with that write's sequence, and a list is extended by the elements
  appended since its last deletion.
\<close>
theorem commit_read_back:
  assumes "\<forall>w \<in> set ws. address_ok w" "valid_address (ad_namespace a) (ad_key a)"
    and "memory_commit s ws now = (Inr r, s')"
  shows "getValue s' a = fold (value_after a) (with_seqs (ss_nextSeq s) ws) (getValue s a) \<and>
    readList s' a \<lparr>read_cursor = None, read_order = None, read_limit = None\<rparr> =
      Inr (take 1000 (fold (list_after a) (with_seqs (ss_nextSeq s) ws) (list_elements s a)))"
proof -
  have "s' = after_commit ws now s"
    using memory_commit_cases[OF assms(1), of s now] assms(3) by (simp split: if_splits)
  with after_commit_address[OF assms(1,2), of now s] show ?thesis by (simp add: readList_elements)
qed

lemma sample_commit_ok:
  "memory_commit empty_session sample_writes 7 =
     (Inr (projr (fst (memory_commit empty_session sample_writes 7))), snd (memory_commit empty_session sample_writes 7))"
proof -
  have "isl (fst (memory_commit empty_session sample_writes 7)) = False" by code_simp
  then show ?thesis by (cases "memory_commit empty_session sample_writes 7") (auto simp: isl_def)
qed

theorem commit_read_back_witness:
  "let s = empty_session; s' = snd (memory_commit s sample_writes 7);
       a = \<lparr>ad_namespace = js ''n'', ad_key = js ''l'', ad_kind = ListKind\<rparr> in
   getValue s' a = fold (value_after a) (with_seqs (ss_nextSeq s) sample_writes) (getValue s a) \<and>
   readList s' a \<lparr>read_cursor = None, read_order = None, read_limit = None\<rparr> =
     Inr (take 1000 (fold (list_after a) (with_seqs (ss_nextSeq s) sample_writes) (list_elements s a))) \<and>
   length (list_elements s' a) = 2"
proof -
  define a where "a = \<lparr>ad_namespace = js ''n'', ad_key = js ''l'', ad_kind = ListKind\<rparr>"
  have v: "valid_address (ad_namespace a) (ad_key a)" unfolding a_def by code_simp
  have "length (list_elements (snd (memory_commit empty_session sample_writes 7)) a) = 2"
    unfolding a_def by code_simp
  with commit_read_back[OF sample_address_ok v sample_commit_ok] show ?thesis
    unfolding a_def[symmetric] Let_def by blast
qed

text \<open>
  What an accepted commit leaves, in every component of the state: the entries and the usage rows are appended to
  their indexes, the totals are extended, and every value and list is what its writes make of it.
\<close>

definition committed_state :: "('c :: plus) session_state \<Rightarrow> 'c session_write list \<Rightarrow> int \<Rightarrow> 'c session_state \<Rightarrow> bool" where
  "committed_state s ws now s' \<longleftrightarrow>
     (let es = stamp_entries (ss_nextSeq s) now ws; rs = stamp_rows (ss_nextSeq s) ws
      in ss_entriesBySeq s' = ss_entriesBySeq s @ es \<and> ss_entries s' = ss_entries s @ by_id es \<and>
         ss_usage s' = ss_usage s @ by_row rs \<and>
         messageCount (getStats s') = messageCount (getStats s) + length (filter (\<lambda>e. entry_type e = MessageType) es) \<and>
         stats_usage (getStats s') = foldl addUsage (stats_usage (getStats s)) (map row_usage rs) \<and>
         ss_nextSeq s' = ss_nextSeq s + int (length ws)) \<and>
     (\<forall>a. valid_address (ad_namespace a) (ad_key a) \<longrightarrow>
        getValue s' a = fold (value_after a) (with_seqs (ss_nextSeq s) ws) (getValue s a) \<and>
        list_elements s' a = fold (list_after a) (with_seqs (ss_nextSeq s) ws) (list_elements s a))"

text \<open>
  C19. A commit whose writes have valid addresses, which the address constructors check, is all or nothing. It is
  accepted exactly when its ids are new and distinct and every parent is stored or inserted before it. Then its
  entries are appended in order, stamped with consecutive sequences and the time, its usage rows are appended and
  added to the totals, every value is that of the last write to its address, every list is extended by what was
  appended since its last deletion, nothing else changes, the sequences are used up, and the result reports them.
  Otherwise the whole state is unchanged and the commit fails.
\<close>
theorem memory_commit_atomic:
  assumes "\<forall>w \<in> set ws. address_ok w"
  shows "if commit_ok s ws
         then \<exists>s'. memory_commit s ws now =
                  (Inr (\<lparr>result_firstSeq = ss_nextSeq s,
                         result_seqs = map (\<lambda>i. ss_nextSeq s + int i) [0..<length ws],
                         result_timestamp = now\<rparr>, getStats s'), s') \<and> committed_state s ws now s'
         else \<exists>e. memory_commit s ws now = (Inl e, s)"
proof (cases "commit_ok s ws")
  case True
  have "map write_seq (committed_at q now ws) = map (\<lambda>i. q + int i) [0..<length ws]" for q
    by (induction ws rule: rev_induct) simp_all
  then have "prepared_result (prepareStorageCommit ws (ss_nextSeq s) now) =
      \<lparr>result_firstSeq = ss_nextSeq s, result_seqs = map (\<lambda>i. ss_nextSeq s + int i) [0..<length ws],
       result_timestamp = now\<rparr>"
    by (simp add: committed_at_def prepareStorageCommit_def Let_def)
  moreover have "committed_state s ws now (after_commit ws now s)"
    using after_commit_entries[OF assms, of now s] after_commit_indexes[OF assms True, of now]
      after_commit_address[OF assms, of _ now s]
    by (simp add: committed_state_def getStats_def)
  ultimately show ?thesis
    using memory_commit_cases[OF assms, of s now] True
    unfolding getStats_def by (intro if_P[THEN iffD2] exI[of _ "after_commit ws now s"]) simp_all
next
  case False
  with memory_commit_cases[OF assms, of s now] show ?thesis by simp
qed

theorem memory_commit_atomic_witness:
  "(if commit_ok empty_session sample_writes
    then \<exists>s'. memory_commit empty_session sample_writes 7 =
             (Inr (\<lparr>result_firstSeq = ss_nextSeq empty_session,
                    result_seqs = map (\<lambda>i. ss_nextSeq empty_session + int i) [0..<length sample_writes],
                    result_timestamp = 7\<rparr>, getStats s'), s') \<and> committed_state empty_session sample_writes 7 s'
    else \<exists>e. memory_commit empty_session sample_writes 7 = (Inl e, empty_session))
   \<and> fst (memory_commit empty_session sample_writes 7) \<noteq> Inl BadLimit
   \<and> length (ss_entriesBySeq (snd (memory_commit empty_session sample_writes 7))) = 2"
proof -
  have "fst (memory_commit empty_session sample_writes 7) \<noteq> Inl BadLimit" by code_simp
  moreover have "length (ss_entriesBySeq (snd (memory_commit empty_session sample_writes 7))) = 2" by code_simp
  ultimately show ?thesis by (intro conjI memory_commit_atomic[OF sample_address_ok])
qed

text \<open>
  A commit that throws can leave its first writes applied: a value write whose namespace is empty is
  only refused while the commit is applied, after the entry before it was stored.
\<close>
theorem commit_partially_applied:
  "let ws = [EntryWrite (plain_entry (js ''a'') None), ValueSetWrite [] [] JNull];
       (r, s') = memory_commit empty_session ws 7 in
   r = Inl (BadAddress EmptyNamespace) \<and> map entry_id (ss_entriesBySeq s') = [js ''a''] \<and> ss_nextSeq s' = 2"
  by code_simp

end
