(* ===== verification/SessionBranch.thy ===== *)
theory SessionBranch
  imports SessionCommit
begin

text \<open>
  The reads of the session storage against the invariant: a branch scan ends and visits the path to the
  root, an entry scan is the filtered history, a value scan is sorted by key.
\<close>

section \<open>Branches\<close>

definition session_up :: "'c session_state \<Rightarrow> jstr \<Rightarrow> jstr option" where
  "session_up s i = (case map_of (ss_entries s) i of None \<Rightarrow> None | Some e \<Rightarrow> entry_parentId e)"

definition session_rank :: "'c session_state \<Rightarrow> jstr \<Rightarrow> nat" where
  "session_rank s i = (case map_of (ss_entries s) i of None \<Rightarrow> 0 | Some e \<Rightarrow> nat (entry_seq e))"

lemma session_table: "session_inv s \<Longrightarrow> seq_table entry_id entry_seq (ss_nextSeq s) (ss_entries s)"
  by (simp add: session_inv_def entries_inv_def)

lemma stored_entry: "session_inv s \<Longrightarrow> map_of (ss_entries s) i = Some e \<Longrightarrow> entry_id e = i \<and> 1 \<le> entry_seq e"
  using seq_table_lookup[OF session_table] by blast

lemma stored_parent:
  assumes "session_inv s" "map_of (ss_entries s) i = Some e" "entry_parentId e = Some p"
  obtains q where "map_of (ss_entries s) p = Some q" "entry_seq q < entry_seq e"
  using assms map_of_SomeD[OF assms(2)] by (fastforce simp: session_inv_def entries_inv_def)

interpretation session_forest: parent_forest session_inv session_up session_rank
proof
  fix s :: "'a session_state" and k q
  assume inv: "session_inv s" and "session_up s k = Some q"
  then obtain e where e: "map_of (ss_entries s) k = Some e" "entry_parentId e = Some q"
    by (auto simp: session_up_def split: option.splits)
  from stored_parent[OF inv e] obtain p where "map_of (ss_entries s) q = Some p" "entry_seq p < entry_seq e" .
  then show "session_rank s q < session_rank s k"
    using e(1) stored_entry[OF inv] by (fastforce simp: session_rank_def)
qed

lemma branch_walk_climb:
  assumes "session_inv s"
  shows "map_of (ss_entries s) i = Some e \<Longrightarrow>
    branch_walk n (ss_entries s) e = map_option (\<lambda>ks. Inr (map (\<lambda>k. the (map_of (ss_entries s) k)) ks)) (climb (session_up s) n i)"
proof (induction n arbitrary: i e)
  case (Suc n)
  show ?case
  proof (cases "entry_parentId e")
    case None
    then show ?thesis using Suc.prems by (simp add: session_up_def)
  next
    case (Some p)
    from stored_parent[OF assms Suc.prems Some] obtain q where "map_of (ss_entries s) p = Some q" .
    with Suc.IH[OF this] Some Suc.prems show ?thesis
      by (simp add: session_up_def option.map_comp comp_def)
  qed
qed simp

text \<open>A path from an entry to a root of the stored forest.\<close>

definition root_path :: "'c session_state \<Rightarrow> session_entry \<Rightarrow> session_entry list \<Rightarrow> bool" where
  "root_path s e path \<longleftrightarrow>
     path \<noteq> [] \<and> hd path = e \<and> entry_parentId (last path) = None \<and> set path \<subseteq> set (ss_entriesBySeq s) \<and>
     successively (\<lambda>x y. entry_parentId x = Some (entry_id y)) path"

lemma stored_iff:
  assumes "session_inv s"
  shows "e \<in> set (ss_entriesBySeq s) \<longleftrightarrow> map_of (ss_entries s) (entry_id e) = Some e"
proof -
  have tab: "seq_table entry_id entry_seq (ss_nextSeq s) (ss_entries s)"
    by (rule session_table[OF assms])
  have "e \<in> snd ` set (ss_entries s) \<longleftrightarrow> (entry_id e, e) \<in> set (ss_entries s)"
  proof
    assume "e \<in> snd ` set (ss_entries s)"
    then obtain k where "(k, e) \<in> set (ss_entries s)" by auto
    moreover from this tab have "k = entry_id e" by (auto simp: seq_table_def)
    ultimately show "(entry_id e, e) \<in> set (ss_entries s)" by simp
  next
    assume "(entry_id e, e) \<in> set (ss_entries s)"
    then show "e \<in> snd ` set (ss_entries s)" by (rule image_eqI[rotated]) simp
  qed
  moreover have "ss_entriesBySeq s = map snd (ss_entries s)"
    using assms by (simp add: session_inv_def entries_inv_def)
  ultimately show ?thesis using seq_table_map_of[OF tab] by simp
qed

lemma root_path_unique:
  assumes "session_inv s"
  shows "root_path s e path \<Longrightarrow> root_path s e path' \<Longrightarrow> path = path'"
proof (induction path arbitrary: e path')
  case Nil
  then show ?case by (simp add: root_path_def)
next
  case (Cons x xs)
  from Cons.prems obtain ys where ys: "x = e" "path' = e # ys" by (cases path') (auto simp: root_path_def)
  show ?case
  proof (cases xs)
    case Nil
    then show ?thesis using Cons.prems ys by (cases ys) (auto simp: root_path_def split: if_splits)
  next
    case (Cons q zs)
    with Cons.prems ys obtain q' zs' where q': "ys = q' # zs'"
      by (cases ys) (auto simp: root_path_def)
    have "q' = q"
      using Cons.prems Cons ys q' stored_iff[OF assms, of q] stored_iff[OF assms, of q'] by (auto simp: root_path_def)
    moreover have "root_path s q xs" "root_path s q' ys"
      using Cons.prems Cons ys q' by (auto simp: root_path_def)
    ultimately show ?thesis using Cons.IH[of q ys] ys by simp
  qed
qed

lemma walk_root_path:
  assumes "session_inv s"
  shows "map_of (ss_entries s) i = Some e \<Longrightarrow> branch_walk n (ss_entries s) e = Some (Inr path) \<Longrightarrow> root_path s e path"
proof (induction n arbitrary: i e path)
  case (Suc n)
  have st: "e \<in> set (ss_entriesBySeq s)"
    using stored_iff[OF assms, of e] stored_entry[OF assms Suc.prems(1)] Suc.prems(1) by simp
  show ?case
  proof (cases "entry_parentId e")
    case None
    then show ?thesis using Suc.prems st by (auto simp: root_path_def)
  next
    case (Some p)
    from stored_parent[OF assms Suc.prems(1) Some] obtain q where q: "map_of (ss_entries s) p = Some q" .
    with Suc.prems(2) Some obtain qs where qs: "branch_walk n (ss_entries s) q = Some (Inr qs)" "path = e # qs"
      by (auto simp: bindE_eq_Inr)
    from Suc.IH[OF q qs(1)] show ?thesis
      using st Some stored_entry[OF assms q] qs(2) by (cases qs) (auto simp: root_path_def)
  qed
qed simp

lemma branch_walk_ends:
  assumes "session_inv s" "map_of (ss_entries s) i = Some e"
  shows "\<exists>path. branch_walk (Suc (length (ss_entries s))) (ss_entries s) e = Some (Inr path)"
proof -
  let ?D = "fst ` set (ss_entries s)"
  have "i \<in> ?D" using assms(2) by (force dest: map_of_SomeD)
  moreover have "q \<in> ?D" if "session_up s k = Some q" for k q
  proof -
    from that obtain e where e: "map_of (ss_entries s) k = Some e" "entry_parentId e = Some q"
      by (auto simp: session_up_def split: option.splits)
    from stored_parent[OF assms(1) e] show ?thesis by (metis fst_conv image_iff map_of_SomeD)
  qed
  ultimately obtain ks where ks: "climb (session_up s) (card ?D) i = Some ks"
    using session_forest.climb_bounded[OF assms(1), of ?D i] by auto
  have "length ks \<le> card ?D"
    using climb_closed[OF ks, of ?D] \<open>i \<in> ?D\<close> \<open>\<And>k q. session_up s k = Some q \<Longrightarrow> q \<in> ?D\<close>
      distinct_card[OF session_forest.climb_distinct[OF assms(1) ks]] card_mono[of ?D "set ks"] by auto
  also have "\<dots> \<le> length (ss_entries s)"
    using card_length[of "map fst (ss_entries s)"] by simp
  finally have "climb (session_up s) (Suc (length (ss_entries s))) i = Some ks"
    by (intro climb_fuel[OF ks]) simp
  with branch_walk_climb[OF assms] show ?thesis by simp
qed

lemma root_path_seqs:
  assumes "session_inv s"
  shows "root_path s e path \<Longrightarrow> sorted_wrt (\<lambda>x y. entry_seq y < entry_seq x) path"
proof (induction path arbitrary: e)
  case (Cons x xs)
  show ?case
  proof (cases xs)
    case (Cons q zs)
    then have p: "root_path s q xs" "entry_parentId x = Some (entry_id q)" "x \<in> set (ss_entriesBySeq s)" "q \<in> set (ss_entriesBySeq s)"
      using Cons.prems by (auto simp: root_path_def)
    have "entry_seq q < entry_seq x"
      using stored_parent[OF assms _ p(2), of "entry_id x"] p(3,4) stored_iff[OF assms] by fastforce
    with Cons.IH[OF p(1)] Cons show ?thesis by fastforce
  qed simp
qed simp

lemma until_stop_eq:
  "until_stop P xs = takeWhile (\<lambda>x. \<not> P x) xs @ take 1 (dropWhile (\<lambda>x. \<not> P x) xs)"
  by (induction xs) auto

lemma scanBranch_found:
  assumes "session_inv s" "getEntry s (scan_start q) = Some e"
  shows "\<exists>path. root_path s e path \<and> scanBranch s q = Some (Inr (scan_path q path))"
proof -
  from assms(2) have e: "map_of (ss_entries s) (scan_start q) = Some e" by (simp add: getEntry_def)
  from branch_walk_ends[OF assms(1) e] obtain path
    where path: "branch_walk (Suc (length (ss_entries s))) (ss_entries s) e = Some (Inr path)" by blast
  from walk_root_path[OF assms(1) e path] path assms(2) show ?thesis
    by (auto simp: scanBranch_def simp del: branch_walk.simps)
qed

text \<open>
  C20. A branch scan always ends. From a stored entry it returns, of the one path to a root (newest first
  with decreasing sequences, reversed for \<open>oldestFirst\<close>), the part up to and including the first entry
  with the stop id or type, filtered by the type, the custom type and the exclusive cursor, and cut at the
  limit; from an unknown entry it throws.
\<close>
theorem scanBranch_path:
  assumes "session_inv s"
  shows "case getEntry s (scan_start q) of
      None \<Rightarrow> scanBranch s q = Some (Inl (UnknownBranchStart (scan_start q)))
    | Some e \<Rightarrow>
        \<exists>!path. root_path s e path \<and> sorted_wrt (\<lambda>x y. entry_seq y < entry_seq x) path \<and>
          (let p = (if scan_order q = OldestFirst then rev path else path);
               stop = (\<lambda>x. scan_stopAtId q = Some (entry_id x) \<or> scan_stopAtType q = Some (entry_type x));
               upto = takeWhile (\<lambda>x. \<not> stop x) p @ take 1 (dropWhile (\<lambda>x. \<not> stop x) p)
           in scanBranch s q = Some (Inr (limited (scan_limit q) (filter (branch_selected q) upto))))"
proof (cases "getEntry s (scan_start q)")
  case None
  then show ?thesis by (simp add: scanBranch_def)
next
  case (Some e)
  from scanBranch_found[OF assms Some] obtain path
    where path: "root_path s e path" "scanBranch s q = Some (Inr (scan_path q path))" by blast
  have scan: "scanBranch s q = Some (Inr (limited (scan_limit q) (filter (branch_selected q)
      (takeWhile (\<lambda>x. \<not> branch_stop q x) (if scan_order q = OldestFirst then rev path else path) @
       take 1 (dropWhile (\<lambda>x. \<not> branch_stop q x) (if scan_order q = OldestFirst then rev path else path))))))"
    using path(2) by (simp only: scan_path_def until_stop_eq)
  show ?thesis
    unfolding Some option.case Let_def
    by (rule ex1I[of _ path], intro conjI path(1) root_path_seqs[OF assms path(1)] scan[unfolded branch_stop_def])
      (use root_path_unique[OF assms path(1)] in blast)
qed

definition sample_session :: "int session_state" where
  "sample_session = snd (memory_commit empty_session sample_writes 7)"

lemma sample_session_inv: "session_inv sample_session"
  unfolding sample_session_def by (rule inv_memory_commit[OF session_inv_new])

definition scan_from :: "jstr \<Rightarrow> branch_scan" where
  "scan_from i =
     \<lparr>scan_start = i, scan_stopAtType = None, scan_stopAtId = None, scan_type = None, scan_customType = None,
      scan_order = OldestFirst, scan_limit = None, scan_cursor = None\<rparr>"

theorem scanBranch_path_witness:
  "(case getEntry sample_session (scan_start (scan_from (js ''b''))) of
      None \<Rightarrow> scanBranch sample_session (scan_from (js ''b'')) = Some (Inl (UnknownBranchStart (scan_start (scan_from (js ''b'')))))
    | Some e \<Rightarrow>
        \<exists>!path. root_path sample_session e path \<and> sorted_wrt (\<lambda>x y. entry_seq y < entry_seq x) path \<and>
          (let p = (if scan_order (scan_from (js ''b'')) = OldestFirst then rev path else path);
               stop = (\<lambda>x. scan_stopAtId (scan_from (js ''b'')) = Some (entry_id x) \<or> scan_stopAtType (scan_from (js ''b'')) = Some (entry_type x));
               upto = takeWhile (\<lambda>x. \<not> stop x) p @ take 1 (dropWhile (\<lambda>x. \<not> stop x) p)
           in scanBranch sample_session (scan_from (js ''b'')) =
                Some (Inr (limited (scan_limit (scan_from (js ''b''))) (filter (branch_selected (scan_from (js ''b''))) upto)))))
   \<and> map_option (map_sum id (map entry_id)) (scanBranch sample_session (scan_from (js ''b''))) = Some (Inr [js ''a'', js ''b''])"
proof (rule conjI)
  show "map_option (map_sum id (map entry_id)) (scanBranch sample_session (scan_from (js ''b''))) = Some (Inr [js ''a'', js ''b''])"
    by code_simp
qed (rule scanBranch_path[OF sample_session_inv])

section \<open>Entry scans\<close>

lemma scan_loop_eq:
  "scan_loop P None xs acc = acc @ filter P xs"
  "length acc \<le> l \<Longrightarrow> scan_loop P (Some l) xs acc = take l (acc @ filter P xs)"
  by (induction xs arbitrary: acc) (auto simp: take_append take_Cons')

text \<open>
  An entry scan returns the entries of the wanted types and sequence range in the order of their
  sequences, ascending or descending, cut at the limit: the index loop is the specification by filtering,
  and the sequences of its result are strictly monotone.
\<close>
theorem session_scanEntries_spec:
  assumes "session_inv s"
  shows "session_scanEntries s q =
      limited (es_limit q)
        (filter (\<lambda>e. wanted (es_type q) (es_customType q) e \<and> in_seq_range (es_fromSeq q) (es_toSeq q) (entry_seq e))
          (if es_order q = Some Desc then rev (ss_entriesBySeq s) else ss_entriesBySeq s)) \<and>
    sorted_wrt (\<lambda>x y. if es_order q = Some Desc then entry_seq y < entry_seq x else entry_seq x < entry_seq y)
      (session_scanEntries s q)"
proof -
  have eq: "session_scanEntries s q =
      limited (es_limit q)
        (filter (\<lambda>e. wanted (es_type q) (es_customType q) e \<and> in_seq_range (es_fromSeq q) (es_toSeq q) (entry_seq e))
          (if es_order q = Some Desc then rev (ss_entriesBySeq s) else ss_entriesBySeq s))"
    unfolding session_scanEntries_def limited_def by (cases "es_limit q") (simp_all add: scan_loop_eq)
  have "sorted_wrt (\<lambda>x y. entry_seq x < entry_seq y) (ss_entriesBySeq s)"
    using session_table[OF assms] assms
    by (simp add: seq_table_def session_inv_def entries_inv_def sorted_wrt_map)
  then have "sorted_wrt (\<lambda>x y. if es_order q = Some Desc then entry_seq y < entry_seq x else entry_seq x < entry_seq y)
      (if es_order q = Some Desc then rev (ss_entriesBySeq s) else ss_entriesBySeq s)"
    by (simp add: sorted_wrt_rev)
  then show ?thesis
    unfolding eq by (auto simp: limited_def sorted_wrt_filter sorted_wrt_take split: option.splits)
qed

theorem session_scanEntries_spec_witness:
  "let q = \<lparr>es_type = None, es_customType = None, es_fromSeq = Some 2, es_toSeq = None, es_order = Some Desc, es_limit = Some 5\<rparr> in
   (session_scanEntries sample_session q =
      limited (es_limit q)
        (filter (\<lambda>e. wanted (es_type q) (es_customType q) e \<and> in_seq_range (es_fromSeq q) (es_toSeq q) (entry_seq e))
          (if es_order q = Some Desc then rev (ss_entriesBySeq sample_session) else ss_entriesBySeq sample_session)) \<and>
    sorted_wrt (\<lambda>x y. if es_order q = Some Desc then entry_seq y < entry_seq x else entry_seq x < entry_seq y)
      (session_scanEntries sample_session q)) \<and>
   map entry_id (session_scanEntries sample_session q) = [js ''b'']"
proof -
  have "map entry_id (session_scanEntries sample_session
      \<lparr>es_type = None, es_customType = None, es_fromSeq = Some 2, es_toSeq = None, es_order = Some Desc, es_limit = Some 5\<rparr>) = [js ''b'']"
    by code_simp
  then show ?thesis unfolding Let_def by (intro conjI[OF session_scanEntries_spec[OF sample_session_inv]])
qed

section \<open>Value scans\<close>

text \<open>
  A scan by prefix returns exactly the stored values of the namespace whose key starts with the prefix,
  each once, in the order of the code points of their keys (not of the UTF-16 units).
\<close>
theorem scanValues_sorted:
  assumes "session_inv s"
  shows "sorted (map (\<lambda>v. code_points (ad_key (stored_address v))) (scanValues s p)) \<and>
    distinct (scanValues s p) \<and>
    set (scanValues s p) =
      {v. ad_namespace (stored_address v) = ad_namespace p \<and> startsWith (ad_key (stored_address v)) (ad_key p) \<and>
          getValue s (stored_address v) = Some v}"
proof (intro conjI)
  show "sorted (map (\<lambda>v. code_points (ad_key (stored_address v))) (scanValues s p))"
    unfolding scanValues_def by (rule js_sort_sorted) (simp add: compareKeys_def compare_points_le)
  have inv: "values_inv s" using assms by (simp add: session_inv_def)
  then have keys: "\<And>k v. (k, v) \<in> set (ss_scalarValues s) \<Longrightarrow>
      k = physicalKey (ad_namespace (stored_address v)) (ad_key (stored_address v))"
    and d: "distinct (map fst (ss_scalarValues s))" by (auto simp: values_inv_def)
  have "inj_on snd (set (ss_scalarValues s))"
    by (rule inj_onI) (metis keys prod.collapse)
  with d have "distinct (map snd (ss_scalarValues s))"
    by (simp add: distinct_map)
  then show "distinct (scanValues s p)" by (simp add: scanValues_def distinct_js_sort)
  have "v \<in> snd ` set (ss_scalarValues s) \<longleftrightarrow> getValue s (stored_address v) = Some v" for v
  proof
    assume "v \<in> snd ` set (ss_scalarValues s)"
    then obtain k where k: "(k, v) \<in> set (ss_scalarValues s)" by auto
    with keys[OF k] d show "getValue s (stored_address v) = Some v" by (simp add: getValue_def)
  next
    assume "getValue s (stored_address v) = Some v"
    then show "v \<in> snd ` set (ss_scalarValues s)"
      unfolding getValue_def by (rule image_eqI[OF _ map_of_SomeD, rotated]) simp
  qed
  then show "set (scanValues s p) =
      {v. ad_namespace (stored_address v) = ad_namespace p \<and> startsWith (ad_key (stored_address v)) (ad_key p) \<and>
          getValue s (stored_address v) = Some v}"
    by (auto simp: scanValues_def)
qed

theorem scanValues_sorted_witness:
  "let p = \<lparr>ad_namespace = js ''n'', ad_key = [], ad_kind = ValueKind\<rparr>; s = sample_session in
   (sorted (map (\<lambda>v. code_points (ad_key (stored_address v))) (scanValues s p)) \<and>
    distinct (scanValues s p) \<and>
    set (scanValues s p) =
      {v. ad_namespace (stored_address v) = ad_namespace p \<and> startsWith (ad_key (stored_address v)) (ad_key p) \<and>
          getValue s (stored_address v) = Some v}) \<and>
   map stored_seq (scanValues s p) = [3]"
proof -
  have "map stored_seq (scanValues sample_session \<lparr>ad_namespace = js ''n'', ad_key = [], ad_kind = ValueKind\<rparr>) = [3]"
    by code_simp
  then show ?thesis unfolding Let_def by (intro conjI[OF scanValues_sorted[OF sample_session_inv]])
qed

end
