(* ===== verification/SessionFork.thy ===== *)
theory SessionFork
  imports SessionBranch
begin

text \<open>
  Forks of a session (\<open>packages/agent/src/harness/session/fork-policy.ts\<close> and
  \<open>InMemoryStorageState.createFork\<close>): the destination is a session in its own right, it holds exactly the
  selected path (or tree) and no state of running operations.
\<close>

section \<open>Selection and projection\<close>

datatype fork_options = ForkTree | ForkBranch (fork_branch: jstr) (fork_entryId: "jstr option") (fork_before: bool)

datatype fork_plan = TreePlan | BranchPlan jstr "jstr option"

text \<open>
  The loop of \<open>selectBranchFork\<close>: whether the requested entry was found, the destination tip and the
  selected entries in the order of the calls. \<open>None\<close> means that the loop has not ended within \<open>n\<close> steps.
\<close>

fun fork_walk ::
    "nat \<Rightarrow> (jstr \<Rightarrow> jstr option option) \<Rightarrow> jstr option \<Rightarrow> bool \<Rightarrow> bool \<Rightarrow> jstr option \<Rightarrow> jstr list \<Rightarrow> jstr option \<Rightarrow>
      (session_error + bool \<times> jstr option \<times> jstr list) option" where
  "fork_walk n getParent req before found dest sel None = Some (Inr (found, dest, sel))"
| "fork_walk 0 getParent req before found dest sel (Some i) = None"
| "fork_walk (Suc n) getParent req before found dest sel (Some i) =
     (case getParent i of
        None \<Rightarrow> Some (Inl CorruptSourceBranch)
      | Some parent \<Rightarrow>
          if Some i = req
          then fork_walk n getParent req before True (if before then parent else Some i)
                 (if before then sel else sel @ [i]) parent
          else fork_walk n getParent req before found dest (if found then sel @ [i] else sel) parent)"

definition selectBranchFork ::
    "nat \<Rightarrow> jstr \<Rightarrow> jstr option \<Rightarrow> bool \<Rightarrow> jstr option option \<Rightarrow> (jstr \<Rightarrow> jstr option option) \<Rightarrow>
      (session_error + fork_plan \<times> jstr list) option" where
  "selectBranchFork n branch entryId before tip getParent =
     (case tip of
        None \<Rightarrow> Some (Inl (UnknownSourceBranch branch))
      | Some t \<Rightarrow>
          let req = (case entryId of None \<Rightarrow> t | Some i \<Rightarrow> Some i)
          in map_option (\<lambda>r. bindE r (\<lambda>(found, dest, sel).
               if found then Inr (BranchPlan branch dest, sel) else Inl (ForkEntryNotOnBranch req branch)))
             (fork_walk n getParent req before (req = None) None [] t))"

definition idle_lane_state :: json where
  "idle_lane_state =
     JObj [(js ''currentOperationId'', JNull), (js ''lastOperationId'', JNull), (js ''inbox'', JArr [])]"

definition tip_json :: "jstr option \<Rightarrow> json" where
  "tip_json t = (case t of None \<Rightarrow> JNull | Some i \<Rightarrow> JStr i)"

text \<open>The value of a projected write; \<open>Inr None\<close> drops the write.\<close>

definition project_value ::
    "fork_plan \<Rightarrow> (jstr \<Rightarrow> bool) \<Rightarrow> jstr \<Rightarrow> jstr \<Rightarrow> json \<Rightarrow> session_error + json option" where
  "project_value plan copied ns k v =
     (let own = (case plan of TreePlan \<Rightarrow> True | BranchPlan b dest \<Rightarrow> k = b)
      in if ns = js ''pi.session.name'' then Inr (Some v)
         else if ns = js ''pi.entry.label'' then Inr (if copied k then Some v else None)
         else if ns = js ''pi.branch.tip'' then
           Inr (case plan of TreePlan \<Rightarrow> Some v | BranchPlan b dest \<Rightarrow> if k = b then Some (tip_json dest) else None)
         else if ns = js ''pi.lane.config'' then Inr (if own then Some v else None)
         else if ns = js ''pi.lane.state'' then Inr (if own then Some idle_lane_state else None)
         else if ns = js ''pi.result'' then Inr None
         else if startsWith ns (js ''pi.op.'') \<or> startsWith ns (js ''pi.pending.'') then Inr None
         else if ns = js ''pi'' \<or> startsWith ns (js ''pi.'') then Inl (UnknownReservedNamespace ns)
         else Inr (case plan of TreePlan \<Rightarrow> Some v | BranchPlan b dest \<Rightarrow> None))"

text \<open>Only value sets and list appends are projected; the parameter has no other form.\<close>

fun projectForkCurrentStateWrite ::
    "fork_plan \<Rightarrow> (jstr \<Rightarrow> bool) \<Rightarrow> 'c committed_write \<Rightarrow> session_error + 'c committed_write option" where
  "projectForkCurrentStateWrite plan copied (CommittedValueSet q ns k v) =
     bindE (project_value plan copied ns k v) (\<lambda>r. Inr (map_option (CommittedValueSet q ns k) r))"
| "projectForkCurrentStateWrite plan copied (CommittedListAppend q ns k v) =
     bindE (project_value plan copied ns k v) (\<lambda>r. Inr (map_option (CommittedListAppend q ns k) r))"
| "projectForkCurrentStateWrite plan copied w = Inr None"

section \<open>The fork of the in-memory state\<close>

text \<open>A stored branch tip is a string or null; any other value makes the walk fail.\<close>

fun tip_value :: "json \<Rightarrow> session_error + jstr option" where
  "tip_value JNull = Inr None"
| "tip_value (JStr i) = Inr (Some i)"
| "tip_value v = Inl CorruptSourceBranch"

definition stored_at :: "'c session_state \<Rightarrow> string \<Rightarrow> jstr \<Rightarrow> session_error + stored_value option" where
  "stored_at s ns k =
     (case value_address (js ns) k of Inl e \<Rightarrow> Inl (BadAddress e) | Inr a \<Rightarrow> Inr (getValue s a))"

definition parent_of :: "'c session_state \<Rightarrow> jstr \<Rightarrow> jstr option option" where
  "parent_of s i = map_option entry_parentId (getEntry s i)"

definition selectForkPlan :: "'c session_state \<Rightarrow> fork_options \<Rightarrow> (session_error + fork_plan \<times> jstr list) option" where
  "selectForkPlan s opts =
     (case opts of
        ForkTree \<Rightarrow> Some (Inr (TreePlan, []))
      | ForkBranch branch entryId before \<Rightarrow>
          (case bindE (stored_at s ''pi.branch.tip'' branch)
                  (\<lambda>t. case t of None \<Rightarrow> Inr None | Some v \<Rightarrow> bindE (tip_value (stored_json v)) (\<lambda>x. Inr (Some x))) of
             Inl e \<Rightarrow> Some (Inl e)
           | Inr tip \<Rightarrow>
               map_option (\<lambda>r. bindE r (\<lambda>plan.
                   bindE (stored_at s ''pi.lane.config'' branch) (\<lambda>c.
                   bindE (stored_at s ''pi.lane.state'' branch) (\<lambda>l.
                   if c = None \<or> l = None then Inl (NotAConfiguredLane branch) else Inr plan))))
                 (selectBranchFork (Suc (length (ss_entries s))) branch entryId before tip (parent_of s))))"

definition is_copied :: "fork_plan \<Rightarrow> jstr list \<Rightarrow> jstr \<Rightarrow> bool" where
  "is_copied plan ids i = (case plan of TreePlan \<Rightarrow> True | BranchPlan b dest \<Rightarrow> i \<in> set ids)"

definition copy_entry :: "(jstr \<Rightarrow> bool) \<Rightarrow> session_entry \<Rightarrow> 'c session_state \<Rightarrow> 'c session_state" where
  "copy_entry copied e d =
     (if copied (entry_id e)
      then d\<lparr>ss_entries := AList.update (entry_id e) e (ss_entries d),
             ss_entriesBySeq := ss_entriesBySeq d @ [e],
             ss_stats := (if entry_type e = MessageType
                          then (ss_stats d)\<lparr>messageCount := messageCount (ss_stats d) + 1\<rparr> else ss_stats d)\<rparr>
      else d)"

definition copy_write ::
    "fork_plan \<Rightarrow> (jstr \<Rightarrow> bool) \<Rightarrow> ('c :: plus) session_state \<Rightarrow> 'c committed_write \<Rightarrow> session_error + 'c session_state" where
  "copy_write plan copied d w =
     bindE (projectForkCurrentStateWrite plan copied w)
       (\<lambda>r. case r of None \<Rightarrow> Inr d | Some w' \<Rightarrow> apply_body w' d)"

definition value_writes :: "'c session_state \<Rightarrow> 'c committed_write list" where
  "value_writes s =
     map (\<lambda>(k, v). CommittedValueSet (stored_seq v) (ad_namespace (stored_address v)) (ad_key (stored_address v)) (stored_json v))
       (ss_scalarValues s)"

definition list_writes :: "'c session_state \<Rightarrow> 'c committed_write list" where
  "list_writes s =
     concat (map (\<lambda>(k, l). map (\<lambda>el. CommittedListAppend (element_seq el) (ad_namespace (snapshot_address l))
         (ad_key (snapshot_address l)) (element_json el)) (snapshot_elements l)) (ss_listValues s))"

definition createFork :: "('c :: {zero, plus}) session_state \<Rightarrow> fork_options \<Rightarrow> (session_error + 'c session_state) option" where
  "createFork s opts =
     map_option (\<lambda>r. bindE r (\<lambda>(plan, ids).
       let copied = is_copied plan ids;
           d = fold (copy_entry copied) (ss_entriesBySeq s) new_session_state
       in bindE (foldE (copy_write plan copied) d (value_writes s)) (\<lambda>d1.
          bindE (foldE (copy_write plan copied) d1 (list_writes s)) (\<lambda>d2.
          Inr (d2\<lparr>ss_nextSeq := ss_nextSeq s\<rparr>)))))
     (selectForkPlan s opts)"

section \<open>The walk selects a path\<close>

lemma fork_walk_found:
  "climb up n i = Some ks \<Longrightarrow> (\<And>k. k \<in> set ks \<Longrightarrow> getParent k = Some (up k)) \<Longrightarrow> req \<notin> Some ` set ks \<Longrightarrow>
     fork_walk n getParent req before True dest sel (Some i) = Some (Inr (True, dest, sel @ ks))"
proof (induction n arbitrary: i ks sel)
  case (Suc n)
  show ?case
  proof (cases "up i")
    case None
    then show ?thesis using Suc.prems by auto
  next
    case (Some q)
    with Suc.prems(1) obtain qs where qs: "climb up n q = Some qs" "ks = i # qs" by auto
    with Suc.IH[OF qs(1), of "sel @ [i]"] Suc.prems(2,3) Some show ?thesis by auto
  qed
qed simp

lemma fork_walk_search:
  "climb up n i = Some (us @ r # vs) \<Longrightarrow> (\<And>k. k \<in> set (us @ r # vs) \<Longrightarrow> getParent k = Some (up k)) \<Longrightarrow>
     distinct (us @ r # vs) \<Longrightarrow>
     fork_walk n getParent (Some r) before False None sel (Some i) =
       Some (Inr (True, if before then up r else Some r, sel @ (if before then vs else r # vs)))"
proof (induction n arbitrary: i us)
  case (Suc n)
  show ?case
  proof (cases us)
    case Nil
    then have i: "i = r" using Suc.prems(1) by (auto split: option.splits)
    have up: "up r = (case vs of [] \<Rightarrow> None | v # _ \<Rightarrow> Some v)"
      using climb_suffix[OF Suc.prems(1)] by blast
    have p: "getParent r = Some (up r)" using Suc.prems(2)[of r] by simp
    show ?thesis
    proof (cases vs)
      case Nil
      then show ?thesis using i up p by simp
    next
      case (Cons v vs')
      then have "climb up n v = Some vs"
        using Suc.prems(1) \<open>us = []\<close> i up by (auto split: option.splits)
      moreover have "Some r \<notin> Some ` set vs" using Suc.prems(3) by auto
      ultimately have "fork_walk n getParent (Some r) before True dest sel' (Some v) = Some (Inr (True, dest, sel' @ vs))" for dest sel'
        using fork_walk_found[of up n v vs getParent "Some r"] Suc.prems(2) by simp
      then show ?thesis using i up p Cons by simp
    qed
  next
    case (Cons u us')
    with Suc.prems(1) obtain q where q: "up i = Some q" "u = i" "climb up n q = Some (us' @ r # vs)"
      by (auto split: option.splits)
    have "i \<noteq> r" "getParent i = Some (Some q)" using Suc.prems(2,3) Cons q by auto
    with Suc.IH[OF q(3)] Suc.prems(2,3) Cons show ?thesis by simp
  qed
qed simp

lemma fork_walk_missing:
  "climb up n i = Some ks \<Longrightarrow> (\<And>k. k \<in> set ks \<Longrightarrow> getParent k = Some (up k)) \<Longrightarrow> req \<notin> Some ` set ks \<Longrightarrow>
     fork_walk n getParent req before False None sel (Some i) = Some (Inr (False, None, sel))"
proof (induction n arbitrary: i ks)
  case (Suc n)
  show ?case
  proof (cases "up i")
    case None
    then show ?thesis using Suc.prems by auto
  next
    case (Some q)
    with Suc.prems(1) obtain qs where qs: "climb up n q = Some qs" "ks = i # qs" by auto
    with Suc.IH[OF qs(1)] Suc.prems(2,3) Some show ?thesis by auto
  qed
qed simp

definition path_ids :: "'c session_state \<Rightarrow> jstr \<Rightarrow> jstr list \<Rightarrow> bool" where
  "path_ids s i ks \<longleftrightarrow> getEntry s i \<noteq> None \<and> climb (session_up s) (Suc (length (ss_entries s))) i = Some ks"

lemma path_stored:
  assumes "session_inv s" "climb (session_up s) n i = Some ks" "getEntry s i \<noteq> None" "k \<in> set ks"
  shows "getEntry s k \<noteq> None"
proof -
  have "set ks \<subseteq> {k. getEntry s k \<noteq> None}"
  proof (rule climb_closed[OF assms(2)])
    fix k q
    assume "session_up s k = Some q"
    then obtain e where "map_of (ss_entries s) k = Some e" "entry_parentId e = Some q"
      by (auto simp: session_up_def split: option.splits)
    from stored_parent[OF assms(1) this] show "q \<in> {k. getEntry s k \<noteq> None}"
      by (auto simp: getEntry_def)
  qed (use assms(3) in simp)
  with assms(4) show ?thesis by blast
qed

lemma path_ids_exist: "session_inv s \<Longrightarrow> getEntry s i = Some e \<Longrightarrow> \<exists>ks. path_ids s i ks \<and> distinct ks"
proof -
  assume inv: "session_inv s" and "getEntry s i = Some e"
  then have e: "map_of (ss_entries s) i = Some e" by (simp add: getEntry_def)
  from branch_walk_ends[OF inv e] obtain ks where "climb (session_up s) (Suc (length (ss_entries s))) i = Some ks"
    unfolding branch_walk_climb[OF inv e] by auto
  with session_forest.climb_distinct[OF inv this] e show ?thesis
    by (auto simp: path_ids_def getEntry_def)
qed

lemma parent_of_up: "getEntry s k \<noteq> None \<Longrightarrow> parent_of s k = Some (session_up s k)"
  by (auto simp: parent_of_def session_up_def getEntry_def)

text \<open>
  What the selection of a branch fork means: the requested entry (the tip when none is given) is on the
  path of the tip, the destination tip is that entry or its parent, and the selected ids are its path.
\<close>

definition branch_selection ::
    "'c session_state \<Rightarrow> jstr option \<Rightarrow> bool \<Rightarrow> jstr option \<Rightarrow> jstr option \<Rightarrow> jstr list \<Rightarrow> bool" where
  "branch_selection s entryId before tip dest ids \<longleftrightarrow>
     (let req = (case entryId of None \<Rightarrow> tip | Some i \<Rightarrow> Some i)
      in (case req of
            None \<Rightarrow> tip = None \<and> dest = None
          | Some r \<Rightarrow> (\<exists>t ks. tip = Some t \<and> path_ids s t ks \<and> r \<in> set ks) \<and>
                      dest = (if before then session_up s r else Some r)) \<and>
         (case dest of None \<Rightarrow> ids = [] | Some i \<Rightarrow> path_ids s i ids))"

lemma fork_walk_tip:
  assumes inv: "session_inv s" and req: "req = (case entryId of None \<Rightarrow> tip | Some i \<Rightarrow> Some i)"
  shows "\<exists>r. fork_walk (Suc (length (ss_entries s))) (parent_of s) req before (req = None) None [] tip = Some r \<and>
    (\<forall>dest ids. r = Inr (True, dest, ids) \<longrightarrow> branch_selection s entryId before tip dest ids)"
proof (cases tip)
  case None
  then show ?thesis
    using req by (cases entryId) (auto simp: branch_selection_def)
next
  case (Some t)
  then obtain r where r: "req = Some r" using req by (cases entryId) auto
  show ?thesis
  proof (cases "getEntry s t")
    case None
    then show ?thesis using Some by (simp add: parent_of_def)
  next
    case st: (Some e)
    obtain ks where ks: "path_ids s t ks" "distinct ks" using path_ids_exist[OF inv st] by blast
    then have c: "climb (session_up s) (Suc (length (ss_entries s))) t = Some ks" by (simp add: path_ids_def)
    have stored: "getEntry s k \<noteq> None" if "k \<in> set ks" for k
      using path_stored[OF inv c _ that] st by simp
    then have par: "parent_of s k = Some (session_up s k)" if "k \<in> set ks" for k
      using parent_of_up that by blast
    show ?thesis
    proof (cases "r \<in> set ks")
      case False
      then have "Some r \<notin> Some ` set ks" by auto
      from fork_walk_missing[OF c par this] show ?thesis
        using Some r by (simp del: fork_walk.simps)
    next
      case True
      then obtain us vs where split: "ks = us @ r # vs" by (meson split_list)
      have walk: "fork_walk (Suc (length (ss_entries s))) (parent_of s) (Some r) before False None [] (Some t) =
          Some (Inr (True, if before then session_up s r else Some r, [] @ (if before then vs else r # vs)))"
        by (rule fork_walk_search[of "session_up s" _ t us r vs]) (use c ks(2) par split in auto)
      have suffix: "climb (session_up s) (Suc (length (ss_entries s))) r = Some (r # vs)"
        "session_up s r = (case vs of [] \<Rightarrow> None | v # _ \<Rightarrow> Some v)"
        using climb_suffix[OF c[unfolded split]] by blast+
      have "path_ids s r (r # vs)" using suffix(1) stored[OF True] by (simp add: path_ids_def)
      moreover have "path_ids s v vs" if "session_up s r = Some v" for v
      proof -
        from that suffix(2) obtain vs' where vs: "vs = v # vs'" by (auto split: list.splits)
        with split have "ks = (us @ [r]) @ v # vs'" by simp
        with climb_suffix[of "session_up s" _ t "us @ [r]" v vs'] c vs stored[of v]
        show ?thesis by (simp add: path_ids_def del: climb.simps)
      qed
      moreover have "vs = []" if "session_up s r = None"
        using that suffix(2) by (auto split: list.splits)
      ultimately have "branch_selection s entryId before tip (if before then session_up s r else Some r)
          (if before then vs else r # vs)"
        using Some r req ks(1) True by (auto simp: branch_selection_def split: option.splits)
      with walk r Some show ?thesis by (simp del: fork_walk.simps)
    qed
  qed
qed

lemma tip_value_eq: "tip_value v = Inr t \<longleftrightarrow> v = tip_json t"
  by (cases v) (auto simp: tip_json_def split: option.splits)

abbreviation address_of :: "string \<Rightarrow> jstr \<Rightarrow> address" where
  "address_of ns k \<equiv> \<lparr>ad_namespace = js ns, ad_key = k, ad_kind = ValueKind\<rparr>"

lemma stored_at_eq: "stored_at s ns k = Inr r \<longleftrightarrow> valid_address (js ns) k \<and> r = getValue s (address_of ns k)"
proof (cases "value_address (js ns) k")
  case (Inl e)
  moreover from this have "\<not> valid_address (js ns) k" by (metis Inl_not_Inr value_address_iff)
  ultimately show ?thesis by (simp add: stored_at_def)
next
  case (Inr a)
  then have "valid_address (js ns) k" "a = address_of ns k" by (simp_all add: value_address_iff)
  then show ?thesis unfolding stored_at_def Inr by auto
qed

lemma selectForkPlan_branch:
  assumes "session_inv s"
  shows "\<exists>r. selectForkPlan s (ForkBranch b entryId before) = Some r \<and>
    (\<forall>plan ids. r = Inr (plan, ids) \<longrightarrow>
      (\<exists>v tip dest. getValue s (address_of ''pi.branch.tip'' b) = Some v \<and> stored_json v = tip_json tip \<and>
         plan = BranchPlan b dest \<and> branch_selection s entryId before tip dest ids \<and>
         valid_address (js ''pi.lane.config'') b \<and>
         getValue s (address_of ''pi.lane.config'' b) \<noteq> None \<and> getValue s (address_of ''pi.lane.state'' b) \<noteq> None))"
proof (cases "stored_at s ''pi.branch.tip'' b")
  case (Inl e)
  then show ?thesis by (simp add: selectForkPlan_def)
next
  case at: (Inr t)
  show ?thesis
  proof (cases t)
    case None
    then show ?thesis using at by (simp add: selectForkPlan_def selectBranchFork_def)
  next
    case (Some v)
    show ?thesis
    proof (cases "tip_value (stored_json v)")
      case (Inl e)
      then show ?thesis using at Some by (simp add: selectForkPlan_def)
    next
      case (Inr tip)
      define req where "req = (case entryId of None \<Rightarrow> tip | Some i \<Rightarrow> Some i)"
      from fork_walk_tip[OF assms req_def, of before] obtain w where
        w: "fork_walk (Suc (length (ss_entries s))) (parent_of s) req before (req = None) None [] tip = Some w"
        "\<And>dest ids. w = Inr (True, dest, ids) \<Longrightarrow> branch_selection s entryId before tip dest ids" by blast
      have sel: "selectForkPlan s (ForkBranch b entryId before) = Some
        (bindE (bindE w (\<lambda>(found, dest, ids).
             if found then Inr (BranchPlan b dest, ids) else Inl (ForkEntryNotOnBranch req b)))
          (\<lambda>plan. bindE (stored_at s ''pi.lane.config'' b) (\<lambda>c.
             bindE (stored_at s ''pi.lane.state'' b) (\<lambda>l.
             if c = None \<or> l = None then Inl (NotAConfiguredLane b) else Inr plan))))"
        using w(1) unfolding req_def
        by (simp add: selectForkPlan_def selectBranchFork_def at Some Inr Let_def del: fork_walk.simps)
      have v: "getValue s (address_of ''pi.branch.tip'' b) = Some v" "stored_json v = tip_json tip"
        using at Some Inr by (simp_all add: stored_at_eq tip_value_eq)
      show ?thesis
        unfolding sel using v w(2)
        by (auto simp: bindE_eq_Inr stored_at_eq split: if_splits)
    qed
  qed
qed

end
