(* ===== verification/SessionForkCopy.thy ===== *)
theory SessionForkCopy
  imports SessionFork
begin

text \<open>
  What \<open>createFork\<close> copies: the destination satisfies the invariant of the session storage, its entries
  are the selected path, and its values and lists are the projections of the stored ones.
\<close>

section \<open>Entries\<close>

lemma copy_entries:
  assumes "distinct (map entry_id es)" "entry_id ` set es \<inter> fst ` set (ss_entries d) = {}"
  shows "fold (copy_entry copied) es d =
    d\<lparr>ss_entries := ss_entries d @ map (\<lambda>e. (entry_id e, e)) (filter (\<lambda>e. copied (entry_id e)) es),
      ss_entriesBySeq := ss_entriesBySeq d @ filter (\<lambda>e. copied (entry_id e)) es,
      ss_stats := (ss_stats d)\<lparr>messageCount := messageCount (ss_stats d) +
        length (filter (\<lambda>e. entry_type e = MessageType) (filter (\<lambda>e. copied (entry_id e)) es))\<rparr>\<rparr>"
  using assms
proof (induction es arbitrary: d)
  case (Cons e es)
  then have "map_of (ss_entries d) (entry_id e) = None"
    by (auto simp: map_of_eq_None_iff)
  moreover have "entry_id ` set es \<inter> fst ` set (ss_entries (copy_entry copied e d)) = {}"
    using Cons.prems calculation by (auto simp: copy_entry_def update_new)
  ultimately show ?case
    using Cons.IH[of "copy_entry copied e d"] Cons.prems(1) by (auto simp: copy_entry_def update_new)
qed simp

lemma copy_all_entries:
  assumes "session_inv s"
  shows "fold (copy_entry copied) (ss_entriesBySeq s) new_session_state =
    new_session_state
     \<lparr>ss_entries := filter (\<lambda>(k, e). copied k) (ss_entries s),
      ss_entriesBySeq := filter (\<lambda>e. copied (entry_id e)) (ss_entriesBySeq s),
      ss_stats := \<lparr>messageCount = length (filter (\<lambda>e. entry_type e = MessageType)
                     (filter (\<lambda>e. copied (entry_id e)) (ss_entriesBySeq s))), stats_usage = emptyUsage\<rparr>\<rparr>"
proof -
  have tab: "seq_table entry_id entry_seq (ss_nextSeq s) (ss_entries s)" by (rule session_table[OF assms])
  have seqs: "ss_entriesBySeq s = map snd (ss_entries s)"
    using assms by (simp add: session_inv_def entries_inv_def)
  have ids: "map entry_id (map snd es) = map fst es"
    "map (\<lambda>e. (entry_id e, e)) (filter (\<lambda>e. copied (entry_id e)) (map snd es)) = filter (\<lambda>(k, e). copied k) es"
    if "\<forall>(k, e) \<in> set es. k = entry_id e" for es
    using that by (induction es) auto
  have keys: "\<forall>(k, e) \<in> set (ss_entries s). k = entry_id e" using tab by (simp add: seq_table_def)
  have "distinct (map entry_id (ss_entriesBySeq s))"
    using tab unfolding seqs ids(1)[OF keys] by (simp add: seq_table_def)
  from copy_entries[OF this, of new_session_state copied] ids(2)[OF keys] show ?thesis
    by (simp add: new_session_state_def seqs)
qed

section \<open>Values\<close>

definition project_stored :: "fork_plan \<Rightarrow> (jstr \<Rightarrow> bool) \<Rightarrow> stored_value \<Rightarrow> stored_value option" where
  "project_stored plan copied v =
     (case project_value plan copied (ad_namespace (stored_address v)) (ad_key (stored_address v)) (stored_json v) of
        Inr (Some j) \<Rightarrow> Some (v\<lparr>stored_json := j\<rparr>) | _ \<Rightarrow> None)"

text \<open>The bindings that a partial map of the values keeps.\<close>

fun keep :: "('a \<Rightarrow> 'b option) \<Rightarrow> ('k \<times> 'a) list \<Rightarrow> ('k \<times> 'b) list" where
  "keep f [] = []"
| "keep f ((k, v) # al) = (case f v of None \<Rightarrow> keep f al | Some w \<Rightarrow> (k, w) # keep f al)"

lemma keep_keys: "fst ` set (keep f al) \<subseteq> fst ` set al"
  by (induction f al rule: keep.induct) (auto split: option.splits)

lemma map_of_keep: "distinct (map fst al) \<Longrightarrow> map_of (keep f al) k = Option.bind (map_of al k) f"
proof (induction f al rule: keep.induct)
  case (2 f k' v al)
  have "map_of (keep f al) k' = None"
    using keep_keys[of f al] 2(3) by (auto simp: map_of_eq_None_iff)
  with 2 show ?case by (cases "f v") auto
qed simp

lemma keep_from: "(k, w) \<in> set (keep f al) \<Longrightarrow> \<exists>v. (k, v) \<in> set al \<and> f v = Some w"
  by (induction f al rule: keep.induct) (auto split: option.splits)

lemma distinct_keep: "distinct (map fst al) \<Longrightarrow> distinct (map fst (keep f al))"
proof (induction f al rule: keep.induct)
  case (2 f k v al)
  then show ?case using keep_keys[of f al] by (cases "f v") auto
qed simp

abbreviation kept_values :: "fork_plan \<Rightarrow> (jstr \<Rightarrow> bool) \<Rightarrow> (jstr \<times> stored_value) list \<Rightarrow> (jstr \<times> stored_value) list" where
  "kept_values plan copied \<equiv> keep (project_stored plan copied)"

definition value_ok :: "jstr \<times> stored_value \<Rightarrow> bool" where
  "value_ok kv \<longleftrightarrow> (case kv of (k, v) \<Rightarrow>
     k = physicalKey (ad_namespace (stored_address v)) (ad_key (stored_address v)) \<and>
     valid_address (ad_namespace (stored_address v)) (ad_key (stored_address v)) \<and>
     ad_kind (stored_address v) = ValueKind)"

lemma stored_value_upd:
  "\<lparr>stored_address = stored_address v, stored_json = x, stored_seq = stored_seq v\<rparr> = v\<lparr>stored_json := x\<rparr>"
  by (cases v) simp

lemma copy_values:
  assumes "foldE (copy_write plan copied) d (map (\<lambda>(k, v). CommittedValueSet (stored_seq v)
      (ad_namespace (stored_address v)) (ad_key (stored_address v)) (stored_json v)) al) = Inr d1"
    and "list_all value_ok al" "distinct (map fst al)" "fst ` set al \<inter> fst ` set (ss_scalarValues d) = {}"
  shows "d1 = d\<lparr>ss_scalarValues := ss_scalarValues d @ kept_values plan copied al\<rparr>"
  using assms
proof (induction al arbitrary: d)
  case Nil
  then show ?case by simp
next
  case (Cons kv al)
  obtain k v where kv: "kv = (k, v)" by (cases kv)
  let ?w = "CommittedValueSet (stored_seq v) (ad_namespace (stored_address v)) (ad_key (stored_address v)) (stored_json v)"
  from Cons.prems(1) obtain d' where d': "copy_write plan copied d ?w = Inr d'"
    "foldE (copy_write plan copied) d' (map (\<lambda>(k, v). CommittedValueSet (stored_seq v)
      (ad_namespace (stored_address v)) (ad_key (stored_address v)) (stored_json v)) al) = Inr d1"
    by (auto simp: kv bindE_eq_Inr)
  have ok: "k = physicalKey (ad_namespace (stored_address v)) (ad_key (stored_address v))"
    "valid_address (ad_namespace (stored_address v)) (ad_key (stored_address v))"
    "ad_kind (stored_address v) = ValueKind" "list_all value_ok al"
    using Cons.prems(2) by (simp_all add: kv value_ok_def[of "(k, v)"])
  then have a: "value_address (ad_namespace (stored_address v)) (ad_key (stored_address v)) = Inr (stored_address v)"
    by (simp add: value_address_iff)
  have new: "map_of (ss_scalarValues d) k = None"
    using Cons.prems(4) by (auto simp: kv map_of_eq_None_iff)
  from d'(1) have step: "d' = d\<lparr>ss_scalarValues := ss_scalarValues d @ kept_values plan copied [kv]\<rparr>"
    using a ok(1) new
    by (auto simp: copy_write_def bindE_eq_Inr kv project_stored_def applyValueSet_def update_new stored_value_upd
        split: option.splits)
  have "fst ` set (kept_values plan copied [kv]) \<subseteq> {k}"
    by (auto simp: kv split: option.splits)
  then have "fst ` set al \<inter> fst ` set (ss_scalarValues d') = {}"
    using Cons.prems(3,4) unfolding step by (auto simp: kv)
  with Cons.IH[OF d'(2) ok(4)] Cons.prems(3) show ?case
    by (simp add: step kv split: option.splits)
qed

lemma project_stored_sel:
  "project_stored plan copied v = Some w \<Longrightarrow>
     stored_address w = stored_address v \<and> stored_seq w = stored_seq v"
  by (auto simp: project_stored_def split: sum.splits option.splits)

section \<open>Lists\<close>

definition project_element :: "fork_plan \<Rightarrow> (jstr \<Rightarrow> bool) \<Rightarrow> address \<Rightarrow> list_element \<Rightarrow> list_element option" where
  "project_element plan copied a el =
     (case project_value plan copied (ad_namespace a) (ad_key a) (element_json el) of
        Inr (Some j) \<Rightarrow> Some (el\<lparr>element_json := j\<rparr>) | _ \<Rightarrow> None)"

definition kept_elements :: "fork_plan \<Rightarrow> (jstr \<Rightarrow> bool) \<Rightarrow> address \<Rightarrow> list_element list \<Rightarrow> list_element list" where
  "kept_elements plan copied a els = List.map_filter (project_element plan copied a) els"

lemma kept_elements_simps [simp]:
  "kept_elements plan copied a [] = []"
  "kept_elements plan copied a (el # els) =
     (case project_element plan copied a el of None \<Rightarrow> kept_elements plan copied a els
      | Some x \<Rightarrow> x # kept_elements plan copied a els)"
  by (simp_all add: kept_elements_def map_filter_simps split: option.splits)

lemma element_upd: "\<lparr>element_seq = element_seq el, element_json = x\<rparr> = el\<lparr>element_json := x\<rparr>"
  by (cases el) simp

definition project_snapshot :: "fork_plan \<Rightarrow> (jstr \<Rightarrow> bool) \<Rightarrow> list_snapshot \<Rightarrow> list_snapshot option" where
  "project_snapshot plan copied l =
     (case kept_elements plan copied (snapshot_address l) (snapshot_elements l) of
        [] \<Rightarrow> None | els \<Rightarrow> Some (l\<lparr>snapshot_elements := els\<rparr>))"

definition list_ok :: "jstr \<times> list_snapshot \<Rightarrow> bool" where
  "list_ok kl \<longleftrightarrow> (case kl of (k, l) \<Rightarrow>
     k = physicalKey (ad_namespace (snapshot_address l)) (ad_key (snapshot_address l)) \<and>
     valid_address (ad_namespace (snapshot_address l)) (ad_key (snapshot_address l)) \<and>
     ad_kind (snapshot_address l) = ListKind)"

text \<open>The list of one key while its elements are appended.\<close>

definition with_list :: "(jstr \<times> list_snapshot) list \<Rightarrow> jstr \<Rightarrow> address \<Rightarrow> list_element list \<Rightarrow> (jstr \<times> list_snapshot) list" where
  "with_list base k a els =
     (if els = [] then base else base @ [(k, \<lparr>snapshot_address = a, snapshot_elements = els\<rparr>)])"

lemma update_last: "k \<notin> fst ` set base \<Longrightarrow> AList.update k v (base @ [(k, x)]) = base @ [(k, v)]"
  by (induction base) auto

lemma append_with_list:
  assumes "ss_listValues d = with_list base k a acc" "k \<notin> fst ` set base"
    "k = physicalKey (ad_namespace a) (ad_key a)" "valid_address (ad_namespace a) (ad_key a)" "ad_kind a = ListKind"
  shows "applyListAppend q (ad_namespace a) (ad_key a) j d =
    Inr (d\<lparr>ss_listValues := with_list base k a (acc @ [\<lparr>element_seq = q, element_json = j\<rparr>])\<rparr>)"
proof -
  have a: "list_address (ad_namespace a) (ad_key a) = Inr a"
    using assms(4,5) by (simp add: list_address_iff)
  have "map_of base k = None" using assms(2) by (simp add: map_of_eq_None_iff)
  then show ?thesis
    using assms(1-3) a
    by (cases "acc = []") (auto simp: applyListAppend_def Let_def with_list_def update_new update_last map_add_def)
qed

lemma copy_elements:
  assumes "foldE (copy_write plan copied) d (map (\<lambda>el. CommittedListAppend (element_seq el) (ad_namespace a)
      (ad_key a) (element_json el)) els) = Inr d1"
    and "ss_listValues d = with_list base k a acc" "k \<notin> fst ` set base"
    "k = physicalKey (ad_namespace a) (ad_key a)" "valid_address (ad_namespace a) (ad_key a)" "ad_kind a = ListKind"
  shows "d1 = d\<lparr>ss_listValues := with_list base k a (acc @ kept_elements plan copied a els)\<rparr>"
  using assms(1,2)
proof (induction els arbitrary: d acc)
  case Nil
  then show ?case by simp
next
  case (Cons el els)
  from Cons.prems(1) obtain d' where d': "copy_write plan copied d (CommittedListAppend (element_seq el) (ad_namespace a)
      (ad_key a) (element_json el)) = Inr d'"
    "foldE (copy_write plan copied) d' (map (\<lambda>el. CommittedListAppend (element_seq el) (ad_namespace a)
      (ad_key a) (element_json el)) els) = Inr d1"
    by (auto simp: bindE_eq_Inr)
  then obtain r where r: "project_value plan copied (ad_namespace a) (ad_key a) (element_json el) = Inr r"
    by (auto simp: copy_write_def bindE_eq_Inr)
  show ?case
  proof (cases r)
    case None
    with r d'(1) have "d' = d" by (simp add: copy_write_def)
    with Cons.IH[OF d'(2)] Cons.prems(2) r None show ?thesis by (simp add: project_element_def)
  next
    case (Some j)
    with r d'(1) append_with_list[OF Cons.prems(2) assms(3-6), of "element_seq el" j]
    have "d' = d\<lparr>ss_listValues := with_list base k a (acc @ [el\<lparr>element_json := j\<rparr>])\<rparr>"
      by (simp add: copy_write_def element_upd)
    with Cons.IH[OF d'(2), of "acc @ [el\<lparr>element_json := j\<rparr>]"] r Some show ?thesis
      by (simp add: project_element_def)
  qed
qed

lemma copy_lists:
  assumes "foldE (copy_write plan copied) d (concat (map (\<lambda>(k, l). map (\<lambda>el. CommittedListAppend (element_seq el)
      (ad_namespace (snapshot_address l)) (ad_key (snapshot_address l)) (element_json el)) (snapshot_elements l)) al)) = Inr d1"
    and "list_all list_ok al" "distinct (map fst al)" "fst ` set al \<inter> fst ` set (ss_listValues d) = {}"
  shows "d1 = d\<lparr>ss_listValues := ss_listValues d @ keep (project_snapshot plan copied) al\<rparr>"
  using assms
proof (induction al arbitrary: d)
  case Nil
  then show ?case by simp
next
  case (Cons kl al)
  obtain k l where kl: "kl = (k, l)" by (cases kl)
  from Cons.prems(1) obtain d' where d': "foldE (copy_write plan copied) d (map (\<lambda>el. CommittedListAppend (element_seq el)
      (ad_namespace (snapshot_address l)) (ad_key (snapshot_address l)) (element_json el)) (snapshot_elements l)) = Inr d'"
    "foldE (copy_write plan copied) d' (concat (map (\<lambda>(k, l). map (\<lambda>el. CommittedListAppend (element_seq el)
      (ad_namespace (snapshot_address l)) (ad_key (snapshot_address l)) (element_json el)) (snapshot_elements l)) al)) = Inr d1"
    by (auto simp: kl foldE_append bindE_eq_Inr)
  have ok: "k = physicalKey (ad_namespace (snapshot_address l)) (ad_key (snapshot_address l))"
    "valid_address (ad_namespace (snapshot_address l)) (ad_key (snapshot_address l))"
    "ad_kind (snapshot_address l) = ListKind" "list_all list_ok al"
    using Cons.prems(2) by (simp_all add: kl list_ok_def[of "(k, l)"])
  have "k \<notin> fst ` set (ss_listValues d)" using Cons.prems(4) by (simp add: kl)
  from copy_elements[OF d'(1), of "ss_listValues d" k "[]"] this ok
  have "d' = d\<lparr>ss_listValues := with_list (ss_listValues d) k (snapshot_address l)
      (kept_elements plan copied (snapshot_address l) (snapshot_elements l))\<rparr>"
    by (simp add: with_list_def)
  moreover have "l\<lparr>snapshot_elements := els\<rparr> = \<lparr>snapshot_address = snapshot_address l, snapshot_elements = els\<rparr>" for els
    by (cases l) simp
  ultimately have step: "d' = d\<lparr>ss_listValues := ss_listValues d @ keep (project_snapshot plan copied) [(k, l)]\<rparr>"
    by (cases "kept_elements plan copied (snapshot_address l) (snapshot_elements l)")
      (simp_all add: with_list_def project_snapshot_def)
  have "fst ` set (keep (project_snapshot plan copied) [(k, l)]) \<subseteq> {k}"
    using keep_keys[of "project_snapshot plan copied" "[(k, l)]"] by simp
  then have "fst ` set al \<inter> fst ` set (ss_listValues d') = {}"
    using Cons.prems(3,4) unfolding step by (auto simp: kl)
  with Cons.IH[OF d'(2) ok(4)] Cons.prems(3) show ?case
    by (simp add: step kl split: option.splits)
qed

section \<open>The destination\<close>

lemma value_ok_all: "session_inv s \<Longrightarrow> list_all value_ok (ss_scalarValues s)"
  by (auto simp: session_inv_def values_inv_def value_ok_def list_all_iff)

lemma list_ok_all: "session_inv s \<Longrightarrow> list_all list_ok (ss_listValues s)"
  by (auto simp: session_inv_def lists_inv_def snapshot_ok_def list_ok_def list_all_iff)

lemma createFork_parts:
  assumes "session_inv s" "createFork s opts = Some (Inr d)"
  obtains plan ids where "selectForkPlan s opts = Some (Inr (plan, ids))"
    "ss_entries d = filter (\<lambda>(k, e). is_copied plan ids k) (ss_entries s)"
    "ss_entriesBySeq d = filter (\<lambda>e. is_copied plan ids (entry_id e)) (ss_entriesBySeq s)"
    "ss_scalarValues d = kept_values plan (is_copied plan ids) (ss_scalarValues s)"
    "ss_listValues d = keep (project_snapshot plan (is_copied plan ids)) (ss_listValues s)"
    "ss_usage d = []" "ss_nextSeq d = ss_nextSeq s"
    "ss_stats d = \<lparr>messageCount = length (filter (\<lambda>e. entry_type e = MessageType) (ss_entriesBySeq d)),
                   stats_usage = emptyUsage\<rparr>"
proof -
  from assms(2) obtain plan ids d1 d2 where
    plan: "selectForkPlan s opts = Some (Inr (plan, ids))"
    and d1: "foldE (copy_write plan (is_copied plan ids))
      (fold (copy_entry (is_copied plan ids)) (ss_entriesBySeq s) new_session_state) (value_writes s) = Inr d1"
    and d2: "foldE (copy_write plan (is_copied plan ids)) d1 (list_writes s) = Inr d2"
    and d: "d = d2\<lparr>ss_nextSeq := ss_nextSeq s\<rparr>"
    by (auto simp: createFork_def bindE_eq_Inr Let_def)
  have dv: "distinct (map fst (ss_scalarValues s))" and dl: "distinct (map fst (ss_listValues s))"
    using assms(1) by (auto simp: session_inv_def values_inv_def lists_inv_def)
  define d0 :: "'a session_state" where "d0 = fold (copy_entry (is_copied plan ids)) (ss_entriesBySeq s) new_session_state"
  have d0: "ss_entries d0 = filter (\<lambda>(k, e). is_copied plan ids k) (ss_entries s)"
    "ss_entriesBySeq d0 = filter (\<lambda>e. is_copied plan ids (entry_id e)) (ss_entriesBySeq s)"
    "ss_scalarValues d0 = []" "ss_listValues d0 = []" "ss_usage d0 = []"
    "ss_stats d0 = \<lparr>messageCount = length (filter (\<lambda>e. entry_type e = MessageType) (ss_entriesBySeq d0)),
                   stats_usage = emptyUsage\<rparr>"
    unfolding d0_def copy_all_entries[OF assms(1)] by (simp_all add: new_session_state_def)
  have e1: "d1 = d0\<lparr>ss_scalarValues := ss_scalarValues d0 @ kept_values plan (is_copied plan ids) (ss_scalarValues s)\<rparr>"
    by (rule copy_values[OF d1[folded d0_def, unfolded value_writes_def] value_ok_all[OF assms(1)] dv]) (simp add: d0)
  have e2: "d2 = d1\<lparr>ss_listValues := ss_listValues d1 @ keep (project_snapshot plan (is_copied plan ids)) (ss_listValues s)\<rparr>"
    by (rule copy_lists[OF d2[unfolded list_writes_def] list_ok_all[OF assms(1)] dl]) (simp only: e1, simp add: d0)
  have dd: "d = d0\<lparr>ss_scalarValues := kept_values plan (is_copied plan ids) (ss_scalarValues s),
      ss_listValues := keep (project_snapshot plan (is_copied plan ids)) (ss_listValues s), ss_nextSeq := ss_nextSeq s\<rparr>"
    unfolding d e2 unfolding e1 by (simp add: d0(3,4))
  have sel: "ss_entries d = ss_entries d0" "ss_entriesBySeq d = ss_entriesBySeq d0" "ss_usage d = ss_usage d0"
    "ss_stats d = ss_stats d0" "ss_nextSeq d = ss_nextSeq s"
    "ss_scalarValues d = kept_values plan (is_copied plan ids) (ss_scalarValues s)"
    "ss_listValues d = keep (project_snapshot plan (is_copied plan ids)) (ss_listValues s)"
    unfolding dd by simp_all
  show ?thesis
  proof (rule that)
    show "selectForkPlan s opts = Some (Inr (plan, ids))" by (rule plan)
    show "ss_entries d = filter (\<lambda>(k, e). is_copied plan ids k) (ss_entries s)" unfolding sel by (rule d0)
    show "ss_entriesBySeq d = filter (\<lambda>e. is_copied plan ids (entry_id e)) (ss_entriesBySeq s)" unfolding sel by (rule d0)
    show "ss_stats d = \<lparr>messageCount = length (filter (\<lambda>e. entry_type e = MessageType) (ss_entriesBySeq d)),
                   stats_usage = emptyUsage\<rparr>" unfolding sel by (rule d0)
  qed (fact sel | simp only: sel d0)+
qed

lemma project_element_seq: "project_element plan copied a el = Some x \<Longrightarrow> element_seq x = element_seq el"
  unfolding project_element_def by (auto split: sum.splits option.splits)

lemma kept_elements_seqs: "element_seq ` set (kept_elements plan copied a els) \<subseteq> element_seq ` set els"
proof (induction els)
  case (Cons el els)
  show ?case
  proof (cases "project_element plan copied a el")
    case None
    with Cons show ?thesis by (simp add: subset_insertI2)
  next
    case (Some x)
    with Cons project_element_seq[OF Some] show ?thesis by (simp add: subset_insertI2)
  qed
qed simp

lemma sorted_kept_elements:
  "sorted_wrt (<) (map element_seq els) \<Longrightarrow> sorted_wrt (<) (map element_seq (kept_elements plan copied a els))"
proof (induction els)
  case (Cons el els)
  then have IH: "sorted_wrt (<) (map element_seq (kept_elements plan copied a els))"
    and lt: "\<forall>q \<in> element_seq ` set els. element_seq el < q" by auto
  show ?case
  proof (cases "project_element plan copied a el")
    case None
    with IH show ?thesis by simp
  next
    case (Some x)
    have "\<forall>q \<in> element_seq ` set (kept_elements plan copied a els). element_seq x < q"
      unfolding project_element_seq[OF Some] using lt kept_elements_seqs[of plan copied a els] by blast
    then show ?thesis using IH Some by simp
  qed
qed simp

lemma project_snapshot_ok:
  assumes "snapshot_ok hi k l" "project_snapshot plan copied l = Some l'"
  shows "snapshot_ok hi k l'"
proof -
  define els where "els = kept_elements plan copied (snapshot_address l) (snapshot_elements l)"
  have l': "l' = l\<lparr>snapshot_elements := els\<rparr>" "els \<noteq> []"
    using assms(2) by (auto simp: project_snapshot_def els_def[symmetric] split: list.splits)
  have "sorted_wrt (<) (map element_seq els)"
    unfolding els_def by (rule sorted_kept_elements) (use assms(1) in \<open>simp add: snapshot_ok_def\<close>)
  moreover have "\<forall>q \<in> element_seq ` set els. 1 \<le> q \<and> q < hi"
  proof
    fix q
    assume "q \<in> element_seq ` set els"
    then have "q \<in> element_seq ` set (snapshot_elements l)"
      unfolding els_def by (rule subsetD[OF kept_elements_seqs])
    then show "1 \<le> q \<and> q < hi" using assms(1) by (auto simp: snapshot_ok_def)
  qed
  ultimately show ?thesis using assms(1) l' by (simp add: snapshot_ok_def)
qed

text \<open>A fork keeps the parents of what it copies.\<close>

lemma copied_parent:
  assumes "session_inv s" "selectForkPlan s opts = Some (Inr (plan, ids))"
    and "map_of (ss_entries s) k = Some e" "entry_parentId e = Some p" "is_copied plan ids k"
  shows "is_copied plan ids p"
proof (cases opts)
  case ForkTree
  then show ?thesis using assms(2) by (auto simp: selectForkPlan_def is_copied_def)
next
  case (ForkBranch b i before)
  from selectForkPlan_branch[OF assms(1), of b i before] assms(2) ForkBranch obtain tip dest
    where plan: "plan = BranchPlan b dest" and sel: "branch_selection s i before tip dest ids" by auto
  from assms(5) plan have k: "k \<in> set ids" by (simp add: is_copied_def)
  then obtain t where t: "path_ids s t ids"
    using sel by (auto simp: branch_selection_def Let_def split: option.splits)
  have "session_up s k = Some p" using assms(3,4) by (simp add: session_up_def)
  with climb_up_closed[of "session_up s" _ t ids k p] t k show ?thesis
    by (auto simp: path_ids_def is_copied_def plan simp del: climb.simps)
qed

lemma createFork_inv:
  assumes "session_inv s" "createFork s opts = Some (Inr d)"
  shows "session_inv d"
proof -
  obtain plan ids where
    plan: "selectForkPlan s opts = Some (Inr (plan, ids))" and
    es: "ss_entries d = filter (\<lambda>(k, e). is_copied plan ids k) (ss_entries s)"
    "ss_entriesBySeq d = filter (\<lambda>e. is_copied plan ids (entry_id e)) (ss_entriesBySeq s)" and
    vs: "ss_scalarValues d = kept_values plan (is_copied plan ids) (ss_scalarValues s)" and
    ls: "ss_listValues d = keep (project_snapshot plan (is_copied plan ids)) (ss_listValues s)" and
    rest: "ss_usage d = []" "ss_nextSeq d = ss_nextSeq s"
    "ss_stats d = \<lparr>messageCount = length (filter (\<lambda>e. entry_type e = MessageType) (ss_entriesBySeq d)),
                   stats_usage = emptyUsage\<rparr>"
    using createFork_parts[OF assms] by metis
  have inv: "1 \<le> ss_nextSeq s" "entries_inv s" "usage_inv s" "values_inv s" "lists_inv s" "stats_inv s"
    using assms(1) by (auto simp: session_inv_def)
  have tab: "seq_table entry_id entry_seq (ss_nextSeq s) (ss_entries s)" by (rule session_table[OF assms(1)])
  have tabd: "seq_table entry_id entry_seq (ss_nextSeq d) (ss_entries d)"
    using seq_table_filter[OF tab] es(1) rest(2) by simp
  have look: "map_of (ss_entries d) k = Some e \<longleftrightarrow> map_of (ss_entries s) k = Some e \<and> is_copied plan ids k" for k e
    using seq_table_map_of[OF tabd, of k e] seq_table_map_of[OF tab, of k e] by (simp add: es(1))
  have bySeq: "ss_entriesBySeq d = map snd (ss_entries d)"
  proof -
    have keys: "\<forall>(k, e) \<in> set (ss_entries s). k = entry_id e" using tab by (simp add: seq_table_def)
    have "filter (\<lambda>e. is_copied plan ids (entry_id e)) (map snd al) = map snd (filter (\<lambda>(k, e). is_copied plan ids k) al)"
      if "\<forall>(k, e) \<in> set al. k = entry_id e" for al
      using that by (induction al) auto
    from this[OF keys] show ?thesis using inv(2) es by (simp add: entries_inv_def)
  qed
  have "entries_inv d"
    unfolding entries_inv_def
  proof (intro conjI tabd bySeq ballI)
    fix kv
    assume "kv \<in> set (ss_entries d)"
    moreover obtain k e where kv0: "kv = (k, e)" by (cases kv)
    ultimately have kv: "kv = (k, e)" "map_of (ss_entries d) k = Some e"
      using seq_table_map_of[OF tabd, of k e] by simp_all
    from kv(2) have s: "map_of (ss_entries s) k = Some e" "is_copied plan ids k" by (simp_all add: look)
    show "case kv of (k, e) \<Rightarrow> \<forall>p. entry_parentId e = Some p \<longrightarrow>
        (\<exists>q. map_of (ss_entries d) p = Some q \<and> entry_seq q < entry_seq e)"
      unfolding kv(1) prod.case
    proof (intro allI impI)
      fix p
      assume p: "entry_parentId e = Some p"
      from stored_parent[OF assms(1) s(1) p] obtain q where "map_of (ss_entries s) p = Some q" "entry_seq q < entry_seq e" .
      with copied_parent[OF assms(1) plan s(1) p s(2)] show "\<exists>q. map_of (ss_entries d) p = Some q \<and> entry_seq q < entry_seq e"
        by (auto simp: look)
    qed
  qed
  moreover have "usage_inv d" using rest by (simp add: usage_inv_def)
  moreover have "values_inv d"
    using inv(4) rest(2) by (fastforce simp: values_inv_def vs distinct_keep dest!: keep_from project_stored_sel)
  moreover have "lists_inv d"
    using inv(5) rest(2) by (fastforce simp: lists_inv_def ls distinct_keep dest!: keep_from intro: project_snapshot_ok)
  moreover have "stats_inv d"
    using rest by (simp add: stats_inv_def total_usage_def)
  ultimately show ?thesis using inv(1) rest(2) by (simp add: session_inv_def)
qed

end
