(* ===== verification/SessionReach.thy ===== *)
theory SessionReach
  imports SessionForkCopy
begin

text \<open>
  The reachable states of a session storage, and the theorems on forks: a fork ends, it is a consistent
  session, it holds the selected path under the branch's name, and no state of running operations.
\<close>

section \<open>Reachable states\<close>

text \<open>
  A storage is created empty, commits (also failing ones) and replays of a log change it, a replayed log
  can raise the next sequence, and a fork of a reachable storage is a storage.
\<close>

inductive session_reachable :: "('c :: {zero, plus}) session_state \<Rightarrow> bool" where
  created: "session_reachable new_session_state"
| committed: "session_reachable s \<Longrightarrow> session_reachable (snd (memory_commit s ws now))"
| replayed: "session_reachable s \<Longrightarrow> validateCommitted s ws = Inr () \<Longrightarrow> session_reachable (snd (applyValidated ws s))"
| advanced: "session_reachable s \<Longrightarrow> advanceNextSeq n s = Inr t \<Longrightarrow> session_reachable t"
| forked: "session_reachable s \<Longrightarrow> createFork s opts = Some (Inr d) \<Longrightarrow> session_reachable d"

text \<open>
  C9. In every reachable storage, also after rejected or partly applied commits, replays and forks: entry
  and usage ids are unique and disjoint, sequences increase and lie below the next one, every parent is a
  stored entry with a smaller sequence, stored addresses are valid and match their keys, list elements are
  ordered, and the cached totals are those of the stored rows.
\<close>
theorem session_invariant: "session_reachable s \<Longrightarrow> session_inv s"
  by (induction rule: session_reachable.induct)
    (auto intro: session_inv_new inv_memory_commit inv_validated inv_advance createFork_inv)

lemma sample_session_reachable: "session_reachable sample_session"
  unfolding sample_session_def by (intro session_reachable.intros)

theorem session_invariant_witness: "session_inv sample_session \<and> ss_nextSeq sample_session = 6"
proof
  show "ss_nextSeq sample_session = 6" by code_simp
qed (rule session_invariant[OF sample_session_reachable])

section \<open>Forks\<close>

lemma path_ids_path:
  assumes "session_inv s" "path_ids s i ks"
  obtains e path where "getEntry s i = Some e" "root_path s e path" "map entry_id path = ks"
proof -
  from assms(2) obtain e where e: "getEntry s i = Some e"
    and ks: "climb (session_up s) (Suc (length (ss_entries s))) i = Some ks"
    by (auto simp: path_ids_def)
  then have m: "map_of (ss_entries s) i = Some e" by (simp add: getEntry_def)
  define path where "path = map (\<lambda>k. the (map_of (ss_entries s) k)) ks"
  have "branch_walk (Suc (length (ss_entries s))) (ss_entries s) e = Some (Inr path)"
    unfolding branch_walk_climb[OF assms(1) m] ks path_def by simp
  from walk_root_path[OF assms(1) m this] have "root_path s e path" .
  moreover have "entry_id (the (map_of (ss_entries s) k)) = k" if "k \<in> set ks" for k
    using path_stored[OF assms(1) ks _ that] e stored_entry[OF assms(1), of k] by (auto simp: getEntry_def)
  then have "map entry_id path = ks" by (simp add: path_def map_idI)
  ultimately show ?thesis using that[OF e] by blast
qed

lemma createFork_ends: "session_inv s \<Longrightarrow> \<exists>r. createFork s opts = Some r"
proof (cases opts)
  case ForkTree
  then show ?thesis by (simp add: createFork_def selectForkPlan_def)
next
  case (ForkBranch b i before)
  assume "session_inv s"
  from selectForkPlan_branch[OF this, of b i before] ForkBranch show ?thesis
    by (auto simp: createFork_def)
qed

text \<open>
  A fork always ends, with a storage or an error: the walk from the tip visits at most every entry once.
\<close>
theorem createFork_terminates:
  assumes "session_reachable s"
  shows "\<exists>r. createFork s opts = Some r"
proof (rule createFork_ends)
  show "session_inv s" using assms
    by (induction rule: session_reachable.induct)
      (auto intro: session_inv_new inv_memory_commit inv_validated inv_advance createFork_inv)
qed

theorem createFork_terminates_witness: "\<exists>r. createFork sample_session (ForkBranch (js ''main'') None False) = Some r"
  by (rule createFork_terminates[OF sample_session_reachable])

lemma fork_getValue:
  assumes "ss_scalarValues d = kept_values plan copied (ss_scalarValues s)" "session_inv s"
  shows "getValue d a = Option.bind (getValue s a) (project_stored plan copied)"
  unfolding getValue_def assms(1)
  by (rule map_of_keep) (use assms(2) in \<open>simp add: session_inv_def values_inv_def\<close>)

lemma getValue_address:
  assumes "session_inv s" "getValue s a = Some v" "valid_address (ad_namespace a) (ad_key a)"
  shows "ad_namespace (stored_address v) = ad_namespace a \<and> ad_key (stored_address v) = ad_key a"
proof -
  have "(physicalKey (ad_namespace a) (ad_key a), v) \<in> set (ss_scalarValues s)"
    using assms(2) by (simp add: getValue_def map_of_SomeD)
  with assms(1) have "physicalKey (ad_namespace a) (ad_key a) = physicalKey (ad_namespace (stored_address v)) (ad_key (stored_address v))"
    "valid_address (ad_namespace (stored_address v)) (ad_key (stored_address v))"
    by (auto simp: session_inv_def values_inv_def)
  with physicalKey_inj[OF assms(3) this(2)] show ?thesis by simp
qed

lemma project_lane:
  "project_value (BranchPlan b dest) copied (js ''pi.branch.tip'') b v = Inr (Some (tip_json dest))"
  "project_value (BranchPlan b dest) copied (js ''pi.lane.config'') b v = Inr (Some v)"
  "project_value (BranchPlan b dest) copied (js ''pi.lane.state'') b v = Inr (Some idle_lane_state)"
  by (simp_all add: project_value_def js_def)

text \<open>
  C18. A fork of a branch copies exactly one path. The requested entry (the tip when none is given) is on the
  path of the branch's tip; the fork ends at it, or at its parent for \<open>before\<close>; the copied entries are the
  path from there to the root; and in the fork the branch has this tip, the same lane configuration and an
  idle lane state.
\<close>
theorem createFork_branch:
  assumes "session_inv s" "createFork s (ForkBranch b entryId before) = Some (Inr d)"
  shows "\<exists>tip dest req. req = (case entryId of None \<Rightarrow> tip | Some i \<Rightarrow> Some i) \<and>
    map_option stored_json (getValue s (address_of ''pi.branch.tip'' b)) = Some (tip_json tip) \<and>
    (case req of
       None \<Rightarrow> tip = None \<and> dest = None
     | Some r \<Rightarrow> (\<exists>t e path. tip = Some t \<and> getEntry s t = Some e \<and> root_path s e path \<and> r \<in> entry_id ` set path) \<and>
                 dest = (if before then session_up s r else Some r)) \<and>
    (case dest of
       None \<Rightarrow> ss_entriesBySeq d = []
     | Some i \<Rightarrow> \<exists>e path. getEntry s i = Some e \<and> root_path s e path \<and> set (ss_entriesBySeq d) = set path) \<and>
    map_option stored_json (getValue d (address_of ''pi.branch.tip'' b)) = Some (tip_json dest) \<and>
    map_option stored_json (getValue d (address_of ''pi.lane.state'' b)) = Some idle_lane_state \<and>
    map_option stored_json (getValue d (address_of ''pi.lane.config'' b)) =
      map_option stored_json (getValue s (address_of ''pi.lane.config'' b)) \<and>
    getValue s (address_of ''pi.lane.config'' b) \<noteq> None"
proof -
  obtain plan ids where
    plan: "selectForkPlan s (ForkBranch b entryId before) = Some (Inr (plan, ids))" and
    es: "ss_entriesBySeq d = filter (\<lambda>e. is_copied plan ids (entry_id e)) (ss_entriesBySeq s)" and
    vs: "ss_scalarValues d = kept_values plan (is_copied plan ids) (ss_scalarValues s)"
    using createFork_parts[OF assms] by metis
  from selectForkPlan_branch[OF assms(1), of b entryId before] plan obtain v tip dest where
    v: "getValue s (address_of ''pi.branch.tip'' b) = Some v" "stored_json v = tip_json tip"
    and p: "plan = BranchPlan b dest" and sel: "branch_selection s entryId before tip dest ids"
    and valid: "valid_address (js ''pi.lane.config'') b"
    and lane: "getValue s (address_of ''pi.lane.config'' b) \<noteq> None" "getValue s (address_of ''pi.lane.state'' b) \<noteq> None"
    by auto
  define req where "req = (case entryId of None \<Rightarrow> tip | Some i \<Rightarrow> Some i)"
  have valids: "valid_address (js ''pi.branch.tip'') b" "valid_address (js ''pi.lane.state'') b"
    using valid by (auto simp: valid_address_def js_def)
  have get: "map_option stored_json (getValue d (address_of ns b)) =
      Option.bind (getValue s (address_of ns b))
        (\<lambda>w. case project_value plan (is_copied plan ids) (js ns) b (stored_json w) of Inr (Some j) \<Rightarrow> Some j | _ \<Rightarrow> None)"
    if "valid_address (js ns) b" for ns
  proof (cases "getValue s (address_of ns b)")
    case None
    then show ?thesis by (simp add: fork_getValue[OF vs assms(1)])
  next
    case (Some w)
    with getValue_address[OF assms(1) Some] that
    have "ad_namespace (stored_address w) = js ns" "ad_key (stored_address w) = b" by simp_all
    then have pr: "project_stored plan (is_copied plan ids) w =
        (case project_value plan (is_copied plan ids) (js ns) b (stored_json w) of
           Inr (Some j) \<Rightarrow> Some (w\<lparr>stored_json := j\<rparr>) | _ \<Rightarrow> None)"
      by (simp only: project_stored_def)
    have "map_option stored_json (project_stored plan (is_copied plan ids) w) =
        (case project_value plan (is_copied plan ids) (js ns) b (stored_json w) of Inr (Some j) \<Rightarrow> Some j | _ \<Rightarrow> None)"
      unfolding pr by (simp split: sum.split option.split)
    then show ?thesis by (simp only: fork_getValue[OF vs assms(1)] Some Option.bind.simps)
  qed
  have req_ok: "case req of
       None \<Rightarrow> tip = None \<and> dest = None
     | Some r \<Rightarrow> (\<exists>t e path. tip = Some t \<and> getEntry s t = Some e \<and> root_path s e path \<and> r \<in> entry_id ` set path) \<and>
                 dest = (if before then session_up s r else Some r)"
  proof (cases req)
    case None
    then show ?thesis using sel by (simp add: branch_selection_def req_def[symmetric])
  next
    case (Some r)
    with sel obtain t ks where t: "tip = Some t" "path_ids s t ks" "r \<in> set ks" "dest = (if before then session_up s r else Some r)"
      by (auto simp: branch_selection_def req_def[symmetric])
    from path_ids_path[OF assms(1) t(2)] obtain e path
      where path: "getEntry s t = Some e" "root_path s e path" "map entry_id path = ks" .
    have "r \<in> entry_id ` set path" using t(3) unfolding path(3)[symmetric] by simp
    with t(1,4) path(1,2) show ?thesis unfolding Some option.case by blast
  qed
  have dest_ok: "case dest of
       None \<Rightarrow> ss_entriesBySeq d = []
     | Some i \<Rightarrow> \<exists>e path. getEntry s i = Some e \<and> root_path s e path \<and> set (ss_entriesBySeq d) = set path"
  proof (cases dest)
    case None
    then have "ids = []" using sel by (simp add: branch_selection_def Let_def)
    then show ?thesis using None es p by (simp add: is_copied_def)
  next
    case (Some i)
    then have "path_ids s i ids" using sel by (simp add: branch_selection_def Let_def)
    from path_ids_path[OF assms(1) this] obtain e path
      where path: "getEntry s i = Some e" "root_path s e path" "map entry_id path = ids" .
    have st: "set path \<subseteq> set (ss_entriesBySeq s)" using path(2) by (simp add: root_path_def)
    have "e' \<in> set path" if "e' \<in> set (ss_entriesBySeq s)" "entry_id e' \<in> set ids" for e'
    proof -
      from that(2) path(3) obtain e'' where "e'' \<in> set path" "entry_id e'' = entry_id e'" by auto
      moreover from this st have "e'' \<in> set (ss_entriesBySeq s)" by blast
      ultimately have "e'' = e'"
        using stored_iff[OF assms(1), of e''] stored_iff[OF assms(1), of e'] that(1) by simp
      with \<open>e'' \<in> set path\<close> show ?thesis by simp
    qed
    then have "set (ss_entriesBySeq d) = set path"
      using st path(3) by (auto simp: es p is_copied_def)
    with path Some show ?thesis by auto
  qed
  show ?thesis
    using req_def v req_ok dest_ok lane get[OF valids(1)] get[OF valids(2)] get[OF valid]
    by (intro exI[of _ tip] exI[of _ dest] exI[of _ req]) (auto simp: p project_lane)
qed

text \<open>A branch of three entries with an operation that is running, forked at its second entry.\<close>

definition branch_writes :: "int session_write list" where
  "branch_writes =
     [EntryWrite (plain_entry (js ''a'') None), EntryWrite (plain_entry (js ''b'') (Some (js ''a''))),
      EntryWrite (plain_entry (js ''c'') (Some (js ''b''))),
      ValueSetWrite (js ''pi.branch.tip'') (js ''m'') (JStr (js ''c'')),
      ValueSetWrite (js ''pi.lane.config'') (js ''m'') (JBool True),
      ValueSetWrite (js ''pi.lane.state'') (js ''m'') JNull,
      ValueSetWrite (js ''pi.op.meta'') (js ''o'') JNull,
      ValueSetWrite (js ''pi.entry.label'') (js ''c'') JNull,
      ListAppendWrite (js ''pi.pending.assistant_frame'') (js ''o:c'') JNull]"

definition branch_session :: "int session_state" where
  "branch_session = snd (memory_commit empty_session branch_writes 7)"

lemma branch_session_inv: "session_inv branch_session"
  unfolding branch_session_def by (rule inv_memory_commit[OF session_inv_new])

definition branch_fork :: "int session_state" where
  "branch_fork = projr (the (createFork branch_session (ForkBranch (js ''m'') (Some (js ''b'')) False)))"

lemma branch_fork: "createFork branch_session (ForkBranch (js ''m'') (Some (js ''b'')) False) = Some (Inr branch_fork)"
proof -
  have "map_option isl (createFork branch_session (ForkBranch (js ''m'') (Some (js ''b'')) False)) = Some False"
    by code_simp
  then show ?thesis unfolding branch_fork_def by (auto simp: isl_def)
qed

theorem createFork_branch_witness:
  "(\<exists>tip dest req. req = (case Some (js ''b'') of None \<Rightarrow> tip | Some i \<Rightarrow> Some i) \<and>
    map_option stored_json (getValue branch_session (address_of ''pi.branch.tip'' (js ''m''))) = Some (tip_json tip) \<and>
    (case req of
       None \<Rightarrow> tip = None \<and> dest = None
     | Some r \<Rightarrow> (\<exists>t e path. tip = Some t \<and> getEntry branch_session t = Some e \<and> root_path branch_session e path \<and> r \<in> entry_id ` set path) \<and>
                 dest = (if False then session_up branch_session r else Some r)) \<and>
    (case dest of
       None \<Rightarrow> ss_entriesBySeq branch_fork = []
     | Some i \<Rightarrow> \<exists>e path. getEntry branch_session i = Some e \<and> root_path branch_session e path \<and> set (ss_entriesBySeq branch_fork) = set path) \<and>
    map_option stored_json (getValue branch_fork (address_of ''pi.branch.tip'' (js ''m''))) = Some (tip_json dest) \<and>
    map_option stored_json (getValue branch_fork (address_of ''pi.lane.state'' (js ''m''))) = Some idle_lane_state \<and>
    map_option stored_json (getValue branch_fork (address_of ''pi.lane.config'' (js ''m''))) =
      map_option stored_json (getValue branch_session (address_of ''pi.lane.config'' (js ''m''))) \<and>
    getValue branch_session (address_of ''pi.lane.config'' (js ''m'')) \<noteq> None) \<and>
   map entry_id (ss_entriesBySeq branch_fork) = [js ''a'', js ''b'']"
proof (rule conjI)
  show "map entry_id (ss_entriesBySeq branch_fork) = [js ''a'', js ''b'']" by code_simp
qed (rule createFork_branch[OF branch_session_inv branch_fork])

text \<open>The namespaces of running operations, pending output and results.\<close>

definition operation_namespace :: "jstr \<Rightarrow> bool" where
  "operation_namespace ns \<longleftrightarrow>
     ns = js ''pi.result'' \<or> startsWith ns (js ''pi.op.'') \<or> startsWith ns (js ''pi.pending.'')"

lemma project_operation: "operation_namespace ns \<Longrightarrow> project_value plan copied ns k v = Inr None"
proof -
  assume ns: "operation_namespace ns"
  then have "ns \<noteq> js ''pi.session.name''" "ns \<noteq> js ''pi.entry.label''" "ns \<noteq> js ''pi.branch.tip''"
    "ns \<noteq> js ''pi.lane.config''" "ns \<noteq> js ''pi.lane.state''"
    by (auto simp: operation_namespace_def startsWith_def js_def)
  with ns show ?thesis by (auto simp: project_value_def operation_namespace_def)
qed

text \<open>
  A fork carries no state of a running operation: nothing is stored under the namespaces of
  operations, pending output and results, and no usage row is copied.
\<close>
theorem fork_drops_operations:
  assumes "session_inv s" "createFork s opts = Some (Inr d)"
  shows "ss_usage d = [] \<and>
    (\<forall>(k, v) \<in> set (ss_scalarValues d). \<not> operation_namespace (ad_namespace (stored_address v))) \<and>
    (\<forall>(k, l) \<in> set (ss_listValues d). \<not> operation_namespace (ad_namespace (snapshot_address l)))"
proof -
  obtain plan ids where
    vs: "ss_scalarValues d = kept_values plan (is_copied plan ids) (ss_scalarValues s)" and
    ls: "ss_listValues d = keep (project_snapshot plan (is_copied plan ids)) (ss_listValues s)" and
    us: "ss_usage d = []"
    using createFork_parts[OF assms] by metis
  have v: "\<not> operation_namespace (ad_namespace (stored_address w))"
    if "project_stored plan copied v = Some w" for copied v w
  proof
    assume "operation_namespace (ad_namespace (stored_address w))"
    then have "operation_namespace (ad_namespace (stored_address v))" using project_stored_sel[OF that] by simp
    from project_operation[OF this] that show False by (simp add: project_stored_def)
  qed
  have l: "\<not> operation_namespace (ad_namespace (snapshot_address l'))"
    if "project_snapshot plan copied l = Some l'" for copied l l'
  proof
    assume "operation_namespace (ad_namespace (snapshot_address l'))"
    moreover have "snapshot_address l' = snapshot_address l"
      using that by (auto simp: project_snapshot_def split: list.splits)
    ultimately have "project_element plan copied (snapshot_address l) el = None" for el
      by (simp add: project_element_def project_operation)
    then have "kept_elements plan copied (snapshot_address l) els = []" for els
      by (induction els) simp_all
    with that show False by (simp add: project_snapshot_def)
  qed
  show ?thesis
  proof (intro conjI us ballI)
    fix kw assume kw: "kw \<in> set (ss_scalarValues d)"
    obtain k w where "kw = (k, w)" by (cases kw)
    moreover from this kw keep_from[of k w] obtain v' where "project_stored plan (is_copied plan ids) v' = Some w"
      unfolding vs by blast
    ultimately show "case kw of (k, v) \<Rightarrow> \<not> operation_namespace (ad_namespace (stored_address v))" using v by simp
  next
    fix kl assume kl: "kl \<in> set (ss_listValues d)"
    obtain k w where "kl = (k, w)" by (cases kl)
    moreover from this kl keep_from[of k w] obtain l' where "project_snapshot plan (is_copied plan ids) l' = Some w"
      unfolding ls by blast
    ultimately show "case kl of (k, l) \<Rightarrow> \<not> operation_namespace (ad_namespace (snapshot_address l))" using l by simp
  qed
qed

theorem fork_drops_operations_witness:
  "ss_usage branch_fork = [] \<and>
   list_all (\<lambda>(k, v). \<not> operation_namespace (ad_namespace (stored_address v))) (ss_scalarValues branch_fork) \<and>
   length (ss_scalarValues branch_session) = 5 \<and> length (ss_scalarValues branch_fork) = 3"
proof -
  have "length (ss_scalarValues branch_session) = 5 \<and> length (ss_scalarValues branch_fork) = 3" by code_simp
  with fork_drops_operations[OF branch_session_inv branch_fork] show ?thesis
    by (auto simp: list_all_iff)
qed

end
