(* ===== verification/SessionLayer.thy ===== *)
theory SessionLayer
  imports SessionReach
begin

text \<open>
  \<open>StorageBackedSession\<close>, its branches and its mutation capability
  (\<open>packages/agent/src/harness/session/session.ts\<close>) over the interface \<open>Storage\<close>. A mutation runs alone
  on the mutation line (theory \<open>MutationLine\<close>), so an operation is a function of the storage state; the
  time of a commit and the minted id are arguments.
\<close>

section \<open>The storage interface\<close>

record ('s, 'c) storage_api =
  api_commit :: "'s \<Rightarrow> 'c session_write list \<Rightarrow> int \<Rightarrow> (session_error + (commit_result \<times> 'c session_stats)) \<times> 's"
  api_getEntries :: "'s \<Rightarrow> jstr list \<Rightarrow> (jstr \<times> session_entry) list"
  api_getValue :: "'s \<Rightarrow> address \<Rightarrow> stored_value option"
  api_scanBranch :: "'s \<Rightarrow> branch_scan \<Rightarrow> (session_error + session_entry list) option"
  api_scanEntries :: "'s \<Rightarrow> entry_scan \<Rightarrow> session_entry list"

datatype layer_error =
    StorageError session_error
  | SessionClosed
  | MutatorInactive
  | CommitAttempted
  | PendingAssistantMessage
  | InvalidBranchName jstr
  | BranchExists jstr
  | UnknownTarget jstr
  | UnknownBranch jstr

section \<open>Mutations\<close>

text \<open>\<open>mu_attempted\<close> stands for the presence of \<open>commitResult\<close>.\<close>

record mutation =
  mu_active :: bool
  mu_attempted :: bool

definition new_mutation :: mutation where
  "new_mutation = \<lparr>mu_active = True, mu_attempted = False\<rparr>"

definition pending_assistant :: "agent_message \<Rightarrow> bool" where
  "pending_assistant m \<longleftrightarrow> (case m of AssistantMessage a \<Rightarrow> as_stopReason a = PendingStop | _ \<Rightarrow> False)"

fun pending_write :: "'c session_write \<Rightarrow> bool" where
  "pending_write (EntryWrite e) = (case entry_body e of Message m t \<Rightarrow> pending_assistant m | _ \<Rightarrow> False)"
| "pending_write w = False"

definition mutation_commit ::
    "('s, 'c) storage_api \<Rightarrow> mutation \<Rightarrow> 's \<Rightarrow> 'c session_write list \<Rightarrow> int \<Rightarrow>
       (layer_error + (commit_result \<times> 'c session_stats)) \<times> mutation \<times> 's" where
  "mutation_commit st m s ws now =
     (if \<not> mu_active m then (Inl MutatorInactive, m, s)
      else if mu_attempted m then (Inl CommitAttempted, m, s)
      else if list_ex pending_write ws then (Inl PendingAssistantMessage, m\<lparr>mu_attempted := True\<rparr>, s)
      else (case api_commit st s ws now of
              (Inl e, s') \<Rightarrow> (Inl (StorageError e), m\<lparr>mu_attempted := True\<rparr>, s')
            | (Inr r, s') \<Rightarrow> (Inr r, m\<lparr>mu_attempted := True\<rparr>, s')))"

definition mutation_end :: "mutation \<Rightarrow> mutation" where
  "mutation_end m = m\<lparr>mu_active := False\<rparr>"

section \<open>Sessions\<close>

datatype session_status = SessionOpen | SessionClosing | SessionShut

record 's session =
  se_storage :: 's
  se_state :: session_status

definition assert_open :: "'s session \<Rightarrow> layer_error + unit" where
  "assert_open se = guardE (se_state se = SessionOpen) SessionClosed"

text \<open>\<open>mutate\<close>: begin a mutation, run the callback, end the mutation.\<close>

definition mutate ::
    "'s session \<Rightarrow> (mutation \<Rightarrow> 's \<Rightarrow> (layer_error + 'a) \<times> mutation \<times> 's) \<Rightarrow> (layer_error + 'a) \<times> 's session" where
  "mutate se f =
     (case assert_open se of
        Inl e \<Rightarrow> (Inl e, se)
      | Inr _ \<Rightarrow> (case f new_mutation (se_storage se) of (r, m, s') \<Rightarrow> (r, se\<lparr>se_storage := s'\<rparr>)))"

definition commit_only ::
    "('s, 'c) storage_api \<Rightarrow> 'c session_write list \<Rightarrow> int \<Rightarrow> 'a \<Rightarrow> mutation \<Rightarrow> 's \<Rightarrow> (layer_error + 'a) \<times> mutation \<times> 's" where
  "commit_only st ws now x m s =
     (case mutation_commit st m s ws now of (r, m', s') \<Rightarrow> (bindE r (\<lambda>_. Inr x), m', s'))"

definition lift_address :: "address_error + address \<Rightarrow> layer_error + address" where
  "lift_address a = (case a of Inl e \<Rightarrow> Inl (StorageError (BadAddress e)) | Inr x \<Rightarrow> Inr x)"

definition session_getEntry :: "('s, 'c) storage_api \<Rightarrow> 's session \<Rightarrow> jstr \<Rightarrow> layer_error + session_entry option" where
  "session_getEntry st se i =
     bindE (assert_open se) (\<lambda>_. Inr (map_of (api_getEntries st (se_storage se) [i]) i))"

definition session_getValue :: "('s, 'c) storage_api \<Rightarrow> 's session \<Rightarrow> address \<Rightarrow> layer_error + stored_value option" where
  "session_getValue st se a = bindE (assert_open se) (\<lambda>_. Inr (api_getValue st (se_storage se) a))"

definition session_setValue :: "('s, 'c) storage_api \<Rightarrow> address \<Rightarrow> json \<Rightarrow> int \<Rightarrow> 's session \<Rightarrow> (layer_error + unit) \<times> 's session" where
  "session_setValue st a v now se = mutate se (commit_only st [setValue a v] now ())"

definition session_deleteValue :: "('s, 'c) storage_api \<Rightarrow> address \<Rightarrow> int \<Rightarrow> 's session \<Rightarrow> (layer_error + unit) \<times> 's session" where
  "session_deleteValue st a now se = mutate se (commit_only st [deleteValue a] now ())"

definition session_appendList :: "('s, 'c) storage_api \<Rightarrow> address \<Rightarrow> json \<Rightarrow> int \<Rightarrow> 's session \<Rightarrow> (layer_error + unit) \<times> 's session" where
  "session_appendList st a v now se = mutate se (commit_only st [appendList a v] now ())"

definition session_deleteList :: "('s, 'c) storage_api \<Rightarrow> address \<Rightarrow> int \<Rightarrow> 's session \<Rightarrow> (layer_error + unit) \<times> 's session" where
  "session_deleteList st a now se = mutate se (commit_only st [deleteList a] now ())"

definition setName :: "('s, 'c) storage_api \<Rightarrow> jstr option \<Rightarrow> int \<Rightarrow> 's session \<Rightarrow> (layer_error + unit) \<times> 's session" where
  "setName st name now se =
     (case lift_address sessionName of
        Inl e \<Rightarrow> (Inl e, se)
      | Inr a \<Rightarrow> (case name of None \<Rightarrow> session_deleteValue st a now se | Some n \<Rightarrow> session_setValue st a (JStr n) now se))"

definition setLabel :: "('s, 'c) storage_api \<Rightarrow> jstr \<Rightarrow> jstr option \<Rightarrow> int \<Rightarrow> 's session \<Rightarrow> (layer_error + unit) \<times> 's session" where
  "setLabel st target label now se =
     (case lift_address (entryLabel target) of
        Inl e \<Rightarrow> (Inl e, se)
      | Inr a \<Rightarrow> (case label of None \<Rightarrow> session_deleteValue st a now se | Some n \<Rightarrow> session_setValue st a (JStr n) now se))"

definition getName :: "('s, 'c) storage_api \<Rightarrow> 's session \<Rightarrow> layer_error + json option" where
  "getName st se =
     bindE (lift_address sessionName) (\<lambda>a. bindE (session_getValue st se a) (\<lambda>v. Inr (map_option stored_json v)))"

definition getLabel :: "('s, 'c) storage_api \<Rightarrow> 's session \<Rightarrow> jstr \<Rightarrow> layer_error + json option" where
  "getLabel st se target =
     bindE (lift_address (entryLabel target)) (\<lambda>a. bindE (session_getValue st se a) (\<lambda>v. Inr (map_option stored_json v)))"

section \<open>Entry queries\<close>

record entry_query =
  eq_type :: "entry_type option"
  eq_customType :: "jstr option"
  eq_order :: "read_order option"
  eq_limit :: "int option"
  eq_cursor :: "int option"

definition session_findEntries :: "('s, 'c) storage_api \<Rightarrow> 's session \<Rightarrow> entry_query \<Rightarrow> layer_error + session_entry list" where
  "session_findEntries st se q =
     bindE (assert_open se) (\<lambda>_.
       let order = (case eq_order q of None \<Rightarrow> Desc | Some r \<Rightarrow> r)
       in if eq_cursor q \<noteq> None \<and>
             (order = Asc \<and> the (eq_cursor q) = MAX_SAFE_INTEGER \<or> order = Desc \<and> the (eq_cursor q) \<le> 1)
          then Inr []
          else Inr (api_scanEntries st (se_storage se)
                 \<lparr>es_type = eq_type q, es_customType = eq_customType q,
                  es_fromSeq = (if order = Asc then map_option (\<lambda>c. c + 1) (eq_cursor q) else None),
                  es_toSeq = (if order = Asc then None else map_option (\<lambda>c. c - 1) (eq_cursor q)),
                  es_order = Some order, es_limit = eq_limit q\<rparr>))"

definition first_of :: "'a list \<Rightarrow> 'a option" where
  "first_of xs = (case xs of [] \<Rightarrow> None | x # _ \<Rightarrow> Some x)"

definition session_findEntry :: "('s, 'c) storage_api \<Rightarrow> 's session \<Rightarrow> entry_query \<Rightarrow> layer_error + session_entry option" where
  "session_findEntry st se q =
     bindE (session_findEntries st se (q\<lparr>eq_limit := Some (case eq_limit q of None \<Rightarrow> 1 | Some l \<Rightarrow> min l 1)\<rparr>))
       (\<lambda>es. Inr (first_of es))"

section \<open>Branches\<close>

definition assertValidBranchName :: "jstr \<Rightarrow> layer_error + unit" where
  "assertValidBranchName name = guardE (name \<noteq> [] \<and> 0 \<notin> set name) (InvalidBranchName name)"

text \<open>A tip is null or an id; another value stands for an id that no entry has.\<close>

fun tip_parent :: "json \<Rightarrow> layer_error + jstr option" where
  "tip_parent JNull = Inr None"
| "tip_parent (JStr i) = Inr (Some i)"
| "tip_parent v = Inl (StorageError CorruptBranch)"

definition getBranchTip :: "('s, 'c) storage_api \<Rightarrow> 's session \<Rightarrow> jstr \<Rightarrow> layer_error + json" where
  "getBranchTip st se name =
     bindE (lift_address (branchTip name)) (\<lambda>a.
     bindE (session_getValue st se a) (\<lambda>v.
       case v of None \<Rightarrow> Inl (UnknownBranch name) | Some x \<Rightarrow> Inr (stored_json x)))"

text \<open>Whether \<open>branch(name)\<close> returns a branch object.\<close>

definition has_branch :: "('s, 'c) storage_api \<Rightarrow> 's session \<Rightarrow> jstr \<Rightarrow> layer_error + bool" where
  "has_branch st se name =
     bindE (assertValidBranchName name) (\<lambda>_.
     bindE (lift_address (branchTip name)) (\<lambda>a.
     bindE (session_getValue st se a) (\<lambda>v. Inr (v \<noteq> None))))"

definition createBranch ::
    "('s, 'c) storage_api \<Rightarrow> jstr \<Rightarrow> jstr option \<Rightarrow> int \<Rightarrow> 's session \<Rightarrow> (layer_error + unit) \<times> 's session" where
  "createBranch st name at now se =
     (case bindE (assert_open se) (\<lambda>_. assertValidBranchName name) of
        Inl e \<Rightarrow> (Inl e, se)
      | Inr _ \<Rightarrow> mutate se (\<lambda>m s.
          case lift_address (branchTip name) of
            Inl e \<Rightarrow> (Inl e, m, s)
          | Inr a \<Rightarrow>
              if api_getValue st s a \<noteq> None then (Inl (BranchExists name), m, s)
              else (case at of
                      Some i \<Rightarrow> if map_of (api_getEntries st s [i]) i = None then (Inl (UnknownTarget i), m, s)
                                else commit_only st [setValue a (tip_json at)] now () m s
                    | None \<Rightarrow> commit_only st [setValue a (tip_json at)] now () m s)))"

text \<open>What \<open>appendMessage\<close> and \<open>appendCustomEntry\<close> hand over: the body and the custom type.\<close>

definition appendToBranch ::
    "('s, 'c) storage_api \<Rightarrow> jstr \<Rightarrow> entry_body \<Rightarrow> jstr option \<Rightarrow> jstr \<Rightarrow> int \<Rightarrow> 's session \<Rightarrow> (layer_error + jstr) \<times> 's session" where
  "appendToBranch st name body ctype i now se =
     (case bindE (assert_open se) (\<lambda>_.
             guardE (\<not> (case body of Message m t \<Rightarrow> pending_assistant m | _ \<Rightarrow> False)) PendingAssistantMessage) of
        Inl e \<Rightarrow> (Inl e, se)
      | Inr _ \<Rightarrow> mutate se (\<lambda>m s.
          case lift_address (branchTip name) of
            Inl e \<Rightarrow> (Inl e, m, s)
          | Inr a \<Rightarrow>
              (case api_getValue st s a of
                 None \<Rightarrow> (Inl (UnknownBranch name), m, s)
               | Some v \<Rightarrow>
                   (case tip_parent (stored_json v) of
                      Inl e \<Rightarrow> (Inl e, m, s)
                    | Inr parent \<Rightarrow>
                        commit_only st
                          [insertEntry \<lparr>entry_id = i, entry_parentId = parent, entry_customType = ctype, entry_body = body\<rparr>,
                           setValue a (JStr i)] now i m s))))"

definition appendMessage ::
    "('s, 'c) storage_api \<Rightarrow> jstr \<Rightarrow> agent_message \<Rightarrow> jstr \<Rightarrow> int \<Rightarrow> 's session \<Rightarrow> (layer_error + jstr) \<times> 's session" where
  "appendMessage st name msg i now se = appendToBranch st name (Message msg False) None i now se"

definition appendCustomEntry ::
    "('s, 'c) storage_api \<Rightarrow> jstr \<Rightarrow> jstr \<Rightarrow> json option \<Rightarrow> jstr \<Rightarrow> int \<Rightarrow> 's session \<Rightarrow> (layer_error + jstr) \<times> 's session" where
  "appendCustomEntry st name ctype data i now se = appendToBranch st name (Custom data) (Some ctype) i now se"

record branch_query =
  bq_start :: "jstr option"
  bq_stopAtType :: "entry_type option"
  bq_stopAtId :: "jstr option"
  bq_type :: "entry_type option"
  bq_customType :: "jstr option"
  bq_order :: "branch_order option"
  bq_limit :: "int option"
  bq_cursor :: "int option"

definition branch_findEntries ::
    "('s, 'c) storage_api \<Rightarrow> 's session \<Rightarrow> jstr \<Rightarrow> branch_query \<Rightarrow> (layer_error + session_entry list) option" where
  "branch_findEntries st se name q =
     (case (case bq_start q of Some i \<Rightarrow> Inr (Some i) | None \<Rightarrow> bindE (getBranchTip st se name) tip_parent) of
        Inl e \<Rightarrow> Some (Inl e)
      | Inr None \<Rightarrow> Some (Inr [])
      | Inr (Some i) \<Rightarrow>
          (case assert_open se of
             Inl e \<Rightarrow> Some (Inl e)
           | Inr _ \<Rightarrow>
               map_option (\<lambda>r. case r of Inl e \<Rightarrow> Inl (StorageError e) | Inr es \<Rightarrow> Inr es)
                 (api_scanBranch st (se_storage se)
                    \<lparr>scan_start = i, scan_stopAtType = bq_stopAtType q, scan_stopAtId = bq_stopAtId q,
                     scan_type = bq_type q, scan_customType = bq_customType q,
                     scan_order = (case bq_order q of None \<Rightarrow> NewestFirst | Some r \<Rightarrow> r),
                     scan_limit = bq_limit q, scan_cursor = bq_cursor q\<rparr>)))"

definition branch_findEntry ::
    "('s, 'c) storage_api \<Rightarrow> 's session \<Rightarrow> jstr \<Rightarrow> branch_query \<Rightarrow> (layer_error + session_entry option) option" where
  "branch_findEntry st se name q =
     map_option (\<lambda>r. bindE r (\<lambda>es. Inr (first_of es)))
       (branch_findEntries st se name (q\<lparr>bq_limit := Some (case bq_limit q of None \<Rightarrow> 1 | Some l \<Rightarrow> min l 1)\<rparr>))"

text \<open>\<open>MemoryStorage\<close> as a provider of the interface.\<close>

definition memory_api :: "(('c :: {zero, plus}) session_state, 'c) storage_api" where
  "memory_api =
     \<lparr>api_commit = memory_commit, api_getEntries = getEntries, api_getValue = getValue,
      api_scanBranch = scanBranch, api_scanEntries = session_scanEntries\<rparr>"

end
