(* ===== verification/SessionClient.thy ===== *)
theory SessionClient
  imports SessionLayer
begin

text \<open>
  The session layer against the laws of its storage: a locale states what \<open>StorageBackedSession\<close> relies
  on, its lemmas are proved once, and \<open>MemoryStorage\<close> provides the laws.
\<close>

section \<open>The laws of a storage\<close>

fun json_after :: "address \<Rightarrow> 'c session_write \<Rightarrow> json option \<Rightarrow> json option" where
  "json_after a (ValueSetWrite ns k v) old = (if ns = ad_namespace a \<and> k = ad_key a then Some v else old)"
| "json_after a (ValueDeleteWrite ns k) old = (if ns = ad_namespace a \<and> k = ad_key a then None else old)"
| "json_after a w old = old"

definition entry_at :: "('s, 'c) storage_api \<Rightarrow> 's \<Rightarrow> jstr \<Rightarrow> session_entry option" where
  "entry_at st s i = map_of (api_getEntries st s [i]) i"

definition value_at :: "('s, 'c) storage_api \<Rightarrow> 's \<Rightarrow> address \<Rightarrow> json option" where
  "value_at st s a = map_option stored_json (api_getValue st s a)"

text \<open>The whole path from an entry, newest first.\<close>

definition whole_path :: "jstr \<Rightarrow> branch_scan" where
  "whole_path i =
     \<lparr>scan_start = i, scan_stopAtType = None, scan_stopAtId = None, scan_type = None, scan_customType = None,
      scan_order = NewestFirst, scan_limit = None, scan_cursor = None\<rparr>"

lemma branchTip_Inr: "lift_address (branchTip name) = Inr a \<longleftrightarrow> 0 \<notin> set name \<and> a = address_of ''pi.branch.tip'' name"
proof -
  have v: "valid_address (js ''pi.branch.tip'') name \<longleftrightarrow> 0 \<notin> set name" by (auto simp: valid_address_def js_def)
  show ?thesis
  proof (cases "branchTip name")
    case (Inl e)
    have "\<not> valid_address (js ''pi.branch.tip'') name"
    proof
      assume "valid_address (js ''pi.branch.tip'') name"
      then have "branchTip name = Inr (address_of ''pi.branch.tip'' name)"
        by (simp add: branchTip_def value_address_iff)
      with Inl show False by simp
    qed
    with Inl v show ?thesis by (simp add: lift_address_def)
  next
    case (Inr b)
    then have "valid_address (js ''pi.branch.tip'') name" "b = address_of ''pi.branch.tip'' name"
      by (simp_all add: branchTip_def value_address_iff)
    with Inr v show ?thesis by (auto simp: lift_address_def)
  qed
qed

locale session_storage =
  fixes st :: "('s, 'c) storage_api"
    and ok :: "'s \<Rightarrow> bool"
  assumes commit_keeps_ok: "ok s \<Longrightarrow> ok (snd (api_commit st s ws now))"
    and failed_commit: "list_all address_ok ws \<Longrightarrow> api_commit st s ws now = (Inl err, s') \<Longrightarrow> s' = s"
    and read_back: "ok s \<Longrightarrow> list_all address_ok ws \<Longrightarrow> valid_address (ad_namespace a) (ad_key a) \<Longrightarrow>
      api_commit st s ws now = (Inr r, s') \<Longrightarrow> value_at st s' a = fold (json_after a) ws (value_at st s a)"
    and keeps_entries: "ok s \<Longrightarrow> list_all address_ok ws \<Longrightarrow> api_commit st s ws now = (Inr r, s') \<Longrightarrow>
      entry_at st s i = Some e \<Longrightarrow> entry_at st s' i = Some e"
    and adds_entries: "ok s \<Longrightarrow> list_all address_ok ws \<Longrightarrow> api_commit st s ws now = (Inr r, s') \<Longrightarrow>
      EntryWrite n \<in> set ws \<Longrightarrow> \<exists>e. entry_at st s' (entry_id n) = Some e \<and> entry_id e = entry_id n \<and>
        entry_parentId e = entry_parentId n \<and> entry_body e = entry_body n \<and> entry_customType e = entry_customType n"
    and path_of: "ok s \<Longrightarrow> entry_at st s i = Some e \<Longrightarrow>
      (case entry_parentId e of
         None \<Rightarrow> api_scanBranch st s (whole_path i) = Some (Inr [e])
       | Some p \<Rightarrow> entry_at st s p \<noteq> None \<and>
           (\<exists>rest. api_scanBranch st s (whole_path p) = Some (Inr rest) \<and>
             api_scanBranch st s (whole_path i) = Some (Inr (e # rest))))"
begin

text \<open>A commit does not change the paths of the entries it finds.\<close>

lemma path_kept:
  assumes "ok s" "list_all address_ok ws" "api_commit st s ws now = (Inr r, s')"
  shows "entry_at st s i = Some e \<Longrightarrow> api_scanBranch st s (whole_path i) = Some (Inr path) \<Longrightarrow>
    api_scanBranch st s' (whole_path i) = Some (Inr path)"
proof (induction path arbitrary: i e)
  case Nil
  from path_of[OF assms(1) Nil.prems(1)] Nil.prems(2) show ?case by (auto split: option.splits)
next
  case (Cons x path)
  have ok': "ok s'" using commit_keeps_ok[OF assms(1), of ws now] assms(3) by simp
  have e': "entry_at st s' i = Some e" by (rule keeps_entries[OF assms Cons.prems(1)])
  show ?case
  proof (cases "entry_parentId e")
    case None
    with path_of[OF assms(1) Cons.prems(1)] path_of[OF ok' e'] Cons.prems(2) show ?thesis by simp
  next
    case (Some p)
    with path_of[OF assms(1) Cons.prems(1)] Cons.prems(2) obtain q
      where q: "entry_at st s p = Some q" "api_scanBranch st s (whole_path p) = Some (Inr path)" "x = e"
      by auto
    from Cons.IH[OF q(1,2)] path_of[OF ok' e'] Some q(3) show ?thesis by auto
  qed
qed

lemma path_exists: "ok s \<Longrightarrow> entry_at st s i = Some e \<Longrightarrow> \<exists>path. api_scanBranch st s (whole_path i) = Some (Inr path)"
  using path_of[of s i e] by (cases "entry_parentId e") auto

text \<open>Tips: null, or the id of a stored entry.\<close>

definition tips_ok :: "'s \<Rightarrow> bool" where
  "tips_ok s \<longleftrightarrow> (\<forall>name v. 0 \<notin> set name \<longrightarrow> value_at st s (address_of ''pi.branch.tip'' name) = Some v \<longrightarrow>
     v = JNull \<or> (\<exists>i. v = JStr i \<and> entry_at st s i \<noteq> None))"

end

section \<open>What the session layer makes of them\<close>

lemma mutate_open:
  "mutate se f = (r, se') \<Longrightarrow> se_state se = SessionOpen \<Longrightarrow>
     \<exists>m s'. f new_mutation (se_storage se) = (r, m, s') \<and> se' = se\<lparr>se_storage := s'\<rparr>"
  by (auto simp: mutate_def assert_open_def split: prod.splits)

lemma mutate_closed: "se_state se \<noteq> SessionOpen \<Longrightarrow> mutate se f = (Inl SessionClosed, se)"
  by (simp add: mutate_def assert_open_def guardE_def)

lemma first_commit:
  "mutation_commit st new_mutation s ws now =
     (if list_ex pending_write ws then (Inl PendingAssistantMessage, \<lparr>mu_active = True, mu_attempted = True\<rparr>, s)
      else (map_sum StorageError id (fst (api_commit st s ws now)), \<lparr>mu_active = True, mu_attempted = True\<rparr>, snd (api_commit st s ws now)))"
  by (auto simp: mutation_commit_def new_mutation_def split: prod.splits sum.splits)

text \<open>The outcome of appending to an existing branch.\<close>

definition appended :: "jstr \<Rightarrow> jstr option \<Rightarrow> entry_body \<Rightarrow> jstr option \<Rightarrow> jstr \<Rightarrow> 'c session_write list" where
  "appended name parent body ctype i =
     [EntryWrite \<lparr>entry_id = i, entry_parentId = parent, entry_customType = ctype, entry_body = body\<rparr>,
      ValueSetWrite (js ''pi.branch.tip'') name (JStr i)]"

lemma appended_ok: "0 \<notin> set name \<Longrightarrow> list_all address_ok (appended name parent body ctype i)"
  by (auto simp: appended_def valid_address_def js_def)

lemma appendToBranch_cases:
  assumes "appendToBranch st name body ctype i now se = (r, se')"
  shows "(\<exists>err. r = Inl err \<and> se' = se) \<or>
    (se_state se = SessionOpen \<and> 0 \<notin> set name \<and>
      (\<exists>v parent q s'. api_getValue st (se_storage se) (address_of ''pi.branch.tip'' name) = Some v \<and>
        tip_parent (stored_json v) = Inr parent \<and>
        api_commit st (se_storage se) (appended name parent body ctype i) now = (q, s') \<and>
        r = map_sum StorageError (\<lambda>_. i) q \<and> se' = se\<lparr>se_storage := s'\<rparr>))"
proof -
  have pend: "pending_write (EntryWrite \<lparr>entry_id = i, entry_parentId = parent, entry_customType = ctype, entry_body = body\<rparr>)
      \<longleftrightarrow> (case body of Message m t \<Rightarrow> pending_assistant m | _ \<Rightarrow> False)" for parent
    by simp
  show ?thesis
  proof (cases "se_state se = SessionOpen \<and> \<not> (case body of Message m t \<Rightarrow> pending_assistant m | _ \<Rightarrow> False)")
    case False
    then show ?thesis using assms by (auto simp: appendToBranch_def assert_open_def guardE_def split: if_splits)
  next
    case True
    then have pass: "bindE (assert_open se) (\<lambda>_. guardE (\<not> (case body of Message m t \<Rightarrow> pending_assistant m | _ \<Rightarrow> False)) PendingAssistantMessage) = Inr ()"
      by (simp add: assert_open_def)
    show ?thesis
    proof (cases "lift_address (branchTip name)")
      case (Inl err)
      then show ?thesis using assms True unfolding appendToBranch_def pass by (auto simp: mutate_def assert_open_def guardE_def)
    next
      case (Inr a)
      then have a: "0 \<notin> set name" "a = address_of ''pi.branch.tip'' name" by (simp_all add: branchTip_Inr)
      show ?thesis
      proof (cases "api_getValue st (se_storage se) a")
        case None
        then show ?thesis using assms True unfolding appendToBranch_def pass
          by (auto simp: mutate_def assert_open_def guardE_def Inr)
      next
        case (Some v)
        show ?thesis
        proof (cases "tip_parent (stored_json v)")
          case (Inl err)
          then show ?thesis using assms True Some unfolding appendToBranch_def pass
            by (auto simp: mutate_def assert_open_def guardE_def \<open>lift_address (branchTip name) = Inr a\<close>)
        next
          case tip: (Inr parent)
          obtain q s' where q: "api_commit st (se_storage se) (appended name parent body ctype i) now = (q, s')"
            by (cases "api_commit st (se_storage se) (appended name parent body ctype i) now")
          have ws: "[insertEntry \<lparr>entry_id = i, entry_parentId = parent, entry_customType = ctype, entry_body = body\<rparr>, setValue a (JStr i)] =
              appended name parent body ctype i"
            by (simp add: appended_def insertEntry_def setValue_def a(2))
          have "list_ex pending_write (appended name parent body ctype i) = False"
            using True by (simp add: appended_def)
          then have "commit_only st (appended name parent body ctype i) now i new_mutation (se_storage se) =
              (map_sum StorageError (\<lambda>_. i) q, \<lparr>mu_active = True, mu_attempted = True\<rparr>, s')"
            by (cases q) (simp_all add: commit_only_def first_commit q)
          then have "(r, se') = (map_sum StorageError (\<lambda>_. i) q, se\<lparr>se_storage := s'\<rparr>)"
            using assms True unfolding appendToBranch_def pass
            by (simp add: mutate_def assert_open_def guardE_def \<open>lift_address (branchTip name) = Inr a\<close> Some tip ws)
          then show ?thesis using True a Some tip q by auto
        qed
      qed
    qed
  qed
qed

context session_storage
begin

lemma append_failed:
  assumes "appendToBranch st name body ctype i now se = (Inl err, se')"
  shows "se' = se"
proof (rule disjE[OF appendToBranch_cases[OF assms]])
  assume *: "se_state se = SessionOpen \<and> 0 \<notin> set name \<and>
      (\<exists>v parent q s'. api_getValue st (se_storage se) (address_of ''pi.branch.tip'' name) = Some v \<and>
        tip_parent (stored_json v) = Inr parent \<and>
        api_commit st (se_storage se) (appended name parent body ctype i) now = (q, s') \<and>
        Inl err = map_sum StorageError (\<lambda>_. i) q \<and> se' = se\<lparr>se_storage := s'\<rparr>)"
  then obtain parent q s' where c: "api_commit st (se_storage se) (appended name parent body ctype i) now = (q, s')"
    "Inl err = map_sum StorageError (\<lambda>_. i) q" "se' = se\<lparr>se_storage := s'\<rparr>" by blast
  then obtain e where "q = Inl e" by (cases q) auto
  with failed_commit[OF appended_ok c(1)[unfolded this]] * c(3) show ?thesis by simp
qed auto

lemma append_committed:
  assumes "appendToBranch st name body ctype i now se = (Inr j, se')"
  obtains v parent q s' where "j = i" "se_state se = SessionOpen" "0 \<notin> set name"
    "api_getValue st (se_storage se) (address_of ''pi.branch.tip'' name) = Some v" "tip_parent (stored_json v) = Inr parent"
    "api_commit st (se_storage se) (appended name parent body ctype i) now = (Inr q, s')" "se' = se\<lparr>se_storage := s'\<rparr>"
proof -
  from appendToBranch_cases[OF assms] obtain v parent q s' where c: "se_state se = SessionOpen" "0 \<notin> set name"
    "api_getValue st (se_storage se) (address_of ''pi.branch.tip'' name) = Some v" "tip_parent (stored_json v) = Inr parent"
    "api_commit st (se_storage se) (appended name parent body ctype i) now = (q, s')"
    "Inr j = map_sum StorageError (\<lambda>_. i) q" "se' = se\<lparr>se_storage := s'\<rparr>" by blast
  from c(6) obtain r where "q = Inr r" "j = i" by (cases q) auto
  with c that show ?thesis by blast
qed

text \<open>After an append, the branch's tip is the new entry, and its path is the new entry before the old path.\<close>

lemma append_extends:
  assumes "ok (se_storage se)" "appendToBranch st name body ctype i now se = (Inr j, se')"
  shows "j = i \<and> value_at st (se_storage se') (address_of ''pi.branch.tip'' name) = Some (JStr i) \<and>
    (\<exists>e tip. entry_at st (se_storage se') i = Some e \<and> entry_id e = i \<and> entry_body e = body \<and> entry_customType e = ctype \<and>
      value_at st (se_storage se) (address_of ''pi.branch.tip'' name) = Some (tip_json tip) \<and> entry_parentId e = tip \<and>
      (case tip of
         None \<Rightarrow> api_scanBranch st (se_storage se') (whole_path i) = Some (Inr [e])
       | Some t \<Rightarrow> \<exists>path. api_scanBranch st (se_storage se') (whole_path t) = Some (Inr path) \<and>
           (entry_at st (se_storage se) t \<noteq> None \<longrightarrow> api_scanBranch st (se_storage se) (whole_path t) = Some (Inr path)) \<and>
           api_scanBranch st (se_storage se') (whole_path i) = Some (Inr (e # path))))"
proof -
  obtain v parent q s' where c: "j = i" "0 \<notin> set name"
    "api_getValue st (se_storage se) (address_of ''pi.branch.tip'' name) = Some v" "tip_parent (stored_json v) = Inr parent"
    "api_commit st (se_storage se) (appended name parent body ctype i) now = (Inr q, s')" "se' = se\<lparr>se_storage := s'\<rparr>"
    using append_committed[OF assms(2)] by metis
  note aok = appended_ok[OF c(2), of parent body ctype i]
  have tip: "stored_json v = tip_json parent"
    using c(4) by (cases "stored_json v") (auto simp: tip_json_def)
  have "valid_address (js ''pi.branch.tip'') name" using c(2) by (auto simp: valid_address_def js_def)
  then have val: "value_at st s' (address_of ''pi.branch.tip'' name) = Some (JStr i)"
    using read_back[OF assms(1) aok _ c(5), of "address_of ''pi.branch.tip'' name"] by (simp add: appended_def)
  have "EntryWrite \<lparr>entry_id = i, entry_parentId = parent, entry_customType = ctype, entry_body = body\<rparr> \<in> set (appended name parent body ctype i)"
    by (simp add: appended_def)
  from adds_entries[OF assms(1) aok c(5) this] obtain e where
    e: "entry_at st s' i = Some e" "entry_id e = i" "entry_parentId e = parent" "entry_body e = body" "entry_customType e = ctype"
    by auto
  have ok': "ok s'" using commit_keeps_ok[OF assms(1)] c(5) by (metis snd_conv)
  have path: "case parent of
         None \<Rightarrow> api_scanBranch st s' (whole_path i) = Some (Inr [e])
       | Some t \<Rightarrow> \<exists>path. api_scanBranch st s' (whole_path t) = Some (Inr path) \<and>
           (entry_at st (se_storage se) t \<noteq> None \<longrightarrow> api_scanBranch st (se_storage se) (whole_path t) = Some (Inr path)) \<and>
           api_scanBranch st s' (whole_path i) = Some (Inr (e # path))"
  proof (cases parent)
    case None
    with path_of[OF ok' e(1)] e(3) show ?thesis by simp
  next
    case (Some t)
    with path_of[OF ok' e(1)] e(3) obtain path where p: "api_scanBranch st s' (whole_path t) = Some (Inr path)"
      "api_scanBranch st s' (whole_path i) = Some (Inr (e # path))" by auto
    have "api_scanBranch st (se_storage se) (whole_path t) = Some (Inr path)" if "entry_at st (se_storage se) t \<noteq> None"
    proof -
      from that obtain x where x: "entry_at st (se_storage se) t = Some x" by auto
      from path_exists[OF assms(1) x] obtain old where old: "api_scanBranch st (se_storage se) (whole_path t) = Some (Inr old)" by blast
      from path_kept[OF assms(1) aok c(5) x old] p(1) old show ?thesis by simp
    qed
    with p Some show ?thesis by auto
  qed
  have old: "value_at st (se_storage se) (address_of ''pi.branch.tip'' name) = Some (tip_json parent)"
    using c(3) tip by (simp add: value_at_def)
  have s': "se_storage se' = s'" using c(6) by simp
  show ?thesis
    unfolding s' by (intro conjI c(1) val exI[of _ e] exI[of _ parent] e old path)
qed

end

text \<open>The outcome of creating a branch.\<close>

lemma createBranch_cases:
  assumes "createBranch st name at now se = (r, se')"
  shows "(\<exists>err. r = Inl err \<and> se' = se) \<or>
    (se_state se = SessionOpen \<and> name \<noteq> [] \<and> 0 \<notin> set name \<and>
      api_getValue st (se_storage se) (address_of ''pi.branch.tip'' name) = None \<and>
      (\<forall>i. at = Some i \<longrightarrow> entry_at st (se_storage se) i \<noteq> None) \<and>
      (\<exists>q s'. api_commit st (se_storage se) [ValueSetWrite (js ''pi.branch.tip'') name (tip_json at)] now = (q, s') \<and>
        r = map_sum StorageError (\<lambda>_. ()) q \<and> se' = se\<lparr>se_storage := s'\<rparr>))"
proof (cases "se_state se = SessionOpen \<and> name \<noteq> [] \<and> 0 \<notin> set name")
  case False
  then show ?thesis
    using assms by (auto simp: createBranch_def assert_open_def assertValidBranchName_def guardE_def split: if_splits)
next
  case True
  then have pass: "bindE (assert_open se) (\<lambda>_. assertValidBranchName name) = Inr ()"
    by (simp add: assert_open_def assertValidBranchName_def)
  have a: "lift_address (branchTip name) = Inr (address_of ''pi.branch.tip'' name)"
    using True by (simp add: branchTip_Inr)
  let ?ws = "[ValueSetWrite (js ''pi.branch.tip'') name (tip_json at)]"
  obtain q s' where q: "api_commit st (se_storage se) ?ws now = (q, s')"
    by (cases "api_commit st (se_storage se) ?ws now")
  have go: "commit_only st [setValue (address_of ''pi.branch.tip'' name) (tip_json at)] now () new_mutation (se_storage se) =
      (map_sum StorageError (\<lambda>_. ()) q, \<lparr>mu_active = True, mu_attempted = True\<rparr>, s')"
    by (cases q) (simp_all add: commit_only_def first_commit setValue_def q)
  have open_se: "assert_open se = Inr ()" using True by (simp add: assert_open_def)
  show ?thesis
  proof (cases "api_getValue st (se_storage se) (address_of ''pi.branch.tip'' name) = None \<and>
      (\<forall>i. at = Some i \<longrightarrow> entry_at st (se_storage se) i \<noteq> None)")
    case False
    then show ?thesis
      using assms unfolding createBranch_def pass
      by (auto simp: mutate_def open_se a entry_at_def split: option.splits if_splits)
  next
    case ok: True
    then have "(r, se') = (map_sum StorageError (\<lambda>_. ()) q, se\<lparr>se_storage := s'\<rparr>)"
    proof (cases "at")
      case None
      with ok assms go show ?thesis
        unfolding createBranch_def pass by (simp add: mutate_def open_se a)
    next
      case (Some i)
      with ok obtain x where "map_of (api_getEntries st (se_storage se) [i]) i = Some x"
        by (auto simp: entry_at_def)
      with Some ok assms go show ?thesis
        unfolding createBranch_def pass by (simp add: mutate_def open_se a)
    qed
    then show ?thesis using True ok q by auto
  qed
qed

context session_storage
begin

lemma create_failed:
  assumes "createBranch st name at now se = (Inl err, se')"
  shows "se' = se"
proof (rule disjE[OF createBranch_cases[OF assms]])
  assume *: "se_state se = SessionOpen \<and> name \<noteq> [] \<and> 0 \<notin> set name \<and>
      api_getValue st (se_storage se) (address_of ''pi.branch.tip'' name) = None \<and>
      (\<forall>i. at = Some i \<longrightarrow> entry_at st (se_storage se) i \<noteq> None) \<and>
      (\<exists>q s'. api_commit st (se_storage se) [ValueSetWrite (js ''pi.branch.tip'') name (tip_json at)] now = (q, s') \<and>
        Inl err = map_sum StorageError (\<lambda>_. ()) q \<and> se' = se\<lparr>se_storage := s'\<rparr>)"
  then obtain q s' where c: "api_commit st (se_storage se) [ValueSetWrite (js ''pi.branch.tip'') name (tip_json at)] now = (q, s')"
    "Inl err = map_sum StorageError (\<lambda>_. ()) q" "se' = se\<lparr>se_storage := s'\<rparr>" by blast
  then obtain e where e: "q = Inl e" by (cases q) auto
  have "list_all address_ok [ValueSetWrite (js ''pi.branch.tip'') name (tip_json at)]"
    using * by (auto simp: valid_address_def js_def)
  from failed_commit[OF this c(1)[unfolded e]] c(3) show ?thesis by simp
qed auto

text \<open>One commit that sets the tip of one branch to a stored entry keeps the tips of all branches stored.\<close>

lemma tips_ok_commit:
  assumes "ok s" "tips_ok s" "list_all address_ok ws" "api_commit st s ws now = (Inr q, s')"
    and "\<And>n v. 0 \<notin> set n \<Longrightarrow> n \<noteq> name \<Longrightarrow> fold (json_after (address_of ''pi.branch.tip'' n)) ws v = v"
    and "\<And>v. fold (json_after (address_of ''pi.branch.tip'' name)) ws v = Some (tip_json tip)"
    and "\<And>i. tip = Some i \<Longrightarrow> entry_at st s' i \<noteq> None"
  shows "tips_ok s'"
  unfolding tips_ok_def
proof (intro allI impI)
  fix n w
  assume n: "0 \<notin> set n" and w: "value_at st s' (address_of ''pi.branch.tip'' n) = Some w"
  have "valid_address (js ''pi.branch.tip'') n" using n by (auto simp: valid_address_def js_def)
  with read_back[OF assms(1,3) _ assms(4), of "address_of ''pi.branch.tip'' n"] w
  have f: "fold (json_after (address_of ''pi.branch.tip'' n)) ws (value_at st s (address_of ''pi.branch.tip'' n)) = Some w"
    by simp
  show "w = JNull \<or> (\<exists>i. w = JStr i \<and> entry_at st s' i \<noteq> None)"
  proof (cases "n = name")
    case True
    with f assms(6) have "w = tip_json tip" by simp
    with assms(7) show ?thesis by (cases tip) (auto simp: tip_json_def)
  next
    case False
    have "fold (json_after (address_of ''pi.branch.tip'' n)) ws x = x" for x
      by (rule assms(5)[OF n False])
    with f have "value_at st s (address_of ''pi.branch.tip'' n) = Some w" by simp
    with assms(2) n have "w = JNull \<or> (\<exists>i. w = JStr i \<and> entry_at st s i \<noteq> None)"
      unfolding tips_ok_def by blast
    then show ?thesis using keeps_entries[OF assms(1,3,4)] by (auto simp del: not_None_eq)
  qed
qed

end

lemma json_after_from: "fold (json_after a) ws x = Some w \<Longrightarrow> x = Some w \<or> ValueSetWrite (ad_namespace a) (ad_key a) w \<in> set ws"
proof (induction ws rule: rev_induct)
  case (snoc y ws)
  then show ?case by (cases y) (auto split: if_splits)
qed simp

context session_storage
begin

text \<open>A commit whose tips are null, stored or inserted with it keeps the tips of all branches stored.\<close>

lemma tips_kept_commit:
  assumes "ok s" "tips_ok s" "list_all address_ok ws" "api_commit st s ws now = (Inr q, s')"
    and "\<And>k v. ValueSetWrite (js ''pi.branch.tip'') k v \<in> set ws \<Longrightarrow>
      v = JNull \<or> (\<exists>i. v = JStr i \<and> (entry_at st s i \<noteq> None \<or> (\<exists>e. EntryWrite e \<in> set ws \<and> entry_id e = i)))"
  shows "tips_ok s'"
  unfolding tips_ok_def
proof (intro allI impI)
  fix n w
  assume n: "0 \<notin> set n" and w: "value_at st s' (address_of ''pi.branch.tip'' n) = Some w"
  have "valid_address (js ''pi.branch.tip'') n" using n by (auto simp: valid_address_def js_def)
  with read_back[OF assms(1,3) _ assms(4), of "address_of ''pi.branch.tip'' n"] w
  have f: "fold (json_after (address_of ''pi.branch.tip'' n)) ws (value_at st s (address_of ''pi.branch.tip'' n)) = Some w"
    by simp
  have stays: "entry_at st s' i \<noteq> None" if "entry_at st s i \<noteq> None" for i
    using that keeps_entries[OF assms(1,3,4)] by auto
  consider "value_at st s (address_of ''pi.branch.tip'' n) = Some w" | "ValueSetWrite (js ''pi.branch.tip'') n w \<in> set ws"
    using json_after_from[OF f] by auto
  then show "w = JNull \<or> (\<exists>i. w = JStr i \<and> entry_at st s' i \<noteq> None)"
  proof cases
    case 1
    with assms(2) n have "w = JNull \<or> (\<exists>i. w = JStr i \<and> entry_at st s i \<noteq> None)" unfolding tips_ok_def by blast
    then show ?thesis using stays by blast
  next
    case 2
    from assms(5)[OF this] show ?thesis
    proof (elim disjE exE conjE)
      fix i e
      assume "w = JStr i" "EntryWrite e \<in> set ws" "entry_id e = i"
      then show ?thesis using adds_entries[OF assms(1,3,4), of e] by auto
    qed (use stays in auto)
  qed
qed

lemma tip_neq: "n \<noteq> name \<Longrightarrow> \<not> (name = ad_key (address_of ns n))"
  by simp

lemma append_tips:
  assumes "ok (se_storage se)" "tips_ok (se_storage se)" "appendToBranch st name body ctype i now se = (r, se')"
  shows "ok (se_storage se') \<and> tips_ok (se_storage se')"
proof (cases r)
  case (Inl err)
  with append_failed assms show ?thesis by metis
next
  case (Inr j)
  obtain v parent q s' where c: "0 \<notin> set name"
    "api_commit st (se_storage se) (appended name parent body ctype i) now = (Inr q, s')" "se' = se\<lparr>se_storage := s'\<rparr>"
    using append_committed[OF assms(3)[unfolded Inr]] by metis
  have stored: "entry_at st s' i \<noteq> None"
    using adds_entries[OF assms(1) appended_ok[OF c(1)] c(2),
        of "\<lparr>entry_id = i, entry_parentId = parent, entry_customType = ctype, entry_body = body\<rparr>"]
    by (auto simp: appended_def)
  have "tips_ok s'"
    by (rule tips_ok_commit[OF assms(1,2) appended_ok[OF c(1)] c(2), of name "Some i"])
      (use stored in \<open>auto simp: appended_def tip_json_def\<close>)
  moreover have "ok s'" using commit_keeps_ok[OF assms(1)] c(2) by (metis snd_conv)
  ultimately show ?thesis using c(3) by simp
qed

lemma create_tips:
  assumes "ok (se_storage se)" "tips_ok (se_storage se)" "createBranch st name at now se = (r, se')"
  shows "ok (se_storage se') \<and> tips_ok (se_storage se')"
proof (cases r)
  case (Inl err)
  with create_failed assms show ?thesis by metis
next
  case (Inr u)
  let ?ws = "[ValueSetWrite (js ''pi.branch.tip'') name (tip_json at)]"
  from createBranch_cases[OF assms(3)[unfolded Inr]] obtain q s' where c: "0 \<notin> set name"
    "\<forall>i. at = Some i \<longrightarrow> entry_at st (se_storage se) i \<noteq> None"
    "api_commit st (se_storage se) ?ws now = (q, s')" "Inr u = map_sum StorageError (\<lambda>_. ()) q" "se' = se\<lparr>se_storage := s'\<rparr>"
    by blast
  from c(4) obtain p where p: "q = Inr p" by (cases q) auto
  have aok: "list_all address_ok ?ws" using c(1) by (auto simp: valid_address_def js_def)
  have "tips_ok s'"
    by (rule tips_ok_commit[OF assms(1,2) aok c(3)[unfolded p], of name "at"])
      (use c(2) keeps_entries[OF assms(1) aok c(3)[unfolded p]] in auto)
  moreover have "ok s'" using commit_keeps_ok[OF assms(1)] c(3) by (metis snd_conv)
  ultimately show ?thesis using c(5) by simp
qed

end

section \<open>The in-memory storage keeps the laws\<close>

lemma memory_api_sel [simp]:
  "api_commit memory_api = memory_commit" "api_getEntries memory_api = getEntries" "api_getValue memory_api = getValue"
  "api_scanBranch memory_api = scanBranch" "api_scanEntries memory_api = session_scanEntries"
  by (simp_all add: memory_api_def)

lemma entry_at_memory: "entry_at memory_api s i = getEntry s i"
  by (simp add: entry_at_def memory_api_def getEntries_def split: option.splits)

lemma value_after_json:
  "map_option stored_json (fold (value_after a) (with_seqs q ws) v) = fold (json_after a) ws (map_option stored_json v)"
proof (induction ws rule: rev_induct)
  case (snoc w ws)
  have step: "map_option stored_json (value_after a (w, q') x) = json_after a w (map_option stored_json x)" for q' x
    by (cases w) auto
  show ?case by (simp add: step snoc)
qed simp

lemma memory_success:
  assumes "list_all address_ok ws" "memory_commit s ws now = (Inr r, s')"
  shows "s' = after_commit ws now s" "commit_ok s ws"
  using memory_commit_cases[of ws s now] assms by (simp_all add: list_all_iff split: if_splits)

lemma stamp_entries_mem:
  "EntryWrite n \<in> set ws \<Longrightarrow> \<exists>k. materializeCommittedEntry n k t \<in> set (stamp_entries q t ws)"
  by (induction ws rule: rev_induct) auto

lemma after_commit_getEntry:
  assumes "session_inv s" "list_all address_ok ws" "memory_commit s ws now = (Inr r, s')"
  shows "getEntry s i = Some e \<Longrightarrow> getEntry s' i = Some e"
    and "EntryWrite n \<in> set ws \<Longrightarrow> \<exists>k. getEntry s' (entry_id n) = Some (materializeCommittedEntry n k now)"
proof -
  have inv': "session_inv s'" using inv_memory_commit[OF assms(1), of ws now] assms(3) by simp
  have bs: "ss_entriesBySeq s' = ss_entriesBySeq s @ stamp_entries (ss_nextSeq s) now ws"
    using after_commit_entries[of ws now s] memory_success[OF assms(2,3)] assms(2) by (simp add: list_all_iff)
  show "getEntry s' i = Some e" if "getEntry s i = Some e"
  proof -
    from that have "entry_id e = i" using stored_entry[OF assms(1)] by (simp add: getEntry_def)
    moreover from this that have "e \<in> set (ss_entriesBySeq s)" by (simp add: stored_iff[OF assms(1)] getEntry_def)
    ultimately show ?thesis using stored_iff[OF inv', of e] bs by (simp add: getEntry_def)
  qed
  show "\<exists>k. getEntry s' (entry_id n) = Some (materializeCommittedEntry n k now)" if "EntryWrite n \<in> set ws"
  proof -
    from stamp_entries_mem[OF that] obtain k where "materializeCommittedEntry n k now \<in> set (stamp_entries (ss_nextSeq s) now ws)"
      by blast
    then have "materializeCommittedEntry n k now \<in> set (ss_entriesBySeq s')" by (simp add: bs)
    then show ?thesis unfolding stored_iff[OF inv'] by (auto simp: getEntry_def materializeCommittedEntry_def)
  qed
qed

lemma scan_whole: "scan_path (whole_path i) path = path"
proof -
  have "until_stop (branch_stop (whole_path i)) path = path"
    by (induction path) (auto simp: branch_stop_def whole_path_def)
  then show ?thesis by (simp add: scan_path_def limited_def branch_selected_def[abs_def] wanted_def whole_path_def)
qed

lemma scanBranch_whole:
  assumes "session_inv s" "getEntry s i = Some e"
  shows "\<exists>path. root_path s e path \<and> scanBranch s (whole_path i) = Some (Inr path)"
proof -
  have "scan_start (whole_path i) = i" by (simp add: whole_path_def)
  with scanBranch_found[OF assms(1), of "whole_path i" e] assms(2) show ?thesis by (simp add: scan_whole)
qed

lemma root_path_Cons:
  assumes "session_inv s" "root_path s e path" "root_path s e' path'" "entry_parentId e = Some (entry_id e')"
  shows "path = e # path'"
proof -
  have "root_path s e (e # path')"
    using assms(2-4) by (cases path; cases path') (auto simp: root_path_def)
  with root_path_unique[OF assms(1) assms(2)] show ?thesis by blast
qed

interpretation mem: session_storage memory_api session_inv
proof
  fix s :: "'a session_state" and ws :: "'a session_write list" and now r s' e i n a err
  show "session_inv s \<Longrightarrow> session_inv (snd (api_commit memory_api s ws now))"
    by (simp add: memory_api_def inv_memory_commit)
  show "list_all address_ok ws \<Longrightarrow> api_commit memory_api s ws now = (Inl err, s') \<Longrightarrow> s' = s"
    using memory_commit_cases[of ws s now] by (simp add: memory_api_def list_all_iff split: if_splits)
  show "session_inv s \<Longrightarrow> list_all address_ok ws \<Longrightarrow> valid_address (ad_namespace a) (ad_key a) \<Longrightarrow>
      api_commit memory_api s ws now = (Inr r, s') \<Longrightarrow>
      value_at memory_api s' a = fold (json_after a) ws (value_at memory_api s a)"
    using after_commit_address[of ws a now s] memory_success[of ws s now r s']
    by (simp add: memory_api_def value_at_def list_all_iff value_after_json)
  show "session_inv s \<Longrightarrow> list_all address_ok ws \<Longrightarrow> api_commit memory_api s ws now = (Inr r, s') \<Longrightarrow>
      entry_at memory_api s i = Some e \<Longrightarrow> entry_at memory_api s' i = Some e"
    unfolding entry_at_memory by (rule after_commit_getEntry(1)) (simp_all add: memory_api_def)
  show "session_inv s \<Longrightarrow> list_all address_ok ws \<Longrightarrow> api_commit memory_api s ws now = (Inr r, s') \<Longrightarrow>
      EntryWrite n \<in> set ws \<Longrightarrow> \<exists>e. entry_at memory_api s' (entry_id n) = Some e \<and> entry_id e = entry_id n \<and>
        entry_parentId e = entry_parentId n \<and> entry_body e = entry_body n \<and> entry_customType e = entry_customType n"
    unfolding entry_at_memory using after_commit_getEntry(2)[of s ws now r s' n]
    by (auto simp: memory_api_def materializeCommittedEntry_def)
  show "session_inv s \<Longrightarrow> entry_at memory_api s i = Some e \<Longrightarrow>
      (case entry_parentId e of
         None \<Rightarrow> api_scanBranch memory_api s (whole_path i) = Some (Inr [e])
       | Some p \<Rightarrow> entry_at memory_api s p \<noteq> None \<and>
           (\<exists>rest. api_scanBranch memory_api s (whole_path p) = Some (Inr rest) \<and>
             api_scanBranch memory_api s (whole_path i) = Some (Inr (e # rest))))"
  proof -
    assume inv: "session_inv s" and "entry_at memory_api s i = Some e"
    then have e: "getEntry s i = Some e" by (simp add: entry_at_memory)
    from scanBranch_whole[OF inv e] obtain path where path: "root_path s e path" "scanBranch s (whole_path i) = Some (Inr path)"
      by blast
    show ?thesis
    proof (cases "entry_parentId e")
      case None
      then have "path = [e]" using path(1)
        by (cases path; cases "tl path") (auto simp: root_path_def)
      with None path(2) show ?thesis by (simp add: memory_api_def)
    next
      case (Some p)
      from stored_parent[OF inv _ Some] e obtain x where x: "getEntry s p = Some x" by (auto simp: getEntry_def)
      from scanBranch_whole[OF inv x] obtain rest where rest: "root_path s x rest" "scanBranch s (whole_path p) = Some (Inr rest)"
        by blast
      have "entry_id x = p" using stored_entry[OF inv] x by (simp add: getEntry_def)
      with root_path_Cons[OF inv path(1) rest(1)] Some have "path = e # rest" by simp
      with Some x rest(2) path(2) show ?thesis by (simp add: entry_at_memory)
    qed
  qed
qed

section \<open>Sessions over the in-memory storage\<close>

text \<open>
  The writes that a caller may hand to a mutation, or set with \<open>setValue\<close>, so that tips stay sound: addresses are
  those of the address constructors, and a branch tip that is set is null, the id of a stored entry, or the id of an
  entry inserted by the same commit. The session does not check this; lanes and branches keep to it.
\<close>

definition tips_kept :: "'c session_state \<Rightarrow> 'c session_write list \<Rightarrow> bool" where
  "tips_kept s ws \<longleftrightarrow> list_all address_ok ws \<and>
     (\<forall>k v. ValueSetWrite (js ''pi.branch.tip'') k v \<in> set ws \<longrightarrow>
       v = JNull \<or> (\<exists>i. v = JStr i \<and> (getEntry s i \<noteq> None \<or> (\<exists>e. EntryWrite e \<in> set ws \<and> entry_id e = i))))"

text \<open>
  Every operation of a session that writes, as one step. The callback of \<open>mutate\<close> reads and commits at most once
  (theory \<open>MutationLine\<close>), so what it does to the storage is one commit of any writes.
\<close>

inductive session_step ::
    "('c :: {zero, plus}) session_state session \<Rightarrow> 'c session_state session \<Rightarrow> bool" where
  create: "createBranch memory_api name at now se = (r, se') \<Longrightarrow> session_step se se'"
| append_message: "appendMessage memory_api name m i now se = (r, se') \<Longrightarrow> session_step se se'"
| append_custom: "appendCustomEntry memory_api name ctype d i now se = (r, se') \<Longrightarrow> session_step se se'"
| name: "setName memory_api n now se = (r, se') \<Longrightarrow> session_step se se'"
| label: "setLabel memory_api target n now se = (r, se') \<Longrightarrow> session_step se se'"
| set_value: "session_setValue memory_api a v now se = (r, se') \<Longrightarrow> tips_kept (se_storage se) [setValue a v] \<Longrightarrow>
    session_step se se'"
| delete_value: "session_deleteValue memory_api a now se = (r, se') \<Longrightarrow> tips_kept (se_storage se) [deleteValue a] \<Longrightarrow>
    session_step se se'"
| append_list: "session_appendList memory_api a v now se = (r, se') \<Longrightarrow> tips_kept (se_storage se) [appendList a v] \<Longrightarrow>
    session_step se se'"
| delete_list: "session_deleteList memory_api a now se = (r, se') \<Longrightarrow> tips_kept (se_storage se) [deleteList a] \<Longrightarrow>
    session_step se se'"
| mutation: "mutate se (commit_only memory_api ws now ()) = (r, se') \<Longrightarrow> tips_kept (se_storage se) ws \<Longrightarrow>
    session_step se se'"

inductive session_run :: "('c :: {zero, plus}) session_state session \<Rightarrow> 'c session_state session \<Rightarrow> bool" where
  start: "session_run se se"
| step: "session_run se se' \<Longrightarrow> session_step se' se'' \<Longrightarrow> session_run se se''"

definition new_session :: "('c :: {zero, plus}) session_state session" where
  "new_session = \<lparr>se_storage = new_session_state, se_state = SessionOpen\<rparr>"

text \<open>A mutation that keeps to the discipline keeps the tips sound, whether it is accepted or not.\<close>

lemma mutation_tips:
  assumes "session_inv (se_storage se)" "mem.tips_ok (se_storage se)"
    and "mutate se (commit_only memory_api ws now ()) = (r, se')" "tips_kept (se_storage se) ws"
  shows "session_inv (se_storage se') \<and> mem.tips_ok (se_storage se')"
proof (cases "se_state se = SessionOpen")
  case False
  with mutate_closed[OF this, of "commit_only memory_api ws now ()"] assms show ?thesis by simp
next
  case True
  have aok: "list_all address_ok ws" using assms(4) by (simp add: tips_kept_def)
  from mutate_open[OF assms(3) True] obtain m s' where f: "commit_only memory_api ws now () new_mutation (se_storage se) = (r, m, s')"
    "se' = se\<lparr>se_storage := s'\<rparr>" by blast
  show ?thesis
  proof (cases "list_ex pending_write ws \<or> isl (fst (memory_commit (se_storage se) ws now))")
    case bad: True
    have "s' = se_storage se"
    proof (cases "list_ex pending_write ws")
      case True
      then show ?thesis using f(1) by (simp add: commit_only_def first_commit)
    next
      case False
      then obtain e where "memory_commit (se_storage se) ws now = (Inl e, s')"
        using bad f(1) by (cases "memory_commit (se_storage se) ws now") (auto simp: commit_only_def first_commit isl_def)
      then show ?thesis using mem.failed_commit[of ws "se_storage se" now e s'] aok by simp
    qed
    then show ?thesis using f(2) assms(1,2) by simp
  next
    case good: False
    then obtain q where q: "memory_commit (se_storage se) ws now = (Inr q, s')"
      using f(1) by (cases "memory_commit (se_storage se) ws now"; cases "fst (memory_commit (se_storage se) ws now)")
        (auto simp: commit_only_def first_commit)
    have "mem.tips_ok s'"
      by (rule mem.tips_kept_commit[OF assms(1,2) aok])
        (use q assms(4) in \<open>auto simp: tips_kept_def entry_at_memory\<close>)
    moreover have "session_inv s'" using inv_memory_commit[OF assms(1), of ws now] q by simp
    ultimately show ?thesis using f(2) by simp
  qed
qed

lemma other_write_kept: "address_ok w \<Longrightarrow> \<forall>k v. w \<noteq> ValueSetWrite (js ''pi.branch.tip'') k v \<Longrightarrow> tips_kept s [w]"
  by (auto simp: tips_kept_def)

lemma session_step_inv:
  assumes "session_step se se'" "session_inv (se_storage se)" "mem.tips_ok (se_storage se)"
  shows "session_inv (se_storage se') \<and> mem.tips_ok (se_storage se')"
  using assms(1)
proof (cases rule: session_step.cases)
  case (create name at' now r)
  then show ?thesis using mem.create_tips assms(2,3) by blast
next
  case (append_message name m i now r)
  then show ?thesis using mem.append_tips assms(2,3) unfolding appendMessage_def by blast
next
  case (append_custom name ctype d i now r)
  then show ?thesis using mem.append_tips assms(2,3) unfolding appendCustomEntry_def by blast
next
  case (name n now r)
  have a: "lift_address sessionName = Inr (address_of ''pi.session.name'' [])" by code_simp
  obtain w where w: "mutate se (commit_only memory_api [w] now ()) = (r, se')" "address_ok w"
      "\<forall>k v. w \<noteq> ValueSetWrite (js ''pi.branch.tip'') k v"
    using name by (cases n) (auto simp: setName_def a session_setValue_def session_deleteValue_def setValue_def deleteValue_def
        valid_address_def js_def)
  from mutation_tips[OF assms(2,3) w(1) other_write_kept[OF w(2,3)]] show ?thesis .
next
  case (label target n now r)
  show ?thesis
  proof (cases "lift_address (entryLabel target)")
    case (Inl e)
    then show ?thesis using label assms(2,3) by (simp add: setLabel_def)
  next
    case (Inr a)
    then have "valid_address (js ''pi.entry.label'') target" "a = address_of ''pi.entry.label'' target"
      by (auto simp: lift_address_def entryLabel_def value_address_iff split: sum.splits)
    then obtain w where w: "mutate se (commit_only memory_api [w] now ()) = (r, se')" "address_ok w"
        "\<forall>k v. w \<noteq> ValueSetWrite (js ''pi.branch.tip'') k v"
      using label Inr
      by (cases n) (auto simp: setLabel_def session_setValue_def session_deleteValue_def setValue_def deleteValue_def js_def)
    from mutation_tips[OF assms(2,3) w(1) other_write_kept[OF w(2,3)]] show ?thesis .
  qed
next
  case (set_value a v now r)
  then show ?thesis using mutation_tips[OF assms(2,3)] by (simp add: session_setValue_def)
next
  case (delete_value a now r)
  then show ?thesis using mutation_tips[OF assms(2,3)] by (simp add: session_deleteValue_def)
next
  case (append_list a v now r)
  then show ?thesis using mutation_tips[OF assms(2,3)] by (simp add: session_appendList_def)
next
  case (delete_list a now r)
  then show ?thesis using mutation_tips[OF assms(2,3)] by (simp add: session_deleteList_def)
next
  case (mutation ws now r)
  then show ?thesis using mutation_tips[OF assms(2,3)] by blast
qed

lemma session_run_inv: "session_run new_session se \<Longrightarrow> session_inv (se_storage se) \<and> mem.tips_ok (se_storage se)"
proof (induction "new_session :: 'a session_state session" se rule: session_run.induct)
  case start
  have "getValue (new_session_state :: 'a session_state) a = None" for a
    by (simp add: getValue_def new_session_state_def)
  then show ?case by (simp add: new_session_def session_inv_new mem.tips_ok_def value_at_def)
next
  case (step se' se'')
  then show ?case using session_step_inv by blast
qed

text \<open>
  C38. Whatever branches are created, entries appended, names, labels, values and lists set or deleted and mutations
  committed through a session, every branch tip is null or the id of a stored entry, so a branch can always be read
  and extended. The raw writers do not check what they store: a \<open>setValue\<close> or a mutation that sets a tip itself must
  set it to null, to a stored entry or to one inserted by the same commit, as lanes do (\<open>tips_kept\<close>).
\<close>
theorem session_tips_stored:
  assumes "session_run new_session se"
  shows "\<forall>name v. 0 \<notin> set name \<longrightarrow>
    map_option stored_json (getValue (se_storage se) (address_of ''pi.branch.tip'' name)) = Some v \<longrightarrow>
    v = JNull \<or> (\<exists>i e path. v = JStr i \<and> getEntry (se_storage se) i = Some e \<and>
      root_path (se_storage se) e path \<and> scanBranch (se_storage se) (whole_path i) = Some (Inr path))"
proof (intro allI impI)
  fix name v
  assume "0 \<notin> set name" "map_option stored_json (getValue (se_storage se) (address_of ''pi.branch.tip'' name)) = Some v"
  then have "v = JNull \<or> (\<exists>i. v = JStr i \<and> getEntry (se_storage se) i \<noteq> None)"
    using session_run_inv[OF assms] by (auto simp: mem.tips_ok_def value_at_def entry_at_memory)
  then show "v = JNull \<or> (\<exists>i e path. v = JStr i \<and> getEntry (se_storage se) i = Some e \<and>
      root_path (se_storage se) e path \<and> scanBranch (se_storage se) (whole_path i) = Some (Inr path))"
    using scanBranch_whole session_run_inv[OF assms] by blast
qed

definition user_message :: agent_message where
  "user_message = UserMessage (PlainText (js ''hi'')) 3"

definition sample_run :: "int session_state session" where
  "sample_run =
     snd (appendMessage memory_api (js ''m'') user_message (js ''a'') 5
       (snd (createBranch memory_api (js ''m'') None 4 new_session)))"

lemma sample_run: "session_run new_session sample_run"
proof -
  have pair: "f = (fst f, snd f)" for f :: "('x \<times> 'y)" by simp
  have "session_step new_session (snd (createBranch memory_api (js ''m'') None 4 (new_session :: int session_state session)))"
    by (rule session_step.create[OF pair])
  moreover have "session_step (snd (createBranch memory_api (js ''m'') None 4 new_session)) sample_run"
    unfolding sample_run_def by (rule session_step.append_message[OF pair])
  ultimately show ?thesis by (meson session_run.intros)
qed

theorem session_tips_stored_witness:
  "map_option stored_json (getValue (se_storage sample_run) (address_of ''pi.branch.tip'' (js ''m''))) = Some (JStr (js ''a'')) \<and>
   (\<exists>e path. getEntry (se_storage sample_run) (js ''a'') = Some e \<and>
      root_path (se_storage sample_run) e path \<and> scanBranch (se_storage sample_run) (whole_path (js ''a'')) = Some (Inr path))"
proof -
  have "map_option stored_json (getValue (se_storage sample_run) (address_of ''pi.branch.tip'' (js ''m''))) = Some (JStr (js ''a'')) \<and>
    0 \<notin> set (js ''m'')" by code_simp
  with session_tips_stored[OF sample_run] show ?thesis by blast
qed

definition whole_query :: branch_query where
  "whole_query =
     \<lparr>bq_start = None, bq_stopAtType = None, bq_stopAtId = None, bq_type = None, bq_customType = None,
      bq_order = None, bq_limit = None, bq_cursor = None\<rparr>"

lemma getBranchTip_memory:
  assumes "se_state se = SessionOpen" "0 \<notin> set name"
  shows "getBranchTip memory_api se name =
    (case value_at memory_api (se_storage se) (address_of ''pi.branch.tip'' name) of
       None \<Rightarrow> Inl (UnknownBranch name) | Some v \<Rightarrow> Inr v)"
proof -
  have "lift_address (branchTip name) = Inr (address_of ''pi.branch.tip'' name)"
    using assms(2) by (simp add: branchTip_Inr)
  then show ?thesis
    using assms(1) by (simp add: getBranchTip_def session_getValue_def assert_open_def value_at_def split: option.splits)
qed

lemma branch_entries_memory:
  assumes "se_state se = SessionOpen" "0 \<notin> set name"
    and "value_at memory_api (se_storage se) (address_of ''pi.branch.tip'' name) = Some (tip_json tip)"
  shows "branch_findEntries memory_api se name whole_query =
    (case tip of
       None \<Rightarrow> Some (Inr [])
     | Some i \<Rightarrow> map_option (map_sum StorageError id) (scanBranch (se_storage se) (whole_path i)))"
proof -
  have open_se: "assert_open se = Inr ()" using assms(1) by (simp add: assert_open_def)
  have tip: "bindE (getBranchTip memory_api se name) tip_parent = Inr tip"
    unfolding getBranchTip_memory[OF assms(1,2)] assms(3) by (cases tip) (simp_all add: tip_json_def)
  have ms: "(\<lambda>r. case r of Inl e \<Rightarrow> Inl (StorageError e) | Inr es \<Rightarrow> Inr es) = map_sum StorageError id"
    by (auto simp: fun_eq_iff split: sum.splits)
  show ?thesis
    by (cases tip) (simp_all add: branch_findEntries_def tip open_se whole_query_def whole_path_def ms)
qed

text \<open>
  C21. Appending a message to a branch of a session returns the minted id, makes it the branch's tip, and the
  branch reads as the new entry followed by exactly what it read before; the entry's parent is the previous
  tip.
\<close>
theorem appendMessage_extends:
  assumes "session_run new_session se" "appendMessage memory_api name msg i now se = (Inr j, se')"
  shows "j = i \<and> getBranchTip memory_api se' name = Inr (JStr i) \<and>
    (\<exists>e old. branch_findEntries memory_api se name whole_query = Some (Inr old) \<and>
       branch_findEntries memory_api se' name whole_query = Some (Inr (e # old)) \<and>
       entry_id e = i \<and> entry_body e = Message msg False \<and> entry_parentId e = map_option entry_id (first_of old))"
proof -
  have inv: "session_inv (se_storage se)" "mem.tips_ok (se_storage se)" using session_run_inv[OF assms(1)] by auto
  note app = assms(2)[unfolded appendMessage_def]
  obtain s' where op: "se_state se = SessionOpen" "0 \<notin> set name" "se' = se\<lparr>se_storage := s'\<rparr>"
    using mem.append_committed[OF app] by metis
  then have op': "se_state se' = SessionOpen" by simp
  obtain e tip where x: "j = i"
    "value_at memory_api (se_storage se') (address_of ''pi.branch.tip'' name) = Some (JStr i)"
    "entry_id e = i" "entry_body e = Message msg False"
    "value_at memory_api (se_storage se) (address_of ''pi.branch.tip'' name) = Some (tip_json tip)" "entry_parentId e = tip"
    "case tip of
         None \<Rightarrow> scanBranch (se_storage se') (whole_path i) = Some (Inr [e])
       | Some t \<Rightarrow> \<exists>path. scanBranch (se_storage se') (whole_path t) = Some (Inr path) \<and>
           (entry_at memory_api (se_storage se) t \<noteq> None \<longrightarrow> scanBranch (se_storage se) (whole_path t) = Some (Inr path)) \<and>
           scanBranch (se_storage se') (whole_path i) = Some (Inr (e # path))"
    using mem.append_extends[OF inv(1) app, unfolded memory_api_sel] by blast
  have x2: "value_at memory_api (se_storage se') (address_of ''pi.branch.tip'' name) = Some (tip_json (Some i))"
    using x(2) by (simp add: tip_json_def)
  have new: "branch_findEntries memory_api se' name whole_query =
      map_option (map_sum StorageError id) (scanBranch (se_storage se') (whole_path i))"
    using branch_entries_memory[OF op' op(2) x2] by simp
  have gt: "getBranchTip memory_api se' name = Inr (JStr i)"
    unfolding getBranchTip_memory[OF op' op(2)] x(2) by simp
  show ?thesis
  proof (cases tip)
    case None
    with x branch_entries_memory[OF op(1,2) x(5)] new gt show ?thesis
      by (auto simp: first_of_def)
  next
    case (Some t)
    with inv(2) op(2) x(5) obtain y where y: "getEntry (se_storage se) t = Some y"
      by (auto simp: mem.tips_ok_def tip_json_def entry_at_memory)
    with x(7) Some obtain path where path: "scanBranch (se_storage se) (whole_path t) = Some (Inr path)"
      "scanBranch (se_storage se') (whole_path i) = Some (Inr (e # path))" by (auto simp: entry_at_memory)
    from scanBranch_whole[OF inv(1) y] path(1) have "root_path (se_storage se) y path" by simp
    then have "first_of path = Some y" by (cases path) (auto simp: root_path_def first_of_def)
    moreover have "entry_id y = t" using stored_entry[OF inv(1)] y by (simp add: getEntry_def)
    ultimately show ?thesis
      using x(1,3,4,6) Some branch_entries_memory[OF op(1,2) x(5)] new gt path by simp
  qed
qed

theorem appendMessage_extends_witness:
  "let r = appendMessage memory_api (js ''m'') user_message (js ''b'') 6 sample_run; se' = snd r in
   (js ''b'' = js ''b'' \<and> getBranchTip memory_api se' (js ''m'') = Inr (JStr (js ''b'')) \<and>
    (\<exists>e old. branch_findEntries memory_api sample_run (js ''m'') whole_query = Some (Inr old) \<and>
       branch_findEntries memory_api se' (js ''m'') whole_query = Some (Inr (e # old)) \<and>
       entry_id e = js ''b'' \<and> entry_body e = Message user_message False \<and> entry_parentId e = map_option entry_id (first_of old))) \<and>
   map_option (map_sum id (map entry_id)) (branch_findEntries memory_api se' (js ''m'') whole_query) = Some (Inr [js ''b'', js ''a''])"
proof -
  define r where "r = appendMessage memory_api (js ''m'') user_message (js ''b'') 6 sample_run"
  have "fst r = Inr (js ''b'')" unfolding r_def by code_simp
  then have r: "appendMessage memory_api (js ''m'') user_message (js ''b'') 6 sample_run = (Inr (js ''b''), snd r)"
    unfolding r_def by (metis prod.collapse)
  have "map_option (map_sum id (map entry_id)) (branch_findEntries memory_api (snd r) (js ''m'') whole_query) =
      Some (Inr [js ''b'', js ''a''])"
    unfolding r_def by code_simp
  with appendMessage_extends[OF sample_run r] show ?thesis
    unfolding r_def[symmetric] Let_def by blast
qed

lemma rev_cursor: "(\<forall>x \<in> set xs. P x = Q x) \<Longrightarrow> filter P xs = filter Q xs"
  by (rule filter_cong) auto

text \<open>
  An entry query of a session is the history in the chosen order (newest first by default), filtered by
  type, custom type and a cursor that excludes its own sequence, and cut at the limit. The two shortcuts for
  the extreme cursors agree with this as long as sequences are safe integers.
\<close>
theorem findEntries_spec:
  assumes "session_inv (se_storage se)" "se_state se = SessionOpen" "ss_nextSeq (se_storage se) \<le> MAX_SAFE_INTEGER + 1"
  shows "session_findEntries memory_api se q = Inr (limited (eq_limit q)
    (filter (\<lambda>e. wanted (eq_type q) (eq_customType q) e \<and>
        (case eq_cursor q of None \<Rightarrow> True
         | Some c \<Rightarrow> if eq_order q = Some Asc then c < entry_seq e else entry_seq e < c))
      (if eq_order q = Some Asc then ss_entriesBySeq (se_storage se) else rev (ss_entriesBySeq (se_storage se)))))"
proof -
  let ?s = "se_storage se"
  have seqs: "1 \<le> entry_seq e \<and> entry_seq e \<le> MAX_SAFE_INTEGER" if "e \<in> set (ss_entriesBySeq ?s)" for e
    using that session_table[OF assms(1)] assms(1,3) by (auto simp: session_inv_def entries_inv_def seq_table_def)
  have scan: "session_scanEntries ?s r = limited (es_limit r)
        (filter (\<lambda>e. wanted (es_type r) (es_customType r) e \<and> in_seq_range (es_fromSeq r) (es_toSeq r) (entry_seq e))
          (if es_order r = Some Desc then rev (ss_entriesBySeq ?s) else ss_entriesBySeq ?s))" for r
    unfolding session_scanEntries_def limited_def by (cases "es_limit r") (simp_all add: scan_loop_eq)
  show ?thesis
  proof (cases "eq_cursor q")
    case None
    consider "eq_order q = None" | "eq_order q = Some Asc" | "eq_order q = Some Desc"
      by (metis option.exhaust read_order.exhaust)
    then show ?thesis
      using None assms(2)
      by cases (simp_all add: session_findEntries_def assert_open_def Let_def scan in_seq_range_def)
  next
    case (Some c)
    have none: "filter P xs = []" if "\<forall>x \<in> set xs. \<not> P x" for P and xs :: "session_entry list"
      using that by simp
    show ?thesis
    proof (cases "eq_order q = Some Asc")
      case True
      then show ?thesis
      proof (cases "c = MAX_SAFE_INTEGER")
        case max: True
        have "filter (\<lambda>e. wanted (eq_type q) (eq_customType q) e \<and> MAX_SAFE_INTEGER < entry_seq e) (ss_entriesBySeq ?s) = []"
          by (rule none) (use seqs in force)
        then show ?thesis
          using True max Some assms(2) by (simp add: session_findEntries_def assert_open_def limited_def split: option.splits)
      next
        case False
        then show ?thesis
          using True Some assms(2)
          by (simp add: session_findEntries_def assert_open_def Let_def scan in_seq_range_def add1_zle_eq)
      qed
    next
      case False
      then have order: "(case eq_order q of None \<Rightarrow> Desc | Some r \<Rightarrow> r) = Desc"
        by (cases "eq_order q") (auto intro: read_order.exhaust)
      show ?thesis
      proof (cases "c \<le> 1")
        case True
        have "filter (\<lambda>e. wanted (eq_type q) (eq_customType q) e \<and> entry_seq e < c) (rev (ss_entriesBySeq ?s)) = []"
          by (rule none) (use seqs True in force)
        then show ?thesis
          using True False order Some assms(2) by (simp add: session_findEntries_def assert_open_def limited_def split: option.splits)
      next
        case gt: False
        have "(entry_seq e \<le> c - 1) = (entry_seq e < c)" for e :: session_entry by auto
        then show ?thesis
          using gt False order Some assms(2)
          by (simp add: session_findEntries_def assert_open_def Let_def scan in_seq_range_def)
      qed
    qed
  qed
qed

theorem findEntries_spec_witness:
  "let q = \<lparr>eq_type = None, eq_customType = None, eq_order = None, eq_limit = None, eq_cursor = Some 3\<rparr> in
   session_findEntries memory_api sample_run q = Inr (limited (eq_limit q)
    (filter (\<lambda>e. wanted (eq_type q) (eq_customType q) e \<and>
        (case eq_cursor q of None \<Rightarrow> True
         | Some c \<Rightarrow> if eq_order q = Some Asc then c < entry_seq e else entry_seq e < c))
      (if eq_order q = Some Asc then ss_entriesBySeq (se_storage sample_run) else rev (ss_entriesBySeq (se_storage sample_run))))) \<and>
   map_sum id (map entry_id) (session_findEntries memory_api sample_run q) = Inr [js ''a'']"
proof -
  have "map_sum id (map entry_id) (session_findEntries memory_api sample_run
      \<lparr>eq_type = None, eq_customType = None, eq_order = None, eq_limit = None, eq_cursor = Some 3\<rparr>) = Inr [js ''a'']"
    by code_simp
  moreover have "se_state sample_run = SessionOpen" "ss_nextSeq (se_storage sample_run) \<le> MAX_SAFE_INTEGER + 1"
    by code_simp+
  moreover have "session_inv (se_storage sample_run)" using session_run_inv[OF sample_run] by blast
  ultimately show ?thesis unfolding Let_def by (intro conjI findEntries_spec)
qed

end
