(* ===== verification/MutationLine.thy ===== *)
theory MutationLine
  imports SessionLayer "HOL-Library.Sublist"
begin

text \<open>
  The mutation line of a session (\<open>packages/agent/src/harness/session/mutation-line.ts\<close>): the chain of promises
  that the class builds, with reactions that fire in any order, refined against a queue that runs one job at a
  time; and the mutation capability under an arbitrary sequence of calls.
\<close>

section \<open>The queue\<close>

text \<open>
  What the line promises: a queue. \<open>ln_waiting\<close> are the jobs submitted and not yet taken, \<open>ln_running\<close> the job
  whose operation has been called and not settled, \<open>ln_sealed\<close> tells that the line is sealed.
\<close>

record 'j line =
  ln_waiting :: "'j list"
  ln_running :: "'j option"
  ln_sealed :: bool

definition new_line :: "'j line" where
  "new_line = \<lparr>ln_waiting = [], ln_running = None, ln_sealed = False\<rparr>"

datatype 'j line_event =
    Submitted 'j | Refused 'j | Started 'j | Dropped 'j | Finished 'j | Sealed

text \<open>
  The steps of the queue: the first waiting job is started when none runs, or dropped when the line has been
  sealed. That the promise chain takes no other step is the refinement below.
\<close>

inductive line_step :: "'j line \<Rightarrow> 'j line_event \<Rightarrow> 'j line \<Rightarrow> bool" where
  refuse: "ln_sealed l \<Longrightarrow> line_step l (Refused j) l"
| submit: "\<not> ln_sealed l \<Longrightarrow> line_step l (Submitted j) (l\<lparr>ln_waiting := ln_waiting l @ [j]\<rparr>)"
| begin_job: "ln_running l = None \<Longrightarrow> ln_waiting l = j # done_jobs \<Longrightarrow> \<not> ln_sealed l \<Longrightarrow>
    line_step l (Started j) (l\<lparr>ln_waiting := done_jobs, ln_running := Some j\<rparr>)"
| drop_job: "ln_running l = None \<Longrightarrow> ln_waiting l = j # done_jobs \<Longrightarrow> ln_sealed l \<Longrightarrow>
    line_step l (Dropped j) (l\<lparr>ln_waiting := done_jobs\<rparr>)"
| finish: "ln_running l = Some j \<Longrightarrow> line_step l (Finished j) (l\<lparr>ln_running := None\<rparr>)"
| seal: "line_step l Sealed (l\<lparr>ln_sealed := True\<rparr>)"

inductive_cases line_stepE: "line_step l ev l'"

inductive_simps line_step_simps:
  "line_step l (Submitted j) l'" "line_step l (Started j) l'" "line_step l (Dropped j) l'"
  "line_step l (Finished j) l'" "line_step l (Refused j) l'" "line_step l Sealed l'"

inductive line_run :: "'j line_event list \<Rightarrow> 'j line \<Rightarrow> bool" where
  empty: "line_run [] new_line"
| extend: "line_run tr l \<Longrightarrow> line_step l ev l' \<Longrightarrow> line_run (tr @ [ev]) l'"

fun submissions :: "'j line_event list \<Rightarrow> 'j list" where
  "submissions [] = []"
| "submissions (Submitted j # tr) = j # submissions tr"
| "submissions (ev # tr) = submissions tr"

fun taken :: "'j line_event list \<Rightarrow> 'j list" where
  "taken [] = []"
| "taken (Started j # tr) = j # taken tr"
| "taken (Dropped j # tr) = j # taken tr"
| "taken (ev # tr) = taken tr"

fun activity :: "'j line_event list \<Rightarrow> ('j \<times> bool) list" where
  "activity [] = []"
| "activity (Started j # tr) = (j, True) # activity tr"
| "activity (Finished j # tr) = (j, False) # activity tr"
| "activity (ev # tr) = activity tr"

lemma submissions_append [simp]: "submissions (xs @ ys) = submissions xs @ submissions ys"
  by (induction xs rule: submissions.induct) auto

lemma taken_append [simp]: "taken (xs @ ys) = taken xs @ taken ys"
  by (induction xs rule: taken.induct) auto

lemma activity_append [simp]: "activity (xs @ ys) = activity xs @ activity ys"
  by (induction xs rule: activity.induct) auto

lemma line_fifo: "line_run tr l \<Longrightarrow> submissions tr = taken tr @ ln_waiting l"
  by (induction rule: line_run.induct) (auto simp: new_line_def elim!: line_stepE)

lemma line_alternates:
  "line_run tr l \<Longrightarrow> \<exists>done_jobs. activity tr = concat (map (\<lambda>j. [(j, True), (j, False)]) done_jobs) @
     (case ln_running l of None \<Rightarrow> [] | Some j \<Rightarrow> [(j, True)])"
proof (induction rule: line_run.induct)
  case empty
  show ?case by (rule exI[of _ "[]"]) (simp add: new_line_def)
next
  case (extend tr l ev l')
  then obtain done_jobs where done_jobs: "activity tr = concat (map (\<lambda>j. [(j, True), (j, False)]) done_jobs) @
     (case ln_running l of None \<Rightarrow> [] | Some j \<Rightarrow> [(j, True)])" by blast
  from extend.hyps(2) show ?case
  proof cases
    case (finish j)
    with done_jobs show ?thesis by (intro exI[of _ "done_jobs @ [j]"]) simp
  qed (use done_jobs in \<open>auto intro!: exI[of _ done_jobs]\<close>)
qed

lemma sealed_stays: "line_run tr l \<Longrightarrow> Sealed \<in> set tr \<Longrightarrow> ln_sealed l"
  by (induction rule: line_run.induct) (auto elim!: line_stepE)

lemma no_start_after_seal:
  "line_run tr l \<Longrightarrow> tr = us @ Sealed # vs \<Longrightarrow> \<forall>j. Started j \<notin> set vs \<and> Submitted j \<notin> set vs"
proof (induction arbitrary: vs rule: line_run.induct)
  case (extend tr l ev l')
  show ?case
  proof (cases vs rule: rev_cases)
    case (snoc ws x)
    with extend.prems have "tr = us @ Sealed # ws" "x = ev" by simp_all
    moreover from this have "ln_sealed l" using sealed_stays[OF extend.hyps(1)] by simp
    ultimately show ?thesis using extend.IH extend.hyps(2) snoc by (auto elim!: line_stepE)
  qed simp
qed simp

section \<open>The promise chain\<close>

text \<open>
  A promise is an index of \<open>ch_promises\<close>. A reaction is registered on a promise with \<open>then\<close>, which makes the promise
  that the reaction settles: \<open>RunJob\<close> is the callback of \<open>run\<close> (it has a handler of fulfilment only, so a rejected
  promise rejects the derived one), \<open>Pass\<close> the pair of handlers that returns undefined in both cases.
  \<open>ch_running\<close> are the operations that a callback has called and that have not settled, each with the promise of
  its result; nothing in the state keeps them from being many.
\<close>

datatype promise = Pending | Fulfilled | Rejected

datatype 'j reaction = RunJob 'j nat | Pass nat

record 'j chain =
  ch_promises :: "promise list"
  ch_reactions :: "(nat \<times> 'j reaction) list"
  ch_running :: "('j \<times> nat) list"
  ch_tail :: nat
  ch_sealed :: bool

definition new_chain :: "'j chain" where
  "new_chain = \<lparr>ch_promises = [Fulfilled], ch_reactions = [], ch_running = [], ch_tail = 0, ch_sealed = False\<rparr>"

text \<open>\<open>promise.then(handlers)\<close>: the promise made, and the reaction registered.\<close>

definition then_react :: "nat \<Rightarrow> (nat \<Rightarrow> 'j reaction) \<Rightarrow> 'j chain \<Rightarrow> nat \<times> 'j chain" where
  "then_react p r c = (let made = length (ch_promises c) in
     (made, c\<lparr>ch_promises := ch_promises c @ [Pending], ch_reactions := ch_reactions c @ [(p, r made)]\<rparr>))"

text \<open>\<open>run\<close>: None when the line refuses.\<close>

definition chain_submit :: "'j \<Rightarrow> 'j chain \<Rightarrow> 'j chain option" where
  "chain_submit j c = (if ch_sealed c then None
     else let (result, c1) = then_react (ch_tail c) (RunJob j) c;
              (tail, c2) = then_react result Pass c1
          in Some (c2\<lparr>ch_tail := tail\<rparr>))"

definition chain_seal :: "'j chain \<Rightarrow> nat \<times> 'j chain" where
  "chain_seal c = (ch_tail c, c\<lparr>ch_sealed := True\<rparr>)"

definition settle_promise :: "nat \<Rightarrow> promise \<Rightarrow> 'j chain \<Rightarrow> 'j chain" where
  "settle_promise p v c = c\<lparr>ch_promises := (ch_promises c)[p := v]\<rparr>"

text \<open>The callback of a reaction, run with the value of the promise that it was registered on.\<close>

fun fire :: "promise \<Rightarrow> 'j reaction \<Rightarrow> 'j chain \<Rightarrow> 'j line_event option \<times> 'j chain" where
  "fire Rejected (RunJob j result) c = (Some (Dropped j), settle_promise result Rejected c)"
| "fire v (RunJob j result) c =
     (if ch_sealed c then (Some (Dropped j), settle_promise result Rejected c)
      else (Some (Started j), c\<lparr>ch_running := ch_running c @ [(j, result)]\<rparr>))"
| "fire v (Pass t) c = (None, settle_promise t Fulfilled c)"

text \<open>
  The steps: a call of \<open>run\<close> or of \<open>seal\<close>, any reaction whose promise is settled, and any running operation
  that settles, either way.
\<close>

inductive chain_step :: "'j chain \<Rightarrow> 'j line_event option \<Rightarrow> 'j chain \<Rightarrow> bool" where
  refuse: "chain_submit j c = None \<Longrightarrow> chain_step c (Some (Refused j)) c"
| submit: "chain_submit j c = Some c' \<Longrightarrow> chain_step c (Some (Submitted j)) c'"
| react: "ch_reactions c = before @ (p, r) # after \<Longrightarrow> ch_promises c ! p \<noteq> Pending \<Longrightarrow>
    fire (ch_promises c ! p) r (c\<lparr>ch_reactions := before @ after\<rparr>) = (ev, c') \<Longrightarrow> chain_step c ev c'"
| settle: "ch_running c = before @ (j, result) # after \<Longrightarrow> v \<noteq> Pending \<Longrightarrow>
    chain_step c (Some (Finished j)) (settle_promise result v (c\<lparr>ch_running := before @ after\<rparr>))"
| seal: "chain_seal c = (t, c') \<Longrightarrow> chain_step c (Some Sealed) c'"

inductive chain_run :: "'j line_event list \<Rightarrow> 'j chain \<Rightarrow> bool" where
  empty: "chain_run [] new_chain"
| extend: "chain_run tr c \<Longrightarrow> chain_step c ev c' \<Longrightarrow> chain_run (tr @ (case ev of None \<Rightarrow> [] | Some e \<Rightarrow> [e])) c'"

section \<open>The chain refines the queue\<close>

text \<open>The reactions of the jobs that wait behind the promise \<open>p\<close>.\<close>

fun links :: "nat \<Rightarrow> 'j list \<Rightarrow> (nat \<times> 'j reaction) list" where
  "links p [] = []"
| "links p (j # qs) = (p, RunJob j (p + 1)) # (p + 1, Pass (p + 2)) # links (p + 2) qs"

lemma links_append: "links p (qs @ [j]) =
    links p qs @ [(p + 2 * length qs, RunJob j (p + 2 * length qs + 1)), (p + 2 * length qs + 1, Pass (p + 2 * length qs + 2))]"
  by (induction qs arbitrary: p) auto

lemma links_promise: "(q, r) \<in> set (links p qs) \<Longrightarrow> q = p \<or> p < q"
  by (induction qs arbitrary: p) fastforce+

lemma links_bound: "(q, r) \<in> set (links p qs) \<Longrightarrow> q < p + 2 * length qs"
  by (induction qs arbitrary: p) fastforce+

lemma links_head: "links p qs = before @ (p, r) # after \<Longrightarrow>
    before = [] \<and> (\<exists>j qs'. qs = j # qs' \<and> r = RunJob j (p + 1) \<and> after = (p + 1, Pass (p + 2)) # links (p + 2) qs')"
proof (cases qs)
  case (Cons j qs')
  assume l: "links p qs = before @ (p, r) # after"
  show ?thesis
  proof (cases before)
    case Nil
    with l Cons show ?thesis by simp
  next
    case (Cons x xs)
    with l \<open>qs = j # qs'\<close> have e: "(p + 1, Pass (p + 2)) # links (p + 2) qs' = xs @ (p, r) # after" by simp
    have "(p, r) \<in> set ((p + 1, Pass (p + 2)) # links (p + 2) qs')" unfolding e by simp
    with links_promise[of p r "p + 2" qs'] show ?thesis by auto
  qed
qed simp

text \<open>
  Where the chain stands. The settled promises are followed by pending ones: the job in front waits (or there is
  none), runs, or has settled while its \<open>Pass\<close> is outstanding.
\<close>

inductive chain_of :: "'j line \<Rightarrow> 'j chain \<Rightarrow> bool" where
  waiting: "ps = settled @ Fulfilled # replicate (2 * length qs) Pending \<Longrightarrow> p = length settled \<Longrightarrow>
    chain_of \<lparr>ln_waiting = qs, ln_running = None, ln_sealed = z\<rparr>
      \<lparr>ch_promises = ps, ch_reactions = links p qs, ch_running = [], ch_tail = p + 2 * length qs, ch_sealed = z\<rparr>"
| running: "ps = settled @ replicate (2 + 2 * length qs) Pending \<Longrightarrow> p = length settled \<Longrightarrow>
    chain_of \<lparr>ln_waiting = qs, ln_running = Some j, ln_sealed = z\<rparr>
      \<lparr>ch_promises = ps, ch_reactions = (p, Pass (p + 1)) # links (p + 1) qs, ch_running = [(j, p)],
       ch_tail = p + 1 + 2 * length qs, ch_sealed = z\<rparr>"
| passing: "ps = settled @ v # replicate (1 + 2 * length qs) Pending \<Longrightarrow> p = length settled \<Longrightarrow> v \<noteq> Pending \<Longrightarrow>
    chain_of \<lparr>ln_waiting = qs, ln_running = None, ln_sealed = z\<rparr>
      \<lparr>ch_promises = ps, ch_reactions = (p, Pass (p + 1)) # links (p + 1) qs, ch_running = [],
       ch_tail = p + 1 + 2 * length qs, ch_sealed = z\<rparr>"


lemma chain_of_new: "chain_of new_line new_chain"
  using chain_of.waiting[of "[Fulfilled]" "[]" "[]" 0 False] by (simp add: new_line_def new_chain_def)

lemma chain_of_sealed: "chain_of l c \<Longrightarrow> ch_sealed c = ln_sealed l"
  by (erule chain_of.cases) simp_all

lemma chain_of_running: "chain_of l c \<Longrightarrow> map fst (ch_running c) = (case ln_running l of None \<Rightarrow> [] | Some j \<Rightarrow> [j])"
  by (erule chain_of.cases) simp_all

lemma replicate_two: "replicate n x @ [x, x] = replicate (n + 2) x"
  by (metis append_Cons append_Nil append_assoc replicate_add replicate_append_same numeral_2_eq_2 replicate_Suc replicate_0)

lemmas chain_ops = chain_submit_def then_react_def settle_promise_def Let_def nth_append list_update_append

lemma submit_refines:
  assumes "chain_of l c" and "chain_submit j c = Some c'"
  shows "\<not> ln_sealed l \<and> chain_of (l\<lparr>ln_waiting := ln_waiting l @ [j]\<rparr>) c'"
  using assms
proof cases
  case (waiting ps settled qs p z)
  have "chain_of \<lparr>ln_waiting = qs @ [j], ln_running = None, ln_sealed = z\<rparr>
      \<lparr>ch_promises = ps @ [Pending, Pending], ch_reactions = links p (qs @ [j]), ch_running = [],
       ch_tail = p + 2 * length (qs @ [j]), ch_sealed = z\<rparr>"
    by (rule chain_of.waiting[of _ settled]) (simp_all add: waiting replicate_two)
  with waiting assms(2) show ?thesis
    by (auto simp: chain_ops links_append split: if_splits)
next
  case (running ps settled qs p i z)
  have "chain_of \<lparr>ln_waiting = qs @ [j], ln_running = Some i, ln_sealed = z\<rparr>
      \<lparr>ch_promises = ps @ [Pending, Pending], ch_reactions = (p, Pass (p + 1)) # links (p + 1) (qs @ [j]),
       ch_running = [(i, p)], ch_tail = p + 1 + 2 * length (qs @ [j]), ch_sealed = z\<rparr>"
    by (rule chain_of.running[of _ settled]) (simp_all add: running replicate_two del: replicate_Suc)
  with running assms(2) show ?thesis
    by (auto simp: chain_ops links_append split: if_splits)
next
  case (passing ps settled v qs p z)
  have "chain_of \<lparr>ln_waiting = qs @ [j], ln_running = None, ln_sealed = z\<rparr>
      \<lparr>ch_promises = ps @ [Pending, Pending], ch_reactions = (p, Pass (p + 1)) # links (p + 1) (qs @ [j]),
       ch_running = [], ch_tail = p + 1 + 2 * length (qs @ [j]), ch_sealed = z\<rparr>"
    by (rule chain_of.passing[of _ settled v]) (simp_all add: passing replicate_two del: replicate_Suc)
  with passing assms(2) show ?thesis
    by (auto simp: chain_ops links_append split: if_splits)
qed

text \<open>A reaction can fire only in front of the chain.\<close>

lemma pending_behind:
  "ps = settled @ v # replicate n Pending \<Longrightarrow> length settled < q \<Longrightarrow> q \<le> length settled + n \<Longrightarrow> ps ! q = Pending"
  by (simp add: nth_append nth_Cons')

lemma waiting_react:
  assumes "links p qs = before @ (q, r) # after" and "ps ! q \<noteq> Pending"
    and "ps = settled @ Fulfilled # replicate (2 * length qs) Pending" and "p = length settled"
  shows "q = p \<and> before = [] \<and> (\<exists>j qs'. qs = j # qs' \<and> r = RunJob j (p + 1) \<and> after = (p + 1, Pass (p + 2)) # links (p + 2) qs')"
proof -
  have qr: "(q, r) \<in> set (links p qs)" using assms(1) by simp
  have "q = p"
  proof (rule ccontr)
    assume "q \<noteq> p"
    with links_promise[OF qr] links_bound[OF qr] pending_behind[OF assms(3)] assms(2,4) show False by simp
  qed
  with links_head[of p qs before r after] assms(1) show ?thesis by simp
qed

lemma passing_react:
  assumes "(p, Pass (p + 1)) # links (p + 1) qs = before @ (q, r) # after" and "ps ! q \<noteq> Pending"
    and "ps = settled @ v # replicate (1 + 2 * length qs) Pending" and "p = length settled"
  shows "v \<noteq> Pending \<and> q = p \<and> before = [] \<and> r = Pass (p + 1) \<and> after = links (p + 1) qs"
proof (cases before)
  case Nil
  with assms show ?thesis by auto
next
  case (Cons x xs)
  with assms(1) have qr: "(q, r) \<in> set (links (p + 1) qs)" by auto
  with links_promise[OF qr] links_bound[OF qr] pending_behind[OF assms(3), of q] assms(2,4) show ?thesis by auto
qed

lemma react_refines:
  assumes "chain_of l c" and "ch_reactions c = before @ (q, r) # after" and "ch_promises c ! q \<noteq> Pending"
    and "fire (ch_promises c ! q) r (c\<lparr>ch_reactions := before @ after\<rparr>) = (ev, c')"
  shows "case ev of None \<Rightarrow> chain_of l c' | Some e \<Rightarrow> \<exists>l'. line_step l e l' \<and> chain_of l' c'"
  using assms(1)
proof cases
  case (waiting ps settled qs p z)
  with waiting_react[of p qs before q r after ps settled] assms obtain j qs' where
    f: "q = p" "before = []" "qs = j # qs'" "r = RunJob j (p + 1)" "after = (p + 1, Pass (p + 2)) # links (p + 2) qs'"
    by auto
  let ?w = "\<lparr>ln_waiting = qs', ln_running = None, ln_sealed = z\<rparr>"
  have ps: "ps ! p = Fulfilled" using waiting by simp
  show ?thesis
  proof (cases z)
    case True
    have "chain_of ?w \<lparr>ch_promises = ps[p + 1 := Rejected], ch_reactions = (p + 1, Pass (p + 1 + 1)) # links (p + 1 + 1) qs',
        ch_running = [], ch_tail = p + 1 + 1 + 2 * length qs', ch_sealed = z\<rparr>"
      by (rule chain_of.passing[of _ "settled @ [Fulfilled]" Rejected])
        (simp_all add: waiting f list_update_append replicate_add)
    moreover have "line_step l (Dropped j) ?w" using waiting f True by (simp add: line_step_simps)
    ultimately show ?thesis using assms(4) waiting f True ps by (auto simp: settle_promise_def list_update_append)
  next
    case False
    let ?s = "\<lparr>ln_waiting = qs', ln_running = Some j, ln_sealed = z\<rparr>"
    have "chain_of ?s \<lparr>ch_promises = ps, ch_reactions = (p + 1, Pass (p + 1 + 1)) # links (p + 1 + 1) qs',
        ch_running = [(j, p + 1)], ch_tail = p + 1 + 1 + 2 * length qs', ch_sealed = z\<rparr>"
      by (rule chain_of.running[of _ "settled @ [Fulfilled]"]) (simp_all add: waiting f)
    moreover have "line_step l (Started j) ?s" using waiting f False by (simp add: line_step_simps)
    ultimately show ?thesis using assms(4) waiting f False ps by auto
  qed
next
  case (running ps settled qs p i z)
  have "(p, Pass (p + 1)) # links (p + 1) qs = before @ (q, r) # after" "ps ! q \<noteq> Pending"
    "ps = settled @ Pending # replicate (1 + 2 * length qs) Pending"
    using assms(2,3) running by simp_all
  from passing_react[OF this] running show ?thesis by blast
next
  case (passing ps settled v qs p z)
  have "(p, Pass (p + 1)) # links (p + 1) qs = before @ (q, r) # after" "ps ! q \<noteq> Pending"
    "ps = settled @ v # replicate (1 + 2 * length qs) Pending"
    using assms(2,3) passing by simp_all
  from passing_react[OF this] passing have
    f: "q = p" "before = []" "r = Pass (p + 1)" "after = links (p + 1) qs" by blast+
  have ps: "ps ! p = v" using passing by simp
  have "chain_of \<lparr>ln_waiting = qs, ln_running = None, ln_sealed = z\<rparr>
      \<lparr>ch_promises = ps[p + 1 := Fulfilled], ch_reactions = links (p + 1) qs, ch_running = [],
       ch_tail = p + 1 + 2 * length qs, ch_sealed = z\<rparr>"
    by (rule chain_of.waiting[of _ "settled @ [v]"]) (simp_all add: passing list_update_append)
  with assms(4) passing f ps show ?thesis by (cases v) (auto simp: settle_promise_def list_update_append)
qed

lemma settle_refines:
  assumes "chain_of l c" and "ch_running c = before @ (j, result) # after" and "v \<noteq> Pending"
  shows "\<exists>l'. line_step l (Finished j) l' \<and>
    chain_of l' (settle_promise result v (c\<lparr>ch_running := before @ after\<rparr>))"
  using assms(1)
proof cases
  case (running ps settled qs p i z)
  with assms(2) have f: "before = []" "after = []" "i = j" "result = p"
    by (auto simp: Cons_eq_append_conv)
  have "chain_of \<lparr>ln_waiting = qs, ln_running = None, ln_sealed = z\<rparr>
      \<lparr>ch_promises = ps[p := v], ch_reactions = (p, Pass (p + 1)) # links (p + 1) qs, ch_running = [],
       ch_tail = p + 1 + 2 * length qs, ch_sealed = z\<rparr>"
    by (rule chain_of.passing[of _ settled v]) (simp_all add: running assms(3) list_update_append)
  moreover have "line_step l (Finished j) \<lparr>ln_waiting = qs, ln_running = None, ln_sealed = z\<rparr>"
    using running f line_step.finish[of l j] by simp
  ultimately show ?thesis using running f by (auto simp: settle_promise_def)
qed (use assms(2) in simp_all)

lemma seal_refines: "chain_of l c \<Longrightarrow> chain_of (l\<lparr>ln_sealed := True\<rparr>) (c\<lparr>ch_sealed := True\<rparr>)"
proof (induction rule: chain_of.induct)
  case (waiting ps settled qs p z)
  then show ?case using chain_of.waiting[OF waiting, of True] by simp
next
  case (running ps settled qs p j z)
  then show ?case using chain_of.running[OF running, of j True] by simp
next
  case (passing ps settled v qs p z)
  then show ?case using chain_of.passing[OF passing, of True] by simp
qed

text \<open>Every step of the chain is a step of the queue, or none.\<close>

lemma chain_refines:
  assumes "chain_of l c" and "chain_step c ev c'"
  shows "case ev of None \<Rightarrow> chain_of l c' | Some e \<Rightarrow> \<exists>l'. line_step l e l' \<and> chain_of l' c'"
  using assms(2)
proof cases
  case (refuse j)
  then have "ln_sealed l" using chain_of_sealed[OF assms(1)] by (auto simp: chain_ops split: if_splits)
  with refuse assms(1) show ?thesis by (auto simp: line_step_simps)
next
  case (submit j)
  with submit_refines[OF assms(1)] show ?thesis by (auto simp: line_step_simps)
next
  case (react before q r after)
  with react_refines[OF assms(1)] show ?thesis by blast
next
  case (settle before j result after v)
  with settle_refines[OF assms(1)] show ?thesis by simp
next
  case (seal t)
  with seal_refines[OF assms(1)] show ?thesis by (auto simp: chain_seal_def line_step_simps)
qed

lemma chain_run_refines: "chain_run tr c \<Longrightarrow> \<exists>l. line_run tr l \<and> chain_of l c"
proof (induction rule: chain_run.induct)
  case empty
  then show ?case using line_run.empty chain_of_new by blast
next
  case (extend tr c ev c')
  then obtain l where l: "line_run tr l" "chain_of l c" by blast
  with chain_refines[OF l(2) extend.hyps(2)] show ?case
    by (cases ev) (auto intro: line_run.extend)
qed

text \<open>
  The tail settles when every job submitted has been taken and has settled, and until then a reaction can fire
  or an operation runs.
\<close>

lemma tail_settled:
  "chain_of l c \<Longrightarrow> ch_promises c ! ch_tail c \<noteq> Pending \<longleftrightarrow> ln_waiting l = [] \<and> ch_running c = [] \<and> ch_reactions c = []"
  by (erule chain_of.cases) (auto simp: nth_append nth_Cons' elim: links.elims)

definition internal :: "'j line_event option \<Rightarrow> bool" where
  "internal ev = (case ev of None \<Rightarrow> True | Some (Started _) \<Rightarrow> True | Some (Dropped _) \<Rightarrow> True
     | Some (Finished _) \<Rightarrow> True | _ \<Rightarrow> False)"

lemma chain_progress:
  assumes "chain_of l c" and "ch_promises c ! ch_tail c = Pending"
  shows "\<exists>ev c'. internal ev \<and> chain_step c ev c'"
  using assms(1)
proof cases
  case (waiting ps settled qs p z)
  with assms(2) obtain j qs' where "qs = j # qs'" by (cases qs) auto
  obtain ev c' where f: "fire Fulfilled (RunJob j (p + 1)) (c\<lparr>ch_reactions := [] @ (p + 1, Pass (p + 2)) # links (p + 2) qs'\<rparr>) = (ev, c')"
    by fastforce
  have "ch_promises c ! p = Fulfilled" using waiting by simp
  with f waiting \<open>qs = j # qs'\<close> chain_step.react[of c "[]" p "RunJob j (p + 1)" "(p + 1, Pass (p + 2)) # links (p + 2) qs'" ev c']
  have "chain_step c ev c'" by simp
  moreover have "internal ev" using f by (auto simp: internal_def split: if_splits)
  ultimately show ?thesis by blast
next
  case (running ps settled qs p j z)
  then have "chain_step c (Some (Finished j)) (settle_promise p Fulfilled (c\<lparr>ch_running := [] @ []\<rparr>))"
    by (intro chain_step.settle) simp_all
  then show ?thesis by (intro exI conjI) (simp_all add: internal_def)
next
  case (passing ps settled v qs p z)
  then have "fire (ch_promises c ! p) (Pass (p + 1)) (c\<lparr>ch_reactions := [] @ links (p + 1) qs\<rparr>) =
      (None, settle_promise (p + 1) Fulfilled (c\<lparr>ch_reactions := [] @ links (p + 1) qs\<rparr>))"
    by (cases v) simp_all
  from chain_step.react[OF _ _ this] passing show ?thesis by (intro exI conjI) (simp_all add: internal_def)
qed

definition chain_rest :: "'j chain \<Rightarrow> nat" where
  "chain_rest c = 2 * length (ch_reactions c) + length (ch_running c)"

lemma chain_decreases:
  assumes "chain_step c ev c'" and "internal ev"
  shows "chain_rest c' < chain_rest c"
  using assms
proof cases
  case (react before q r after)
  then show ?thesis
    by (cases "(ch_promises c ! q, r, c\<lparr>ch_reactions := before @ after\<rparr>)" rule: fire.cases)
      (auto simp: chain_rest_def settle_promise_def split: if_splits)
qed (auto simp: chain_rest_def settle_promise_def internal_def)

lemma dropped_sealed: "line_run tr l \<Longrightarrow> tr = us @ Dropped j # vs \<Longrightarrow> Sealed \<in> set us"
proof (induction arbitrary: vs rule: line_run.induct)
  case (extend tr l ev l')
  show ?case
  proof (cases vs rule: rev_cases)
    case Nil
    with extend.prems have "tr = us" "ev = Dropped j" by simp_all
    moreover have "ln_sealed l \<longleftrightarrow> Sealed \<in> set tr" using extend.hyps(1)
      by (induction rule: line_run.induct) (auto simp: new_line_def elim!: line_stepE)
    ultimately show ?thesis using extend.hyps(2) by (auto elim!: line_stepE)
  qed (use extend in auto)
qed simp

text \<open>
  C23. The mutation line serialises: in every run of the promise chain, whatever order its reactions fire in,
  jobs are taken in the order of their submission, at most one operation is running and a job starts only after
  the one before it has settled, once the line is sealed no job is submitted or started any more, and only then
  one is dropped - a job that fails does not keep the next from running. The tail, which \<open>seal\<close> returns, is settled
  only when every submitted job has been taken and has settled; while it is pending the line can move by itself, and
  every such move decreases the measure of what is outstanding, so a line that is left alone settles.
\<close>
theorem mutation_line_serialises:
  assumes "chain_run tr c"
  shows "prefix (taken tr) (submissions tr) \<and> length (ch_running c) \<le> 1 \<and>
    (\<exists>done_jobs. activity tr = concat (map (\<lambda>j. [(j, True), (j, False)]) done_jobs) @ map (\<lambda>(j, _). (j, True)) (ch_running c)) \<and>
    (\<forall>us vs. tr = us @ Sealed # vs \<longrightarrow> (\<forall>j. Started j \<notin> set vs \<and> Submitted j \<notin> set vs)) \<and>
    (\<forall>us j vs. tr = us @ Dropped j # vs \<longrightarrow> Sealed \<in> set us) \<and>
    (ch_promises c ! ch_tail c \<noteq> Pending \<longrightarrow> taken tr = submissions tr \<and> ch_running c = []) \<and>
    (ch_promises c ! ch_tail c = Pending \<longrightarrow> (\<exists>ev c'. internal ev \<and> chain_step c ev c')) \<and>
    (\<forall>ev c'. chain_step c ev c' \<longrightarrow> internal ev \<longrightarrow> chain_rest c' < chain_rest c)"
proof -
  obtain l where l: "line_run tr l" "chain_of l c" using chain_run_refines[OF assms] by blast
  have run: "map (\<lambda>(j, _). (j, True)) (ch_running c) = (case ln_running l of None \<Rightarrow> [] | Some j \<Rightarrow> [(j, True)])"
    and one: "length (ch_running c) \<le> 1"
    using l(2) by (auto elim!: chain_of.cases)
  have "prefix (taken tr) (submissions tr)" using line_fifo[OF l(1)] by (simp add: prefix_def)
  moreover note one
  moreover have "\<exists>done_jobs. activity tr = concat (map (\<lambda>j. [(j, True), (j, False)]) done_jobs) @ map (\<lambda>(j, _). (j, True)) (ch_running c)"
    using line_alternates[OF l(1)] unfolding run .
  moreover have "\<forall>us vs. tr = us @ Sealed # vs \<longrightarrow> (\<forall>j. Started j \<notin> set vs \<and> Submitted j \<notin> set vs)"
    using no_start_after_seal[OF l(1)] by blast
  moreover have "\<forall>us j vs. tr = us @ Dropped j # vs \<longrightarrow> Sealed \<in> set us" using dropped_sealed[OF l(1)] by blast
  moreover have "ch_promises c ! ch_tail c \<noteq> Pending \<longrightarrow> taken tr = submissions tr \<and> ch_running c = []"
    using tail_settled[OF l(2)] line_fifo[OF l(1)] by simp
  moreover have "ch_promises c ! ch_tail c = Pending \<longrightarrow> (\<exists>ev c'. internal ev \<and> chain_step c ev c')"
    using chain_progress[OF l(2)] by blast
  moreover have "\<forall>ev c'. chain_step c ev c' \<longrightarrow> internal ev \<longrightarrow> chain_rest c' < chain_rest c"
    using chain_decreases by blast
  ultimately show ?thesis by blast
qed

text \<open>A line of two jobs that is sealed while the first one runs: the first one fails, the second is dropped.\<close>

definition sample_submits :: "nat chain" where
  "sample_submits = the (chain_submit 2 (the (chain_submit 1 new_chain)))"

definition sample_started :: "nat chain" where
  "sample_started = snd (fire Fulfilled (RunJob 1 1) (sample_submits\<lparr>ch_reactions := tl (ch_reactions sample_submits)\<rparr>))"

definition sample_settled :: "nat chain" where
  "sample_settled = settle_promise 1 Rejected ((snd (chain_seal sample_started))\<lparr>ch_running := []\<rparr>)"

definition sample_passed :: "nat chain" where
  "sample_passed = snd (fire Rejected (Pass 2) (sample_settled\<lparr>ch_reactions := tl (ch_reactions sample_settled)\<rparr>))"

definition sample_dropped :: "nat chain" where
  "sample_dropped = snd (fire Fulfilled (RunJob 2 3) (sample_passed\<lparr>ch_reactions := tl (ch_reactions sample_passed)\<rparr>))"

lemmas sample_defs = sample_dropped_def sample_passed_def sample_settled_def sample_started_def sample_submits_def
  chain_seal_def chain_ops new_chain_def

lemma sample_chain:
  "chain_run [Submitted 1, Submitted 2, Started 1, Sealed, Finished 1, Dropped 2] sample_dropped"
proof -
  have 1: "chain_run [Submitted (1 :: nat)] (the (chain_submit 1 new_chain))"
    using chain_run.extend[OF chain_run.empty chain_step.submit[of "1 :: nat" new_chain]] by (simp add: chain_ops new_chain_def)
  have 2: "chain_run [Submitted 1, Submitted 2] sample_submits"
    using chain_run.extend[OF 1 chain_step.submit[of 2]] by (simp add: sample_defs)
  have 3: "chain_run [Submitted 1, Submitted 2, Started 1] sample_started"
    using chain_run.extend[OF 2 chain_step.react[of _ "[]" 0 "RunJob 1 1" "tl (ch_reactions sample_submits)" "Some (Started 1)"]]
    by (simp add: sample_defs)
  have 4: "chain_run [Submitted 1, Submitted 2, Started 1, Sealed] (snd (chain_seal sample_started))"
    using chain_run.extend[OF 3 chain_step.seal] by (simp add: chain_seal_def)
  have 5: "chain_run [Submitted 1, Submitted 2, Started 1, Sealed, Finished 1] sample_settled"
    using chain_run.extend[OF 4 chain_step.settle[of _ "[]" 1 1 "[]" Rejected]] by (simp add: sample_defs)
  have 6: "chain_run [Submitted 1, Submitted 2, Started 1, Sealed, Finished 1] sample_passed"
    using chain_run.extend[OF 5 chain_step.react[of _ "[]" 1 "Pass 2" "tl (ch_reactions sample_settled)" None]]
    by (simp add: sample_defs)
  show ?thesis
    using chain_run.extend[OF 6 chain_step.react[of _ "[]" 2 "RunJob 2 3" "tl (ch_reactions sample_passed)" "Some (Dropped 2)"]]
    by (simp add: sample_defs)
qed

theorem mutation_line_serialises_witness:
  "prefix (taken [Submitted 1, Submitted 2, Started 1, Sealed, Finished 1, Dropped (2 :: nat)]) [1, 2] \<and>
   length (ch_running sample_dropped) \<le> 1"
  using mutation_line_serialises[OF sample_chain] by simp

section \<open>The mutation capability\<close>

text \<open>The calls that a holder of the capability can make, and the commits that reach the storage.\<close>

datatype 'c call = CallCommit "'c session_write list" int | CallRead | CallEnd

fun run_calls :: "('s, 'c) storage_api \<Rightarrow> 'c call list \<Rightarrow> mutation \<Rightarrow> 's \<Rightarrow> mutation \<times> 's" where
  "run_calls st [] m s = (m, s)"
| "run_calls st (CallCommit ws now # cs) m s =
     (case mutation_commit st m s ws now of (r, m', s') \<Rightarrow> run_calls st cs m' s')"
| "run_calls st (CallRead # cs) m s = run_calls st cs m s"
| "run_calls st (CallEnd # cs) m s = run_calls st cs (mutation_end m) s"

lemma run_spent: "\<not> mu_active m \<or> mu_attempted m \<Longrightarrow> snd (run_calls st cs m s) = s"
  by (induction st cs m s rule: run_calls.induct) (auto simp: mutation_commit_def mutation_end_def)

fun first_attempt :: "'c call list \<Rightarrow> ('c session_write list \<times> int) option" where
  "first_attempt [] = None"
| "first_attempt (CallCommit ws now # cs) = Some (ws, now)"
| "first_attempt (CallRead # cs) = first_attempt cs"
| "first_attempt (CallEnd # cs) = None"

text \<open>
  A mutation reaches the storage at most once: whatever calls its holder makes, the storage is left as
  the first commit call before \<open>end\<close> leaves it; a commit with a pending assistant message, a second commit
  and every commit after \<open>end\<close> do nothing to it.
\<close>
theorem mutation_commits_once:
  "snd (run_calls st cs new_mutation s) =
     (case first_attempt cs of
        None \<Rightarrow> s
      | Some (ws, now) \<Rightarrow> if list_ex pending_write ws then s else snd (api_commit st s ws now))"
proof (induction cs)
  case (Cons c cs)
  show ?case
  proof (cases c)
    case (CallCommit ws now)
    obtain r m s' where mc: "mutation_commit st new_mutation s ws now = (r, m, s')"
      by (cases "mutation_commit st new_mutation s ws now") auto
    then have "mu_attempted m" "s' = (if list_ex pending_write ws then s else snd (api_commit st s ws now))"
      by (auto simp: mutation_commit_def new_mutation_def split: if_splits prod.splits sum.splits)
    with run_spent[of m st cs s'] show ?thesis by (simp add: CallCommit mc)
  next
    case CallRead
    with Cons show ?thesis by simp
  next
    case CallEnd
    then show ?thesis by (simp add: run_spent mutation_end_def)
  qed
qed simp

end
