(* ===== verification/ForkSnapshot.thy ===== *)
theory ForkSnapshot
  imports SessionReach
begin

text \<open>
  \<open>createForkSnapshot\<close> (\<open>packages/agent/src/harness/session/fork.ts\<close>), the fork of backends that hand over
  a snapshot of entries and values, and its agreement with the fork of the in-memory state.
\<close>

record fork_source =
  fs_entries :: "session_entry list"
  fs_scalarValues :: "stored_value list"
  fs_entriesComplete :: bool

record fork_destination =
  fd_entries :: "(jstr \<times> session_entry) list"
  fd_scalarValues :: "stored_value list"
  fd_nextSeq :: int

datatype snapshot_error =
    MissingBranchTip jstr
  | IncompleteLane jstr
  | SnapshotLane jstr
  | UnknownTip jstr
  | ForkError session_error

text \<open>\<open>new Map(entries.map(...))\<close>: a later entry with the same id replaces the earlier one in place.\<close>

definition entry_map :: "session_entry list \<Rightarrow> (jstr \<times> session_entry) list" where
  "entry_map es = fold (\<lambda>e m. AList.update (entry_id e) e m) es []"

definition storedValuesInNamespace :: "stored_value list \<Rightarrow> jstr \<Rightarrow> stored_value list" where
  "storedValuesInNamespace vs ns = filter (\<lambda>v. ad_namespace (stored_address v) = ns) vs"

definition findStoredValue :: "stored_value list \<Rightarrow> jstr \<Rightarrow> jstr \<Rightarrow> stored_value option" where
  "findStoredValue vs ns k =
     List.find (\<lambda>v. ad_namespace (stored_address v) = ns \<and> ad_key (stored_address v) = k) vs"

fun for_branch :: "fork_options \<Rightarrow> jstr \<Rightarrow> bool" where
  "for_branch ForkTree k = False"
| "for_branch (ForkBranch b i before) k = (k = b)"

definition check_tip ::
    "fork_source \<Rightarrow> (jstr \<times> session_entry) list \<Rightarrow> fork_options \<Rightarrow> stored_value \<Rightarrow> snapshot_error + unit" where
  "check_tip src es opts tip =
     (let k = ad_key (stored_address tip);
          configuration = findStoredValue (fs_scalarValues src) (js ''pi.lane.config'') k;
          state = findStoredValue (fs_scalarValues src) (js ''pi.lane.state'') k
      in bindE (guardE ((configuration = None) = (state = None)) (IncompleteLane k)) (\<lambda>_.
         bindE (guardE (\<not> (for_branch opts k \<and> configuration = None)) (SnapshotLane k)) (\<lambda>_.
         guardE (\<not> ((fs_entriesComplete src \<or> opts = ForkTree) \<and> stored_json tip \<noteq> JNull \<and>
                    (case stored_json tip of JStr i \<Rightarrow> map_of es i = None | _ \<Rightarrow> True))) (UnknownTip k))))"

definition validateForkSourceSnapshot ::
    "fork_source \<Rightarrow> (jstr \<times> session_entry) list \<Rightarrow> stored_value list \<Rightarrow> fork_options \<Rightarrow> snapshot_error + unit" where
  "validateForkSourceSnapshot src es tips opts =
     bindE (foldE (\<lambda>_ v.
        guardE (\<not> ((ad_namespace (stored_address v) = js ''pi.lane.config'' \<or>
                    ad_namespace (stored_address v) = js ''pi.lane.state'') \<and>
                   ad_key (stored_address v) \<notin> ad_key ` stored_address ` set tips))
          (MissingBranchTip (ad_key (stored_address v)))) () (fs_scalarValues src))
     (\<lambda>_. foldE (\<lambda>_ tip. check_tip src es opts tip) () tips)"

definition selectForkContents ::
    "(jstr \<times> session_entry) list \<Rightarrow> stored_value list \<Rightarrow> fork_options \<Rightarrow> (session_error + fork_plan \<times> jstr list) option" where
  "selectForkContents es tips opts =
     (case opts of
        ForkTree \<Rightarrow> Some (Inr (TreePlan, map fst es))
      | ForkBranch b entryId before \<Rightarrow>
          (case (case List.find (\<lambda>v. ad_key (stored_address v) = b) tips of
                   None \<Rightarrow> Inr None | Some v \<Rightarrow> bindE (tip_value (stored_json v)) (\<lambda>t. Inr (Some t))) of
             Inl e \<Rightarrow> Some (Inl e)
           | Inr tip \<Rightarrow>
               selectBranchFork (Suc (length es)) b entryId before tip (\<lambda>i. map_option entry_parentId (map_of es i))))"

text \<open>One value of the loop over the stored values: kept values take the next sequence.\<close>

definition snapshot_value ::
    "fork_plan \<Rightarrow> jstr list \<Rightarrow> stored_value list \<times> int \<Rightarrow> stored_value \<Rightarrow> session_error + stored_value list \<times> int" where
  "snapshot_value plan ids acc v =
     bindE (project_value plan (\<lambda>i. i \<in> set ids) (ad_namespace (stored_address v)) (ad_key (stored_address v)) (stored_json v))
       (\<lambda>r. case r of
              None \<Rightarrow> Inr acc
            | Some j \<Rightarrow>
                (case value_address (ad_namespace (stored_address v)) (ad_key (stored_address v)) of
                   Inl e \<Rightarrow> Inl (BadAddress e)
                 | Inr a \<Rightarrow> Inr (fst acc @ [\<lparr>stored_address = a, stored_json = j, stored_seq = snd acc\<rparr>], snd acc + 1)))"

definition createForkSnapshot :: "fork_source \<Rightarrow> fork_options \<Rightarrow> (snapshot_error + fork_destination) option" where
  "createForkSnapshot src opts =
     (let es = entry_map (fs_entries src);
          tips = storedValuesInNamespace (fs_scalarValues src) (js ''pi.branch.tip'')
      in case validateForkSourceSnapshot src es tips opts of
           Inl e \<Rightarrow> Some (Inl e)
         | Inr _ \<Rightarrow>
             map_option (\<lambda>r. case r of
                 Inl e \<Rightarrow> Inl (ForkError e)
               | Inr (plan, ids) \<Rightarrow>
                   let kept = map (\<lambda>i. (i, the (map_of es i))) ids;
                       next = foldr max (map (\<lambda>(i, e). entry_seq e) kept) 0 + 1
                   in (case foldE (snapshot_value plan ids) ([], next) (fs_scalarValues src) of
                         Inl e \<Rightarrow> Inl (ForkError e)
                       | Inr (vs, q) \<Rightarrow> Inr \<lparr>fd_entries = kept, fd_scalarValues = vs, fd_nextSeq = q\<rparr>))
               (selectForkContents es tips opts))"

text \<open>The snapshot that a storage hands over.\<close>

definition snapshot_of :: "'c session_state \<Rightarrow> fork_source" where
  "snapshot_of s =
     \<lparr>fs_entries = ss_entriesBySeq s, fs_scalarValues = map snd (ss_scalarValues s), fs_entriesComplete = True\<rparr>"

section \<open>Agreement with the fork of the in-memory state\<close>

lemma entry_map_fold:
  "distinct (map entry_id es) \<Longrightarrow> entry_id ` set es \<inter> fst ` set m = {} \<Longrightarrow>
     fold (\<lambda>e m. AList.update (entry_id e) e m) es m = m @ map (\<lambda>e. (entry_id e, e)) es"
proof (induction es arbitrary: m)
  case (Cons e es)
  then have "map_of m (entry_id e) = None" by (auto simp: map_of_eq_None_iff)
  with Cons show ?case by (auto simp: update_new)
qed simp

lemma entry_map_state:
  assumes "session_inv s"
  shows "entry_map (ss_entriesBySeq s) = ss_entries s"
proof -
  have tab: "seq_table entry_id entry_seq (ss_nextSeq s) (ss_entries s)" by (rule session_table[OF assms])
  have bs: "ss_entriesBySeq s = map snd (ss_entries s)"
    using assms by (simp add: session_inv_def entries_inv_def)
  have keys: "\<forall>(k, e) \<in> set (ss_entries s). k = entry_id e" using tab by (simp add: seq_table_def)
  have ids: "map entry_id (map snd es) = map fst es" "map (\<lambda>e. (entry_id e, e)) (map snd es) = es"
    if "\<forall>(k, e) \<in> set es. k = entry_id e" for es
    using that by (induction es) auto
  have "distinct (map entry_id (ss_entriesBySeq s))"
    unfolding bs ids(1)[OF keys] using tab by (simp add: seq_table_def)
  from entry_map_fold[OF this, of "[]"] ids(2)[OF keys] show ?thesis by (simp add: entry_map_def bs)
qed

text \<open>A stored value is found in the list of values exactly when it is stored at its address.\<close>

lemma find_value:
  assumes "session_inv s" "valid_address ns k"
  shows "findStoredValue (map snd (ss_scalarValues s)) ns k = getValue s \<lparr>ad_namespace = ns, ad_key = k, ad_kind = kd\<rparr>"
proof -
  have d: "distinct (map fst (ss_scalarValues s))"
    and ok: "\<forall>(p, v) \<in> set (ss_scalarValues s). p = physicalKey (ad_namespace (stored_address v)) (ad_key (stored_address v)) \<and>
      valid_address (ad_namespace (stored_address v)) (ad_key (stored_address v))"
    using assms(1) by (auto simp: session_inv_def values_inv_def)
  have "List.find (\<lambda>v. ad_namespace (stored_address v) = ns \<and> ad_key (stored_address v) = k) (map snd al) =
      map_of al (physicalKey ns k)"
    if "\<forall>(p, v) \<in> set al. p = physicalKey (ad_namespace (stored_address v)) (ad_key (stored_address v)) \<and>
      valid_address (ad_namespace (stored_address v)) (ad_key (stored_address v))" for al
    using that
  proof (induction al)
    case (Cons pv al)
    obtain p v where pv: "pv = (p, v)" by (cases pv)
    with Cons.prems have "p = physicalKey (ad_namespace (stored_address v)) (ad_key (stored_address v))"
      "valid_address (ad_namespace (stored_address v)) (ad_key (stored_address v))" by auto
    with physicalKey_inj[OF assms(2) this(2)] Cons pv show ?case by auto
  qed simp
  from this[OF ok] show ?thesis by (simp add: findStoredValue_def getValue_def)
qed

lemma find_filter: "List.find P (filter Q xs) = List.find (\<lambda>x. Q x \<and> P x) xs"
  by (induction xs) auto

text \<open>Both select the same plan and the same ids.\<close>

lemma selection_agrees:
  assumes "session_inv s" "selectForkPlan s opts = Some (Inr (plan, ids))"
    and "selectForkContents (ss_entries s)
      (storedValuesInNamespace (map snd (ss_scalarValues s)) (js ''pi.branch.tip'')) opts = Some (Inr (plan', ids'))"
  shows "plan' = plan \<and> (\<forall>i e. getEntry s i = Some e \<longrightarrow> is_copied plan ids i = (i \<in> set ids')) \<and>
    (\<forall>i \<in> set ids'. getEntry s i \<noteq> None)"
proof (cases opts)
  case ForkTree
  with assms(2,3) have "plan' = plan" "ids' = map fst (ss_entries s)" "is_copied plan ids = (\<lambda>_. True)"
    by (auto simp: selectForkPlan_def selectForkContents_def is_copied_def fun_eq_iff)
  moreover have "getEntry s i \<noteq> None \<longleftrightarrow> i \<in> fst ` set (ss_entries s)" for i
    by (simp add: getEntry_def map_of_eq_None_iff)
  ultimately show ?thesis by auto
next
  case (ForkBranch b entryId before)
  from selectForkPlan_branch[OF assms(1), of b entryId before] assms(2) ForkBranch obtain v tip dest where
    v: "getValue s (address_of ''pi.branch.tip'' b) = Some v" "stored_json v = tip_json tip" "plan = BranchPlan b dest"
    and valid: "valid_address (js ''pi.lane.config'') b" and sel: "branch_selection s entryId before tip dest ids"
    by auto
  have stored: "\<forall>i \<in> set ids. getEntry s i \<noteq> None"
  proof (cases dest)
    case None
    then show ?thesis using sel by (simp add: branch_selection_def Let_def)
  next
    case (Some i)
    then have "path_ids s i ids" using sel by (simp add: branch_selection_def Let_def)
    then show ?thesis using path_stored[OF assms(1)] unfolding path_ids_def by blast
  qed
  have vt: "valid_address (js ''pi.branch.tip'') b" using valid by (auto simp: valid_address_def js_def)
  have found: "List.find (\<lambda>v. ad_key (stored_address v) = b)
      (storedValuesInNamespace (map snd (ss_scalarValues s)) (js ''pi.branch.tip'')) = Some v"
    using find_value[OF assms(1) vt, of ValueKind] v(1)
    by (simp add: storedValuesInNamespace_def find_filter findStoredValue_def)
  have tv: "tip_value (stored_json v) = Inr tip" using v(2) by (simp add: tip_value_eq)
  have pf: "(\<lambda>i. map_option entry_parentId (map_of (ss_entries s) i)) = parent_of s"
    by (simp add: fun_eq_iff parent_of_def getEntry_def)
  have sel': "selectBranchFork (Suc (length (ss_entries s))) b entryId before (Some tip) (parent_of s) = Some (Inr (plan', ids'))"
    using assms(3) by (simp add: ForkBranch selectForkContents_def found tv pf)
  have at: "stored_at s ''pi.branch.tip'' b = Inr (Some v)" using v(1) vt by (simp add: stored_at_eq)
  have "plan' = plan \<and> ids' = ids"
    using assms(2) by (auto simp: ForkBranch selectForkPlan_def at tv sel' bindE_eq_Inr split: if_splits)
  with v(3) stored show ?thesis by (simp add: is_copied_def)
qed

definition value_table :: "stored_value list \<Rightarrow> ((jstr \<times> jstr) \<times> json) list" where
  "value_table vs = map (\<lambda>v. ((ad_namespace (stored_address v), ad_key (stored_address v)), stored_json v)) vs"

fun projected_table :: "fork_plan \<Rightarrow> (jstr \<Rightarrow> bool) \<Rightarrow> stored_value list \<Rightarrow> ((jstr \<times> jstr) \<times> json) list" where
  "projected_table plan copied [] = []"
| "projected_table plan copied (v # vs) =
     (case project_value plan copied (ad_namespace (stored_address v)) (ad_key (stored_address v)) (stored_json v) of
        Inr (Some j) \<Rightarrow> ((ad_namespace (stored_address v), ad_key (stored_address v)), j) # projected_table plan copied vs
      | _ \<Rightarrow> projected_table plan copied vs)"

lemma snapshot_values:
  "foldE (snapshot_value plan ids) (acc, q) vs = Inr (acc', q') \<Longrightarrow>
     value_table acc' = value_table acc @ projected_table plan (\<lambda>i. i \<in> set ids) vs"
proof (induction vs arbitrary: acc q)
  case (Cons v vs)
  from Cons.prems obtain acc1 q1 where step: "snapshot_value plan ids (acc, q) v = Inr (acc1, q1)"
    "foldE (snapshot_value plan ids) (acc1, q1) vs = Inr (acc', q')"
    by (auto simp: bindE_eq_Inr)
  then obtain r where r: "project_value plan (\<lambda>i. i \<in> set ids) (ad_namespace (stored_address v)) (ad_key (stored_address v)) (stored_json v) = Inr r"
    by (auto simp: snapshot_value_def bindE_eq_Inr)
  show ?case
  proof (cases r)
    case None
    with r step(1) have "acc1 = acc" by (simp add: snapshot_value_def)
    with Cons.IH[OF step(2)] r None show ?thesis by simp
  next
    case (Some j)
    with r step(1) obtain a where "value_address (ad_namespace (stored_address v)) (ad_key (stored_address v)) = Inr a"
      "acc1 = acc @ [\<lparr>stored_address = a, stored_json = j, stored_seq = q\<rparr>]"
      by (auto simp: snapshot_value_def split: sum.splits)
    then have "value_table acc1 = value_table acc @ [((ad_namespace (stored_address v), ad_key (stored_address v)), j)]"
      by (simp add: value_table_def value_address_iff)
    with Cons.IH[OF step(2)] r Some show ?thesis by simp
  qed
qed simp

lemma project_copied_cong:
  "(ns = js ''pi.entry.label'' \<Longrightarrow> copied k = copied' k) \<Longrightarrow> project_value plan copied ns k v = project_value plan copied' ns k v"
  by (auto simp: project_value_def Let_def)

lemma foldE_succeeds:
  assumes "\<And>t x. x \<in> set xs \<Longrightarrow> (\<exists>t'. f t x = Inr t') \<longleftrightarrow> P x"
  shows "(\<exists>t'. foldE f t xs = Inr t') \<longleftrightarrow> (\<forall>x \<in> set xs. P x)"
  using assms
proof (induction xs arbitrary: t)
  case (Cons x xs)
  have "(\<exists>t'. foldE f u xs = Inr t') \<longleftrightarrow> (\<forall>x \<in> set xs. P x)" for u by (rule Cons.IH) (use Cons.prems in auto)
  moreover have "(\<exists>t'. f t x = Inr t') \<longleftrightarrow> P x" by (rule Cons.prems) simp
  ultimately show ?case by (auto simp: bindE_eq_Inr)
qed simp

text \<open>The namespaces whose values make a fork fail: those under \<open>pi\<close> that no case of the projection names.\<close>

definition unknown_reserved :: "jstr \<Rightarrow> bool" where
  "unknown_reserved ns \<longleftrightarrow> (ns = js ''pi'' \<or> startsWith ns (js ''pi.'')) \<and>
     ns \<notin> {js ''pi.session.name'', js ''pi.entry.label'', js ''pi.branch.tip'', js ''pi.lane.config'', js ''pi.lane.state'',
       js ''pi.result''} \<and> \<not> startsWith ns (js ''pi.op.'') \<and> \<not> startsWith ns (js ''pi.pending.'')"

lemma project_succeeds: "(\<exists>r. project_value plan copied ns k v = Inr r) \<longleftrightarrow> \<not> unknown_reserved ns"
  by (auto simp: project_value_def Let_def unknown_reserved_def)

lemma copy_succeeds:
  assumes "valid_address ns k"
  shows "(\<exists>d'. copy_write plan copied d (CommittedValueSet q ns k v) = Inr d') \<longleftrightarrow> \<not> unknown_reserved ns"
    and "(\<exists>d'. copy_write plan copied d (CommittedListAppend q ns k v) = Inr d') \<longleftrightarrow> \<not> unknown_reserved ns"
proof -
  have a: "value_address ns k = Inr \<lparr>ad_namespace = ns, ad_key = k, ad_kind = ValueKind\<rparr>"
    "list_address ns k = Inr \<lparr>ad_namespace = ns, ad_key = k, ad_kind = ListKind\<rparr>"
    using assms by (simp_all add: value_address_iff list_address_iff)
  note p = project_succeeds[of plan copied ns k v]
  show "(\<exists>d'. copy_write plan copied d (CommittedValueSet q ns k v) = Inr d') \<longleftrightarrow> \<not> unknown_reserved ns"
    using p by (cases "project_value plan copied ns k v")
      (auto simp: copy_write_def applyValueSet_def a split: option.splits)
  show "(\<exists>d'. copy_write plan copied d (CommittedListAppend q ns k v) = Inr d') \<longleftrightarrow> \<not> unknown_reserved ns"
    using p by (cases "project_value plan copied ns k v")
      (auto simp: copy_write_def applyListAppend_def Let_def a split: option.splits)
qed

definition values_forkable :: "'c session_state \<Rightarrow> bool" where
  "values_forkable s \<longleftrightarrow> (\<forall>(k, v) \<in> set (ss_scalarValues s). \<not> unknown_reserved (ad_namespace (stored_address v)))"

definition lists_forkable :: "'c session_state \<Rightarrow> bool" where
  "lists_forkable s \<longleftrightarrow> (\<forall>(k, l) \<in> set (ss_listValues s). snapshot_elements l \<noteq> [] \<longrightarrow>
     \<not> unknown_reserved (ad_namespace (snapshot_address l)))"

lemma copies_succeed:
  fixes s :: "('c :: {zero, plus}) session_state"
  assumes "session_inv s"
  shows "(\<exists>d1. foldE (copy_write plan copied) d (value_writes s) = Inr d1) \<longleftrightarrow> values_forkable s"
    and "(\<exists>d2. foldE (copy_write plan copied) d (list_writes s) = Inr d2) \<longleftrightarrow> lists_forkable s"
proof -
  let ?ns = "\<lambda>w :: 'c committed_write. case w of CommittedValueSet q ns k v \<Rightarrow> ns | CommittedListAppend q ns k v \<Rightarrow> ns"
  have v: "\<exists>q ns k j. w = CommittedValueSet q ns k j \<and> valid_address ns k" if "w \<in> set (value_writes s)" for w
    using that value_ok_all[OF assms] by (fastforce simp: value_writes_def value_ok_def list_all_iff)
  have l: "\<exists>q ns k j. w = CommittedListAppend q ns k j \<and> valid_address ns k" if "w \<in> set (list_writes s)" for w
    using that list_ok_all[OF assms] by (fastforce simp: list_writes_def list_ok_def list_all_iff)
  have "(\<exists>d1. foldE (copy_write plan copied) d (value_writes s) = Inr d1) \<longleftrightarrow> (\<forall>w \<in> set (value_writes s). \<not> unknown_reserved (?ns w))"
    by (rule foldE_succeeds) (use v copy_succeeds(1) in fastforce)
  also have "\<dots> \<longleftrightarrow> values_forkable s" by (auto simp: value_writes_def values_forkable_def)
  finally show "(\<exists>d1. foldE (copy_write plan copied) d (value_writes s) = Inr d1) \<longleftrightarrow> values_forkable s" .
  have "(\<exists>d2. foldE (copy_write plan copied) d (list_writes s) = Inr d2) \<longleftrightarrow> (\<forall>w \<in> set (list_writes s). \<not> unknown_reserved (?ns w))"
    by (rule foldE_succeeds) (use l copy_succeeds(2) in fastforce)
  also have "\<dots> \<longleftrightarrow> lists_forkable s"
  proof -
    have w: "set (list_writes s) = (\<Union>(k, l) \<in> set (ss_listValues s). (\<lambda>el. CommittedListAppend (element_seq el)
        (ad_namespace (snapshot_address l)) (ad_key (snapshot_address l)) (element_json el)) ` set (snapshot_elements l))"
      by (auto simp: list_writes_def)
    have "(\<forall>w \<in> set (list_writes s). \<not> unknown_reserved (?ns w)) \<longleftrightarrow>
        (\<forall>kl \<in> set (ss_listValues s). \<forall>el \<in> set (snapshot_elements (snd kl)). \<not> unknown_reserved (ad_namespace (snapshot_address (snd kl))))"
      unfolding w by (simp add: split_beta)
    also have "\<dots> \<longleftrightarrow> lists_forkable s"
      unfolding lists_forkable_def by (simp add: split_beta) (metis ex_in_conv set_empty)
    finally show ?thesis .
  qed
  finally show "(\<exists>d2. foldE (copy_write plan copied) d (list_writes s) = Inr d2) \<longleftrightarrow> lists_forkable s" .
qed

lemma createFork_succeeds:
  assumes "session_inv s"
  shows "(\<exists>d. createFork s opts = Some (Inr d)) \<longleftrightarrow>
    (\<exists>p. selectForkPlan s opts = Some (Inr p)) \<and> values_forkable s \<and> lists_forkable s"
proof -
  have step: "(\<exists>d. bindE (foldE (copy_write plan copied) e (value_writes s)) (\<lambda>d1.
      bindE (foldE (copy_write plan copied) d1 (list_writes s)) (\<lambda>d2. Inr (d2\<lparr>ss_nextSeq := ss_nextSeq s\<rparr>))) = Inr d) \<longleftrightarrow>
      values_forkable s \<and> lists_forkable s" for plan copied e
  proof (cases "values_forkable s \<and> lists_forkable s")
    case True
    then obtain d1 where "foldE (copy_write plan copied) e (value_writes s) = Inr d1" using copies_succeed(1)[OF assms] by blast
    moreover obtain d2 where "foldE (copy_write plan copied) d1 (list_writes s) = Inr d2" using copies_succeed(2)[OF assms] True by blast
    ultimately show ?thesis using True by simp
  next
    case False
    then show ?thesis using copies_succeed[OF assms, of plan copied] by (auto simp: bindE_eq_Inr)
  qed
  show ?thesis
  proof (cases "selectForkPlan s opts")
    case None
    then show ?thesis by (simp add: createFork_def)
  next
    case (Some p)
    then show ?thesis using step by (cases p) (auto simp: createFork_def Let_def split: prod.splits)
  qed
qed

abbreviation state_tips :: "'c session_state \<Rightarrow> stored_value list" where
  "state_tips s \<equiv> storedValuesInNamespace (map snd (ss_scalarValues s)) (js ''pi.branch.tip'')"

text \<open>The checks of the snapshot fork: no lane without a tip, none configured by half, no tip of an unknown entry.\<close>

definition lanes_complete :: "'c session_state \<Rightarrow> fork_options \<Rightarrow> bool" where
  "lanes_complete s opts \<longleftrightarrow> validateForkSourceSnapshot (snapshot_of s) (ss_entries s) (state_tips s) opts = Inr ()"

lemma createForkSnapshot_state:
  assumes "session_inv s"
  shows "createForkSnapshot (snapshot_of s) opts =
     (case validateForkSourceSnapshot (snapshot_of s) (ss_entries s) (state_tips s) opts of
           Inl e \<Rightarrow> Some (Inl e)
         | Inr _ \<Rightarrow>
             map_option (\<lambda>r. case r of
                 Inl e \<Rightarrow> Inl (ForkError e)
               | Inr (plan, ids) \<Rightarrow>
                   let kept = map (\<lambda>i. (i, the (map_of (ss_entries s) i))) ids;
                       next = foldr max (map (\<lambda>(i, e). entry_seq e) kept) 0 + 1
                   in (case foldE (snapshot_value plan ids) ([], next) (map snd (ss_scalarValues s)) of
                         Inl e \<Rightarrow> Inl (ForkError e)
                       | Inr (vs, q) \<Rightarrow> Inr \<lparr>fd_entries = kept, fd_scalarValues = vs, fd_nextSeq = q\<rparr>))
               (selectForkContents (ss_entries s) (state_tips s) opts))"
  unfolding createForkSnapshot_def Let_def
  by (simp only: snapshot_of_def fork_source.simps entry_map_state[OF assms])

lemma snapshot_values_succeed:
  assumes "session_inv s"
  shows "(\<exists>r. foldE (snapshot_value plan ids) acc (map snd (ss_scalarValues s)) = Inr r) \<longleftrightarrow> values_forkable s"
proof -
  have "(\<exists>r. foldE (snapshot_value plan ids) acc (map snd (ss_scalarValues s)) = Inr r) \<longleftrightarrow>
      (\<forall>v \<in> set (map snd (ss_scalarValues s)). \<not> unknown_reserved (ad_namespace (stored_address v)))"
  proof (rule foldE_succeeds)
    fix t v
    assume "v \<in> set (map snd (ss_scalarValues s))"
    then have ok: "valid_address (ad_namespace (stored_address v)) (ad_key (stored_address v))"
      using value_ok_all[OF assms] by (fastforce simp: value_ok_def list_all_iff)
    then have a: "value_address (ad_namespace (stored_address v)) (ad_key (stored_address v)) =
        Inr \<lparr>ad_namespace = ad_namespace (stored_address v), ad_key = ad_key (stored_address v), ad_kind = ValueKind\<rparr>"
      by (simp add: value_address_iff)
    let ?p = "project_value plan (\<lambda>i. i \<in> set ids) (ad_namespace (stored_address v)) (ad_key (stored_address v)) (stored_json v)"
    show "(\<exists>t'. snapshot_value plan ids t v = Inr t') \<longleftrightarrow> \<not> unknown_reserved (ad_namespace (stored_address v))"
      using project_succeeds[of plan "\<lambda>i. i \<in> set ids" "ad_namespace (stored_address v)" "ad_key (stored_address v)" "stored_json v"]
      by (cases ?p) (auto simp: snapshot_value_def a split: option.splits)
  qed
  also have "\<dots> \<longleftrightarrow> values_forkable s" by (auto simp: values_forkable_def)
  finally show ?thesis .
qed

lemma createForkSnapshot_succeeds:
  assumes "session_inv s"
  shows "(\<exists>r. createForkSnapshot (snapshot_of s) opts = Some (Inr r)) \<longleftrightarrow>
    lanes_complete s opts \<and> (\<exists>p. selectForkContents (ss_entries s) (state_tips s) opts = Some (Inr p)) \<and> values_forkable s"
proof (cases "validateForkSourceSnapshot (snapshot_of s) (ss_entries s) (state_tips s) opts")
  case (Inl e)
  then show ?thesis by (simp add: createForkSnapshot_state[OF assms] lanes_complete_def)
next
  case (Inr u)
  have step: "(\<exists>r. (case foldE (snapshot_value plan ids) acc (map snd (ss_scalarValues s)) of
       Inl e \<Rightarrow> Inl (ForkError e) | Inr (vs, q) \<Rightarrow> Inr (f vs q)) = Inr r) \<longleftrightarrow> values_forkable s" for plan ids acc and f :: "_ \<Rightarrow> _ \<Rightarrow> fork_destination"
    using snapshot_values_succeed[OF assms, of plan ids acc]
    by (cases "foldE (snapshot_value plan ids) acc (map snd (ss_scalarValues s))") auto
  show ?thesis
  proof (cases "selectForkContents (ss_entries s) (state_tips s) opts")
    case None
    then show ?thesis by (simp add: createForkSnapshot_state[OF assms] Inr)
  next
    case (Some c)
    show ?thesis
    proof (cases c)
      case (Inl e)
      then show ?thesis using Some Inr by (simp add: createForkSnapshot_state[OF assms])
    next
      case c: (Inr p)
      obtain plan ids where pi: "p = (plan, ids)" by (cases p)
      have "lanes_complete s opts" using Inr by (simp add: lanes_complete_def)
      moreover have "(\<exists>r. createForkSnapshot (snapshot_of s) opts = Some (Inr r)) \<longleftrightarrow> values_forkable s"
        unfolding createForkSnapshot_state[OF assms] Inr Some c pi
        by (simp only: sum.case option.map prod.case Let_def option.inject) (rule step)
      ultimately show ?thesis using Some c by simp
    qed
  qed
qed

lemma createForkSnapshot_parts:
  assumes "session_inv s" "createForkSnapshot (snapshot_of s) opts = Some (Inr r)"
  obtains plan ids where
    "selectForkContents (ss_entries s) (state_tips s) opts = Some (Inr (plan, ids))"
    "fd_entries r = map (\<lambda>i. (i, the (map_of (ss_entries s) i))) ids"
    "foldE (snapshot_value plan ids) ([], foldr max (map (\<lambda>(i, e). entry_seq e) (fd_entries r)) 0 + 1)
       (map snd (ss_scalarValues s)) = Inr (fd_scalarValues r, fd_nextSeq r)"
proof -
  note unfolded = createForkSnapshot_state[OF assms(1), of opts]
  obtain u where v: "validateForkSourceSnapshot (snapshot_of s) (ss_entries s) (state_tips s) opts = Inr u"
    using assms(2) unfolding unfolded by (cases "validateForkSourceSnapshot (snapshot_of s) (ss_entries s) (state_tips s) opts") auto
  obtain c where c: "selectForkContents (ss_entries s) (state_tips s) opts = Some c"
    using assms(2) v unfolding unfolded by (cases "selectForkContents (ss_entries s) (state_tips s) opts") auto
  obtain plan ids where pi: "c = Inr (plan, ids)"
    using assms(2) v c unfolding unfolded by (cases c) auto
  let ?kept = "map (\<lambda>i. (i, the (map_of (ss_entries s) i))) ids"
  let ?next = "foldr max (map (\<lambda>(i, e). entry_seq e) ?kept) 0 + 1"
  have res: "(case foldE (snapshot_value plan ids) ([], ?next) (map snd (ss_scalarValues s)) of
       Inl e \<Rightarrow> Inl (ForkError e)
     | Inr (vs, q) \<Rightarrow> Inr \<lparr>fd_entries = ?kept, fd_scalarValues = vs, fd_nextSeq = q\<rparr>) = Inr r"
    using assms(2) unfolding unfolded v c pi by (simp only: sum.case prod.case option.map Let_def option.inject)
  then obtain vs q where f: "foldE (snapshot_value plan ids) ([], ?next) (map snd (ss_scalarValues s)) = Inr (vs, q)"
    by (cases "foldE (snapshot_value plan ids) ([], ?next) (map snd (ss_scalarValues s))") auto
  with res have "r = \<lparr>fd_entries = ?kept, fd_scalarValues = vs, fd_nextSeq = q\<rparr>" by simp
  with c pi f show ?thesis by (intro that[of plan ids]) simp_all
qed

text \<open>On a session whose lanes are complete both forks select, or neither does.\<close>

lemma selections_succeed:
  assumes "session_inv s" "lanes_complete s opts"
  shows "(\<exists>p. selectForkPlan s opts = Some (Inr p)) \<longleftrightarrow>
    (\<exists>p. selectForkContents (ss_entries s) (state_tips s) opts = Some (Inr p))"
proof (cases opts)
  case ForkTree
  then show ?thesis by (simp add: selectForkPlan_def selectForkContents_def)
next
  case (ForkBranch b entryId before)
  have addr: "ad_key (stored_address v) = b \<Longrightarrow> v \<in> set (state_tips s) \<Longrightarrow> valid_address (js ''pi.branch.tip'') b" for v
    using value_ok_all[OF assms(1)] by (fastforce simp: storedValuesInNamespace_def value_ok_def list_all_iff)
  have found: "List.find (\<lambda>v. ad_key (stored_address v) = b) (state_tips s) = getValue s (address_of ''pi.branch.tip'' b)"
    if "valid_address (js ''pi.branch.tip'') b"
    using find_value[OF assms(1) that, of ValueKind]
    by (simp add: storedValuesInNamespace_def find_filter findStoredValue_def)
  have pf: "(\<lambda>i. map_option entry_parentId (map_of (ss_entries s) i)) = parent_of s"
    by (simp add: fun_eq_iff parent_of_def getEntry_def)
  show ?thesis
  proof (cases "List.find (\<lambda>v. ad_key (stored_address v) = b) (state_tips s)")
    case None
    have "\<not> (\<exists>p. selectForkPlan s opts = Some (Inr p))"
    proof
      assume "\<exists>p. selectForkPlan s opts = Some (Inr p)"
      with selectForkPlan_branch[OF assms(1), of b entryId before] ForkBranch obtain v where
        "getValue s (address_of ''pi.branch.tip'' b) = Some v" "valid_address (js ''pi.lane.config'') b" by fastforce
      with found None show False by (simp add: valid_address_def js_def)
    qed
    with None ForkBranch show ?thesis by (simp add: selectForkContents_def selectBranchFork_def)
  next
    case (Some v)
    then have v: "v \<in> set (state_tips s)" "ad_key (stored_address v) = b" by (auto simp: find_Some_iff)
    with addr have va: "valid_address (js ''pi.branch.tip'') b" by blast
    then have other: "valid_address (js ''pi.lane.config'') b" "valid_address (js ''pi.lane.state'') b"
      by (auto simp: valid_address_def js_def)
    have "check_tip (snapshot_of s) (ss_entries s) opts v = Inr ()"
    proof -
      have "(\<exists>t. foldE (\<lambda>_ tip. check_tip (snapshot_of s) (ss_entries s) opts tip) () (state_tips s) = Inr t)"
        using assms(2) by (auto simp: lanes_complete_def validateForkSourceSnapshot_def bindE_eq_Inr)
      then have "\<forall>tip \<in> set (state_tips s). check_tip (snapshot_of s) (ss_entries s) opts tip = Inr ()"
        by (subst (asm) foldE_succeeds[where P = "\<lambda>tip. check_tip (snapshot_of s) (ss_entries s) opts tip = Inr ()"]) auto
      with v(1) show ?thesis by blast
    qed
    then have lane: "getValue s (address_of ''pi.lane.config'' b) \<noteq> None" "getValue s (address_of ''pi.lane.state'' b) \<noteq> None"
      using find_value[OF assms(1) other(1), of ValueKind] find_value[OF assms(1) other(2), of ValueKind] v(2) ForkBranch
      by (auto simp: check_tip_def Let_def bindE_eq_Inr snapshot_of_def guardE_def split: if_splits)
    have at: "stored_at s ''pi.branch.tip'' b = Inr (Some v)" using found[OF va] va Some by (simp add: stored_at_eq)
    have lanes: "stored_at s ''pi.lane.config'' b = Inr (getValue s (address_of ''pi.lane.config'' b))"
      "stored_at s ''pi.lane.state'' b = Inr (getValue s (address_of ''pi.lane.state'' b))"
      using other by (simp_all add: stored_at_eq)
    show ?thesis
    proof (cases "tip_value (stored_json v)")
      case (Inl e)
      then show ?thesis using at Some ForkBranch by (simp add: selectForkPlan_def selectForkContents_def)
    next
      case (Inr tip)
      obtain w where w: "selectBranchFork (Suc (length (ss_entries s))) b entryId before (Some tip) (parent_of s) = w" by blast
      have "selectForkContents (ss_entries s) (state_tips s) opts = w"
        using Some Inr w ForkBranch by (simp add: selectForkContents_def pf)
      moreover have "(\<exists>p. selectForkPlan s opts = Some (Inr p)) \<longleftrightarrow> (\<exists>p. w = Some (Inr p))"
        using at lanes lane Inr w ForkBranch
        by (cases w; cases "the w") (auto simp: selectForkPlan_def)
      ultimately show ?thesis by simp
    qed
  qed
qed

text \<open>The values of both forks are projections of the same list.\<close>

lemma kept_table: "value_table (map snd (kept_values plan copied al)) = projected_table plan copied (map snd al)"
proof (induction al)
  case (Cons kv al)
  obtain k v where kv: "kv = (k, v)" by (cases kv)
  show ?case
    using Cons by (cases "project_value plan copied (ad_namespace (stored_address v)) (ad_key (stored_address v)) (stored_json v)")
      (auto simp: kv project_stored_def value_table_def split: option.splits)
qed (simp add: value_table_def)

definition kept_label :: "'c session_state \<Rightarrow> (jstr \<times> jstr) \<times> json \<Rightarrow> bool" where
  "kept_label s x \<longleftrightarrow> (case x of ((ns, k), j) \<Rightarrow> ns = js ''pi.entry.label'' \<longrightarrow> getEntry s k \<noteq> None)"

lemma projected_labels:
  assumes "\<And>i e. getEntry s i = Some e \<Longrightarrow> copied i = copied' i" "\<And>i. copied' i \<Longrightarrow> getEntry s i \<noteq> None"
  shows "projected_table plan copied' vs = filter (kept_label s) (projected_table plan copied vs)"
proof (induction vs)
  case (Cons v vs)
  let ?ns = "ad_namespace (stored_address v)" and ?k = "ad_key (stored_address v)"
  show ?case
  proof (cases "?ns = js ''pi.entry.label'' \<and> getEntry s ?k = None")
    case True
    then have "project_value plan copied' ?ns ?k (stored_json v) = Inr None"
      using assms(2)[of ?k] by (auto simp: project_value_def js_def)
    moreover have "\<not> kept_label s ((?ns, ?k), j)" for j using True by (auto simp: kept_label_def)
    ultimately show ?thesis using Cons by (simp split: sum.splits option.splits)
  next
    case False
    then have "project_value plan copied' ?ns ?k (stored_json v) = project_value plan copied ?ns ?k (stored_json v)"
      by (intro project_copied_cong) (use assms(1)[of ?k] in auto)
    moreover have "kept_label s ((?ns, ?k), j)" for j using False by (auto simp: kept_label_def)
    ultimately show ?thesis using Cons by (simp split: sum.splits option.splits)
  qed
qed simp

lemma snapshot_seqs:
  "foldE (snapshot_value plan ids) (acc, q) vs = Inr (acc', q') \<Longrightarrow>
     \<exists>n. map stored_seq acc' = map stored_seq acc @ map (\<lambda>i. q + int i) [0..<n] \<and> length acc' = length acc + n \<and> q' = q + int n"
proof (induction vs arbitrary: acc q)
  case Nil
  then show ?case by (intro exI[of _ 0]) simp
next
  case (Cons v vs)
  from Cons.prems obtain acc1 q1 where step: "snapshot_value plan ids (acc, q) v = Inr (acc1, q1)"
    "foldE (snapshot_value plan ids) (acc1, q1) vs = Inr (acc', q')"
    by (auto simp: bindE_eq_Inr)
  consider "acc1 = acc" "q1 = q" | a j where "acc1 = acc @ [\<lparr>stored_address = a, stored_json = j, stored_seq = q\<rparr>]" "q1 = q + 1"
  proof -
    let ?p = "project_value plan (\<lambda>i. i \<in> set ids) (ad_namespace (stored_address v)) (ad_key (stored_address v)) (stored_json v)"
    obtain kept where "?p = Inr kept" using step(1) by (auto simp: snapshot_value_def bindE_eq_Inr)
    show thesis
    proof (cases kept)
      case None
      with \<open>?p = Inr kept\<close> step(1) that(1) show thesis by (simp add: snapshot_value_def)
    next
      case (Some j)
      with \<open>?p = Inr kept\<close> step(1) obtain a where
        "value_address (ad_namespace (stored_address v)) (ad_key (stored_address v)) = Inr a"
        "acc1 = acc @ [\<lparr>stored_address = a, stored_json = j, stored_seq = q\<rparr>]" "q1 = q + 1"
        by (auto simp: snapshot_value_def split: sum.splits)
      then show thesis using that(2) by blast
    qed
  qed
  then show ?case
  proof cases
    case 1
    with Cons.IH[OF step(2)] show ?thesis by simp
  next
    case 2
    from Cons.IH[OF step(2)] obtain n where n: "map stored_seq acc' = map stored_seq acc1 @ map (\<lambda>i. q1 + int i) [0..<n]"
      "length acc' = length acc1 + n" "q' = q1 + int n" by blast
    have "map (\<lambda>i. q + int i) [0..<Suc n] = q # map (\<lambda>i. q + 1 + int i) [0..<n]"
      unfolding upt_conv_Cons[OF zero_less_Suc] map_Suc_upt[symmetric] by (simp add: comp_def add_ac)
    with n 2 show ?thesis by (intro exI[of _ "Suc n"]) (simp del: upt_Suc)
  qed
qed

lemma below_max: "e \<in> set es \<Longrightarrow> e \<le> foldr max es (0 :: int)"
  by (induction es) auto

text \<open>
  C22. The two implementations of a fork agree, on every session that satisfies the invariant. They succeed on the
  same sessions, but for what only one of them looks at: the snapshot fork (used by the SQLite backend) also requires
  that the lanes are complete, the in-memory fork that no list lies in an unknown reserved namespace. When both
  succeed they hold the same entries, and the same values at the same addresses in the same order, except that the
  snapshot drops the labels of entries that are not stored. The snapshot numbers its values anew, consecutively
  above every entry. Lists are copied by the in-memory fork only: a snapshot has none.
\<close>
theorem forks_agree:
  assumes "session_inv s"
  shows "((\<exists>d. createFork s opts = Some (Inr d)) \<and> lanes_complete s opts \<longleftrightarrow>
      (\<exists>r. createForkSnapshot (snapshot_of s) opts = Some (Inr r)) \<and> lists_forkable s) \<and>
    (\<forall>d r. createFork s opts = Some (Inr d) \<longrightarrow> createForkSnapshot (snapshot_of s) opts = Some (Inr r) \<longrightarrow>
      (\<forall>i. map_of (fd_entries r) i = getEntry d i) \<and>
      value_table (fd_scalarValues r) = filter (kept_label s) (value_table (map snd (ss_scalarValues d))) \<and>
      (\<exists>q. (\<forall>(i, e) \<in> set (fd_entries r). entry_seq e < q) \<and>
        map stored_seq (fd_scalarValues r) = map (\<lambda>i. q + int i) [0..<length (fd_scalarValues r)] \<and>
        fd_nextSeq r = q + int (length (fd_scalarValues r))))"
proof (intro conjI allI impI)
  show "(\<exists>d. createFork s opts = Some (Inr d)) \<and> lanes_complete s opts \<longleftrightarrow>
      (\<exists>r. createForkSnapshot (snapshot_of s) opts = Some (Inr r)) \<and> lists_forkable s"
    using selections_succeed[OF assms, of opts]
    unfolding createFork_succeeds[OF assms] createForkSnapshot_succeeds[OF assms] by blast
next
  fix d r
  assume f: "createFork s opts = Some (Inr d)" and g: "createForkSnapshot (snapshot_of s) opts = Some (Inr r)"
  obtain plan ids where
    p: "selectForkPlan s opts = Some (Inr (plan, ids))" and
    es: "ss_entries d = filter (\<lambda>(k, e). is_copied plan ids k) (ss_entries s)" and
    vs: "ss_scalarValues d = kept_values plan (is_copied plan ids) (ss_scalarValues s)"
    using createFork_parts[OF assms f] by metis
  obtain plan' ids' where
    p': "selectForkContents (ss_entries s) (state_tips s) opts = Some (Inr (plan', ids'))" and
    es': "fd_entries r = map (\<lambda>i. (i, the (map_of (ss_entries s) i))) ids'" and
    vs': "foldE (snapshot_value plan' ids') ([], foldr max (map (\<lambda>(i, e). entry_seq e) (fd_entries r)) 0 + 1)
       (map snd (ss_scalarValues s)) = Inr (fd_scalarValues r, fd_nextSeq r)"
    by (rule createForkSnapshot_parts[OF assms g])
  have same: "plan' = plan" "\<And>i e. getEntry s i = Some e \<Longrightarrow> is_copied plan ids i = (i \<in> set ids')"
    "\<And>i. i \<in> set ids' \<Longrightarrow> getEntry s i \<noteq> None"
    using selection_agrees[OF assms p p'] by auto
  show "map_of (fd_entries r) i = getEntry d i" for i
  proof -
    have "map_of (fd_entries r) i = (if i \<in> set ids' then getEntry s i else None)"
    proof (cases "i \<in> set ids'")
      case True
      with same(3) obtain e where "map_of (ss_entries s) i = Some e" by (auto simp: getEntry_def)
      with True show ?thesis by (simp add: es' map_of_map_restrict getEntry_def)
    next
      case False
      then show ?thesis by (simp add: es' map_of_map_restrict)
    qed
    moreover have "map_of (filter (\<lambda>(k, e). is_copied plan ids k) al) i = (if is_copied plan ids i then map_of al i else None)"
      for al :: "(jstr \<times> session_entry) list"
      by (induction al) auto
    then have "getEntry d i = (if is_copied plan ids i then getEntry s i else None)" by (simp add: getEntry_def es)
    ultimately show ?thesis using same(2)[of i] by (cases "getEntry s i") auto
  qed
  have "value_table (fd_scalarValues r) = projected_table plan (\<lambda>i. i \<in> set ids') (map snd (ss_scalarValues s))"
    using snapshot_values[OF vs'] by (simp add: same(1) value_table_def)
  also have "\<dots> = filter (kept_label s) (value_table (map snd (ss_scalarValues d)))"
    unfolding vs kept_table by (rule projected_labels) (use same in auto)
  finally show "value_table (fd_scalarValues r) = filter (kept_label s) (value_table (map snd (ss_scalarValues d)))" .
  let ?q = "foldr max (map (\<lambda>(i, e). entry_seq e) (fd_entries r)) 0 + 1"
  have above: "\<forall>(i, e) \<in> set (fd_entries r). entry_seq e < ?q"
    using below_max[of _ "map (\<lambda>(i, e). entry_seq e) (fd_entries r)"] by fastforce
  show "\<exists>q. (\<forall>(i, e) \<in> set (fd_entries r). entry_seq e < q) \<and>
      map stored_seq (fd_scalarValues r) = map (\<lambda>i. q + int i) [0..<length (fd_scalarValues r)] \<and>
      fd_nextSeq r = q + int (length (fd_scalarValues r))"
    using snapshot_seqs[OF vs'] above by (intro exI[of _ ?q] conjI) auto
qed

definition branch_snapshot :: fork_destination where
  "branch_snapshot = projr (the (createForkSnapshot (snapshot_of branch_session) (ForkBranch (js ''m'') (Some (js ''b'')) False)))"

lemma branch_snapshot: "createForkSnapshot (snapshot_of branch_session) (ForkBranch (js ''m'') (Some (js ''b'')) False) = Some (Inr branch_snapshot)"
proof -
  have "map_option isl (createForkSnapshot (snapshot_of branch_session) (ForkBranch (js ''m'') (Some (js ''b'')) False)) = Some False"
    by code_simp
  then show ?thesis unfolding branch_snapshot_def by (auto simp: isl_def)
qed

theorem forks_agree_witness:
  "((\<exists>d. createFork branch_session (ForkBranch (js ''m'') (Some (js ''b'')) False) = Some (Inr d)) \<and>
      lanes_complete branch_session (ForkBranch (js ''m'') (Some (js ''b'')) False)) \<and>
   (map_of (fd_entries branch_snapshot) (js ''a'') = getEntry branch_fork (js ''a'') \<and>
    value_table (fd_scalarValues branch_snapshot) =
      filter (kept_label branch_session) (value_table (map snd (ss_scalarValues branch_fork)))) \<and>
   map_of (value_table (fd_scalarValues branch_snapshot)) (js ''pi.branch.tip'', js ''m'') = Some (JStr (js ''b''))"
proof -
  have "lists_forkable branch_session" by code_simp
  note agree = forks_agree[OF branch_session_inv, of "ForkBranch (js ''m'') (Some (js ''b'')) False"]
  from agree branch_snapshot \<open>lists_forkable branch_session\<close>
  have "(\<exists>d. createFork branch_session (ForkBranch (js ''m'') (Some (js ''b'')) False) = Some (Inr d)) \<and>
      lanes_complete branch_session (ForkBranch (js ''m'') (Some (js ''b'')) False)" by blast
  moreover have "map_of (fd_entries branch_snapshot) (js ''a'') = getEntry branch_fork (js ''a'') \<and>
    value_table (fd_scalarValues branch_snapshot) =
      filter (kept_label branch_session) (value_table (map snd (ss_scalarValues branch_fork)))"
    using agree branch_fork branch_snapshot by blast
  moreover have "map_of (value_table (fd_scalarValues branch_snapshot)) (js ''pi.branch.tip'', js ''m'') = Some (JStr (js ''b''))"
    by code_simp
  ultimately show ?thesis by blast
qed

text \<open>
  The exception is real: \<open>setLabel\<close> accepts the id of an entry that is not stored, a tree fork of the
  in-memory state keeps such a label, and the snapshot fork of the same session drops it.
\<close>
theorem tree_fork_labels_differ:
  "let s = snd (memory_commit empty_session [ValueSetWrite (js ''pi.entry.label'') (js ''x'') (JStr (js ''l''))] 1);
       d = projr (the (createFork s ForkTree)); r = projr (the (createForkSnapshot (snapshot_of s) ForkTree)) in
   createFork s ForkTree = Some (Inr d) \<and> createForkSnapshot (snapshot_of s) ForkTree = Some (Inr r) \<and>
   map_option stored_json (getValue d (address_of ''pi.entry.label'' (js ''x''))) = Some (JStr (js ''l'')) \<and>
   map_of (value_table (fd_scalarValues r)) (js ''pi.entry.label'', js ''x'') = None"
proof -
  define s where "s = snd (memory_commit empty_session [ValueSetWrite (js ''pi.entry.label'') (js ''x'') (JStr (js ''l''))] 1)"
  have "map_option isl (createFork s ForkTree) = Some False" "map_option isl (createForkSnapshot (snapshot_of s) ForkTree) = Some False"
    unfolding s_def by code_simp+
  then have "createFork s ForkTree = Some (Inr (projr (the (createFork s ForkTree))))"
    "createForkSnapshot (snapshot_of s) ForkTree = Some (Inr (projr (the (createForkSnapshot (snapshot_of s) ForkTree))))"
    by (auto simp: isl_def)
  moreover have "map_option stored_json (getValue (projr (the (createFork s ForkTree))) (address_of ''pi.entry.label'' (js ''x''))) = Some (JStr (js ''l''))"
    "map_of (value_table (fd_scalarValues (projr (the (createForkSnapshot (snapshot_of s) ForkTree))))) (js ''pi.entry.label'', js ''x'') = None"
    unfolding s_def by code_simp+
  ultimately show ?thesis unfolding Let_def s_def[symmetric] by blast
qed

end
