(* ===== verification/ContextBuild.thy ===== *)
theory ContextBuild
  imports SessionTypes
begin

text \<open>
  What a model sees of a branch (\<open>packages/agent/src/harness/session/context.ts\<close>): the entries from the
  last compaction on, each as its context messages. A path is its entries from the root to the tip.
\<close>

section \<open>Entries in the context\<close>

definition is_compaction :: "session_entry \<Rightarrow> bool" where
  "is_compaction e \<longleftrightarrow> entry_type e = CompactionType"

text \<open>The loop from the end that stops at the first compaction it meets.\<close>

definition last_compaction :: "session_entry list \<Rightarrow> nat option" where
  "last_compaction path = List.find (\<lambda>i. is_compaction (path ! i)) (rev [0..<length path])"

definition buildContextEntries :: "session_entry list \<Rightarrow> session_entry list" where
  "buildContextEntries path =
     (case last_compaction path of None \<Rightarrow> path | Some i \<Rightarrow> path ! i # drop (Suc i) path)"

section \<open>Messages of an entry\<close>

fun isContextMessage :: "agent_message \<Rightarrow> bool" where
  "isContextMessage (AssistantMessage a) \<longleftrightarrow> as_stopReason a \<notin> {ErrorStop, AbortedStop, DeferredStop}"
| "isContextMessage m \<longleftrightarrow> True"

definition sessionEntryToContextMessages :: "session_entry \<Rightarrow> agent_message list" where
  "sessionEntryToContextMessages e =
     (case entry_body e of
        Message m t \<Rightarrow> if isContextMessage m then [m] else []
      | Compaction summary retained tokensBefore d u h \<Rightarrow>
          createCompactionSummaryMessage summary tokensBefore (entry_timestamp e) # filter isContextMessage retained
      | BranchSummary from_id summary d u h \<Rightarrow>
          if summary \<noteq> [] then [createBranchSummaryMessage summary from_id (entry_timestamp e)] else []
      | Custom d \<Rightarrow> [])"

text \<open>
  The application's projectors of custom entries are an argument: a projector gives the messages of an
  entry or \<open>undefined\<close>. The property an absent custom type names is \<open>undefined\<close>.
\<close>

type_synonym projectors = "jstr \<Rightarrow> (session_entry \<Rightarrow> agent_message list option) option"

definition custom_messages :: "projectors \<Rightarrow> session_entry \<Rightarrow> agent_message list" where
  "custom_messages pr e =
     (case pr (case entry_customType e of None \<Rightarrow> js ''undefined'' | Some t \<Rightarrow> t) of
        None \<Rightarrow> []
      | Some p \<Rightarrow> (case p e of None \<Rightarrow> [] | Some ms \<Rightarrow> ms))"

definition context_of_entry :: "projectors \<Rightarrow> session_entry \<Rightarrow> agent_message list" where
  "context_of_entry pr e =
     (if entry_type e \<noteq> CustomType then sessionEntryToContextMessages e else custom_messages pr e)"

definition buildSessionContext :: "projectors \<Rightarrow> session_entry list \<Rightarrow> agent_message list" where
  "buildSessionContext pr path = concat (map (context_of_entry pr) (buildContextEntries path))"

section \<open>The last compaction\<close>

lemma last_compaction_None: "last_compaction path = None \<longleftrightarrow> list_all (\<lambda>e. \<not> is_compaction e) path"
  by (auto simp: last_compaction_def find_None_iff list_all_length)

lemma last_compaction_split:
  assumes "is_compaction c" "list_all (\<lambda>e. \<not> is_compaction e) post"
  shows "last_compaction (pre @ c # post) = Some (length pre)"
proof -
  let ?p = "pre @ c # post"
  have "rev [0..<length ?p] = rev [Suc (length pre)..<length ?p] @ length pre # rev [0..<length pre]"
    by (rule rev_upt_split) simp
  moreover have "List.find (\<lambda>i. is_compaction (?p ! i)) (rev [Suc (length pre)..<length ?p]) = None"
    using assms(2) by (auto simp: find_None_iff nth_append list_all_length nth_Cons' )
  ultimately show ?thesis
    using assms(1) by (simp add: last_compaction_def find_append)
qed

lemma last_compaction_cases:
  obtains (none) "last_compaction path = None" "list_all (\<lambda>e. \<not> is_compaction e) path"
  | (last) pre c post where "path = pre @ c # post" "is_compaction c" "list_all (\<lambda>e. \<not> is_compaction e) post"
      "last_compaction path = Some (length pre)"
proof (cases "list_ex is_compaction path")
  case False
  then show ?thesis using none last_compaction_None by (auto simp: list_ex_iff list_all_iff)
next
  case True
  then obtain pre c post where "path = pre @ c # post" "is_compaction c" "\<forall>e \<in> set post. \<not> is_compaction e"
    using split_list_last_prop[of path is_compaction] by (auto simp: list_ex_iff)
  then show ?thesis using last last_compaction_split by (auto simp: list_all_iff)
qed

lemma buildContextEntries_split [simp]:
  assumes "is_compaction c" "list_all (\<lambda>e. \<not> is_compaction e) post"
  shows "buildContextEntries (pre @ c # post) = c # post"
  using last_compaction_split[OF assms] by (simp add: buildContextEntries_def nth_append)

text \<open>No compaction, no summary: nothing is dropped.\<close>

lemma buildContextEntries_plain:
  "list_all (\<lambda>e. \<not> is_compaction e) path \<Longrightarrow> buildContextEntries path = path"
  by (simp add: buildContextEntries_def last_compaction_None[THEN iffD2])

end
