(* ===== verification/JsonText.thy ===== *)
theory JsonText
  imports Messages
begin

text \<open>
  \<open>JSON.stringify\<close> of a JSON value, as ECMAScript defines it, for the code that measures or prints tool
  arguments. The text of a number that is not an integer below \<open>10 ^ 21\<close> (the shortest decimal of a
  double) is a parameter \<open>dbl\<close>.
\<close>

section \<open>Strings\<close>

definition hex_digit :: "nat \<Rightarrow> code_unit" where
  "hex_digit n = (if n < 10 then of_nat (48 + n) else of_nat (87 + n))"

definition unicode_escape :: "code_unit \<Rightarrow> jstr" where
  "unicode_escape c =
     (let n = unat c in js [CHR 0x5C, CHR ''u''] @
        [hex_digit (n div 4096), hex_digit (n div 256 mod 16), hex_digit (n div 16 mod 16), hex_digit (n mod 16)])"

definition quote_unit :: "code_unit \<Rightarrow> jstr" where
  "quote_unit c =
     (if c = 8 then [92, 98] else if c = 9 then [92, 116] else if c = 10 then [92, 110]
      else if c = 12 then [92, 102] else if c = 13 then [92, 114]
      else if c = 34 then [92, 34] else if c = 92 then [92, 92]
      else if c < 32 then unicode_escape c else [c])"

text \<open>A surrogate that is not part of a pair is escaped.\<close>

fun quote_units :: "jstr \<Rightarrow> jstr" where
  "quote_units [] = []"
| "quote_units [c] = (if is_high c \<or> is_low c then unicode_escape c else quote_unit c)"
| "quote_units (c # d # cs) =
     (if is_high c \<and> is_low d then c # d # quote_units cs
      else (if is_high c \<or> is_low c then unicode_escape c else quote_unit c) @ quote_units (d # cs))"

definition quote_text :: "jstr \<Rightarrow> jstr" where
  "quote_text s = [34] @ quote_units s @ [34]"

section \<open>Values\<close>

fun number_text :: "(number \<Rightarrow> jstr) \<Rightarrow> number \<Rightarrow> jstr" where
  "number_text dbl (NInt i) = (if \<bar>i\<bar> < 10 ^ 21 then int_text i else dbl (NInt i))"
| "number_text dbl (NDbl w) =
     (if w = minus_zero then js ''0'' else if isFinite (NDbl w) then dbl (NDbl w) else js ''null'')"

function json_text :: "(number \<Rightarrow> jstr) \<Rightarrow> json \<Rightarrow> jstr" where
  "json_text dbl JNull = js ''null''"
| "json_text dbl (JBool b) = js (if b then ''true'' else ''false'')"
| "json_text dbl (JNum x) = number_text dbl x"
| "json_text dbl (JStr s) = quote_text s"
| "json_text dbl (JArr xs) = js ''['' @ join_text (js '','') (map (json_text dbl) xs) @ js '']''"
| "json_text dbl (JObj ps) =
     js ''{'' @ join_text (js '','') (map (\<lambda>kv. quote_text (fst kv) @ js '':'' @ json_text dbl (snd kv)) ps) @ js ''}''"
  by pat_completeness auto
termination by (relation "measure (size \<circ> snd)") (auto intro: json_size)

text \<open>A JSON value always has a text: neither the \<open>undefined\<close> nor the error branch is taken.\<close>

definition safeJsonStringify :: "(number \<Rightarrow> jstr) \<Rightarrow> json \<Rightarrow> jstr" where
  "safeJsonStringify dbl v = json_text dbl v"

lemma json_text_sample:
  "json_text dbl (JObj [(js ''a'', JArr [JNum (NInt 12), JNull]), (js ''b'', JStr [34, 10, 0xD800])]) =
   js (''{'' @ [CHR 0x22] @ ''a'' @ [CHR 0x22] @ '':[12,null],'' @ [CHR 0x22] @ ''b'' @ [CHR 0x22] @ '':'' @
     [CHR 0x22, CHR 0x5C, CHR 0x22, CHR 0x5C] @ ''n'' @ [CHR 0x5C] @ ''ud800'' @ [CHR 0x22] @ ''}'')"
  by code_simp

end
