(* ===== verification/Tokens.thy ===== *)
theory Tokens
  imports ContextBuild JsonText
begin

text \<open>
  The token accounting of compaction (\<open>packages/agent/src/harness/compaction/compaction.ts\<close>): the
  provider's usage where an assistant message reports it, an estimate of a quarter token per character
  for the rest. Counts are integers, as providers report them. \<open>dbl\<close> is the text of a double
  (\<open>JsonText\<close>).
\<close>

section \<open>Reported usage\<close>

definition calculateContextTokens :: "'c usage \<Rightarrow> int" where
  "calculateContextTokens u =
     (if usage_totalTokens u \<noteq> 0 then usage_totalTokens u
      else usage_input u + usage_output u + usage_cacheRead u + usage_cacheWrite u)"

fun getAssistantUsage :: "agent_message \<Rightarrow> number usage option" where
  "getAssistantUsage (AssistantMessage a) =
     (if as_stopReason a \<noteq> AbortedStop \<and> as_stopReason a \<noteq> ErrorStop \<and> calculateContextTokens (as_usage a) > 0
      then Some (as_usage a) else None)"
| "getAssistantUsage m = None"

fun getLastAssistantUsage :: "session_entry list \<Rightarrow> number usage option" where
  "getLastAssistantUsage path =
     List.fold (\<lambda>e found. case entry_body e of
        Message m t \<Rightarrow> (case getAssistantUsage m of None \<Rightarrow> found | Some u \<Rightarrow> Some u)
      | _ \<Rightarrow> found) path None"

text \<open>The last message that reports usage, with its index (the loop runs down from the end).\<close>

fun usage_search :: "agent_message list \<Rightarrow> nat \<Rightarrow> (number usage \<times> nat) option" where
  "usage_search ms 0 = None"
| "usage_search ms (Suc i) =
     (case getAssistantUsage (ms ! i) of None \<Rightarrow> usage_search ms i | Some u \<Rightarrow> Some (u, i))"

definition getLastAssistantUsageInfo :: "agent_message list \<Rightarrow> (number usage \<times> nat) option" where
  "getLastAssistantUsageInfo ms = usage_search ms (length ms)"

section \<open>Estimates\<close>

definition ESTIMATED_IMAGE_CHARS :: nat where "ESTIMATED_IMAGE_CHARS = 4800"

fun estimated_block_chars :: "content_block \<Rightarrow> nat" where
  "estimated_block_chars (TextBlock t s) = length t"
| "estimated_block_chars (ImageBlock d m) = ESTIMATED_IMAGE_CHARS"
| "estimated_block_chars b = 0"

fun estimateTextAndImageContentChars :: "content \<Rightarrow> nat" where
  "estimateTextAndImageContentChars (PlainText t) = length t"
| "estimateTextAndImageContentChars (Blocks bs) = sum_list (map estimated_block_chars bs)"

fun assistant_block_chars :: "(number \<Rightarrow> jstr) \<Rightarrow> content_block \<Rightarrow> nat" where
  "assistant_block_chars dbl (TextBlock t s) = length t"
| "assistant_block_chars dbl (ThinkingBlock t s r) = length t"
| "assistant_block_chars dbl (ToolCallBlock i n args) = length n + length (safeJsonStringify dbl (JObj args))"
| "assistant_block_chars dbl (ImageBlock d m) = 0"

definition tokens_of_chars :: "nat \<Rightarrow> int" where
  "tokens_of_chars chars = (int chars + 3) div 4"

fun estimateTokens :: "(number \<Rightarrow> jstr) \<Rightarrow> agent_message \<Rightarrow> int" where
  "estimateTokens dbl (UserMessage c t) = tokens_of_chars (estimateTextAndImageContentChars c)"
| "estimateTokens dbl (AssistantMessage a) =
     tokens_of_chars (sum_list (map (assistant_block_chars dbl) (as_content a)))"
| "estimateTokens dbl (CustomMessage m) = tokens_of_chars (estimateTextAndImageContentChars (cu_content m))"
| "estimateTokens dbl (ToolResultMessage r) =
     tokens_of_chars (estimateTextAndImageContentChars (Blocks (tr_content r)))"
| "estimateTokens dbl (BashExecutionMessage b) = tokens_of_chars (length (ba_command b) + length (ba_output b))"
| "estimateTokens dbl (BranchSummaryMessage s f t) = tokens_of_chars (length s)"
| "estimateTokens dbl (CompactionSummaryMessage s n t) = tokens_of_chars (length s)"
| "estimateTokens dbl (SystemMessage m) = 0"

record context_usage_estimate =
  estimate_tokens :: int
  estimate_usageTokens :: int
  estimate_trailingTokens :: int
  estimate_lastUsageIndex :: "nat option"

definition estimateContextTokens :: "(number \<Rightarrow> jstr) \<Rightarrow> agent_message list \<Rightarrow> context_usage_estimate" where
  "estimateContextTokens dbl ms =
     (case getLastAssistantUsageInfo ms of
        None \<Rightarrow>
          (let estimated = sum_list (map (estimateTokens dbl) ms)
           in \<lparr>estimate_tokens = estimated, estimate_usageTokens = 0, estimate_trailingTokens = estimated,
               estimate_lastUsageIndex = None\<rparr>)
      | Some (u, i) \<Rightarrow>
          (let usageTokens = calculateContextTokens u; trailing = sum_list (map (estimateTokens dbl) (drop (Suc i) ms))
           in \<lparr>estimate_tokens = usageTokens + trailing, estimate_usageTokens = usageTokens,
               estimate_trailingTokens = trailing, estimate_lastUsageIndex = Some i\<rparr>))"

record compaction_settings =
  st_enabled :: bool
  st_reserveTokens :: int
  st_keepRecentTokens :: int

definition DEFAULT_COMPACTION_SETTINGS :: compaction_settings where
  "DEFAULT_COMPACTION_SETTINGS = \<lparr>st_enabled = True, st_reserveTokens = 16384, st_keepRecentTokens = 20000\<rparr>"

definition shouldCompact :: "int \<Rightarrow> int \<Rightarrow> compaction_settings \<Rightarrow> bool" where
  "shouldCompact contextTokens contextWindow st \<longleftrightarrow>
     st_enabled st \<and> contextTokens > contextWindow - st_reserveTokens st"

section \<open>Facts\<close>

text \<open>A token for every four characters, rounded up.\<close>

lemma tokens_of_chars_bounds:
  "int n \<le> 4 * tokens_of_chars n" "4 * tokens_of_chars n < int n + 4"
  unfolding tokens_of_chars_def by presburger+

lemma estimateTokens_nonneg: "0 \<le> estimateTokens dbl m"
  by (cases m) (simp_all add: tokens_of_chars_def)

lemma usage_search_Some:
  "usage_search ms n = Some (u, i) \<longleftrightarrow>
    i < n \<and> getAssistantUsage (ms ! i) = Some u \<and> (\<forall>j. i < j \<and> j < n \<longrightarrow> getAssistantUsage (ms ! j) = None)"
proof (induction n)
  case (Suc n)
  show ?case
  proof (cases "getAssistantUsage (ms ! n)")
    case None
    then show ?thesis using Suc.IH by (auto simp: less_Suc_eq)
  next
    case (Some v)
    then show ?thesis by (auto simp: less_Suc_eq)
  qed
qed simp

lemma usage_search_None:
  "usage_search ms n = None \<longleftrightarrow> (\<forall>i < n. getAssistantUsage (ms ! i) = None)"
  by (induction n) (auto simp: less_Suc_eq split: option.splits)

text \<open>The estimate: what the provider counted up to its last report, and an estimate of what follows.\<close>

lemma estimateContextTokens_reported:
  assumes "getAssistantUsage m = Some u" "list_all (\<lambda>x. getAssistantUsage x = None) post"
  shows "estimateContextTokens dbl (pre @ m # post) =
    \<lparr>estimate_tokens = calculateContextTokens u + sum_list (map (estimateTokens dbl) post),
     estimate_usageTokens = calculateContextTokens u,
     estimate_trailingTokens = sum_list (map (estimateTokens dbl) post),
     estimate_lastUsageIndex = Some (length pre)\<rparr>"
proof -
  have "getLastAssistantUsageInfo (pre @ m # post) = Some (u, length pre)"
    unfolding getLastAssistantUsageInfo_def usage_search_Some
    using assms by (auto simp: nth_append list_all_length nth_Cons')
  then show ?thesis by (simp add: estimateContextTokens_def Let_def)
qed

lemma estimateContextTokens_unreported:
  assumes "list_all (\<lambda>x. getAssistantUsage x = None) ms"
  shows "estimate_tokens (estimateContextTokens dbl ms) = sum_list (map (estimateTokens dbl) ms)"
proof -
  have "getLastAssistantUsageInfo ms = None"
    using assms by (simp add: getLastAssistantUsageInfo_def usage_search_None list_all_length)
  then show ?thesis by (simp add: estimateContextTokens_def Let_def)
qed

lemma getAssistantUsage_pos: "getAssistantUsage m = Some u \<Longrightarrow> 0 < calculateContextTokens u"
  by (cases m) (auto split: if_splits)

lemma estimateContextTokens_nonneg: "0 \<le> estimate_tokens (estimateContextTokens dbl ms)"
proof -
  have s: "0 \<le> sum_list (map (estimateTokens dbl) xs)" for xs
    by (rule sum_list_nonneg) (auto intro: estimateTokens_nonneg)
  show ?thesis
  proof (cases "getLastAssistantUsageInfo ms")
    case None
    then show ?thesis using s by (simp add: estimateContextTokens_def Let_def)
  next
    case (Some ui)
    then obtain u i where "getLastAssistantUsageInfo ms = Some (u, i)" by (cases ui) simp
    moreover from this have "0 < calculateContextTokens u"
      using getAssistantUsage_pos unfolding getLastAssistantUsageInfo_def usage_search_Some by blast
    ultimately show ?thesis using s[of "drop (Suc i) ms"] by (simp add: estimateContextTokens_def Let_def)
  qed
qed

end
