(* ===== verification/FileOps.thy ===== *)
theory FileOps
  imports Messages JsonText SessionState
begin

text \<open>
  The file lists and the text of a conversation that summaries are made from
  (\<open>packages/agent/src/harness/compaction/utils.ts\<close>). A JavaScript \<open>Set\<close> of paths is the list of its
  elements in insertion order.
\<close>

section \<open>File operations\<close>

record file_operations =
  fo_read :: "jstr list"
  fo_written :: "jstr list"
  fo_edited :: "jstr list"

definition createFileOps :: file_operations where
  "createFileOps = \<lparr>fo_read = [], fo_written = [], fo_edited = []\<rparr>"

definition set_add :: "'a \<Rightarrow> 'a list \<Rightarrow> 'a list" where
  "set_add x xs = (if x \<in> set xs then xs else xs @ [x])"

definition set_add_all :: "'a list \<Rightarrow> 'a list \<Rightarrow> 'a list" where
  "set_add_all ys xs = List.fold set_add ys xs"

definition path_argument :: "(jstr \<times> json) list \<Rightarrow> jstr option" where
  "path_argument args =
     (case map_of args (js ''path'') of
        Some (JStr p) \<Rightarrow> if p \<noteq> [] then Some p else None
      | _ \<Rightarrow> None)"

fun extract_block :: "content_block \<Rightarrow> file_operations \<Rightarrow> file_operations" where
  "extract_block (ToolCallBlock i name args) ops =
     (case path_argument args of
        None \<Rightarrow> ops
      | Some p \<Rightarrow>
          if name = js ''read'' then ops\<lparr>fo_read := set_add p (fo_read ops)\<rparr>
          else if name = js ''write'' then ops\<lparr>fo_written := set_add p (fo_written ops)\<rparr>
          else if name = js ''edit'' then ops\<lparr>fo_edited := set_add p (fo_edited ops)\<rparr>
          else ops)"
| "extract_block b ops = ops"

fun extractFileOpsFromMessage :: "agent_message \<Rightarrow> file_operations \<Rightarrow> file_operations" where
  "extractFileOpsFromMessage (AssistantMessage a) ops = List.fold extract_block (as_content a) ops"
| "extractFileOpsFromMessage m ops = ops"

text \<open>The lists that an earlier summary stored in its details, when they have the expected shape.\<close>

definition detail_paths :: "string \<Rightarrow> (jstr \<times> json) list \<Rightarrow> jstr list" where
  "detail_paths k ps =
     (case map_of ps (js k) of
        Some (JArr vs) \<Rightarrow> some_of (\<lambda>v. case v of JStr p \<Rightarrow> Some p | _ \<Rightarrow> None) vs
      | _ \<Rightarrow> [])"

definition add_details :: "json option \<Rightarrow> file_operations \<Rightarrow> file_operations" where
  "add_details details ops =
     (case details of
        Some (JObj ps) \<Rightarrow>
          ops\<lparr>fo_read := set_add_all (detail_paths ''readFiles'' ps) (fo_read ops),
              fo_edited := set_add_all (detail_paths ''modifiedFiles'' ps) (fo_edited ops)\<rparr>
      | _ \<Rightarrow> ops)"

text \<open>\<open>array.sort()\<close> compares strings by their code units.\<close>

definition text_compare :: "jstr \<Rightarrow> jstr \<Rightarrow> int" where
  "text_compare l r = compare_points (map unat l) (map unat r)"

definition computeFileLists :: "file_operations \<Rightarrow> jstr list \<times> jstr list" where
  "computeFileLists ops =
     (let modified = set_add_all (fo_written ops) (set_add_all (fo_edited ops) []);
          readOnly = js_sort text_compare (filter (\<lambda>f. f \<notin> set modified) (fo_read ops))
      in (readOnly, js_sort text_compare modified))"

definition formatFileOperations :: "jstr list \<Rightarrow> jstr list \<Rightarrow> jstr" where
  "formatFileOperations readFiles modifiedFiles =
     (let sections =
            (if readFiles \<noteq> []
             then [js ''<read-files>'' @ newline @ join_text newline readFiles @ newline @ js ''</read-files>'']
             else []) @
            (if modifiedFiles \<noteq> []
             then [js ''<modified-files>'' @ newline @ join_text newline modifiedFiles @ newline @ js ''</modified-files>'']
             else [])
      in if sections = [] then [] else newline @ newline @ join_text (newline @ newline) sections)"

section \<open>Conversation text\<close>

definition TOOL_RESULT_MAX_CHARS :: nat where "TOOL_RESULT_MAX_CHARS = 2000"

definition truncateForSummary :: "jstr \<Rightarrow> nat \<Rightarrow> jstr" where
  "truncateForSummary text maxChars =
     (if length text \<le> maxChars then text
      else take maxChars text @ newline @ newline @ js ''[... '' @ nat_text (length text - maxChars) @
        js '' more characters truncated]'')"

fun thinking_text :: "content_block \<Rightarrow> jstr option" where
  "thinking_text (ThinkingBlock t s r) = Some t"
| "thinking_text b = None"

text \<open>\<open>Object.entries\<close> gives the arguments in the order of the object's properties.\<close>

fun call_text :: "(number \<Rightarrow> jstr) \<Rightarrow> content_block \<Rightarrow> jstr option" where
  "call_text dbl (ToolCallBlock i name args) =
     Some (name @ js ''('' @ join_text (js '', '') (map (\<lambda>(k, v). k @ js ''='' @ safeJsonStringify dbl v) args) @ js '')'')"
| "call_text dbl b = None"

fun conversation_parts :: "(number \<Rightarrow> jstr) \<Rightarrow> agent_message \<Rightarrow> jstr list" where
  "conversation_parts dbl (UserMessage c t) =
     (let text = contentText c [] in if text \<noteq> [] then [js ''[User]: '' @ text] else [])"
| "conversation_parts dbl (AssistantMessage a) =
     (let thinking = some_of thinking_text (as_content a); calls = some_of (call_text dbl) (as_content a)
      in (if thinking \<noteq> [] then [js ''[Assistant thinking]: '' @ join_text newline thinking] else []) @
         (if list_ex (\<lambda>b. block_text b \<noteq> None) (as_content a)
          then [js ''[Assistant]: '' @ contentText (Blocks (as_content a)) newline] else []) @
         (if calls \<noteq> [] then [js ''[Assistant tool calls]: '' @ join_text (js ''; '') calls] else []))"
| "conversation_parts dbl (ToolResultMessage r) =
     (let text = contentText (Blocks (tr_content r)) []
      in if text \<noteq> [] then [js ''[Tool result]: '' @ truncateForSummary text TOOL_RESULT_MAX_CHARS] else [])"
| "conversation_parts dbl m = []"

definition serializeConversation :: "(number \<Rightarrow> jstr) \<Rightarrow> agent_message list \<Rightarrow> jstr" where
  "serializeConversation dbl ms =
     join_text (newline @ newline) (concat (map (conversation_parts dbl) ms))"

section \<open>Facts on the file lists\<close>

lemma set_set_add [simp]: "set (set_add x xs) = insert x (set xs)"
  by (auto simp: set_add_def)

lemma distinct_set_add: "distinct xs \<Longrightarrow> distinct (set_add x xs)"
  by (simp add: set_add_def)

lemma set_set_add_all [simp]: "set (set_add_all ys xs) = set ys \<union> set xs"
  unfolding set_add_all_def by (induction ys arbitrary: xs) auto

lemma distinct_set_add_all: "distinct xs \<Longrightarrow> distinct (set_add_all ys xs)"
  unfolding set_add_all_def by (induction ys arbitrary: xs) (simp_all add: distinct_set_add)

definition wf_file_ops :: "file_operations \<Rightarrow> bool" where
  "wf_file_ops ops \<longleftrightarrow> distinct (fo_read ops) \<and> distinct (fo_written ops) \<and> distinct (fo_edited ops)"

lemma wf_createFileOps: "wf_file_ops createFileOps"
  by (simp add: wf_file_ops_def createFileOps_def)

lemma wf_extract_block: "wf_file_ops ops \<Longrightarrow> wf_file_ops (extract_block b ops)"
  by (cases b) (auto simp: wf_file_ops_def distinct_set_add split: option.splits)

lemma wf_fold: "(\<And>x s. P s \<Longrightarrow> P (f x s)) \<Longrightarrow> P s \<Longrightarrow> P (List.fold f xs s)"
  by (induction xs arbitrary: s) auto

lemma wf_extractFileOps: "wf_file_ops ops \<Longrightarrow> wf_file_ops (extractFileOpsFromMessage m ops)"
  by (cases m) (auto intro: wf_fold[where P = wf_file_ops] wf_extract_block)

lemma wf_add_details: "wf_file_ops ops \<Longrightarrow> wf_file_ops (add_details d ops)"
  by (auto simp: add_details_def wf_file_ops_def distinct_set_add_all split: option.splits json.splits)

lemma text_compare_le: "text_compare l r \<le> 0 \<longleftrightarrow> map unat l \<le> map unat r"
  by (simp add: text_compare_def compare_points_le)

text \<open>
  The lists are sorted by code units, without duplicates and disjoint: a file that was modified is never
  listed as read only.
\<close>

lemma computeFileLists_spec:
  assumes "wf_file_ops ops" "computeFileLists ops = (readFiles, modifiedFiles)"
  shows "set modifiedFiles = set (fo_edited ops) \<union> set (fo_written ops)"
    and "set readFiles = set (fo_read ops) - set modifiedFiles"
    and "distinct readFiles" "distinct modifiedFiles"
    and "sorted (map (map unat) readFiles)" "sorted (map (map unat) modifiedFiles)"
proof -
  have "readFiles = js_sort text_compare (filter (\<lambda>f. f \<notin> set (set_add_all (fo_written ops) (set_add_all (fo_edited ops) [])))
      (fo_read ops))" "modifiedFiles = js_sort text_compare (set_add_all (fo_written ops) (set_add_all (fo_edited ops) []))"
    using assms(2) by (auto simp: computeFileLists_def Let_def)
  note eqs = this
  show "set modifiedFiles = set (fo_edited ops) \<union> set (fo_written ops)"
    "set readFiles = set (fo_read ops) - set modifiedFiles" by (auto simp: eqs)
  show "distinct readFiles" "distinct modifiedFiles"
    using assms(1) by (simp_all add: eqs distinct_js_sort distinct_set_add_all wf_file_ops_def)
  show "sorted (map (map unat) readFiles)" "sorted (map (map unat) modifiedFiles)"
    unfolding eqs by (rule js_sort_sorted, rule text_compare_le)+
qed

text \<open>Truncation keeps a short text and at most the given number of characters of a long one.\<close>

lemma truncateForSummary_prefix: "take n (truncateForSummary t n) = take n t"
  by (auto simp: truncateForSummary_def)

end
