(* ===== verification/Compaction.thy ===== *)
theory Compaction
  imports Tokens FileOps
begin

text \<open>
  Where a conversation is cut and what a compaction summarises, prefixes and keeps
  (\<open>packages/agent/src/harness/compaction/compaction.ts\<close>: \<open>findCutPoint\<close>, \<open>prepareCompaction\<close> and what they
  call). An index that runs past the entries is the \<open>TypeError\<close> of reading \<open>undefined\<close>, the result \<open>None\<close>;
  the index -1 of an absent turn start is \<open>None\<close> too.
\<close>

section \<open>Messages of entries\<close>

fun getMessageFromEntry :: "session_entry \<Rightarrow> agent_message option" where
  "getMessageFromEntry e =
     (case entry_body e of
        Message m t \<Rightarrow> Some m
      | BranchSummary from_id summary d u h \<Rightarrow> Some (createBranchSummaryMessage summary from_id (entry_timestamp e))
      | Compaction summary r tokensBefore d u h \<Rightarrow>
          Some (createCompactionSummaryMessage summary tokensBefore (entry_timestamp e))
      | Custom d \<Rightarrow> None)"

declare getMessageFromEntry.simps [simp del]

definition getMessageFromEntryForCompaction :: "session_entry \<Rightarrow> agent_message option" where
  "getMessageFromEntryForCompaction e = (if is_compaction e then None else getMessageFromEntry e)"

definition extractFileOperations :: "agent_message list \<Rightarrow> session_entry list \<Rightarrow> nat option \<Rightarrow> file_operations" where
  "extractFileOperations ms path prevCompactionIndex =
     List.fold extractFileOpsFromMessage ms
       (case prevCompactionIndex of
          None \<Rightarrow> createFileOps
        | Some i \<Rightarrow>
            (case entry_body (path ! i) of
               Compaction s r n details u h \<Rightarrow> add_details details createFileOps
             | _ \<Rightarrow> createFileOps))"

section \<open>Cut points\<close>

text \<open>An entry may be the first that is kept: any message but a tool result, and a branch summary.\<close>

definition valid_cut :: "session_entry \<Rightarrow> bool" where
  "valid_cut e =
     (case entry_body e of
        Message m t \<Rightarrow>
          (case m of
             BashExecutionMessage _ \<Rightarrow> True | CustomMessage _ \<Rightarrow> True | BranchSummaryMessage _ _ _ \<Rightarrow> True
           | CompactionSummaryMessage _ _ _ \<Rightarrow> True | UserMessage _ _ \<Rightarrow> True | AssistantMessage _ \<Rightarrow> True
           | ToolResultMessage _ \<Rightarrow> False | SystemMessage _ \<Rightarrow> False)
      | BranchSummary f s d u h \<Rightarrow> True
      | Compaction s r n d u h \<Rightarrow> False
      | Custom d \<Rightarrow> False)"

definition findValidCutPoints :: "session_entry list \<Rightarrow> nat \<Rightarrow> nat \<Rightarrow> nat list" where
  "findValidCutPoints es start stop = filter (\<lambda>i. valid_cut (es ! i)) [start..<stop]"

definition starts_turn :: "session_entry \<Rightarrow> bool" where
  "starts_turn e =
     (case entry_body e of
        BranchSummary f s d u h \<Rightarrow> True
      | Message m t \<Rightarrow> (case m of UserMessage _ _ \<Rightarrow> True | BashExecutionMessage _ \<Rightarrow> True | _ \<Rightarrow> False)
      | _ \<Rightarrow> False)"

text \<open>The loop runs down from the entry; its argument is one more than the index it looks at.\<close>

fun turn_search :: "session_entry list \<Rightarrow> nat \<Rightarrow> nat \<Rightarrow> nat option" where
  "turn_search es start 0 = None"
| "turn_search es start (Suc i) =
     (if i < start then None else if starts_turn (es ! i) then Some i else turn_search es start i)"

definition findTurnStartIndex :: "session_entry list \<Rightarrow> nat \<Rightarrow> nat \<Rightarrow> nat option" where
  "findTurnStartIndex es entryIndex start = turn_search es start (Suc entryIndex)"

text \<open>The newest index from which on the messages reach the budget.\<close>

fun budget_search :: "(number \<Rightarrow> jstr) \<Rightarrow> session_entry list \<Rightarrow> nat \<Rightarrow> int \<Rightarrow> nat \<Rightarrow> int \<Rightarrow> nat option" where
  "budget_search dbl es start keep 0 acc = None"
| "budget_search dbl es start keep (Suc i) acc =
     (if i < start then None
      else case entry_body (es ! i) of
        Message m t \<Rightarrow>
          (if acc + estimateTokens dbl m \<ge> keep then Some i
           else budget_search dbl es start keep i (acc + estimateTokens dbl m))
      | _ \<Rightarrow> budget_search dbl es start keep i acc)"

definition chosen_cut :: "nat list \<Rightarrow> nat option \<Rightarrow> nat" where
  "chosen_cut cutPoints reached =
     (case reached of
        None \<Rightarrow> hd cutPoints
      | Some i \<Rightarrow> (case List.find (\<lambda>c. i \<le> c) cutPoints of None \<Rightarrow> hd cutPoints | Some c \<Rightarrow> c))"

text \<open>Entries before the cut that hold no message are kept with it.\<close>

fun step_back :: "session_entry list \<Rightarrow> nat \<Rightarrow> nat \<Rightarrow> nat" where
  "step_back es start 0 = 0"
| "step_back es start (Suc c) =
     (if Suc c \<le> start then Suc c
      else if entry_type (es ! c) = CompactionType then Suc c
      else if entry_type (es ! c) = MessageType then Suc c
      else step_back es start c)"

record cut_point_result =
  firstKeptEntryIndex :: nat
  turnStartIndex :: "nat option"
  isSplitTurn :: bool

definition is_user_message :: "session_entry \<Rightarrow> bool" where
  "is_user_message e = (case entry_body e of Message m t \<Rightarrow> (case m of UserMessage _ _ \<Rightarrow> True | _ \<Rightarrow> False) | _ \<Rightarrow> False)"

definition findCutPoint ::
    "(number \<Rightarrow> jstr) \<Rightarrow> session_entry list \<Rightarrow> nat \<Rightarrow> nat \<Rightarrow> int \<Rightarrow> cut_point_result option" where
  "findCutPoint dbl es start stop keep =
     (if start < stop \<and> length es < stop then None
      else let cutPoints = findValidCutPoints es start stop in
        if cutPoints = [] then Some \<lparr>firstKeptEntryIndex = start, turnStartIndex = None, isSplitTurn = False\<rparr>
        else let cutIndex = step_back es start (chosen_cut cutPoints (budget_search dbl es start keep stop 0));
                 turn = (if is_user_message (es ! cutIndex) then None else findTurnStartIndex es cutIndex start)
             in Some \<lparr>firstKeptEntryIndex = cutIndex, turnStartIndex = turn,
                  isSplitTurn = (\<not> is_user_message (es ! cutIndex) \<and> turn \<noteq> None)\<rparr>)"

section \<open>Preparation\<close>

record compaction_preparation =
  messagesToSummarize :: "agent_message list"
  turnPrefixMessages :: "agent_message list"
  retainedTail :: "agent_message list"
  cp_isSplitTurn :: bool
  tokensBefore :: int
  previousSummary :: "jstr option"
  fileOps :: file_operations
  cp_settings :: compaction_settings

text \<open>The messages that an earlier compaction kept stand before what was appended after it.\<close>

definition retained_id :: "jstr \<Rightarrow> nat \<Rightarrow> jstr" where
  "retained_id i n = i @ js '':retained:'' @ nat_text n"

definition virtual_entry :: "session_entry \<Rightarrow> nat \<Rightarrow> agent_message \<Rightarrow> session_entry" where
  "virtual_entry c n m =
     \<lparr>entry_id = retained_id (entry_id c) n,
      entry_parentId = Some (if n = 0 then entry_id c else retained_id (entry_id c) (n - 1)),
      entry_customType = None, entry_body = Message m False,
      entry_seq = entry_seq c, entry_timestamp = message_timestamp m\<rparr>"

definition kept_messages :: "session_entry \<Rightarrow> agent_message list" where
  "kept_messages c = (case entry_body c of Compaction s r n d u h \<Rightarrow> r | _ \<Rightarrow> [])"

definition summary_of :: "session_entry \<Rightarrow> jstr option" where
  "summary_of c = (case entry_body c of Compaction s r n d u h \<Rightarrow> Some s | _ \<Rightarrow> None)"

definition compactable_entries :: "session_entry list \<Rightarrow> session_entry list" where
  "compactable_entries path =
     (case last_compaction path of
        None \<Rightarrow> path
      | Some i \<Rightarrow>
          map (\<lambda>(n, m). virtual_entry (path ! i) n m) (List.enumerate 0 (kept_messages (path ! i))) @
          drop (Suc i) path)"

definition entry_messages :: "session_entry list \<Rightarrow> agent_message list" where
  "entry_messages es = some_of getMessageFromEntryForCompaction es"

definition prepareCompaction ::
    "(number \<Rightarrow> jstr) \<Rightarrow> session_entry list \<Rightarrow> compaction_settings \<Rightarrow> compaction_preparation option" where
  "prepareCompaction dbl path st =
     (if path = [] \<or> is_compaction (last path) then None
      else
        let prev = last_compaction path;
            es = compactable_entries path;
            tokens = estimate_tokens (estimateContextTokens dbl
              (concat (map sessionEntryToContextMessages (buildContextEntries path))))
        in case findCutPoint dbl es 0 (length es) (st_keepRecentTokens st) of
             None \<Rightarrow> None
           | Some cp \<Rightarrow>
               let kept = firstKeptEntryIndex cp;
                   historyEnd = (if isSplitTurn cp then the (turnStartIndex cp) else kept);
                   history = entry_messages (slice es 0 historyEnd);
                   prefix = (if isSplitTurn cp then entry_messages (slice es historyEnd kept) else []);
                   ops = extractFileOperations history path prev
               in Some \<lparr>messagesToSummarize = history, turnPrefixMessages = prefix,
                    retainedTail = entry_messages (slice es kept (length es)),
                    cp_isSplitTurn = isSplitTurn cp, tokensBefore = tokens,
                    previousSummary = (case prev of None \<Rightarrow> None | Some i \<Rightarrow> summary_of (path ! i)),
                    fileOps = List.fold extractFileOpsFromMessage prefix ops,
                    cp_settings = st\<rparr>)"

section \<open>Bounds of the loops\<close>

lemma in_cut_points: "i \<in> set (findValidCutPoints es start stop) \<longleftrightarrow> start \<le> i \<and> i < stop \<and> valid_cut (es ! i)"
  by (auto simp: findValidCutPoints_def)

lemma turn_search_Some:
  "turn_search es start n = Some i \<Longrightarrow> start \<le> i \<and> i < n \<and> starts_turn (es ! i)"
  by (induction n) (auto split: if_splits)

lemma chosen_cut_in: "cps \<noteq> [] \<Longrightarrow> chosen_cut cps r \<in> set cps"
  by (auto simp: chosen_cut_def find_Some_iff split: option.splits)

lemma step_back_le: "step_back es start c \<le> c"
  by (induction c) auto

lemma step_back_ge: "start \<le> c \<Longrightarrow> start \<le> step_back es start c"
  by (induction c) auto

lemma step_back_between:
  "step_back es start c \<le> j \<Longrightarrow> j < c \<Longrightarrow> entry_type (es ! j) \<in> {BranchSummaryType, CustomType}"
proof (induction c)
  case (Suc c)
  then show ?case by (cases "j = c"; cases "entry_type (es ! c)") (auto split: if_splits)
qed simp

text \<open>What a successful search yields: the cut comes from a valid cut point, past entries without a message.\<close>

lemma findCutPoint_cases:
  assumes "findCutPoint dbl es start stop keep = Some r"
  obtains (none) "findValidCutPoints es start stop = []"
      "r = \<lparr>firstKeptEntryIndex = start, turnStartIndex = None, isSplitTurn = False\<rparr>"
  | (at) c where "c \<in> set (findValidCutPoints es start stop)"
      "c = chosen_cut (findValidCutPoints es start stop) (budget_search dbl es start keep stop 0)"
      "firstKeptEntryIndex r = step_back es start c" "stop \<le> length es"
      "\<And>i. turnStartIndex r = Some i \<Longrightarrow> start \<le> i \<and> i \<le> firstKeptEntryIndex r \<and> starts_turn (es ! i)"
      "isSplitTurn r \<longleftrightarrow> turnStartIndex r \<noteq> None"
proof (cases "findValidCutPoints es start stop = []")
  case True
  then show ?thesis using assms none by (auto simp: findCutPoint_def Let_def split: if_splits)
next
  case False
  let ?c = "chosen_cut (findValidCutPoints es start stop) (budget_search dbl es start keep stop 0)"
  have c: "?c \<in> set (findValidCutPoints es start stop)" using False by (rule chosen_cut_in)
  then have "start < stop" by (auto simp: in_cut_points)
  with assms False have len: "stop \<le> length es" and r: "firstKeptEntryIndex r = step_back es start ?c"
    "turnStartIndex r = (if is_user_message (es ! firstKeptEntryIndex r) then None
       else findTurnStartIndex es (firstKeptEntryIndex r) start)"
    "isSplitTurn r \<longleftrightarrow> \<not> is_user_message (es ! firstKeptEntryIndex r) \<and> turnStartIndex r \<noteq> None"
    by (auto simp: findCutPoint_def Let_def split: if_splits)
  have "start \<le> i \<and> i \<le> firstKeptEntryIndex r \<and> starts_turn (es ! i)" if "turnStartIndex r = Some i" for i
    using that r(2) turn_search_Some[of es start "Suc (firstKeptEntryIndex r)" i]
    by (auto simp: findTurnStartIndex_def split: if_splits)
  then show ?thesis using at[OF c refl r(1) len] r(2,3) by auto
qed

lemma findCutPoint_bounds:
  assumes "findCutPoint dbl es start stop keep = Some r" "start \<le> stop"
  shows "start \<le> firstKeptEntryIndex r \<and> firstKeptEntryIndex r \<le> stop"
  using assms(1)
proof (cases rule: findCutPoint_cases)
  case none
  then show ?thesis using assms(2) by simp
next
  case (at c)
  then have "start \<le> c" "c < stop" by (auto simp: in_cut_points)
  then show ?thesis using at step_back_ge[of start c es] step_back_le[of es start c] by simp
qed

lemma findCutPoint_total: "stop \<le> length es \<Longrightarrow> findCutPoint dbl es start stop keep \<noteq> None"
  by (auto simp: findCutPoint_def Let_def)

text \<open>Preparation gives nothing exactly for an empty path and for one that ends in a compaction.\<close>

lemma prepareCompaction_None:
  "prepareCompaction dbl path st = None \<longleftrightarrow> path = [] \<or> is_compaction (last path)"
  using findCutPoint_total[of "length (compactable_entries path)" "compactable_entries path" dbl 0 "st_keepRecentTokens st"]
  by (auto simp: prepareCompaction_def Let_def split: option.splits)

section \<open>Nothing is lost\<close>

lemma entry_messages_append [simp]: "entry_messages (xs @ ys) = entry_messages xs @ entry_messages ys"
  by (simp add: entry_messages_def)

text \<open>The parts of a preparation as slices of the compactable entries.\<close>

lemma prepareCompaction_parts:
  assumes "prepareCompaction dbl path st = Some p"
  obtains cp es h where "es = compactable_entries path"
    "findCutPoint dbl es 0 (length es) (st_keepRecentTokens st) = Some cp"
    "h = (if isSplitTurn cp then the (turnStartIndex cp) else firstKeptEntryIndex cp)"
    "h \<le> firstKeptEntryIndex cp" "firstKeptEntryIndex cp \<le> length es"
    "messagesToSummarize p = entry_messages (take h es)"
    "turnPrefixMessages p = entry_messages (slice es h (firstKeptEntryIndex cp))"
    "retainedTail p = entry_messages (drop (firstKeptEntryIndex cp) es)"
    "cp_isSplitTurn p = isSplitTurn cp"
    "\<not> isSplitTurn cp \<or> starts_turn (es ! h)"
proof -
  let ?es = "compactable_entries path"
  obtain cp where cp: "findCutPoint dbl ?es 0 (length ?es) (st_keepRecentTokens st) = Some cp"
    using findCutPoint_total[of "length ?es" ?es] by blast
  let ?h = "if isSplitTurn cp then the (turnStartIndex cp) else firstKeptEntryIndex cp"
  from cp have h: "?h \<le> firstKeptEntryIndex cp \<and> (isSplitTurn cp \<longrightarrow> starts_turn (?es ! ?h))"
  proof (cases rule: findCutPoint_cases)
    case (at c)
    then show ?thesis by auto
  qed simp
  have "slice ?es ?h (firstKeptEntryIndex cp) = []" if "\<not> isSplitTurn cp"
    using that by (simp add: slice_def)
  then show ?thesis
    using that[OF refl cp refl] h findCutPoint_bounds[OF cp] assms cp
    by (auto simp: prepareCompaction_def Let_def entry_messages_def split: if_splits)
qed

lemma entry_messages_virtual:
  "entry_messages (map (\<lambda>(n, m). virtual_entry c n m) (List.enumerate k ms)) = ms"
  by (induction ms arbitrary: k)
    (simp_all add: entry_messages_def virtual_entry_def getMessageFromEntryForCompaction_def
      getMessageFromEntry.simps is_compaction_def entry_type_def)

lemma compactable_messages:
  "entry_messages (compactable_entries path) =
    (case last_compaction path of
       None \<Rightarrow> entry_messages path
     | Some i \<Rightarrow> kept_messages (path ! i) @ entry_messages (drop (Suc i) path))"
  by (simp add: compactable_entries_def entry_messages_virtual split: option.splits)

text \<open>
  C24. Compaction loses and repeats no message: what it summarises, the prefix of a split turn and what it keeps
  are, in this order, exactly the messages since the last compaction, after those that compaction kept. It
  applies to every path but the empty one and one that ends in a compaction.
\<close>
theorem prepareCompaction_partition:
  "(prepareCompaction dbl path st = None) = (path = [] \<or> is_compaction (last path)) \<and>
   (case prepareCompaction dbl path st of
      None \<Rightarrow> True
    | Some p \<Rightarrow>
        messagesToSummarize p @ turnPrefixMessages p @ retainedTail p =
          (case last_compaction path of
             None \<Rightarrow> entry_messages path
           | Some i \<Rightarrow> kept_messages (path ! i) @ entry_messages (drop (Suc i) path)))"
proof (cases "prepareCompaction dbl path st")
  case None
  then show ?thesis using prepareCompaction_None[of dbl path st] by simp
next
  case (Some p)
  from prepareCompaction_parts[OF Some] obtain es h k where
    "es = compactable_entries path" "h \<le> k"
    "messagesToSummarize p = entry_messages (take h es)" "turnPrefixMessages p = entry_messages (slice es h k)"
    "retainedTail p = entry_messages (drop k es)" by metis
  moreover have "take h es @ slice es h k @ drop k es = es"
    using \<open>h \<le> k\<close> by (metis append_assoc append_take_drop_id slice_append_tail)
  ultimately have "messagesToSummarize p @ turnPrefixMessages p @ retainedTail p = entry_messages (compactable_entries path)"
    by (metis entry_messages_append)
  then show ?thesis using prepareCompaction_None[of dbl path st] Some by (simp add: compactable_messages)
qed

section \<open>Tool results stay with their calls\<close>

text \<open>
  The order that model providers require: a tool result answers a call of the last assistant message, with
  only results between them.
\<close>

definition call_ids :: "assistant_message \<Rightarrow> jstr list" where
  "call_ids a = some_of (\<lambda>b. case b of ToolCallBlock i n args \<Rightarrow> Some i | _ \<Rightarrow> None) (as_content a)"

fun results_follow_calls :: "jstr list \<Rightarrow> agent_message list \<Rightarrow> bool" where
  "results_follow_calls ids [] = True"
| "results_follow_calls ids (m # ms) =
     (case m of
        ToolResultMessage r \<Rightarrow> tr_toolCallId r \<in> set ids \<and> results_follow_calls ids ms
      | AssistantMessage a \<Rightarrow> results_follow_calls (call_ids a) ms
      | _ \<Rightarrow> results_follow_calls [] ms)"

lemma results_follow_calls_prefix:
  "results_follow_calls ids (xs @ ys) \<Longrightarrow> results_follow_calls ids xs"
  by (induction xs arbitrary: ids) (auto split: agent_message.splits)

lemma results_follow_calls_start:
  "results_follow_calls ids ys \<Longrightarrow> ys = [] \<or> \<not> is_tool_result (hd ys) \<Longrightarrow> results_follow_calls [] ys"
  by (cases ys) (auto split: agent_message.splits)

lemma results_follow_calls_suffix:
  "results_follow_calls ids (xs @ ys) \<Longrightarrow> ys = [] \<or> \<not> is_tool_result (hd ys) \<Longrightarrow> results_follow_calls [] ys"
proof (induction xs arbitrary: ids)
  case Nil
  then show ?case by (simp add: results_follow_calls_start)
next
  case (Cons m xs)
  then obtain ids' where "results_follow_calls ids' (xs @ ys)" by (auto split: agent_message.splits)
  then show ?case using Cons.IH Cons.prems(2) by blast
qed

text \<open>Messages that start at a turn or at a valid cut do not start with a tool result.\<close>

lemma entry_messages_head:
  assumes "k \<le> c" "c < length es" "valid_cut (es ! c) \<or> starts_turn (es ! c)"
    and "\<And>j. k \<le> j \<Longrightarrow> j < c \<Longrightarrow> entry_type (es ! j) \<in> {BranchSummaryType, CustomType}"
  shows "\<exists>m ms. entry_messages (drop k es) = m # ms \<and> \<not> is_tool_result m"
  using assms
proof (induction "c - k" arbitrary: k)
  case 0
  then have "drop k es = es ! c # drop (Suc c) es" by (simp add: Cons_nth_drop_Suc)
  then show ?case using 0(4)
    by (auto simp: entry_messages_def getMessageFromEntryForCompaction_def getMessageFromEntry.simps is_compaction_def
        entry_type_def valid_cut_def starts_turn_def createBranchSummaryMessage_def split: entry_body.splits agent_message.splits)
next
  case (Suc n)
  then have k: "k < c" by simp
  then have d: "drop k es = es ! k # drop (Suc k) es" using Suc(4) by (simp add: Cons_nth_drop_Suc)
  have "\<exists>m ms. entry_messages (drop (Suc k) es) = m # ms \<and> \<not> is_tool_result m"
    by (rule Suc(1)) (use Suc k in auto)
  moreover have "entry_type (es ! k) \<in> {BranchSummaryType, CustomType}" using Suc(6)[of k] k by simp
  ultimately show ?case
    by (auto simp: d entry_messages_def getMessageFromEntryForCompaction_def getMessageFromEntry.simps is_compaction_def
        entry_type_def createBranchSummaryMessage_def split: entry_body.splits)
qed

text \<open>What is kept starts at no tool result, unless nothing is summarised.\<close>

lemma retainedTail_head:
  assumes "prepareCompaction dbl path st = Some p"
  obtains (all) "messagesToSummarize p = []" "turnPrefixMessages p = []"
  | (cut) m ms where "retainedTail p = m # ms" "\<not> is_tool_result m"
proof -
  from prepareCompaction_parts[OF assms] obtain cp es h where
    p: "findCutPoint dbl es 0 (length es) (st_keepRecentTokens st) = Some cp"
    "h = (if isSplitTurn cp then the (turnStartIndex cp) else firstKeptEntryIndex cp)"
    "messagesToSummarize p = entry_messages (take h es)"
    "turnPrefixMessages p = entry_messages (slice es h (firstKeptEntryIndex cp))"
    "retainedTail p = entry_messages (drop (firstKeptEntryIndex cp) es)" by metis
  from p(1) show ?thesis
  proof (cases rule: findCutPoint_cases)
    case none
    then show ?thesis using p all by (simp add: entry_messages_def)
  next
    case (at c)
    then have "c < length es" "valid_cut (es ! c)" by (auto simp: in_cut_points)
    then have "\<exists>m ms. entry_messages (drop (firstKeptEntryIndex cp) es) = m # ms \<and> \<not> is_tool_result m"
      by (intro entry_messages_head) (auto simp: at(3) step_back_le dest: step_back_between)
    then show ?thesis using cut p by metis
  qed
qed

text \<open>
  C26. A compaction never separates a tool result from the call it answers: when the messages it works on have every
  tool result right behind the assistant message that made the call, so have the part it summarises, the
  prefix of a split turn, and the part it keeps.
\<close>
theorem prepareCompaction_pairs:
  assumes "prepareCompaction dbl path st = Some p"
    and "results_follow_calls [] (entry_messages (compactable_entries path))"
  shows "results_follow_calls [] (messagesToSummarize p) \<and> results_follow_calls [] (turnPrefixMessages p) \<and>
    results_follow_calls [] (retainedTail p)"
proof -
  obtain cp es h where es: "es = compactable_entries path" and
    "findCutPoint dbl es 0 (length es) (st_keepRecentTokens st) = Some cp" and
    h: "h = (if isSplitTurn cp then the (turnStartIndex cp) else firstKeptEntryIndex cp)" and
    p1: "h \<le> firstKeptEntryIndex cp" and k: "firstKeptEntryIndex cp \<le> length es" and
    p2: "messagesToSummarize p = entry_messages (take h es)" and
    p3: "turnPrefixMessages p = entry_messages (slice es h (firstKeptEntryIndex cp))" and
    p4: "retainedTail p = entry_messages (drop (firstKeptEntryIndex cp) es)" and
    "cp_isSplitTurn p = isSplitTurn cp" and
    split: "\<not> isSplitTurn cp \<or> starts_turn (es ! h)"
    by (rule prepareCompaction_parts[OF assms(1)])
  note p = p1 p2 p3 p4
  let ?k = "firstKeptEntryIndex cp"
  have rest: "entry_messages (drop h es) = turnPrefixMessages p @ retainedTail p"
    unfolding p(3,4) entry_messages_append[symmetric] using slice_drop[OF p(1), of es] by simp
  have whole: "entry_messages es = messagesToSummarize p @ turnPrefixMessages p @ retainedTail p"
    unfolding rest[symmetric] p(2) entry_messages_append[symmetric] by simp
  have all: "results_follow_calls [] (messagesToSummarize p @ turnPrefixMessages p @ retainedTail p)"
    using assms(2) whole es by simp
  have tail: "results_follow_calls [] (retainedTail p)"
    using assms(1)
  proof (cases rule: retainedTail_head)
    case all
    then show ?thesis using \<open>results_follow_calls [] (messagesToSummarize p @ turnPrefixMessages p @ retainedTail p)\<close> by simp
  next
    case (cut m ms)
    show ?thesis
      by (rule results_follow_calls_suffix[of "[]" "messagesToSummarize p @ turnPrefixMessages p"])
        (use all cut in simp_all)
  qed
  have "results_follow_calls [] (turnPrefixMessages p)"
  proof (cases "turnPrefixMessages p")
    case (Cons m ms)
    then have "h \<noteq> ?k" using p(3) by (auto simp: slice_def entry_messages_def)
    then have "isSplitTurn cp" using h by (simp split: if_splits)
    then have "\<exists>m ms. entry_messages (drop h es) = m # ms \<and> \<not> is_tool_result m"
      using entry_messages_head[of h h es] p(1) k split \<open>h \<noteq> ?k\<close> by auto
    then have "\<not> is_tool_result m" using Cons rest by auto
    then have "results_follow_calls [] (turnPrefixMessages p @ retainedTail p)"
      using results_follow_calls_suffix[OF all] Cons by simp
    then show ?thesis by (rule results_follow_calls_prefix)
  qed simp
  then show ?thesis using tail results_follow_calls_prefix[OF all] by simp
qed

section \<open>The token budget\<close>

definition entry_tokens :: "(number \<Rightarrow> jstr) \<Rightarrow> session_entry \<Rightarrow> int" where
  "entry_tokens dbl e = (case entry_body e of Message m t \<Rightarrow> estimateTokens dbl m | _ \<Rightarrow> 0)"

definition tokens_from :: "(number \<Rightarrow> jstr) \<Rightarrow> session_entry list \<Rightarrow> nat \<Rightarrow> nat \<Rightarrow> int" where
  "tokens_from dbl es i stop = sum_list (map (\<lambda>j. entry_tokens dbl (es ! j)) [i..<stop])"

lemma tokens_from_Suc: "i < stop \<Longrightarrow> tokens_from dbl es i stop = entry_tokens dbl (es ! i) + tokens_from dbl es (Suc i) stop"
  by (simp add: tokens_from_def upt_conv_Cons)

lemma tokens_from_self [simp]: "tokens_from dbl es stop stop = 0"
  by (simp add: tokens_from_def)

lemma budget_search_Some:
  assumes "budget_search dbl es start keep n acc = Some i" "n \<le> stop" "acc = tokens_from dbl es n stop" "acc < keep"
  shows "start \<le> i \<and> i < stop \<and> keep \<le> tokens_from dbl es i stop \<and> tokens_from dbl es (Suc i) stop < keep"
  using assms
proof (induction n arbitrary: acc)
  case (Suc n)
  have step: "tokens_from dbl es n stop = acc + entry_tokens dbl (es ! n)"
    using Suc.prems(2,3) tokens_from_Suc[of n stop dbl es] by simp
  show ?case
  proof (cases "\<exists>m t. entry_body (es ! n) = Message m t")
    case True
    then obtain m t where m: "entry_body (es ! n) = Message m t" by blast
    then have acc: "acc + estimateTokens dbl m = tokens_from dbl es n stop" using step by (simp add: entry_tokens_def)
    show ?thesis
    proof (cases "acc + estimateTokens dbl m \<ge> keep")
      case reached: True
      then show ?thesis using Suc.prems step m by (auto simp: entry_tokens_def split: if_splits)
    next
      case False
      then have "budget_search dbl es start keep n (acc + estimateTokens dbl m) = Some i"
        using Suc.prems(1) m by (simp split: if_splits)
      from Suc.IH[OF this _ acc] show ?thesis using Suc.prems(2) False by simp
    qed
  next
    case False
    then have "entry_tokens dbl (es ! n) = 0" "budget_search dbl es start keep n acc = Some i"
      using Suc.prems(1) by (auto simp: entry_tokens_def split: if_splits entry_body.splits)
    moreover from this step have "acc = tokens_from dbl es n stop" by simp
    ultimately show ?thesis using Suc.IH[of acc] Suc.prems(2,4) by simp
  qed
qed simp

lemma budget_search_None:
  assumes "budget_search dbl es start keep n acc = None" "n \<le> stop" "start \<le> n" "acc = tokens_from dbl es n stop" "acc < keep"
  shows "tokens_from dbl es start stop < keep"
  using assms
proof (induction n arbitrary: acc)
  case 0
  then show ?case by simp
next
  case (Suc n)
  have step: "tokens_from dbl es n stop = acc + entry_tokens dbl (es ! n)"
    using Suc.prems(2,4) tokens_from_Suc[of n stop dbl es] by simp
  show ?case
  proof (cases "start = Suc n")
    case True
    then show ?thesis using Suc.prems by simp
  next
    case start: False
    show ?thesis
    proof (cases "\<exists>m t. entry_body (es ! n) = Message m t")
      case True
      then obtain m t where m: "entry_body (es ! n) = Message m t" by blast
      then have "budget_search dbl es start keep n (acc + estimateTokens dbl m) = None" "acc + estimateTokens dbl m < keep"
        using Suc.prems(1,3) start by (auto split: if_splits)
      moreover have "acc + estimateTokens dbl m = tokens_from dbl es n stop" using step m by (simp add: entry_tokens_def)
      ultimately show ?thesis using Suc.IH Suc.prems(2,3) start by (metis Suc_leD le_SucE)
    next
      case False
      then have "entry_tokens dbl (es ! n) = 0" "budget_search dbl es start keep n acc = None"
        using Suc.prems(1,3) start by (auto simp: entry_tokens_def split: if_splits entry_body.splits)
      moreover from this step have "acc = tokens_from dbl es n stop" by simp
      ultimately show ?thesis using Suc.IH[of acc] Suc.prems(2,3,5) start by simp
    qed
  qed
qed

text \<open>
  The part that is kept meets the token budget up to the granularity of cut points: either all messages
  together are below the budget; or the kept part starts at the first possible cut behind the index where
  the messages from there to the end reach the budget, and those after that index are below it; or no cut is
  possible behind that index, and the kept part starts at the first possible cut of all.
\<close>
theorem findCutPoint_budget:
  assumes "findCutPoint dbl es start stop keep = Some r" "0 < keep" "start \<le> stop"
    and "findValidCutPoints es start stop \<noteq> []"
  shows "\<exists>c. valid_cut (es ! c) \<and> start \<le> c \<and> c < stop \<and> firstKeptEntryIndex r = step_back es start c \<and>
    (tokens_from dbl es start stop < keep \<and> list_all (\<lambda>j. \<not> valid_cut (es ! j)) [start..<c] \<or>
     (\<exists>i. keep \<le> tokens_from dbl es i stop \<and> tokens_from dbl es (Suc i) stop < keep \<and> start \<le> i \<and> i < stop \<and>
       (i \<le> c \<and> list_all (\<lambda>j. \<not> valid_cut (es ! j)) [i..<c] \<or>
        list_all (\<lambda>j. \<not> valid_cut (es ! j)) [i..<stop] \<and> list_all (\<lambda>j. \<not> valid_cut (es ! j)) [start..<c])))"
  using assms(1)
proof (cases rule: findCutPoint_cases)
  case none
  then show ?thesis using assms(4) by simp
next
  case (at c)
  let ?cps = "findValidCutPoints es start stop"
  have c: "valid_cut (es ! c)" "start \<le> c" "c < stop" using at(1) by (auto simp: in_cut_points)
  have first: "list_all (\<lambda>j. \<not> valid_cut (es ! j)) [start..<hd ?cps]"
    using assms(4) by (rule filter_hd_none[of "\<lambda>i. valid_cut (es ! i)" start stop, folded findValidCutPoints_def])
  show ?thesis
  proof (cases "budget_search dbl es start keep stop 0")
    case None
    then have "tokens_from dbl es start stop < keep" using budget_search_None[OF None] assms(2,3) by simp
    moreover have "c = hd ?cps" using at(2) None by (simp add: chosen_cut_def)
    ultimately show ?thesis using c at(3) first by blast
  next
    case (Some i)
    then have i: "start \<le> i" "i < stop" "keep \<le> tokens_from dbl es i stop" "tokens_from dbl es (Suc i) stop < keep"
      using budget_search_Some[OF Some, of stop] assms(2) by simp_all
    show ?thesis
    proof (cases "List.find (\<lambda>c. i \<le> c) ?cps")
      case None
      then have "c = hd ?cps" using at(2) Some by (simp add: chosen_cut_def)
      moreover have "list_all (\<lambda>j. \<not> valid_cut (es ! j)) [i..<stop]"
        using None i(1) by (auto simp: find_None_iff in_cut_points list_all_iff)
      ultimately show ?thesis using c at(3) first i by blast
    next
      case found: (Some c')
      then have "c = c'" using at(2) Some by (simp add: chosen_cut_def)
      moreover have "\<not> valid_cut (es ! j)" if "i \<le> j" "j < c'" for j
        using find_filter_upt[OF found[unfolded findValidCutPoints_def]] le_trans[OF i(1)] that by blast
      moreover have "i \<le> c'" using find_filter_upt[OF found[unfolded findValidCutPoints_def]] by blast
      ultimately have "i \<le> c \<and> list_all (\<lambda>j. \<not> valid_cut (es ! j)) [i..<c]" by (simp add: list_all_iff)
      then show ?thesis using c at(3) i by blast
    qed
  qed
qed

section \<open>Compaction and context\<close>

definition compaction_entry :: "compaction_preparation \<Rightarrow> jstr \<Rightarrow> session_entry \<Rightarrow> bool" where
  "compaction_entry p summary c \<longleftrightarrow>
     (\<exists>details u hook. entry_body c = Compaction summary (retainedTail p) (tokensBefore p) details u hook)"

text \<open>
  C27. What the model sees once a prepared compaction is stored, and more entries after it, is the summary, the
  kept messages and the later entries, nothing of what was summarised; and the next compaction works on
  exactly the kept messages and the later ones.
\<close>
theorem context_after_compaction:
  assumes "compaction_entry p summary c" "list_all (\<lambda>e. \<not> is_compaction e) post"
  shows "buildSessionContext pr (path @ c # post) =
      CompactionSummaryMessage summary (tokensBefore p) (entry_timestamp c) #
      filter isContextMessage (retainedTail p) @ concat (map (context_of_entry pr) post) \<and>
    entry_messages (compactable_entries (path @ c # post)) = retainedTail p @ entry_messages post"
proof -
  obtain d u h where c: "entry_body c = Compaction summary (retainedTail p) (tokensBefore p) d u h"
    using assms(1) by (auto simp: compaction_entry_def)
  then have comp: "is_compaction c" by (simp add: is_compaction_def entry_type_def)
  have "context_of_entry pr c =
      CompactionSummaryMessage summary (tokensBefore p) (entry_timestamp c) # filter isContextMessage (retainedTail p)"
    using c by (simp add: context_of_entry_def entry_type_def sessionEntryToContextMessages_def createCompactionSummaryMessage_def)
  then show ?thesis
    using buildContextEntries_split[OF comp assms(2)] last_compaction_split[OF comp assms(2), of path] c
    by (simp add: buildSessionContext_def compactable_messages kept_messages_def)
qed

section \<open>Samples\<close>

definition no_usage :: "number usage" where
  "no_usage =
     \<lparr>usage_input = 0, usage_output = 0, usage_cacheRead = 0, usage_cacheWrite = 0,
      usage_cacheWrite1h = None, usage_reasoning = None, usage_totalTokens = 0,
      usage_cost = \<lparr>cost_input = NInt 0, cost_output = NInt 0, cost_cacheRead = NInt 0, cost_cacheWrite = NInt 0,
        cost_total = NInt 0\<rparr>\<rparr>"

definition sample_assistant :: "content_block list \<Rightarrow> int \<Rightarrow> stop_reason \<Rightarrow> int \<Rightarrow> agent_message" where
  "sample_assistant bs n reason ts =
     AssistantMessage \<lparr>as_content = bs, as_api = [], as_provider = [], as_model = [],
       as_usage = no_usage\<lparr>usage_totalTokens := n\<rparr>, as_stopReason = reason, as_errorMessage = None,
       as_timestamp = ts, as_other = JNull\<rparr>"

definition sample_call :: content_block where
  "sample_call = ToolCallBlock (js ''c1'') (js ''read'') [(js ''path'', JStr (js ''a.ts''))]"

definition sample_result :: "jstr \<Rightarrow> agent_message" where
  "sample_result text =
     ToolResultMessage \<lparr>tr_toolCallId = js ''c1'', tr_toolName = js ''read'', tr_content = [TextBlock text None],
       tr_details = None, tr_usage = None, tr_isError = False, tr_timestamp = 4\<rparr>"

definition path_entry :: "nat \<Rightarrow> entry_body \<Rightarrow> session_entry" where
  "path_entry n body =
     \<lparr>entry_id = nat_text n, entry_parentId = (if n = 0 then None else Some (nat_text (n - 1))),
      entry_customType = None, entry_body = body, entry_seq = int n, entry_timestamp = int n\<rparr>"

definition no_double :: "number \<Rightarrow> jstr" where
  "no_double x = []"

definition keep_tokens :: "int \<Rightarrow> compaction_settings" where
  "keep_tokens n = \<lparr>st_enabled = True, st_reserveTokens = 16, st_keepRecentTokens = n\<rparr>"

text \<open>A question answered with a tool, then a second one: ten tokens are kept of it.\<close>

definition sample_path :: "session_entry list" where
  "sample_path =
     [path_entry 0 (Message (UserMessage (PlainText (js ''read a.ts please'')) 0) False),
      path_entry 1 (Message (sample_assistant [sample_call] 0 ToolUse 1) False),
      path_entry 2 (Message (sample_result (js ''some text of a.ts'')) False),
      path_entry 3 (Message (sample_assistant [TextBlock (js ''done'') None] 0 Stop 3) False),
      path_entry 4 (Message (UserMessage (PlainText (js ''thanks'')) 4) False)]"

theorem prepareCompaction_pairs_witness:
  "\<exists>p. prepareCompaction no_double sample_path (keep_tokens 3) = Some p \<and>
    map message_timestamp (turnPrefixMessages p) = [0, 1, 4] \<and> map message_timestamp (retainedTail p) = [3, 4] \<and>
    results_follow_calls [] (messagesToSummarize p) \<and> results_follow_calls [] (turnPrefixMessages p) \<and>
    results_follow_calls [] (retainedTail p)"
proof -
  have "results_follow_calls [] (entry_messages (compactable_entries sample_path))" by code_simp
  moreover have "(case prepareCompaction no_double sample_path (keep_tokens 3) of None \<Rightarrow> False
    | Some p \<Rightarrow> map message_timestamp (turnPrefixMessages p) = [0, 1, 4] \<and> map message_timestamp (retainedTail p) = [3, 4])"
    by code_simp
  ultimately show ?thesis
    using prepareCompaction_pairs[of no_double sample_path "keep_tokens 3"] by (auto split: option.splits)
qed

theorem findCutPoint_budget_witness:
  "\<exists>c i. valid_cut (sample_path ! c) \<and> 3 = step_back sample_path 0 c \<and> i \<le> c \<and>
    3 \<le> tokens_from no_double sample_path i 5 \<and> tokens_from no_double sample_path (Suc i) 5 < 3"
proof -
  have r: "findCutPoint no_double sample_path 0 5 3 =
      Some \<lparr>firstKeptEntryIndex = 3, turnStartIndex = Some 0, isSplitTurn = True\<rparr>"
    and "findValidCutPoints sample_path 0 5 \<noteq> []" "\<not> tokens_from no_double sample_path 0 5 < 3"
    and last: "valid_cut (sample_path ! 4)"
    by code_simp+
  with findCutPoint_budget[OF r] obtain c i where c: "valid_cut (sample_path ! c)" "3 = step_back sample_path 0 c"
    "3 \<le> tokens_from no_double sample_path i 5" "tokens_from no_double sample_path (Suc i) 5 < 3" "i < 5"
    "i \<le> c \<or> list_all (\<lambda>j. \<not> valid_cut (sample_path ! j)) [i..<5]"
    by auto
  from c(5,6) last have "i \<le> c" by (auto simp: list_all_iff)
  then show ?thesis using c by blast
qed

definition sample_compaction :: "session_entry" where
  "sample_compaction =
     path_entry 5 (Compaction (js ''s'')
       [sample_assistant [TextBlock (js ''done'') None] 0 Stop 3, UserMessage (PlainText (js ''thanks'')) 4] 17 None None False)"

theorem context_after_compaction_witness:
  "map message_timestamp (buildSessionContext (\<lambda>_. None) (sample_path @ [sample_compaction, hd sample_path])) = [5, 3, 4, 0]"
proof -
  have p: "(case prepareCompaction no_double sample_path (keep_tokens 3) of None \<Rightarrow> False
    | Some p \<Rightarrow> entry_body sample_compaction = Compaction (js ''s'') (retainedTail p) (tokensBefore p) None None False)"
    by code_simp
  then obtain p where "compaction_entry p (js ''s'') sample_compaction"
    and r: "entry_body sample_compaction = Compaction (js ''s'') (retainedTail p) (tokensBefore p) None None False"
    by (auto simp: compaction_entry_def split: option.splits)
  moreover have "list_all (\<lambda>e. \<not> is_compaction e) [hd sample_path]" by code_simp
  ultimately have "buildSessionContext (\<lambda>_. None) (sample_path @ [sample_compaction, hd sample_path]) =
      CompactionSummaryMessage (js ''s'') (tokensBefore p) (entry_timestamp sample_compaction) #
      filter isContextMessage (retainedTail p) @ concat (map (context_of_entry (\<lambda>_. None)) [hd sample_path])"
    using context_after_compaction by blast
  moreover have "map message_timestamp (filter isContextMessage (kept_messages sample_compaction)) = [3, 4]"
    "map message_timestamp (concat (map (context_of_entry (\<lambda>_. None)) [hd sample_path])) = [0]"
    "entry_timestamp sample_compaction = 5"
    by code_simp+
  ultimately show ?thesis using r by (simp add: kept_messages_def)
qed

section \<open>What the accounting misses\<close>

text \<open>
  When the newest messages are tool results that reach the budget by themselves, no cut is possible behind them,
  and the search falls back to the first cut of all: nothing is summarised and the compaction keeps the whole
  conversation, although an earlier cut would keep fewer messages.
\<close>

definition result_path :: "session_entry list" where
  "result_path = take 2 sample_path @ [path_entry 2 (Message (UserMessage (PlainText (js ''and b.ts'')) 2) False),
     path_entry 3 (Message (sample_assistant [sample_call] 0 ToolUse 3) False),
     path_entry 4 (Message (sample_result (js ''a long file of many lines'')) False)]"

theorem large_result_keeps_everything:
  "\<exists>p. prepareCompaction no_double result_path (keep_tokens 5) = Some p \<and>
    messagesToSummarize p = [] \<and> turnPrefixMessages p = [] \<and> retainedTail p = entry_messages result_path \<and>
    valid_cut (result_path ! 3)"
proof -
  have "(case prepareCompaction no_double result_path (keep_tokens 5) of None \<Rightarrow> False
    | Some p \<Rightarrow> messagesToSummarize p = [] \<and> turnPrefixMessages p = [] \<and> retainedTail p = entry_messages result_path) \<and>
    valid_cut (result_path ! 3)"
    by code_simp
  then show ?thesis by (auto split: option.splits)
qed

text \<open>
  The usage of an assistant message that a compaction kept describes the context before that compaction. The
  estimate reads it all the same: a context of fewer than ten tokens is taken for one of more than a hundred
  thousand, and a compaction is due again.
\<close>

definition stale_path :: "session_entry list" where
  "stale_path =
     [path_entry 5 (Compaction (js ''summary'') [sample_assistant [TextBlock (js ''done'') None] 100000 Stop 3] 100000 None None False),
      path_entry 6 (Message (UserMessage (PlainText (js ''thanks'')) 6) False)]"

theorem stale_usage_compacts_again:
  "\<exists>p. prepareCompaction no_double stale_path (keep_tokens 5) = Some p \<and>
    shouldCompact (tokensBefore p) 100000 (keep_tokens 5) \<and>
    sum_list (map (estimateTokens no_double) (buildSessionContext (\<lambda>_. None) stale_path)) < 10"
proof -
  have "(case prepareCompaction no_double stale_path (keep_tokens 5) of None \<Rightarrow> False
    | Some p \<Rightarrow> shouldCompact (tokensBefore p) 100000 (keep_tokens 5)) \<and>
    sum_list (map (estimateTokens no_double) (buildSessionContext (\<lambda>_. None) stale_path)) < 10"
    by code_simp
  then show ?thesis by (auto split: option.splits)
qed

end
