(* ===== verification/BranchSummary.thy ===== *)
theory BranchSummary
  imports SessionClient Compaction
begin

text \<open>
  What a navigation away from a branch summarises
  (\<open>packages/agent/src/harness/compaction/branch-summarization.ts\<close>): the entries between the old tip and
  its deepest common ancestor with the target, and the messages of them that fit a token budget. The branch
  and the session are those of \<open>SessionLayer\<close>, over any storage.
\<close>

section \<open>Collecting the entries\<close>

datatype collect_error = ReadFailed layer_error | CorruptSession jstr

definition start_at :: "jstr \<Rightarrow> branch_query" where
  "start_at i = whole_query\<lparr>bq_start := Some i\<rparr>"

text \<open>
  The loop from the old tip up to the common ancestor. An empty id is false in a condition, like \<open>null\<close>. The
  fuel bounds the steps.
\<close>

fun collect_walk ::
    "('s, 'c) storage_api \<Rightarrow> 's session \<Rightarrow> jstr option \<Rightarrow> nat \<Rightarrow> jstr option \<Rightarrow> (collect_error + session_entry list) option" where
  "collect_walk st se common 0 current = None"
| "collect_walk st se common (Suc n) current =
     (case current of
        None \<Rightarrow> Some (Inr [])
      | Some i \<Rightarrow>
          if i = [] \<or> current = common then Some (Inr [])
          else case session_getEntry st se i of
            Inl e \<Rightarrow> Some (Inl (ReadFailed e))
          | Inr None \<Rightarrow> Some (Inl (CorruptSession i))
          | Inr (Some e) \<Rightarrow>
              map_option (\<lambda>r. bindE r (\<lambda>es. Inr (e # es))) (collect_walk st se common n (entry_parentId e)))"

text \<open>
  The result is the entries in chronological order and the common ancestor. The walk has one step more than
  the old path has entries.
\<close>

definition collectEntriesForBranchSummary ::
    "('s, 'c) storage_api \<Rightarrow> 's session \<Rightarrow> jstr \<Rightarrow> jstr option \<Rightarrow> jstr \<Rightarrow>
       (collect_error + (session_entry list \<times> jstr option)) option" where
  "collectEntriesForBranchSummary st se name oldTip target =
     (case oldTip of
        None \<Rightarrow> Some (Inr ([], None))
      | Some old \<Rightarrow>
          if old = [] then Some (Inr ([], None))
          else case branch_findEntries st se name (start_at old) of
            None \<Rightarrow> None
          | Some (Inl e) \<Rightarrow> Some (Inl (ReadFailed e))
          | Some (Inr oldPath) \<Rightarrow>
              (case branch_findEntries st se name (start_at target) of
                 None \<Rightarrow> None
               | Some (Inl e) \<Rightarrow> Some (Inl (ReadFailed e))
               | Some (Inr targetPath) \<Rightarrow>
                   let common = map_option entry_id (List.find (\<lambda>e. entry_id e \<in> entry_id ` set oldPath) targetPath)
                   in map_option (\<lambda>r. bindE r (\<lambda>es. Inr (rev es, common)))
                        (collect_walk st se common (Suc (length oldPath)) (Some old))))"

section \<open>Selecting messages\<close>

definition branch_message :: "session_entry \<Rightarrow> agent_message option" where
  "branch_message e =
     (case entry_body e of
        Message m t \<Rightarrow> if is_tool_result m then None else Some m
      | BranchSummary from_id summary d u h \<Rightarrow> Some (createBranchSummaryMessage summary from_id (entry_timestamp e))
      | Compaction summary r n d u h \<Rightarrow> Some (createCompactionSummaryMessage summary n (entry_timestamp e))
      | Custom d \<Rightarrow> None)"

record branch_preparation =
  bp_messages :: "agent_message list"
  bp_fileOps :: file_operations
  bp_totalTokens :: int

text \<open>The file lists of earlier branch summaries.\<close>

definition summary_details :: "session_entry \<Rightarrow> file_operations \<Rightarrow> file_operations" where
  "summary_details e ops = (case entry_body e of BranchSummary f s details u h \<Rightarrow> add_details details ops | _ \<Rightarrow> ops)"

text \<open>
  The loop from the newest entry: it stops at the first message that exceeds the budget, which is still taken
  when it is a summary and less than nine tenths of the budget are used.
\<close>

fun prepare_loop ::
    "(number \<Rightarrow> jstr) \<Rightarrow> int \<Rightarrow> session_entry list \<Rightarrow> branch_preparation \<Rightarrow> branch_preparation" where
  "prepare_loop dbl budget [] p = p"
| "prepare_loop dbl budget (e # es) p =
     (case branch_message e of
        None \<Rightarrow> prepare_loop dbl budget es p
      | Some m \<Rightarrow>
          let ops = extractFileOpsFromMessage m (bp_fileOps p);
              tokens = estimateTokens dbl m;
              taken = \<lparr>bp_messages = m # bp_messages p, bp_fileOps = ops, bp_totalTokens = bp_totalTokens p + tokens\<rparr>
          in if 0 < budget \<and> budget < bp_totalTokens p + tokens
             then (if entry_type e \<in> {CompactionType, BranchSummaryType} \<and> 10 * bp_totalTokens p < 9 * budget
                   then taken else p\<lparr>bp_fileOps := ops\<rparr>)
             else prepare_loop dbl budget es taken)"

definition prepareBranchEntries :: "(number \<Rightarrow> jstr) \<Rightarrow> session_entry list \<Rightarrow> int \<Rightarrow> branch_preparation" where
  "prepareBranchEntries dbl es budget =
     prepare_loop dbl budget (rev es)
       \<lparr>bp_messages = [], bp_fileOps = List.fold summary_details es createFileOps, bp_totalTokens = 0\<rparr>"

section \<open>The common ancestor\<close>

lemma root_path_drop:
  assumes "root_path s e (xs @ y # ys)"
  shows "root_path s y (y # ys)"
proof -
  have "successively (\<lambda>x y. entry_parentId x = Some (entry_id y)) (y # ys)"
    using assms by (auto simp: root_path_def successively_append_iff)
  then show ?thesis using assms by (auto simp: root_path_def)
qed

lemma root_path_ids:
  assumes "session_inv s" "root_path s e p" "root_path s e' p'" "x \<in> set p" "y \<in> set p'" "entry_id x = entry_id y"
  shows "x = y"
proof -
  have "x \<in> set (ss_entriesBySeq s)" "y \<in> set (ss_entriesBySeq s)"
    using assms by (auto simp: root_path_def)
  then show ?thesis using assms(6) stored_iff[OF assms(1), of x] stored_iff[OF assms(1), of y] by simp
qed

text \<open>Two paths to the root meet in one suffix, and before it they share no entry.\<close>

lemma root_paths_meet:
  assumes "session_inv s" "root_path s e p" "root_path s e' p'"
    and "List.find (\<lambda>x. entry_id x \<in> entry_id ` set p) p' = Some c"
  obtains pre pre' rest where "p = pre @ c # rest" "p' = pre' @ c # rest"
    "entry_id ` set pre \<inter> entry_id ` set p' = {}" "entry_id ` set pre' \<inter> entry_id ` set p = {}"
proof -
  obtain pre' rest' where p': "p' = pre' @ c # rest'" and new: "entry_id ` set pre' \<inter> entry_id ` set p = {}"
    and c: "entry_id c \<in> entry_id ` set p"
    using find_split[OF assms(4)] by blast
  obtain c' where "c' \<in> set p" "entry_id c' = entry_id c" using c by auto
  then have "c \<in> set p" using root_path_ids[OF assms(1,2,3), of c' c] p' by auto
  then obtain pre rest where p: "p = pre @ c # rest" by (meson split_list)
  have "rest = rest'"
    using root_path_unique[OF assms(1), of c "c # rest" "c # rest'"] root_path_drop assms(2,3) p p' by blast
  moreover have "entry_id ` set pre \<inter> entry_id ` set p' = {}"
  proof (rule ccontr)
    assume "\<not> ?thesis"
    then obtain x y where x: "x \<in> set pre" "y \<in> set p'" "entry_id x = entry_id y" by auto
    then have "x = y" using root_path_ids[OF assms(1,2,3)] p by auto
    moreover have "entry_seq c < entry_seq x"
      using root_path_seqs[OF assms(1,2)] x(1) p by (auto simp: sorted_wrt_append)
    moreover have "y \<notin> set pre'" using new x p by auto
    then have "y = c \<or> entry_seq y < entry_seq c"
      using root_path_seqs[OF assms(1,3)] x(2) p' by (auto simp: sorted_wrt_append)
    ultimately show False by auto
  qed
  ultimately show ?thesis using that p p' new by blast
qed

lemma session_getEntry_memory:
  "se_state se = SessionOpen \<Longrightarrow> session_getEntry memory_api se i = Inr (getEntry (se_storage se) i)"
  by (simp add: session_getEntry_def assert_open_def getEntries_def memory_api_def split: option.splits)

lemma findEntries_start:
  assumes "session_inv (se_storage se)" "se_state se = SessionOpen" "getEntry (se_storage se) i = Some e"
  obtains path where "root_path (se_storage se) e path" "branch_findEntries memory_api se name (start_at i) = Some (Inr path)"
proof -
  from scanBranch_whole[OF assms(1,3)] obtain path where
    "root_path (se_storage se) e path" "scanBranch (se_storage se) (whole_path i) = Some (Inr path)" by blast
  then show ?thesis using that assms(2)
    by (simp add: branch_findEntries_def start_at_def whole_query_def whole_path_def assert_open_def memory_api_def)
qed

lemma collect_walk_path:
  assumes "session_inv (se_storage se)" "se_state se = SessionOpen"
  shows "root_path (se_storage se) e p \<Longrightarrow> [] \<notin> entry_id ` set p \<Longrightarrow> length p < n \<Longrightarrow>
    collect_walk memory_api se common n (Some (entry_id e)) =
      Some (Inr (takeWhile (\<lambda>x. Some (entry_id x) \<noteq> common) p))"
proof (induction p arbitrary: e n)
  case Nil
  then show ?case by (simp add: root_path_def)
next
  case (Cons x xs)
  from Cons.prems(3) obtain m where n: "n = Suc m" by (cases n) auto
  have x: "x = e" "e \<in> set (ss_entriesBySeq (se_storage se))" "entry_id e \<noteq> []"
    using Cons.prems(1,2) by (auto simp: root_path_def)
  have get: "session_getEntry memory_api se (entry_id e) = Inr (Some e)"
    using stored_iff[OF assms(1), of e] x session_getEntry_memory[OF assms(2)] by (simp add: getEntry_def)
  show ?case
  proof (cases xs)
    case Nil
    then have "entry_parentId e = None" using Cons.prems(1) x by (simp add: root_path_def)
    moreover have "m \<noteq> 0" using Cons.prems(3) n by simp
    then obtain k where "m = Suc k" by (cases m) auto
    ultimately show ?thesis using get n x Nil by auto
  next
    case (Cons q zs)
    then have "root_path (se_storage se) q xs" "entry_parentId e = Some (entry_id q)"
      using Cons.prems(1) x by (auto simp: root_path_def)
    then show ?thesis using Cons.IH[of q m] Cons.prems(2,3) get n x by auto
  qed
qed

text \<open>
  C28. Leaving a branch for another entry of the session summarises exactly the entries between the old tip and
  the deepest common ancestor, in chronological order: the two paths to the root share the part from the
  ancestor on and nothing before it, and without a common ancestor the whole old path is summarised. The walk
  ends and reads no missing entry.
\<close>
theorem collectEntries_between:
  assumes "session_inv (se_storage se)" "se_state se = SessionOpen"
    and "getEntry (se_storage se) old = Some e" "getEntry (se_storage se) target = Some e'"
    and "[] \<notin> set (map fst (ss_entries (se_storage se)))"
  shows "\<exists>pre pre' shared.
    root_path (se_storage se) e (pre @ shared) \<and> root_path (se_storage se) e' (pre' @ shared) \<and>
    entry_id ` set pre \<inter> entry_id ` set (pre' @ shared) = {} \<and> entry_id ` set pre' \<inter> entry_id ` set (pre @ shared) = {} \<and>
    collectEntriesForBranchSummary memory_api se name (Some old) target =
      Some (Inr (rev pre, map_option entry_id (first_of shared)))"
proof -
  let ?s = "se_storage se"
  obtain p where p: "root_path ?s e p" "branch_findEntries memory_api se name (start_at old) = Some (Inr p)"
    by (rule findEntries_start[OF assms(1,2,3)])
  obtain p' where p': "root_path ?s e' p'" "branch_findEntries memory_api se name (start_at target) = Some (Inr p')"
    by (rule findEntries_start[OF assms(1,2,4)])
  have old: "entry_id e = old" using stored_entry[OF assms(1)] assms(3) by (simp add: getEntry_def)
  have ids: "[] \<notin> entry_id ` set p"
  proof
    assume "[] \<in> entry_id ` set p"
    then obtain x where "x \<in> set p" "entry_id x = []" by auto
    then have "map_of (ss_entries ?s) [] = Some x"
      using p(1) stored_iff[OF assms(1), of x] by (auto simp: root_path_def)
    then show False using assms(5) by (force dest: map_of_SomeD)
  qed
  have "e \<in> set p" using p(1) by (auto simp: root_path_def)
  then have old_id: "old \<noteq> []" using ids old by force
  let ?common = "map_option entry_id (List.find (\<lambda>x. entry_id x \<in> entry_id ` set p) p')"
  have run: "collectEntriesForBranchSummary memory_api se name (Some old) target =
      Some (Inr (rev (takeWhile (\<lambda>x. Some (entry_id x) \<noteq> ?common) p), ?common))"
    using collect_walk_path[OF assms(1,2) p(1) ids, of "Suc (length p)" ?common] old_id
    by (simp add: collectEntriesForBranchSummary_def p(2) p'(2) old Let_def del: collect_walk.simps)
  show ?thesis
  proof (cases "List.find (\<lambda>x. entry_id x \<in> entry_id ` set p) p'")
    case None
    then have "entry_id ` set p' \<inter> entry_id ` set p = {}" by (auto simp: find_None_iff)
    moreover have "takeWhile (\<lambda>x. Some (entry_id x) \<noteq> None) p = p" by (simp add: takeWhile_eq_all_conv)
    ultimately show ?thesis using p(1) p'(1) run None
      by (intro exI[of _ p] exI[of _ p'] exI[of _ "[]"]) (auto simp: first_of_def)
  next
    case (Some c)
    obtain pre pre' rest where m: "p = pre @ c # rest" "p' = pre' @ c # rest"
      "entry_id ` set pre \<inter> entry_id ` set p' = {}" "entry_id ` set pre' \<inter> entry_id ` set p = {}"
      by (rule root_paths_meet[OF assms(1) p(1) p'(1) Some])
    have "takeWhile (\<lambda>x. Some (entry_id x) \<noteq> Some (entry_id c)) p = pre"
    proof -
      have "entry_id c \<in> entry_id ` set p'" unfolding m(2) by simp
      have "\<And>x. x \<in> set pre \<Longrightarrow> Some (entry_id x) \<noteq> Some (entry_id c)"
      proof
        fix x assume "x \<in> set pre" "Some (entry_id x) = Some (entry_id c)"
        then have "entry_id c \<in> entry_id ` set pre" by (metis imageI option.inject)
        with \<open>entry_id c \<in> entry_id ` set p'\<close> have "entry_id c \<in> entry_id ` set pre \<inter> entry_id ` set p'" by (rule IntI[rotated])
        then show False unfolding m(3) by simp
      qed
      from takeWhile_append2[of pre "\<lambda>x. Some (entry_id x) \<noteq> Some (entry_id c)" "c # rest", OF this]
      show ?thesis unfolding m(1) by simp
    qed
    with run Some have "collectEntriesForBranchSummary memory_api se name (Some old) target =
        Some (Inr (rev pre, map_option entry_id (first_of (c # rest))))"
      by (simp add: first_of_def)
    then show ?thesis using p(1) p'(1) m by metis
  qed
qed

definition forked_session :: "int session_state session" where
  "forked_session = new_session\<lparr>se_storage := snd (memory_commit empty_session
     [EntryWrite (plain_entry (js ''a'') None), EntryWrite (plain_entry (js ''b'') (Some (js ''a''))),
      EntryWrite (plain_entry (js ''c'') (Some (js ''b''))), EntryWrite (plain_entry (js ''d'') (Some (js ''a'')))] 7)\<rparr>"

theorem collectEntries_between_witness:
  "\<exists>es. collectEntriesForBranchSummary memory_api forked_session (js ''m'') (Some (js ''c'')) (js ''d'') =
      Some (Inr (es, Some (js ''a''))) \<and> map entry_id es = [js ''b'', js ''c'']"
proof -
  have inv: "session_inv (se_storage forked_session)"
    unfolding forked_session_def by (simp add: inv_memory_commit[OF session_inv_new])
  have "getEntry (se_storage forked_session) (js ''c'') \<noteq> None" "getEntry (se_storage forked_session) (js ''d'') \<noteq> None"
    "se_state forked_session = SessionOpen" "[] \<notin> set (map fst (ss_entries (se_storage forked_session)))"
    by code_simp+
  then obtain e e' where "getEntry (se_storage forked_session) (js ''c'') = Some e"
    "getEntry (se_storage forked_session) (js ''d'') = Some e'" "se_state forked_session = SessionOpen"
    "[] \<notin> set (map fst (ss_entries (se_storage forked_session)))" by auto
  note run = collectEntries_between[OF inv this(3) this(1) this(2) this(4), of "js ''m''"]
  have "(case collectEntriesForBranchSummary memory_api forked_session (js ''m'') (Some (js ''c'')) (js ''d'') of
      Some (Inr (es, c)) \<Rightarrow> map entry_id es = [js ''b'', js ''c''] \<and> c = Some (js ''a'') | _ \<Rightarrow> False)"
    by code_simp
  with run show ?thesis by auto
qed

section \<open>The messages of a summary\<close>

definition branch_messages :: "session_entry list \<Rightarrow> agent_message list" where
  "branch_messages es = some_of branch_message es"

fun is_summary :: "agent_message \<Rightarrow> bool" where
  "is_summary (BranchSummaryMessage s f t) = True"
| "is_summary (CompactionSummaryMessage s n t) = True"
| "is_summary m = False"

lemma branch_message_summary:
  "branch_message e = Some m \<Longrightarrow> entry_type e \<in> {CompactionType, BranchSummaryType} \<Longrightarrow> is_summary m"
  by (auto simp: branch_message_def entry_type_def createBranchSummaryMessage_def createCompactionSummaryMessage_def
      split: entry_body.splits)

definition within_budget :: "(number \<Rightarrow> jstr) \<Rightarrow> int \<Rightarrow> agent_message list \<Rightarrow> int \<Rightarrow> bool" where
  "within_budget dbl budget ms n \<longleftrightarrow>
     n = sum_list (map (estimateTokens dbl) ms) \<and>
     (n \<le> budget \<or> budget \<le> 0 \<or>
      (\<exists>m rest. ms = m # rest \<and> is_summary m \<and> 10 * sum_list (map (estimateTokens dbl) rest) < 9 * budget))"

lemma prepare_loop_spec:
  assumes "bp_totalTokens p = sum_list (map (estimateTokens dbl) (bp_messages p))"
    and "bp_totalTokens p \<le> budget \<or> budget \<le> 0"
  shows "\<exists>pre. branch_messages (rev es) @ bp_messages p = pre @ bp_messages (prepare_loop dbl budget es p) \<and>
    within_budget dbl budget (bp_messages (prepare_loop dbl budget es p)) (bp_totalTokens (prepare_loop dbl budget es p)) \<and>
    (pre = [] \<or> 0 < budget \<and> budget < sum_list (map (estimateTokens dbl) (last pre # bp_messages (prepare_loop dbl budget es p))))"
  using assms
proof (induction es arbitrary: p)
  case Nil
  then show ?case by (simp add: branch_messages_def within_budget_def) blast
next
  case (Cons e es)
  show ?case
  proof (cases "branch_message e")
    case None
    then show ?thesis using Cons.IH[OF Cons.prems] by (simp add: branch_messages_def)
  next
    case (Some m)
    define ops where "ops = extractFileOpsFromMessage m (bp_fileOps p)"
    define t where "t = \<lparr>bp_messages = m # bp_messages p, bp_fileOps = ops, bp_totalTokens = bp_totalTokens p + estimateTokens dbl m\<rparr>"
    have total: "bp_totalTokens t = sum_list (map (estimateTokens dbl) (bp_messages t))"
      using Cons.prems(1) by (simp add: t_def)
    have ms: "branch_messages (rev (e # es)) @ bp_messages p = branch_messages (rev es) @ bp_messages t"
      by (simp add: branch_messages_def Some t_def)
    show ?thesis
    proof (cases "0 < budget \<and> budget < bp_totalTokens t")
      case False
      then have "prepare_loop dbl budget (e # es) p = prepare_loop dbl budget es t"
        unfolding t_def ops_def by (simp only: prepare_loop.simps Some Let_def option.case if_False branch_preparation.select_convs)
      then show ?thesis using Cons.IH[OF total] False ms by auto
    next
      case full: True
      show ?thesis
      proof (cases "entry_type e \<in> {CompactionType, BranchSummaryType} \<and> 10 * bp_totalTokens p < 9 * budget")
        case True
        then have r: "prepare_loop dbl budget (e # es) p = t"
          using full by (simp add: Some Let_def t_def ops_def)
        have "is_summary m" using branch_message_summary[OF Some] True by blast
        then have w: "within_budget dbl budget (bp_messages t) (bp_totalTokens t)"
          using True total Cons.prems(1) by (auto simp: within_budget_def t_def)
        have "branch_messages (rev es) = [] \<or> budget < sum_list (map (estimateTokens dbl) (last (branch_messages (rev es)) # bp_messages t))"
          using full total estimateTokens_nonneg[of dbl "last (branch_messages (rev es))"] by auto
        then show ?thesis unfolding r ms using w full by blast
      next
        case False
        then have r: "prepare_loop dbl budget (e # es) p = p\<lparr>bp_fileOps := ops\<rparr>"
          using full by (auto simp: Some Let_def t_def ops_def)
        have "branch_messages (rev (e # es)) @ bp_messages p = (branch_messages (rev es) @ [m]) @ bp_messages p"
          by (simp add: branch_messages_def Some)
        moreover have "within_budget dbl budget (bp_messages p) (bp_totalTokens p)"
          using Cons.prems full by (auto simp: within_budget_def)
        ultimately show ?thesis unfolding r using full total
          by (intro exI[of _ "branch_messages (rev es) @ [m]"]) (simp add: t_def)
      qed
    qed
  qed
qed

text \<open>
  The messages of a branch summary are the newest ones of the branch (tool results left out), in order: all of
  them without a budget, else as many as fit, where one more message would exceed it. The counted tokens are
  their estimate; they exceed the budget only by a summary that comes first and is taken below nine tenths.
\<close>
theorem prepareBranchEntries_budget:
  "\<exists>pre. branch_messages es = pre @ bp_messages (prepareBranchEntries dbl es budget) \<and>
    within_budget dbl budget (bp_messages (prepareBranchEntries dbl es budget)) (bp_totalTokens (prepareBranchEntries dbl es budget)) \<and>
    (pre = [] \<or> 0 < budget \<and>
      budget < sum_list (map (estimateTokens dbl) (last pre # bp_messages (prepareBranchEntries dbl es budget))))"
proof -
  have "(0::int) \<le> budget \<or> budget \<le> 0" by linarith
  then show ?thesis
    using prepare_loop_spec[of "\<lparr>bp_messages = [], bp_fileOps = List.fold summary_details es createFileOps, bp_totalTokens = 0\<rparr>"
        dbl budget "rev es"]
    by (simp add: prepareBranchEntries_def)
qed

end
