(* ===== verification/Utf8Length.thy ===== *)
theory Utf8Length
  imports JsValue
begin

text \<open>
  The UTF-8 size of a string (\<open>utf8ByteLength\<close> of \<open>packages/agent/src/harness/utils/truncate.ts\<close>), by
  the runtime's \<open>Buffer\<close> where there is one and by a loop over the code units elsewhere, and what holds
  of it: both are the length of the encoding, and sizes add up where no surrogate pair is cut.
\<close>

definition unit_bytes :: "code_unit \<Rightarrow> nat" where
  "unit_bytes c = (if unat c \<le> 0x7F then 1 else if unat c \<le> 0x7FF then 2 else 3)"

fun utf8_loop :: "jstr \<Rightarrow> nat" where
  "utf8_loop [] = 0"
| "utf8_loop [c] = unit_bytes c"
| "utf8_loop (c # d # cs) =
     (if is_high c \<and> is_low d then 4 + utf8_loop cs else unit_bytes c + utf8_loop (d # cs))"

definition first_non_ascii :: "jstr \<Rightarrow> nat option" where
  "first_non_ascii s = List.find (\<lambda>i. \<not> unat (s ! i) \<le> 0x7F) [0..<length s]"

text \<open>\<open>Buffer.byteLength(content, "utf8")\<close> is the length of the encoding.\<close>

definition utf8ByteLength :: "bool \<Rightarrow> jstr \<Rightarrow> nat" where
  "utf8ByteLength has_buffer content =
     (if has_buffer then length (textEncode content)
      else case first_non_ascii content of
        None \<Rightarrow> length content
      | Some i \<Rightarrow> i + utf8_loop (drop i content))"

section \<open>Both branches are the encoded length\<close>

lemma length_utf8_scalar:
  "length (utf8_scalar c) = (if c < 0x80 then 1 else if c < 0x800 then 2 else if c < 0x10000 then 3 else 4)"
  by (simp add: utf8_scalar_def)

lemma surrogate_bytes: "is_high c \<or> is_low c \<Longrightarrow> unit_bytes c = 3"
  by (auto simp: unit_bytes_def surrogate_unat)

lemma utf8_loop_encode: "utf8_loop s = length (textEncode s)"
proof (induction s rule: utf8_loop.induct)
  case (2 c)
  then show ?case
    using unit_bound[of c] by (auto simp: textEncode_def length_utf8_scalar unit_bytes_def surrogate_unat)
next
  case (3 c d cs)
  have "utf8_loop (c # d # cs) = length (utf8_scalar
      (if is_high c \<and> is_low d then 0x10000 + (unat c - 0xD800) * 0x400 + (unat d - 0xDC00)
       else if is_high c \<or> is_low c then 0xFFFD else unat c)) +
    length (textEncode (if is_high c \<and> is_low d then cs else d # cs))"
    using 3 unit_bound[of c] surrogate_bytes[of c]
    by (auto simp: length_utf8_scalar unit_bytes_def)
  then show ?case by (auto simp: textEncode_def)
qed (simp add: textEncode_def)

lemma utf8_loop_ascii: "list_all (\<lambda>c. unat c \<le> 0x7F) s \<Longrightarrow> utf8_loop (s @ t) = length s + utf8_loop t"
proof (induction s)
  case (Cons c s)
  then have "\<not> is_high c" "unit_bytes c = 1" by (auto simp: surrogate_unat unit_bytes_def)
  then show ?case using Cons by (cases "s @ t") auto
qed simp

lemma utf8ByteLength_eq: "utf8ByteLength has_buffer s = utf8_loop s"
proof (cases "first_non_ascii s")
  case None
  then have "list_all (\<lambda>c. unat c \<le> 0x7F) s" by (simp add: first_non_ascii_def find_None_iff list_all_length)
  then show ?thesis using utf8_loop_ascii[of s "[]"] None by (simp add: utf8ByteLength_def flip: utf8_loop_encode)
next
  case (Some i)
  note f = find_filter_upt[of "\<lambda>i. \<not> unat (s ! i) \<le> 0x7F" "\<lambda>_. True" 0 "length s" i]
  have "i < length s" "\<And>j. j < i \<Longrightarrow> unat (s ! j) \<le> 0x7F"
    using f Some by (simp_all add: first_non_ascii_def)
  then have "list_all (\<lambda>c. unat c \<le> 0x7F) (take i s)" "length (take i s) = i" by (auto simp: list_all_length)
  then have "utf8_loop s = i + utf8_loop (drop i s)" using utf8_loop_ascii[of "take i s" "drop i s"] by simp
  then show ?thesis using Some by (simp add: utf8ByteLength_def utf8_loop_encode)
qed

section \<open>Sizes add up\<close>

text \<open>A split is clean when it does not cut a surrogate pair.\<close>

definition clean_split :: "jstr \<Rightarrow> jstr \<Rightarrow> bool" where
  "clean_split s t \<longleftrightarrow> s = [] \<or> t = [] \<or> \<not> (is_high (last s) \<and> is_low (hd t))"

lemma utf8_loop_append: "clean_split s t \<Longrightarrow> utf8_loop (s @ t) = utf8_loop s + utf8_loop t"
proof (induction s rule: utf8_loop.induct)
  case (2 c)
  then show ?case by (cases t) (auto simp: clean_split_def)
next
  case (3 c d cs)
  have "clean_split (d # cs) t" "clean_split cs t"
    using 3(3) by (auto simp: clean_split_def)
  then show ?case using 3 by auto
qed simp

lemma utf8_loop_snoc_plain: "\<not> is_low c \<Longrightarrow> utf8_loop (s @ c # t) = utf8_loop s + utf8_loop (c # t)"
  by (rule utf8_loop_append) (simp add: clean_split_def)

lemma utf8_loop_Cons_plain: "\<not> is_high c \<Longrightarrow> utf8_loop (c # t) = unit_bytes c + utf8_loop t"
  by (cases t) auto

lemma newline_unit: "\<not> is_high 10" "\<not> is_low 10" "unit_bytes 10 = 1"
  by (simp_all add: surrogate_unat unit_bytes_def)

lemma utf8_loop_newline: "utf8_loop (s @ 10 # t) = utf8_loop s + 1 + utf8_loop t"
  using utf8_loop_snoc_plain[of 10 s t] utf8_loop_Cons_plain[of 10 t] newline_unit by simp

lemma utf8_loop_ge_half: "length s \<le> utf8_loop s"
  by (induction s rule: utf8_loop.induct) (auto simp: unit_bytes_def)

end
