(* ===== verification/Truncate.thy ===== *)
theory Truncate
  imports Messages Utf8Length
begin

text \<open>
  The truncation of tool outputs (\<open>packages/agent/src/harness/utils/truncate.ts\<close>): to the first or last
  lines within a line limit and a byte limit, whichever is hit first. \<open>hb\<close> says whether the runtime has
  \<open>Buffer\<close>. Limits are integers; reading the first line of an empty text under a negative limit is the
  \<open>TypeError\<close> of \<open>undefined\<close>, the result \<open>None\<close>.
\<close>

section \<open>Lines\<close>

fun split_newlines :: "jstr \<Rightarrow> jstr list" where
  "split_newlines [] = [[]]"
| "split_newlines (c # cs) =
     (if c = 10 then [] # split_newlines cs
      else case split_newlines cs of [] \<Rightarrow> [[c]] | l # ls \<Rightarrow> (c # l) # ls)"

definition splitLinesForCounting :: "jstr \<Rightarrow> jstr list" where
  "splitLinesForCounting content =
     (if content = [] then []
      else let ls = split_newlines content in if last content = 10 then butlast ls else ls)"

section \<open>Replacing lone surrogates\<close>

fun replaceUnpairedSurrogates :: "jstr \<Rightarrow> jstr" where
  "replaceUnpairedSurrogates [] = []"
| "replaceUnpairedSurrogates [c] = [if is_high c \<or> is_low c then 0xFFFD else c]"
| "replaceUnpairedSurrogates (c # d # cs) =
     (if is_high c \<and> is_low d then c # d # replaceUnpairedSurrogates cs
      else (if is_high c \<or> is_low c then 0xFFFD else c) # replaceUnpairedSurrogates (d # cs))"

section \<open>Sizes for display\<close>

text \<open>
  A quotient by a power of two is exact, and \<open>toFixed(1)\<close> takes the nearest tenth, the larger one of two.
\<close>

definition tenths_text :: "nat \<Rightarrow> nat \<Rightarrow> jstr" where
  "tenths_text n d = (let t = (20 * n + d) div (2 * d) in nat_text (t div 10) @ js ''.'' @ nat_text (t mod 10))"

definition formatSize :: "nat \<Rightarrow> jstr" where
  "formatSize bytes =
     (if bytes < 1024 then nat_text bytes @ js ''B''
      else if bytes < 1024 * 1024 then tenths_text bytes 1024 @ js ''KB''
      else tenths_text bytes (1024 * 1024) @ js ''MB'')"

section \<open>Truncation\<close>

datatype limit_hit = LineLimit | ByteLimit

text \<open>What a truncation reports, and the truncated text with it.\<close>

record truncation_info =
  tc_truncated :: bool
  tc_truncatedBy :: "limit_hit option"
  tc_totalLines :: nat
  tc_totalBytes :: nat
  tc_outputLines :: nat
  tc_outputBytes :: nat
  tc_lastLinePartial :: bool
  tc_firstLineExceedsLimit :: bool
  tc_maxLines :: int
  tc_maxBytes :: int

record truncation = truncation_info +
  tc_content :: jstr

definition DEFAULT_MAX_LINES :: int where "DEFAULT_MAX_LINES = 2000"
definition DEFAULT_MAX_BYTES :: int where "DEFAULT_MAX_BYTES = 50 * 1024"
definition GREP_MAX_LINE_LENGTH :: nat where "GREP_MAX_LINE_LENGTH = 500"

definition or_default :: "'a \<Rightarrow> 'a option \<Rightarrow> 'a" where
  "or_default d v = (case v of None \<Rightarrow> d | Some x \<Rightarrow> x)"

text \<open>The result for a text within both limits.\<close>

definition whole_text :: "jstr \<Rightarrow> nat \<Rightarrow> nat \<Rightarrow> int \<Rightarrow> int \<Rightarrow> truncation" where
  "whole_text content totalLines totalBytes maxLines maxBytes =
     \<lparr>tc_truncated = False, tc_truncatedBy = None, tc_totalLines = totalLines,
      tc_totalBytes = totalBytes, tc_outputLines = totalLines, tc_outputBytes = totalBytes,
      tc_lastLinePartial = False, tc_firstLineExceedsLimit = False, tc_maxLines = maxLines, tc_maxBytes = maxBytes,
      tc_content = content\<rparr>"

text \<open>The loop over the lines from index \<open>i\<close> on, with the lines and bytes taken so far.\<close>

fun head_loop ::
    "bool \<Rightarrow> int \<Rightarrow> int \<Rightarrow> nat \<Rightarrow> jstr list \<Rightarrow> jstr list \<Rightarrow> nat \<Rightarrow> jstr list \<times> nat \<times> limit_hit" where
  "head_loop hb maxLines maxBytes i [] out n = (out, n, LineLimit)"
| "head_loop hb maxLines maxBytes i (l # ls) out n =
     (if \<not> int i < maxLines then (out, n, LineLimit)
      else let lineBytes = utf8ByteLength hb l + (if 0 < i then 1 else 0)
        in if maxBytes < int (n + lineBytes) then (out, n, ByteLimit)
           else head_loop hb maxLines maxBytes (Suc i) ls (out @ [l]) (n + lineBytes))"

definition reported_limit :: "jstr list \<Rightarrow> nat \<Rightarrow> int \<Rightarrow> int \<Rightarrow> limit_hit \<Rightarrow> limit_hit" where
  "reported_limit out n maxLines maxBytes hit =
     (if maxLines \<le> int (length out) \<and> int n \<le> maxBytes then LineLimit else hit)"

definition truncateHead :: "bool \<Rightarrow> jstr \<Rightarrow> int option \<Rightarrow> int option \<Rightarrow> truncation option" where
  "truncateHead hb content maxLinesOption maxBytesOption =
     (let maxLines = or_default DEFAULT_MAX_LINES maxLinesOption;
          maxBytes = or_default DEFAULT_MAX_BYTES maxBytesOption;
          totalBytes = utf8ByteLength hb content;
          lines = splitLinesForCounting content;
          totalLines = length lines
      in if int totalLines \<le> maxLines \<and> int totalBytes \<le> maxBytes
         then Some (whole_text content totalLines totalBytes maxLines maxBytes)
         else case lines of
           [] \<Rightarrow> None
         | first # rest \<Rightarrow>
             if maxBytes < int (utf8ByteLength hb first)
             then Some (whole_text [] totalLines totalBytes maxLines maxBytes
               \<lparr>tc_truncated := True, tc_truncatedBy := Some ByteLimit, tc_outputLines := 0, tc_outputBytes := 0,
                tc_firstLineExceedsLimit := True\<rparr>)
             else case head_loop hb maxLines maxBytes 0 lines [] 0 of
               (out, n, hit) \<Rightarrow>
                 let output = join_text newline out
                 in Some (whole_text output totalLines totalBytes maxLines maxBytes
                   \<lparr>tc_truncated := True, tc_truncatedBy := Some (reported_limit out n maxLines maxBytes hit),
                    tc_outputLines := length out, tc_outputBytes := utf8ByteLength hb output\<rparr>))"

text \<open>
  The end of a string within a byte limit: the loop runs down the code units, here over the reversed string; it
  gives how many units are taken and whether one of them is a lone surrogate.
\<close>

fun end_loop :: "int \<Rightarrow> jstr \<Rightarrow> nat \<Rightarrow> nat \<times> bool" where
  "end_loop maxBytes [] n = (0, False)"
| "end_loop maxBytes [c] n =
     (let lone = is_high c \<or> is_low c; b = (if lone then 3 else unit_bytes c)
      in if maxBytes < int (n + b) then (0, False) else (1, lone))"
| "end_loop maxBytes (c # p # cs) n =
     (if is_low c \<and> is_high p
      then (if maxBytes < int (n + 4) then (0, False)
            else (case end_loop maxBytes cs (n + 4) of (k, r) \<Rightarrow> (k + 2, r)))
      else let lone = is_high c \<or> is_low c; b = (if lone then 3 else unit_bytes c)
           in if maxBytes < int (n + b) then (0, False)
              else (case end_loop maxBytes (p # cs) (n + b) of (k, r) \<Rightarrow> (k + 1, lone \<or> r)))"

definition truncateStringToBytesFromEnd :: "jstr \<Rightarrow> int \<Rightarrow> jstr" where
  "truncateStringToBytesFromEnd str maxBytes =
     (if maxBytes \<le> 0 then []
      else case end_loop maxBytes (rev str) 0 of
        (k, replace) \<Rightarrow>
          (let output = drop (length str - k) str in if replace then replaceUnpairedSurrogates output else output))"

text \<open>The loop over the reversed lines; the result says whether the only line taken is partial.\<close>

fun tail_loop ::
    "bool \<Rightarrow> int \<Rightarrow> int \<Rightarrow> jstr list \<Rightarrow> jstr list \<Rightarrow> nat \<Rightarrow> jstr list \<times> nat \<times> limit_hit \<times> bool" where
  "tail_loop hb maxLines maxBytes [] out n = (out, n, LineLimit, False)"
| "tail_loop hb maxLines maxBytes (l # ls) out n =
     (if \<not> int (length out) < maxLines then (out, n, LineLimit, False)
      else let lineBytes = utf8ByteLength hb l + (if out \<noteq> [] then 1 else 0)
        in if maxBytes < int (n + lineBytes)
           then (if out = []
                 then let cut = truncateStringToBytesFromEnd l maxBytes
                      in ([cut], utf8ByteLength hb cut, ByteLimit, True)
                 else (out, n, ByteLimit, False))
           else tail_loop hb maxLines maxBytes ls (l # out) (n + lineBytes))"

definition truncateTail :: "bool \<Rightarrow> jstr \<Rightarrow> int option \<Rightarrow> int option \<Rightarrow> truncation" where
  "truncateTail hb content maxLinesOption maxBytesOption =
     (let maxLines = or_default DEFAULT_MAX_LINES maxLinesOption;
          maxBytes = or_default DEFAULT_MAX_BYTES maxBytesOption;
          totalBytes = utf8ByteLength hb content;
          lines = splitLinesForCounting content;
          totalLines = length lines
      in if int totalLines \<le> maxLines \<and> int totalBytes \<le> maxBytes
         then whole_text content totalLines totalBytes maxLines maxBytes
         else case tail_loop hb maxLines maxBytes (rev lines) [] 0 of
           (out, n, hit, partial) \<Rightarrow>
             let output = join_text newline out
             in whole_text output totalLines totalBytes maxLines maxBytes
               \<lparr>tc_truncated := True, tc_truncatedBy := Some (reported_limit out n maxLines maxBytes hit),
                tc_outputLines := length out, tc_outputBytes := utf8ByteLength hb output,
                tc_lastLinePartial := partial\<rparr>)"

definition truncateLine :: "jstr \<Rightarrow> nat option \<Rightarrow> jstr \<times> bool" where
  "truncateLine l maxCharsOption =
     (let maxChars = or_default GREP_MAX_LINE_LENGTH maxCharsOption
      in if length l \<le> maxChars then (l, False) else (take maxChars l @ js ''... [truncated]'', True))"

section \<open>Joined lines\<close>

lemma join_text_snoc: "join_text sep (ls @ [l]) = (if ls = [] then l else join_text sep ls @ sep @ l)"
proof (induction ls rule: join_text.induct[of _ sep])
  case (3 sep x y zs)
  then show ?case by simp
qed simp_all

lemma join_text_Cons: "join_text sep (l # ls) = (if ls = [] then l else l @ sep @ join_text sep ls)"
  by (cases ls) auto

lemma utf8_join_snoc:
  "utf8_loop (join_text newline (ls @ [l])) = utf8_loop (join_text newline ls) + utf8_loop l + (if ls = [] then 0 else 1)"
  by (simp add: join_text_snoc newline_def utf8_loop_newline)

lemma utf8_join_Cons:
  "utf8_loop (join_text newline (l # ls)) = utf8_loop (join_text newline ls) + utf8_loop l + (if ls = [] then 0 else 1)"
  by (simp add: join_text_Cons newline_def utf8_loop_newline)

lemma length_split_newlines: "length (split_newlines s) = Suc (length (filter (\<lambda>c. c = 10) s))"
  by (induction s) (auto split: list.splits)

lemma join_split: "join_text newline (split_newlines s) = s"
proof (induction s)
  case (Cons c s)
  then show ?case using length_split_newlines[of s]
    by (cases "split_newlines s") (auto simp: join_text_Cons newline_def)
qed simp

lemma splitLinesForCounting_Nil: "splitLinesForCounting content = [] \<longleftrightarrow> content = []"
proof (cases content rule: rev_cases)
  case (snoc s c)
  then have "length (splitLinesForCounting content) = length (split_newlines content) - (if c = 10 then 1 else 0)"
    by (simp add: splitLinesForCounting_def Let_def)
  then have "length (splitLinesForCounting content) \<noteq> 0" using snoc by (simp add: length_split_newlines)
  then show ?thesis using snoc by auto
qed (simp add: splitLinesForCounting_def)

section \<open>The head\<close>

lemma head_loop_spec:
  assumes "head_loop hb maxLines maxBytes i ls out n = (out', n', hit)"
    and "i = length out" "int i \<le> maxLines" "n = utf8_loop (join_text newline out)" "int n \<le> maxBytes"
  shows "\<exists>k \<le> length ls. out' = out @ take k ls \<and> n' = utf8_loop (join_text newline out') \<and> int n' \<le> maxBytes \<and>
    int (length out') \<le> maxLines \<and>
    (k = length ls \<or> int (length out') = maxLines \<or> maxBytes < int (utf8_loop (join_text newline (out' @ [ls ! k]))))"
  using assms
proof (induction ls arbitrary: i out n)
  case Nil
  then show ?case by auto
next
  case (Cons l ls)
  let ?b = "n + (utf8_loop l + (if 0 < i then 1 else 0))"
  have b: "?b = utf8_loop (join_text newline (out @ [l]))"
    using Cons.prems(2,4) by (simp add: utf8_join_snoc)
  consider "\<not> int i < maxLines" | "int i < maxLines" "maxBytes < int ?b" | "int i < maxLines" "int ?b \<le> maxBytes"
    by linarith
  then show ?case
  proof cases
    case 3
    then have "head_loop hb maxLines maxBytes (Suc i) ls (out @ [l]) ?b = (out', n', hit)"
      using Cons.prems(1) by (simp add: Let_def utf8ByteLength_eq)
    moreover have "Suc i = length (out @ [l])" "int (Suc i) \<le> maxLines" using Cons.prems(2) 3(1) by simp_all
    ultimately obtain k where "k \<le> length ls \<and> out' = (out @ [l]) @ take k ls \<and>
      n' = utf8_loop (join_text newline out') \<and> int n' \<le> maxBytes \<and> int (length out') \<le> maxLines \<and>
      (k = length ls \<or> int (length out') = maxLines \<or> maxBytes < int (utf8_loop (join_text newline (out' @ [ls ! k]))))"
      using Cons.IH[of "Suc i" "out @ [l]" ?b] b 3(2) by blast
    then show ?thesis by (intro exI[of _ "Suc k"]) auto
  next
    case 2
    then show ?thesis using Cons.prems b by (intro exI[of _ 0]) (auto simp: Let_def utf8ByteLength_eq)
  next
    case 1
    then show ?thesis using Cons.prems by (intro exI[of _ 0]) auto
  qed
qed

text \<open>
  Truncation to the head always returns for limits that are not negative, within both of them: a text within
  them unchanged, else the join of its first complete lines, as many as both limits admit (none when the first
  line alone exceeds the byte limit).
\<close>
theorem truncateHead_limits:
  assumes "0 \<le> or_default DEFAULT_MAX_LINES ml" "0 \<le> or_default DEFAULT_MAX_BYTES mb"
  shows "\<exists>r. truncateHead hb content ml mb = Some r \<and>
    tc_outputBytes r = utf8ByteLength hb (tc_content r) \<and>
    int (tc_outputBytes r) \<le> or_default DEFAULT_MAX_BYTES mb \<and> int (tc_outputLines r) \<le> or_default DEFAULT_MAX_LINES ml \<and>
    (if tc_truncated r
     then tc_content r = join_text newline (take (tc_outputLines r) (splitLinesForCounting content)) \<and>
       (tc_outputLines r = length (splitLinesForCounting content) \<or>
        int (tc_outputLines r) = or_default DEFAULT_MAX_LINES ml \<or>
        or_default DEFAULT_MAX_BYTES mb <
          int (utf8ByteLength hb (join_text newline (take (Suc (tc_outputLines r)) (splitLinesForCounting content)))))
     else tc_content r = content)"
proof -
  define L where "L = or_default DEFAULT_MAX_LINES ml"
  define B where "B = or_default DEFAULT_MAX_BYTES mb"
  note LB = L_def[symmetric] B_def[symmetric]
  let ?ls = "splitLinesForCounting content"
  show ?thesis
  proof (cases "int (length ?ls) \<le> L \<and> int (utf8_loop content) \<le> B")
    case True
    then show ?thesis by (simp add: truncateHead_def Let_def LB utf8ByteLength_eq whole_text_def)
  next
    case False
    show ?thesis
    proof (cases ?ls)
      case Nil
      then have "content = []" by (simp add: splitLinesForCounting_Nil)
      then show ?thesis using False assms Nil by (simp add: LB)
    next
      case (Cons first rest)
      show ?thesis
      proof (cases "B < int (utf8_loop first)")
        case True
        then show ?thesis using False Cons assms
          by (simp add: truncateHead_def Let_def LB utf8ByteLength_eq whole_text_def)
      next
        case fits: False
        obtain out n hit where loop: "head_loop hb L B 0 ?ls [] 0 = (out, n, hit)" by (metis prod_cases3)
        have "\<exists>k \<le> length ?ls. out = [] @ take k ?ls \<and> n = utf8_loop (join_text newline out) \<and> int n \<le> B \<and>
            int (length out) \<le> L \<and>
            (k = length ?ls \<or> int (length out) = L \<or> B < int (utf8_loop (join_text newline (out @ [?ls ! k]))))"
          by (rule head_loop_spec[OF loop]) (use assms in \<open>simp_all add: LB\<close>)
        then obtain k where k: "k \<le> length ?ls" "out = take k ?ls" "int (utf8_loop (join_text newline out)) \<le> B"
          "int (length out) \<le> L"
          "k = length ?ls \<or> int (length out) = L \<or> B < int (utf8_loop (join_text newline (out @ [?ls ! k])))"
          unfolding append_Nil by blast
        have len: "length out = k" using k(1,2) by simp
        have next_line: "k < length ?ls \<Longrightarrow> out @ [?ls ! k] = take (Suc k) ?ls"
          using k(2) by (simp add: take_Suc_conv_app_nth)
        have more: "k = length ?ls \<or> int k = L \<or> B < int (utf8_loop (join_text newline (take (Suc k) ?ls)))"
          using k(1,5) len next_line by (cases "k = length ?ls") auto
        define r where "r = whole_text (join_text newline out) (length ?ls) (utf8_loop content) L B
          \<lparr>tc_truncated := True, tc_truncatedBy := Some (reported_limit out n L B hit),
           tc_outputLines := length out, tc_outputBytes := utf8_loop (join_text newline out)\<rparr>"
        have "truncateHead hb content ml mb = Some r"
          using False fits loop
          by (auto simp: truncateHead_def Let_def LB utf8ByteLength_eq Cons r_def simp del: head_loop.simps)
        moreover have "tc_outputBytes r = utf8_loop (tc_content r)" "tc_outputBytes r = utf8_loop (join_text newline out)"
          "tc_outputLines r = k" "tc_truncated r" "tc_content r = join_text newline (take k ?ls)"
          using k(1) by (simp_all add: r_def len k(2) whole_text_def)
        ultimately show ?thesis using k(3,4) more len unfolding LB utf8ByteLength_eq by (intro exI[of _ r]) simp
      qed
    qed
  qed
qed

section \<open>The end of a line\<close>

lemma replacement_bytes: "unit_bytes 0xFFFD = 3" "\<not> is_high 0xFFFD" "\<not> is_low 0xFFFD"
  by (simp_all add: unit_bytes_def surrogate_unat)

lemma replace_append: "clean_split s t \<Longrightarrow>
    replaceUnpairedSurrogates (s @ t) = replaceUnpairedSurrogates s @ replaceUnpairedSurrogates t"
proof (induction s rule: replaceUnpairedSurrogates.induct)
  case (2 c)
  then show ?case by (cases t) (auto simp: clean_split_def)
next
  case (3 c d cs)
  have "clean_split (d # cs) t" "clean_split cs t"
    using 3(3) by (auto simp: clean_split_def)
  then show ?case using 3 by auto
qed simp

text \<open>A replacement has the three bytes of the surrogate it stands for.\<close>

lemma replace_bytes: "utf8_loop (replaceUnpairedSurrogates s) = utf8_loop s"
proof (induction s rule: replaceUnpairedSurrogates.induct)
  case (2 c)
  then show ?case using surrogate_bytes[of c] replacement_bytes by auto
next
  case (3 c d cs)
  show ?case
  proof (cases "is_high c \<and> is_low d")
    case True
    then show ?thesis using 3(1) by simp
  next
    case False
    let ?c = "if is_high c \<or> is_low c then 0xFFFD else c"
    have "\<not> is_high ?c" "unit_bytes ?c = unit_bytes c" using surrogate_bytes[of c] replacement_bytes by auto
    then show ?thesis using 3(2)[OF False] False utf8_loop_Cons_plain[of ?c] by auto
  qed
qed simp

lemma end_loop_spec:
  assumes "end_loop maxBytes xs n = (k, r)" "int n \<le> maxBytes"
  shows "k \<le> length xs \<and> int (n + utf8_loop (rev (take k xs))) \<le> maxBytes \<and>
    (r \<or> replaceUnpairedSurrogates (rev (take k xs)) = rev (take k xs))"
  using assms
proof (induction maxBytes xs n arbitrary: k r rule: end_loop.induct)
  case (2 maxBytes c n)
  then show ?case by (auto simp: Let_def surrogate_bytes split: if_splits)
next
  case (3 maxBytes c p cs n)
  show ?case
  proof (cases "is_low c \<and> is_high p")
    case pair: True
    show ?thesis
    proof (cases "maxBytes < int (n + 4)")
      case False
      then obtain j where j: "end_loop maxBytes cs (n + 4) = (j, r)" "k = j + 2"
        using 3(3) pair by (auto split: prod.splits)
      have "\<not> is_low p" using pair by (simp add: high_not_low)
      then have "clean_split (rev (take j cs)) [p, c]" by (simp add: clean_split_def)
      from utf8_loop_append[OF this] replace_append[OF this] 3(1)[OF pair False j(1)] False j(2) pair
      show ?thesis by auto
    qed (use 3 pair in auto)
  next
    case lone: False
    let ?b = "if is_high c \<or> is_low c then 3 else unit_bytes c"
    have b: "?b = unit_bytes c" by (simp add: surrogate_bytes)
    show ?thesis
    proof (cases "maxBytes < int (n + ?b)")
      case False
      then obtain j q where j: "end_loop maxBytes (p # cs) (n + ?b) = (j, q)" "k = j + 1"
        "r \<longleftrightarrow> is_high c \<or> is_low c \<or> q"
        using 3(3) lone by (auto simp: Let_def split: prod.splits)
      let ?A = "rev (take j (p # cs))"
      have "clean_split ?A [c]" using lone by (cases j) (auto simp: clean_split_def)
      from utf8_loop_append[OF this] replace_append[OF this]
      have A: "utf8_loop (?A @ [c]) = utf8_loop ?A + unit_bytes c"
        "replaceUnpairedSurrogates (?A @ [c]) = replaceUnpairedSurrogates ?A @ replaceUnpairedSurrogates [c]" by simp_all
      have IH: "j \<le> length (p # cs)" "int (n + ?b + utf8_loop ?A) \<le> maxBytes"
        "q \<or> replaceUnpairedSurrogates ?A = ?A"
        using 3(2)[OF lone refl refl False j(1)] False by auto
      have t: "rev (take k (c # p # cs)) = ?A @ [c]" using j(2) by simp
      have "int (n + utf8_loop (?A @ [c])) \<le> maxBytes" using IH(2) A(1) b by simp
      then show ?thesis unfolding t using IH(1,3) A(2) j(2,3) by auto
    qed (use 3(3,4) lone in \<open>auto simp: Let_def\<close>)
  qed
qed simp

lemma truncateString_spec:
  assumes "0 \<le> maxBytes"
  shows "int (utf8_loop (truncateStringToBytesFromEnd str maxBytes)) \<le> maxBytes \<and>
    (\<exists>j. truncateStringToBytesFromEnd str maxBytes = replaceUnpairedSurrogates (drop j str))"
proof (cases "maxBytes \<le> 0")
  case True
  then show ?thesis using assms by (auto simp: truncateStringToBytesFromEnd_def intro: exI[of _ "length str"])
next
  case False
  obtain k r where loop: "end_loop maxBytes (rev str) 0 = (k, r)" by (cases "end_loop maxBytes (rev str) 0")
  from end_loop_spec[OF loop] assms
  have k: "k \<le> length str" "int (utf8_loop (drop (length str - k) str)) \<le> maxBytes"
    "r \<or> replaceUnpairedSurrogates (drop (length str - k) str) = drop (length str - k) str"
    by (simp_all add: take_rev)
  have "truncateStringToBytesFromEnd str maxBytes = replaceUnpairedSurrogates (drop (length str - k) str)"
    using False loop k(3) by (auto simp: truncateStringToBytesFromEnd_def Let_def)
  then show ?thesis using k(2) replace_bytes by metis
qed

section \<open>The tail\<close>

lemma tail_loop_spec:
  assumes "tail_loop hb maxLines maxBytes ls out n = (out', n', hit, partial)"
    and "int (length out) \<le> maxLines" "n = utf8_loop (join_text newline out)" "int n \<le> maxBytes" "0 \<le> maxBytes"
  shows "n' = utf8_loop (join_text newline out') \<and> int n' \<le> maxBytes \<and> int (length out') \<le> maxLines \<and>
    (if partial
     then out = [] \<and> ls \<noteq> [] \<and> maxBytes < int (utf8_loop (hd ls)) \<and> (\<exists>j. out' = [replaceUnpairedSurrogates (drop j (hd ls))])
     else \<exists>k \<le> length ls. out' = rev (take k ls) @ out \<and>
       (k = length ls \<or> int (length out') = maxLines \<or> maxBytes < int (utf8_loop (join_text newline (ls ! k # out')))))"
  using assms
proof (induction ls arbitrary: out n)
  case Nil
  then show ?case by auto
next
  case (Cons l ls)
  let ?b = "n + (utf8_loop l + (if out \<noteq> [] then 1 else 0))"
  have b: "?b = utf8_loop (join_text newline (l # out))"
    using Cons.prems(3) by (simp add: utf8_join_Cons)
  consider "\<not> int (length out) < maxLines" | "int (length out) < maxLines" "maxBytes < int ?b" "out = []"
    | "int (length out) < maxLines" "maxBytes < int ?b" "out \<noteq> []"
    | "int (length out) < maxLines" "int ?b \<le> maxBytes"
    by linarith
  then show ?case
  proof cases
    case 1
    then show ?thesis using Cons.prems by auto
  next
    case 2
    then show ?thesis
      using Cons.prems truncateString_spec[of maxBytes l] by (auto simp: Let_def utf8ByteLength_eq)
  next
    case 3
    then have "out' = out" "n' = n" "\<not> partial" using Cons.prems(1) by (auto simp: Let_def utf8ByteLength_eq)
    then show ?thesis using 3 Cons.prems(2-4) b by (auto intro!: exI[of _ 0])
  next
    case 4
    then have r: "tail_loop hb maxLines maxBytes ls (l # out) ?b = (out', n', hit, partial)"
      using Cons.prems(1) by (simp add: Let_def utf8ByteLength_eq split: if_splits)
    have IH: "n' = utf8_loop (join_text newline out') \<and> int n' \<le> maxBytes \<and> int (length out') \<le> maxLines \<and>
      (if partial
       then l # out = [] \<and> ls \<noteq> [] \<and> maxBytes < int (utf8_loop (hd ls)) \<and> (\<exists>j. out' = [replaceUnpairedSurrogates (drop j (hd ls))])
       else \<exists>k \<le> length ls. out' = rev (take k ls) @ l # out \<and>
         (k = length ls \<or> int (length out') = maxLines \<or> maxBytes < int (utf8_loop (join_text newline (ls ! k # out')))))"
      by (rule Cons.IH[OF r]) (use 4 b Cons.prems(5) in simp_all)
    then have "\<not> partial" by (auto split: if_splits)
    with IH obtain k where k: "k \<le> length ls" "out' = rev (take k ls) @ l # out"
      "k = length ls \<or> int (length out') = maxLines \<or> maxBytes < int (utf8_loop (join_text newline (ls ! k # out')))"
      by auto
    then have "\<exists>k \<le> length (l # ls). out' = rev (take k (l # ls)) @ out \<and>
       (k = length (l # ls) \<or> int (length out') = maxLines \<or> maxBytes < int (utf8_loop (join_text newline ((l # ls) ! k # out'))))"
      by (intro exI[of _ "Suc k"]) simp
    then show ?thesis using IH \<open>\<not> partial\<close> by simp
  qed
qed

text \<open>
  C39. Truncation to the tail stays within both limits when they are not negative: a text within them unchanged,
  else the join of its last complete lines, as many as both limits admit; only when the last line alone
  exceeds the byte limit is the result the end of that line, without a cut character (lone surrogates
  replaced).
\<close>
theorem truncateTail_limits:
  assumes "0 \<le> or_default DEFAULT_MAX_LINES ml" "0 \<le> or_default DEFAULT_MAX_BYTES mb"
  shows "let r = truncateTail hb content ml mb; ls = splitLinesForCounting content; k = tc_outputLines r in
    tc_outputBytes r = utf8ByteLength hb (tc_content r) \<and>
    int (tc_outputBytes r) \<le> or_default DEFAULT_MAX_BYTES mb \<and> int k \<le> or_default DEFAULT_MAX_LINES ml \<and>
    (if \<not> tc_truncated r then tc_content r = content
     else if tc_lastLinePartial r
     then or_default DEFAULT_MAX_BYTES mb < int (utf8ByteLength hb (last ls)) \<and>
       (\<exists>j. tc_content r = replaceUnpairedSurrogates (drop j (last ls)))
     else tc_content r = join_text newline (drop (length ls - k) ls) \<and> k \<le> length ls \<and>
       (k = length ls \<or> int k = or_default DEFAULT_MAX_LINES ml \<or>
        or_default DEFAULT_MAX_BYTES mb < int (utf8ByteLength hb (join_text newline (drop (length ls - Suc k) ls)))))"
proof -
  define L where "L = or_default DEFAULT_MAX_LINES ml"
  define B where "B = or_default DEFAULT_MAX_BYTES mb"
  note LB = L_def[symmetric] B_def[symmetric]
  let ?ls = "splitLinesForCounting content"
  show ?thesis
  proof (cases "int (length ?ls) \<le> L \<and> int (utf8_loop content) \<le> B")
    case True
    then show ?thesis by (simp add: truncateTail_def Let_def LB utf8ByteLength_eq whole_text_def)
  next
    case False
    obtain out n hit partial where loop: "tail_loop hb L B (rev ?ls) [] 0 = (out, n, hit, partial)"
      by (cases "tail_loop hb L B (rev ?ls) [] 0")
    define r where "r = truncateTail hb content ml mb"
    have r: "tc_content r = join_text newline out" "tc_outputBytes r = utf8_loop (join_text newline out)"
      "tc_outputLines r = length out" "tc_truncated r" "tc_lastLinePartial r = partial"
      using False loop by (auto simp: r_def truncateTail_def Let_def LB utf8ByteLength_eq whole_text_def)
    have spec: "n = utf8_loop (join_text newline out) \<and> int n \<le> B \<and> int (length out) \<le> L \<and>
      (if partial
       then [] = ([] :: jstr list) \<and> rev ?ls \<noteq> [] \<and> B < int (utf8_loop (hd (rev ?ls))) \<and>
         (\<exists>j. out = [replaceUnpairedSurrogates (drop j (hd (rev ?ls)))])
       else \<exists>k \<le> length (rev ?ls). out = rev (take k (rev ?ls)) @ [] \<and>
         (k = length (rev ?ls) \<or> int (length out) = L \<or> B < int (utf8_loop (join_text newline (rev ?ls ! k # out)))))"
      by (rule tail_loop_spec[OF loop]) (use assms in \<open>simp_all add: LB\<close>)
    show ?thesis
    proof (cases partial)
      case True
      then show ?thesis using spec r unfolding r_def[symmetric] Let_def LB utf8ByteLength_eq
        by (auto simp: hd_rev)
    next
      case whole: False
      then obtain k where k: "k \<le> length ?ls" "out = drop (length ?ls - k) ?ls"
        "k = length ?ls \<or> int k = L \<or> B < int (utf8_loop (join_text newline (rev ?ls ! k # out)))"
        using spec by (auto simp: take_rev)
      have "k < length ?ls \<Longrightarrow> rev ?ls ! k # out = drop (length ?ls - Suc k) ?ls"
        using k(2) Cons_nth_drop_Suc[of "length ?ls - Suc k" ?ls] by (simp add: rev_nth Suc_diff_Suc)
      then have "k = length ?ls \<or> int k = L \<or> B < int (utf8_loop (join_text newline (drop (length ?ls - Suc k) ?ls)))"
        using k(1,3) by (cases "k = length ?ls") auto
      moreover have "length out = k" using k(1,2) by simp
      ultimately show ?thesis using spec r whole k(1,2) unfolding r_def[symmetric] Let_def LB utf8ByteLength_eq
        by simp
    qed
  qed
qed

definition two_lines :: jstr where
  "two_lines = js ''abc'' @ newline @ js ''de''"

theorem truncateHead_limits_witness:
  "\<exists>r. truncateHead True two_lines (Some 1) None = Some r \<and> tc_content r = js ''abc'' \<and>
    tc_outputBytes r = utf8ByteLength True (tc_content r) \<and> int (tc_outputLines r) \<le> 1"
proof -
  have "(case truncateHead True two_lines (Some 1) None of Some r \<Rightarrow> tc_content r = js ''abc'' | None \<Rightarrow> False)"
    by code_simp
  then show ?thesis
    using truncateHead_limits[of "Some 1" None True two_lines] by (auto simp: or_default_def DEFAULT_MAX_BYTES_def)
qed

theorem truncateTail_limits_witness:
  "tc_content (truncateTail True two_lines (Some 1) None) = js ''de'' \<and>
    int (tc_outputLines (truncateTail True two_lines (Some 1) None)) \<le> 1"
proof -
  have "tc_content (truncateTail True two_lines (Some 1) None) = js ''de''" by code_simp
  then show ?thesis
    using truncateTail_limits[of "Some 1" None True two_lines] by (simp add: or_default_def DEFAULT_MAX_BYTES_def Let_def)
qed

text \<open>
  The limit reported is not always the limit hit: with a limit of one line, the cut of a single line by the byte
  limit is reported as the line limit; and a text that exceeds the byte limit by its last newline alone is
  reported as cut by the line limit, though it has fewer lines.
\<close>

lemma byte_limit_reported_as_lines:
  "tc_truncatedBy (truncateTail True (js ''abcd'') (Some 1) (Some 2)) = Some LineLimit \<and>
   tc_totalLines (truncateTail True (js ''abcd'') (Some 1) (Some 2)) = 1 \<and>
   map_option tc_truncatedBy (truncateHead True (js ''abc'' @ newline) (Some 2000) (Some 3)) = Some (Some LineLimit) \<and>
   map_option tc_totalLines (truncateHead True (js ''abc'' @ newline) (Some 2000) (Some 3)) = Some 1"
  by code_simp

end
