(* ===== verification/OutputCapture.thy ===== *)
theory OutputCapture
  imports Truncate
begin

text \<open>
  The bounded view of a command's output (\<open>packages/agent/src/harness/utils/output-capture.ts\<close>): text is
  appended to a buffer that is trimmed at twice the byte limit, counters keep the totals, and each published
  view is sent as an update of the previous one. \<open>hb\<close> says whether the runtime has \<open>Buffer\<close>. The text that
  the stream decoder yields for pushed bytes is the argument of \<open>appendText\<close>.
\<close>

section \<open>Views and updates\<close>

datatype retention = RetainHead | RetainTail

record output_metadata =
  om_truncation :: truncation_info
  om_spillPath :: "jstr option"
  om_lastLineBytes :: "nat option"

record output_view = output_metadata +
  ov_text :: jstr

datatype output_update =
    Replace output_view
  | Append jstr output_metadata
  | Slide nat jstr output_metadata
  | MetadataOnly output_metadata

definition with_metadata :: "jstr \<Rightarrow> output_metadata \<Rightarrow> output_view" where
  "with_metadata text md =
     \<lparr>om_truncation = om_truncation md, om_spillPath = om_spillPath md, om_lastLineBytes = om_lastLineBytes md,
      ov_text = text\<rparr>"

definition applyShellOutputUpdate :: "output_view option \<Rightarrow> output_update \<Rightarrow> output_view" where
  "applyShellOutputUpdate current u =
     (case u of
        Replace output \<Rightarrow> output
      | Append text md \<Rightarrow> with_metadata ((case current of None \<Rightarrow> [] | Some v \<Rightarrow> ov_text v) @ text) md
      | Slide n text md \<Rightarrow> with_metadata ((case current of None \<Rightarrow> [] | Some v \<Rightarrow> drop n (ov_text v)) @ text) md
      | MetadataOnly md \<Rightarrow> with_metadata (case current of None \<Rightarrow> [] | Some v \<Rightarrow> ov_text v) md)"

text \<open>The indexes at which a probe occurs, as the \<open>indexOf\<close> loop visits them; at most eight are tried.\<close>

definition occurrences :: "jstr \<Rightarrow> jstr \<Rightarrow> nat list" where
  "occurrences probe text = filter (\<lambda>i. take (length probe) (drop i text) = probe) [0..<Suc (length text) - length probe]"

definition probe_overlap :: "jstr \<Rightarrow> jstr \<Rightarrow> nat \<Rightarrow> nat option" where
  "probe_overlap tail after n =
     map_option (\<lambda>i. length tail - i)
       (List.find (\<lambda>i. length tail - i \<le> length after \<and> drop i tail = take (length tail - i) after)
         (take 8 (occurrences (take n after) tail)))"

definition suffixPrefixOverlap :: "jstr \<Rightarrow> jstr \<Rightarrow> nat \<Rightarrow> nat" where
  "suffixPrefixOverlap before after scan =
     (if before = [] \<or> after = [] \<or> scan = 0 then 0
      else let tail = (if scan < length before then drop (length before - scan) before else before)
        in case probe_overlap tail after (min 64 (length after)) of
          Some n \<Rightarrow> n
        | None \<Rightarrow> (case probe_overlap tail after 1 of Some n \<Rightarrow> n | None \<Rightarrow> 0))"

definition metadata_of :: "output_view \<Rightarrow> output_metadata" where
  "metadata_of v =
     \<lparr>om_truncation = om_truncation v, om_spillPath = om_spillPath v, om_lastLineBytes = om_lastLineBytes v\<rparr>"

definition updateFrom :: "output_view option \<Rightarrow> output_view \<Rightarrow> output_update" where
  "updateFrom previous current =
     (case previous of
        None \<Rightarrow> Replace current
      | Some p \<Rightarrow>
          (let old = ov_text p; new = ov_text current; md = metadata_of current in
           if new = old then MetadataOnly md
           else if length old < length new \<and> take (length old) new = old then Append (drop (length old) new) md
           else let shared = suffixPrefixOverlap old new
                      (nat (min (int (min (length old) (length new))) (tc_maxBytes (om_truncation current) * 2)))
                in if 0 < shared then Slide (length old - shared) (drop shared new) md
                   else Replace current))"

section \<open>The capture\<close>

record capture =
  oc_maxBytes :: int
  oc_maxLines :: int
  oc_retain :: retention
  oc_buffer :: jstr
  oc_bufferBytes :: nat
  oc_totalBytes :: nat
  oc_newlines :: nat
  oc_endsWithNewline :: bool
  oc_currentLineBytes :: nat
  oc_spillPath :: "jstr option"

datatype capture_error = BadMaxBytes | BadMaxLines

text \<open>The constructor; a limit that is no integer is not modelled.\<close>

definition new_capture :: "int option \<Rightarrow> int option \<Rightarrow> retention option \<Rightarrow> capture_error + capture" where
  "new_capture maxBytesOption maxLinesOption retainOption =
     (let maxBytes = or_default DEFAULT_MAX_BYTES maxBytesOption; maxLines = or_default DEFAULT_MAX_LINES maxLinesOption
      in if maxBytes \<le> 0 then Inl BadMaxBytes
         else if maxLines \<le> 0 then Inl BadMaxLines
         else Inr \<lparr>oc_maxBytes = maxBytes, oc_maxLines = maxLines, oc_retain = or_default RetainTail retainOption,
           oc_buffer = [], oc_bufferBytes = 0, oc_totalBytes = 0, oc_newlines = 0, oc_endsWithNewline = True,
           oc_currentLineBytes = 0, oc_spillPath = None\<rparr>)"

definition countNewlines :: "jstr \<Rightarrow> nat" where
  "countNewlines text = length (filter (\<lambda>c. c = 10) text)"

definition captured_lines :: "capture \<Rightarrow> nat" where
  "captured_lines c = oc_newlines c + (if oc_endsWithNewline c \<or> oc_totalBytes c = 0 then 0 else 1)"

definition capture_truncated :: "capture \<Rightarrow> bool" where
  "capture_truncated c \<longleftrightarrow> oc_maxBytes c < int (oc_totalBytes c) \<or> oc_maxLines c < int (captured_lines c)"

text \<open>
  Trimming cuts the encoding at a character boundary and decodes it again. There the decoder of the code, which
  replaces malformed bytes, agrees with the one of \<open>JsValue\<close>, which rejects them; it drops a byte order mark at
  the start.
\<close>

definition continuation :: "byte \<Rightarrow> bool" where
  "continuation b \<longleftrightarrow> and b 0xC0 = 0x80"

definition decode_trimmed :: "byte list \<Rightarrow> jstr" where
  "decode_trimmed bs =
     (case textDecode bs of
        None \<Rightarrow> []
      | Some t \<Rightarrow> (case t of [] \<Rightarrow> [] | c # cs \<Rightarrow> if c = 0xFEFF then cs else t))"

definition trimToLastUtf8Bytes :: "jstr \<Rightarrow> nat \<Rightarrow> jstr" where
  "trimToLastUtf8Bytes text maxBytes =
     (let bytes = textEncode text
      in if length bytes \<le> maxBytes then text
         else decode_trimmed (dropWhile continuation (drop (length bytes - maxBytes) bytes)))"

text \<open>The loop to the left ends at the first byte of the character that is cut, or at the start.\<close>

fun boundary_before :: "byte list \<Rightarrow> nat \<Rightarrow> nat" where
  "boundary_before bytes 0 = 0"
| "boundary_before bytes (Suc e) = (if continuation (bytes ! Suc e) then boundary_before bytes e else Suc e)"

definition trimToFirstUtf8Bytes :: "jstr \<Rightarrow> nat \<Rightarrow> jstr" where
  "trimToFirstUtf8Bytes text maxBytes =
     (let bytes = textEncode text
      in if length bytes \<le> maxBytes then text else decode_trimmed (take (boundary_before bytes maxBytes) bytes))"

definition after_last_newline :: "jstr \<Rightarrow> jstr" where
  "after_last_newline text = rev (takeWhile (\<lambda>c. c \<noteq> 10) (rev text))"

definition appendText :: "bool \<Rightarrow> jstr \<Rightarrow> capture \<Rightarrow> capture" where
  "appendText hb text c =
     (if text = [] then c
      else
        let textBytes = utf8ByteLength hb text;
            buffer = oc_buffer c @ text;
            bufferBytes = oc_bufferBytes c + textBytes;
            guard = oc_maxBytes c * 2;
            over = guard * 2 < int bufferBytes;
            trimmed = (if \<not> over then buffer
              else if oc_retain c = RetainTail then trimToLastUtf8Bytes buffer (nat guard)
              else trimToFirstUtf8Bytes buffer (nat guard))
        in c\<lparr>oc_totalBytes := oc_totalBytes c + textBytes,
             oc_newlines := oc_newlines c + countNewlines text,
             oc_endsWithNewline := (last text = 10),
             oc_currentLineBytes := (if 10 \<in> set text then utf8ByteLength hb (after_last_newline text)
               else oc_currentLineBytes c + textBytes),
             oc_buffer := trimmed,
             oc_bufferBytes := (if over then utf8ByteLength hb trimmed else bufferBytes)\<rparr>)"

definition setSpillPath :: "jstr \<Rightarrow> capture \<Rightarrow> capture" where
  "setSpillPath path c = c\<lparr>oc_spillPath := Some path\<rparr>"

definition invalid_output :: "code_unit \<Rightarrow> bool" where
  "invalid_output c \<longleftrightarrow> unat c \<le> 8 \<or> (11 \<le> unat c \<and> unat c \<le> 31) \<or> (0xFFF9 \<le> unat c \<and> unat c \<le> 0xFFFB)"

definition sanitizeShellOutput :: "jstr \<Rightarrow> jstr" where
  "sanitizeShellOutput text = filter (\<lambda>c. \<not> invalid_output c) text"

text \<open>The retained text; the head always has a result, because the limits are positive.\<close>

definition retained_text :: "bool \<Rightarrow> capture \<Rightarrow> truncation option" where
  "retained_text hb c =
     (if oc_retain c = RetainHead then truncateHead hb (oc_buffer c) (Some (oc_maxLines c)) (Some (oc_maxBytes c))
      else Some (truncateTail hb (oc_buffer c) (Some (oc_maxLines c)) (Some (oc_maxBytes c))))"

definition snapshot_of :: "capture \<Rightarrow> truncation \<Rightarrow> output_view" where
  "snapshot_of c r =
     \<lparr>om_truncation = (truncation_info.truncate r)
        \<lparr>tc_truncated := capture_truncated c,
         tc_truncatedBy := (if capture_truncated c
           then Some (if oc_maxLines c < int (captured_lines c) then LineLimit else ByteLimit) else None),
         tc_totalBytes := oc_totalBytes c, tc_totalLines := captured_lines c\<rparr>,
      om_spillPath = oc_spillPath c,
      om_lastLineBytes = (if tc_lastLinePartial r then Some (oc_currentLineBytes c) else None),
      ov_text = sanitizeShellOutput (tc_content r)\<rparr>"

definition snapshot :: "bool \<Rightarrow> capture \<Rightarrow> output_view option" where
  "snapshot hb c = map_option (snapshot_of c) (retained_text hb c)"

section \<open>Updates\<close>

lemma probe_overlap_sound:
  assumes "probe_overlap tail after n = Some k"
  shows "k \<le> length tail \<and> k \<le> length after \<and> drop (length tail - k) tail = take k after"
proof -
  obtain i where i: "List.find (\<lambda>i. length tail - i \<le> length after \<and> drop i tail = take (length tail - i) after)
      (take 8 (occurrences (take n after) tail)) = Some i" "k = length tail - i"
    using assms by (auto simp: probe_overlap_def)
  have ok: "length tail - i \<le> length after" "drop i tail = take (length tail - i) after"
    "i \<in> set (occurrences (take n after) tail)"
    using find_split[OF i(1)] by (auto dest: in_set_takeD) (metis UnI2 in_set_takeD list.set_intros(1) set_append)
  then have "i \<le> length tail" by (auto simp: occurrences_def)
  then show ?thesis using ok i(2) by simp
qed

lemma suffixPrefixOverlap_sound:
  assumes "suffixPrefixOverlap before after scan = k"
  shows "k \<le> length before \<and> k \<le> length after \<and> drop (length before - k) before = take k after"
proof -
  let ?t = "if scan < length before then drop (length before - scan) before else before"
  have t: "k \<le> length before \<and> k \<le> length after \<and> drop (length before - k) before = take k after"
    if "k \<le> length ?t" "k \<le> length after" "drop (length ?t - k) ?t = take k after"
  proof -
    have "drop (length ?t - k) ?t = drop (length before - k) before" using that(1) by auto
    then show ?thesis using that by (auto split: if_splits)
  qed
  show ?thesis
  proof (cases "k = 0")
    case False
    then have "probe_overlap ?t after (min 64 (length after)) = Some k \<or> probe_overlap ?t after 1 = Some k"
      using assms by (auto simp: suffixPrefixOverlap_def Let_def split: if_splits option.splits)
    then show ?thesis using probe_overlap_sound t by blast
  qed simp
qed

lemma with_metadata_of: "with_metadata (ov_text v) (metadata_of v) = v"
  by (simp add: with_metadata_def metadata_of_def)

text \<open>
  C30. Applying the update between two views to the first gives the second exactly, whatever update is chosen: none
  of the texts, an append, a slide over a shared part or a replacement. The first update needs no view.
\<close>
theorem update_roundtrip:
  "applyShellOutputUpdate previous (updateFrom previous current) = current"
proof (cases previous)
  case None
  then show ?thesis by (simp add: applyShellOutputUpdate_def updateFrom_def)
next
  case (Some p)
  let ?old = "ov_text p" and ?new = "ov_text current"
  let ?k = "suffixPrefixOverlap ?old ?new
    (nat (min (int (min (length ?old) (length ?new))) (tc_maxBytes (om_truncation current) * 2)))"
  have "drop (length ?old - ?k) ?old @ drop ?k ?new = ?new"
    using suffixPrefixOverlap_sound[of ?old ?new _ ?k] by auto
  moreover have "?old @ drop (length ?old) ?new = ?new" if "take (length ?old) ?new = ?old"
    using that by (metis append_take_drop_id)
  ultimately show ?thesis
    using with_metadata_of[of current]
    by (auto simp: Some applyShellOutputUpdate_def updateFrom_def Let_def)
qed

end
