(* ===== verification/OutputRefines.thy ===== *)
theory OutputRefines
  imports OutputCapture
begin

text \<open>
  The trimmed buffer of an output capture shows what truncating the whole output would show: cutting the
  encoding gives a suffix of the text, and a tail truncation reads no more than a suffix above the byte limit.
\<close>

section \<open>Cutting an encoding\<close>

lemma continuation_iff: "continuation b \<longleftrightarrow> 0x80 \<le> unat b \<and> unat b < 0xC0"
proof -
  have "list_all (\<lambda>n. continuation (of_nat n) \<longleftrightarrow> 0x80 \<le> n \<and> n < 0xC0) [0..<256]" by code_simp
  moreover have "unat b < 256" using unsigned_less[of b] by simp
  ultimately show ?thesis unfolding list_all_iff by (auto dest!: bspec[of _ _ "unat b"])
qed

lemma utf8_scalar_shape:
  assumes "is_scalar c"
  obtains b bs where "utf8_scalar c = b # bs" "\<not> continuation b" "list_all continuation bs" "length bs \<le> 3"
proof -
  have c: "c < 0x110000" using assms by (auto simp: is_scalar_def)
  consider "c < 0x80" | "0x80 \<le> c" "c < 0x800" | "0x800 \<le> c" "c < 0x10000" | "0x10000 \<le> c" by linarith
  then show ?thesis
  proof cases
    case 1
    then show ?thesis using that by (simp add: utf8_scalar_def continuation_iff unat_byte)
  next
    case 2
    then have "c div 64 < 32" by auto
    then show ?thesis using 2 that by (simp add: utf8_scalar_def continuation_iff unat_byte del: of_nat_add)
  next
    case 3
    then have "c div 4096 < 16" by auto
    then show ?thesis using 3 that by (simp add: utf8_scalar_def continuation_iff unat_byte del: of_nat_add)
  next
    case 4
    then have "c div 262144 < 5" using c by auto
    then show ?thesis using 4 that by (simp add: utf8_scalar_def continuation_iff unat_byte del: of_nat_add)
  qed
qed

lemma encoding_start: "list_all is_scalar cs \<Longrightarrow> dropWhile continuation (concat (map utf8_scalar cs)) = concat (map utf8_scalar cs)"
proof (cases cs)
  case (Cons c ds)
  moreover assume "list_all is_scalar cs"
  ultimately obtain b bs where "utf8_scalar c = b # bs" "\<not> continuation b" by (auto elim: utf8_scalar_shape)
  then show ?thesis using Cons by simp
qed simp

lemma dropWhile_cont: "list_all continuation bs \<Longrightarrow> dropWhile continuation (bs @ ys) = dropWhile continuation ys"
  by (induction bs) auto

lemma cut_encoding:
  assumes "list_all is_scalar cs"
  shows "\<exists>j. dropWhile continuation (drop n (concat (map utf8_scalar cs))) = concat (map utf8_scalar (drop j cs)) \<and>
    length (concat (map utf8_scalar cs)) \<le> n + 3 + length (concat (map utf8_scalar (drop j cs)))"
  using assms
proof (induction cs arbitrary: n)
  case (Cons c cs)
  obtain b bs where u: "utf8_scalar c = b # bs" "\<not> continuation b" "list_all continuation bs" "length bs \<le> 3"
    using Cons.prems by (auto elim: utf8_scalar_shape)
  consider "n = 0" | "0 < n" "n < length (utf8_scalar c)" | "length (utf8_scalar c) \<le> n" by linarith
  then show ?case
  proof cases
    case 1
    then show ?thesis using encoding_start[OF Cons.prems] by (intro exI[of _ 0]) simp
  next
    case 2
    then have "drop n (utf8_scalar c @ concat (map utf8_scalar cs)) = drop (n - 1) bs @ concat (map utf8_scalar cs)"
      using u(1) by (cases n) auto
    moreover have "list_all continuation (drop (n - 1) bs)" using u(3) by (auto simp: list_all_iff dest: in_set_dropD)
    ultimately show ?thesis
      using dropWhile_cont encoding_start[of cs] Cons.prems u(1,4) 2(1) by (intro exI[of _ 1]) simp
  next
    case 3
    obtain j where "dropWhile continuation (drop (n - length (utf8_scalar c)) (concat (map utf8_scalar cs))) = concat (map utf8_scalar (drop j cs))"
      "length (concat (map utf8_scalar cs)) \<le> n - length (utf8_scalar c) + 3 + length (concat (map utf8_scalar (drop j cs)))"
      using Cons.IH[of "n - length (utf8_scalar c)"] Cons.prems by auto
    then show ?thesis using 3 by (intro exI[of _ "Suc j"]) simp
  qed
qed simp

section \<open>Suffixes of well-formed text\<close>

lemma wf_from_scalar: "is_scalar c \<Longrightarrow> wf_utf16 (from_scalar c @ s) \<longleftrightarrow> wf_utf16 s"
proof (cases "c < 0x10000")
  case True
  assume "is_scalar c"
  then have "\<not> is_high (of_nat c)" "\<not> is_low (of_nat c)"
    using True by (auto simp: surrogate_unat is_scalar_def unat_unit)
  then show ?thesis using True by (simp add: from_scalar_def wf_utf16_Cons_plain)
next
  case False
  assume "is_scalar c"
  then have "c < 0x110000" by (auto simp: is_scalar_def)
  then have "is_high (of_nat (0xD800 + (c - 0x10000) div 0x400))" "is_low (of_nat (0xDC00 + (c - 0x10000) mod 0x400))"
    using False by (auto simp: surrogate_unat unat_unit simp del: of_nat_add)
  then show ?thesis using False by (simp add: from_scalar_def)
qed

lemma wf_from_scalars: "list_all is_scalar cs \<Longrightarrow> wf_utf16 (concat (map from_scalar cs))"
  by (induction cs) (simp_all add: wf_from_scalar)

lemma wf_hd: "wf_utf16 s \<Longrightarrow> s \<noteq> [] \<Longrightarrow> \<not> is_low (hd s)"
  by (induction s rule: wf_utf16.induct) (auto dest: high_not_low split: if_splits)

lemma clean_wf: "wf_utf16 t \<Longrightarrow> clean_split s t"
  using wf_hd by (auto simp: clean_split_def)

text \<open>The trimmed text is a well-formed suffix, at most six bytes shorter than the guard.\<close>

lemma trimToLast_suffix:
  assumes "wf_utf16 s"
  shows "\<exists>p. s = p @ trimToLastUtf8Bytes s n \<and> wf_utf16 (trimToLastUtf8Bytes s n) \<and>
    (p = [] \<or> n \<le> utf8_loop (trimToLastUtf8Bytes s n) + 6)"
proof (cases "length (textEncode s) \<le> n")
  case True
  then show ?thesis using assms by (simp add: trimToLastUtf8Bytes_def Let_def)
next
  case False
  let ?cs = "to_scalars s"
  have cs: "list_all is_scalar ?cs" "concat (map from_scalar ?cs) = s" using wf_to_scalars[OF assms] by simp_all
  obtain j where j: "dropWhile continuation (drop (length (textEncode s) - n) (textEncode s)) = concat (map utf8_scalar (drop j ?cs))"
    "length (textEncode s) \<le> length (textEncode s) - n + 3 + length (concat (map utf8_scalar (drop j ?cs)))"
    using cut_encoding[OF cs(1)] unfolding textEncode_def by blast
  define t where "t = concat (map from_scalar (drop j ?cs))"
  have d: "list_all is_scalar (drop j ?cs)" using cs(1) by (auto simp: list_all_iff dest: in_set_dropD)
  then have wf: "wf_utf16 t" unfolding t_def by (rule wf_from_scalars)
  have dec: "textDecode (concat (map utf8_scalar (drop j ?cs))) = Some t"
    by (simp add: textDecode_def decode_utf8_scalars[OF d] t_def)
  have s: "s = concat (map from_scalar (take j ?cs)) @ t"
    unfolding t_def concat_append[symmetric] map_append[symmetric] by (simp add: cs(2))
  have len: "utf8_loop t = length (concat (map utf8_scalar (drop j ?cs)))"
  proof -
    have "to_scalars (concat (map from_scalar ds)) = ds" if "list_all is_scalar ds" for ds
      using that
    proof (induction ds)
      case (Cons c ds)
      have "to_scalars (from_scalar c @ u) = c # to_scalars u" if "is_scalar c" for c u
      proof (cases "c < 0x10000")
        case True
        then have "\<not> is_high (of_nat c)" "\<not> is_low (of_nat c)" "unat (of_nat c :: code_unit) = c"
          using \<open>is_scalar c\<close> by (auto simp: surrogate_unat is_scalar_def unat_unit)
        then show ?thesis using True by (cases u) (simp_all add: from_scalar_def)
      next
        case False
        define h where "h = 0xD800 + (c - 0x10000) div 0x400"
        define l where "l = 0xDC00 + (c - 0x10000) mod 0x400"
        have c: "c < 0x110000" using \<open>is_scalar c\<close> by (auto simp: is_scalar_def)
        have hl: "0xD800 \<le> h" "h < 0xDC00" "0xDC00 \<le> l" "l < 0xE000" using c False by (auto simp: h_def l_def)
        then have "unat (of_nat h :: code_unit) = h" "unat (of_nat l :: code_unit) = l" by (simp_all add: unat_unit)
        moreover have "0x10000 + (h - 0xD800) * 0x400 + (l - 0xDC00) = c" using False by (simp add: h_def l_def)
        ultimately show ?thesis using False hl
          by (simp add: from_scalar_def surrogate_unat flip: h_def l_def)
      qed
      with Cons show ?case by simp
    qed simp
    from this[OF d] show ?thesis by (simp add: utf8_loop_encode textEncode_def t_def)
  qed
  have trim: "trimToLastUtf8Bytes s n = (case t of [] \<Rightarrow> [] | c # r \<Rightarrow> if c = 0xFEFF then r else t)"
    using False j(1) dec by (simp add: trimToLastUtf8Bytes_def Let_def decode_trimmed_def)
  show ?thesis
  proof (cases "\<exists>r. t = 0xFEFF # r")
    case True
    then obtain r where r: "t = 0xFEFF # r" by blast
    have b: "\<not> is_high 0xFEFF" "unit_bytes 0xFEFF = 3" by (simp_all add: surrogate_unat unit_bytes_def)
    then have "wf_utf16 r" using wf r by (simp add: wf_utf16_Cons_plain)
    moreover have "utf8_loop t = 3 + utf8_loop r" using b utf8_loop_Cons_plain[of "0xFEFF" r] r by simp
    moreover have "n \<le> utf8_loop t + 3" using j(2) len False by simp
    moreover have "s = (concat (map from_scalar (take j ?cs)) @ [0xFEFF]) @ r" using s r by simp
    moreover have "trimToLastUtf8Bytes s n = r" using trim r by simp
    ultimately show ?thesis by (intro exI[of _ "concat (map from_scalar (take j ?cs)) @ [0xFEFF]"]) simp
  next
    case f: False
    then have "trimToLastUtf8Bytes s n = t" using trim by (auto split: list.splits)
    then show ?thesis using s wf j(2) len False by auto
  qed
qed

section \<open>Truncating a suffix\<close>

lemma end_loop_over: "maxBytes < int n \<Longrightarrow> end_loop maxBytes xs n = (0, False)"
  by (induction maxBytes xs n rule: end_loop.induct) (auto simp: Let_def)

lemma end_loop_suffix:
  assumes "maxBytes < int (n + utf8_loop (rev xs))" "xs = [] \<or> ys = [] \<or> \<not> (is_low (last xs) \<and> is_high (hd ys))"
  shows "end_loop maxBytes (xs @ ys) n = end_loop maxBytes xs n"
  using assms
proof (induction maxBytes xs n rule: end_loop.induct)
  case (1 maxBytes n)
  then show ?case using end_loop_over by simp
next
  case (2 maxBytes c n)
  then show ?case using surrogate_bytes[of c] by (cases ys) (auto simp: Let_def)
next
  case (3 maxBytes c p cs n)
  show ?case
  proof (cases "is_low c \<and> is_high p")
    case pair: True
    show ?thesis
    proof (cases "maxBytes < int (n + 4)")
      case False
      have "clean_split (rev cs) [p, c]" using pair by (auto simp: clean_split_def dest: high_not_low)
      from utf8_loop_append[OF this] have "utf8_loop (rev (c # p # cs)) = utf8_loop (rev cs) + 4" using pair by simp
      then have "end_loop maxBytes (cs @ ys) (n + 4) = end_loop maxBytes cs (n + 4)"
        using 3(1)[OF pair False] 3(3,4) by (cases "cs = []") auto
      then show ?thesis using pair by simp
    qed (use pair in simp)
  next
    case lone: False
    let ?b = "if is_high c \<or> is_low c then 3 else unit_bytes c"
    show ?thesis
    proof (cases "maxBytes < int (n + ?b)")
      case False
      have "clean_split (rev (p # cs)) [c]" using lone by (auto simp: clean_split_def)
      from utf8_loop_append[OF this] have "utf8_loop (rev (c # p # cs)) = utf8_loop (rev (p # cs)) + ?b"
        by (simp add: surrogate_bytes)
      then have "end_loop maxBytes ((p # cs) @ ys) (n + ?b) = end_loop maxBytes (p # cs) (n + ?b)"
        using 3(2)[OF lone refl refl False] 3(3,4) by simp
      then show ?thesis using lone by (auto simp: Let_def)
    qed (use lone in \<open>auto simp: Let_def\<close>)
  qed
qed

lemma truncateString_suffix:
  assumes "maxBytes < int (utf8_loop t)" "clean_split s t"
  shows "truncateStringToBytesFromEnd (s @ t) maxBytes = truncateStringToBytesFromEnd t maxBytes"
proof (cases "maxBytes \<le> 0")
  case False
  have same: "end_loop maxBytes (rev t @ rev s) 0 = end_loop maxBytes (rev t) 0"
    by (rule end_loop_suffix) (use assms in \<open>auto simp: clean_split_def hd_rev last_rev\<close>)
  obtain k r where loop: "end_loop maxBytes (rev t) 0 = (k, r)" by (cases "end_loop maxBytes (rev t) 0")
  then have "k \<le> length t" using end_loop_spec[OF loop] False by simp
  then have "drop (length (s @ t) - k) (s @ t) = drop (length t - k) t" by simp
  then show ?thesis using False same loop by (simp add: truncateStringToBytesFromEnd_def)
qed (simp add: truncateStringToBytesFromEnd_def)

text \<open>The lines behind the one that is cut decide the loop, when they and the cut line exceed the limit.\<close>

lemma tail_loop_suffix:
  assumes "maxBytes < int (utf8_loop (join_text newline (b # rev xs @ out)))" "n = utf8_loop (join_text newline out)"
    and "clean_split l b" "0 \<le> maxBytes"
  shows "tail_loop hb maxLines maxBytes (xs @ (l @ b) # qs) out n = tail_loop hb maxLines maxBytes (xs @ [b]) out n"
  using assms(1,2)
proof (induction xs arbitrary: out n)
  case Nil
  have "utf8_loop (join_text newline (b # out)) = n + (utf8_loop b + (if out \<noteq> [] then 1 else 0))"
    using Nil(2) by (simp add: utf8_join_Cons)
  then have b: "maxBytes < int (n + (utf8_loop b + (if out \<noteq> [] then 1 else 0)))" using Nil(1) by simp
  moreover have "utf8_loop (l @ b) = utf8_loop l + utf8_loop b" by (rule utf8_loop_append[OF assms(3)])
  moreover have "truncateStringToBytesFromEnd (l @ b) maxBytes = truncateStringToBytesFromEnd b maxBytes" if "out = []"
    by (rule truncateString_suffix[OF _ assms(3)]) (use b Nil(2) that in simp)
  ultimately show ?case by (auto simp: Let_def utf8ByteLength_eq)
next
  case (Cons x xs)
  let ?b = "n + (utf8_loop x + (if out \<noteq> [] then 1 else 0))"
  have "?b = utf8_loop (join_text newline (x # out))" using Cons(3) by (simp add: utf8_join_Cons)
  then have "tail_loop hb maxLines maxBytes (xs @ (l @ b) # qs) (x # out) ?b =
      tail_loop hb maxLines maxBytes (xs @ [b]) (x # out) ?b"
    using Cons.IH[of "x # out" ?b] Cons.prems(1) by simp
  then show ?case by (auto simp: Let_def utf8ByteLength_eq)
qed

lemma split_newlines_append:
  "split_newlines s = ls @ [l] \<Longrightarrow> split_newlines t = b # bs \<Longrightarrow> split_newlines (s @ t) = ls @ (l @ b) # bs"
proof (induction s arbitrary: ls l)
  case (Cons c s)
  show ?case
  proof (cases "c = 10")
    case True
    then obtain ks where "ls = [] # ks" "split_newlines s = ks @ [l]"
      using Cons.prems(1) length_split_newlines[of s] by (cases ls) auto
    then show ?thesis using Cons True by simp
  next
    case False
    obtain k ks where k: "split_newlines s = k # ks" using length_split_newlines[of s] by (cases "split_newlines s") auto
    with Cons.prems(1) False have ls: "(c # k) # ks = ls @ [l]" by simp
    show ?thesis
    proof (cases ls)
      case Nil
      then have "split_newlines s = [] @ [k]" "l = c # k" using ls k by auto
      then show ?thesis using Cons.IH[of "[]" k] Cons.prems(2) Nil False by simp
    next
      case ms: (Cons m ms)
      then have "m = c # k" "split_newlines s = (k # butlast ks) @ [l]" "ms = butlast ks" "ks \<noteq> []"
        using ls k by (auto simp: snoc_eq_iff_butlast)
      then show ?thesis using Cons.IH[of "k # butlast ks" l] Cons.prems(2) ms False by simp
    qed
  qed
qed simp

lemma split_newlines_snoc: "split_newlines (s @ [10]) = split_newlines s @ [[]]"
proof -
  obtain ls l where "split_newlines s = ls @ [l]" using length_split_newlines[of s] by (cases "split_newlines s" rule: rev_cases) auto
  then show ?thesis using split_newlines_append[of s ls l "[10]" "[]" "[[]]"] by simp
qed

lemma join_lines_bytes: "utf8_loop s \<le> utf8_loop (join_text newline (splitLinesForCounting s)) + 1"
proof (cases s rule: rev_cases)
  case (snoc t c)
  show ?thesis
  proof (cases "c = 10")
    case True
    then show ?thesis using snoc utf8_loop_newline[of t "[]"]
      by (simp add: splitLinesForCounting_def split_newlines_snoc join_split)
  qed (use snoc in \<open>simp add: splitLinesForCounting_def Let_def join_split\<close>)
qed simp

lemma lines_append:
  assumes "buf \<noteq> []"
  shows "\<exists>ls l b bs. splitLinesForCounting (p @ buf) = ls @ (l @ b) # bs \<and> splitLinesForCounting buf = b # bs \<and>
    (b = [] \<or> hd b = hd buf)"
proof -
  obtain ls l where p: "split_newlines p = ls @ [l]"
    using length_split_newlines[of p] by (cases "split_newlines p" rule: rev_cases) auto
  obtain b bs where b: "split_newlines buf = b # bs" using length_split_newlines[of buf] by (cases "split_newlines buf") auto
  have hd: "b = [] \<or> hd b = hd buf" using b assms by (cases buf) (auto split: if_splits list.splits)
  have whole: "split_newlines (p @ buf) = ls @ (l @ b) # bs" by (rule split_newlines_append[OF p b])
  show ?thesis
  proof (cases "last buf = 10")
    case True
    then have "filter (\<lambda>c. c = 10) buf \<noteq> []" using assms last_in_set[of buf] by (fastforce simp: filter_empty_conv)
    then have "bs \<noteq> []" using length_split_newlines[of buf] b by auto
    then show ?thesis using True assms whole b hd
      by (intro exI[of _ ls] exI[of _ l] exI[of _ b] exI[of _ "butlast bs"])
        (simp add: splitLinesForCounting_def butlast_append)
  next
    case False
    then show ?thesis using assms whole b hd
      by (intro exI[of _ ls] exI[of _ l] exI[of _ b] exI[of _ bs]) (simp add: splitLinesForCounting_def)
  qed
qed

text \<open>What a tail truncation reports of the text it keeps, without the totals of its input.\<close>

lemma truncateTail_suffix:
  assumes "wf_utf16 buf" "0 \<le> mb" "mb + 1 < int (utf8_loop buf)"
  shows "tail_loop hb ml mb (rev (splitLinesForCounting (p @ buf))) [] 0 =
    tail_loop hb ml mb (rev (splitLinesForCounting buf)) [] 0"
proof -
  have "buf \<noteq> []" using assms(2,3) by auto
  then obtain ls l b bs where l: "splitLinesForCounting (p @ buf) = ls @ (l @ b) # bs"
    "splitLinesForCounting buf = b # bs" "b = [] \<or> hd b = hd buf" using lines_append by blast
  have "mb < int (utf8_loop (join_text newline (splitLinesForCounting buf)))" using join_lines_bytes[of buf] assms(3) by simp
  moreover have "clean_split l b" using l(3) wf_hd[OF assms(1) \<open>buf \<noteq> []\<close>] by (auto simp: clean_split_def)
  ultimately have "tail_loop hb ml mb (rev bs @ (l @ b) # rev ls) [] 0 = tail_loop hb ml mb (rev bs @ [b]) [] 0"
    using l(2) assms(2) by (intro tail_loop_suffix) simp_all
  then show ?thesis using l(1,2) by simp
qed

section \<open>The capture keeps what the truncation reads\<close>

definition captures :: "int \<Rightarrow> int \<Rightarrow> capture \<Rightarrow> jstr \<Rightarrow> bool" where
  "captures ml mb c whole \<longleftrightarrow>
     oc_maxBytes c = mb \<and> oc_maxLines c = ml \<and> oc_retain c = RetainTail \<and> wf_utf16 whole \<and>
     oc_totalBytes c = utf8_loop whole \<and> oc_newlines c = countNewlines whole \<and>
     (oc_endsWithNewline c \<longleftrightarrow> whole = [] \<or> last whole = 10) \<and>
     oc_currentLineBytes c = utf8_loop (after_last_newline whole) \<and>
     oc_bufferBytes c = utf8_loop (oc_buffer c) \<and> wf_utf16 (oc_buffer c) \<and>
     (\<exists>p. whole = p @ oc_buffer c \<and> (p = [] \<or> 2 * mb \<le> int (utf8_loop (oc_buffer c)) + 6))"

lemma utf8_loop_wf: "wf_utf16 t \<Longrightarrow> utf8_loop (s @ t) = utf8_loop s + utf8_loop t"
  by (rule utf8_loop_append) (rule clean_wf)

lemma after_last_newline_append:
  "after_last_newline (s @ t) = (if 10 \<in> set t then after_last_newline t else after_last_newline s @ t)"
  by (auto simp: after_last_newline_def takeWhile_append)

lemma captures_append:
  assumes "captures ml mb c whole" "wf_utf16 t" "0 < mb"
  shows "captures ml mb (appendText hb t c) (whole @ t)"
proof (cases "t = []")
  case True
  then show ?thesis using assms(1) by (simp add: appendText_def)
next
  case False
  obtain p where c: "oc_maxBytes c = mb" "oc_maxLines c = ml" "oc_retain c = RetainTail" "wf_utf16 whole"
    "oc_totalBytes c = utf8_loop whole" "oc_newlines c = countNewlines whole"
    "oc_currentLineBytes c = utf8_loop (after_last_newline whole)"
    "oc_bufferBytes c = utf8_loop (oc_buffer c)" "wf_utf16 (oc_buffer c)"
    "whole = p @ oc_buffer c" "p = [] \<or> 2 * mb \<le> int (utf8_loop (oc_buffer c)) + 6"
    using assms(1) by (auto simp: captures_def)
  let ?d = "appendText hb t c" and ?b = "oc_buffer c @ t"
  have bytes: "utf8_loop ?b = utf8_loop (oc_buffer c) + utf8_loop t" by (rule utf8_loop_wf[OF assms(2)])
  have wf: "wf_utf16 ?b" using c(9) assms(2) by (simp add: wf_utf16_append)
  have buffer: "oc_bufferBytes ?d = utf8_loop (oc_buffer ?d) \<and> wf_utf16 (oc_buffer ?d) \<and>
    (\<exists>p. whole @ t = p @ oc_buffer ?d \<and> (p = [] \<or> 2 * mb \<le> int (utf8_loop (oc_buffer ?d)) + 6))"
  proof (cases "mb * 2 * 2 < int (oc_bufferBytes c + utf8_loop t)")
    case True
    then have d: "oc_buffer ?d = trimToLastUtf8Bytes ?b (nat (mb * 2))"
      "oc_bufferBytes ?d = utf8_loop (oc_buffer ?d)"
      using False c(1,3) by (simp_all add: appendText_def Let_def utf8ByteLength_eq)
    obtain q where q: "?b = q @ oc_buffer ?d" "wf_utf16 (oc_buffer ?d)"
      "q = [] \<or> nat (mb * 2) \<le> utf8_loop (oc_buffer ?d) + 6"
      using trimToLast_suffix[OF wf, of "nat (mb * 2)"] d(1) by auto
    have "whole @ t = (p @ q) @ oc_buffer ?d" using c(10) q(1) by simp
    moreover have "p @ q = [] \<or> 2 * mb \<le> int (utf8_loop (oc_buffer ?d)) + 6"
    proof (cases "q = []")
      case True
      then show ?thesis using q(1) c(11) bytes by auto
    qed (use q(3) in simp)
    ultimately show ?thesis using d(2) q(2) by blast
  next
    case f: False
    then have "oc_buffer ?d = ?b" "oc_bufferBytes ?d = utf8_loop ?b"
      using False c(1,8) bytes by (simp_all add: appendText_def Let_def utf8ByteLength_eq)
    then show ?thesis using wf c(10,11) bytes by (intro conjI exI[of _ p]) auto
  qed
  have "oc_currentLineBytes ?d = utf8_loop (after_last_newline (whole @ t))"
    using False c(7) utf8_loop_wf[OF assms(2)]
    by (simp add: appendText_def Let_def utf8ByteLength_eq after_last_newline_append)
  moreover have "oc_endsWithNewline ?d \<longleftrightarrow> whole @ t = [] \<or> last (whole @ t) = 10"
    "oc_newlines ?d = countNewlines (whole @ t)" "oc_totalBytes ?d = utf8_loop (whole @ t)"
    "oc_maxBytes ?d = mb" "oc_maxLines ?d = ml" "oc_retain ?d = RetainTail"
    using False c(1-6) utf8_loop_wf[OF assms(2)]
    by (simp_all add: appendText_def Let_def utf8ByteLength_eq countNewlines_def)
  ultimately show ?thesis using buffer c(4) assms(2) unfolding captures_def by (simp add: wf_utf16_append)
qed

lemma captures_fold:
  assumes "captures ml mb c whole" "list_all wf_utf16 ts" "0 < mb"
  shows "captures ml mb (fold (appendText hb) ts c) (whole @ concat ts)"
  using assms(1,2)
proof (induction ts arbitrary: c whole)
  case (Cons t ts)
  then have "captures ml mb (appendText hb t c) (whole @ t)" using captures_append assms(3) by simp
  then show ?case using Cons.IH Cons.prems(2) by fastforce
qed simp

lemma captures_lines: "captures ml mb c whole \<Longrightarrow> captured_lines c = length (splitLinesForCounting whole)"
proof -
  assume c: "captures ml mb c whole"
  show ?thesis
  proof (cases whole rule: rev_cases)
    case Nil
    then show ?thesis using c by (simp add: captures_def captured_lines_def splitLinesForCounting_def countNewlines_def)
  next
    case (snoc s u)
    then have "utf8_loop whole \<noteq> 0" using utf8_loop_ge_half[of whole] by simp
    then show ?thesis using c snoc length_split_newlines[of whole]
      by (auto simp: captures_def captured_lines_def splitLinesForCounting_def Let_def countNewlines_def)
  qed
qed

lemma truncateTail_cut:
  assumes "ml < int (length (splitLinesForCounting s)) \<or> mb < int (utf8_loop s)"
    and "tail_loop hb ml mb (rev (splitLinesForCounting s)) [] 0 = (out, n, hit, partial)"
  shows "truncateTail hb s (Some ml) (Some mb) =
    whole_text (join_text newline out) (length (splitLinesForCounting s)) (utf8_loop s) ml mb
      \<lparr>tc_truncated := True, tc_truncatedBy := Some (reported_limit out n ml mb hit),
       tc_outputLines := length out, tc_outputBytes := utf8_loop (join_text newline out),
       tc_lastLinePartial := partial\<rparr>"
  using assms by (auto simp: truncateTail_def or_default_def Let_def utf8ByteLength_eq)

lemma truncateTail_whole:
  assumes "\<not> (ml < int (length (splitLinesForCounting s)) \<or> mb < int (utf8_loop s))"
  shows "truncateTail hb s (Some ml) (Some mb) = whole_text s (length (splitLinesForCounting s)) (utf8_loop s) ml mb"
  using assms by (auto simp: truncateTail_def or_default_def Let_def utf8ByteLength_eq)

text \<open>The limit a capture reports: the line limit whenever the output has more lines than that.\<close>

definition output_limit :: "int \<Rightarrow> jstr \<Rightarrow> truncation_info \<Rightarrow> truncation_info" where
  "output_limit ml whole r =
     r\<lparr>tc_truncatedBy := (if tc_truncated r
         then Some (if ml < int (length (splitLinesForCounting whole)) then LineLimit else ByteLimit) else None)\<rparr>"

lemma truncateTail_totals:
  "tc_truncated (truncateTail hb s (Some ml) (Some mb)) \<longleftrightarrow> mb < int (utf8_loop s) \<or> ml < int (length (splitLinesForCounting s))"
  "tc_totalBytes (truncateTail hb s (Some ml) (Some mb)) = utf8_loop s"
  "tc_totalLines (truncateTail hb s (Some ml) (Some mb)) = length (splitLinesForCounting s)"
  by (auto simp: truncateTail_def or_default_def Let_def utf8ByteLength_eq whole_text_def split: prod.splits)

lemma snapshot_of_captured:
  assumes c: "captures ml mb c whole" and r: "r = truncateTail hb whole (Some ml) (Some mb)"
    and b: "b = truncateTail hb (oc_buffer c) (Some ml) (Some mb)"
    and same: "tc_content b = tc_content r" "tc_outputLines b = tc_outputLines r" "tc_outputBytes b = tc_outputBytes r"
      "tc_lastLinePartial b = tc_lastLinePartial r" "tc_firstLineExceedsLimit b = tc_firstLineExceedsLimit r"
      "tc_maxLines b = tc_maxLines r" "tc_maxBytes b = tc_maxBytes r"
  shows "snapshot hb c = Some \<lparr>om_truncation = output_limit ml whole (truncation_info.truncate r),
    om_spillPath = oc_spillPath c,
    om_lastLineBytes = (if tc_lastLinePartial r then Some (utf8_loop (after_last_newline whole)) else None),
    ov_text = sanitizeShellOutput (tc_content r)\<rparr>"
proof -
  have t: "capture_truncated c = tc_truncated r" "oc_totalBytes c = tc_totalBytes r" "captured_lines c = tc_totalLines r"
    "tc_totalLines r = length (splitLinesForCounting whole)"
    using c captures_lines[OF c] unfolding r truncateTail_totals by (simp_all add: captures_def capture_truncated_def)
  have "snapshot hb c = Some (snapshot_of c b)"
    using c unfolding b by (simp add: snapshot_def retained_text_def captures_def)
  moreover have "(truncation_info.truncate b) \<lparr>tc_truncated := tc_truncated r, tc_truncatedBy := x,
      tc_totalBytes := tc_totalBytes r, tc_totalLines := tc_totalLines r\<rparr> = (truncation_info.truncate r)\<lparr>tc_truncatedBy := x\<rparr>" for x
    using same by (simp add: truncation_info.truncate_def)
  ultimately show ?thesis
    using c t same by (simp add: snapshot_of_def output_limit_def captures_def) (simp add: truncation_info.truncate_def)
qed

lemma snapshot_captured:
  assumes c: "captures ml mb c whole" and limit: "8 \<le> mb"
  shows "let r = truncateTail hb whole (Some ml) (Some mb) in
    snapshot hb c = Some \<lparr>om_truncation = output_limit ml whole (truncation_info.truncate r),
      om_spillPath = oc_spillPath c,
      om_lastLineBytes = (if tc_lastLinePartial r then Some (utf8_loop (after_last_newline whole)) else None),
      ov_text = sanitizeShellOutput (tc_content r)\<rparr>"
proof -
  obtain p where p: "whole = p @ oc_buffer c" "p = [] \<or> 2 * mb \<le> int (utf8_loop (oc_buffer c)) + 6"
    "wf_utf16 (oc_buffer c)" using c by (auto simp: captures_def)
  show ?thesis
  proof (cases "p = []")
    case True
    then show ?thesis unfolding Let_def using p(1) by (intro snapshot_of_captured[OF c refl refl]) simp_all
  next
    case False
    then have big: "mb + 1 < int (utf8_loop (oc_buffer c))" using p(2) limit by auto
    then have big': "mb < int (utf8_loop whole)" using p(1) utf8_loop_wf[OF p(3)] by simp
    obtain out n hit partial where loop: "tail_loop hb ml mb (rev (splitLinesForCounting (oc_buffer c))) [] 0 = (out, n, hit, partial)"
      by (metis prod_cases4)
    moreover have "tail_loop hb ml mb (rev (splitLinesForCounting whole)) [] 0 =
      tail_loop hb ml mb (rev (splitLinesForCounting (oc_buffer c))) [] 0"
      using truncateTail_suffix[OF p(3) _ big, of hb ml p] limit p(1) by simp
    ultimately have "tail_loop hb ml mb (rev (splitLinesForCounting whole)) [] 0 = (out, n, hit, partial)" by simp
    from truncateTail_cut[OF disjI2[OF big'] this] truncateTail_cut[OF _ loop] big
    show ?thesis unfolding Let_def by (intro snapshot_of_captured[OF c refl refl]) (simp_all add: whole_text_def)
  qed
qed

text \<open>
  C29. The bounded capture refines truncation of the whole output: after any chunks of text, the view of a capture
  that retains the tail shows exactly what truncating all of the output would show, with its counts, though the
  buffer has been trimmed (byte limits of at least eight).
\<close>
theorem capture_refines_truncation:
  assumes "new_capture (Some mb) (Some ml) retain = Inr c" "oc_retain c = RetainTail" "8 \<le> mb"
    and "list_all wf_utf16 chunks"
  shows "let r = truncateTail hb (concat chunks) (Some ml) (Some mb) in
    snapshot hb (fold (appendText hb) chunks c) =
      Some \<lparr>om_truncation = output_limit ml (concat chunks) (truncation_info.truncate r),
        om_spillPath = oc_spillPath (fold (appendText hb) chunks c),
        om_lastLineBytes =
          (if tc_lastLinePartial r then Some (utf8ByteLength hb (after_last_newline (concat chunks))) else None),
        ov_text = sanitizeShellOutput (tc_content r)\<rparr>"
proof -
  have "captures ml mb c []"
    using assms(1-3)
    by (auto simp: new_capture_def or_default_def Let_def captures_def countNewlines_def after_last_newline_def
        split: if_splits)
  from captures_fold[OF this assms(4), of hb] have "captures ml mb (fold (appendText hb) chunks c) (concat chunks)"
    using assms(3) by simp
  from snapshot_captured[OF this assms(3)] show ?thesis by (simp add: utf8ByteLength_eq Let_def)
qed

definition some_chunks :: "jstr list" where
  "some_chunks = replicate 5 (js ''abcdefg'' @ newline)"

theorem capture_refines_truncation_witness:
  "\<exists>c v. new_capture (Some 8) (Some 3) None = Inr c \<and>
    oc_buffer (fold (appendText True) some_chunks c) \<noteq> concat some_chunks \<and>
    snapshot True (fold (appendText True) some_chunks c) = Some v \<and>
    ov_text v = tc_content (truncateTail True (concat some_chunks) (Some 3) (Some 8))"
proof -
  define c :: capture where "c = \<lparr>oc_maxBytes = 8, oc_maxLines = 3, oc_retain = RetainTail, oc_buffer = [], oc_bufferBytes = 0,
    oc_totalBytes = 0, oc_newlines = 0, oc_endsWithNewline = True, oc_currentLineBytes = 0, oc_spillPath = None\<rparr>"
  have c: "new_capture (Some 8) (Some 3) None = Inr c" by (simp add: new_capture_def or_default_def c_def)
  have "oc_buffer (fold (appendText True) some_chunks c) \<noteq> concat some_chunks" unfolding c_def by code_simp
  moreover have "list_all wf_utf16 some_chunks" by code_simp
  moreover have "sanitizeShellOutput (tc_content (truncateTail True (concat some_chunks) (Some 3) (Some 8))) =
    tc_content (truncateTail True (concat some_chunks) (Some 3) (Some 8))" by code_simp
  ultimately show ?thesis
    using c capture_refines_truncation[of 8 3 None c some_chunks True] by (simp add: Let_def c_def)
qed

text \<open>
  The size reported for a partial last line is that of the line being written: for one long line that ends with
  a newline it is 0.
\<close>

lemma partial_line_reported_empty:
  "case new_capture (Some 8) (Some 3) None of Inl _ \<Rightarrow> False
   | Inr c \<Rightarrow> map_option om_lastLineBytes (snapshot True (appendText True (js ''0123456789'' @ newline) c)) = Some (Some 0)"
  by code_simp

end
