(* ===== verification/EditDiff.thy ===== *)
theory EditDiff
  imports Truncate "HOL-Library.Multiset"
begin

text \<open>
  The edit tool's text replacement (\<open>packages/agent/src/harness/tools/edit-diff.ts\<close>): line endings, the search
  for an old text, exactly or normalised, and the replacement of several matches at once. The compatibility
  normalisation of Unicode (\<open>normalize("NFKC")\<close>) is the argument \<open>nfkc\<close>.
\<close>

section \<open>Line endings\<close>

datatype line_ending = CRLF | LF

definition index_of :: "jstr \<Rightarrow> jstr \<Rightarrow> nat option" where
  "index_of text probe =
     List.find (\<lambda>i. take (length probe) (drop i text) = probe) [0..<Suc (length text) - length probe]"

definition detectLineEnding :: "jstr \<Rightarrow> line_ending" where
  "detectLineEnding content =
     (case index_of content [10] of
        None \<Rightarrow> LF
      | Some lfIdx \<Rightarrow>
          (case index_of content [13, 10] of
             None \<Rightarrow> LF
           | Some crlfIdx \<Rightarrow> if crlfIdx < lfIdx then CRLF else LF))"

fun replace_crlf :: "jstr \<Rightarrow> jstr" where
  "replace_crlf [] = []"
| "replace_crlf [c] = [c]"
| "replace_crlf (c # d # cs) = (if c = 13 \<and> d = 10 then 10 # replace_crlf cs else c # replace_crlf (d # cs))"

definition normalizeToLF :: "jstr \<Rightarrow> jstr" where
  "normalizeToLF text = map (\<lambda>c. if c = 13 then 10 else c) (replace_crlf text)"

definition restoreLineEndings :: "jstr \<Rightarrow> line_ending \<Rightarrow> jstr" where
  "restoreLineEndings text ending =
     (if ending = CRLF then concat (map (\<lambda>c. if c = 10 then [13, 10] else [c]) text) else text)"

definition stripBom :: "jstr \<Rightarrow> jstr \<times> jstr" where
  "stripBom content =
     (case content of [] \<Rightarrow> ([], []) | c # cs \<Rightarrow> if c = 0xFEFF then ([0xFEFF], cs) else ([], content))"

section \<open>Normalised text\<close>

definition trimEnd :: "jstr \<Rightarrow> jstr" where
  "trimEnd text = rev (dropWhile js_space (rev text))"

definition plain_unit :: "code_unit \<Rightarrow> code_unit" where
  "plain_unit c =
     (if in_range c 0x2018 0x201B then 39
      else if in_range c 0x201C 0x201F then 34
      else if in_range c 0x2010 0x2015 \<or> in_range c 0x2212 0x2212 then 45
      else if in_range c 0xA0 0xA0 \<or> in_range c 0x2002 0x200A \<or> in_range c 0x202F 0x202F \<or> in_range c 0x205F 0x205F \<or>
        in_range c 0x3000 0x3000 then 32
      else c)"

definition normalizeForFuzzyMatch :: "(jstr \<Rightarrow> jstr) \<Rightarrow> jstr \<Rightarrow> jstr" where
  "normalizeForFuzzyMatch nfkc text =
     map plain_unit (join_text newline (map trimEnd (split_newlines (nfkc text))))"

section \<open>Replacements\<close>

datatype edit_error =
    OutsideBase
  | LineCountDiffers
  | EmptyOldText nat nat
  | TextNotFound nat nat
  | DuplicateText nat nat int
  | OverlappingEdits nat nat
  | NoChange nat

fun splitLinesWithEndings :: "jstr \<Rightarrow> jstr list" where
  "splitLinesWithEndings [] = []"
| "splitLinesWithEndings (c # cs) =
     (if c = 10 then [10] # splitLinesWithEndings cs
      else case splitLinesWithEndings cs of [] \<Rightarrow> [[c]] | l # ls \<Rightarrow> (c # l) # ls)"

record line_span =
  sp_start :: nat
  sp_end :: nat

record text_replacement =
  re_matchIndex :: nat
  re_matchLength :: nat
  re_newText :: jstr

record matched_edit = text_replacement +
  re_editIndex :: nat

fun spans_from :: "nat \<Rightarrow> jstr list \<Rightarrow> line_span list" where
  "spans_from offset [] = []"
| "spans_from offset (l # ls) =
     \<lparr>sp_start = offset, sp_end = offset + length l\<rparr> # spans_from (offset + length l) ls"

definition getLineSpans :: "jstr \<Rightarrow> line_span list" where
  "getLineSpans content = spans_from 0 (splitLinesWithEndings content)"

abbreviation re_end :: "'a text_replacement_scheme \<Rightarrow> nat" where
  "re_end r \<equiv> re_matchIndex r + re_matchLength r"

text \<open>The range of lines a replacement touches: the first line, and the one after the last.\<close>

definition getReplacementLineRange :: "line_span list \<Rightarrow> 'a text_replacement_scheme \<Rightarrow> edit_error + nat \<times> nat" where
  "getReplacementLineRange lines r =
     (case List.find (\<lambda>i. sp_start (lines ! i) \<le> re_matchIndex r \<and> re_matchIndex r < sp_end (lines ! i)) [0..<length lines] of
        None \<Rightarrow> Inl OutsideBase
      | Some startLine \<Rightarrow>
          (case List.find (\<lambda>i. \<not> sp_end (lines ! i) < re_end r) [startLine..<length lines] of
             None \<Rightarrow> Inl OutsideBase
           | Some endLine \<Rightarrow> Inr (startLine, Suc endLine)))"

text \<open>The loop runs from the last replacement to the first; \<open>substring\<close> takes a negative index as 0.\<close>

definition replace_at :: "nat \<Rightarrow> 'a text_replacement_scheme \<Rightarrow> jstr \<Rightarrow> jstr" where
  "replace_at offset r result =
     (let i = int (re_matchIndex r) - int offset
      in take (nat i) result @ re_newText r @ drop (nat (i + int (re_matchLength r))) result)"

definition applyReplacements :: "jstr \<Rightarrow> 'a text_replacement_scheme list \<Rightarrow> nat \<Rightarrow> jstr" where
  "applyReplacements content rs offset = foldr (replace_at offset) rs content"

record 'a replacement_group =
  gr_startLine :: nat
  gr_endLine :: nat
  gr_replacements :: "'a text_replacement_scheme list"

definition add_to_groups ::
    "line_span list \<Rightarrow> 'a replacement_group list \<Rightarrow> 'a text_replacement_scheme \<Rightarrow> edit_error + 'a replacement_group list" where
  "add_to_groups lines groups r =
     (case getReplacementLineRange lines r of
        Inl e \<Rightarrow> Inl e
      | Inr (s, e) \<Rightarrow>
          if groups \<noteq> [] \<and> s < gr_endLine (last groups)
          then Inr (butlast groups @ [(last groups)
            \<lparr>gr_endLine := max (gr_endLine (last groups)) e, gr_replacements := gr_replacements (last groups) @ [r]\<rparr>])
          else Inr (groups @ [\<lparr>gr_startLine = s, gr_endLine = e, gr_replacements = [r]\<rparr>]))"

definition group_text :: "jstr \<Rightarrow> line_span list \<Rightarrow> 'a replacement_group \<Rightarrow> jstr" where
  "group_text base lines g =
     (let s = sp_start (lines ! gr_startLine g)
      in applyReplacements (slice base s (sp_end (lines ! (gr_endLine g - 1)))) (gr_replacements g) s)"

definition emit_group ::
    "jstr list \<Rightarrow> jstr \<Rightarrow> line_span list \<Rightarrow> nat \<times> jstr \<Rightarrow> 'a replacement_group \<Rightarrow> nat \<times> jstr" where
  "emit_group originalLines base lines st g =
     (case st of (i, result) \<Rightarrow>
        (gr_endLine g, result @ concat (slice originalLines i (gr_startLine g)) @ group_text base lines g))"

definition applyReplacementsPreservingUnchangedLines ::
    "jstr \<Rightarrow> jstr \<Rightarrow> 'a text_replacement_scheme list \<Rightarrow> edit_error + jstr" where
  "applyReplacementsPreservingUnchangedLines original base rs =
     (let originalLines = splitLinesWithEndings original; baseLines = getLineSpans base
      in bindE (guardE (length originalLines = length baseLines) LineCountDiffers) (\<lambda>_.
         bindE (foldE (add_to_groups baseLines) [] (sort_key re_matchIndex rs)) (\<lambda>groups.
           case foldl (emit_group originalLines base baseLines) (0, []) groups of
             (i, result) \<Rightarrow> Inr (result @ concat (drop i originalLines)))))"

section \<open>Edits\<close>

record fuzzy_match =
  fm_found :: bool
  fm_index :: int
  fm_matchLength :: nat
  fm_usedFuzzyMatch :: bool
  fm_contentForReplacement :: jstr

record edit =
  ed_oldText :: jstr
  ed_newText :: jstr

definition fuzzyFindText :: "(jstr \<Rightarrow> jstr) \<Rightarrow> jstr \<Rightarrow> jstr \<Rightarrow> fuzzy_match" where
  "fuzzyFindText nfkc content oldText =
     (case index_of content oldText of
        Some i \<Rightarrow> \<lparr>fm_found = True, fm_index = int i, fm_matchLength = length oldText, fm_usedFuzzyMatch = False,
          fm_contentForReplacement = content\<rparr>
      | None \<Rightarrow>
          (let fuzzyContent = normalizeForFuzzyMatch nfkc content; fuzzyOldText = normalizeForFuzzyMatch nfkc oldText
           in case index_of fuzzyContent fuzzyOldText of
             None \<Rightarrow> \<lparr>fm_found = False, fm_index = - 1, fm_matchLength = 0, fm_usedFuzzyMatch = False,
               fm_contentForReplacement = content\<rparr>
           | Some i \<Rightarrow> \<lparr>fm_found = True, fm_index = int i, fm_matchLength = length fuzzyOldText,
               fm_usedFuzzyMatch = True, fm_contentForReplacement = fuzzyContent\<rparr>))"

lemma find_upt_less: "List.find P [0..<n] = Some i \<Longrightarrow> i < n"
  by (auto simp: find_Some_iff)

text \<open>\<open>text.split(separator).length\<close> for a separator that is not empty.\<close>

function split_count :: "jstr \<Rightarrow> jstr \<Rightarrow> nat" where
  "split_count sep text =
     (if sep = [] then 1
      else case index_of text sep of None \<Rightarrow> 1 | Some i \<Rightarrow> Suc (split_count sep (drop (i + length sep) text)))"
  by auto

termination
proof (relation "measure (length \<circ> snd)", goal_cases)
  case (2 sep s i)
  then have "i < Suc (length s) - length sep" unfolding index_of_def by (intro find_upt_less) auto
  then show ?case using 2(1) by (cases sep) auto
qed simp

declare split_count.simps [simp del]

text \<open>An empty separator splits a text into its code units.\<close>

definition countOccurrences :: "(jstr \<Rightarrow> jstr) \<Rightarrow> jstr \<Rightarrow> jstr \<Rightarrow> int" where
  "countOccurrences nfkc content oldText =
     (let fuzzyContent = normalizeForFuzzyMatch nfkc content; fuzzyOldText = normalizeForFuzzyMatch nfkc oldText
      in if fuzzyOldText = [] then int (length fuzzyContent) - 1 else int (split_count fuzzyOldText fuzzyContent) - 1)"

text \<open>One round of the matching loop: edit \<open>i\<close> of \<open>n\<close>.\<close>

definition match_edit ::
    "(jstr \<Rightarrow> jstr) \<Rightarrow> jstr \<Rightarrow> nat \<Rightarrow> matched_edit list \<Rightarrow> nat \<times> edit \<Rightarrow> edit_error + matched_edit list" where
  "match_edit nfkc base n matched ie =
     (case ie of (i, e) \<Rightarrow>
        (let r = fuzzyFindText nfkc base (ed_oldText e); occurrences = countOccurrences nfkc base (ed_oldText e)
         in bindE (guardE (fm_found r) (TextNotFound i n)) (\<lambda>_.
            bindE (guardE (\<not> 1 < occurrences) (DuplicateText i n occurrences)) (\<lambda>_.
              Inr (matched @ [\<lparr>re_matchIndex = nat (fm_index r), re_matchLength = fm_matchLength r,
                re_newText = ed_newText e, re_editIndex = i\<rparr>])))))"

definition normalize_edit :: "edit \<Rightarrow> edit" where
  "normalize_edit e = \<lparr>ed_oldText = normalizeToLF (ed_oldText e), ed_newText = normalizeToLF (ed_newText e)\<rparr>"

text \<open>The first pair of neighbours that overlap.\<close>

definition first_overlap :: "matched_edit list \<Rightarrow> nat option" where
  "first_overlap ms = List.find (\<lambda>i. re_matchIndex (ms ! i) < re_end (ms ! (i - 1))) [1..<length ms]"

definition used_fuzzy :: "(jstr \<Rightarrow> jstr) \<Rightarrow> jstr \<Rightarrow> edit list \<Rightarrow> bool" where
  "used_fuzzy nfkc content es = (\<exists>e \<in> set es. fm_usedFuzzyMatch (fuzzyFindText nfkc content (ed_oldText e)))"

definition replacement_base :: "(jstr \<Rightarrow> jstr) \<Rightarrow> jstr \<Rightarrow> edit list \<Rightarrow> jstr" where
  "replacement_base nfkc content es =
     (if used_fuzzy nfkc content es then normalizeForFuzzyMatch nfkc content else content)"

definition applyEditsToNormalizedContent ::
    "(jstr \<Rightarrow> jstr) \<Rightarrow> jstr \<Rightarrow> edit list \<Rightarrow> edit_error + jstr \<times> jstr" where
  "applyEditsToNormalizedContent nfkc content edits =
     (let es = map normalize_edit edits; n = length es in
      bindE (case List.find (\<lambda>i. ed_oldText (es ! i) = []) [0..<n] of
          None \<Rightarrow> Inr () | Some i \<Rightarrow> Inl (EmptyOldText i n)) (\<lambda>_.
      let fuzzy = used_fuzzy nfkc content es; base = replacement_base nfkc content es
      in bindE (foldE (match_edit nfkc base n) [] (enumerate 0 es)) (\<lambda>matched.
         let ms = sort_key re_matchIndex matched in
         bindE (case first_overlap ms of
             None \<Rightarrow> Inr ()
           | Some i \<Rightarrow> Inl (OverlappingEdits (re_editIndex (ms ! (i - 1))) (re_editIndex (ms ! i)))) (\<lambda>_.
         bindE (if fuzzy then applyReplacementsPreservingUnchangedLines content base ms
                else Inr (applyReplacements base ms 0)) (\<lambda>newContent.
         bindE (guardE (content \<noteq> newContent) (NoChange n)) (\<lambda>_. Inr (content, newContent)))))))"

text \<open>The text of an error.\<close>

fun edit_error_text :: "jstr \<Rightarrow> edit_error \<Rightarrow> jstr" where
  "edit_error_text path OutsideBase = js ''Replacement range is outside the base content.''"
| "edit_error_text path LineCountDiffers =
     js ''Cannot preserve unchanged lines because the base content has a different line count.''"
| "edit_error_text path (TextNotFound i n) =
     (if n = 1 then js ''Could not find the exact text in '' @ path @
        js ''. The old text must match exactly including all whitespace and newlines.''
      else js ''Could not find edits['' @ nat_text i @ js ''] in '' @ path @
        js ''. The oldText must match exactly including all whitespace and newlines.'')"
| "edit_error_text path (DuplicateText i n k) =
     (if n = 1 then js ''Found '' @ int_text k @ js '' occurrences of the text in '' @ path @
        js ''. The text must be unique. Please provide more context to make it unique.''
      else js ''Found '' @ int_text k @ js '' occurrences of edits['' @ nat_text i @ js ''] in '' @ path @
        js ''. Each oldText must be unique. Please provide more context to make it unique.'')"
| "edit_error_text path (EmptyOldText i n) =
     (if n = 1 then js ''oldText must not be empty in '' @ path @ js ''.''
      else js ''edits['' @ nat_text i @ js ''].oldText must not be empty in '' @ path @ js ''.'')"
| "edit_error_text path (OverlappingEdits i j) =
     js ''edits['' @ nat_text i @ js ''] and edits['' @ nat_text j @ js ''] overlap in '' @ path @
       js ''. Merge them into one edit or target disjoint regions.''"
| "edit_error_text path (NoChange n) =
     (if n = 1 then js ''No changes made to '' @ path @
        js ''. The replacement produced identical content. This might indicate an issue with special characters or the text not existing as expected.''
      else js ''No changes made to '' @ path @ js ''. The replacements produced identical content.'')"

section \<open>Replacements that do not overlap\<close>

lemma slice_split: "a \<le> b \<Longrightarrow> b \<le> d \<Longrightarrow> slice c a b @ slice c b d = slice c a d"
  using take_add[of "b - a" "d - b" "drop a c"] by (simp add: slice_def add.commute)

lemma take_slice: "n \<le> b - a \<Longrightarrow> take n (slice c a b) = slice c a (a + n)"
  by (simp add: slice_def min_def)

definition disjoint_sorted :: "'a text_replacement_scheme list \<Rightarrow> bool" where
  "disjoint_sorted rs \<longleftrightarrow> sorted_wrt (\<lambda>r s. re_end r \<le> re_matchIndex s) rs"

text \<open>The text with all replacements made at once, from position \<open>p\<close> to \<open>e\<close>.\<close>

fun spliced :: "jstr \<Rightarrow> nat \<Rightarrow> 'a text_replacement_scheme list \<Rightarrow> nat \<Rightarrow> jstr" where
  "spliced c p [] e = slice c p e"
| "spliced c p (r # rs) e = slice c p (re_matchIndex r) @ re_newText r @ spliced c (re_end r) rs e"

definition between :: "nat \<Rightarrow> 'a text_replacement_scheme list \<Rightarrow> nat \<Rightarrow> bool" where
  "between p rs e \<longleftrightarrow> p \<le> e \<and> disjoint_sorted rs \<and> (\<forall>r \<in> set rs. p \<le> re_matchIndex r \<and> re_end r \<le> e)"

lemma between_Nil [simp]: "between p [] e \<longleftrightarrow> p \<le> e"
  by (simp add: between_def disjoint_sorted_def)

lemma between_Cons [simp]: "between p (r # rs) e \<longleftrightarrow> p \<le> re_matchIndex r \<and> between (re_end r) rs e"
proof -
  have "(\<forall>s \<in> set rs. re_end r \<le> re_matchIndex s) \<Longrightarrow> p \<le> re_matchIndex r \<Longrightarrow> \<forall>s \<in> set rs. p \<le> re_matchIndex s"
    by (meson add_leD1 order_trans)
  then show ?thesis by (auto simp: between_def disjoint_sorted_def)
qed

lemma applyReplacements_spliced:
  "between p rs e \<Longrightarrow> q \<le> p \<Longrightarrow> e \<le> length c \<Longrightarrow>
    applyReplacements (slice c q e) rs q = slice c q p @ spliced c p rs e"
proof (induction rs arbitrary: p)
  case Nil
  then show ?case by (simp add: applyReplacements_def slice_split)
next
  case (Cons r rs)
  have e: "re_end r \<le> e" using Cons.prems(1) by (auto simp: between_def)
  have len: "length (slice c q (re_end r)) = re_end r - q" using e Cons.prems(3) by (simp add: length_slice)
  have "applyReplacements (slice c q e) rs q = slice c q (re_end r) @ spliced c (re_end r) rs e"
    using Cons.IH[of "re_end r"] Cons.prems by auto
  then have "applyReplacements (slice c q e) (r # rs) q =
      replace_at q r (slice c q (re_end r) @ spliced c (re_end r) rs e)"
    by (simp add: applyReplacements_def)
  also have "\<dots> = slice c q (re_matchIndex r) @ re_newText r @ spliced c (re_end r) rs e"
  proof -
    have i: "nat (int (re_matchIndex r) - int q) = re_matchIndex r - q"
      "nat (int (re_matchIndex r) - int q + int (re_matchLength r)) = re_end r - q" "q \<le> re_matchIndex r"
      using Cons.prems(1,2) by auto
    then have "take (re_matchIndex r - q) (slice c q (re_end r)) = slice c q (re_matchIndex r)" by (simp add: take_slice)
    then show ?thesis unfolding replace_at_def Let_def i using len by simp
  qed
  also have "\<dots> = slice c q p @ spliced c p (r # rs) e" using Cons.prems(1,2) slice_split[of q p "re_matchIndex r" c] by simp
  finally show ?case .
qed

lemma applyReplacements_whole:
  assumes "between 0 rs (length c)"
  shows "applyReplacements c rs 0 = spliced c 0 rs (length c)"
  using applyReplacements_spliced[OF assms, of 0 c] by (simp add: slice_def)

lemma spliced_append: "between p rs m \<Longrightarrow> spliced c p (rs @ rs') e = spliced c p rs m @ spliced c m rs' e"
  if "m \<le> e" "between m rs' e"
proof (induction rs arbitrary: p)
  case Nil
  then show ?case using that by (cases rs') (simp_all add: slice_split flip: append_assoc)
qed simp

section \<open>The lines of the base\<close>

lemma concat_lines: "concat (splitLinesWithEndings c) = c"
  by (induction c) (auto split: list.splits)

lemma lines_nonempty: "[] \<notin> set (splitLinesWithEndings c)"
  by (induction c) (auto split: list.splits)

definition line_pos :: "jstr \<Rightarrow> nat \<Rightarrow> nat" where
  "line_pos base i = length (concat (take i (splitLinesWithEndings base)))"

lemma spans_from_nth:
  "i < length ls \<Longrightarrow> spans_from q ls ! i =
    \<lparr>sp_start = q + length (concat (take i ls)), sp_end = q + length (concat (take (Suc i) ls))\<rparr>"
  by (induction ls arbitrary: q i) (auto simp: nth_Cons split: nat.splits)

lemma length_spans_from [simp]: "length (spans_from q ls) = length ls"
  by (induction ls arbitrary: q) auto

lemma length_spans [simp]: "length (getLineSpans base) = length (splitLinesWithEndings base)"
  by (simp add: getLineSpans_def)

lemma spans_nth [simp]:
  assumes "i < length (splitLinesWithEndings base)"
  shows "sp_start (getLineSpans base ! i) = line_pos base i" "sp_end (getLineSpans base ! i) = line_pos base (Suc i)"
  using assms by (simp_all add: getLineSpans_def spans_from_nth line_pos_def)

lemma line_pos_mono: "i \<le> j \<Longrightarrow> line_pos base i \<le> line_pos base j"
  using take_add[of i "j - i" "splitLinesWithEndings base"] by (simp add: line_pos_def)

lemma line_pos_less: "i < j \<Longrightarrow> j \<le> length (splitLinesWithEndings base) \<Longrightarrow> line_pos base i < line_pos base j"
proof -
  assume "i < j" "j \<le> length (splitLinesWithEndings base)"
  then have i: "i < length (splitLinesWithEndings base)" by simp
  then have "splitLinesWithEndings base ! i \<noteq> []" using lines_nonempty nth_mem by metis
  then have "line_pos base i < line_pos base (Suc i)" using i by (simp add: line_pos_def take_Suc_conv_app_nth)
  also have "\<dots> \<le> line_pos base j" using \<open>i < j\<close> by (intro line_pos_mono) simp
  finally show ?thesis .
qed

lemma line_pos_ends: "line_pos base 0 = 0" "line_pos base (length (splitLinesWithEndings base)) = length base"
  by (simp_all add: line_pos_def concat_lines)

lemma line_pos_cancel: "line_pos base i < line_pos base j \<Longrightarrow> i < j"
  using line_pos_mono[of j i base] by linarith

lemma slice_lines:
  assumes "i \<le> j" "j \<le> length (splitLinesWithEndings base)"
  shows "concat (slice (splitLinesWithEndings base) i j) = slice base (line_pos base i) (line_pos base j)"
proof -
  let ?ls = "splitLinesWithEndings base"
  have "base = concat (take i ?ls) @ concat (drop i ?ls)"
    unfolding concat_append[symmetric] by (simp add: concat_lines)
  then have d: "drop (line_pos base i) base = concat (drop i ?ls)" unfolding line_pos_def by (metis append_eq_conv_conj)
  have "drop i ?ls = take (j - i) (drop i ?ls) @ drop (j - i) (drop i ?ls)" by (rule append_take_drop_id[symmetric])
  then have "concat (drop i ?ls) = concat (slice ?ls i j) @ concat (drop (j - i) (drop i ?ls))"
    unfolding slice_def concat_append[symmetric] by simp
  moreover have "length (concat (slice ?ls i j)) = line_pos base j - line_pos base i"
    using take_add[of i "j - i" ?ls] assms(1) by (simp add: line_pos_def slice_def)
  ultimately show ?thesis unfolding slice_def[of base] d by simp
qed

lemma line_range:
  assumes "getReplacementLineRange (getLineSpans base) r = Inr (s, e)"
  shows "s < e" "e \<le> length (splitLinesWithEndings base)" "line_pos base s \<le> re_matchIndex r"
    "re_matchIndex r < line_pos base (Suc s)" "re_end r \<le> line_pos base e"
  using assms by (auto simp: getReplacementLineRange_def find_Some_iff nth_append split: option.splits)

section \<open>Preserving the other lines\<close>

definition touches :: "jstr \<Rightarrow> 'a text_replacement_scheme \<Rightarrow> nat \<Rightarrow> bool" where
  "touches base r k \<longleftrightarrow>
     (case getReplacementLineRange (getLineSpans base) r of Inl e \<Rightarrow> False | Inr (s, e) \<Rightarrow> s \<le> k \<and> k < e)"

text \<open>A group is a run of lines all of which its replacements touch, and covers every line they touch.\<close>

definition group_ok :: "jstr \<Rightarrow> 'a replacement_group \<Rightarrow> bool" where
  "group_ok base g \<longleftrightarrow>
     gr_startLine g < gr_endLine g \<and> gr_endLine g \<le> length (splitLinesWithEndings base) \<and> gr_replacements g \<noteq> [] \<and>
     between (line_pos base (gr_startLine g)) (gr_replacements g) (line_pos base (gr_endLine g)) \<and>
     (\<forall>k. gr_startLine g \<le> k \<and> k < gr_endLine g \<longleftrightarrow> (\<exists>r \<in> set (gr_replacements g). touches base r k))"

definition groups_ok :: "jstr \<Rightarrow> 'a replacement_group list \<Rightarrow> bool" where
  "groups_ok base gs \<longleftrightarrow>
     (\<forall>g \<in> set gs. group_ok base g) \<and> sorted_wrt (\<lambda>g h. gr_endLine g \<le> gr_startLine h) gs"

lemma between_snoc: "between p (rs @ [r]) e \<longleftrightarrow> between p rs (re_matchIndex r) \<and> re_end r \<le> e"
proof (induction rs arbitrary: p)
  case Nil
  then show ?case by (auto simp: between_def disjoint_sorted_def)
qed simp

lemma between_widen: "between p rs e \<Longrightarrow> e \<le> e' \<Longrightarrow> between p rs e'"
  by (auto simp: between_def)

text \<open>The last replacement of a sorted list goes to the last group or starts one.\<close>

lemma add_to_groups_ok:
  assumes ok: "groups_ok base gs" and sorted: "disjoint_sorted (concat (map gr_replacements gs) @ [r])"
    and step: "add_to_groups (getLineSpans base) gs r = Inr gs'"
  shows "groups_ok base gs' \<and> concat (map gr_replacements gs') = concat (map gr_replacements gs) @ [r]"
proof -
  obtain s e where range: "getReplacementLineRange (getLineSpans base) r = Inr (s, e)"
    using step by (auto simp: add_to_groups_def split: sum.splits)
  note line = line_range[OF range]
  have t: "touches base r k \<longleftrightarrow> s \<le> k \<and> k < e" for k by (simp add: touches_def range)
  show ?thesis
  proof (cases "gs \<noteq> [] \<and> s < gr_endLine (last gs)")
    case True
    define g where "g = last gs"
    define g' where "g' = g\<lparr>gr_endLine := max (gr_endLine g) e, gr_replacements := gr_replacements g @ [r]\<rparr>"
    define hs where "hs = butlast gs"
    have gs: "gs = hs @ [g]" using True by (simp add: g_def hs_def)
    have gs': "gs' = hs @ [g']" using step range True by (simp add: add_to_groups_def g_def g'_def hs_def)
    have g: "group_ok base g" using ok by (simp add: groups_ok_def gs)
    have before: "\<forall>q \<in> set (gr_replacements g). re_end q \<le> re_matchIndex r"
      using sorted by (auto simp: disjoint_sorted_def gs sorted_wrt_append)
    obtain q where q: "q \<in> set (gr_replacements g)" using g by (cases "gr_replacements g") (auto simp: group_ok_def)
    have "line_pos base (gr_startLine g) \<le> re_matchIndex r"
      using g q before by (force simp: group_ok_def between_def)
    then have s: "gr_startLine g \<le> s"
      using line(4) line_pos_cancel[of base "gr_startLine g" "Suc s"] by linarith
    have "between (line_pos base (gr_startLine g)) (gr_replacements g) (re_matchIndex r)"
      using g before \<open>line_pos base (gr_startLine g) \<le> re_matchIndex r\<close> by (auto simp: group_ok_def between_def)
    moreover have "re_end r \<le> line_pos base (max (gr_endLine g) e)"
      using line(5) line_pos_mono[of e "max (gr_endLine g) e" base] by simp
    ultimately have "between (line_pos base (gr_startLine g')) (gr_replacements g') (line_pos base (gr_endLine g'))"
      by (simp add: g'_def between_snoc)
    moreover have "(gr_startLine g' \<le> k \<and> k < gr_endLine g') \<longleftrightarrow> (\<exists>q \<in> set (gr_replacements g'). touches base q k)" for k
    proof -
      have "(gr_startLine g \<le> k \<and> k < gr_endLine g) \<longleftrightarrow> (\<exists>q \<in> set (gr_replacements g). touches base q k)"
        using g by (simp add: group_ok_def)
      then have "(\<exists>q \<in> set (gr_replacements g'). touches base q k) \<longleftrightarrow>
          (gr_startLine g \<le> k \<and> k < gr_endLine g) \<or> (s \<le> k \<and> k < e)"
        by (simp add: g'_def t disj_commute)
      moreover have "s < gr_endLine g" using True by (simp add: g_def)
      moreover have "gr_startLine g' = gr_startLine g" "gr_endLine g' = max (gr_endLine g) e" by (simp_all add: g'_def)
      ultimately show ?thesis using s by (simp only: less_max_iff_disj) linarith
    qed
    moreover have "gr_startLine g' < gr_endLine g'" "gr_endLine g' \<le> length (splitLinesWithEndings base)" "gr_replacements g' \<noteq> []"
      using g line(2) by (auto simp: g'_def group_ok_def)
    ultimately have "group_ok base g'" unfolding group_ok_def by blast
    moreover have "gr_startLine g' = gr_startLine g" by (simp add: g'_def)
    ultimately have "groups_ok base gs'" using ok by (simp add: groups_ok_def gs gs' sorted_wrt_append)
    then show ?thesis by (simp add: gs gs' g'_def)
  next
    case False
    define g where "g = \<lparr>gr_startLine = s, gr_endLine = e, gr_replacements = [r]\<rparr>"
    have gs': "gs' = gs @ [g]" using step range False by (auto simp: add_to_groups_def g_def)
    have "group_ok base g" using line t by (simp add: group_ok_def g_def)
    moreover have "gr_endLine h \<le> s" if "h \<in> set gs" for h
    proof (cases gs rule: rev_cases)
      case (snoc hs g)
      have "gr_endLine h \<le> gr_startLine g" if "h \<in> set hs" using that ok snoc by (simp add: groups_ok_def sorted_wrt_append)
      moreover have "gr_startLine g < gr_endLine g" using ok snoc by (simp add: groups_ok_def group_ok_def)
      ultimately show ?thesis using that False snoc by auto
    qed (use that in simp)
    ultimately have "groups_ok base gs'" using ok by (simp add: groups_ok_def gs' sorted_wrt_append g_def)
    then show ?thesis by (simp add: gs' g_def)
  qed
qed

lemma all_groups_ok:
  assumes "foldE (add_to_groups (getLineSpans base)) gs rs = Inr gs'" "groups_ok base gs"
    and "disjoint_sorted (concat (map gr_replacements gs) @ rs)"
  shows "groups_ok base gs' \<and> concat (map gr_replacements gs') = concat (map gr_replacements gs) @ rs"
  using assms
proof (induction rs arbitrary: gs)
  case (Cons r rs)
  obtain hs where hs: "add_to_groups (getLineSpans base) gs r = Inr hs" "foldE (add_to_groups (getLineSpans base)) hs rs = Inr gs'"
    using Cons.prems(1) by (auto simp: bindE_eq_Inr)
  have "disjoint_sorted (concat (map gr_replacements gs) @ [r])"
    using Cons.prems(3) by (auto simp: disjoint_sorted_def sorted_wrt_append)
  from add_to_groups_ok[OF Cons.prems(2) this hs(1)]
  show ?case using Cons.IH[OF hs(2)] Cons.prems(3) by simp
qed simp

section \<open>The text of the groups\<close>

fun emitted :: "jstr list \<Rightarrow> jstr \<Rightarrow> nat \<Rightarrow> 'a replacement_group list \<Rightarrow> jstr" where
  "emitted ls base i [] = concat (drop i ls)"
| "emitted ls base i (g # gs) =
     concat (slice ls i (gr_startLine g)) @ group_text base (getLineSpans base) g @ emitted ls base (gr_endLine g) gs"

lemma foldl_emitted:
  "(case foldl (emit_group ls base (getLineSpans base)) (i, out) gs of (j, result) \<Rightarrow> result @ concat (drop j ls)) =
     out @ emitted ls base i gs"
proof (induction gs arbitrary: i out)
  case (Cons g gs)
  have "emit_group ls base (getLineSpans base) (i, out) g =
      (gr_endLine g, out @ concat (slice ls i (gr_startLine g)) @ group_text base (getLineSpans base) g)"
    by (simp add: emit_group_def)
  then show ?case by (simp add: Cons.IH)
qed simp

lemma preserving_emitted:
  "applyReplacementsPreservingUnchangedLines original base rs =
    bindE (guardE (length (splitLinesWithEndings original) = length (splitLinesWithEndings base)) LineCountDiffers) (\<lambda>_.
    bindE (foldE (add_to_groups (getLineSpans base)) [] (sort_key re_matchIndex rs)) (\<lambda>gs.
      Inr (emitted (splitLinesWithEndings original) base 0 gs)))"
proof -
  have "(case foldl (emit_group ls base (getLineSpans base)) (0, []) gs of (j, result) \<Rightarrow> Inr (result @ concat (drop j ls))) =
      (Inr (emitted ls base 0 gs) :: edit_error + jstr)" for ls and gs :: "'a replacement_group list"
    using foldl_emitted[of ls base 0 "[]" gs] by (simp split: prod.splits)
  then show ?thesis by (simp add: applyReplacementsPreservingUnchangedLines_def Let_def)
qed

lemma group_text_spliced:
  assumes "group_ok base g"
  shows "group_text base (getLineSpans base) g =
    spliced base (line_pos base (gr_startLine g)) (gr_replacements g) (line_pos base (gr_endLine g))"
proof -
  have g: "gr_startLine g < gr_endLine g" "gr_endLine g \<le> length (splitLinesWithEndings base)"
    "between (line_pos base (gr_startLine g)) (gr_replacements g) (line_pos base (gr_endLine g))"
    using assms by (simp_all add: group_ok_def)
  have "line_pos base (gr_endLine g) \<le> length base"
    using line_pos_mono[OF g(2), of base] by (simp add: line_pos_ends)
  from applyReplacements_spliced[OF g(3) order_refl this] show ?thesis
    using g(1,2) by (simp add: group_text_def Let_def slice_def)
qed

text \<open>With the lines of the base itself, the groups are spliced in place.\<close>

lemma emitted_base:
  assumes "groups_ok base gs" "\<forall>g \<in> set gs. i \<le> gr_startLine g" "i \<le> length (splitLinesWithEndings base)"
  shows "between (line_pos base i) (concat (map gr_replacements gs)) (length base) \<and>
    emitted (splitLinesWithEndings base) base i gs = spliced base (line_pos base i) (concat (map gr_replacements gs)) (length base)"
  using assms
proof (induction gs arbitrary: i)
  case Nil
  then show ?case
    using slice_lines[OF Nil(3) order_refl] line_pos_mono[OF Nil(3), of base] by (simp add: line_pos_ends)
next
  case (Cons g gs)
  let ?p = "line_pos base i" and ?s = "line_pos base (gr_startLine g)" and ?e = "line_pos base (gr_endLine g)"
  let ?rs = "concat (map gr_replacements gs)"
  have g: "gr_startLine g < gr_endLine g" "gr_endLine g \<le> length (splitLinesWithEndings base)" "gr_replacements g \<noteq> []"
    "between ?s (gr_replacements g) ?e" "group_ok base g"
    using Cons.prems(1) by (simp_all add: groups_ok_def group_ok_def)
  have IH: "between ?e ?rs (length base)" "emitted (splitLinesWithEndings base) base (gr_endLine g) gs = spliced base ?e ?rs (length base)"
    using Cons.IH[of "gr_endLine g"] Cons.prems(1) g(2) by (simp_all add: groups_ok_def)
  have p: "i \<le> gr_startLine g" "?p \<le> ?s" using Cons.prems(2) by (simp_all add: line_pos_mono)
  have first: "spliced base ?p (gr_replacements g @ ?rs) (length base) = slice base ?p ?s @ spliced base ?s (gr_replacements g @ ?rs) (length base)"
  proof (cases "gr_replacements g")
    case (Cons r rs)
    then have "?s \<le> re_matchIndex r" using g(4) by simp
    then show ?thesis using Cons slice_split[OF p(2), of "re_matchIndex r" base] by simp
  qed (use g(3) in simp)
  have "between ?p (gr_replacements g @ ?rs) (length base)"
    using g(4) IH(1) p(2) unfolding between_def disjoint_sorted_def sorted_wrt_append by fastforce
  moreover have "spliced base ?s (gr_replacements g @ ?rs) (length base) = spliced base ?s (gr_replacements g) ?e @ spliced base ?e ?rs (length base)"
    using spliced_append[OF _ IH(1) g(4)] IH(1) by (simp add: between_def)
  moreover have "concat (slice (splitLinesWithEndings base) i (gr_startLine g)) = slice base ?p ?s"
    using g(1,2) p(1) by (intro slice_lines) simp_all
  ultimately show ?case using first IH(2) group_text_spliced[OF g(5)] by simp
qed

definition group_line :: "jstr \<Rightarrow> 'a replacement_group list \<Rightarrow> nat \<Rightarrow> jstr" where
  "group_line base gs k =
     (case List.find (\<lambda>g. gr_startLine g = k) gs of None \<Rightarrow> [] | Some g \<Rightarrow> group_text base (getLineSpans base) g)"

definition in_groups :: "'a replacement_group list \<Rightarrow> nat \<Rightarrow> bool" where
  "in_groups gs k \<longleftrightarrow> (\<exists>g \<in> set gs. gr_startLine g \<le> k \<and> k < gr_endLine g)"

lemma concat_slice: "i \<le> j \<Longrightarrow> j \<le> length ls \<Longrightarrow> concat (slice ls i j) = concat (map ((!) ls) [i..<j])"
proof -
  assume "i \<le> j" "j \<le> length ls"
  then have "slice ls i j = map ((!) ls) [i..<j]" by (intro nth_equalityI) (simp_all add: slice_def)
  then show ?thesis by simp
qed

lemma emitted_lines:
  assumes "groups_ok base gs" "\<forall>g \<in> set gs. i \<le> gr_startLine g" "i \<le> length ls"
    and "length ls = length (splitLinesWithEndings base)"
  shows "emitted ls base i gs =
    concat (map (\<lambda>k. if in_groups gs k then group_line base gs k else ls ! k) [i..<length ls])"
  using assms(1-3)
proof (induction gs arbitrary: i)
  case Nil
  have "emitted ls base i [] = concat (map ((!) ls) [i..<length ls])"
    using concat_slice[OF Nil(3) order_refl] by simp
  also have "map ((!) ls) [i..<length ls] = map (\<lambda>k. if in_groups [] k then group_line base [] k else ls ! k) [i..<length ls]"
    by (simp add: in_groups_def)
  finally show ?case .
next
  case (Cons g gs)
  let ?f = "\<lambda>gs k. if in_groups gs k then group_line base gs k else ls ! k"
  let ?s = "gr_startLine g" and ?e = "gr_endLine g"
  have g: "?s < ?e" "?e \<le> length ls" "i \<le> ?s" "\<forall>h \<in> set gs. ?e \<le> gr_startLine h"
    using Cons.prems assms(4) by (simp_all add: groups_ok_def group_ok_def)
  have later: "List.find (\<lambda>h. gr_startLine h = k) gs = None" if "k < ?e" for k
    using that g(4) by (auto simp: find_None_iff)
  have split: "[i..<length ls] = [i..<?s] @ [?s] @ [Suc ?s..<?e] @ [?e..<length ls]"
  proof -
    have a: "[a..<c] = [a..<b] @ [b..<c]" if "a \<le> b" "b \<le> c" for a b c :: nat
      using that upt_add_eq_append[of a b "c - b"] by simp
    have "[?s..<?e] = [?s] @ [Suc ?s..<?e]" using g(1) by (simp add: upt_conv_Cons)
    then show ?thesis using a[of i ?s "length ls"] a[of ?s ?e "length ls"] g(1-3) by simp
  qed
  have "concat (map (?f (g # gs)) [i..<?s]) = concat (slice ls i ?s)"
  proof -
    have "\<not> in_groups (g # gs) k" if "k < ?s" for k using that g(1,4) by (force simp: in_groups_def)
    then have same: "map (?f (g # gs)) [i..<?s] = map ((!) ls) [i..<?s]" by simp
    show ?thesis unfolding same using concat_slice[of i ?s ls] g(1-3) by simp
  qed
  moreover have "?f (g # gs) ?s = group_text base (getLineSpans base) g"
    using g(1) by (simp add: in_groups_def group_line_def)
  moreover have "concat (map (?f (g # gs)) [Suc ?s..<?e]) = []"
    using later by (auto simp: in_groups_def group_line_def)
  moreover have "concat (map (?f (g # gs)) [?e..<length ls]) = emitted ls base ?e gs"
  proof -
    have "?f (g # gs) k = ?f gs k" if "?e \<le> k" for k using that g(1) by (auto simp: in_groups_def group_line_def)
    then have same: "map (?f (g # gs)) [?e..<length ls] = map (?f gs) [?e..<length ls]" by simp
    have "groups_ok base gs" using Cons.prems(1) by (simp add: groups_ok_def)
    then show ?thesis unfolding same using Cons.IH[of ?e] g(2,4) by simp
  qed
  ultimately show ?case unfolding split by simp
qed

text \<open>What comes before a line outside the groups: the base up to it, with the replacements before it made.\<close>

lemma lines_before:
  fixes gs :: "'a replacement_group list"
  assumes "groups_ok base gs" "\<forall>g \<in> set gs. i \<le> gr_startLine g" "i \<le> k" "k < length (splitLinesWithEndings base)"
    "\<not> in_groups gs k"
  shows "concat (map (\<lambda>j. if in_groups gs j then group_line base gs j else splitLinesWithEndings base ! j) [i..<k]) =
    spliced base (line_pos base i) (filter (\<lambda>r. re_end r \<le> line_pos base k) (concat (map gr_replacements gs))) (line_pos base k)"
  using assms(1,2,3,5)
proof (induction gs arbitrary: i)
  case Nil
  then have "concat (map ((!) (splitLinesWithEndings base)) [i..<k]) = slice base (line_pos base i) (line_pos base k)"
    using concat_slice[of i k "splitLinesWithEndings base"] slice_lines[of i k base] assms(4) by simp
  then show ?case by (simp add: in_groups_def)
next
  case (Cons g gs)
  let ?bs = "splitLinesWithEndings base" and ?s = "gr_startLine g" and ?e = "gr_endLine g"
  let ?f = "\<lambda>(gs :: 'a replacement_group list) j. if in_groups gs j then group_line base gs j else ?bs ! j"
  let ?before = "filter (\<lambda>r. re_end r \<le> line_pos base k)"
  have g: "?s < ?e" "?e \<le> length ?bs" "i \<le> ?s" "\<forall>h \<in> set gs. ?e \<le> gr_startLine h" "group_ok base g" "gr_replacements g \<noteq> []"
    "between (line_pos base ?s) (gr_replacements g) (line_pos base ?e)"
    using Cons.prems by (simp_all add: groups_ok_def group_ok_def)
  have plain: "concat (map (?f (g # gs)) [i..<m]) = slice base (line_pos base i) (line_pos base m)" if "i \<le> m" "m \<le> ?s" for m
  proof -
    have "\<not> in_groups (g # gs) j" if "j < ?s" for j using that g(1,4) by (force simp: in_groups_def)
    then have same: "map (?f (g # gs)) [i..<m] = map ((!) ?bs) [i..<m]" using that(2) by simp
    have "m \<le> length ?bs" using that g(1,2) by simp
    then show ?thesis unfolding same using concat_slice[of i m ?bs] slice_lines[of i m base] that(1) by simp
  qed
  show ?case
  proof (cases "k < ?s")
    case True
    have "line_pos base k < re_end r" if "h \<in> set (g # gs)" "r \<in> set (gr_replacements h)" for h r
    proof -
      have "between (line_pos base (gr_startLine h)) (gr_replacements h) (line_pos base (gr_endLine h))" "gr_endLine h \<le> length ?bs"
        "gr_startLine h < gr_endLine h" "k < gr_startLine h"
        using that(1) Cons.prems(1) True g(1,4) by (force simp: groups_ok_def group_ok_def)+
      moreover from this have "line_pos base k < line_pos base (gr_startLine h)" by (intro line_pos_less) simp_all
      ultimately show ?thesis using that(2) by (force simp: between_def)
    qed
    then have "?before (concat (map gr_replacements (g # gs))) = []" by (auto simp: filter_empty_conv simp flip: not_less)
    then show ?thesis using plain[of k] Cons.prems(3) True by simp
  next
    case False
    with Cons.prems(4) have k: "?e \<le> k" by (auto simp: in_groups_def)
    have later: "List.find (\<lambda>h. gr_startLine h = j) gs = None" if "j < ?e" for j
      using that g(4) by (auto simp: find_None_iff)
    have split: "[i..<k] = [i..<?s] @ [?s] @ [Suc ?s..<?e] @ [?e..<k]"
    proof -
      have a: "[a..<c] = [a..<b] @ [b..<c]" if "a \<le> b" "b \<le> c" for a b c :: nat
        using that upt_add_eq_append[of a b "c - b"] by simp
      have "[?s..<?e] = [?s] @ [Suc ?s..<?e]" using g(1) by (simp add: upt_conv_Cons)
      then show ?thesis using a[of i ?s k] a[of ?s ?e k] g(1-3) k by simp
    qed
    have here: "?f (g # gs) ?s = spliced base (line_pos base ?s) (gr_replacements g) (line_pos base ?e)"
      using g(1) group_text_spliced[OF g(5)] by (simp add: in_groups_def group_line_def)
    have rest: "concat (map (?f (g # gs)) [Suc ?s..<?e]) = []" using later by (auto simp: in_groups_def group_line_def)
    have "?f (g # gs) j = ?f gs j" if "?e \<le> j" for j using that g(1) by (auto simp: in_groups_def group_line_def)
    then have same: "map (?f (g # gs)) [?e..<k] = map (?f gs) [?e..<k]" by simp
    have "groups_ok base gs" "\<not> in_groups gs k" using Cons.prems(1,4) by (simp_all add: groups_ok_def in_groups_def)
    then have after: "concat (map (?f (g # gs)) [?e..<k]) =
        spliced base (line_pos base ?e) (?before (concat (map gr_replacements gs))) (line_pos base k)"
      unfolding same using Cons.IH[of ?e] g(4) k by blast
    have ek: "line_pos base ?e \<le> line_pos base k" using k by (rule line_pos_mono)
    have mine: "?before (gr_replacements g) = gr_replacements g"
      using g(7) ek by (fastforce simp: filter_id_conv between_def)
    have later_between: "between (line_pos base ?e) (?before (concat (map gr_replacements gs))) (line_pos base k)"
    proof -
      have "between (line_pos base ?e) (concat (map gr_replacements gs)) (length base)"
        using emitted_base[of base gs ?e] \<open>groups_ok base gs\<close> g(2,4) by blast
      then show ?thesis using ek by (auto simp: between_def disjoint_sorted_def sorted_wrt_filter)
    qed
    obtain r rs where r: "gr_replacements g = r # rs" using g(6) by (cases "gr_replacements g") auto
    have "line_pos base i \<le> line_pos base ?s" "line_pos base ?s \<le> re_matchIndex r"
      using line_pos_mono[OF g(3)] g(7) r by simp_all
    then have first: "spliced base (line_pos base i) (gr_replacements g @ qs) e =
        slice base (line_pos base i) (line_pos base ?s) @ spliced base (line_pos base ?s) (gr_replacements g @ qs) e" for qs e
      using r slice_split[of "line_pos base i" "line_pos base ?s" "re_matchIndex r" base] by simp
    show ?thesis
      unfolding split using plain[of ?s] g(3) here rest after
      by (simp add: mine first spliced_append[OF ek later_between g(7)])
  qed
qed

lemma in_groups_touches:
  assumes "groups_ok base gs"
  shows "in_groups gs k \<longleftrightarrow> (\<exists>r \<in> set (concat (map gr_replacements gs)). touches base r k)"
  using assms by (auto simp: in_groups_def groups_ok_def group_ok_def)

lemma sort_disjoint: "disjoint_sorted rs \<Longrightarrow> sort_key re_matchIndex rs = rs"
proof -
  assume "disjoint_sorted rs"
  then have "sorted (map re_matchIndex rs)"
    unfolding sorted_map disjoint_sorted_def by (rule sorted_wrt_mono_rel[rotated]) simp
  then show ?thesis by (rule sort_key_id_if_sorted)
qed

text \<open>
  The lines no replacement touches come from the original, the others make up, with the lines of the base in the
  place of the former, the base with all replacements made at once.
\<close>

lemma preserving_overlaid:
  assumes "disjoint_sorted rs" "applyReplacementsPreservingUnchangedLines original base rs = Inr result"
  obtains out where "length out = length (splitLinesWithEndings base)" "length (splitLinesWithEndings original) = length out"
    "concat out = applyReplacements base rs 0" "applyReplacements base rs 0 = spliced base 0 rs (length base)"
    "\<forall>k < length out. (\<exists>r \<in> set rs. touches base r k) \<or> out ! k = splitLinesWithEndings base ! k"
    "\<forall>k < length out. (\<exists>r \<in> set rs. touches base r k) \<or>
      concat (take k out) = spliced base 0 (filter (\<lambda>r. re_end r \<le> line_pos base k) rs) (line_pos base k)"
    "result = concat (map (\<lambda>k. if \<exists>r \<in> set rs. touches base r k then out ! k else splitLinesWithEndings original ! k)
      [0..<length out])"
proof -
  let ?ls = "splitLinesWithEndings original" and ?bs = "splitLinesWithEndings base"
  let ?t = "\<lambda>k. \<exists>r \<in> set rs. touches base r k"
  obtain gs where gs: "length ?ls = length ?bs" "foldE (add_to_groups (getLineSpans base)) [] rs = Inr gs"
    "result = emitted ?ls base 0 gs"
    using assms(2) sort_disjoint[OF assms(1)] by (auto simp: preserving_emitted bindE_eq_Inr)
  have ok: "groups_ok base gs" "concat (map gr_replacements gs) = rs"
    using all_groups_ok[OF gs(2)] assms(1) by (simp_all add: groups_ok_def)
  have t: "in_groups gs = ?t" by (rule ext) (simp add: in_groups_touches[OF ok(1)] ok(2) del: set_concat)
  have result: "result = concat (map (\<lambda>k. if ?t k then group_line base gs k else ?ls ! k) [0..<length ?ls])"
    using emitted_lines[OF ok(1) _ _ gs(1), of 0] gs(3) by (simp add: t)
  have whole: "emitted ?bs base 0 gs = concat (map (\<lambda>k. if ?t k then group_line base gs k else ?bs ! k) [0..<length ?bs])"
    using emitted_lines[OF ok(1) _ _ refl, of 0] by (simp add: t)
  have base: "between 0 rs (length base)" "emitted ?bs base 0 gs = spliced base 0 rs (length base)"
    using emitted_base[OF ok(1), of 0] ok(2) by (simp_all add: line_pos_ends)
  define out where "out = map (\<lambda>k. if ?t k then group_line base gs k else ?bs ! k) [0..<length ?bs]"
  have "concat out = spliced base 0 rs (length base)" using whole base(2) by (simp add: out_def)
  moreover have "map (\<lambda>k. if ?t k then out ! k else ?ls ! k) [0..<length out] =
      map (\<lambda>k. if ?t k then group_line base gs k else ?ls ! k) [0..<length ?ls]"
    using gs(1) by (auto simp: out_def)
  then have "result = concat (map (\<lambda>k. if ?t k then out ! k else ?ls ! k) [0..<length out])" using result by metis
  moreover have "length out = length ?bs" "\<forall>k < length out. ?t k \<or> out ! k = ?bs ! k" by (simp_all add: out_def)
  moreover have "\<forall>k < length out. ?t k \<or>
      concat (take k out) = spliced base 0 (filter (\<lambda>r. re_end r \<le> line_pos base k) rs) (line_pos base k)"
  proof (intro allI impI)
    fix k
    have "concat (take k out) = spliced base 0 (filter (\<lambda>r. re_end r \<le> line_pos base k) rs) (line_pos base k)"
      if k: "k < length out" "\<not> ?t k"
    proof -
      from k have "take k out = map (\<lambda>j. if in_groups gs j then group_line base gs j else ?bs ! j) [0..<k]"
      by (simp add: out_def take_map t)
      then show ?thesis using lines_before[OF ok(1), of 0 k] k by (simp add: ok(2) t out_def line_pos_ends)
    qed
    then show "k < length out \<Longrightarrow> ?t k \<or>
        concat (take k out) = spliced base 0 (filter (\<lambda>r. re_end r \<le> line_pos base k) rs) (line_pos base k)" by blast
  qed
  ultimately show ?thesis
    using gs(1) applyReplacements_whole[OF base(1)] that[of out] by simp
qed

text \<open>It never fails on replacements inside a base with as many lines.\<close>

lemma line_range_total:
  assumes "re_matchIndex r < length base" "re_end r \<le> length base"
  shows "\<exists>p. getReplacementLineRange (getLineSpans base) r = Inr p"
proof -
  let ?n = "length (splitLinesWithEndings base)"
  have ex: "\<exists>i < ?n. line_pos base i \<le> x \<and> x < line_pos base (Suc i)" if "x < length base" for x
  proof (rule ccontr)
    assume none: "\<not> ?thesis"
    have "i \<le> ?n \<Longrightarrow> line_pos base i \<le> x" for i
      using none by (induction i) (auto simp: line_pos_ends not_less Suc_le_eq)
    from this[of ?n] show False using that by (simp add: line_pos_ends)
  qed
  obtain i where i: "List.find (\<lambda>i. sp_start (getLineSpans base ! i) \<le> re_matchIndex r \<and> re_matchIndex r < sp_end (getLineSpans base ! i))
      [0..<?n] = Some i"
    using ex[OF assms(1)] by (cases "List.find (\<lambda>i. sp_start (getLineSpans base ! i) \<le> re_matchIndex r \<and> re_matchIndex r < sp_end (getLineSpans base ! i))
      [0..<?n]") (auto simp: find_None_iff)
  then have "i < ?n" by (rule find_upt_less)
  have "Suc (?n - 1) = ?n" using \<open>i < ?n\<close> by simp
  then have "\<not> sp_end (getLineSpans base ! (?n - 1)) < re_end r"
    using assms(2) \<open>i < ?n\<close> line_pos_ends(2)[of base] spans_nth(2)[of "?n - 1" base] by simp
  moreover have "?n - 1 \<in> set [i..<?n]" using \<open>i < ?n\<close> by auto
  ultimately have "List.find (\<lambda>i. \<not> sp_end (getLineSpans base ! i) < re_end r) [i..<?n] \<noteq> None"
    unfolding find_None_iff by blast
  then show ?thesis using i by (auto simp: getReplacementLineRange_def)
qed

lemma preserving_total:
  assumes "\<forall>r \<in> set rs. re_matchIndex r < length base \<and> re_end r \<le> length base"
    and "length (splitLinesWithEndings original) = length (splitLinesWithEndings base)"
  shows "\<exists>result. applyReplacementsPreservingUnchangedLines original base rs = Inr result"
proof -
  have "\<exists>gs'. foldE (add_to_groups (getLineSpans base)) gs qs = Inr gs'" if "set qs \<subseteq> set rs" for gs qs
    using that
  proof (induction qs arbitrary: gs)
    case (Cons q qs)
    obtain p where "getReplacementLineRange (getLineSpans base) q = Inr p"
      using line_range_total[of q base] assms(1) Cons.prems by auto
    then have "\<exists>hs. add_to_groups (getLineSpans base) gs q = Inr hs" by (simp add: add_to_groups_def split: prod.splits)
    then show ?case using Cons.IH Cons.prems by force
  qed simp
  from this[of "sort_key re_matchIndex rs" "[]"] show ?thesis
    using assms(2) by (auto simp: preserving_emitted)
qed

section \<open>Matching\<close>

lemma index_of_Some: "index_of t probe = Some i \<Longrightarrow> i + length probe \<le> length t \<and> slice t i (i + length probe) = probe"
  by (auto simp: index_of_def find_Some_iff slice_def)

text \<open>What an accepted match of edit \<open>i\<close> is.\<close>

definition matches :: "(jstr \<Rightarrow> jstr) \<Rightarrow> jstr \<Rightarrow> edit \<Rightarrow> nat \<Rightarrow> matched_edit \<Rightarrow> bool" where
  "matches nfkc base e i m \<longleftrightarrow>
     re_editIndex m = i \<and> re_newText m = ed_newText e \<and> countOccurrences nfkc base (ed_oldText e) \<le> 1 \<and>
     (if fm_usedFuzzyMatch (fuzzyFindText nfkc base (ed_oldText e))
      then re_end m \<le> length (normalizeForFuzzyMatch nfkc base) \<and>
        slice (normalizeForFuzzyMatch nfkc base) (re_matchIndex m) (re_end m) = normalizeForFuzzyMatch nfkc (ed_oldText e)
      else re_end m \<le> length base \<and> slice base (re_matchIndex m) (re_end m) = ed_oldText e)"

lemma match_edit_Inr:
  assumes "match_edit nfkc base n acc (i, e) = Inr ms"
  shows "\<exists>m. ms = acc @ [m] \<and> matches nfkc base e i m"
  using assms index_of_Some
  by (fastforce simp: match_edit_def Let_def bindE_eq_Inr matches_def fuzzyFindText_def split: option.splits)

lemma match_all:
  "foldE (match_edit nfkc base n) acc (enumerate k es) = Inr matched \<Longrightarrow>
    \<exists>ms. matched = acc @ ms \<and> length ms = length es \<and> (\<forall>j < length es. matches nfkc base (es ! j) (k + j) (ms ! j))"
proof (induction es arbitrary: k acc)
  case (Cons e es)
  obtain acc' where step: "match_edit nfkc base n acc (k, e) = Inr acc'"
    "foldE (match_edit nfkc base n) acc' (enumerate (Suc k) es) = Inr matched"
    using Cons.prems by (auto simp: bindE_eq_Inr)
  obtain m where m: "acc' = acc @ [m]" "matches nfkc base e k m" using match_edit_Inr[OF step(1)] by blast
  obtain ms where ms: "matched = acc' @ ms" "length ms = length es"
    "\<forall>j < length es. matches nfkc base (es ! j) (Suc k + j) (ms ! j)"
    using Cons.IH[OF step(2)] by blast
  have "\<forall>j < length (e # es). matches nfkc base ((e # es) ! j) (k + j) ((m # ms) ! j)"
    using m(2) ms(3) by (auto simp: nth_Cons split: nat.splits)
  then show ?case using m(1) ms(1,2) by (intro exI[of _ "m # ms"]) simp
qed simp

lemma first_overlap_None: "first_overlap ms = None \<Longrightarrow> disjoint_sorted ms"
proof -
  assume none: "first_overlap ms = None"
  have "transp (\<lambda>r s :: matched_edit. re_end r \<le> re_matchIndex s)" by (auto intro!: transpI)
  moreover have "re_end (ms ! i) \<le> re_matchIndex (ms ! Suc i)" if "Suc i < length ms" for i
  proof -
    have "Suc i \<in> set [1..<length ms]" using that by simp
    then show ?thesis using none unfolding first_overlap_def find_None_iff by force
  qed
  ultimately show ?thesis unfolding disjoint_sorted_def by (simp add: sorted_wrt_iff_nth_Suc_transp)
qed

lemma applyEdits_Inr:
  assumes "applyEditsToNormalizedContent nfkc content edits = Inr (b, new)"
  defines "es \<equiv> map normalize_edit edits"
  defines "base \<equiv> replacement_base nfkc content es"
  obtains ms where "b = content" "new \<noteq> content" "disjoint_sorted (sort_key re_matchIndex ms)" "length ms = length es"
    "\<forall>j < length es. matches nfkc base (es ! j) j (ms ! j)"
    "if used_fuzzy nfkc content es
     then applyReplacementsPreservingUnchangedLines content base (sort_key re_matchIndex ms) = Inr new
     else new = applyReplacements base (sort_key re_matchIndex ms) 0"
proof -
  obtain ms where ms: "foldE (match_edit nfkc base (length es)) [] (enumerate 0 es) = Inr ms"
    "first_overlap (sort_key re_matchIndex ms) = None" "b = content" "content \<noteq> new"
    "(if used_fuzzy nfkc content es then applyReplacementsPreservingUnchangedLines content base (sort_key re_matchIndex ms)
      else Inr (applyReplacements base (sort_key re_matchIndex ms) 0)) = Inr new"
    using assms(1) unfolding applyEditsToNormalizedContent_def Let_def es_def[symmetric] base_def[symmetric]
    by (auto simp: bindE_eq_Inr split: option.splits)
  show thesis
    using that[OF ms(3) _ first_overlap_None[OF ms(2)]] match_all[OF ms(1)] ms(4,5) by (auto split: if_splits)
qed

text \<open>
  C31. An accepted call replaces every old text exactly once and changes nothing else: there is one match per edit,
  in order and disjoint, at its old text (its normalised text when the search was fuzzy), which occurs at most once
  in normalised text; an exact call gives the content with all matches replaced at once. A fuzzy call does so with the
  normalised content, cut into one piece for each of its lines: a line that no match touches is its own piece and stands
  behind exactly the text of the lines before it with their matches replaced; in the result its piece is the original
  line, and the pieces of the touched lines stay. (The hypothesis: normalising twice is normalising once.)
\<close>
theorem edits_applied:
  assumes "applyEditsToNormalizedContent nfkc content edits = Inr (b, new)"
    and "normalizeForFuzzyMatch nfkc (normalizeForFuzzyMatch nfkc content) = normalizeForFuzzyMatch nfkc content"
  shows "let es = map normalize_edit edits; base = replacement_base nfkc content es in
    b = content \<and> new \<noteq> content \<and>
    (\<exists>ms :: matched_edit list. between 0 ms (length base) \<and> mset (map re_editIndex ms) = mset [0..<length edits] \<and>
      (\<forall>m \<in> set ms. let e = es ! re_editIndex m; found = slice base (re_matchIndex m) (re_end m) in
        re_newText m = ed_newText e \<and> countOccurrences nfkc base (ed_oldText e) \<le> 1 \<and>
        (found = ed_oldText e \<or> used_fuzzy nfkc content es \<and> found = normalizeForFuzzyMatch nfkc (ed_oldText e))) \<and>
      (if used_fuzzy nfkc content es
       then \<exists>out. length out = length (splitLinesWithEndings content) \<and> concat out = spliced base 0 ms (length base) \<and>
         (\<forall>k < length out. (\<exists>m \<in> set ms. touches base m k) \<or> out ! k = splitLinesWithEndings base ! k \<and>
           concat (take k out) = spliced base 0 (filter (\<lambda>m. re_end m \<le> line_pos base k) ms) (line_pos base k)) \<and>
         new = concat (map (\<lambda>k. if \<exists>m \<in> set ms. touches base m k then out ! k else splitLinesWithEndings content ! k)
           [0..<length out])
       else new = spliced content 0 ms (length content)))"
proof -
  define es where "es = map normalize_edit edits"
  define base where "base = replacement_base nfkc content es"
  obtain ms where ms: "b = content" "new \<noteq> content" "disjoint_sorted (sort_key re_matchIndex ms)" "length ms = length es"
    "\<forall>j < length es. matches nfkc base (es ! j) j (ms ! j)"
    "if used_fuzzy nfkc content es
     then applyReplacementsPreservingUnchangedLines content base (sort_key re_matchIndex ms) = Inr new
     else new = applyReplacements base (sort_key re_matchIndex ms) 0"
    using applyEdits_Inr[OF assms(1)] unfolding base_def es_def by blast
  let ?ms = "sort_key re_matchIndex ms"
  have index: "map re_editIndex ms = [0..<length edits]"
    using ms(4,5) by (intro nth_equalityI) (auto simp: es_def matches_def)
  have found: "re_newText m = ed_newText e \<and> countOccurrences nfkc base (ed_oldText e) \<le> 1 \<and>
      (slice base (re_matchIndex m) (re_end m) = ed_oldText e \<or> used_fuzzy nfkc content es \<and>
       slice base (re_matchIndex m) (re_end m) = normalizeForFuzzyMatch nfkc (ed_oldText e)) \<and> re_end m \<le> length base"
    if "m \<in> set ms" "e = es ! re_editIndex m" for m e
  proof -
    obtain j where j: "j < length es" "m = ms ! j" using \<open>m \<in> set ms\<close> ms(4) by (metis in_set_conv_nth)
    then have m: "matches nfkc base e j m" using ms(5) that(2) by (simp add: matches_def)
    then have e: "e = es ! j" using that(2) by (simp add: matches_def)
    show ?thesis
    proof (cases "used_fuzzy nfkc content es")
      case True
      then have "normalizeForFuzzyMatch nfkc base = base" using assms(2) by (simp add: base_def replacement_base_def)
      then show ?thesis using m True by (auto simp: matches_def split: if_splits)
    next
      case False
      then have "base = content" by (simp add: base_def replacement_base_def)
      moreover have "\<not> fm_usedFuzzyMatch (fuzzyFindText nfkc content (ed_oldText e))"
        using False j(1) e by (auto simp: used_fuzzy_def)
      ultimately show ?thesis using m by (simp add: matches_def)
    qed
  qed
  have inside: "between 0 ?ms (length base)" using ms(3) found by (simp add: between_def)
  have "mset (map re_editIndex ?ms) = mset [0..<length edits]" unfolding index[symmetric] by simp
  moreover have "if used_fuzzy nfkc content es
       then \<exists>out. length out = length (splitLinesWithEndings content) \<and> concat out = spliced base 0 ?ms (length base) \<and>
         (\<forall>k < length out. (\<exists>m \<in> set ?ms. touches base m k) \<or> out ! k = splitLinesWithEndings base ! k \<and>
           concat (take k out) = spliced base 0 (filter (\<lambda>m. re_end m \<le> line_pos base k) ?ms) (line_pos base k)) \<and>
         new = concat (map (\<lambda>k. if \<exists>m \<in> set ?ms. touches base m k then out ! k else splitLinesWithEndings content ! k)
           [0..<length out])
       else new = spliced content 0 ?ms (length content)"
  proof (cases "used_fuzzy nfkc content es")
    case True
    then have "applyReplacementsPreservingUnchangedLines content base ?ms = Inr new" using ms(6) by simp
    obtain out where out: "length out = length (splitLinesWithEndings base)" "length (splitLinesWithEndings content) = length out"
      "concat out = applyReplacements base ?ms 0" "applyReplacements base ?ms 0 = spliced base 0 ?ms (length base)"
      "\<forall>k < length out. (\<exists>r \<in> set ?ms. touches base r k) \<or> out ! k = splitLinesWithEndings base ! k"
      "\<forall>k < length out. (\<exists>r \<in> set ?ms. touches base r k) \<or>
        concat (take k out) = spliced base 0 (filter (\<lambda>r. re_end r \<le> line_pos base k) ?ms) (line_pos base k)"
      "new = concat (map (\<lambda>k. if \<exists>r \<in> set ?ms. touches base r k then out ! k else splitLinesWithEndings content ! k)
        [0..<length out])" by (rule preserving_overlaid[OF ms(3) \<open>_ = Inr new\<close>])
    have "\<forall>k < length out. (\<exists>m \<in> set ?ms. touches base m k) \<or> out ! k = splitLinesWithEndings base ! k \<and>
        concat (take k out) = spliced base 0 (filter (\<lambda>m. re_end m \<le> line_pos base k) ?ms) (line_pos base k)"
      using out(5,6) by blast
    then show ?thesis unfolding if_P[OF True] using out(2,3,4,7) by (intro exI[of _ out] conjI) simp_all
  next
    case False
    then have "base = content" by (simp add: base_def replacement_base_def)
    then show ?thesis using ms(6) False applyReplacements_whole[OF inside] by simp
  qed
  ultimately show ?thesis
    using ms(1,2) inside found unfolding Let_def es_def[symmetric] base_def[symmetric]
    by (intro conjI exI[of _ ?ms]) simp_all
qed

lemma index_of_first:
  assumes "\<forall>i < length u. take (length probe) (drop i (u @ probe @ w)) \<noteq> probe"
  shows "index_of (u @ probe @ w) probe = Some (length u)"
proof -
  have find: "List.find P [0..<n] = Some i" if "i < n" "P i" "\<forall>j < i. \<not> P j" for P n and i :: nat
    using that unfolding find_Some_iff by (intro exI[of _ i]) auto
  show ?thesis unfolding index_of_def by (rule find) (use assms in simp_all)
qed

lemma index_of_None: "hd probe \<notin> set t \<Longrightarrow> probe \<noteq> [] \<Longrightarrow> index_of t probe = None"
proof -
  assume hd: "hd probe \<notin> set t" "probe \<noteq> []"
  have "set probe \<subseteq> set t" if "take (length probe) (drop i t) = probe" for i
    using set_take_subset[of "length probe" "drop i t"] set_drop_subset[of i t] that by auto
  then show ?thesis using hd by (auto simp: index_of_def find_None_iff dest: hd_in_set)
qed

lemma replace_crlf_Cons: "c \<noteq> 13 \<Longrightarrow> replace_crlf (c # s) = c # replace_crlf s"
  by (cases s) auto

lemma normalize_plain: "13 \<notin> set t \<Longrightarrow> normalizeToLF t = t"
proof -
  assume "13 \<notin> set t"
  moreover from this have "replace_crlf t = t" by (induction t) (auto simp: replace_crlf_Cons)
  ultimately show ?thesis unfolding normalizeToLF_def by (auto intro!: map_idI)
qed

lemma normalize_restored: "13 \<notin> set t \<Longrightarrow> normalizeToLF (restoreLineEndings t CRLF) = t"
proof -
  assume t: "13 \<notin> set t"
  then have "replace_crlf (concat (map (\<lambda>c. if c = 10 then [13, 10] else [c]) t)) = t"
    by (induction t) (auto simp: replace_crlf_Cons)
  then show ?thesis using t unfolding normalizeToLF_def restoreLineEndings_def by (auto intro!: map_idI)
qed

text \<open>
  Files whose line ends are all of one kind keep them: normalising the line ends of such a text gives the text
  without them back, and writing that with the detected ones gives the file's text again.
\<close>
theorem line_endings_roundtrip:
  assumes "13 \<notin> set t" "ending = LF \<or> 10 \<in> set t"
  shows "normalizeToLF (restoreLineEndings t ending) = t \<and>
    restoreLineEndings t (detectLineEnding (restoreLineEndings t ending)) = restoreLineEndings t ending"
proof (cases ending)
  case LF
  have "index_of t [13, 10] = None" using assms(1) by (intro index_of_None) simp_all
  then have "detectLineEnding t = LF" by (simp add: detectLineEnding_def split: option.split)
  then show ?thesis using LF assms(1) normalize_plain by (simp add: restoreLineEndings_def)
next
  case CRLF
  then have "10 \<in> set t" using assms(2) by simp
  then obtain u v where t: "t = u @ 10 # v" "10 \<notin> set u" by (meson split_list_first)
  define w where "w = restoreLineEndings v CRLF"
  have "concat (map (\<lambda>c. if c = 10 then [13, 10] else [c]) u) = u" using t(2) by (induction u) auto
  then have r: "restoreLineEndings t CRLF = u @ [13, 10] @ w" by (simp add: t(1) restoreLineEndings_def w_def)
  have no: "take (length p) (drop i (u' @ x)) \<noteq> p" if "i < length u'" "hd p \<notin> set u'" "p \<noteq> []" for i p x and u' :: jstr
  proof -
    have "hd (take (length p) (drop i (u' @ x))) = u' ! i"
      using that by (simp add: hd_drop_conv_nth hd_append nth_append)
    then show ?thesis using that by (metis nth_mem)
  qed
  have "index_of (u @ [13, 10] @ w) [13, 10] = Some (length u)"
    using assms(1) t(1) no[of _ u "[13, 10]"] by (intro index_of_first) simp
  moreover have "index_of ((u @ [13]) @ [10] @ w) [10] = Some (length (u @ [13]))"
    using t(2) no[of _ "u @ [13]" "[10]"] by (intro index_of_first) simp
  ultimately have "detectLineEnding (restoreLineEndings t CRLF) = CRLF"
    by (simp add: r detectLineEnding_def)
  then show ?thesis using CRLF assms(1) normalize_restored by simp
qed

text \<open>
  Against itself as the base, the line-preserving replacement is the plain one: for replacements in order,
  disjoint and inside the text it returns, and both give the same text.
\<close>
theorem preserving_same_base:
  assumes "disjoint_sorted rs" "\<forall>r \<in> set rs. re_matchIndex r < length base \<and> re_end r \<le> length base"
  shows "applyReplacementsPreservingUnchangedLines base base rs = Inr (applyReplacements base rs 0)"
proof -
  let ?ls = "splitLinesWithEndings base" and ?t = "\<lambda>k. \<exists>r \<in> set rs. touches base r k"
  obtain result where r: "applyReplacementsPreservingUnchangedLines base base rs = Inr result"
    using preserving_total[OF assms(2) refl] by blast
  obtain out where "length out = length ?ls" "length ?ls = length out"
    and out: "concat out = applyReplacements base rs 0" "applyReplacements base rs 0 = spliced base 0 rs (length base)"
    "\<forall>k < length out. ?t k \<or> out ! k = ?ls ! k"
    "result = concat (map (\<lambda>k. if ?t k then out ! k else ?ls ! k) [0..<length out])"
    by (rule preserving_overlaid[OF assms(1) r])
  have "map (\<lambda>k. if ?t k then out ! k else ?ls ! k) [0..<length out] = out"
    using out(3) by (intro nth_equalityI) auto
  then show ?thesis using r out(1,4) by simp
qed

definition sample_edits :: "edit list" where
  "sample_edits = [\<lparr>ed_oldText = js ''x'' @ newline @ js ''y'', ed_newText = js ''Z''\<rparr>]"

definition sample_content :: jstr where
  "sample_content = js ''x '' @ newline @ js ''y'' @ newline @ js ''b ''"

theorem edits_applied_witness:
  "\<exists>b new. applyEditsToNormalizedContent (\<lambda>s. s) sample_content sample_edits = Inr (b, new) \<and>
    used_fuzzy (\<lambda>s. s) sample_content (map normalize_edit sample_edits) \<and> b = sample_content \<and>
    new = js ''Z'' @ newline @ js ''b ''"
proof -
  define new where "new = js ''Z'' @ newline @ js ''b ''"
  have a: "applyEditsToNormalizedContent (\<lambda>s. s) sample_content sample_edits = Inr (sample_content, new)"
    unfolding new_def by code_simp
  have n: "normalizeForFuzzyMatch (\<lambda>s. s) (normalizeForFuzzyMatch (\<lambda>s. s) sample_content) =
    normalizeForFuzzyMatch (\<lambda>s. s) sample_content" by code_simp
  have "used_fuzzy (\<lambda>s. s) sample_content (map normalize_edit sample_edits)" by code_simp
  then show ?thesis using edits_applied[OF a n] a by (simp add: Let_def new_def)
qed

theorem line_endings_roundtrip_witness:
  "normalizeToLF (restoreLineEndings two_lines CRLF) = two_lines \<and> restoreLineEndings two_lines CRLF \<noteq> two_lines"
proof -
  have "13 \<notin> set two_lines" "CRLF = LF \<or> 10 \<in> set two_lines" "restoreLineEndings two_lines CRLF \<noteq> two_lines" by code_simp+
  then show ?thesis using line_endings_roundtrip[of two_lines CRLF] by simp
qed

theorem preserving_same_base_witness:
  "applyReplacementsPreservingUnchangedLines two_lines two_lines
      [\<lparr>re_matchIndex = 1, re_matchLength = 3, re_newText = js ''-''\<rparr>] = Inr (js ''a-de'')"
proof -
  let ?rs = "[\<lparr>re_matchIndex = 1, re_matchLength = 3, re_newText = js ''-''\<rparr>]"
  have "disjoint_sorted ?rs" by (simp add: disjoint_sorted_def)
  moreover have "\<forall>r \<in> set ?rs. re_matchIndex r < length two_lines \<and> re_end r \<le> length two_lines" by code_simp
  moreover have "applyReplacements two_lines ?rs 0 = js ''a-de''" by code_simp
  ultimately show ?thesis using preserving_same_base[of ?rs two_lines] by simp
qed

section \<open>Divergences\<close>

text \<open>
  A last line of white space alone disappears from the normalised text, so no fuzzy edit of such a file is possible.
\<close>

lemma blank_last_line_rejects:
  "applyEditsToNormalizedContent (\<lambda>s. s) (js ''x '' @ newline @ js ''y'' @ newline @ js ''  '') sample_edits = Inl LineCountDiffers"
  by code_simp

text \<open>Occurrences are counted without overlaps: two possible places, one edit accepted.\<close>

lemma overlapping_occurrences_accepted:
  "applyEditsToNormalizedContent (\<lambda>s. s) (js ''aaa'') [\<lparr>ed_oldText = js ''aa'', ed_newText = js ''b''\<rparr>] =
     Inr (js ''aaa'', js ''ba'')"
  by code_simp

text \<open>An old text that occurs exactly once is refused when another place looks the same once normalised.\<close>

lemma unique_text_refused:
  "applyEditsToNormalizedContent (\<lambda>s. s) (js ''a  '' @ newline @ js ''a'' @ newline) [\<lparr>ed_oldText = js ''a  '', ed_newText = js ''b''\<rparr>] =
     Inl (DuplicateText 0 1 2)"
  by code_simp

end
