(* ===== verification/DiffDisplay.thy ===== *)
theory DiffDisplay
  imports Truncate
begin

text \<open>
  The diff that the edit tool shows (\<open>generateDiffString\<close> of \<open>packages/agent/src/harness/tools/edit-diff.ts\<close>).
  The parts come from the \<open>diff\<close> package (\<open>Diff.diffLines\<close>) and are an argument; \<open>line_diff\<close> states what the
  package documents of them.
\<close>

section \<open>The display\<close>

record diff_part =
  pt_added :: bool
  pt_removed :: bool
  pt_value :: jstr

text \<open>A line of the display, with its number, before it is turned into text.\<close>

datatype diff_line = AddedLine nat jstr | RemovedLine nat jstr | ContextLine nat jstr | Ellipsis

definition padStart :: "jstr \<Rightarrow> nat \<Rightarrow> jstr" where
  "padStart t width = replicate (width - length t) 32 @ t"

fun diff_line_text :: "nat \<Rightarrow> diff_line \<Rightarrow> jstr" where
  "diff_line_text width (AddedLine n l) = js ''+'' @ padStart (nat_text n) width @ js '' '' @ l"
| "diff_line_text width (RemovedLine n l) = js ''-'' @ padStart (nat_text n) width @ js '' '' @ l"
| "diff_line_text width (ContextLine n l) = js '' '' @ padStart (nat_text n) width @ js '' '' @ l"
| "diff_line_text width Ellipsis = js '' '' @ padStart [] width @ js '' ...''"

record diff_state =
  ds_output :: "diff_line list"
  ds_oldLineNum :: nat
  ds_newLineNum :: nat
  ds_lastWasChange :: bool
  ds_firstChangedLine :: "nat option"

definition raw_lines :: "jstr \<Rightarrow> jstr list" where
  "raw_lines v = (let raw = split_newlines v in if last raw = [] then butlast raw else raw)"

fun numbered :: "(nat \<Rightarrow> jstr \<Rightarrow> diff_line) \<Rightarrow> nat \<Rightarrow> jstr list \<Rightarrow> diff_line list" where
  "numbered f n [] = []"
| "numbered f n (l # ls) = f n l # numbered f (Suc n) ls"

definition show_change :: "diff_part \<Rightarrow> diff_state \<Rightarrow> diff_state" where
  "show_change p st =
     (let raw = raw_lines (pt_value p);
          st1 = st\<lparr>ds_firstChangedLine :=
            (if ds_firstChangedLine st = None then Some (ds_newLineNum st) else ds_firstChangedLine st),
            ds_lastWasChange := True\<rparr>
      in if pt_added p
         then st1\<lparr>ds_output := ds_output st @ numbered AddedLine (ds_newLineNum st) raw,
           ds_newLineNum := ds_newLineNum st + length raw\<rparr>
         else st1\<lparr>ds_output := ds_output st @ numbered RemovedLine (ds_oldLineNum st) raw,
           ds_oldLineNum := ds_oldLineNum st + length raw\<rparr>)"

text \<open>Context lines that are shown, and lines that are skipped, advance both numbers.\<close>

definition show_context :: "jstr list \<Rightarrow> diff_state \<Rightarrow> diff_state" where
  "show_context ls st = st\<lparr>ds_output := ds_output st @ numbered ContextLine (ds_oldLineNum st) ls,
     ds_oldLineNum := ds_oldLineNum st + length ls, ds_newLineNum := ds_newLineNum st + length ls\<rparr>"

definition skip_lines :: "nat \<Rightarrow> diff_state \<Rightarrow> diff_state" where
  "skip_lines n st = st\<lparr>ds_oldLineNum := ds_oldLineNum st + n, ds_newLineNum := ds_newLineNum st + n\<rparr>"

definition show_ellipsis :: "nat \<Rightarrow> diff_state \<Rightarrow> diff_state" where
  "show_ellipsis n st = skip_lines n (st\<lparr>ds_output := ds_output st @ [Ellipsis]\<rparr>)"

definition context_part :: "nat \<Rightarrow> bool \<Rightarrow> diff_part \<Rightarrow> diff_state \<Rightarrow> diff_state" where
  "context_part contextLines nextPartIsChange p st =
     (let raw = raw_lines (pt_value p); n = length raw; leading = ds_lastWasChange st;
          st' = (if leading \<and> nextPartIsChange then
              (if n \<le> contextLines * 2 then show_context raw st
               else show_context (drop (n - contextLines) raw)
                 (show_ellipsis (n - contextLines - contextLines) (show_context (take contextLines raw) st)))
            else if leading then
              (let shown = take contextLines raw; skipped = n - length shown; st1 = show_context shown st
               in if 0 < skipped then show_ellipsis skipped st1 else st1)
            else if nextPartIsChange then
              (let skipped = n - contextLines
               in show_context (drop skipped raw) (if 0 < skipped then show_ellipsis skipped st else st))
            else skip_lines n st)
      in st'\<lparr>ds_lastWasChange := False\<rparr>)"

abbreviation is_change :: "diff_part \<Rightarrow> bool" where
  "is_change p \<equiv> pt_added p \<or> pt_removed p"

fun diff_loop :: "nat \<Rightarrow> diff_part list \<Rightarrow> diff_state \<Rightarrow> diff_state" where
  "diff_loop contextLines [] st = st"
| "diff_loop contextLines (p # ps) st =
     diff_loop contextLines ps
       (if is_change p then show_change p st
        else context_part contextLines (ps \<noteq> [] \<and> is_change (hd ps)) p st)"

definition initial_diff_state :: diff_state where
  "initial_diff_state = \<lparr>ds_output = [], ds_oldLineNum = 1, ds_newLineNum = 1, ds_lastWasChange = False,
     ds_firstChangedLine = None\<rparr>"

definition generateDiffString ::
    "(jstr \<Rightarrow> jstr \<Rightarrow> diff_part list) \<Rightarrow> jstr \<Rightarrow> jstr \<Rightarrow> nat \<Rightarrow> jstr \<times> nat option" where
  "generateDiffString diffLines old new contextLines =
     (let parts = diffLines old new;
          width = length (nat_text (max (length (split_newlines old)) (length (split_newlines new))));
          st = diff_loop contextLines parts initial_diff_state
      in (join_text newline (map (diff_line_text width) (ds_output st)), ds_firstChangedLine st))"

section \<open>What it shows\<close>

text \<open>The parts that are not added have the lines of the old text, those not removed the lines of the new.\<close>

definition line_diff :: "diff_part list \<Rightarrow> jstr \<Rightarrow> jstr \<Rightarrow> bool" where
  "line_diff parts old new \<longleftrightarrow>
     list_all (\<lambda>p. \<not> (pt_added p \<and> pt_removed p)) parts \<and>
     concat (map (raw_lines \<circ> pt_value) (filter (\<lambda>p. \<not> pt_added p) parts)) = splitLinesForCounting old \<and>
     concat (map (raw_lines \<circ> pt_value) (filter (\<lambda>p. \<not> pt_removed p) parts)) = splitLinesForCounting new"

text \<open>A numbered line is that line of its text.\<close>

fun right_line :: "jstr list \<Rightarrow> jstr list \<Rightarrow> diff_line \<Rightarrow> bool" where
  "right_line os ns (AddedLine n l) \<longleftrightarrow> 1 \<le> n \<and> nth_opt ns (n - 1) = Some l"
| "right_line os ns (RemovedLine n l) \<longleftrightarrow> 1 \<le> n \<and> nth_opt os (n - 1) = Some l"
| "right_line os ns (ContextLine n l) \<longleftrightarrow> 1 \<le> n \<and> nth_opt os (n - 1) = Some l"
| "right_line os ns Ellipsis \<longleftrightarrow> True"

fun change_of :: "diff_line \<Rightarrow> (bool \<times> jstr) option" where
  "change_of (AddedLine n l) = Some (True, l)"
| "change_of (RemovedLine n l) = Some (False, l)"
| "change_of d = None"

text \<open>The changed lines of a part, in the order they are shown.\<close>

definition part_changes :: "diff_part \<Rightarrow> (bool \<times> jstr) list" where
  "part_changes p = (if is_change p then map (Pair (pt_added p)) (raw_lines (pt_value p)) else [])"

definition old_lines :: "diff_part list \<Rightarrow> jstr list" where
  "old_lines ps = concat (map (raw_lines \<circ> pt_value) (filter (\<lambda>p. \<not> pt_added p) ps))"

definition new_lines :: "diff_part list \<Rightarrow> jstr list" where
  "new_lines ps = concat (map (raw_lines \<circ> pt_value) (filter (\<lambda>p. \<not> pt_removed p) ps))"

text \<open>The state before the lines that follow \<open>xs\<close> in the old and \<open>ys\<close> in the new text.\<close>

definition shown_to :: "jstr list \<Rightarrow> jstr list \<Rightarrow> jstr list \<Rightarrow> jstr list \<Rightarrow> (bool \<times> jstr) list \<Rightarrow> diff_state \<Rightarrow> bool" where
  "shown_to os ns xs ys cs st \<longleftrightarrow>
     list_all (right_line os ns) (ds_output st) \<and> some_of change_of (ds_output st) = cs \<and>
     ds_oldLineNum st = Suc (length xs) \<and> ds_newLineNum st = Suc (length ys)"

lemma numbered_right:
  assumes "\<And>i. i < length ls \<Longrightarrow> right_line os ns (f (n + i) (ls ! i))"
  shows "list_all (right_line os ns) (numbered f n ls)"
  using assms
proof (induction ls arbitrary: n)
  case (Cons l ls)
  have "right_line os ns (f (Suc n + i) (ls ! i))" if "i < length ls" for i using Cons.prems[of "Suc i"] that by simp
  then show ?case using Cons.IH[of "Suc n"] Cons.prems[of 0] by simp
qed simp

lemma changes_numbered:
  "some_of change_of (numbered AddedLine n ls) = map (Pair True) ls"
  "some_of change_of (numbered RemovedLine n ls) = map (Pair False) ls"
  "some_of change_of (numbered ContextLine n ls) = []"
  by (induction ls arbitrary: n) (simp_all add: some_of_def)

lemma some_of_append: "some_of f (xs @ ys) = some_of f xs @ some_of f ys"
  by (simp add: some_of_def map_filter_def)

lemma show_context_to:
  assumes "shown_to os ns xs ys cs st" "os = xs @ ls @ zs"
  shows "shown_to os ns (xs @ ls) (ys @ ls) cs (show_context ls st)"
proof -
  have "list_all (right_line os ns) (numbered ContextLine (Suc (length xs)) ls)"
    using assms(2) by (intro numbered_right) (simp add: nth_append)
  then show ?thesis using assms(1) by (simp add: shown_to_def show_context_def some_of_append changes_numbered)
qed

lemma some_of_Ellipsis: "some_of change_of [Ellipsis] = []"
  by (simp add: some_of_def)

lemma skip_lines_to:
  assumes "shown_to os ns xs ys cs st" "n = length ls"
  shows "shown_to os ns (xs @ ls) (ys @ ls) cs (skip_lines n st)"
    "shown_to os ns (xs @ ls) (ys @ ls) cs (show_ellipsis n st)"
  using assms by (simp_all add: shown_to_def skip_lines_def show_ellipsis_def some_of_append some_of_Ellipsis)

lemma context_part_to:
  assumes st: "shown_to os ns xs ys cs st" and os: "os = xs @ raw_lines (pt_value p) @ zs"
  shows "shown_to os ns (xs @ raw_lines (pt_value p)) (ys @ raw_lines (pt_value p)) cs (context_part c b p st)"
proof -
  let ?raw = "raw_lines (pt_value p)"
  let ?n = "length ?raw"
  have all: "shown_to os ns (xs @ ?raw) (ys @ ?raw) cs (show_context ?raw st)" by (rule show_context_to[OF st os])
  have part: "?raw = take k ?raw @ drop k ?raw" for k by simp
  have two: "shown_to os ns (xs @ ?raw) (ys @ ?raw) cs
      (show_context (drop (?n - c) ?raw) (show_ellipsis (?n - c - c) (show_context (take c ?raw) st)))" if "\<not> ?n \<le> c * 2"
  proof -
    let ?m = "take (?n - c - c) (drop c ?raw)"
    have raw: "?raw = take c ?raw @ ?m @ drop (?n - c) ?raw"
      using that append_take_drop_id[of "?n - c - c" "drop c ?raw"] append_take_drop_id[of c ?raw] by simp
    have "shown_to os ns (xs @ take c ?raw) (ys @ take c ?raw) cs (show_context (take c ?raw) st)"
      by (rule show_context_to[OF st, where zs = "drop c ?raw @ zs"]) (simp add: os)
    from skip_lines_to(2)[OF this, of "?n - c - c" ?m]
    have "shown_to os ns ((xs @ take c ?raw) @ ?m) ((ys @ take c ?raw) @ ?m) cs
        (show_ellipsis (?n - c - c) (show_context (take c ?raw) st))" using that by simp
    from show_context_to[OF this, of "drop (?n - c) ?raw" zs] show ?thesis using raw os by (metis append.assoc)
  qed
  have lead: "shown_to os ns (xs @ ?raw) (ys @ ?raw) cs
      (if 0 < ?n - length (take c ?raw) then show_ellipsis (?n - length (take c ?raw)) (show_context (take c ?raw) st)
       else show_context (take c ?raw) st)"
  proof -
    have s: "shown_to os ns (xs @ take c ?raw) (ys @ take c ?raw) cs (show_context (take c ?raw) st)"
      by (rule show_context_to[OF st, where zs = "drop c ?raw @ zs"]) (simp add: os)
    have l: "?n - length (take c ?raw) = length (drop c ?raw)" unfolding length_take length_drop by linarith
    from skip_lines_to(2)[OF s l]
    have "shown_to os ns (xs @ ?raw) (ys @ ?raw) cs (show_ellipsis (?n - length (take c ?raw)) (show_context (take c ?raw) st))"
      by simp
    then show ?thesis using s by auto
  qed
  have trail: "shown_to os ns (xs @ ?raw) (ys @ ?raw) cs
      (show_context (drop (?n - c) ?raw) (if 0 < ?n - c then show_ellipsis (?n - c) st else st))"
  proof -
    have "shown_to os ns (xs @ take (?n - c) ?raw) (ys @ take (?n - c) ?raw) cs
        (if 0 < ?n - c then show_ellipsis (?n - c) st else st)"
      using skip_lines_to(2)[OF st, of "?n - c" "take (?n - c) ?raw"] st by auto
    from show_context_to[OF this, of "drop (?n - c) ?raw" zs] show ?thesis using os by simp
  qed
  have skip: "shown_to os ns (xs @ ?raw) (ys @ ?raw) cs (skip_lines ?n st)" by (rule skip_lines_to(1)[OF st refl])
  show ?thesis
    using all two lead trail skip unfolding context_part_def Let_def
    by (simp add: shown_to_def split del: if_split) (auto split: if_splits)
qed

lemma show_change_to:
  assumes st: "shown_to os ns xs ys cs st" and p: "is_change p" "\<not> (pt_added p \<and> pt_removed p)"
    and os: "os = xs @ old_lines [p] @ zs" and ns: "ns = ys @ new_lines [p] @ ws"
  shows "shown_to os ns (xs @ old_lines [p]) (ys @ new_lines [p]) (cs @ part_changes p) (show_change p st)"
proof (cases "pt_added p")
  case True
  then have "list_all (right_line os ns) (numbered AddedLine (Suc (length ys)) (raw_lines (pt_value p)))"
    using ns p(2) by (intro numbered_right) (simp add: new_lines_def nth_append)
  then show ?thesis using True p st
    by (simp add: shown_to_def show_change_def Let_def old_lines_def new_lines_def part_changes_def some_of_append changes_numbered)
next
  case False
  then have "list_all (right_line os ns) (numbered RemovedLine (Suc (length xs)) (raw_lines (pt_value p)))"
    using os by (intro numbered_right) (simp add: old_lines_def nth_append)
  then show ?thesis using False p st
    by (simp add: shown_to_def show_change_def Let_def old_lines_def new_lines_def part_changes_def some_of_append changes_numbered)
qed

lemma diff_lines_append: "old_lines (ps @ qs) = old_lines ps @ old_lines qs" "new_lines (ps @ qs) = new_lines ps @ new_lines qs"
  by (simp_all add: old_lines_def new_lines_def)

lemma kept_lines: "\<not> is_change p \<Longrightarrow> old_lines [p] = raw_lines (pt_value p) \<and> new_lines [p] = raw_lines (pt_value p)"
  by (simp add: old_lines_def new_lines_def)

text \<open>The first changed line: until there is one both texts agree, and it stands behind the common lines.\<close>

definition first_change_ok :: "jstr list \<Rightarrow> jstr list \<Rightarrow> jstr list \<Rightarrow> jstr list \<Rightarrow> nat option \<Rightarrow> bool" where
  "first_change_ok os ns xs ys first \<longleftrightarrow>
     (case first of None \<Rightarrow> xs = ys
      | Some k \<Rightarrow> 1 \<le> k \<and> k - 1 \<le> length os \<and> k - 1 \<le> length ns \<and> take (k - 1) os = take (k - 1) ns)"

lemma context_part_first: "ds_firstChangedLine (context_part c b p st) = ds_firstChangedLine st"
  by (simp add: context_part_def Let_def show_context_def skip_lines_def show_ellipsis_def)

lemma diff_loop_to:
  assumes "shown_to os ns (old_lines ps) (new_lines ps) (concat (map part_changes ps)) st"
    and "first_change_ok os ns (old_lines ps) (new_lines ps) (ds_firstChangedLine st)"
    and "list_all (\<lambda>p. \<not> (pt_added p \<and> pt_removed p)) qs" "os = old_lines (ps @ qs)" "ns = new_lines (ps @ qs)"
  shows "shown_to os ns os ns (concat (map part_changes (ps @ qs))) (diff_loop c qs st) \<and>
    first_change_ok os ns os ns (ds_firstChangedLine (diff_loop c qs st))"
  using assms
proof (induction qs arbitrary: ps st)
  case (Cons p qs)
  define st' where "st' = (if is_change p then show_change p st else context_part c (qs \<noteq> [] \<and> is_change (hd qs)) p st)"
  have os: "os = old_lines ps @ old_lines [p] @ old_lines qs" "ns = new_lines ps @ new_lines [p] @ new_lines qs"
    using Cons.prems(4,5) diff_lines_append[of ps "[p] @ qs"] diff_lines_append[of "[p]" qs] by simp_all
  have to: "shown_to os ns (old_lines (ps @ [p])) (new_lines (ps @ [p])) (concat (map part_changes (ps @ [p]))) st'"
  proof (cases "is_change p")
    case True
    then show ?thesis using show_change_to[OF Cons.prems(1) True _ os] Cons.prems(3) by (simp add: st'_def diff_lines_append)
  next
    case False
    then have "part_changes p = []" by (simp add: part_changes_def)
    then show ?thesis
      using context_part_to[OF Cons.prems(1), of p "old_lines qs"] os(1) kept_lines[OF False] False
      by (simp add: st'_def diff_lines_append)
  qed
  have "first_change_ok os ns (old_lines (ps @ [p])) (new_lines (ps @ [p])) (ds_firstChangedLine st')"
  proof (cases "is_change p")
    case True
    have "ds_newLineNum st = Suc (length (new_lines ps))" using Cons.prems(1) by (simp add: shown_to_def)
    moreover have "take (length (new_lines ps)) os = take (length (new_lines ps)) ns" "length (new_lines ps) \<le> length os"
      if "old_lines ps = new_lines ps" using os that by simp_all
    ultimately show ?thesis
      using Cons.prems(2) True os(2) by (auto simp: st'_def show_change_def Let_def first_change_ok_def split: option.splits)
  next
    case False
    then show ?thesis using Cons.prems(2) kept_lines[OF False]
      by (simp add: st'_def context_part_first first_change_ok_def diff_lines_append split: option.splits)
  qed
  from Cons.IH[OF to this] Cons.prems(3-5) show ?case by (simp add: st'_def)
qed simp

text \<open>
  The display of a diff is right: its lines carry the numbers they have in the old text (kept and removed lines) or
  the new one (added lines), every removed and added line is shown, in order, and the first changed line is the
  first after lines that both texts have in common; there is none only when they have the same lines.
\<close>
theorem diff_display_right:
  assumes "line_diff (diffLines old new) old new"
  shows "\<exists>out width. fst (generateDiffString diffLines old new c) = join_text newline (map (diff_line_text width) out) \<and>
    list_all (right_line (splitLinesForCounting old) (splitLinesForCounting new)) out \<and>
    some_of change_of out = concat (map part_changes (diffLines old new)) \<and>
    (case snd (generateDiffString diffLines old new c) of
       None \<Rightarrow> splitLinesForCounting old = splitLinesForCounting new
     | Some k \<Rightarrow> 1 \<le> k \<and> take (k - 1) (splitLinesForCounting old) = take (k - 1) (splitLinesForCounting new))"
proof -
  let ?st = "diff_loop c (diffLines old new) initial_diff_state"
  let ?os = "splitLinesForCounting old" and ?ns = "splitLinesForCounting new"
  have d: "list_all (\<lambda>p. \<not> (pt_added p \<and> pt_removed p)) (diffLines old new)"
    "?os = old_lines ([] @ diffLines old new)" "?ns = new_lines ([] @ diffLines old new)"
    using assms by (simp_all add: line_diff_def old_lines_def new_lines_def)
  have "shown_to ?os ?ns (old_lines []) (new_lines []) (concat (map part_changes [])) initial_diff_state"
    "first_change_ok ?os ?ns (old_lines []) (new_lines []) (ds_firstChangedLine initial_diff_state)"
    by (simp_all add: shown_to_def initial_diff_state_def some_of_def old_lines_def new_lines_def first_change_ok_def)
  from diff_loop_to[OF this d, of c] have st: "shown_to ?os ?ns ?os ?ns (concat (map part_changes (diffLines old new))) ?st"
    "first_change_ok ?os ?ns ?os ?ns (ds_firstChangedLine ?st)" by simp_all
  show ?thesis unfolding generateDiffString_def Let_def fst_conv snd_conv
    by (intro exI[of _ "ds_output ?st"] exI conjI, rule refl)
      (use st in \<open>auto simp: shown_to_def first_change_ok_def split: option.splits\<close>)
qed

definition sample_parts :: "diff_part list" where
  "sample_parts =
     [\<lparr>pt_added = False, pt_removed = False, pt_value = js ''a'' @ newline\<rparr>,
      \<lparr>pt_added = False, pt_removed = True, pt_value = js ''b'' @ newline\<rparr>,
      \<lparr>pt_added = True, pt_removed = False, pt_value = js ''c'' @ newline\<rparr>]"

theorem diff_display_right_witness:
  "fst (generateDiffString (\<lambda>_ _. sample_parts) (js ''a'' @ newline @ js ''b'' @ newline) (js ''a'' @ newline @ js ''c'' @ newline) 4) =
     js '' 1 a'' @ newline @ js ''-2 b'' @ newline @ js ''+2 c'' \<and>
   (\<exists>out. some_of change_of out = [(False, js ''b''), (True, js ''c'')] \<and> list_all
     (right_line [js ''a'', js ''b''] [js ''a'', js ''c'']) out)"
proof -
  let ?o = "js ''a'' @ newline @ js ''b'' @ newline" and ?n = "js ''a'' @ newline @ js ''c'' @ newline"
  have "line_diff sample_parts ?o ?n" by code_simp
  from diff_display_right[where diffLines = "\<lambda>_ _. sample_parts", OF this, of 4]
  have "\<exists>out. some_of change_of out = concat (map part_changes sample_parts) \<and>
    list_all (right_line (splitLinesForCounting ?o) (splitLinesForCounting ?n)) out" by blast
  moreover have "concat (map part_changes sample_parts) = [(False, js ''b''), (True, js ''c'')]"
    "splitLinesForCounting ?o = [js ''a'', js ''b'']" "splitLinesForCounting ?n = [js ''a'', js ''c'']" by code_simp+
  moreover have "fst (generateDiffString (\<lambda>_ _. sample_parts) ?o ?n 4) =
    js '' 1 a'' @ newline @ js ''-2 b'' @ newline @ js ''+2 c''" by code_simp
  ultimately show ?thesis by simp
qed

end
