(* ===== verification/MessageFrames.thy ===== *)
theory MessageFrames
  imports JsonText
begin

text \<open>
  The compact replayable progress of an assistant message (\<open>packages/ai/src/utils/assistant-message-frame.ts\<close>):
  an encoder from stream events to frames and the reducer that replays them. \<open>ser\<close> is \<open>JSON.stringify\<close>
  (\<open>json_text\<close>) and \<open>parse\<close> the tolerant parser of partial JSON (\<open>parseStreamingJson\<close> of \<open>JsonRepair\<close>).
\<close>

section \<open>Messages, events and frames\<close>

record tool_call =
  tc_id :: jstr
  tc_name :: jstr
  tc_arguments :: json
  tc_thoughtSignature :: "jstr option"
  tc_namespace :: "jstr option"

datatype stream_block =
    TextContent jstr "jstr option"
  | ThinkingContent jstr "jstr option" "bool option"
  | ToolCall tool_call

text \<open>The fields after the time stamp are those that only a finished message has.\<close>

record stream_message =
  sm_content :: "stream_block list"
  sm_api :: jstr
  sm_provider :: jstr
  sm_model :: jstr
  sm_responseModel :: "jstr option"
  sm_responseId :: "jstr option"
  sm_providerThinkingLevel :: "jstr option"
  sm_diagnostics :: "json option"
  sm_usage :: "number usage"
  sm_stopReason :: stop_reason
  sm_timestamp :: int
  sm_deferred :: "json option"
  sm_errorMessage :: "jstr option"
  sm_rawStopReason :: "jstr option"
  sm_endTurn :: "bool option"

datatype stream_event =
    StartEvent stream_message
  | TextStartEvent int stream_message
  | TextDeltaEvent int jstr
  | TextEndEvent int jstr stream_message
  | ThinkingStartEvent int stream_message
  | ThinkingDeltaEvent int jstr
  | ThinkingEndEvent int jstr stream_message
  | ToolCallStartEvent int stream_message
  | ToolCallDeltaEvent int jstr
  | ToolCallEndEvent int tool_call stream_message
  | DoneEvent
  | ErrorEvent

datatype frame =
    StartFrame stream_message
  | TextStartFrame int jstr "jstr option"
  | TextDeltaFrame int jstr
  | TextEndFrame int jstr "jstr option"
  | ThinkingStartFrame int jstr "jstr option" "bool option"
  | ThinkingDeltaFrame int jstr
  | ThinkingEndFrame int jstr "jstr option" "bool option"
  | ToolCallStartFrame int tool_call
  | ToolCallCheckpointFrame int jstr
  | ToolCallDeltaFrame int jstr
  | ToolCallEndFrame int tool_call

datatype block_kind = TextKind | ThinkingKind | ToolCallKind

datatype frame_error =
    AfterTerminal | SecondStart | BeforeStart | InvalidIndex int | NoContentBlock int | WrongBlock int
  | StartsTwice int | NotStarted int | WrongKind int
  | FrameBeforeStart | BlockExists int | BlockGap int | NoStartedBlock int | UnexpectedBlock int | BlockEnded int

definition cloneStartMessage :: "stream_message \<Rightarrow> stream_message" where
  "cloneStartMessage m = m\<lparr>sm_content := [], sm_stopReason := PendingStop, sm_deferred := None,
     sm_errorMessage := None, sm_rawStopReason := None, sm_endTurn := None\<rparr>"

definition assertContentIndex :: "int \<Rightarrow> frame_error + unit" where
  "assertContentIndex i = guardE (0 \<le> i \<and> i \<le> MAX_SAFE_INTEGER) (InvalidIndex i)"

definition eventBlock :: "int \<Rightarrow> stream_message \<Rightarrow> frame_error + stream_block" where
  "eventBlock i partial =
     bindE (assertContentIndex i) (\<lambda>_.
       case nth_opt (sm_content partial) (nat i) of None \<Rightarrow> Inl (NoContentBlock i) | Some b \<Rightarrow> Inr b)"

section \<open>Prefixes of JSON values\<close>

function isJsonPrefix :: "json \<Rightarrow> json \<Rightarrow> bool" where
  "isJsonPrefix (JStr s) c = (case c of JStr t \<Rightarrow> take (length s) t = s | _ \<Rightarrow> False)"
| "isJsonPrefix (JArr xs) c =
     (case c of
        JArr ys \<Rightarrow> length xs \<le> length ys \<and> list_all (\<lambda>i. isJsonPrefix (xs ! i) (ys ! i)) [0..<length xs]
      | _ \<Rightarrow> False)"
| "isJsonPrefix JNull c = (c = JNull)"
| "isJsonPrefix (JBool b) c = (c = JBool b)"
| "isJsonPrefix (JNum x) c = (c = JNum x)"
| "isJsonPrefix (JObj ps) c =
     (case c of
        JObj qs \<Rightarrow> list_all (\<lambda>kv. case map_of qs (fst kv) of None \<Rightarrow> False | Some w \<Rightarrow> isJsonPrefix (snd kv) w) ps
      | _ \<Rightarrow> False)"
  by pat_completeness auto
termination by (relation "measure (size \<circ> fst)") (auto intro: json_size)

section \<open>The encoder\<close>

datatype encoder_block =
    TextState block_kind nat nat
  | CallState bool jstr jstr

fun state_kind :: "encoder_block \<Rightarrow> block_kind" where
  "state_kind (TextState k covered n) = k"
| "state_kind (CallState c j a) = ToolCallKind"

record encoder =
  en_started :: bool
  en_terminal :: bool
  en_blocks :: "int \<rightharpoonup> encoder_block"

definition new_encoder :: encoder where
  "new_encoder = \<lparr>en_started = False, en_terminal = False, en_blocks = Map.empty\<rparr>"

definition startBlock :: "int \<Rightarrow> encoder_block \<Rightarrow> encoder \<Rightarrow> frame_error + encoder" where
  "startBlock i b e =
     bindE (assertContentIndex i) (\<lambda>_.
     bindE (guardE (en_blocks e i = None) (StartsTwice i)) (\<lambda>_.
       Inr (e\<lparr>en_blocks := (en_blocks e)(i \<mapsto> b)\<rparr>)))"

definition block_of :: "int \<Rightarrow> block_kind \<Rightarrow> encoder \<Rightarrow> frame_error + encoder_block" where
  "block_of i k e =
     bindE (assertContentIndex i) (\<lambda>_.
       case en_blocks e i of
         None \<Rightarrow> Inl (NotStarted i)
       | Some b \<Rightarrow> bindE (guardE (state_kind b = k) (WrongKind i)) (\<lambda>_. Inr b))"

definition endBlock :: "int \<Rightarrow> block_kind \<Rightarrow> encoder \<Rightarrow> frame_error + encoder" where
  "endBlock i k e = bindE (block_of i k e) (\<lambda>_. Inr (e\<lparr>en_blocks := (en_blocks e)(i := None)\<rparr>))"

text \<open>The part of a delta that the snapshot at the start does not contain yet.\<close>

definition encodeTextDelta :: "int \<Rightarrow> jstr \<Rightarrow> block_kind \<Rightarrow> encoder \<Rightarrow> frame_error + frame option \<times> encoder" where
  "encodeTextDelta i delta k e =
     bindE (block_of i k e) (\<lambda>b.
       case b of
         CallState c j a \<Rightarrow> Inl (WrongKind i)
       | TextState k' coveredChars deltaChars \<Rightarrow>
           (let e' = e\<lparr>en_blocks := (en_blocks e)(i \<mapsto> TextState k' coveredChars (deltaChars + length delta))\<rparr>;
                covered = coveredChars - deltaChars
            in Inr (if length delta \<le> covered then None
                    else Some ((if k = TextKind then TextDeltaFrame else ThinkingDeltaFrame) i (drop covered delta)), e')))"

text \<open>A delta of a tool call's JSON: until it has caught up with the snapshot nothing is sent.\<close>

definition caught_up :: "(json \<Rightarrow> jstr) \<Rightarrow> (jstr \<Rightarrow> json) \<Rightarrow> jstr \<Rightarrow> jstr \<Rightarrow> bool" where
  "caught_up ser parse snapshotArguments json \<longleftrightarrow>
     ser (parse json) = snapshotArguments \<or> isJsonPrefix (parse snapshotArguments) (parse json)"

definition encodeCallDelta ::
    "(json \<Rightarrow> jstr) \<Rightarrow> (jstr \<Rightarrow> json) \<Rightarrow> int \<Rightarrow> jstr \<Rightarrow> encoder \<Rightarrow> frame_error + frame option \<times> encoder" where
  "encodeCallDelta ser parse i delta e =
     bindE (block_of i ToolCallKind e) (\<lambda>b.
       case b of
         TextState k c n \<Rightarrow> Inl (WrongKind i)
       | CallState caughtUp catchupJson snapshotArguments \<Rightarrow>
           (if caughtUp then Inr (if delta = [] then None else Some (ToolCallDeltaFrame i delta), e)
            else let json = catchupJson @ delta in
              if caught_up ser parse snapshotArguments json
              then Inr (if json = [] then None else Some (ToolCallCheckpointFrame i json),
                e\<lparr>en_blocks := (en_blocks e)(i \<mapsto> CallState True [] [])\<rparr>)
              else Inr (None, e\<lparr>en_blocks := (en_blocks e)(i \<mapsto> CallState False json snapshotArguments)\<rparr>)))"

fun encode_block ::
    "(json \<Rightarrow> jstr) \<Rightarrow> (jstr \<Rightarrow> json) \<Rightarrow> stream_event \<Rightarrow> encoder \<Rightarrow> frame_error + frame option \<times> encoder" where
  "encode_block ser parse (TextStartEvent i partial) e =
     bindE (eventBlock i partial) (\<lambda>b.
       case b of
         TextContent t sig \<Rightarrow>
           bindE (startBlock i (TextState TextKind (length t) 0) e) (\<lambda>e'. Inr (Some (TextStartFrame i t sig), e'))
       | _ \<Rightarrow> Inl (WrongBlock i))"
| "encode_block ser parse (TextDeltaEvent i delta) e = encodeTextDelta i delta TextKind e"
| "encode_block ser parse (TextEndEvent i content partial) e =
     bindE (eventBlock i partial) (\<lambda>b.
       case b of
         TextContent t sig \<Rightarrow> bindE (endBlock i TextKind e) (\<lambda>e'. Inr (Some (TextEndFrame i content sig), e'))
       | _ \<Rightarrow> Inl (WrongBlock i))"
| "encode_block ser parse (ThinkingStartEvent i partial) e =
     bindE (eventBlock i partial) (\<lambda>b.
       case b of
         ThinkingContent t sig red \<Rightarrow>
           bindE (startBlock i (TextState ThinkingKind (length t) 0) e)
             (\<lambda>e'. Inr (Some (ThinkingStartFrame i t sig red), e'))
       | _ \<Rightarrow> Inl (WrongBlock i))"
| "encode_block ser parse (ThinkingDeltaEvent i delta) e = encodeTextDelta i delta ThinkingKind e"
| "encode_block ser parse (ThinkingEndEvent i content partial) e =
     bindE (eventBlock i partial) (\<lambda>b.
       case b of
         ThinkingContent t sig red \<Rightarrow>
           bindE (endBlock i ThinkingKind e) (\<lambda>e'. Inr (Some (ThinkingEndFrame i content sig red), e'))
       | _ \<Rightarrow> Inl (WrongBlock i))"
| "encode_block ser parse (ToolCallStartEvent i partial) e =
     bindE (eventBlock i partial) (\<lambda>b.
       case b of
         ToolCall c \<Rightarrow>
           (let snapshotArguments = ser (tc_arguments c); caughtUp = (snapshotArguments = ser (parse []))
            in bindE (startBlock i (CallState caughtUp [] (if caughtUp then [] else snapshotArguments)) e)
                 (\<lambda>e'. Inr (Some (ToolCallStartFrame i c), e')))
       | _ \<Rightarrow> Inl (WrongBlock i))"
| "encode_block ser parse (ToolCallDeltaEvent i delta) e = encodeCallDelta ser parse i delta e"
| "encode_block ser parse (ToolCallEndEvent i c partial) e =
     bindE (eventBlock i partial) (\<lambda>b.
       case b of
         ToolCall c' \<Rightarrow> bindE (endBlock i ToolCallKind e) (\<lambda>e'. Inr (Some (ToolCallEndFrame i c), e'))
       | _ \<Rightarrow> Inl (WrongBlock i))"
| "encode_block ser parse ev e = Inr (None, e)"

definition encode ::
    "(json \<Rightarrow> jstr) \<Rightarrow> (jstr \<Rightarrow> json) \<Rightarrow> stream_event \<Rightarrow> encoder \<Rightarrow> frame_error + frame option \<times> encoder" where
  "encode ser parse ev e =
     bindE (guardE (\<not> en_terminal e) AfterTerminal) (\<lambda>_.
       case ev of
         StartEvent partial \<Rightarrow>
           bindE (guardE (\<not> en_started e) SecondStart) (\<lambda>_.
             Inr (Some (StartFrame (cloneStartMessage partial)), e\<lparr>en_started := True\<rparr>))
       | DoneEvent \<Rightarrow> bindE (guardE (en_started e) BeforeStart) (\<lambda>_. Inr (None, e\<lparr>en_terminal := True\<rparr>))
       | ErrorEvent \<Rightarrow> Inr (None, e\<lparr>en_terminal := True\<rparr>)
       | _ \<Rightarrow> bindE (guardE (en_started e) BeforeStart) (\<lambda>_. encode_block ser parse ev e))"

section \<open>The reducer\<close>

datatype reducer_state = TextReducer bool | ThinkingReducer bool | CallReducer bool jstr

fun reducer_kind :: "reducer_state \<Rightarrow> block_kind" where
  "reducer_kind (TextReducer d) = TextKind"
| "reducer_kind (ThinkingReducer d) = ThinkingKind"
| "reducer_kind (CallReducer d j) = ToolCallKind"

fun reducer_ended :: "reducer_state \<Rightarrow> bool" where
  "reducer_ended (TextReducer d) = d"
| "reducer_ended (ThinkingReducer d) = d"
| "reducer_ended (CallReducer d j) = d"

fun content_kind :: "stream_block \<Rightarrow> block_kind" where
  "content_kind (TextContent t s) = TextKind"
| "content_kind (ThinkingContent t s r) = ThinkingKind"
| "content_kind (ToolCall c) = ToolCallKind"

text \<open>The message under construction and the states, a \<open>Map\<close> in insertion order.\<close>

type_synonym reduction = "stream_message \<times> (int \<times> reducer_state) list"

definition appendBlock :: "int \<Rightarrow> stream_block \<Rightarrow> reducer_state \<Rightarrow> reduction \<Rightarrow> frame_error + reduction" where
  "appendBlock i b st mr =
     (case mr of (m, states) \<Rightarrow>
        bindE (assertContentIndex i) (\<lambda>_.
        bindE (guardE (i = int (length (sm_content m)))
            (if i < int (length (sm_content m)) then BlockExists i else BlockGap i)) (\<lambda>_.
          Inr (m\<lparr>sm_content := sm_content m @ [b]\<rparr>, AList.update i st states))))"

definition activeBlock :: "int \<Rightarrow> block_kind \<Rightarrow> reduction \<Rightarrow> frame_error + stream_block \<times> reducer_state" where
  "activeBlock i k mr =
     (case mr of (m, states) \<Rightarrow>
        bindE (assertContentIndex i) (\<lambda>_.
          case (map_of states i, nth_opt (sm_content m) (nat i)) of
            (Some st, Some b) \<Rightarrow>
              bindE (guardE (reducer_kind st = k \<and> content_kind b = k) (UnexpectedBlock i)) (\<lambda>_.
              bindE (guardE (\<not> reducer_ended st) (BlockEnded i)) (\<lambda>_. Inr (b, st)))
          | _ \<Rightarrow> Inl (NoStartedBlock i)))"

definition set_block :: "int \<Rightarrow> stream_block \<Rightarrow> reducer_state \<Rightarrow> reduction \<Rightarrow> reduction" where
  "set_block i b st mr =
     (case mr of (m, states) \<Rightarrow> (m\<lparr>sm_content := (sm_content m)[nat i := b]\<rparr>, AList.update i st states))"

fun reduce_frame :: "(jstr \<Rightarrow> json) \<Rightarrow> frame \<Rightarrow> reduction \<Rightarrow> frame_error + reduction" where
  "reduce_frame parse (StartFrame p) mr = Inl SecondStart"
| "reduce_frame parse (TextStartFrame i t sig) mr = appendBlock i (TextContent t sig) (TextReducer False) mr"
| "reduce_frame parse (TextDeltaFrame i delta) mr =
     bindE (activeBlock i TextKind mr) (\<lambda>bs.
       case bs of
         (TextContent t sig, st) \<Rightarrow> Inr (set_block i (TextContent (t @ delta) sig) st mr)
       | _ \<Rightarrow> Inl (UnexpectedBlock i))"
| "reduce_frame parse (TextEndFrame i content sig) mr =
     bindE (activeBlock i TextKind mr) (\<lambda>bs. Inr (set_block i (TextContent content sig) (TextReducer True) mr))"
| "reduce_frame parse (ThinkingStartFrame i t sig red) mr =
     appendBlock i (ThinkingContent t sig red) (ThinkingReducer False) mr"
| "reduce_frame parse (ThinkingDeltaFrame i delta) mr =
     bindE (activeBlock i ThinkingKind mr) (\<lambda>bs.
       case bs of
         (ThinkingContent t sig red, st) \<Rightarrow> Inr (set_block i (ThinkingContent (t @ delta) sig red) st mr)
       | _ \<Rightarrow> Inl (UnexpectedBlock i))"
| "reduce_frame parse (ThinkingEndFrame i content sig red) mr =
     bindE (activeBlock i ThinkingKind mr)
       (\<lambda>bs. Inr (set_block i (ThinkingContent content sig red) (ThinkingReducer True) mr))"
| "reduce_frame parse (ToolCallStartFrame i c) mr = appendBlock i (ToolCall c) (CallReducer False []) mr"
| "reduce_frame parse (ToolCallCheckpointFrame i json) mr =
     bindE (activeBlock i ToolCallKind mr) (\<lambda>bs.
       case bs of
         (ToolCall c, CallReducer d j) \<Rightarrow>
           Inr (set_block i (ToolCall (c\<lparr>tc_arguments := parse json\<rparr>)) (CallReducer d json) mr)
       | _ \<Rightarrow> Inl (UnexpectedBlock i))"
| "reduce_frame parse (ToolCallDeltaFrame i delta) mr =
     bindE (activeBlock i ToolCallKind mr) (\<lambda>bs.
       case bs of
         (ToolCall c, CallReducer d j) \<Rightarrow> Inr (set_block i (ToolCall c) (CallReducer d (j @ delta)) mr)
       | _ \<Rightarrow> Inl (UnexpectedBlock i))"
| "reduce_frame parse (ToolCallEndFrame i c) mr =
     bindE (activeBlock i ToolCallKind mr) (\<lambda>bs.
       case bs of
         (b, CallReducer d j) \<Rightarrow> Inr (set_block i (ToolCall c) (CallReducer True j) mr)
       | _ \<Rightarrow> Inl (UnexpectedBlock i))"

text \<open>
  The loop keeps the message, none before the start frame, and whether a frame came before it; such a frame is an
  error only when a start frame follows.
\<close>

definition reduce_step ::
    "(jstr \<Rightarrow> json) \<Rightarrow> reduction option \<times> bool \<Rightarrow> frame \<Rightarrow> frame_error + reduction option \<times> bool" where
  "reduce_step parse s f =
     (case s of (mr, early) \<Rightarrow>
        (case (f, mr) of
           (StartFrame p, None) \<Rightarrow> bindE (guardE (\<not> early) FrameBeforeStart) (\<lambda>_. Inr (Some (p, []), early))
         | (_, None) \<Rightarrow> Inr (None, True)
         | (_, Some r) \<Rightarrow> bindE (reduce_frame parse f r) (\<lambda>r'. Inr (Some r', early))))"

definition finish_call :: "(jstr \<Rightarrow> json) \<Rightarrow> int \<times> reducer_state \<Rightarrow> stream_message \<Rightarrow> stream_message" where
  "finish_call parse is m =
     (case is of
        (i, CallReducer ended json) \<Rightarrow>
          (if ended \<or> json = [] then m
           else case nth_opt (sm_content m) (nat i) of
             Some (ToolCall c) \<Rightarrow> m\<lparr>sm_content := (sm_content m)[nat i := ToolCall (c\<lparr>tc_arguments := parse json\<rparr>)]\<rparr>
           | _ \<Rightarrow> m)
      | _ \<Rightarrow> m)"

definition reduceAssistantMessageFrames :: "(jstr \<Rightarrow> json) \<Rightarrow> frame list \<Rightarrow> frame_error + stream_message option" where
  "reduceAssistantMessageFrames parse frames =
     bindE (foldE (reduce_step parse) (None, False) frames) (\<lambda>s.
       case fst s of None \<Rightarrow> Inr None | Some (m, states) \<Rightarrow> Inr (Some (fold (finish_call parse) states m)))"

end
