(* ===== verification/FrameReplay.thy ===== *)
theory FrameReplay
  imports MessageFrames
begin

text \<open>
  Replaying the frames of a stream gives the message the stream has shown so far. The reference keeps, per block,
  the snapshot at its start, the deltas consumed since and its end; it is defined for the streams of a provider
  that starts its blocks in order and whose snapshots and deltas agree.
\<close>

section \<open>The reference\<close>

datatype live_block =
    LiveText jstr "jstr option" jstr "(jstr \<times> jstr option) option"
  | LiveThinking jstr "jstr option" "bool option" jstr "(jstr \<times> jstr option \<times> bool option) option"
  | LiveCall tool_call jstr bool "tool_call option"

record live =
  lv_message :: "stream_message option"
  lv_blocks :: "live_block list"
  lv_terminal :: bool

text \<open>The live text may be ahead of the deltas consumed, or behind them.\<close>

definition longer :: "jstr \<Rightarrow> jstr \<Rightarrow> jstr" where
  "longer s c = (if length c \<le> length s then s else c)"

definition agree :: "jstr \<Rightarrow> jstr \<Rightarrow> bool" where
  "agree s c \<longleftrightarrow> take (length c) s = take (length s) c"

fun live_view :: "(jstr \<Rightarrow> json) \<Rightarrow> live_block \<Rightarrow> stream_block" where
  "live_view parse (LiveText s sig c None) = TextContent (longer s c) sig"
| "live_view parse (LiveText s sig c (Some (t, sig'))) = TextContent t sig'"
| "live_view parse (LiveThinking s sig red c None) = ThinkingContent (longer s c) sig red"
| "live_view parse (LiveThinking s sig red c (Some (t, sig', red'))) = ThinkingContent t sig' red'"
| "live_view parse (LiveCall a c caught None) =
     ToolCall (if caught \<and> c \<noteq> [] then a\<lparr>tc_arguments := parse c\<rparr> else a)"
| "live_view parse (LiveCall a c caught (Some b)) = ToolCall b"

definition live_at :: "live_block list \<Rightarrow> int \<Rightarrow> live_block option" where
  "live_at bs i = (if 0 \<le> i \<and> i \<le> MAX_SAFE_INTEGER then nth_opt bs (nat i) else None)"

definition partial_block :: "live_block list \<Rightarrow> int \<Rightarrow> stream_message \<Rightarrow> stream_block option" where
  "partial_block bs i p =
     (if i = int (length bs) \<and> i \<le> MAX_SAFE_INTEGER then nth_opt (sm_content p) (nat i) else None)"

fun live_block_step ::
    "(json \<Rightarrow> jstr) \<Rightarrow> (jstr \<Rightarrow> json) \<Rightarrow> stream_event \<Rightarrow> live_block list \<Rightarrow> live_block list option" where
  "live_block_step ser parse (TextStartEvent i p) bs =
     (case partial_block bs i p of
        Some (TextContent t sig) \<Rightarrow> Some (bs @ [LiveText t sig [] None]) | _ \<Rightarrow> None)"
| "live_block_step ser parse (TextDeltaEvent i d) bs =
     (case live_at bs i of
        Some (LiveText s sig c None) \<Rightarrow>
          if agree s (c @ d) then Some (bs[nat i := LiveText s sig (c @ d) None]) else None
      | _ \<Rightarrow> None)"
| "live_block_step ser parse (TextEndEvent i t p) bs =
     (case (live_at bs i, nth_opt (sm_content p) (nat i)) of
        (Some (LiveText s sig c None), Some (TextContent t' sig')) \<Rightarrow> Some (bs[nat i := LiveText s sig c (Some (t, sig'))])
      | _ \<Rightarrow> None)"
| "live_block_step ser parse (ThinkingStartEvent i p) bs =
     (case partial_block bs i p of
        Some (ThinkingContent t sig red) \<Rightarrow> Some (bs @ [LiveThinking t sig red [] None]) | _ \<Rightarrow> None)"
| "live_block_step ser parse (ThinkingDeltaEvent i d) bs =
     (case live_at bs i of
        Some (LiveThinking s sig red c None) \<Rightarrow>
          if agree s (c @ d) then Some (bs[nat i := LiveThinking s sig red (c @ d) None]) else None
      | _ \<Rightarrow> None)"
| "live_block_step ser parse (ThinkingEndEvent i t p) bs =
     (case (live_at bs i, nth_opt (sm_content p) (nat i)) of
        (Some (LiveThinking s sig red c None), Some (ThinkingContent t' sig' red')) \<Rightarrow>
          Some (bs[nat i := LiveThinking s sig red c (Some (t, sig', red'))])
      | _ \<Rightarrow> None)"
| "live_block_step ser parse (ToolCallStartEvent i p) bs =
     (case partial_block bs i p of
        Some (ToolCall a) \<Rightarrow> Some (bs @ [LiveCall a [] (ser (tc_arguments a) = ser (parse [])) None]) | _ \<Rightarrow> None)"
| "live_block_step ser parse (ToolCallDeltaEvent i d) bs =
     (case live_at bs i of
        Some (LiveCall a c caught None) \<Rightarrow>
          Some (bs[nat i := LiveCall a (c @ d) (caught \<or> caught_up ser parse (ser (tc_arguments a)) (c @ d)) None])
      | _ \<Rightarrow> None)"
| "live_block_step ser parse (ToolCallEndEvent i b p) bs =
     (case (live_at bs i, nth_opt (sm_content p) (nat i)) of
        (Some (LiveCall a c caught None), Some (ToolCall a')) \<Rightarrow> Some (bs[nat i := LiveCall a c caught (Some b)])
      | _ \<Rightarrow> None)"
| "live_block_step ser parse ev bs = Some bs"

definition live_step :: "(json \<Rightarrow> jstr) \<Rightarrow> (jstr \<Rightarrow> json) \<Rightarrow> stream_event \<Rightarrow> live \<Rightarrow> live option" where
  "live_step ser parse ev lv =
     (if lv_terminal lv then None
      else case ev of
        StartEvent p \<Rightarrow> (if lv_message lv = None then Some (lv\<lparr>lv_message := Some (cloneStartMessage p)\<rparr>) else None)
      | DoneEvent \<Rightarrow> (if lv_message lv = None then None else Some (lv\<lparr>lv_terminal := True\<rparr>))
      | ErrorEvent \<Rightarrow> Some (lv\<lparr>lv_terminal := True\<rparr>)
      | _ \<Rightarrow> (if lv_message lv = None then None
              else map_option (\<lambda>bs. lv\<lparr>lv_blocks := bs\<rparr>) (live_block_step ser parse ev (lv_blocks lv))))"

fun live_all :: "(json \<Rightarrow> jstr) \<Rightarrow> (jstr \<Rightarrow> json) \<Rightarrow> stream_event list \<Rightarrow> live \<Rightarrow> live option" where
  "live_all ser parse [] lv = Some lv"
| "live_all ser parse (ev # evs) lv =
     (case live_step ser parse ev lv of None \<Rightarrow> None | Some lv' \<Rightarrow> live_all ser parse evs lv')"

definition no_stream :: live where
  "no_stream = \<lparr>lv_message = None, lv_blocks = [], lv_terminal = False\<rparr>"

definition shown :: "(jstr \<Rightarrow> json) \<Rightarrow> live \<Rightarrow> stream_message option" where
  "shown parse lv = map_option (\<lambda>m. m\<lparr>sm_content := map (live_view parse) (lv_blocks lv)\<rparr>) (lv_message lv)"

text \<open>The encoder over a stream.\<close>

fun encode_all ::
    "(json \<Rightarrow> jstr) \<Rightarrow> (jstr \<Rightarrow> json) \<Rightarrow> stream_event list \<Rightarrow> encoder \<Rightarrow> frame_error + frame list \<times> encoder" where
  "encode_all ser parse [] e = Inr ([], e)"
| "encode_all ser parse (ev # evs) e =
     bindE (encode ser parse ev e) (\<lambda>r. case r of (f, e') \<Rightarrow>
       bindE (encode_all ser parse evs e') (\<lambda>s. case s of (fs, e'') \<Rightarrow>
         Inr ((case f of None \<Rightarrow> fs | Some x \<Rightarrow> x # fs), e'')))"

section \<open>The encoder follows the reference\<close>

fun encoder_view :: "(json \<Rightarrow> jstr) \<Rightarrow> live_block \<Rightarrow> encoder_block option" where
  "encoder_view ser (LiveText s sig c None) = Some (TextState TextKind (length s) (length c))"
| "encoder_view ser (LiveThinking s sig red c None) = Some (TextState ThinkingKind (length s) (length c))"
| "encoder_view ser (LiveCall a c caught None) =
     Some (CallState caught (if caught then [] else c) (if caught then [] else ser (tc_arguments a)))"
| "encoder_view ser b = None"

definition encoder_rel :: "(json \<Rightarrow> jstr) \<Rightarrow> encoder \<Rightarrow> live_block list \<Rightarrow> bool" where
  "encoder_rel ser e bs \<longleftrightarrow>
     en_blocks e = (\<lambda>i. if 0 \<le> i \<and> i < int (length bs) then encoder_view ser (bs ! nat i) else None)"

lemma live_at_Some: "live_at bs i = Some b \<Longrightarrow> 0 \<le> i \<and> i \<le> MAX_SAFE_INTEGER \<and> nat i < length bs \<and> bs ! nat i = b"
  by (auto simp: live_at_def nth_opt_eq_Some split: if_splits)

lemma encoder_rel_at: "encoder_rel ser e bs \<Longrightarrow> live_at bs i = Some b \<Longrightarrow> en_blocks e i = encoder_view ser b"
  by (drule live_at_Some) (auto simp: encoder_rel_def)

lemma encoder_rel_update:
  assumes "encoder_rel ser e bs" "live_at bs i = Some b" "encoder_view ser b' = v"
  shows "encoder_rel ser (e\<lparr>en_blocks := (en_blocks e)(i := v)\<rparr>) (bs[nat i := b'])"
  using assms live_at_Some[OF assms(2)] by (auto simp: encoder_rel_def nth_list_update fun_eq_iff)

lemma encoder_rel_append:
  assumes "encoder_rel ser e bs" "i = int (length bs)" "encoder_view ser b = v"
  shows "encoder_rel ser (e\<lparr>en_blocks := (en_blocks e)(i := v)\<rparr>) (bs @ [b])" "en_blocks e i = None"
  using assms by (auto simp: encoder_rel_def nth_append fun_eq_iff)

section \<open>The reducer follows the reference\<close>

fun reducer_match :: "(jstr \<Rightarrow> json) \<Rightarrow> live_block \<Rightarrow> stream_block \<Rightarrow> reducer_state \<Rightarrow> bool" where
  "reducer_match parse (LiveText s sig c d) b st \<longleftrightarrow>
     b = live_view parse (LiveText s sig c d) \<and> agree s c \<and> st = TextReducer (d \<noteq> None)"
| "reducer_match parse (LiveThinking s sig red c d) b st \<longleftrightarrow>
     b = live_view parse (LiveThinking s sig red c d) \<and> agree s c \<and> st = ThinkingReducer (d \<noteq> None)"
| "reducer_match parse (LiveCall a c caught None) b st \<longleftrightarrow>
     st = CallReducer False (if caught then c else []) \<and>
     (\<exists>x. b = ToolCall (a\<lparr>tc_arguments := x\<rparr>) \<and> (caught \<and> c \<noteq> [] \<or> x = tc_arguments a))"
| "reducer_match parse (LiveCall a c caught (Some a')) b st \<longleftrightarrow> b = ToolCall a' \<and> (\<exists>j. st = CallReducer True j)"

definition reducer_rel :: "(jstr \<Rightarrow> json) \<Rightarrow> reduction \<Rightarrow> live_block list \<Rightarrow> bool" where
  "reducer_rel parse mr bs \<longleftrightarrow>
     length (sm_content (fst mr)) = length bs \<and> map fst (snd mr) = map int [0..<length bs] \<and>
     (\<forall>j < length bs. reducer_match parse (bs ! j) (sm_content (fst mr) ! j) (snd (snd mr ! j)))"

lemma update_indexed:
  "map fst states = map int [k..<n] \<Longrightarrow> j < length states \<Longrightarrow>
    AList.update (int (k + j)) st states = states[j := (int (k + j), st)] \<and> map_of states (int (k + j)) = Some (snd (states ! j))"
proof (induction states arbitrary: k j)
  case (Cons s states)
  have "k < n" using Cons.prems(1) by (cases "k < n") auto
  then have s: "fst s = int k" "map fst states = map int [Suc k..<n]"
    using Cons.prems(1) by (simp_all add: upt_conv_Cons)
  show ?case
  proof (cases j)
    case 0
    then show ?thesis using s(1) by (cases s) simp
  next
    case (Suc i)
    then show ?thesis using Cons.IH[OF s(2), of i] Cons.prems(2) s(1) by (cases s) simp
  qed
qed simp

lemma update_fresh:
  "k \<notin> set (map fst states) \<Longrightarrow> AList.update k st states = states @ [(k, st)]"
  by (induction states) auto

lemma reducer_rel_set:
  assumes r: "reducer_rel parse mr bs" and i: "live_at bs i = Some b" and m: "reducer_match parse b' x st"
  shows "reducer_rel parse (set_block i x st mr) (bs[nat i := b'])"
proof -
  have i': "0 \<le> i" "nat i < length bs" using live_at_Some[OF i] by simp_all
  then have len: "nat i < length (snd mr)" "length (snd mr) = length bs"
    using r by (auto simp: reducer_rel_def dest: map_eq_imp_length_eq)
  have up: "AList.update i st (snd mr) = (snd mr)[nat i := (i, st)]"
    using update_indexed[of "snd mr" 0 "length bs" "nat i" st] r i'(1) len by (simp add: reducer_rel_def)
  have ids: "map fst (snd mr) = map int [0..<length bs]" using r by (simp add: reducer_rel_def)
  then have "map fst (snd mr) ! nat i = i" using i' by simp
  then have "map fst ((snd mr)[nat i := (i, st)]) = map fst (snd mr)"
    unfolding map_update fst_conv by (metis list_update_id)
  then show ?thesis using r m i' len up
    by (cases mr) (auto simp: reducer_rel_def set_block_def nth_list_update)
qed

lemma reducer_rel_append:
  assumes r: "reducer_rel parse mr bs" and i: "i = int (length bs)" "i \<le> MAX_SAFE_INTEGER" and m: "reducer_match parse b x st"
  shows "\<exists>mr'. appendBlock i x st mr = Inr mr' \<and> reducer_rel parse mr' (bs @ [b]) \<and>
    fst mr' = (fst mr)\<lparr>sm_content := sm_content (fst mr) @ [x]\<rparr>"
proof -
  have len: "length (snd mr) = length bs" using r by (auto simp: reducer_rel_def dest: map_eq_imp_length_eq)
  have "map fst (snd mr) = map int [0..<length bs]" using r by (simp add: reducer_rel_def)
  then have "i \<notin> set (map fst (snd mr))" using i(1) by (simp only: set_map set_upt) auto
  then have "AList.update i st (snd mr) = snd mr @ [(i, st)]" by (rule update_fresh)
  then show ?thesis using r i m len
    by (cases mr) (auto simp: appendBlock_def assertContentIndex_def reducer_rel_def nth_append less_Suc_eq)
qed

lemma active_block:
  assumes r: "reducer_rel parse mr bs" and i: "live_at bs i = Some b"
    and k: "reducer_match parse b (sm_content (fst mr) ! nat i) (snd (snd mr ! nat i)) \<Longrightarrow>
      reducer_kind (snd (snd mr ! nat i)) = k \<and> content_kind (sm_content (fst mr) ! nat i) = k \<and>
      \<not> reducer_ended (snd (snd mr ! nat i))"
  shows "activeBlock i k mr = Inr (sm_content (fst mr) ! nat i, snd (snd mr ! nat i)) \<and>
    reducer_match parse b (sm_content (fst mr) ! nat i) (snd (snd mr ! nat i))"
proof -
  have i': "0 \<le> i" "i \<le> MAX_SAFE_INTEGER" "nat i < length bs" "bs ! nat i = b" using live_at_Some[OF i] by simp_all
  have len: "length (snd mr) = length bs" "length (sm_content (fst mr)) = length bs"
    using r by (auto simp: reducer_rel_def dest: map_eq_imp_length_eq)
  have "map_of (snd mr) i = Some (snd (snd mr ! nat i))"
    using update_indexed[of "snd mr" 0 "length bs" "nat i"] r i'(1,3) len by (simp add: reducer_rel_def)
  moreover have m: "reducer_match parse b (sm_content (fst mr) ! nat i) (snd (snd mr ! nat i))"
    using r i'(3) unfolding reducer_rel_def i'(4)[symmetric] by blast
  ultimately show ?thesis using k[OF m] i' len
    by (cases mr) (simp add: activeBlock_def assertContentIndex_def)
qed

section \<open>One event\<close>

definition reduced :: "(jstr \<Rightarrow> json) \<Rightarrow> frame option \<Rightarrow> reduction \<Rightarrow> frame_error + reduction" where
  "reduced parse fo mr = (case fo of None \<Rightarrow> Inr mr | Some f \<Rightarrow> reduce_frame parse f mr)"

definition same_header :: "reduction \<Rightarrow> reduction \<Rightarrow> bool" where
  "same_header mr mr' \<longleftrightarrow> (fst mr')\<lparr>sm_content := []\<rparr> = (fst mr)\<lparr>sm_content := []\<rparr>"

text \<open>What an accepted event of a block does to the encoder and, by the frame it gives, to the reducer.\<close>

definition follows :: "(json \<Rightarrow> jstr) \<Rightarrow> (jstr \<Rightarrow> json) \<Rightarrow> stream_event \<Rightarrow> encoder \<Rightarrow> reduction \<Rightarrow> live_block list \<Rightarrow> bool" where
  "follows ser parse ev e mr bs' \<longleftrightarrow>
     (\<exists>fo e' mr'. encode_block ser parse ev e = Inr (fo, e') \<and> encoder_rel ser e' bs' \<and>
        en_started e' = en_started e \<and> en_terminal e' = en_terminal e \<and>
        reduced parse fo mr = Inr mr' \<and> reducer_rel parse mr' bs' \<and> same_header mr mr')"

lemma follows_start:
  assumes "encoder_rel ser e bs" "reducer_rel parse mr bs" "partial_block bs i p = Some x"
    and "encoder_view ser b = Some v" "reducer_match parse b x st"
    and enc: "\<And>e'. startBlock i v e = Inr e' \<Longrightarrow> eventBlock i p = Inr x \<Longrightarrow> encode_block ser parse ev e = Inr (Some f, e')"
    and red: "reduce_frame parse f mr = appendBlock i x st mr"
  shows "follows ser parse ev e mr (bs @ [b])"
proof -
  have i: "i = int (length bs)" "i \<le> MAX_SAFE_INTEGER" "nth_opt (sm_content p) (nat i) = Some x"
    using assms(3) by (simp_all add: partial_block_def split: if_splits)
  have fresh: "en_blocks e i = None" by (rule encoder_rel_append(2)[OF assms(1) i(1) assms(4)])
  define e' where "e' = e\<lparr>en_blocks := (en_blocks e)(i := Some v)\<rparr>"
  have "startBlock i v e = Inr e'" using i fresh by (simp add: startBlock_def assertContentIndex_def e'_def)
  moreover have "eventBlock i p = Inr x" using i by (simp add: eventBlock_def assertContentIndex_def)
  ultimately have "encode_block ser parse ev e = Inr (Some f, e')" by (rule enc)
  moreover have "encoder_rel ser e' (bs @ [b])" unfolding e'_def by (rule encoder_rel_append(1)[OF assms(1) i(1) assms(4)])
  moreover obtain mr' where "appendBlock i x st mr = Inr mr'" "reducer_rel parse mr' (bs @ [b])"
    "fst mr' = (fst mr)\<lparr>sm_content := sm_content (fst mr) @ [x]\<rparr>"
    using reducer_rel_append[OF assms(2) i(1,2) assms(5)] by blast
  moreover have "en_started e' = en_started e" "en_terminal e' = en_terminal e" by (simp_all add: e'_def)
  ultimately show ?thesis
    using red unfolding follows_def by (intro exI[of _ "Some f"] exI[of _ e'] exI[of _ mr']) (simp add: reduced_def same_header_def)
qed

text \<open>An event inside a block: the encoder's block changes, and the reducer's by the frame, if there is one.\<close>

lemma follows_inside:
  assumes "encoder_rel ser e bs" "reducer_rel parse mr bs" "live_at bs i = Some b"
    and "encoder_view ser b' = v"
    and enc: "encode_block ser parse ev e = Inr (fo, e\<lparr>en_blocks := (en_blocks e)(i := v)\<rparr>)"
    and red: "reduced parse fo mr = Inr (set_block i x st mr) \<or>
      reduced parse fo mr = Inr mr \<and> x = sm_content (fst mr) ! nat i \<and> st = snd (snd mr ! nat i)"
    and match: "reducer_match parse b' x st"
  shows "follows ser parse ev e mr (bs[nat i := b'])"
proof -
  have "encoder_rel ser (e\<lparr>en_blocks := (en_blocks e)(i := v)\<rparr>) (bs[nat i := b'])"
    by (rule encoder_rel_update[OF assms(1,3,4)])
  moreover have "\<exists>mr'. reduced parse fo mr = Inr mr' \<and> reducer_rel parse mr' (bs[nat i := b']) \<and> same_header mr mr'"
    using red
  proof
    assume "reduced parse fo mr = Inr (set_block i x st mr)"
    then show ?thesis using reducer_rel_set[OF assms(2,3) match]
      by (cases mr) (auto simp: same_header_def set_block_def)
  next
    assume r: "reduced parse fo mr = Inr mr \<and> x = sm_content (fst mr) ! nat i \<and> st = snd (snd mr ! nat i)"
    have "reducer_rel parse mr (bs[nat i := b'])"
      using assms(2) match r live_at_Some[OF assms(3)] by (auto simp: reducer_rel_def nth_list_update)
    then show ?thesis using r by (simp add: same_header_def)
  qed
  ultimately show ?thesis using enc unfolding follows_def by fastforce
qed

lemma longer_append:
  assumes "agree s c" "agree s (c @ d)"
  shows "longer s (c @ d) =
    (if length d \<le> length s - length c then longer s c else longer s c @ drop (length s - length c) d)"
proof (cases "length c \<le> length s")
  case True
  have "take (length s) (c @ d) = take (length (c @ d)) s" using assms(2) by (simp add: agree_def)
  then have t: "c @ take (length s - length c) d = take (length c + length d) s" using True by simp
  show ?thesis
  proof (cases "length d \<le> length s - length c")
    case False
    then have "s = c @ take (length s - length c) d" using t True by simp
    then have "s @ drop (length s - length c) d = c @ d" by (metis append.assoc append_take_drop_id)
    moreover have "\<not> length (c @ d) \<le> length s" using False True by simp
    ultimately show ?thesis using False True by (simp add: longer_def)
  qed (use True in \<open>auto simp: longer_def\<close>)
qed (auto simp: longer_def)

lemma follows_text_delta:
  assumes rel: "encoder_rel ser e bs" "reducer_rel parse mr bs" and at: "live_at bs i = Some (LiveText s sig c None)"
    and ok: "agree s (c @ d)"
  shows "follows ser parse (TextDeltaEvent i d) e mr (bs[nat i := LiveText s sig (c @ d) None])"
proof -
  let ?x = "sm_content (fst mr) ! nat i" and ?st = "snd (snd mr ! nat i)"
  have act: "activeBlock i TextKind mr = Inr (?x, ?st)" "?x = TextContent (longer s c) sig" "?st = TextReducer False" "agree s c"
    using active_block[OF rel(2) at, of TextKind] by auto
  have i: "0 \<le> i" "i \<le> MAX_SAFE_INTEGER" using live_at_Some[OF at] by simp_all
  have e: "en_blocks e i = Some (TextState TextKind (length s) (length c))" using encoder_rel_at[OF rel(1) at] by simp
  define fo where "fo = (if length d \<le> length s - length c then None else Some (TextDeltaFrame i (drop (length s - length c) d)))"
  show ?thesis
  proof (rule follows_inside[OF rel at])
    show "encode_block ser parse (TextDeltaEvent i d) e =
      Inr (fo, e\<lparr>en_blocks := (en_blocks e)(i := Some (TextState TextKind (length s) (length c + length d)))\<rparr>)"
      using e i by (simp add: encodeTextDelta_def block_of_def assertContentIndex_def fo_def Let_def)
    show "reduced parse fo mr = Inr (set_block i (TextContent (longer s (c @ d)) sig) (TextReducer False) mr) \<or>
      reduced parse fo mr = Inr mr \<and> TextContent (longer s (c @ d)) sig = ?x \<and> TextReducer False = ?st"
      using act longer_append[OF act(4) ok] by (auto simp: fo_def reduced_def)
  qed (use ok in simp_all)
qed

lemma follows_thinking_delta:
  assumes rel: "encoder_rel ser e bs" "reducer_rel parse mr bs" and at: "live_at bs i = Some (LiveThinking s sig rd c None)"
    and ok: "agree s (c @ d)"
  shows "follows ser parse (ThinkingDeltaEvent i d) e mr (bs[nat i := LiveThinking s sig rd (c @ d) None])"
proof -
  let ?x = "sm_content (fst mr) ! nat i" and ?st = "snd (snd mr ! nat i)"
  have act: "activeBlock i ThinkingKind mr = Inr (?x, ?st)" "?x = ThinkingContent (longer s c) sig rd" "?st = ThinkingReducer False" "agree s c"
    using active_block[OF rel(2) at, of ThinkingKind] by auto
  have i: "0 \<le> i" "i \<le> MAX_SAFE_INTEGER" using live_at_Some[OF at] by simp_all
  have e: "en_blocks e i = Some (TextState ThinkingKind (length s) (length c))" using encoder_rel_at[OF rel(1) at] by simp
  define fo where "fo = (if length d \<le> length s - length c then None else Some (ThinkingDeltaFrame i (drop (length s - length c) d)))"
  show ?thesis
  proof (rule follows_inside[OF rel at])
    show "encode_block ser parse (ThinkingDeltaEvent i d) e =
      Inr (fo, e\<lparr>en_blocks := (en_blocks e)(i := Some (TextState ThinkingKind (length s) (length c + length d)))\<rparr>)"
      using e i by (simp add: encodeTextDelta_def block_of_def assertContentIndex_def fo_def Let_def)
    show "reduced parse fo mr = Inr (set_block i (ThinkingContent (longer s (c @ d)) sig rd) (ThinkingReducer False) mr) \<or>
      reduced parse fo mr = Inr mr \<and> ThinkingContent (longer s (c @ d)) sig rd = ?x \<and> ThinkingReducer False = ?st"
      using act longer_append[OF act(4) ok] by (auto simp: fo_def reduced_def)
  qed (use ok in simp_all)
qed

lemma follows_call_delta:
  assumes rel: "encoder_rel ser e bs" "reducer_rel parse mr bs" and at: "live_at bs i = Some (LiveCall a c caught None)"
  shows "follows ser parse (ToolCallDeltaEvent i d) e mr
    (bs[nat i := LiveCall a (c @ d) (caught \<or> caught_up ser parse (ser (tc_arguments a)) (c @ d)) None])"
proof -
  let ?x = "sm_content (fst mr) ! nat i" and ?st = "snd (snd mr ! nat i)"
  obtain y where act: "activeBlock i ToolCallKind mr = Inr (?x, ?st)" "?x = ToolCall (a\<lparr>tc_arguments := y\<rparr>)"
    "caught \<and> c \<noteq> [] \<or> y = tc_arguments a" "?st = CallReducer False (if caught then c else [])"
    using active_block[OF rel(2) at, of ToolCallKind] by auto
  have i: "0 \<le> i" "i \<le> MAX_SAFE_INTEGER" using live_at_Some[OF at] by simp_all
  have e: "en_blocks e i = Some (CallState caught (if caught then [] else c) (if caught then [] else ser (tc_arguments a)))"
    using encoder_rel_at[OF rel(1) at] by simp
  consider "caught" | "\<not> caught" "caught_up ser parse (ser (tc_arguments a)) (c @ d)"
    | "\<not> caught" "\<not> caught_up ser parse (ser (tc_arguments a)) (c @ d)" by blast
  then show ?thesis
  proof cases
    case 1
    show ?thesis
    proof (rule follows_inside[OF rel at])
      show "encode_block ser parse (ToolCallDeltaEvent i d) e =
        Inr (if d = [] then None else Some (ToolCallDeltaFrame i d), e\<lparr>en_blocks := (en_blocks e)(i := Some (CallState True [] []))\<rparr>)"
      proof -
        have "(en_blocks e)(i := Some (CallState True [] [])) = en_blocks e" using e 1 by auto
        then show ?thesis using e 1 i by (simp add: encodeCallDelta_def block_of_def assertContentIndex_def)
      qed
      show "reduced parse (if d = [] then None else Some (ToolCallDeltaFrame i d)) mr = Inr (set_block i ?x (CallReducer False (c @ d)) mr) \<or>
        reduced parse (if d = [] then None else Some (ToolCallDeltaFrame i d)) mr = Inr mr \<and> ?x = ?x \<and> CallReducer False (c @ d) = ?st"
        using act 1 by (auto simp: reduced_def)
    qed (use act(2,3) 1 in auto)
  next
    case 2
    let ?fo = "if c @ d = [] then None else Some (ToolCallCheckpointFrame i (c @ d))"
    let ?y = "if c @ d = [] then y else parse (c @ d)"
    show ?thesis
    proof (rule follows_inside[OF rel at])
      show "encode_block ser parse (ToolCallDeltaEvent i d) e =
        Inr (?fo, e\<lparr>en_blocks := (en_blocks e)(i := Some (CallState True [] []))\<rparr>)"
        using e 2 i by (simp add: encodeCallDelta_def block_of_def assertContentIndex_def Let_def)
      show "reduced parse ?fo mr = Inr (set_block i (ToolCall (a\<lparr>tc_arguments := ?y\<rparr>)) (CallReducer False (c @ d)) mr) \<or>
        reduced parse ?fo mr = Inr mr \<and> ToolCall (a\<lparr>tc_arguments := ?y\<rparr>) = ?x \<and> CallReducer False (c @ d) = ?st"
        using act(1,2,4) 2(1) by (auto simp: reduced_def)
    qed (use act(3) 2 in auto)
  next
    case 3
    show ?thesis
    proof (rule follows_inside[OF rel at])
      show "encode_block ser parse (ToolCallDeltaEvent i d) e =
        Inr (None, e\<lparr>en_blocks := (en_blocks e)(i := Some (CallState False (c @ d) (ser (tc_arguments a))))\<rparr>)"
        using e 3 i by (simp add: encodeCallDelta_def block_of_def assertContentIndex_def Let_def)
      show "reduced parse None mr = Inr (set_block i ?x ?st mr) \<or> reduced parse None mr = Inr mr \<and> ?x = ?x \<and> ?st = ?st"
        by (simp add: reduced_def)
    qed (use act(2-4) 3 in auto)
  qed
qed

lemma follows_end:
  assumes rel: "encoder_rel ser e bs" "reducer_rel parse mr bs" and at: "live_at bs i = Some b"
    and p: "nth_opt (sm_content p) (nat i) = Some y"
    and view: "encoder_view ser b = Some v" "state_kind v = k" "encoder_view ser b' = None"
    and enc: "\<And>e'. eventBlock i p = Inr y \<Longrightarrow> endBlock i k e = Inr e' \<Longrightarrow> encode_block ser parse ev e = Inr (Some f, e')"
    and red: "reduce_frame parse f mr = Inr (set_block i x st mr)" and match: "reducer_match parse b' x st"
  shows "follows ser parse ev e mr (bs[nat i := b'])"
proof (rule follows_inside[OF rel at view(3)])
  have i: "0 \<le> i" "i \<le> MAX_SAFE_INTEGER" using live_at_Some[OF at] by simp_all
  have "en_blocks e i = Some v" using encoder_rel_at[OF rel(1) at] view(1) by simp
  then have "endBlock i k e = Inr (e\<lparr>en_blocks := (en_blocks e)(i := None)\<rparr>)"
    using i view(2) by (simp add: endBlock_def block_of_def assertContentIndex_def)
  moreover have "eventBlock i p = Inr y" using p i by (simp add: eventBlock_def assertContentIndex_def)
  ultimately show "encode_block ser parse ev e = Inr (Some f, e\<lparr>en_blocks := (en_blocks e)(i := None)\<rparr>)" using enc by blast
  show "reduced parse (Some f) mr = Inr (set_block i x st mr) \<or>
    reduced parse (Some f) mr = Inr mr \<and> x = sm_content (fst mr) ! nat i \<and> st = snd (snd mr ! nat i)"
    using red by (simp add: reduced_def)
qed (rule match)

lemma follows_text_end:
  assumes rel: "encoder_rel ser e bs" "reducer_rel parse mr bs" and at: "live_at bs i = Some (LiveText s sig c None)"
    and p: "nth_opt (sm_content p) (nat i) = Some (TextContent t' sig')"
  shows "follows ser parse (TextEndEvent i t p) e mr (bs[nat i := LiveText s sig c (Some (t, sig'))])"
proof (rule follows_end[OF rel at p, where v = "TextState TextKind (length s) (length c)" and k = TextKind and f = "TextEndFrame i t sig'"])
  have "activeBlock i TextKind mr = Inr (sm_content (fst mr) ! nat i, snd (snd mr ! nat i)) \<and> agree s c"
    using active_block[OF rel(2) at, of TextKind] by auto
  then show "reduce_frame parse (TextEndFrame i t sig') mr = Inr (set_block i (TextContent t sig') (TextReducer True) mr)"
    "reducer_match parse (LiveText s sig c (Some (t, sig'))) (TextContent t sig') (TextReducer True)" by simp_all
qed simp_all

lemma follows_thinking_end:
  assumes rel: "encoder_rel ser e bs" "reducer_rel parse mr bs" and at: "live_at bs i = Some (LiveThinking s sig rd c None)"
    and p: "nth_opt (sm_content p) (nat i) = Some (ThinkingContent t' sig' rd')"
  shows "follows ser parse (ThinkingEndEvent i t p) e mr (bs[nat i := LiveThinking s sig rd c (Some (t, sig', rd'))])"
proof (rule follows_end[OF rel at p, where v = "TextState ThinkingKind (length s) (length c)" and k = ThinkingKind and f = "ThinkingEndFrame i t sig' rd'"])
  have "activeBlock i ThinkingKind mr = Inr (sm_content (fst mr) ! nat i, snd (snd mr ! nat i)) \<and> agree s c"
    using active_block[OF rel(2) at, of ThinkingKind] by auto
  then show "reduce_frame parse (ThinkingEndFrame i t sig' rd') mr = Inr (set_block i (ThinkingContent t sig' rd') (ThinkingReducer True) mr)"
    "reducer_match parse (LiveThinking s sig rd c (Some (t, sig', rd'))) (ThinkingContent t sig' rd') (ThinkingReducer True)"
    by simp_all
qed simp_all

lemma follows_call_end:
  assumes rel: "encoder_rel ser e bs" "reducer_rel parse mr bs" and at: "live_at bs i = Some (LiveCall a c caught None)"
    and p: "nth_opt (sm_content p) (nat i) = Some (ToolCall a')"
  shows "follows ser parse (ToolCallEndEvent i b p) e mr (bs[nat i := LiveCall a c caught (Some b)])"
proof (rule follows_end[OF rel at p, 
    where v = "CallState caught (if caught then [] else c) (if caught then [] else ser (tc_arguments a))" and k = ToolCallKind
      and f = "ToolCallEndFrame i b" and st = "CallReducer True (if caught then c else [])"])
  let ?x = "sm_content (fst mr) ! nat i" and ?st = "snd (snd mr ! nat i)"
  have "activeBlock i ToolCallKind mr = Inr (?x, ?st) \<and> ?st = CallReducer False (if caught then c else [])"
    using active_block[OF rel(2) at, of ToolCallKind] by fastforce
  then show "reduce_frame parse (ToolCallEndFrame i b) mr = Inr (set_block i (ToolCall b) (CallReducer True (if caught then c else [])) mr)"
    by simp
qed auto

lemma follows_block:
  assumes rel: "encoder_rel ser e bs" "reducer_rel parse mr bs" and step: "live_block_step ser parse ev bs = Some bs'"
    and ev: "\<not> (\<exists>p. ev = StartEvent p)" "ev \<noteq> DoneEvent" "ev \<noteq> ErrorEvent"
  shows "follows ser parse ev e mr bs'"
proof (cases ev)
  case (TextStartEvent i p)
  then obtain t sig where b: "partial_block bs i p = Some (TextContent t sig)" "bs' = bs @ [LiveText t sig [] None]"
    using step by (auto split: option.splits stream_block.splits)
  show ?thesis unfolding TextStartEvent b(2)
    by (rule follows_start[OF rel b(1), where v = "TextState TextKind (length t) 0" and f = "TextStartFrame i t sig"]) (simp_all add: longer_def agree_def)
next
  case (ThinkingStartEvent i p)
  then obtain t sig rd where b: "partial_block bs i p = Some (ThinkingContent t sig rd)" "bs' = bs @ [LiveThinking t sig rd [] None]"
    using step by (auto split: option.splits stream_block.splits)
  show ?thesis unfolding ThinkingStartEvent b(2)
    by (rule follows_start[OF rel b(1), where v = "TextState ThinkingKind (length t) 0" and f = "ThinkingStartFrame i t sig rd"]) (simp_all add: longer_def agree_def)
next
  case (ToolCallStartEvent i p)
  then obtain a where b: "partial_block bs i p = Some (ToolCall a)"
    "bs' = bs @ [LiveCall a [] (ser (tc_arguments a) = ser (parse [])) None]"
    using step by (auto split: option.splits stream_block.splits)
  show ?thesis unfolding ToolCallStartEvent b(2)
    by (rule follows_start[OF rel b(1), where v = "CallState (ser (tc_arguments a) = ser (parse [])) []
        (if ser (tc_arguments a) = ser (parse []) then [] else ser (tc_arguments a))" and f = "ToolCallStartFrame i a" and st = "CallReducer False []"])
      (auto simp: Let_def intro!: exI[of _ "tc_arguments a"])
next
  case (TextDeltaEvent i d)
  then show ?thesis using step follows_text_delta[OF rel]
    by (auto split: option.splits live_block.splits if_splits)
next
  case (ThinkingDeltaEvent i d)
  then show ?thesis using step follows_thinking_delta[OF rel]
    by (auto split: option.splits live_block.splits if_splits)
next
  case (ToolCallDeltaEvent i d)
  then show ?thesis using step follows_call_delta[OF rel]
    by (auto split: option.splits live_block.splits)
next
  case (TextEndEvent i t p)
  then show ?thesis using step follows_text_end[OF rel]
    by (auto split: option.splits live_block.splits stream_block.splits)
next
  case (ThinkingEndEvent i t p)
  then show ?thesis using step follows_thinking_end[OF rel]
    by (auto split: option.splits live_block.splits stream_block.splits)
next
  case (ToolCallEndEvent i b p)
  then show ?thesis using step follows_call_end[OF rel]
    by (auto split: option.splits live_block.splits stream_block.splits)
qed (use ev in auto)

section \<open>Streams\<close>

text \<open>The message being reduced has the reference's header and blocks.\<close>

definition stream_rel :: "(json \<Rightarrow> jstr) \<Rightarrow> (jstr \<Rightarrow> json) \<Rightarrow> live \<Rightarrow> encoder \<Rightarrow> reduction option \<Rightarrow> bool" where
  "stream_rel ser parse lv e mr \<longleftrightarrow>
     encoder_rel ser e (lv_blocks lv) \<and> (en_started e \<longleftrightarrow> lv_message lv \<noteq> None) \<and> (en_terminal e \<longleftrightarrow> lv_terminal lv) \<and>
     (case (lv_message lv, mr) of
        (None, None) \<Rightarrow> lv_blocks lv = []
      | (Some m, Some r) \<Rightarrow> reducer_rel parse r (lv_blocks lv) \<and> same_header r (m, [])
      | _ \<Rightarrow> False)"

lemma reduce_step_Some:
  "reduce_step parse (Some r, early) f = bindE (reduce_frame parse f r) (\<lambda>r'. Inr (Some r', early))"
  by (cases f) (simp_all add: reduce_step_def del: reduce_frame.simps)

lemma same_header_trans: "same_header r s \<Longrightarrow> same_header r t \<Longrightarrow> same_header s t"
  by (simp add: same_header_def)

text \<open>One event of the stream: the frames it gives, none or one, take the reducer along.\<close>

lemma stream_step:
  assumes rel: "stream_rel ser parse lv e mr" and step: "live_step ser parse ev lv = Some lv'"
  shows "\<exists>fo e' mr'. encode ser parse ev e = Inr (fo, e') \<and> stream_rel ser parse lv' e' mr' \<and>
    foldE (reduce_step parse) (mr, False) (case fo of None \<Rightarrow> [] | Some f \<Rightarrow> [f]) = Inr (mr', False)"
proof -
  have live: "\<not> lv_terminal lv" using step by (auto simp: live_step_def split: if_splits)
  then have e: "encoder_rel ser e (lv_blocks lv)" "en_started e \<longleftrightarrow> lv_message lv \<noteq> None" "\<not> en_terminal e"
    using rel by (simp_all add: stream_rel_def)
  consider (start) p where "ev = StartEvent p" | (done_) "ev = DoneEvent" | (err) "ev = ErrorEvent"
    | (block) "\<not> (\<exists>p. ev = StartEvent p)" "ev \<noteq> DoneEvent" "ev \<noteq> ErrorEvent" by blast
  then show ?thesis
  proof cases
    case start
    then have lv: "lv_message lv = None" "lv' = lv\<lparr>lv_message := Some (cloneStartMessage p)\<rparr>"
      using step live by (auto simp: live_step_def split: if_splits)
    then have mr: "mr = None" "lv_blocks lv = []" using rel by (auto simp: stream_rel_def split: option.splits)
    have "reducer_rel parse (cloneStartMessage p, []) []" by (simp add: reducer_rel_def cloneStartMessage_def)
    then have "stream_rel ser parse lv' (e\<lparr>en_started := True\<rparr>) (Some (cloneStartMessage p, []))"
      using e lv mr(2) live by (simp add: stream_rel_def encoder_rel_def same_header_def)
    then show ?thesis using start e lv(1) mr(1)
      by (intro exI[of _ "Some (StartFrame (cloneStartMessage p))"] exI[of _ "e\<lparr>en_started := True\<rparr>"] exI[of _ "Some (cloneStartMessage p, [])"])
        (simp add: encode_def reduce_step_def)
  next
    case done_
    then have lv: "lv_message lv \<noteq> None" "lv' = lv\<lparr>lv_terminal := True\<rparr>"
      using step live by (auto simp: live_step_def split: if_splits)
    have "stream_rel ser parse lv' (e\<lparr>en_terminal := True\<rparr>) mr"
      using rel lv by (auto simp: stream_rel_def encoder_rel_def split: option.splits)
    then show ?thesis using done_ e lv(1)
      by (intro exI[of _ None] exI[of _ "e\<lparr>en_terminal := True\<rparr>"] exI[of _ mr]) (simp add: encode_def)
  next
    case err
    then have lv: "lv' = lv\<lparr>lv_terminal := True\<rparr>" using step live by (simp add: live_step_def)
    have "stream_rel ser parse lv' (e\<lparr>en_terminal := True\<rparr>) mr"
      using rel lv by (auto simp: stream_rel_def encoder_rel_def split: option.splits)
    then show ?thesis using err e
      by (intro exI[of _ None] exI[of _ "e\<lparr>en_terminal := True\<rparr>"] exI[of _ mr]) (simp add: encode_def)
  next
    case block
    then obtain m bs' where lv: "lv_message lv = Some m" "live_block_step ser parse ev (lv_blocks lv) = Some bs'"
      "lv' = lv\<lparr>lv_blocks := bs'\<rparr>"
      using step live by (cases ev) (auto simp: live_step_def split: if_splits option.splits)
    then obtain r where r: "mr = Some r" "reducer_rel parse r (lv_blocks lv)" "same_header r (m, [])"
      using rel by (auto simp: stream_rel_def split: option.splits)
    have "follows ser parse ev e r bs'" by (rule follows_block[OF e(1) r(2) lv(2) block])
    then obtain fo e' r' where f: "encode_block ser parse ev e = Inr (fo, e')" "encoder_rel ser e' bs'" "en_started e' = en_started e"
      "en_terminal e' = en_terminal e" "reduced parse fo r = Inr r'" "reducer_rel parse r' bs'" "same_header r r'"
      by (auto simp: follows_def simp del: split_paired_Ex)
    have "encode ser parse ev e = Inr (fo, e')" using block e lv(1) f(1) by (cases ev) (auto simp: encode_def)
    moreover have "foldE (reduce_step parse) (mr, False) (case fo of None \<Rightarrow> [] | Some f \<Rightarrow> [f]) = Inr (Some r', False)"
      using f(5) r(1) by (cases fo) (simp_all add: reduced_def reduce_step_Some)
    moreover have "stream_rel ser parse lv' e' (Some r')"
      using e f lv live same_header_trans[OF f(7) r(3)] by (simp add: stream_rel_def)
    ultimately show ?thesis by blast
  qed
qed

lemma stream_all:
  assumes "stream_rel ser parse lv e mr" "live_all ser parse evs lv = Some lv'"
  shows "\<exists>frames e' mr'. encode_all ser parse evs e = Inr (frames, e') \<and> stream_rel ser parse lv' e' mr' \<and>
    foldE (reduce_step parse) (mr, False) frames = Inr (mr', False)"
  using assms
proof (induction evs arbitrary: lv e mr)
  case (Cons ev evs)
  obtain lv1 where lv1: "live_step ser parse ev lv = Some lv1" "live_all ser parse evs lv1 = Some lv'"
    using Cons.prems(2) by (auto split: option.splits)
  obtain fo e1 mr1 where s: "encode ser parse ev e = Inr (fo, e1)" "stream_rel ser parse lv1 e1 mr1"
    "foldE (reduce_step parse) (mr, False) (case fo of None \<Rightarrow> [] | Some f \<Rightarrow> [f]) = Inr (mr1, False)"
    using stream_step[OF Cons.prems(1) lv1(1)] by blast
  obtain frames e' mr' where t: "encode_all ser parse evs e1 = Inr (frames, e')" "stream_rel ser parse lv' e' mr'"
    "foldE (reduce_step parse) (mr1, False) frames = Inr (mr', False)"
    using Cons.IH[OF s(2) lv1(2)] by blast
  let ?fs = "case fo of None \<Rightarrow> [] | Some f \<Rightarrow> [f]"
  have "foldE (reduce_step parse) (mr, False) (?fs @ frames) = Inr (mr', False)"
    unfolding foldE_append s(3) bindE_Inr by (rule t(3))
  moreover have "encode_all ser parse (ev # evs) e = Inr (?fs @ frames, e')"
    using s(1) t(1) by (cases fo) simp_all
  ultimately show ?case using t(2) by blast
qed auto

section \<open>The replayed message\<close>

fun finished :: "(jstr \<Rightarrow> json) \<Rightarrow> reducer_state \<Rightarrow> stream_block \<Rightarrow> stream_block" where
  "finished parse (CallReducer ended json) (ToolCall c) =
     ToolCall (if ended \<or> json = [] then c else c\<lparr>tc_arguments := parse json\<rparr>)"
| "finished parse st b = b"

lemma finished_view: "reducer_match parse b x st \<Longrightarrow> finished parse st x = live_view parse b"
proof (induction parse b rule: live_view.induct)
  case (5 parse a c caught)
  then obtain y where "st = CallReducer False (if caught then c else [])" "x = ToolCall (a\<lparr>tc_arguments := y\<rparr>)"
    "caught \<and> c \<noteq> [] \<or> y = tc_arguments a" by auto
  then show ?case by (auto split: if_splits)
qed auto

lemma finish_call_content:
  assumes "i = int j" "j < length (sm_content m)"
  shows "finish_call parse (i, st) m = m\<lparr>sm_content := (sm_content m)[j := finished parse st (sm_content m ! j)]\<rparr>"
proof (cases st)
  case (CallReducer ended json)
  have "m = m\<lparr>sm_content := (sm_content m)[j := sm_content m ! j]\<rparr>" by simp
  then show ?thesis using CallReducer assms
    by (cases "sm_content m ! j") (auto simp: finish_call_def)
qed (simp_all add: finish_call_def)

lemma finish_all:
  assumes "map fst states = map int [0..<length states]" "length states \<le> length (sm_content m)"
  shows "fold (finish_call parse) states m = m\<lparr>sm_content :=
    map (\<lambda>j. if j < length states then finished parse (snd (states ! j)) (sm_content m ! j) else sm_content m ! j)
      [0..<length (sm_content m)]\<rparr>"
  using assms
proof (induction states rule: rev_induct)
  case Nil
  then show ?case by (simp add: map_nth)
next
  case (snoc s states)
  define c where "c = map (\<lambda>j. if j < length states then finished parse (snd (states ! j)) (sm_content m ! j) else sm_content m ! j)
      [0..<length (sm_content m)]"
  have ids: "map fst states = map int [0..<length states]" "fst s = int (length states)" using snoc.prems(1) by simp_all
  have "fold (finish_call parse) states m = m\<lparr>sm_content := c\<rparr>" using snoc.IH[OF ids(1)] snoc.prems(2) by (simp add: c_def)
  moreover have "finish_call parse s (m\<lparr>sm_content := c\<rparr>) =
      m\<lparr>sm_content := c[length states := finished parse (snd s) (sm_content m ! length states)]\<rparr>"
    using finish_call_content[OF ids(2), of "m\<lparr>sm_content := c\<rparr>" parse "snd s"] snoc.prems(2) by (simp add: c_def)
  moreover have "c[length states := finished parse (snd s) (sm_content m ! length states)] =
      map (\<lambda>j. if j < length (states @ [s]) then finished parse (snd ((states @ [s]) ! j)) (sm_content m ! j) else sm_content m ! j)
        [0..<length (sm_content m)]"
    using snoc.prems(2) by (intro nth_equalityI) (auto simp: c_def nth_list_update nth_append less_Suc_eq)
  ultimately show ?case by simp
qed

lemma finish_shown:
  assumes "reducer_rel parse (m, states) bs"
  shows "fold (finish_call parse) states m = m\<lparr>sm_content := map (live_view parse) bs\<rparr>"
proof -
  have r: "length (sm_content m) = length bs" "map fst states = map int [0..<length bs]"
    "\<forall>j < length bs. reducer_match parse (bs ! j) (sm_content m ! j) (snd (states ! j))"
    using assms by (simp_all add: reducer_rel_def)
  have len: "length states = length bs" using r(2) by (auto dest: map_eq_imp_length_eq)
  have "map (\<lambda>j. if j < length states then finished parse (snd (states ! j)) (sm_content m ! j) else sm_content m ! j) [0..<length bs] =
      map (live_view parse) bs"
    using r(3) len finished_view by (intro nth_equalityI) auto
  then show ?thesis using finish_all[of states m parse] r(1,2) len by simp
qed

text \<open>
  C25. Replaying the frames recorded so far gives the message shown so far: for every stream whose blocks start in
  order and whose snapshots and deltas agree (and so after every event of it) the encoder accepts all events, and the
  reducer accepts its frames and gives the start message with, per block, the longer of the snapshot and the deltas,
  the parsed JSON of a tool call once that has caught up with its snapshot, or the values at its end.
\<close>
theorem frames_replay:
  assumes "live_all ser parse evs no_stream = Some lv"
  shows "\<exists>frames e. encode_all ser parse evs new_encoder = Inr (frames, e) \<and>
    reduceAssistantMessageFrames parse frames = Inr (shown parse lv)"
proof -
  have "stream_rel ser parse no_stream new_encoder None"
    by (auto simp: stream_rel_def no_stream_def new_encoder_def encoder_rel_def fun_eq_iff)
  from stream_all[OF this assms] obtain frames e mr where f: "encode_all ser parse evs new_encoder = Inr (frames, e)"
    "stream_rel ser parse lv e mr" "foldE (reduce_step parse) (None, False) frames = Inr (mr, False)" by blast
  have "reduceAssistantMessageFrames parse frames = Inr (shown parse lv)"
  proof (cases "lv_message lv")
    case None
    then have "mr = None" using f(2) by (auto simp: stream_rel_def split: option.splits)
    then show ?thesis using f(3) None by (simp add: reduceAssistantMessageFrames_def shown_def)
  next
    case (Some h)
    then obtain m states where mr: "mr = Some (m, states)" "reducer_rel parse (m, states) (lv_blocks lv)"
      "m\<lparr>sm_content := []\<rparr> = h\<lparr>sm_content := []\<rparr>"
      using f(2) by (auto simp: stream_rel_def same_header_def split: option.splits)
    have "m\<lparr>sm_content := c\<rparr> = h\<lparr>sm_content := c\<rparr>" for c
    proof -
      have "m\<lparr>sm_content := c\<rparr> = (m\<lparr>sm_content := []\<rparr>)\<lparr>sm_content := c\<rparr>" by simp
      also have "\<dots> = h\<lparr>sm_content := c\<rparr>" unfolding mr(3) by simp
      finally show ?thesis .
    qed
    then show ?thesis using f(3) mr(1) Some finish_shown[OF mr(2)]
      by (simp add: reduceAssistantMessageFrames_def shown_def)
  qed
  then show ?thesis using f(1) by blast
qed

text \<open>A stream whose live text is ahead of its deltas.\<close>

definition sample_message :: "stream_block list \<Rightarrow> stream_message" where
  "sample_message bs = \<lparr>sm_content = bs, sm_api = [], sm_provider = [], sm_model = [], sm_responseModel = None,
     sm_responseId = None, sm_providerThinkingLevel = None, sm_diagnostics = None,
     sm_usage = \<lparr>usage_input = 0, usage_output = 0, usage_cacheRead = 0, usage_cacheWrite = 0,
       usage_cacheWrite1h = None, usage_reasoning = None, usage_totalTokens = 0,
       usage_cost = \<lparr>cost_input = NInt 0, cost_output = NInt 0, cost_cacheRead = NInt 0, cost_cacheWrite = NInt 0, cost_total = NInt 0\<rparr>\<rparr>,
     sm_stopReason = PendingStop, sm_timestamp = 0, sm_deferred = None, sm_errorMessage = None, sm_rawStopReason = None,
     sm_endTurn = None\<rparr>"

definition sample_stream :: "stream_event list" where
  "sample_stream =
     [StartEvent (sample_message []), TextStartEvent 0 (sample_message [TextContent (js ''abc'') None]),
      TextDeltaEvent 0 (js ''ab''), TextDeltaEvent 0 (js ''cd'')]"

theorem frames_replay_witness:
  "encode_all (\<lambda>_. []) (\<lambda>_. JNull) sample_stream new_encoder =
     Inr ([StartFrame (sample_message []), TextStartFrame 0 (js ''abc'') None, TextDeltaFrame 0 (js ''d'')],
       snd (projr (encode_all (\<lambda>_. []) (\<lambda>_. JNull) sample_stream new_encoder))) \<and>
   reduceAssistantMessageFrames (\<lambda>_. JNull) (fst (projr (encode_all (\<lambda>_. []) (\<lambda>_. JNull) sample_stream new_encoder))) =
     Inr (Some (sample_message [TextContent (js ''abcd'') None]))"
proof -
  let ?b = "LiveText (js ''abc'') None (js ''abcd'') None"
  have a: "agree (js ''abc'') (js ''ab'')" "agree (js ''abc'') (js ''abcd'')" by code_simp+
  have x: "js ''ab'' @ js ''cd'' = js ''abcd''" by (simp add: js_def)
  have len: "length (js ''abc'') = 3" "length (js ''ab'') = 2" "length (js ''cd'') = 2" "drop (Suc 0) (js ''cd'') = js ''d''"
    by (simp_all add: js_def drop_map[symmetric])
  have live: "live_all (\<lambda>_. []) (\<lambda>_. JNull) sample_stream no_stream =
    Some \<lparr>lv_message = Some (sample_message []), lv_blocks = [?b], lv_terminal = False\<rparr>"
    by (simp add: sample_stream_def no_stream_def live_step_def partial_block_def live_at_def sample_message_def
        cloneStartMessage_def MAX_SAFE_INTEGER_def a x)
  have enc: "\<exists>e. encode_all (\<lambda>_. []) (\<lambda>_. JNull) sample_stream new_encoder =
    Inr ([StartFrame (sample_message []), TextStartFrame 0 (js ''abc'') None, TextDeltaFrame 0 (js ''d'')], e)"
    by (simp add: sample_stream_def new_encoder_def encode_def eventBlock_def assertContentIndex_def sample_message_def
        startBlock_def encodeTextDelta_def block_of_def cloneStartMessage_def MAX_SAFE_INTEGER_def len)
  have "longer (js ''abc'') (js ''abcd'') = js ''abcd''" by code_simp
  then show ?thesis using enc frames_replay[OF live] by (auto simp: shown_def sample_message_def)
qed

end
