(* ===== verification/JsonRepair.thy ===== *)
theory JsonRepair
  imports JsonText
begin

text \<open>
  The repair of malformed JSON strings and the tolerant parser of streamed tool arguments
  (\<open>packages/ai/src/utils/json-parse.ts\<close>). \<open>jsonParse\<close> is \<open>JSON.parse\<close> and \<open>partialParse\<close> the parser of the
  \<open>partial-json\<close> package; a thrown error is \<open>None\<close>.
\<close>

section \<open>Repair\<close>

definition valid_escapes :: "code_unit list" where
  "valid_escapes = [34, 92, 47, 98, 102, 110, 114, 116, 117]"

definition isControlCharacter :: "code_unit \<Rightarrow> bool" where
  "isControlCharacter c \<longleftrightarrow> unat c \<le> 0x1F"

definition escapeControlCharacter :: "code_unit \<Rightarrow> jstr" where
  "escapeControlCharacter c =
     (if c = 8 then [92, 98] else if c = 12 then [92, 102] else if c = 10 then [92, 110]
      else if c = 13 then [92, 114] else if c = 9 then [92, 116] else unicode_escape c)"

definition is_hex :: "code_unit \<Rightarrow> bool" where
  "is_hex c \<longleftrightarrow> in_range c 48 57 \<or> in_range c 65 70 \<or> in_range c 97 102"

text \<open>The loop, in a string or outside.\<close>

function repair_loop :: "bool \<Rightarrow> jstr \<Rightarrow> jstr" where
  "repair_loop inString [] = []"
| "repair_loop inString (c # cs) =
     (if \<not> inString then c # repair_loop (c = 34) cs
      else if c = 34 then c # repair_loop False cs
      else if c = 92 then
        (case cs of
           [] \<Rightarrow> [92, 92]
         | d # ds \<Rightarrow>
             if d = 117 \<and> 4 \<le> length ds \<and> list_all is_hex (take 4 ds)
             then 92 # 117 # take 4 ds @ repair_loop True (drop 4 ds)
             else if d \<in> set valid_escapes then 92 # d # repair_loop True ds
             else 92 # 92 # repair_loop True cs)
      else (if isControlCharacter c then escapeControlCharacter c else [c]) @ repair_loop True cs)"
  by pat_completeness auto
termination by (relation "measure (length \<circ> snd)") auto

definition repairJson :: "jstr \<Rightarrow> jstr" where
  "repairJson json = repair_loop False json"

definition parseJsonWithRepair :: "(jstr \<Rightarrow> json option) \<Rightarrow> jstr \<Rightarrow> json option" where
  "parseJsonWithRepair jsonParse json =
     (case jsonParse json of
        Some v \<Rightarrow> Some v
      | None \<Rightarrow> if repairJson json \<noteq> json then jsonParse (repairJson json) else None)"

definition or_empty_object :: "json \<Rightarrow> json" where
  "or_empty_object v = (if v = JNull then JObj [] else v)"

definition parseStreamingJson :: "(jstr \<Rightarrow> json option) \<Rightarrow> (jstr \<Rightarrow> json option) \<Rightarrow> jstr \<Rightarrow> json" where
  "parseStreamingJson jsonParse partialParse json =
     (if list_all js_space json then JObj []
      else case parseJsonWithRepair jsonParse json of
        Some v \<Rightarrow> v
      | None \<Rightarrow>
          (case partialParse json of
             Some v \<Rightarrow> or_empty_object v
           | None \<Rightarrow> (case partialParse (repairJson json) of Some v \<Rightarrow> or_empty_object v | None \<Rightarrow> JObj [])))"

section \<open>What the repair does\<close>

declare repair_loop.simps(2) [simp del]

lemma repair_outside: "repair_loop False (c # cs) = c # repair_loop (c = 34) cs"
  by (simp add: repair_loop.simps(2))

lemma repair_plain:
  assumes "c \<noteq> 34" "c \<noteq> 92" "\<not> isControlCharacter c"
  shows "repair_loop True (c # cs) = c # repair_loop True cs"
  using assms by (simp add: repair_loop.simps(2))

lemma repair_quote: "repair_loop True (34 # cs) = 34 # repair_loop False cs"
  by (simp add: repair_loop.simps(2))

lemma hex_plain: "is_hex c \<Longrightarrow> c \<noteq> 34 \<and> c \<noteq> 92 \<and> \<not> isControlCharacter c"
  by (auto simp: is_hex_def in_range_def isControlCharacter_def)

lemma repair_hex: "list_all is_hex hs \<Longrightarrow> repair_loop True (hs @ cs) = hs @ repair_loop True cs"
  by (induction hs) (simp_all add: repair_plain hex_plain)

text \<open>The look at the four digits makes no difference, because \<open>u\<close> is a valid escape anyway.\<close>

lemma repair_escape:
  "repair_loop True (92 # d # ds) =
     (if d \<in> set valid_escapes then 92 # d # repair_loop True ds else 92 # 92 # repair_loop True (d # ds))"
proof (cases "d = 117 \<and> 4 \<le> length ds \<and> list_all is_hex (take 4 ds)")
  case True
  then have "repair_loop True ds = take 4 ds @ repair_loop True (drop 4 ds)"
    using repair_hex[of "take 4 ds" "drop 4 ds"] by simp
  then show ?thesis using True by (simp add: repair_loop.simps(2) valid_escapes_def)
qed (auto simp: repair_loop.simps(2)[of True 92])

lemma hex_digit_hex: "n < 16 \<Longrightarrow> is_hex (hex_digit n)"
proof -
  have "list_all (\<lambda>n. is_hex (hex_digit n)) [0..<16]" by code_simp
  then show "n < 16 \<Longrightarrow> is_hex (hex_digit n)" by (simp add: list_all_iff)
qed

lemma repair_unicode: "repair_loop True (unicode_escape c @ cs) = unicode_escape c @ repair_loop True cs"
proof -
  define hs where "hs = [hex_digit (unat c div 4096), hex_digit (unat c div 256 mod 16), hex_digit (unat c div 16 mod 16),
    hex_digit (unat c mod 16)]"
  have "unat c div 4096 < 16" using unit_bound[of c] by simp
  then have hex: "list_all is_hex hs" by (simp add: hs_def hex_digit_hex)
  have u: "unicode_escape c = 92 # 117 # hs" by (simp add: unicode_escape_def Let_def hs_def js_def)
  show ?thesis unfolding u using repair_hex[OF hex, of cs] by (simp add: repair_escape valid_escapes_def)
qed

lemma repair_control: "repair_loop True (escapeControlCharacter c @ cs) = escapeControlCharacter c @ repair_loop True cs"
  using repair_unicode[of c cs] by (auto simp: escapeControlCharacter_def repair_escape valid_escapes_def)

text \<open>The repair is idempotent: a repaired text needs no further repair.\<close>
theorem repair_idempotent: "repairJson (repairJson json) = repairJson json"
proof -
  have "repair_loop b (repair_loop b s) = repair_loop b s" for b s
  proof (induction b s rule: repair_loop.induct)
    case (2 b c cs)
    consider "\<not> b" | "b" "c = 34" | "b" "c = 92" | "b" "c \<noteq> 34" "c \<noteq> 92" by blast
    then show ?case
    proof cases
      case 1
      then show ?thesis using 2(1) by (simp add: repair_outside)
    next
      case 2
      then show ?thesis using "2.IH"(2) by (simp add: repair_quote)
    next
      case 3
      show ?thesis
      proof (cases cs)
        case Nil
        then show ?thesis using 3 by (simp add: repair_loop.simps(2)[of True 92 "[]"]) (simp add: repair_escape valid_escapes_def)
      next
        case (Cons d ds)
        have IH: "repair_loop True (repair_loop True ds) = repair_loop True ds" if "d \<in> set valid_escapes"
        proof (cases "d = 117 \<and> 4 \<le> length ds \<and> list_all is_hex (take 4 ds)")
          case True
          have "repair_loop True ds = take 4 ds @ repair_loop True (drop 4 ds)"
            using repair_hex[of "take 4 ds" "drop 4 ds"] True by simp
          moreover have "repair_loop True (repair_loop True (drop 4 ds)) = repair_loop True (drop 4 ds)"
            using "2.IH"(3)[OF _ _ _ Cons True] 3 by simp
          ultimately show ?thesis using repair_hex[of "take 4 ds"] True by simp
        next
          case False
          then show ?thesis using "2.IH"(4)[OF _ _ _ Cons False that] 3 by simp
        qed
        show ?thesis
        proof (cases "d \<in> set valid_escapes")
          case True
          then show ?thesis using IH[OF True] 3 Cons by (simp add: repair_escape)
        next
          case False
          then have "d \<noteq> 117" by (auto simp: valid_escapes_def)
          then have "repair_loop True (repair_loop True cs) = repair_loop True cs"
            using "2.IH"(5)[OF _ _ _ Cons _ False] 3 by simp
          moreover have "92 \<in> set valid_escapes" by (simp add: valid_escapes_def)
          ultimately show ?thesis using 3 Cons False by (simp add: repair_escape)
        qed
      qed
    next
      case 4
      then have IH: "repair_loop True (repair_loop True cs) = repair_loop True cs" using "2.IH"(6) by simp
      show ?thesis
      proof (cases "isControlCharacter c")
        case True
        then have "repair_loop True (c # cs) = escapeControlCharacter c @ repair_loop True cs"
          using 4 by (simp add: repair_loop.simps(2))
        then show ?thesis using IH 4(1) repair_control by simp
      next
        case False
        then show ?thesis using repair_plain[OF 4(2,3) False] IH 4(1) by simp
      qed
    qed
  qed simp
  then show ?thesis by (simp add: repairJson_def)
qed

section \<open>Valid JSON is kept\<close>

lemma repair_quote_unit:
  "repair_loop True (quote_unit c @ cs) = quote_unit c @ repair_loop True cs"
proof -
  consider "c \<in> {8, 9, 10, 12, 13, 34, 92}" | "c \<notin> {8, 9, 10, 12, 13, 34, 92}" "c < 32" | "c \<notin> {8, 9, 10, 12, 13, 34, 92}" "\<not> c < 32"
    by blast
  then show ?thesis
  proof cases
    case 3
    then have "\<not> isControlCharacter c" by (auto simp: isControlCharacter_def word_less_nat_alt)
    then show ?thesis using 3 by (simp add: quote_unit_def repair_plain)
  qed (auto simp: quote_unit_def repair_escape valid_escapes_def repair_unicode)
qed

lemma surrogate_plain: "is_high c \<or> is_low c \<Longrightarrow> c \<noteq> 34 \<and> c \<noteq> 92 \<and> \<not> isControlCharacter c"
  by (auto simp: surrogate_unat isControlCharacter_def)

lemma repair_quote_units: "repair_loop True (quote_units s @ cs) = quote_units s @ repair_loop True cs"
proof (induction s rule: quote_units.induct)
  case (2 c)
  then show ?case by (simp add: repair_unicode repair_quote_unit)
next
  case (3 c d s)
  show ?case
  proof (cases "is_high c \<and> is_low d")
    case True
    then show ?thesis using 3(1) surrogate_plain[of c] surrogate_plain[of d] by (simp add: repair_plain)
  next
    case False
    then show ?thesis using 3(2)[OF False] by (auto simp: repair_unicode repair_quote_unit)
  qed
qed simp

lemma repair_no_quote: "34 \<notin> set t \<Longrightarrow> repair_loop False (t @ cs) = t @ repair_loop False cs"
  by (induction t) (auto simp: repair_outside)

lemma repair_quote_text: "repair_loop False (quote_text s @ cs) = quote_text s @ repair_loop False cs"
  by (simp add: quote_text_def repair_outside repair_quote_units repair_quote)

lemma repair_join:
  assumes "\<And>x cs. x \<in> set xs \<Longrightarrow> repair_loop False (x @ cs) = x @ repair_loop False cs" "34 \<notin> set sep"
  shows "repair_loop False (join_text sep xs @ cs) = join_text sep xs @ repair_loop False cs"
  using assms
proof (induction sep xs rule: join_text.induct)
  case (3 sep x y zs)
  then show ?case using repair_no_quote[of sep] by simp
qed simp_all

lemma nat_text_no_quote: "34 \<notin> set (nat_text n)"
proof (induction n rule: nat_text.induct)
  case (1 n)
  have "list_all (\<lambda>d. (of_nat (48 + d) :: code_unit) \<noteq> 34) [0..<10]" by code_simp
  then have d: "(of_nat (48 + d) :: code_unit) \<noteq> 34" if "d < 10" for d using that by (simp add: list_all_iff del: of_nat_add)
  show ?case using 1 d[of n] d[of "n mod 10"] by (subst nat_text.simps) (auto simp del: of_nat_add)
qed

lemma number_no_quote:
  assumes "\<And>x. 34 \<notin> set (dbl x)"
  shows "34 \<notin> set (number_text dbl x)"
  using assms nat_text_no_quote by (cases x) (auto simp: int_text_def js_def)

lemma repair_json_text:
  assumes "\<And>x. 34 \<notin> set (dbl x)"
  shows "repair_loop False (json_text dbl v @ cs) = json_text dbl v @ repair_loop False cs"
  using assms
proof (induction dbl v arbitrary: cs rule: json_text.induct)
  case (5 dbl xs)
  have join: "repair_loop False (join_text (js '','') (map (json_text dbl) xs) @ t) =
      join_text (js '','') (map (json_text dbl) xs) @ repair_loop False t" for t
    by (rule repair_join) (use 5 in \<open>auto simp: js_def\<close>)
  show ?case by (simp add: js_def repair_outside join[unfolded js_def, simplified])
next
  case (6 dbl ps)
  have m: "repair_loop False ((quote_text (fst kv) @ js '':'' @ json_text dbl (snd kv)) @ t) =
      (quote_text (fst kv) @ js '':'' @ json_text dbl (snd kv)) @ repair_loop False t" if "kv \<in> set ps" for kv t
  proof -
    have "repair_loop False (js '':'' @ u) = js '':'' @ repair_loop False u" for u by (rule repair_no_quote) (simp add: js_def)
    then show ?thesis using 6(1)[OF that 6(2)] by (simp add: repair_quote_text)
  qed
  let ?j = "join_text (js '','') (map (\<lambda>kv. quote_text (fst kv) @ js '':'' @ json_text dbl (snd kv)) ps)"
  have join: "repair_loop False (?j @ t) = ?j @ repair_loop False t" for t
    by (rule repair_join) (use m in \<open>auto simp: js_def\<close>)
  have b: "repair_loop False (js ''{'' @ u) = js ''{'' @ repair_loop False u" "repair_loop False (js ''}'' @ u) = js ''}'' @ repair_loop False u" for u
    by (rule repair_no_quote, simp add: js_def)+
  show ?case unfolding json_text.simps append.assoc b join by (rule refl)
qed (use repair_no_quote number_no_quote repair_quote_text in \<open>auto simp: js_def repair_outside\<close>)

text \<open>
  The repair leaves valid JSON alone: the text of any JSON value is unchanged by it, wherever its strings need
  escapes. (The text of a fraction has no quote.)
\<close>
theorem repair_keeps_json:
  assumes "\<And>x. 34 \<notin> set (dbl x)"
  shows "repairJson (json_text dbl v) = json_text dbl v"
  using repair_json_text[OF assms, where v = v and cs = "[]"] by (simp add: repairJson_def)

theorem repair_keeps_json_witness:
  "repairJson (json_text (\<lambda>_. []) (JObj [(js ''a'', JArr [JNum (NInt 12), JNull]), (js ''b'', JStr [34, 92, 10, 0xD800])])) =
     json_text (\<lambda>_. []) (JObj [(js ''a'', JArr [JNum (NInt 12), JNull]), (js ''b'', JStr [34, 92, 10, 0xD800])])"
  by (rule repair_keeps_json) simp

text \<open>
  An escape that starts with \<open>u\<close> but is followed by no hexadecimal number is invalid, and stays so: the look at
  the digits has no effect, and a backslash before the word users in a string is not doubled.
\<close>

lemma bad_unicode_escape_kept: "repairJson (js [CHR 0x22, CHR 0x5C] @ js ''users'' @ [34]) = js [CHR 0x22, CHR 0x5C] @ js ''users'' @ [34]"
  by code_simp

end
