(* ===== verification/Transcript.thy ===== *)
theory Transcript
  imports JsonText
begin

text \<open>
  The system prompt and the tools a transcript declares (\<open>packages/ai/src/utils/transcript.ts\<close>): replaying its
  system messages, collapsing them into one, and the difference of two tool sets. A \<open>Map\<close> is an association list
  in insertion order: \<open>set\<close> keeps the place of a key it has, \<open>delete\<close> gives it up. A section's name is no array
  index, as the code asks (an object would order those first). \<open>dbl\<close> is as in \<open>JsonText\<close>.
\<close>

section \<open>Replaying\<close>

definition createInitialSystemMessage :: "jstr option \<Rightarrow> tool list option \<Rightarrow> agent_message option" where
  "createInitialSystemMessage systemPrompt tools =
     (let hasSystemPrompt = (systemPrompt \<noteq> None \<and> the systemPrompt \<noteq> []); hasTools = (tools \<noteq> None \<and> the tools \<noteq> [])
      in if \<not> hasSystemPrompt \<and> \<not> hasTools then None
         else Some (SystemMessage \<lparr>sy_content = PlainText (case systemPrompt of None \<Rightarrow> [] | Some p \<Rightarrow> p), sy_sections = [],
           sy_toolsAdded = (if hasTools then the tools else []), sy_toolsRemoved = [], sy_timestamp = 0\<rparr>))"

definition normalizeContext :: "jstr option \<Rightarrow> tool list option \<Rightarrow> agent_message list \<Rightarrow> agent_message list" where
  "normalizeContext systemPrompt tools messages =
     (case createInitialSystemMessage systemPrompt tools of None \<Rightarrow> messages | Some m \<Rightarrow> m # messages)"

fun system_of :: "agent_message \<Rightarrow> system_message option" where
  "system_of (SystemMessage m) = Some m"
| "system_of m = None"

abbreviation isSystemMessage :: "agent_message \<Rightarrow> bool" where
  "isSystemMessage m \<equiv> system_of m \<noteq> None"

definition getInitialSystemMessage :: "agent_message list \<Rightarrow> system_message option" where
  "getInitialSystemMessage messages = (case messages of [] \<Rightarrow> None | m # ms \<Rightarrow> system_of m)"

definition withoutInitialSystemMessage :: "agent_message list \<Rightarrow> agent_message list" where
  "withoutInitialSystemMessage messages = (if getInitialSystemMessage messages = None then messages else tl messages)"

type_synonym tool_map = "(jstr \<times> tool) list"

definition apply_tools :: "jstr list \<Rightarrow> tool list \<Rightarrow> tool_map \<Rightarrow> tool_map" where
  "apply_tools removed added tools =
     fold (\<lambda>t. AList.update (to_name t) t) added (fold AList.delete removed tools)"

definition replay_tools :: "agent_message list \<Rightarrow> tool_map" where
  "replay_tools messages =
     fold (\<lambda>m. apply_tools (sy_toolsRemoved m) (sy_toolsAdded m)) (some_of system_of messages) []"

definition getCurrentTools :: "agent_message list \<Rightarrow> tool list" where
  "getCurrentTools messages = map snd (replay_tools messages)"

definition patch_section :: "jstr \<times> jstr option \<Rightarrow> (jstr \<times> jstr) list \<Rightarrow> (jstr \<times> jstr) list" where
  "patch_section nv sections =
     (case snd nv of None \<Rightarrow> AList.delete (fst nv) sections | Some v \<Rightarrow> AList.update (fst nv) v sections)"

definition replay_sections :: "system_message list \<Rightarrow> (jstr \<times> jstr) list" where
  "replay_sections ms = fold (\<lambda>m sections. fold patch_section (sy_sections m) sections) ms []"

definition replay_content :: "system_message list \<Rightarrow> jstr list" where
  "replay_content ms = filter (\<lambda>t. t \<noteq> []) (map (\<lambda>m. contentText (sy_content m) newline) ms)"

definition blank_line :: jstr where "blank_line = [10, 10]"

definition getCurrentSystemMessage :: "agent_message list \<Rightarrow> system_message option" where
  "getCurrentSystemMessage messages =
     (let ms = some_of system_of messages; tools = getCurrentTools messages
      in if ms = [] \<and> tools = [] then None
         else Some \<lparr>sy_content = PlainText (join_text blank_line (replay_content ms)),
           sy_sections = map (\<lambda>nv. (fst nv, Some (snd nv))) (replay_sections ms),
           sy_toolsAdded = tools, sy_toolsRemoved = [],
           sy_timestamp = (case ms of [] \<Rightarrow> 0 | m # _ \<Rightarrow> sy_timestamp m)\<rparr>)"

definition getSystemMessageText :: "system_message \<Rightarrow> jstr" where
  "getSystemMessageText m =
     join_text blank_line (filter (\<lambda>p. p \<noteq> []) (contentText (sy_content m) newline # some_of snd (sy_sections m)))"

definition renderSystemMessageUpdate :: "system_message \<Rightarrow> jstr" where
  "renderSystemMessageUpdate m =
     (let text = contentText (sy_content m) newline in
      join_text blank_line ((if text \<noteq> [] then [text] else []) @
        map (\<lambda>nv. case snd nv of
            None \<Rightarrow> js ''Removed system prompt section '' @ [34] @ fst nv @ [34] @ js ''.''
          | Some v \<Rightarrow> js ''Updated system prompt section '' @ [34] @ fst nv @ [34] @ js '':'' @ blank_line @ v) (sy_sections m)))"

definition getCurrentSystemPrompt :: "agent_message list \<Rightarrow> jstr" where
  "getCurrentSystemPrompt messages =
     (case getCurrentSystemMessage messages of None \<Rightarrow> [] | Some m \<Rightarrow> getSystemMessageText m)"

definition collapseSystemMessages :: "agent_message list \<Rightarrow> agent_message list" where
  "collapseSystemMessages messages =
     (let rest = filter (\<lambda>m. \<not> isSystemMessage m) messages
      in case getCurrentSystemMessage messages of None \<Rightarrow> rest | Some h \<Rightarrow> SystemMessage h # rest)"

definition resolveTranscript :: "agent_message list \<Rightarrow> bool option \<Rightarrow> agent_message list" where
  "resolveTranscript messages supportsMidConvoSystemMessages =
     (if supportsMidConvoSystemMessages = Some True then messages else collapseSystemMessages messages)"

section \<open>Differences of tool sets\<close>

text \<open>The parameters are a JSON value, which the round trip through JSON text keeps.\<close>

definition toToolDeclaration :: "'a tool_scheme \<Rightarrow> tool" where
  "toToolDeclaration t = \<lparr>to_name = to_name t, to_description = to_description t, to_parameters = to_parameters t,
     to_constrainedSampling = to_constrainedSampling t\<rparr>"

definition declaration_json :: "tool \<Rightarrow> json" where
  "declaration_json t = JObj ([(js ''name'', JStr (to_name t)), (js ''description'', JStr (to_description t)),
     (js ''parameters'', to_parameters t)] @
     (case to_constrainedSampling t of None \<Rightarrow> [] | Some c \<Rightarrow> [(js ''constrainedSampling'', c)]))"

definition declarationsEqual :: "(number \<Rightarrow> jstr) \<Rightarrow> 'a tool_scheme \<Rightarrow> 'b tool_scheme \<Rightarrow> bool" where
  "declarationsEqual dbl left right \<longleftrightarrow>
     json_text dbl (declaration_json (toToolDeclaration left)) = json_text dbl (declaration_json (toToolDeclaration right))"

text \<open>\<open>new Map(list)\<close>: a later entry replaces an earlier one of the same name.\<close>

definition tools_by_name :: "'a tool_scheme list \<Rightarrow> jstr \<Rightarrow> 'a tool_scheme option" where
  "tools_by_name ts = map_of (rev (map (\<lambda>t. (to_name t, t)) ts))"

record tool_state_changes =
  ch_toolsAdded :: "tool list"
  ch_toolsRemoved :: "jstr list"

definition getToolStateChanges :: "(number \<Rightarrow> jstr) \<Rightarrow> tool list \<Rightarrow> tool list \<Rightarrow> tool_state_changes" where
  "getToolStateChanges dbl previous current =
     \<lparr>ch_toolsAdded = map toToolDeclaration (filter (\<lambda>t. case tools_by_name previous (to_name t) of
          None \<Rightarrow> True | Some p \<Rightarrow> \<not> declarationsEqual dbl p t) current),
      ch_toolsRemoved = map to_name (filter (\<lambda>t. case tools_by_name current (to_name t) of
          None \<Rightarrow> True | Some c \<Rightarrow> \<not> declarationsEqual dbl t c) previous)\<rparr>"

section \<open>Declared tools\<close>

definition getDeclaredTools :: "agent_message list \<Rightarrow> tool list" where
  "getDeclaredTools messages =
     map snd (fold (\<lambda>t. AList.update (to_name t) t) (concat (map sy_toolsAdded (some_of system_of messages))) [])"

fun redefined :: "(number \<Rightarrow> jstr) \<Rightarrow> tool_map \<Rightarrow> tool list \<Rightarrow> bool" where
  "redefined dbl declared [] = False"
| "redefined dbl declared (t # ts) =
     (case map_of declared (to_name t) of
        Some p \<Rightarrow> if declarationsEqual dbl p t then redefined dbl (AList.update (to_name t) t declared) ts else True
      | None \<Rightarrow> redefined dbl (AList.update (to_name t) t declared) ts)"

definition hasToolRedefinitions :: "(number \<Rightarrow> jstr) \<Rightarrow> agent_message list \<Rightarrow> bool" where
  "hasToolRedefinitions dbl messages = redefined dbl [] (concat (map sy_toolsAdded (some_of system_of messages)))"

text \<open>The names declared so far, and the messages that are left.\<close>

fun non_additive :: "jstr list \<Rightarrow> system_message list \<Rightarrow> bool" where
  "non_additive declared [] = False"
| "non_additive declared (m # ms) =
     (if sy_toolsRemoved m \<noteq> [] then True
      else let names = map to_name (sy_toolsAdded m)
        in if \<not> distinct names \<or> set names \<inter> set declared \<noteq> {} then True else non_additive (declared @ names) ms)"

definition hasNonAdditiveToolChanges :: "agent_message list \<Rightarrow> bool" where
  "hasNonAdditiveToolChanges messages = non_additive [] (some_of system_of messages)"

definition resolveTranscriptTools :: "agent_message list \<Rightarrow> bool \<Rightarrow> tool list \<times> bool" where
  "resolveTranscriptTools messages supportsToolAdditions =
     (let anchorsAdditions = (supportsToolAdditions \<and> \<not> hasNonAdditiveToolChanges messages)
      in (if anchorsAdditions then (case getInitialSystemMessage messages of None \<Rightarrow> [] | Some m \<Rightarrow> sy_toolsAdded m)
          else getCurrentTools messages, anchorsAdditions))"

section \<open>Well-formed maps\<close>

definition map_ok :: "tool_map \<Rightarrow> bool" where
  "map_ok m \<longleftrightarrow> distinct (map fst m) \<and> (\<forall>kt \<in> set m. fst kt = to_name (snd kt))"

lemma map_ok_update: "map_ok m \<Longrightarrow> map_ok (AList.update (to_name t) t m)"
proof -
  assume m: "map_ok m"
  have "fst kt = to_name (snd kt)" if "kt \<in> set (AList.update (to_name t) t m)" for kt
    using that m by (induction m) (auto simp: map_ok_def split: if_splits)
  then show ?thesis using m distinct_update by (auto simp: map_ok_def)
qed

lemma map_ok_delete: "map_ok m \<Longrightarrow> map_ok (AList.delete k m)"
  using distinct_delete by (auto simp: map_ok_def AList.delete_eq)

lemma map_ok_apply: "map_ok m \<Longrightarrow> map_ok (apply_tools removed added m)"
proof -
  assume "map_ok m"
  then have "map_ok (fold AList.delete removed m)" by (induction removed arbitrary: m) (auto simp: map_ok_delete)
  then show ?thesis unfolding apply_tools_def
    by (induction added arbitrary: removed m rule: rev_induct) (auto simp: map_ok_update)
qed

lemma map_ok_replay: "map_ok (replay_tools messages)"
proof -
  have "map_ok (fold (\<lambda>m. apply_tools (sy_toolsRemoved m) (sy_toolsAdded m)) ms t)" if "map_ok t" for ms t
    using that by (induction ms arbitrary: t) (auto simp: map_ok_apply)
  moreover have "map_ok []" by (simp add: map_ok_def)
  ultimately show ?thesis unfolding replay_tools_def by blast
qed

lemma alist_update_new: "k \<notin> fst ` set m \<Longrightarrow> AList.update k v m = m @ [(k, v)]"
  by (induction m) auto

text \<open>Adding the tools of a map one by one to one that has none of them appends it.\<close>

lemma update_all:
  "distinct (map fst (m @ n)) \<Longrightarrow> \<forall>kt \<in> set n. fst kt = to_name (snd kt) \<Longrightarrow>
    fold (\<lambda>t. AList.update (to_name t) t) (map snd n) m = m @ n"
proof (induction n arbitrary: m)
  case (Cons kt n)
  have k: "fst kt = to_name (snd kt)" using Cons.prems(2) by simp
  moreover have "fst kt \<notin> fst ` set m" using Cons.prems(1) by auto
  ultimately have "to_name (snd kt) \<notin> fst ` set m" by simp
  then have "AList.update (to_name (snd kt)) (snd kt) m = m @ [kt]"
  proof -
    have "(to_name (snd kt), snd kt) = kt" using k by (intro prod_eqI) simp_all
    then show ?thesis using alist_update_new[OF \<open>to_name (snd kt) \<notin> fst ` set m\<close>, of "snd kt"] by simp
  qed
  then show ?case using Cons by simp
qed simp

section \<open>Collapsing\<close>

lemma sections_distinct: "distinct (map fst s) \<Longrightarrow> distinct (map fst (fold patch_section nvs s))"
  by (induction nvs arbitrary: s) (auto simp: patch_section_def distinct_update distinct_delete split: option.splits)

lemma replay_sections_distinct: "distinct (map fst (replay_sections ms))"
proof -
  have "distinct (map fst (fold (\<lambda>m sections. fold patch_section (sy_sections m) sections) ms s))" if "distinct (map fst s)" for s
    using that by (induction ms arbitrary: s) (auto simp: sections_distinct)
  then show ?thesis by (simp add: replay_sections_def)
qed

lemma patch_all:
  "distinct (map fst (s @ t)) \<Longrightarrow> fold patch_section (map (\<lambda>nv. (fst nv, Some (snd nv))) t) s = s @ t"
proof (induction t arbitrary: s)
  case (Cons nv t)
  then have "AList.update (fst nv) (snd nv) s = s @ [nv]" using alist_update_new[of "fst nv" s "snd nv"] by auto
  then show ?case using Cons by (simp add: patch_section_def)
qed simp

lemma collapse_systems:
  "some_of system_of (collapseSystemMessages messages) =
    (case getCurrentSystemMessage messages of None \<Rightarrow> [] | Some h \<Rightarrow> [h])"
proof -
  have "some_of system_of (filter (\<lambda>m. \<not> isSystemMessage m) messages) = []"
    by (induction messages) (auto simp: some_of_def)
  then show ?thesis by (simp add: collapseSystemMessages_def Let_def some_of_def split: option.splits)
qed

lemma no_system_tools: "some_of system_of messages = [] \<Longrightarrow> getCurrentTools messages = []"
  by (simp add: getCurrentTools_def replay_tools_def)

text \<open>
  C32. Collapsing a transcript loses nothing: the collapsed transcript has at most one system message, in front, every
  other message in its place, replays to the same tools, the same system message and so the same prompt, and is not
  changed by collapsing it again.
\<close>
theorem collapse_keeps:
  "let c = collapseSystemMessages messages in
    filter (\<lambda>m. \<not> isSystemMessage m) c = filter (\<lambda>m. \<not> isSystemMessage m) messages \<and>
    filter isSystemMessage (tl c) = [] \<and>
    getCurrentTools c = getCurrentTools messages \<and> getCurrentSystemMessage c = getCurrentSystemMessage messages \<and>
    getCurrentSystemPrompt c = getCurrentSystemPrompt messages \<and> collapseSystemMessages c = c"
proof -
  define c where "c = collapseSystemMessages messages"
  have ms: "some_of system_of c = (case getCurrentSystemMessage messages of None \<Rightarrow> [] | Some h \<Rightarrow> [h])"
    by (simp add: c_def collapse_systems)
  have current: "getCurrentTools c = getCurrentTools messages \<and> getCurrentSystemMessage c = getCurrentSystemMessage messages"
  proof (cases "getCurrentSystemMessage messages")
    case None
    then have "some_of system_of messages = []" by (simp add: getCurrentSystemMessage_def Let_def split: if_splits)
    then show ?thesis using None ms no_system_tools by (simp add: getCurrentSystemMessage_def)
  next
    case (Some h)
    let ?ms = "some_of system_of messages"
    have h: "sy_content h = PlainText (join_text blank_line (replay_content ?ms))"
      "sy_sections h = map (\<lambda>nv. (fst nv, Some (snd nv))) (replay_sections ?ms)"
      "sy_toolsAdded h = getCurrentTools messages" "sy_toolsRemoved h = []"
      using Some by (auto simp: getCurrentSystemMessage_def Let_def split: if_splits)
    have systems: "some_of system_of c = [h]" using ms Some by simp
    have "replay_tools c = replay_tools messages"
      using update_all[of "[]" "replay_tools messages"] map_ok_replay[of messages]
      unfolding replay_tools_def[of c] systems by (simp add: h apply_tools_def getCurrentTools_def map_ok_def)
    then have tools: "getCurrentTools c = getCurrentTools messages" by (simp add: getCurrentTools_def)
    have sections: "replay_sections [h] = replay_sections ?ms"
      using patch_all[of "[]" "replay_sections ?ms"] replay_sections_distinct by (simp add: replay_sections_def[of "[h]"] h)
    have content: "join_text blank_line (replay_content [h]) = join_text blank_line (replay_content ?ms)"
      by (simp add: replay_content_def[of "[h]"] h)
    have "getCurrentSystemMessage c = Some h"
      using Some unfolding getCurrentSystemMessage_def Let_def systems tools sections content
      by (auto simp: h split: if_splits)
    then show ?thesis using tools Some by simp
  qed
  have tl: "x \<in> set (tl xs) \<Longrightarrow> x \<in> set xs" for x :: agent_message and xs by (cases xs) auto
  have rest: "filter (\<lambda>m. \<not> isSystemMessage m) c = filter (\<lambda>m. \<not> isSystemMessage m) messages"
    "\<forall>m \<in> set (tl c). \<not> isSystemMessage m"
    by (auto simp: c_def collapseSystemMessages_def Let_def split: option.splits dest: tl)
  have "collapseSystemMessages c = collapseSystemMessages messages"
    unfolding collapseSystemMessages_def Let_def rest(1) using current by simp
  then show ?thesis using current rest unfolding c_def[symmetric] Let_def by (simp add: getCurrentSystemPrompt_def)
qed

section \<open>Additive tool histories\<close>

lemma non_additive_replay:
  assumes "\<not> non_additive declared ms" "map_ok m" "map fst m = declared"
  shows "map snd (fold (\<lambda>m. apply_tools (sy_toolsRemoved m) (sy_toolsAdded m)) ms m) = map snd m @ concat (map sy_toolsAdded ms)"
  using assms
proof (induction ms arbitrary: declared m)
  case (Cons s ms)
  let ?names = "map to_name (sy_toolsAdded s)"
  have s: "sy_toolsRemoved s = []" "distinct ?names" "set ?names \<inter> set declared = {}" "\<not> non_additive (declared @ ?names) ms"
    using Cons.prems(1) by (simp_all add: Let_def split: if_splits)
  define m' where "m' = m @ map (\<lambda>t. (to_name t, t)) (sy_toolsAdded s)"
  have names: "map fst m' = declared @ ?names" using Cons.prems(3) by (simp add: m'_def comp_def)
  have "distinct (map fst m')" unfolding names using s(2,3) Cons.prems(2,3) by (auto simp: map_ok_def)
  then have ok: "map_ok m'" using Cons.prems(2) by (auto simp: map_ok_def m'_def)
  have "map snd (map (\<lambda>t. (to_name t, t)) (sy_toolsAdded s)) = sy_toolsAdded s" by (simp add: comp_def)
  then have "apply_tools (sy_toolsRemoved s) (sy_toolsAdded s) m = m'"
    using update_all[of m "map (\<lambda>t. (to_name t, t)) (sy_toolsAdded s)"] \<open>distinct (map fst m')\<close>
    by (simp add: apply_tools_def s(1) m'_def)
  then show ?case using Cons.IH[OF s(4) ok names] by (simp add: m'_def comp_def)
qed simp

text \<open>
  A transport that anchors additions sends every tool once: when the tool history only adds, the tools of the
  leading message together with those of the later ones, in order, are exactly the current tools, with distinct names;
  otherwise the request carries the current tools.
\<close>
theorem transcript_tools_complete:
  "let r = resolveTranscriptTools messages supports in
    if snd r
    then fst r @ concat (map sy_toolsAdded (some_of system_of
        (if getInitialSystemMessage messages = None then messages else tl messages))) = getCurrentTools messages \<and>
      distinct (map to_name (getCurrentTools messages))
    else fst r = getCurrentTools messages"
proof (cases "supports \<and> \<not> hasNonAdditiveToolChanges messages")
  case True
  have ok: "map_ok (replay_tools messages)" by (rule map_ok_replay)
  then have "map to_name (getCurrentTools messages) = map fst (replay_tools messages)"
    by (auto simp: getCurrentTools_def map_ok_def comp_def)
  then have d: "distinct (map to_name (getCurrentTools messages))" using ok by (simp add: map_ok_def)
  have "getCurrentTools messages = concat (map sy_toolsAdded (some_of system_of messages))"
    using non_additive_replay[of "[]" "some_of system_of messages" "[]"] True
    by (simp add: getCurrentTools_def replay_tools_def hasNonAdditiveToolChanges_def map_ok_def)
  moreover have "some_of system_of messages = (case getInitialSystemMessage messages of None \<Rightarrow> [] | Some m \<Rightarrow> [m]) @
      some_of system_of (if getInitialSystemMessage messages = None then messages else tl messages)"
    by (cases messages) (auto simp: getInitialSystemMessage_def some_of_def split: option.splits)
  ultimately show ?thesis
    using True d by (auto simp: resolveTranscriptTools_def Let_def split: option.splits)
qed (auto simp: resolveTranscriptTools_def Let_def)

section \<open>Applying a difference\<close>

lemma declarationsEqual_refl: "declarationsEqual dbl (toToolDeclaration t) t"
  by (simp add: declarationsEqual_def toToolDeclaration_def)

lemma tools_by_name_map:
  assumes "map_ok m"
  shows "tools_by_name (map snd m) n = map_of m n"
proof -
  have "map (\<lambda>t. (to_name t, t)) (map snd m) = m"
    using assms by (auto simp: map_ok_def comp_def intro!: map_idI)
  moreover have "map_of (rev m) n = Some t \<longleftrightarrow> map_of m n = Some t" for t
    using assms by (simp add: map_ok_def map_of_eq_Some_iff flip: rev_map)
  then have "map_of (rev m) n = map_of m n" by (cases "map_of m n"; cases "map_of (rev m) n") fastforce+
  ultimately show ?thesis by (simp add: tools_by_name_def)
qed

lemma tools_by_name_Some: "tools_by_name ts n = Some t \<Longrightarrow> t \<in> set ts \<and> to_name t = n"
  unfolding tools_by_name_def by (drule map_of_SomeD) auto

lemma tools_by_name_None: "tools_by_name ts n = None \<longleftrightarrow> n \<notin> to_name ` set ts"
  by (simp add: tools_by_name_def map_of_eq_None_iff image_image)

lemma tools_by_name_distinct:
  assumes "distinct (map to_name ts)" "t \<in> set ts"
  shows "tools_by_name ts (to_name t) = Some t"
proof -
  obtain u where "tools_by_name ts (to_name t) = Some u"
    using assms(2) tools_by_name_None[of ts "to_name t"] by (cases "tools_by_name ts (to_name t)") auto
  then show ?thesis using tools_by_name_Some[of ts "to_name t" u] assms by (auto simp: distinct_map inj_on_def)
qed

lemma delete_all: "map_of (fold AList.delete ks m) n = (if n \<in> set ks then None else map_of m n)"
  by (induction ks arbitrary: m) (auto simp: delete_conv)

lemma update_lookup:
  "map_of (fold (\<lambda>t. AList.update (to_name t) t) ts m) n = (case tools_by_name ts n of None \<Rightarrow> map_of m n | Some t \<Rightarrow> Some t)"
  by (induction ts arbitrary: m rule: rev_induct) (auto simp: tools_by_name_def update_conv split: option.splits)

text \<open>The difference of two tool sets, applied to the first, gives the second, up to equal declarations.\<close>

lemma changes_applied:
  fixes dbl :: "number \<Rightarrow> jstr" and m :: tool_map
  assumes m: "map_ok m" and cur: "distinct (map to_name current)"
  defines "ch \<equiv> getToolStateChanges dbl (map snd m) current"
  shows "rel_option (declarationsEqual dbl) (map_of (apply_tools (ch_toolsRemoved ch) (ch_toolsAdded ch) m) n) (tools_by_name current n)"
proof -
  have prev: "tools_by_name (map snd m) k = map_of m k" for k by (rule tools_by_name_map[OF m])
  have look: "map_of (apply_tools (ch_toolsRemoved ch) (ch_toolsAdded ch) m) n =
      (case tools_by_name (ch_toolsAdded ch) n of None \<Rightarrow> if n \<in> set (ch_toolsRemoved ch) then None else map_of m n | Some t \<Rightarrow> Some t)"
    unfolding apply_tools_def update_lookup delete_all ..
  have removed: "n \<in> set (ch_toolsRemoved ch) \<longleftrightarrow> (\<exists>p. map_of m n = Some p \<and>
      (case tools_by_name current n of None \<Rightarrow> True | Some c \<Rightarrow> \<not> declarationsEqual dbl p c))"
  proof -
    have "p \<in> snd ` set m \<and> to_name p = n \<longleftrightarrow> map_of m n = Some p" for p
      using m by (force simp: map_ok_def image_iff dest: map_of_SomeD map_of_is_SomeI)
    then show ?thesis unfolding ch_def getToolStateChanges_def by (auto simp: image_iff) metis+
  qed
  have names: "to_name (toToolDeclaration t) = to_name t" for t by (simp add: toToolDeclaration_def)
  have added: "tools_by_name (ch_toolsAdded ch) n =
      (case tools_by_name current n of None \<Rightarrow> None
       | Some t \<Rightarrow> if (case map_of m n of None \<Rightarrow> True | Some p \<Rightarrow> \<not> declarationsEqual dbl p t) then Some (toToolDeclaration t) else None)"
  proof -
    let ?new = "\<lambda>t. case map_of m (to_name t) of None \<Rightarrow> True | Some p \<Rightarrow> \<not> declarationsEqual dbl p t"
    have a: "ch_toolsAdded ch = map toToolDeclaration (filter ?new current)" by (simp add: ch_def getToolStateChanges_def prev)
    have d: "distinct (map to_name (ch_toolsAdded ch))"
      unfolding a by (simp add: comp_def names distinct_map_filter[OF cur])
    show ?thesis
    proof (cases "tools_by_name current n")
      case None
      then have "n \<notin> to_name ` set (ch_toolsAdded ch)" by (auto simp: tools_by_name_None a names)
      then have "tools_by_name (ch_toolsAdded ch) n = None" by (simp add: tools_by_name_None)
      then show ?thesis using None by simp
    next
      case (Some t)
      have t: "t \<in> set current" "to_name t = n" using tools_by_name_Some[OF Some] by simp_all
      show ?thesis
      proof (cases "?new t")
        case True
        then have "toToolDeclaration t \<in> set (ch_toolsAdded ch)" using t(1) by (simp add: a)
        from tools_by_name_distinct[OF d this] show ?thesis using Some t(2) True by (simp add: names)
      next
        case False
        have "n \<notin> to_name ` set (ch_toolsAdded ch)"
        proof
          assume "n \<in> to_name ` set (ch_toolsAdded ch)"
          then obtain u where "u \<in> set current" "?new u" "to_name u = n" by (auto simp: a names)
          then show False using False t cur by (auto simp: distinct_map inj_on_def)
        qed
        then have "tools_by_name (ch_toolsAdded ch) n = None" by (simp add: tools_by_name_None)
        then show ?thesis using Some t(2) False by simp
      qed
    qed
  qed
  show ?thesis unfolding look added removed
    by (auto simp: declarationsEqual_refl split: option.splits)
qed

end
