(* ===== verification/AgentTypes.thy ===== *)
theory AgentTypes
  imports Transcript
begin

text \<open>
  The types of the agent loop (\<open>packages/agent/src/types.ts\<close>) and its state. What the loop calls (the model's
  stream, the tools, the configured callbacks, the event sink) is a record of functions over a state \<open>'w\<close> of the
  world, which also decides how concurrent tools interleave; an absent callback that only returns something is one
  that returns nothing. By their contracts the callbacks do not throw, except tools, the argument check and the hooks
  around a tool call, whose errors are values.
\<close>

section \<open>Tools and their results\<close>

datatype execution_mode = Sequential | Parallel

record agent_tool = tool +
  at_executionMode :: "execution_mode option"

record agent_call =
  ca_id :: jstr
  ca_name :: jstr
  ca_arguments :: "(jstr \<times> json) list"

record tool_output =
  ou_content :: "content_block list option"
  ou_details :: "json option"
  ou_usage :: "number usage option"
  ou_terminate :: "bool option"

record before_result =
  br_block :: bool
  br_reason :: "jstr option"
  br_terminate :: "bool option"

record after_result =
  ar_content :: "content_block list option"
  ar_details :: "json option"
  ar_isError :: "bool option"
  ar_usage :: "number usage option"
  ar_terminate :: "bool option"

fun call_of :: "content_block \<Rightarrow> agent_call option" where
  "call_of (ToolCallBlock i n args) = Some \<lparr>ca_id = i, ca_name = n, ca_arguments = args\<rparr>"
| "call_of b = None"

definition tool_calls :: "assistant_message \<Rightarrow> agent_call list" where
  "tool_calls m = some_of call_of (as_content m)"

section \<open>Events\<close>

datatype agent_event =
    AgentStart
  | AgentEnd "agent_message list"
  | TurnStart
  | TurnEnd assistant_message "tool_result list"
  | MessageStart agent_message
  | MessageUpdate assistant_message
  | MessageEnd agent_message
  | ToolBatchStart "(jstr \<times> jstr) list"
  | ToolExecutionStart agent_call
  | ToolExecutionUpdate agent_call tool_output
  | ToolExecutionEnd agent_call tool_output bool

text \<open>What a response streams; its end is either a terminal event or the end of the iteration.\<close>

datatype stream_part = PartStart assistant_message | PartUpdate assistant_message | PartTerminal

section \<open>Context, configuration and host\<close>

type_synonym model = json

record loop_config =
  cf_model :: model
  cf_reasoning :: "jstr option"
  cf_toolExecution :: "execution_mode option"
  cf_apiKey :: "jstr option"

record agent_context =
  cx_messages :: "agent_message list"
  cx_tools :: "agent_tool list"

record completed_turn =
  ct_message :: assistant_message
  ct_toolResults :: "tool_result list"
  ct_context :: agent_context
  ct_newMessages :: "agent_message list"

record turn_update =
  tu_context :: "agent_context option"
  tu_messages :: "agent_message list option"
  tu_model :: "model option"
  tu_thinkingLevel :: "jstr option"

record call_context =
  cc_assistantMessage :: assistant_message
  cc_toolCall :: agent_call
  cc_args :: json
  cc_context :: agent_context

record 'w host =
  ho_emit :: "agent_event \<Rightarrow> 'w \<Rightarrow> 'w"
  ho_aborted :: "'w \<Rightarrow> bool"
  ho_now :: "'w \<Rightarrow> int"
  ho_getSteeringMessages :: "'w \<Rightarrow> agent_message list \<times> 'w"
  ho_getFollowUpMessages :: "'w \<Rightarrow> agent_message list \<times> 'w"
  ho_prepareNextTurn :: "completed_turn \<Rightarrow> 'w \<Rightarrow> turn_update option \<times> 'w"
  ho_shouldStopAfterTurn :: "completed_turn \<Rightarrow> 'w \<Rightarrow> bool \<times> 'w"
  ho_transformContext :: "agent_message list \<Rightarrow> 'w \<Rightarrow> agent_message list \<times> 'w"
  ho_convertToLlm :: "agent_message list \<Rightarrow> 'w \<Rightarrow> agent_message list \<times> 'w"
  ho_getApiKey :: "model \<Rightarrow> 'w \<Rightarrow> jstr option \<times> 'w"
  ho_stream :: "loop_config \<Rightarrow> agent_message list \<Rightarrow> 'w \<Rightarrow> (stream_part list \<times> assistant_message) \<times> 'w"
  ho_validate :: "agent_tool \<Rightarrow> agent_call \<Rightarrow> 'w \<Rightarrow> (jstr + json) \<times> 'w"
  ho_beforeToolCall :: "(call_context \<Rightarrow> 'w \<Rightarrow> (jstr + before_result option) \<times> 'w) option"
  ho_execute :: "agent_tool \<Rightarrow> jstr \<Rightarrow> json \<Rightarrow> 'w \<Rightarrow> (tool_output list \<times> (jstr + tool_output)) \<times> 'w"
  ho_afterToolCall ::
    "(call_context \<Rightarrow> tool_output \<Rightarrow> bool \<Rightarrow> 'w \<Rightarrow> (jstr + after_result option) \<times> 'w) option"
  ho_schedule :: "'w \<Rightarrow> nat \<times> 'w"

section \<open>The state of the loop\<close>

text \<open>\<open>ls_events\<close> are the events emitted so far.\<close>

record 'w loop_state =
  ls_context :: agent_context
  ls_config :: loop_config
  ls_newMessages :: "agent_message list"
  ls_lastTurn :: "completed_turn option"
  ls_pending :: "agent_message list"
  ls_more :: bool
  ls_events :: "agent_event list"
  ls_world :: 'w

definition emit :: "'w host \<Rightarrow> agent_event \<Rightarrow> 'w loop_state \<Rightarrow> 'w loop_state" where
  "emit h e st = st\<lparr>ls_events := ls_events st @ [e], ls_world := ho_emit h e (ls_world st)\<rparr>"

definition ask :: "('w \<Rightarrow> 'a \<times> 'w) \<Rightarrow> 'w loop_state \<Rightarrow> 'a \<times> 'w loop_state" where
  "ask f st = (case f (ls_world st) of (x, w) \<Rightarrow> (x, st\<lparr>ls_world := w\<rparr>))"

definition aborted :: "'w host \<Rightarrow> 'w loop_state \<Rightarrow> bool" where
  "aborted h st = ho_aborted h (ls_world st)"

definition push_context :: "agent_message \<Rightarrow> 'w loop_state \<Rightarrow> 'w loop_state" where
  "push_context m st = st\<lparr>ls_context := (ls_context st)\<lparr>cx_messages := cx_messages (ls_context st) @ [m]\<rparr>\<rparr>"

definition push_new :: "agent_message \<Rightarrow> 'w loop_state \<Rightarrow> 'w loop_state" where
  "push_new m st = st\<lparr>ls_newMessages := ls_newMessages st @ [m]\<rparr>"

definition set_last :: "agent_message \<Rightarrow> 'w loop_state \<Rightarrow> 'w loop_state" where
  "set_last m st = st\<lparr>ls_context := (ls_context st)\<lparr>cx_messages := butlast (cx_messages (ls_context st)) @ [m]\<rparr>\<rparr>"

definition emit_message :: "'w host \<Rightarrow> agent_message \<Rightarrow> 'w loop_state \<Rightarrow> 'w loop_state" where
  "emit_message h m st = emit h (MessageEnd m) (emit h (MessageStart m) st)"

end
