(* ===== verification/ToolExecution.thy ===== *)
theory ToolExecution
  imports AgentTypes "HOL-Library.Multiset"
begin

text \<open>
  The execution of an assistant message's tool calls (\<open>packages/agent/src/agent-loop.ts\<close>): one after the other, or
  checked in order and then run concurrently, with the results in the order of the calls.
\<close>

section \<open>One call\<close>

definition createErrorToolResult :: "jstr \<Rightarrow> tool_output" where
  "createErrorToolResult message =
     \<lparr>ou_content = Some [TextBlock message None], ou_details = Some (JObj []), ou_usage = None, ou_terminate = None\<rparr>"

record finalized_call =
  fc_toolCall :: agent_call
  fc_result :: tool_output
  fc_isError :: bool

record prepared_call =
  pc_toolCall :: agent_call
  pc_tool :: agent_tool
  pc_args :: json

definition find_tool :: "agent_context \<Rightarrow> jstr \<Rightarrow> agent_tool option" where
  "find_tool cx name = List.find (\<lambda>t. to_name t = name) (cx_tools cx)"

definition failed_call :: "agent_call \<Rightarrow> jstr \<Rightarrow> finalized_call" where
  "failed_call c message = \<lparr>fc_toolCall = c, fc_result = createErrorToolResult message, fc_isError = True\<rparr>"

definition operation_aborted :: jstr where
  "operation_aborted = js ''Operation aborted''"

definition blocked_call :: "agent_call \<Rightarrow> before_result \<Rightarrow> finalized_call" where
  "blocked_call c br =
     (let r = createErrorToolResult (case br_reason br of None \<Rightarrow> js ''Tool execution was blocked''
         | Some t \<Rightarrow> if t = [] then js ''Tool execution was blocked'' else t)
      in \<lparr>fc_toolCall = c, fc_result = (if br_terminate br = Some True then r\<lparr>ou_terminate := Some True\<rparr> else r),
          fc_isError = True\<rparr>)"

text \<open>\<open>Inl\<close> is the immediate outcome.\<close>

definition prepareToolCall ::
    "'w host \<Rightarrow> assistant_message \<Rightarrow> agent_call \<Rightarrow> 'w loop_state \<Rightarrow> (finalized_call + prepared_call) \<times> 'w loop_state" where
  "prepareToolCall h message c st =
     (case find_tool (ls_context st) (ca_name c) of
        None \<Rightarrow> (Inl (failed_call c (js ''Tool '' @ ca_name c @ js '' not found'')), st)
      | Some t \<Rightarrow>
          (case ask (ho_validate h t c) st of
             (Inl e, st1) \<Rightarrow> (Inl (failed_call c e), st1)
           | (Inr args, st1) \<Rightarrow>
               (case ho_beforeToolCall h of
                  None \<Rightarrow>
                    if aborted h st1 then (Inl (failed_call c operation_aborted), st1)
                    else (Inr \<lparr>pc_toolCall = c, pc_tool = t, pc_args = args\<rparr>, st1)
                | Some before \<Rightarrow>
                    (case ask (before \<lparr>cc_assistantMessage = message, cc_toolCall = c, cc_args = args, cc_context = ls_context st1\<rparr>) st1 of
                       (Inl e, st2) \<Rightarrow> (Inl (failed_call c e), st2)
                     | (Inr br, st2) \<Rightarrow>
                         if aborted h st2 then (Inl (failed_call c operation_aborted), st2)
                         else (case br of
                             Some b \<Rightarrow> if br_block b then (Inl (blocked_call c b), st2)
                               else (Inr \<lparr>pc_toolCall = c, pc_tool = t, pc_args = args\<rparr>, st2)
                           | None \<Rightarrow> (Inr \<lparr>pc_toolCall = c, pc_tool = t, pc_args = args\<rparr>, st2))))))"

text \<open>\<open>new ?? old\<close>; details that are null count as absent.\<close>

definition override :: "'a option \<Rightarrow> 'a option \<Rightarrow> 'a option" where
  "override new old = (case new of None \<Rightarrow> old | Some x \<Rightarrow> Some x)"

text \<open>What execution gave: an output, or the message of an error.\<close>

definition executed_output :: "jstr + tool_output \<Rightarrow> tool_output \<times> bool" where
  "executed_output r = (case r of Inl e \<Rightarrow> (createErrorToolResult e, True) | Inr out \<Rightarrow> (out, False))"

definition finalizeExecutedToolCall ::
    "'w host \<Rightarrow> assistant_message \<Rightarrow> prepared_call \<Rightarrow> jstr + tool_output \<Rightarrow> 'w loop_state \<Rightarrow> finalized_call \<times> 'w loop_state" where
  "finalizeExecutedToolCall h message p r st =
     (case executed_output r of (out, isError) \<Rightarrow>
        (case ho_afterToolCall h of
           None \<Rightarrow> (\<lparr>fc_toolCall = pc_toolCall p, fc_result = out, fc_isError = isError\<rparr>, st)
         | Some after \<Rightarrow>
             (case ask (after \<lparr>cc_assistantMessage = message, cc_toolCall = pc_toolCall p, cc_args = pc_args p,
                  cc_context = ls_context st\<rparr> out isError) st of
                (Inl e, st1) \<Rightarrow> (failed_call (pc_toolCall p) e, st1)
              | (Inr None, st1) \<Rightarrow> (\<lparr>fc_toolCall = pc_toolCall p, fc_result = out, fc_isError = isError\<rparr>, st1)
              | (Inr (Some a), st1) \<Rightarrow>
                  (\<lparr>fc_toolCall = pc_toolCall p,
                    fc_result = \<lparr>ou_content = override (ar_content a) (ou_content out),
                      
                      ou_details = override (if ar_details a = Some JNull then None else ar_details a) (ou_details out), ou_usage = override (ar_usage a) (ou_usage out),
                      ou_terminate = override (ar_terminate a) (ou_terminate out)\<rparr>,
                    fc_isError = (case ar_isError a of None \<Rightarrow> isError | Some b \<Rightarrow> b)\<rparr>, st1))))"

definition emitToolExecutionEnd :: "'w host \<Rightarrow> finalized_call \<Rightarrow> 'w loop_state \<Rightarrow> 'w loop_state" where
  "emitToolExecutionEnd h f st = emit h (ToolExecutionEnd (fc_toolCall f) (fc_result f) (fc_isError f)) st"

definition createToolResultMessage :: "finalized_call \<Rightarrow> int \<Rightarrow> tool_result" where
  "createToolResultMessage f now =
     \<lparr>tr_toolCallId = ca_id (fc_toolCall f), tr_toolName = ca_name (fc_toolCall f),
      tr_content = (case ou_content (fc_result f) of None \<Rightarrow> [] | Some c \<Rightarrow> c), tr_details = ou_details (fc_result f),
      tr_usage = ou_usage (fc_result f), tr_isError = fc_isError f, tr_timestamp = now\<rparr>"

text \<open>The result message of a finalized call, announced.\<close>

definition announce_result :: "'w host \<Rightarrow> finalized_call \<Rightarrow> 'w loop_state \<Rightarrow> tool_result \<times> 'w loop_state" where
  "announce_result h f st =
     (let r = createToolResultMessage f (ho_now h (ls_world st)) in (r, emit_message h (ToolResultMessage r) st))"

definition shouldTerminateToolBatch :: "finalized_call list \<Rightarrow> bool" where
  "shouldTerminateToolBatch fs \<longleftrightarrow> fs \<noteq> [] \<and> list_all (\<lambda>f. ou_terminate (fc_result f) = Some True) fs"

section \<open>Truncated messages\<close>

definition truncated_call_text :: "jstr \<Rightarrow> jstr" where
  "truncated_call_text name = js ''Tool call '' @ [34] @ name @ [34] @
     js '' was not executed: the response hit the output token limit, so its arguments may be truncated. Re-issue the tool call with complete arguments.''"

fun failToolCallsFromTruncatedMessage ::
    "'w host \<Rightarrow> agent_call list \<Rightarrow> 'w loop_state \<Rightarrow> tool_result list \<times> 'w loop_state" where
  "failToolCallsFromTruncatedMessage h [] st = ([], st)"
| "failToolCallsFromTruncatedMessage h (c # cs) st =
     (let f = failed_call c (truncated_call_text (ca_name c))
      in case announce_result h f (emitToolExecutionEnd h f (emit h (ToolExecutionStart c) st)) of
        (r, st1) \<Rightarrow> (case failToolCallsFromTruncatedMessage h cs st1 of (rs, st2) \<Rightarrow> (r # rs, st2)))"

section \<open>One after the other\<close>

definition emit_updates :: "'w host \<Rightarrow> agent_call \<Rightarrow> tool_output list \<Rightarrow> 'w loop_state \<Rightarrow> 'w loop_state" where
  "emit_updates h c us st = fold (\<lambda>u. emit h (ToolExecutionUpdate c u)) us st"

definition run_call ::
    "'w host \<Rightarrow> assistant_message \<Rightarrow> prepared_call \<Rightarrow> 'w loop_state \<Rightarrow> finalized_call \<times> 'w loop_state" where
  "run_call h message p st =
     (case ask (ho_execute h (pc_tool p) (ca_id (pc_toolCall p)) (pc_args p)) st of
        ((us, r), st1) \<Rightarrow> finalizeExecutedToolCall h message p r (emit_updates h (pc_toolCall p) us st1))"

definition sequential_call ::
    "'w host \<Rightarrow> assistant_message \<Rightarrow> agent_call \<Rightarrow> 'w loop_state \<Rightarrow> finalized_call \<times> 'w loop_state" where
  "sequential_call h message c st =
     (case prepareToolCall h message c (emit h (ToolExecutionStart c) st) of
        (Inl f, st1) \<Rightarrow> (f, st1)
      | (Inr p, st1) \<Rightarrow> run_call h message p st1)"

fun executeToolCallsSequential ::
    "'w host \<Rightarrow> assistant_message \<Rightarrow> agent_call list \<Rightarrow> 'w loop_state \<Rightarrow>
     (finalized_call list \<times> tool_result list) \<times> 'w loop_state" where
  "executeToolCallsSequential h message [] st = (([], []), st)"
| "executeToolCallsSequential h message (c # cs) st =
     (case sequential_call h message c st of
        (f, st1) \<Rightarrow>
          (case announce_result h f (emitToolExecutionEnd h f st1) of
             (r, st2) \<Rightarrow>
               if aborted h st2 then (([f], [r]), st2)
               else (case executeToolCallsSequential h message cs st2 of ((fs, rs), st3) \<Rightarrow> ((f # fs, r # rs), st3))))"

section \<open>Concurrently\<close>

text \<open>A call of a batch: finalized, waiting to start, or running with the updates it still has to send.\<close>

datatype batch_entry =
    Finalized finalized_call
  | Deferred prepared_call
  | Running prepared_call "tool_output list" "jstr + tool_output"

text \<open>The calls are checked in order; an abort ends the check behind the call it strikes.\<close>

fun preflight ::
    "'w host \<Rightarrow> assistant_message \<Rightarrow> agent_call list \<Rightarrow> 'w loop_state \<Rightarrow> batch_entry list \<times> 'w loop_state" where
  "preflight h message [] st = ([], st)"
| "preflight h message (c # cs) st =
     (case (case prepareToolCall h message c (emit h (ToolExecutionStart c) st) of
          (Inl f, st1) \<Rightarrow> (Finalized f, emitToolExecutionEnd h f st1)
        | (Inr p, st1) \<Rightarrow> (Deferred p, st1)) of
        (e, st2) \<Rightarrow>
          if aborted h st2 then ([e], st2)
          else (case preflight h message cs st2 of (es, st3) \<Rightarrow> (e # es, st3)))"

text \<open>Every deferred call starts, in order; one that starts after an abort fails at once.\<close>

definition start_entry :: "'w host \<Rightarrow> batch_entry \<Rightarrow> 'w loop_state \<Rightarrow> batch_entry \<times> 'w loop_state" where
  "start_entry h e st =
     (case e of
        Deferred p \<Rightarrow>
          if aborted h st
          then (let f = failed_call (pc_toolCall p) operation_aborted in (Finalized f, emitToolExecutionEnd h f st))
          else (case ask (ho_execute h (pc_tool p) (ca_id (pc_toolCall p)) (pc_args p)) st of
            ((us, r), st1) \<Rightarrow> (Running p us r, st1))
      | _ \<Rightarrow> (e, st))"

fun start_all :: "'w host \<Rightarrow> batch_entry list \<Rightarrow> 'w loop_state \<Rightarrow> batch_entry list \<times> 'w loop_state" where
  "start_all h [] st = ([], st)"
| "start_all h (e # es) st =
     (case start_entry h e st of (e', st1) \<Rightarrow> (case start_all h es st1 of (es', st2) \<Rightarrow> (e' # es', st2)))"

text \<open>A running call sends its next update or, when there is none, is finalized.\<close>

definition advance :: "'w host \<Rightarrow> assistant_message \<Rightarrow> batch_entry \<Rightarrow> 'w loop_state \<Rightarrow> batch_entry \<times> 'w loop_state" where
  "advance h message e st =
     (case e of
        Running p (u # us) r \<Rightarrow> (Running p us r, emit h (ToolExecutionUpdate (pc_toolCall p) u) st)
      | Running p [] r \<Rightarrow>
          (case finalizeExecutedToolCall h message p r st of (f, st1) \<Rightarrow> (Finalized f, emitToolExecutionEnd h f st1))
      | _ \<Rightarrow> (e, st))"

fun is_running :: "batch_entry \<Rightarrow> bool" where
  "is_running (Running p us r) = True"
| "is_running e = False"

fun steps_left :: "batch_entry \<Rightarrow> nat" where
  "steps_left (Running p us r) = Suc (length us)"
| "steps_left e = 0"

definition running :: "batch_entry list \<Rightarrow> nat list" where
  "running es = filter (\<lambda>i. is_running (es ! i)) [0..<length es]"

lemma advance_steps: "is_running e \<Longrightarrow> steps_left (fst (advance h message e st)) < steps_left e"
  by (cases e) (auto simp: advance_def split: list.splits prod.splits)

lemma running_pick: "running es \<noteq> [] \<Longrightarrow> running es ! (k mod length (running es)) < length es \<and>
    is_running (es ! (running es ! (k mod length (running es))))"
  using nth_mem[of "k mod length (running es)" "running es"] by (auto simp: running_def)

lemma steps_update: "i < length es \<Longrightarrow> steps_left e < steps_left (es ! i) \<Longrightarrow>
    sum_list (map steps_left (es[i := e])) < sum_list (map steps_left es)"
proof (induction es arbitrary: i)
  case (Cons x es)
  then show ?case by (cases i) auto
qed simp

text \<open>The world picks which of the running calls goes on.\<close>

function run_batch ::
    "'w host \<Rightarrow> assistant_message \<Rightarrow> batch_entry list \<Rightarrow> 'w loop_state \<Rightarrow> batch_entry list \<times> 'w loop_state" where
  "run_batch h message es st =
     (if running es = [] then (es, st)
      else case ask (ho_schedule h) st of
        (k, st1) \<Rightarrow>
          (let i = running es ! (k mod length (running es))
           in case advance h message (es ! i) st1 of (e, st2) \<Rightarrow> run_batch h message (es[i := e]) st2))"
  by pat_completeness auto

termination
proof (relation "measure (\<lambda>(h, message, es, st). sum_list (map steps_left es))", goal_cases)
  case (2 h message es st k st1 i e st2)
  have "e = fst (advance h message (es ! i) st1)" using 2(4) by (metis fst_conv)
  then show ?case
    using running_pick[OF 2(1), of k] advance_steps[of "es ! i" h message st1] 2(3) steps_update[of i es e] by simp
qed simp

declare run_batch.simps [simp del]

definition finalized_calls :: "batch_entry list \<Rightarrow> finalized_call list" where
  "finalized_calls es = some_of (\<lambda>e. case e of Finalized f \<Rightarrow> Some f | _ \<Rightarrow> None) es"

fun announce_all :: "'w host \<Rightarrow> finalized_call list \<Rightarrow> 'w loop_state \<Rightarrow> tool_result list \<times> 'w loop_state" where
  "announce_all h [] st = ([], st)"
| "announce_all h (f # fs) st =
     (case announce_result h f st of (r, st1) \<Rightarrow> (case announce_all h fs st1 of (rs, st2) \<Rightarrow> (r # rs, st2)))"

definition executeToolCallsParallel ::
    "'w host \<Rightarrow> assistant_message \<Rightarrow> agent_call list \<Rightarrow> 'w loop_state \<Rightarrow>
     (finalized_call list \<times> tool_result list) \<times> 'w loop_state" where
  "executeToolCallsParallel h message cs st =
     (case preflight h message cs (emit h (ToolBatchStart (map (\<lambda>c. (ca_id c, ca_name c)) cs)) st) of
        (es, st1) \<Rightarrow>
          (case start_all h es st1 of
             (es1, st2) \<Rightarrow>
               (case run_batch h message es1 st2 of
                  (es2, st3) \<Rightarrow>
                    (case announce_all h (finalized_calls es2) st3 of
                       (rs, st4) \<Rightarrow> ((finalized_calls es2, rs), st4)))))"

text \<open>The batch: its result messages, and whether it ends the run.\<close>

definition executeToolCalls ::
    "'w host \<Rightarrow> assistant_message \<Rightarrow> 'w loop_state \<Rightarrow> (tool_result list \<times> bool) \<times> 'w loop_state" where
  "executeToolCalls h message st =
     (let cs = tool_calls message;
          hasSequentialToolCall = list_ex (\<lambda>c. case find_tool (ls_context st) (ca_name c) of
            None \<Rightarrow> False | Some t \<Rightarrow> at_executionMode t = Some Sequential) cs
      in case (if cf_toolExecution (ls_config st) = Some Sequential \<or> hasSequentialToolCall
               then executeToolCallsSequential h message cs st else executeToolCallsParallel h message cs st) of
        ((fs, rs), st1) \<Rightarrow> ((rs, shouldTerminateToolBatch fs), st1))"

section \<open>What a batch adds\<close>

text \<open>The state grows by events: everything but the events and the world is as it was.\<close>

definition grows :: "'w loop_state \<Rightarrow> agent_event list \<Rightarrow> 'w loop_state \<Rightarrow> bool" where
  "grows st es st' \<longleftrightarrow> (\<exists>w. st' = st\<lparr>ls_events := ls_events st @ es, ls_world := w\<rparr>)"

definition started :: "agent_event list \<Rightarrow> agent_call list" where
  "started es = some_of (\<lambda>e. case e of ToolExecutionStart c \<Rightarrow> Some c | _ \<Rightarrow> None) es"

definition ended :: "agent_event list \<Rightarrow> agent_call list" where
  "ended es = some_of (\<lambda>e. case e of ToolExecutionEnd c r b \<Rightarrow> Some c | _ \<Rightarrow> None) es"

definition message_ends :: "agent_event list \<Rightarrow> agent_message list" where
  "message_ends es = some_of (\<lambda>e. case e of MessageEnd m \<Rightarrow> Some m | _ \<Rightarrow> None) es"

fun is_boundary :: "agent_event \<Rightarrow> bool" where
  "is_boundary AgentStart = True"
| "is_boundary (AgentEnd ms) = True"
| "is_boundary TurnStart = True"
| "is_boundary (TurnEnd a rs) = True"
| "is_boundary e = False"

lemma started_simps [simp]: "started [] = []" "started (es @ es') = started es @ started es'"
    "started (ToolExecutionStart c # es) = c # started es" "started (ToolExecutionEnd c r b # es) = started es"
    "started (ToolExecutionUpdate c u # es) = started es" "started (MessageStart m # es) = started es"
    "started (MessageEnd m # es) = started es" "started (ToolBatchStart l # es) = started es"
  by (simp_all add: started_def)

lemma ended_simps [simp]: "ended [] = []" "ended (es @ es') = ended es @ ended es'"
    "ended (ToolExecutionEnd c r b # es) = c # ended es" "ended (ToolExecutionStart c # es) = ended es"
    "ended (ToolExecutionUpdate c u # es) = ended es" "ended (MessageStart m # es) = ended es"
    "ended (MessageEnd m # es) = ended es" "ended (ToolBatchStart l # es) = ended es"
  by (simp_all add: ended_def)

lemma message_ends_simps [simp]: "message_ends [] = []" "message_ends (es @ es') = message_ends es @ message_ends es'"
    "message_ends (MessageEnd m # es) = m # message_ends es" "message_ends (MessageStart m # es) = message_ends es"
    "message_ends (MessageUpdate a # es) = message_ends es" "message_ends (ToolExecutionStart c # es) = message_ends es"
    "message_ends (ToolExecutionEnd c r b # es) = message_ends es"
    "message_ends (ToolExecutionUpdate c u # es) = message_ends es" "message_ends (ToolBatchStart l # es) = message_ends es"
    "message_ends (TurnStart # es) = message_ends es" "message_ends (TurnEnd a rs # es) = message_ends es"
    "message_ends (AgentStart # es) = message_ends es" "message_ends (AgentEnd ms # es) = message_ends es"
  by (simp_all add: message_ends_def)

text \<open>The calls started and ended, and the messages announced, between two states; no turn begins or ends there.\<close>

definition effect :: "'w loop_state \<Rightarrow> agent_call list \<Rightarrow> agent_call list \<Rightarrow> agent_message list \<Rightarrow> 'w loop_state \<Rightarrow> bool" where
  "effect st S E M st' \<longleftrightarrow> 
     (\<exists>es. grows st es st' \<and> started es = S \<and> ended es = E \<and> message_ends es = M \<and> filter is_boundary es = [])"

lemma grows_trans: "grows st es st1 \<Longrightarrow> grows st1 es' st2 \<Longrightarrow> grows st (es @ es') st2"
  by (auto simp: grows_def)

lemma effect_trans: "effect st S E M st1 \<Longrightarrow> effect st1 S' E' M' st2 \<Longrightarrow> effect st (S @ S') (E @ E') (M @ M') st2"
proof -
  assume "effect st S E M st1" "effect st1 S' E' M' st2"
  then obtain es es' where "grows st es st1" "started es = S" "ended es = E" "message_ends es = M"
      "filter is_boundary es = []" "grows st1 es' st2" "started es' = S'" "ended es' = E'" "message_ends es' = M'"
      "filter is_boundary es' = []"
    unfolding effect_def by blast
  then show ?thesis unfolding effect_def using grows_trans by (intro exI[of _ "es @ es'"]) auto
qed

lemma effect_refl: "effect st [] [] [] st"
  unfolding effect_def grows_def by (intro exI[of _ "[]"] conjI exI[of _ "ls_world st"]) simp_all

lemma grows_emit: "grows st [e] (emit h e st)"
  by (auto simp: grows_def emit_def)

lemma effect_emit: "\<not> is_boundary e \<Longrightarrow> effect st (started [e]) (ended [e]) (message_ends [e]) (emit h e st)"
  unfolding effect_def using grows_emit by (intro exI[of _ "[e]"]) auto

lemma effect_start: "effect st [c] [] [] (emit h (ToolExecutionStart c) st)"
  using effect_emit[of "ToolExecutionStart c" st h] by simp

lemma effect_end: "effect st [] [fc_toolCall f] [] (emitToolExecutionEnd h f st)"
  using effect_emit[of "ToolExecutionEnd (fc_toolCall f) (fc_result f) (fc_isError f)" st h]
  by (simp add: emitToolExecutionEnd_def)

lemma effect_update: "effect st [] [] [] (emit h (ToolExecutionUpdate c u) st)"
  using effect_emit[of "ToolExecutionUpdate c u" st h] by simp

lemma effect_message: "effect st [] [] [m] (emit_message h m st)"
  using effect_trans[OF effect_emit[of "MessageStart m" st h] effect_emit[of "MessageEnd m" _ h]]
  by (simp add: emit_message_def)

lemma effect_ask: "ask f st = (x, st') \<Longrightarrow> effect st [] [] [] st'"
  unfolding effect_def grows_def ask_def by (intro exI[of _ "[]"]) (auto split: prod.splits)

lemma effect_fst: "effect st S E M st' \<Longrightarrow> ls_context st' = ls_context st \<and> ls_config st' = ls_config st \<and>
    ls_newMessages st' = ls_newMessages st \<and> ls_lastTurn st' = ls_lastTurn st \<and> ls_pending st' = ls_pending st \<and>
    ls_more st' = ls_more st"
  by (auto simp: effect_def grows_def)

text \<open>A result answers a call.\<close>

definition answers :: "tool_result list \<Rightarrow> agent_call list \<Rightarrow> bool" where
  "answers rs cs \<longleftrightarrow> map (\<lambda>r. (tr_toolCallId r, tr_toolName r)) rs = map (\<lambda>c. (ca_id c, ca_name c)) cs"

lemma answers_simps [simp]: "answers [] cs \<longleftrightarrow> cs = []"
    "answers (r # rs) (c # cs) \<longleftrightarrow> (tr_toolCallId r = ca_id c \<and> tr_toolName r = ca_name c) \<and> answers rs cs"
  by (auto simp: answers_def)

lemma prepare_effect: "prepareToolCall h message c st = (x, st') \<Longrightarrow>
    effect st [] [] [] st' \<and> (case x of Inl f \<Rightarrow> fc_toolCall f = c | Inr p \<Rightarrow> pc_toolCall p = c)"
  unfolding prepareToolCall_def
  by (auto simp: failed_call_def blocked_call_def Let_def effect_refl split: option.splits prod.splits sum.splits if_splits
      dest!: effect_ask dest: effect_trans)

lemma finalize_effect: "finalizeExecutedToolCall h message p r st = (f, st') \<Longrightarrow>
    effect st [] [] [] st' \<and> fc_toolCall f = pc_toolCall p"
  unfolding finalizeExecutedToolCall_def
  by (auto simp: failed_call_def effect_refl split: option.splits prod.splits sum.splits dest!: effect_ask)

lemma updates_effect: "effect st [] [] [] (emit_updates h c us st)"
  unfolding emit_updates_def
proof (induction us arbitrary: st)
  case (Cons u us)
  show ?case using effect_trans[OF effect_update[of st h c u] Cons.IH] by simp
qed (simp add: effect_refl)

lemma run_call_effect: "run_call h message p st = (f, st') \<Longrightarrow> effect st [] [] [] st' \<and> fc_toolCall f = pc_toolCall p"
proof -
  assume run: "run_call h message p st = (f, st')"
  obtain us r st1 where ex: "ask (ho_execute h (pc_tool p) (ca_id (pc_toolCall p)) (pc_args p)) st = ((us, r), st1)"
    by (metis surj_pair)
  have "finalizeExecutedToolCall h message p r (emit_updates h (pc_toolCall p) us st1) = (f, st')"
    using run ex by (simp add: run_call_def)
  from finalize_effect[OF this] show ?thesis
    using effect_trans[OF effect_trans[OF effect_ask[OF ex] updates_effect[of st1 h "pc_toolCall p" us]]] by auto
qed

lemma sequential_call_effect: "sequential_call h message c st = (f, st') \<Longrightarrow>
    effect st [c] [] [] st' \<and> fc_toolCall f = c"
proof -
  assume call: "sequential_call h message c st = (f, st')"
  obtain x st1 where prep: "prepareToolCall h message c (emit h (ToolExecutionStart c) st) = (x, st1)"
    by (metis surj_pair)
  note one = effect_trans[OF effect_start[of st c h] conjunct1[OF prepare_effect[OF prep]], simplified]
  show ?thesis
  proof (cases x)
    case (Inl g)
    then show ?thesis using call prep one prepare_effect[OF prep] by (simp add: sequential_call_def)
  next
    case (Inr p)
    then have run: "run_call h message p st1 = (f, st')" using call prep by (simp add: sequential_call_def)
    show ?thesis using effect_trans[OF one conjunct1[OF run_call_effect[OF run]]] run_call_effect[OF run]
        prepare_effect[OF prep] Inr by simp
  qed
qed

lemma announce_effect: "announce_result h f st = (r, st') \<Longrightarrow>
    effect st [] [] [ToolResultMessage r] st' \<and> answers [r] [fc_toolCall f]"
  by (auto simp: announce_result_def Let_def createToolResultMessage_def effect_message)

lemma finished_effect: "announce_result h f (emitToolExecutionEnd h f st) = (r, st') \<Longrightarrow>
    effect st [] [fc_toolCall f] [ToolResultMessage r] st' \<and> answers [r] [fc_toolCall f]"
  using effect_trans[OF effect_end[of st f h], of "[]" "[]" "[ToolResultMessage r]" st'] announce_effect by force

lemma truncated_effect: "failToolCallsFromTruncatedMessage h cs st = (rs, st') \<Longrightarrow>
    effect st cs cs (map ToolResultMessage rs) st' \<and> answers rs cs"
proof (induction cs arbitrary: st rs st')
  case Nil
  then show ?case by (simp add: effect_refl)
next
  case (Cons c cs)
  let ?f = "failed_call c (truncated_call_text (ca_name c))"
  obtain r st1 where one: "announce_result h ?f (emitToolExecutionEnd h ?f (emit h (ToolExecutionStart c) st)) = (r, st1)"
    by (metis surj_pair)
  obtain rs2 st2 where rest: "failToolCallsFromTruncatedMessage h cs st1 = (rs2, st2)" by (metis surj_pair)
  have "rs = r # rs2" and "st' = st2" using Cons.prems one rest by (simp_all add: Let_def)
  moreover have f: "fc_toolCall ?f = c" by (simp add: failed_call_def)
  ultimately show ?case
    using effect_trans[OF effect_trans[OF effect_start[of st c h] conjunct1[OF finished_effect[OF one]]]
        conjunct1[OF Cons.IH[OF rest]]] finished_effect[OF one] Cons.IH[OF rest] by simp
qed

lemma sequential_effect: "executeToolCallsSequential h message cs st = ((fs, rs), st') \<Longrightarrow>
    \<exists>k. effect st (take k cs) (take k cs) (map ToolResultMessage rs) st' \<and> answers rs (take k cs) \<and>
        map fc_toolCall fs = take k cs \<and> (cs \<noteq> [] \<longrightarrow> 0 < k) \<and> ((\<forall>w. \<not> ho_aborted h w) \<longrightarrow> length cs \<le> k)"
proof (induction cs arbitrary: st fs rs st')
  case Nil
  then show ?case by (simp add: effect_refl)
next
  case (Cons c cs)
  obtain f st1 where call: "sequential_call h message c st = (f, st1)" by (metis surj_pair)
  obtain r st2 where one: "announce_result h f (emitToolExecutionEnd h f st1) = (r, st2)" by (metis surj_pair)
  have f: "fc_toolCall f = c" using sequential_call_effect[OF call] by simp
  note e = effect_trans[OF conjunct1[OF sequential_call_effect[OF call]] conjunct1[OF finished_effect[OF one]], simplified f, simplified]
  have a: "tr_toolCallId r = ca_id c" "tr_toolName r = ca_name c" using finished_effect[OF one] f by simp_all
  show ?case
  proof (cases "aborted h st2")
    case True
    then have "fs = [f]" "rs = [r]" "st' = st2" using Cons.prems call one by simp_all
    then show ?thesis using e a f True by (intro exI[of _ 1]) (auto simp: aborted_def)
  next
    case False
    obtain fs2 rs2 st3 where rest: "executeToolCallsSequential h message cs st2 = ((fs2, rs2), st3)" by (metis surj_pair)
    obtain k where k: "effect st2 (take k cs) (take k cs) (map ToolResultMessage rs2) st3" "answers rs2 (take k cs)"
        "map fc_toolCall fs2 = take k cs" "(\<forall>w. \<not> ho_aborted h w) \<longrightarrow> length cs \<le> k"
      using Cons.IH[OF rest] by blast
    have "fs = f # fs2" "rs = r # rs2" "st' = st3" using Cons.prems call one rest False by simp_all
    then show ?thesis using effect_trans[OF e k(1)] k a f by (intro exI[of _ "Suc k"]) simp
  qed
qed

text \<open>The call of an entry of a batch, and those that have ended.\<close>

fun entry_call :: "batch_entry \<Rightarrow> agent_call" where
  "entry_call (Finalized f) = fc_toolCall f"
| "entry_call (Deferred p) = pc_toolCall p"
| "entry_call (Running p us r) = pc_toolCall p"

fun is_deferred :: "batch_entry \<Rightarrow> bool" where
  "is_deferred (Deferred p) = True"
| "is_deferred e = False"

definition done_calls :: "batch_entry list \<Rightarrow> agent_call list" where
  "done_calls es = map fc_toolCall (finalized_calls es)"

lemma done_calls_simps [simp]: "done_calls [] = []" "done_calls (es @ es') = done_calls es @ done_calls es'"
    "done_calls (Finalized f # es) = fc_toolCall f # done_calls es" "done_calls (Deferred p # es) = done_calls es"
    "done_calls (Running p us r # es) = done_calls es"
  by (simp_all add: done_calls_def finalized_calls_def)

lemma all_done: "list_all (\<lambda>e. \<not> is_running e \<and> \<not> is_deferred e) es \<Longrightarrow> done_calls es = map entry_call es"
proof (induction es)
  case (Cons e es)
  then show ?case by (cases e) simp_all
qed simp

lemma preflight_effect: "preflight h message cs st = (es, st') \<Longrightarrow>
    \<exists>k. effect st (take k cs) (done_calls es) [] st' \<and> map entry_call es = take k cs \<and>
        list_all (\<lambda>e. \<not> is_running e) es \<and> (cs \<noteq> [] \<longrightarrow> 0 < k) \<and> ((\<forall>w. \<not> ho_aborted h w) \<longrightarrow> length cs \<le> k)"
proof (induction cs arbitrary: st es st')
  case Nil
  then show ?case by (simp add: effect_refl)
next
  case (Cons c cs)
  obtain x st1 where prep: "prepareToolCall h message c (emit h (ToolExecutionStart c) st) = (x, st1)"
    by (metis surj_pair)
  define e where "e = (case x of Inl f \<Rightarrow> Finalized f | Inr p \<Rightarrow> Deferred p)"
  define st2 where "st2 = (case x of Inl f \<Rightarrow> emitToolExecutionEnd h f st1 | Inr p \<Rightarrow> st1)"
  have e: "effect st [c] (done_calls [e]) [] st2" "entry_call e = c" "\<not> is_running e"
    using effect_trans[OF effect_start[of st c h] conjunct1[OF prepare_effect[OF prep]]] prepare_effect[OF prep]
      effect_trans[OF effect_trans[OF effect_start[of st c h] conjunct1[OF prepare_effect[OF prep]]] effect_end]
    by (auto simp: e_def st2_def split: sum.splits)
  have step: "preflight h message (c # cs) st = (if aborted h st2 then ([e], st2)
      else (case preflight h message cs st2 of (es, st3) \<Rightarrow> (e # es, st3)))"
    using prep by (simp add: e_def st2_def split: sum.splits)
  show ?case
  proof (cases "aborted h st2")
    case True
    then have "es = [e]" "st' = st2" using Cons.prems step by simp_all
    then show ?thesis using e True by (intro exI[of _ 1]) (auto simp: aborted_def)
  next
    case False
    obtain es2 st3 where rest: "preflight h message cs st2 = (es2, st3)" by (metis surj_pair)
    obtain k where k: "effect st2 (take k cs) (done_calls es2) [] st3" "map entry_call es2 = take k cs"
        "list_all (\<lambda>e. \<not> is_running e) es2" "(\<forall>w. \<not> ho_aborted h w) \<longrightarrow> length cs \<le> k"
      using Cons.IH[OF rest] by blast
    have "es = [e] @ es2" "st' = st3" using Cons.prems step rest False by simp_all
    then show ?thesis using effect_trans[OF e(1) k(1)] k e by (intro exI[of _ "Suc k"]) (simp only: done_calls_simps, simp)
  qed
qed

lemma start_entry_effect: "start_entry h e st = (e', st') \<Longrightarrow>
    \<exists>E. effect st [] E [] st' \<and> mset (done_calls [e']) = mset (done_calls [e]) + mset E \<and> entry_call e' = entry_call e \<and>
        \<not> is_deferred e'"
proof -
  assume start: "start_entry h e st = (e', st')"
  consider (same) "e' = e" "st' = st" "\<not> is_deferred e"
    | (failed) p where "e = Deferred p" "e' = Finalized (failed_call (pc_toolCall p) operation_aborted)"
        "st' = emitToolExecutionEnd h (failed_call (pc_toolCall p) operation_aborted) st"
    | (started) p us r where "e = Deferred p" "e' = Running p us r"
        "ask (ho_execute h (pc_tool p) (ca_id (pc_toolCall p)) (pc_args p)) st = ((us, r), st')"
    using start by (cases e) (auto simp: start_entry_def Let_def split: if_splits prod.splits)
  then show ?thesis
  proof cases
    case same
    then show ?thesis using effect_refl by (intro exI[of _ "[]"]) simp
  next
    case failed
    then show ?thesis using effect_end[of st "failed_call (pc_toolCall p) operation_aborted" h]
      by (intro exI[of _ "[pc_toolCall p]"]) (simp add: failed_call_def)
  next
    case started
    then show ?thesis using effect_ask by (intro exI[of _ "[]"]) simp
  qed
qed

lemma start_all_effect: "start_all h es st = (es', st') \<Longrightarrow>
    \<exists>E. effect st [] E [] st' \<and> mset (done_calls es') = mset (done_calls es) + mset E \<and>
        map entry_call es' = map entry_call es \<and> list_all (\<lambda>e. \<not> is_deferred e) es'"
proof (induction es arbitrary: st es' st')
  case Nil
  then show ?case by (intro exI[of _ "[]"]) (simp add: effect_refl)
next
  case (Cons e es)
  obtain e1 st1 where one: "start_entry h e st = (e1, st1)" by (metis surj_pair)
  obtain es2 st2 where rest: "start_all h es st1 = (es2, st2)" by (metis surj_pair)
  obtain E where E: "effect st [] E [] st1" "mset (done_calls [e1]) = mset (done_calls [e]) + mset E"
      "entry_call e1 = entry_call e" "\<not> is_deferred e1"
    using start_entry_effect[OF one] by blast
  obtain E2 where E2: "effect st1 [] E2 [] st2" "mset (done_calls es2) = mset (done_calls es) + mset E2"
      "map entry_call es2 = map entry_call es" "list_all (\<lambda>e. \<not> is_deferred e) es2"
    using Cons.IH[OF rest] by blast
  have out: "es' = [e1] @ es2" "st' = st2" using Cons.prems one rest by simp_all
  have "mset (done_calls ([e1] @ es2)) = mset (done_calls ([e] @ es)) + mset (E @ E2)"
    using E(2) E2(2) by (simp only: done_calls_simps mset_append ac_simps)
  then show ?case using effect_trans[OF E(1) E2(1)] E E2 out by (intro exI[of _ "E @ E2"]) simp
qed

lemma advance_effect: "advance h message e st = (e', st') \<Longrightarrow> \<not> is_deferred e \<Longrightarrow>
    \<exists>E. effect st [] E [] st' \<and> mset (done_calls [e']) = mset (done_calls [e]) + mset E \<and> entry_call e' = entry_call e \<and>
        \<not> is_deferred e'"
proof (cases e)
  case (Running p us r)
  assume adv: "advance h message e st = (e', st')"
  show ?thesis
  proof (cases us)
    case Nil
    obtain f st1 where fin: "finalizeExecutedToolCall h message p r st = (f, st1)" by (metis surj_pair)
    have "e' = Finalized f" "st' = emitToolExecutionEnd h f st1" using adv Running Nil fin by (simp_all add: advance_def)
    then show ?thesis
      using effect_trans[OF conjunct1[OF finalize_effect[OF fin]] effect_end[of st1 f h]] finalize_effect[OF fin] Running Nil
      by (intro exI[of _ "[fc_toolCall f]"]) simp
  next
    case (Cons u us2)
    have "e' = Running p us2 r" "st' = emit h (ToolExecutionUpdate (pc_toolCall p) u) st"
      using adv Running Cons by (simp_all add: advance_def)
    then show ?thesis using effect_update[of st h "pc_toolCall p" u] Running by (intro exI[of _ "[]"]) simp
  qed
qed (use effect_refl in \<open>force simp: advance_def\<close>)+

lemma done_update: "i < length es \<Longrightarrow> mset (done_calls [e]) = mset (done_calls [es ! i]) + mset E \<Longrightarrow>
    mset (done_calls (es[i := e])) = mset (done_calls es) + mset E"
proof (induction es arbitrary: i)
  case (Cons x es)
  show ?case
  proof (cases i)
    case 0
    have "mset (done_calls ([e] @ es)) = mset (done_calls ([x] @ es)) + mset E"
      using Cons.prems 0 by (simp only: done_calls_simps mset_append nth_Cons_0 ac_simps)
    then show ?thesis using 0 by simp
  next
    case (Suc j)
    have "mset (done_calls ([x] @ es[j := e])) = mset (done_calls ([x] @ es)) + mset E"
      using Cons.prems Cons.IH[of j] Suc by (simp only: done_calls_simps mset_append ac_simps) simp
    then show ?thesis using Suc by simp
  qed
qed simp

lemma run_batch_effect: "run_batch h message es st = (es', st') \<Longrightarrow> list_all (\<lambda>e. \<not> is_deferred e) es \<Longrightarrow>
    \<exists>E. effect st [] E [] st' \<and> mset (done_calls es') = mset (done_calls es) + mset E \<and>
        map entry_call es' = map entry_call es \<and> list_all (\<lambda>e. \<not> is_running e \<and> \<not> is_deferred e) es'"
proof (induction h message es st arbitrary: es' st' rule: run_batch.induct)
  case (1 h message es st)
  show ?case
  proof (cases "running es = []")
    case True
    then have "list_all (\<lambda>e. \<not> is_running e) es"
      by (auto simp: running_def filter_empty_conv list_all_length)
    moreover have "es' = es" "st' = st" using 1(2) True by (simp_all add: run_batch.simps)
    ultimately show ?thesis using 1(3) effect_refl by (intro exI[of _ "[]"]) (auto simp: list_all_iff)
  next
    case False
    obtain k st1 where sched: "ask (ho_schedule h) st = (k, st1)" by (metis surj_pair)
    define i where "i = running es ! (k mod length (running es))"
    obtain e st2 where adv: "advance h message (es ! i) st1 = (e, st2)" by (metis surj_pair)
    have i: "i < length es" using running_pick[OF False, of k] by (simp add: i_def)
    then have nd: "\<not> is_deferred (es ! i)" using 1(3) by (simp add: list_all_length)
    have rest: "run_batch h message (es[i := e]) st2 = (es', st')"
      using 1(2) False sched adv by (subst (asm) run_batch.simps) (simp add: i_def[symmetric] Let_def)
    obtain E where E: "effect st1 [] E [] st2" "mset (done_calls [e]) = mset (done_calls [es ! i]) + mset E"
        "entry_call e = entry_call (es ! i)" "\<not> is_deferred e"
      using advance_effect[OF adv nd] by blast
    have nd2: "list_all (\<lambda>e. \<not> is_deferred e) (es[i := e])" using 1(3) E(4) i by (auto simp: list_all_length nth_list_update)
    obtain E2 where E2: "effect st2 [] E2 [] st'" "mset (done_calls es') = mset (done_calls (es[i := e])) + mset E2"
        "map entry_call es' = map entry_call (es[i := e])" "list_all (\<lambda>e. \<not> is_running e \<and> \<not> is_deferred e) es'"
      using 1(1)[OF False sched[symmetric] i_def adv[symmetric] rest nd2] by blast
    have calls: "map entry_call (es[i := e]) = map entry_call es" using E(3) i by (simp add: map_update list_update_same_conv)
    have "mset (done_calls es') = mset (done_calls es) + mset (E @ E2)"
      using E2(2) done_update[OF i E(2)] by simp
    then show ?thesis
      using effect_trans[OF effect_trans[OF effect_ask[OF sched] E(1)] E2(1)] E2 calls by (intro exI[of _ "E @ E2"]) simp
  qed
qed

lemma announce_all_effect: "announce_all h fs st = (rs, st') \<Longrightarrow>
    effect st [] [] (map ToolResultMessage rs) st' \<and> answers rs (map fc_toolCall fs)"
proof (induction fs arbitrary: st rs st')
  case Nil
  then show ?case by (simp add: effect_refl)
next
  case (Cons f fs)
  obtain r st1 where one: "announce_result h f st = (r, st1)" by (metis surj_pair)
  obtain rs2 st2 where rest: "announce_all h fs st1 = (rs2, st2)" by (metis surj_pair)
  have "rs = r # rs2" "st' = st2" using Cons.prems one rest by simp_all
  then show ?case
    using effect_trans[OF conjunct1[OF announce_effect[OF one]] conjunct1[OF Cons.IH[OF rest]]] announce_effect[OF one]
      Cons.IH[OF rest] by simp
qed

lemma effect_batch_start: "effect st [] [] [] (emit h (ToolBatchStart l) st)"
  using effect_emit[of "ToolBatchStart l" st h] by simp

lemma parallel_effect:
  assumes "executeToolCallsParallel h message cs st = ((fs, rs), st')"
  shows "\<exists>k E. effect st (take k cs) E (map ToolResultMessage rs) st' \<and> mset E = mset (take k cs) \<and>
      answers rs (take k cs) \<and> map fc_toolCall fs = take k cs \<and> (cs \<noteq> [] \<longrightarrow> 0 < k) \<and>
      ((\<forall>w. \<not> ho_aborted h w) \<longrightarrow> length cs \<le> k)"
proof -
  let ?b = "emit h (ToolBatchStart (map (\<lambda>c. (ca_id c, ca_name c)) cs)) st"
  obtain es1 st1 where p1: "preflight h message cs ?b = (es1, st1)" by (metis surj_pair)
  obtain es2 st2 where p2: "start_all h es1 st1 = (es2, st2)" by (metis surj_pair)
  obtain es3 st3 where p3: "run_batch h message es2 st2 = (es3, st3)" by (metis surj_pair)
  obtain rs4 st4 where p4: "announce_all h (finalized_calls es3) st3 = (rs4, st4)" by (metis surj_pair)
  have out: "fs = finalized_calls es3" "rs = rs4" "st' = st4"
    using assms p1 p2 p3 p4 by (simp_all add: executeToolCallsParallel_def)
  obtain k where k: "effect ?b (take k cs) (done_calls es1) [] st1" "map entry_call es1 = take k cs"
      "cs \<noteq> [] \<longrightarrow> 0 < k" "(\<forall>w. \<not> ho_aborted h w) \<longrightarrow> length cs \<le> k"
    using preflight_effect[OF p1] by blast
  obtain E2 where E2: "effect st1 [] E2 [] st2" "mset (done_calls es2) = mset (done_calls es1) + mset E2"
      "map entry_call es2 = map entry_call es1" "list_all (\<lambda>e. \<not> is_deferred e) es2"
    using start_all_effect[OF p2] by blast
  obtain E3 where E3: "effect st2 [] E3 [] st3" "mset (done_calls es3) = mset (done_calls es2) + mset E3"
      "map entry_call es3 = map entry_call es2" "list_all (\<lambda>e. \<not> is_running e \<and> \<not> is_deferred e) es3"
    using run_batch_effect[OF p3 E2(4)] by blast
  have done_es: "done_calls es3 = take k cs" using all_done[OF E3(4)] E3(3) E2(3) k(2) by simp
  have "mset (done_calls es1 @ E2 @ E3) = mset (take k cs)" using E2(2) E3(2) done_es by simp
  moreover have "map fc_toolCall fs = take k cs" using done_es out by (simp add: done_calls_def)
  ultimately show ?thesis
    using effect_trans[OF effect_trans[OF effect_trans[OF effect_trans[OF effect_batch_start k(1)] E2(1)] E3(1)]
        conjunct1[OF announce_all_effect[OF p4]]] announce_all_effect[OF p4] k out
    by (intro exI[of _ k] exI[of _ "done_calls es1 @ E2 @ E3"]) simp
qed

lemma execute_effect:
  assumes "executeToolCalls h message st = ((rs, terminate), st')"
  shows "\<exists>k E. effect st (take k (tool_calls message)) E (map ToolResultMessage rs) st' \<and>
      mset E = mset (take k (tool_calls message)) \<and> answers rs (take k (tool_calls message)) \<and>
      (tool_calls message \<noteq> [] \<longrightarrow> 0 < k) \<and> ((\<forall>w. \<not> ho_aborted h w) \<longrightarrow> length (tool_calls message) \<le> k)"
proof -
  let ?cs = "tool_calls message"
  obtain fs where "executeToolCallsSequential h message ?cs st = ((fs, rs), st') \<or>
      executeToolCallsParallel h message ?cs st = ((fs, rs), st')"
    using assms by (auto simp: executeToolCalls_def Let_def split: if_splits prod.splits)
  then show ?thesis
  proof
    assume "executeToolCallsSequential h message ?cs st = ((fs, rs), st')"
    from sequential_effect[OF this] obtain k where "effect st (take k ?cs) (take k ?cs) (map ToolResultMessage rs) st'"
        "answers rs (take k ?cs)" "?cs \<noteq> [] \<longrightarrow> 0 < k" "(\<forall>w. \<not> ho_aborted h w) \<longrightarrow> length ?cs \<le> k"
      by blast
    then show ?thesis by (intro exI[of _ k] exI[of _ "take k ?cs"] conjI refl)
  next
    assume "executeToolCallsParallel h message ?cs st = ((fs, rs), st')"
    from parallel_effect[OF this] obtain k E where "effect st (take k ?cs) E (map ToolResultMessage rs) st'"
        "mset E = mset (take k ?cs)" "answers rs (take k ?cs)" "?cs \<noteq> [] \<longrightarrow> 0 < k"
        "(\<forall>w. \<not> ho_aborted h w) \<longrightarrow> length ?cs \<le> k"
      by blast
    then show ?thesis by (intro exI[of _ k] exI[of _ E] conjI)
  qed
qed

section \<open>The contract of a batch\<close>

text \<open>
  C14. A batch of tool calls, sequential or concurrent and however its calls interleave, starts a prefix of the calls of
  the message, in order and at least one; it ends every call it started exactly once; and it announces one result for
  each, in the order of the calls whatever the order they ended in. Without an abort the prefix is all of the calls.
\<close>

theorem tool_batch_ends:
  assumes "executeToolCalls h message st = ((rs, terminate), st')"
  shows "\<exists>k es. ls_events st' = ls_events st @ es \<and> started es = take k (tool_calls message) \<and>
      mset (ended es) = mset (started es) \<and> message_ends es = map ToolResultMessage rs \<and>
      map (\<lambda>r. (tr_toolCallId r, tr_toolName r)) rs = map (\<lambda>c. (ca_id c, ca_name c)) (started es) \<and>
      (tool_calls message \<noteq> [] \<longrightarrow> 0 < k) \<and> ((\<forall>w. \<not> ho_aborted h w) \<longrightarrow> started es = tool_calls message)"
proof -
  obtain k E where k: "effect st (take k (tool_calls message)) E (map ToolResultMessage rs) st'"
      "mset E = mset (take k (tool_calls message))" "answers rs (take k (tool_calls message))"
      "tool_calls message \<noteq> [] \<longrightarrow> 0 < k" "(\<forall>w. \<not> ho_aborted h w) \<longrightarrow> length (tool_calls message) \<le> k"
    using execute_effect[OF assms] by blast
  obtain es where es: "grows st es st'" "started es = take k (tool_calls message)" "ended es = E"
      "message_ends es = map ToolResultMessage rs"
    using k(1) unfolding effect_def by blast
  have "ls_events st' = ls_events st @ es" using es(1) by (auto simp: grows_def)
  then show ?thesis using k es by (intro exI[of _ k] exI[of _ es]) (simp add: answers_def)
qed

text \<open>A host whose model answers from a list, with one tool that reports once and the last started call going on first.\<close>

definition sample_answer :: "content_block list \<Rightarrow> stop_reason \<Rightarrow> assistant_message" where
  "sample_answer content reason = \<lparr>as_content = content, as_api = [], as_provider = [], as_model = [],
     as_usage = \<lparr>usage_input = 0, usage_output = 0, usage_cacheRead = 0, usage_cacheWrite = 0,
       usage_cacheWrite1h = None, usage_reasoning = None, usage_totalTokens = 0,
       usage_cost = \<lparr>cost_input = NInt 0, cost_output = NInt 0, cost_cacheRead = NInt 0, cost_cacheWrite = NInt 0,
         cost_total = NInt 0\<rparr>\<rparr>,
     as_stopReason = reason, as_errorMessage = None, as_timestamp = 0, as_other = JNull\<rparr>"

definition sample_output :: tool_output where
  "sample_output = \<lparr>ou_content = Some [TextBlock (js ''ok'') None], ou_details = None, ou_usage = None, ou_terminate = None\<rparr>"

definition sample_agent_tool :: agent_tool where
  "sample_agent_tool = \<lparr>to_name = js ''read'', to_description = [], to_parameters = JObj [], to_constrainedSampling = None,
     at_executionMode = None\<rparr>"

definition sample_host :: "assistant_message list host" where
  "sample_host = \<lparr>ho_emit = (\<lambda>e w. w), ho_aborted = (\<lambda>w. False), ho_now = (\<lambda>w. 0),
     ho_getSteeringMessages = (\<lambda>w. ([], w)), ho_getFollowUpMessages = (\<lambda>w. ([], w)),
     ho_prepareNextTurn = (\<lambda>t w. (None, w)), ho_shouldStopAfterTurn = (\<lambda>t w. (False, w)),
     ho_transformContext = (\<lambda>ms w. (ms, w)), ho_convertToLlm = (\<lambda>ms w. (ms, w)), ho_getApiKey = (\<lambda>m w. (None, w)),
     ho_stream = (\<lambda>cf ms w. case w of [] \<Rightarrow> (([], sample_answer [] ErrorStop), [])
       | a # w' \<Rightarrow> (([PartStart (sample_answer [] PendingStop), PartUpdate a, PartTerminal], a), w')),
     ho_validate = (\<lambda>t c w. (Inr (JObj (ca_arguments c)), w)), ho_beforeToolCall = None,
     ho_execute = (\<lambda>t i args w. (([sample_output], Inr sample_output), w)), ho_afterToolCall = None,
     ho_schedule = (\<lambda>w. (1, w))\<rparr>"

definition sample_request :: assistant_message where
  "sample_request = sample_answer [ToolCallBlock (js ''c1'') (js ''read'') [], TextBlock (js ''and'') None,
     ToolCallBlock (js ''c2'') (js ''read'') []] ToolUse"

definition sample_state :: "assistant_message list \<Rightarrow> assistant_message list loop_state" where
  "sample_state w = \<lparr>ls_context = \<lparr>cx_messages = [], cx_tools = [sample_agent_tool]\<rparr>,
     ls_config = \<lparr>cf_model = JNull, cf_reasoning = None, cf_toolExecution = None, cf_apiKey = None\<rparr>,
     ls_newMessages = [], ls_lastTurn = None, ls_pending = [], ls_more = True, ls_events = [], ls_world = w\<rparr>"

theorem tool_batch_ends_witness:
  "\<exists>rs t st' es. executeToolCalls sample_host sample_request (sample_state []) = ((rs, t), st') \<and> ls_events st' = es \<and>
     started es = tool_calls sample_request \<and> mset (ended es) = mset (started es) \<and>
     message_ends es = map ToolResultMessage rs"
proof -
  obtain rs t st' where run: "executeToolCalls sample_host sample_request (sample_state []) = ((rs, t), st')"
    by (metis surj_pair)
  have "ls_events (sample_state []) = []" "\<forall>w. \<not> ho_aborted sample_host w"
    by (simp_all add: sample_state_def sample_host_def)
  with tool_batch_ends[OF run] show ?thesis using run by fastforce
qed

end
