(* ===== verification/AgentLoop.thy ===== *)
theory AgentLoop
  imports ToolExecution
begin

text \<open>
  The agent loop (\<open>packages/agent/src/agent-loop.ts\<close>): the declaration of tool changes, the streaming of a response,
  the turns of a run with their injected messages, tool batches and stops, and the two ways to begin a run.
\<close>

section \<open>Declaring tool changes\<close>

definition withToolChanges :: "system_message \<Rightarrow> tool_state_changes \<Rightarrow> system_message" where
  "withToolChanges m ch = m\<lparr>sy_toolsAdded := ch_toolsAdded ch, sy_toolsRemoved := ch_toolsRemoved ch\<rparr>"

definition no_changes :: tool_state_changes where
  "no_changes = \<lparr>ch_toolsAdded = [], ch_toolsRemoved = []\<rparr>"

text \<open>The messages before the last system message, that message, and those behind it.\<close>

fun split_last_system :: "agent_message list \<Rightarrow> (agent_message list \<times> system_message \<times> agent_message list) option" where
  "split_last_system [] = None"
| "split_last_system (m # ms) =
     (case split_last_system ms of
        Some (before, s, after) \<Rightarrow> Some (m # before, s, after)
      | None \<Rightarrow> (case system_of m of None \<Rightarrow> None | Some s \<Rightarrow> Some ([], s, ms)))"

definition tool_changes :: "(number \<Rightarrow> jstr) \<Rightarrow> agent_context \<Rightarrow> agent_message list \<Rightarrow> tool_state_changes" where
  "tool_changes dbl cx baseline =
     getToolStateChanges dbl (getCurrentTools (cx_messages cx @ baseline)) (map toToolDeclaration (cx_tools cx))"

definition unchanged :: "tool_state_changes \<Rightarrow> bool" where
  "unchanged ch \<longleftrightarrow> ch_toolsAdded ch = [] \<and> ch_toolsRemoved ch = []"

definition declareToolChanges ::
    "(number \<Rightarrow> jstr) \<Rightarrow> int \<Rightarrow> agent_context \<Rightarrow> agent_message list \<Rightarrow> agent_message list" where
  "declareToolChanges dbl now cx pendingMessages =
     (case split_last_system pendingMessages of
        Some (before, s, after) \<Rightarrow>
          (let changes = tool_changes dbl cx (before @ SystemMessage (withToolChanges s no_changes) # after)
           in if unchanged changes \<and> sy_toolsAdded s = [] \<and> sy_toolsRemoved s = [] then pendingMessages
              else before @ SystemMessage (withToolChanges s changes) # after)
      | None \<Rightarrow>
          (let changes = tool_changes dbl cx pendingMessages
           in if unchanged changes then pendingMessages
              else (let index = length (takeWhile isSystemMessage pendingMessages)
                    in take index pendingMessages @
                       SystemMessage (withToolChanges \<lparr>sy_content = PlainText [], sy_sections = [], sy_toolsAdded = [],
                         sy_toolsRemoved = [], sy_timestamp = now\<rparr> changes) # drop index pendingMessages)))"

section \<open>Streaming a response\<close>

text \<open>The flag says whether the context already ends with the partial message.\<close>

fun stream_parts :: "'w host \<Rightarrow> stream_part list \<Rightarrow> bool \<Rightarrow> 'w loop_state \<Rightarrow> bool \<times> 'w loop_state" where
  "stream_parts h [] added st = (added, st)"
| "stream_parts h (PartStart a # ps) added st =
     stream_parts h ps True (emit h (MessageStart (AssistantMessage a)) (push_context (AssistantMessage a) st))"
| "stream_parts h (PartUpdate a # ps) added st =
     stream_parts h ps added (if added then emit h (MessageUpdate a) (set_last (AssistantMessage a) st) else st)"
| "stream_parts h (PartTerminal # ps) added st = (added, st)"

definition end_response :: "'w host \<Rightarrow> assistant_message \<Rightarrow> bool \<Rightarrow> 'w loop_state \<Rightarrow> 'w loop_state" where
  "end_response h a added st = emit h (MessageEnd (AssistantMessage a))
     (if added then set_last (AssistantMessage a) st
      else emit h (MessageStart (AssistantMessage a)) (push_context (AssistantMessage a) st))"

definition streamAssistantResponse :: "'w host \<Rightarrow> 'w loop_state \<Rightarrow> assistant_message \<times> 'w loop_state" where
  "streamAssistantResponse h st =
     (case ask (ho_transformContext h (cx_messages (ls_context st))) st of
        (messages, st1) \<Rightarrow>
          (case ask (ho_convertToLlm h messages) st1 of
             (llmMessages, st2) \<Rightarrow>
               (case ask (ho_getApiKey h (cf_model (ls_config st2))) st2 of
                  (key, st3) \<Rightarrow>
                    (let resolvedApiKey = (case key of Some k \<Rightarrow> if k = [] then cf_apiKey (ls_config st3) else Some k
                           | None \<Rightarrow> cf_apiKey (ls_config st3))
                     in case ask (ho_stream h (ls_config st3\<lparr>cf_apiKey := resolvedApiKey\<rparr>) (normalizeContext None None llmMessages)) st3 of
                          ((parts, a), st4) \<Rightarrow>
                            (case stream_parts h parts False st4 of (added, st5) \<Rightarrow> (a, end_response h a added st5))))))"

section \<open>A turn\<close>

definition apply_update :: "turn_update \<Rightarrow> 'w loop_state \<Rightarrow> 'w loop_state" where
  "apply_update u st = st\<lparr>
     ls_context := (case tu_context u of None \<Rightarrow> ls_context st | Some cx \<Rightarrow> cx),
     ls_config := (ls_config st)\<lparr>
       cf_model := (case tu_model u of None \<Rightarrow> cf_model (ls_config st) | Some m \<Rightarrow> m),
       cf_reasoning := (case tu_thinkingLevel u of None \<Rightarrow> cf_reasoning (ls_config st)
         | Some l \<Rightarrow> if l = js ''off'' then None else Some l)\<rparr>\<rparr>"

definition poll_steering :: "'w host \<Rightarrow> 'w loop_state \<Rightarrow> 'w loop_state" where
  "poll_steering h st = (case ask (ho_getSteeringMessages h) st of (ms, st1) \<Rightarrow> st1\<lparr>ls_pending := ms\<rparr>)"

text \<open>Preparation of a turn other than the first: the messages it adds.\<close>

definition prepare_turn :: "'w host \<Rightarrow> 'w loop_state \<Rightarrow> agent_message list \<times> 'w loop_state" where
  "prepare_turn h st =
     (case ls_lastTurn st of
        None \<Rightarrow> ([], st)
      | Some t \<Rightarrow>
          (case ask (ho_prepareNextTurn h t) st of
             (u, st1) \<Rightarrow>
               (let st2 = (case u of None \<Rightarrow> st1 | Some v \<Rightarrow> apply_update v st1);
                    st3 = (if ls_pending st2 = [] then poll_steering h st2 else st2)
                in (case u of None \<Rightarrow> [] | Some v \<Rightarrow> (case tu_messages v of None \<Rightarrow> [] | Some ms \<Rightarrow> ms), emit h TurnStart st3))))"

definition inject_message :: "'w host \<Rightarrow> agent_message \<Rightarrow> 'w loop_state \<Rightarrow> 'w loop_state" where
  "inject_message h m st = push_new m (push_context m (emit_message h m st))"

definition inject_pending :: "'w host \<Rightarrow> (number \<Rightarrow> jstr) \<Rightarrow> 'w loop_state \<Rightarrow> 'w loop_state" where
  "inject_pending h dbl st =
     (case prepare_turn h st of
        (prepared, st1) \<Rightarrow>
          (fold (inject_message h)
             (declareToolChanges dbl (ho_now h (ls_world st1)) (ls_context st1) (prepared @ ls_pending st1)) st1)
             \<lparr>ls_pending := []\<rparr>)"

text \<open>The results of the tool calls of a response, in the context and in the new messages.\<close>

definition push_results :: "tool_result list \<Rightarrow> 'w loop_state \<Rightarrow> 'w loop_state" where
  "push_results rs st = fold (\<lambda>r s. push_new (ToolResultMessage r) (push_context (ToolResultMessage r) s)) rs st"

definition run_tools :: "'w host \<Rightarrow> assistant_message \<Rightarrow> 'w loop_state \<Rightarrow> tool_result list \<times> 'w loop_state" where
  "run_tools h a st =
     (if tool_calls a = [] then ([], st\<lparr>ls_more := False\<rparr>)
      else case (if as_stopReason a = LengthStop
                 then (case failToolCallsFromTruncatedMessage h (tool_calls a) st of (rs, st1) \<Rightarrow> ((rs, False), st1))
                 else executeToolCalls h a st) of
        ((rs, terminate), st1) \<Rightarrow> (rs, push_results rs (st1\<lparr>ls_more := \<not> terminate\<rparr>)))"

datatype 'w turn_outcome = Finished "'w loop_state" | Continue "'w loop_state"

definition end_agent :: "'w host \<Rightarrow> 'w loop_state \<Rightarrow> 'w loop_state" where
  "end_agent h st = emit h (AgentEnd (ls_newMessages st)) st"

definition complete_turn :: "'w host \<Rightarrow> assistant_message \<Rightarrow> tool_result list \<Rightarrow> 'w loop_state \<Rightarrow> 'w turn_outcome" where
  "complete_turn h a rs st =
     (let st1 = emit h (TurnEnd a rs) st;
          t = \<lparr>ct_message = a, ct_toolResults = rs, ct_context = ls_context st1, ct_newMessages = ls_newMessages st1\<rparr>
      in case ask (ho_shouldStopAfterTurn h t) (st1\<lparr>ls_lastTurn := Some t\<rparr>) of
           (stop, st2) \<Rightarrow> if stop then Finished (end_agent h st2) else Continue (poll_steering h st2))"

definition failed_response :: "assistant_message \<Rightarrow> bool" where
  "failed_response a \<longleftrightarrow> as_stopReason a = ErrorStop \<or> as_stopReason a = AbortedStop"

definition turn :: "'w host \<Rightarrow> (number \<Rightarrow> jstr) \<Rightarrow> 'w loop_state \<Rightarrow> 'w turn_outcome" where
  "turn h dbl st =
     (case streamAssistantResponse h (inject_pending h dbl st) of
        (a, st1) \<Rightarrow>
          (let st2 = push_new (AssistantMessage a) st1
           in if failed_response a then Finished (end_agent h (emit h (TurnEnd a []) st2))
              else (case run_tools h a st2 of (rs, st3) \<Rightarrow> complete_turn h a rs st3)))"

section \<open>A run\<close>

text \<open>Both loops: a turn while there are tool results or pending messages, then the messages that follow up.\<close>

partial_function (option) run_turns :: "'w host \<Rightarrow> (number \<Rightarrow> jstr) \<Rightarrow> 'w loop_state \<Rightarrow> 'w loop_state option" where
  "run_turns h dbl st =
     (if ls_more st \<or> ls_pending st \<noteq> []
      then (case turn h dbl st of Finished st1 \<Rightarrow> Some st1 | Continue st1 \<Rightarrow> run_turns h dbl st1)
      else (case ask (ho_getFollowUpMessages h) st of
        (ms, st1) \<Rightarrow> if ms \<noteq> [] then run_turns h dbl (st1\<lparr>ls_pending := ms, ls_more := True\<rparr>) else Some (end_agent h st1)))"

definition runLoop :: "'w host \<Rightarrow> (number \<Rightarrow> jstr) \<Rightarrow> 'w loop_state \<Rightarrow> 'w loop_state option" where
  "runLoop h dbl st = run_turns h dbl ((poll_steering h st)\<lparr>ls_lastTurn := None, ls_more := True\<rparr>)"

definition start_state :: "agent_context \<Rightarrow> loop_config \<Rightarrow> agent_message list \<Rightarrow> 'w \<Rightarrow> 'w loop_state" where
  "start_state cx cf new w = \<lparr>ls_context = cx, ls_config = cf, ls_newMessages = new, ls_lastTurn = None, ls_pending = [],
     ls_more = True, ls_events = [], ls_world = w\<rparr>"

definition runAgentLoop ::
    "'w host \<Rightarrow> (number \<Rightarrow> jstr) \<Rightarrow> agent_message list \<Rightarrow> agent_context \<Rightarrow> loop_config \<Rightarrow> 'w \<Rightarrow> 'w loop_state option" where
  "runAgentLoop h dbl prompts cx cf w =
     (let initialMessages = declareToolChanges dbl (ho_now h w) cx prompts;
          st = start_state (cx\<lparr>cx_messages := cx_messages cx @ initialMessages\<rparr>) cf initialMessages w
      in runLoop h dbl (fold (emit_message h) initialMessages (emit h TurnStart (emit h AgentStart st))))"

definition runAgentLoopContinue ::
    "'w host \<Rightarrow> (number \<Rightarrow> jstr) \<Rightarrow> agent_context \<Rightarrow> loop_config \<Rightarrow> 'w \<Rightarrow> jstr + 'w loop_state option" where
  "runAgentLoopContinue h dbl cx cf w =
     (if cx_messages cx = [] then Inl (js ''Cannot continue: no messages in context'')
      else case last (cx_messages cx) of
        AssistantMessage a \<Rightarrow> Inl (js ''Cannot continue from message role: assistant'')
      | _ \<Rightarrow> Inr (runLoop h dbl (emit h TurnStart (emit h AgentStart (start_state cx cf [] w)))))"

section \<open>What a run adds\<close>

text \<open>
  Between two states: the messages announced, those added to the new messages, and the events that begin or end a turn
  or the run.
\<close>

definition adds :: "'w loop_state \<Rightarrow> agent_message list \<Rightarrow> agent_message list \<Rightarrow> agent_event list \<Rightarrow> 'w loop_state \<Rightarrow> bool" where
  "adds st M N B st' \<longleftrightarrow> (\<exists>es. ls_events st' = ls_events st @ es \<and> ls_newMessages st' = ls_newMessages st @ N \<and>
     message_ends es = M \<and> filter is_boundary es = B)"

lemma adds_trans: "adds st M N B st1 \<Longrightarrow> adds st1 M' N' B' st2 \<Longrightarrow> adds st (M @ M') (N @ N') (B @ B') st2"
proof -
  assume "adds st M N B st1" "adds st1 M' N' B' st2"
  then obtain es es' where "ls_events st1 = ls_events st @ es" "ls_newMessages st1 = ls_newMessages st @ N"
      "message_ends es = M" "filter is_boundary es = B" "ls_events st2 = ls_events st1 @ es'"
      "ls_newMessages st2 = ls_newMessages st1 @ N'" "message_ends es' = M'" "filter is_boundary es' = B'"
    unfolding adds_def by blast
  then show ?thesis unfolding adds_def by (intro exI[of _ "es @ es'"]) simp
qed

lemma adds_same: "ls_events st' = ls_events st \<Longrightarrow> ls_newMessages st' = ls_newMessages st \<Longrightarrow> adds st [] [] [] st'"
  unfolding adds_def by (intro exI[of _ "[]"]) simp

lemma adds_emit: "adds st (message_ends [e]) [] (filter is_boundary [e]) (emit h e st)"
  unfolding adds_def emit_def by (intro exI[of _ "[e]"]) simp

lemma adds_new: "adds st [] [m] [] (push_new m st)"
  unfolding adds_def push_new_def by (intro exI[of _ "[]"]) simp

lemma adds_context: "adds st [] [] [] (push_context m st)" "adds st [] [] [] (set_last m st)"
  by (rule adds_same; simp add: push_context_def set_last_def)+

lemma adds_ask: "ask f st = (x, st') \<Longrightarrow> adds st [] [] [] st'"
  by (rule adds_same) (auto simp: ask_def split: prod.splits)

lemma adds_effect: "effect st S E M st' \<Longrightarrow> adds st M [] [] st'"
proof -
  assume eff: "effect st S E M st'"
  then obtain es where "grows st es st'" "message_ends es = M" "filter is_boundary es = []"
    unfolding effect_def by blast
  moreover from this have "ls_events st' = ls_events st @ es" by (auto simp: grows_def)
  ultimately show ?thesis unfolding adds_def using effect_fst[OF eff] by (intro exI[of _ es]) simp
qed

lemma ask_lastTurn: "ask f st = (x, st') \<Longrightarrow> ls_lastTurn st' = ls_lastTurn st"
  by (auto simp: ask_def split: prod.splits)

lemma push_lastTurn [simp]: "ls_lastTurn (emit h e st) = ls_lastTurn st" "ls_lastTurn (push_new m st) = ls_lastTurn st"
    "ls_lastTurn (push_context m st) = ls_lastTurn st" "ls_lastTurn (set_last m st) = ls_lastTurn st"
  by (simp_all add: emit_def push_new_def push_context_def set_last_def)

lemma parts_adds: "stream_parts h ps added st = (b, st') \<Longrightarrow> adds st [] [] [] st'"
proof (induction h ps added st rule: stream_parts.induct)
  case (1 h added st)
  then show ?case by (intro adds_same) simp_all
next
  case (2 h a ps added st)
  have "stream_parts h ps True (emit h (MessageStart (AssistantMessage a)) (push_context (AssistantMessage a) st)) = (b, st')"
    using 2(2) by simp
  from adds_trans[OF adds_trans[OF adds_context(1) adds_emit] 2(1)[OF this]] show ?case by simp
next
  case (3 h a ps added st)
  show ?case
  proof (cases added)
    case True
    then have "stream_parts h ps added (emit h (MessageUpdate a) (set_last (AssistantMessage a) st)) = (b, st')"
      using 3(2) by simp
    then have "adds (emit h (MessageUpdate a) (set_last (AssistantMessage a) st)) [] [] [] st'" using 3(1) True by simp
    from adds_trans[OF adds_trans[OF adds_context(2) adds_emit] this] show ?thesis by simp
  qed (use 3 in simp)
next
  case (4 h ps added st)
  then show ?case by (intro adds_same) simp_all
qed

lemma end_response_adds: "adds st [AssistantMessage a] [] [] (end_response h a added st)"
proof (cases added)
  case True
  then show ?thesis using adds_trans[OF adds_context(2) adds_emit[of _ "MessageEnd (AssistantMessage a)" h]]
    by (simp add: end_response_def)
next
  case False
  then show ?thesis
    using adds_trans[OF adds_trans[OF adds_context(1) adds_emit[of _ "MessageStart (AssistantMessage a)" h]]
        adds_emit[of _ "MessageEnd (AssistantMessage a)" h]] by (simp add: end_response_def)
qed

text \<open>The parts of a response, and the world it leaves.\<close>

lemma stream_cases:
  assumes "streamAssistantResponse h st = (a, st')"
  obtains cf ms w parts st4 added st5 where "adds st [] [] [] st4" "ls_lastTurn st4 = ls_lastTurn st"
    "ls_context st4 = ls_context st" "ho_stream h cf ms w = ((parts, a), ls_world st4)"
    "stream_parts h parts False st4 = (added, st5)" "st' = end_response h a added st5"
proof -
  obtain ms st1 where s1: "ask (ho_transformContext h (cx_messages (ls_context st))) st = (ms, st1)" by (metis surj_pair)
  obtain ls st2 where s2: "ask (ho_convertToLlm h ms) st1 = (ls, st2)" by (metis surj_pair)
  obtain key st3 where s3: "ask (ho_getApiKey h (cf_model (ls_config st2))) st2 = (key, st3)" by (metis surj_pair)
  define cf where "cf = ls_config st3\<lparr>cf_apiKey := (case key of Some k \<Rightarrow> if k = [] then cf_apiKey (ls_config st3) else Some k
     | None \<Rightarrow> cf_apiKey (ls_config st3))\<rparr>"
  obtain parts b st4 where s4: "ask (ho_stream h cf (normalizeContext None None ls)) st3 = ((parts, b), st4)"
    by (metis surj_pair)
  obtain added st5 where s5: "stream_parts h parts False st4 = (added, st5)" by (metis surj_pair)
  have "streamAssistantResponse h st = (b, end_response h b added st5)"
    using s1 s2 s3 s4 s5 by (simp add: streamAssistantResponse_def cf_def)
  then have out: "a = b" "st' = end_response h b added st5" using assms by simp_all
  have stream: "ho_stream h cf (normalizeContext None None ls) (ls_world st3) = ((parts, b), ls_world st4)"
    using s4 by (auto simp: ask_def split: prod.splits)
  have frame: "ls_context st4 = ls_context st"
    using s1 s2 s3 s4 by (auto simp: ask_def split: prod.splits)
  show ?thesis
    using that[OF _ _ frame stream[folded out(1)] s5] out
      adds_trans[OF adds_trans[OF adds_trans[OF adds_ask[OF s1] adds_ask[OF s2]] adds_ask[OF s3]] adds_ask[OF s4]]
      ask_lastTurn[OF s1] ask_lastTurn[OF s2] ask_lastTurn[OF s3] ask_lastTurn[OF s4] by simp
qed

lemma parts_lastTurn: "stream_parts h ps added st = (b, st') \<Longrightarrow> ls_lastTurn st' = ls_lastTurn st"
  by (induction h ps added st rule: stream_parts.induct) (auto split: if_splits)

lemma stream_adds:
  assumes "streamAssistantResponse h st = (a, st')"
  shows "adds st [AssistantMessage a] [] [] st'" "ls_lastTurn st' = ls_lastTurn st"
proof -
  obtain cf ms w parts st4 added st5 where s: "adds st [] [] [] st4" "ls_lastTurn st4 = ls_lastTurn st"
      "ls_context st4 = ls_context st" "ho_stream h cf ms w = ((parts, a), ls_world st4)"
      "stream_parts h parts False st4 = (added, st5)" "st' = end_response h a added st5"
    by (rule stream_cases[OF assms])
  show "adds st [AssistantMessage a] [] [] st'"
    using adds_trans[OF adds_trans[OF s(1) parts_adds[OF s(5)]] end_response_adds] s(6) by simp
  show "ls_lastTurn st' = ls_lastTurn st" using s parts_lastTurn[OF s(5)] by (simp add: end_response_def)
qed

section \<open>Turns\<close>

record turn_log =
  tl_injected :: "agent_message list"
  tl_message :: assistant_message
  tl_results :: "tool_result list"

definition turn_messages :: "turn_log \<Rightarrow> agent_message list" where
  "turn_messages t = tl_injected t @ AssistantMessage (tl_message t) # map ToolResultMessage (tl_results t)"

definition turn_end :: "turn_log \<Rightarrow> agent_event" where
  "turn_end t = TurnEnd (tl_message t) (tl_results t)"

text \<open>
  The contract of a turn: a failed response has no results; a truncated one an error for each call; any other answers a
  prefix of its calls in order, at least one, and all of them when nothing is ever aborted.
\<close>

definition turn_ok :: "bool \<Rightarrow> turn_log \<Rightarrow> bool" where
  "turn_ok never_aborted t \<longleftrightarrow>
     (if failed_response (tl_message t) then tl_results t = []
      else if as_stopReason (tl_message t) = LengthStop
      then answers (tl_results t) (tool_calls (tl_message t)) \<and> list_all tr_isError (tl_results t)
      else (\<exists>k. answers (tl_results t) (take k (tool_calls (tl_message t))) \<and> (tool_calls (tl_message t) \<noteq> [] \<longrightarrow> 0 < k) \<and>
        (never_aborted \<longrightarrow> length (tool_calls (tl_message t)) \<le> k)))"

lemma prepare_adds:
  assumes "prepare_turn h st = (ms, st')"
  shows "adds st [] [] (if ls_lastTurn st = None then [] else [TurnStart]) st'"
proof (cases "ls_lastTurn st")
  case None
  then show ?thesis using assms adds_same[of st st] by (simp add: prepare_turn_def)
next
  case (Some t)
  obtain u st1 where s1: "ask (ho_prepareNextTurn h t) st = (u, st1)" by (metis surj_pair)
  define st2 where "st2 = (case u of None \<Rightarrow> st1 | Some v \<Rightarrow> apply_update v st1)"
  define st3 where "st3 = (if ls_pending st2 = [] then poll_steering h st2 else st2)"
  have a2: "adds st1 [] [] [] st2" by (rule adds_same) (auto simp: st2_def apply_update_def split: option.splits)
  have a3: "adds st2 [] [] [] st3"
    by (rule adds_same) (auto simp: st3_def poll_steering_def ask_def split: prod.splits)
  have "snd (prepare_turn h st) = emit h TurnStart st3"
    using Some s1 by (simp add: prepare_turn_def st2_def st3_def Let_def)
  then have "st' = emit h TurnStart st3" using assms by simp
  then show ?thesis
    using adds_trans[OF adds_trans[OF adds_trans[OF adds_ask[OF s1] a2] a3] adds_emit[of _ TurnStart h]] Some by simp
qed

lemma emit_message_adds: "adds st [m] [] [] (emit_message h m st)"
  using adds_trans[OF adds_emit[of st "MessageStart m" h] adds_emit[of _ "MessageEnd m" h]] by (simp add: emit_message_def)

lemma inject_adds: "adds st ms ms [] (fold (inject_message h) ms st)"
proof (induction ms arbitrary: st)
  case Nil
  show ?case by (intro adds_same) simp_all
next
  case (Cons m ms)
  have "adds st [m] [m] [] (inject_message h m st)"
    using adds_trans[OF adds_trans[OF emit_message_adds[of st m h] adds_context(1)] adds_new] by (simp add: inject_message_def)
  from adds_trans[OF this Cons.IH] show ?case by simp
qed

lemma pending_adds:
  obtains ms where "adds st ms ms (if ls_lastTurn st = None then [] else [TurnStart]) (inject_pending h dbl st)"
proof -
  obtain prepared st1 where s1: "prepare_turn h st = (prepared, st1)" by (metis surj_pair)
  define ms where "ms = declareToolChanges dbl (ho_now h (ls_world st1)) (ls_context st1) (prepared @ ls_pending st1)"
  have "adds (fold (inject_message h) ms st1) [] [] [] ((fold (inject_message h) ms st1)\<lparr>ls_pending := []\<rparr>)"
    by (rule adds_same) simp_all
  from adds_trans[OF adds_trans[OF prepare_adds[OF s1] inject_adds[of st1 ms h]] this] show ?thesis
    using that s1 by (simp add: inject_pending_def ms_def)
qed

lemma push_results_adds: "adds st [] (map ToolResultMessage rs) [] (push_results rs st)"
proof (induction rs arbitrary: st)
  case Nil
  show ?case using adds_same[of st st] by (simp add: push_results_def)
next
  case (Cons r rs)
  show ?case
    using adds_trans[OF adds_trans[OF adds_context(1) adds_new[of _ "ToolResultMessage r"]] Cons.IH] by (simp add: push_results_def)
qed

lemma truncated_errors:
  "failToolCallsFromTruncatedMessage h cs st = (rs, st') \<Longrightarrow> list_all tr_isError rs"
proof (induction cs arbitrary: st rs st')
  case (Cons c cs)
  then show ?case
    by (auto simp: Let_def announce_result_def createToolResultMessage_def failed_call_def split: prod.splits)
qed simp

lemma run_tools_adds:
  fixes injected :: "agent_message list"
  assumes "run_tools h a st = (rs, st')" "\<not> failed_response a"
  shows "adds st (map ToolResultMessage rs) (map ToolResultMessage rs) [] st'"
    "turn_ok (\<forall>w. \<not> ho_aborted h w) \<lparr>tl_injected = injected, tl_message = a, tl_results = rs\<rparr>"
proof -
  consider (none) "tool_calls a = []" "rs = []" "st' = st\<lparr>ls_more := False\<rparr>"
    | (truncated) st1 where "as_stopReason a = LengthStop" "failToolCallsFromTruncatedMessage h (tool_calls a) st = (rs, st1)"
        "st' = push_results rs (st1\<lparr>ls_more := True\<rparr>)"
    | (batch) t st1 where "as_stopReason a \<noteq> LengthStop" "executeToolCalls h a st = ((rs, t), st1)"
        "st' = push_results rs (st1\<lparr>ls_more := \<not> t\<rparr>)"
    using assms(1) by (auto simp: run_tools_def split: if_splits prod.splits)
  note cases = this
  have more: "adds s [] [] [] (s\<lparr>ls_more := b\<rparr>)" for s :: "'a loop_state" and b by (rule adds_same) simp_all
  show "adds st (map ToolResultMessage rs) (map ToolResultMessage rs) [] st'"
  proof (cases rule: cases)
    case none
    then show ?thesis using more by simp
  next
    case truncated
    show ?thesis
      using adds_trans[OF adds_trans[OF adds_effect[OF conjunct1[OF truncated_effect[OF truncated(2)]]] more] push_results_adds]
        truncated(3) by fastforce
  next
    case batch
    obtain k E where "effect st (take k (tool_calls a)) E (map ToolResultMessage rs) st1"
      using execute_effect[OF batch(2)] by blast
    from adds_trans[OF adds_trans[OF adds_effect[OF this] more] push_results_adds] show ?thesis using batch(3) by fastforce
  qed
  show "turn_ok (\<forall>w. \<not> ho_aborted h w) \<lparr>tl_injected = injected, tl_message = a, tl_results = rs\<rparr>"
  proof (cases rule: cases)
    case none
    then show ?thesis using assms(2) by (auto simp: turn_ok_def answers_def)
  next
    case truncated
    then show ?thesis using assms(2) truncated_effect[OF truncated(2)] truncated_errors[OF truncated(2)]
      by (simp add: turn_ok_def)
  next
    case batch
    then show ?thesis using assms(2) execute_effect[OF batch(2)] by (auto simp: turn_ok_def)
  qed
qed

text \<open>The events that begin and end a turn; the first turn of a run is begun by the run.\<close>

definition turn_bounds :: "bool \<Rightarrow> turn_log \<Rightarrow> agent_event list" where
  "turn_bounds first t = (if first then [turn_end t] else [TurnStart, turn_end t])"

lemma complete_turn_adds:
  "complete_turn h a rs st = Continue st' \<Longrightarrow> adds st [] [] [TurnEnd a rs] st' \<and> ls_lastTurn st' \<noteq> None"
  "complete_turn h a rs st = Finished st' \<Longrightarrow> adds st [] [] [TurnEnd a rs, AgentEnd (ls_newMessages st')] st'"
proof -
  let ?t = "\<lparr>ct_message = a, ct_toolResults = rs, ct_context = ls_context (emit h (TurnEnd a rs) st),
    ct_newMessages = ls_newMessages (emit h (TurnEnd a rs) st)\<rparr>"
  let ?st1 = "(emit h (TurnEnd a rs) st)\<lparr>ls_lastTurn := Some ?t\<rparr>"
  obtain stop st2 where s2: "ask (ho_shouldStopAfterTurn h ?t) ?st1 = (stop, st2)" by (metis surj_pair)
  have "adds (emit h (TurnEnd a rs) st) [] [] [] ?st1" by (rule adds_same) simp_all
  note base = adds_trans[OF adds_trans[OF adds_emit this] adds_ask[OF s2], simplified]
  have split: "complete_turn h a rs st = (if stop then Finished (end_agent h st2) else Continue (poll_steering h st2))"
    using s2 by (simp add: complete_turn_def Let_def)
  have last: "ls_lastTurn st2 = Some ?t" using ask_lastTurn[OF s2] by simp
  have poll: "adds st2 [] [] [] (poll_steering h st2)"
    by (rule adds_same) (auto simp: poll_steering_def ask_def split: prod.splits)
  have keep: "ls_lastTurn (poll_steering h st2) = ls_lastTurn st2"
    by (auto simp: poll_steering_def ask_def split: prod.splits)
  have new: "ls_newMessages (end_agent h st2) = ls_newMessages st2" by (simp add: end_agent_def emit_def)
  have fin: "adds st2 [] [] [AgentEnd (ls_newMessages st2)] (end_agent h st2)"
    using adds_emit[of st2 "AgentEnd (ls_newMessages st2)" h] by (simp add: end_agent_def)
  show "complete_turn h a rs st = Continue st' \<Longrightarrow> adds st [] [] [TurnEnd a rs] st' \<and> ls_lastTurn st' \<noteq> None"
    using split adds_trans[OF base poll] keep last by (simp split: if_splits)
  show "complete_turn h a rs st = Finished st' \<Longrightarrow> adds st [] [] [TurnEnd a rs, AgentEnd (ls_newMessages st')] st'"
    using split adds_trans[OF base fin] new by (auto split: if_splits)
qed

text \<open>A turn that goes on adds a turn that is as it should be; one that ends the run ends it with the new messages.\<close>

lemma turn_adds:
  "turn h dbl st = Continue st' \<Longrightarrow> \<exists>t. adds st (turn_messages t) (turn_messages t) (turn_bounds (ls_lastTurn st = None) t) st' \<and>
     turn_ok (\<forall>w. \<not> ho_aborted h w) t \<and> \<not> failed_response (tl_message t) \<and> ls_lastTurn st' \<noteq> None"
  "turn h dbl st = Finished st' \<Longrightarrow> \<exists>t. adds st (turn_messages t) (turn_messages t)
     (turn_bounds (ls_lastTurn st = None) t @ [AgentEnd (ls_newMessages st')]) st' \<and> turn_ok (\<forall>w. \<not> ho_aborted h w) t"
proof -
  obtain inj where p: "adds st inj inj (if ls_lastTurn st = None then [] else [TurnStart]) (inject_pending h dbl st)"
    by (rule pending_adds)
  obtain a st1 where s1: "streamAssistantResponse h (inject_pending h dbl st) = (a, st1)" by (metis surj_pair)
  let ?st2 = "push_new (AssistantMessage a) st1"
  note base = adds_trans[OF adds_trans[OF p stream_adds(1)[OF s1]] adds_new[of st1 "AssistantMessage a"], simplified]
  obtain rs st3 where s3: "run_tools h a ?st2 = (rs, st3)" by (metis surj_pair)
  let ?t = "\<lparr>tl_injected = inj, tl_message = a, tl_results = rs\<rparr>"
  let ?f = "\<lparr>tl_injected = inj, tl_message = a, tl_results = []\<rparr>"
  let ?done = "end_agent h (emit h (TurnEnd a []) ?st2)"
  have split: "turn h dbl st = (if failed_response a then Finished ?done else complete_turn h a rs st3)"
    using s1 s3 by (simp add: turn_def Let_def)
  have mid: "adds st (turn_messages ?t) (turn_messages ?t) (if ls_lastTurn st = None then [] else [TurnStart]) st3"
    if "\<not> failed_response a"
    using adds_trans[OF base run_tools_adds(1)[OF s3 that]] by (simp add: turn_messages_def)
  have ok: "turn_ok (\<forall>w. \<not> ho_aborted h w) ?t" if "\<not> failed_response a" by (rule run_tools_adds(2)[OF s3 that])
  have goes_on: "adds st (turn_messages ?t) (turn_messages ?t) (turn_bounds (ls_lastTurn st = None) ?t) st' \<and> ls_lastTurn st' \<noteq> None"
    if "\<not> failed_response a" "complete_turn h a rs st3 = Continue st'"
    using adds_trans[OF mid[OF that(1)] conjunct1[OF complete_turn_adds(1)[OF that(2)]]] complete_turn_adds(1)[OF that(2)]
    by (cases "ls_lastTurn st") (simp_all add: turn_bounds_def turn_end_def)
  have stops: "adds st (turn_messages ?t) (turn_messages ?t)
      (turn_bounds (ls_lastTurn st = None) ?t @ [AgentEnd (ls_newMessages st')]) st'"
    if "\<not> failed_response a" "complete_turn h a rs st3 = Finished st'"
    using adds_trans[OF mid[OF that(1)] complete_turn_adds(2)[OF that(2)]]
    by (cases "ls_lastTurn st") (simp_all add: turn_bounds_def turn_end_def)
  have failure: "adds st (turn_messages ?f) (turn_messages ?f)
      (turn_bounds (ls_lastTurn st = None) ?f @ [AgentEnd (ls_newMessages ?done)]) ?done"
    if "failed_response a"
  proof -
    have n: "ls_newMessages ?done = ls_newMessages (emit h (TurnEnd a []) ?st2)" by (simp add: end_agent_def emit_def)
    have fin: "adds s [] [] [AgentEnd (ls_newMessages s)] (end_agent h s)" for s :: "'a loop_state"
      using adds_emit[of s "AgentEnd (ls_newMessages s)" h] by (simp add: end_agent_def)
    show ?thesis using adds_trans[OF adds_trans[OF base adds_emit[of _ "TurnEnd a []" h]] fin] n
      by (cases "ls_lastTurn st") (simp_all add: turn_messages_def turn_bounds_def turn_end_def)
  qed
  show "turn h dbl st = Continue st' \<Longrightarrow> \<exists>t. adds st (turn_messages t) (turn_messages t) (turn_bounds (ls_lastTurn st = None) t) st' \<and>
     turn_ok (\<forall>w. \<not> ho_aborted h w) t \<and> \<not> failed_response (tl_message t) \<and> ls_lastTurn st' \<noteq> None"
  proof -
    assume "turn h dbl st = Continue st'"
    then have "\<not> failed_response a" "complete_turn h a rs st3 = Continue st'" using split by (simp_all split: if_splits)
    then show ?thesis using goes_on ok by (intro exI[of _ ?t]) simp
  qed
  show "turn h dbl st = Finished st' \<Longrightarrow> \<exists>t. adds st (turn_messages t) (turn_messages t)
     (turn_bounds (ls_lastTurn st = None) t @ [AgentEnd (ls_newMessages st')]) st' \<and> turn_ok (\<forall>w. \<not> ho_aborted h w) t"
  proof (cases "failed_response a")
    case True
    assume "turn h dbl st = Finished st'"
    then have "st' = ?done" using split True by simp
    then show ?thesis using failure[OF True] True by (intro exI[of _ ?f]) (simp add: turn_ok_def)
  next
    case False
    assume "turn h dbl st = Finished st'"
    then have "complete_turn h a rs st3 = Finished st'" using split False by simp
    then show ?thesis using stops ok False by (intro exI[of _ ?t]) simp
  qed
qed

section \<open>Runs\<close>

fun run_bounds :: "bool \<Rightarrow> turn_log list \<Rightarrow> agent_event list" where
  "run_bounds first [] = []"
| "run_bounds first (t # ts) = turn_bounds first t @ run_bounds False ts"

lemma run_bounds_later: "run_bounds False ts = concat (map (\<lambda>t. [TurnStart, turn_end t]) ts)"
  by (induction ts) (simp_all add: turn_bounds_def)

lemma run_bounds_first: "ts \<noteq> [] \<Longrightarrow> TurnStart # run_bounds True ts = run_bounds False ts"
  by (cases ts) (simp_all add: turn_bounds_def)

text \<open>The turns of a run: each as it should be, and only the last one failed.\<close>

definition turns_ok :: "bool \<Rightarrow> turn_log list \<Rightarrow> bool" where
  "turns_ok never_aborted ts \<longleftrightarrow> list_all (turn_ok never_aborted) ts \<and>
     list_all (\<lambda>t. \<not> failed_response (tl_message t)) (butlast ts)"

definition run_adds :: "'w host \<Rightarrow> 'w loop_state \<Rightarrow> turn_log list \<Rightarrow> 'w loop_state \<Rightarrow> bool" where
  "run_adds h st ts st' \<longleftrightarrow>
     adds st (concat (map turn_messages ts)) (concat (map turn_messages ts))
       (run_bounds (ls_lastTurn st = None) ts @ [AgentEnd (ls_newMessages st')]) st' \<and>
     turns_ok (\<forall>w. \<not> ho_aborted h w) ts"

lemma run_adds_one: "adds st (turn_messages t) (turn_messages t)
    (turn_bounds (ls_lastTurn st = None) t @ [AgentEnd (ls_newMessages st')]) st' \<Longrightarrow>
    turn_ok (\<forall>w. \<not> ho_aborted h w) t \<Longrightarrow> run_adds h st [t] st'"
  by (simp add: run_adds_def turns_ok_def)

lemma run_adds_more:
  assumes "adds st (turn_messages t) (turn_messages t) (turn_bounds (ls_lastTurn st = None) t) st1"
    "turn_ok (\<forall>w. \<not> ho_aborted h w) t" "\<not> failed_response (tl_message t)" "ls_lastTurn st1 \<noteq> None"
    "run_adds h st1 ts st'"
  shows "run_adds h st (t # ts) st'"
proof -
  have "adds st1 (concat (map turn_messages ts)) (concat (map turn_messages ts))
      (run_bounds False ts @ [AgentEnd (ls_newMessages st')]) st'"
    using assms(4,5) by (auto simp: run_adds_def)
  from adds_trans[OF assms(1) this] show ?thesis using assms by (simp add: run_adds_def turns_ok_def)
qed

lemma run_adds_none: "adds st [] [] [AgentEnd (ls_newMessages st')] st' \<Longrightarrow> run_adds h st [] st'"
  by (simp add: run_adds_def turns_ok_def)

lemma end_agent_adds: "adds st [] [] [AgentEnd (ls_newMessages (end_agent h st))] (end_agent h st)"
  using adds_emit[of st "AgentEnd (ls_newMessages st)" h] by (simp add: end_agent_def emit_def)

lemma follow_up_run:
  assumes "ask f st = (ms, st1)" "run_adds h (st1\<lparr>ls_pending := ms, ls_more := True\<rparr>) ts st'"
  shows "run_adds h st ts st'"
proof -
  have "adds st1 [] [] [] (st1\<lparr>ls_pending := ms, ls_more := True\<rparr>)" by (rule adds_same) simp_all
  note base = adds_trans[OF adds_ask[OF assms(1)] this, simplified]
  show ?thesis using assms(2) adds_trans[OF base] ask_lastTurn[OF assms(1)] by (auto simp: run_adds_def)
qed

lemma run_turns_adds:
  assumes "run_turns h dbl st = Some st'"
  shows "\<exists>ts. run_adds h st ts st' \<and> (ls_more st \<longrightarrow> ts \<noteq> [])"
proof (rule run_turns.raw_induct[where P = "\<lambda>h dbl st st'. \<exists>ts. run_adds h st ts st' \<and> (ls_more st \<longrightarrow> ts \<noteq> [])",
      OF _ assms], goal_cases)
  case (1 f h dbl st st')
  show ?case
  proof (cases "ls_more st \<or> ls_pending st \<noteq> []")
    case True
    show ?thesis
    proof (cases "turn h dbl st")
      case (Finished st1)
      then have "st' = st1" using 1(2) True by simp
      then show ?thesis using turn_adds(2)[OF Finished] run_adds_one by blast
    next
      case (Continue st1)
      then have "f h dbl st1 = Some st'" using 1(2) True by simp
      then obtain ts where "run_adds h st1 ts st'" using 1(1) by blast
      then show ?thesis using turn_adds(1)[OF Continue] run_adds_more by blast
    qed
  next
    case False
    obtain ms st1 where s1: "ask (ho_getFollowUpMessages h) st = (ms, st1)" by (metis surj_pair)
    show ?thesis
    proof (cases "ms = []")
      case True
      then have "st' = end_agent h st1" using 1(2) False s1 by simp
      then have "adds st [] [] [AgentEnd (ls_newMessages st')] st'"
        using adds_trans[OF adds_ask[OF s1] end_agent_adds] by simp
      then show ?thesis using run_adds_none False by blast
    next
      case ms: False
      then have "f h dbl (st1\<lparr>ls_pending := ms, ls_more := True\<rparr>) = Some st'" using 1(2) False s1 by simp
      then obtain ts where "run_adds h (st1\<lparr>ls_pending := ms, ls_more := True\<rparr>) ts st'" using 1(1) by blast
      then show ?thesis using follow_up_run[OF s1] False by blast
    qed
  qed
qed

lemma initial_adds: "adds st ms [] [] (fold (emit_message h) ms st)"
proof (induction ms arbitrary: st)
  case Nil
  show ?case using adds_same[of st st] by simp
next
  case (Cons m ms)
  from adds_trans[OF emit_message_adds[of st m h] Cons.IH] show ?case by simp
qed

text \<open>What a run returns and announces, from a state in which the run has been announced.\<close>

lemma runLoop_adds:
  assumes "runLoop h dbl st = Some st'"
  shows "\<exists>ts. ts \<noteq> [] \<and> adds st (concat (map turn_messages ts)) (concat (map turn_messages ts))
      (run_bounds True ts @ [AgentEnd (ls_newMessages st')]) st' \<and> turns_ok (\<forall>w. \<not> ho_aborted h w) ts"
proof -
  let ?s = "(poll_steering h st)\<lparr>ls_lastTurn := None, ls_more := True\<rparr>"
  have "adds st [] [] [] ?s"
    by (rule adds_same) (auto simp: poll_steering_def ask_def split: prod.splits)
  moreover obtain ts where "run_adds h ?s ts st'" "ts \<noteq> []"
    using run_turns_adds[of h dbl ?s st'] assms by (auto simp: runLoop_def)
  ultimately show ?thesis using adds_trans[of st "[]" "[]" "[]" ?s] by (intro exI[of _ ts]) (auto simp: run_adds_def)
qed

section \<open>Tool declarations\<close>

lemma split_last_Some: "split_last_system ms = Some (before, s, after) \<Longrightarrow>
    ms = before @ SystemMessage s # after \<and> some_of system_of after = []"
proof (induction ms arbitrary: before)
  case (Cons m ms)
  show ?case
  proof (cases "split_last_system ms")
    case None
    have "some_of system_of ms' = []" if "split_last_system ms' = None" for ms'
      using that by (induction ms') (auto split: option.splits prod.splits)
    then show ?thesis using Cons.prems None by (cases m) auto
  next
    case (Some x)
    obtain b s2 a where x: "x = (b, s2, a)" by (metis surj_pair)
    then have "before = m # b" "s2 = s" "a = after" using Cons.prems Some by simp_all
    then show ?thesis using Cons.IH[of b] Some x by simp
  qed
qed simp

lemma split_last_None: "split_last_system ms = None \<Longrightarrow> some_of system_of ms = []"
  by (induction ms) (auto split: option.splits prod.splits)

lemma replay_at: "some_of system_of after = [] \<Longrightarrow>
    replay_tools (before @ SystemMessage s # after) = apply_tools (sy_toolsRemoved s) (sy_toolsAdded s) (replay_tools before)"
  by (simp add: replay_tools_def)

lemma replay_without: "some_of system_of after = [] \<Longrightarrow> replay_tools (before @ after) = replay_tools before"
  by (simp add: replay_tools_def)

lemma apply_none [simp]: "apply_tools [] [] m = m"
  by (simp add: apply_tools_def)

lemma declared_twice: "toToolDeclaration (toToolDeclaration t) = toToolDeclaration t"
  by (simp add: toToolDeclaration_def)

lemma name_declared [simp]: "to_name (toToolDeclaration t) = to_name t"
  by (simp add: toToolDeclaration_def)

lemma tools_by_name_declared: "tools_by_name (map toToolDeclaration ts) n = map_option toToolDeclaration (tools_by_name ts n)"
  unfolding tools_by_name_def by (induction ts rule: rev_induct) (auto simp: comp_def)

text \<open>Replaying the difference brings the tools declared so far to those of the context.\<close>

lemma changes_declared:
  assumes "distinct (map to_name (cx_tools cx))" "replay_tools (cx_messages cx @ baseline) = m"
  shows "rel_option (declarationsEqual dbl) (map_of (apply_tools (ch_toolsRemoved (tool_changes dbl cx baseline))
      (ch_toolsAdded (tool_changes dbl cx baseline)) m) n) (tools_by_name (cx_tools cx) n)"
proof -
  have m: "map_ok m" using map_ok_replay assms(2) by blast
  have d: "distinct (map to_name (map toToolDeclaration (cx_tools cx)))" using assms(1) by (simp add: comp_def)
  have "tool_changes dbl cx baseline = getToolStateChanges dbl (map snd m) (map toToolDeclaration (cx_tools cx))"
    using assms(2) by (simp add: tool_changes_def getCurrentTools_def)
  then have "rel_option (declarationsEqual dbl) (map_of (apply_tools (ch_toolsRemoved (tool_changes dbl cx baseline))
      (ch_toolsAdded (tool_changes dbl cx baseline)) m) n) (map_option toToolDeclaration (tools_by_name (cx_tools cx) n))"
    using changes_applied[OF m d, of dbl n] by (simp add: tools_by_name_declared)
  then show ?thesis
    by (cases "tools_by_name (cx_tools cx) n") (auto simp: option_rel_Some2 declarationsEqual_def declared_twice)
qed

text \<open>A message without the tools it declares.\<close>

fun forget_tools :: "agent_message \<Rightarrow> agent_message" where
  "forget_tools (SystemMessage s) = SystemMessage (withToolChanges s no_changes)"
| "forget_tools m = m"

definition bare_system :: "agent_message \<Rightarrow> bool" where
  "bare_system m \<longleftrightarrow> (case m of SystemMessage s \<Rightarrow> sy_content s = PlainText [] \<and> sy_sections s = [] | _ \<Rightarrow> False)"

text \<open>
  C15. Before a request the transcript declares exactly the tools that can be executed: replaying the system messages of
  the context and of the messages added now gives the tools of the context, up to equal declarations, whatever the
  pending messages declare. Nothing else changes: the messages are the pending ones with other tool declarations, or
  behind one new system message that has only declarations.
\<close>

theorem tools_declared:
  assumes "distinct (map to_name (cx_tools cx))"
  shows "let out = declareToolChanges dbl now cx pending in
    (\<forall>n. rel_option (declarationsEqual dbl) (map_of (replay_tools (cx_messages cx @ out)) n) (tools_by_name (cx_tools cx) n)) \<and>
    (map forget_tools out = map forget_tools pending \<or> (\<exists>m. bare_system m \<and> out = m # pending))"
proof (cases "split_last_system pending")
  case None
  note nosys = split_last_None[OF None]
  have whole: "replay_tools (cx_messages cx @ pending) = replay_tools (cx_messages cx)" by (rule replay_without[OF nosys])
  have index: "length (takeWhile isSystemMessage pending) = 0"
    using nosys by (cases pending) (auto split: option.splits)
  define u where "u = withToolChanges \<lparr>sy_content = PlainText [], sy_sections = [], sy_toolsAdded = [],
      sy_toolsRemoved = [], sy_timestamp = now\<rparr> (tool_changes dbl cx pending)"
  have out: "declareToolChanges dbl now cx pending =
      (if unchanged (tool_changes dbl cx pending) then pending else SystemMessage u # pending)"
    unfolding declareToolChanges_def u_def using None index by (simp add: Let_def)
  have "bare_system (SystemMessage u)" by (simp add: bare_system_def u_def withToolChanges_def)
  moreover have "replay_tools (cx_messages cx @ SystemMessage u # pending) =
      apply_tools (ch_toolsRemoved (tool_changes dbl cx pending)) (ch_toolsAdded (tool_changes dbl cx pending))
        (replay_tools (cx_messages cx))"
    using replay_at[OF nosys, of "cx_messages cx" u] by (simp add: u_def withToolChanges_def)
  ultimately show ?thesis
    using changes_declared[OF assms whole, of dbl] whole out by (auto simp: unchanged_def Let_def)
next
  case (Some x)
  obtain before s after where x: "x = (before, s, after)" by (metis surj_pair)
  have p: "pending = before @ SystemMessage s # after" and nosys: "some_of system_of after = []"
    using split_last_Some[of pending before s after] Some x by simp_all
  let ?base = "before @ SystemMessage (withToolChanges s no_changes) # after"
  define ch where "ch = tool_changes dbl cx ?base"
  have base: "replay_tools (cx_messages cx @ ?base) = replay_tools (cx_messages cx @ before)"
    using replay_at[OF nosys, of "cx_messages cx @ before" "withToolChanges s no_changes"]
    by (simp add: withToolChanges_def no_changes_def)
  note rel = changes_declared[OF assms base, of dbl, folded ch_def]
  define same where "same \<longleftrightarrow> unchanged ch \<and> sy_toolsAdded s = [] \<and> sy_toolsRemoved s = []"
  have out: "declareToolChanges dbl now cx pending =
      (if same then pending else before @ SystemMessage (withToolChanges s ch) # after)"
    using Some x by (simp add: declareToolChanges_def ch_def same_def Let_def)
  show ?thesis
  proof (cases same)
    case True
    then have "replay_tools (cx_messages cx @ pending) = replay_tools (cx_messages cx @ before)"
      using replay_at[OF nosys, of "cx_messages cx @ before" s] p by (simp add: same_def)
    then show ?thesis using rel True out by (simp add: same_def unchanged_def)
  next
    case False
    have "replay_tools (cx_messages cx @ before @ SystemMessage (withToolChanges s ch) # after) =
        apply_tools (ch_toolsRemoved ch) (ch_toolsAdded ch) (replay_tools (cx_messages cx @ before))"
      using replay_at[OF nosys, of "cx_messages cx @ before" "withToolChanges s ch"] by (simp add: withToolChanges_def)
    then show ?thesis using rel False out p by (simp add: withToolChanges_def no_changes_def)
  qed
qed

theorem tools_declared_witness:
  "map_of (replay_tools (declareToolChanges (\<lambda>n. []) 0 \<lparr>cx_messages = [], cx_tools = [sample_agent_tool]\<rparr>
      [UserMessage (PlainText (js ''hi'')) 0])) (js ''read'') \<noteq> None"
proof -
  let ?out = "declareToolChanges (\<lambda>n. []) 0 \<lparr>cx_messages = [], cx_tools = [sample_agent_tool]\<rparr>
    [UserMessage (PlainText (js ''hi'')) 0]"
  have "tools_by_name [sample_agent_tool] (js ''read'') = Some sample_agent_tool"
    by (simp add: tools_by_name_def sample_agent_tool_def)
  moreover have "rel_option (declarationsEqual (\<lambda>n. [])) (map_of (replay_tools ?out) (js ''read''))
      (tools_by_name [sample_agent_tool] (js ''read''))"
    using tools_declared[of "\<lparr>cx_messages = [], cx_tools = [sample_agent_tool]\<rparr>" "\<lambda>n. []" 0
        "[UserMessage (PlainText (js ''hi'')) 0]"] by (simp add: Let_def)
  ultimately show ?thesis by (auto simp: option_rel_Some2)
qed

end
