(* ===== verification/HostInvariants.thy ===== *)
theory HostInvariants
  imports AgentLoop
begin

text \<open>
  Properties of the world and the events so far that a host keeps, through every step of a tool batch, a turn and a run
  of the agent loop.
\<close>

section \<open>Properties of the world that the host keeps\<close>

definition keeps :: "(agent_event list \<Rightarrow> 'w \<Rightarrow> bool) \<Rightarrow> ('w \<Rightarrow> 'a \<times> 'w) \<Rightarrow> bool" where
  "keeps P f \<longleftrightarrow> (\<forall>es w. P es w \<longrightarrow> P es (snd (f w)))"

definition host_keeps :: "(agent_event list \<Rightarrow> 'w \<Rightarrow> bool) \<Rightarrow> 'w host \<Rightarrow> bool" where
  "host_keeps P h \<longleftrightarrow> (\<forall>es e w. P es w \<longrightarrow> P (es @ [e]) (ho_emit h e w)) \<and> keeps P (ho_getSteeringMessages h) \<and>
     keeps P (ho_getFollowUpMessages h) \<and> (\<forall>t. keeps P (ho_prepareNextTurn h t)) \<and>
     (\<forall>t. keeps P (ho_shouldStopAfterTurn h t)) \<and> (\<forall>ms. keeps P (ho_transformContext h ms)) \<and>
     (\<forall>ms. keeps P (ho_convertToLlm h ms)) \<and> (\<forall>m. keeps P (ho_getApiKey h m)) \<and> (\<forall>cf ms. keeps P (ho_stream h cf ms)) \<and>
     (\<forall>t c. keeps P (ho_validate h t c)) \<and> (\<forall>b cc. ho_beforeToolCall h = Some b \<longrightarrow> keeps P (b cc)) \<and>
     (\<forall>t i args. keeps P (ho_execute h t i args)) \<and>
     (\<forall>a cc out e. ho_afterToolCall h = Some a \<longrightarrow> keeps P (a cc out e)) \<and> keeps P (ho_schedule h)"

definition holds :: "(agent_event list \<Rightarrow> 'w \<Rightarrow> bool) \<Rightarrow> 'w loop_state \<Rightarrow> bool" where
  "holds P st \<longleftrightarrow> P (ls_events st) (ls_world st)"

lemma keeps_emit: "host_keeps P h \<Longrightarrow> holds P st \<Longrightarrow> holds P (emit h e st)"
  by (simp add: host_keeps_def emit_def holds_def)

lemma keeps_message: "host_keeps P h \<Longrightarrow> holds P st \<Longrightarrow> holds P (emit_message h m st)"
  by (simp add: emit_message_def keeps_emit)

lemma keeps_end: "host_keeps P h \<Longrightarrow> holds P st \<Longrightarrow> holds P (emitToolExecutionEnd h f st)"
  by (simp add: emitToolExecutionEnd_def keeps_emit)

lemma keeps_ask: "keeps P f \<Longrightarrow> holds P st \<Longrightarrow> ask f st = (x, st') \<Longrightarrow> holds P st'"
  by (auto simp: keeps_def ask_def holds_def split: prod.splits) (metis snd_conv)

lemma host_emit: "host_keeps P h \<Longrightarrow> P es w \<Longrightarrow> P (es @ [e]) (ho_emit h e w)"
  by (simp add: host_keeps_def)

lemma host_ops:
  assumes "host_keeps P h"
  shows "keeps P (ho_getSteeringMessages h)" "keeps P (ho_getFollowUpMessages h)" "keeps P (ho_prepareNextTurn h t)"
    "keeps P (ho_shouldStopAfterTurn h t)" "keeps P (ho_transformContext h ms)" "keeps P (ho_convertToLlm h ms)"
    "keeps P (ho_getApiKey h m)" "keeps P (ho_stream h cf ms)" "keeps P (ho_validate h u c)"
    "ho_beforeToolCall h = Some b \<Longrightarrow> keeps P (b cc)" "keeps P (ho_execute h u i args)"
    "ho_afterToolCall h = Some a \<Longrightarrow> keeps P (a cc out e)" "keeps P (ho_schedule h)"
  using assms by (simp_all add: host_keeps_def)

text \<open>A step of the tools keeps the property: what it gives, whatever it is, comes with a world that has it.\<close>

lemma prepare_keeps:
  assumes h: "host_keeps P h" and "holds P st" "prepareToolCall h message c st = (x, st')"
  shows "holds P st'"
proof (cases "find_tool (ls_context st) (ca_name c)")
  case None
  then show ?thesis using assms by (simp add: prepareToolCall_def)
next
  case (Some t)
  obtain v st1 where v: "ask (ho_validate h t c) st = (v, st1)" by (metis surj_pair)
  note w1 = keeps_ask[OF host_ops(9)[OF h] assms(2) v]
  show ?thesis
  proof (cases v)
    case (Inl e)
    then show ?thesis using assms(3) Some v w1 by (simp add: prepareToolCall_def)
  next
    case (Inr args)
    show ?thesis
    proof (cases "ho_beforeToolCall h")
      case None
      then show ?thesis using assms(3) Some v Inr w1 by (simp add: prepareToolCall_def split: if_splits)
    next
      case b: (Some b)
      let ?cc = "\<lparr>cc_assistantMessage = message, cc_toolCall = c, cc_args = args, cc_context = ls_context st1\<rparr>"
      obtain r st2 where r: "ask (b ?cc) st1 = (r, st2)" by (metis surj_pair)
      have "st' = st2" using assms(3) Some v Inr b r
        by (auto simp: prepareToolCall_def split: sum.splits option.splits if_splits)
      then show ?thesis using keeps_ask[OF host_ops(10)[OF h b] w1 r] by simp
    qed
  qed
qed

lemma finalize_keeps:
  assumes h: "host_keeps P h" and "holds P st" "finalizeExecutedToolCall h message p r st = (f, st')"
  shows "holds P st'"
proof (cases "ho_afterToolCall h")
  case None
  then show ?thesis using assms by (simp add: finalizeExecutedToolCall_def split: prod.splits)
next
  case (Some a)
  obtain out e where out: "executed_output r = (out, e)" by (metis surj_pair)
  let ?cc = "\<lparr>cc_assistantMessage = message, cc_toolCall = pc_toolCall p, cc_args = pc_args p, cc_context = ls_context st\<rparr>"
  obtain v st1 where v: "ask (a ?cc out e) st = (v, st1)" by (metis surj_pair)
  have "st' = st1" using assms(3) Some out v
    by (auto simp: finalizeExecutedToolCall_def split: sum.splits option.splits)
  then show ?thesis using keeps_ask[OF host_ops(12)[OF h Some] assms(2) v] by simp
qed

lemma updates_keep: "host_keeps P h \<Longrightarrow> holds P st \<Longrightarrow> holds P ((emit_updates h c us st))"
  unfolding emit_updates_def by (induction us arbitrary: st) (simp_all add: keeps_emit)

lemma run_call_keeps:
  assumes h: "host_keeps P h" and "holds P st" "run_call h message p st = (f, st')"
  shows "holds P st'"
proof -
  obtain us r st1 where ex: "ask (ho_execute h (pc_tool p) (ca_id (pc_toolCall p)) (pc_args p)) st = ((us, r), st1)"
    by (metis surj_pair)
  have "finalizeExecutedToolCall h message p r (emit_updates h (pc_toolCall p) us st1) = (f, st')"
    using assms(3) ex by (simp add: run_call_def)
  then show ?thesis using finalize_keeps[OF h updates_keep[OF h keeps_ask[OF host_ops(11)[OF h] assms(2) ex]]] by blast
qed

lemma announce_keeps: "host_keeps P h \<Longrightarrow> holds P st \<Longrightarrow> announce_result h f st = (r, st') \<Longrightarrow> holds P st'"
  by (auto simp: announce_result_def Let_def keeps_message)

lemma sequential_call_keeps:
  assumes h: "host_keeps P h" and "holds P st" "sequential_call h message c st = (f, st')"
  shows "holds P st'"
proof -
  obtain x st1 where p: "prepareToolCall h message c (emit h (ToolExecutionStart c) st) = (x, st1)" by (metis surj_pair)
  have w: "holds P st1" by (rule prepare_keeps[OF h keeps_emit[OF h assms(2)] p])
  show ?thesis
  proof (cases x)
    case (Inl g)
    then show ?thesis using assms(3) p w by (simp add: sequential_call_def)
  next
    case (Inr q)
    then have "run_call h message q st1 = (f, st')" using assms(3) p by (simp add: sequential_call_def)
    then show ?thesis by (rule run_call_keeps[OF h w])
  qed
qed

lemma truncated_keeps: "host_keeps P h \<Longrightarrow> holds P st \<Longrightarrow> failToolCallsFromTruncatedMessage h cs st = (rs, st') \<Longrightarrow> holds P st'"
proof (induction cs arbitrary: st rs st')
  case (Cons c cs)
  let ?f = "failed_call c (truncated_call_text (ca_name c))"
  obtain r st1 where one: "announce_result h ?f (emitToolExecutionEnd h ?f (emit h (ToolExecutionStart c) st)) = (r, st1)"
    by (metis surj_pair)
  obtain rs2 st2 where rest: "failToolCallsFromTruncatedMessage h cs st1 = (rs2, st2)" by (metis surj_pair)
  have "st' = st2" using Cons.prems(3) one rest by (simp add: Let_def)
  then show ?case using Cons.IH[OF Cons.prems(1) _ rest]
      announce_keeps[OF Cons.prems(1) keeps_end[OF Cons.prems(1) keeps_emit[OF Cons.prems(1,2)]] one] by blast
qed simp

lemma sequential_keeps:
  "host_keeps P h \<Longrightarrow> holds P st \<Longrightarrow> executeToolCallsSequential h message cs st = (x, st') \<Longrightarrow> holds P st'"
proof (induction cs arbitrary: st x st')
  case (Cons c cs)
  obtain f st1 where call: "sequential_call h message c st = (f, st1)" by (metis surj_pair)
  obtain r st2 where one: "announce_result h f (emitToolExecutionEnd h f st1) = (r, st2)" by (metis surj_pair)
  have w: "holds P st2"
    by (rule announce_keeps[OF Cons.prems(1) keeps_end[OF Cons.prems(1) sequential_call_keeps[OF Cons.prems(1,2) call]] one])
  obtain y st3 where rest: "executeToolCallsSequential h message cs st2 = (y, st3)" by (metis surj_pair)
  have "st' = st2 \<or> st' = st3" using Cons.prems(3) call one rest by (auto split: if_splits prod.splits)
  then show ?case using w Cons.IH[OF Cons.prems(1) w rest] by blast
qed simp

lemma preflight_keeps:
  "host_keeps P h \<Longrightarrow> holds P st \<Longrightarrow> preflight h message cs st = (x, st') \<Longrightarrow> holds P st'"
proof (induction cs arbitrary: st x st')
  case (Cons c cs)
  obtain y st1 where p: "prepareToolCall h message c (emit h (ToolExecutionStart c) st) = (y, st1)" by (metis surj_pair)
  have w: "holds P st1" by (rule prepare_keeps[OF Cons.prems(1) keeps_emit[OF Cons.prems(1,2)] p])
  define st2 where "st2 = (case y of Inl f \<Rightarrow> emitToolExecutionEnd h f st1 | Inr q \<Rightarrow> st1)"
  have w2: "holds P st2" using w keeps_end[OF Cons.prems(1)] by (simp add: st2_def split: sum.splits)
  obtain z st3 where rest: "preflight h message cs st2 = (z, st3)" by (metis surj_pair)
  have "st' = st2 \<or> st' = st3" using Cons.prems(3) p rest
    by (auto simp: st2_def split: if_splits prod.splits sum.splits)
  then show ?case using w2 Cons.IH[OF Cons.prems(1) w2 rest] by blast
qed simp

lemma start_entry_keeps:
  assumes h: "host_keeps P h" and "holds P st" "start_entry h e st = (e', st')"
  shows "holds P st'"
  using assms keeps_ask[OF host_ops(11)[OF h] assms(2)] keeps_end[OF h assms(2)]
  by (cases e) (auto simp: start_entry_def Let_def split: if_splits prod.splits)

lemma start_all_keeps: "host_keeps P h \<Longrightarrow> holds P st \<Longrightarrow> start_all h es st = (es', st') \<Longrightarrow> holds P st'"
proof (induction es arbitrary: st es' st')
  case (Cons e es)
  obtain e1 st1 where one: "start_entry h e st = (e1, st1)" by (metis surj_pair)
  obtain es2 st2 where rest: "start_all h es st1 = (es2, st2)" by (metis surj_pair)
  have "st' = st2" using Cons.prems(3) one rest by simp
  then show ?case using Cons.IH[OF Cons.prems(1) start_entry_keeps[OF Cons.prems(1,2) one] rest] by simp
qed simp

lemma advance_keeps:
  assumes h: "host_keeps P h" and "holds P st" "advance h message e st = (e', st')"
  shows "holds P st'"
proof (cases e)
  case (Running p us r)
  show ?thesis
  proof (cases us)
    case Nil
    obtain f st1 where f: "finalizeExecutedToolCall h message p r st = (f, st1)" by (metis surj_pair)
    then show ?thesis using assms(3) Running Nil keeps_end[OF h finalize_keeps[OF h assms(2) f]]
      by (simp add: advance_def) blast
  qed (use assms Running keeps_emit[OF h assms(2)] in \<open>auto simp: advance_def\<close>)
qed (use assms in \<open>auto simp: advance_def\<close>)

lemma run_batch_keeps:
  "run_batch h message es st = (es', st') \<Longrightarrow> host_keeps P h \<Longrightarrow> holds P st \<Longrightarrow> holds P st'"
proof (induction h message es st arbitrary: es' st' rule: run_batch.induct)
  case (1 h message es st)
  show ?case
  proof (cases "running es = []")
    case True
    then show ?thesis using 1(2,4) by (simp add: run_batch.simps)
  next
    case False
    obtain k st1 where sched: "ask (ho_schedule h) st = (k, st1)" by (metis surj_pair)
    define i where "i = running es ! (k mod length (running es))"
    obtain e st2 where adv: "advance h message (es ! i) st1 = (e, st2)" by (metis surj_pair)
    have rest: "run_batch h message (es[i := e]) st2 = (es', st')"
      using 1(2) False sched adv by (subst (asm) run_batch.simps) (simp add: i_def[symmetric] Let_def)
    have "holds P st2" by (rule advance_keeps[OF 1(3) keeps_ask[OF host_ops(13)[OF 1(3)] 1(4) sched] adv])
    then show ?thesis using 1(1)[OF False sched[symmetric] i_def adv[symmetric] rest 1(3)] by blast
  qed
qed

lemma announce_all_keeps: "host_keeps P h \<Longrightarrow> holds P st \<Longrightarrow> announce_all h fs st = (rs, st') \<Longrightarrow> holds P st'"
proof (induction fs arbitrary: st rs st')
  case (Cons f fs)
  obtain r st1 where one: "announce_result h f st = (r, st1)" by (metis surj_pair)
  obtain rs2 st2 where rest: "announce_all h fs st1 = (rs2, st2)" by (metis surj_pair)
  have "st' = st2" using Cons.prems(3) one rest by simp
  then show ?case using Cons.IH[OF Cons.prems(1) announce_keeps[OF Cons.prems(1,2) one] rest] by simp
qed simp

lemma parallel_keeps:
  assumes h: "host_keeps P h" and "holds P st" "executeToolCallsParallel h message cs st = (x, st')"
  shows "holds P st'"
proof -
  let ?b = "emit h (ToolBatchStart (map (\<lambda>c. (ca_id c, ca_name c)) cs)) st"
  obtain es1 st1 where p1: "preflight h message cs ?b = (es1, st1)" by (metis surj_pair)
  obtain es2 st2 where p2: "start_all h es1 st1 = (es2, st2)" by (metis surj_pair)
  obtain es3 st3 where p3: "run_batch h message es2 st2 = (es3, st3)" by (metis surj_pair)
  obtain rs4 st4 where p4: "announce_all h (finalized_calls es3) st3 = (rs4, st4)" by (metis surj_pair)
  have "st' = st4" using assms(3) p1 p2 p3 p4 by (simp add: executeToolCallsParallel_def)
  then show ?thesis
    using announce_all_keeps[OF h run_batch_keeps[OF p3 h start_all_keeps[OF h preflight_keeps[OF h keeps_emit[OF h assms(2)] p1] p2]] p4]
    by simp
qed

lemma execute_keeps:
  assumes h: "host_keeps P h" and "holds P st" "executeToolCalls h message st = (x, st')"
  shows "holds P st'"
proof -
  obtain y where "executeToolCallsSequential h message (tool_calls message) st = (y, st') \<or>
      executeToolCallsParallel h message (tool_calls message) st = (y, st')"
    using assms(3) by (auto simp: executeToolCalls_def Let_def split: if_splits prod.splits)
  then show ?thesis using sequential_keeps[OF h assms(2)] parallel_keeps[OF h assms(2)] by blast
qed

section \<open>Turns\<close>

lemma push_world [simp]: "ls_world (push_new m st) = ls_world st" "ls_world (push_context m st) = ls_world st"
    "ls_world (set_last m st) = ls_world st" "ls_world (apply_update u st) = ls_world st"
    "ls_events (push_new m st) = ls_events st" "ls_events (push_context m st) = ls_events st"
    "ls_events (set_last m st) = ls_events st" "ls_events (apply_update u st) = ls_events st"
  by (simp_all add: push_new_def push_context_def set_last_def apply_update_def)

lemma holds_cong: "ls_events st = ls_events st' \<Longrightarrow> ls_world st = ls_world st' \<Longrightarrow> holds P st = holds P st'"
  by (simp add: holds_def)

lemma push_holds [simp]: "holds P (push_new m st) = holds P st" "holds P (push_context m st) = holds P st"
    "holds P (set_last m st) = holds P st" "holds P (apply_update u st) = holds P st"
    "holds P (st\<lparr>ls_pending := ms\<rparr>) = holds P st" "holds P (st\<lparr>ls_more := b\<rparr>) = holds P st"
    "holds P (st\<lparr>ls_lastTurn := l\<rparr>) = holds P st"
  by (rule holds_cong; simp)+

lemma push_results_holds [simp]: "holds P (push_results rs st) = holds P st"
  unfolding push_results_def by (induction rs arbitrary: st) simp_all

lemma parts_keep: "stream_parts h ps added st = (b, st') \<Longrightarrow> host_keeps P h \<Longrightarrow> holds P st \<Longrightarrow> holds P st'"
  by (induction h ps added st rule: stream_parts.induct) (simp_all add: keeps_emit split: if_splits)

lemma poll_keeps: "host_keeps P h \<Longrightarrow> holds P st \<Longrightarrow> holds P ((poll_steering h st))"
  using keeps_ask[OF host_ops(1)] by (auto simp: poll_steering_def split: prod.splits)

lemma inject_keeps: "host_keeps P h \<Longrightarrow> holds P st \<Longrightarrow> holds P ((fold (inject_message h) ms st))"
  by (induction ms arbitrary: st) (simp_all add: inject_message_def keeps_message)

lemma prepare_turn_keeps:
  assumes h: "host_keeps P h" and "holds P st" "prepare_turn h st = (ms, st')"
  shows "holds P st'"
proof (cases "ls_lastTurn st")
  case None
  then show ?thesis using assms by (simp add: prepare_turn_def)
next
  case (Some t)
  obtain u st1 where s1: "ask (ho_prepareNextTurn h t) st = (u, st1)" by (metis surj_pair)
  define st2 where "st2 = (case u of None \<Rightarrow> st1 | Some v \<Rightarrow> apply_update v st1)"
  define st3 where "st3 = (if ls_pending st2 = [] then poll_steering h st2 else st2)"
  have "holds P st2" using keeps_ask[OF host_ops(3)[OF h] assms(2) s1] by (simp add: st2_def split: option.splits)
  then have w: "holds P st3" using poll_keeps[OF h] by (simp add: st3_def)
  have "snd (prepare_turn h st) = emit h TurnStart st3"
    using Some s1 by (simp add: prepare_turn_def st2_def st3_def Let_def)
  then show ?thesis using keeps_emit[OF h w] assms(3) by simp
qed

lemma pending_keeps:
  assumes h: "host_keeps P h" and "holds P st"
  shows "holds P ((inject_pending h dbl st))"
proof -
  obtain prepared st1 where s1: "prepare_turn h st = (prepared, st1)" by (metis surj_pair)
  show ?thesis using inject_keeps[OF h prepare_turn_keeps[OF h assms(2) s1]] s1 by (simp add: inject_pending_def)
qed

lemma run_tools_keeps:
  assumes h: "host_keeps P h" and "holds P st" "run_tools h a st = (rs, st')"
  shows "holds P st'"
proof -
  consider "st' = st\<lparr>ls_more := False\<rparr>"
    | st1 where "failToolCallsFromTruncatedMessage h (tool_calls a) st = (rs, st1)" "holds P st' = holds P st1"
    | t st1 where "executeToolCalls h a st = ((rs, t), st1)" "holds P st' = holds P st1"
    using assms(3) by (auto simp: run_tools_def split: if_splits prod.splits)
  then show ?thesis
    by cases (use truncated_keeps[OF h assms(2)] execute_keeps[OF h assms(2)] assms(2) in \<open>auto\<close>)
qed

lemma complete_turn_keeps:
  assumes h: "host_keeps P h" and "holds P st" "complete_turn h a rs st \<in> {Continue st', Finished st'}"
  shows "holds P st'"
proof -
  let ?t = "\<lparr>ct_message = a, ct_toolResults = rs, ct_context = ls_context (emit h (TurnEnd a rs) st),
    ct_newMessages = ls_newMessages (emit h (TurnEnd a rs) st)\<rparr>"
  obtain stop st2 where s2: "ask (ho_shouldStopAfterTurn h ?t) ((emit h (TurnEnd a rs) st)\<lparr>ls_lastTurn := Some ?t\<rparr>) = (stop, st2)"
    by (metis surj_pair)
  have "holds P ((emit h (TurnEnd a rs) st)\<lparr>ls_lastTurn := Some ?t\<rparr>)" using keeps_emit[OF h assms(2)] by simp
  note w = keeps_ask[OF host_ops(4)[OF h] this s2]
  have "st' = poll_steering h st2 \<or> st' = end_agent h st2"
    using assms(3) s2 by (auto simp: complete_turn_def Let_def split: if_splits)
  then show ?thesis using poll_keeps[OF h w] keeps_emit[OF h w] by (auto simp: end_agent_def)
qed

lemma stream_keeps:
  assumes h: "host_keeps P h" and "holds P st" "streamAssistantResponse h st = (a, st')"
  shows "holds P st'"
proof -
  obtain ms st1 where s1: "ask (ho_transformContext h (cx_messages (ls_context st))) st = (ms, st1)" by (metis surj_pair)
  obtain ls st2 where s2: "ask (ho_convertToLlm h ms) st1 = (ls, st2)" by (metis surj_pair)
  obtain key st3 where s3: "ask (ho_getApiKey h (cf_model (ls_config st2))) st2 = (key, st3)" by (metis surj_pair)
  define cf where "cf = ls_config st3\<lparr>cf_apiKey := (case key of Some k \<Rightarrow> if k = [] then cf_apiKey (ls_config st3) else Some k
     | None \<Rightarrow> cf_apiKey (ls_config st3))\<rparr>"
  obtain parts b st4 where s4: "ask (ho_stream h cf (normalizeContext None None ls)) st3 = ((parts, b), st4)"
    by (metis surj_pair)
  obtain added st5 where s5: "stream_parts h parts False st4 = (added, st5)" by (metis surj_pair)
  have "streamAssistantResponse h st = (b, end_response h b added st5)"
    using s1 s2 s3 s4 s5 by (simp add: streamAssistantResponse_def cf_def)
  moreover have "holds P st4"
    by (rule keeps_ask[OF host_ops(8)[OF h] keeps_ask[OF host_ops(7)[OF h] keeps_ask[OF host_ops(6)[OF h]
      keeps_ask[OF host_ops(5)[OF h] assms(2) s1] s2] s3] s4])
  ultimately show ?thesis using parts_keep[OF s5 h] keeps_emit[OF h] assms(3) by (auto simp: end_response_def)
qed

lemma turn_keeps:
  assumes h: "host_keeps P h" and "holds P st" "turn h dbl st \<in> {Continue st', Finished st'}"
  shows "holds P st'"
proof -
  obtain a st1 where s1: "streamAssistantResponse h (inject_pending h dbl st) = (a, st1)" by (metis surj_pair)
  obtain rs st3 where s3: "run_tools h a (push_new (AssistantMessage a) st1) = (rs, st3)" by (metis surj_pair)
  have w: "holds P (push_new (AssistantMessage a) st1)"
    using stream_keeps[OF h pending_keeps[OF h assms(2)] s1] by simp
  show ?thesis
  proof (cases "failed_response a")
    case True
    then have "st' = end_agent h (emit h (TurnEnd a []) (push_new (AssistantMessage a) st1))"
      using assms(3) s1 by (auto simp: turn_def Let_def)
    then show ?thesis using keeps_emit[OF h keeps_emit[OF h w]] by (simp add: end_agent_def)
  next
    case False
    then have "complete_turn h a rs st3 \<in> {Continue st', Finished st'}" using assms(3) s1 s3 by (auto simp: turn_def Let_def)
    then show ?thesis by (rule complete_turn_keeps[OF h run_tools_keeps[OF h w s3]])
  qed
qed

section \<open>Runs\<close>

lemma run_turns_keeps:
  assumes "run_turns h dbl st = Some st'" "host_keeps P h" "holds P st"
  shows "holds P st'"
proof (rule run_turns.raw_induct[where P = "\<lambda>h dbl st st'. host_keeps P h \<longrightarrow> holds P st \<longrightarrow> holds P st'",
      OF _ assms(1), rule_format, OF _ assms(2,3)], goal_cases)
  case (1 f h dbl st st')
  show ?case
  proof (cases "ls_more st \<or> ls_pending st \<noteq> []")
    case True
    show ?thesis
    proof (cases "turn h dbl st")
      case (Finished st1)
      then show ?thesis using 1(2) True turn_keeps[OF 1(3,4), of dbl st1] by simp
    next
      case (Continue st1)
      then have "f h dbl st1 = Some st'" using 1(2) True by simp
      then show ?thesis using 1(1,3) turn_keeps[OF 1(3,4), of dbl st1] Continue by simp
    qed
  next
    case False
    obtain ms st1 where s1: "ask (ho_getFollowUpMessages h) st = (ms, st1)" by (metis surj_pair)
    note w = keeps_ask[OF host_ops(2)[OF 1(3)] 1(4) s1]
    show ?thesis
    proof (cases "ms = []")
      case True
      then have "st' = end_agent h st1" using 1(2) False s1 by simp
      then show ?thesis using keeps_emit[OF 1(3) w] by (simp add: end_agent_def)
    next
      case ms: False
      then have "f h dbl (st1\<lparr>ls_pending := ms, ls_more := True\<rparr>) = Some st'" using 1(2) False s1 by simp
      moreover have "holds P (st1\<lparr>ls_pending := ms, ls_more := True\<rparr>)" using w by (simp add: holds_def)
      ultimately show ?thesis using 1(1,3) by blast
    qed
  qed
qed

text \<open>A run that returns leaves every property that its host keeps and its first world has.\<close>

lemma runAgentLoop_keeps:
  assumes "runAgentLoop h dbl prompts cx cf w = Some st" "host_keeps P h" "P [] w"
  shows "P (ls_events st) (ls_world st)"
proof -
  define initial where "initial = declareToolChanges dbl (ho_now h w) cx prompts"
  define st0 where "st0 = start_state (cx\<lparr>cx_messages := cx_messages cx @ initial\<rparr>) cf initial w"
  have "holds P s \<Longrightarrow> holds P (fold (emit_message h) ms s)" for s ms
    by (induction ms arbitrary: s) (simp_all add: keeps_message[OF assms(2)])
  moreover have "holds P st0" using assms(3) by (simp add: holds_def st0_def start_state_def)
  ultimately have "holds P (fold (emit_message h) initial (emit h TurnStart (emit h AgentStart st0)))"
    using keeps_emit[OF assms(2)] by blast
  note start = poll_keeps[OF assms(2) this]
  have "run_turns h dbl ((poll_steering h (fold (emit_message h) initial (emit h TurnStart (emit h AgentStart st0))))
      \<lparr>ls_lastTurn := None, ls_more := True\<rparr>) = Some st"
    using assms(1) by (simp add: runAgentLoop_def runLoop_def initial_def st0_def Let_def)
  from run_turns_keeps[OF this assms(2)] show ?thesis using start by (simp add: holds_def)
qed

end
