(* ===== verification/AgentRuns.thy ===== *)
theory AgentRuns
  imports HostInvariants
begin

text \<open>
  Runs of the agent loop: that they end when responses use up a budget, their shape, and the context they work on.
\<close>

section \<open>Runs end\<close>

text \<open>The host never gives budget back, and every response that does not fail uses some.\<close>

definition spends :: "('w \<Rightarrow> nat) \<Rightarrow> 'w host \<Rightarrow> bool" where
  "spends budget h \<longleftrightarrow> (\<forall>n. host_keeps (\<lambda>es w. budget w \<le> n) h) \<and>
     (\<forall>cf ms w. case ho_stream h cf ms w of ((parts, a), w') \<Rightarrow> \<not> failed_response a \<longrightarrow> budget w' < budget w)"

lemma within: "holds (\<lambda>es w. budget w \<le> n) st \<longleftrightarrow> budget (ls_world st) \<le> n"
  by (simp add: holds_def)

lemma turn_spends:
  assumes spends: "spends budget h" and turn: "turn h dbl st = Continue st'"
  shows "budget (ls_world st') < budget (ls_world st)"
proof -
  have h: "host_keeps (\<lambda>es w. budget w \<le> n) h" for n using spends by (simp add: spends_def)
  define st0 where "st0 = inject_pending h dbl st"
  have w0: "holds (\<lambda>es w. budget w \<le> budget (ls_world st)) st0"
    unfolding st0_def by (rule pending_keeps[OF h]) (simp add: within)
  obtain a st1 where s1: "streamAssistantResponse h st0 = (a, st1)" by (metis surj_pair)
  obtain rs st3 where s3: "run_tools h a (push_new (AssistantMessage a) st1) = (rs, st3)" by (metis surj_pair)
  have ok: "\<not> failed_response a" and rest: "complete_turn h a rs st3 = Continue st'"
    using turn s1 s3 by (auto simp: turn_def st0_def Let_def split: if_splits)
  obtain ms st5 where a1: "ask (ho_transformContext h (cx_messages (ls_context st0))) st0 = (ms, st5)" by (metis surj_pair)
  obtain ls st6 where a2: "ask (ho_convertToLlm h ms) st5 = (ls, st6)" by (metis surj_pair)
  obtain key st7 where a3: "ask (ho_getApiKey h (cf_model (ls_config st6))) st6 = (key, st7)" by (metis surj_pair)
  define cf where "cf = ls_config st7\<lparr>cf_apiKey := (case key of Some k \<Rightarrow> if k = [] then cf_apiKey (ls_config st7) else Some k
     | None \<Rightarrow> cf_apiKey (ls_config st7))\<rparr>"
  obtain parts b st8 where a4: "ask (ho_stream h cf (normalizeContext None None ls)) st7 = ((parts, b), st8)"
    by (metis surj_pair)
  obtain added st9 where a5: "stream_parts h parts False st8 = (added, st9)" by (metis surj_pair)
  have "streamAssistantResponse h st0 = (b, end_response h b added st9)"
    using a1 a2 a3 a4 a5 by (simp add: streamAssistantResponse_def cf_def)
  then have out: "b = a" "st1 = end_response h a added st9" using s1 by simp_all
  have w7: "holds (\<lambda>es w. budget w \<le> budget (ls_world st)) st7"
    by (rule keeps_ask[OF host_ops(7)[OF h] keeps_ask[OF host_ops(6)[OF h] keeps_ask[OF host_ops(5)[OF h] w0 a1] a2] a3])
  have "ho_stream h cf (normalizeContext None None ls) (ls_world st7) = ((parts, a), ls_world st8)"
    using a4 out(1) by (auto simp: ask_def split: prod.splits)
  moreover have "case ho_stream h cf (normalizeContext None None ls) (ls_world st7) of ((parts, a), w') \<Rightarrow>
      \<not> failed_response a \<longrightarrow> budget w' < budget (ls_world st7)"
    by (rule conjunct2[OF spends[unfolded spends_def], THEN spec, THEN spec, THEN spec])
  ultimately have w8: "budget (ls_world st8) < budget (ls_world st7)" using ok by simp
  have w9: "holds (\<lambda>es w. budget w \<le> budget (ls_world st8)) st9" by (rule parts_keep[OF a5 h]) (simp add: within)
  have w1: "holds (\<lambda>es w. budget w \<le> budget (ls_world st8)) st1"
    using w9 out(2) keeps_emit[OF h] by (simp add: end_response_def)
  have "holds (\<lambda>es w. budget w \<le> budget (ls_world st8)) st'"
    using complete_turn_keeps[OF h run_tools_keeps[OF h _ s3], of "budget (ls_world st8)" a rs st'] w1 rest by simp
  then show ?thesis using w8 w7 by (simp add: within)
qed

lemma run_turns_returns:
  assumes spends: "spends budget h"
  shows "\<exists>st'. run_turns h dbl st = Some st'"
proof (induction "2 * budget (ls_world st) + (if ls_more st \<or> ls_pending st \<noteq> [] then 0 else 1)" arbitrary: st rule: less_induct)
  case less
  show ?case
  proof (cases "ls_more st \<or> ls_pending st \<noteq> []")
    case True
    show ?thesis
    proof (cases "turn h dbl st")
      case (Finished st1)
      then show ?thesis using True by (subst run_turns.simps) simp
    next
      case (Continue st1)
      then have "\<exists>st'. run_turns h dbl st1 = Some st'" using turn_spends[OF spends Continue] True by (intro less) simp
      then show ?thesis using True Continue by (subst run_turns.simps) simp
    qed
  next
    case False
    obtain ms st1 where s1: "ask (ho_getFollowUpMessages h) st = (ms, st1)" by (metis surj_pair)
    have "host_keeps (\<lambda>es w. budget w \<le> budget (ls_world st)) h" using spends by (simp add: spends_def)
    from keeps_ask[OF host_ops(2)[OF this] _ s1] have w: "budget (ls_world st1) \<le> budget (ls_world st)" by (simp add: within)
    show ?thesis
    proof (cases "ms = []")
      case True
      then show ?thesis using False s1 by (subst run_turns.simps) simp
    next
      case ms: False
      have "\<exists>st'. run_turns h dbl (st1\<lparr>ls_pending := ms, ls_more := True\<rparr>) = Some st'" using w False by (intro less) simp
      then show ?thesis using False s1 ms by (subst run_turns.simps) simp
    qed
  qed
qed

text \<open>
  C13. A run ends when responses use up a budget: if no operation of the host gives budget back and every response that
  does not fail spends some, the agent loop returns, whatever its tools, queues and callbacks do.
\<close>

theorem agent_run_ends:
  assumes "spends budget h"
  shows "\<exists>st. runAgentLoop h dbl prompts cx cf w = Some st"
  using run_turns_returns[OF assms] by (simp add: runAgentLoop_def runLoop_def Let_def)

lemma sample_spends: "spends length sample_host"
  by (auto simp: spends_def host_keeps_def keeps_def sample_host_def failed_response_def sample_answer_def split: list.splits)

definition sample_run :: "assistant_message list loop_state option" where
  "sample_run = runAgentLoop sample_host (\<lambda>n. []) [UserMessage (PlainText (js ''hi'')) 0]
     \<lparr>cx_messages = [], cx_tools = [sample_agent_tool]\<rparr> (ls_config (sample_state [])) [sample_request, sample_answer [] Stop]"

theorem agent_run_ends_witness: "\<exists>st. sample_run = Some st"
  unfolding sample_run_def by (rule agent_run_ends[OF sample_spends])

section \<open>The shape of a run\<close>

text \<open>
  C12. A run that returns has the shape it promises: the new messages are the initial messages and then, turn by turn,
  what was injected, the response and its tool results; exactly these messages are announced, in that order; each turn
  is begun and ended once, the run as well, with the new messages at the end; only the last turn can have failed. The
  results of a turn answer its tool calls in order: none for a response that failed or was aborted, an error for each
  call of a truncated response, and otherwise a prefix of the calls, at least one, which is all of them when the host
  can never be aborted (an abort between two calls leaves the rest unanswered).
\<close>

theorem agent_run_shape:
  assumes "runAgentLoop h dbl prompts cx cf w = Some st"
  shows "\<exists>ts. ls_newMessages st = declareToolChanges dbl (ho_now h w) cx prompts @ concat (map turn_messages ts) \<and>
      message_ends (ls_events st) = ls_newMessages st \<and>
      filter is_boundary (ls_events st) =
        AgentStart # concat (map (\<lambda>t. [TurnStart, TurnEnd (tl_message t) (tl_results t)]) ts) @ [AgentEnd (ls_newMessages st)] \<and>
      ts \<noteq> [] \<and> turns_ok (\<forall>w. \<not> ho_aborted h w) ts"
proof -
  define initial where "initial = declareToolChanges dbl (ho_now h w) cx prompts"
  define st0 where "st0 = start_state (cx\<lparr>cx_messages := cx_messages cx @ initial\<rparr>) cf initial w"
  obtain ts where ts: "ts \<noteq> []" "adds (fold (emit_message h) initial (emit h TurnStart (emit h AgentStart st0)))
      (concat (map turn_messages ts)) (concat (map turn_messages ts))
      (run_bounds True ts @ [AgentEnd (ls_newMessages st)]) st" "turns_ok (\<forall>w. \<not> ho_aborted h w) ts"
    using runLoop_adds assms unfolding runAgentLoop_def Let_def initial_def st0_def by blast
  have "adds st0 (initial @ concat (map turn_messages ts)) (concat (map turn_messages ts))
      (AgentStart # (TurnStart # run_bounds True ts) @ [AgentEnd (ls_newMessages st)]) st"
    using adds_trans[OF adds_trans[OF adds_trans[OF adds_emit[of st0 AgentStart h] adds_emit[of _ TurnStart h]]
        initial_adds] ts(2)] by simp
  then show ?thesis using ts run_bounds_first[OF ts(1)] run_bounds_later
    by (intro exI[of _ ts]) (auto simp: adds_def st0_def start_state_def initial_def turn_end_def)
qed

theorem agent_run_shape_witness:
  "\<exists>st ts. sample_run = Some st \<and> message_ends (ls_events st) = ls_newMessages st \<and> ts \<noteq> [] \<and> turns_ok True ts"
proof -
  obtain st where st: "sample_run = Some st"
    using run_turns_returns[OF sample_spends] by (auto simp: sample_run_def runAgentLoop_def runLoop_def Let_def)
  have "(\<forall>w. \<not> ho_aborted sample_host w) = True" by (simp add: sample_host_def)
  then show ?thesis using agent_run_shape[OF st[unfolded sample_run_def]] st by auto
qed

section \<open>The context of a run\<close>

text \<open>Between two states: what is appended to the messages of the context, and to the new messages.\<close>

definition appends :: "'w loop_state \<Rightarrow> agent_message list \<Rightarrow> agent_message list \<Rightarrow> 'w loop_state \<Rightarrow> bool" where
  "appends st M N st' \<longleftrightarrow> cx_messages (ls_context st') = cx_messages (ls_context st) @ M \<and>
     cx_tools (ls_context st') = cx_tools (ls_context st) \<and> ls_newMessages st' = ls_newMessages st @ N"

lemma appends_trans: "appends st M N st1 \<Longrightarrow> appends st1 M' N' st2 \<Longrightarrow> appends st (M @ M') (N @ N') st2"
  by (simp add: appends_def)

lemma appends_simps [simp]: "appends st [m] [] (push_context m st)" "appends st [] [m] (push_new m st)"
    "appends st [] [] (emit h e st)" "appends st [] [] (emit_message h m st)"
  by (simp_all add: appends_def push_context_def push_new_def emit_def emit_message_def)

lemma appends_ask: "ask f st = (x, st') \<Longrightarrow> appends st [] [] st'"
  by (auto simp: appends_def ask_def split: prod.splits)

lemma appends_effect: "effect st S E M st' \<Longrightarrow> appends st [] [] st'"
  using effect_fst by (force simp: appends_def)

text \<open>A stream of parts starts at most one message.\<close>

fun starts :: "stream_part list \<Rightarrow> nat" where
  "starts [] = 0"
| "starts (PartStart a # ps) = Suc (starts ps)"
| "starts (p # ps) = starts ps"

definition plain_host :: "'w host \<Rightarrow> bool" where
  "plain_host h \<longleftrightarrow> (\<forall>t w. case fst (ho_prepareNextTurn h t w) of None \<Rightarrow> True | Some u \<Rightarrow> tu_context u = None) \<and>
     (\<forall>cf ms w. starts (fst (fst (ho_stream h cf ms w))) \<le> 1)"

text \<open>With a partial message at the end of the context, updates replace it; without, a start appends it.\<close>

lemma parts_context:
  "stream_parts h ps added st = (b, st') \<Longrightarrow> (added \<Longrightarrow> starts ps = 0 \<and> cx_messages (ls_context st) \<noteq> []) \<Longrightarrow>
    (\<not> added \<Longrightarrow> starts ps \<le> 1) \<Longrightarrow>
    (let old = (if added then butlast (cx_messages (ls_context st)) else cx_messages (ls_context st)) in
      (if b then cx_messages (ls_context st') \<noteq> [] \<and> butlast (cx_messages (ls_context st')) = old
       else cx_messages (ls_context st') = old)) \<and>
    cx_tools (ls_context st') = cx_tools (ls_context st) \<and> ls_newMessages st' = ls_newMessages st"
  by (induction h ps added st rule: stream_parts.induct)
    (auto simp: emit_def push_context_def set_last_def Let_def split: if_splits)

lemma stream_appends:
  assumes "plain_host h" "streamAssistantResponse h st = (a, st')"
  shows "appends st [AssistantMessage a] [] st'"
proof -
  obtain cf ms w parts st4 added st5 where s: "adds st [] [] [] st4" "ls_lastTurn st4 = ls_lastTurn st"
      "ls_context st4 = ls_context st" "ho_stream h cf ms w = ((parts, a), ls_world st4)"
      "stream_parts h parts False st4 = (added, st5)" "st' = end_response h a added st5"
    by (rule stream_cases[OF assms(2)])
  have new: "ls_newMessages st4 = ls_newMessages st" using s(1) by (auto simp: adds_def)
  have "starts (fst (fst (ho_stream h cf ms w))) \<le> 1"
    by (rule conjunct2[OF assms(1)[unfolded plain_host_def], THEN spec, THEN spec, THEN spec])
  then have "starts parts \<le> 1" using s(4) by simp
  then have c: "if added then cx_messages (ls_context st5) \<noteq> [] \<and> butlast (cx_messages (ls_context st5)) = cx_messages (ls_context st4)
       else cx_messages (ls_context st5) = cx_messages (ls_context st4)"
      "cx_tools (ls_context st5) = cx_tools (ls_context st4)" "ls_newMessages st5 = ls_newMessages st4"
    using parts_context[OF s(5)] by (simp_all add: Let_def)
  then show ?thesis using s(3,6) new
    by (auto simp: appends_def end_response_def emit_def push_context_def set_last_def split: if_splits)
qed

lemma prepare_appends:
  assumes "plain_host h" "prepare_turn h st = (ms, st')"
  shows "appends st [] [] st'"
proof (cases "ls_lastTurn st")
  case None
  then show ?thesis using assms by (simp add: prepare_turn_def appends_def)
next
  case (Some t)
  obtain u st1 where s1: "ask (ho_prepareNextTurn h t) st = (u, st1)" by (metis surj_pair)
  have u: "u = None \<or> tu_context (the u) = None"
  proof -
    have e: "fst (ho_prepareNextTurn h t (ls_world st)) = u" using s1 by (auto simp: ask_def split: prod.splits)
    have "case fst (ho_prepareNextTurn h t (ls_world st)) of None \<Rightarrow> True | Some u \<Rightarrow> tu_context u = None"
      by (rule conjunct1[OF assms(1)[unfolded plain_host_def], THEN spec, THEN spec])
    then show ?thesis unfolding e by (cases u) simp_all
  qed
  define st2 where "st2 = (case u of None \<Rightarrow> st1 | Some v \<Rightarrow> apply_update v st1)"
  define st3 where "st3 = (if ls_pending st2 = [] then poll_steering h st2 else st2)"
  have "appends st1 [] [] st2" using u by (auto simp: st2_def appends_def apply_update_def split: option.splits)
  moreover have "appends st2 [] [] st3"
    by (auto simp: st3_def appends_def poll_steering_def ask_def split: prod.splits)
  moreover have "snd (prepare_turn h st) = emit h TurnStart st3"
    using Some s1 by (simp add: prepare_turn_def st2_def st3_def Let_def)
  ultimately show ?thesis using appends_ask[OF s1] assms(2) by (simp add: appends_def emit_def)
qed

lemma inject_appends: "appends st ms ms (fold (inject_message h) ms st)"
proof (induction ms arbitrary: st)
  case Nil
  show ?case by (simp add: appends_def)
next
  case (Cons m ms)
  have "appends st [m] [m] (inject_message h m st)"
    by (simp add: inject_message_def appends_def push_new_def push_context_def emit_message_def emit_def)
  from appends_trans[OF this Cons.IH] show ?case by simp
qed

lemma pending_appends:
  assumes "plain_host h"
  obtains ms where "appends st ms ms (inject_pending h dbl st)"
proof -
  obtain prepared st1 where s1: "prepare_turn h st = (prepared, st1)" by (metis surj_pair)
  show ?thesis
    using that appends_trans[OF prepare_appends[OF assms s1] inject_appends] s1
    by (simp add: inject_pending_def appends_def)
qed

lemma push_results_appends: "appends st (map ToolResultMessage rs) (map ToolResultMessage rs) (push_results rs st)"
proof (induction rs arbitrary: st)
  case (Cons r rs)
  have "appends st [ToolResultMessage r] [ToolResultMessage r] (push_new (ToolResultMessage r) (push_context (ToolResultMessage r) st))"
    by (simp add: appends_def push_new_def push_context_def)
  from appends_trans[OF this Cons.IH] show ?case by (simp add: push_results_def)
qed (simp add: push_results_def appends_def)

lemma run_tools_appends:
  assumes "run_tools h a st = (rs, st')"
  shows "appends st (map ToolResultMessage rs) (map ToolResultMessage rs) st'"
proof -
  consider "rs = []" "st' = st\<lparr>ls_more := False\<rparr>"
    | st1 t where "failToolCallsFromTruncatedMessage h (tool_calls a) st = (rs, st1)" "st' = push_results rs (st1\<lparr>ls_more := t\<rparr>)"
    | t st1 where "executeToolCalls h a st = ((rs, t), st1)" "st' = push_results rs (st1\<lparr>ls_more := \<not> t\<rparr>)"
    using assms by (auto simp: run_tools_def split: if_splits prod.splits)
  then show ?thesis
  proof cases
    case 1
    then show ?thesis by (simp add: appends_def)
  next
    case 2
    show ?thesis using appends_effect[OF conjunct1[OF truncated_effect[OF 2(1)]]] push_results_appends[of "st1\<lparr>ls_more := t\<rparr>" rs] 2(2)
      by (simp add: appends_def)
  next
    case 3
    obtain k E where "effect st (take k (tool_calls a)) E (map ToolResultMessage rs) st1" using execute_effect[OF 3(1)] by blast
    from appends_effect[OF this] show ?thesis using push_results_appends[of "st1\<lparr>ls_more := \<not> t\<rparr>" rs] 3(2)
      by (simp add: appends_def)
  qed
qed

lemma complete_turn_appends: "complete_turn h a rs st \<in> {Finished st', Continue st'} \<Longrightarrow> appends st [] [] st'"
  by (auto simp: complete_turn_def Let_def end_agent_def emit_def poll_steering_def ask_def appends_def split: prod.splits if_splits)

lemma turn_appends:
  assumes "plain_host h" "turn h dbl st \<in> {Finished st', Continue st'}"
  shows "\<exists>ms. appends st ms ms st'"
proof -
  obtain inj where i: "appends st inj inj (inject_pending h dbl st)" by (rule pending_appends[OF assms(1)])
  obtain a st1 where s1: "streamAssistantResponse h (inject_pending h dbl st) = (a, st1)" by (metis surj_pair)
  obtain rs st3 where s3: "run_tools h a (push_new (AssistantMessage a) st1) = (rs, st3)" by (metis surj_pair)
  have base: "appends st (inj @ [AssistantMessage a]) (inj @ [AssistantMessage a]) (push_new (AssistantMessage a) st1)"
    using appends_trans[OF appends_trans[OF i stream_appends[OF assms(1) s1]] appends_simps(2)] by simp
  show ?thesis
  proof (cases "failed_response a")
    case True
    then have "st' = end_agent h (emit h (TurnEnd a []) (push_new (AssistantMessage a) st1))"
      using assms(2) s1 by (auto simp: turn_def Let_def)
    then show ?thesis using base by (intro exI[of _ "inj @ [AssistantMessage a]"]) (simp add: appends_def end_agent_def emit_def)
  next
    case False
    then have "complete_turn h a rs st3 \<in> {Finished st', Continue st'}" using assms(2) s1 s3 by (auto simp: turn_def Let_def)
    from appends_trans[OF appends_trans[OF base run_tools_appends[OF s3]] complete_turn_appends[OF this]]
    show ?thesis by blast
  qed
qed

lemma run_turns_appends:
  assumes "run_turns h dbl st = Some st'" "plain_host h"
  shows "\<exists>ms. appends st ms ms st'"
proof (rule run_turns.raw_induct[where P = "\<lambda>h dbl st st'. plain_host h \<longrightarrow> (\<exists>ms. appends st ms ms st')",
      OF _ assms(1), rule_format, OF _ assms(2)], goal_cases)
  case (1 f h dbl st st')
  show ?case
  proof (cases "ls_more st \<or> ls_pending st \<noteq> []")
    case True
    show ?thesis
    proof (cases "turn h dbl st")
      case (Finished st1)
      then show ?thesis using 1 True turn_appends[of h dbl st st1] by simp
    next
      case (Continue st1)
      then have "f h dbl st1 = Some st'" using 1(2) True by simp
      then show ?thesis using 1(1,3) turn_appends[of h dbl st st1] Continue appends_trans by blast
    qed
  next
    case False
    obtain ms st1 where s1: "ask (ho_getFollowUpMessages h) st = (ms, st1)" by (metis surj_pair)
    show ?thesis
    proof (cases "ms = []")
      case True
      then have "st' = end_agent h st1" using 1(2) False s1 by simp
      then show ?thesis using appends_ask[OF s1] by (intro exI[of _ "[]"]) (simp add: appends_def end_agent_def emit_def)
    next
      case ms: False
      then have "f h dbl (st1\<lparr>ls_pending := ms, ls_more := True\<rparr>) = Some st'" using 1(2) False s1 by simp
      then obtain ns where "appends (st1\<lparr>ls_pending := ms, ls_more := True\<rparr>) ns ns st'" using 1(1,3) by blast
      then show ?thesis using appends_ask[OF s1] by (intro exI[of _ ns]) (simp add: appends_def)
    qed
  qed
qed

lemma run_context:
  assumes "plain_host h" "runAgentLoop h dbl prompts cx cf w = Some st"
  shows "cx_messages (ls_context st) = cx_messages cx @ ls_newMessages st \<and> cx_tools (ls_context st) = cx_tools cx"
proof -
  define initial where "initial = declareToolChanges dbl (ho_now h w) cx prompts"
  define st0 where "st0 = start_state (cx\<lparr>cx_messages := cx_messages cx @ initial\<rparr>) cf initial w"
  define st1 where "st1 = fold (emit_message h) initial (emit h TurnStart (emit h AgentStart st0))"
  have "appends s [] [] (fold (emit_message h) ms s)" for s ms
    by (induction ms arbitrary: s) (auto simp: appends_def emit_message_def emit_def)
  then have a: "appends st0 [] [] st1" unfolding st1_def by (simp add: appends_def emit_def)
  have "runLoop h dbl st1 = Some st" using assms(2) by (simp add: runAgentLoop_def initial_def st0_def st1_def Let_def)
  then obtain ms where "appends ((poll_steering h st1)\<lparr>ls_lastTurn := None, ls_more := True\<rparr>) ms ms st"
    unfolding runLoop_def using run_turns_appends[OF _ assms(1)] by blast
  moreover have "appends st1 [] [] ((poll_steering h st1)\<lparr>ls_lastTurn := None, ls_more := True\<rparr>)"
    by (auto simp: appends_def poll_steering_def ask_def split: prod.splits)
  ultimately show ?thesis using a by (simp add: appends_def st0_def start_state_def)
qed

text \<open>
  The context a run works on is the conversation: unless its host replaces the context between turns, and when no
  response starts more than one message, the context of a run that returns is the initial context followed by exactly
  the new messages, with the tools it started with, although responses are first appended in part and replaced as they
  stream.
\<close>

theorem agent_context_grows:
  assumes "plain_host h" "runAgentLoop h dbl prompts cx cf w = Some st"
  shows "cx_messages (ls_context st) = cx_messages cx @ ls_newMessages st \<and> cx_tools (ls_context st) = cx_tools cx"
  by (rule run_context[OF assms])

theorem agent_context_grows_witness:
  "\<exists>st. sample_run = Some st \<and> cx_messages (ls_context st) = ls_newMessages st"
proof -
  obtain st where st: "sample_run = Some st"
    using run_turns_returns[OF sample_spends] by (auto simp: sample_run_def runAgentLoop_def runLoop_def Let_def)
  have "plain_host sample_host" by (simp add: plain_host_def sample_host_def split: list.splits)
  from agent_context_grows[OF this st[unfolded sample_run_def]] st show ?thesis by auto
qed

end
