(* ===== verification/Agent.thy ===== *)
theory Agent
  imports AgentRuns
begin

text \<open>
  The stateful agent (\<open>packages/agent/src/agent.ts\<close>): its transcript, its queues of steering and follow-up messages,
  the reduction of the loop's events, and the life cycle of a run. The agent is the world of the loop: the services it
  is given (the model, the tools, the callbacks and the listeners) are a host over the agent, of which the agent
  replaces the sink of the events and the two queues.
\<close>

section \<open>Queues\<close>

datatype queue_mode = AllMessages | OneAtATime

record message_queue =
  qu_messages :: "agent_message list"
  qu_mode :: queue_mode

definition new_queue :: "queue_mode \<Rightarrow> message_queue" where
  "new_queue m = \<lparr>qu_messages = [], qu_mode = m\<rparr>"

definition enqueue :: "agent_message \<Rightarrow> message_queue \<Rightarrow> message_queue" where
  "enqueue m q = q\<lparr>qu_messages := qu_messages q @ [m]\<rparr>"

definition hasItems :: "message_queue \<Rightarrow> bool" where
  "hasItems q \<longleftrightarrow> 0 < length (qu_messages q)"

definition drain_queue :: "message_queue \<Rightarrow> agent_message list \<times> message_queue" where
  "drain_queue q =
     (case qu_mode q of
        AllMessages \<Rightarrow> (qu_messages q, q\<lparr>qu_messages := []\<rparr>)
      | OneAtATime \<Rightarrow> (case qu_messages q of [] \<Rightarrow> ([], q) | m # ms \<Rightarrow> ([m], q\<lparr>qu_messages := ms\<rparr>)))"

definition clear_queue :: "message_queue \<Rightarrow> message_queue" where
  "clear_queue q = q\<lparr>qu_messages := []\<rparr>"

text \<open>What a drain gives and leaves is what was queued, in order; a drain gives nothing only when nothing is queued.\<close>

lemma drain_conserves: "drain_queue q = (ms, q') \<Longrightarrow> ms @ qu_messages q' = qu_messages q \<and> qu_mode q' = qu_mode q"
  by (auto simp: drain_queue_def split: queue_mode.splits list.splits)

lemma drain_empty: "drain_queue q = ([], q') \<Longrightarrow> qu_messages q' = [] \<and> qu_messages q = []"
  by (auto simp: drain_queue_def split: queue_mode.splits list.splits)

section \<open>State\<close>

text \<open>
  \<open>ag_active\<close> is the run: absent, or whether it is aborted; \<open>ag_skip\<close> is the loop configuration's flag that skips the
  first poll for steering; \<open>ag_outer\<close> is the rest of the world.
\<close>

record 'o agent =
  ag_messages :: "agent_message list"
  ag_tools :: "agent_tool list"
  ag_model :: model
  ag_thinkingLevel :: jstr
  ag_isStreaming :: bool
  ag_streamingMessage :: "agent_message option"
  ag_pendingToolCalls :: "jstr list"
  ag_errorMessage :: "jstr option"
  ag_steering :: message_queue
  ag_followUp :: message_queue
  ag_toolExecution :: execution_mode
  ag_active :: "bool option"
  ag_skip :: bool
  ag_outer :: 'o

definition createMutableAgentState ::
    "jstr option \<Rightarrow> agent_tool list \<Rightarrow> agent_message list \<Rightarrow> model \<Rightarrow> jstr option \<Rightarrow> queue_mode option \<Rightarrow> queue_mode option \<Rightarrow>
     execution_mode option \<Rightarrow> 'o \<Rightarrow> 'o agent" where
  "createMutableAgentState systemPrompt tools messages m level steeringMode followUpMode mode outer =
     (let initialMessage = createInitialSystemMessage systemPrompt (Some (map toToolDeclaration tools));
          messages' = (case initialMessage of
            Some i \<Rightarrow> if getInitialSystemMessage messages = None then i # messages else messages
          | None \<Rightarrow> messages)
      in \<lparr>ag_messages = messages', ag_tools = tools, ag_model = m,
          ag_thinkingLevel = (case level of None \<Rightarrow> js ''off'' | Some l \<Rightarrow> l), ag_isStreaming = False,
          ag_streamingMessage = None, ag_pendingToolCalls = [], ag_errorMessage = None,
          ag_steering = new_queue (case steeringMode of None \<Rightarrow> OneAtATime | Some q \<Rightarrow> q),
          ag_followUp = new_queue (case followUpMode of None \<Rightarrow> OneAtATime | Some q \<Rightarrow> q),
          ag_toolExecution = (case mode of None \<Rightarrow> Parallel | Some x \<Rightarrow> x), ag_active = None, ag_skip = False,
          ag_outer = outer\<rparr>)"

definition steer :: "agent_message \<Rightarrow> 'o agent \<Rightarrow> 'o agent" where
  "steer m a = a\<lparr>ag_steering := enqueue m (ag_steering a)\<rparr>"

definition followUp :: "agent_message \<Rightarrow> 'o agent \<Rightarrow> 'o agent" where
  "followUp m a = a\<lparr>ag_followUp := enqueue m (ag_followUp a)\<rparr>"

definition clearSteeringQueue :: "'o agent \<Rightarrow> 'o agent" where
  "clearSteeringQueue a = a\<lparr>ag_steering := clear_queue (ag_steering a)\<rparr>"

definition clearFollowUpQueue :: "'o agent \<Rightarrow> 'o agent" where
  "clearFollowUpQueue a = a\<lparr>ag_followUp := clear_queue (ag_followUp a)\<rparr>"

definition clearAllQueues :: "'o agent \<Rightarrow> 'o agent" where
  "clearAllQueues a = clearFollowUpQueue (clearSteeringQueue a)"

definition hasQueuedMessages :: "'o agent \<Rightarrow> bool" where
  "hasQueuedMessages a \<longleftrightarrow> hasItems (ag_steering a) \<or> hasItems (ag_followUp a)"

definition abort_run :: "'o agent \<Rightarrow> 'o agent" where
  "abort_run a = a\<lparr>ag_active := map_option (\<lambda>b. True) (ag_active a)\<rparr>"

definition reset_agent :: "'o agent \<Rightarrow> jstr + 'o agent" where
  "reset_agent a =
     (if ag_active a \<noteq> None then Inl (js ''Agent is already processing. Wait for completion before resetting.'')
      else Inr (clearSteeringQueue (clearFollowUpQueue (a\<lparr>
        ag_messages := (case getCurrentSystemMessage (ag_messages a) of None \<Rightarrow> [] | Some b \<Rightarrow> [SystemMessage b]),
        ag_isStreaming := False, ag_streamingMessage := None, ag_pendingToolCalls := [], ag_errorMessage := None\<rparr>))))"

section \<open>Events\<close>

definition reduce_event :: "agent_event \<Rightarrow> 'o agent \<Rightarrow> 'o agent" where
  "reduce_event e a =
     (case e of
        MessageStart m \<Rightarrow> a\<lparr>ag_streamingMessage := Some m\<rparr>
      | MessageUpdate m \<Rightarrow> a\<lparr>ag_streamingMessage := Some (AssistantMessage m)\<rparr>
      | MessageEnd m \<Rightarrow> a\<lparr>ag_streamingMessage := None, ag_messages := ag_messages a @ [m]\<rparr>
      | ToolExecutionStart c \<Rightarrow> a\<lparr>ag_pendingToolCalls :=
          (if ca_id c \<in> set (ag_pendingToolCalls a) then ag_pendingToolCalls a else ag_pendingToolCalls a @ [ca_id c])\<rparr>
      | ToolExecutionEnd c r b \<Rightarrow> a\<lparr>ag_pendingToolCalls := removeAll (ca_id c) (ag_pendingToolCalls a)\<rparr>
      | TurnEnd m rs \<Rightarrow> (case as_errorMessage m of
            Some t \<Rightarrow> if t = [] then a else a\<lparr>ag_errorMessage := Some t\<rparr>
          | None \<Rightarrow> a)
      | AgentEnd ms \<Rightarrow> a\<lparr>ag_streamingMessage := None\<rparr>
      | _ \<Rightarrow> a)"

definition processEvents :: "'o agent host \<Rightarrow> agent_event \<Rightarrow> 'o agent \<Rightarrow> jstr + 'o agent" where
  "processEvents svc e a =
     (let a1 = reduce_event e a
      in if ag_active a1 = None then Inl (js ''Agent listener invoked outside active run'') else Inr (ho_emit svc e a1))"

text \<open>
  The host of a run. A run keeps the agent active, so the sink does not throw; it is given the reduced state where it
  would.
\<close>

definition sink :: "'o agent host \<Rightarrow> agent_event \<Rightarrow> 'o agent \<Rightarrow> 'o agent" where
  "sink svc e a = (case processEvents svc e a of Inl t \<Rightarrow> reduce_event e a | Inr a1 \<Rightarrow> a1)"

definition drain_steering :: "'o agent \<Rightarrow> agent_message list \<times> 'o agent" where
  "drain_steering a = (case drain_queue (ag_steering a) of (ms, q) \<Rightarrow> (ms, a\<lparr>ag_steering := q\<rparr>))"

definition drain_followUp :: "'o agent \<Rightarrow> agent_message list \<times> 'o agent" where
  "drain_followUp a = (case drain_queue (ag_followUp a) of (ms, q) \<Rightarrow> (ms, a\<lparr>ag_followUp := q\<rparr>))"

definition poll_queue :: "'o agent \<Rightarrow> agent_message list \<times> 'o agent" where
  "poll_queue a = (if ag_skip a then ([], a\<lparr>ag_skip := False\<rparr>) else drain_steering a)"

definition agent_host :: "'o agent host \<Rightarrow> 'o agent host" where
  "agent_host svc = svc\<lparr>ho_emit := sink svc, ho_aborted := (\<lambda>a. ag_active a = Some True),
     ho_getSteeringMessages := poll_queue, ho_getFollowUpMessages := drain_followUp\<rparr>"

section \<open>Runs\<close>

definition createContextSnapshot :: "'o agent \<Rightarrow> agent_context" where
  "createContextSnapshot a = \<lparr>cx_messages = ag_messages a, cx_tools = ag_tools a\<rparr>"

definition createLoopConfig :: "'o agent \<Rightarrow> loop_config" where
  "createLoopConfig a = \<lparr>cf_model = ag_model a,
     cf_reasoning = (if ag_thinkingLevel a = js ''off'' then None else Some (ag_thinkingLevel a)),
     cf_toolExecution = Some (ag_toolExecution a), cf_apiKey = None\<rparr>"

definition model_field :: "string \<Rightarrow> model \<Rightarrow> jstr" where
  "model_field k m = (case m of JObj ps \<Rightarrow> (case map_of ps (js k) of Some (JStr s) \<Rightarrow> s | _ \<Rightarrow> []) | _ \<Rightarrow> [])"

definition failure_message :: "jstr \<Rightarrow> int \<Rightarrow> 'o agent \<Rightarrow> assistant_message" where
  "failure_message error now a =
     \<lparr>as_content = [TextBlock [] None], as_api = model_field ''api'' (ag_model a), as_provider = model_field ''provider'' (ag_model a),
      as_model = model_field ''id'' (ag_model a),
      as_usage = \<lparr>usage_input = 0, usage_output = 0, usage_cacheRead = 0, usage_cacheWrite = 0, usage_cacheWrite1h = None,
        usage_reasoning = None, usage_totalTokens = 0, usage_cost = \<lparr>cost_input = NInt 0, cost_output = NInt 0,
          cost_cacheRead = NInt 0, cost_cacheWrite = NInt 0, cost_total = NInt 0\<rparr>\<rparr>,
      as_stopReason = (if ag_active a = Some True then AbortedStop else ErrorStop), as_errorMessage = Some error,
      as_timestamp = now, as_other = JNull\<rparr>"

definition handleRunFailure :: "'o agent host \<Rightarrow> jstr \<Rightarrow> 'o agent \<Rightarrow> 'o agent" where
  "handleRunFailure svc error a =
     (let f = failure_message error (ho_now svc a) a
      in sink svc (AgentEnd [AssistantMessage f]) (sink svc (TurnEnd f [])
           (sink svc (MessageEnd (AssistantMessage f)) (sink svc (MessageStart (AssistantMessage f)) a))))"

definition finishRun :: "'o agent \<Rightarrow> 'o agent" where
  "finishRun a = a\<lparr>ag_isStreaming := False, ag_streamingMessage := None, ag_pendingToolCalls := [], ag_active := None\<rparr>"

definition begin_run :: "'o agent \<Rightarrow> 'o agent" where
  "begin_run a = a\<lparr>ag_active := Some False, ag_isStreaming := True, ag_streamingMessage := None, ag_errorMessage := None\<rparr>"

text \<open>\<open>Inl\<close> is an error that is thrown to the caller, \<open>None\<close> a run that does not end.\<close>

definition runWithLifecycle ::
    "'o agent host \<Rightarrow> ('o agent \<Rightarrow> jstr + 'o agent option) \<Rightarrow> 'o agent \<Rightarrow> jstr + 'o agent option" where
  "runWithLifecycle svc executor a =
     (if ag_active a \<noteq> None then Inl (js ''Agent is already processing.'')
      else case executor (begin_run a) of
        Inl e \<Rightarrow> Inr (Some (finishRun (handleRunFailure svc e (begin_run a))))
      | Inr None \<Rightarrow> Inr None
      | Inr (Some a1) \<Rightarrow> Inr (Some (finishRun a1)))"

text \<open>The loop of a prompt: its state when it ends.\<close>

definition prompt_loop ::
    "'o agent host \<Rightarrow> (number \<Rightarrow> jstr) \<Rightarrow> agent_message list \<Rightarrow> bool \<Rightarrow> 'o agent \<Rightarrow> 'o agent loop_state option" where
  "prompt_loop svc dbl ms skip a =
     runAgentLoop (agent_host svc) dbl ms (createContextSnapshot a) (createLoopConfig a) (a\<lparr>ag_skip := skip\<rparr>)"

definition runPromptMessages ::
    "'o agent host \<Rightarrow> (number \<Rightarrow> jstr) \<Rightarrow> agent_message list \<Rightarrow> bool \<Rightarrow> 'o agent \<Rightarrow> jstr + 'o agent option" where
  "runPromptMessages svc dbl ms skip a =
     runWithLifecycle svc (\<lambda>a1. Inr (map_option ls_world (prompt_loop svc dbl ms skip a1))) a"

definition runContinuation :: "'o agent host \<Rightarrow> (number \<Rightarrow> jstr) \<Rightarrow> 'o agent \<Rightarrow> jstr + 'o agent option" where
  "runContinuation svc dbl a =
     runWithLifecycle svc (\<lambda>a1.
       case runAgentLoopContinue (agent_host svc) dbl (createContextSnapshot a1) (createLoopConfig a1) (a1\<lparr>ag_skip := False\<rparr>) of
         Inl e \<Rightarrow> Inl e | Inr r \<Rightarrow> Inr (map_option ls_world r)) a"

datatype prompt_input = PromptText jstr "content_block list option" | PromptMessages "agent_message list"

definition normalizePromptInput :: "int \<Rightarrow> prompt_input \<Rightarrow> agent_message list" where
  "normalizePromptInput now input =
     (case input of
        PromptMessages ms \<Rightarrow> ms
      | PromptText t images \<Rightarrow>
          [UserMessage (Blocks (TextBlock t None # (case images of None \<Rightarrow> [] | Some is \<Rightarrow> is))) now])"

definition prompt :: "'o agent host \<Rightarrow> (number \<Rightarrow> jstr) \<Rightarrow> prompt_input \<Rightarrow> 'o agent \<Rightarrow> jstr + 'o agent option" where
  "prompt svc dbl input a =
     (if ag_active a \<noteq> None
      then Inl (js ''Agent is already processing a prompt. Use steer() or followUp() to queue messages, or wait for completion.'')
      else runPromptMessages svc dbl (normalizePromptInput (ho_now svc a) input) False a)"

definition continue_run :: "'o agent host \<Rightarrow> (number \<Rightarrow> jstr) \<Rightarrow> 'o agent \<Rightarrow> jstr + 'o agent option" where
  "continue_run svc dbl a =
     (if ag_active a \<noteq> None then Inl (js ''Agent is already processing. Wait for completion before continuing.'')
      else if ag_messages a = [] \<or> list_all isSystemMessage (ag_messages a) then Inl (js ''No messages to continue from'')
      else case last (ag_messages a) of
        AssistantMessage m \<Rightarrow>
          (case drain_steering a of
             (queuedSteering, a1) \<Rightarrow>
               if queuedSteering \<noteq> [] then runPromptMessages svc dbl queuedSteering True a1
               else (case drain_followUp a1 of
                 (queuedFollowUps, a2) \<Rightarrow>
                   if queuedFollowUps \<noteq> [] then runPromptMessages svc dbl queuedFollowUps False a2
                   else Inl (js ''Cannot continue from message role: assistant'')))
      | _ \<Rightarrow> runContinuation svc dbl a)"

section \<open>The transcript of the agent\<close>

text \<open>Services that leave the transcript to the agent and do not end its run.\<close>

definition leaves_transcript :: "'o agent host \<Rightarrow> bool" where
  "leaves_transcript svc \<longleftrightarrow> (\<forall>base. host_keeps (\<lambda>es a. ag_messages a = base \<and> ag_active a \<noteq> None) svc)"

text \<open>The transcript is the one at the beginning of the run and the messages announced since.\<close>

definition tracks :: "agent_message list \<Rightarrow> agent_event list \<Rightarrow> 'o agent \<Rightarrow> bool" where
  "tracks base es a \<longleftrightarrow> ag_messages a = base @ message_ends es \<and> ag_active a \<noteq> None"

lemma reduce_tracks: "tracks base es a \<Longrightarrow> tracks base (es @ [e]) (reduce_event e a)"
  by (cases e) (auto simp: tracks_def reduce_event_def message_ends_def split: option.splits)

lemma leaves_keeps:
  assumes "\<forall>base. keeps (\<lambda>es a. ag_messages a = base \<and> ag_active a \<noteq> None) f"
  shows "keeps (tracks base) f"
  using assms by (auto simp: keeps_def tracks_def)

lemma drain_tracks: "keeps (tracks base) drain_steering" "keeps (tracks base) drain_followUp" "keeps (tracks base) poll_queue"
  by (auto simp: keeps_def tracks_def drain_steering_def drain_followUp_def poll_queue_def split: prod.splits)

lemma agent_host_tracks:
  assumes "leaves_transcript svc"
  shows "host_keeps (tracks base) (agent_host svc)"
proof -
  let ?K = "\<lambda>base. (\<lambda>es a. ag_messages a = base \<and> ag_active a \<noteq> None)"
  have svc: "host_keeps (?K b) svc" for b using assms unfolding leaves_transcript_def by blast
  have emit: "tracks base (es @ [e]) (sink svc e a)" if "tracks base es a" for es e a
  proof -
    let ?r = "reduce_event e a"
    have r: "tracks base (es @ [e]) ?r" by (rule reduce_tracks[OF that])
    then have "ag_messages (ho_emit svc e ?r) = ag_messages ?r \<and> ag_active (ho_emit svc e ?r) \<noteq> None"
      using svc[of "ag_messages ?r"] by (simp add: host_keeps_def tracks_def)
    then show ?thesis using r by (simp add: sink_def processEvents_def tracks_def Let_def)
  qed
  have ops: "keeps (tracks base) f" if "\<And>b. keeps (?K b) f" for f :: "'a agent \<Rightarrow> 'b \<times> 'a agent"
    using leaves_keeps that by blast
  note s = host_ops[OF svc]
  show ?thesis
    unfolding host_keeps_def agent_host_def
    by (simp add: emit drain_tracks ops[OF s(3)] ops[OF s(4)] ops[OF s(5)] ops[OF s(6)] ops[OF s(7)] ops[OF s(8)]
        ops[OF s(9)] ops[OF s(10)] ops[OF s(11)] ops[OF s(12)] ops[OF s(13)])
qed

lemma runPromptMessages_returns:
  assumes "runPromptMessages svc dbl ms skip a = Inr (Some a')"
  obtains st where "ag_active a = None" "prompt_loop svc dbl ms skip (begin_run a) = Some st" "a' = finishRun (ls_world st)"
  using assms by (auto simp: runPromptMessages_def runWithLifecycle_def split: if_splits option.splits)

lemma announced_new:
  assumes "runAgentLoop h dbl prompts cx cf w = Some st"
  shows "message_ends (ls_events st) = ls_newMessages st"
proof -
  define initial where "initial = declareToolChanges dbl (ho_now h w) cx prompts"
  define st0 where "st0 = start_state (cx\<lparr>cx_messages := cx_messages cx @ initial\<rparr>) cf initial w"
  obtain ts where ts: "adds (fold (emit_message h) initial (emit h TurnStart (emit h AgentStart st0)))
      (concat (map turn_messages ts)) (concat (map turn_messages ts)) (run_bounds True ts @ [AgentEnd (ls_newMessages st)]) st"
    using runLoop_adds assms unfolding runAgentLoop_def Let_def initial_def st0_def by blast
  from adds_trans[OF adds_trans[OF adds_trans[OF adds_emit[of st0 AgentStart h] adds_emit[of _ TurnStart h]]
      initial_adds] ts] show ?thesis by (auto simp: adds_def st0_def start_state_def)
qed

text \<open>
  C10. The agent's transcript and the loop's context are two copies of one conversation. When a prompt returns, the
  transcript, which the agent builds from the events, is the transcript before, the messages that begin the run and
  what every turn added, in order; it is the context the loop built by appending and replacing; and the agent is idle:
  not streaming, with no partial message, no pending tool calls and no run. Services that change the transcript
  themselves, replace the context between turns or start two messages in a response are excluded.
\<close>

theorem agent_transcript:
  assumes "leaves_transcript svc" "plain_host svc" "runPromptMessages svc dbl ms skip a = Inr (Some a')"
  shows "\<exists>st. prompt_loop svc dbl ms skip (begin_run a) = Some st \<and>
      ag_messages a' = ag_messages a @ ls_newMessages st \<and> ag_messages a' = cx_messages (ls_context st) \<and>
      \<not> ag_isStreaming a' \<and> ag_streamingMessage a' = None \<and> ag_pendingToolCalls a' = [] \<and> ag_active a' = None"
proof -
  obtain st where st: "prompt_loop svc dbl ms skip (begin_run a) = Some st" "a' = finishRun (ls_world st)"
    by (rule runPromptMessages_returns[OF assms(3)])
  have "tracks (ag_messages a) [] ((begin_run a)\<lparr>ag_skip := skip\<rparr>)" by (simp add: tracks_def begin_run_def)
  from runAgentLoop_keeps[OF st(1)[unfolded prompt_loop_def] agent_host_tracks[OF assms(1)] this]
  have world: "ag_messages (ls_world st) = ag_messages a @ message_ends (ls_events st)" by (simp add: tracks_def)
  have new: "message_ends (ls_events st) = ls_newMessages st"
    by (rule announced_new[OF st(1)[unfolded prompt_loop_def]])
  have "plain_host (agent_host svc)" using assms(2) by (simp add: plain_host_def agent_host_def)
  from run_context[OF this st(1)[unfolded prompt_loop_def]]
  have "cx_messages (ls_context st) = ag_messages a @ ls_newMessages st" by (simp add: createContextSnapshot_def begin_run_def)
  then show ?thesis using st world new by (intro exI[of _ st]) (simp add: finishRun_def)
qed

section \<open>The queues of the agent\<close>

text \<open>
  Services that do not touch the flag of the first poll, which is local to the run, and queue nothing while
  \<open>agent_end\<close> is delivered, when the loop has polled for the last time. They may queue at any other time.
\<close>

definition queues_before_end :: "'o agent host \<Rightarrow> bool" where
  "queues_before_end svc \<longleftrightarrow> host_keeps (\<lambda>es a. \<not> ag_skip a) svc \<and>
     (\<forall>ms a. ag_steering (ho_emit svc (AgentEnd ms) a) = ag_steering a \<and>
       ag_followUp (ho_emit svc (AgentEnd ms) a) = ag_followUp a)"

text \<open>The run was stopped by \<open>shouldStopAfterTurn\<close>: its last call answered true, and only \<open>agent_end\<close> came after.\<close>

definition stopped_by_host :: "'o agent host \<Rightarrow> 'o agent loop_state \<Rightarrow> bool" where
  "stopped_by_host svc st \<longleftrightarrow> (\<exists>t w w'. ls_lastTurn st = Some t \<and> ho_shouldStopAfterTurn svc t w = (True, w') \<and>
     ls_world st = sink svc (AgentEnd (ls_newMessages st)) w')"

lemma reduce_queues: "ag_steering (reduce_event e a) = ag_steering a" "ag_followUp (reduce_event e a) = ag_followUp a"
    "ag_skip (reduce_event e a) = ag_skip a"
  by (auto simp: reduce_event_def split: agent_event.splits option.splits)

lemma sink_end:
  assumes "queues_before_end svc"
  shows "ag_steering (sink svc (AgentEnd ms) a) = ag_steering a" "ag_followUp (sink svc (AgentEnd ms) a) = ag_followUp a"
  using assms by (simp_all add: queues_before_end_def sink_def processEvents_def Let_def reduce_queues)

text \<open>Once the first poll was made, every later one takes from the queue.\<close>

lemma agent_host_polled:
  assumes "queues_before_end svc"
  shows "host_keeps (\<lambda>es a. \<not> ag_skip a) (agent_host svc)"
proof -
  have svc: "host_keeps (\<lambda>es a. \<not> ag_skip a) svc" using assms unfolding queues_before_end_def by blast
  have emit: "\<not> ag_skip (sink svc e a)" if "\<not> ag_skip a" for e a
    using that host_emit[OF svc, of "reduce_event e a"]
    by (simp add: sink_def processEvents_def Let_def reduce_queues)
  have drains: "keeps (\<lambda>es a. \<not> ag_skip a) drain_followUp" "keeps (\<lambda>es a. \<not> ag_skip a) poll_queue"
    by (auto simp: keeps_def drain_followUp_def poll_queue_def drain_steering_def split: prod.splits)
  note s = host_ops[OF svc]
  show ?thesis
    unfolding host_keeps_def agent_host_def by (simp add: emit drains s)
qed

lemma poll_all:
  assumes "\<not> ag_skip (ls_world st)"
  shows "ls_pending (poll_steering (agent_host svc) st) = [] \<longrightarrow>
    qu_messages (ag_steering (ls_world (poll_steering (agent_host svc) st))) = []"
proof -
  obtain ms q where d: "drain_queue (ag_steering (ls_world st)) = (ms, q)" by (metis surj_pair)
  then show ?thesis using assms drain_empty
    by (auto simp: poll_steering_def ask_def agent_host_def poll_queue_def drain_steering_def)
qed

lemma turn_polls:
  assumes "queues_before_end svc" "turn (agent_host svc) dbl st = Continue st'" "\<not> ag_skip (ls_world st)"
  shows "\<not> ag_skip (ls_world st')" "ls_pending st' = [] \<longrightarrow> qu_messages (ag_steering (ls_world st')) = []"
proof -
  let ?h = "agent_host svc"
  note h = agent_host_polled[OF assms(1)]
  have w: "holds (\<lambda>es a. \<not> ag_skip a) st" using assms(3) by (simp add: holds_def)
  show "\<not> ag_skip (ls_world st')" using turn_keeps[OF h w, of dbl st'] assms(2) by (simp add: holds_def)
  obtain a st1 where s1: "streamAssistantResponse ?h (inject_pending ?h dbl st) = (a, st1)" by (metis surj_pair)
  obtain rs st3 where s3: "run_tools ?h a (push_new (AssistantMessage a) st1) = (rs, st3)" by (metis surj_pair)
  have rest: "complete_turn ?h a rs st3 = Continue st'" using assms(2) s1 s3 by (auto simp: turn_def Let_def split: if_splits)
  have w3: "holds (\<lambda>es a. \<not> ag_skip a) st3"
    by (rule run_tools_keeps[OF h _ s3]) (use stream_keeps[OF h pending_keeps[OF h w] s1] in simp)
  let ?t = "\<lparr>ct_message = a, ct_toolResults = rs, ct_context = ls_context (emit ?h (TurnEnd a rs) st3),
    ct_newMessages = ls_newMessages (emit ?h (TurnEnd a rs) st3)\<rparr>"
  let ?s1 = "(emit ?h (TurnEnd a rs) st3)\<lparr>ls_lastTurn := Some ?t\<rparr>"
  obtain stop st2 where s2: "ask (ho_shouldStopAfterTurn ?h ?t) ?s1 = (stop, st2)" by (metis surj_pair)
  have "holds (\<lambda>es a. \<not> ag_skip a) ?s1" using keeps_emit[OF h w3] by simp
  then have "\<not> ag_skip (ls_world st2)" using keeps_ask[OF host_ops(4)[OF h] _ s2] by (simp add: holds_def)
  moreover have "st' = poll_steering ?h st2" using rest s2 by (auto simp: complete_turn_def Let_def split: if_splits)
  ultimately show "ls_pending st' = [] \<longrightarrow> qu_messages (ag_steering (ls_world st')) = []" using poll_all by simp
qed

text \<open>
  A turn ends the run only when its response failed - it is then the last of the new messages - or when the
  host stops it.
\<close>

lemma complete_turn_stops:
  assumes "complete_turn (agent_host svc) a rs st = Finished st'"
  shows "stopped_by_host svc st'"
proof -
  let ?h = "agent_host svc" and ?st1 = "emit (agent_host svc) (TurnEnd a rs) st"
  let ?t = "\<lparr>ct_message = a, ct_toolResults = rs, ct_context = ls_context ?st1, ct_newMessages = ls_newMessages ?st1\<rparr>"
  obtain stop w' where s: "ho_shouldStopAfterTurn svc ?t (ls_world ?st1) = (stop, w')" by (metis surj_pair)
  then have "stop \<and> st' = end_agent ?h (?st1\<lparr>ls_lastTurn := Some ?t, ls_world := w'\<rparr>)"
    using assms by (auto simp: complete_turn_def Let_def ask_def agent_host_def split: if_splits)
  then show ?thesis unfolding stopped_by_host_def
    by (intro exI[of _ ?t] exI[of _ "ls_world ?st1"] exI[of _ w'])
      (use s in \<open>simp add: end_agent_def emit_def agent_host_def\<close>)
qed

definition failed_run :: "'o agent loop_state \<Rightarrow> bool" where
  "failed_run st \<longleftrightarrow> (\<exists>m. failed_response m \<and> ls_newMessages st \<noteq> [] \<and> last (ls_newMessages st) = AssistantMessage m)"

lemma turn_stops:
  assumes "turn (agent_host svc) dbl st = Finished st'"
  shows "failed_run st' \<or> stopped_by_host svc st'"
proof -
  let ?h = "agent_host svc"
  obtain a st1 where s1: "streamAssistantResponse ?h (inject_pending ?h dbl st) = (a, st1)" by (metis surj_pair)
  obtain rs st3 where s3: "run_tools ?h a (push_new (AssistantMessage a) st1) = (rs, st3)" by (metis surj_pair)
  show ?thesis
  proof (cases "failed_response a")
    case True
    then have "st' = end_agent ?h (emit ?h (TurnEnd a []) (push_new (AssistantMessage a) st1))"
      using assms s1 by (simp add: turn_def Let_def)
    then have "failed_run st'" unfolding failed_run_def
      by (intro exI[of _ a]) (simp add: True end_agent_def emit_def push_new_def)
    then show ?thesis by blast
  next
    case False
    then have "complete_turn ?h a rs st3 = Finished st'" using assms s1 s3 by (simp add: turn_def Let_def)
    then show ?thesis using complete_turn_stops by blast
  qed
qed

definition queues_empty :: "'o agent \<Rightarrow> bool" where
  "queues_empty a \<longleftrightarrow> qu_messages (ag_steering a) = [] \<and> qu_messages (ag_followUp a) = []"

lemma run_turns_drains:
  assumes "run_turns h dbl st = Some st'" "h = agent_host svc" "queues_before_end svc" "\<not> ag_skip (ls_world st)"
    "ls_more st \<or> ls_pending st \<noteq> [] \<or> qu_messages (ag_steering (ls_world st)) = []"
  shows "queues_empty (ls_world st') \<or> failed_run st' \<or> stopped_by_host svc st'"
proof (rule run_turns.raw_induct[where P = "\<lambda>h dbl st st'. h = agent_host svc \<longrightarrow> \<not> ag_skip (ls_world st) \<longrightarrow>
      (ls_more st \<or> ls_pending st \<noteq> [] \<or> qu_messages (ag_steering (ls_world st)) = []) \<longrightarrow>
      queues_empty (ls_world st') \<or> failed_run st' \<or> stopped_by_host svc st'",
      OF _ assms(1), rule_format, OF _ assms(2,4,5)], goal_cases)
  case (1 f h dbl st st')
  show ?case
  proof (cases "ls_more st \<or> ls_pending st \<noteq> []")
    case True
    show ?thesis
    proof (cases "turn h dbl st")
      case (Finished st1)
      then show ?thesis using 1(2,3) True turn_stops[of svc dbl st st1] by simp
    next
      case (Continue st1)
      then have "f h dbl st1 = Some st'" using 1(2) True by simp
      moreover have "\<not> ag_skip (ls_world st1)" "ls_pending st1 = [] \<longrightarrow> qu_messages (ag_steering (ls_world st1)) = []"
        using turn_polls[OF assms(3), of dbl st st1] Continue 1(3,4) by simp_all
      ultimately show ?thesis using 1(1)[of h dbl st1 st'] 1(3) by blast
    qed
  next
    case False
    obtain ms st1 where s1: "ask (ho_getFollowUpMessages h) st = (ms, st1)" by (metis surj_pair)
    obtain q where d: "drain_queue (ag_followUp (ls_world st)) = (ms, q)" and
        st1: "ls_world st1 = (ls_world st)\<lparr>ag_followUp := q\<rparr>"
      using s1 1(3) by (auto simp: ask_def agent_host_def drain_followUp_def split: prod.splits)
    show ?thesis
    proof (cases "ms = []")
      case True
      then have "st' = end_agent h st1" using 1(2) False s1 by simp
      moreover have "qu_messages q = []" using drain_empty d True by blast
      ultimately show ?thesis using 1(3,5) False st1
        by (simp add: queues_empty_def end_agent_def emit_def agent_host_def sink_end[OF assms(3)])
    next
      case ms: False
      then have "f h dbl (st1\<lparr>ls_pending := ms, ls_more := True\<rparr>) = Some st'" using 1(2) False s1 by simp
      then show ?thesis using 1(1)[of h dbl "st1\<lparr>ls_pending := ms, ls_more := True\<rparr>" st'] 1(3,4) st1 by simp
    qed
  qed
qed

text \<open>
  C11. No queued message is forgotten. When a prompt returns, then both queues are empty - every message queued for
  steering or as a follow-up, before the run or by any service during it, was taken by the loop, also when the first
  poll for steering was skipped - unless the last response failed or was aborted, or \<open>shouldStopAfterTurn\<close> stopped the
  run, which is documented to end it before the queues are polled. What a listener queues while \<open>agent_end\<close> is
  delivered comes after the last poll and is excluded; a service acts only when it is called.
\<close>

theorem agent_queues_drained:
  assumes "queues_before_end svc" "runPromptMessages svc dbl ms skip a = Inr (Some a')"
  shows "\<exists>st. prompt_loop svc dbl ms skip (begin_run a) = Some st \<and>
      (queues_empty a' \<or> failed_run st \<or> stopped_by_host svc st)"
proof -
  obtain st where st: "prompt_loop svc dbl ms skip (begin_run a) = Some st" "a' = finishRun (ls_world st)"
    by (rule runPromptMessages_returns[OF assms(2)])
  obtain s where run: "run_turns (agent_host svc) dbl ((poll_steering (agent_host svc) s)\<lparr>ls_lastTurn := None, ls_more := True\<rparr>) = Some st"
    using st(1) by (auto simp: prompt_loop_def runAgentLoop_def runLoop_def Let_def)
  have "\<not> ag_skip (ls_world (poll_steering (agent_host svc) s))"
    by (auto simp: poll_steering_def ask_def agent_host_def poll_queue_def drain_steering_def split: prod.splits)
  then have "queues_empty (ls_world st) \<or> failed_run st \<or> stopped_by_host svc st"
    using run_turns_drains[OF run refl assms(1)] by simp
  then show ?thesis using st by (intro exI[of _ st]) (simp add: queues_empty_def finishRun_def)
qed

section \<open>Refused continuations\<close>

lemma run_not_refused: "ag_active a = None \<Longrightarrow> \<not> isl (runWithLifecycle svc f a)"
  by (auto simp: runWithLifecycle_def split: sum.splits option.splits)

lemma drained_some: "fst (drain_queue q) = [] \<longleftrightarrow> \<not> hasItems q"
  by (auto simp: drain_queue_def hasItems_def split: queue_mode.splits list.splits)

text \<open>
  C33. Continuing throws exactly while a run is active, when the transcript has nothing but system messages, and when it
  ends with a response and no message is queued; then nothing is run. In every other case a run starts.
\<close>

theorem continue_refused:
  "isl (continue_run svc dbl a) =
     (if ag_active a = None
      then if list_all isSystemMessage (ag_messages a) then True
        else (\<exists>m. last (ag_messages a) = AssistantMessage m) \<and> \<not> hasQueuedMessages a
      else True)"
proof (cases "ag_active a \<noteq> None \<or> list_all isSystemMessage (ag_messages a)")
  case True
  then show ?thesis by (auto simp: continue_run_def)
next
  case False
  then have ok: "ag_active a = None" "ag_messages a \<noteq> []" "\<not> list_all isSystemMessage (ag_messages a)" by auto
  obtain ms q where s: "drain_queue (ag_steering a) = (ms, q)" by (metis surj_pair)
  obtain fs r where f: "drain_queue (ag_followUp a) = (fs, r)" by (metis surj_pair)
  have queued: "hasQueuedMessages a \<longleftrightarrow> ms \<noteq> [] \<or> fs \<noteq> []"
    using drained_some[of "ag_steering a"] drained_some[of "ag_followUp a"] s f by (auto simp: hasQueuedMessages_def)
  show ?thesis
  proof (cases "last (ag_messages a)")
    case (AssistantMessage m)
    then show ?thesis using ok s f queued
      by (auto simp: continue_run_def drain_steering_def drain_followUp_def runPromptMessages_def run_not_refused)
  qed (use ok in \<open>auto simp: continue_run_def runContinuation_def run_not_refused\<close>)
qed

section \<open>A sample agent\<close>

definition sample_services :: "assistant_message list agent host" where
  "sample_services = \<lparr>ho_emit = (\<lambda>e a. a), ho_aborted = (\<lambda>a. False), ho_now = (\<lambda>a. 0),
     ho_getSteeringMessages = (\<lambda>a. ([], a)), ho_getFollowUpMessages = (\<lambda>a. ([], a)),
     ho_prepareNextTurn = (\<lambda>t a. (None, a)), ho_shouldStopAfterTurn = (\<lambda>t a. (False, a)),
     ho_transformContext = (\<lambda>ms a. (ms, a)), ho_convertToLlm = (\<lambda>ms a. (ms, a)), ho_getApiKey = (\<lambda>m a. (None, a)),
     ho_stream = (\<lambda>cf ms a. case ag_outer a of [] \<Rightarrow> (([], sample_answer [] ErrorStop), a)
       | x # w \<Rightarrow> (([PartStart (sample_answer [] PendingStop), PartUpdate x, PartTerminal], x), a\<lparr>ag_outer := w\<rparr>)),
     ho_validate = (\<lambda>t c a. (Inr (JObj (ca_arguments c)), a)), ho_beforeToolCall = None,
     ho_execute = (\<lambda>t i args a. (([sample_output], Inr sample_output), a)), ho_afterToolCall = None,
     ho_schedule = (\<lambda>a. (1, a))\<rparr>"

definition sample_agent :: "assistant_message list agent" where
  "sample_agent = followUp (UserMessage (PlainText (js ''next'')) 0) (steer (UserMessage (PlainText (js ''also'')) 0)
     (createMutableAgentState (Some (js ''You help.'')) [sample_agent_tool] [] JNull None None None None
       [sample_request, sample_answer [] Stop, sample_answer [] Stop]))"

lemma sample_agent_spends: "spends (\<lambda>a. length (ag_outer a)) (agent_host sample_services)"
  by (auto simp: spends_def host_keeps_def keeps_def sample_services_def agent_host_def failed_response_def
      sample_answer_def sink_def processEvents_def reduce_event_def Let_def drain_followUp_def poll_queue_def
      drain_steering_def split: list.splits agent_event.splits option.splits prod.splits)

definition sample_prompt :: "jstr + assistant_message list agent option" where
  "sample_prompt = runPromptMessages sample_services (\<lambda>n. []) [UserMessage (PlainText (js ''hi'')) 0] False sample_agent"

lemma sample_prompt_returns: "\<exists>a. sample_prompt = Inr (Some a)"
proof -
  obtain st where "prompt_loop sample_services (\<lambda>n. []) [UserMessage (PlainText (js ''hi'')) 0] False (begin_run sample_agent) = Some st"
    using run_turns_returns[OF sample_agent_spends] by (auto simp: prompt_loop_def runAgentLoop_def runLoop_def Let_def)
  moreover have "ag_active sample_agent = None"
    by (simp add: sample_agent_def followUp_def steer_def createMutableAgentState_def Let_def)
  ultimately show ?thesis by (simp add: sample_prompt_def runPromptMessages_def runWithLifecycle_def)
qed

lemma sample_leaves: "leaves_transcript sample_services" "queues_before_end sample_services" "plain_host sample_services"
  by (auto simp: leaves_transcript_def queues_before_end_def plain_host_def host_keeps_def keeps_def sample_services_def
      split: list.splits)

theorem agent_transcript_witness:
  "\<exists>a new. sample_prompt = Inr (Some a) \<and> ag_messages a = ag_messages sample_agent @ new \<and> ag_active a = None"
proof -
  obtain a where a: "sample_prompt = Inr (Some a)" using sample_prompt_returns by blast
  show ?thesis using agent_transcript[OF sample_leaves(1,3) a[unfolded sample_prompt_def]] a by auto
qed

theorem agent_queues_drained_witness:
  "\<exists>a st. sample_prompt = Inr (Some a) \<and>
     prompt_loop sample_services (\<lambda>n. []) [UserMessage (PlainText (js ''hi'')) 0] False (begin_run sample_agent) = Some st \<and>
     (queues_empty a \<or> failed_run st \<or> stopped_by_host sample_services st)"
proof -
  obtain a where a: "sample_prompt = Inr (Some a)" using sample_prompt_returns by blast
  show ?thesis using agent_queues_drained[OF sample_leaves(2) a[unfolded sample_prompt_def]] a by blast
qed

end
