(* ===== verification/StdinBuffer.thy ===== *)
theory StdinBuffer
  imports JsValue
begin

text \<open>
  The terminal's input buffer (\<open>packages/tui/src/stdin-buffer.ts\<close>): chunks of input are accumulated, complete escape
  sequences and characters are emitted one by one, and a bracketed paste is emitted as one event. A timer that fires
  flushes an incomplete sequence; the decoding of bytes (\<open>Buffer.toString\<close>) is an argument.
\<close>

section \<open>Complete sequences\<close>

abbreviation esc :: code_unit where "esc \<equiv> 27"

definition paste_start :: jstr where "paste_start = [27, 91, 50, 48, 48, 126]"
definition paste_end :: jstr where "paste_end = [27, 91, 50, 48, 49, 126]"

datatype completeness = Complete | Incomplete | NotEscape

definition is_digit_unit :: "code_unit \<Rightarrow> bool" where
  "is_digit_unit c \<longleftrightarrow> in_range c 48 57"

text \<open>\<open>/^\d+$/\<close>, \<open>text.split(";")\<close> and \<open>text.endsWith\<close>.\<close>

definition all_digits :: "jstr \<Rightarrow> bool" where
  "all_digits s \<longleftrightarrow> s \<noteq> [] \<and> list_all is_digit_unit s"

fun split_semicolons :: "jstr \<Rightarrow> jstr list" where
  "split_semicolons [] = [[]]"
| "split_semicolons (c # cs) =
     (if c = 59 then [] # split_semicolons cs
      else case split_semicolons cs of p # ps \<Rightarrow> (c # p) # ps | [] \<Rightarrow> [[c]])"

definition ends_with :: "jstr \<Rightarrow> jstr \<Rightarrow> bool" where
  "ends_with e s \<longleftrightarrow> length e \<le> length s \<and> drop (length s - length e) s = e"

text \<open>\<open>/^<\d+;\d+;\d+[Mm]$/\<close>, which is also what the check of the parts accepts.\<close>

definition sgr_mouse :: "jstr \<Rightarrow> bool" where
  "sgr_mouse payload \<longleftrightarrow>
     2 \<le> length payload \<and> (last payload = 77 \<or> last payload = 109) \<and>
     (let parts = split_semicolons (butlast (tl payload)) in length parts = 3 \<and> list_all all_digits parts)"

definition isCompleteCsiSequence :: "jstr \<Rightarrow> completeness" where
  "isCompleteCsiSequence data =
     (if take 2 data \<noteq> [27, 91] then Complete
      else if length data < 3 then Incomplete
      else let payload = drop 2 data in
        if in_range (last payload) 0x40 0x7E
        then (if hd payload = 60 then (if sgr_mouse payload then Complete else Incomplete) else Complete)
        else Incomplete)"

definition isCompleteOscSequence :: "jstr \<Rightarrow> completeness" where
  "isCompleteOscSequence data =
     (if take 2 data \<noteq> [27, 93] then Complete
      else if ends_with [27, 92] data \<or> ends_with [7] data then Complete else Incomplete)"

definition isCompleteDcsSequence :: "jstr \<Rightarrow> completeness" where
  "isCompleteDcsSequence data =
     (if take 2 data \<noteq> [27, 80] then Complete else if ends_with [27, 92] data then Complete else Incomplete)"

definition isCompleteApcSequence :: "jstr \<Rightarrow> completeness" where
  "isCompleteApcSequence data =
     (if take 2 data \<noteq> [27, 95] then Complete else if ends_with [27, 92] data then Complete else Incomplete)"

definition isCompleteSequence :: "jstr \<Rightarrow> completeness" where
  "isCompleteSequence data =
     (case data of
        [] \<Rightarrow> NotEscape
      | c # afterEsc \<Rightarrow>
          if c \<noteq> esc then NotEscape
          else case afterEsc of
            [] \<Rightarrow> Incomplete
          | d # ds \<Rightarrow>
              if d = 91
              then (if take 1 ds = [77] then (if 6 \<le> length data then Complete else Incomplete)
                    else isCompleteCsiSequence data)
              else if d = 93 then isCompleteOscSequence data
              else if d = 80 then isCompleteDcsSequence data
              else if d = 95 then isCompleteApcSequence data
              else if d = 79 then (if 2 \<le> length afterEsc then Complete else Incomplete)
              else Complete)"

section \<open>Splitting the buffer\<close>

text \<open>The loop over the ends of a candidate: the first that is not incomplete.\<close>

definition sequence_end :: "jstr \<Rightarrow> nat option" where
  "sequence_end remaining = List.find (\<lambda>n. isCompleteSequence (take n remaining) \<noteq> Incomplete) [1..<Suc (length remaining)]"

lemma sequence_end_bounds: "sequence_end s = Some n \<Longrightarrow> 1 \<le> n \<and> n \<le> length s"
  unfolding sequence_end_def by (auto simp: find_Some_iff simp del: upt_Suc)

text \<open>Whether a unit behind two escapes begins an escape sequence.\<close>

definition begins_sequence :: "jstr \<Rightarrow> bool" where
  "begins_sequence s = (case s of [] \<Rightarrow> False | c # cs \<Rightarrow> c = 91 \<or> c = 93 \<or> c = 79 \<or> c = 80 \<or> c = 95)"

text \<open>The sequences, and the remainder.\<close>

function extractCompleteSequences :: "jstr \<Rightarrow> jstr list \<times> jstr" where
  "extractCompleteSequences [] = ([], [])"
| "extractCompleteSequences (c # cs) =
     (if c = esc
      then (case sequence_end (c # cs) of
          None \<Rightarrow> ([], c # cs)
        | Some n \<Rightarrow>
            if take n (c # cs) = [27, 27] \<and> begins_sequence (drop n (c # cs))
            then (case extractCompleteSequences cs of (ss, r) \<Rightarrow> ([27] # ss, r))
            else (case extractCompleteSequences (drop n (c # cs)) of (ss, r) \<Rightarrow> (take n (c # cs) # ss, r)))
      else (case extractCompleteSequences cs of (ss, r) \<Rightarrow> ([c] # ss, r)))"
  by pat_completeness auto
termination
  by (relation "measure length") (auto dest!: sequence_end_bounds)

declare extractCompleteSequences.simps(2) [simp del]

section \<open>The buffer\<close>

datatype stdin_event = DataEvent jstr | PasteEvent jstr

text \<open>\<open>sb_timer\<close> is the delay of the armed timer.\<close>

record stdin_buffer =
  sb_buffer :: jstr
  sb_timer :: "nat option"
  sb_timeoutMs :: nat
  sb_escapeTimeoutMs :: nat
  sb_pasteMode :: bool
  sb_pasteBuffer :: jstr
  sb_pendingKitty :: "nat option"

definition new_stdin_buffer :: "nat option \<Rightarrow> nat option \<Rightarrow> stdin_buffer" where
  "new_stdin_buffer timeout escapeTimeout =
     \<lparr>sb_buffer = [], sb_timer = None, sb_timeoutMs = (case timeout of None \<Rightarrow> 50 | Some t \<Rightarrow> t),
      sb_escapeTimeoutMs = (case escapeTimeout of None \<Rightarrow> 10 | Some t \<Rightarrow> t), sb_pasteMode = False, sb_pasteBuffer = [],
      sb_pendingKitty = None\<rparr>"

text \<open>\<open>parseInt\<close> of digits, and the optional groups \<open>(?::\d*)?(?::\d+)?\<close> before the final \<open>u\<close>.\<close>

definition parse_digits :: "jstr \<Rightarrow> nat" where
  "parse_digits ds = foldl (\<lambda>n c. n * 10 + (unat c - 48)) 0 ds"

definition kitty_tail :: "jstr \<Rightarrow> bool" where
  "kitty_tail s =
     (s = [117] \<or>
      (case s of
         [] \<Rightarrow> False
       | c # cs \<Rightarrow> c = 58 \<and>
           (let r = dropWhile is_digit_unit cs
            in r = [117] \<or>
               (case r of [] \<Rightarrow> False
                | d # ds \<Rightarrow> d = 58 \<and> takeWhile is_digit_unit ds \<noteq> [] \<and> dropWhile is_digit_unit ds = [117]))))"

definition parseUnmodifiedKittyPrintableCodepoint :: "jstr \<Rightarrow> nat option" where
  "parseUnmodifiedKittyPrintableCodepoint s =
     (let ds = takeWhile is_digit_unit (drop 2 s)
      in if take 2 s = [27, 91] \<and> ds \<noteq> [] \<and> kitty_tail (dropWhile is_digit_unit (drop 2 s)) \<and> 32 \<le> parse_digits ds
         then Some (parse_digits ds) else None)"

definition emitDataSequence :: "jstr \<Rightarrow> stdin_buffer \<Rightarrow> stdin_event list \<times> stdin_buffer" where
  "emitDataSequence s b =
     (if length s = 1 \<and> Some (unat (hd s)) = sb_pendingKitty b then ([], b\<lparr>sb_pendingKitty := None\<rparr>)
      else ([DataEvent s], b\<lparr>sb_pendingKitty := parseUnmodifiedKittyPrintableCodepoint s\<rparr>))"

fun emit_sequences :: "jstr list \<Rightarrow> stdin_buffer \<Rightarrow> stdin_event list \<times> stdin_buffer" where
  "emit_sequences [] b = ([], b)"
| "emit_sequences (s # ss) b =
     (case emitDataSequence s b of (e, b1) \<Rightarrow> (case emit_sequences ss b1 of (es, b2) \<Rightarrow> (e @ es, b2)))"

definition find_text :: "jstr \<Rightarrow> jstr \<Rightarrow> nat option" where
  "find_text pat s = List.find (\<lambda>i. take (length pat) (drop i s) = pat) [0..<Suc (length s)]"

lemma find_text_Some: "find_text pat s = Some i \<Longrightarrow> pat \<noteq> [] \<Longrightarrow> i + length pat \<le> length s"
proof -
  assume "find_text pat s = Some i" "pat \<noteq> []"
  then have "take (length pat) (drop i s) = pat" unfolding find_text_def by (metis (mono_tags, lifting) find_Some_iff)
  then have "length pat \<le> length (drop i s)" by (metis length_take min.cobounded1 min_def)
  then show ?thesis using \<open>pat \<noteq> []\<close> by (cases "i \<le> length s") auto
qed

text \<open>
  The part of \<open>process\<close> behind the start of a paste, in \<open>paste_step\<close>: the events, the state, and what is left to process
  when the paste ended.
\<close>

definition paste_step :: "jstr \<Rightarrow> stdin_buffer \<Rightarrow> stdin_event list \<times> stdin_buffer \<times> jstr option" where
  "paste_step pasted b =
     (case find_text paste_end pasted of
        None \<Rightarrow> ([], b\<lparr>sb_pasteMode := True, sb_pasteBuffer := pasted, sb_buffer := []\<rparr>, None)
      | Some i \<Rightarrow>
          ([PasteEvent (take i pasted)],
           b\<lparr>sb_pasteMode := False, sb_pasteBuffer := [], sb_buffer := [], sb_pendingKitty := None\<rparr>,
           Some (drop (i + length paste_end) pasted)))"

definition arm_timer :: "stdin_buffer \<Rightarrow> stdin_buffer" where
  "arm_timer b =
     (if sb_buffer b = [] then b
      else b\<lparr>sb_timer := Some (if sb_buffer b = [27] then sb_escapeTimeoutMs b else sb_timeoutMs b)\<rparr>)"

text \<open>The measure of a call, in which the text left behind a paste is smaller.\<close>

definition held :: "jstr \<Rightarrow> stdin_buffer \<Rightarrow> nat" where
  "held str b = length str + length (sb_buffer b) + length (sb_pasteBuffer b)"

lemma paste_step_rest: "paste_step pasted b = (es, b1, Some rest) \<Longrightarrow> held rest b1 + 6 \<le> length pasted"
  by (auto simp: paste_step_def held_def paste_end_def split: option.splits dest!: find_text_Some)

function process_text :: "jstr \<Rightarrow> stdin_buffer \<Rightarrow> stdin_event list \<times> stdin_buffer" where
  "process_text str b0 =
     (let b = b0\<lparr>sb_timer := None\<rparr> in
      if str = [] \<and> sb_buffer b = [] then emitDataSequence [] b
      else if sb_pasteMode b
      then (case paste_step (sb_pasteBuffer b @ sb_buffer b @ str) b of
          (es, b1, None) \<Rightarrow> (es, b1)
        | (es, b1, Some rest) \<Rightarrow>
            if rest = [] then (es, b1) else (case process_text rest b1 of (es2, b2) \<Rightarrow> (es @ es2, b2)))
      else let buffer = sb_buffer b @ str in
        case find_text paste_start buffer of
          Some i \<Rightarrow>
            (case emit_sequences (fst (extractCompleteSequences (take i buffer))) b of
               (es0, b1) \<Rightarrow>
                 (case paste_step (drop (i + length paste_start) buffer) (b1\<lparr>sb_pendingKitty := None\<rparr>) of
                    (es, b2, None) \<Rightarrow> (es0 @ es, b2)
                  | (es, b2, Some rest) \<Rightarrow>
                      if rest = [] then (es0 @ es, b2)
                      else (case process_text rest b2 of (es2, b3) \<Rightarrow> (es0 @ es @ es2, b3))))
        | None \<Rightarrow>
            (case extractCompleteSequences buffer of
               (ss, r) \<Rightarrow> (case emit_sequences ss (b\<lparr>sb_buffer := r\<rparr>) of (es, b1) \<Rightarrow> (es, arm_timer b1))))"
  by pat_completeness auto

termination
  by (relation "measure (\<lambda>(str, b). held str b)") (auto simp: held_def dest!: paste_step_rest[OF sym])

declare process_text.simps [simp del]

datatype stdin_input = TextInput jstr | BytesInput "byte list"

text \<open>A single byte above 127 is escape and the byte less 128.\<close>

definition input_text :: "(byte list \<Rightarrow> jstr) \<Rightarrow> stdin_input \<Rightarrow> jstr" where
  "input_text decode i =
     (case i of
        TextInput t \<Rightarrow> t
      | BytesInput bs \<Rightarrow> if length bs = 1 \<and> 127 < unat (hd bs) then [27, of_nat (unat (hd bs) - 128)] else decode bs)"

definition process :: "(byte list \<Rightarrow> jstr) \<Rightarrow> stdin_input \<Rightarrow> stdin_buffer \<Rightarrow> stdin_event list \<times> stdin_buffer" where
  "process decode i b = process_text (input_text decode i) b"

definition flush_buffer :: "stdin_buffer \<Rightarrow> jstr list \<times> stdin_buffer" where
  "flush_buffer b =
     (if sb_buffer b = [] then ([], b\<lparr>sb_timer := None\<rparr>)
      else ([sb_buffer b], b\<lparr>sb_timer := None, sb_buffer := [], sb_pendingKitty := None\<rparr>))"

definition timer_fires :: "stdin_buffer \<Rightarrow> stdin_event list \<times> stdin_buffer" where
  "timer_fires b = (case flush_buffer b of (ss, b1) \<Rightarrow> emit_sequences ss b1)"

definition clear_buffer :: "stdin_buffer \<Rightarrow> stdin_buffer" where
  "clear_buffer b = b\<lparr>sb_timer := None, sb_buffer := [], sb_pasteMode := False, sb_pasteBuffer := [], sb_pendingKitty := None\<rparr>"

section \<open>Nothing is lost in splitting\<close>

text \<open>
  C35. Splitting loses and reorders nothing: the sequences and the remainder are the buffer, no sequence is empty, and the
  remainder is nothing or begins an escape sequence that is not complete.
\<close>

theorem extract_lossless:
  "case extractCompleteSequences buffer of (ss, r) \<Rightarrow>
     concat ss @ r = buffer \<and> list_all (\<lambda>s. s \<noteq> []) ss \<and> (r = [] \<or> hd r = 27 \<and> sequence_end r = None)"
proof (induction buffer rule: extractCompleteSequences.induct)
  case 1
  show ?case by simp
next
  case (2 c cs)
  show ?case
  proof (cases "c = 27")
    case False
    then show ?thesis using 2(3) by (auto simp: extractCompleteSequences.simps(2) split: prod.splits)
  next
    case True
    show ?thesis
    proof (cases "sequence_end (c # cs)")
      case None
      then show ?thesis using True by (simp add: extractCompleteSequences.simps(2))
    next
      case (Some n)
      show ?thesis
      proof (cases "take n (c # cs) = [27, 27] \<and> begins_sequence (drop n (c # cs))")
        case two: True
        then show ?thesis using 2(1)[OF True Some two] Some True
          by (auto simp: extractCompleteSequences.simps(2) split: prod.splits)
      next
        case False
        have "take n (c # cs) \<noteq> []" using sequence_end_bounds[OF Some] by auto
        moreover have "take n (c # cs) @ drop n (c # cs) = c # cs" by (rule append_take_drop_id)
        ultimately show ?thesis using 2(2)[OF True Some False] Some True False
          by (auto simp: extractCompleteSequences.simps(2) split: prod.splits)
      qed
    qed
  qed
qed

section \<open>Chunks do not matter\<close>

lemma find_upt_more:
  assumes "List.find P [a..<b] = Some i" "b \<le> c" "\<And>j. a \<le> j \<Longrightarrow> j < b \<Longrightarrow> Q j = P j"
  shows "List.find Q [a..<c] = Some i"
proof -
  have P: "List.find Q [a..<b] = Some i"
    using assms(1,3) by (auto simp: find_Some_iff)
  have "a \<le> b" using assms(1) by (cases "a \<le> b") (auto simp: upt_conv_Nil)
  then have "[a..<c] = [a..<b] @ [b..<c]" using assms(2) by (metis le_add_diff_inverse upt_add_eq_append)
  then show ?thesis using P by (simp add: find_append)
qed

lemma sequence_end_append: "sequence_end s = Some n \<Longrightarrow> sequence_end (s @ t) = Some n"
  unfolding sequence_end_def by (erule find_upt_more) auto

text \<open>Two escapes in a row.\<close>

definition double_escape :: "jstr \<Rightarrow> bool" where
  "double_escape s \<longleftrightarrow> (\<exists>i. take 2 (drop i s) = [27, 27])"

lemma double_escape_drop: "\<not> double_escape s \<Longrightarrow> \<not> double_escape (drop n s)"
  unfolding double_escape_def by (auto simp: add.commute)

lemma double_escape_tl: "\<not> double_escape (c # cs) \<Longrightarrow> \<not> double_escape cs"
  using double_escape_drop[of "c # cs" 1] by simp

lemma double_escape_take: "\<not> double_escape s \<Longrightarrow> take n s \<noteq> [27, 27]"
proof
  assume no: "\<not> double_escape s" and eq: "take n s = [27, 27]"
  have "length (take n s) = 2" using eq by simp
  then have "take 2 (take n s) = take 2 s" by (simp add: min_def split: if_splits)
  then show False using no eq unfolding double_escape_def by (metis drop0 take_all_iff length_take eq order.refl \<open>length (take n s) = 2\<close>)
qed

text \<open>What was not complete in the first part is split again with the second.\<close>

lemma extract_append:
  "\<not> double_escape a \<Longrightarrow> extractCompleteSequences a = (ss, r) \<Longrightarrow>
    extractCompleteSequences (a @ b) =
      (case extractCompleteSequences (r @ b) of (ss2, r2) \<Rightarrow> (ss @ ss2, r2))"
proof (induction a arbitrary: ss r rule: extractCompleteSequences.induct)
  case 1
  then show ?case by (simp split: prod.splits)
next
  case (2 c cs)
  show ?case
  proof (cases "c = 27")
    case False
    obtain ss1 r1 where e: "extractCompleteSequences cs = (ss1, r1)" by (metis surj_pair)
    then have "ss = [c] # ss1" "r = r1" using 2(5) False by (simp_all add: extractCompleteSequences.simps(2))
    then show ?thesis using 2(3)[OF _ double_escape_tl[OF 2(4)] e] False
      by (simp add: extractCompleteSequences.simps(2) split: prod.splits)
  next
    case True
    show ?thesis
    proof (cases "sequence_end (c # cs)")
      case None
      then have "ss = []" "r = c # cs" using 2(5) True by (simp_all add: extractCompleteSequences.simps(2))
      then show ?thesis by (simp split: prod.splits)
    next
      case (Some n)
      have one: "\<not> (take n (c # cs) = [27, 27] \<and> begins_sequence (drop n (c # cs)))"
        using double_escape_take[OF 2(4)] by simp
      have n: "n \<le> length (c # cs)" using sequence_end_bounds[OF Some] by simp
      obtain ss1 r1 where e: "extractCompleteSequences (drop n (c # cs)) = (ss1, r1)" by (metis surj_pair)
      then have out: "ss = take n (c # cs) # ss1" "r = r1"
        using 2(5) True Some double_escape_take[OF 2(4), of n] by (simp_all add: extractCompleteSequences.simps(2))
      have t: "take n ((c # cs) @ b) = take n (c # cs)" "drop n ((c # cs) @ b) = drop n (c # cs) @ b"
        using n by (cases n; simp)+
      have "extractCompleteSequences ((c # cs) @ b) =
          (case extractCompleteSequences (drop n (c # cs) @ b) of (ss2, r2) \<Rightarrow> (take n (c # cs) # ss2, r2))"
        using sequence_end_append[OF Some, of b] True double_escape_take[OF 2(4), of n] t
        by (simp add: extractCompleteSequences.simps(2))
      then show ?thesis using 2(2)[OF True Some one double_escape_drop[OF 2(4)] e] out by (simp split: prod.splits)
    qed
  qed
qed

fun feed :: "stdin_buffer \<Rightarrow> jstr list \<Rightarrow> stdin_event list \<times> stdin_buffer" where
  "feed b [] = ([], b)"
| "feed b (c # cs) = (case process_text c b of (es, b1) \<Rightarrow> (case feed b1 cs of (es2, b2) \<Rightarrow> (es @ es2, b2)))"

lemma emit_append: "emit_sequences (ss @ ss2) b =
    (case emit_sequences ss b of (es, b1) \<Rightarrow> (case emit_sequences ss2 b1 of (es2, b2) \<Rightarrow> (es @ es2, b2)))"
  by (induction ss arbitrary: b) (simp_all split: prod.splits)

text \<open>Emission reads and changes the pending key only.\<close>

lemma emit_frame:
  "emit_sequences ss (b\<lparr>sb_timer := t, sb_buffer := r\<rparr>) =
    (case emit_sequences ss b of (es, b1) \<Rightarrow> (es, b1\<lparr>sb_timer := t, sb_buffer := r\<rparr>))"
proof (induction ss arbitrary: b)
  case (Cons s ss)
  obtain e b1 where e: "emitDataSequence s b = (e, b1)" by (metis surj_pair)
  then have "emitDataSequence s (b\<lparr>sb_timer := t, sb_buffer := r\<rparr>) = (e, b1\<lparr>sb_timer := t, sb_buffer := r\<rparr>)"
    by (auto simp: emitDataSequence_def split: if_splits)
  then show ?case using Cons.IH[of b1] e by (simp split: prod.splits)
qed simp

lemma emit_paste: "emit_sequences ss b = (es, b1) \<Longrightarrow> sb_pasteMode b1 = sb_pasteMode b \<and> sb_pasteBuffer b1 = sb_pasteBuffer b \<and>
    sb_timeoutMs b1 = sb_timeoutMs b \<and> sb_escapeTimeoutMs b1 = sb_escapeTimeoutMs b"
proof (induction ss arbitrary: b es b1)
  case (Cons s ss)
  obtain e b2 where e: "emitDataSequence s b = (e, b2)" by (metis surj_pair)
  obtain es2 b3 where r: "emit_sequences ss b2 = (es2, b3)" by (metis surj_pair)
  have "b1 = b3" using Cons.prems e r by simp
  then show ?case using Cons.IH[OF r] e by (auto simp: emitDataSequence_def split: if_splits)
qed simp

lemma process_plain:
  assumes "\<not> sb_pasteMode b" "sb_buffer b @ str \<noteq> []" "find_text paste_start (sb_buffer b @ str) = None"
    "extractCompleteSequences (sb_buffer b @ str) = (ss, r)" "emit_sequences ss b = (es, b1)"
  shows "process_text str b = (es, arm_timer (b1\<lparr>sb_timer := None, sb_buffer := r\<rparr>))"
proof -
  have "emit_sequences ss (b\<lparr>sb_timer := None, sb_buffer := r\<rparr>) = (es, b1\<lparr>sb_timer := None, sb_buffer := r\<rparr>)"
    using emit_frame[where ss = ss and b = b and t = None and r = r] assms(5) by simp
  moreover have "\<not> (str = [] \<and> sb_buffer b = [])" using assms(2) by auto
  ultimately show ?thesis using assms(1,3,4) by (subst process_text.simps) (auto simp: Let_def)
qed

lemma no_find: "find_text pat s = None \<longleftrightarrow> (\<forall>i \<le> length s. take (length pat) (drop i s) \<noteq> pat)"
  by (auto simp: find_text_def find_None_iff simp del: upt_Suc)

lemma no_find_suffix: "find_text pat (a @ b) = None \<Longrightarrow> find_text pat b = None"
  unfolding no_find
proof (intro allI impI)
  fix i assume all: "\<forall>i \<le> length (a @ b). take (length pat) (drop i (a @ b)) \<noteq> pat" and i: "i \<le> length b"
  from all[rule_format, of "length a + i"] i show "take (length pat) (drop i b) \<noteq> pat" by simp
qed

lemma no_find_prefix: "find_text pat (a @ b) = None \<Longrightarrow> find_text pat a = None"
  unfolding no_find
proof (intro allI impI notI)
  fix i assume all: "\<forall>i \<le> length (a @ b). take (length pat) (drop i (a @ b)) \<noteq> pat" and i: "i \<le> length a"
    and eq: "take (length pat) (drop i a) = pat"
  have "length pat \<le> length (drop i a)" using arg_cong[OF eq, of length] by simp
  then have "take (length pat) (drop i (a @ b)) = pat" using i eq by simp
  moreover have "i \<le> length (a @ b)" using i by simp
  ultimately show False using all by blast
qed

lemma double_escape_prefix: "\<not> double_escape (a @ b) \<Longrightarrow> \<not> double_escape a"
proof
  assume no: "\<not> double_escape (a @ b)" and "double_escape a"
  then obtain i where eq: "take 2 (drop i a) = [27, 27]" unfolding double_escape_def by blast
  have "2 \<le> length (drop i a)" using arg_cong[OF eq, of length] by simp
  then have "take 2 (drop i (a @ b)) = take 2 (drop i a)" by simp
  then show False using no eq unfolding double_escape_def by metis
qed

lemma arm_frame: "\<not> sb_pasteMode (arm_timer b) \<longleftrightarrow> \<not> sb_pasteMode b" "sb_buffer (arm_timer b) = sb_buffer b"
    "arm_timer b = b\<lparr>sb_timer := sb_timer (arm_timer b), sb_buffer := sb_buffer b\<rparr>"
  by (simp_all add: arm_timer_def)

lemma chunks_from:
  assumes "chunks \<noteq> []" "list_all (\<lambda>c. c \<noteq> []) chunks" "\<not> sb_pasteMode b"
    "\<not> double_escape (sb_buffer b @ concat chunks)" "find_text paste_start (sb_buffer b @ concat chunks) = None"
  shows "feed b chunks = process_text (concat chunks) b"
  using assms
proof (induction chunks arbitrary: b)
  case (Cons c cs)
  show ?case
  proof (cases "cs = []")
    case True
    then show ?thesis by (simp split: prod.splits)
  next
    case False
    let ?w = "sb_buffer b @ c" and ?rest = "concat cs"
    have cne: "c \<noteq> []" "?rest \<noteq> []" using Cons.prems(2) False by (cases cs; auto)+
    have whole: "sb_buffer b @ concat (c # cs) = ?w @ ?rest" by simp
    obtain ss r where e: "extractCompleteSequences ?w = (ss, r)" by (metis surj_pair)
    obtain es b1 where m: "emit_sequences ss b = (es, b1)" by (metis surj_pair)
    define b2 where "b2 = arm_timer (b1\<lparr>sb_timer := None, sb_buffer := r\<rparr>)"
    have first: "process_text c b = (es, b2)"
      unfolding b2_def by (rule process_plain[OF Cons.prems(3) _ _ e m])
        (use cne no_find_prefix Cons.prems(5) whole in \<open>auto simp: whole\<close>)
    have suffix: "?w = concat ss @ r" using extract_lossless[of ?w] e by simp
    have w2: "?w @ ?rest = concat ss @ (r @ ?rest)" using suffix by simp
    have nodouble: "\<not> double_escape ?w" using double_escape_prefix Cons.prems(4) whole by metis
    have nd2: "\<not> double_escape (r @ ?rest)"
    proof -
      have "\<not> double_escape (concat ss @ (r @ ?rest))" using Cons.prems(4) unfolding whole w2 .
      from double_escape_drop[OF this, of "length (concat ss)"] show ?thesis by simp
    qed
    have nf2: "find_text paste_start (r @ ?rest) = None" using Cons.prems(5) unfolding whole w2 by (rule no_find_suffix)
    have mode: "\<not> sb_pasteMode b2" "sb_buffer b2 = r"
      using emit_paste[OF m] Cons.prems(3) by (simp_all add: b2_def arm_frame(1,2))
    have IH: "feed b2 cs = process_text ?rest b2"
      by (rule Cons.IH[OF False _ mode(1)]) (use Cons.prems(2) nd2 nf2 mode(2) in simp_all)
    obtain ss2 r2 where e2: "extractCompleteSequences (r @ ?rest) = (ss2, r2)" by (metis surj_pair)
    obtain es2 b3 where m2: "emit_sequences ss2 b1 = (es2, b3)" by (metis surj_pair)
    have m2': "emit_sequences ss2 b2 = (es2, b3\<lparr>sb_timer := sb_timer b2, sb_buffer := r\<rparr>)"
      using emit_frame[where ss = ss2 and b = b1 and t = "sb_timer b2" and r = r] m2 arm_frame(3)[of "b1\<lparr>sb_timer := None, sb_buffer := r\<rparr>"]
      by (simp add: b2_def)
    have second: "process_text ?rest b2 = (es2, arm_timer (b3\<lparr>sb_timer := None, sb_buffer := r2\<rparr>))"
      using process_plain[OF mode(1) _ _ _ m2', of ?rest r2] e2 nf2 cne mode(2) by simp
    have ext: "extractCompleteSequences (?w @ ?rest) = (ss @ ss2, r2)" using extract_append[OF nodouble e, of ?rest] e2 by simp
    have "emit_sequences (ss @ ss2) b = (es @ es2, b3)" using emit_append[of ss ss2 b] m m2 by simp
    then have "process_text (c @ ?rest) b = (es @ es2, arm_timer (b3\<lparr>sb_timer := None, sb_buffer := r2\<rparr>))"
      using process_plain[OF Cons.prems(3), of "c @ ?rest" "ss @ ss2" r2] ext Cons.prems(5) cne by simp
    then show ?thesis using first IH second by simp
  qed
qed simp

text \<open>
  C16. How input is cut into chunks does not matter when the buffer is not in a paste and the text, with what is
  buffered before it, holds no start of a paste and no two escapes in a row: non-empty chunks then give the same
  events and leave the same state as the whole text at once, wherever escape sequences are cut. (Two escapes in a row
  are the exception shown below; pastes are the next property.)
\<close>

theorem chunks_irrelevant:
  assumes "chunks \<noteq> []" "list_all (\<lambda>c. c \<noteq> []) chunks" "\<not> sb_pasteMode b"
    "\<not> double_escape (sb_buffer b @ concat chunks)" "find_text paste_start (sb_buffer b @ concat chunks) = None"
  shows "feed b chunks = process_text (concat chunks) b"
  by (rule chunks_from[OF assms])

text \<open>The theorem at a mouse report cut twice, before a key.\<close>

theorem chunks_irrelevant_witness:
  "feed (new_stdin_buffer None None) [[27], [91, 60, 51, 53], [59, 50, 48, 59, 53, 109, 97]] =
    process_text [27, 91, 60, 51, 53, 59, 50, 48, 59, 53, 109, 97] (new_stdin_buffer None None) \<and>
   fst (process_text [27, 91, 60, 51, 53, 59, 50, 48, 59, 53, 109, 97] (new_stdin_buffer None None)) =
    [DataEvent [27, 91, 60, 51, 53, 59, 50, 48, 59, 53, 109], DataEvent [97]]"
proof
  let ?b = "new_stdin_buffer None None"
  let ?w = "[27, 91, 60, 51, 53, 59, 50, 48, 59, 53, 109, 97] :: jstr"
  have once: "\<not> double_escape ?w"
  proof
    assume "double_escape ?w"
    then obtain i where i: "take 2 (drop i ?w) = [27, 27]" unfolding double_escape_def by blast
    have "length (take 2 (drop i ?w)) = 2" using i by simp
    then have "i < 12" by simp
    then have "i \<in> set [0..<12]" by simp
    moreover have "list_all (\<lambda>i. take 2 (drop i ?w) \<noteq> [27, 27]) [0..<12]" by code_simp
    ultimately show False using i unfolding list_all_iff by blast
  qed
  have f: "find_text paste_start ?w = None" by code_simp
  have b: "\<not> sb_pasteMode ?b" "sb_buffer ?b = []" by (simp_all add: new_stdin_buffer_def)
  show "feed ?b [[27], [91, 60, 51, 53], [59, 50, 48, 59, 53, 109, 97]] = process_text ?w ?b"
    using chunks_irrelevant[of "[[27], [91, 60, 51, 53], [59, 50, 48, 59, 53, 109, 97]]" ?b] b once f by simp
  show "fst (process_text ?w ?b) = [DataEvent [27, 91, 60, 51, 53, 59, 50, 48, 59, 53, 109], DataEvent [97]]"
    by code_simp
qed

section \<open>Pasted text arrives whole\<close>

lemma find_text_Some_iff: "find_text pat s = Some i \<longleftrightarrow>
    i \<le> length s \<and> take (length pat) (drop i s) = pat \<and> (\<forall>j < i. take (length pat) (drop j s) \<noteq> pat)"
  unfolding find_text_def find_Some_iff by (auto simp del: upt_Suc intro!: exI[of _ i])

text \<open>The end of a paste does not overlap itself.\<close>

lemma paste_end_no_overlap: "k \<in> {1..5} \<Longrightarrow> paste_end ! k \<noteq> paste_end ! 0"
proof -
  assume "k \<in> {1..5}"
  then have "k = 1 \<or> k = 2 \<or> k = 3 \<or> k = 4 \<or> k = 5" by auto
  then show ?thesis by (auto simp: paste_end_def)
qed

lemma paste_end_first:
  assumes "find_text paste_end t = None" "j < length t"
  shows "take 6 (drop j (t @ paste_end)) \<noteq> paste_end"
proof
  have len: "length paste_end = 6" by (simp add: paste_end_def)
  assume eq: "take 6 (drop j (t @ paste_end)) = paste_end"
  show False
  proof (cases "j + 6 \<le> length t")
    case True
    then have "take 6 (drop j t) = paste_end" using eq by simp
    then show False using assms len unfolding no_find by (metis less_imp_le)
  next
    case False
    let ?k = "length t - j"
    have k: "?k \<in> {1..5}" using assms(2) False by auto
    have "paste_end ! ?k = take 6 (drop j (t @ paste_end)) ! ?k" using eq by simp
    also have "\<dots> = paste_end ! 0" using k assms(2) False by (simp add: nth_append)
    finally show False using paste_end_no_overlap[OF k] by simp
  qed
qed

lemma find_paste_end:
  assumes "find_text paste_end t = None" "n \<le> length t + 6"
  shows "find_text paste_end (take n (t @ paste_end)) = (if n = length t + 6 then Some (length t) else None)"
proof (cases "n = length t + 6")
  case True
  have len: "length paste_end = 6" by (simp add: paste_end_def)
  have "find_text paste_end (t @ paste_end) = Some (length t)"
    unfolding find_text_Some_iff using paste_end_first[OF assms(1)] len by simp
  then show ?thesis using True len by simp
next
  case False
  have len: "length paste_end = 6" by (simp add: paste_end_def)
  have "find_text paste_end (take n (t @ paste_end)) = None" unfolding no_find
  proof (intro allI impI notI)
    fix i assume i: "take (length paste_end) (drop i (take n (t @ paste_end))) = paste_end"
    have "length (take 6 (drop i (take n (t @ paste_end)))) = 6" using i len by simp
    then have "6 \<le> length (drop i (take n (t @ paste_end)))" by (metis length_take min.cobounded1)
    also have "\<dots> \<le> n - i" by (metis diff_le_mono length_drop length_take min.cobounded2)
    finally have small: "i + 6 \<le> n" by simp
    have "take 6 (drop i (t @ paste_end)) = paste_end"
    proof -
      have "take 6 (drop i (take n u)) = take 6 (drop i u)" for u :: jstr using small by (simp add: drop_take min_def)
      then show ?thesis using i len by metis
    qed
    moreover have "i < length t" using small assms(2) False by simp
    ultimately show False using paste_end_first[OF assms(1)] by blast
  qed
  then show ?thesis using False by simp
qed

text \<open>The state behind the first \<open>k\<close> units of a paste.\<close>

definition pasting :: "stdin_buffer \<Rightarrow> jstr \<Rightarrow> nat \<Rightarrow> stdin_buffer" where
  "pasting b t k =
     (if k = 0 then b
      else if k < 6 then arm_timer (b\<lparr>sb_timer := None, sb_buffer := take k paste_start\<rparr>)
      else if k < length t + 12
      then b\<lparr>sb_timer := None, sb_pasteMode := True, sb_pasteBuffer := take (k - 6) (t @ paste_end), sb_pendingKitty := None\<rparr>
      else b\<lparr>sb_timer := None, sb_pendingKitty := None\<rparr>)"

lemma paste_start_prefix:
  assumes "0 < j" "j < 6"
  shows "find_text paste_start (take j paste_start) = None"
    "extractCompleteSequences (take j paste_start) = ([], take j paste_start)"
proof -
  have j: "j = 1 \<or> j = 2 \<or> j = 3 \<or> j = 4 \<or> j = 5" using assms by auto
  have "list_all (\<lambda>j. find_text paste_start (take j paste_start) = None \<and>
      extractCompleteSequences (take j paste_start) = ([], take j paste_start)) [1, 2, 3, 4, 5]"
    by code_simp
  then show "find_text paste_start (take j paste_start) = None"
    "extractCompleteSequences (take j paste_start) = ([], take j paste_start)" using j by auto
qed

lemma pasting_early:
  assumes "\<not> sb_pasteMode b" "sb_buffer b = []" "k < 6"
  shows "sb_buffer (pasting b t k) = take k paste_start" "\<not> sb_pasteMode (pasting b t k)"
    "pasting b t k = b\<lparr>sb_timer := sb_timer (pasting b t k), sb_buffer := take k paste_start\<rparr>"
  using assms by (simp_all add: pasting_def arm_timer_def)

lemma pasting_start:
  assumes "\<not> sb_pasteMode b" "sb_buffer b = []" "k < j" "j < 6"
  shows "process_text (drop k (take j (paste_start @ t @ paste_end))) (pasting b t k) = ([], pasting b t j)"
proof -
  have len: "length paste_start = 6" by (simp add: paste_start_def)
  have j: "take j (paste_start @ t @ paste_end) = take j paste_start" using assms(4) len by simp
  have k: "take k paste_start = take k (take j paste_start)" using assms(3) by (simp add: min_def)
  have whole: "sb_buffer (pasting b t k) @ drop k (take j (paste_start @ t @ paste_end)) = take j paste_start"
  proof -
    have "sb_buffer (pasting b t k) = take k (take j paste_start)"
      by (rule trans[OF pasting_early(1) k]) (use assms in simp_all)
    then show ?thesis unfolding j by (metis append_take_drop_id)
  qed
  have j0: "0 < j" "j < 6" using assms(3,4) by auto
  have ne: "take j paste_start \<noteq> []" using j0 len by (metis length_0_conv take_eq_Nil less_numeral_extra(3) zero_neq_numeral)
  have "process_text (drop k (take j (paste_start @ t @ paste_end))) (pasting b t k) =
      ([], arm_timer ((pasting b t k)\<lparr>sb_timer := None, sb_buffer := take j paste_start\<rparr>))"
    by (rule process_plain[where ss = "[]"]) (use paste_start_prefix[OF j0] whole ne pasting_early(2)[of b k t] assms in simp_all)
  also have "(pasting b t k)\<lparr>sb_timer := None, sb_buffer := take j paste_start\<rparr> = b\<lparr>sb_timer := None, sb_buffer := take j paste_start\<rparr>"
    by (subst pasting_early(3)) (use assms in simp_all)
  finally show ?thesis using j0 by (simp add: pasting_def)
qed

lemma paste_step_prefix:
  assumes "find_text paste_end t = None" "n \<le> length t + 6"
  shows "paste_step (take n (t @ paste_end)) b =
    (if n = length t + 6
     then ([PasteEvent t], b\<lparr>sb_pasteMode := False, sb_pasteBuffer := [], sb_buffer := [], sb_pendingKitty := None\<rparr>, Some [])
     else ([], b\<lparr>sb_pasteMode := True, sb_pasteBuffer := take n (t @ paste_end), sb_buffer := []\<rparr>, None))"
  using find_paste_end[OF assms] by (simp add: paste_step_def paste_end_def)

lemma pasting_opens:
  assumes "\<not> sb_pasteMode b" "sb_buffer b = []" "sb_pasteBuffer b = []" "find_text paste_end t = None"
    "k < 6" "6 \<le> j" "j \<le> length t + 12"
  shows "process_text (drop k (take j (paste_start @ t @ paste_end))) (pasting b t k) =
    (if j = length t + 12 then [PasteEvent t] else [], pasting b t j)"
proof -
  have len: "length paste_start = 6" by (simp add: paste_start_def)
  let ?w = "paste_start @ t @ paste_end" and ?p = "pasting b t k"
  have "take k paste_start = take k (take j ?w)" using assms(5,6) len by (simp add: min_def)
  then have whole: "sb_buffer ?p @ drop k (take j ?w) = take j ?w"
    unfolding pasting_early(1)[OF assms(1,2,5), of t] by (metis append_take_drop_id)
  have split: "take j ?w = paste_start @ take (j - 6) (t @ paste_end)" using assms(6) len by simp
  then have nonempty: "take j ?w \<noteq> []" using len by auto
  have find: "find_text paste_start (take j ?w) = Some 0" unfolding find_text_Some_iff split by (simp add: len)
  define str where "str = drop k (take j ?w)"
  define buf where "buf = take j ?w"
  have pb: "sb_buffer ?p = take k paste_start" using pasting_early(1)[OF assms(1,2,5)] .
  have whole': "take k paste_start @ str = buf" using whole unfolding str_def buf_def pb .
  have ne: "\<not> (str = [] \<and> sb_buffer ?p = [])" using whole' nonempty unfolding buf_def[symmetric] pb by auto
  have p: "?p\<lparr>sb_timer := None\<rparr> = b\<lparr>sb_timer := None, sb_buffer := take k paste_start\<rparr>"
    by (subst pasting_early(3)) (use assms in simp_all)
  have step: "paste_step (drop 6 (take j ?w)) (b\<lparr>sb_timer := None, sb_buffer := take k paste_start, sb_pendingKitty := None\<rparr>) =
    (if j = length t + 12
     then ([PasteEvent t], b\<lparr>sb_timer := None, sb_pendingKitty := None\<rparr>, Some [])
     else ([], b\<lparr>sb_timer := None, sb_pasteMode := True, sb_pasteBuffer := take (j - 6) (t @ paste_end), sb_pendingKitty := None\<rparr>, None))"
    using paste_step_prefix[OF assms(4), of "j - 6"] assms split len by auto
  have mode: "\<not> sb_pasteMode ?p" using pasting_early(2)[of b k t] assms by simp
  have "process_text str ?p =
      (case paste_step (drop 6 buf) (b\<lparr>sb_timer := None, sb_buffer := take k paste_start, sb_pendingKitty := None\<rparr>) of
         (es, b2, None) \<Rightarrow> (es, b2)
       | (es, b2, Some rest) \<Rightarrow>
           if rest = [] then (es, b2) else (case process_text rest b2 of (es2, b3) \<Rightarrow> (es @ es2, b3)))"
    using ne whole' find[folded buf_def] len assms(1)
    by (subst process_text.simps, unfold p) (auto simp: Let_def pb split: prod.splits option.splits)
  then show ?thesis using step[folded buf_def] assms(6,7) unfolding str_def[symmetric] by (simp add: pasting_def)
qed

lemma pasting_continues:
  assumes "\<not> sb_pasteMode b" "sb_buffer b = []" "sb_pasteBuffer b = []" "find_text paste_end t = None"
    "6 \<le> k" "k < j" "j \<le> length t + 12"
  shows "process_text (drop k (take j (paste_start @ t @ paste_end))) (pasting b t k) =
    (if j = length t + 12 then [PasteEvent t] else [], pasting b t j)"
proof -
  have len: "length paste_start = 6" "length paste_end = 6" by (simp_all add: paste_start_def paste_end_def)
  let ?w = "paste_start @ t @ paste_end" and ?p = "pasting b t k"
  have p: "?p = b\<lparr>sb_timer := None, sb_pasteMode := True, sb_pasteBuffer := take (k - 6) (t @ paste_end), sb_pendingKitty := None\<rparr>"
    using assms(5-7) by (simp add: pasting_def)
  have str: "drop k (take j ?w) = drop (k - 6) (take (j - 6) (t @ paste_end))" using assms(5,6) len by simp
  have "take (k - 6) (t @ paste_end) = take (k - 6) (take (j - 6) (t @ paste_end))" using assms(6) by (simp add: min_def)
  then have whole: "take (k - 6) (t @ paste_end) @ drop k (take j ?w) = take (j - 6) (t @ paste_end)"
    unfolding str by (metis append_take_drop_id)
  have "length (drop k (take j ?w)) = j - k" using assms(5-7) len by simp
  then have ne: "drop k (take j ?w) \<noteq> []" using assms(6) by auto
  define str where "str = drop k (take j ?w)"
  define buf where "buf = take (j - 6) (t @ paste_end)"
  have str_ne: "str \<noteq> []" unfolding str_def by (rule ne)
  have whole': "sb_pasteBuffer ?p @ sb_buffer ?p @ str = buf" "sb_pasteMode ?p" "?p\<lparr>sb_timer := None\<rparr> = ?p"
    using whole unfolding p str_def buf_def by (simp_all add: assms(2))
  have step: "paste_step buf ?p =
    (if j = length t + 12
     then ([PasteEvent t], b\<lparr>sb_timer := None, sb_pendingKitty := None\<rparr>, Some [])
     else ([], b\<lparr>sb_timer := None, sb_pasteMode := True, sb_pasteBuffer := take (j - 6) (t @ paste_end), sb_pendingKitty := None\<rparr>, None))"
    using paste_step_prefix[OF assms(4), of "j - 6"] assms p unfolding buf_def by auto
  have "process_text str ?p =
      (case paste_step buf ?p of
         (es, b2, None) \<Rightarrow> (es, b2)
       | (es, b2, Some rest) \<Rightarrow>
           if rest = [] then (es, b2) else (case process_text rest b2 of (es2, b3) \<Rightarrow> (es @ es2, b3)))"
    using str_ne whole' by (subst process_text.simps) (auto simp: Let_def split: prod.splits option.splits)
  then show ?thesis using step assms(5-7) unfolding str_def[symmetric] by (simp add: pasting_def)
qed

lemma pasting_step:
  assumes "\<not> sb_pasteMode b" "sb_buffer b = []" "sb_pasteBuffer b = []" "find_text paste_end t = None"
    "k < j" "j \<le> length t + 12"
  shows "process_text (drop k (take j (paste_start @ t @ paste_end))) (pasting b t k) =
    (if j = length t + 12 then [PasteEvent t] else [], pasting b t j)"
proof (cases "j < 6")
  case True
  then show ?thesis using pasting_start[OF assms(1,2,5)] by simp
next
  case False
  then show ?thesis using pasting_opens[OF assms(1-4)] pasting_continues[OF assms(1-4)] assms(5,6)
    by (cases "k < 6") simp_all
qed

lemma pasting_chunks:
  assumes "\<not> sb_pasteMode b" "sb_buffer b = []" "sb_pasteBuffer b = []" "find_text paste_end t = None"
  shows "k < length t + 12 \<Longrightarrow> concat chunks = drop k (paste_start @ t @ paste_end) \<Longrightarrow> list_all (\<lambda>c. c \<noteq> []) chunks \<Longrightarrow>
    feed (pasting b t k) chunks = ([PasteEvent t], pasting b t (length t + 12))"
proof (induction chunks arbitrary: k)
  case Nil
  then have "length (drop k (paste_start @ t @ paste_end)) = 0" by (metis concat.simps(1) list.size(3))
  then show ?case using Nil.prems(1) by (simp add: paste_start_def paste_end_def)
next
  case (Cons c cs)
  define w where "w = paste_start @ t @ paste_end"
  have len: "length w = length t + 12" by (simp add: w_def paste_start_def paste_end_def)
  let ?j = "k + length c"
  have w: "c @ concat cs = drop k w" using Cons.prems(2) by (simp add: w_def)
  have "length (c @ concat cs) = length w - k" unfolding w by simp
  then have j: "?j \<le> length t + 12" "?j + length (concat cs) = length t + 12" using len Cons.prems(1) by auto
  have "c = take (length c) (drop k w)" unfolding w[symmetric] by simp
  then have c: "c = drop k (take ?j w)" by (simp add: drop_take)
  have rest: "concat cs = drop ?j w" using arg_cong[OF w, of "drop (length c)"] by (simp add: add.commute)
  have less: "k < ?j" using Cons.prems(3) by simp
  have step: "process_text c (pasting b t k) = (if ?j = length t + 12 then [PasteEvent t] else [], pasting b t ?j)"
    using pasting_step[OF assms less j(1)] c[unfolded w_def] by simp
  show ?case
  proof (cases "cs = []")
    case True
    then show ?thesis using step j by simp
  next
    case False
    then have "0 < length (concat cs)" using Cons.prems(3) by (cases cs) auto
    then have "?j < length t + 12" using j(2) by linarith
    then show ?thesis using Cons.IH[OF _ rest[unfolded w_def]] Cons.prems(3) step by simp
  qed
qed

text \<open>
  C17. A bracketed paste arrives whole: however the text between the markers is cut into chunks, the markers included, one
  paste event with exactly the text is emitted, and the buffer is as it was before, with no timer armed.
\<close>

theorem paste_arrives:
  assumes "\<not> sb_pasteMode b" "sb_buffer b = []" "sb_pasteBuffer b = []" "find_text paste_end t = None"
    "concat chunks = paste_start @ t @ paste_end" "list_all (\<lambda>c. c \<noteq> []) chunks"
  shows "feed b chunks = ([PasteEvent t], b\<lparr>sb_timer := None, sb_pendingKitty := None\<rparr>)"
  using pasting_chunks[OF assms(1-4), of 0 chunks] assms(5,6) by (simp add: pasting_def)

text \<open>The theorem at a paste cut inside both markers.\<close>

theorem paste_arrives_witness:
  "feed (new_stdin_buffer None None) [[27, 91], [50, 48, 48, 126, 104], [105, 27, 91, 50, 48, 49], [126]] =
    ([PasteEvent [104, 105]], new_stdin_buffer None None)"
proof -
  have f: "find_text paste_end [104, 105] = None" by code_simp
  show ?thesis
    using paste_arrives[of "new_stdin_buffer None None" "[104, 105]" "[[27, 91], [50, 48, 48, 126, 104], [105, 27, 91, 50, 48, 49], [126]]"] f
    by (simp add: new_stdin_buffer_def paste_start_def paste_end_def)
qed

section \<open>Where input is lost or misread\<close>

text \<open>What stands before a paste and is not a complete sequence is dropped, so an escape key right before a paste is lost.\<close>

lemma escape_before_paste_lost:
  "process_text (27 # paste_start @ [104] @ paste_end) (new_stdin_buffer None None) = ([PasteEvent [104]], new_stdin_buffer None None)"
  by code_simp

text \<open>
  Two escapes at the end of a chunk are one meta key, and a sequence that the second would begin is read as text, while in
  one chunk they are an escape key and the sequence.
\<close>

lemma double_escape_cut:
  "fst (feed (new_stdin_buffer None None) [[27, 27], [91, 65]]) = [DataEvent [27, 27], DataEvent [91], DataEvent [65]]"
  "fst (process_text [27, 27, 91, 65] (new_stdin_buffer None None)) = [DataEvent [27], DataEvent [27, 91, 65]]"
  by code_simp+

end
