(* ===== verification/LaneTypes.thy ===== *)
theory LaneTypes
  imports Compaction MessageFrames
begin

text \<open>
  The durable data of a lane (\<open>packages/agent/src/harness/session/types.ts\<close>): its configuration and inbox, the operation
  it works on with its intent, and the states an operation goes through, one constructor for each; and what the running
  process keeps of it (\<open>harness/runtime/types.ts\<close>). Stream options and tool arguments are JSON values.
\<close>

section \<open>Lanes\<close>

record model_identity =
  mi_provider :: jstr
  mi_modelId :: jstr

record lane_configuration =
  lc_model :: model_identity
  lc_thinkingLevel :: jstr
  lc_activeToolNames :: "jstr list"

datatype inbox_kind = SteerItem | FollowUpItem | NextRunItem | WriteItem

record inbox_item =
  in_entryId :: jstr
  in_kind :: inbox_kind

datatype pending_entry =
    PendingMessage agent_message
  | PendingCustom jstr "json option"

text \<open>\<open>LaneState\<close> of the storage.\<close>

record durable_lane =
  dl_currentOperationId :: "jstr option"
  dl_lastOperationId :: "jstr option"
  dl_inbox :: "inbox_item list"

section \<open>Operations\<close>

datatype operation_intent =
    RunIntent "jstr list"
  | CompactionIntent "jstr option"
  | NavigationIntent "jstr option" bool "jstr option" "jstr option"

datatype operation_kind = RunKind | CompactionKind | NavigationKind

fun intent_kind :: "operation_intent \<Rightarrow> operation_kind" where
  "intent_kind (RunIntent ps) = RunKind"
| "intent_kind (CompactionIntent c) = CompactionKind"
| "intent_kind (NavigationIntent t s l c) = NavigationKind"

record operation_meta =
  me_operationId :: jstr
  me_lane :: jstr
  me_sourceTipId :: "jstr option"
  me_startedAt :: int
  me_intent :: operation_intent

datatype operation_control = RunningControl | CancelRequested int

record operation_error =
  er_code :: jstr
  er_message :: jstr
  er_details :: "json option"

datatype terminal_status = CompletedStatus | DeclinedStatus | AbortedStatus | FailedStatus

record operation_result =
  or_operationId :: jstr
  or_kind :: operation_kind
  or_status :: terminal_status
  or_error :: "operation_error option"
  or_fromTipId :: "jstr option"
  or_tipId :: "jstr option"
  or_startedAt :: int
  or_endedAt :: int

section \<open>The parts of a state\<close>

datatype continuation =
    NeedAssistant bool
  | MayFinish bool

record checkpoint_data =
  ck_continuation :: continuation
  ck_triggerEntryId :: jstr

record retry_policy =
  rp_maxAttempts :: int
  rp_baseDelayMs :: int
  rp_maxAgentDelayMs :: int

record generation_context =
  gc_stepId :: jstr
  gc_triggerEntryId :: jstr
  gc_configuration :: lane_configuration
  gc_streamOptions :: json
  gc_retryPolicy :: retry_policy
  gc_overflowRecoveryUsed :: bool

datatype call_replay = NeverReplay | SafeReplay

datatype call_status =
    Planned
  | EffectPending call_replay
  | OutcomeReady bool
  | CallCompleted bool

record batch_call =
  bc_sourceIndex :: nat
  bc_resultEntryId :: jstr
  bc_status :: call_status

record tool_batch =
  tb_assistantEntryId :: jstr
  tb_configuration :: lane_configuration
  tb_turnId :: jstr
  tb_calls :: "batch_call list"

record summary_context =
  sx_resultEntryId :: jstr
  sx_configuration :: lane_configuration
  sx_streamOptions :: json
  sx_retryPolicy :: retry_policy

datatype mode = AllAtOnce | OneByOne

record run_settings =
  rs_compaction :: compaction_settings
  rs_steeringMode :: mode
  rs_followUpMode :: mode
  rs_sequential :: bool

text \<open>\<open>OperationScope\<close>: what every state of an operation carries.\<close>

record operation_scope =
  sc_control :: operation_control
  sc_settings :: run_settings
  sc_latestAssistantEntryId :: "jstr option"

record retry_wait =
  rw_nextAttempt :: int
  rw_notBefore :: int
  rw_errorMessage :: jstr

datatype result_boundary =
    ResumeCheckpoint checkpoint_data
  | FinishBoundary
  | CommitNavigation jstr "jstr option"

datatype compaction_reason = ManualReason | ThresholdReason | OverflowReason

record summary_task =
  ta_taskId :: jstr
  ta_reason :: "compaction_reason option"
  ta_customInstructions :: "jstr option"
  ta_boundary :: result_boundary

record summary_request =
  rq_index :: nat
  rq_usageId :: jstr

record deferred_scope =
  df_stepId :: jstr
  df_sourceEntryId :: jstr
  df_poll :: nat
  df_configuration :: lane_configuration
  df_streamOptions :: json

section \<open>The states\<close>

text \<open>
  \<open>OperationState\<close> is a scope and one of thirteen leaves. A response that is made ready at a boundary keeps the fields of the
  state before it, which nothing reads: the last argument is the leaf whose fields those are.
\<close>

datatype operation_leaf =
    Starting
  | Checkpoint checkpoint_data
  | AssistantReady generation_context int "operation_leaf option"
  | AssistantEffectPending generation_context int jstr jstr int int
  | AssistantRetryWait generation_context retry_wait
  | ToolsLeaf tool_batch
  | DeferredSuspended deferred_scope
  | DeferredEffectPending deferred_scope jstr jstr
  | SummaryDeciding summary_task
  | SummaryReady summary_task summary_context int
  | SummaryEffectPending summary_task summary_context int "summary_request option" "jstr list"
  | SummaryRetryWait summary_task summary_context retry_wait
  | NavigationReadyToCommit "jstr option" "jstr option"

record operation_state =
  os_scope :: operation_scope
  os_leaf :: operation_leaf

record operation =
  op_meta :: operation_meta
  op_state :: operation_state

text \<open>\<open>LaneState\<close> of the process: the projection that the lane owns.\<close>

record lane_state =
  la_tipId :: "jstr option"
  la_configuration :: lane_configuration
  la_inbox :: "inbox_item list"
  la_lastOperationId :: "jstr option"
  la_operation :: "operation option"

definition operation_id :: "operation \<Rightarrow> jstr" where
  "operation_id p = me_operationId (op_meta p)"

definition cancelled :: "operation_state \<Rightarrow> bool" where
  "cancelled s \<longleftrightarrow> sc_control (os_scope s) \<noteq> RunningControl"

text \<open>The task of a summary state.\<close>

fun leaf_task :: "operation_leaf \<Rightarrow> summary_task option" where
  "leaf_task (SummaryDeciding t) = Some t"
| "leaf_task (SummaryReady t c n) = Some t"
| "leaf_task (SummaryEffectPending t c n r us) = Some t"
| "leaf_task (SummaryRetryWait t c w) = Some t"
| "leaf_task l = None"

section \<open>Preparations\<close>

datatype structural_preparation =
    CompactionPreparation compaction_preparation
  | BranchPreparation "agent_message list" file_operations int

end
