(* ===== verification/LaneStore.thy ===== *)
theory LaneStore
  imports LaneTypes AgentTypes
begin

text \<open>
  The storage as a lane sees it, and the restoring of a lane from it (\<open>harness/runtime/restore.ts\<close>). Entries and usage are
  those of SessionTypes; values are kept under the address functions of \<open>session/values.ts\<close> with their arguments, each of
  the type the address names. The ids in an address contain no colon, so addresses with other arguments are other keys.
\<close>

section \<open>Addresses, values and writes\<close>

datatype lane_key =
    BranchTipKey jstr
  | LaneConfigKey jstr
  | LaneStateKey jstr
  | ResultKey jstr
  | MetaKey jstr
  | StateKey jstr
  | ToolArgsKey jstr jstr nat
  | ToolMemoKey jstr jstr jstr
  | PreparationKey jstr jstr
  | PendingKey jstr
  | ToolOutputKey jstr jstr
  | LabelKey jstr

datatype lane_value =
    TipValue "jstr option"
  | ConfigValue lane_configuration
  | LaneValue durable_lane
  | ResultValue operation_result
  | MetaValue operation_meta
  | StateValue operation_state
  | ArgsValue json
  | MemoValue json
  | PreparationValue structural_preparation
  | PendingValue pending_entry
  | OutputValue tool_output
  | LabelValue jstr

datatype lane_write =
    InsertEntry new_entry
  | InsertUsage "number new_usage_row"
  | SetValue lane_key lane_value
  | DeleteValue lane_key
  | AppendFrame jstr jstr frame
  | DeleteFrames jstr jstr

text \<open>The rows stand for the totals, which are their sum.\<close>

record lane_store =
  sr_entries :: "(jstr \<times> session_entry) list"
  sr_usage :: "number new_usage_row list"
  sr_values :: "lane_key \<rightharpoonup> lane_value"
  sr_keys :: "lane_key list"
  sr_frames :: "jstr \<times> jstr \<Rightarrow> frame list"
  sr_nextSeq :: int

definition stored_ids :: "lane_store \<Rightarrow> jstr set" where
  "stored_ids st = fst ` set (sr_entries st) \<union> row_id ` set (sr_usage st)"

definition write_entry :: "new_entry \<Rightarrow> int \<Rightarrow> int \<Rightarrow> lane_store \<Rightarrow> session_error + lane_store" where
  "write_entry e q now st =
     (if entry_id e \<in> stored_ids st then Inl (DuplicateId (entry_id e))
      else case entry_parentId e of
        Some p \<Rightarrow>
          if p \<in> fst ` set (sr_entries st)
          then Inr (st\<lparr>sr_entries := sr_entries st @ [(entry_id e, materializeCommittedEntry e q now)]\<rparr>)
          else Inl (MissingParent p)
      | None \<Rightarrow> Inr (st\<lparr>sr_entries := sr_entries st @ [(entry_id e, materializeCommittedEntry e q now)]\<rparr>))"

definition store_write :: "int \<Rightarrow> lane_store \<Rightarrow> lane_write \<times> int \<Rightarrow> session_error + lane_store" where
  "store_write now st wq =
     (case wq of (w, q) \<Rightarrow>
        case w of
          InsertEntry e \<Rightarrow> write_entry e q now st
        | InsertUsage r \<Rightarrow>
            if row_id r \<in> stored_ids st then Inl (DuplicateId (row_id r)) else Inr (st\<lparr>sr_usage := sr_usage st @ [r]\<rparr>)
        | SetValue k v \<Rightarrow> Inr (st\<lparr>sr_values := (sr_values st)(k \<mapsto> v), sr_keys := k # removeAll k (sr_keys st)\<rparr>)
        | DeleteValue k \<Rightarrow> Inr (st\<lparr>sr_values := (sr_values st)(k := None), sr_keys := removeAll k (sr_keys st)\<rparr>)
        | AppendFrame p r f \<Rightarrow> Inr (st\<lparr>sr_frames := (sr_frames st)((p, r) := sr_frames st (p, r) @ [f])\<rparr>)
        | DeleteFrames p r \<Rightarrow> Inr (st\<lparr>sr_frames := (sr_frames st)((p, r) := [])\<rparr>))"

definition write_seqs :: "lane_store \<Rightarrow> lane_write list \<Rightarrow> int list" where
  "write_seqs st ws = map (\<lambda>i. sr_nextSeq st + int i) [0..<length ws]"

text \<open>A commit takes effect as a whole or not at all.\<close>

definition store_commit :: "lane_write list \<Rightarrow> int \<Rightarrow> lane_store \<Rightarrow> session_error + commit_result \<times> lane_store" where
  "store_commit ws now st =
     bindE (foldE (store_write now) st (zip ws (write_seqs st ws))) (\<lambda>st1.
     Inr (\<lparr>result_firstSeq = sr_nextSeq st, result_seqs = write_seqs st ws, result_timestamp = now\<rparr>,
          st1\<lparr>sr_nextSeq := sr_nextSeq st + int (length ws)\<rparr>))"

section \<open>Reading\<close>

definition get_tip :: "lane_store \<Rightarrow> jstr \<Rightarrow> jstr option option" where
  "get_tip st l = (case sr_values st (BranchTipKey l) of Some (TipValue t) \<Rightarrow> Some t | _ \<Rightarrow> None)"

definition get_config :: "lane_store \<Rightarrow> jstr \<Rightarrow> lane_configuration option" where
  "get_config st l = (case sr_values st (LaneConfigKey l) of Some (ConfigValue c) \<Rightarrow> Some c | _ \<Rightarrow> None)"

definition get_lane :: "lane_store \<Rightarrow> jstr \<Rightarrow> durable_lane option" where
  "get_lane st l = (case sr_values st (LaneStateKey l) of Some (LaneValue d) \<Rightarrow> Some d | _ \<Rightarrow> None)"

definition get_meta :: "lane_store \<Rightarrow> jstr \<Rightarrow> operation_meta option" where
  "get_meta st p = (case sr_values st (MetaKey p) of Some (MetaValue m) \<Rightarrow> Some m | _ \<Rightarrow> None)"

definition get_state :: "lane_store \<Rightarrow> jstr \<Rightarrow> operation_state option" where
  "get_state st p = (case sr_values st (StateKey p) of Some (StateValue s) \<Rightarrow> Some s | _ \<Rightarrow> None)"

definition get_result :: "lane_store \<Rightarrow> jstr \<Rightarrow> operation_result option" where
  "get_result st p = (case sr_values st (ResultKey p) of Some (ResultValue r) \<Rightarrow> Some r | _ \<Rightarrow> None)"

definition get_pending :: "lane_store \<Rightarrow> jstr \<Rightarrow> pending_entry option" where
  "get_pending st i = (case sr_values st (PendingKey i) of Some (PendingValue p) \<Rightarrow> Some p | _ \<Rightarrow> None)"

definition get_preparation :: "lane_store \<Rightarrow> jstr \<Rightarrow> jstr \<Rightarrow> structural_preparation option" where
  "get_preparation st p t =
     (case sr_values st (PreparationKey p t) of Some (PreparationValue v) \<Rightarrow> Some v | _ \<Rightarrow> None)"

definition get_args :: "lane_store \<Rightarrow> jstr \<Rightarrow> jstr \<Rightarrow> nat \<Rightarrow> json option" where
  "get_args st p t i = (case sr_values st (ToolArgsKey p t i) of Some (ArgsValue a) \<Rightarrow> Some a | _ \<Rightarrow> None)"

definition get_output :: "lane_store \<Rightarrow> jstr \<Rightarrow> jstr \<Rightarrow> tool_output option" where
  "get_output st p i = (case sr_values st (ToolOutputKey p i) of Some (OutputValue v) \<Rightarrow> Some v | _ \<Rightarrow> None)"

definition get_entry :: "lane_store \<Rightarrow> jstr \<Rightarrow> session_entry option" where
  "get_entry st i = map_of (sr_entries st) i"

text \<open>The scan of a branch down to its last compaction, oldest first; \<open>None\<close> when a parent is missing.\<close>

definition bounded_path :: "lane_store \<Rightarrow> jstr \<Rightarrow> session_entry list option" where
  "bounded_path st tip =
     (case get_entry st tip of
        None \<Rightarrow> None
      | Some e \<Rightarrow>
          (case branch_walk (Suc (length (sr_entries st))) (sr_entries st) e of
             Some (Inr path) \<Rightarrow> Some (rev (until_stop (\<lambda>x. entry_type x = CompactionType) path))
           | _ \<Rightarrow> None))"

section \<open>Restoring a lane\<close>

datatype lane_fault =
    MissingTip jstr
  | MissingConfig jstr
  | MissingLaneState jstr
  | MissingMeta jstr
  | MissingState jstr
  | MetaNamesOther jstr jstr
  | MetaOfLane jstr jstr jstr
  | IntentMismatch jstr
  | MissingPayload jstr
  | PayloadNotMessage jstr
  | PendingAssistant jstr
  | StorageFault session_error
  | NoOperation
  | CorruptPath
  | InvariantFault jstr

definition stateMatchesIntent :: "operation_intent \<Rightarrow> operation_state \<Rightarrow> bool" where
  "stateMatchesIntent intent s =
     (case intent of
        CompactionIntent c \<Rightarrow>
          (case leaf_task (os_leaf s) of Some t \<Rightarrow> ta_boundary t = FinishBoundary | None \<Rightarrow> False)
      | NavigationIntent target summarize label instructions \<Rightarrow>
          (case os_leaf s of
             NavigationReadyToCommit t l \<Rightarrow> \<not> summarize \<and> t = target \<and> l = label
           | leaf \<Rightarrow>
               summarize \<and>
               (case leaf_task leaf of
                  Some t \<Rightarrow>
                    (case ta_boundary t of
                       CommitNavigation i l \<Rightarrow> Some i = target \<and> l = label \<and> ta_customInstructions t = instructions
                     | _ \<Rightarrow> False)
                | None \<Rightarrow> False))
      | RunIntent prompts \<Rightarrow>
          (case os_leaf s of
             NavigationReadyToCommit t l \<Rightarrow> False
           | leaf \<Rightarrow>
               (case leaf_task leaf of
                  Some t \<Rightarrow> (case ta_boundary t of ResumeCheckpoint c \<Rightarrow> True | _ \<Rightarrow> False)
                | None \<Rightarrow> True)))"

datatype classified =
    AbsentLane
  | BranchOnly "jstr option"
  | ConfiguredLane "jstr option" lane_configuration durable_lane

definition classifyLaneStorage ::
    "jstr \<Rightarrow> jstr option option \<Rightarrow> lane_configuration option \<Rightarrow> durable_lane option \<Rightarrow> lane_fault + classified" where
  "classifyLaneStorage lane tip configuration state =
     (case tip of
        None \<Rightarrow> if configuration = None \<and> state = None then Inr AbsentLane else Inl (MissingTip lane)
      | Some t \<Rightarrow>
          if configuration = None \<and> state = None then Inr (BranchOnly t)
          else case configuration of
            None \<Rightarrow> Inl (MissingConfig lane)
          | Some c \<Rightarrow> (case state of None \<Rightarrow> Inl (MissingLaneState lane) | Some d \<Rightarrow> Inr (ConfiguredLane t c d)))"

definition readLaneStorage :: "lane_store \<Rightarrow> jstr \<Rightarrow> lane_fault + classified" where
  "readLaneStorage st lane = classifyLaneStorage lane (get_tip st lane) (get_config st lane) (get_lane st lane)"

definition restore_operation :: "lane_store \<Rightarrow> jstr \<Rightarrow> jstr \<Rightarrow> lane_fault + operation" where
  "restore_operation st lane p =
     (case get_meta st p of
        None \<Rightarrow> Inl (MissingMeta p)
      | Some m \<Rightarrow>
          (case get_state st p of
             None \<Rightarrow> Inl (MissingState p)
           | Some s \<Rightarrow>
               if me_operationId m \<noteq> p then Inl (MetaNamesOther p (me_operationId m))
               else if me_lane m \<noteq> lane then Inl (MetaOfLane p (me_lane m) lane)
               else if \<not> stateMatchesIntent (me_intent m) s then Inl (IntentMismatch p)
               else Inr \<lparr>op_meta = m, op_state = s\<rparr>))"

definition restoreLaneState ::
    "lane_store \<Rightarrow> jstr \<Rightarrow> jstr option \<Rightarrow> lane_configuration \<Rightarrow> durable_lane \<Rightarrow> lane_fault + lane_state" where
  "restoreLaneState st lane tip configuration d =
     bindE (case dl_currentOperationId d of
         None \<Rightarrow> Inr None
       | Some p \<Rightarrow> bindE (restore_operation st lane p) (\<lambda>x. Inr (Some x))) (\<lambda>p.
     Inr \<lparr>la_tipId = tip, la_configuration = configuration, la_inbox = dl_inbox d,
         la_lastOperationId = dl_lastOperationId d, la_operation = p\<rparr>)"

definition restoreLane :: "lane_store \<Rightarrow> jstr \<Rightarrow> lane_fault + lane_state" where
  "restoreLane st lane =
     bindE (readLaneStorage st lane) (\<lambda>c.
       case c of
         AbsentLane \<Rightarrow> Inl (MissingTip lane)
       | BranchOnly t \<Rightarrow> Inl (MissingConfig lane)
       | ConfiguredLane t cf d \<Rightarrow> restoreLaneState st lane t cf d)"

text \<open>All lanes: the names of the tips, the configurations and the states, in that order and without repetition.\<close>

definition lane_names :: "lane_store \<Rightarrow> jstr list" where
  "lane_names st =
     (let keys = rev (sr_keys st);
          tips = some_of (\<lambda>k. case k of BranchTipKey l \<Rightarrow> Some l | _ \<Rightarrow> None) keys;
          configs = some_of (\<lambda>k. case k of LaneConfigKey l \<Rightarrow> Some l | _ \<Rightarrow> None) keys;
          states = some_of (\<lambda>k. case k of LaneStateKey l \<Rightarrow> Some l | _ \<Rightarrow> None) keys
      in fold set_add (tips @ configs @ states) [])"

fun restore_names :: "lane_store \<Rightarrow> jstr list \<Rightarrow> lane_fault + (jstr \<times> lane_state) list" where
  "restore_names st [] = Inr []"
| "restore_names st (l # ls) =
     bindE (readLaneStorage st l) (\<lambda>c.
       case c of
         ConfiguredLane t cf d \<Rightarrow>
           bindE (restoreLaneState st l t cf d) (\<lambda>s. bindE (restore_names st ls) (\<lambda>rs. Inr ((l, s) # rs)))
       | _ \<Rightarrow> restore_names st ls)"

definition restoreSession :: "lane_store \<Rightarrow> lane_fault + (jstr \<times> lane_state) list" where
  "restoreSession st = restore_names st (lane_names st)"

end
