(* ===== verification/LaneEvents.thy ===== *)
theory LaneEvents
  imports LaneStore
begin

text \<open>
  The events a lane emits (\<open>harness/agent-harness.ts\<close>), those of committed entries and the queues they show
  (\<open>harness/runtime/transcript.ts\<close>).
\<close>

datatype queued_item =
    QueuedMessage jstr inbox_kind agent_message
  | QueuedCustom jstr jstr "json option"

datatype config_change =
    ModelChange model_identity
  | ThinkingChange jstr
  | ToolsChange "jstr list"

text \<open>Turns, hook errors and values are not read by a reducer; of a usage event the row is kept, of which the totals are sums.\<close>

datatype event_body =
    EvRunStart jstr int
  | EvRunResume jstr
  | EvRunSuspend jstr json nat
  | EvOperationAbort jstr "agent_message list" "agent_message list"
  | EvRunEnd jstr terminal_status "operation_error option" "jstr option" "jstr option" int
  | EvFault jstr jstr
  | EvTurnStart jstr jstr
  | EvTurnEnd jstr jstr assistant_message "tool_result list"
  | EvRetryScheduled jstr jstr int int int int jstr
  | EvRetryStart jstr jstr int
  | EvRetryEnd jstr jstr int bool "jstr option"
  | EvMessageStart "jstr option" agent_message
  | EvMessageUpdate jstr agent_message
  | EvMessageEnd "jstr option" agent_message "jstr option"
  | EvToolStart jstr jstr jstr jstr json
  | EvToolUpdate jstr jstr jstr jstr tool_output
  | EvToolEnd jstr jstr jstr jstr tool_output bool bool
  | EvEntryAdded session_entry
  | EvQueueUpdate "queued_item list"
  | EvConfigUpdate config_change
  | EvCompactionStart jstr compaction_reason int
  | EvCompactionEnd jstr compaction_reason terminal_status "jstr option" "operation_error option" int
  | EvNavigationStart jstr "jstr option" int
  | EvNavigationEnd jstr terminal_status "operation_error option" "jstr option" "jstr option" int
  | EvUsage "number new_usage_row" int
  | EvOther jstr

record harness_event =
  ev_lane :: "jstr option"
  ev_recovery :: bool
  ev_body :: event_body

definition lane_event :: "jstr \<Rightarrow> event_body \<Rightarrow> harness_event" where
  "lane_event lane b = \<lparr>ev_lane = Some lane, ev_recovery = False, ev_body = b\<rparr>"

definition recovery_event :: "bool \<Rightarrow> jstr \<Rightarrow> event_body \<Rightarrow> harness_event" where
  "recovery_event r lane b = \<lparr>ev_lane = Some lane, ev_recovery = r, ev_body = b\<rparr>"

section \<open>Committed entries\<close>

text \<open>Each entry is given the one before it as its parent.\<close>

fun chainEntries :: "jstr option \<Rightarrow> new_entry list \<Rightarrow> new_entry list" where
  "chainEntries parentId [] = []"
| "chainEntries parentId (e # es) = e\<lparr>entry_parentId := parentId\<rparr> # chainEntries (Some (entry_id e)) es"

definition entryLifecycleEvents :: "session_entry \<Rightarrow> jstr \<Rightarrow> jstr option \<Rightarrow> harness_event list" where
  "entryLifecycleEvents e lane runId =
     map (lane_event lane)
       (case entry_body e of
          Message m t \<Rightarrow> [EvMessageStart runId m, EvMessageEnd runId m (Some (entry_id e)), EvEntryAdded e]
        | _ \<Rightarrow> [EvEntryAdded e])"

definition committedEntryEvents ::
    "new_entry list \<Rightarrow> commit_result \<Rightarrow> jstr \<Rightarrow> jstr option \<Rightarrow> nat \<Rightarrow> harness_event list" where
  "committedEntryEvents es c lane runId firstWriteIndex =
     concat (map (\<lambda>(e, i). entryLifecycleEvents
         (materializeCommittedEntry e (result_seqs c ! (firstWriteIndex + i)) (result_timestamp c)) lane runId)
       (zip es [0..<length es]))"

definition usage_event :: "number new_usage_row \<Rightarrow> nat \<Rightarrow> commit_result \<Rightarrow> jstr \<Rightarrow> harness_event" where
  "usage_event row i c lane = lane_event lane (EvUsage row (result_seqs c ! i))"

section \<open>Queues\<close>

definition queued_item_of :: "lane_store \<Rightarrow> inbox_item \<Rightarrow> lane_fault + queued_item" where
  "queued_item_of st item =
     (case get_pending st (in_entryId item) of
        None \<Rightarrow> Inl (MissingPayload (in_entryId item))
      | Some (PendingMessage m) \<Rightarrow> Inr (QueuedMessage (in_entryId item) (in_kind item) m)
      | Some (PendingCustom t d) \<Rightarrow>
          if in_kind item = WriteItem then Inr (QueuedCustom (in_entryId item) t d)
          else Inl (PayloadNotMessage (in_entryId item)))"

fun mapE :: "('a \<Rightarrow> 'e + 'b) \<Rightarrow> 'a list \<Rightarrow> 'e + 'b list" where
  "mapE f [] = Inr []"
| "mapE f (x # xs) = bindE (f x) (\<lambda>y. bindE (mapE f xs) (\<lambda>ys. Inr (y # ys)))"

definition readLaneQueues :: "lane_store \<Rightarrow> inbox_item list \<Rightarrow> lane_fault + queued_item list" where
  "readLaneQueues st inbox = mapE (queued_item_of st) inbox"

lemma mapE_Inr: "mapE f xs = Inr ys \<longleftrightarrow> list_all2 (\<lambda>x y. f x = Inr y) xs ys"
proof (induction xs arbitrary: ys)
  case Nil
  then show ?case by (cases ys) auto
next
  case (Cons x xs)
  then show ?case by (cases ys) (auto simp: bindE_eq_Inr)
qed

lemma mapE_defined: "(\<exists>ys. mapE f xs = Inr ys) \<longleftrightarrow> (\<forall>x \<in> set xs. \<exists>y. f x = Inr y)"
  by (induction xs) (auto simp: bindE_eq_Inr)

end
