(* ===== verification/LaneDecision.thy ===== *)
theory LaneDecision
  imports LaneEvents
begin

text \<open>
  How a lane decides (\<open>command\<close>, \<open>settleOperation\<close> and \<open>continueOperation\<close> of \<open>harness/runtime/lane.ts\<close>, \<open>OperationCommand\<close> of
  \<open>harness/runtime/types.ts\<close>). A planner reads the state of the lane and the storage and decides without effects; the lane
  commits the writes of the decision in one commit and publishes the next state. A planner that throws, or a commit that
  is refused, is a fault, which closes the harness. The invariant is that the storage always restores the lane.
\<close>

section \<open>Commands\<close>

datatype 'r decision =
    Commit "lane_write list" lane_state 'r "commit_result \<Rightarrow> harness_event list"
  | Return 'r

type_synonym 'r planner = "lane_state \<Rightarrow> lane_store \<Rightarrow> lane_fault + 'r decision"

definition lane_command ::
    "'r planner \<Rightarrow> int \<Rightarrow> lane_state \<Rightarrow> lane_store \<Rightarrow> lane_fault + 'r \<times> harness_event list \<times> lane_state \<times> lane_store" where
  "lane_command plan now lane st =
     (case plan lane st of
        Inl f \<Rightarrow> Inl f
      | Inr (Return r) \<Rightarrow> Inr (r, [], lane, st)
      | Inr (Commit ws next_state r events) \<Rightarrow>
          (case store_commit ws now st of
             Inl e \<Rightarrow> Inl (StorageFault e)
           | Inr (c, st') \<Rightarrow> Inr (r, events c, next_state, st')))"

record lane_patch =
  pa_tipId :: "jstr option option"
  pa_configuration :: "lane_configuration option"
  pa_inbox :: "inbox_item list option"

definition no_patch :: lane_patch where
  "no_patch = \<lparr>pa_tipId = None, pa_configuration = None, pa_inbox = None\<rparr>"

definition tip_patch :: "jstr option \<Rightarrow> lane_patch" where
  "tip_patch t = no_patch\<lparr>pa_tipId := Some t\<rparr>"

definition patched :: "lane_patch \<Rightarrow> lane_state \<Rightarrow> lane_state" where
  "patched p lane =
     lane\<lparr>la_tipId := (case pa_tipId p of None \<Rightarrow> la_tipId lane | Some t \<Rightarrow> t),
          la_configuration := (case pa_configuration p of None \<Rightarrow> la_configuration lane | Some c \<Rightarrow> c),
          la_inbox := (case pa_inbox p of None \<Rightarrow> la_inbox lane | Some i \<Rightarrow> i)\<rparr>"

datatype 'r op_decision =
    OpCommit "lane_write list" operation_state lane_patch 'r "commit_result \<Rightarrow> harness_event list"
  | OpFinish "lane_write list" operation_result lane_patch 'r "commit_result \<Rightarrow> harness_event list"
  | OpReturn 'r

type_synonym 'r op_planner =
  "lane_state \<Rightarrow> operation_state \<Rightarrow> operation_meta \<Rightarrow> lane_store \<Rightarrow> lane_fault + 'r op_decision"

definition durableLaneState :: "lane_state \<Rightarrow> jstr option \<Rightarrow> inbox_item list \<Rightarrow> jstr option \<Rightarrow> durable_lane" where
  "durableLaneState lane currentId inbox lastId =
     \<lparr>dl_currentOperationId = currentId, dl_lastOperationId = lastId, dl_inbox = inbox\<rparr>"

definition set_lane_state :: "jstr \<Rightarrow> durable_lane \<Rightarrow> lane_write" where
  "set_lane_state name d = SetValue (LaneStateKey name) (LaneValue d)"

definition settleOperation :: "jstr \<Rightarrow> 'r op_planner \<Rightarrow> 'r planner" where
  "settleOperation name plan lane st =
     (case la_operation lane of
        None \<Rightarrow> Inl NoOperation
      | Some p \<Rightarrow>
          bindE (plan lane (op_state p) (op_meta p) st) (\<lambda>d.
          case d of
            OpReturn r \<Rightarrow> Inr (Return r)
          | OpCommit ws s patch r events \<Rightarrow>
              Inr (Commit
                (ws @ [SetValue (StateKey (operation_id p)) (StateValue s)] @
                 (case pa_inbox patch of
                    None \<Rightarrow> []
                  | Some inbox \<Rightarrow>
                      [set_lane_state name (durableLaneState lane (Some (operation_id p)) inbox (la_lastOperationId lane))]))
                ((patched patch lane)\<lparr>la_operation := Some \<lparr>op_meta = op_meta p, op_state = s\<rparr>\<rparr>) r events)
          | OpFinish ws record patch r events \<Rightarrow>
              (let inbox = (case pa_inbox patch of None \<Rightarrow> la_inbox lane | Some i \<Rightarrow> i)
               in Inr (Commit
                    (ws @ [SetValue (ResultKey (operation_id p)) (ResultValue record),
                           set_lane_state name (durableLaneState lane None inbox (Some (operation_id p)))])
                    ((patched patch lane)\<lparr>la_inbox := inbox, la_lastOperationId := Some (operation_id p), la_operation := None\<rparr>)
                    r events))))"

datatype 'r continued = CancelRequestedResult | Continued 'r

text \<open>A cancelled operation does not go on: the planner is not asked. Another decision is the same with a wrapped result.\<close>

definition continueOperation :: "jstr \<Rightarrow> 'r op_planner \<Rightarrow> 'r continued planner" where
  "continueOperation name plan =
     settleOperation name (\<lambda>lane s m st.
       if cancelled s then Inr (OpReturn CancelRequestedResult)
       else bindE (plan lane s m st) (\<lambda>d. Inr (map_op_decision Continued d)))"

section \<open>What a commit does to the values\<close>

fun key_after :: "lane_write list \<Rightarrow> lane_key \<Rightarrow> lane_value option \<Rightarrow> lane_value option" where
  "key_after [] k v = v"
| "key_after (w # ws) k v =
     key_after ws k (case w of SetValue k' v' \<Rightarrow> if k' = k then Some v' else v | DeleteValue k' \<Rightarrow> if k' = k then None else v | _ \<Rightarrow> v)"

lemma key_after_append [simp]: "key_after (ws @ vs) k v = key_after vs k (key_after ws k v)"
  by (induction ws arbitrary: v) simp_all

definition touches_key :: "lane_key \<Rightarrow> lane_write \<Rightarrow> bool" where
  "touches_key k w \<longleftrightarrow> (case w of SetValue k' v \<Rightarrow> k' = k | DeleteValue k' \<Rightarrow> k' = k | _ \<Rightarrow> False)"

lemma key_after_untouched: "\<forall>w \<in> set ws. \<not> touches_key k w \<Longrightarrow> key_after ws k v = v"
  by (induction ws arbitrary: v) (auto simp: touches_key_def split: lane_write.splits)

lemma write_entry_values: "write_entry e q now st = Inr st' \<Longrightarrow> sr_values st' = sr_values st"
  by (auto simp: write_entry_def split: if_splits option.splits)

lemma store_write_value:
  "store_write now st (w, q) = Inr st' \<Longrightarrow> sr_values st' k =
    (case w of SetValue k' v' \<Rightarrow> if k' = k then Some v' else sr_values st k
     | DeleteValue k' \<Rightarrow> if k' = k then None else sr_values st k | _ \<Rightarrow> sr_values st k)"
  by (cases w) (auto simp: store_write_def write_entry_values split: if_splits)

lemma store_writes_values:
  "foldE (store_write now) st wqs = Inr st' \<Longrightarrow> sr_values st' k = key_after (map fst wqs) k (sr_values st k)"
proof (induction wqs arbitrary: st)
  case (Cons wq wqs)
  obtain w q where wq: "wq = (w, q)" by (cases wq)
  obtain st1 where s: "store_write now st (w, q) = Inr st1" "foldE (store_write now) st1 wqs = Inr st'"
    using Cons.prems by (auto simp: wq bindE_eq_Inr)
  show ?case using Cons.IH[OF s(2)] store_write_value[OF s(1), of k] by (simp add: wq split: lane_write.splits)
qed simp

lemma commit_values: "store_commit ws now st = Inr (c, st') \<Longrightarrow> sr_values st' k = key_after ws k (sr_values st k)"
  using store_writes_values[of now st "zip ws (write_seqs st ws)"]
  by (auto simp: store_commit_def bindE_eq_Inr write_seqs_def)

text \<open>What it does to the frames of a response.\<close>

fun frames_after :: "lane_write list \<Rightarrow> jstr \<times> jstr \<Rightarrow> frame list \<Rightarrow> frame list" where
  "frames_after [] k fs = fs"
| "frames_after (w # ws) k fs =
     frames_after ws k (case w of AppendFrame p r f \<Rightarrow> if (p, r) = k then fs @ [f] else fs
       | DeleteFrames p r \<Rightarrow> if (p, r) = k then [] else fs | _ \<Rightarrow> fs)"

lemma frames_after_append [simp]: "frames_after (ws @ vs) k fs = frames_after vs k (frames_after ws k fs)"
  by (induction ws arbitrary: fs) simp_all

lemma write_entry_frames: "write_entry e q now st = Inr st' \<Longrightarrow> sr_frames st' = sr_frames st"
  by (auto simp: write_entry_def split: if_splits option.splits)

lemma store_write_frames:
  "store_write now st (w, q) = Inr st' \<Longrightarrow> sr_frames st' k = frames_after [w] k (sr_frames st k)"
  by (cases w) (auto simp: store_write_def write_entry_frames split: if_splits)

lemma store_writes_frames:
  "foldE (store_write now) st wqs = Inr st' \<Longrightarrow> sr_frames st' k = frames_after (map fst wqs) k (sr_frames st k)"
proof (induction wqs arbitrary: st)
  case (Cons wq wqs)
  obtain w q where wq: "wq = (w, q)" by (cases wq)
  obtain st1 where s: "store_write now st (w, q) = Inr st1" "foldE (store_write now) st1 wqs = Inr st'"
    using Cons.prems by (auto simp: wq bindE_eq_Inr)
  show ?case using Cons.IH[OF s(2)] store_write_frames[OF s(1), of k] by (simp add: wq)
qed simp

lemma commit_frames: "store_commit ws now st = Inr (c, st') \<Longrightarrow> sr_frames st' k = frames_after ws k (sr_frames st k)"
  using store_writes_frames[of now st "zip ws (write_seqs st ws)" _ k]
  by (auto simp: store_commit_def bindE_eq_Inr write_seqs_def)

end
