(* ===== verification/LaneCommands.thy ===== *)
theory LaneCommands
  imports LaneDecision BranchSummary
begin

text \<open>
  The commands a client gives to a lane (\<open>harness/runtime/lane.ts\<close>) and the making of a lane (\<open>harness/runtime/harness.ts\<close>):
  accepting a run, a compaction or a navigation, asking for its cancellation, queueing and removing input, appending entries,
  configuration and usage. New ids and the time are arguments; so are the texts of skills and templates.
\<close>

section \<open>The configuration of the process\<close>

record harness_config =
  hc_compaction :: compaction_settings
  hc_steeringMode :: mode
  hc_followUpMode :: mode
  hc_sequential :: bool
  hc_retryEnabled :: bool
  hc_maxRetries :: int
  hc_baseDelayMs :: int
  hc_maxAgentDelayMs :: "int option"
  hc_streamOptions :: json
  hc_projectors :: projectors
  hc_skill :: "jstr \<Rightarrow> jstr option \<Rightarrow> jstr option"
  hc_template :: "jstr \<Rightarrow> jstr list option \<Rightarrow> jstr option"

definition capturedSettings :: "harness_config \<Rightarrow> run_settings" where
  "capturedSettings cf =
     \<lparr>rs_compaction = hc_compaction cf, rs_steeringMode = hc_steeringMode cf, rs_followUpMode = hc_followUpMode cf,
      rs_sequential = hc_sequential cf\<rparr>"

section \<open>The inbox\<close>

definition inboxItems :: "inbox_item list \<Rightarrow> inbox_kind \<Rightarrow> inbox_item list" where
  "inboxItems inbox k = filter (\<lambda>i. in_kind i = k) inbox"

definition withoutInboxItems :: "inbox_item list \<Rightarrow> inbox_item list \<Rightarrow> inbox_item list" where
  "withoutInboxItems inbox removed = filter (\<lambda>i. in_entryId i \<notin> in_entryId ` set removed) inbox"

fun select_accepted :: "mode \<Rightarrow> mode \<Rightarrow> bool \<Rightarrow> bool \<Rightarrow> inbox_item list \<Rightarrow> inbox_item list \<times> inbox_item list" where
  "select_accepted sm fm steerTaken followUpTaken [] = ([], [])"
| "select_accepted sm fm steerTaken followUpTaken (i # is) =
     (let k = in_kind i;
          eligible = k = WriteItem \<or> k = NextRunItem \<or> (k = SteerItem \<and> (sm = AllAtOnce \<or> \<not> steerTaken)) \<or>
            (k = FollowUpItem \<and> (fm = AllAtOnce \<or> \<not> followUpTaken))
      in case select_accepted sm fm (steerTaken \<or> eligible \<and> k = SteerItem) (followUpTaken \<or> eligible \<and> k = FollowUpItem) is of
           (sel, rem) \<Rightarrow> if eligible then (i # sel, rem) else (sel, i # rem))"

definition selectAcceptedInbox :: "inbox_item list \<Rightarrow> mode \<Rightarrow> mode \<Rightarrow> inbox_item list \<times> inbox_item list" where
  "selectAcceptedInbox inbox sm fm = select_accepted sm fm False False inbox"

definition message_entry :: "jstr \<Rightarrow> agent_message \<Rightarrow> new_entry" where
  "message_entry i m = \<lparr>entry_id = i, entry_parentId = None, entry_customType = None, entry_body = Message m False\<rparr>"

definition pendingEntryWrite :: "jstr \<Rightarrow> pending_entry \<Rightarrow> new_entry" where
  "pendingEntryWrite i p =
     (case p of
        PendingMessage m \<Rightarrow> message_entry i m
      | PendingCustom t d \<Rightarrow> \<lparr>entry_id = i, entry_parentId = None, entry_customType = Some t, entry_body = Custom d\<rparr>)"

definition pending_assistant :: "agent_message \<Rightarrow> bool" where
  "pending_assistant m \<longleftrightarrow> (case m of AssistantMessage a \<Rightarrow> as_stopReason a = PendingStop | _ \<Rightarrow> False)"

text \<open>The payload of an inbox item that a run takes.\<close>

definition captured_payload :: "lane_store \<Rightarrow> inbox_item \<Rightarrow> lane_fault + new_entry" where
  "captured_payload st i =
     (case get_pending st (in_entryId i) of
        None \<Rightarrow> Inl (MissingPayload (in_entryId i))
      | Some p \<Rightarrow>
          (case p of
             PendingMessage m \<Rightarrow>
               if pending_assistant m then Inl (PendingAssistant (in_entryId i)) else Inr (pendingEntryWrite (in_entryId i) p)
           | PendingCustom t d \<Rightarrow>
               if in_kind i \<noteq> WriteItem then Inl (PayloadNotMessage (in_entryId i))
               else Inr (pendingEntryWrite (in_entryId i) p)))"

definition delete_pending :: "inbox_item list \<Rightarrow> lane_write list" where
  "delete_pending is = map (\<lambda>i. DeleteValue (PendingKey (in_entryId i))) is"

definition set_tip :: "jstr \<Rightarrow> jstr option \<Rightarrow> lane_write" where
  "set_tip lane t = SetValue (BranchTipKey lane) (TipValue t)"

section \<open>Accepting\<close>

datatype invalid_reason = EmptyInput | PendingAssistantInput | ImagesWithNonUser
datatype navigation_reason = CurrentTip | RootLabel | SourceRoot | TargetRoot

datatype admission_error =
    LaneBusy jstr operation_kind
  | InvalidMessage invalid_reason
  | UnknownSkill jstr
  | UnknownTemplate jstr
  | NothingToCompact
  | InvalidNavigation navigation_reason
  | UnknownTarget jstr

type_synonym admission = "admission_error + jstr \<times> operation_kind \<times> int"

datatype run_request =
    PromptText jstr "content_block list"
  | PromptMessages "agent_message list"
  | SkillRequest jstr "jstr option"
  | TemplateRequest jstr "jstr list option"

definition text_message :: "jstr \<Rightarrow> content_block list \<Rightarrow> int \<Rightarrow> agent_message" where
  "text_message t images now = UserMessage (Blocks ((if t = [] then [] else [TextBlock t None]) @ images)) now"

definition request_messages :: "harness_config \<Rightarrow> run_request \<Rightarrow> int \<Rightarrow> admission_error + agent_message list" where
  "request_messages cf r startedAt =
     (case r of
        PromptMessages ms \<Rightarrow> Inr ms
      | PromptText t images \<Rightarrow> Inr (if t = [] \<and> images = [] then [] else [text_message t images startedAt])
      | SkillRequest n instructions \<Rightarrow>
          (case hc_skill cf n instructions of
             None \<Rightarrow> Inl (UnknownSkill n)
           | Some t \<Rightarrow> Inr [UserMessage (Blocks [TextBlock t None]) startedAt])
      | TemplateRequest n args \<Rightarrow>
          (case hc_template cf n args of
             None \<Rightarrow> Inl (UnknownTemplate n)
           | Some t \<Rightarrow> Inr (if t = [] then [] else [UserMessage (Blocks [TextBlock t None]) startedAt])))"

definition prompt_messages_of :: "harness_config \<Rightarrow> run_request \<Rightarrow> int \<Rightarrow> admission_error + agent_message list" where
  "prompt_messages_of cf r startedAt =
     bindE (request_messages cf r startedAt) (\<lambda>ms.
     if \<exists>m \<in> set ms. pending_assistant m then Inl (InvalidMessage PendingAssistantInput) else Inr ms)"

definition busy :: "operation \<Rightarrow> admission" where
  "busy p = Inl (LaneBusy (operation_id p) (intent_kind (me_intent (op_meta p))))"

definition acceptance_scope :: "harness_config \<Rightarrow> operation_scope" where
  "acceptance_scope cf = \<lparr>sc_control = RunningControl, sc_settings = capturedSettings cf, sc_latestAssistantEntryId = None\<rparr>"

text \<open>The command of \<open>acceptRun\<close> for the prompt messages under their new ids.\<close>

definition acceptRun ::
    "jstr \<Rightarrow> harness_config \<Rightarrow> jstr \<Rightarrow> int \<Rightarrow> (jstr \<times> agent_message) list \<Rightarrow> admission planner" where
  "acceptRun name cf operationId startedAt prompt lane st =
     (case la_operation lane of
        Some p \<Rightarrow> Inr (Return (busy p))
      | None \<Rightarrow>
          (case selectAcceptedInbox (la_inbox lane) (hc_steeringMode cf) (hc_followUpMode cf) of
             (selected, inbox) \<Rightarrow>
               bindE (mapE (captured_payload st) selected) (\<lambda>captured.
               if prompt = [] \<and> list_all (\<lambda>i. in_kind i = WriteItem) selected
               then Inr (Return (Inl (InvalidMessage EmptyInput)))
               else
                 let entries = chainEntries (la_tipId lane) (captured @ map (\<lambda>(i, m). message_entry i m) prompt);
                     tip = Some (entry_id (last entries));
                     meta = \<lparr>me_operationId = operationId, me_lane = name, me_sourceTipId = la_tipId lane,
                       me_startedAt = startedAt, me_intent = RunIntent (map fst prompt)\<rparr>;
                     state = \<lparr>os_scope = acceptance_scope cf, os_leaf = Starting\<rparr>
                 in bindE (readLaneQueues st inbox) (\<lambda>queues.
                    Inr (Commit
                      (map InsertEntry entries @ delete_pending selected @
                       [set_tip name tip, SetValue (MetaKey operationId) (MetaValue meta),
                        SetValue (StateKey operationId) (StateValue state),
                        set_lane_state name (durableLaneState lane (Some operationId) inbox (la_lastOperationId lane))])
                      (lane\<lparr>la_tipId := tip, la_inbox := inbox, la_operation := Some \<lparr>op_meta = meta, op_state = state\<rparr>\<rparr>)
                      (Inr (operationId, RunKind, startedAt))
                      (\<lambda>c. lane_event name (EvRunStart operationId startedAt) #
                        committedEntryEvents entries c name (Some operationId) 0 @
                        (if selected = [] then [] else [lane_event name (EvQueueUpdate queues)])))))))"

definition accept_structural ::
    "jstr \<Rightarrow> operation_meta \<Rightarrow> operation_state \<Rightarrow> lane_write list \<Rightarrow> event_body \<Rightarrow> lane_state \<Rightarrow> admission decision" where
  "accept_structural name meta state ws event lane =
     (let p = me_operationId meta in
      Commit
        (ws @ [SetValue (MetaKey p) (MetaValue meta), SetValue (StateKey p) (StateValue state),
               set_lane_state name (durableLaneState lane (Some p) (la_inbox lane) (la_lastOperationId lane))])
        (lane\<lparr>la_operation := Some \<lparr>op_meta = meta, op_state = state\<rparr>\<rparr>)
        (Inr (p, intent_kind (me_intent meta), me_startedAt meta))
        (\<lambda>c. [lane_event name event]))"

definition acceptCompaction ::
    "(number \<Rightarrow> jstr) \<Rightarrow> jstr \<Rightarrow> harness_config \<Rightarrow> jstr \<Rightarrow> jstr \<Rightarrow> int \<Rightarrow> jstr option \<Rightarrow> admission planner" where
  "acceptCompaction dbl name cf operationId taskId startedAt instructions lane st =
     (case la_operation lane of
        Some p \<Rightarrow> Inr (Return (busy p))
      | None \<Rightarrow>
          (case (case la_tipId lane of None \<Rightarrow> Some [] | Some t \<Rightarrow> bounded_path st t) of
             None \<Rightarrow> Inl CorruptPath
           | Some path \<Rightarrow>
               (case prepareCompaction dbl path (hc_compaction cf) of
                  None \<Rightarrow> Inr (Return (Inl NothingToCompact))
                | Some preparation \<Rightarrow>
                    Inr (accept_structural name
                      \<lparr>me_operationId = operationId, me_lane = name, me_sourceTipId = la_tipId lane, me_startedAt = startedAt,
                       me_intent = CompactionIntent instructions\<rparr>
                      \<lparr>os_scope = acceptance_scope cf, os_leaf = SummaryDeciding
                         \<lparr>ta_taskId = taskId, ta_reason = Some ManualReason, ta_customInstructions = instructions,
                          ta_boundary = FinishBoundary\<rparr>\<rparr>
                      [SetValue (PreparationKey operationId taskId) (PreparationValue (CompactionPreparation preparation))]
                      (EvCompactionStart operationId ManualReason startedAt) lane))))"

text \<open>What a summarised navigation reads before its command: the entries of the old path behind the common ancestor.\<close>

definition full_path :: "lane_store \<Rightarrow> jstr \<Rightarrow> session_entry list option" where
  "full_path st tip =
     (case get_entry st tip of
        None \<Rightarrow> None
      | Some e \<Rightarrow>
          (case branch_walk (Suc (length (sr_entries st))) (sr_entries st) e of
             Some (Inr path) \<Rightarrow> Some path
           | _ \<Rightarrow> None))"

definition navigation_preparation ::
    "(number \<Rightarrow> jstr) \<Rightarrow> lane_store \<Rightarrow> bool \<Rightarrow> jstr option \<Rightarrow> jstr option \<Rightarrow> lane_fault + branch_preparation option" where
  "navigation_preparation dbl st summarize observed target =
     (case (observed, target) of
        (Some o', Some t) \<Rightarrow>
          if summarize \<and> get_entry st t \<noteq> None
          then (case (full_path st o', full_path st t) of
              (Some oldPath, Some targetPath) \<Rightarrow>
                (let oldIds = map entry_id oldPath;
                     own = (case List.find (\<lambda>e. entry_id e \<in> set oldIds) targetPath of
                       None \<Rightarrow> oldPath
                     | Some a \<Rightarrow> takeWhile (\<lambda>e. entry_id e \<noteq> entry_id a) oldPath)
                 in Inr (Some (prepareBranchEntries dbl (rev own) 0)))
            | _ \<Rightarrow> Inl CorruptPath)
          else Inr None
      | _ \<Rightarrow> Inr None)"

definition accept_option :: "admission decision \<Rightarrow> admission option decision" where
  "accept_option d = (case d of Commit ws next_state r ev \<Rightarrow> Commit ws next_state (Some r) ev | Return r \<Rightarrow> Return (Some r))"

definition navigation_commit ::
    "jstr \<Rightarrow> harness_config \<Rightarrow> operation_meta \<Rightarrow> jstr \<Rightarrow> branch_preparation option \<Rightarrow> lane_state \<Rightarrow> lane_fault + admission decision" where
  "navigation_commit name cf meta taskId preparation lane =
     (case me_intent meta of
        NavigationIntent target summarize label instructions \<Rightarrow>
          (let event = EvNavigationStart (me_operationId meta) target (me_startedAt meta) in
           if summarize
           then (case (la_tipId lane, target, preparation) of
               (Some _, Some t, Some b) \<Rightarrow>
                 Inr (accept_structural name meta
                   \<lparr>os_scope = acceptance_scope cf, os_leaf = SummaryDeciding
                      \<lparr>ta_taskId = taskId, ta_reason = None, ta_customInstructions = instructions,
                       ta_boundary = CommitNavigation t label\<rparr>\<rparr>
                   [SetValue (PreparationKey (me_operationId meta) taskId)
                      (PreparationValue (BranchPreparation (bp_messages b) (bp_fileOps b) (bp_totalTokens b)))]
                   event lane)
             | _ \<Rightarrow> Inl (InvariantFault taskId))
           else Inr (accept_structural name meta
             \<lparr>os_scope = acceptance_scope cf, os_leaf = NavigationReadyToCommit target label\<rparr> [] event lane))
      | _ \<Rightarrow> Inl (InvariantFault taskId))"

text \<open>The command of \<open>acceptNavigation\<close>; \<open>None\<close> asks for another round, because the tip has moved.\<close>

definition acceptNavigation ::
    "jstr \<Rightarrow> harness_config \<Rightarrow> jstr \<Rightarrow> jstr \<Rightarrow> int \<Rightarrow> jstr option \<Rightarrow> bool \<Rightarrow> jstr option \<Rightarrow> jstr option \<Rightarrow>
     jstr option \<Rightarrow> branch_preparation option \<Rightarrow> admission option planner" where
  "acceptNavigation name cf operationId taskId startedAt target summarize label instructions observed preparation lane st =
     (case la_operation lane of
        Some p \<Rightarrow> Inr (Return (Some (busy p)))
      | None \<Rightarrow>
          if la_tipId lane \<noteq> observed then Inr (Return None)
          else if target = la_tipId lane then Inr (Return (Some (Inl (InvalidNavigation CurrentTip))))
          else if target = None \<and> label \<noteq> None then Inr (Return (Some (Inl (InvalidNavigation RootLabel))))
          else if summarize \<and> (la_tipId lane = None \<or> target = None)
          then Inr (Return (Some (Inl (InvalidNavigation (if la_tipId lane = None then SourceRoot else TargetRoot)))))
          else if target \<noteq> None \<and> get_entry st (the target) = None
          then Inr (Return (Some (Inl (UnknownTarget (the target)))))
          else bindE (navigation_commit name cf
              \<lparr>me_operationId = operationId, me_lane = name, me_sourceTipId = la_tipId lane, me_startedAt = startedAt,
               me_intent = NavigationIntent target summarize label instructions\<rparr> taskId preparation lane) (\<lambda>d.
            Inr (accept_option d)))"

section \<open>Cancelling\<close>

text \<open>What an abort answers: the id, whether it was new, and the messages taken back from the inbox.\<close>

datatype abort_result =
    AbortMismatch jstr "jstr option" "jstr option"
  | AbortRequested jstr bool "agent_message list" "agent_message list"

definition removed_message :: "lane_store \<Rightarrow> inbox_item \<Rightarrow> lane_fault + inbox_item \<times> agent_message" where
  "removed_message st i =
     (case get_pending st (in_entryId i) of
        Some (PendingMessage m) \<Rightarrow> Inr (i, m)
      | _ \<Rightarrow> Inl (MissingPayload (in_entryId i)))"

definition requestOperationAbort :: "jstr \<Rightarrow> jstr \<Rightarrow> int \<Rightarrow> abort_result planner" where
  "requestOperationAbort name operationId requestedAt lane st =
     (case la_operation lane of
        None \<Rightarrow> Inr (Return (AbortMismatch operationId None (la_lastOperationId lane)))
      | Some p \<Rightarrow>
          if operation_id p \<noteq> operationId
          then Inr (Return (AbortMismatch operationId (Some (operation_id p)) (la_lastOperationId lane)))
          else if cancelled (op_state p) then Inr (Return (AbortRequested operationId False [] []))
          else
            let removed = filter (\<lambda>i. in_kind i = SteerItem \<or> in_kind i = FollowUpItem) (la_inbox lane);
                inbox = withoutInboxItems (la_inbox lane) removed;
                state = (op_state p)\<lparr>os_scope := (os_scope (op_state p))\<lparr>sc_control := CancelRequested requestedAt\<rparr>\<rparr>
            in bindE (mapE (removed_message st) removed) (\<lambda>payloads.
               bindE (readLaneQueues st inbox) (\<lambda>queues.
               let steer = map snd (filter (\<lambda>(i, m). in_kind i = SteerItem) payloads);
                   followUp = map snd (filter (\<lambda>(i, m). in_kind i = FollowUpItem) payloads)
               in Inr (Commit
                    (delete_pending removed @
                     [SetValue (StateKey operationId) (StateValue state),
                      set_lane_state name (durableLaneState lane (Some operationId) inbox (la_lastOperationId lane))])
                    (lane\<lparr>la_inbox := inbox, la_operation := Some (p\<lparr>op_state := state\<rparr>)\<rparr>)
                    (AbortRequested operationId True steer followUp)
                    (\<lambda>c. lane_event name (EvOperationAbort operationId steer followUp) #
                      (if removed = [] then [] else [lane_event name (EvQueueUpdate queues)]))))))"

section \<open>Queues\<close>

datatype queue_input = QueueText jstr | QueueMessage agent_message

text \<open>\<open>images\<close> are none when the caller gives none.\<close>

definition queue_message :: "queue_input \<Rightarrow> content_block list \<Rightarrow> int \<Rightarrow> invalid_reason + agent_message" where
  "queue_message inp images now =
     (case inp of
        QueueText t \<Rightarrow> if t = [] \<and> images = [] then Inl EmptyInput else Inr (text_message t images now)
      | QueueMessage m \<Rightarrow>
          if pending_assistant m then Inl PendingAssistantInput
          else (case m of
              UserMessage c t \<Rightarrow>
                Inr (if images = [] then m
                  else UserMessage (Blocks ((case c of PlainText x \<Rightarrow> (if x = [] then [] else [TextBlock x None]) | Blocks bs \<Rightarrow> bs) @ images)) t)
            | _ \<Rightarrow> if images \<noteq> [] then Inl ImagesWithNonUser else Inr m))"

definition current_id :: "lane_state \<Rightarrow> jstr option" where
  "current_id lane = map_option operation_id (la_operation lane)"

definition enqueue :: "jstr \<Rightarrow> inbox_kind \<Rightarrow> jstr \<Rightarrow> agent_message \<Rightarrow> jstr planner" where
  "enqueue name k entryId m lane st =
     bindE (readLaneQueues st (la_inbox lane)) (\<lambda>queues.
     let inbox = la_inbox lane @ [\<lparr>in_entryId = entryId, in_kind = k\<rparr>] in
     Inr (Commit
       [SetValue (PendingKey entryId) (PendingValue (PendingMessage m)),
        set_lane_state name (durableLaneState lane (current_id lane) inbox (la_lastOperationId lane))]
       (lane\<lparr>la_inbox := inbox\<rparr>) entryId
       (\<lambda>c. [lane_event name (EvQueueUpdate (queues @ [QueuedMessage entryId k m]))])))"

datatype cancel_result = AlreadyConsumed | NotFound | CancelledItem

definition cancelQueued :: "jstr \<Rightarrow> jstr \<Rightarrow> cancel_result planner" where
  "cancelQueued name entryId lane st =
     (case List.find (\<lambda>i. in_entryId i = entryId) (la_inbox lane) of
        None \<Rightarrow> Inr (Return (if get_entry st entryId = None then NotFound else AlreadyConsumed))
      | Some queued \<Rightarrow>
          if get_pending st entryId = None then Inl (MissingPayload entryId)
          else let inbox = filter (\<lambda>i. in_entryId i \<noteq> entryId) (la_inbox lane) in
            bindE (readLaneQueues st inbox) (\<lambda>queues.
            Inr (Commit
              [DeleteValue (PendingKey entryId),
               set_lane_state name (durableLaneState lane (current_id lane) inbox (la_lastOperationId lane))]
              (lane\<lparr>la_inbox := inbox\<rparr>) CancelledItem
              (\<lambda>c. [lane_event name (EvQueueUpdate queues)]))))"

section \<open>Usage, configuration and entries\<close>

definition recordUsage :: "jstr \<Rightarrow> jstr \<Rightarrow> number usage \<Rightarrow> jstr option \<Rightarrow> json option \<Rightarrow> jstr planner" where
  "recordUsage name usageId u entryId details lane st =
     (let row = \<lparr>row_id = usageId, row_usage = u, row_entryId = entryId, row_adjustment = True, row_details = details\<rparr> in
      Inr (Commit [InsertUsage row] lane usageId (\<lambda>c. [usage_event row 0 c name])))"

definition apply_change :: "config_change \<Rightarrow> lane_configuration \<Rightarrow> lane_configuration" where
  "apply_change ch c =
     (case ch of
        ModelChange m \<Rightarrow> c\<lparr>lc_model := m\<rparr>
      | ThinkingChange l \<Rightarrow> c\<lparr>lc_thinkingLevel := l\<rparr>
      | ToolsChange ts \<Rightarrow> c\<lparr>lc_activeToolNames := ts\<rparr>)"

definition setConfiguration :: "jstr \<Rightarrow> config_change \<Rightarrow> unit planner" where
  "setConfiguration name ch lane st =
     (let c = apply_change ch (la_configuration lane) in
      Inr (Commit [SetValue (LaneConfigKey name) (ConfigValue c)] (lane\<lparr>la_configuration := c\<rparr>) ()
        (\<lambda>x. [lane_event name (EvConfigUpdate ch)])))"

definition written_payload :: "lane_store \<Rightarrow> inbox_item \<Rightarrow> lane_fault + new_entry" where
  "written_payload st i =
     (case get_pending st (in_entryId i) of
        None \<Rightarrow> Inl (MissingPayload (in_entryId i))
      | Some p \<Rightarrow> Inr (pendingEntryWrite (in_entryId i) p))"

text \<open>\<open>append\<close>: at once, behind the writes that wait, or as a write that waits for the operation.\<close>

definition append_entry :: "jstr \<Rightarrow> jstr \<Rightarrow> pending_entry \<Rightarrow> jstr planner" where
  "append_entry name i pending lane st =
     (case la_operation lane of
        None \<Rightarrow>
          (let queued = inboxItems (la_inbox lane) WriteItem;
               inbox = withoutInboxItems (la_inbox lane) queued
           in bindE (mapE (written_payload st) queued) (\<lambda>captured.
              bindE (if queued = [] then Inr [] else readLaneQueues st inbox) (\<lambda>queues.
              let entries = chainEntries (la_tipId lane) (captured @ [pendingEntryWrite i pending]) in
              Inr (Commit
                (map InsertEntry entries @ delete_pending queued @
                 [set_tip name (Some i), set_lane_state name (durableLaneState lane None inbox (la_lastOperationId lane))])
                (lane\<lparr>la_tipId := Some i, la_inbox := inbox\<rparr>) i
                (\<lambda>c. committedEntryEvents entries c name None 0 @
                  (if queued = [] then [] else [lane_event name (EvQueueUpdate queues)]))))))
      | Some p \<Rightarrow>
          bindE (readLaneQueues st (la_inbox lane)) (\<lambda>queues.
          let inbox = la_inbox lane @ [\<lparr>in_entryId = i, in_kind = WriteItem\<rparr>] in
          Inr (Commit
            [SetValue (PendingKey i) (PendingValue pending),
             set_lane_state name (durableLaneState lane (Some (operation_id p)) inbox (la_lastOperationId lane))]
            (lane\<lparr>la_inbox := inbox\<rparr>) i
            (\<lambda>c. [lane_event name (EvQueueUpdate (queues @
              [case pending of PendingMessage m \<Rightarrow> QueuedMessage i WriteItem m | PendingCustom t d \<Rightarrow> QueuedCustom i t d]))]))))"

section \<open>Making a lane\<close>

datatype acquire_error = InvalidLane | UnknownLaneTarget jstr | AcquireFault lane_fault

text \<open>
  \<open>lane(name)\<close> when the process has no such lane: a configured lane is restored, a branch gets the configuration of the
  process, and a new lane starts at the given entry.
\<close>

definition acquireLane ::
    "jstr \<Rightarrow> jstr option \<Rightarrow> lane_configuration \<Rightarrow> int \<Rightarrow> lane_store \<Rightarrow> acquire_error + lane_state \<times> lane_store" where
  "acquireLane name createAt seed now st =
     (if name = [] \<or> 0 \<in> set name then Inl InvalidLane
      else case readLaneStorage st name of
        Inl f \<Rightarrow> Inl (AcquireFault f)
      | Inr (ConfiguredLane t cf d) \<Rightarrow>
          (case restoreLaneState st name t cf d of Inl f \<Rightarrow> Inl (AcquireFault f) | Inr lane \<Rightarrow> Inr (lane, st))
      | Inr stored \<Rightarrow>
          (let tip = (case stored of BranchOnly t \<Rightarrow> t | _ \<Rightarrow> createAt) in
           if stored = AbsentLane \<and> tip \<noteq> None \<and> get_entry st (the tip) = None then Inl (UnknownLaneTarget (the tip))
           else
             let lane = \<lparr>la_tipId = tip, la_configuration = seed, la_inbox = [], la_lastOperationId = None, la_operation = None\<rparr>
             in case store_commit
                  ((if stored = AbsentLane then [set_tip name tip] else []) @
                   [SetValue (LaneConfigKey name) (ConfigValue seed), set_lane_state name (durableLaneState lane None [] None)])
                  now st of
                Inl e \<Rightarrow> Inl (AcquireFault (StorageFault e))
              | Inr (c, st') \<Rightarrow> Inr (lane, st')))"

section \<open>Inspection\<close>

definition capturedModel :: "operation_leaf \<Rightarrow> model_identity option" where
  "capturedModel l =
     (case l of
        AssistantReady g n kept \<Rightarrow> Some (lc_model (gc_configuration g))
      | AssistantEffectPending g n r u o' w \<Rightarrow> Some (lc_model (gc_configuration g))
      | AssistantRetryWait g w \<Rightarrow> Some (lc_model (gc_configuration g))
      | ToolsLeaf b \<Rightarrow> Some (lc_model (tb_configuration b))
      | DeferredSuspended d \<Rightarrow> Some (lc_model (df_configuration d))
      | DeferredEffectPending d r u \<Rightarrow> Some (lc_model (df_configuration d))
      | SummaryReady t x n \<Rightarrow> Some (lc_model (sx_configuration x))
      | SummaryEffectPending t x n r us \<Rightarrow> Some (lc_model (sx_configuration x))
      | SummaryRetryWait t x w \<Rightarrow> Some (lc_model (sx_configuration x))
      | _ \<Rightarrow> None)"

record current_operation =
  co_id :: jstr
  co_kind :: operation_kind
  co_aborting :: bool
  co_startedAt :: int
  co_capturedModel :: "model_identity option"

definition inspectExecution :: "lane_state \<Rightarrow> jstr option \<times> model_identity \<times> current_operation option \<times> jstr option" where
  "inspectExecution lane =
     (la_tipId lane, lc_model (la_configuration lane),
      map_option (\<lambda>p. \<lparr>co_id = operation_id p, co_kind = intent_kind (me_intent (op_meta p)),
          co_aborting = cancelled (op_state p), co_startedAt = me_startedAt (op_meta p),
          co_capturedModel = capturedModel (os_leaf (op_state p))\<rparr>) (la_operation lane),
      la_lastOperationId lane)"

end
