(* ===== verification/DriveRun.thy ===== *)
theory DriveRun
  imports LaneCommands
begin

text \<open>
  The decisions with which a run goes on (\<open>harness/runtime/drive\<close>: \<open>terminal.ts\<close>, \<open>boundary.ts\<close>, \<open>checkpoint.ts\<close>,
  \<open>generation.ts\<close>, \<open>retry.ts\<close>). Each is the planner of a command; what hooks and providers answered before is its argument, and
  so are new ids and the time.
\<close>

section \<open>The end of an operation\<close>

definition stored_keys :: "lane_store \<Rightarrow> (lane_key \<Rightarrow> bool) \<Rightarrow> lane_key list" where
  "stored_keys st P = filter P (sr_keys st)"

definition args_key :: "jstr \<Rightarrow> lane_key \<Rightarrow> bool" where
  "args_key p k = (case k of ToolArgsKey q t i \<Rightarrow> q = p | _ \<Rightarrow> False)"
definition memo_key :: "jstr \<Rightarrow> lane_key \<Rightarrow> bool" where
  "memo_key p k = (case k of ToolMemoKey q i n \<Rightarrow> q = p | _ \<Rightarrow> False)"
definition preparation_key :: "jstr \<Rightarrow> lane_key \<Rightarrow> bool" where
  "preparation_key p k = (case k of PreparationKey q t \<Rightarrow> q = p | _ \<Rightarrow> False)"
definition output_key :: "jstr \<Rightarrow> lane_key \<Rightarrow> bool" where
  "output_key p k = (case k of ToolOutputKey q i \<Rightarrow> q = p | _ \<Rightarrow> False)"

definition staged_ids :: "operation_leaf \<Rightarrow> jstr list" where
  "staged_ids l =
     (case l of
        ToolsLeaf b \<Rightarrow>
          fold set_add
            (some_of (\<lambda>c. case bc_status c of OutcomeReady t \<Rightarrow> Some (bc_resultEntryId c) | _ \<Rightarrow> None) (tb_calls b)) []
      | _ \<Rightarrow> [])"

definition frames_of :: "operation_leaf \<Rightarrow> jstr option" where
  "frames_of l =
     (case l of
        AssistantEffectPending g n response u o' w \<Rightarrow> Some response
      | DeferredEffectPending d response u \<Rightarrow> Some response
      | _ \<Rightarrow> None)"

definition operationCleanupWrites :: "lane_store \<Rightarrow> jstr \<Rightarrow> operation_state \<Rightarrow> lane_write list" where
  "operationCleanupWrites st p s =
     [DeleteValue (MetaKey p), DeleteValue (StateKey p)] @
     map DeleteValue (stored_keys st (args_key p) @ stored_keys st (memo_key p) @ stored_keys st (preparation_key p) @
       stored_keys st (output_key p)) @
     (case frames_of (os_leaf s) of None \<Rightarrow> [] | Some r \<Rightarrow> [DeleteFrames p r]) @
     map (\<lambda>i. DeleteValue (PendingKey i)) (staged_ids (os_leaf s))"

definition operationResultRecord ::
    "operation_meta \<Rightarrow> terminal_status \<Rightarrow> jstr option \<Rightarrow> operation_error option \<Rightarrow> int \<Rightarrow> lane_fault + operation_result" where
  "operationResultRecord m status tip e endedAt =
     (if (status = FailedStatus) \<noteq> (e \<noteq> None) then Inl (InvariantFault (js ''result error''))
      else Inr \<lparr>or_operationId = me_operationId m, or_kind = intent_kind (me_intent m), or_status = status, or_error = e,
        or_fromTipId = me_sourceTipId m, or_tipId = tip, or_startedAt = me_startedAt m, or_endedAt = endedAt\<rparr>)"

section \<open>Retries\<close>

definition max_safe :: int where "max_safe = 9007199254740991"

definition retryDelayMs :: "retry_policy \<Rightarrow> int \<Rightarrow> int" where
  "retryDelayMs rp attempt =
     (let delay = rp_baseDelayMs rp * 2 ^ nat (attempt - 1)
      in min (if \<bar>delay\<bar> \<le> max_safe then delay else max_safe) (rp_maxAgentDelayMs rp))"

definition retryNotBefore :: "retry_policy \<Rightarrow> int \<Rightarrow> int \<Rightarrow> int" where
  "retryNotBefore rp attempt now =
     (let sum = now + retryDelayMs rp attempt in if \<bar>sum\<bar> \<le> max_safe then sum else max_safe)"

definition normalizedRetryPolicy :: "harness_config \<Rightarrow> retry_policy" where
  "normalizedRetryPolicy cf =
     \<lparr>rp_maxAttempts = (if hc_retryEnabled cf then hc_maxRetries cf + 1 else 1), rp_baseDelayMs = hc_baseDelayMs cf,
      rp_maxAgentDelayMs = (case hc_maxAgentDelayMs cf of None \<Rightarrow> 60000 | Some d \<Rightarrow> d)\<rparr>"

section \<open>The boundary of a turn\<close>

text \<open>The whole current state is spread into the new one, not only its scope.\<close>

definition assistantReadyAtBoundary ::
    "harness_config \<Rightarrow> lane_state \<Rightarrow> operation_state \<Rightarrow> jstr \<Rightarrow> jstr \<Rightarrow> bool \<Rightarrow> operation_state" where
  "assistantReadyAtBoundary cf lane current stepId trigger used =
     \<lparr>os_scope = os_scope current, os_leaf = AssistantReady
        \<lparr>gc_stepId = stepId, gc_triggerEntryId = trigger, gc_configuration = la_configuration lane,
         gc_streamOptions = hc_streamOptions cf, gc_retryPolicy = normalizedRetryPolicy cf, gc_overflowRecoveryUsed = used\<rparr> 1
        (Some (os_leaf current))\<rparr>"

record boundary_placement =
  bo_entries :: "new_entry list"
  bo_writes :: "lane_write list"
  bo_tipId :: "jstr option"
  bo_inbox :: "inbox_item list"
  bo_triggerEntryId :: "jstr option"
  bo_queues :: "queued_item list option"

definition selected_of :: "mode \<Rightarrow> inbox_kind \<Rightarrow> inbox_item list \<Rightarrow> inbox_item list" where
  "selected_of md k inbox = (case md of AllAtOnce \<Rightarrow> inboxItems inbox k | OneByOne \<Rightarrow> take 1 (inboxItems inbox k))"

definition load_item :: "lane_store \<Rightarrow> inbox_item \<Rightarrow> lane_fault + inbox_item \<times> pending_entry" where
  "load_item st i =
     (case get_pending st (in_entryId i) of
        None \<Rightarrow> Inl (MissingPayload (in_entryId i))
      | Some p \<Rightarrow>
          if in_kind i \<noteq> WriteItem \<and> (case p of PendingMessage m \<Rightarrow> False | _ \<Rightarrow> True) then Inl (PayloadNotMessage (in_entryId i))
          else Inr (i, p))"

definition projects :: "harness_config \<Rightarrow> pending_entry \<Rightarrow> bool" where
  "projects cf p = (case p of PendingMessage m \<Rightarrow> True | PendingCustom t d \<Rightarrow> hc_projectors cf t \<noteq> None)"

text \<open>The id of the last entry that the model sees.\<close>

definition last_trigger :: "harness_config \<Rightarrow> (inbox_item \<times> pending_entry) list \<Rightarrow> jstr option" where
  "last_trigger cf ps = map_option (in_entryId \<circ> fst) (List.find (projects cf \<circ> snd) (rev ps))"

definition place_selected ::
    "jstr \<Rightarrow> harness_config \<Rightarrow> lane_store \<Rightarrow> inbox_item list \<Rightarrow> jstr option \<Rightarrow> inbox_item list \<Rightarrow> (inbox_item \<times> pending_entry) list \<Rightarrow>
     lane_fault + boundary_placement" where
  "place_selected name cf st inbox0 tip selected pending =
     (let entries = chainEntries tip (map (\<lambda>(i, p). pendingEntryWrite (in_entryId i) p) pending);
          parent = (if entries = [] then tip else Some (entry_id (last entries)));
          inbox = withoutInboxItems inbox0 selected
      in bindE (if selected = [] then Inr None else bindE (readLaneQueues st inbox) (\<lambda>q. Inr (Some q))) (\<lambda>queues.
         Inr \<lparr>bo_entries = entries,
           bo_writes = map InsertEntry entries @ delete_pending selected @ (if entries = [] then [] else [set_tip name parent]),
           bo_tipId = parent, bo_inbox = inbox, bo_triggerEntryId = last_trigger cf pending, bo_queues = queues\<rparr>))"

definition planBoundaryInbox ::
    "jstr \<Rightarrow> harness_config \<Rightarrow> lane_state \<Rightarrow> operation_scope \<Rightarrow> lane_store \<Rightarrow> jstr option \<Rightarrow> bool \<Rightarrow> lane_fault + boundary_placement" where
  "planBoundaryInbox name cf lane scope st tip followUpWhenNoTrigger =
     (let inbox = la_inbox lane;
          steer = selected_of (rs_steeringMode (sc_settings scope)) SteerItem inbox;
          selected = filter (\<lambda>i. in_kind i = WriteItem \<or> in_entryId i \<in> in_entryId ` set steer) inbox
      in bindE (mapE (load_item st) selected) (\<lambda>pending.
         if followUpWhenNoTrigger \<and> list_all (\<lambda>p. \<not> projects cf (snd p)) pending
         then (let more = selected_of (rs_followUpMode (sc_settings scope)) FollowUpItem inbox;
                   all = filter (\<lambda>i. i \<in> set selected \<or> i \<in> set more) inbox
               in bindE (mapE (load_item st) all) (place_selected name cf st inbox tip all))
         else place_selected name cf st inbox tip selected pending))"

definition boundaryPlacementEvents :: "boundary_placement \<Rightarrow> commit_result \<Rightarrow> nat \<Rightarrow> jstr \<Rightarrow> jstr \<Rightarrow> harness_event list" where
  "boundaryPlacementEvents pl c first lane runId =
     committedEntryEvents (bo_entries pl) c lane (Some runId) first @
     (case bo_queues pl of None \<Rightarrow> [] | Some q \<Rightarrow> [lane_event lane (EvQueueUpdate q)])"

definition placement_patch :: "boundary_placement \<Rightarrow> lane_patch" where
  "placement_patch pl = \<lparr>pa_tipId = Some (bo_tipId pl), pa_configuration = None, pa_inbox = Some (bo_inbox pl)\<rparr>"

text \<open>What a procedure answers: it goes on, it has settled the operation, or it wants a hook before the run ends.\<close>

datatype procedure_result =
    ContinueResult
  | SettledResult operation_result
  | FinishPending "jstr list"

definition run_end_event :: "jstr \<Rightarrow> operation_meta \<Rightarrow> operation_result \<Rightarrow> harness_event" where
  "run_end_event name m r =
     lane_event name (EvRunEnd (me_operationId m) (or_status r) (or_error r) (me_sourceTipId m) (or_tipId r) (or_endedAt r))"

text \<open>
  The end of a run (\<open>finishRunBoundary\<close>): input that arrived meanwhile renews it, then the message of the hook, if what the
  hook saw is still what is placed; otherwise the run is completed.
\<close>

definition finishRunBoundary ::
    "jstr \<Rightarrow> harness_config \<Rightarrow> bool \<Rightarrow> jstr list \<Rightarrow> harness_event list \<Rightarrow> (jstr \<times> jstr) option \<Rightarrow> jstr \<Rightarrow> int \<Rightarrow>
     procedure_result op_planner" where
  "finishRunBoundary name cf includeFinal planned pendingEvents followUp stepId now lane s m st =
     bindE (planBoundaryInbox name cf lane (os_scope s) st (la_tipId lane) True) (\<lambda>pl.
     let events = (\<lambda>c. pendingEvents @ boundaryPlacementEvents pl c 0 name (me_operationId m)) in
     case bo_triggerEntryId pl of
       Some trigger \<Rightarrow>
         Inr (OpCommit (bo_writes pl) (assistantReadyAtBoundary cf lane s stepId trigger False)
           (placement_patch pl) ContinueResult events)
     | None \<Rightarrow>
         if map entry_id (bo_entries pl) = planned \<and> followUp \<noteq> None
         then (case the followUp of (i, text) \<Rightarrow>
           let e = (message_entry i (UserMessage (PlainText text) now))\<lparr>entry_parentId := bo_tipId pl\<rparr> in
           Inr (OpCommit (bo_writes pl @ [InsertEntry e, set_tip name (Some i)])
             (assistantReadyAtBoundary cf lane s stepId i False)
             ((placement_patch pl)\<lparr>pa_tipId := Some (Some i)\<rparr>) ContinueResult
             (\<lambda>c. events c @ entryLifecycleEvents
               (materializeCommittedEntry e (result_seqs c ! length (bo_writes pl)) (result_timestamp c)) name
               (Some (me_operationId m)))))
         else if bo_tipId pl = None then Inl (InvariantFault (js ''no tip''))
         else if includeFinal \<and> sc_latestAssistantEntryId (os_scope s) = None then Inl (InvariantFault (js ''no final assistant''))
         else bindE (operationResultRecord m CompletedStatus (bo_tipId pl) None now) (\<lambda>r.
           Inr (OpFinish (bo_writes pl @ operationCleanupWrites st (me_operationId m) s) r (placement_patch pl) (SettledResult r)
             (\<lambda>c. events c @ [run_end_event name m r]))))"

section \<open>Starting and checkpoints\<close>

text \<open>\<open>startRun\<close> with the messages that the hook injects, under their new ids.\<close>

definition startRun :: "jstr \<Rightarrow> (jstr \<times> agent_message) list \<Rightarrow> procedure_result op_planner" where
  "startRun name reserved lane s m st =
     (let entries = chainEntries (la_tipId lane) (map (\<lambda>(i, x). message_entry i x) reserved) in
      if os_leaf s \<noteq> Starting then Inl NoOperation
      else case (if entries = [] then la_tipId lane else Some (entry_id (last entries))) of
        None \<Rightarrow> Inl (InvariantFault (js ''no trigger''))
      | Some trigger \<Rightarrow>
          Inr (OpCommit
            (map InsertEntry entries @ (if entries = [] then [] else [set_tip name (Some trigger)]))
            \<lparr>os_scope = os_scope s, os_leaf = Checkpoint \<lparr>ck_continuation = NeedAssistant False, ck_triggerEntryId = trigger\<rparr>\<rparr>
            (tip_patch (Some trigger)) ContinueResult
            (\<lambda>c. committedEntryEvents entries c name (Some (me_operationId m)) 0)))"

text \<open>The prompt of a run, for the hook.\<close>

definition read_prompt :: "lane_store \<Rightarrow> operation_meta \<Rightarrow> lane_fault + agent_message list" where
  "read_prompt st m =
     (case me_intent m of
        RunIntent ps \<Rightarrow>
          mapE (\<lambda>i. case get_entry st i of
              Some e \<Rightarrow> (case entry_body e of Message x t \<Rightarrow> Inr x | _ \<Rightarrow> Inl (MissingPayload i))
            | None \<Rightarrow> Inl (MissingPayload i)) ps
      | _ \<Rightarrow> Inl (InvariantFault (js ''non-run intent'')))"

text \<open>\<open>runCheckpoint\<close>, with the preparation of a compaction when one is due, under the id of its task.\<close>

definition runCheckpoint ::
    "jstr \<Rightarrow> harness_config \<Rightarrow> (jstr \<times> structural_preparation) option \<Rightarrow> jstr \<Rightarrow> procedure_result op_planner" where
  "runCheckpoint name cf threshold stepId lane s m st =
     (case os_leaf s of
        Checkpoint ck \<Rightarrow>
          bindE (planBoundaryInbox name cf lane (os_scope s) st (la_tipId lane)
              (threshold = None \<and> (case ck_continuation ck of MayFinish f \<Rightarrow> True | _ \<Rightarrow> False))) (\<lambda>pl.
          let events = (\<lambda>c. boundaryPlacementEvents pl c 0 name (me_operationId m)) in
          case bo_triggerEntryId pl of
            Some trigger \<Rightarrow>
              Inr (OpCommit (bo_writes pl) (assistantReadyAtBoundary cf lane s stepId trigger False)
                (placement_patch pl) ContinueResult events)
          | None \<Rightarrow>
              (case threshold of
                 Some (taskId, preparation) \<Rightarrow>
                   Inr (OpCommit
                     (bo_writes pl @ [SetValue (PreparationKey (me_operationId m) taskId) (PreparationValue preparation)])
                     \<lparr>os_scope = os_scope s, os_leaf = SummaryDeciding
                        \<lparr>ta_taskId = taskId, ta_reason = Some ThresholdReason, ta_customInstructions = None,
                         ta_boundary = ResumeCheckpoint ck\<rparr>\<rparr>
                     (placement_patch pl) ContinueResult
                     (\<lambda>c. events c @ [lane_event name (EvCompactionStart (me_operationId m) ThresholdReason (result_timestamp c))]))
               | None \<Rightarrow>
                   (case ck_continuation ck of
                      NeedAssistant used \<Rightarrow>
                        Inr (OpCommit (bo_writes pl)
                          (assistantReadyAtBoundary cf lane s stepId (ck_triggerEntryId ck) used)
                          (placement_patch pl) ContinueResult events)
                    | MayFinish f \<Rightarrow> Inr (OpReturn (FinishPending (map entry_id (bo_entries pl)))))))
      | _ \<Rightarrow> Inl NoOperation)"

section \<open>Generation\<close>

text \<open>\<open>publishGenerationIntent\<close>: the request is recorded before it is made.\<close>

definition publishGenerationIntent :: "jstr \<Rightarrow> jstr \<Rightarrow> jstr \<Rightarrow> int \<Rightarrow> int \<Rightarrow> unit op_planner" where
  "publishGenerationIntent name responseId usageId maxTokens contextWindow lane s m st =
     (case os_leaf s of
        AssistantReady g n kept \<Rightarrow>
          Inr (OpCommit [] \<lparr>os_scope = os_scope s, os_leaf = AssistantEffectPending g n responseId usageId maxTokens contextWindow\<rparr>
            no_patch ()
            (\<lambda>c. if n = 1 then [lane_event name (EvTurnStart (me_operationId m) (gc_stepId g))] else []))
      | _ \<Rightarrow> Inl NoOperation)"

text \<open>The end of a wait, \<open>runRetryWait\<close> and \<open>runStructuralRetryWait\<close>.\<close>

definition finish_retry_wait :: "jstr \<Rightarrow> procedure_result op_planner" where
  "finish_retry_wait name lane s m st =
     (case os_leaf s of
        AssistantRetryWait g w \<Rightarrow>
          Inr (OpCommit [] \<lparr>os_scope = os_scope s, os_leaf = AssistantReady g (rw_nextAttempt w) None\<rparr> no_patch ContinueResult
            (\<lambda>c. [lane_event name (EvRetryStart (me_operationId m) (gc_stepId g) (rw_nextAttempt w))]))
      | SummaryRetryWait t x w \<Rightarrow>
          Inr (OpCommit [] \<lparr>os_scope = os_scope s, os_leaf = SummaryReady t x (rw_nextAttempt w)\<rparr> no_patch ContinueResult
            (\<lambda>c. [lane_event name (EvRetryStart (me_operationId m) (ta_taskId t) (rw_nextAttempt w))]))
      | _ \<Rightarrow> Inl NoOperation)"

text \<open>A request that cannot be made, \<open>publishConfigurationFailure\<close>.\<close>

definition publishConfigurationFailure :: "jstr \<Rightarrow> operation_error \<Rightarrow> int \<Rightarrow> procedure_result op_planner" where
  "publishConfigurationFailure name e now lane s m st =
     (if la_tipId lane = None then Inl (InvariantFault (js ''no tip''))
      else bindE (operationResultRecord m FailedStatus (la_tipId lane) (Some e) now) (\<lambda>r.
        Inr (OpFinish (operationCleanupWrites st (me_operationId m) s) r no_patch (SettledResult r)
          (\<lambda>c. [run_end_event name m r]))))"

section \<open>Cancellation\<close>

text \<open>\<open>publishAbortedTerminal\<close>.\<close>

definition publishAbortedTerminal :: "jstr \<Rightarrow> int \<Rightarrow> procedure_result op_planner" where
  "publishAbortedTerminal name now lane s m st =
     (if \<not> cancelled s then Inl (InvariantFault (js ''not cancelled''))
      else bindE (operationResultRecord m AbortedStatus (la_tipId lane) None now) (\<lambda>r.
        bindE (case me_intent m of
            RunIntent ps \<Rightarrow>
              bindE (case leaf_task (os_leaf s) of
                  None \<Rightarrow> Inr []
                | Some t \<Rightarrow>
                    (case (ta_boundary t, ta_reason t) of
                       (ResumeCheckpoint ck, Some reason) \<Rightarrow>
                         Inr [lane_event name (EvCompactionEnd (me_operationId m) reason AbortedStatus None None now)]
                     | _ \<Rightarrow> Inl (InvariantFault (js ''invalid result boundary'')))) (\<lambda>es.
              Inr (es @ [run_end_event name m r]))
          | CompactionIntent c \<Rightarrow>
              Inr [lane_event name (EvCompactionEnd (me_operationId m) ManualReason AbortedStatus None None now)]
          | NavigationIntent t z l c \<Rightarrow>
              Inr [lane_event name (EvNavigationEnd (me_operationId m) AbortedStatus None (me_sourceTipId m) (la_tipId lane) now)]) (\<lambda>events.
        Inr (OpFinish (operationCleanupWrites st (me_operationId m) s) r no_patch (SettledResult r) (\<lambda>c. events)))))"

end
