(* ===== verification/DriveResponse.thy ===== *)
theory DriveResponse
  imports DriveRun
begin

text \<open>
  The settling of a response (\<open>harness/runtime/drive/response.ts\<close>) and the polls of a deferred one (\<open>deferred.ts\<close>).
  Whether a message is a context overflow or a transient error is decided by patterns on its text, which are arguments.
\<close>

section \<open>Deferred handles\<close>

text \<open>The handle of a message is one of the fields that its record does not name.\<close>

definition json_field :: "json \<Rightarrow> string \<Rightarrow> json option" where
  "json_field j k = (case j of JObj fs \<Rightarrow> map_of fs (js k) | _ \<Rightarrow> None)"

definition as_deferred :: "assistant_message \<Rightarrow> json option" where
  "as_deferred a = json_field (as_other a) ''deferred''"

definition text_field :: "json \<Rightarrow> string \<Rightarrow> jstr option" where
  "text_field j k = (case json_field j k of Some (JStr t) \<Rightarrow> Some t | _ \<Rightarrow> None)"

definition handle_ok :: "assistant_message \<Rightarrow> model_identity \<Rightarrow> json \<Rightarrow> bool" where
  "handle_ok a identity h \<longleftrightarrow>
     (case text_field h ''id'' of Some i \<Rightarrow> i \<noteq> [] | None \<Rightarrow> False) \<and>
     text_field h ''provider'' = Some (mi_provider identity) \<and> text_field h ''modelId'' = Some (mi_modelId identity) \<and>
     text_field h ''api'' = Some (as_api a)"

definition deferredHandleIsValid :: "assistant_message \<Rightarrow> generation_context \<Rightarrow> bool" where
  "deferredHandleIsValid a g \<longleftrightarrow>
     as_stopReason a = DeferredStop \<and>
     (case as_deferred a of None \<Rightarrow> False | Some h \<Rightarrow> handle_ok a (lc_model (gc_configuration g)) h)"

definition readDeferredSourceHandle :: "lane_store \<Rightarrow> deferred_scope \<Rightarrow> lane_fault + json" where
  "readDeferredSourceHandle st d =
     (case get_entry st (df_sourceEntryId d) of
        None \<Rightarrow> Inl (MissingPayload (df_sourceEntryId d))
      | Some e \<Rightarrow>
          (case entry_body e of
             Message (AssistantMessage a) t \<Rightarrow>
               (case as_deferred a of
                  Some h \<Rightarrow>
                    if as_stopReason a = DeferredStop
                    then if handle_ok a (lc_model (df_configuration d)) h then Inr h
                      else Inl (InvariantFault (js ''invalid handle''))
                    else Inl (MissingPayload (df_sourceEntryId d))
                | None \<Rightarrow> Inl (MissingPayload (df_sourceEntryId d)))
           | _ \<Rightarrow> Inl (MissingPayload (df_sourceEntryId d))))"

section \<open>Responses\<close>

definition stop_text :: "stop_reason \<Rightarrow> jstr" where
  "stop_text r =
     js (case r of PendingStop \<Rightarrow> ''pending'' | Stop \<Rightarrow> ''stop'' | LengthStop \<Rightarrow> ''length'' | ToolUse \<Rightarrow> ''toolUse''
       | ErrorStop \<Rightarrow> ''error'' | AbortedStop \<Rightarrow> ''aborted'' | DeferredStop \<Rightarrow> ''deferred'')"

datatype response_source = AssistantSource | DeferredSource

definition source_text :: "response_source \<Rightarrow> jstr" where
  "source_text x = js (case x of AssistantSource \<Rightarrow> ''Assistant'' | DeferredSource \<Rightarrow> ''Deferred'')"

definition providerError :: "response_source \<Rightarrow> assistant_message \<Rightarrow> operation_error" where
  "providerError x a =
     \<lparr>er_code = js ''assistant_error'',
      er_message = (case as_errorMessage a of Some t \<Rightarrow> t
        | None \<Rightarrow> source_text x @ js '' request ended with '' @ stop_text (as_stopReason a)),
      er_details = None\<rparr>"

definition normalizeError :: "assistant_message \<Rightarrow> jstr \<Rightarrow> assistant_message" where
  "normalizeError a t = a\<lparr>as_stopReason := ErrorStop, as_errorMessage := Some t\<rparr>"

definition normalizeAborted :: "response_source \<Rightarrow> assistant_message \<Rightarrow> assistant_message" where
  "normalizeAborted x a =
     a\<lparr>as_stopReason := AbortedStop,
       as_errorMessage := Some (case as_errorMessage a of Some t \<Rightarrow> t | None \<Rightarrow> source_text x @ js '' request was cancelled'')\<rparr>"

definition tool_call_indices :: "assistant_message \<Rightarrow> nat list" where
  "tool_call_indices a =
     filter (\<lambda>i. case as_content a ! i of ToolCallBlock x n as \<Rightarrow> True | _ \<Rightarrow> False) [0..<length (as_content a)]"

text \<open>What was waited for: a generation, or the poll of a deferred response.\<close>

record response_intent =
  ri_source :: response_source
  ri_responseEntryId :: jstr
  ri_usageId :: jstr
  ri_configuration :: lane_configuration
  ri_turnId :: jstr
  ri_attempt :: int

definition poll_turn :: "deferred_scope \<Rightarrow> nat \<Rightarrow> jstr" where
  "poll_turn d n = df_stepId d @ js '':poll:'' @ nat_text n"

definition intent_of :: "operation_leaf \<Rightarrow> response_intent option" where
  "intent_of l =
     (case l of
        AssistantEffectPending g n response u maxTokens w \<Rightarrow>
          Some \<lparr>ri_source = AssistantSource, ri_responseEntryId = response, ri_usageId = u, ri_configuration = gc_configuration g,
            ri_turnId = gc_stepId g, ri_attempt = n\<rparr>
      | DeferredEffectPending d response u \<Rightarrow>
          Some \<lparr>ri_source = DeferredSource, ri_responseEntryId = response, ri_usageId = u, ri_configuration = df_configuration d,
            ri_turnId = poll_turn d (df_poll d), ri_attempt = 1\<rparr>
      | _ \<Rightarrow> None)"

text \<open>What the process knows of a response.\<close>

record response_facts =
  rf_overflow :: bool
  rf_overflowPreparation :: "(jstr \<times> structural_preparation) option"
  rf_retryable :: bool
  rf_recovery :: bool
  rf_callIds :: "nat \<Rightarrow> jstr"
  rf_now :: int

datatype disposition =
    Settle assistant_message operation_leaf
  | Fail assistant_message operation_error

text \<open>The classification of a response: what is stored as the message, and where the operation goes or that it fails.\<close>

definition may_finish :: "jstr \<Rightarrow> operation_leaf" where
  "may_finish response = Checkpoint \<lparr>ck_continuation = MayFinish True, ck_triggerEntryId = response\<rparr>"

definition overflow_task :: "jstr \<Rightarrow> generation_context \<Rightarrow> summary_task" where
  "overflow_task taskId g =
     \<lparr>ta_taskId = taskId, ta_reason = Some OverflowReason, ta_customInstructions = None,
      ta_boundary = ResumeCheckpoint \<lparr>ck_continuation = NeedAssistant True, ck_triggerEntryId = gc_triggerEntryId g\<rparr>\<rparr>"

definition classify_complete :: "response_intent \<Rightarrow> response_facts \<Rightarrow> assistant_message \<Rightarrow> disposition" where
  "classify_complete ri rf a =
     (let calls = tool_call_indices a in
      if calls \<noteq> []
      then Settle a (ToolsLeaf \<lparr>tb_assistantEntryId = ri_responseEntryId ri, tb_configuration = ri_configuration ri,
        tb_turnId = ri_turnId ri,
        tb_calls = map (\<lambda>i. \<lparr>bc_sourceIndex = i, bc_resultEntryId = rf_callIds rf i, bc_status = Planned\<rparr>) calls\<rparr>)
      else if as_stopReason a = ToolUse
      then (let b = normalizeError a (js ''Provider reported tool use without any tool calls'') in Fail b (providerError (ri_source ri) b))
      else Settle a (may_finish (ri_responseEntryId ri)))"

definition classify_response :: "operation_state \<Rightarrow> response_intent \<Rightarrow> response_facts \<Rightarrow> assistant_message \<Rightarrow> lane_fault + disposition" where
  "classify_response s ri rf a =
     (if cancelled s then Inr (Settle (normalizeAborted (ri_source ri) a) (may_finish (ri_responseEntryId ri)))
      else if as_stopReason a = AbortedStop then Inl (InvariantFault (js ''aborted response''))
      else case os_leaf s of
        AssistantEffectPending g n response u maxTokens w \<Rightarrow>
          if rf_overflow rf
          then (let b = normalizeError a (case as_errorMessage a of Some t \<Rightarrow> t
                      | None \<Rightarrow> js ''Assistant request exceeded the context window'')
                in Inr (case rf_overflowPreparation rf of
                     Some (taskId, preparation) \<Rightarrow>
                       if gc_overflowRecoveryUsed g then Fail b (providerError AssistantSource b)
                       else Settle b (SummaryDeciding (overflow_task taskId g))
                   | None \<Rightarrow> Fail b (providerError AssistantSource b)))
          else if as_stopReason a = DeferredStop
          then Inr (if deferredHandleIsValid a g
            then Settle a (DeferredSuspended \<lparr>df_stepId = gc_stepId g, df_sourceEntryId = response, df_poll = 0,
              df_configuration = gc_configuration g, df_streamOptions = gc_streamOptions g\<rparr>)
            else (let b = normalizeError a (js ''Provider returned an invalid deferred handle'')
              in Fail b (providerError AssistantSource b)))
          else if as_stopReason a = ErrorStop
          then Inr (if (rf_recovery rf \<or> rf_retryable rf) \<and> n < rp_maxAttempts (gc_retryPolicy g)
            then Settle a (AssistantRetryWait g
              \<lparr>rw_nextAttempt = n + 1, rw_notBefore = retryNotBefore (gc_retryPolicy g) n (rf_now rf),
               rw_errorMessage = (case as_errorMessage a of Some t \<Rightarrow> t | None \<Rightarrow> js ''Assistant request failed'')\<rparr>)
            else Fail a (providerError AssistantSource a))
          else Inr (classify_complete ri rf a)
      | DeferredEffectPending d response u \<Rightarrow>
          Inr (if as_stopReason a = DeferredStop then Settle a (DeferredSuspended (d\<lparr>df_sourceEntryId := response\<rparr>))
            else if as_stopReason a = ErrorStop then Fail a (providerError DeferredSource a)
            else classify_complete ri rf a)
      | _ \<Rightarrow> Inl NoOperation)"

definition is_tools :: "operation_leaf option \<Rightarrow> bool" where
  "is_tools l = (case l of Some (ToolsLeaf b) \<Rightarrow> True | _ \<Rightarrow> False)"

definition retry_of :: "operation_leaf option \<Rightarrow> (generation_context \<times> retry_wait) option" where
  "retry_of l = (case l of Some (AssistantRetryWait g w) \<Rightarrow> Some (g, w) | _ \<Rightarrow> None)"

text \<open>The events behind the entry and its usage.\<close>

definition response_events ::
    "jstr \<Rightarrow> jstr \<Rightarrow> operation_leaf \<Rightarrow> response_intent \<Rightarrow> bool \<Rightarrow> assistant_message \<Rightarrow> operation_leaf option \<Rightarrow> commit_result \<Rightarrow>
     harness_event list" where
  "response_events name p leaf ri recovery committed settled c =
     (let step = ri_turnId ri;
          turn_end = EvTurnEnd p step committed [];
          suspended = (case (settled, as_deferred committed) of
            (Some (DeferredSuspended d), Some h) \<Rightarrow> [EvRunSuspend p h (df_poll d)] | _ \<Rightarrow> [])
      in if ri_source ri = AssistantSource
         then map (lane_event name)
           ((if \<not> recovery \<and> 1 < ri_attempt ri \<and> retry_of settled = None
             then (let success = as_stopReason committed \<noteq> ErrorStop \<and> as_stopReason committed \<noteq> AbortedStop
               in [EvRetryEnd p step (ri_attempt ri) success
                 (if success then None else Some (case as_errorMessage committed of Some t \<Rightarrow> t
                   | None \<Rightarrow> js ''Assistant request ended with '' @ stop_text (as_stopReason committed)))])
             else []) @
            (case (recovery, retry_of settled, leaf) of
               (False, Some (g, w), AssistantEffectPending g0 n r u o' x) \<Rightarrow>
                 [EvRetryScheduled p step (rw_nextAttempt w) (rp_maxAttempts (gc_retryPolicy g)) (retryDelayMs (gc_retryPolicy g0) n)
                   (rw_notBefore w) (rw_errorMessage w)]
             | _ \<Rightarrow> []) @
            (if \<not> recovery \<and> \<not> is_tools settled \<and> retry_of settled = None then [turn_end] else []) @
            (case settled of Some (SummaryDeciding t) \<Rightarrow> [EvCompactionStart p OverflowReason (result_timestamp c)] | _ \<Rightarrow> []) @
            (if recovery then [] else suspended))
         else map (recovery_event recovery name) ((if is_tools settled then [] else [turn_end]) @ suspended))"

text \<open>\<open>publishResponse\<close>: entry, usage, tip and the new state in one commit.\<close>

definition publishResponse :: "jstr \<Rightarrow> response_facts \<Rightarrow> assistant_message \<Rightarrow> procedure_result op_planner" where
  "publishResponse name rf a lane s m st =
     (case intent_of (os_leaf s) of
        None \<Rightarrow> Inl NoOperation
      | Some ri \<Rightarrow>
          bindE (classify_response s ri rf a) (\<lambda>d.
          let response = ri_responseEntryId ri;
              p = me_operationId m;
              committed = (case d of Settle b l \<Rightarrow> b | Fail b e \<Rightarrow> b);
              settled = (case d of Settle b l \<Rightarrow> Some l | Fail b e \<Rightarrow> None);
              entry = (message_entry response (AssistantMessage committed))\<lparr>entry_parentId := la_tipId lane\<rparr>;
              row = \<lparr>row_id = ri_usageId ri, row_usage = as_usage committed, row_entryId = Some response,
                row_adjustment = False, row_details = None\<rparr>;
              base = [InsertEntry entry, InsertUsage row, set_tip name (Some response)];
              events = (\<lambda>c. recovery_event (rf_recovery rf) name
                  (EvEntryAdded (materializeCommittedEntry entry (result_seqs c ! 0) (result_timestamp c))) #
                usage_event row 1 c name # response_events name p (os_leaf s) ri (rf_recovery rf) committed settled c)
          in case d of
               Fail b e \<Rightarrow>
                 bindE (operationResultRecord m FailedStatus (Some response) (Some e) (rf_now rf)) (\<lambda>r.
                 Inr (OpFinish (base @ operationCleanupWrites st p s) r (tip_patch (Some response)) (SettledResult r)
                   (\<lambda>c. events c @ [run_end_event name m r])))
             | Settle b l \<Rightarrow>
                 Inr (OpCommit
                   (base @ [DeleteFrames p response] @
                    (case (l, rf_overflowPreparation rf) of
                       (SummaryDeciding t, Some (taskId, preparation)) \<Rightarrow>
                         [SetValue (PreparationKey p taskId) (PreparationValue preparation)]
                     | _ \<Rightarrow> []))
                   \<lparr>os_scope = (os_scope s)\<lparr>sc_latestAssistantEntryId := Some response\<rparr>, os_leaf = l\<rparr>
                   (tip_patch (Some response)) ContinueResult events)))"

section \<open>Polls\<close>

text \<open>\<open>publishPollIntent\<close>, from a suspended response or from a poll whose outcome is unknown.\<close>

definition poll_events :: "jstr \<Rightarrow> jstr \<Rightarrow> bool \<Rightarrow> deferred_scope \<Rightarrow> harness_event list" where
  "poll_events name p recovery d =
     map (recovery_event recovery name) [EvRunResume p, EvTurnStart p (poll_turn d (df_poll d))]"

definition publishPollIntent :: "jstr \<Rightarrow> jstr \<Rightarrow> jstr \<Rightarrow> unit op_planner" where
  "publishPollIntent name responseId usageId lane s m st =
     (case os_leaf s of
        DeferredSuspended d \<Rightarrow>
          (let d' = d\<lparr>df_poll := df_poll d + 1\<rparr> in
           Inr (OpCommit [] \<lparr>os_scope = os_scope s, os_leaf = DeferredEffectPending d' responseId usageId\<rparr> no_patch ()
             (\<lambda>c. poll_events name (me_operationId m) False d')))
      | DeferredEffectPending d old u \<Rightarrow>
          Inr (OpCommit [DeleteFrames (me_operationId m) old]
            \<lparr>os_scope = os_scope s, os_leaf = DeferredEffectPending d responseId usageId\<rparr> no_patch ()
            (\<lambda>c. poll_events name (me_operationId m) True d))
      | _ \<Rightarrow> Inl NoOperation)"

section \<open>Interrupted requests\<close>

text \<open>\<open>interruptedAssistantMessage\<close> of \<open>recovery.ts\<close>, from what the committed frames give.\<close>

definition interruption_warning :: jstr where
  "interruption_warning = js ''Assistant request was interrupted. The preceding content is the latest committed partial; newer live output may be missing and the external outcome is unknown.''"

definition zero_usage :: "number usage" where
  "zero_usage =
     \<lparr>usage_input = 0, usage_output = 0, usage_cacheRead = 0, usage_cacheWrite = 0, usage_cacheWrite1h = None,
      usage_reasoning = None, usage_totalTokens = 0,
      usage_cost = \<lparr>cost_input = NInt 0, cost_output = NInt 0, cost_cacheRead = NInt 0, cost_cacheWrite = NInt 0, cost_total = NInt 0\<rparr>\<rparr>"

definition interruptedAssistantMessage :: "model_identity \<Rightarrow> assistant_message option \<Rightarrow> int \<Rightarrow> assistant_message" where
  "interruptedAssistantMessage identity partial now =
     (case partial of
        Some a \<Rightarrow> a\<lparr>as_usage := zero_usage, as_stopReason := ErrorStop, as_errorMessage := Some interruption_warning\<rparr>
      | None \<Rightarrow>
          \<lparr>as_content = [], as_api = js ''unknown'', as_provider = mi_provider identity, as_model = mi_modelId identity,
           as_usage = zero_usage, as_stopReason = ErrorStop, as_errorMessage = Some interruption_warning, as_timestamp = now,
           as_other = JObj []\<rparr>)"

section \<open>Progress\<close>

text \<open>\<open>openFrameProgress\<close> of \<open>progress.ts\<close>: a frame is appended only while the request still owns the operation.\<close>

definition owns_frames :: "lane_state \<Rightarrow> jstr \<Rightarrow> bool" where
  "owns_frames lane response \<longleftrightarrow>
     (case la_operation lane of None \<Rightarrow> False | Some p \<Rightarrow> frames_of (os_leaf (op_state p)) = Some response)"

definition write_frame :: "jstr \<Rightarrow> jstr \<Rightarrow> frame \<Rightarrow> unit planner" where
  "write_frame operationId response f lane st =
     (if owns_frames lane response then Inr (Commit [AppendFrame operationId response f] lane () (\<lambda>c. []))
      else Inr (Return ()))"

end
