(* ===== verification/DriveTools.thy ===== *)
theory DriveTools
  imports DriveResponse
begin

text \<open>
  The durable tool batch of a run (\<open>harness/runtime/drive/tools.ts\<close>, \<open>tool-placement.ts\<close>): a call is planned, its effect is
  recorded before the tool runs, its outcome is staged, and staged outcomes are placed on the branch in the order of the
  calls. What the tools and hooks gave is an argument.
\<close>

section \<open>Calls\<close>

definition findCall :: "tool_batch \<Rightarrow> nat \<Rightarrow> jstr \<Rightarrow> batch_call option" where
  "findCall b i r = List.find (\<lambda>c. bc_sourceIndex c = i \<and> bc_resultEntryId c = r) (tb_calls b)"

definition same_call :: "batch_call \<Rightarrow> batch_call \<Rightarrow> bool" where
  "same_call c d \<longleftrightarrow> bc_sourceIndex c = bc_sourceIndex d \<and> bc_resultEntryId c = bc_resultEntryId d"

definition replaceCall :: "tool_batch \<Rightarrow> batch_call \<Rightarrow> tool_batch" where
  "replaceCall b r = b\<lparr>tb_calls := map (\<lambda>c. if same_call c r then r else c) (tb_calls b)\<rparr>"

definition with_batch :: "operation_state \<Rightarrow> tool_batch \<Rightarrow> operation_state" where
  "with_batch s b = s\<lparr>os_leaf := ToolsLeaf b\<rparr>"

text \<open>The call's block in the response.\<close>

definition call_block :: "lane_store \<Rightarrow> tool_batch \<Rightarrow> nat \<Rightarrow> lane_fault + jstr \<times> jstr \<times> (jstr \<times> json) list" where
  "call_block st b i =
     (case get_entry st (tb_assistantEntryId b) of
        Some e \<Rightarrow>
          (case entry_body e of
             Message (AssistantMessage a) t \<Rightarrow>
               if i < length (as_content a)
               then (case as_content a ! i of ToolCallBlock x n args \<Rightarrow> Inr (x, n, args) | _ \<Rightarrow> Inl (InvariantFault (js ''no tool call'')))
               else Inl (InvariantFault (js ''no tool call''))
           | _ \<Rightarrow> Inl (InvariantFault (js ''no assistant'')))
      | None \<Rightarrow> Inl (InvariantFault (js ''no assistant'')))"

text \<open>\<open>readToolBatchSource\<close>: every call of the batch names a call of the response.\<close>

definition readToolBatchSource :: "lane_store \<Rightarrow> tool_batch \<Rightarrow> lane_fault + (nat \<times> jstr \<times> jstr \<times> (jstr \<times> json) list) list" where
  "readToolBatchSource st b = mapE (\<lambda>c. bindE (call_block st b (bc_sourceIndex c)) (\<lambda>x. Inr (bc_sourceIndex c, x))) (tb_calls b)"

section \<open>Intents and outcomes\<close>

text \<open>\<open>publishToolIntent\<close> for a planned call with its cleared arguments.\<close>

definition publishToolIntent ::
    "jstr \<Rightarrow> batch_call \<Rightarrow> jstr \<Rightarrow> jstr \<Rightarrow> json \<Rightarrow> call_replay \<Rightarrow> bool \<Rightarrow> batch_call op_planner" where
  "publishToolIntent name c callId toolName args replay recovery lane s m st =
     (case os_leaf s of
        ToolsLeaf b \<Rightarrow>
          (let pending = c\<lparr>bc_status := EffectPending replay\<rparr> in
           Inr (OpCommit
             [SetValue (ToolArgsKey (me_operationId m) (tb_turnId b) (bc_sourceIndex c)) (ArgsValue args)]
             (with_batch s (replaceCall b pending)) no_patch pending
             (\<lambda>x. [recovery_event recovery name (EvToolStart (me_operationId m) (tb_turnId b) callId toolName args)])))
      | _ \<Rightarrow> Inl NoOperation)"

definition toolResultFromMessage :: "tool_result \<Rightarrow> bool \<Rightarrow> tool_output" where
  "toolResultFromMessage r terminate =
     \<lparr>ou_content = Some (tr_content r), ou_details = tr_details r, ou_usage = tr_usage r,
      ou_terminate = (if terminate then Some True else None)\<rparr>"

text \<open>\<open>publishToolOutcome\<close>: the result is staged; a cancelled operation does not end by it.\<close>

definition publishToolOutcome ::
    "jstr \<Rightarrow> batch_call \<Rightarrow> jstr \<Rightarrow> jstr \<Rightarrow> json \<Rightarrow> tool_result \<Rightarrow> bool \<Rightarrow> bool \<Rightarrow> unit op_planner" where
  "publishToolOutcome name c callId toolName arguments r terminate recovery lane s m st =
     (case os_leaf s of
        ToolsLeaf b \<Rightarrow>
          (let p = me_operationId m;
               durable = \<not> cancelled s \<and> terminate;
               memos = stored_keys st (\<lambda>k. case k of ToolMemoKey q i n \<Rightarrow> q = p \<and> i = bc_resultEntryId c | _ \<Rightarrow> False)
           in Inr (OpCommit
             ([SetValue (PendingKey (bc_resultEntryId c)) (PendingValue (PendingMessage (ToolResultMessage r))),
               DeleteValue (ToolOutputKey p (bc_resultEntryId c))] @ map DeleteValue memos)
             (with_batch s (replaceCall b (c\<lparr>bc_status := OutcomeReady durable\<rparr>))) no_patch ()
             (\<lambda>x. map (recovery_event recovery name)
               ((if bc_status c = Planned then [EvToolStart p (tb_turnId b) callId toolName arguments] else []) @
                [EvToolEnd p (tb_turnId b) callId toolName (toolResultFromMessage r durable) (tr_isError r) durable]))))
      | _ \<Rightarrow> Inl NoOperation)"

section \<open>Synthetic outcomes\<close>

definition syntheticMessage :: "jstr \<Rightarrow> jstr \<Rightarrow> content_block list \<Rightarrow> json option \<Rightarrow> number usage option \<Rightarrow> int \<Rightarrow> tool_result" where
  "syntheticMessage callId toolName bs details u now =
     \<lparr>tr_toolCallId = callId, tr_toolName = toolName, tr_content = bs, tr_details = details, tr_usage = u, tr_isError = True,
      tr_timestamp = now\<rparr>"

definition abortedOutcome :: "jstr \<Rightarrow> jstr \<Rightarrow> int \<Rightarrow> tool_result" where
  "abortedOutcome callId toolName now =
     syntheticMessage callId toolName [TextBlock (js ''Tool execution was cancelled before completion.'') None] None None now"

definition interruption_marker :: jstr where
  "interruption_marker = js ''[Tool execution was interrupted. The preceding output is the latest durable progress snapshot; newer live output may be missing, and the external outcome is unknown.]''"

definition interruptedOutcome :: "jstr \<Rightarrow> jstr \<Rightarrow> tool_output option \<Rightarrow> int \<Rightarrow> tool_result" where
  "interruptedOutcome callId toolName checkpoint now =
     (case checkpoint of
        None \<Rightarrow> syntheticMessage callId toolName [TextBlock interruption_marker None] None None now
      | Some x \<Rightarrow> syntheticMessage callId toolName
          ((case ou_content x of None \<Rightarrow> [] | Some bs \<Rightarrow> bs) @ [TextBlock interruption_marker None]) (ou_details x) (ou_usage x) now)"

text \<open>\<open>quoted\<close> is the name as \<open>JSON.stringify\<close> writes it.\<close>

definition truncatedOutcome :: "jstr \<Rightarrow> jstr \<Rightarrow> jstr \<Rightarrow> int \<Rightarrow> tool_result" where
  "truncatedOutcome callId toolName quoted now =
     syntheticMessage callId toolName
       [TextBlock (js ''Tool call '' @ quoted @ js '' was not executed because the assistant response hit the output token limit, so its arguments may be truncated. Re-issue the tool call with complete arguments.'') None]
       None None now"

section \<open>Placement\<close>

text \<open>
  \<open>readPlacement\<close>: the calls with staged outcomes behind the completed ones, with their results. The answer is \<open>None\<close> when
  there are none.
\<close>

definition ready_calls :: "tool_batch \<Rightarrow> batch_call list" where
  "ready_calls b =
     takeWhile (\<lambda>c. case bc_status c of OutcomeReady t \<Rightarrow> True | _ \<Rightarrow> False)
       (dropWhile (\<lambda>c. case bc_status c of CallCompleted t \<Rightarrow> True | _ \<Rightarrow> False) (tb_calls b))"

definition staged_result :: "lane_store \<Rightarrow> tool_batch \<Rightarrow> batch_call \<Rightarrow> lane_fault + batch_call \<times> tool_result" where
  "staged_result st b c =
     (case get_pending st (bc_resultEntryId c) of
        Some (PendingMessage (ToolResultMessage r)) \<Rightarrow>
          bindE (call_block st b (bc_sourceIndex c)) (\<lambda>(x, n, args).
          if tr_toolCallId r \<noteq> x \<or> tr_toolName r \<noteq> n then Inl (InvariantFault (js ''mismatched staged result'')) else Inr (c, r))
      | _ \<Rightarrow> Inl (MissingPayload (bc_resultEntryId c)))"

definition placed_result :: "lane_store \<Rightarrow> (batch_call \<times> tool_result) list \<Rightarrow> batch_call \<Rightarrow> lane_fault + tool_result" where
  "placed_result st items c =
     (case List.find (\<lambda>x. bc_resultEntryId (fst x) = bc_resultEntryId c) items of
        Some x \<Rightarrow> Inr (snd x)
      | None \<Rightarrow>
          (case get_entry st (bc_resultEntryId c) of
             Some e \<Rightarrow> (case entry_body e of Message (ToolResultMessage r) t \<Rightarrow> Inr r | _ \<Rightarrow> Inl (MissingPayload (bc_resultEntryId c)))
           | None \<Rightarrow> Inl (MissingPayload (bc_resultEntryId c))))"

record placement_read =
  pr_items :: "(batch_call \<times> tool_result) list"
  pr_turnResults :: "tool_result list option"

definition readPlacement :: "operation_state \<Rightarrow> lane_store \<Rightarrow> lane_fault + placement_read option" where
  "readPlacement s st =
     (case os_leaf s of
        ToolsLeaf b \<Rightarrow>
          (let ready = ready_calls b;
               placed = length (takeWhile (\<lambda>c. case bc_status c of CallCompleted t \<Rightarrow> True | _ \<Rightarrow> False) (tb_calls b))
           in if ready = [] then Inr None
              else bindE (mapE (staged_result st b) ready) (\<lambda>items.
                if placed + length ready = length (tb_calls b)
                then bindE (mapE (placed_result st items) (tb_calls b)) (\<lambda>rs.
                  Inr (Some \<lparr>pr_items = items, pr_turnResults = Some rs\<rparr>))
                else Inr (Some \<lparr>pr_items = items, pr_turnResults = None\<rparr>)))
      | _ \<Rightarrow> Inr None)"

text \<open>The entry, the removal of the staged result and the usage of each placed call, from the given position on.\<close>

definition terminates :: "batch_call \<Rightarrow> bool" where
  "terminates c = (case bc_status c of OutcomeReady t \<Rightarrow> t | CallCompleted t \<Rightarrow> t | _ \<Rightarrow> False)"

definition result_entry :: "batch_call \<Rightarrow> tool_result \<Rightarrow> jstr option \<Rightarrow> new_entry" where
  "result_entry c r parent =
     \<lparr>entry_id = bc_resultEntryId c, entry_parentId = parent, entry_customType = None,
      entry_body = Message (ToolResultMessage r) (terminates c)\<rparr>"

fun placement_writes ::
    "jstr \<Rightarrow> jstr option \<Rightarrow> nat \<Rightarrow> (batch_call \<times> tool_result \<times> jstr) list \<Rightarrow>
     lane_write list \<times> jstr option \<times> (commit_result \<Rightarrow> harness_event list)" where
  "placement_writes name parent k [] = ([], parent, \<lambda>c. [])"
| "placement_writes name parent k ((c, r, usageId) # items) =
     (let e = result_entry c r parent;
          row = map_option (\<lambda>u. \<lparr>row_id = usageId, row_usage = u, row_entryId = Some (bc_resultEntryId c),
            row_adjustment = False, row_details = None\<rparr>) (tr_usage r);
          ws = [InsertEntry e, DeleteValue (PendingKey (bc_resultEntryId c))] @ (case row of None \<Rightarrow> [] | Some x \<Rightarrow> [InsertUsage x])
      in case placement_writes name (Some (bc_resultEntryId c)) (k + length ws) items of
           (ws2, tip, events) \<Rightarrow>
             (ws @ ws2, tip,
              \<lambda>x. lane_event name (EvEntryAdded (materializeCommittedEntry e (result_seqs x ! k) (result_timestamp x))) #
                (case row of None \<Rightarrow> [] | Some u \<Rightarrow> [usage_event u (k + 2) x name]) @ events x))"

definition complete_call :: "(batch_call \<times> tool_result) list \<Rightarrow> batch_call \<Rightarrow> batch_call" where
  "complete_call items c =
     (case List.find (\<lambda>x. same_call (fst x) c) items of
        None \<Rightarrow> c
      | Some x \<Rightarrow> c\<lparr>bc_status := CallCompleted (terminates (fst x))\<rparr>)"

definition is_completed :: "batch_call \<Rightarrow> bool" where
  "is_completed c = (case bc_status c of CallCompleted t \<Rightarrow> True | _ \<Rightarrow> False)"

text \<open>\<open>commitPlacement\<close>; the answer is whether the batch is complete.\<close>

definition commitPlacement :: "jstr \<Rightarrow> placement_read \<Rightarrow> (nat \<Rightarrow> jstr) \<Rightarrow> bool op_planner" where
  "commitPlacement name rd usageIds lane s m st =
     (case os_leaf s of
        ToolsLeaf b \<Rightarrow>
          (case placement_writes name (la_tipId lane) 0
               (map (\<lambda>(i, c, r). (c, r, usageIds i)) (List.enumerate 0 (pr_items rd))) of
             (ws, tip, events) \<Rightarrow>
               let calls = map (complete_call (pr_items rd)) (tb_calls b);
                   complete = list_all is_completed calls;
                   patch = \<lparr>pa_tipId = Some tip, pa_configuration = Some (la_configuration lane), pa_inbox = None\<rparr>
               in if complete
                  then (case tip of
                      None \<Rightarrow> Inl (InvariantFault (js ''no tip''))
                    | Some t \<Rightarrow>
                        Inr (OpCommit
                          (ws @ [set_tip name tip] @
                           map DeleteValue (stored_keys st
                             (\<lambda>k. case k of ToolArgsKey q u i \<Rightarrow> q = me_operationId m \<and> u = tb_turnId b | _ \<Rightarrow> False)))
                          (s\<lparr>os_leaf := Checkpoint
                             \<lparr>ck_continuation = (if list_all terminates calls then MayFinish False else NeedAssistant False),
                              ck_triggerEntryId = t\<rparr>\<rparr>)
                          patch True events))
                  else Inr (OpCommit (ws @ [set_tip name tip]) (with_batch s (b\<lparr>tb_calls := calls\<rparr>)) patch False events))
      | _ \<Rightarrow> Inl NoOperation)"

section \<open>Memos and progress\<close>

text \<open>\<open>invocationCapability\<close>: a memo is written only while the call's effect is pending.\<close>

definition owns_effect :: "lane_state \<Rightarrow> nat \<Rightarrow> jstr \<Rightarrow> bool" where
  "owns_effect lane i r \<longleftrightarrow>
     (case la_operation lane of
        None \<Rightarrow> False
      | Some p \<Rightarrow>
          (case os_leaf (op_state p) of
             ToolsLeaf b \<Rightarrow> (case findCall b i r of Some c \<Rightarrow> (case bc_status c of EffectPending y \<Rightarrow> True | _ \<Rightarrow> False) | None \<Rightarrow> False)
           | _ \<Rightarrow> False))"

text \<open>The answer is false when the invocation has ended.\<close>

definition set_memo :: "jstr \<Rightarrow> nat \<Rightarrow> jstr \<Rightarrow> jstr \<Rightarrow> json option \<Rightarrow> bool planner" where
  "set_memo operationId i r memo v lane st =
     (if owns_effect lane i r
      then Inr (Commit
        [case v of None \<Rightarrow> DeleteValue (ToolMemoKey operationId r memo) | Some x \<Rightarrow> SetValue (ToolMemoKey operationId r memo) (MemoValue x)]
        lane True (\<lambda>c. []))
      else Inr (Return False))"

text \<open>\<open>openToolProgress\<close> of \<open>progress.ts\<close>.\<close>

definition owns_output :: "lane_state \<Rightarrow> jstr \<Rightarrow> nat \<Rightarrow> jstr \<Rightarrow> bool" where
  "owns_output lane turnId i r \<longleftrightarrow>
     owns_effect lane i r \<and>
     (case la_operation lane of
        None \<Rightarrow> False
      | Some p \<Rightarrow> (case os_leaf (op_state p) of ToolsLeaf b \<Rightarrow> tb_turnId b = turnId | _ \<Rightarrow> False))"

definition write_output :: "jstr \<Rightarrow> jstr \<Rightarrow> nat \<Rightarrow> jstr \<Rightarrow> tool_output \<Rightarrow> unit planner" where
  "write_output operationId turnId i r x lane st =
     (if owns_output lane turnId i r
      then Inr (Commit [SetValue (ToolOutputKey operationId r) (OutputValue x)] lane () (\<lambda>c. []))
      else Inr (Return ()))"

text \<open>\<open>clearReplayCheckpoint\<close>: a call that may be run again starts from its stored arguments.\<close>

definition clearReplayCheckpoint :: "jstr \<Rightarrow> jstr \<Rightarrow> jstr \<Rightarrow> batch_call \<Rightarrow> jstr \<Rightarrow> jstr \<Rightarrow> json planner" where
  "clearReplayCheckpoint name operationId turnId c callId toolName lane st =
     (case get_args st operationId turnId (bc_sourceIndex c) of
        None \<Rightarrow> Inl (MissingPayload (bc_resultEntryId c))
      | Some args \<Rightarrow>
          Inr (Commit [DeleteValue (ToolOutputKey operationId (bc_resultEntryId c))] lane args
            (\<lambda>x. [recovery_event True name (EvToolStart operationId turnId callId toolName args)])))"

end
