(* ===== verification/DriveStructural.thy ===== *)
theory DriveStructural
  imports DriveTools
begin

text \<open>
  Compactions, summaries of branches and navigation (\<open>harness/runtime/drive/structural.ts\<close>): the decision, the numbered attempts
  with their nested requests, retries, and the publication of an outcome at the boundary the task was made for.
\<close>

section \<open>Preparations\<close>

datatype preparation_kind = CompactionKindOf | BranchKindOf

definition preparation_kind_of :: "structural_preparation \<Rightarrow> preparation_kind" where
  "preparation_kind_of x = (case x of CompactionPreparation c \<Rightarrow> CompactionKindOf | BranchPreparation ms ops n \<Rightarrow> BranchKindOf)"

definition summaryKind :: "summary_task \<Rightarrow> preparation_kind" where
  "summaryKind t = (case ta_boundary t of CommitNavigation i l \<Rightarrow> BranchKindOf | _ \<Rightarrow> CompactionKindOf)"

definition compactionReason :: "summary_task \<Rightarrow> lane_fault + compaction_reason" where
  "compactionReason t =
     (case ta_reason t of
        Some r \<Rightarrow> Inr r
      | None \<Rightarrow> if ta_boundary t = FinishBoundary then Inr ManualReason else Inl (InvariantFault (ta_taskId t)))"

text \<open>\<open>readStructuralPreparation\<close> and \<open>readAttemptPreparation\<close>, which does not look for the target.\<close>

definition readPreparation :: "jstr \<Rightarrow> bool \<Rightarrow> lane_store \<Rightarrow> operation_state \<Rightarrow> lane_fault + structural_preparation" where
  "readPreparation p deciding st s =
     (case leaf_task (os_leaf s) of
        None \<Rightarrow> Inl NoOperation
      | Some t \<Rightarrow>
          (case get_preparation st p (ta_taskId t) of
             None \<Rightarrow> Inl (MissingPayload (ta_taskId t))
           | Some x \<Rightarrow>
               if preparation_kind_of x \<noteq> summaryKind t then Inl (MissingPayload (ta_taskId t))
               else (case ta_boundary t of
                   CommitNavigation i l \<Rightarrow> if deciding \<and> get_entry st i = None then Inl (MissingPayload i) else Inr x
                 | _ \<Rightarrow> Inr x)))"

text \<open>
  \<open>prepareCompactionThreshold\<close> for the bounded path: nothing when compaction is off, when the newest compaction is at or
  behind the trigger, or when the context still fits.
\<close>

definition last_index :: "('a \<Rightarrow> bool) \<Rightarrow> 'a list \<Rightarrow> nat option" where
  "last_index P xs = List.find (\<lambda>i. P (xs ! i)) (rev [0..<length xs])"

definition first_index :: "('a \<Rightarrow> bool) \<Rightarrow> 'a list \<Rightarrow> nat option" where
  "first_index P xs = List.find (\<lambda>i. P (xs ! i)) [0..<length xs]"

definition prepareCompactionThreshold ::
    "(number \<Rightarrow> jstr) \<Rightarrow> compaction_settings \<Rightarrow> int option \<Rightarrow> session_entry list \<Rightarrow> jstr \<Rightarrow>
     lane_fault + compaction_preparation option" where
  "prepareCompactionThreshold dbl settings contextWindow path trigger =
     (case contextWindow of
        None \<Rightarrow> Inr None
      | Some w \<Rightarrow>
          if \<not> st_enabled settings then Inr None
          else
            let newest = last_index (\<lambda>e. entry_type e = CompactionType) path;
                at = first_index (\<lambda>e. entry_id e = trigger) path
            in case (newest, at) of
                 (Some n, None) \<Rightarrow> Inr None
               | (None, None) \<Rightarrow> Inl (MissingPayload trigger)
               | (newest, Some i) \<Rightarrow>
                   if (case newest of Some n \<Rightarrow> i \<le> n | None \<Rightarrow> False) then Inr None
                   else (case prepareCompaction dbl path settings of
                       None \<Rightarrow> Inr None
                     | Some x \<Rightarrow> Inr (if shouldCompact (tokensBefore x) w settings then Some x else None)))"

section \<open>Attempts\<close>

text \<open>\<open>{ ...streamOptions, deferred: false }\<close>.\<close>

definition undeferred :: "json \<Rightarrow> json" where
  "undeferred j = (case j of JObj fs \<Rightarrow> JObj (AList.update (js ''deferred'') (JBool False) fs) | _ \<Rightarrow> j)"

definition publishStructuralReady :: "jstr \<Rightarrow> harness_config \<Rightarrow> jstr \<Rightarrow> procedure_result op_planner" where
  "publishStructuralReady name cf resultEntryId lane s m st =
     (case os_leaf s of
        SummaryDeciding t \<Rightarrow>
          Inr (OpCommit [] (s\<lparr>os_leaf := SummaryReady t
              \<lparr>sx_resultEntryId = resultEntryId, sx_configuration = la_configuration lane, sx_streamOptions = undeferred (hc_streamOptions cf),
               sx_retryPolicy = normalizedRetryPolicy cf\<rparr> 1\<rparr>) no_patch ContinueResult (\<lambda>c. []))
      | _ \<Rightarrow> Inl NoOperation)"

definition effectPendingFromReady :: "operation_leaf \<Rightarrow> operation_leaf option" where
  "effectPendingFromReady l = (case l of SummaryReady t x n \<Rightarrow> Some (SummaryEffectPending t x n None []) | _ \<Rightarrow> None)"

definition publishAttemptIntent :: "unit op_planner" where
  "publishAttemptIntent lane s m st =
     (case effectPendingFromReady (os_leaf s) of
        None \<Rightarrow> Inl NoOperation
      | Some l \<Rightarrow> Inr (OpCommit [] (s\<lparr>os_leaf := l\<rparr>) no_patch () (\<lambda>c. [])))"

definition publishNestedRequestIntent :: "nat \<Rightarrow> jstr \<Rightarrow> unit op_planner" where
  "publishNestedRequestIntent index usageId lane s m st =
     (case os_leaf s of
        SummaryEffectPending t x n r us \<Rightarrow>
          Inr (OpCommit [] (s\<lparr>os_leaf := SummaryEffectPending t x n (Some \<lparr>rq_index = index, rq_usageId = usageId\<rparr>) us\<rparr>)
            no_patch () (\<lambda>c. []))
      | _ \<Rightarrow> Inl NoOperation)"

definition plain_row :: "jstr \<Rightarrow> number usage \<Rightarrow> number new_usage_row" where
  "plain_row i u = \<lparr>row_id = i, row_usage = u, row_entryId = None, row_adjustment = False, row_details = None\<rparr>"

definition publishNestedRequestOutcome :: "jstr \<Rightarrow> jstr \<Rightarrow> number usage \<Rightarrow> unit op_planner" where
  "publishNestedRequestOutcome name usageId u lane s m st =
     (case os_leaf s of
        SummaryEffectPending t x n r us \<Rightarrow>
          Inr (OpCommit [InsertUsage (plain_row usageId u)] (s\<lparr>os_leaf := SummaryEffectPending t x n None (us @ [usageId])\<rparr>)
            no_patch () (\<lambda>c. [usage_event (plain_row usageId u) 0 c name]))
      | _ \<Rightarrow> Inl NoOperation)"

text \<open>A failed or an interrupted attempt that may be repeated.\<close>

definition publishStructuralRetry :: "jstr \<Rightarrow> jstr \<Rightarrow> bool \<Rightarrow> int \<Rightarrow> procedure_result op_planner" where
  "publishStructuralRetry name errorMessage recovery now lane s m st =
     (case os_leaf s of
        SummaryEffectPending t x n r us \<Rightarrow>
          (let w = \<lparr>rw_nextAttempt = n + 1, rw_notBefore = retryNotBefore (sx_retryPolicy x) n now, rw_errorMessage = errorMessage\<rparr> in
           Inr (OpCommit [] (s\<lparr>os_leaf := SummaryRetryWait t x w\<rparr>) no_patch ContinueResult
             (\<lambda>c. [recovery_event recovery name (EvRetryScheduled (me_operationId m) (ta_taskId t) (rw_nextAttempt w)
               (rp_maxAttempts (sx_retryPolicy x)) (retryDelayMs (sx_retryPolicy x) n) (rw_notBefore w) errorMessage)])))
      | _ \<Rightarrow> Inl NoOperation)"

section \<open>Outcomes\<close>

record compact_result =
  cr_summary :: jstr
  cr_retainedTail :: "agent_message list"
  cr_tokensBefore :: int
  cr_details :: "json option"
  cr_usage :: "json option"

record branch_result =
  bs_summary :: jstr
  bs_readFiles :: "jstr list"
  bs_modifiedFiles :: "jstr list"
  bs_usage :: "json option"

datatype structural_outcome =
    CompactionOutcome jstr compact_result bool
  | BranchOutcome jstr branch_result bool
  | DeclinedOutcome
  | FailedOutcome operation_error

definition outcome_kind :: "structural_outcome \<Rightarrow> preparation_kind option" where
  "outcome_kind x =
     (case x of CompactionOutcome i r h \<Rightarrow> Some CompactionKindOf | BranchOutcome i r h \<Rightarrow> Some BranchKindOf | _ \<Rightarrow> None)"

definition outcome_status :: "structural_outcome \<Rightarrow> terminal_status" where
  "outcome_status x = (case x of DeclinedOutcome \<Rightarrow> DeclinedStatus | FailedOutcome e \<Rightarrow> FailedStatus | _ \<Rightarrow> CompletedStatus)"

definition outcome_error :: "structural_outcome \<Rightarrow> operation_error option" where
  "outcome_error x = (case x of FailedOutcome e \<Rightarrow> Some e | _ \<Rightarrow> None)"

definition compaction_entry :: "jstr \<Rightarrow> jstr option \<Rightarrow> compact_result \<Rightarrow> bool \<Rightarrow> new_entry" where
  "compaction_entry i parent r fromHook =
     \<lparr>entry_id = i, entry_parentId = parent, entry_customType = None,
      entry_body = Compaction (cr_summary r) (cr_retainedTail r) (cr_tokensBefore r) (cr_details r) (cr_usage r) fromHook\<rparr>"

definition branch_entry :: "jstr \<Rightarrow> jstr \<Rightarrow> jstr option \<Rightarrow> branch_result \<Rightarrow> bool \<Rightarrow> new_entry" where
  "branch_entry i target source r fromHook =
     \<lparr>entry_id = i, entry_parentId = Some target, entry_customType = None,
      entry_body = BranchSummary source (bs_summary r)
        (Some (JObj [(js ''readFiles'', JArr (map JStr (bs_readFiles r))), (js ''modifiedFiles'', JArr (map JStr (bs_modifiedFiles r)))]))
        (bs_usage r) fromHook\<rparr>"

text \<open>The number of the attempt whose end an outcome is.\<close>

definition outcome_attempt :: "operation_leaf \<Rightarrow> int option" where
  "outcome_attempt l = (case l of SummaryReady t x n \<Rightarrow> Some n | SummaryEffectPending t x n r us \<Rightarrow> Some n | _ \<Rightarrow> None)"

definition retry_end_events :: "jstr \<Rightarrow> operation_leaf \<Rightarrow> jstr \<Rightarrow> structural_outcome \<Rightarrow> event_body list" where
  "retry_end_events p l taskId x =
     (case outcome_attempt l of
        Some n \<Rightarrow> if 1 < n then [EvRetryEnd p taskId n (outcome_kind x \<noteq> None) (map_option er_message (outcome_error x))] else []
      | None \<Rightarrow> [])"

text \<open>
  The writes of an outcome, the tip behind them and their events: the usage of a hook's result, the entry, and the tip. The
  label of a navigation is set with it.
\<close>

definition outcome_writes ::
    "jstr \<Rightarrow> jstr \<Rightarrow> (jstr \<times> number usage) option \<Rightarrow> summary_task \<Rightarrow> jstr option \<Rightarrow> jstr option \<Rightarrow> structural_outcome \<Rightarrow>
     lane_write list \<times> jstr option \<times> (commit_result \<Rightarrow> harness_event list)" where
  "outcome_writes name p hookUsage t source tip x =
     (let used = (case hookUsage of None \<Rightarrow> [] | Some (i, u) \<Rightarrow> [InsertUsage (plain_row i u)]);
          usedEvents = (\<lambda>c. case hookUsage of None \<Rightarrow> [] | Some (i, u) \<Rightarrow> [usage_event (plain_row i u) 0 c name])
      in case x of
           CompactionOutcome i r h \<Rightarrow>
             (let e = compaction_entry i tip r h in
              (used @ [InsertEntry e, set_tip name (Some i)], Some i,
               \<lambda>c. usedEvents c @ committedEntryEvents [e] c name (Some p) (length used)))
         | BranchOutcome i r h \<Rightarrow>
             (case ta_boundary t of
                CommitNavigation target label \<Rightarrow>
                  (let e = branch_entry i target source r h in
                   (used @ [set_tip name (Some target), InsertEntry e, set_tip name (Some i)] @
                      (case label of None \<Rightarrow> [] | Some l \<Rightarrow> [SetValue (LabelKey target) (LabelValue l)]), Some i,
                    \<lambda>c. usedEvents c @ committedEntryEvents [e] c name (Some p) (length used + 1)))
              | _ \<Rightarrow> (used, tip, usedEvents))
         | _ \<Rightarrow> (used, tip, usedEvents))"

definition compaction_declined :: operation_error where
  "compaction_declined = \<lparr>er_code = js ''compaction_declined'', er_message = js ''Overflow compaction was declined'', er_details = None\<rparr>"

text \<open>
  At a checkpoint the run goes on behind the compaction, or without it when a threshold compaction is declined; when the
  run would finish then, the hook of its end is asked first. Otherwise the run fails.
\<close>

definition publish_at_checkpoint ::
    "jstr \<Rightarrow> harness_config \<Rightarrow> summary_task \<Rightarrow> checkpoint_data \<Rightarrow> structural_outcome \<Rightarrow> jstr \<Rightarrow> int \<Rightarrow> lane_write list \<Rightarrow> jstr option \<Rightarrow>
     (commit_result \<Rightarrow> harness_event list) \<Rightarrow> procedure_result op_planner" where
  "publish_at_checkpoint name cf t ck x stepId now ws tip base lane s m st =
     (let p = me_operationId m in
      if (\<exists>i r h. x = CompactionOutcome i r h) \<or> (x = DeclinedOutcome \<and> ta_reason t = Some ThresholdReason)
      then if tip = None then Inl (InvariantFault (js ''no tip''))
        else bindE (planBoundaryInbox name cf lane (os_scope s) st tip
            (x = DeclinedOutcome \<and> (case ck_continuation ck of MayFinish f \<Rightarrow> True | _ \<Rightarrow> False))) (\<lambda>pl.
          if x = DeclinedOutcome \<and> bo_triggerEntryId pl = None \<and> (case ck_continuation ck of MayFinish f \<Rightarrow> True | _ \<Rightarrow> False)
          then Inr (OpReturn (FinishPending (map entry_id (bo_entries pl))))
          else
            let next = (case (bo_triggerEntryId pl, ck_continuation ck) of
                  (Some trigger, _) \<Rightarrow> assistantReadyAtBoundary cf lane s stepId trigger False
                | (None, NeedAssistant used) \<Rightarrow> assistantReadyAtBoundary cf lane s stepId (ck_triggerEntryId ck) used
                | (None, MayFinish f) \<Rightarrow> s\<lparr>os_leaf := Checkpoint ck\<rparr>)
            in Inr (OpCommit (ws @ bo_writes pl) next (placement_patch pl) ContinueResult
                 (\<lambda>c. (if x = DeclinedOutcome
                       then [lane_event name (EvCompactionEnd p ThresholdReason DeclinedStatus None None (result_timestamp c))]
                       else base c) @
                    boundaryPlacementEvents pl c (length ws) name p)))
      else if la_tipId lane = None then Inl (InvariantFault (js ''no tip''))
      else
        let e = (case x of FailedOutcome e \<Rightarrow> e | _ \<Rightarrow> compaction_declined) in
        bindE (operationResultRecord m FailedStatus (la_tipId lane) (Some e) now) (\<lambda>r.
        bindE (compactionReason t) (\<lambda>reason.
        Inr (OpFinish (ws @ operationCleanupWrites st p s) r no_patch (SettledResult r)
          (\<lambda>c. base c @
             [lane_event name (EvCompactionEnd p reason (outcome_status x) None (outcome_error x) now), run_end_event name m r])))))"

text \<open>\<open>publishStructuralOutcome\<close>.\<close>

definition publishStructuralOutcome ::
    "jstr \<Rightarrow> harness_config \<Rightarrow> structural_outcome \<Rightarrow> (jstr \<times> number usage) option \<Rightarrow> jstr \<Rightarrow> int \<Rightarrow> procedure_result op_planner" where
  "publishStructuralOutcome name cf x hookUsage stepId now lane s m st =
     (case leaf_task (os_leaf s) of
        None \<Rightarrow> Inl NoOperation
      | Some t \<Rightarrow>
          if outcome_kind x \<noteq> None \<and> outcome_kind x \<noteq> Some (summaryKind t) then Inl (InvariantFault (ta_taskId t))
          else
            (case outcome_writes name (me_operationId m) hookUsage t (me_sourceTipId m) (la_tipId lane) x of
               (ws, tip, outcomeEvents) \<Rightarrow>
                 (let p = me_operationId m;
                      retryEvents = map (lane_event name) (retry_end_events p (os_leaf s) (ta_taskId t) x);
                      compacted = (\<lambda>reason ended. case x of
                        CompactionOutcome i r h \<Rightarrow> [lane_event name (EvCompactionEnd p reason CompletedStatus (Some i) None ended)]
                      | _ \<Rightarrow> [])
                  in case ta_boundary t of
                       ResumeCheckpoint ck \<Rightarrow>
                         bindE (if (\<exists>i r h. x = CompactionOutcome i r h) then compactionReason t else Inr ManualReason) (\<lambda>reason.
                         publish_at_checkpoint name cf t ck x stepId now ws tip
                           (\<lambda>c. outcomeEvents c @ retryEvents @ compacted reason (result_timestamp c)) lane s m st)
                     | FinishBoundary \<Rightarrow>
                         if outcome_kind x = None \<and> la_tipId lane = None then Inl (InvariantFault (js ''no tip''))
                         else bindE (operationResultRecord m (outcome_status x) tip (outcome_error x) now) (\<lambda>r.
                           bindE (compactionReason t) (\<lambda>reason.
                           Inr (OpFinish (ws @ operationCleanupWrites st p s) r
                             (if outcome_kind x = None then no_patch else tip_patch tip) (SettledResult r)
                             (\<lambda>c. outcomeEvents c @ retryEvents @ compacted reason now @
                               (if outcome_kind x = None
                                then [lane_event name (EvCompactionEnd p ManualReason (outcome_status x) None (outcome_error x) now)]
                                else [])))))
                     | CommitNavigation target label \<Rightarrow>
                         bindE (operationResultRecord m (outcome_status x) tip (outcome_error x) now) (\<lambda>r.
                         Inr (OpFinish (ws @ operationCleanupWrites st p s) r
                           (if outcome_kind x = None then no_patch else tip_patch tip) (SettledResult r)
                           (\<lambda>c. outcomeEvents c @ retryEvents @
                             [lane_event name (EvNavigationEnd p (outcome_status x) (outcome_error x) (me_sourceTipId m) tip now)]))))))"

section \<open>Navigation\<close>

definition commitNavigation :: "jstr \<Rightarrow> int \<Rightarrow> procedure_result op_planner" where
  "commitNavigation name now lane s m st =
     (case os_leaf s of
        NavigationReadyToCommit target label \<Rightarrow>
          if target \<noteq> None \<and> get_entry st (the target) = None then Inl (MissingPayload (the target))
          else if target = me_sourceTipId m then Inl (InvariantFault (js ''same tip''))
          else if target = None \<and> label \<noteq> None then Inl (InvariantFault (js ''root label''))
          else bindE (operationResultRecord m CompletedStatus target None now) (\<lambda>r.
            Inr (OpFinish
              ([set_tip name target] @
               (case (target, label) of (Some i, Some l) \<Rightarrow> [SetValue (LabelKey i) (LabelValue l)] | _ \<Rightarrow> []) @
               operationCleanupWrites st (me_operationId m) s)
              r (tip_patch target) (SettledResult r)
              (\<lambda>c. [lane_event name (EvNavigationEnd (me_operationId m) CompletedStatus None (me_sourceTipId m) target now)])))
      | _ \<Rightarrow> Inl NoOperation)"

section \<open>The end of a run behind a boundary\<close>

text \<open>
  Where the hook of the end of a run is asked: at a checkpoint that may finish, and at a summary that resumes there. The
  value says whether the final response is needed.
\<close>

definition finish_mediation :: "operation_leaf \<Rightarrow> bool option" where
  "finish_mediation l =
     (case l of
        Checkpoint ck \<Rightarrow> (case ck_continuation ck of MayFinish f \<Rightarrow> Some f | _ \<Rightarrow> None)
      | _ \<Rightarrow>
          (case leaf_task l of
             Some t \<Rightarrow>
               (case ta_boundary t of
                  ResumeCheckpoint ck \<Rightarrow> (case ck_continuation ck of MayFinish f \<Rightarrow> Some f | _ \<Rightarrow> None)
                | _ \<Rightarrow> None)
           | None \<Rightarrow> None))"

definition finish_run ::
    "jstr \<Rightarrow> harness_config \<Rightarrow> jstr list \<Rightarrow> harness_event list \<Rightarrow> (jstr \<times> jstr) option \<Rightarrow> jstr \<Rightarrow> int \<Rightarrow>
     procedure_result op_planner" where
  "finish_run name cf planned pendingEvents followUp stepId now lane s m st =
     (case finish_mediation (os_leaf s) of
        None \<Rightarrow> Inl (InvariantFault (js ''finish mediation''))
      | Some f \<Rightarrow> finishRunBoundary name cf f planned pendingEvents followUp stepId now lane s m st)"

end
