(* ===== verification/LaneRestore.thy ===== *)
theory LaneRestore
  imports DriveStructural
begin

text \<open>
  What the storage holds of a lane, and that every decision of a lane and of a drive keeps it: tip, configuration, inbox,
  current operation with its intent and its state, which match.
\<close>

section \<open>The values of a lane\<close>

definition lane_holds :: "jstr \<Rightarrow> lane_state \<Rightarrow> (lane_key \<rightharpoonup> lane_value) \<Rightarrow> bool" where
  "lane_holds name lane v \<longleftrightarrow>
     v (BranchTipKey name) = Some (TipValue (la_tipId lane)) \<and>
     v (LaneConfigKey name) = Some (ConfigValue (la_configuration lane)) \<and>
     v (LaneStateKey name) = Some (LaneValue (durableLaneState lane (current_id lane) (la_inbox lane) (la_lastOperationId lane))) \<and>
     (case la_operation lane of
        None \<Rightarrow> True
      | Some p \<Rightarrow>
          v (MetaKey (operation_id p)) = Some (MetaValue (op_meta p)) \<and>
          v (StateKey (operation_id p)) = Some (StateValue (op_state p)) \<and>
          me_lane (op_meta p) = name \<and> stateMatchesIntent (me_intent (op_meta p)) (op_state p))"

lemma restored_operation:
  "get_meta st (operation_id p) = Some (op_meta p) \<Longrightarrow> get_state st (operation_id p) = Some (op_state p) \<Longrightarrow>
   me_lane (op_meta p) = name \<Longrightarrow> stateMatchesIntent (me_intent (op_meta p)) (op_state p) \<Longrightarrow>
   restore_operation st name (operation_id p) = Inr p"
  by (simp add: restore_operation_def operation_id_def)

lemma holds_restores:
  assumes "lane_holds name lane (sr_values st)"
  shows "restoreLane st name = Inr lane"
proof -
  have c: "readLaneStorage st name = Inr (ConfiguredLane (la_tipId lane) (la_configuration lane)
      (durableLaneState lane (current_id lane) (la_inbox lane) (la_lastOperationId lane)))"
    using assms
    by (simp add: lane_holds_def readLaneStorage_def classifyLaneStorage_def get_tip_def get_config_def get_lane_def)
  show ?thesis
  proof (cases "la_operation lane")
    case None
    then show ?thesis using c by (simp add: restoreLane_def bindE_def restoreLaneState_def durableLaneState_def current_id_def)
  next
    case (Some p)
    have "restore_operation st name (operation_id p) = Inr p"
      using assms Some by (intro restored_operation) (simp_all add: lane_holds_def get_meta_def get_state_def)
    then show ?thesis using c Some
      by (cases lane) (simp add: restoreLane_def bindE_def restoreLaneState_def durableLaneState_def current_id_def)
  qed
qed

text \<open>A write that leaves the configuration, the state and the operation of every lane alone, and other tips, and adds no frame.\<close>

definition plain_key :: "jstr \<Rightarrow> lane_key \<Rightarrow> bool" where
  "plain_key name k \<longleftrightarrow>
     (case k of BranchTipKey l \<Rightarrow> l = name | LaneConfigKey l \<Rightarrow> False | LaneStateKey l \<Rightarrow> False | MetaKey p \<Rightarrow> False
      | StateKey p \<Rightarrow> False | _ \<Rightarrow> True)"

definition plain_write :: "jstr \<Rightarrow> lane_write \<Rightarrow> bool" where
  "plain_write name w \<longleftrightarrow> (case w of SetValue k v \<Rightarrow> plain_key name k | DeleteValue k \<Rightarrow> plain_key name k | AppendFrame p r f \<Rightarrow> False | _ \<Rightarrow> True)"

text \<open>The writes that place entries: entries, usage, the tip, labels, and the removal of input that waited.\<close>

definition placing_write :: "jstr \<Rightarrow> lane_write \<Rightarrow> bool" where
  "placing_write name w \<longleftrightarrow>
     (case w of
        SetValue k v \<Rightarrow> k = BranchTipKey name \<or> (\<exists>i. k = LabelKey i)
      | DeleteValue k \<Rightarrow> (\<exists>i. k = PendingKey i)
      | AppendFrame p r f \<Rightarrow> False
      | DeleteFrames p r \<Rightarrow> False
      | _ \<Rightarrow> True)"

lemma placing_plain: "placing_write name w \<Longrightarrow> plain_write name w"
  by (auto simp: placing_write_def plain_write_def plain_key_def split: lane_write.splits)

definition closing_write :: "jstr \<Rightarrow> jstr \<Rightarrow> lane_write \<Rightarrow> bool" where
  "closing_write name p w \<longleftrightarrow> plain_write name w \<or> w = DeleteValue (MetaKey p) \<or> w = DeleteValue (StateKey p)"

text \<open>A write of one lane with one operation.\<close>

definition own_key :: "jstr \<Rightarrow> jstr option \<Rightarrow> lane_key \<Rightarrow> bool" where
  "own_key name p k \<longleftrightarrow>
     (case k of BranchTipKey l \<Rightarrow> l = name | LaneConfigKey l \<Rightarrow> l = name | LaneStateKey l \<Rightarrow> l = name
      | MetaKey q \<Rightarrow> p = Some q | StateKey q \<Rightarrow> p = Some q | _ \<Rightarrow> True)"

definition own_write :: "jstr \<Rightarrow> jstr option \<Rightarrow> lane_write \<Rightarrow> bool" where
  "own_write name p w \<longleftrightarrow> (case w of SetValue k v \<Rightarrow> own_key name p k | DeleteValue k \<Rightarrow> own_key name p k | _ \<Rightarrow> True)"

lemma plain_own: "plain_write name w \<Longrightarrow> own_write name p w"
  by (auto simp: plain_write_def own_write_def plain_key_def own_key_def split: lane_write.splits lane_key.splits)

lemma closing_own: "closing_write name p w \<Longrightarrow> own_write name (Some p) w"
  unfolding closing_write_def using plain_own[of name w "Some p"] by (auto simp: own_write_def own_key_def)

text \<open>The writes of one lane leave what another holds.\<close>

lemma own_frame:
  assumes "list_all (own_write name p) ws" "lane_holds name2 lane2 v" "name2 \<noteq> name" "current_id lane2 = None \<or> current_id lane2 \<noteq> p"
    "\<forall>k. v' k = key_after ws k (v k)"
  shows "lane_holds name2 lane2 v'"
proof -
  have same: "v' k = v k" if "\<not> own_key name p k" for k
    using assms(5) key_after_untouched[of ws k "v k"] assms(1) that
    by (force simp: list_all_iff touches_key_def own_write_def split: lane_write.splits)
  have "\<not> own_key name p (BranchTipKey name2)" "\<not> own_key name p (LaneConfigKey name2)" "\<not> own_key name p (LaneStateKey name2)"
    using assms(3) by (auto simp: own_key_def)
  moreover have "\<not> own_key name p (MetaKey (operation_id q)) \<and> \<not> own_key name p (StateKey (operation_id q))"
    if "la_operation lane2 = Some q" for q
    using assms(4) that by (auto simp: own_key_def current_id_def)
  ultimately show ?thesis using assms(2) same by (auto simp: lane_holds_def split: option.splits)
qed

section \<open>Decisions of an operation\<close>

definition tip_follows :: "jstr \<Rightarrow> lane_write list \<Rightarrow> jstr option \<Rightarrow> jstr option \<Rightarrow> bool" where
  "tip_follows name ws t t' \<longleftrightarrow> key_after ws (BranchTipKey name) (Some (TipValue t)) = Some (TipValue t')"

text \<open>An operation ends with writes that place entries, then its clean-up.\<close>

definition op_decision_ok :: "jstr \<Rightarrow> lane_state \<Rightarrow> operation \<Rightarrow> lane_store \<Rightarrow> 'r op_decision \<Rightarrow> bool" where
  "op_decision_ok name lane p st d \<longleftrightarrow>
     (case d of
        OpCommit ws s patch r ev \<Rightarrow>
          list_all (plain_write name) ws \<and> tip_follows name ws (la_tipId lane) (la_tipId (patched patch lane)) \<and>
          la_configuration (patched patch lane) = la_configuration lane \<and> stateMatchesIntent (me_intent (op_meta p)) s
      | OpFinish ws record patch r ev \<Rightarrow>
          (\<exists>placed. list_all (placing_write name) placed \<and>
            ws = placed @ operationCleanupWrites st (operation_id p) (op_state p)) \<and>
          or_operationId record = operation_id p \<and>
          tip_follows name ws (la_tipId lane) (la_tipId (patched patch lane)) \<and>
          la_configuration (patched patch lane) = la_configuration lane
      | OpReturn r \<Rightarrow> True)"

definition planner_ok :: "jstr \<Rightarrow> 'r op_planner \<Rightarrow> bool" where
  "planner_ok name plan \<longleftrightarrow>
     (\<forall>lane p st d. la_operation lane = Some p \<longrightarrow> stateMatchesIntent (me_intent (op_meta p)) (op_state p) \<longrightarrow>
        plan lane (op_state p) (op_meta p) st = Inr d \<longrightarrow> op_decision_ok name lane p st d)"

lemma plain_untouched:
  assumes "list_all (plain_write name) ws" "\<not> plain_key name k"
  shows "key_after ws k v = v"
  using assms by (intro key_after_untouched) (auto simp: list_all_iff touches_key_def plain_write_def split: lane_write.splits)

lemma closing_untouched:
  assumes "list_all (closing_write name p) ws" "\<not> plain_key name k" "k \<noteq> MetaKey p" "k \<noteq> StateKey p"
  shows "key_after ws k v = v"
proof (rule key_after_untouched, rule ballI)
  fix w assume "w \<in> set ws"
  then have "closing_write name p w" using assms(1) by (simp add: list_all_iff)
  then show "\<not> touches_key k w"
    using assms(2-4) by (auto simp: closing_write_def touches_key_def plain_write_def split: lane_write.splits)
qed

lemma cleanup_closing: "list_all (closing_write name p) (operationCleanupWrites st p s)"
  by (auto simp: operationCleanupWrites_def list_all_iff closing_write_def plain_write_def plain_key_def stored_keys_def
      args_key_def memo_key_def preparation_key_def output_key_def split: lane_key.splits option.splits)

lemma plain_closing: "list_all (plain_write name) ws \<Longrightarrow> list_all (closing_write name p) ws"
  by (simp add: list_all_iff closing_write_def)

lemma closing_finish:
  "list_all (placing_write name) placed \<Longrightarrow> list_all (closing_write name p) (placed @ operationCleanupWrites st p s)"
  using cleanup_closing[of name p st s] by (auto simp: list_all_iff closing_write_def placing_plain)

lemma settle_keeps:
  assumes "planner_ok name plan" "lane_holds name lane v" "settleOperation name plan lane st = Inr (Commit ws next_state r ev)"
    "\<forall>k. v' k = key_after ws k (v k)"
  shows "lane_holds name next_state v' \<and> list_all (own_write name (current_id lane)) ws"
proof -
  obtain p d where p: "la_operation lane = Some p" "plan lane (op_state p) (op_meta p) st = Inr d"
    using assms(3) by (auto simp: settleOperation_def bindE_eq_Inr split: option.splits)
  have match: "stateMatchesIntent (me_intent (op_meta p)) (op_state p)" using assms(2) p(1) by (simp add: lane_holds_def)
  have ok: "op_decision_ok name lane p st d" using assms(1) p match unfolding planner_ok_def by blast
  have id: "current_id lane = Some (operation_id p)" using p(1) by (simp add: current_id_def)
  show ?thesis
  proof (cases d)
    case (OpCommit ws0 s patch r0 ev0)
    have pl: "list_all (plain_write name) ws0" "tip_follows name ws0 (la_tipId lane) (la_tipId (patched patch lane))"
      "la_configuration (patched patch lane) = la_configuration lane" "stateMatchesIntent (me_intent (op_meta p)) s"
      using ok OpCommit by (simp_all add: op_decision_ok_def)
    have untouched: "key_after ws0 k x = x" if "\<not> plain_key name k" for k x by (rule plain_untouched[OF pl(1) that])
    have keys: "key_after ws0 (LaneConfigKey n) x = x" "key_after ws0 (LaneStateKey n) x = x"
      "key_after ws0 (MetaKey n) x = x" "key_after ws0 (StateKey n) x = x" for n x
      using untouched by (simp_all add: plain_key_def)
    have own: "list_all (own_write name (current_id lane)) ws0" using pl(1) by (simp add: list_all_iff plain_own)
    show ?thesis
    proof (cases "pa_inbox patch")
      case None
      have ws: "ws = ws0 @ [SetValue (StateKey (operation_id p)) (StateValue s)]"
        "next_state = (patched patch lane)\<lparr>la_operation := Some \<lparr>op_meta = op_meta p, op_state = s\<rparr>\<rparr>"
        using assms(3) p OpCommit None by (simp_all add: settleOperation_def bindE_def)
      show ?thesis using assms(2,4) own pl(2-4) p(1) id None unfolding ws
        by (simp add: lane_holds_def keys tip_follows_def patched_def current_id_def operation_id_def durableLaneState_def
            own_write_def own_key_def)
    next
      case (Some inbox)
      have ws: "ws = ws0 @ [SetValue (StateKey (operation_id p)) (StateValue s),
          set_lane_state name (durableLaneState lane (Some (operation_id p)) inbox (la_lastOperationId lane))]"
        "next_state = (patched patch lane)\<lparr>la_operation := Some \<lparr>op_meta = op_meta p, op_state = s\<rparr>\<rparr>"
        using assms(3) p OpCommit Some by (simp_all add: settleOperation_def bindE_def)
      show ?thesis using assms(2,4) own pl(2-4) p(1) id Some unfolding ws
        by (simp add: lane_holds_def keys tip_follows_def patched_def current_id_def operation_id_def durableLaneState_def
            own_write_def own_key_def set_lane_state_def)
    qed
  next
    case (OpFinish ws0 res patch r0 ev0)
    have pl: "list_all (closing_write name (operation_id p)) ws0"
      "tip_follows name ws0 (la_tipId lane) (la_tipId (patched patch lane))"
      "la_configuration (patched patch lane) = la_configuration lane"
      using ok OpFinish closing_finish by (auto simp: op_decision_ok_def)
    have keys: "key_after ws0 (LaneConfigKey n) x = x" "key_after ws0 (LaneStateKey n) x = x" for n x
      using closing_untouched[OF pl(1)] by (simp_all add: plain_key_def)
    have own: "list_all (own_write name (current_id lane)) ws0" using pl(1) id by (simp add: list_all_iff closing_own)
    define inbox where "inbox = (case pa_inbox patch of None \<Rightarrow> la_inbox lane | Some i \<Rightarrow> i)"
    have ws: "ws = ws0 @ [SetValue (ResultKey (operation_id p)) (ResultValue res),
        set_lane_state name (durableLaneState lane None inbox (Some (operation_id p)))]"
      "next_state = (patched patch lane)\<lparr>la_inbox := inbox, la_lastOperationId := Some (operation_id p), la_operation := None\<rparr>"
      using assms(3) p OpFinish by (simp_all add: settleOperation_def bindE_def inbox_def Let_def)
    show ?thesis using assms(2,4) own pl(2,3) p(1) id unfolding ws
      by (simp add: lane_holds_def keys tip_follows_def patched_def current_id_def operation_id_def durableLaneState_def
          own_write_def own_key_def set_lane_state_def)
  next
    case (OpReturn r0)
    then show ?thesis using assms(3) p by (simp add: settleOperation_def bindE_def)
  qed
qed

text \<open>Asking only a running operation keeps it too.\<close>

definition when_running :: "'r op_planner \<Rightarrow> 'r continued op_planner" where
  "when_running plan lane s m st =
     (if cancelled s then Inr (OpReturn CancelRequestedResult)
      else bindE (plan lane s m st) (\<lambda>d. Inr (map_op_decision Continued d)))"

lemma continue_settle: "continueOperation name plan = settleOperation name (when_running plan)"
  unfolding continueOperation_def when_running_def ..

lemma map_decision_ok [simp]: "op_decision_ok name lane p st (map_op_decision f d) = op_decision_ok name lane p st d"
  by (cases d) (simp_all add: op_decision_ok_def)

lemma when_running_ok:
  assumes "planner_ok name plan"
  shows "planner_ok name (when_running plan)"
  unfolding planner_ok_def
proof (intro allI impI)
  fix lane p st d
  assume p: "la_operation lane = Some p" "stateMatchesIntent (me_intent (op_meta p)) (op_state p)"
    and d: "when_running plan lane (op_state p) (op_meta p) st = Inr d"
  show "op_decision_ok name lane p st d"
  proof (cases "cancelled (op_state p)")
    case True
    then show ?thesis using d by (auto simp: when_running_def op_decision_ok_def)
  next
    case False
    then obtain d0 where d0: "plan lane (op_state p) (op_meta p) st = Inr d0" "d = map_op_decision Continued d0"
      using d by (auto simp: when_running_def bindE_eq_Inr)
    then show ?thesis using assms p unfolding planner_ok_def by simp
  qed
qed

section \<open>Placements\<close>

lemma placing_entries: "list_all (placing_write name) (map InsertEntry es)"
  by (simp add: list_all_iff placing_write_def)

lemma placing_all_plain: "list_all (placing_write name) ws \<Longrightarrow> list_all (plain_write name) ws"
  by (simp add: list_all_iff placing_plain)

lemmas plain_entries = placing_entries[THEN placing_all_plain]

lemma entries_key: "key_after (map InsertEntry es) k v = v"
  by (induction es arbitrary: v) simp_all

lemma placing_pending: "list_all (placing_write name) (delete_pending is)"
  by (simp add: list_all_iff placing_write_def delete_pending_def)

lemmas plain_pending = placing_pending[THEN placing_all_plain]

lemma pending_key: "key_after (delete_pending is) (BranchTipKey n) v = v"
  unfolding delete_pending_def by (induction "is" arbitrary: v) simp_all

lemma place_selected_ok:
  assumes "place_selected name cf st inbox tip selected pending = Inr pl"
  shows "list_all (placing_write name) (bo_writes pl) \<and>
    key_after (bo_writes pl) (BranchTipKey name) (Some (TipValue tip)) = Some (TipValue (bo_tipId pl))"
  using assms
  by (auto simp: place_selected_def Let_def bindE_eq_Inr placing_entries placing_pending entries_key pending_key set_tip_def
      placing_write_def split: if_splits)

lemma placement_ok:
  assumes "planBoundaryInbox name cf lane scope st tip fu = Inr pl"
  shows "list_all (placing_write name) (bo_writes pl)"
    "key_after (bo_writes pl) (BranchTipKey name) (Some (TipValue tip)) = Some (TipValue (bo_tipId pl))"
  using assms place_selected_ok by (auto simp: planBoundaryInbox_def Let_def bindE_eq_Inr split: if_splits)

lemma cleanup_tip: "key_after (operationCleanupWrites st p s) (BranchTipKey name) v = v"
proof (rule key_after_untouched, rule ballI)
  fix w assume "w \<in> set (operationCleanupWrites st p s)"
  then show "\<not> touches_key (BranchTipKey name) w"
    by (auto simp: operationCleanupWrites_def touches_key_def stored_keys_def args_key_def memo_key_def preparation_key_def
        output_key_def split: option.splits)
qed

text \<open>Of the intents, only a run is in a state that is neither a summary nor a navigation.\<close>

definition navigating :: "operation_leaf \<Rightarrow> bool" where
  "navigating l = (case l of NavigationReadyToCommit t x \<Rightarrow> True | _ \<Rightarrow> False)"

lemma run_intent:
  "stateMatchesIntent i s \<Longrightarrow> leaf_task (os_leaf s) = None \<Longrightarrow> \<not> navigating (os_leaf s) \<Longrightarrow> \<exists>ps. i = RunIntent ps"
  by (cases i; cases "os_leaf s") (auto simp: stateMatchesIntent_def navigating_def)

lemma resuming_intent:
  "stateMatchesIntent i s \<Longrightarrow> leaf_task (os_leaf s) = Some t \<Longrightarrow> ta_boundary t = ResumeCheckpoint ck \<Longrightarrow> \<exists>ps. i = RunIntent ps"
  by (cases i; cases "os_leaf s") (auto simp: stateMatchesIntent_def)

lemma run_matches: "leaf_task (os_leaf s) = None \<Longrightarrow> \<not> navigating (os_leaf s) \<Longrightarrow> stateMatchesIntent (RunIntent ps) s"
  by (cases "os_leaf s") (auto simp: stateMatchesIntent_def navigating_def)

lemma run_matches_task: "leaf_task (os_leaf s) = Some t \<Longrightarrow> ta_boundary t = ResumeCheckpoint ck \<Longrightarrow> stateMatchesIntent (RunIntent ps) s"
  by (cases "os_leaf s") (auto simp: stateMatchesIntent_def)

lemma same_task_matches:
  "stateMatchesIntent i s \<Longrightarrow> leaf_task (os_leaf s) = Some t \<Longrightarrow> leaf_task (os_leaf s') = Some t \<Longrightarrow> stateMatchesIntent i s'"
  by (cases i; cases "os_leaf s"; cases "os_leaf s'") (auto simp: stateMatchesIntent_def)

end
