(* ===== verification/LanePlanners.thy ===== *)
theory LanePlanners
  imports LaneRestore
begin

text \<open>Every decision of a drive keeps what the storage holds of the lane.\<close>

section \<open>Decisions\<close>

lemma planner_okI:
  "(\<And>lane p st d. la_operation lane = Some p \<Longrightarrow> stateMatchesIntent (me_intent (op_meta p)) (op_state p) \<Longrightarrow>
      plan lane (op_state p) (op_meta p) st = Inr d \<Longrightarrow> op_decision_ok name lane p st d) \<Longrightarrow> planner_ok name plan"
  unfolding planner_ok_def by blast

lemma commit_ok:
  "list_all (plain_write name) ws \<Longrightarrow> tip_follows name ws (la_tipId lane) (la_tipId (patched patch lane)) \<Longrightarrow>
   pa_configuration patch = None \<or> pa_configuration patch = Some (la_configuration lane) \<Longrightarrow>
   stateMatchesIntent (me_intent (op_meta p)) s \<Longrightarrow> op_decision_ok name lane p st (OpCommit ws s patch r ev)"
  by (auto simp: op_decision_ok_def patched_def)

lemma tip_append: "tip_follows name (ws @ vs) t u \<longleftrightarrow>
    key_after vs (BranchTipKey name) (key_after ws (BranchTipKey name) (Some (TipValue t))) = Some (TipValue u)"
  by (simp add: tip_follows_def)

lemma record_id: "operationResultRecord m x tip e now = Inr r \<Longrightarrow> or_operationId r = me_operationId m"
  by (auto simp: operationResultRecord_def split: if_splits)

lemma finish_ok:
  assumes "list_all (placing_write name) ws" "tip_follows name ws (la_tipId lane) (la_tipId (patched patch lane))"
    "pa_configuration patch = None" "or_operationId x = me_operationId (op_meta p)"
  shows "op_decision_ok name lane p st
    (OpFinish (ws @ operationCleanupWrites st (me_operationId (op_meta p)) (op_state p)) x patch r ev)"
  using assms by (auto simp: op_decision_ok_def patched_def operation_id_def tip_follows_def cleanup_tip)

lemma finish_only_ok:
  "operationResultRecord (op_meta p) z tip e now = Inr x \<Longrightarrow>
   op_decision_ok name lane p st (OpFinish (operationCleanupWrites st (me_operationId (op_meta p)) (op_state p)) x no_patch r ev)"
  using finish_ok[of name "[]" lane no_patch x p st r ev] record_id[of "op_meta p" z tip e now x]
  by (simp add: tip_follows_def patched_def no_patch_def)

lemma return_ok [simp]: "op_decision_ok name lane p st (OpReturn r)"
  by (simp add: op_decision_ok_def)

lemma patch_tips [simp]:
  "la_tipId (patched no_patch lane) = la_tipId lane"
  "la_tipId (patched (tip_patch t) lane) = t"
  "la_tipId (patched (placement_patch pl) lane) = bo_tipId pl"
  "pa_configuration no_patch = None" "pa_configuration (tip_patch t) = None" "pa_configuration (placement_patch pl) = None"
  by (simp_all add: patched_def no_patch_def tip_patch_def placement_patch_def)

lemma unchanged_ok:
  "stateMatchesIntent (me_intent (op_meta p)) s \<Longrightarrow> op_decision_ok name lane p st (OpCommit [] s no_patch r ev)"
  by (rule commit_ok) (simp_all add: tip_follows_def)

lemmas leaf_simps = leaf_task.simps navigating_def operation_leaf.case

text \<open>The writes that place input behind others.\<close>

lemma placed_after:
  assumes "planBoundaryInbox name cf lane scope st tip fu = Inr pl" "list_all (plain_write name) ws"
    "tip_follows name ws (la_tipId lane) tip"
  shows "list_all (plain_write name) (ws @ bo_writes pl)" "tip_follows name (ws @ bo_writes pl) (la_tipId lane) (bo_tipId pl)"
  using placement_ok[OF assms(1)] assms(2,3) by (simp_all add: tip_follows_def placing_all_plain)

lemma placed:
  assumes "planBoundaryInbox name cf lane scope st (la_tipId lane) fu = Inr pl"
  shows "list_all (placing_write name) (bo_writes pl)" "tip_follows name (bo_writes pl) (la_tipId lane) (bo_tipId pl)"
    "list_all (plain_write name) (bo_writes pl)"
  using placement_ok[OF assms] by (simp_all add: tip_follows_def placing_all_plain)

lemma ready_matches: "stateMatchesIntent (RunIntent ps) (assistantReadyAtBoundary cf lane current i trigger used)"
  by (rule run_matches) (simp_all add: assistantReadyAtBoundary_def navigating_def)

section \<open>Runs\<close>

lemma startRun_ok: "planner_ok name (startRun name reserved)"
proof (rule planner_okI)
  fix lane :: lane_state and p :: operation and st d
  assume m: "stateMatchesIntent (me_intent (op_meta p)) (op_state p)"
    and d: "startRun name reserved lane (op_state p) (op_meta p) st = Inr d"
  define es where "es = chainEntries (la_tipId lane) (map (\<lambda>(i, x). message_entry i x) reserved)"
  have leaf: "os_leaf (op_state p) = Starting" using d unfolding startRun_def Let_def by (simp split: if_splits)
  obtain ps where ps: "me_intent (op_meta p) = RunIntent ps" using run_intent[OF m] leaf by (auto simp: navigating_def)
  obtain t where t: "(if es = [] then la_tipId lane else Some (entry_id (last es))) = Some t"
    "d = OpCommit (map InsertEntry es @ (if es = [] then [] else [set_tip name (Some t)]))
       \<lparr>os_scope = os_scope (op_state p), os_leaf = Checkpoint \<lparr>ck_continuation = NeedAssistant False, ck_triggerEntryId = t\<rparr>\<rparr>
       (tip_patch (Some t)) ContinueResult (\<lambda>c. committedEntryEvents es c name (Some (me_operationId (op_meta p))) 0)"
    using d leaf unfolding startRun_def Let_def es_def[symmetric] by (cases "if es = [] then la_tipId lane else Some (entry_id (last es))") auto
  have "tip_follows name (map InsertEntry es @ (if es = [] then [] else [set_tip name (Some t)])) (la_tipId lane) (Some t)"
    using t(1) by (cases "es = []") (simp_all add: tip_follows_def entries_key set_tip_def)
  then show "op_decision_ok name lane p st d" unfolding t(2)
    by (intro commit_ok) (simp_all add: plain_entries plain_write_def plain_key_def set_tip_def ps run_matches navigating_def)
qed

lemma runCheckpoint_ok: "planner_ok name (runCheckpoint name cf threshold stepId)"
proof (rule planner_okI)
  fix lane :: lane_state and p :: operation and st d
  assume m: "stateMatchesIntent (me_intent (op_meta p)) (op_state p)"
    and d: "runCheckpoint name cf threshold stepId lane (op_state p) (op_meta p) st = Inr d"
  obtain ck where leaf: "os_leaf (op_state p) = Checkpoint ck"
    using d by (auto simp: runCheckpoint_def split: operation_leaf.splits)
  obtain ps where ps: "me_intent (op_meta p) = RunIntent ps" using run_intent[OF m] leaf by (auto simp: navigating_def)
  obtain pl where pl: "planBoundaryInbox name cf lane (os_scope (op_state p)) st (la_tipId lane)
      (threshold = None \<and> (case ck_continuation ck of MayFinish f \<Rightarrow> True | _ \<Rightarrow> False)) = Inr pl"
    using d leaf by (auto simp: runCheckpoint_def bindE_eq_Inr)
  note w = placed[OF pl]
  show "op_decision_ok name lane p st d"
  proof (cases "bo_triggerEntryId pl")
    case (Some trigger)
    then show ?thesis using d leaf pl w
      by (auto simp: runCheckpoint_def bindE_def ps ready_matches intro!: commit_ok)
  next
    case none: None
    show ?thesis
    proof (cases threshold)
      case (Some tp)
      obtain i x where "tp = (i, x)" by (cases tp)
      then show ?thesis using d leaf pl w none Some
        by (auto simp: runCheckpoint_def bindE_def ps plain_write_def plain_key_def tip_follows_def stateMatchesIntent_def intro!: commit_ok)
    next
      case None
      then show ?thesis using d leaf pl w none
        by (cases "ck_continuation ck") (auto simp: runCheckpoint_def bindE_def ps ready_matches intro!: commit_ok)
    qed
  qed
qed

lemma publishGenerationIntent_ok: "planner_ok name (publishGenerationIntent name r u mt cw)"
proof (rule planner_okI)
  fix lane :: lane_state and p :: operation and st d
  assume m: "stateMatchesIntent (me_intent (op_meta p)) (op_state p)"
    and d: "publishGenerationIntent name r u mt cw lane (op_state p) (op_meta p) st = Inr d"
  obtain g n kept where leaf: "os_leaf (op_state p) = AssistantReady g n kept"
    using d by (auto simp: publishGenerationIntent_def split: operation_leaf.splits)
  obtain ps where ps: "me_intent (op_meta p) = RunIntent ps" using run_intent[OF m] leaf by (auto simp: navigating_def)
  show "op_decision_ok name lane p st d" using d leaf
    by (auto simp: publishGenerationIntent_def ps run_matches navigating_def intro!: unchanged_ok)
qed

lemma finish_retry_wait_ok: "planner_ok name (finish_retry_wait name)"
proof (rule planner_okI)
  fix lane :: lane_state and p :: operation and st d
  assume m: "stateMatchesIntent (me_intent (op_meta p)) (op_state p)"
    and d: "finish_retry_wait name lane (op_state p) (op_meta p) st = Inr d"
  consider g w where "os_leaf (op_state p) = AssistantRetryWait g w"
    | t x w where "os_leaf (op_state p) = SummaryRetryWait t x w"
    using d by (auto simp: finish_retry_wait_def split: operation_leaf.splits)
  then show "op_decision_ok name lane p st d"
  proof cases
    case 1
    obtain ps where ps: "me_intent (op_meta p) = RunIntent ps" using run_intent[OF m] 1 by (auto simp: navigating_def)
    show ?thesis using d 1 by (auto simp: finish_retry_wait_def ps run_matches navigating_def intro!: unchanged_ok)
  next
    case 2
    show ?thesis using d 2 same_task_matches[OF m, of t]
      by (auto simp: finish_retry_wait_def intro!: unchanged_ok)
  qed
qed

lemma publishConfigurationFailure_ok: "planner_ok name (publishConfigurationFailure name e now)"
  by (rule planner_okI) (auto simp: publishConfigurationFailure_def bindE_eq_Inr finish_only_ok split: if_splits)

lemma publishAbortedTerminal_ok: "planner_ok name (publishAbortedTerminal name now)"
  by (rule planner_okI) (auto simp: publishAbortedTerminal_def bindE_eq_Inr finish_only_ok split: if_splits)

lemma finishRunBoundary_ok:
  assumes "me_intent (op_meta p) = RunIntent ps"
    "finishRunBoundary name cf f planned pend fol stepId now lane (op_state p) (op_meta p) st = Inr d"
  shows "op_decision_ok name lane p st d"
proof -
  obtain pl where pl: "planBoundaryInbox name cf lane (os_scope (op_state p)) st (la_tipId lane) True = Inr pl"
    using assms(2) by (auto simp: finishRunBoundary_def bindE_eq_Inr)
  note w = placed[OF pl]
  show ?thesis
  proof (cases "bo_triggerEntryId pl")
    case (Some trigger)
    then show ?thesis using assms pl w
      by (auto simp: finishRunBoundary_def bindE_def ready_matches intro!: commit_ok)
  next
    case none: None
    show ?thesis
    proof (cases "map entry_id (bo_entries pl) = planned \<and> fol \<noteq> None")
      case True
      then obtain i t where it: "fol = Some (i, t)" by auto
      show ?thesis using assms pl w none True
        by (auto simp: finishRunBoundary_def Let_def bindE_def ready_matches it plain_write_def plain_key_def set_tip_def
            tip_follows_def patched_def placement_patch_def intro!: commit_ok)
    next
      case False
      then obtain r where r: "or_operationId r = me_operationId (op_meta p)" "d = OpFinish (bo_writes pl @ operationCleanupWrites st (me_operationId (op_meta p)) (op_state p)) r
          (placement_patch pl) (SettledResult r)
          (\<lambda>c. (pend @ boundaryPlacementEvents pl c 0 name (me_operationId (op_meta p))) @ [run_end_event name (op_meta p) r])"
        using assms(2) pl none unfolding finishRunBoundary_def 
        by (auto simp: bindE_eq_Inr split: if_splits dest: record_id)
      then show ?thesis using w by (simp add: finish_ok)
    qed
  qed
qed

section \<open>Responses\<close>

lemma waiting_run:
  assumes "stateMatchesIntent (me_intent (op_meta p)) (op_state p)" "intent_of (os_leaf (op_state p)) = Some ri"
  obtains ps where "me_intent (op_meta p) = RunIntent ps"
  using run_intent[OF assms(1)] assms(2) by (cases "os_leaf (op_state p)") (auto simp: intent_of_def navigating_def)

text \<open>Whatever a response leads to is a state of a run.\<close>

lemma complete_runs: "classify_complete ri rf a = Settle b l \<Longrightarrow> stateMatchesIntent (RunIntent ps) \<lparr>os_scope = scope, os_leaf = l\<rparr>"
  by (auto simp: classify_complete_def may_finish_def Let_def stateMatchesIntent_def split: if_splits)

lemma classified_runs:
  assumes "classify_response s ri rf a = Inr (Settle b l)"
  shows "stateMatchesIntent (RunIntent ps) \<lparr>os_scope = scope, os_leaf = l\<rparr>"
proof (cases "cancelled s")
  case True
  then show ?thesis using assms by (auto simp: classify_response_def may_finish_def stateMatchesIntent_def)
next
  case False
  then show ?thesis using assms complete_runs[of ri rf a b l ps scope]
    by (cases "os_leaf s")
      (auto simp: classify_response_def stateMatchesIntent_def overflow_task_def Let_def split: if_splits option.splits)
qed

lemma publishResponse_ok: "planner_ok name (publishResponse name rf a)"
proof (rule planner_okI)
  fix lane :: lane_state and p :: operation and st d
  assume m: "stateMatchesIntent (me_intent (op_meta p)) (op_state p)"
    and d: "publishResponse name rf a lane (op_state p) (op_meta p) st = Inr d"
  obtain ri where ri: "intent_of (os_leaf (op_state p)) = Some ri" using d by (auto simp: publishResponse_def split: option.splits)
  obtain ps where ps: "me_intent (op_meta p) = RunIntent ps" by (rule waiting_run[OF m ri])
  obtain ds where ds: "classify_response (op_state p) ri rf a = Inr ds" using d ri by (auto simp: publishResponse_def bindE_eq_Inr)
  define base where "base b = [InsertEntry ((message_entry (ri_responseEntryId ri) (AssistantMessage b))\<lparr>entry_parentId := la_tipId lane\<rparr>),
      InsertUsage \<lparr>row_id = ri_usageId ri, row_usage = as_usage b, row_entryId = Some (ri_responseEntryId ri),
        row_adjustment = False, row_details = None\<rparr>, set_tip name (Some (ri_responseEntryId ri))]" for b
  have placing: "list_all (placing_write name) (base b)" and tip: "tip_follows name (base b) t (Some (ri_responseEntryId ri))" for b t
    by (simp_all add: base_def placing_write_def set_tip_def tip_follows_def)
  note plain = placing_all_plain[OF placing]
  show "op_decision_ok name lane p st d"
  proof (cases ds)
    case (Fail b e)
    then obtain r ev where "or_operationId r = me_operationId (op_meta p)" "d = OpFinish (base b @ operationCleanupWrites st (me_operationId (op_meta p)) (op_state p)) r
        (tip_patch (Some (ri_responseEntryId ri))) (SettledResult r) ev"
      using d ri ds by (auto simp: publishResponse_def base_def bindE_eq_Inr Let_def dest: record_id)
    then show ?thesis using placing tip by (simp add: finish_ok)
  next
    case (Settle b l)
    define extra where "extra = (case (l, rf_overflowPreparation rf) of
        (SummaryDeciding t, Some (taskId, preparation)) \<Rightarrow>
          [SetValue (PreparationKey (me_operationId (op_meta p)) taskId) (PreparationValue preparation)] | _ \<Rightarrow> [])"
    have extra: "list_all (plain_write name) extra" "key_after extra (BranchTipKey name) v = v" for v
      by (auto simp: extra_def plain_write_def plain_key_def split: operation_leaf.splits option.splits)
    obtain ev where "d = OpCommit (base b @ [DeleteFrames (me_operationId (op_meta p)) (ri_responseEntryId ri)] @ extra)
        \<lparr>os_scope = (os_scope (op_state p))\<lparr>sc_latestAssistantEntryId := Some (ri_responseEntryId ri)\<rparr>, os_leaf = l\<rparr>
        (tip_patch (Some (ri_responseEntryId ri))) ContinueResult ev"
      using d ri ds Settle by (auto simp: publishResponse_def base_def extra_def bindE_def Let_def)
    then show ?thesis using plain tip extra classified_runs[OF ds[unfolded Settle]]
      by (auto simp: ps plain_write_def[of name "DeleteFrames x y" for x y] tip_follows_def intro!: commit_ok)
  qed
qed

lemma publishPollIntent_ok: "planner_ok name (publishPollIntent name r u)"
proof (rule planner_okI)
  fix lane :: lane_state and p :: operation and st d
  assume m: "stateMatchesIntent (me_intent (op_meta p)) (op_state p)"
    and d: "publishPollIntent name r u lane (op_state p) (op_meta p) st = Inr d"
  have "leaf_task (os_leaf (op_state p)) = None \<and> \<not> navigating (os_leaf (op_state p))"
    using d by (auto simp: publishPollIntent_def navigating_def split: operation_leaf.splits)
  then obtain ps where ps: "me_intent (op_meta p) = RunIntent ps" using run_intent[OF m] by auto
  show "op_decision_ok name lane p st d" using d
    by (cases "os_leaf (op_state p)")
      (auto simp: publishPollIntent_def Let_def ps plain_write_def tip_follows_def stateMatchesIntent_def intro!: commit_ok)
qed

section \<open>Tools\<close>

lemma tools_run:
  "stateMatchesIntent i s \<Longrightarrow> os_leaf s = ToolsLeaf b \<Longrightarrow> \<exists>ps. i = RunIntent ps"
  using run_intent[of i s] by (simp add: navigating_def)

lemma batch_runs: "stateMatchesIntent (RunIntent ps) (with_batch s b)"
  by (simp add: stateMatchesIntent_def with_batch_def)

lemma checkpoint_runs: "stateMatchesIntent (RunIntent ps) (s\<lparr>os_leaf := Checkpoint ck\<rparr>)"
  by (simp add: stateMatchesIntent_def)

lemma publishToolIntent_ok: "planner_ok name (publishToolIntent name c callId toolName args replay recovery)"
proof (rule planner_okI)
  fix lane :: lane_state and p :: operation and st d
  assume m: "stateMatchesIntent (me_intent (op_meta p)) (op_state p)"
    and d: "publishToolIntent name c callId toolName args replay recovery lane (op_state p) (op_meta p) st = Inr d"
  obtain b where leaf: "os_leaf (op_state p) = ToolsLeaf b"
    using d by (auto simp: publishToolIntent_def split: operation_leaf.splits)
  obtain ps where ps: "me_intent (op_meta p) = RunIntent ps" using tools_run[OF m leaf] by auto
  show "op_decision_ok name lane p st d" using d leaf
    by (auto simp: publishToolIntent_def Let_def ps batch_runs plain_write_def plain_key_def tip_follows_def intro!: commit_ok)
qed

lemma deletes_plain: "list_all (plain_write name) (map DeleteValue (stored_keys st P)) \<longleftrightarrow> list_all (plain_key name) (stored_keys st P)"
  by (simp add: list_all_iff plain_write_def)

lemma deletes_tip: "BranchTipKey n \<notin> set ks \<Longrightarrow> key_after (map DeleteValue ks) (BranchTipKey n) v = v"
  by (induction ks arbitrary: v) auto

lemma publishToolOutcome_ok: "planner_ok name (publishToolOutcome name c callId toolName arguments r terminate recovery)"
proof (rule planner_okI)
  fix lane :: lane_state and p :: operation and st d
  assume m: "stateMatchesIntent (me_intent (op_meta p)) (op_state p)"
    and d: "publishToolOutcome name c callId toolName arguments r terminate recovery lane (op_state p) (op_meta p) st = Inr d"
  obtain b where leaf: "os_leaf (op_state p) = ToolsLeaf b"
    using d by (auto simp: publishToolOutcome_def split: operation_leaf.splits)
  obtain ps where ps: "me_intent (op_meta p) = RunIntent ps" using tools_run[OF m leaf] by auto
  define memos where "memos = stored_keys st
    (\<lambda>k. case k of ToolMemoKey q i n \<Rightarrow> q = me_operationId (op_meta p) \<and> i = bc_resultEntryId c | _ \<Rightarrow> False)"
  have memos: "list_all (plain_write name) (map DeleteValue memos)" "BranchTipKey name \<notin> set memos"
    by (auto simp: memos_def stored_keys_def list_all_iff plain_write_def plain_key_def split: lane_key.splits)
  show "op_decision_ok name lane p st d" using d leaf memos deletes_tip[OF memos(2)] unfolding publishToolOutcome_def Let_def memos_def[symmetric]
    by (auto simp: ps batch_runs plain_write_def plain_key_def tip_follows_def intro!: commit_ok)
qed

lemma placement_writes_ok:
  "placement_writes name parent k items = (ws, tip, events) \<Longrightarrow>
    list_all (plain_write n) ws \<and> key_after ws (BranchTipKey n) v = v"
proof (induction items arbitrary: parent k ws tip events)
  case (Cons x items)
  obtain c r u where x: "x = (c, r, u)" by (cases x)
  show ?case using Cons.prems Cons.IH
    by (auto simp: x Let_def plain_write_def plain_key_def split: prod.splits option.splits)
qed simp

lemma commitPlacement_ok: "planner_ok name (commitPlacement name rd usageIds)"
proof (rule planner_okI)
  fix lane :: lane_state and p :: operation and st d
  assume m: "stateMatchesIntent (me_intent (op_meta p)) (op_state p)"
    and d: "commitPlacement name rd usageIds lane (op_state p) (op_meta p) st = Inr d"
  obtain b where leaf: "os_leaf (op_state p) = ToolsLeaf b"
    using d by (auto simp: commitPlacement_def split: operation_leaf.splits)
  obtain ps where ps: "me_intent (op_meta p) = RunIntent ps" using tools_run[OF m leaf] by auto
  obtain ws tip events where w: "placement_writes name (la_tipId lane) 0
      (map (\<lambda>(i, c, r). (c, r, usageIds i)) (List.enumerate 0 (pr_items rd))) = (ws, tip, events)"
    by (metis prod_cases3)
  note ok = placement_writes_ok[OF w, of name]
  define args where "args = stored_keys st
    (\<lambda>k. case k of ToolArgsKey q u i \<Rightarrow> q = me_operationId (op_meta p) \<and> u = tb_turnId b | _ \<Rightarrow> False)"
  have args: "list_all (plain_write name) (map DeleteValue args)" "BranchTipKey name \<notin> set args"
    by (auto simp: args_def stored_keys_def list_all_iff plain_write_def plain_key_def split: lane_key.splits)
  have tips: "plain_write name (set_tip name tip)" by (simp add: plain_write_def plain_key_def set_tip_def)
  show "op_decision_ok name lane p st d"
    using d leaf w ok args deletes_tip[OF args(2)] tips
    by (cases tip)
      (auto simp: commitPlacement_def Let_def args_def[symmetric] ps batch_runs checkpoint_runs set_tip_def tip_follows_def patched_def split: if_splits intro!: commit_ok)
qed

section \<open>Summaries\<close>

lemma summary_step_ok:
  "stateMatchesIntent (me_intent (op_meta p)) (op_state p) \<Longrightarrow> leaf_task (os_leaf (op_state p)) = Some t \<Longrightarrow> leaf_task l = Some t \<Longrightarrow>
   op_decision_ok name lane p st (OpCommit [] ((op_state p)\<lparr>os_leaf := l\<rparr>) no_patch r ev)"
  using same_task_matches[of "me_intent (op_meta p)" "op_state p" t "(op_state p)\<lparr>os_leaf := l\<rparr>"] by (intro unchanged_ok) simp

lemma publishStructuralReady_ok: "planner_ok name (publishStructuralReady name cf i)"
  by (rule planner_okI) (auto simp: publishStructuralReady_def intro!: summary_step_ok split: operation_leaf.splits)

lemma publishAttemptIntent_ok: "planner_ok name publishAttemptIntent"
  by (rule planner_okI)
    (auto simp: publishAttemptIntent_def effectPendingFromReady_def intro!: summary_step_ok split: operation_leaf.splits option.splits)

lemma publishNestedRequestIntent_ok: "planner_ok name (publishNestedRequestIntent i u)"
  by (rule planner_okI) (auto simp: publishNestedRequestIntent_def intro!: summary_step_ok split: operation_leaf.splits)

lemma publishNestedRequestOutcome_ok: "planner_ok name (publishNestedRequestOutcome name u x)"
proof (rule planner_okI)
  fix lane :: lane_state and p :: operation and st d
  assume m: "stateMatchesIntent (me_intent (op_meta p)) (op_state p)"
    and d: "publishNestedRequestOutcome name u x lane (op_state p) (op_meta p) st = Inr d"
  obtain t z n r us where leaf: "os_leaf (op_state p) = SummaryEffectPending t z n r us"
    using d by (auto simp: publishNestedRequestOutcome_def split: operation_leaf.splits)
  show "op_decision_ok name lane p st d"
    using d leaf same_task_matches[OF m, of t "(op_state p)\<lparr>os_leaf := SummaryEffectPending t z n None (us @ [u])\<rparr>"]
    by (auto simp: publishNestedRequestOutcome_def plain_write_def tip_follows_def intro!: commit_ok)
qed

lemma publishStructuralRetry_ok: "planner_ok name (publishStructuralRetry name e recovery now)"
  by (rule planner_okI)
    (auto simp: publishStructuralRetry_def Let_def intro!: summary_step_ok split: operation_leaf.splits)

lemma outcome_writes_ok:
  assumes "outcome_writes name p hu t source tip x = (ws, tip', ev)"
  shows "list_all (placing_write name) ws" "tip_follows name ws tip tip'"
    "outcome_kind x = None \<Longrightarrow> tip' = tip"
  using assms
  by (auto simp: outcome_writes_def Let_def placing_write_def set_tip_def tip_follows_def outcome_kind_def
      split: structural_outcome.splits option.splits result_boundary.splits prod.splits)

lemma outcome_tip_resume:
  assumes "outcome_writes name p hu t source tip x = (ws, tip', ev)" "ta_boundary t = ResumeCheckpoint ck"
    "\<not> (\<exists>i r h. x = CompactionOutcome i r h)"
  shows "tip' = tip"
  using assms by (cases x) (auto simp: outcome_writes_def Let_def)

lemma publish_at_checkpoint_ok:
  assumes i: "me_intent (op_meta p) = RunIntent ps" and t: "ta_boundary t = ResumeCheckpoint ck"
    and w: "outcome_writes name q hu t source (la_tipId lane) x = (ws, tip, ev)"
    and d: "publish_at_checkpoint name cf t ck x stepId now ws tip base lane (op_state p) (op_meta p) st = Inr d"
  shows "op_decision_ok name lane p st d"
proof (cases "(\<exists>i r h. x = CompactionOutcome i r h) \<or> (x = DeclinedOutcome \<and> ta_reason t = Some ThresholdReason)")
  case True
  note ok = outcome_writes_ok[OF w]
  obtain pl where pl: "planBoundaryInbox name cf lane (os_scope (op_state p)) st tip
      (x = DeclinedOutcome \<and> (case ck_continuation ck of MayFinish f \<Rightarrow> True | _ \<Rightarrow> False)) = Inr pl"
    using d True unfolding publish_at_checkpoint_def by (auto simp: Let_def bindE_eq_Inr split: if_splits)
  note after = placed_after[OF pl placing_all_plain[OF ok(1)] ok(2)]
  define next_state where "next_state = (case (bo_triggerEntryId pl, ck_continuation ck) of
      (Some trigger, _) \<Rightarrow> assistantReadyAtBoundary cf lane (op_state p) stepId trigger False
    | (None, NeedAssistant used) \<Rightarrow> assistantReadyAtBoundary cf lane (op_state p) stepId (ck_triggerEntryId ck) used
    | (None, MayFinish f) \<Rightarrow> (op_state p)\<lparr>os_leaf := Checkpoint ck\<rparr>)"
  have run: "stateMatchesIntent (RunIntent ps) next_state"
    by (auto simp: next_state_def ready_matches checkpoint_runs split: option.splits continuation.splits)
  have "(\<exists>r. d = OpReturn r) \<or> (\<exists>ev'. d = OpCommit (ws @ bo_writes pl) next_state (placement_patch pl) ContinueResult ev')"
    using d True pl unfolding publish_at_checkpoint_def next_state_def by (auto simp: Let_def bindE_def split: if_splits)
  then show ?thesis using after run i by (auto intro!: commit_ok)
next
  case False
  have tip: "tip = la_tipId lane" using outcome_tip_resume[OF w t] False by blast
  obtain r e where "or_operationId r = me_operationId (op_meta p)"
    "d = OpFinish (ws @ operationCleanupWrites st (me_operationId (op_meta p)) (op_state p)) r no_patch (SettledResult r) e"
    using d False unfolding publish_at_checkpoint_def by (auto simp: Let_def bindE_eq_Inr split: if_splits dest: record_id)
  then show ?thesis using outcome_writes_ok(1,2)[OF w] tip by (auto intro!: finish_ok)
qed

lemma publishStructuralOutcome_ok: "planner_ok name (publishStructuralOutcome name cf x hu stepId now)"
proof (rule planner_okI)
  fix lane :: lane_state and p :: operation and st d
  assume m: "stateMatchesIntent (me_intent (op_meta p)) (op_state p)"
    and d: "publishStructuralOutcome name cf x hu stepId now lane (op_state p) (op_meta p) st = Inr d"
  obtain t where t: "leaf_task (os_leaf (op_state p)) = Some t" using d by (auto simp: publishStructuralOutcome_def split: option.splits)
  obtain ws tip ev where w: "outcome_writes name (me_operationId (op_meta p)) hu t (me_sourceTipId (op_meta p)) (la_tipId lane) x = (ws, tip, ev)"
    by (metis prod_cases3)
  note ok = outcome_writes_ok[OF w]
  have finished: "op_decision_ok name lane p st d"
    if "or_operationId r = me_operationId (op_meta p) \<and> d = OpFinish (ws @ operationCleanupWrites st (me_operationId (op_meta p)) (op_state p)) r
        (if outcome_kind x = None then no_patch else tip_patch tip) (SettledResult r) e" for r e
    using that ok by (cases "outcome_kind x") (auto intro!: finish_ok)
  show "op_decision_ok name lane p st d"
  proof (cases "ta_boundary t")
    case (ResumeCheckpoint ck)
    obtain ps where ps: "me_intent (op_meta p) = RunIntent ps" using resuming_intent[OF m t ResumeCheckpoint] by auto
    from d obtain base where
      "publish_at_checkpoint name cf t ck x stepId now ws tip base lane (op_state p) (op_meta p) st = Inr d"
      unfolding publishStructuralOutcome_def by (auto simp: t w ResumeCheckpoint Let_def bindE_eq_Inr split: if_splits)
    then show ?thesis by (rule publish_at_checkpoint_ok[OF ps ResumeCheckpoint w])
  next
    case FinishBoundary
    then have "\<exists>r e. or_operationId r = me_operationId (op_meta p) \<and> d = OpFinish (ws @ operationCleanupWrites st (me_operationId (op_meta p)) (op_state p)) r
        (if outcome_kind x = None then no_patch else tip_patch tip) (SettledResult r) e"
      using d by (auto simp: publishStructuralOutcome_def t w Let_def bindE_eq_Inr split: if_splits dest: record_id)
    then show ?thesis using finished by blast
  next
    case (CommitNavigation i l)
    then have "\<exists>r e. or_operationId r = me_operationId (op_meta p) \<and> d = OpFinish (ws @ operationCleanupWrites st (me_operationId (op_meta p)) (op_state p)) r
        (if outcome_kind x = None then no_patch else tip_patch tip) (SettledResult r) e"
      using d by (auto simp: publishStructuralOutcome_def t w Let_def bindE_eq_Inr split: if_splits dest: record_id)
    then show ?thesis using finished by blast
  qed
qed

section \<open>Navigation and the end of a run\<close>

lemma commitNavigation_ok: "planner_ok name (commitNavigation name now)"
proof (rule planner_okI)
  fix lane :: lane_state and p :: operation and st d
  assume d: "commitNavigation name now lane (op_state p) (op_meta p) st = Inr d"
  obtain target label where leaf: "os_leaf (op_state p) = NavigationReadyToCommit target label"
    using d by (auto simp: commitNavigation_def split: operation_leaf.splits)
  define labels where "labels = (case (target, label) of (Some i, Some l) \<Rightarrow> [SetValue (LabelKey i) (LabelValue l)] | _ \<Rightarrow> [])"
  obtain r e where "or_operationId r = me_operationId (op_meta p)" "d = OpFinish ((set_tip name target # labels) @ operationCleanupWrites st (me_operationId (op_meta p)) (op_state p)) r
      (tip_patch target) (SettledResult r) e"
    using d leaf by (auto simp: commitNavigation_def labels_def bindE_eq_Inr split: if_splits dest: record_id)
  moreover have "list_all (placing_write name) labels" "key_after labels (BranchTipKey name) v = v" for v
    by (auto simp: labels_def placing_write_def split: option.splits)
  ultimately show "op_decision_ok name lane p st d"
    using finish_ok[of name "set_tip name target # labels" lane "tip_patch target" r p st "SettledResult r" e]
    by (simp add: placing_write_def[of name "SetValue (BranchTipKey name) (TipValue target)"] set_tip_def tip_follows_def)
qed

lemma finish_run_ok: "planner_ok name (finish_run name cf planned pend fol stepId now)"
proof (rule planner_okI)
  fix lane :: lane_state and p :: operation and st d
  assume m: "stateMatchesIntent (me_intent (op_meta p)) (op_state p)"
    and d: "finish_run name cf planned pend fol stepId now lane (op_state p) (op_meta p) st = Inr d"
  obtain f where f: "finish_mediation (os_leaf (op_state p)) = Some f"
    and b: "finishRunBoundary name cf f planned pend fol stepId now lane (op_state p) (op_meta p) st = Inr d"
    using d by (auto simp: finish_run_def split: option.splits)
  have "\<exists>ps. me_intent (op_meta p) = RunIntent ps"
  proof (cases "leaf_task (os_leaf (op_state p))")
    case None
    then show ?thesis using run_intent[OF m None] f by (cases "os_leaf (op_state p)") (auto simp: finish_mediation_def navigating_def)
  next
    case (Some t)
    obtain ck where "ta_boundary t = ResumeCheckpoint ck"
      using f Some by (cases "os_leaf (op_state p)") (auto simp: finish_mediation_def split: result_boundary.splits)
    then show ?thesis using resuming_intent[OF m Some] by blast
  qed
  then show "op_decision_ok name lane p st d" using finishRunBoundary_ok[OF _ b] by blast
qed

end
