(* ===== verification/LaneSystem.thy ===== *)
theory LaneSystem
  imports LanePlanners
begin

text \<open>
  The lanes of a process over one storage, as a step relation: a client's commands, the decisions of drives, the progress
  that is written meanwhile, the acquisition of a lane, and the loss of the process. Whatever the order of steps, the
  storage restores each lane as the process has it.
\<close>

section \<open>Actions\<close>

text \<open>The commands of a client.\<close>

datatype client_action =
    AcceptRun jstr int "(jstr \<times> agent_message) list"
  | AcceptCompaction jstr jstr int "jstr option"
  | AcceptNavigation jstr jstr int "jstr option" bool "jstr option" "jstr option" "jstr option" "branch_preparation option"
  | RequestAbort jstr int
  | Enqueue inbox_kind jstr agent_message
  | CancelQueued jstr
  | RecordUsage jstr "number usage" "jstr option" "json option"
  | SetConfiguration config_change
  | AppendEntry jstr pending_entry

text \<open>The decisions of a drive, and the writes of its effects.\<close>

datatype drive_action =
    StartRun "(jstr \<times> agent_message) list"
  | RunCheckpoint "(jstr \<times> structural_preparation) option" jstr
  | FinishRun "jstr list" "harness_event list" "(jstr \<times> jstr) option" jstr int
  | GenerationIntent jstr jstr int int
  | FinishRetryWait
  | ConfigurationFailure operation_error int
  | PollIntent jstr jstr
  | ToolIntent batch_call jstr jstr json call_replay bool
  | StructuralReady jstr
  | AttemptIntent
  | NestedRequestIntent nat jstr
  | StructuralRetry jstr bool int
  | StructuralOutcome structural_outcome "(jstr \<times> number usage) option" jstr int
  | NavigationCommit int

datatype settle_action =
    Response response_facts assistant_message
  | ToolOutcome batch_call jstr jstr json tool_result bool bool
  | Placement placement_read "nat \<Rightarrow> jstr"
  | NestedRequestOutcome jstr "number usage"
  | AbortedTerminal int

datatype effect_action =
    FrameWrite jstr jstr frame
  | OutputWrite jstr jstr nat jstr tool_output
  | MemoWrite jstr nat jstr jstr "json option"
  | ReplayCheckpoint jstr jstr batch_call jstr jstr

datatype lane_action =
    Client client_action
  | Continue drive_action
  | SettleEffect settle_action
  | Effect effect_action

definition ignoring :: "('r \<Rightarrow> 's) \<Rightarrow> 'r planner \<Rightarrow> 's planner" where
  "ignoring f plan lane st =
     bindE (plan lane st) (\<lambda>d. Inr (case d of Commit ws n r ev \<Rightarrow> Commit ws n (f r) ev | Return r \<Rightarrow> Return (f r)))"

definition ignored :: "'r \<Rightarrow> unit" where "ignored r = ()"

fun client_plan :: "(number \<Rightarrow> jstr) \<Rightarrow> harness_config \<Rightarrow> jstr \<Rightarrow> client_action \<Rightarrow> unit planner" where
  "client_plan dbl cf name (AcceptRun p at prompt) = ignoring ignored (acceptRun name cf p at prompt)"
| "client_plan dbl cf name (AcceptCompaction p t at i) = ignoring ignored (acceptCompaction dbl name cf p t at i)"
| "client_plan dbl cf name (AcceptNavigation p t at target summarize label i observed pr) =
     ignoring ignored (acceptNavigation name cf p t at target summarize label i observed pr)"
| "client_plan dbl cf name (RequestAbort p requestedAt) = ignoring ignored (requestOperationAbort name p requestedAt)"
| "client_plan dbl cf name (Enqueue k i m) = ignoring ignored (enqueue name k i m)"
| "client_plan dbl cf name (CancelQueued i) = ignoring ignored (cancelQueued name i)"
| "client_plan dbl cf name (RecordUsage i u e d) = ignoring ignored (recordUsage name i u e d)"
| "client_plan dbl cf name (SetConfiguration ch) = ignoring ignored (setConfiguration name ch)"
| "client_plan dbl cf name (AppendEntry i x) = ignoring ignored (append_entry name i x)"

fun drive_plan :: "harness_config \<Rightarrow> jstr \<Rightarrow> drive_action \<Rightarrow> unit planner" where
  "drive_plan cf name (StartRun rs) = ignoring ignored (continueOperation name (startRun name rs))"
| "drive_plan cf name (RunCheckpoint th i) = ignoring ignored (continueOperation name (runCheckpoint name cf th i))"
| "drive_plan cf name (FinishRun planned pend fol i now) =
     ignoring ignored (continueOperation name (finish_run name cf planned pend fol i now))"
| "drive_plan cf name (GenerationIntent r u mt cw) =
     ignoring ignored (continueOperation name (publishGenerationIntent name r u mt cw))"
| "drive_plan cf name FinishRetryWait = ignoring ignored (continueOperation name (finish_retry_wait name))"
| "drive_plan cf name (ConfigurationFailure e now) =
     ignoring ignored (continueOperation name (publishConfigurationFailure name e now))"
| "drive_plan cf name (PollIntent r u) = ignoring ignored (continueOperation name (publishPollIntent name r u))"
| "drive_plan cf name (ToolIntent c i n as rep rec) =
     ignoring ignored (continueOperation name (publishToolIntent name c i n as rep rec))"
| "drive_plan cf name (StructuralReady i) = ignoring ignored (continueOperation name (publishStructuralReady name cf i))"
| "drive_plan cf name AttemptIntent = ignoring ignored (continueOperation name publishAttemptIntent)"
| "drive_plan cf name (NestedRequestIntent i u) = ignoring ignored (continueOperation name (publishNestedRequestIntent i u))"
| "drive_plan cf name (StructuralRetry e rec now) =
     ignoring ignored (continueOperation name (publishStructuralRetry name e rec now))"
| "drive_plan cf name (StructuralOutcome x hu i now) =
     ignoring ignored (continueOperation name (publishStructuralOutcome name cf x hu i now))"
| "drive_plan cf name (NavigationCommit now) = ignoring ignored (continueOperation name (commitNavigation name now))"

fun settle_plan :: "jstr \<Rightarrow> settle_action \<Rightarrow> unit planner" where
  "settle_plan name (Response rf a) = ignoring ignored (settleOperation name (publishResponse name rf a))"
| "settle_plan name (ToolOutcome c i n as r t rec) =
     ignoring ignored (settleOperation name (publishToolOutcome name c i n as r t rec))"
| "settle_plan name (Placement rd us) = ignoring ignored (settleOperation name (commitPlacement name rd us))"
| "settle_plan name (NestedRequestOutcome i u) = ignoring ignored (settleOperation name (publishNestedRequestOutcome name i u))"
| "settle_plan name (AbortedTerminal now) = ignoring ignored (settleOperation name (publishAbortedTerminal name now))"

fun effect_plan :: "jstr \<Rightarrow> effect_action \<Rightarrow> unit planner" where
  "effect_plan name (FrameWrite p r f) = write_frame p r f"
| "effect_plan name (OutputWrite p t i r x) = write_output p t i r x"
| "effect_plan name (MemoWrite p i r n v) = ignoring ignored (set_memo p i r n v)"
| "effect_plan name (ReplayCheckpoint p t c i n) = ignoring ignored (clearReplayCheckpoint name p t c i n)"

fun lane_plan :: "(number \<Rightarrow> jstr) \<Rightarrow> harness_config \<Rightarrow> jstr \<Rightarrow> lane_action \<Rightarrow> unit planner" where
  "lane_plan dbl cf name (Client a) = client_plan dbl cf name a"
| "lane_plan dbl cf name (Continue a) = drive_plan cf name a"
| "lane_plan dbl cf name (SettleEffect a) = settle_plan name a"
| "lane_plan dbl cf name (Effect a) = effect_plan name a"

text \<open>No operation is stored under an id.\<close>

definition id_unused :: "jstr \<Rightarrow> lane_store \<Rightarrow> bool" where
  "id_unused p st \<longleftrightarrow> sr_values st (MetaKey p) = None \<and> sr_values st (StateKey p) = None"

text \<open>What the client has to see to: the id of an operation that is accepted has no operation yet.\<close>

fun unused_id :: "lane_action \<Rightarrow> lane_store \<Rightarrow> bool" where
  "unused_id (Client (AcceptRun p at prompt)) st = id_unused p st"
| "unused_id (Client (AcceptCompaction p t at i)) st = id_unused p st"
| "unused_id (Client (AcceptNavigation p t at target summarize label i observed pr)) st = id_unused p st"
| "unused_id a st = True"

section \<open>Commands keep their lane\<close>

definition fresh_or_own :: "lane_state \<Rightarrow> lane_store \<Rightarrow> jstr option \<Rightarrow> bool" where
  "fresh_or_own lane st p \<longleftrightarrow> p = None \<or> p = current_id lane \<or> (\<exists>q. p = Some q \<and> id_unused q st)"

definition keeps_lane :: "jstr \<Rightarrow> 'r planner \<Rightarrow> lane_state \<Rightarrow> lane_store \<Rightarrow> bool" where
  "keeps_lane name plan lane st \<longleftrightarrow>
     (\<forall>ws n r ev v'. lane_holds name lane (sr_values st) \<longrightarrow> plan lane st = Inr (Commit ws n r ev) \<longrightarrow>
        (\<forall>k. v' k = key_after ws k (sr_values st k)) \<longrightarrow>
        lane_holds name n v' \<and> (\<exists>p. list_all (own_write name p) ws \<and> fresh_or_own lane st p))"

lemma keeps_laneI:
  assumes "\<And>ws n r ev v'. lane_holds name lane (sr_values st) \<Longrightarrow> plan lane st = Inr (Commit ws n r ev) \<Longrightarrow>
      (\<And>k. v' k = key_after ws k (sr_values st k)) \<Longrightarrow>
      lane_holds name n v' \<and> (\<exists>p. list_all (own_write name p) ws \<and> fresh_or_own lane st p)"
  shows "keeps_lane name plan lane st"
  unfolding keeps_lane_def using assms by blast

lemma ignoring_commit: "ignoring f plan lane st = Inr (Commit ws n r ev) \<Longrightarrow> \<exists>r0. plan lane st = Inr (Commit ws n r0 ev)"
  by (cases "plan lane st") (auto simp: ignoring_def bindE_def split: decision.splits)

lemma keeps_ignoring:
  assumes "keeps_lane name plan lane st"
  shows "keeps_lane name (ignoring f plan) lane st"
proof (rule keeps_laneI)
  fix ws n r ev v'
  assume a: "lane_holds name lane (sr_values st)" "ignoring f plan lane st = Inr (Commit ws n r ev)"
    "\<And>k. v' k = key_after ws k (sr_values st k)"
  obtain r0 where "plan lane st = Inr (Commit ws n r0 ev)" using ignoring_commit[OF a(2)] by blast
  then show "lane_holds name n v' \<and> (\<exists>p. list_all (own_write name p) ws \<and> fresh_or_own lane st p)"
    using assms a(1,3) unfolding keeps_lane_def by blast
qed

lemma keeps_settle:
  assumes "planner_ok name plan"
  shows "keeps_lane name (settleOperation name plan) lane st"
  unfolding keeps_lane_def fresh_or_own_def using settle_keeps[OF assms] by blast

lemma keeps_continue: "planner_ok name plan \<Longrightarrow> keeps_lane name (continueOperation name plan) lane st"
  unfolding continue_settle by (intro keeps_settle when_running_ok)

lemmas drive_planners_ok =
  startRun_ok runCheckpoint_ok finish_run_ok publishGenerationIntent_ok finish_retry_wait_ok publishConfigurationFailure_ok
  publishPollIntent_ok publishToolIntent_ok publishStructuralReady_ok publishAttemptIntent_ok publishNestedRequestIntent_ok
  publishStructuralRetry_ok publishStructuralOutcome_ok commitNavigation_ok publishResponse_ok publishToolOutcome_ok
  commitPlacement_ok publishNestedRequestOutcome_ok publishAbortedTerminal_ok

lemma drives_keep: "keeps_lane name (drive_plan cf name a) lane st"
  by (cases a) (simp_all add: keeps_ignoring keeps_continue drive_planners_ok)

lemma settles_keep: "keeps_lane name (settle_plan name a) lane st"
  by (cases a) (simp_all add: keeps_ignoring keeps_settle drive_planners_ok)

text \<open>A commit that leaves the lane as it is.\<close>

lemma own_none: "own_write name None w \<Longrightarrow> own_write name p w"
  by (auto simp: own_write_def own_key_def split: lane_write.splits lane_key.splits)

lemma effect_keeps:
  assumes "\<And>ws n r ev. plan lane st = Inr (Commit ws n r ev) \<Longrightarrow>
      n = lane \<and> list_all (plain_write name) ws \<and> (\<forall>v. key_after ws (BranchTipKey name) v = v)"
  shows "keeps_lane name plan lane st"
proof (rule keeps_laneI)
  fix ws n r ev v'
  assume h: "lane_holds name lane (sr_values st)" and c: "plan lane st = Inr (Commit ws n r ev)"
    and v: "\<And>k. v' k = key_after ws k (sr_values st k)"
  have a: "n = lane" "list_all (plain_write name) ws" "\<And>x. key_after ws (BranchTipKey name) x = x" using assms[OF c] by auto
  have "v' k = sr_values st k" if "\<not> plain_key name k" for k using v plain_untouched[OF a(2) that] by simp
  then have "lane_holds name n v'" using h v[of "BranchTipKey name"] a(1,3)
    by (auto simp: lane_holds_def plain_key_def split: option.splits)
  moreover have "list_all (own_write name None) ws" using a(2) by (simp add: list_all_iff plain_own)
  ultimately show "lane_holds name n v' \<and> (\<exists>p. list_all (own_write name p) ws \<and> fresh_or_own lane st p)"
    unfolding fresh_or_own_def by blast
qed

lemma effects_keep: "keeps_lane name (effect_plan name a) lane st"
proof (cases a)
  case (FrameWrite p r f)
  have "keeps_lane name (write_frame p r f) lane st"
  proof (rule keeps_laneI)
    fix ws n x ev v'
    assume h: "lane_holds name lane (sr_values st)" and c: "write_frame p r f lane st = Inr (Commit ws n x ev)"
      and v: "\<And>k. v' k = key_after ws k (sr_values st k)"
    have w: "ws = [AppendFrame p r f]" "n = lane" using c by (auto simp: write_frame_def split: if_splits)
    have "v' = sr_values st" using v by (auto simp: w)
    then show "lane_holds name n v' \<and> (\<exists>p. list_all (own_write name p) ws \<and> fresh_or_own lane st p)"
      using h by (simp add: w own_write_def fresh_or_own_def) blast
  qed
  then show ?thesis using FrameWrite by simp
next
  case (OutputWrite p t i r x)
  then show ?thesis by (auto intro!: effect_keeps simp: write_output_def plain_write_def plain_key_def split: if_splits)
next
  case (MemoWrite p i r n v)
  have "keeps_lane name (set_memo p i r n v) lane st"
    by (rule effect_keeps) (auto simp: set_memo_def plain_write_def plain_key_def split: if_splits option.splits)
  then show ?thesis using MemoWrite by (simp add: keeps_ignoring)
next
  case (ReplayCheckpoint p t c i n)
  have "keeps_lane name (clearReplayCheckpoint name p t c i n) lane st"
    by (rule effect_keeps) (auto simp: clearReplayCheckpoint_def plain_write_def plain_key_def split: option.splits)
  then show ?thesis using ReplayCheckpoint by (simp add: keeps_ignoring)
qed

text \<open>A commit that changes inbox, tip and configuration and leaves the operation.\<close>

definition lane_tail :: "jstr \<Rightarrow> lane_state \<Rightarrow> lane_write" where
  "lane_tail name n = set_lane_state name (durableLaneState n (current_id n) (la_inbox n) (la_lastOperationId n))"

lemma durable_same: "durableLaneState a x y z = durableLaneState b x y z"
  by (simp add: durableLaneState_def)

lemma idle_keeps:
  assumes h: "lane_holds name lane (sr_values st)" and v: "\<And>k. v' k = key_after (ws @ [lane_tail name n]) k (sr_values st k)"
    and n: "la_operation n = la_operation lane" "la_configuration n = la_configuration lane"
    and ws: "list_all (plain_write name) ws" "key_after ws (BranchTipKey name) (Some (TipValue (la_tipId lane))) = Some (TipValue (la_tipId n))"
  shows "lane_holds name n v' \<and> (\<exists>p. list_all (own_write name p) (ws @ [lane_tail name n]) \<and> fresh_or_own lane st p)"
proof
  have u: "key_after ws k x = x" if "\<not> plain_key name k" for k x by (rule plain_untouched[OF ws(1) that])
  have keys: "key_after ws (LaneConfigKey m) x = x" "key_after ws (LaneStateKey m) x = x"
    "key_after ws (MetaKey m) x = x" "key_after ws (StateKey m) x = x" for m x
    using u by (simp_all add: plain_key_def)
  show "lane_holds name n v'" using h n ws(2)
    by (simp add: lane_holds_def v keys lane_tail_def set_lane_state_def split: option.splits)
  have "own_write name None (lane_tail name n)" by (simp add: own_write_def own_key_def lane_tail_def set_lane_state_def)
  then have "list_all (own_write name None) (ws @ [lane_tail name n])" using ws(1) by (simp add: list_all_iff plain_own)
  then show "\<exists>p. list_all (own_write name p) (ws @ [lane_tail name n]) \<and> fresh_or_own lane st p"
    unfolding fresh_or_own_def by blast
qed

lemma enqueue_keeps: "keeps_lane name (enqueue name k i m) lane st"
proof (rule keeps_laneI)
  fix ws n r ev v'
  assume h: "lane_holds name lane (sr_values st)" and c: "enqueue name k i m lane st = Inr (Commit ws n r ev)"
    and v: "\<And>k. v' k = key_after ws k (sr_values st k)"
  have ws: "ws = [SetValue (PendingKey i) (PendingValue (PendingMessage m))] @ [lane_tail name n]"
    "n = lane\<lparr>la_inbox := la_inbox lane @ [\<lparr>in_entryId = i, in_kind = k\<rparr>]\<rparr>"
    using c by (auto simp: enqueue_def bindE_eq_Inr Let_def lane_tail_def current_id_def durableLaneState_def)
  show "lane_holds name n v' \<and> (\<exists>p. list_all (own_write name p) ws \<and> fresh_or_own lane st p)"
    unfolding ws(1) by (rule idle_keeps[OF h v[unfolded ws(1)]]) (simp_all add: ws(2) plain_write_def plain_key_def)
qed

lemma cancelQueued_keeps: "keeps_lane name (cancelQueued name i) lane st"
proof (rule keeps_laneI)
  fix ws n r ev v'
  assume h: "lane_holds name lane (sr_values st)" and c: "cancelQueued name i lane st = Inr (Commit ws n r ev)"
    and v: "\<And>k. v' k = key_after ws k (sr_values st k)"
  have ws: "ws = [DeleteValue (PendingKey i)] @ [lane_tail name n]"
    "n = lane\<lparr>la_inbox := filter (\<lambda>x. in_entryId x \<noteq> i) (la_inbox lane)\<rparr>"
    using c by (auto simp: cancelQueued_def bindE_eq_Inr Let_def lane_tail_def current_id_def durableLaneState_def
        split: option.splits if_splits)
  show "lane_holds name n v' \<and> (\<exists>p. list_all (own_write name p) ws \<and> fresh_or_own lane st p)"
    unfolding ws(1) by (rule idle_keeps[OF h v[unfolded ws(1)]]) (simp_all add: ws(2) plain_write_def plain_key_def)
qed

lemma append_keeps: "keeps_lane name (append_entry name i x) lane st"
proof (rule keeps_laneI)
  fix ws n r ev v'
  assume h: "lane_holds name lane (sr_values st)" and c: "append_entry name i x lane st = Inr (Commit ws n r ev)"
    and v: "\<And>k. v' k = key_after ws k (sr_values st k)"
  show "lane_holds name n v' \<and> (\<exists>p. list_all (own_write name p) ws \<and> fresh_or_own lane st p)"
  proof (cases "la_operation lane")
    case None
    define queued where "queued = inboxItems (la_inbox lane) WriteItem"
    obtain es where ws: "ws = (map InsertEntry es @ delete_pending queued @ [set_tip name (Some i)]) @ [lane_tail name n]"
      "n = lane\<lparr>la_tipId := Some i, la_inbox := withoutInboxItems (la_inbox lane) queued\<rparr>"
      using c None by (auto simp: append_entry_def queued_def bindE_eq_Inr Let_def lane_tail_def current_id_def durableLaneState_def)
    have tip: "plain_write name (SetValue (BranchTipKey name) x)" for x by (simp add: plain_write_def plain_key_def)
    show ?thesis unfolding ws(1)
      by (rule idle_keeps[OF h v[unfolded ws(1)]])
        (simp_all add: ws(2) tip set_tip_def plain_entries plain_pending entries_key pending_key)
  next
    case (Some p)
    have ws: "ws = [SetValue (PendingKey i) (PendingValue x)] @ [lane_tail name n]"
      "n = lane\<lparr>la_inbox := la_inbox lane @ [\<lparr>in_entryId = i, in_kind = WriteItem\<rparr>]\<rparr>"
      using c Some by (auto simp: append_entry_def bindE_eq_Inr Let_def lane_tail_def current_id_def durableLaneState_def)
    show ?thesis
      unfolding ws(1) by (rule idle_keeps[OF h v[unfolded ws(1)]]) (simp_all add: ws(2) plain_write_def plain_key_def)
  qed
qed

lemma setConfiguration_keeps: "keeps_lane name (setConfiguration name ch) lane st"
  by (rule keeps_laneI)
    (auto simp: setConfiguration_def Let_def lane_holds_def current_id_def durableLaneState_def own_write_def own_key_def
      fresh_or_own_def split: option.splits)

lemma recordUsage_keeps: "keeps_lane name (recordUsage name i u e d) lane st"
  by (rule effect_keeps) (auto simp: recordUsage_def Let_def plain_write_def)

text \<open>Cancellation changes the control of the state and nothing that an intent looks at.\<close>

lemma control_matches:
  "stateMatchesIntent i (s\<lparr>os_scope := scope\<rparr>) = stateMatchesIntent i s"
proof -
  have "os_leaf (s\<lparr>os_scope := scope\<rparr>) = os_leaf s" by simp
  then show ?thesis unfolding stateMatchesIntent_def by (rule arg_cong)
qed

lemma abort_writes:
  assumes c: "requestOperationAbort name q requestedAt lane st = Inr (Commit ws n r ev)"
  obtains removed p s where "la_operation lane = Some p" "operation_id p = q"
    "s = (op_state p)\<lparr>os_scope := (os_scope (op_state p))\<lparr>sc_control := CancelRequested requestedAt\<rparr>\<rparr>"
    "ws = delete_pending removed @ [SetValue (StateKey q) (StateValue s),
      set_lane_state name (durableLaneState lane (Some q) (withoutInboxItems (la_inbox lane) removed) (la_lastOperationId lane))]"
    "n = lane\<lparr>la_inbox := withoutInboxItems (la_inbox lane) removed, la_operation := Some (p\<lparr>op_state := s\<rparr>)\<rparr>"
proof -
  define removed where "removed = filter (\<lambda>i. in_kind i = SteerItem \<or> in_kind i = FollowUpItem) (la_inbox lane)"
  obtain p where p: "la_operation lane = Some p" "operation_id p = q"
    using c by (auto simp: requestOperationAbort_def split: option.splits if_splits)
  define s where "s = (op_state p)\<lparr>os_scope := (os_scope (op_state p))\<lparr>sc_control := CancelRequested requestedAt\<rparr>\<rparr>"
  have "ws = delete_pending removed @ [SetValue (StateKey q) (StateValue s),
      set_lane_state name (durableLaneState lane (Some q) (withoutInboxItems (la_inbox lane) removed) (la_lastOperationId lane))]"
    "n = lane\<lparr>la_inbox := withoutInboxItems (la_inbox lane) removed, la_operation := Some (p\<lparr>op_state := s\<rparr>)\<rparr>"
    using c p unfolding requestOperationAbort_def Let_def
    by (auto simp: removed_def s_def bindE_eq_Inr split: if_splits)
  then show thesis using that p s_def by blast
qed

lemma abort_keeps: "keeps_lane name (requestOperationAbort name q requestedAt) lane st"
proof (rule keeps_laneI)
  fix ws n r ev v'
  assume h: "lane_holds name lane (sr_values st)" and c: "requestOperationAbort name q requestedAt lane st = Inr (Commit ws n r ev)"
    and v: "\<And>k. v' k = key_after ws k (sr_values st k)"
  obtain removed p s where p: "la_operation lane = Some p" "operation_id p = q"
    and s_def: "s = (op_state p)\<lparr>os_scope := (os_scope (op_state p))\<lparr>sc_control := CancelRequested requestedAt\<rparr>\<rparr>"
    and ws: "ws = delete_pending removed @ [SetValue (StateKey q) (StateValue s),
      set_lane_state name (durableLaneState lane (Some q) (withoutInboxItems (la_inbox lane) removed) (la_lastOperationId lane))]"
    "n = lane\<lparr>la_inbox := withoutInboxItems (la_inbox lane) removed, la_operation := Some (p\<lparr>op_state := s\<rparr>)\<rparr>"
    by (rule abort_writes[OF c])
  have u: "key_after (delete_pending removed) k x = x" if "\<not> plain_key name k" for k x
    by (rule plain_untouched[OF plain_pending that])
  have keys: "key_after (delete_pending removed) (LaneConfigKey m) x = x" "key_after (delete_pending removed) (LaneStateKey m) x = x"
    "key_after (delete_pending removed) (MetaKey m) x = x" "key_after (delete_pending removed) (StateKey m) x = x" for m x
    using u by (simp_all add: plain_key_def)
  have match: "stateMatchesIntent (me_intent (op_meta p)) s" using h p by (simp add: lane_holds_def s_def control_matches)
  have "lane_holds name n v'"
    using h p match unfolding lane_holds_def v ws
    by (simp add: keys pending_key lane_tail_def set_lane_state_def current_id_def operation_id_def durableLaneState_def)
  moreover have "list_all (own_write name (current_id lane)) ws"
    using p plain_pending[of name removed, THEN list_all_iff[THEN iffD1]] unfolding ws(1)
    by (auto simp: list_all_iff plain_own own_write_def[of name _ "SetValue x y" for x y] own_key_def current_id_def set_lane_state_def)
  ultimately show "lane_holds name n v' \<and> (\<exists>p. list_all (own_write name p) ws \<and> fresh_or_own lane st p)"
    unfolding fresh_or_own_def by blast
qed

section \<open>Accepting\<close>

definition accepted_tail :: "jstr \<Rightarrow> operation_meta \<Rightarrow> operation_state \<Rightarrow> lane_state \<Rightarrow> lane_write list" where
  "accepted_tail name meta s n =
     [SetValue (MetaKey (me_operationId meta)) (MetaValue meta), SetValue (StateKey (me_operationId meta)) (StateValue s),
      lane_tail name n]"

lemma accepted_keeps:
  assumes h: "lane_holds name lane (sr_values st)" and v: "\<And>k. v' k = key_after (ws @ accepted_tail name meta s n) k (sr_values st k)"
    and n: "la_operation n = Some \<lparr>op_meta = meta, op_state = s\<rparr>" "la_configuration n = la_configuration lane"
    and ws: "list_all (plain_write name) ws" "key_after ws (BranchTipKey name) (Some (TipValue (la_tipId lane))) = Some (TipValue (la_tipId n))"
    and m: "me_lane meta = name" "stateMatchesIntent (me_intent meta) s" "id_unused (me_operationId meta) st"
  shows "lane_holds name n v' \<and> (\<exists>p. list_all (own_write name p) (ws @ accepted_tail name meta s n) \<and> fresh_or_own lane st p)"
proof
  have u: "key_after ws k x = x" if "\<not> plain_key name k" for k x by (rule plain_untouched[OF ws(1) that])
  have keys: "key_after ws (LaneConfigKey m) x = x" "key_after ws (LaneStateKey m) x = x"
    "key_after ws (MetaKey m) x = x" "key_after ws (StateKey m) x = x" for m x
    using u by (simp_all add: plain_key_def)
  show "lane_holds name n v'" using h n ws(2) m
    by (simp add: lane_holds_def v keys accepted_tail_def lane_tail_def set_lane_state_def operation_id_def)
  have "list_all (own_write name (Some (me_operationId meta))) (accepted_tail name meta s n)"
    by (simp add: accepted_tail_def own_write_def own_key_def lane_tail_def set_lane_state_def)
  then have "list_all (own_write name (Some (me_operationId meta))) (ws @ accepted_tail name meta s n)"
    using ws(1) by (auto simp: list_all_iff plain_own)
  then show "\<exists>p. list_all (own_write name p) (ws @ accepted_tail name meta s n) \<and> fresh_or_own lane st p"
    using m(3) unfolding fresh_or_own_def by blast
qed

lemma structural_accepted:
  assumes c: "accept_structural name meta s ws0 event lane = Commit ws n r ev"
    and h: "lane_holds name lane (sr_values st)" and v: "\<And>k. v' k = key_after ws k (sr_values st k)"
    and ws: "list_all (plain_write name) ws0" "\<And>x. key_after ws0 (BranchTipKey name) x = x"
    and m: "me_lane meta = name" "stateMatchesIntent (me_intent meta) s" "id_unused (me_operationId meta) st"
  shows "lane_holds name n v' \<and> (\<exists>p. list_all (own_write name p) ws \<and> fresh_or_own lane st p)"
proof -
  have e: "ws = ws0 @ accepted_tail name meta s n" "n = lane\<lparr>la_operation := Some \<lparr>op_meta = meta, op_state = s\<rparr>\<rparr>"
    using c by (auto simp: accept_structural_def Let_def accepted_tail_def lane_tail_def current_id_def operation_id_def durableLaneState_def)
  show ?thesis unfolding e(1)
    by (rule accepted_keeps[OF h v[unfolded e(1)]]) (simp_all add: e(2) ws m)
qed

definition run_meta :: "jstr \<Rightarrow> jstr \<Rightarrow> int \<Rightarrow> (jstr \<times> agent_message) list \<Rightarrow> lane_state \<Rightarrow> operation_meta" where
  "run_meta name q startedAt prompt lane = \<lparr>me_operationId = q, me_lane = name, me_sourceTipId = la_tipId lane, me_startedAt = startedAt,
     me_intent = RunIntent (map fst prompt)\<rparr>"

lemma acceptRun_writes:
  assumes c: "acceptRun name cf q startedAt prompt lane st = Inr (Commit ws n r ev)"
  obtains es selected where
    "ws = (map InsertEntry es @ delete_pending selected @ [set_tip name (la_tipId n)]) @
       accepted_tail name (run_meta name q startedAt prompt lane) \<lparr>os_scope = acceptance_scope cf, os_leaf = Starting\<rparr> n"
    "la_operation n = Some \<lparr>op_meta = run_meta name q startedAt prompt lane,
       op_state = \<lparr>os_scope = acceptance_scope cf, os_leaf = Starting\<rparr>\<rparr>"
    "la_configuration n = la_configuration lane"
proof -
  have idle: "la_operation lane = None" using c by (auto simp: acceptRun_def split: option.splits)
  obtain selected inbox where sel: "selectAcceptedInbox (la_inbox lane) (hc_steeringMode cf) (hc_followUpMode cf) = (selected, inbox)"
    by (cases "selectAcceptedInbox (la_inbox lane) (hc_steeringMode cf) (hc_followUpMode cf)")
  show thesis
    using c idle sel that
    by (auto simp: acceptRun_def run_meta_def bindE_eq_Inr Let_def accepted_tail_def lane_tail_def current_id_def
        operation_id_def durableLaneState_def split: if_splits)
qed

lemma acceptRun_keeps:
  assumes "id_unused q st"
  shows "keeps_lane name (acceptRun name cf q startedAt prompt) lane st"
proof (rule keeps_laneI)
  fix ws n r ev v'
  assume h: "lane_holds name lane (sr_values st)" and c: "acceptRun name cf q startedAt prompt lane st = Inr (Commit ws n r ev)"
    and v: "\<And>k. v' k = key_after ws k (sr_values st k)"
  show "lane_holds name n v' \<and> (\<exists>p. list_all (own_write name p) ws \<and> fresh_or_own lane st p)"
  proof (rule acceptRun_writes[OF c])
    fix es selected
    assume ws: "ws = (map InsertEntry es @ delete_pending selected @ [set_tip name (la_tipId n)]) @
        accepted_tail name (run_meta name q startedAt prompt lane) \<lparr>os_scope = acceptance_scope cf, os_leaf = Starting\<rparr> n"
      "la_operation n = Some \<lparr>op_meta = run_meta name q startedAt prompt lane,
        op_state = \<lparr>os_scope = acceptance_scope cf, os_leaf = Starting\<rparr>\<rparr>"
      "la_configuration n = la_configuration lane"
    have tip: "plain_write name (set_tip name t)" for t by (simp add: plain_write_def plain_key_def set_tip_def)
    show ?thesis unfolding ws(1)
    proof (rule accepted_keeps[OF h v[unfolded ws(1)] ws(2,3)])
      show "list_all (plain_write name) (map InsertEntry es @ delete_pending selected @ [set_tip name (la_tipId n)])"
        by (simp add: tip plain_entries plain_pending)
      show "key_after (map InsertEntry es @ delete_pending selected @ [set_tip name (la_tipId n)]) (BranchTipKey name)
          (Some (TipValue (la_tipId lane))) = Some (TipValue (la_tipId n))" by (simp add: set_tip_def)
    qed (simp_all add: run_meta_def stateMatchesIntent_def assms)
  qed
qed

text \<open>
  The id must be unused: a run that is accepted under the id of an operation of another lane takes that operation's place,
  and the other lane can no longer be restored.
\<close>

lemma taken_id_breaks_lane:
  assumes h: "lane_holds other lane (sr_values st)" and p: "la_operation lane = Some p" "name \<noteq> other"
    and c: "acceptRun name cf (operation_id p) startedAt prompt idle st = Inr (Commit ws n r ev)"
    and s: "store_commit ws now st = Inr (x, st')"
  shows "restoreLane st' other = Inl (MetaOfLane (operation_id p) name other)"
proof (rule acceptRun_writes[OF c])
  fix es selected
  define meta where "meta = run_meta name (operation_id p) startedAt prompt idle"
  define s0 where "s0 = \<lparr>os_scope = acceptance_scope cf, os_leaf = Starting\<rparr>"
  assume ws: "ws = (map InsertEntry es @ delete_pending selected @ [set_tip name (la_tipId n)]) @
      accepted_tail name (run_meta name (operation_id p) startedAt prompt idle) \<lparr>os_scope = acceptance_scope cf, os_leaf = Starting\<rparr> n"
  have v: "sr_values st' k = key_after ws k (sr_values st k)" for k using commit_values[OF s] .
  have u: "key_after (delete_pending selected) k y = y" if "\<not> plain_key name k" for k y
    by (rule plain_untouched[OF plain_pending that])
  have keys: "key_after (delete_pending selected) (LaneConfigKey m) y = y" "key_after (delete_pending selected) (LaneStateKey m) y = y"
    for m y
    using u by (simp_all add: plain_key_def)
  have "sr_values st' (BranchTipKey other) = sr_values st (BranchTipKey other)"
    "sr_values st' (LaneConfigKey other) = sr_values st (LaneConfigKey other)"
    "sr_values st' (LaneStateKey other) = sr_values st (LaneStateKey other)"
    using p(2) by (simp_all add: v ws entries_key pending_key keys set_tip_def accepted_tail_def lane_tail_def set_lane_state_def)
  then have r: "readLaneStorage st' other = Inr (ConfiguredLane (la_tipId lane) (la_configuration lane)
      (durableLaneState lane (current_id lane) (la_inbox lane) (la_lastOperationId lane)))"
    using h by (simp add: lane_holds_def readLaneStorage_def classifyLaneStorage_def get_tip_def get_config_def get_lane_def)
  have "get_meta st' (operation_id p) = Some meta" "get_state st' (operation_id p) = Some s0"
    by (simp_all add: get_meta_def get_state_def v ws accepted_tail_def lane_tail_def set_lane_state_def meta_def s0_def run_meta_def)
  then have "restore_operation st' other (operation_id p) = Inl (MetaOfLane (operation_id p) name other)"
    using p(2) by (simp add: restore_operation_def meta_def run_meta_def)
  then show ?thesis using p(1)
    by (simp add: restoreLane_def r bindE_def restoreLaneState_def durableLaneState_def current_id_def)
qed

lemma acceptCompaction_keeps:
  assumes "id_unused q st"
  shows "keeps_lane name (acceptCompaction dbl name cf q t at i) lane st"
proof (rule keeps_laneI)
  fix ws n r ev v'
  assume h: "lane_holds name lane (sr_values st)" and c: "acceptCompaction dbl name cf q t at i lane st = Inr (Commit ws n r ev)"
    and v: "\<And>k. v' k = key_after ws k (sr_values st k)"
  obtain pr where "accept_structural name
      \<lparr>me_operationId = q, me_lane = name, me_sourceTipId = la_tipId lane, me_startedAt = at, me_intent = CompactionIntent i\<rparr>
      \<lparr>os_scope = acceptance_scope cf, os_leaf = SummaryDeciding
         \<lparr>ta_taskId = t, ta_reason = Some ManualReason, ta_customInstructions = i, ta_boundary = FinishBoundary\<rparr>\<rparr>
      [SetValue (PreparationKey q t) (PreparationValue (CompactionPreparation pr))]
      (EvCompactionStart q ManualReason at) lane = Commit ws n r ev"
    using c unfolding acceptCompaction_def by (auto split: option.splits)
  then show "lane_holds name n v' \<and> (\<exists>p. list_all (own_write name p) ws \<and> fresh_or_own lane st p)"
    by (rule structural_accepted[OF _ h v]) (simp_all add: plain_write_def plain_key_def stateMatchesIntent_def assms)
qed

lemma acceptNavigation_keeps:
  assumes "id_unused q st"
  shows "keeps_lane name (acceptNavigation name cf q t at target summarize label i observed pr) lane st"
proof (rule keeps_laneI)
  fix ws n r ev v'
  assume h: "lane_holds name lane (sr_values st)"
    and c: "acceptNavigation name cf q t at target summarize label i observed pr lane st = Inr (Commit ws n r ev)"
    and v: "\<And>k. v' k = key_after ws k (sr_values st k)"
  define meta where "meta = \<lparr>me_operationId = q, me_lane = name, me_sourceTipId = la_tipId lane, me_startedAt = at,
    me_intent = NavigationIntent target summarize label i\<rparr>"
  obtain d where d: "navigation_commit name cf meta t pr lane = Inr d" "accept_option d = Commit ws n r ev"
    using c unfolding acceptNavigation_def meta_def by (auto simp: bindE_eq_Inr split: option.splits if_splits)
  obtain r0 where r0: "d = Commit ws n r0 ev" using d(2) by (auto simp: accept_option_def split: decision.splits)
  show "lane_holds name n v' \<and> (\<exists>p. list_all (own_write name p) ws \<and> fresh_or_own lane st p)"
  proof (cases summarize)
    case True
    then obtain x g b where e: "la_tipId lane = Some x" "target = Some g" "pr = Some b"
      using d(1) unfolding navigation_commit_def meta_def by (auto simp: Let_def split: option.splits)
    have "accept_structural name meta
        \<lparr>os_scope = acceptance_scope cf, os_leaf = SummaryDeciding
           \<lparr>ta_taskId = t, ta_reason = None, ta_customInstructions = i, ta_boundary = CommitNavigation g label\<rparr>\<rparr>
        [SetValue (PreparationKey q t) (PreparationValue (BranchPreparation (bp_messages b) (bp_fileOps b) (bp_totalTokens b)))]
        (EvNavigationStart q target at) lane = Commit ws n r0 ev"
      using d(1) e True unfolding r0 navigation_commit_def by (simp add: meta_def Let_def)
    then show ?thesis
      by (rule structural_accepted[OF _ h v])
        (simp_all add: meta_def True e plain_write_def plain_key_def stateMatchesIntent_def assms)
  next
    case False
    then have "accept_structural name meta
        \<lparr>os_scope = acceptance_scope cf, os_leaf = NavigationReadyToCommit target label\<rparr> []
        (EvNavigationStart q target at) lane = Commit ws n r0 ev"
      using d(1) unfolding r0 navigation_commit_def by (auto simp: meta_def Let_def)
    then show ?thesis
      by (rule structural_accepted[OF _ h v]) (simp_all add: meta_def False stateMatchesIntent_def assms)
  qed
qed

lemma clients_keep: "unused_id (Client a) st \<Longrightarrow> keeps_lane name (client_plan dbl cf name a) lane st"
  by (cases a) (simp_all add: keeps_ignoring acceptRun_keeps acceptCompaction_keeps acceptNavigation_keeps abort_keeps
      enqueue_keeps cancelQueued_keeps recordUsage_keeps setConfiguration_keeps append_keeps)

theorem actions_keep: "unused_id a st \<Longrightarrow> keeps_lane name (lane_plan dbl cf name a) lane st"
  by (cases a) (simp_all add: clients_keep drives_keep settles_keep effects_keep)

end
