(* ===== verification/LaneFrames.thy ===== *)
theory LaneFrames
  imports LaneSystem
begin

text \<open>
  The frames of a response in progress. They belong to the operation that waits for the response: they are there only while
  its state says so, and every decision that leaves that state removes them.
\<close>

section \<open>Frames and their operations\<close>

definition frames_owned :: "(lane_key \<rightharpoonup> lane_value) \<Rightarrow> (jstr \<times> jstr \<Rightarrow> frame list) \<Rightarrow> bool" where
  "frames_owned v f \<longleftrightarrow>
     (\<forall>q r. f (q, r) \<noteq> [] \<longrightarrow> (\<exists>s. v (StateKey q) = Some (StateValue s) \<and> frames_of (os_leaf s) = Some r))"

text \<open>What is left of frames behind a commit.\<close>

lemma frames_left:
  "frames_after ws (q, r) fs \<noteq> [] \<Longrightarrow> (\<exists>f. AppendFrame q r f \<in> set ws) \<or> (fs \<noteq> [] \<and> DeleteFrames q r \<notin> set ws)"
proof (induction ws arbitrary: fs)
  case (Cons w ws)
  then show ?case by (cases w) (fastforce split: if_splits)+
qed simp

text \<open>A commit adds frames only to the response its lane waits for, and removes those of a response it no longer waits for.\<close>

definition frame_fits :: "lane_state \<Rightarrow> lane_write \<Rightarrow> bool" where
  "frame_fits n w \<longleftrightarrow>
     (case w of
        AppendFrame q r f \<Rightarrow>
          (case la_operation n of None \<Rightarrow> False | Some p \<Rightarrow> operation_id p = q \<and> frames_of (os_leaf (op_state p)) = Some r)
      | _ \<Rightarrow> True)"

definition frames_follow :: "operation \<Rightarrow> lane_write list \<Rightarrow> lane_state \<Rightarrow> bool" where
  "frames_follow p ws n \<longleftrightarrow>
     (case frames_of (os_leaf (op_state p)) of
        None \<Rightarrow> True
      | Some r \<Rightarrow> DeleteFrames (operation_id p) r \<in> set ws \<or>
          (case la_operation n of
             None \<Rightarrow> False
           | Some q \<Rightarrow> operation_id q = operation_id p \<and> frames_of (os_leaf (op_state q)) = Some r))"

definition follows_frames :: "jstr \<Rightarrow> 'r planner \<Rightarrow> lane_state \<Rightarrow> lane_store \<Rightarrow> bool" where
  "follows_frames name plan lane st \<longleftrightarrow>
     (\<forall>ws n r ev. lane_holds name lane (sr_values st) \<longrightarrow> plan lane st = Inr (Commit ws n r ev) \<longrightarrow>
        list_all (frame_fits n) ws \<and> (\<forall>p. la_operation lane = Some p \<longrightarrow> frames_follow p ws n))"

lemma frames_kept:
  assumes f: "frames_owned (sr_values st) fr" and h: "lane_holds name lane (sr_values st)" and n: "lane_holds name n v'"
    and own: "list_all (own_write name p) ws" "fresh_or_own lane st p"
    and fits: "list_all (frame_fits n) ws" "\<And>p. la_operation lane = Some p \<Longrightarrow> frames_follow p ws n"
    and v: "\<And>k. v' k = key_after ws k (sr_values st k)"
  shows "frames_owned v' (\<lambda>k. frames_after ws k (fr k))"
  unfolding frames_owned_def
proof (intro allI impI)
  fix q r
  assume "frames_after ws (q, r) (fr (q, r)) \<noteq> []"
  then consider g where "AppendFrame q r g \<in> set ws" | "fr (q, r) \<noteq> []" "DeleteFrames q r \<notin> set ws"
    using frames_left by blast
  then show "\<exists>s. v' (StateKey q) = Some (StateValue s) \<and> frames_of (os_leaf s) = Some r"
  proof cases
    case (1 g)
    then have "frame_fits n (AppendFrame q r g)" using fits(1) by (simp add: list_all_iff)
    then show ?thesis using n by (auto simp: frame_fits_def lane_holds_def split: option.splits)
  next
    case 2
    then obtain s where s: "sr_values st (StateKey q) = Some (StateValue s)" "frames_of (os_leaf s) = Some r"
      using f unfolding frames_owned_def by blast
    show ?thesis
    proof (cases "p = Some q")
      case False
      have "v' (StateKey q) = sr_values st (StateKey q)" unfolding v
      proof (rule key_after_untouched, rule ballI)
        fix w assume "w \<in> set ws"
        then have "own_write name p w" using own(1) by (simp add: list_all_iff)
        then show "\<not> touches_key (StateKey q) w"
          using False by (auto simp: own_write_def touches_key_def own_key_def split: lane_write.splits)
      qed
      then show ?thesis using s by simp
    next
      case True
      then have "current_id lane = Some q" using own(2) s(1) by (auto simp: fresh_or_own_def id_unused_def)
      then obtain o' where o': "la_operation lane = Some o'" "operation_id o' = q" by (auto simp: current_id_def)
      then have "op_state o' = s" using h s(1) by (simp add: lane_holds_def)
      then show ?thesis using fits(2)[OF o'(1)] 2(2) o' s(2) n
        by (auto simp: frames_follow_def lane_holds_def split: option.splits)
    qed
  qed
qed

section \<open>Decisions\<close>

definition frames_ok :: "'r op_planner \<Rightarrow> bool" where
  "frames_ok plan \<longleftrightarrow>
     (\<forall>lane s m st ws s' patch x ev r. plan lane s m st = Inr (OpCommit ws s' patch x ev) \<longrightarrow> frames_of (os_leaf s) = Some r \<longrightarrow>
        DeleteFrames (me_operationId m) r \<in> set ws \<or> frames_of (os_leaf s') = Some r)"

lemma frames_okI:
  "(\<And>lane s m st ws s' patch x ev r. plan lane s m st = Inr (OpCommit ws s' patch x ev) \<Longrightarrow> frames_of (os_leaf s) = Some r \<Longrightarrow>
      DeleteFrames (me_operationId m) r \<in> set ws \<or> frames_of (os_leaf s') = Some r) \<Longrightarrow> frames_ok plan"
  unfolding frames_ok_def by blast

text \<open>Most decisions are of states that wait for no response.\<close>

lemma no_frames_ok:
  "(\<And>lane s m st ws s' patch x ev. plan lane s m st = Inr (OpCommit ws s' patch x ev) \<Longrightarrow> frames_of (os_leaf s) = None) \<Longrightarrow>
   frames_ok plan"
  by (rule frames_okI) fastforce

lemma no_commit_ok:
  "(\<And>lane s m st ws s' patch x ev. plan lane s m st \<noteq> Inr (OpCommit ws s' patch x ev)) \<Longrightarrow> frames_ok plan"
  by (rule frames_okI) blast

lemma startRun_frames: "frames_ok (startRun name rs)"
  by (rule no_frames_ok) (auto simp: startRun_def frames_of_def Let_def split: if_splits)

lemma runCheckpoint_frames: "frames_ok (runCheckpoint name cf th i)"
  by (rule no_frames_ok) (auto simp: runCheckpoint_def frames_of_def split: operation_leaf.splits)

lemma finish_run_frames: "frames_ok (finish_run name cf planned pend fol i now)"
  by (rule no_frames_ok)
    (auto simp: finish_run_def finish_mediation_def frames_of_def split: option.splits operation_leaf.splits)

lemma publishGenerationIntent_frames: "frames_ok (publishGenerationIntent name r u mt cw)"
  by (rule no_frames_ok) (auto simp: publishGenerationIntent_def frames_of_def split: operation_leaf.splits)

lemma finish_retry_wait_frames: "frames_ok (finish_retry_wait name)"
  by (rule no_frames_ok) (auto simp: finish_retry_wait_def frames_of_def split: operation_leaf.splits)

lemma publishConfigurationFailure_frames: "frames_ok (publishConfigurationFailure name e now)"
  by (rule no_commit_ok) (auto simp: publishConfigurationFailure_def bindE_eq_Inr split: if_splits)

lemma publishAbortedTerminal_frames: "frames_ok (publishAbortedTerminal name now)"
  by (rule no_commit_ok) (auto simp: publishAbortedTerminal_def bindE_eq_Inr split: if_splits)

lemma publishPollIntent_frames: "frames_ok (publishPollIntent name r u)"
  by (rule frames_okI) (auto simp: publishPollIntent_def frames_of_def Let_def split: operation_leaf.splits)

lemma publishResponse_frames: "frames_ok (publishResponse name rf a)"
proof (rule frames_okI)
  fix lane s m st ws s' patch x ev r
  assume c: "publishResponse name rf a lane s m st = Inr (OpCommit ws s' patch x ev)" and r: "frames_of (os_leaf s) = Some r"
  obtain ri where ri: "intent_of (os_leaf s) = Some ri" using c by (auto simp: publishResponse_def split: option.splits)
  have "ri_responseEntryId ri = r" using ri r by (cases "os_leaf s") (auto simp: intent_of_def frames_of_def)
  moreover obtain d where "classify_response s ri rf a = Inr d" using c by (auto simp: publishResponse_def ri bindE_eq_Inr)
  ultimately have "DeleteFrames (me_operationId m) r \<in> set ws"
    using c by (cases d) (auto simp: publishResponse_def ri bindE_eq_Inr Let_def)
  then show "DeleteFrames (me_operationId m) r \<in> set ws \<or> frames_of (os_leaf s') = Some r" ..
qed

lemma publishToolIntent_frames: "frames_ok (publishToolIntent name c i n as rep rec)"
  by (rule no_frames_ok) (auto simp: publishToolIntent_def frames_of_def split: operation_leaf.splits)

lemma publishToolOutcome_frames: "frames_ok (publishToolOutcome name c i n as r t rec)"
  by (rule no_frames_ok) (auto simp: publishToolOutcome_def frames_of_def split: operation_leaf.splits)

lemma commitPlacement_frames: "frames_ok (commitPlacement name rd us)"
  by (rule no_frames_ok) (auto simp: commitPlacement_def frames_of_def split: operation_leaf.splits)

lemma publishStructuralReady_frames: "frames_ok (publishStructuralReady name cf i)"
  by (rule no_frames_ok) (auto simp: publishStructuralReady_def frames_of_def split: operation_leaf.splits)

lemma publishAttemptIntent_frames: "frames_ok publishAttemptIntent"
  by (rule no_frames_ok) (auto simp: publishAttemptIntent_def effectPendingFromReady_def frames_of_def split: operation_leaf.splits)

lemma publishNestedRequestIntent_frames: "frames_ok (publishNestedRequestIntent i u)"
  by (rule no_frames_ok) (auto simp: publishNestedRequestIntent_def frames_of_def split: operation_leaf.splits)

lemma publishNestedRequestOutcome_frames: "frames_ok (publishNestedRequestOutcome name i u)"
  by (rule no_frames_ok) (auto simp: publishNestedRequestOutcome_def frames_of_def split: operation_leaf.splits)

lemma publishStructuralRetry_frames: "frames_ok (publishStructuralRetry name e rec now)"
  by (rule no_frames_ok) (auto simp: publishStructuralRetry_def frames_of_def split: operation_leaf.splits)

lemma publishStructuralOutcome_frames: "frames_ok (publishStructuralOutcome name cf x hu i now)"
proof (rule no_frames_ok)
  fix lane s m st ws s' patch y ev
  assume c: "publishStructuralOutcome name cf x hu i now lane s m st = Inr (OpCommit ws s' patch y ev)"
  have "leaf_task (os_leaf s) \<noteq> None"
  proof
    assume "leaf_task (os_leaf s) = None"
    then show False using c by (simp add: publishStructuralOutcome_def)
  qed
  then show "frames_of (os_leaf s) = None" by (cases "os_leaf s") (auto simp: frames_of_def)
qed

lemma commitNavigation_frames: "frames_ok (commitNavigation name now)"
  by (rule no_frames_ok) (auto simp: commitNavigation_def frames_of_def split: operation_leaf.splits)

lemmas drive_frames =
  startRun_frames runCheckpoint_frames finish_run_frames publishGenerationIntent_frames finish_retry_wait_frames
  publishConfigurationFailure_frames publishAbortedTerminal_frames publishPollIntent_frames publishResponse_frames
  publishToolIntent_frames publishToolOutcome_frames commitPlacement_frames publishStructuralReady_frames
  publishAttemptIntent_frames publishNestedRequestIntent_frames publishNestedRequestOutcome_frames
  publishStructuralRetry_frames publishStructuralOutcome_frames commitNavigation_frames

lemma running_frames:
  assumes "frames_ok plan"
  shows "frames_ok (when_running plan)"
proof (rule frames_okI)
  fix lane s m st ws s' patch x ev r
  assume c: "when_running plan lane s m st = Inr (OpCommit ws s' patch x ev)" and r: "frames_of (os_leaf s) = Some r"
  obtain d where d: "plan lane s m st = Inr d" "map_op_decision Continued d = OpCommit ws s' patch x ev"
    using c by (auto simp: when_running_def bindE_eq_Inr split: if_splits)
  obtain x0 where "d = OpCommit ws s' patch x0 ev" using d(2) by (cases d) auto
  then show "DeleteFrames (me_operationId m) r \<in> set ws \<or> frames_of (os_leaf s') = Some r"
    using assms d(1) r unfolding frames_ok_def by blast
qed

lemma plain_fits: "plain_write name w \<Longrightarrow> frame_fits n w"
  by (auto simp: plain_write_def frame_fits_def split: lane_write.splits)

lemma set_fits: "frame_fits n (SetValue k v)"
  by (simp add: frame_fits_def)

lemma placing_fits: "placing_write name w \<Longrightarrow> frame_fits n w"
  by (rule plain_fits[OF placing_plain])

lemma cleanup_fits: "list_all (frame_fits n) (operationCleanupWrites st p s)"
  by (auto simp: operationCleanupWrites_def list_all_iff frame_fits_def split: option.splits)

lemma cleanup_frames: "frames_of (os_leaf s) = Some r \<Longrightarrow> DeleteFrames p r \<in> set (operationCleanupWrites st p s)"
  by (simp add: operationCleanupWrites_def)

lemma settle_frames:
  assumes "planner_ok name plan" "frames_ok plan"
  shows "follows_frames name (settleOperation name plan) lane st"
  unfolding follows_frames_def
proof (intro allI impI)
  fix ws n r ev
  assume h: "lane_holds name lane (sr_values st)" and c: "settleOperation name plan lane st = Inr (Commit ws n r ev)"
  obtain p d where p: "la_operation lane = Some p" "plan lane (op_state p) (op_meta p) st = Inr d"
    using c by (auto simp: settleOperation_def bindE_eq_Inr split: option.splits)
  have "stateMatchesIntent (me_intent (op_meta p)) (op_state p)" using h p(1) by (simp add: lane_holds_def)
  then have ok: "op_decision_ok name lane p st d" using assms(1) p unfolding planner_ok_def by blast
  show "list_all (frame_fits n) ws \<and> (\<forall>p. la_operation lane = Some p \<longrightarrow> frames_follow p ws n)"
  proof (cases d)
    case (OpCommit ws0 s patch r0 ev0)
    obtain tail where t: "ws = ws0 @ [SetValue (StateKey (operation_id p)) (StateValue s)] @ tail"
      "list_all (frame_fits n) tail"
      "la_operation n = Some \<lparr>op_meta = op_meta p, op_state = s\<rparr>"
      using c p OpCommit
      by (cases "pa_inbox patch") (auto simp: settleOperation_def bindE_def frame_fits_def set_lane_state_def)
    have "list_all (plain_write name) ws0" using ok OpCommit by (simp add: op_decision_ok_def)
    then have "list_all (frame_fits n) ws" using t(1,2)
      by (auto simp: list_all_iff set_fits intro: plain_fits)
    moreover have "frames_follow p ws n"
    proof (cases "frames_of (os_leaf (op_state p))")
      case (Some x)
      then have "DeleteFrames (me_operationId (op_meta p)) x \<in> set ws0 \<or> frames_of (os_leaf s) = Some x"
        using assms(2) p(2) OpCommit unfolding frames_ok_def by blast
      then show ?thesis using t(1,3) Some by (auto simp: frames_follow_def operation_id_def)
    qed (simp add: frames_follow_def)
    ultimately show ?thesis using p(1) by simp
  next
    case (OpFinish ws0 res patch r0 ev0)
    obtain placed where pl: "list_all (placing_write name) placed"
      "ws0 = placed @ operationCleanupWrites st (operation_id p) (op_state p)"
      using ok OpFinish by (auto simp: op_decision_ok_def)
    obtain dl where w: "ws = ws0 @ [SetValue (ResultKey (operation_id p)) (ResultValue res), set_lane_state name dl]"
      using c p OpFinish by (auto simp: settleOperation_def bindE_def Let_def)
    have "list_all (frame_fits n) placed" using pl(1) placing_fits unfolding list_all_iff by blast
    then have "list_all (frame_fits n) ws"
      using cleanup_fits[of n st] by (simp add: w pl(2) frame_fits_def set_lane_state_def)
    moreover have "frames_follow p ws n"
      using cleanup_frames[of "op_state p" _ "operation_id p" st] by (auto simp: frames_follow_def w pl(2) split: option.splits)
    ultimately show ?thesis using p(1) by simp
  next
    case (OpReturn r0)
    then show ?thesis using c p by (simp add: settleOperation_def bindE_def)
  qed
qed

lemma continue_frames: "planner_ok name plan \<Longrightarrow> frames_ok plan \<Longrightarrow> follows_frames name (continueOperation name plan) lane st"
  unfolding continue_settle by (intro settle_frames when_running_ok running_frames)

lemma ignoring_frames:
  assumes "follows_frames name plan lane st"
  shows "follows_frames name (ignoring f plan) lane st"
  unfolding follows_frames_def
proof (intro allI impI)
  fix ws n r ev
  assume a: "lane_holds name lane (sr_values st)" "ignoring f plan lane st = Inr (Commit ws n r ev)"
  obtain r0 where "plan lane st = Inr (Commit ws n r0 ev)" using ignoring_commit[OF a(2)] by blast
  then show "list_all (frame_fits n) ws \<and> (\<forall>p. la_operation lane = Some p \<longrightarrow> frames_follow p ws n)"
    using assms a(1) unfolding follows_frames_def by blast
qed

section \<open>Clients and effects\<close>

text \<open>No command of a client and no effect changes the operation, but for its cancellation.\<close>

lemma client_operation:
  assumes p: "la_operation lane = Some p" and c: "client_plan dbl cf name a lane st = Inr (Commit ws n r ev)"
  shows "\<exists>q. la_operation n = Some q \<and> op_meta q = op_meta p \<and> os_leaf (op_state q) = os_leaf (op_state p) \<and>
    (cancelled (op_state p) \<longrightarrow> q = p)"
proof (cases a)
  case (AcceptRun x1 x2 x3)
  then show ?thesis using c ignoring_commit p by (fastforce simp: acceptRun_def)
next
  case (AcceptCompaction x1 x2 x3 x4)
  then show ?thesis using c ignoring_commit p by (fastforce simp: acceptCompaction_def)
next
  case (AcceptNavigation x1 x2 x3 x4 x5 x6 x7 x8 x9)
  then show ?thesis using c ignoring_commit p by (fastforce simp: acceptNavigation_def)
next
  case (RequestAbort q t)
  then obtain r0 where "requestOperationAbort name q t lane st = Inr (Commit ws n r0 ev)" using c ignoring_commit by fastforce
  then show ?thesis using p by (auto simp: requestOperationAbort_def Let_def bindE_eq_Inr split: if_splits)
next
  case (Enqueue k i m)
  then obtain r0 where "enqueue name k i m lane st = Inr (Commit ws n r0 ev)" using c ignoring_commit by fastforce
  then show ?thesis using p by (auto simp: enqueue_def Let_def bindE_eq_Inr)
next
  case (CancelQueued i)
  then obtain r0 where "cancelQueued name i lane st = Inr (Commit ws n r0 ev)" using c ignoring_commit by fastforce
  then show ?thesis using p by (auto simp: cancelQueued_def Let_def bindE_eq_Inr split: option.splits if_splits)
next
  case (RecordUsage i u e d)
  then obtain r0 where "recordUsage name i u e d lane st = Inr (Commit ws n r0 ev)" using c ignoring_commit by fastforce
  then show ?thesis using p by (auto simp: recordUsage_def Let_def)
next
  case (SetConfiguration ch)
  then obtain r0 where "setConfiguration name ch lane st = Inr (Commit ws n r0 ev)" using c ignoring_commit by fastforce
  then show ?thesis using p by (auto simp: setConfiguration_def Let_def)
next
  case (AppendEntry i x)
  then obtain r0 where "append_entry name i x lane st = Inr (Commit ws n r0 ev)" using c ignoring_commit by fastforce
  then show ?thesis using p by (auto simp: append_entry_def Let_def bindE_eq_Inr)
qed

lemma effect_same_lane:
  assumes c: "effect_plan name a lane st = Inr (Commit ws n r ev)"
  shows "n = lane"
proof (cases a)
  case (FrameWrite x1 x2 x3)
  then show ?thesis using c by (auto simp: write_frame_def split: if_splits)
next
  case (OutputWrite x1 x2 x3 x4 x5)
  then show ?thesis using c by (auto simp: write_output_def split: if_splits)
next
  case (MemoWrite p i q k v)
  then obtain r0 where "set_memo p i q k v lane st = Inr (Commit ws n r0 ev)" using c ignoring_commit by fastforce
  then show ?thesis by (auto simp: set_memo_def split: if_splits)
next
  case (ReplayCheckpoint p t x i m)
  then obtain r0 where "clearReplayCheckpoint name p t x i m lane st = Inr (Commit ws n r0 ev)" using c ignoring_commit by fastforce
  then show ?thesis by (auto simp: clearReplayCheckpoint_def split: option.splits)
qed

text \<open>Clients write no frames, and of the effects only the progress of a response does.\<close>

definition is_frames :: "lane_write \<Rightarrow> bool" where
  "is_frames w \<longleftrightarrow> (case w of AppendFrame p r f \<Rightarrow> True | DeleteFrames p r \<Rightarrow> True | _ \<Rightarrow> False)"

lemma pending_no_frames: "w \<in> set (delete_pending xs) \<Longrightarrow> \<not> is_frames w"
  by (auto simp: delete_pending_def is_frames_def)

lemma structural_no_frames:
  assumes "accept_structural name meta s ws0 event lane = Commit ws n r ev" "\<forall>w \<in> set ws0. \<not> is_frames w"
  shows "\<forall>w \<in> set ws. \<not> is_frames w"
  using assms by (auto simp: accept_structural_def Let_def is_frames_def set_lane_state_def)

lemma navigation_no_frames:
  assumes "navigation_commit name cf meta t pr lane = Inr d" "accept_option d = Commit ws n r ev"
  shows "\<forall>w \<in> set ws. \<not> is_frames w"
proof -
  obtain r0 where r0: "d = Commit ws n r0 ev" using assms(2) by (auto simp: accept_option_def split: decision.splits)
  obtain s ws0 e where "accept_structural name meta s ws0 e lane = Commit ws n r0 ev" "\<forall>w \<in> set ws0. \<not> is_frames w"
    using assms(1) unfolding r0 navigation_commit_def
    by (fastforce simp: Let_def is_frames_def split: operation_intent.splits option.splits if_splits)
  then show ?thesis by (rule structural_no_frames)
qed

lemma client_no_frames:
  assumes c: "client_plan dbl cf name a lane st = Inr (Commit ws n r ev)"
  shows "\<forall>w \<in> set ws. \<not> is_frames w"
proof (cases a)
  case (AcceptRun q at prompt)
  then obtain r0 where "acceptRun name cf q at prompt lane st = Inr (Commit ws n r0 ev)" using c ignoring_commit by fastforce
  then show ?thesis
    by (rule acceptRun_writes)
      (auto simp: is_frames_def accepted_tail_def lane_tail_def set_lane_state_def set_tip_def delete_pending_def)
next
  case (AcceptCompaction q t at i)
  then obtain r0 where "acceptCompaction dbl name cf q t at i lane st = Inr (Commit ws n r0 ev)" using c ignoring_commit by fastforce
  then show ?thesis
    by (auto simp: acceptCompaction_def is_frames_def accept_structural_def Let_def set_lane_state_def split: option.splits)
next
  case (AcceptNavigation q t at target summarize label i observed pr)
  then obtain r0 where "acceptNavigation name cf q t at target summarize label i observed pr lane st = Inr (Commit ws n r0 ev)"
    using c ignoring_commit by fastforce
  then obtain meta d where "navigation_commit name cf meta t pr lane = Inr d" "accept_option d = Commit ws n r0 ev"
    unfolding acceptNavigation_def by (auto simp: bindE_eq_Inr split: option.splits if_splits)
  then show ?thesis by (rule navigation_no_frames)
next
  case (RequestAbort q t)
  then obtain r0 where "requestOperationAbort name q t lane st = Inr (Commit ws n r0 ev)" using c ignoring_commit by fastforce
  then show ?thesis by (rule abort_writes) (auto simp: is_frames_def set_lane_state_def delete_pending_def)
next
  case (Enqueue k i m)
  then obtain r0 where "enqueue name k i m lane st = Inr (Commit ws n r0 ev)" using c ignoring_commit by fastforce
  then show ?thesis by (auto simp: enqueue_def Let_def bindE_eq_Inr is_frames_def set_lane_state_def)
next
  case (CancelQueued i)
  then obtain r0 where "cancelQueued name i lane st = Inr (Commit ws n r0 ev)" using c ignoring_commit by fastforce
  then show ?thesis
    by (auto simp: cancelQueued_def Let_def bindE_eq_Inr is_frames_def set_lane_state_def split: option.splits if_splits)
next
  case (RecordUsage i u e d)
  then obtain r0 where "recordUsage name i u e d lane st = Inr (Commit ws n r0 ev)" using c ignoring_commit by fastforce
  then show ?thesis by (auto simp: recordUsage_def Let_def is_frames_def)
next
  case (SetConfiguration ch)
  then obtain r0 where "setConfiguration name ch lane st = Inr (Commit ws n r0 ev)" using c ignoring_commit by fastforce
  then show ?thesis by (auto simp: setConfiguration_def Let_def is_frames_def)
next
  case (AppendEntry i x)
  then obtain r0 where "append_entry name i x lane st = Inr (Commit ws n r0 ev)" using c ignoring_commit by fastforce
  then show ?thesis
    by (auto simp: append_entry_def Let_def bindE_eq_Inr is_frames_def set_lane_state_def set_tip_def delete_pending_def
        split: option.splits)
qed

lemma plain_frames: "\<not> is_frames w \<Longrightarrow> frame_fits n w"
  by (auto simp: is_frames_def frame_fits_def split: lane_write.splits)

lemma client_frames: "follows_frames name (client_plan dbl cf name a) lane st"
  unfolding follows_frames_def
proof (intro allI impI conjI)
  fix ws n r ev
  assume c: "client_plan dbl cf name a lane st = Inr (Commit ws n r ev)"
  show "list_all (frame_fits n) ws" using client_no_frames[OF c] by (simp add: list_all_iff plain_frames)
  fix p assume "la_operation lane = Some p"
  then show "frames_follow p ws n" using client_operation[OF _ c, of p]
    by (auto simp: frames_follow_def operation_id_def split: option.splits)
qed

text \<open>The progress of a response is written by the drive of the operation that the lane has.\<close>

fun frame_writer :: "lane_action \<Rightarrow> lane_state \<Rightarrow> bool" where
  "frame_writer (Effect (FrameWrite p r f)) lane = (current_id lane = Some p)"
| "frame_writer a lane = True"

lemma effect_frames: "frame_writer (Effect a) lane \<Longrightarrow> follows_frames name (effect_plan name a) lane st"
  unfolding follows_frames_def
proof (intro allI impI conjI)
  fix ws n r ev
  assume w: "frame_writer (Effect a) lane" and c: "effect_plan name a lane st = Inr (Commit ws n r ev)"
  have n: "n = lane" by (rule effect_same_lane[OF c])
  show "list_all (frame_fits n) ws"
  proof (cases a)
    case (FrameWrite p x f)
    then show ?thesis using w c unfolding n
      by (auto simp: write_frame_def owns_frames_def frame_fits_def current_id_def split: if_splits option.splits)
  next
    case (OutputWrite x1 x2 x3 x4 x5)
    then show ?thesis using c by (auto simp: write_output_def frame_fits_def split: if_splits)
  next
    case (MemoWrite p i q k v)
    then obtain r0 where "set_memo p i q k v lane st = Inr (Commit ws n r0 ev)" using c ignoring_commit by fastforce
    then show ?thesis by (auto simp: set_memo_def frame_fits_def split: if_splits option.splits)
  next
    case (ReplayCheckpoint p t x i m)
    then obtain r0 where "clearReplayCheckpoint name p t x i m lane st = Inr (Commit ws n r0 ev)" using c ignoring_commit by fastforce
    then show ?thesis by (auto simp: clearReplayCheckpoint_def frame_fits_def split: option.splits)
  qed
  fix p assume "la_operation lane = Some p"
  then show "frames_follow p ws n" by (simp add: n frames_follow_def split: option.splits)
qed

theorem actions_frames: "frame_writer a lane \<Longrightarrow> follows_frames name (lane_plan dbl cf name a) lane st"
proof (cases a)
  case (Client c)
  then show ?thesis by (simp add: client_frames)
next
  case (Continue d)
  then show ?thesis by (cases d) (simp_all add: ignoring_frames continue_frames drive_planners_ok drive_frames)
next
  case (SettleEffect d)
  then show ?thesis by (cases d) (simp_all add: ignoring_frames settle_frames drive_planners_ok drive_frames)
next
  case (Effect e)
  moreover assume "frame_writer a lane"
  ultimately show ?thesis by (simp add: effect_frames)
qed

end
