(* ===== verification/LaneReach.thy ===== *)
theory LaneReach
  imports LaneFrames
begin

text \<open>
  The reachable states of a process with several lanes over one storage. The contract between the lanes and what they do is a
  locale: an action keeps its own lane, and writes only what is its own. From it follows that every lane the process has is
  the one that the storage restores, and that only waiting operations have frames, as long as the conditions hold that the
  code leaves to its callers: ids of new operations are unused, and other writers leave alone what is a lane's.
\<close>

section \<open>Several lanes\<close>

record lane_system =
  ls_lanes :: "jstr \<rightharpoonup> lane_state"
  ls_store :: lane_store

definition all_hold :: "lane_system \<Rightarrow> bool" where
  "all_hold h \<longleftrightarrow> (\<forall>name lane. ls_lanes h name = Some lane \<longrightarrow> lane_holds name lane (sr_values (ls_store h)))"

locale lane_actions =
  fixes plan :: "jstr \<Rightarrow> 'a \<Rightarrow> unit planner" and allowed :: "'a \<Rightarrow> lane_store \<Rightarrow> bool"
  assumes keeps: "allowed a st \<Longrightarrow> keeps_lane name (plan name a) lane st"
begin

lemma others_kept:
  assumes "lane_holds name lane (sr_values st)" "lane_holds name2 lane2 (sr_values st)" "name2 \<noteq> name"
    "list_all (own_write name p) ws" "fresh_or_own lane st p" "\<And>k. v' k = key_after ws k (sr_values st k)"
  shows "lane_holds name2 lane2 v'"
proof (rule own_frame[OF assms(4,2,3)])
  show "current_id lane2 = None \<or> current_id lane2 \<noteq> p"
  proof (cases "la_operation lane2")
    case None
    then show ?thesis by (simp add: current_id_def)
  next
    case (Some p2)
    have m2: "sr_values st (MetaKey (operation_id p2)) = Some (MetaValue (op_meta p2))" "me_lane (op_meta p2) = name2"
      using assms(2) Some by (simp_all add: lane_holds_def)
    have "p \<noteq> Some (operation_id p2)"
    proof
      assume p: "p = Some (operation_id p2)"
      then have "current_id lane = Some (operation_id p2)" using assms(5) m2 by (auto simp: fresh_or_own_def id_unused_def)
      then obtain p1 where p1: "la_operation lane = Some p1" "operation_id p1 = operation_id p2" by (auto simp: current_id_def)
      have "sr_values st (MetaKey (operation_id p1)) = Some (MetaValue (op_meta p1))" "me_lane (op_meta p1) = name"
        using assms(1) p1 by (simp_all add: lane_holds_def)
      then show False using m2 p1 assms(3) by simp
    qed
    then show ?thesis using Some by (simp add: current_id_def)
  qed
  show "\<forall>k. v' k = key_after ws k (sr_values st k)" using assms(6) by blast
qed

lemma command_keeps:
  assumes "all_hold h" "ls_lanes h name = Some lane" "allowed a (ls_store h)"
    "lane_command (plan name a) now lane (ls_store h) = Inr (r, ev, n, st')"
  shows "all_hold \<lparr>ls_lanes = (ls_lanes h)(name \<mapsto> n), ls_store = st'\<rparr>"
proof -
  have h: "lane_holds name lane (sr_values (ls_store h))" using assms(1,2) by (simp add: all_hold_def)
  consider "n = lane" "st' = ls_store h"
    | ws r0 ev0 c where "plan name a lane (ls_store h) = Inr (Commit ws n r0 ev0)" "store_commit ws now (ls_store h) = Inr (c, st')"
    using assms(4) by (auto simp: lane_command_def split: sum.splits decision.splits prod.splits)
  then show ?thesis
  proof cases
    case 1
    then show ?thesis using assms(1,2) by (simp add: all_hold_def)
  next
    case 2
    have v: "\<And>k. sr_values st' k = key_after ws k (sr_values (ls_store h) k)" using commit_values[OF 2(2)] .
    obtain p where k: "lane_holds name n (sr_values st')" "list_all (own_write name p) ws" "fresh_or_own lane (ls_store h) p"
      using keeps[OF assms(3), of name lane] h 2(1) v unfolding keeps_lane_def by blast
    show ?thesis unfolding all_hold_def
    proof (intro allI impI)
      fix name2 lane2
      assume l: "ls_lanes \<lparr>ls_lanes = (ls_lanes h)(name \<mapsto> n), ls_store = st'\<rparr> name2 = Some lane2"
      show "lane_holds name2 lane2 (sr_values (ls_store \<lparr>ls_lanes = (ls_lanes h)(name \<mapsto> n), ls_store = st'\<rparr>))"
      proof (cases "name2 = name")
        case True
        then show ?thesis using l k(1) by simp
      next
        case False
        then have "ls_lanes h name2 = Some lane2" using l by simp
        then have "lane_holds name2 lane2 (sr_values (ls_store h))" using assms(1) by (simp add: all_hold_def)
        then show ?thesis using others_kept[OF h _ False k(2,3) v] by simp
      qed
    qed
  qed
qed

end

locale framed_actions = lane_actions plan allowed
  for plan :: "jstr \<Rightarrow> 'a \<Rightarrow> unit planner" and allowed :: "'a \<Rightarrow> lane_store \<Rightarrow> bool" +
  fixes writer :: "'a \<Rightarrow> lane_state \<Rightarrow> bool"
  assumes follows: "writer a lane \<Longrightarrow> follows_frames name (plan name a) lane st"
begin

lemma command_frames:
  assumes "all_hold h" "ls_lanes h name = Some lane" "allowed a (ls_store h)" "writer a lane"
    "lane_command (plan name a) now lane (ls_store h) = Inr (r, ev, n, st')"
    "frames_owned (sr_values (ls_store h)) (sr_frames (ls_store h))"
  shows "frames_owned (sr_values st') (sr_frames st')"
proof -
  have h: "lane_holds name lane (sr_values (ls_store h))" using assms(1,2) by (simp add: all_hold_def)
  consider "st' = ls_store h"
    | ws r0 ev0 c where "plan name a lane (ls_store h) = Inr (Commit ws n r0 ev0)" "store_commit ws now (ls_store h) = Inr (c, st')"
    using assms(5) by (auto simp: lane_command_def split: sum.splits decision.splits prod.splits)
  then show ?thesis
  proof cases
    case 1
    then show ?thesis using assms(6) by simp
  next
    case (2 ws r0 ev0 c)
    have v: "\<And>k. sr_values st' k = key_after ws k (sr_values (ls_store h) k)" using commit_values[OF 2(2)] .
    have fr: "sr_frames st' = (\<lambda>k. frames_after ws k (sr_frames (ls_store h) k))" using commit_frames[OF 2(2)] by (rule ext)
    obtain p where k: "lane_holds name n (sr_values st')" "list_all (own_write name p) ws" "fresh_or_own lane (ls_store h) p"
      using keeps[OF assms(3), of name lane] h 2(1) v unfolding keeps_lane_def by blast
    have fits: "list_all (frame_fits n) ws" "\<And>p. la_operation lane = Some p \<Longrightarrow> frames_follow p ws n"
      using follows[OF assms(4), of name "ls_store h"] h 2(1) unfolding follows_frames_def by blast+
    show ?thesis unfolding fr by (rule frames_kept[OF assms(6) h k fits v])
  qed
qed

end

interpretation lanes: lane_actions "lane_plan dbl cf" unused_id for dbl cf
  by unfold_locales (rule actions_keep)

interpretation framed: framed_actions "lane_plan dbl cf" unused_id frame_writer for dbl cf
  by unfold_locales (rule actions_frames)

section \<open>Acquiring\<close>

lemma restores_holds:
  assumes "restoreLaneState st name t cf d = Inr lane" "readLaneStorage st name = Inr (ConfiguredLane t cf d)"
  shows "lane_holds name lane (sr_values st)"
proof -
  have r: "sr_values st (BranchTipKey name) = Some (TipValue t)" "sr_values st (LaneConfigKey name) = Some (ConfigValue cf)"
    "sr_values st (LaneStateKey name) = Some (LaneValue d)"
    using assms(2)
    by (auto simp: readLaneStorage_def classifyLaneStorage_def get_tip_def get_config_def get_lane_def
        split: option.splits lane_value.splits if_splits)
  show ?thesis
  proof (cases "dl_currentOperationId d")
    case None
    then show ?thesis using assms(1) r
      by (auto simp: restoreLaneState_def bindE_def lane_holds_def durableLaneState_def current_id_def)
  next
    case (Some q)
    obtain p where p: "restore_operation st name q = Inr p"
      "lane = \<lparr>la_tipId = t, la_configuration = cf, la_inbox = dl_inbox d, la_lastOperationId = dl_lastOperationId d,
        la_operation = Some p\<rparr>"
      using assms(1) Some by (auto simp: restoreLaneState_def bindE_eq_Inr)
    obtain m s where ms: "get_meta st q = Some m" "get_state st q = Some s" "me_operationId m = q" "me_lane m = name"
      "stateMatchesIntent (me_intent m) s" "p = \<lparr>op_meta = m, op_state = s\<rparr>"
      using p(1) by (auto simp: restore_operation_def split: option.splits if_splits)
    have "sr_values st (MetaKey q) = Some (MetaValue m)" "sr_values st (StateKey q) = Some (StateValue s)"
      using ms(1,2) by (auto simp: get_meta_def get_state_def split: option.splits lane_value.splits)
    then show ?thesis using r ms Some unfolding lane_holds_def p(2)
      by (simp add: durableLaneState_def current_id_def operation_id_def)
  qed
qed

lemma new_lane_holds:
  assumes "v (BranchTipKey name) = Some (TipValue t)" "v (LaneConfigKey name) = Some (ConfigValue seed)"
    "v (LaneStateKey name) = Some (LaneValue \<lparr>dl_currentOperationId = None, dl_lastOperationId = None, dl_inbox = []\<rparr>)"
  shows "lane_holds name \<lparr>la_tipId = t, la_configuration = seed, la_inbox = [], la_lastOperationId = None, la_operation = None\<rparr> v"
  using assms by (simp add: lane_holds_def durableLaneState_def current_id_def)

lemma acquire_keeps:
  assumes h: "all_hold h" and n: "ls_lanes h name = None" and a: "acquireLane name createAt seed now (ls_store h) = Inr (lane, st')"
  shows "all_hold \<lparr>ls_lanes = (ls_lanes h)(name \<mapsto> lane), ls_store = st'\<rparr>" "name \<noteq> [] \<and> 0 \<notin> set name"
proof -
  show valid: "name \<noteq> [] \<and> 0 \<notin> set name" using a by (auto simp: acquireLane_def split: if_splits)
  obtain c where c: "readLaneStorage (ls_store h) name = Inr c" using a valid by (auto simp: acquireLane_def split: sum.splits)
  have "lane_holds name lane (sr_values st') \<and>
    (\<forall>name2 lane2. name2 \<noteq> name \<longrightarrow> ls_lanes h name2 = Some lane2 \<longrightarrow> lane_holds name2 lane2 (sr_values st'))"
  proof (cases "\<exists>t cf d. c = ConfiguredLane t cf d")
    case True
    then obtain t cf d where d: "c = ConfiguredLane t cf d" by blast
    have "restoreLaneState (ls_store h) name t cf d = Inr lane" "st' = ls_store h"
      using a c d valid by (auto simp: acquireLane_def split: sum.splits)
    then show ?thesis using restores_holds c d h by (auto simp: all_hold_def)
  next
    case False
    define tip where "tip = (case c of BranchOnly t \<Rightarrow> t | _ \<Rightarrow> createAt)"
    define ws where "ws = (if c = AbsentLane then [set_tip name tip] else []) @
      [SetValue (LaneConfigKey name) (ConfigValue seed),
       SetValue (LaneStateKey name) (LaneValue \<lparr>dl_currentOperationId = None, dl_lastOperationId = None, dl_inbox = []\<rparr>)]"
    obtain r where r: "store_commit ws now (ls_store h) = Inr (r, st')"
      "lane = \<lparr>la_tipId = tip, la_configuration = seed, la_inbox = [], la_lastOperationId = None, la_operation = None\<rparr>"
      using a c False valid
      by (cases c) (auto simp: acquireLane_def tip_def ws_def Let_def set_lane_state_def durableLaneState_def
          split: sum.splits if_splits)
    have v: "sr_values st' k = key_after ws k (sr_values (ls_store h) k)" for k using commit_values[OF r(1)] .
    have own: "list_all (own_write name None) ws" by (simp add: ws_def own_write_def own_key_def set_tip_def)
    have "sr_values st' (BranchTipKey name) = Some (TipValue tip)"
    proof (cases c)
      case (BranchOnly t)
      then have "sr_values (ls_store h) (BranchTipKey name) = Some (TipValue t)"
        using c by (auto simp: readLaneStorage_def classifyLaneStorage_def get_tip_def split: option.splits lane_value.splits if_splits)
      then show ?thesis using BranchOnly by (simp add: v ws_def tip_def)
    qed (use False in \<open>simp_all add: v ws_def set_tip_def\<close>)
    then have "lane_holds name lane (sr_values st')" unfolding r(2) by (rule new_lane_holds) (simp_all add: v ws_def)
    moreover have "lane_holds name2 lane2 (sr_values st')" if "name2 \<noteq> name" "ls_lanes h name2 = Some lane2" for name2 lane2
    proof (rule own_frame[OF own _ that(1)])
      show "lane_holds name2 lane2 (sr_values (ls_store h))" using h that(2) by (simp add: all_hold_def)
    qed (use v in \<open>auto simp: current_id_def\<close>)
    ultimately show ?thesis by blast
  qed
  then show "all_hold \<lparr>ls_lanes = (ls_lanes h)(name \<mapsto> lane), ls_store = st'\<rparr>"
    unfolding all_hold_def by (auto split: if_splits)
qed

lemma quiet_frames: "\<forall>w \<in> set ws. \<not> is_frames w \<Longrightarrow> frames_after ws k fs = fs"
  by (induction ws arbitrary: fs) (auto simp: is_frames_def split: lane_write.splits)

definition quiet_write :: "lane_write \<Rightarrow> bool" where
  "quiet_write w \<longleftrightarrow>
     (case w of SetValue (StateKey q) v \<Rightarrow> False | DeleteValue (StateKey q) \<Rightarrow> False | AppendFrame p r f \<Rightarrow> False
      | DeleteFrames p r \<Rightarrow> False | _ \<Rightarrow> True)"

lemma quiet_commit:
  assumes "store_commit ws now st = Inr (c, st')" "list_all quiet_write ws" "frames_owned (sr_values st) (sr_frames st)"
  shows "frames_owned (sr_values st') (sr_frames st')"
proof -
  have "sr_values st' (StateKey q) = sr_values st (StateKey q)" for q
    unfolding commit_values[OF assms(1)]
  proof (rule key_after_untouched, rule ballI)
    fix w assume "w \<in> set ws"
    then have "quiet_write w" using assms(2) by (simp add: list_all_iff)
    then show "\<not> touches_key (StateKey q) w" by (auto simp: quiet_write_def touches_key_def split: lane_write.splits)
  qed
  moreover have "\<forall>w \<in> set ws. \<not> is_frames w"
    using assms(2) by (auto simp: list_all_iff quiet_write_def is_frames_def split: lane_write.splits)
  then have "sr_frames st' k = sr_frames st k" for k unfolding commit_frames[OF assms(1)] by (rule quiet_frames)
  ultimately show ?thesis using assms(3) by (simp add: frames_owned_def)
qed

lemma acquire_frames:
  assumes a: "acquireLane name createAt seed now st = Inr (lane, st')" and f: "frames_owned (sr_values st) (sr_frames st)"
  shows "frames_owned (sr_values st') (sr_frames st')"
proof -
  have valid: "name \<noteq> [] \<and> 0 \<notin> set name" using a by (auto simp: acquireLane_def split: if_splits)
  obtain c where c: "readLaneStorage st name = Inr c" using a valid by (auto simp: acquireLane_def split: sum.splits)
  show ?thesis
  proof (cases "\<exists>t cf d. c = ConfiguredLane t cf d")
    case True
    then have "st' = st" using a c valid by (auto simp: acquireLane_def split: sum.splits)
    then show ?thesis using f by simp
  next
    case False
    define tip where "tip = (case c of BranchOnly t \<Rightarrow> t | _ \<Rightarrow> createAt)"
    define ws where "ws = (if c = AbsentLane then [set_tip name tip] else []) @
      [SetValue (LaneConfigKey name) (ConfigValue seed),
       SetValue (LaneStateKey name) (LaneValue \<lparr>dl_currentOperationId = None, dl_lastOperationId = None, dl_inbox = []\<rparr>)]"
    obtain r where "store_commit ws now st = Inr (r, st')"
      using a c False valid
      by (cases c) (auto simp: acquireLane_def tip_def ws_def Let_def set_lane_state_def durableLaneState_def
          split: sum.splits if_splits)
    moreover have "list_all quiet_write ws" by (simp add: ws_def quiet_write_def set_tip_def)
    ultimately show ?thesis using f by (rule quiet_commit)
  qed
qed

section \<open>Steps\<close>

text \<open>
  Lanes act, are acquired, and are lost: a fault closes the process, which loses its lanes like any other end of it. Others
  write too: branches, sessions and extensions commit to the same storage.
\<close>

datatype lane_label =
    Acted jstr lane_action
  | Acquired jstr
  | Lost
  | Written "lane_write list"

inductive lane_step :: "(number \<Rightarrow> jstr) \<Rightarrow> harness_config \<Rightarrow> lane_label \<Rightarrow> lane_system \<Rightarrow> lane_system \<Rightarrow> bool" for dbl cf where
  action: "ls_lanes h name = Some lane \<Longrightarrow>
    lane_command (lane_plan dbl cf name a) now lane (ls_store h) = Inr (r, ev, n, st') \<Longrightarrow>
    lane_step dbl cf (Acted name a) h \<lparr>ls_lanes = (ls_lanes h)(name \<mapsto> n), ls_store = st'\<rparr>"
| acquire: "ls_lanes h name = None \<Longrightarrow> acquireLane name createAt seed now (ls_store h) = Inr (lane, st') \<Longrightarrow>
    lane_step dbl cf (Acquired name) h \<lparr>ls_lanes = (ls_lanes h)(name \<mapsto> lane), ls_store = st'\<rparr>"
| lost: "lane_step dbl cf Lost h (h\<lparr>ls_lanes := Map.empty\<rparr>)"
| written: "store_commit ws now (ls_store h) = Inr (c, st') \<Longrightarrow> lane_step dbl cf (Written ws) h (h\<lparr>ls_store := st'\<rparr>)"

text \<open>
  A run of a process over a storage, with the steps it took and the states they were taken in.
\<close>

inductive lane_run ::
    "(number \<Rightarrow> jstr) \<Rightarrow> harness_config \<Rightarrow> lane_store \<Rightarrow> (lane_label \<times> lane_system) list \<Rightarrow> lane_system \<Rightarrow> bool"
  for dbl cf st0 where
  start: "lane_run dbl cf st0 [] \<lparr>ls_lanes = Map.empty, ls_store = st0\<rparr>"
| step: "lane_run dbl cf st0 tr h \<Longrightarrow> lane_step dbl cf l h h' \<Longrightarrow> lane_run dbl cf st0 (tr @ [(l, h)]) h'"

section \<open>What the code leaves to its callers\<close>

text \<open>
  Another writer may change anything but the tip, the configuration and the state of a lane that the process has, the meta
  data and the state of operations, and frames.
\<close>

definition foreign_key :: "lane_system \<Rightarrow> lane_key \<Rightarrow> bool" where
  "foreign_key h k \<longleftrightarrow>
     (case k of
        BranchTipKey l \<Rightarrow> ls_lanes h l = None
      | LaneConfigKey l \<Rightarrow> ls_lanes h l = None
      | LaneStateKey l \<Rightarrow> ls_lanes h l = None
      | MetaKey p \<Rightarrow> False
      | StateKey p \<Rightarrow> False
      | _ \<Rightarrow> True)"

definition foreign_write :: "lane_system \<Rightarrow> lane_write \<Rightarrow> bool" where
  "foreign_write h w \<longleftrightarrow>
     (case w of
        SetValue k v \<Rightarrow> foreign_key h k
      | DeleteValue k \<Rightarrow> foreign_key h k
      | AppendFrame p r f \<Rightarrow> False
      | DeleteFrames p r \<Rightarrow> False
      | _ \<Rightarrow> True)"

fun orderly :: "lane_label \<Rightarrow> lane_system \<Rightarrow> bool" where
  "orderly (Acted name a) h = unused_id a (ls_store h)"
| "orderly (Written ws) h = list_all (foreign_write h) ws"
| "orderly l h = True"

definition orderly_run :: "(lane_label \<times> lane_system) list \<Rightarrow> bool" where
  "orderly_run tr \<longleftrightarrow> list_all (\<lambda>(l, h). orderly l h) tr"

text \<open>Progress is written by the drive of the operation that its lane has.\<close>

fun own_progress :: "lane_label \<Rightarrow> lane_system \<Rightarrow> bool" where
  "own_progress (Acted name a) h = (case ls_lanes h name of None \<Rightarrow> True | Some lane \<Rightarrow> frame_writer a lane)"
| "own_progress l h = True"

definition own_progress_run :: "(lane_label \<times> lane_system) list \<Rightarrow> bool" where
  "own_progress_run tr \<longleftrightarrow> list_all (\<lambda>(l, h). own_progress l h) tr"

section \<open>What runs keep\<close>

text \<open>The names of all values are listed.\<close>

definition keys_listed :: "lane_store \<Rightarrow> bool" where
  "keys_listed st \<longleftrightarrow> (\<forall>k. k \<notin> set (sr_keys st) \<longrightarrow> sr_values st k = None)"

lemma write_keys:
  assumes "keys_listed st" "store_write now st wq = Inr st'"
  shows "keys_listed st'"
proof -
  obtain w q where wq: "wq = (w, q)" by (cases wq)
  show ?thesis
  proof (cases w)
    case (InsertEntry e)
    then show ?thesis using assms
      by (auto simp: wq store_write_def write_entry_def keys_listed_def split: if_splits option.splits)
  qed (use assms in \<open>auto simp: wq store_write_def keys_listed_def split: if_splits\<close>)
qed

lemma writes_keys: "keys_listed st \<Longrightarrow> foldE (store_write now) st wqs = Inr st' \<Longrightarrow> keys_listed st'"
proof (induction wqs arbitrary: st)
  case (Cons wq wqs)
  obtain st1 where "store_write now st wq = Inr st1" "foldE (store_write now) st1 wqs = Inr st'"
    using Cons.prems(2) by (auto simp: bindE_eq_Inr)
  then show ?case using Cons.IH write_keys[OF Cons.prems(1)] by blast
qed simp

lemma commit_keys: "keys_listed st \<Longrightarrow> store_commit ws now st = Inr (c, st') \<Longrightarrow> keys_listed st'"
  using writes_keys[of st now "zip ws (write_seqs st ws)"] by (auto simp: store_commit_def bindE_eq_Inr keys_listed_def)

lemma command_keys:
  "keys_listed st \<Longrightarrow> lane_command plan now lane st = Inr (r, ev, n, st') \<Longrightarrow> keys_listed st'"
  by (auto simp: lane_command_def commit_keys split: sum.splits decision.splits prod.splits)

lemma acquire_keys:
  "keys_listed st \<Longrightarrow> acquireLane name createAt seed now st = Inr (lane, st') \<Longrightarrow> keys_listed st'"
  by (auto simp: acquireLane_def Let_def commit_keys split: sum.splits prod.splits classified.splits if_splits)

definition names_valid :: "lane_system \<Rightarrow> bool" where
  "names_valid h \<longleftrightarrow> (\<forall>name. ls_lanes h name \<noteq> None \<longrightarrow> name \<noteq> [] \<and> 0 \<notin> set name)"

lemma written_untouched:
  assumes "list_all (foreign_write h) ws" "\<not> foreign_key h k"
  shows "key_after ws k v = v"
proof (rule key_after_untouched, rule ballI)
  fix w assume "w \<in> set ws"
  then have "foreign_write h w" using assms(1) by (simp add: list_all_iff)
  then show "\<not> touches_key k w" using assms(2) by (auto simp: foreign_write_def touches_key_def split: lane_write.splits)
qed

lemma written_keeps:
  assumes "list_all (foreign_write h) ws" "store_commit ws now (ls_store h) = Inr (c, st')" "all_hold h"
  shows "all_hold (h\<lparr>ls_store := st'\<rparr>)"
  unfolding all_hold_def
proof (intro allI impI)
  fix name lane
  assume l: "ls_lanes (h\<lparr>ls_store := st'\<rparr>) name = Some lane"
  then have h: "lane_holds name lane (sr_values (ls_store h))" using assms(3) by (simp add: all_hold_def)
  have same: "sr_values st' k = sr_values (ls_store h) k" if "\<not> foreign_key h k" for k
    unfolding commit_values[OF assms(2)] by (rule written_untouched[OF assms(1) that])
  have keys: "\<not> foreign_key h (BranchTipKey name)" "\<not> foreign_key h (LaneConfigKey name)" "\<not> foreign_key h (LaneStateKey name)"
    "\<not> foreign_key h (MetaKey q)" "\<not> foreign_key h (StateKey q)" for q
    using l by (simp_all add: foreign_key_def)
  show "lane_holds name lane (sr_values (ls_store (h\<lparr>ls_store := st'\<rparr>)))"
    using h by (simp add: lane_holds_def same keys split: option.splits)
qed

lemma foreign_quiet: "foreign_write h w \<Longrightarrow> quiet_write w"
  by (auto simp: foreign_write_def quiet_write_def foreign_key_def split: lane_write.splits lane_key.splits)

lemma written_frames:
  assumes "list_all (foreign_write h) ws" "store_commit ws now (ls_store h) = Inr (c, st')"
    "frames_owned (sr_values (ls_store h)) (sr_frames (ls_store h))"
  shows "frames_owned (sr_values st') (sr_frames st')"
  by (rule quiet_commit[OF assms(2) _ assms(3)]) (use assms(1) foreign_quiet in \<open>auto simp: list_all_iff\<close>)

text \<open>Neither condition can be left out: for the ids that is \<open>taken_id_breaks_lane\<close>, for the tips the following.\<close>

lemma moved_tip_breaks_lane:
  assumes "all_hold h" "ls_lanes h name = Some lane" "store_commit [set_tip name t] now (ls_store h) = Inr (c, st')"
  shows "restoreLane st' name = Inr (lane\<lparr>la_tipId := t\<rparr>)"
proof (rule holds_restores)
  have h: "lane_holds name lane (sr_values (ls_store h))" using assms(1,2) by (simp add: all_hold_def)
  have v: "sr_values st' k = (if k = BranchTipKey name then Some (TipValue t) else sr_values (ls_store h) k)" for k
    unfolding commit_values[OF assms(3)] by (simp add: set_tip_def)
  show "lane_holds name (lane\<lparr>la_tipId := t\<rparr>) (sr_values st')"
    using h by (simp add: lane_holds_def v current_id_def durableLaneState_def split: option.splits)
qed

lemma step_keeps:
  assumes "lane_step dbl cf l h h'" "orderly l h" "all_hold h" "names_valid h"
  shows "all_hold h' \<and> names_valid h'"
  using assms
proof (induction rule: lane_step.induct)
  case (action h name lane a now r ev n st')
  then show ?case using lanes.command_keeps by (auto simp: names_valid_def)
next
  case (acquire h name createAt seed now lane st')
  then show ?case using acquire_keeps by (auto simp: names_valid_def)
next
  case (lost h)
  then show ?case by (simp add: all_hold_def names_valid_def)
next
  case (written ws now h c st')
  then show ?case using written_keeps by (simp add: names_valid_def)
qed

lemma step_keys: "lane_step dbl cf l h h' \<Longrightarrow> keys_listed (ls_store h) \<Longrightarrow> keys_listed (ls_store h')"
  by (induction rule: lane_step.induct) (auto dest: command_keys acquire_keys commit_keys)

lemma step_frames:
  assumes "lane_step dbl cf l h h'" "orderly l h" "own_progress l h" "all_hold h"
    "frames_owned (sr_values (ls_store h)) (sr_frames (ls_store h))"
  shows "frames_owned (sr_values (ls_store h')) (sr_frames (ls_store h'))"
  using assms
proof (induction rule: lane_step.induct)
  case (action h name lane a now r ev n st')
  then show ?case using framed.command_frames by simp
next
  case (acquire h name createAt seed now lane st')
  then show ?case using acquire_frames by simp
next
  case (lost h)
  then show ?case by simp
next
  case (written ws now h c st')
  then show ?case using written_frames by simp
qed

lemma run_holds: "lane_run dbl cf st0 tr h \<Longrightarrow> orderly_run tr \<Longrightarrow> all_hold h \<and> names_valid h"
proof (induction rule: lane_run.induct)
  case start
  then show ?case by (simp add: all_hold_def names_valid_def)
next
  case (step tr h l h')
  then show ?case using step_keeps by (simp add: orderly_run_def)
qed

lemma run_keys: "lane_run dbl cf st0 tr h \<Longrightarrow> keys_listed st0 \<Longrightarrow> keys_listed (ls_store h)"
  by (induction rule: lane_run.induct) (auto dest: step_keys)

lemma run_frames:
  "lane_run dbl cf st0 tr h \<Longrightarrow> orderly_run tr \<Longrightarrow> own_progress_run tr \<Longrightarrow> frames_owned (sr_values st0) (sr_frames st0) \<Longrightarrow>
   frames_owned (sr_values (ls_store h)) (sr_frames (ls_store h))"
proof (induction rule: lane_run.induct)
  case start
  then show ?case by simp
next
  case (step tr h l h')
  have t: "orderly_run tr" "own_progress_run tr" "orderly l h" "own_progress l h"
    using step.prems by (simp_all add: orderly_run_def own_progress_run_def)
  have "all_hold h" using run_holds[OF step.hyps(1) t(1)] by blast
  then show ?case using step_frames[OF step.hyps(2) t(3,4)] step.IH[OF t(1,2)] step.prems(3) by blast
qed

end
