(* ===== verification/LaneEnd.thy ===== *)
theory LaneEnd
  imports LaneReach
begin

text \<open>
  The end of operations: what an operation that ends leaves in the storage, and what becomes of one whose cancellation has
  been asked for.
\<close>

section \<open>The end of an operation\<close>

definition ends_operation :: "jstr \<Rightarrow> operation \<Rightarrow> lane_store \<Rightarrow> lane_write list \<Rightarrow> lane_state \<Rightarrow> bool" where
  "ends_operation name p st ws n \<longleftrightarrow>
     (\<exists>placed r d. list_all (placing_write name) placed \<and> or_operationId r = operation_id p \<and>
        la_lastOperationId n = Some (operation_id p) \<and>
        ws = placed @ operationCleanupWrites st (operation_id p) (op_state p) @
          [SetValue (ResultKey (operation_id p)) (ResultValue r), set_lane_state name d])"

text \<open>
  The addresses that belong to an operation, but for its result: those under its id, and those of the results of tools that
  are staged and not yet on the branch.
\<close>

definition id_key :: "jstr \<Rightarrow> lane_key \<Rightarrow> bool" where
  "id_key p k \<longleftrightarrow>
     (case k of
        MetaKey q \<Rightarrow> q = p
      | StateKey q \<Rightarrow> q = p
      | ToolArgsKey q t i \<Rightarrow> q = p
      | ToolMemoKey q i n \<Rightarrow> q = p
      | PreparationKey q t \<Rightarrow> q = p
      | ToolOutputKey q i \<Rightarrow> q = p
      | _ \<Rightarrow> False)"

definition staged_key :: "operation_leaf \<Rightarrow> lane_key \<Rightarrow> bool" where
  "staged_key l k \<longleftrightarrow>
     (case l of
        ToolsLeaf b \<Rightarrow>
          (\<exists>c \<in> set (tb_calls b). k = PendingKey (bc_resultEntryId c) \<and> (case bc_status c of OutcomeReady t \<Rightarrow> True | _ \<Rightarrow> False))
      | _ \<Rightarrow> False)"

definition operation_key :: "operation \<Rightarrow> lane_key \<Rightarrow> bool" where
  "operation_key p k \<longleftrightarrow> id_key (operation_id p) k \<or> staged_key (os_leaf (op_state p)) k"

lemma id_keys:
  "id_key p k \<longleftrightarrow> k = MetaKey p \<or> k = StateKey p \<or> args_key p k \<or> memo_key p k \<or> preparation_key p k \<or> output_key p k"
  by (auto simp: id_key_def args_key_def memo_key_def preparation_key_def output_key_def split: lane_key.splits)

lemma set_fold_add: "set (fold set_add xs ys) = set xs \<union> set ys"
  by (induction xs arbitrary: ys) (auto simp: set_add_def)

lemma staged_listed: "staged_key l k \<Longrightarrow> \<exists>i \<in> set (staged_ids l). k = PendingKey i"
proof (cases l)
  case (ToolsLeaf b)
  assume "staged_key l k"
  then obtain c where c: "c \<in> set (tb_calls b)" "k = PendingKey (bc_resultEntryId c)"
      "case bc_status c of OutcomeReady t \<Rightarrow> True | _ \<Rightarrow> False"
    using ToolsLeaf by (simp add: staged_key_def) blast
  obtain t where t: "bc_status c = OutcomeReady t" using c(3) by (cases "bc_status c") simp_all
  have "bc_resultEntryId c \<in> set (staged_ids l)" unfolding ToolsLeaf staged_ids_def operation_leaf.case
    by (simp add: set_fold_add set_some_of) (use c t in \<open>force\<close>)
  then show ?thesis using c(2) by blast
qed (auto simp: staged_key_def)

lemma no_pending_id [simp]: "\<not> id_key p (PendingKey i)"
  by (simp add: id_key_def)

lemma placing_values: "list_all (placing_write name) ws \<Longrightarrow> k \<noteq> BranchTipKey name \<Longrightarrow> (\<And>i. k \<noteq> LabelKey i) \<Longrightarrow>
    key_after ws k v = v \<or> key_after ws k v = None"
proof (induction ws arbitrary: v)
  case (Cons w ws)
  have rest: "list_all (placing_write name) ws" using Cons.prems(1) by simp
  show ?case using Cons.IH[OF rest Cons.prems(2,3), of v] Cons.IH[OF rest Cons.prems(2,3), of None] Cons.prems
    by (cases w) (auto simp: placing_write_def)
qed simp

lemma key_after_deletes: "key_after (map DeleteValue ks) k v = (if k \<in> set ks then None else v)"
  by (induction ks arbitrary: v) auto

lemma key_after_none: "\<forall>w \<in> set ws. \<forall>x. w \<noteq> SetValue k x \<Longrightarrow> key_after ws k None = None"
proof (induction ws)
  case (Cons w ws)
  then show ?case by (cases w) auto
qed simp

lemma cleanup_removes:
  assumes "operation_key p k" "keys_listed st" "v = sr_values st k \<or> v = None"
  shows "key_after (operationCleanupWrites st (operation_id p) (op_state p)) k v = None"
proof -
  define q where "q = operation_id p"
  define ks where "ks = MetaKey q # StateKey q # stored_keys st (args_key q) @ stored_keys st (memo_key q) @
    stored_keys st (preparation_key q) @ stored_keys st (output_key q)"
  define fs where "fs = (case frames_of (os_leaf (op_state p)) of None \<Rightarrow> [] | Some r \<Rightarrow> [DeleteFrames q r])"
  define ps where "ps = map PendingKey (staged_ids (os_leaf (op_state p)))"
  have w: "operationCleanupWrites st q (op_state p) = map DeleteValue ks @ fs @ map DeleteValue ps"
    by (simp add: operationCleanupWrites_def ks_def fs_def ps_def)
  have none: "key_after fs k x = x" for x by (simp add: fs_def split: option.splits)
  have "k \<in> set ks \<or> k \<in> set ps \<or> v = None"
    using assms staged_listed[of "os_leaf (op_state p)" k]
    by (auto simp: operation_key_def id_keys q_def ks_def ps_def stored_keys_def keys_listed_def)
  then show ?thesis by (auto simp: w q_def[symmetric] key_after_deletes none)
qed

lemma ended_values:
  assumes "ends_operation name p st ws n" "keys_listed st" "\<And>k. v k = key_after ws k (sr_values st k)"
  shows "\<exists>r. v (ResultKey (operation_id p)) = Some (ResultValue r) \<and> or_operationId r = operation_id p"
    "operation_key p k \<Longrightarrow> v k = None"
proof -
  obtain placed r d where w: "list_all (placing_write name) placed" "or_operationId r = operation_id p"
    "ws = placed @ operationCleanupWrites st (operation_id p) (op_state p) @
      [SetValue (ResultKey (operation_id p)) (ResultValue r), set_lane_state name d]"
    using assms(1) unfolding ends_operation_def by blast
  show "\<exists>r. v (ResultKey (operation_id p)) = Some (ResultValue r) \<and> or_operationId r = operation_id p"
    using w by (simp add: assms(3) set_lane_state_def)
  assume k: "operation_key p k"
  then have "id_key (operation_id p) k \<or> (\<exists>i. k = PendingKey i)" using staged_listed by (auto simp: operation_key_def)
  then have other: "k \<noteq> ResultKey (operation_id p)" "k \<noteq> LaneStateKey name" "k \<noteq> BranchTipKey name" "\<And>i. k \<noteq> LabelKey i"
    by (auto simp: id_key_def)
  show "v k = None"
    using cleanup_removes[OF k assms(2) placing_values[OF w(1) other(3,4)]] other(1,2)
    by (simp add: assms(3) w(3) set_lane_state_def)
qed

lemma ended_frames:
  assumes e: "ends_operation name p st ws n" and o: "frames_owned (sr_values st) (sr_frames st)"
    and h: "sr_values st (StateKey (operation_id p)) = Some (StateValue (op_state p))"
  shows "frames_after ws (operation_id p, r) (sr_frames st (operation_id p, r)) = []"
proof (rule ccontr)
  assume a: "\<not> ?thesis"
  obtain placed x d where w: "list_all (placing_write name) placed"
    "ws = placed @ operationCleanupWrites st (operation_id p) (op_state p) @
      [SetValue (ResultKey (operation_id p)) (ResultValue x), set_lane_state name d]"
    using e unfolding ends_operation_def by blast
  have "AppendFrame q y g \<notin> set ws" for q y g
    using w(1) by (auto simp: w(2) list_all_iff placing_write_def operationCleanupWrites_def set_lane_state_def split: option.splits)
  then have f: "sr_frames st (operation_id p, r) \<noteq> []" "DeleteFrames (operation_id p) r \<notin> set ws"
    using frames_left[OF a] by auto
  then have "frames_of (os_leaf (op_state p)) = Some r" using o h unfolding frames_owned_def by fastforce
  then show False using f(2) cleanup_frames w(2) by auto
qed

text \<open>Only a decision that finishes takes the operation from its lane.\<close>

definition ends_well :: "jstr \<Rightarrow> 'r planner \<Rightarrow> lane_state \<Rightarrow> lane_store \<Rightarrow> bool" where
  "ends_well name plan lane st \<longleftrightarrow>
     (\<forall>p ws n r ev. lane_holds name lane (sr_values st) \<longrightarrow> la_operation lane = Some p \<longrightarrow>
        plan lane st = Inr (Commit ws n r ev) \<longrightarrow>
        (case la_operation n of None \<Rightarrow> ends_operation name p st ws n | Some q \<Rightarrow> op_meta q = op_meta p))"

lemma ends_ignoring:
  assumes "ends_well name plan lane st"
  shows "ends_well name (ignoring f plan) lane st"
  unfolding ends_well_def
proof (intro allI impI)
  fix p ws n r ev
  assume a: "lane_holds name lane (sr_values st)" "la_operation lane = Some p" "ignoring f plan lane st = Inr (Commit ws n r ev)"
  obtain r0 where "plan lane st = Inr (Commit ws n r0 ev)" using ignoring_commit[OF a(3)] by blast
  then show "case la_operation n of None \<Rightarrow> ends_operation name p st ws n | Some q \<Rightarrow> op_meta q = op_meta p"
    using assms a(1,2) unfolding ends_well_def by blast
qed

lemma ends_settle:
  assumes "planner_ok name plan"
  shows "ends_well name (settleOperation name plan) lane st"
  unfolding ends_well_def
proof (intro allI impI)
  fix p ws n r ev
  assume h: "lane_holds name lane (sr_values st)" and p: "la_operation lane = Some p"
    and c: "settleOperation name plan lane st = Inr (Commit ws n r ev)"
  obtain d where d: "plan lane (op_state p) (op_meta p) st = Inr d" using c p by (auto simp: settleOperation_def bindE_eq_Inr)
  have "stateMatchesIntent (me_intent (op_meta p)) (op_state p)" using h p by (simp add: lane_holds_def)
  then have ok: "op_decision_ok name lane p st d" using assms p d unfolding planner_ok_def by blast
  show "case la_operation n of None \<Rightarrow> ends_operation name p st ws n | Some q \<Rightarrow> op_meta q = op_meta p"
  proof (cases d)
    case (OpCommit ws0 s patch r0 ev0)
    then show ?thesis using c p d by (auto simp: settleOperation_def bindE_def)
  next
    case (OpFinish ws0 res patch r0 ev0)
    obtain dl where "ws = ws0 @ [SetValue (ResultKey (operation_id p)) (ResultValue res), set_lane_state name dl]"
      "la_operation n = None" "la_lastOperationId n = Some (operation_id p)"
      using c p d OpFinish by (auto simp: settleOperation_def bindE_def Let_def)
    then show ?thesis using ok unfolding OpFinish op_decision_ok_def ends_operation_def by auto
  next
    case (OpReturn r0)
    then show ?thesis using c p d by (simp add: settleOperation_def bindE_def)
  qed
qed

lemma ends_continue: "planner_ok name plan \<Longrightarrow> ends_well name (continueOperation name plan) lane st"
  unfolding continue_settle by (intro ends_settle when_running_ok)

lemma keeps_operation:
  assumes "\<And>ws n r ev p. la_operation lane = Some p \<Longrightarrow> plan lane st = Inr (Commit ws n r ev) \<Longrightarrow> map_option op_meta (la_operation n) = Some (op_meta p)"
  shows "ends_well name plan lane st"
  unfolding ends_well_def
proof (intro allI impI)
  fix p ws n r ev
  assume "la_operation lane = Some p" "plan lane st = Inr (Commit ws n r ev)"
  from assms[OF this] show "case la_operation n of None \<Rightarrow> ends_operation name p st ws n | Some q \<Rightarrow> op_meta q = op_meta p"
    by (auto split: option.splits)
qed

definition control_of :: "operation \<Rightarrow> operation_control" where
  "control_of p = sc_control (os_scope (op_state p))"

lemma actions_end: "ends_well name (lane_plan dbl cf name a) lane st"
proof (cases a)
  case (Client c)
  show ?thesis unfolding Client by (rule keeps_operation) (use client_operation in \<open>fastforce\<close>)
next
  case (Continue d)
  then show ?thesis by (cases d) (simp_all add: ends_ignoring ends_continue drive_planners_ok)
next
  case (SettleEffect d)
  then show ?thesis by (cases d) (simp_all add: ends_ignoring ends_settle drive_planners_ok)
next
  case (Effect e)
  show ?thesis unfolding Effect by (rule keeps_operation) (use effect_same_lane in \<open>fastforce\<close>)
qed

section \<open>Cancelled operations\<close>

definition cancel_ok :: "'r op_planner \<Rightarrow> bool" where
  "cancel_ok plan \<longleftrightarrow>
     (\<forall>lane p st d. cancelled (op_state p) \<longrightarrow> plan lane (op_state p) (op_meta p) st = Inr d \<longrightarrow>
        (case d of
           OpCommit ws s patch r ev \<Rightarrow> sc_control (os_scope s) = control_of p
         | OpFinish ws x patch r ev \<Rightarrow> or_status x = AbortedStatus
         | OpReturn r \<Rightarrow> True))"

lemma cancel_okI:
  "(\<And>lane p st d. cancelled (op_state p) \<Longrightarrow> plan lane (op_state p) (op_meta p) st = Inr d \<Longrightarrow>
      (case d of OpCommit ws s patch r ev \<Rightarrow> sc_control (os_scope s) = control_of p
       | OpFinish ws x patch r ev \<Rightarrow> or_status x = AbortedStatus | OpReturn r \<Rightarrow> True)) \<Longrightarrow> cancel_ok plan"
  unfolding cancel_ok_def by blast

lemma cancel_running: "cancel_ok (when_running plan)"
  by (rule cancel_okI) (auto simp: when_running_def)

lemma response_cancel: "cancel_ok (publishResponse name rf a)"
proof (rule cancel_okI)
  fix lane :: lane_state and p :: operation and st d
  assume x: "cancelled (op_state p)" and d: "publishResponse name rf a lane (op_state p) (op_meta p) st = Inr d"
  obtain ri where ri: "intent_of (os_leaf (op_state p)) = Some ri" using d by (auto simp: publishResponse_def split: option.splits)
  show "case d of OpCommit ws s patch r ev \<Rightarrow> sc_control (os_scope s) = control_of p
       | OpFinish ws x patch r ev \<Rightarrow> or_status x = AbortedStatus | OpReturn r \<Rightarrow> True"
    using d x by (auto simp: publishResponse_def ri classify_response_def bindE_def Let_def control_of_def)
qed

lemma outcome_cancel: "cancel_ok (publishToolOutcome name c callId toolName arguments r terminate recovery)"
  by (rule cancel_okI)
    (auto simp: publishToolOutcome_def Let_def control_of_def with_batch_def split: operation_leaf.splits)

lemma placement_cancel: "cancel_ok (commitPlacement name rd us)"
  by (rule cancel_okI)
    (auto simp: commitPlacement_def Let_def control_of_def with_batch_def
      split: operation_leaf.splits prod.splits if_splits option.splits)

lemma nested_cancel: "cancel_ok (publishNestedRequestOutcome name i u)"
  by (rule cancel_okI) (auto simp: publishNestedRequestOutcome_def control_of_def split: operation_leaf.splits)

lemma record_status: "operationResultRecord m x tip e now = Inr r \<Longrightarrow> or_status r = x"
  by (auto simp: operationResultRecord_def split: if_splits)

lemma aborted_cancel: "cancel_ok (publishAbortedTerminal name now)"
  by (rule cancel_okI) (auto simp: publishAbortedTerminal_def bindE_eq_Inr dest: record_status split: if_splits)

lemmas settle_cancels = response_cancel outcome_cancel placement_cancel nested_cancel aborted_cancel

definition stays_cancelled :: "operation \<Rightarrow> lane_write list \<Rightarrow> lane_state \<Rightarrow> bool" where
  "stays_cancelled p ws n \<longleftrightarrow>
     (case la_operation n of
        Some q \<Rightarrow> op_meta q = op_meta p \<and> control_of q = control_of p
      | None \<Rightarrow> (\<exists>r. or_status r = AbortedStatus \<and>
          (\<forall>v. key_after ws (ResultKey (operation_id p)) v = Some (ResultValue r))))"

definition stays :: "'r planner \<Rightarrow> bool" where
  "stays plan \<longleftrightarrow> (\<forall>lane st p ws n r ev. la_operation lane = Some p \<longrightarrow> cancelled (op_state p) \<longrightarrow>
     plan lane st = Inr (Commit ws n r ev) \<longrightarrow> stays_cancelled p ws n)"

lemma staysD: "stays plan \<Longrightarrow> la_operation lane = Some p \<Longrightarrow> cancelled (op_state p) \<Longrightarrow>
    plan lane st = Inr (Commit ws n r ev) \<Longrightarrow> stays_cancelled p ws n"
  unfolding stays_def by blast

lemma stays_settle:
  assumes "cancel_ok plan"
  shows "stays (settleOperation name plan)"
  unfolding stays_def
proof (intro allI impI)
  fix lane st p ws n r ev
  assume p: "la_operation lane = Some p" "cancelled (op_state p)" and c: "settleOperation name plan lane st = Inr (Commit ws n r ev)"
  obtain d where d: "plan lane (op_state p) (op_meta p) st = Inr d" using c p by (auto simp: settleOperation_def bindE_eq_Inr)
  show "stays_cancelled p ws n"
  proof (cases d)
    case (OpCommit ws0 s patch r0 ev0)
    have "sc_control (os_scope s) = control_of p" using assms p(2) d OpCommit unfolding cancel_ok_def by fastforce
    then show ?thesis using c p d OpCommit by (auto simp: settleOperation_def bindE_def stays_cancelled_def control_of_def)
  next
    case (OpFinish ws0 res patch r0 ev0)
    have "or_status res = AbortedStatus" using assms p(2) d OpFinish unfolding cancel_ok_def by fastforce
    then show ?thesis using c p d OpFinish
      by (auto simp: settleOperation_def bindE_def stays_cancelled_def Let_def set_lane_state_def)
  next
    case (OpReturn r0)
    then show ?thesis using c p d by (simp add: settleOperation_def bindE_def)
  qed
qed

lemma stays_continue: "stays (continueOperation name plan)"
  unfolding continue_settle by (intro stays_settle cancel_running)

lemma stays_ignoring:
  assumes "stays plan"
  shows "stays (ignoring f plan)"
  unfolding stays_def
proof (intro allI impI)
  fix lane st p ws n r ev
  assume a: "la_operation lane = Some p" "cancelled (op_state p)" "ignoring f plan lane st = Inr (Commit ws n r ev)"
  obtain r0 where "plan lane st = Inr (Commit ws n r0 ev)" using ignoring_commit[OF a(3)] by blast
  then show "stays_cancelled p ws n" by (rule staysD[OF assms a(1,2)])
qed

lemma actions_stay:
  assumes "la_operation lane = Some p" "cancelled (op_state p)" "lane_plan dbl cf name a lane st = Inr (Commit ws n r ev)"
  shows "stays_cancelled p ws n"
proof (cases a)
  case (Client c)
  then show ?thesis using assms client_operation[OF assms(1), of dbl cf name c st ws n r ev] by (auto simp: stays_cancelled_def)
next
  case (Continue d)
  have "stays (drive_plan cf name d)" by (cases d) (simp_all add: stays_ignoring stays_continue)
  then show ?thesis by (rule staysD[OF _ assms(1,2)]) (use assms(3) Continue in simp)
next
  case (SettleEffect d)
  have "stays (settle_plan name d)" by (cases d) (simp_all add: stays_ignoring stays_settle settle_cancels)
  then show ?thesis by (rule staysD[OF _ assms(1,2)]) (use assms(3) SettleEffect in simp)
next
  case (Effect e)
  then show ?thesis using assms effect_same_lane[of name e lane st ws n r ev] by (auto simp: stays_cancelled_def)
qed

section \<open>Steps of a lane\<close>

text \<open>A step that changes a lane is an action on it.\<close>

lemma step_changes:
  assumes "lane_step dbl cf l h h'" "ls_lanes h name = Some lane" "ls_lanes h' name = Some lane'"
  obtains "lane' = lane"
  | a ws r ev now c where "lane_plan dbl cf name a lane (ls_store h) = Inr (Commit ws lane' r ev)"
      "store_commit ws now (ls_store h) = Inr (c, ls_store h')"
  using assms(1)
proof (cases rule: lane_step.cases)
  case (action name2 lane2 a now r ev n st')
  show ?thesis
  proof (cases "name2 = name")
    case True
    then have l: "lane2 = lane" "lane' = n" using assms(2,3) action by auto
    have c: "lane_command (lane_plan dbl cf name a) now lane (ls_store h) = Inr (r, ev, lane', ls_store h')" using action True l by simp
    then show ?thesis
    proof (cases "lane_plan dbl cf name a lane (ls_store h)")
      case (Inr d)
      then show ?thesis using that c
        by (cases d) (auto simp: lane_command_def split: sum.splits prod.splits)
    qed (simp add: lane_command_def)
  next
    case False
    then show ?thesis using assms(2,3) action that(1) by simp
  qed
next
  case (acquire name2 createAt seed now lane2 st')
  then show ?thesis using assms(2,3) that(1) by (auto split: if_splits)
next
  case lost
  then show ?thesis using assms(3) by simp
next
  case (written ws now c st')
  then show ?thesis using assms(2,3) that(1) by simp
qed

section \<open>A run that is cancelled\<close>

text \<open>A lane is made, a run is accepted on it, its cancellation is asked for, and it ends.\<close>

definition example_config :: harness_config where
  "example_config =
     \<lparr>hc_compaction = DEFAULT_COMPACTION_SETTINGS, hc_steeringMode = OneByOne, hc_followUpMode = OneByOne, hc_sequential = False,
      hc_retryEnabled = True, hc_maxRetries = 3, hc_baseDelayMs = 2000, hc_maxAgentDelayMs = None, hc_streamOptions = JObj [],
      hc_projectors = (\<lambda>t. None), hc_skill = (\<lambda>n i. None), hc_template = (\<lambda>n i. None)\<rparr>"

definition example_seed :: lane_configuration where
  "example_seed = \<lparr>lc_model = \<lparr>mi_provider = js ''p'', mi_modelId = js ''m''\<rparr>, lc_thinkingLevel = js ''off'', lc_activeToolNames = []\<rparr>"

definition empty_system :: lane_system where
  "empty_system = \<lparr>ls_lanes = Map.empty, ls_store =
     \<lparr>sr_entries = [], sr_usage = [], sr_values = Map.empty, sr_keys = [], sr_frames = (\<lambda>x. []), sr_nextSeq = 0\<rparr>\<rparr>"

definition acquired :: "jstr \<Rightarrow> lane_system \<Rightarrow> lane_system" where
  "acquired name h =
     (case acquireLane name None example_seed 0 (ls_store h) of
        Inr (lane, st) \<Rightarrow> \<lparr>ls_lanes = (ls_lanes h)(name \<mapsto> lane), ls_store = st\<rparr> | Inl e \<Rightarrow> h)"

definition acted :: "jstr \<Rightarrow> lane_action \<Rightarrow> lane_system \<Rightarrow> lane_system" where
  "acted name a h =
     (case ls_lanes h name of
        None \<Rightarrow> h
      | Some lane \<Rightarrow>
          (case lane_command (lane_plan (\<lambda>x. []) example_config name a) 0 lane (ls_store h) of
             Inr (r, ev, n, st) \<Rightarrow> \<lparr>ls_lanes = (ls_lanes h)(name \<mapsto> n), ls_store = st\<rparr> | Inl e \<Rightarrow> h))"

definition example_prompt :: lane_action where
  "example_prompt = Client (AcceptRun (js ''r'') 5 [(js ''e'', UserMessage (PlainText (js ''hi'')) 5)])"

definition example_running :: lane_system where
  "example_running = acted (js ''main'') example_prompt (acquired (js ''main'') empty_system)"

definition example_cancelled :: lane_system where
  "example_cancelled = acted (js ''main'') (Client (RequestAbort (js ''r'') 7)) example_running"

definition example_ended :: lane_system where
  "example_ended = acted (js ''main'') (SettleEffect (AbortedTerminal 9)) example_cancelled"

lemma acquired_step:
  assumes "ls_lanes h name = None"
  shows "acquired name h = h \<or> lane_step dbl cf (Acquired name) h (acquired name h)"
proof (cases "acquireLane name None example_seed 0 (ls_store h)")
  case (Inr x)
  obtain lane st where x: "x = (lane, st)" by (cases x)
  show ?thesis using lane_step.acquire[OF assms Inr[unfolded x]] by (simp add: acquired_def Inr x)
qed (simp add: acquired_def)

lemma acted_step: "acted name a h = h \<or> lane_step (\<lambda>x. []) example_config (Acted name a) h (acted name a h)"
proof (cases "ls_lanes h name")
  case (Some lane)
  show ?thesis
  proof (cases "lane_command (lane_plan (\<lambda>x. []) example_config name a) 0 lane (ls_store h)")
    case (Inr x)
    obtain r ev n st where x: "x = (r, ev, n, st)" by (cases x)
    show ?thesis using lane_step.action[OF Some Inr[unfolded x]] by (simp add: acted_def Some Inr x)
  qed (simp add: acted_def Some)
qed (simp add: acted_def)

lemmas run_defs =
  example_config_def example_seed_def empty_system_def acquired_def acted_def example_prompt_def example_running_def
  acquireLane_def readLaneStorage_def classifyLaneStorage_def get_tip_def get_config_def get_lane_def store_commit_def
  write_seqs_def store_write_def bindE_def set_tip_def set_lane_state_def durableLaneState_def lane_command_def ignoring_def
  ignored_def acceptRun_def selectAcceptedInbox_def message_entry_def acceptance_scope_def capturedSettings_def
  readLaneQueues_def delete_pending_def write_entry_def stored_ids_def materializeCommittedEntry_def

lemma made_lane:
  "ls_lanes (acquired (js ''main'') empty_system) (js ''main'') =
     Some \<lparr>la_tipId = None, la_configuration = example_seed, la_inbox = [], la_lastOperationId = None, la_operation = None\<rparr>"
  "id_unused (js ''r'') (ls_store (acquired (js ''main'') empty_system))"
  by (simp_all add: run_defs id_unused_def js_def)

definition example_meta :: operation_meta where
  "example_meta =
     \<lparr>me_operationId = js ''r'', me_lane = js ''main'', me_sourceTipId = None, me_startedAt = 5, me_intent = RunIntent [js ''e'']\<rparr>"

definition example_state :: "operation_control \<Rightarrow> operation_state" where
  "example_state ct =
     \<lparr>os_scope = \<lparr>sc_control = ct, sc_settings = capturedSettings example_config, sc_latestAssistantEntryId = None\<rparr>,
      os_leaf = Starting\<rparr>"

definition example_lane :: "operation_control \<Rightarrow> lane_state" where
  "example_lane ct =
     \<lparr>la_tipId = Some (js ''e''), la_configuration = example_seed, la_inbox = [], la_lastOperationId = None,
      la_operation = Some \<lparr>op_meta = example_meta, op_state = example_state ct\<rparr>\<rparr>"

text \<open>Only entries and usage can be refused.\<close>

definition inserts :: "lane_write \<Rightarrow> bool" where
  "inserts w = (case w of InsertEntry e \<Rightarrow> True | InsertUsage r \<Rightarrow> True | _ \<Rightarrow> False)"

lemma writes_accepted: "\<not> list_ex (inserts \<circ> fst) wqs \<Longrightarrow> \<exists>st'. foldE (store_write now) st wqs = Inr st'"
proof (induction wqs arbitrary: st)
  case (Cons wq wqs)
  obtain w q where wq: "wq = (w, q)" by (cases wq)
  have "\<exists>st1. store_write now st wq = Inr st1" using Cons.prems by (cases w) (simp_all add: wq store_write_def inserts_def)
  then show ?case using Cons by (auto simp: bindE_def)
qed simp

lemma commit_accepted:
  assumes "\<not> list_ex inserts ws"
  shows "\<exists>c st'. store_commit ws now st = Inr (c, st')"
proof -
  have "\<not> list_ex (inserts \<circ> fst) (zip ws (write_seqs st ws))"
    using assms by (auto simp: list_ex_iff dest: set_zip_leftD)
  then obtain st1 where "foldE (store_write now) st (zip ws (write_seqs st ws)) = Inr st1" using writes_accepted by blast
  then show ?thesis by (simp add: store_commit_def bindE_def)
qed

lemma entry_accepted:
  assumes "sr_entries st = []" "sr_usage st = []" "entry_parentId e = None" "\<not> list_ex inserts ws"
  shows "\<exists>c st'. store_commit (InsertEntry e # ws) now st = Inr (c, st')"
proof -
  obtain qs where q: "write_seqs st (InsertEntry e # ws) = sr_nextSeq st # qs"
    by (simp add: write_seqs_def upt_conv_Cons del: upt_Suc)
  have "\<not> list_ex (inserts \<circ> fst) (zip ws qs)" using assms(4) by (auto simp: list_ex_iff dest: set_zip_leftD)
  moreover obtain st0 where "store_write now st (InsertEntry e, sr_nextSeq st) = Inr st0"
    using assms(1-3) by (simp add: store_write_def write_entry_def stored_ids_def)
  moreover obtain st1 where "foldE (store_write now) st0 (zip ws qs) = Inr st1" using writes_accepted calculation(1) by blast
  ultimately show ?thesis by (simp add: store_commit_def q bindE_def)
qed

lemma made_store:
  "sr_entries (ls_store (acquired (js ''main'') empty_system)) = []"
  "sr_usage (ls_store (acquired (js ''main'') empty_system)) = []"
  by (simp_all add: run_defs js_def)

lemma running_lane: "ls_lanes example_running (js ''main'') = Some (example_lane RunningControl)"
proof -
  define h where "h = acquired (js ''main'') empty_system"
  define st where "st = ls_store h"
  have l: "ls_lanes h (js ''main'') =
      Some \<lparr>la_tipId = None, la_configuration = example_seed, la_inbox = [], la_lastOperationId = None, la_operation = None\<rparr>"
    unfolding h_def by (rule made_lane)
  define e where "e = message_entry (js ''e'') (UserMessage (PlainText (js ''hi'')) 5)"
  define ws where "ws = [set_tip (js ''main'') (Some (js ''e'')), SetValue (MetaKey (js ''r'')) (MetaValue example_meta),
    SetValue (StateKey (js ''r'')) (StateValue (example_state RunningControl)),
    set_lane_state (js ''main'') \<lparr>dl_currentOperationId = Some (js ''r''), dl_lastOperationId = None, dl_inbox = []\<rparr>]"
  obtain ev where plan: "lane_plan (\<lambda>x. []) example_config (js ''main'') example_prompt
      \<lparr>la_tipId = None, la_configuration = example_seed, la_inbox = [], la_lastOperationId = None, la_operation = None\<rparr> st =
    Inr (Commit (InsertEntry e # ws) (example_lane RunningControl) () ev)"
    by (simp add: ws_def e_def example_prompt_def ignoring_def ignored_def acceptRun_def selectAcceptedInbox_def bindE_def
        readLaneQueues_def message_entry_def example_lane_def example_meta_def example_state_def acceptance_scope_def
        delete_pending_def durableLaneState_def Let_def)
  have "\<not> list_ex inserts ws" by (simp add: ws_def inserts_def set_lane_state_def set_tip_def)
  moreover have "sr_entries st = []" "sr_usage st = []" by (simp_all add: st_def h_def made_store)
  ultimately obtain c st' where c: "store_commit (InsertEntry e # ws) 0 st = Inr (c, st')"
    using entry_accepted[of st e ws 0] by (auto simp: e_def message_entry_def)
  show ?thesis unfolding example_running_def h_def[symmetric] acted_def
    by (simp add: l lane_command_def c plan flip: st_def del: lane_plan.simps)
qed

lemma cancelled_lane: "ls_lanes example_cancelled (js ''main'') = Some (example_lane (CancelRequested 7))"
  using running_lane
  by (simp add: example_cancelled_def acted_def lane_command_def ignoring_def requestOperationAbort_def example_lane_def
      example_meta_def example_state_def operation_id_def cancelled_def bindE_def readLaneQueues_def withoutInboxItems_def
      store_commit_def write_seqs_def store_write_def set_lane_state_def delete_pending_def Let_def durableLaneState_def)

lemma ended_lane:
  "ls_lanes example_ended (js ''main'') =
     Some ((example_lane RunningControl)\<lparr>la_lastOperationId := Some (js ''r''), la_operation := None\<rparr>)"
proof -
  define st where "st = ls_store example_cancelled"
  define ws where "ws = operationCleanupWrites st (js ''r'') (example_state (CancelRequested 7)) @
    [SetValue (ResultKey (js ''r'')) (ResultValue \<lparr>or_operationId = js ''r'', or_kind = RunKind, or_status = AbortedStatus,
       or_error = None, or_fromTipId = None, or_tipId = Some (js ''e''), or_startedAt = 5, or_endedAt = 9\<rparr>),
     set_lane_state (js ''main'') \<lparr>dl_currentOperationId = None, dl_lastOperationId = Some (js ''r''), dl_inbox = []\<rparr>]"
  obtain ev where plan: "lane_plan (\<lambda>x. []) example_config (js ''main'') (SettleEffect (AbortedTerminal 9))
      (example_lane (CancelRequested 7)) st =
    Inr (Commit ws ((example_lane RunningControl)\<lparr>la_lastOperationId := Some (js ''r''), la_operation := None\<rparr>) () ev)"
    by (simp add: ws_def ignoring_def ignored_def settleOperation_def publishAbortedTerminal_def operationResultRecord_def
        example_lane_def example_meta_def example_state_def operation_id_def cancelled_def bindE_def patched_def no_patch_def
        durableLaneState_def Let_def)
  have "\<not> list_ex inserts ws"
    by (auto simp: ws_def list_ex_iff operationCleanupWrites_def inserts_def set_lane_state_def split: option.splits)
  from commit_accepted[OF this] obtain c st' where c: "store_commit ws 0 st = Inr (c, st')" by blast
  show ?thesis unfolding example_ended_def acted_def
    by (simp add: cancelled_lane lane_command_def c plan flip: st_def del: lane_plan.simps)
qed

lemma made_run:
  obtains tr where "lane_run (\<lambda>x. []) example_config (ls_store empty_system) tr (acquired (js ''main'') empty_system)"
    "orderly_run tr" "own_progress_run tr"
proof -
  have s: "lane_run (\<lambda>x. []) example_config (ls_store empty_system) [] empty_system"
    unfolding empty_system_def lane_system.simps by (rule lane_run.start)
  have "acquired (js ''main'') empty_system = empty_system \<or>
      lane_step (\<lambda>x. []) example_config (Acquired (js ''main'')) empty_system (acquired (js ''main'') empty_system)"
    by (rule acquired_step) (simp add: empty_system_def)
  then show thesis
  proof
    assume "acquired (js ''main'') empty_system = empty_system"
    then show thesis using s that[of "[]"] by (simp add: orderly_run_def own_progress_run_def)
  next
    assume "lane_step (\<lambda>x. []) example_config (Acquired (js ''main'')) empty_system (acquired (js ''main'') empty_system)"
    from lane_run.step[OF s this] show thesis
      by (rule that) (simp_all add: orderly_run_def own_progress_run_def)
  qed
qed

lemma acted_run:
  assumes "lane_run (\<lambda>x. []) example_config st0 tr h" "orderly_run tr" "own_progress_run tr" "unused_id a (ls_store h)"
    "own_progress (Acted name a) h"
  obtains tr' where "lane_run (\<lambda>x. []) example_config st0 tr' (acted name a h)" "orderly_run tr'" "own_progress_run tr'"
  using acted_step[of name a h]
proof
  assume "acted name a h = h"
  then show thesis using assms that by simp
next
  assume "lane_step (\<lambda>x. []) example_config (Acted name a) h (acted name a h)"
  from lane_run.step[OF assms(1) this] show thesis
    by (rule that) (use assms in \<open>simp_all add: orderly_run_def own_progress_run_def\<close>)
qed

lemma cancelled_run:
  obtains tr where "lane_run (\<lambda>x. []) example_config (ls_store empty_system) tr example_cancelled" "orderly_run tr"
    "own_progress_run tr"
proof -
  obtain tr where t: "lane_run (\<lambda>x. []) example_config (ls_store empty_system) tr (acquired (js ''main'') empty_system)"
    "orderly_run tr" "own_progress_run tr" by (rule made_run)
  have prompt: "unused_id example_prompt (ls_store (acquired (js ''main'') empty_system))"
    "own_progress (Acted (js ''main'') example_prompt) (acquired (js ''main'') empty_system)"
    by (simp_all add: example_prompt_def made_lane)
  obtain tr2 where t2: "lane_run (\<lambda>x. []) example_config (ls_store empty_system) tr2 example_running" "orderly_run tr2"
    "own_progress_run tr2"
    unfolding example_running_def by (rule acted_run[OF t prompt])
  have ok: "unused_id (Client (RequestAbort (js ''r'') 7)) (ls_store example_running)"
    "own_progress (Acted (js ''main'') (Client (RequestAbort (js ''r'') 7))) example_running"
    by (simp_all split: option.splits)
  show thesis using that unfolding example_cancelled_def by (rule acted_run[OF t2 ok])
qed

lemma ending_step: "lane_step (\<lambda>x. []) example_config (Acted (js ''main'') (SettleEffect (AbortedTerminal 9))) example_cancelled example_ended"
proof -
  have "example_ended \<noteq> example_cancelled" using cancelled_lane ended_lane by (auto simp: example_lane_def)
  then show ?thesis
    using acted_step[of "js ''main''" "SettleEffect (AbortedTerminal 9)" example_cancelled] unfolding example_ended_def by simp
qed

section \<open>Properties\<close>

text \<open>
  C1. A process with several lanes runs over a storage, in any order of commands, of decisions of drives, of progress, of
  acquisitions and losses of its lanes and of commits of other writers. As long as no operation is accepted under the id of
  one that the storage has, and the other writers leave alone the tip, configuration and state of the lanes that the process
  has and the meta data and state of operations, acquiring a lane from the storage gives exactly the state that the process
  has of it, and writes nothing: a loss of the process loses nothing of a lane. The code checks neither condition.
\<close>
theorem restart_resumes:
  assumes "lane_run dbl cf st0 tr h" "orderly_run tr" "ls_lanes h name = Some lane"
  shows "acquireLane name createAt seed now (ls_store h) = Inr (lane, ls_store h)"
proof -
  have h: "lane_holds name lane (sr_values (ls_store h))" "name \<noteq> [] \<and> 0 \<notin> set name"
    using run_holds[OF assms(1,2)] assms(3) by (auto simp: all_hold_def names_valid_def)
  have "restoreLane (ls_store h) name = Inr lane" by (rule holds_restores[OF h(1)])
  then obtain x where x: "readLaneStorage (ls_store h) name = Inr x"
    "(case x of AbsentLane \<Rightarrow> Inl (MissingTip name) | BranchOnly t \<Rightarrow> Inl (MissingConfig name)
      | ConfiguredLane t c d \<Rightarrow> restoreLaneState (ls_store h) name t c d) = Inr lane"
    by (auto simp: restoreLane_def bindE_eq_Inr)
  then obtain t c d where "readLaneStorage (ls_store h) name = Inr (ConfiguredLane t c d)"
    "restoreLaneState (ls_store h) name t c d = Inr lane"
    by (cases x) auto
  then show ?thesis using h(2) by (auto simp: acquireLane_def)
qed

theorem restart_resumes_witness:
  "acquireLane (js ''main'') None example_seed 1 (ls_store example_cancelled) =
     Inr (example_lane (CancelRequested 7), ls_store example_cancelled)"
proof -
  obtain tr where t: "lane_run (\<lambda>x. []) example_config (ls_store empty_system) tr example_cancelled" "orderly_run tr"
    by (rule cancelled_run)
  show ?thesis by (rule restart_resumes[OF t cancelled_lane])
qed

text \<open>
  C2. When a step takes the operation from a lane, the storage holds its result under its id, the lane names it as its
  last, and nothing else that belongs to the operation is left: no meta data, state, arguments, memos, preparations or
  output of tools, no staged result of a tool, and no frame of any response. This holds in every run over a storage that
  lists its keys and whose frames are those of waiting operations, as an empty one does, as long as accepted ids are unused,
  other writers leave lanes and the records of operations alone, and progress is written by the drive of the operation that
  its lane has.
\<close>
theorem operation_ends_clean:
  assumes "lane_run dbl cf st0 tr h" "orderly_run tr" "own_progress_run tr" "keys_listed st0"
    "frames_owned (sr_values st0) (sr_frames st0)" "lane_step dbl cf l h h'" "ls_lanes h name = Some lane"
    "la_operation lane = Some p" "ls_lanes h' name = Some lane'" "la_operation lane' = None"
  shows "map_option or_operationId (get_result (ls_store h') (operation_id p)) = Some (operation_id p) \<and>
    la_lastOperationId lane' = Some (operation_id p) \<and>
    (operation_key p k \<longrightarrow> sr_values (ls_store h') k = None) \<and>
    sr_frames (ls_store h') (operation_id p, r) = []"
  using step_changes[OF assms(6,7,9)]
proof cases
  case 1
  then show ?thesis using assms(8,10) by simp
next
  case (2 a ws r0 ev now c)
  have h: "lane_holds name lane (sr_values (ls_store h))" "keys_listed (ls_store h)"
    using run_holds[OF assms(1,2)] run_keys[OF assms(1,4)] assms(7) by (auto simp: all_hold_def)
  have o: "frames_owned (sr_values (ls_store h)) (sr_frames (ls_store h))" by (rule run_frames[OF assms(1,2,3,5)])
  have e: "ends_operation name p (ls_store h) ws lane'"
    using actions_end[of name dbl cf a lane "ls_store h"] h(1) assms(8,10) 2(1) unfolding ends_well_def by fastforce
  have last: "la_lastOperationId lane' = Some (operation_id p)" using e unfolding ends_operation_def by blast
  have "sr_values (ls_store h) (StateKey (operation_id p)) = Some (StateValue (op_state p))"
    using h(1) assms(8) by (simp add: lane_holds_def)
  then have "sr_frames (ls_store h') (operation_id p, r) = []"
    unfolding commit_frames[OF 2(2)] by (rule ended_frames[OF e o])
  then show ?thesis using ended_values[OF e h(2) commit_values[OF 2(2)]] last by (auto simp: get_result_def)
qed

theorem operation_ends_clean_witness:
  "map_option or_operationId (get_result (ls_store example_ended) (js ''r'')) = Some (js ''r'') \<and>
   sr_values (ls_store example_ended) (MetaKey (js ''r'')) = None"
proof -
  obtain tr where t: "lane_run (\<lambda>x. []) example_config (ls_store empty_system) tr example_cancelled" "orderly_run tr"
    "own_progress_run tr" by (rule cancelled_run)
  show ?thesis
    using operation_ends_clean[OF t _ _ ending_step cancelled_lane _ ended_lane,
        where p = "\<lparr>op_meta = example_meta, op_state = example_state (CancelRequested 7)\<rparr>" and k = "MetaKey (js ''r'')"]
    by (simp add: example_lane_def example_meta_def operation_id_def operation_key_def id_key_def empty_system_def
        keys_listed_def frames_owned_def)
qed

text \<open>
  C3. Once the cancellation of an operation has been asked for, no step renews it, of its lane, of another or of another
  writer: it stays as it was asked for, and when a step takes it from its lane its result is an abort.
\<close>
theorem cancelled_only_aborts:
  assumes "lane_step dbl cf l h h'" "ls_lanes h name = Some lane" "la_operation lane = Some p" "cancelled (op_state p)"
    "ls_lanes h' name = Some lane'"
  shows "case la_operation lane' of
      Some q \<Rightarrow> op_meta q = op_meta p \<and> control_of q = control_of p
    | None \<Rightarrow> map_option or_status (get_result (ls_store h') (operation_id p)) = Some AbortedStatus"
  using step_changes[OF assms(1,2,5)]
proof cases
  case 1
  then show ?thesis using assms(3) by simp
next
  case (2 a ws r ev now c)
  show ?thesis using actions_stay[OF assms(3,4) 2(1)] commit_values[OF 2(2), of "ResultKey (operation_id p)"]
    by (auto simp: stays_cancelled_def get_result_def split: option.splits)
qed

theorem cancelled_only_aborts_witness:
  "map_option or_status (get_result (ls_store example_ended) (js ''r'')) = Some AbortedStatus"
  using cancelled_only_aborts[OF ending_step cancelled_lane _ _ ended_lane]
  by (simp add: example_lane_def example_meta_def example_state_def operation_id_def cancelled_def)

end
