(* ===== verification/Spec2Isabelle.thy ===== *)
theory Spec2Isabelle
  imports Codec DeltaDiff DeltaCodec DurableScan SessionClient MutationLine ForkSnapshot BranchSummary OutputRefines EditDiff DiffDisplay FrameReplay JsonRepair
    Agent StdinBuffer LaneEnd
begin

text \<open>
  A verification library for the pi monorepo (\<open>packages/\<close>), a toolkit for coding agents in TypeScript. What is modelled is
  the part of the program whose promises are about data and state rather than about processes, files and screens:

  \<^item> how messages travel: a CBOR codec, frames on a byte stream, and deltas of JSON states (\<open>protocol\<close>, \<open>chord\<close>);
  \<^item> how sessions are kept: a durable store of records, and the storage of a session with its tree of entries, commits,
    branches, forks and the line that serialises changes (\<open>durable\<close>, \<open>agent/src/harness/session\<close>);
  \<^item> what a model sees: the context of a branch, its conversion, compaction and summaries of branches, the declaration of
    system prompts and tools in a transcript (\<open>agent/src/harness\<close>, \<open>ai/src/utils\<close>);
  \<^item> how an agent runs: the loop of turns, tool batches one after the other or at once, the agent object with its queues
    (\<open>agent/src\<close>), and the frames in which a response is streamed (\<open>ai/src/utils\<close>);
  \<^item> what tools and terminals do to text: truncation, capture of output, edits and their display (\<open>agent/src/harness\<close>), and the
    splitting of terminal input (\<open>tui/src\<close>).

  Section by section, a theory per component, each with the names of the source.

  \<^bold>\<open>Generic theories.\<close> Prelude: the collections of hints and lemmas on lists, options and results that the rest shares.
  JsValue: JavaScript strings as lists of 16-bit code units, numbers, and the heap of objects that the encoder walks.
  Bytes: bytes and big-endian integers. Json: JSON values with objects as ordered maps, since JavaScript keeps the order of
  insertion. SortedIds: the sorted id arrays of the durable store, with the interface \<open>id_index\<close>. Forest: parents that are
  stored before their children, as \<open>parent_forest\<close>, in which every walk towards the root ends and the path to the root is
  unique.

  \<^bold>\<open>Messages on the wire.\<close> Framing (\<open>protocol/src/framing.ts\<close>): length-prefixed frames, their encoder and the incremental
  decoder, which refines a parser of the whole stream. Cbor (\<open>protocol/src/cbor\<close>): the encoder over an object heap with its
  detection of cycles and limits, and the decoder; the encoder agrees with a reference writer, and decoding inverts it.
  Codec (\<open>protocol/src/codec.ts\<close>): messages, over any \<open>payload_codec\<close>; a stream cut anywhere gives the messages back.
  Delta, DeltaDiff, DeltaCodec (\<open>chord/src/delta/index.ts\<close>): the operations on JSON states, their application with every
  refusal, the difference of two states (applying it gives the second), and the wire form that interns paths.

  \<^bold>\<open>The durable store.\<close> DurableStorage, DurableInvariant, DurableScan (\<open>durable/src/memory-storage.ts\<close>): conversations,
  entries, tasks and heads; every operation with its refusals keeps \<open>storage_inv\<close>; pages follow one another without gap or
  repetition by the interface \<open>keyset_paging\<close>, and walks along parents end.

  \<^bold>\<open>Sessions.\<close> Messages (\<open>ai/src/types.ts\<close>, \<open>harness/messages.ts\<close>), SessionTypes (\<open>session/types.ts\<close>, \<open>values.ts\<close>,
  \<open>commit.ts\<close>), SessionState (\<open>in-memory-storage-state.ts\<close>): the state and every operation on it. SessionInvariant and
  SessionCommit: \<open>session_inv\<close>, what a commit checks and does. SessionBranch: scans of a branch are the path to the root.
  SessionFork, SessionForkCopy, ForkSnapshot (\<open>fork-policy.ts\<close>, \<open>fork.ts\<close>): which entries a fork keeps, and that the two
  ways of copying agree. SessionReach: the reachable states. SessionLayer and SessionClient (\<open>session.ts\<close>): what clients
  call, over any storage of the interface \<open>session_storage\<close>, interpreted on the memory storage. MutationLine
  (\<open>mutation-line.ts\<close>): the chain of promises on which callers wait, each with its reactions, as a step relation that refines
  an abstract queue; at most one caller is inside, in the order of their calls, and a sealed line drains.

  \<^bold>\<open>What the model sees.\<close> ContextBuild (\<open>session/context.ts\<close>), JsonText (the text of \<open>JSON.stringify\<close>), Tokens, FileOps,
  Compaction (\<open>compaction/compaction.ts\<close>, \<open>utils.ts\<close>): token accounting, cut points, preparation: the parts are the branch, no
  tool result is separated from its call, and the compacted context continues at the kept part. BranchSummary
  (\<open>branch-summarization.ts\<close>). Transcript (\<open>ai/src/utils/transcript.ts\<close>, \<open>text.ts\<close>): replay and collapse of system messages.
  MessageFrames, FrameReplay (\<open>ai/src/utils/assistant-message-frame.ts\<close>): the frames of a streamed response, and that
  replaying them gives the response. JsonRepair (\<open>json-parse.ts\<close>): what the repair of model output leaves untouched.

  \<^bold>\<open>The agent.\<close> AgentTypes (\<open>agent/src/types.ts\<close>), ToolExecution and AgentLoop (\<open>agent-loop.ts\<close>): a run is a function of a
  \<open>host\<close>, a record of the callbacks the loop is given, over an arbitrary world \<open>'w\<close> which the callbacks read and change.
  HostInvariants: a property of the world and the events that each callback keeps holds after a run. AgentRuns: a run ends
  when the world has a budget, and has the shape it promises. Agent (\<open>agent.ts\<close>): the agent with its queues is the world
  of its own run; its transcript, built from events only, is the context the loop built.

  \<^bold>\<open>Lanes and drives\<close> (\<open>agent/src/harness/runtime\<close>). LaneTypes has the durable data of a lane: configuration, inbox, and the
  operation with its thirteen states; LaneStore the storage as a lane sees it and \<open>restore.ts\<close>; LaneEvents the events and
  \<open>transcript.ts\<close>. LaneDecision is how a lane decides (\<open>command\<close>, \<open>settleOperation\<close>, \<open>continueOperation\<close> of \<open>lane.ts\<close>): a
  planner reads the lane and the storage and gives writes, a next state and events; LaneCommands has the planners of a
  client (\<open>lane.ts\<close>, \<open>harness.ts\<close>), DriveRun, DriveResponse, DriveTools and DriveStructural those of the procedures under
  \<open>drive/\<close>. What hooks, providers and tools answered before, new ids and the time are arguments of a planner. LaneRestore
  says what the storage holds of a lane, LanePlanners that every decision of a drive keeps it, LaneSystem puts all
  decisions into one type of actions and shows that each keeps its lane, LaneFrames that each keeps the frames of a response
  with the operation that waits for it. LaneReach is the step relation of several lanes over one storage, with the loss of
  the process and the commits of other writers as steps. Two things the code leaves to its callers, and they are conditions
  on a run (\<open>orderly\<close>): that the id of an accepted operation is unused, and that other writers leave alone what is a
  lane's; \<open>taken_id_breaks_lane\<close> and \<open>moved_tip_breaks_lane\<close> show what happens otherwise. LaneEnd has the properties: a lane
  that is acquired again is the lane that was lost, an operation that ends leaves only its result, and a cancelled operation
  can only end aborted.

  \<^bold>\<open>Text.\<close> Utf8Length, Truncate (\<open>utils/truncate.ts\<close>), OutputCapture and OutputRefines (\<open>utils/output-capture.ts\<close>): the
  bounded buffer shows what truncating the whole output would. EditDiff and DiffDisplay (\<open>tools/edit-diff.ts\<close>): exact and
  fuzzy replacement of text, overlays on untouched lines, and the displayed difference. StdinBuffer
  (\<open>tui/src/stdin-buffer.ts\<close>): the cutting of terminal input into sequences, keys and pastes, whatever the chunks.

  \<^bold>\<open>How the code is translated.\<close> A method is a function of the state record, which it returns; a thrown error is the left
  side of a sum and leaves the state as the code leaves it; a \<open>Map\<close> or \<open>Set\<close> that is iterated is a list in order of insertion,
  one that is only looked up a map. Strings are lists of code units, bytes are words of 8 bits, CBOR lengths and arguments
  are kept at their width. Sequence numbers, timestamps, token counts and limits are whole numbers. What a library or the
  platform computes is an argument: the schema check, \<open>Date.now\<close>, the texts of doubles, Unicode normalisation, the word
  and line difference, \<open>JSON.parse\<close> and the partial parser, model costs with their addition. An awaited callback is a
  function of the world; where calls run at the same time, the order in which they advance is an argument (\<open>ho_schedule\<close> in
  ToolExecution chooses the call that moves next), or the steps of a relation (MutationLine, LaneReach).

  \<^bold>\<open>Loops and bounds.\<close> Loops are structural recursion or functions with a measure. Walks along parents take fuel: the
  number of entries and one more, which the forest property shows to be enough, since a parent is stored before its child
  (\<open>scanBranch\<close>, fork walks, ancestors of conversations; the walk of \<open>collectEntriesForBranchSummary\<close> takes the length of the old path).
  The loop of an agent need not end; it is a partial function, and \<open>agent_run_ends\<close> shows that it returns when the world
  spends a budget with each response. The splitting of terminal input is total: every paste shortens what is held.

  \<^bold>\<open>Not modelled.\<close> Everything that is input, output or live concurrency: sockets, files, processes, terminals and widgets,
  the adapters of model providers and their generated catalogues, authentication, the file and SQL backends of sessions,
  plugins and packages, and the front ends. Of the components above: the tracker of \<open>chord/src/delta/index.ts\<close>, whose proxies
  record operations by the identity of live objects; the closing of a session and the timing of output publication,
  which are promises and timers; the calls that ask a model for a summary; the unified patch text, made by a library.
  Of \<open>agent/src/harness/runtime\<close>: the loop of a drive and its waiting for hooks, providers and tools, owners of an idle
  lane, closing, watches with their snapshots and \<open>reducer.ts\<close>; the ids in an address are taken to contain no colon, and
  the totals of usage stand as the rows they sum. The experiments under \<open>pico3\<close>.
\<close>

end
